(* ===== verification/Prelude.thy ===== *)
theory Prelude
  imports Main "HOL-Library.Word"
begin

text \<open>
  Shared vocabulary of the development: the machine integer types of the C sources, the
  outcomes a C function can have besides returning (\<open>c_error\<close>), bounds-checked access to
  byte buffers, unsigned arithmetic at a fixed width on \<^typ>\<open>nat\<close>, and the generic lemmas on
  lists and words that the components use.  The collections \<open>size_arith\<close> (unsigned
  arithmetic), \<open>mem_simps\<close> (buffer accesses) and \<open>byte_simps\<close> (splitting words into bytes)
  carry most component proofs.
\<close>

unbundle bit_operations_syntax

named_theorems size_arith "unsigned arithmetic at a fixed width"
named_theorems mem_simps "bounds-checked buffer accesses"
named_theorems byte_simps "bytes of a machine word"

section \<open>Types and outcomes\<close>

type_synonym u8 = "8 word"
type_synonym u16 = "16 word"
type_synonym u32 = "32 word"
type_synonym u64 = "64 word"

text \<open>
  What can happen instead of returning: an assertion of lib/zassert.h fails (the process
  logs and aborts), an allocation fails (lib/memory.c aborts), an access outside an object,
  or a signed addition that leaves the range of the type.
\<close>

datatype c_error = Assert_failed | Alloc_failed | Mem_fault | Int_overflow

type_synonym 'a res = "c_error + 'a"

definition bindR :: "'a res \<Rightarrow> ('a \<Rightarrow> 'b res) \<Rightarrow> 'b res" where
  "bindR m f = (case m of Inl e \<Rightarrow> Inl e | Inr x \<Rightarrow> f x)"

lemma bindR_simps [simp]:
  "bindR (Inl e) f = Inl e"
  "bindR (Inr x) f = f x"
  by (simp_all add: bindR_def)

lemma bindR_eq_Inr: "bindR m f = Inr y \<longleftrightarrow> (\<exists>x. m = Inr x \<and> f x = Inr y)"
  by (cases m) auto

lemma bindR_eq_Inl: "bindR m f = Inl e \<longleftrightarrow> m = Inl e \<or> (\<exists>x. m = Inr x \<and> f x = Inl e)"
  by (cases m) auto

lemma bindR_if [simp]: "bindR (if b then m else m') f = (if b then bindR m f else bindR m' f)"
  by simp

lemma bindR_assoc [simp]: "bindR (bindR m f) g = bindR m (\<lambda>x. bindR (f x) g)"
  by (cases m) auto

section \<open>Unsigned arithmetic at a fixed width\<close>

text \<open>
  A \<open>size_t\<close> is a \<^typ>\<open>nat\<close> below \<open>2 ^ 64\<close>, an \<open>unsigned int\<close> a \<^typ>\<open>nat\<close> below
  \<open>2 ^ 32\<close>; sums and differences are reduced modulo the width, as C prescribes.
\<close>

definition uadd :: "nat \<Rightarrow> nat \<Rightarrow> nat \<Rightarrow> nat" where
  "uadd w a b = (a + b) mod 2 ^ w"

definition usub :: "nat \<Rightarrow> nat \<Rightarrow> nat \<Rightarrow> nat" where
  "usub w a b = (a + (2 ^ w - b mod 2 ^ w)) mod 2 ^ w"

definition umul :: "nat \<Rightarrow> nat \<Rightarrow> nat \<Rightarrow> nat" where
  "umul w a b = (a * b) mod 2 ^ w"

abbreviation szadd :: "nat \<Rightarrow> nat \<Rightarrow> nat" where "szadd \<equiv> uadd 64"
abbreviation szsub :: "nat \<Rightarrow> nat \<Rightarrow> nat" where "szsub \<equiv> usub 64"

lemma uadd_eq [size_arith]: "a + b < 2 ^ w \<Longrightarrow> uadd w a b = a + b"
  by (simp add: uadd_def)

lemma usub_eq [size_arith]: "b \<le> a \<Longrightarrow> a < 2 ^ w \<Longrightarrow> usub w a b = a - b"
proof -
  assume ba: "b \<le> a" and a: "a < 2 ^ w"
  then have "a + (2 ^ w - b) = (a - b) + 2 ^ w" and "b mod 2 ^ w = b" by simp_all
  then have "usub w a b = (a - b + 2 ^ w) mod 2 ^ w" by (simp only: usub_def)
  with a show ?thesis by simp
qed

lemma umul_eq [size_arith]: "a * b < 2 ^ w \<Longrightarrow> umul w a b = a * b"
  by (simp add: umul_def)

lemma uadd_less [simp]: "uadd w a b < 2 ^ w"
  by (simp add: uadd_def)

lemma usub_less [simp]: "usub w a b < 2 ^ w"
  by (simp add: usub_def)

text \<open>Counters that are kept modulo their width.\<close>

lemma uadd_mod: "uadd w (s mod 2 ^ w) 1 = Suc s mod 2 ^ w"
  by (simp add: uadd_def mod_Suc_eq)

lemma usub_mod: "usub w (Suc s mod 2 ^ w) 1 = s mod 2 ^ w" if "0 < w"
proof -
  have "(1 :: nat) mod 2 ^ w = 1" using that by simp
  then have "usub w (Suc s mod 2 ^ w) 1 = (Suc s mod 2 ^ w + (2 ^ w - 1)) mod 2 ^ w"
    by (simp only: usub_def)
  also have "\<dots> = (Suc s + (2 ^ w - 1)) mod 2 ^ w" by (rule mod_add_left_eq)
  also have "Suc s + (2 ^ w - 1) = s + 2 ^ w" by simp
  finally show ?thesis by simp
qed

text \<open>The remainder of C: it has the sign of the dividend.\<close>

definition c_rem :: "int \<Rightarrow> int \<Rightarrow> int" where
  "c_rem a b = sgn a * (\<bar>a\<bar> mod \<bar>b\<bar>)"

definition INT_MAX :: int where
  "INT_MAX = 2 ^ 31 - 1"

text \<open>Signed addition and multiplication: leaving the range of \<open>int\<close> is undefined behaviour.\<close>

definition int_add :: "int \<Rightarrow> int \<Rightarrow> int res" where
  "int_add a b = (if - INT_MAX - 1 \<le> a + b \<and> a + b \<le> INT_MAX then Inr (a + b) else Inl Int_overflow)"

definition int_mul :: "int \<Rightarrow> int \<Rightarrow> int res" where
  "int_mul a b = (if - INT_MAX - 1 \<le> a * b \<and> a * b \<le> INT_MAX then Inr (a * b) else Inl Int_overflow)"

text \<open>
  An \<open>int\<close> that is incremented, decremented or converted to at 32 bits: the value the machine
  keeps.
\<close>

definition int_wrap :: "int \<Rightarrow> int" where
  "int_wrap a = (a + 2 ^ 31) mod 2 ^ 32 - 2 ^ 31"

lemma int_wrap_small: "- (2 ^ 31) \<le> a \<Longrightarrow> a < 2 ^ 31 \<Longrightarrow> int_wrap a = a"
  by (simp add: int_wrap_def)

lemma int_wrap_step [simp]:
  "int_wrap (int_wrap a + b) = int_wrap (a + b)" "int_wrap (b + int_wrap a) = int_wrap (b + a)"
  "int_wrap (int_wrap a - b) = int_wrap (a - b)"
proof -
  have "((a + 2 ^ 31) mod 2 ^ 32 + c) mod 2 ^ 32 = (a + 2 ^ 31 + c) mod 2 ^ 32" for c :: int
    by (rule mod_add_left_eq)
  from this [of b] this [of "- b"] show "int_wrap (int_wrap a + b) = int_wrap (a + b)"
    "int_wrap (b + int_wrap a) = int_wrap (b + a)" "int_wrap (int_wrap a - b) = int_wrap (a - b)"
    by (simp_all add: int_wrap_def algebra_simps)
qed

lemma c_rem_mod: "c_rem a b mod b = a mod b" if "0 < b"
proof (cases "0 \<le> a")
  case True
  then show ?thesis using that by (cases "a = 0") (auto simp: c_rem_def)
next
  case False
  then have "c_rem a b = - ((- a) mod b)" using that by (simp add: c_rem_def)
  then show ?thesis by (simp add: mod_minus_eq)
qed

lemma c_rem_bounds: "0 < b \<Longrightarrow> - b < c_rem a b" "0 < b \<Longrightarrow> c_rem a b < b"
  by (auto simp: c_rem_def sgn_if) (smt (verit) pos_mod_bound pos_mod_sign)+

section \<open>Bounds-checked buffers\<close>

text \<open>
  \<open>mem_read d off n\<close> reads \<open>n\<close> bytes at \<open>off\<close>; \<open>mem_write d off bs\<close> stores the bytes
  \<open>bs\<close> there.  Both fail when a byte lies outside the object.
\<close>

definition mem_read :: "'a list \<Rightarrow> nat \<Rightarrow> nat \<Rightarrow> 'a list res" where
  "mem_read d off n = (if off + n \<le> length d then Inr (take n (drop off d)) else Inl Mem_fault)"

definition mem_write :: "'a list \<Rightarrow> nat \<Rightarrow> 'a list \<Rightarrow> 'a list res" where
  "mem_write d off bs =
     (if off + length bs \<le> length d then Inr (take off d @ bs @ drop (off + length bs) d)
      else Inl Mem_fault)"

definition mem_get :: "'a list \<Rightarrow> nat \<Rightarrow> 'a res" where
  "mem_get d i = (if i < length d then Inr (d ! i) else Inl Mem_fault)"

definition mem_set :: "'a list \<Rightarrow> nat \<Rightarrow> 'a \<Rightarrow> 'a list res" where
  "mem_set d i v = (if i < length d then Inr (d[i := v]) else Inl Mem_fault)"

lemma mem_read_ok [mem_simps]: "off + n \<le> length d \<Longrightarrow> mem_read d off n = Inr (take n (drop off d))"
  by (simp add: mem_read_def)

lemma mem_write_ok [mem_simps]:
  "off + length bs \<le> length d \<Longrightarrow>
   mem_write d off bs = Inr (take off d @ bs @ drop (off + length bs) d)"
  by (simp add: mem_write_def)

lemma mem_get_ok [mem_simps]: "i < length d \<Longrightarrow> mem_get d i = Inr (d ! i)"
  by (simp add: mem_get_def)

lemma mem_set_ok [mem_simps]: "i < length d \<Longrightarrow> mem_set d i v = Inr (d[i := v])"
  by (simp add: mem_set_def)

lemma mem_first_ok [mem_simps]:
  "d \<noteq> [] \<Longrightarrow> mem_get d 0 = Inr (d ! 0)" "d \<noteq> [] \<Longrightarrow> mem_set d 0 v = Inr (d[0 := v])"
  by (simp_all add: mem_get_def mem_set_def)

lemma mem_get_eq_Inr: "mem_get d i = Inr v \<longleftrightarrow> i < length d \<and> v = d ! i"
  by (auto simp: mem_get_def)

lemma mem_set_eq_Inr: "mem_set d i v = Inr d' \<longleftrightarrow> i < length d \<and> d' = d[i := v]"
  by (auto simp: mem_set_def)

lemma mem_write_length: "mem_write d off bs = Inr d' \<Longrightarrow> length d' = length d"
  by (auto simp: mem_write_def split: if_splits)

lemma overwrite_length [simp]:
  "off + length bs \<le> length d \<Longrightarrow> length (take off d @ bs @ drop (off + length bs) d) = length d"
  by simp

lemma overwrite_take [simp]:
  "off \<le> length d \<Longrightarrow> take off (take off d @ bs @ drop k d) = take off d"
  by simp

section \<open>Bytes of a machine word\<close>

text \<open>The byte of \<open>w\<close> at bit position \<open>k\<close>, put back at its place.\<close>

lemma byte_field: "push_bit k (ucast (ucast (drop_bit k w) :: u8)) = w AND push_bit k (mask 8)"
  for w :: "'a::len word"
  by (rule bit_word_eqI) (auto simp: bit_simps)

lemma byte_field_0: "ucast (ucast w :: u8) = w AND mask 8"
  for w :: "'a::len word"
  by (rule bit_word_eqI) (auto simp: bit_simps)

definition be16 :: "u8 \<Rightarrow> u8 \<Rightarrow> u16" where
  "be16 a b = push_bit 8 (ucast a) OR ucast b"

definition be32 :: "u8 \<Rightarrow> u8 \<Rightarrow> u8 \<Rightarrow> u8 \<Rightarrow> u32" where
  "be32 a b c d =
     push_bit 24 (ucast a) OR push_bit 16 (ucast b) OR push_bit 8 (ucast c) OR ucast d"

definition be64 :: "u8 \<Rightarrow> u8 \<Rightarrow> u8 \<Rightarrow> u8 \<Rightarrow> u8 \<Rightarrow> u8 \<Rightarrow> u8 \<Rightarrow> u8 \<Rightarrow> u64" where
  "be64 a b c d e f g h =
     push_bit 56 (ucast a) OR push_bit 48 (ucast b) OR push_bit 40 (ucast c) OR
     push_bit 32 (ucast d) OR push_bit 24 (ucast e) OR push_bit 16 (ucast f) OR
     push_bit 8 (ucast g) OR ucast h"

lemma and_full [byte_simps]:
  "(w16 :: u16) AND 0xFFFF = w16"
  "(w32 :: u32) AND 0xFFFFFFFF = w32"
  "(w64 :: u64) AND 0xFFFFFFFFFFFFFFFF = w64"
proof -
  have "(0xFFFF :: u16) = -1" "(0xFFFFFFFF :: u32) = -1" "(0xFFFFFFFFFFFFFFFF :: u64) = -1"
    by simp_all
  then show "w16 AND 0xFFFF = w16" "w32 AND 0xFFFFFFFF = w32"
    "w64 AND 0xFFFFFFFFFFFFFFFF = w64" by (simp_all only: bit.conj_one_right)
qed

lemma be16_split [byte_simps]: "be16 (ucast (drop_bit 8 w)) (ucast w) = w"
  unfolding be16_def unfolding byte_field unfolding byte_field_0
  by (simp add: mask_eq_exp_minus_1 and_full flip: bit.conj_disj_distrib)

lemma be32_split [byte_simps]:
  "be32 (ucast (drop_bit 24 w)) (ucast (drop_bit 16 w)) (ucast (drop_bit 8 w)) (ucast w) = w"
  unfolding be32_def unfolding byte_field unfolding byte_field_0
  by (simp add: mask_eq_exp_minus_1 and_full flip: bit.conj_disj_distrib)

lemma be64_split [byte_simps]:
  "be64 (ucast (drop_bit 56 w)) (ucast (drop_bit 48 w)) (ucast (drop_bit 40 w))
     (ucast (drop_bit 32 w)) (ucast (drop_bit 24 w)) (ucast (drop_bit 16 w))
     (ucast (drop_bit 8 w)) (ucast w) = w"
  unfolding be64_def unfolding byte_field unfolding byte_field_0
  by (simp add: mask_eq_exp_minus_1 and_full flip: bit.conj_disj_distrib)

end
