(* ===== verification/Packet_Stream.thy ===== *)
theory Packet_Stream
  imports Prelude
begin

text \<open>
  lib/stream.c: the packet buffer every daemon encodes to and decodes from.  A stream is a
  byte array with a read position \<open>getp\<close> and a write position \<open>endp\<close>; every operation first
  checks \<open>getp \<le> endp \<le> size\<close> (macro \<open>STREAM_VERIFY_SANE\<close>) and then its own bounds, and a
  failed check aborts (\<open>STREAM_BOUND_WARN\<close> ends in \<open>assert (0)\<close>), which is the outcome
  \<^const>\<open>Assert_failed\<close>.  An access the checks let through but that lies outside the array is
  \<^const>\<open>Mem_fault\<close>.  Offsets are \<open>size_t\<close>, so their sums are taken modulo \<open>2 ^ 64\<close>.
  Memory obtained from \<open>malloc\<close> and \<open>realloc\<close> has unknown contents, the parameter \<open>junk\<close>.
\<close>

section \<open>The stream structure and its macros\<close>

record stream =
  getp :: nat
  endp :: nat
  ssize :: nat
  data :: "u8 list"

definition GETP_VALID :: "stream \<Rightarrow> nat \<Rightarrow> bool" where
  "GETP_VALID s g \<longleftrightarrow> g \<le> endp s"

definition ENDP_VALID :: "stream \<Rightarrow> nat \<Rightarrow> bool" where
  "ENDP_VALID s e \<longleftrightarrow> e \<le> ssize s"

definition STREAM_SANE :: "stream \<Rightarrow> bool" where
  "STREAM_SANE s \<longleftrightarrow> GETP_VALID s (getp s) \<and> ENDP_VALID s (endp s)"

definition STREAM_WRITEABLE :: "stream \<Rightarrow> nat" where
  "STREAM_WRITEABLE s = szsub (ssize s) (endp s)"

definition STREAM_READABLE :: "stream \<Rightarrow> nat" where
  "STREAM_READABLE s = szsub (endp s) (getp s)"

definition CHECK_SIZE :: "stream \<Rightarrow> nat \<Rightarrow> nat" where
  "CHECK_SIZE s z = (if szadd (endp s) z > ssize s then szsub (ssize s) (endp s) else z)"

section \<open>Allocation, copying and positions\<close>

definition stream_new :: "(nat \<Rightarrow> u8) \<Rightarrow> nat \<Rightarrow> stream res" where
  "stream_new junk n =
     (if n = 0 then Inl Assert_failed
      else Inr \<lparr>getp = 0, endp = 0, ssize = n, data = map junk [0..<n]\<rparr>)"

definition stream_copy :: "stream \<Rightarrow> stream \<Rightarrow> stream res" where
  "stream_copy new src =
     (if \<not> STREAM_SANE src then Inl Assert_failed
      else if \<not> ssize new \<ge> endp src then Inl Assert_failed
      else bindR (mem_read (data src) 0 (endp src)) (\<lambda>bs.
           bindR (mem_write (data new) 0 bs) (\<lambda>d.
           Inr (new\<lparr>endp := endp src, getp := getp src, data := d\<rparr>))))"

definition stream_dup :: "(nat \<Rightarrow> u8) \<Rightarrow> stream \<Rightarrow> stream res" where
  "stream_dup junk s =
     (if \<not> STREAM_SANE s then Inl Assert_failed
      else bindR (stream_new junk (endp s)) (\<lambda>new. stream_copy new s))"

definition stream_dupcat :: "(nat \<Rightarrow> u8) \<Rightarrow> stream \<Rightarrow> stream \<Rightarrow> nat \<Rightarrow> stream res" where
  "stream_dupcat junk s1 s2 offset =
     (if \<not> STREAM_SANE s1 then Inl Assert_failed
      else if \<not> STREAM_SANE s2 then Inl Assert_failed
      else bindR (stream_new junk (szadd (endp s1) (endp s2))) (\<lambda>new.
           bindR (mem_read (data s1) 0 offset) (\<lambda>b1.
           bindR (mem_write (data new) 0 b1) (\<lambda>d1.
           bindR (mem_read (data s2) 0 (endp s2)) (\<lambda>b2.
           bindR (mem_write d1 offset b2) (\<lambda>d2.
           bindR (mem_read (data s1) offset (szsub (endp s1) offset)) (\<lambda>b3.
           bindR (mem_write d2 (offset + endp s2) b3) (\<lambda>d3.
           Inr (new\<lparr>data := d3, endp := szadd (endp s1) (endp s2)\<rparr>)))))))))"

definition stream_resize :: "(nat \<Rightarrow> u8) \<Rightarrow> stream \<Rightarrow> nat \<Rightarrow> (nat \<times> stream) res" where
  "stream_resize junk s newsize =
     (if \<not> STREAM_SANE s then Inl Assert_failed
      else if newsize = 0 then Inl Alloc_failed
      else let newdata = take newsize (data s) @ map junk [length (data s)..<newsize];
               e = (if endp s > newsize then newsize else endp s);
               g = (if getp s > e then e else getp s);
               s' = s\<lparr>data := newdata, ssize := newsize, endp := e, getp := g\<rparr>
           in if \<not> STREAM_SANE s' then Inl Assert_failed else Inr (newsize, s'))"

definition stream_get_getp :: "stream \<Rightarrow> nat res" where
  "stream_get_getp s = (if \<not> STREAM_SANE s then Inl Assert_failed else Inr (getp s))"

definition stream_get_endp :: "stream \<Rightarrow> nat res" where
  "stream_get_endp s = (if \<not> STREAM_SANE s then Inl Assert_failed else Inr (endp s))"

definition stream_get_size :: "stream \<Rightarrow> nat res" where
  "stream_get_size s = (if \<not> STREAM_SANE s then Inl Assert_failed else Inr (ssize s))"

definition stream_set_getp :: "stream \<Rightarrow> nat \<Rightarrow> stream res" where
  "stream_set_getp s pos =
     (if \<not> STREAM_SANE s then Inl Assert_failed
      else if \<not> GETP_VALID s pos then Inl Assert_failed
      else Inr (s\<lparr>getp := pos\<rparr>))"

definition stream_set_endp :: "stream \<Rightarrow> nat \<Rightarrow> stream res" where
  "stream_set_endp s pos =
     (if \<not> STREAM_SANE s then Inl Assert_failed
      else if \<not> ENDP_VALID s pos then Inl Assert_failed
      else if getp s > pos then Inl Assert_failed
      else let s' = s\<lparr>endp := pos\<rparr>
           in if \<not> STREAM_SANE s' then Inl Assert_failed else Inr s')"

definition stream_forward_getp :: "stream \<Rightarrow> nat \<Rightarrow> stream res" where
  "stream_forward_getp s n =
     (if \<not> STREAM_SANE s then Inl Assert_failed
      else if \<not> GETP_VALID s (szadd (getp s) n) then Inl Assert_failed
      else Inr (s\<lparr>getp := szadd (getp s) n\<rparr>))"

definition stream_forward_endp :: "stream \<Rightarrow> nat \<Rightarrow> stream res" where
  "stream_forward_endp s n =
     (if \<not> STREAM_SANE s then Inl Assert_failed
      else if \<not> ENDP_VALID s (szadd (endp s) n) then Inl Assert_failed
      else Inr (s\<lparr>endp := szadd (endp s) n\<rparr>))"

section \<open>Reading\<close>

text \<open>
  The readers that advance \<open>getp\<close> share their checks; \<open>stream_take n s\<close> is that common
  part: verify, test \<open>STREAM_READABLE (s) < n\<close>, read \<open>n\<close> bytes at \<open>getp\<close> and advance.
\<close>

definition stream_take :: "nat \<Rightarrow> stream \<Rightarrow> (u8 list \<times> stream) res" where
  "stream_take n s =
     (if \<not> STREAM_SANE s then Inl Assert_failed
      else if STREAM_READABLE s < n then Inl Assert_failed
      else bindR (mem_read (data s) (getp s) n) (\<lambda>bs.
           Inr (bs, s\<lparr>getp := szadd (getp s) n\<rparr>)))"

definition stream_get :: "stream \<Rightarrow> nat \<Rightarrow> (u8 list \<times> stream) res" where
  "stream_get s n = stream_take n s"

definition stream_getc :: "stream \<Rightarrow> (u8 \<times> stream) res" where
  "stream_getc s = bindR (stream_take 1 s) (\<lambda>(bs, s'). Inr (bs ! 0, s'))"

definition stream_getw :: "stream \<Rightarrow> (u16 \<times> stream) res" where
  "stream_getw s = bindR (stream_take 2 s) (\<lambda>(bs, s'). Inr (be16 (bs ! 0) (bs ! 1), s'))"

definition stream_getl :: "stream \<Rightarrow> (u32 \<times> stream) res" where
  "stream_getl s =
     bindR (stream_take 4 s) (\<lambda>(bs, s'). Inr (be32 (bs ! 0) (bs ! 1) (bs ! 2) (bs ! 3), s'))"

definition stream_getq :: "stream \<Rightarrow> (u64 \<times> stream) res" where
  "stream_getq s =
     bindR (stream_take 8 s) (\<lambda>(bs, s').
       Inr (be64 (bs ! 0) (bs ! 1) (bs ! 2) (bs ! 3) (bs ! 4) (bs ! 5) (bs ! 6) (bs ! 7), s'))"

text \<open>
  An IPv4 address is copied byte by byte between the stream and a \<open>struct in_addr\<close>; it is
  kept as its four bytes in memory order (network byte order).
\<close>

definition stream_get_ipv4 :: "stream \<Rightarrow> (u8 list \<times> stream) res" where
  "stream_get_ipv4 s = stream_take 4 s"

text \<open>The readers at a given offset: the check is on \<open>from + sizeof (type)\<close> as a \<open>size_t\<close>.\<close>

definition stream_peek :: "stream \<Rightarrow> nat \<Rightarrow> nat \<Rightarrow> u8 list res" where
  "stream_peek s from n =
     (if \<not> STREAM_SANE s then Inl Assert_failed
      else if \<not> GETP_VALID s (szadd from n) then Inl Assert_failed
      else mem_read (data s) from n)"

definition stream_getc_from :: "stream \<Rightarrow> nat \<Rightarrow> u8 res" where
  "stream_getc_from s from = bindR (stream_peek s from 1) (\<lambda>bs. Inr (bs ! 0))"

definition stream_getw_from :: "stream \<Rightarrow> nat \<Rightarrow> u16 res" where
  "stream_getw_from s from =
     bindR (stream_peek s from 2) (\<lambda>bs. Inr (be16 (bs ! 0) (bs ! 1)))"

definition stream_getl_from :: "stream \<Rightarrow> nat \<Rightarrow> u32 res" where
  "stream_getl_from s from =
     bindR (stream_peek s from 4) (\<lambda>bs. Inr (be32 (bs ! 0) (bs ! 1) (bs ! 2) (bs ! 3)))"

definition stream_getq_from :: "stream \<Rightarrow> nat \<Rightarrow> u64 res" where
  "stream_getq_from s from =
     bindR (stream_peek s from 8) (\<lambda>bs.
       Inr (be64 (bs ! 0) (bs ! 1) (bs ! 2) (bs ! 3) (bs ! 4) (bs ! 5) (bs ! 6) (bs ! 7)))"

section \<open>Writing\<close>

text \<open>
  \<open>stream_append bs s\<close> is the common part of the writers at \<open>endp\<close>, \<open>stream_poke s putp bs\<close>
  that of the writers at a given offset.
\<close>

definition stream_append :: "u8 list \<Rightarrow> stream \<Rightarrow> stream res" where
  "stream_append bs s =
     (if \<not> STREAM_SANE s then Inl Assert_failed
      else if STREAM_WRITEABLE s < length bs then Inl Assert_failed
      else bindR (mem_write (data s) (endp s) bs) (\<lambda>d.
           Inr (s\<lparr>data := d, endp := szadd (endp s) (length bs)\<rparr>)))"

definition bytes_of16 :: "u16 \<Rightarrow> u8 list" where
  "bytes_of16 w = [ucast (drop_bit 8 w), ucast w]"

definition bytes_of32 :: "u32 \<Rightarrow> u8 list" where
  "bytes_of32 l = [ucast (drop_bit 24 l), ucast (drop_bit 16 l), ucast (drop_bit 8 l), ucast l]"

definition bytes_of64 :: "u64 \<Rightarrow> u8 list" where
  "bytes_of64 q =
     [ucast (drop_bit 56 q), ucast (drop_bit 48 q), ucast (drop_bit 40 q), ucast (drop_bit 32 q),
      ucast (drop_bit 24 q), ucast (drop_bit 16 q), ucast (drop_bit 8 q), ucast q]"

text \<open>
  \<open>stream_put\<close> with a source buffer (\<open>Some src\<close>) or with \<open>NULL\<close> (zero fill); the size
  is first truncated by \<open>CHECK_SIZE\<close>, before the sanity check.
\<close>

definition stream_put :: "stream \<Rightarrow> u8 list option \<Rightarrow> nat \<Rightarrow> stream res" where
  "stream_put s src n0 =
     (let n = CHECK_SIZE s n0
      in if \<not> STREAM_SANE s then Inl Assert_failed
         else if STREAM_WRITEABLE s < n then Inl Assert_failed
         else bindR (case src of Some b \<Rightarrow> mem_read b 0 n | None \<Rightarrow> Inr (replicate n 0)) (\<lambda>bs.
              bindR (mem_write (data s) (endp s) bs) (\<lambda>d.
              Inr (s\<lparr>data := d, endp := szadd (endp s) n\<rparr>))))"

definition stream_write :: "stream \<Rightarrow> u8 list \<Rightarrow> nat \<Rightarrow> (nat \<times> stream) res" where
  "stream_write s ptr n0 =
     (let n = CHECK_SIZE s n0
      in if \<not> STREAM_SANE s then Inl Assert_failed
         else if STREAM_WRITEABLE s < n then Inl Assert_failed
         else bindR (mem_read ptr 0 n) (\<lambda>bs.
              bindR (mem_write (data s) (endp s) bs) (\<lambda>d.
              Inr (n, s\<lparr>data := d, endp := szadd (endp s) n\<rparr>))))"

definition stream_putc :: "stream \<Rightarrow> u8 \<Rightarrow> (nat \<times> stream) res" where
  "stream_putc s c = bindR (stream_append [c] s) (\<lambda>s'. Inr (1, s'))"

definition stream_putw :: "stream \<Rightarrow> u16 \<Rightarrow> (nat \<times> stream) res" where
  "stream_putw s w = bindR (stream_append (bytes_of16 w) s) (\<lambda>s'. Inr (2, s'))"

definition stream_putl :: "stream \<Rightarrow> u32 \<Rightarrow> (nat \<times> stream) res" where
  "stream_putl s l = bindR (stream_append (bytes_of32 l) s) (\<lambda>s'. Inr (4, s'))"

definition stream_putq :: "stream \<Rightarrow> u64 \<Rightarrow> (nat \<times> stream) res" where
  "stream_putq s q = bindR (stream_append (bytes_of64 q) s) (\<lambda>s'. Inr (8, s'))"

definition stream_put_ipv4 :: "stream \<Rightarrow> u8 list \<Rightarrow> (nat \<times> stream) res" where
  "stream_put_ipv4 s l =
     (if \<not> STREAM_SANE s then Inl Assert_failed
      else if STREAM_WRITEABLE s < 4 then Inl Assert_failed
      else bindR (mem_read l 0 4) (\<lambda>bs.
           bindR (mem_write (data s) (endp s) bs) (\<lambda>d.
           Inr (4, s\<lparr>data := d, endp := szadd (endp s) 4\<rparr>))))"

text \<open>
  \<open>stream_put_prefix\<close>: the length byte, then the \<open>PSIZE\<close> significant bytes of the address
  (\<open>paddr\<close> is the address union of the prefix, as bytes).
\<close>

definition PSIZE :: "nat \<Rightarrow> nat" where
  "PSIZE a = (a + 7) div 8"

definition stream_put_prefix :: "stream \<Rightarrow> u8 \<Rightarrow> u8 list \<Rightarrow> (nat \<times> stream) res" where
  "stream_put_prefix s plen paddr =
     (let psize = PSIZE (unat plen)
      in if \<not> STREAM_SANE s then Inl Assert_failed
         else if STREAM_WRITEABLE s < psize + 1 then Inl Assert_failed
         else bindR (mem_write (data s) (endp s) [plen]) (\<lambda>d1.
              bindR (mem_read paddr 0 psize) (\<lambda>bs.
              bindR (mem_write d1 (szadd (endp s) 1) bs) (\<lambda>d2.
              Inr (psize, s\<lparr>data := d2, endp := szadd (szadd (endp s) 1) psize\<rparr>)))))"

definition stream_poke :: "stream \<Rightarrow> nat \<Rightarrow> u8 list \<Rightarrow> stream res" where
  "stream_poke s putp bs =
     (if \<not> STREAM_SANE s then Inl Assert_failed
      else if \<not> GETP_VALID s (szadd putp (length bs)) then Inl Assert_failed
      else bindR (mem_write (data s) putp bs) (\<lambda>d. Inr (s\<lparr>data := d\<rparr>)))"

definition stream_putc_at :: "stream \<Rightarrow> nat \<Rightarrow> u8 \<Rightarrow> (nat \<times> stream) res" where
  "stream_putc_at s putp c = bindR (stream_poke s putp [c]) (\<lambda>s'. Inr (1, s'))"

definition stream_putw_at :: "stream \<Rightarrow> nat \<Rightarrow> u16 \<Rightarrow> (nat \<times> stream) res" where
  "stream_putw_at s putp w = bindR (stream_poke s putp (bytes_of16 w)) (\<lambda>s'. Inr (2, s'))"

definition stream_putl_at :: "stream \<Rightarrow> nat \<Rightarrow> u32 \<Rightarrow> (nat \<times> stream) res" where
  "stream_putl_at s putp l = bindR (stream_poke s putp (bytes_of32 l)) (\<lambda>s'. Inr (4, s'))"

definition stream_putq_at :: "stream \<Rightarrow> nat \<Rightarrow> u64 \<Rightarrow> (nat \<times> stream) res" where
  "stream_putq_at s putp q = bindR (stream_poke s putp (bytes_of64 q)) (\<lambda>s'. Inr (8, s'))"

section \<open>Input and output\<close>

text \<open>
  The system calls are parameters: \<open>rd n\<close> is the outcome of \<open>read\<close> or \<open>recvfrom\<close> given a buffer
  of \<open>n\<close> bytes, or of \<open>recvmsg\<close> given buffers of \<open>n\<close> bytes altogether; \<open>wr bs\<close> is the return
  value of \<open>write\<close>.
\<close>

datatype io_outcome = Io_data "u8 list" | Io_retry | Io_error

definition stream_fill :: "stream \<Rightarrow> u8 list \<Rightarrow> stream res" where
  "stream_fill s bs =
     bindR (mem_write (data s) (endp s) bs) (\<lambda>d.
     Inr (s\<lparr>data := d, endp := szadd (endp s) (length bs)\<rparr>))"

definition stream_read_try :: "(nat \<Rightarrow> io_outcome) \<Rightarrow> stream \<Rightarrow> nat \<Rightarrow> (int \<times> stream) res" where
  "stream_read_try rd s n =
     (if \<not> STREAM_SANE s then Inl Assert_failed
      else if STREAM_WRITEABLE s < n then Inl Assert_failed
      else case rd n of
             Io_data bs \<Rightarrow> bindR (stream_fill s bs) (\<lambda>s'. Inr (int (length bs), s'))
           | Io_retry \<Rightarrow> Inr (-2, s)
           | Io_error \<Rightarrow> Inr (-1, s))"

definition stream_recvfrom :: "(nat \<Rightarrow> io_outcome) \<Rightarrow> stream \<Rightarrow> nat \<Rightarrow> (int \<times> stream) res" where
  "stream_recvfrom rd s n =
     (if \<not> STREAM_SANE s then Inl Assert_failed
      else if STREAM_WRITEABLE s < n then Inl Assert_failed
      else case rd n of
             Io_data bs \<Rightarrow> bindR (stream_fill s bs) (\<lambda>s'. Inr (int (length bs), s'))
           | Io_retry \<Rightarrow> Inr (-2, s)
           | Io_error \<Rightarrow> Inr (-1, s))"

text \<open>
  \<open>stream_recvmsg\<close>: \<open>iov\<close> holds the sizes of the buffers of \<open>msg_iov\<close>, of which the first is
  replaced by the \<open>n\<close> bytes of the stream.  \<open>recvmsg\<close> fills the buffers in their order, so the
  first \<open>n\<close> bytes it delivers go to the stream; its result, the number of bytes in all the buffers,
  is converted to an \<open>int\<close>, and \<open>endp\<close> advances by that.
\<close>

definition stream_recvmsg ::
  "(nat \<Rightarrow> io_outcome) \<Rightarrow> nat list \<Rightarrow> stream \<Rightarrow> nat \<Rightarrow> (int \<times> stream) res" where
  "stream_recvmsg rd iov s n =
     (if \<not> STREAM_SANE s then Inl Assert_failed
      else if iov = [] then Inl Assert_failed
      else if STREAM_WRITEABLE s < n then Inl Assert_failed
      else case rd (n + sum_list (tl iov)) of
             Io_data bs \<Rightarrow>
               bindR (mem_write (data s) (endp s) (take n bs)) (\<lambda>d.
               let nbytes = int_wrap (int (length bs)) in
               Inr (nbytes, s\<lparr>data := d, endp := (if nbytes > 0 then szadd (endp s) (nat nbytes) else endp s)\<rparr>))
           | Io_retry \<Rightarrow> Inr (-1, s)
           | Io_error \<Rightarrow> Inr (-1, s))"

definition stream_flush :: "(u8 list \<Rightarrow> int) \<Rightarrow> stream \<Rightarrow> int res" where
  "stream_flush wr s =
     (if \<not> STREAM_SANE s then Inl Assert_failed
      else bindR (mem_read (data s) (getp s) (szsub (endp s) (getp s))) (\<lambda>bs. Inr (wr bs)))"

section \<open>Resetting\<close>

definition stream_empty :: "stream \<Rightarrow> bool res" where
  "stream_empty s = (if \<not> STREAM_SANE s then Inl Assert_failed else Inr (endp s = 0))"

definition stream_reset :: "stream \<Rightarrow> stream res" where
  "stream_reset s =
     (if \<not> STREAM_SANE s then Inl Assert_failed else Inr (s\<lparr>getp := 0, endp := 0\<rparr>))"

definition stream_discard :: "stream \<Rightarrow> stream res" where
  "stream_discard s =
     (if \<not> STREAM_SANE s then Inl Assert_failed
      else if getp s = 0 then Inr s
      else if getp s = endp s then stream_reset s
      else bindR (mem_read (data s) (getp s) (szsub (endp s) (getp s))) (\<lambda>bs.
           bindR (mem_write (data s) 0 bs) (\<lambda>d.
           Inr (s\<lparr>data := d, endp := szsub (endp s) (getp s), getp := 0\<rparr>))))"

section \<open>Well-formed streams\<close>

text \<open>
  The documented invariant \<open>getp \<le> endp \<le> size\<close>, together with what the allocator gives:
  the array has \<open>size\<close> bytes, and no object is larger than \<open>PTRDIFF_MAX\<close> bytes.
\<close>

definition stream_wf :: "stream \<Rightarrow> bool" where
  "stream_wf s \<longleftrightarrow>
     getp s \<le> endp s \<and> endp s \<le> ssize s \<and> length (data s) = ssize s \<and> ssize s < 2 ^ 63"

text \<open>What is still to be read: the contents of the buffer seen as a queue of bytes.\<close>

definition unread :: "stream \<Rightarrow> u8 list" where
  "unread s = drop (getp s) (take (endp s) (data s))"

lemma stream_wf_facts:
  assumes "stream_wf s"
  shows "STREAM_SANE s" "STREAM_READABLE s = endp s - getp s"
    "STREAM_WRITEABLE s = ssize s - endp s" "getp s < 2 ^ 64" "endp s < 2 ^ 64"
    "length (unread s) = endp s - getp s"
  using assms
  by (auto simp: stream_wf_def STREAM_SANE_def GETP_VALID_def ENDP_VALID_def
      STREAM_READABLE_def STREAM_WRITEABLE_def unread_def size_arith)

lemma CHECK_SIZE_wf:
  assumes "stream_wf s" and "z < 2 ^ 64"
  shows "CHECK_SIZE s z = (if szadd (endp s) z > ssize s then ssize s - endp s else z)"
  using assms by (auto simp: CHECK_SIZE_def stream_wf_def size_arith)

lemma stream_new_wf:
  assumes "0 < n" and "n < 2 ^ 63"
  shows "\<exists>s. stream_new junk n = Inr s \<and> stream_wf s \<and> unread s = [] \<and> ssize s = n"
  using assms by (auto simp: stream_new_def stream_wf_def unread_def)

subsection \<open>The common readers and writers on a well-formed stream\<close>

lemma stream_take_eq:
  assumes "stream_wf s"
  shows "stream_take n s =
    (if getp s + n \<le> endp s then Inr (take n (unread s), s\<lparr>getp := getp s + n\<rparr>)
     else Inl Assert_failed)"
proof (cases "getp s + n \<le> endp s")
  case True
  with assms have "getp s + n < 2 ^ 64" and "getp s + n \<le> length (data s)"
    by (auto simp: stream_wf_def)
  with True assms show ?thesis
    by (simp add: stream_take_def stream_wf_facts mem_simps size_arith unread_def drop_take min_def)
next
  case False
  with assms have "endp s - getp s < n" by (auto simp: stream_wf_def)
  with False assms show ?thesis by (simp add: stream_take_def stream_wf_facts)
qed

lemma stream_append_eq:
  assumes "stream_wf s"
  shows "stream_append bs s =
    (if endp s + length bs \<le> ssize s
     then Inr (s\<lparr>data := take (endp s) (data s) @ bs @ drop (endp s + length bs) (data s),
                 endp := endp s + length bs\<rparr>)
     else Inl Assert_failed)"
proof (cases "endp s + length bs \<le> ssize s")
  case True
  with assms have "endp s + length bs < 2 ^ 64" and "endp s + length bs \<le> length (data s)"
    by (auto simp: stream_wf_def)
  with True assms show ?thesis
    by (simp add: stream_append_def stream_wf_facts mem_simps size_arith)
next
  case False
  with assms have "ssize s - endp s < length bs" by (auto simp: stream_wf_def)
  with False assms show ?thesis by (simp add: stream_append_def stream_wf_facts)
qed

lemma stream_take_wf: "stream_wf s \<Longrightarrow> stream_take n s = Inr (bs, s') \<Longrightarrow> stream_wf s'"
  by (auto simp: stream_take_eq stream_wf_def split: if_splits)

lemma stream_append_wf: "stream_wf s \<Longrightarrow> stream_append bs s = Inr s' \<Longrightarrow> stream_wf s'"
  by (auto simp: stream_append_eq stream_wf_def split: if_splits)

lemma stream_append_unread:
  "stream_wf s \<Longrightarrow> stream_append bs s = Inr s' \<Longrightarrow> unread s' = unread s @ bs"
  by (auto simp: stream_append_eq stream_wf_def unread_def split: if_splits)

lemma stream_take_unread:
  "stream_wf s \<Longrightarrow> stream_take n s = Inr (bs, s') \<Longrightarrow> unread s = bs @ unread s' \<and> length bs = n"
  by (auto simp: stream_take_eq stream_wf_def unread_def split: if_splits)
    (metis add.commute append_take_drop_id drop_drop)

section \<open>Encoders and decoders of one field\<close>

text \<open>
  The contract shared by the pairs of \<open>stream_put\<close>x and \<open>stream_get\<close>x functions: writing a
  value appends its encoding to the unread bytes, reading consumes exactly one encoding.
\<close>

locale field_codec =
  fixes width :: nat
    and valid :: "'a \<Rightarrow> bool"
    and enc :: "'a \<Rightarrow> u8 list"
    and put :: "stream \<Rightarrow> 'a \<Rightarrow> (nat \<times> stream) res"
    and get :: "stream \<Rightarrow> ('a \<times> stream) res"
  assumes enc_length: "valid v \<Longrightarrow> length (enc v) = width"
    and put_eq: "stream_wf s \<Longrightarrow> valid v \<Longrightarrow>
      put s v = bindR (stream_append (enc v) s) (\<lambda>s'. Inr (width, s'))"
    and get_eq: "stream_wf s \<Longrightarrow> valid v \<Longrightarrow> unread s = enc v @ rest \<Longrightarrow>
      get s = Inr (v, s\<lparr>getp := getp s + width\<rparr>)"
    and get_short: "stream_wf s \<Longrightarrow> endp s < getp s + width \<Longrightarrow> get s = Inl Assert_failed"
begin

lemma put_ok:
  assumes "stream_wf s" and "valid v" and "endp s + width \<le> ssize s"
  shows "\<exists>s'. put s v = Inr (width, s') \<and> stream_wf s' \<and> unread s' = unread s @ enc v \<and>
    getp s' = getp s \<and> endp s' = endp s + width \<and> ssize s' = ssize s"
proof -
  from assms have "endp s + length (enc v) \<le> ssize s" by (simp add: enc_length)
  then obtain s' where s': "stream_append (enc v) s = Inr s'"
    and "getp s' = getp s" "endp s' = endp s + width" "ssize s' = ssize s"
    using assms by (auto simp: stream_append_eq enc_length)
  with assms show ?thesis
    using stream_append_wf [OF _ s'] stream_append_unread [OF _ s'] by (simp add: put_eq)
qed

lemma put_full:
  "stream_wf s \<Longrightarrow> valid v \<Longrightarrow> ssize s < endp s + width \<Longrightarrow> put s v = Inl Assert_failed"
  by (simp add: put_eq stream_append_eq enc_length)

lemma get_ok:
  assumes "stream_wf s" and "valid v" and un: "unread s = enc v @ rest"
  shows "\<exists>s'. get s = Inr (v, s') \<and> stream_wf s' \<and> unread s' = rest \<and> ssize s' = ssize s"
proof -
  have len: "length (enc v) = width" using assms by (simp add: enc_length)
  with assms have "getp s + width \<le> endp s"
    using stream_wf_facts(6) [OF \<open>stream_wf s\<close>] by (auto simp: stream_wf_def)
  then have "stream_wf (s\<lparr>getp := getp s + width\<rparr>)" using assms by (auto simp: stream_wf_def)
  moreover have "drop width (unread s) = rest" using un len by simp
  then have "unread (s\<lparr>getp := getp s + width\<rparr>) = rest"
    by (simp add: unread_def add.commute)
  ultimately show ?thesis using get_eq [OF assms] by simp
qed

end

lemma stream_take_enc:
  assumes "stream_wf s" and "unread s = bs @ rest" and "length bs = n"
  shows "stream_take n s = Inr (bs, s\<lparr>getp := getp s + n\<rparr>)"
proof -
  have "getp s + n \<le> endp s"
    using assms stream_wf_facts(6) [OF assms(1)] by (auto simp: stream_wf_def)
  with assms show ?thesis by (simp add: stream_take_eq)
qed

lemma stream_take_short: "stream_wf s \<Longrightarrow> endp s < getp s + n \<Longrightarrow> stream_take n s = Inl Assert_failed"
  by (simp add: stream_take_eq)

lemmas codec_defs = stream_getc_def stream_getw_def stream_getl_def stream_getq_def
  stream_get_ipv4_def stream_putc_def stream_putw_def stream_putl_def stream_putq_def

lemma bytes_of_length [simp]:
  "length (bytes_of16 w) = 2" "length (bytes_of32 l) = 4" "length (bytes_of64 q) = 8"
  by (simp_all add: bytes_of16_def bytes_of32_def bytes_of64_def)

lemma bytes_of_decode [byte_simps]:
  "be16 (bytes_of16 w ! 0) (bytes_of16 w ! 1) = w"
  "be32 (bytes_of32 l ! 0) (bytes_of32 l ! 1) (bytes_of32 l ! 2) (bytes_of32 l ! 3) = l"
  "be64 (bytes_of64 q ! 0) (bytes_of64 q ! 1) (bytes_of64 q ! 2) (bytes_of64 q ! 3)
     (bytes_of64 q ! 4) (bytes_of64 q ! 5) (bytes_of64 q ! 6) (bytes_of64 q ! 7) = q"
  by (simp_all add: bytes_of16_def bytes_of32_def bytes_of64_def byte_simps)

interpretation codec_c: field_codec 1 "\<lambda>_. True" "\<lambda>c. [c]" stream_putc stream_getc
  by unfold_locales (auto simp: codec_defs stream_take_short stream_take_enc [where bs = "[_]"])

interpretation codec_w: field_codec 2 "\<lambda>_. True" bytes_of16 stream_putw stream_getw
  by unfold_locales
    (auto simp: codec_defs stream_take_short stream_take_enc bytes_of_decode [simplified])

interpretation codec_l: field_codec 4 "\<lambda>_. True" bytes_of32 stream_putl stream_getl
  by unfold_locales
    (auto simp: codec_defs stream_take_short stream_take_enc bytes_of_decode [simplified])

interpretation codec_q: field_codec 8 "\<lambda>_. True" bytes_of64 stream_putq stream_getq
  by unfold_locales
    (auto simp: codec_defs stream_take_short stream_take_enc bytes_of_decode [simplified])

lemma stream_put_ipv4_eq:
  assumes "stream_wf s" and "length l = 4"
  shows "stream_put_ipv4 s l = bindR (stream_append l s) (\<lambda>s'. Inr (4, s'))"
  using assms by (auto simp: stream_put_ipv4_def stream_append_def mem_simps)

interpretation codec_ipv4: field_codec 4 "\<lambda>l. length l = 4" "\<lambda>l. l" stream_put_ipv4 stream_get_ipv4
  by unfold_locales (auto simp: codec_defs stream_put_ipv4_eq stream_take_short stream_take_enc)

section \<open>Messages: sequences of fields\<close>

text \<open>
  A message is written field by field and read back in the same order.  \<open>put_field\<close> and
  \<open>get_field\<close> dispatch to the writer and reader of the field's width.
\<close>

datatype field = Fc u8 | Fw u16 | Fl u32 | Fq u64 | Fipv4 "u8 list"
datatype field_kind = Kc | Kw | Kl | Kq | Kipv4

fun field_kind_of :: "field \<Rightarrow> field_kind" where
  "field_kind_of (Fc _) = Kc"
| "field_kind_of (Fw _) = Kw"
| "field_kind_of (Fl _) = Kl"
| "field_kind_of (Fq _) = Kq"
| "field_kind_of (Fipv4 _) = Kipv4"

fun field_bytes :: "field \<Rightarrow> u8 list" where
  "field_bytes (Fc c) = [c]"
| "field_bytes (Fw w) = bytes_of16 w"
| "field_bytes (Fl l) = bytes_of32 l"
| "field_bytes (Fq q) = bytes_of64 q"
| "field_bytes (Fipv4 a) = a"

fun field_valid :: "field \<Rightarrow> bool" where
  "field_valid (Fipv4 a) = (length a = 4)"
| "field_valid _ = True"

fun put_field :: "stream \<Rightarrow> field \<Rightarrow> (nat \<times> stream) res" where
  "put_field s (Fc c) = stream_putc s c"
| "put_field s (Fw w) = stream_putw s w"
| "put_field s (Fl l) = stream_putl s l"
| "put_field s (Fq q) = stream_putq s q"
| "put_field s (Fipv4 a) = stream_put_ipv4 s a"

fun get_field :: "stream \<Rightarrow> field_kind \<Rightarrow> (field \<times> stream) res" where
  "get_field s Kc = bindR (stream_getc s) (\<lambda>(v, s'). Inr (Fc v, s'))"
| "get_field s Kw = bindR (stream_getw s) (\<lambda>(v, s'). Inr (Fw v, s'))"
| "get_field s Kl = bindR (stream_getl s) (\<lambda>(v, s'). Inr (Fl v, s'))"
| "get_field s Kq = bindR (stream_getq s) (\<lambda>(v, s'). Inr (Fq v, s'))"
| "get_field s Kipv4 = bindR (stream_get_ipv4 s) (\<lambda>(v, s'). Inr (Fipv4 v, s'))"

fun put_fields :: "stream \<Rightarrow> field list \<Rightarrow> stream res" where
  "put_fields s [] = Inr s"
| "put_fields s (f # fs) = bindR (put_field s f) (\<lambda>(_, s'). put_fields s' fs)"

fun get_fields :: "stream \<Rightarrow> field_kind list \<Rightarrow> (field list \<times> stream) res" where
  "get_fields s [] = Inr ([], s)"
| "get_fields s (k # ks) =
     bindR (get_field s k) (\<lambda>(f, s'). bindR (get_fields s' ks) (\<lambda>(fs, s''). Inr (f # fs, s'')))"

definition message_bytes :: "field list \<Rightarrow> u8 list" where
  "message_bytes fs = concat (map field_bytes fs)"

lemma put_field_ok:
  assumes "stream_wf s" and "field_valid f" and "endp s + length (field_bytes f) \<le> ssize s"
  shows "\<exists>n s'. put_field s f = Inr (n, s') \<and> stream_wf s' \<and> unread s' = unread s @ field_bytes f \<and>
    endp s' = endp s + length (field_bytes f) \<and> ssize s' = ssize s"
proof (cases f)
  case (Fc c)
  with assms codec_c.put_ok [of s c] show ?thesis by auto
next
  case (Fw w)
  with assms codec_w.put_ok [of s w] show ?thesis by auto
next
  case (Fl l)
  with assms codec_l.put_ok [of s l] show ?thesis by auto
next
  case (Fq q)
  with assms codec_q.put_ok [of s q] show ?thesis by auto
next
  case (Fipv4 a)
  with assms codec_ipv4.put_ok [of s a] show ?thesis by auto
qed

lemma get_field_ok:
  assumes "stream_wf s" and "field_valid f" and "unread s = field_bytes f @ rest"
  shows "\<exists>s'. get_field s (field_kind_of f) = Inr (f, s') \<and> stream_wf s' \<and> unread s' = rest"
proof (cases f)
  case (Fc c)
  with assms codec_c.get_ok [of s c rest] show ?thesis by auto
next
  case (Fw w)
  with assms codec_w.get_ok [of s w rest] show ?thesis by auto
next
  case (Fl l)
  with assms codec_l.get_ok [of s l rest] show ?thesis by auto
next
  case (Fq q)
  with assms codec_q.get_ok [of s q rest] show ?thesis by auto
next
  case (Fipv4 a)
  with assms codec_ipv4.get_ok [of s a rest] show ?thesis by auto
qed

lemma put_fields_ok:
  assumes "stream_wf s" and "list_all field_valid fs"
    and "endp s + length (message_bytes fs) \<le> ssize s"
  shows "\<exists>s'. put_fields s fs = Inr s' \<and> stream_wf s' \<and> unread s' = unread s @ message_bytes fs"
  using assms
proof (induction fs arbitrary: s)
  case Nil
  then show ?case by (simp add: message_bytes_def)
next
  case (Cons f fs)
  then have "endp s + length (field_bytes f) \<le> ssize s" by (simp add: message_bytes_def)
  with Cons.prems obtain n s1 where s1: "put_field s f = Inr (n, s1)" "stream_wf s1"
    "unread s1 = unread s @ field_bytes f" "endp s1 = endp s + length (field_bytes f)"
    "ssize s1 = ssize s"
    using put_field_ok [of s f] by auto
  with Cons.prems have "endp s1 + length (message_bytes fs) \<le> ssize s1"
    by (simp add: message_bytes_def)
  with Cons.IH [of s1] Cons.prems s1 show ?case by (auto simp: message_bytes_def)
qed

lemma get_fields_ok:
  assumes "stream_wf s" and "list_all field_valid fs" and "unread s = message_bytes fs @ rest"
  shows "\<exists>s'. get_fields s (map field_kind_of fs) = Inr (fs, s') \<and> stream_wf s' \<and> unread s' = rest"
  using assms
proof (induction fs arbitrary: s)
  case Nil
  then show ?case by (simp add: message_bytes_def)
next
  case (Cons f fs)
  then obtain s1 where s1: "get_field s (field_kind_of f) = Inr (f, s1)" "stream_wf s1"
    "unread s1 = message_bytes fs @ rest"
    using get_field_ok [of s f "message_bytes fs @ rest"] by (auto simp: message_bytes_def)
  with Cons.IH [of s1] Cons.prems show ?case by auto
qed

text \<open>
  C5: a message written field by field to a well-formed stream that has room for it, whose
  unread part is empty, is read back field by field with the same values, and nothing is
  left unread.
\<close>

theorem message_roundtrip:
  assumes "stream_wf s" and "unread s = []" and "list_all field_valid fs"
    and "endp s + length (message_bytes fs) \<le> ssize s"
  shows "\<exists>s' s''. put_fields s fs = Inr s' \<and> get_fields s' (map field_kind_of fs) = Inr (fs, s'') \<and>
    unread s'' = []"
proof -
  obtain s' where s': "put_fields s fs = Inr s'" "stream_wf s'" "unread s' = message_bytes fs"
    using put_fields_ok [OF assms(1,3,4)] assms(2) by auto
  then obtain s'' where "get_fields s' (map field_kind_of fs) = Inr (fs, s'')" "unread s'' = []"
    using get_fields_ok [of s' fs "[]"] assms(3) by auto
  with s' show ?thesis by blast
qed

theorem message_roundtrip_witness:
  "\<exists>s' s''.
     put_fields \<lparr>getp = 0, endp = 0, ssize = 8, data = replicate 8 0\<rparr> [Fw 0x1234, Fl 0x89ABCDEF, Fc 7]
       = Inr s' \<and>
     get_fields s' [Kw, Kl, Kc] = Inr ([Fw 0x1234, Fl 0x89ABCDEF, Fc 7], s'') \<and> unread s'' = []"
  using message_roundtrip [of "\<lparr>getp = 0, endp = 0, ssize = 8, data = replicate 8 0\<rparr>"
      "[Fw 0x1234, Fl 0x89ABCDEF, Fc 7]"]
  by (simp add: stream_wf_def unread_def message_bytes_def)

section \<open>Memory safety of the whole interface\<close>

text \<open>
  The calls that can be made on one stream, with their arguments.  \<open>op_ok\<close> is what a caller
  has to respect: an explicit offset and the distance given to \<open>stream_forward_endp\<close> are
  below \<open>2 ^ 63\<close> (their sums do not wrap around), source buffers hold the bytes asked for,
  \<open>stream_recvmsg\<close> is given no buffer besides the stream, and the kernel returns no more bytes than
  the buffers it is given have room for, as it does without the flag \<open>MSG_TRUNC\<close>.  Nothing is
  assumed about the state of the stream, about sizes or about positions: these the functions check
  themselves.
\<close>

datatype stream_op =
    Op_resize nat | Op_set_getp nat | Op_set_endp nat | Op_forward_getp nat | Op_forward_endp nat
  | Op_get nat | Op_getc | Op_getw | Op_getl | Op_getq | Op_get_ipv4
  | Op_getc_from nat | Op_getw_from nat | Op_getl_from nat | Op_getq_from nat
  | Op_put "u8 list option" nat | Op_write "u8 list" nat
  | Op_putc u8 | Op_putw u16 | Op_putl u32 | Op_putq u64
  | Op_put_ipv4 "u8 list" | Op_put_prefix u8 "u8 list"
  | Op_putc_at nat u8 | Op_putw_at nat u16 | Op_putl_at nat u32 | Op_putq_at nat u64
  | Op_read_try "nat \<Rightarrow> io_outcome" nat | Op_recvfrom "nat \<Rightarrow> io_outcome" nat
  | Op_recvmsg "nat \<Rightarrow> io_outcome" "nat list" nat
  | Op_reset | Op_discard | Op_copy_from stream

definition drop_result :: "('a \<times> stream) res \<Rightarrow> stream res" where
  "drop_result r = bindR r (\<lambda>(_, s'). Inr s')"

definition keep_state :: "stream \<Rightarrow> 'a res \<Rightarrow> stream res" where
  "keep_state s r = bindR r (\<lambda>_. Inr s)"

fun stream_exec :: "(nat \<Rightarrow> u8) \<Rightarrow> stream_op \<Rightarrow> stream \<Rightarrow> stream res" where
  "stream_exec junk (Op_resize n) s = drop_result (stream_resize junk s n)"
| "stream_exec junk (Op_set_getp n) s = stream_set_getp s n"
| "stream_exec junk (Op_set_endp n) s = stream_set_endp s n"
| "stream_exec junk (Op_forward_getp n) s = stream_forward_getp s n"
| "stream_exec junk (Op_forward_endp n) s = stream_forward_endp s n"
| "stream_exec junk (Op_get n) s = drop_result (stream_get s n)"
| "stream_exec junk Op_getc s = drop_result (stream_getc s)"
| "stream_exec junk Op_getw s = drop_result (stream_getw s)"
| "stream_exec junk Op_getl s = drop_result (stream_getl s)"
| "stream_exec junk Op_getq s = drop_result (stream_getq s)"
| "stream_exec junk Op_get_ipv4 s = drop_result (stream_get_ipv4 s)"
| "stream_exec junk (Op_getc_from n) s = keep_state s (stream_getc_from s n)"
| "stream_exec junk (Op_getw_from n) s = keep_state s (stream_getw_from s n)"
| "stream_exec junk (Op_getl_from n) s = keep_state s (stream_getl_from s n)"
| "stream_exec junk (Op_getq_from n) s = keep_state s (stream_getq_from s n)"
| "stream_exec junk (Op_put src n) s = stream_put s src n"
| "stream_exec junk (Op_write src n) s = drop_result (stream_write s src n)"
| "stream_exec junk (Op_putc c) s = drop_result (stream_putc s c)"
| "stream_exec junk (Op_putw w) s = drop_result (stream_putw s w)"
| "stream_exec junk (Op_putl l) s = drop_result (stream_putl s l)"
| "stream_exec junk (Op_putq q) s = drop_result (stream_putq s q)"
| "stream_exec junk (Op_put_ipv4 a) s = drop_result (stream_put_ipv4 s a)"
| "stream_exec junk (Op_put_prefix l a) s = drop_result (stream_put_prefix s l a)"
| "stream_exec junk (Op_putc_at n c) s = drop_result (stream_putc_at s n c)"
| "stream_exec junk (Op_putw_at n w) s = drop_result (stream_putw_at s n w)"
| "stream_exec junk (Op_putl_at n l) s = drop_result (stream_putl_at s n l)"
| "stream_exec junk (Op_putq_at n q) s = drop_result (stream_putq_at s n q)"
| "stream_exec junk (Op_read_try rd n) s = drop_result (stream_read_try rd s n)"
| "stream_exec junk (Op_recvfrom rd n) s = drop_result (stream_recvfrom rd s n)"
| "stream_exec junk (Op_recvmsg rd v n) s = drop_result (stream_recvmsg rd v s n)"
| "stream_exec junk Op_reset s = stream_reset s"
| "stream_exec junk Op_discard s = stream_discard s"
| "stream_exec junk (Op_copy_from src) s = stream_copy s src"

definition read_ok :: "(nat \<Rightarrow> io_outcome) \<Rightarrow> nat \<Rightarrow> bool" where
  "read_ok rd n \<longleftrightarrow> (case rd n of Io_data bs \<Rightarrow> length bs \<le> n | _ \<Rightarrow> True)"

fun op_ok :: "stream_op \<Rightarrow> bool" where
  "op_ok (Op_resize n) = (n < 2 ^ 63)"
| "op_ok (Op_forward_endp n) = (n < 2 ^ 63)"
| "op_ok (Op_getc_from n) = (n < 2 ^ 63)"
| "op_ok (Op_getw_from n) = (n < 2 ^ 63)"
| "op_ok (Op_getl_from n) = (n < 2 ^ 63)"
| "op_ok (Op_getq_from n) = (n < 2 ^ 63)"
| "op_ok (Op_put src n) = (n < 2 ^ 64 \<and> (case src of None \<Rightarrow> True | Some b \<Rightarrow> n \<le> length b))"
| "op_ok (Op_write src n) = (n < 2 ^ 64 \<and> n \<le> length src)"
| "op_ok (Op_put_ipv4 a) = (length a = 4)"
| "op_ok (Op_put_prefix l a) = (PSIZE (unat l) \<le> length a)"
| "op_ok (Op_putc_at n _) = (n < 2 ^ 63)"
| "op_ok (Op_putw_at n _) = (n < 2 ^ 63)"
| "op_ok (Op_putl_at n _) = (n < 2 ^ 63)"
| "op_ok (Op_putq_at n _) = (n < 2 ^ 63)"
| "op_ok (Op_read_try rd n) = read_ok rd n"
| "op_ok (Op_recvfrom rd n) = read_ok rd n"
| "op_ok (Op_recvmsg rd v n) = (length v \<le> 1 \<and> read_ok rd n)"
| "op_ok (Op_copy_from src) = stream_wf src"
| "op_ok _ = True"

text \<open>A safe outcome: the call aborted in a check, or left a well-formed stream.\<close>

definition safe_outcome :: "stream res \<Rightarrow> bool" where
  "safe_outcome r = (case r of Inl e \<Rightarrow> e \<noteq> Mem_fault | Inr s \<Rightarrow> stream_wf s)"

lemma safe_outcome_simps [simp]:
  "safe_outcome (Inl e) \<longleftrightarrow> e \<noteq> Mem_fault" "safe_outcome (Inr s) \<longleftrightarrow> stream_wf s"
  by (simp_all add: safe_outcome_def)

lemma safe_take: "stream_wf s \<Longrightarrow> safe_outcome (drop_result (stream_take n s))"
  by (auto simp: drop_result_def stream_take_eq stream_wf_def)

lemma safe_take_then:
  assumes "stream_wf s"
  shows "safe_outcome (drop_result (bindR (stream_take n s) (\<lambda>(bs, s'). Inr (g bs, s'))))"
  using assms by (auto simp: drop_result_def stream_take_eq stream_wf_def)

lemma safe_append:
  assumes "stream_wf s"
  shows "safe_outcome (drop_result (bindR (stream_append bs s) (\<lambda>s'. Inr (k, s'))))"
  using assms by (auto simp: drop_result_def stream_append_eq stream_wf_def)

lemma safe_peek:
  assumes "stream_wf s" and "off < 2 ^ 63" and "n \<le> 8"
  shows "safe_outcome (keep_state s (bindR (stream_peek s off n) (\<lambda>bs. Inr (g bs))))"
  using assms
  by (auto simp: keep_state_def stream_peek_def stream_wf_facts size_arith GETP_VALID_def
      stream_wf_def mem_simps)

lemma safe_poke:
  assumes "stream_wf s" and "off < 2 ^ 63" and "length bs \<le> 8"
  shows "safe_outcome (drop_result (bindR (stream_poke s off bs) (\<lambda>s'. Inr (k, s'))))"
  using assms
  by (auto simp: drop_result_def stream_poke_def stream_wf_facts size_arith GETP_VALID_def
      stream_wf_def mem_simps)

lemma safe_fill:
  assumes "stream_wf s" and "length bs \<le> n" and "\<not> STREAM_WRITEABLE s < n"
  shows "safe_outcome (drop_result (bindR (stream_fill s bs) (\<lambda>s'. Inr (k, s'))))"
proof -
  have "endp s + length bs \<le> ssize s" using assms by (auto simp: stream_wf_facts stream_wf_def)
  moreover from this have "endp s + length bs < 2 ^ 64" using assms by (auto simp: stream_wf_def)
  ultimately show ?thesis
    using assms by (auto simp: drop_result_def stream_fill_def stream_wf_def mem_simps size_arith)
qed

lemma CHECK_SIZE_le:
  assumes "stream_wf s" and "z < 2 ^ 64"
  shows "CHECK_SIZE s z \<le> z"
proof (cases "endp s + z < 2 ^ 64")
  case True
  with assms show ?thesis by (auto simp: CHECK_SIZE_wf size_arith)
next
  case False
  moreover have "endp s + z - 2 ^ 64 < 2 ^ 64"
    using assms stream_wf_facts(5) [OF assms(1)] by arith
  ultimately have "szadd (endp s) z = endp s + z - 2 ^ 64"
    unfolding uadd_def by (simp only: le_mod_geq not_less mod_less)
  with assms False have "szadd (endp s) z < endp s" by arith
  with assms show ?thesis by (simp add: CHECK_SIZE_wf stream_wf_def)
qed

lemma append_fits:
  assumes "stream_wf s" and "\<not> STREAM_WRITEABLE s < n"
  shows "endp s + n \<le> ssize s" and "endp s + n \<le> length (data s)" and "endp s + n < 2 ^ 64"
  using assms by (auto simp: stream_wf_facts stream_wf_def)

lemma safe_put:
  assumes wf: "stream_wf s" and ok: "op_ok (Op_put src n0)"
  shows "safe_outcome (stream_put s src n0)"
proof (cases "STREAM_WRITEABLE s < CHECK_SIZE s n0")
  case True
  then show ?thesis using wf by (simp add: stream_put_def stream_wf_facts)
next
  case False
  have "CHECK_SIZE s n0 \<le> n0" using CHECK_SIZE_le wf ok by simp
  then obtain bs where "(case src of Some b \<Rightarrow> mem_read b 0 (CHECK_SIZE s n0)
      | None \<Rightarrow> Inr (replicate (CHECK_SIZE s n0) 0)) = Inr bs" "length bs = CHECK_SIZE s n0"
    using ok by (cases src) (auto simp: mem_simps)
  with append_fits [OF wf False] False wf show ?thesis
    by (simp add: stream_put_def stream_wf_def stream_wf_facts mem_simps size_arith Let_def)
qed

lemma safe_write:
  assumes wf: "stream_wf s" and ok: "op_ok (Op_write src n0)"
  shows "safe_outcome (drop_result (stream_write s src n0))"
proof (cases "STREAM_WRITEABLE s < CHECK_SIZE s n0")
  case True
  then show ?thesis using wf by (simp add: stream_write_def drop_result_def stream_wf_facts)
next
  case False
  have "CHECK_SIZE s n0 \<le> length src" using CHECK_SIZE_le [OF wf, of n0] ok by simp
  with append_fits [OF wf False] False wf show ?thesis
    by (simp add: stream_write_def drop_result_def stream_wf_def stream_wf_facts mem_simps
        size_arith Let_def)
qed

lemma safe_put_prefix:
  assumes wf: "stream_wf s" and ok: "PSIZE (unat l) \<le> length a"
  shows "safe_outcome (drop_result (stream_put_prefix s l a))"
proof (cases "STREAM_WRITEABLE s < PSIZE (unat l) + 1")
  case True
  then show ?thesis using wf by (simp add: stream_put_prefix_def drop_result_def stream_wf_facts)
next
  case False
  with append_fits [OF wf False] ok wf show ?thesis
    by (auto simp: stream_put_prefix_def drop_result_def stream_wf_def stream_wf_facts mem_simps
        size_arith Let_def)
qed

lemma safe_positions:
  assumes "stream_wf s"
  shows "safe_outcome (stream_set_getp s n)" "safe_outcome (stream_set_endp s n)"
    "safe_outcome (stream_forward_getp s n)" "safe_outcome (stream_reset s)"
  using assms
  by (auto simp: stream_set_getp_def stream_set_endp_def stream_forward_getp_def
      stream_reset_def stream_wf_def stream_wf_facts GETP_VALID_def
      ENDP_VALID_def STREAM_SANE_def Let_def uadd_def)

lemma safe_forward_endp:
  assumes "stream_wf s" and "n < 2 ^ 63"
  shows "safe_outcome (stream_forward_endp s n)"
proof -
  have "endp s + n < 2 ^ 64" using assms by (auto simp: stream_wf_def)
  with assms show ?thesis
    by (auto simp: stream_forward_endp_def stream_wf_def stream_wf_facts ENDP_VALID_def size_arith)
qed

lemma safe_resize: "stream_wf s \<Longrightarrow> n < 2 ^ 63 \<Longrightarrow> safe_outcome (drop_result (stream_resize junk s n))"
  by (auto simp: stream_resize_def drop_result_def stream_wf_def STREAM_SANE_def GETP_VALID_def
      ENDP_VALID_def Let_def)

lemma stream_discard_eq:
  assumes "stream_wf s"
  shows "\<exists>s'. stream_discard s = Inr s' \<and> stream_wf s' \<and> getp s' = 0 \<and> unread s' = unread s \<and>
    endp s' = endp s - getp s \<and> ssize s' = ssize s"
proof (cases "getp s = 0 \<or> getp s = endp s")
  case True
  with assms show ?thesis
    by (auto simp: stream_discard_def stream_reset_def stream_wf_facts stream_wf_def unread_def)
next
  case False
  let ?n = "endp s - getp s" and ?bs = "take (endp s - getp s) (drop (getp s) (data s))"
  have "length ?bs = ?n" and "?n \<le> length (data s)" using assms by (auto simp: stream_wf_def)
  then have "mem_write (data s) 0 ?bs = Inr (?bs @ drop ?n (data s))"
    by (simp add: mem_write_def)
  with False assms show ?thesis
    by (auto simp: stream_discard_def stream_wf_facts stream_wf_def unread_def mem_simps
        size_arith drop_take)
qed

lemma safe_copy:
  assumes "stream_wf s" and "stream_wf src"
  shows "safe_outcome (stream_copy s src)"
  using assms
  by (auto simp: stream_copy_def stream_wf_facts stream_wf_def mem_simps)

lemma safe_receive:
  assumes wf: "stream_wf s" and rd: "read_ok rd n"
  shows "safe_outcome (drop_result (stream_read_try rd s n))"
    "safe_outcome (drop_result (stream_recvfrom rd s n))"
proof -
  have "\<not> STREAM_WRITEABLE s < n \<Longrightarrow> rd n = Io_data bs \<Longrightarrow>
      safe_outcome (drop_result (bindR (stream_fill s bs) (\<lambda>s'. Inr (k, s'))))" for bs and k :: int
    using rd safe_fill [OF wf] by (simp add: read_ok_def)
  with wf show "safe_outcome (drop_result (stream_read_try rd s n))"
    "safe_outcome (drop_result (stream_recvfrom rd s n))"
    by (auto simp: stream_read_try_def stream_recvfrom_def stream_wf_facts
        drop_result_def split: io_outcome.split simp del: bindR_assoc)
qed

text \<open>The count returned as an \<open>int\<close> never exceeds the bytes stored.\<close>

lemma int_wrap_le: "0 \<le> a \<Longrightarrow> int_wrap a \<le> a"
  using zmod_le_nonneg_dividend [of "a + 2 ^ 31" "2 ^ 32"] by (simp add: int_wrap_def)

lemma safe_recvmsg:
  assumes wf: "stream_wf s" and one: "length iov \<le> 1" and rd: "read_ok rd n"
  shows "safe_outcome (drop_result (stream_recvmsg rd iov s n))"
proof (cases "STREAM_WRITEABLE s < n \<or> iov = []")
  case True
  then show ?thesis using wf by (auto simp: stream_recvmsg_def stream_wf_facts drop_result_def)
next
  case False
  then obtain k where iov: "iov = [k]" using one by (cases iov) auto
  show ?thesis
  proof (cases "rd n")
    case (Io_data bs)
    let ?k = "int_wrap (int (length bs))"
    have bs: "length bs \<le> n" "n \<le> STREAM_WRITEABLE s" "take n bs = bs" using rd Io_data False by (simp_all add: read_ok_def)
    then have le: "endp s + length bs \<le> ssize s" "length (data s) = ssize s" "ssize s < 2 ^ 63"
      using wf by (auto simp: stream_wf_facts stream_wf_def)
    have "nat ?k \<le> length bs" using int_wrap_le [of "int (length bs)"] by simp
    then have "endp s + nat ?k \<le> ssize s" using le by simp
    moreover from this have "szadd (endp s) (nat ?k) = endp s + nat ?k" using le(3) by (intro uadd_eq) simp
    ultimately show ?thesis
      using wf iov False Io_data bs(3) le
      by (auto simp: stream_recvmsg_def stream_wf_facts drop_result_def mem_write_def stream_wf_def Let_def)
  qed (use wf iov False in \<open>auto simp: stream_recvmsg_def stream_wf_facts drop_result_def\<close>)
qed

lemmas op_defs = stream_get_def stream_getc_def stream_getw_def stream_getl_def stream_getq_def
  stream_get_ipv4_def stream_getc_from_def stream_getw_from_def stream_getl_from_def
  stream_getq_from_def stream_putc_def stream_putw_def stream_putl_def stream_putq_def
  stream_putc_at_def stream_putw_at_def stream_putl_at_def stream_putq_at_def

lemmas op_safe = safe_take safe_take_then safe_append safe_peek safe_poke safe_put safe_write
  safe_put_prefix safe_positions safe_forward_endp safe_resize safe_copy safe_receive safe_recvmsg

lemma stream_exec_safe:
  assumes "stream_wf s" and "op_ok op"
  shows "safe_outcome (stream_exec junk op s)"
  using assms stream_discard_eq [of s]
  by (cases op) (auto simp: op_defs op_safe stream_put_ipv4_eq)

fun stream_run :: "(nat \<Rightarrow> u8) \<Rightarrow> stream_op list \<Rightarrow> stream \<Rightarrow> stream res" where
  "stream_run junk [] s = Inr s"
| "stream_run junk (op # ops) s = bindR (stream_exec junk op s) (stream_run junk ops)"

lemma stream_run_safe:
  assumes "stream_wf s" and "list_all op_ok ops"
  shows "safe_outcome (stream_run junk ops s)"
  using assms
proof (induction ops arbitrary: s)
  case Nil
  then show ?case by simp
next
  case (Cons op ops)
  have "safe_outcome (stream_exec junk op s)" using Cons.prems stream_exec_safe by simp
  with Cons show ?case by (cases "stream_exec junk op s") auto
qed

text \<open>
  C6: from a freshly created stream, no sequence of calls that respects \<open>op_ok\<close> makes an
  access outside the buffer: the run stops in a failed check of the library, or ends in a
  stream with \<open>getp \<le> endp \<le> size\<close>.  \<open>op_ok\<close> asks the callers for explicit offsets below
  \<open>2 ^ 63\<close>, for source buffers as long as they say, and for no second buffer in \<open>stream_recvmsg\<close>, and
  the system calls for no more bytes than there is room for; \<open>stream_getc_from_wraps\<close> and
  \<open>stream_recvmsg_two_buffers\<close> show what happens otherwise.
\<close>

theorem stream_calls_memory_safe:
  assumes "0 < n" and "n < 2 ^ 63" and "list_all op_ok ops"
  shows "safe_outcome (bindR (stream_new junk n) (stream_run junk ops))"
proof -
  obtain s where "stream_new junk n = Inr s" "stream_wf s"
    using stream_new_wf [OF assms(1,2)] by blast
  with stream_run_safe [OF _ assms(3)] show ?thesis by simp
qed

theorem stream_calls_memory_safe_witness:
  "safe_outcome (bindR (stream_new (\<lambda>_. 0) 4)
     (stream_run (\<lambda>_. 0) [Op_putl 0x01020304, Op_getw, Op_discard, Op_putw_at 0 5, Op_getq_from 0]))"
  using stream_calls_memory_safe [of 4
      "[Op_putl 0x01020304, Op_getw, Op_discard, Op_putw_at 0 5, Op_getq_from 0]" "\<lambda>_. 0"]
  by simp

text \<open>
  The checks compute \<open>offset + width\<close> in a \<open>size_t\<close>, so an offset close to
  \<open>SIZE_MAX\<close> passes: on every stream, reading a byte at offset \<open>2 ^ 64 - 1\<close> is an access
  outside the buffer that the bounds check of \<open>stream_getc_from\<close> does not stop.
\<close>

theorem stream_getc_from_wraps:
  assumes "stream_wf s"
  shows "stream_getc_from s (2 ^ 64 - 1) = Inl Mem_fault"
  using assms
  by (simp add: stream_getc_from_def stream_peek_def stream_wf_facts GETP_VALID_def uadd_def
      mem_read_def stream_wf_def)

theorem stream_getc_from_wraps_witness:
  "stream_getc_from \<lparr>getp = 0, endp = 1, ssize = 1, data = [7]\<rparr> (2 ^ 64 - 1) = Inl Mem_fault"
  using stream_getc_from_wraps [of "\<lparr>getp = 0, endp = 1, ssize = 1, data = [7]\<rparr>"]
  by (simp add: stream_wf_def)

text \<open>
  \<open>stream_recvmsg\<close> advances \<open>endp\<close> by the bytes received into all the buffers of the message: with a
  second buffer, a datagram that reaches into it leaves \<open>endp\<close> past the end of the stream.
\<close>

lemma stream_recvmsg_two_buffers:
  "stream_recvmsg (\<lambda>n. Io_data (take n [7, 7, 7, 7, 7])) [2, 3] \<lparr>getp = 0, endp = 0, ssize = 2, data = [0, 0]\<rparr> 2
     = Inr (5, \<lparr>getp = 0, endp = 5, ssize = 2, data = [7, 7]\<rparr>)"
  by (simp add: stream_recvmsg_def STREAM_SANE_def GETP_VALID_def STREAM_WRITEABLE_def
      ENDP_VALID_def uadd_def usub_def mem_write_def int_wrap_def)

section \<open>Discarding, overwriting and concatenating\<close>

text \<open>
  \<open>stream_discard\<close> moves the unread bytes to the front of the buffer without changing
  them, and makes the space of the bytes already read writeable again.
\<close>

lemma stream_discard_keeps_unread:
  assumes "stream_wf s"
  shows "\<exists>s'. stream_discard s = Inr s' \<and> stream_wf s' \<and> unread s' = unread s \<and> getp s' = 0 \<and>
    STREAM_WRITEABLE s' = STREAM_WRITEABLE s + getp s"
  using stream_discard_eq [OF assms] assms by (auto simp: stream_wf_facts stream_wf_def)

text \<open>
  a long word stored with \<open>stream_putl_at\<close> inside the written part of the stream is what
  \<open>stream_getl_from\<close> reads at that offset; every byte outside these four, and both positions,
  are unchanged.  This is how the daemons back-patch length fields.
\<close>

lemma stream_putl_at_getl_from:
  assumes wf: "stream_wf s" and off: "off + 4 \<le> endp s"
  shows "\<exists>s'. stream_putl_at s off l = Inr (4, s') \<and> stream_wf s' \<and> stream_getl_from s' off = Inr l \<and>
    getp s' = getp s \<and> endp s' = endp s \<and> ssize s' = ssize s \<and>
    (\<forall>i. i < off \<longrightarrow> data s' ! i = data s ! i) \<and> (\<forall>i. off + 4 \<le> i \<longrightarrow> data s' ! i = data s ! i)"
proof -
  let ?d = "take off (data s) @ bytes_of32 l @ drop (off + 4) (data s)"
  let ?s = "s\<lparr>data := ?d\<rparr>"
  have le: "off + 4 \<le> length (data s)" and small: "off + 4 < 2 ^ 64"
    using assms by (auto simp: stream_wf_def)
  have put: "stream_putl_at s off l = Inr (4, ?s)"
    using assms le small
    by (simp add: stream_putl_at_def stream_poke_def stream_wf_facts GETP_VALID_def size_arith mem_simps)
  have wf': "stream_wf ?s" using wf le by (simp add: stream_wf_def)
  have "mem_read ?d off 4 = Inr (bytes_of32 l)" using le by (simp add: mem_read_def)
  then have "stream_getl_from ?s off = Inr l"
    using wf' off small bytes_of_decode(2) [of l]
    by (simp add: stream_getl_from_def stream_peek_def stream_wf_facts(1) GETP_VALID_def size_arith)
  moreover have "?d ! i = data s ! i" if "off + 4 \<le> i" for i
    using that le by (auto simp: nth_append)
  ultimately show ?thesis using put wf' le by (auto simp: nth_append)
qed

lemma mem_write_append:
  "length bs \<le> length ys \<Longrightarrow>
   mem_write (xs @ ys) (length xs) bs = Inr (xs @ bs @ drop (length bs) ys)"
  by (simp add: mem_write_def)

text \<open>
  \<open>stream_dupcat\<close> with an offset inside the first stream gives a new stream whose
  contents are those of the first with the whole contents of the second inserted there.
\<close>

lemma stream_dupcat_inserts:
  assumes "stream_wf s1" and "stream_wf s2" and "offset \<le> endp s1"
    and "0 < endp s1 + endp s2" and "endp s1 + endp s2 < 2 ^ 63"
  shows "\<exists>new. stream_dupcat junk s1 s2 offset = Inr new \<and> stream_wf new \<and>
    unread new = take offset (data s1) @ take (endp s2) (data s2)
      @ drop offset (take (endp s1) (data s1))"
proof -
  let ?n = "endp s1 + endp s2" and ?d0 = "map junk [0..<endp s1 + endp s2]"
  let ?b1 = "take offset (data s1)" and ?b2 = "take (endp s2) (data s2)"
  let ?b3 = "take (endp s1 - offset) (drop offset (data s1))"
  have len: "length ?b1 = offset" "length ?b2 = endp s2" "length ?b3 = endp s1 - offset"
    using assms by (auto simp: stream_wf_def)
  have reads: "mem_read (data s1) 0 offset = Inr ?b1" "mem_read (data s2) 0 (endp s2) = Inr ?b2"
    "mem_read (data s1) offset (endp s1 - offset) = Inr ?b3"
    using assms by (auto simp: stream_wf_def mem_read_def)
  have w1: "mem_write ?d0 0 ?b1 = Inr (?b1 @ drop offset ?d0)"
    using assms len by (simp add: mem_write_def)
  have w2: "mem_write (?b1 @ drop offset ?d0) offset ?b2 = Inr (?b1 @ ?b2 @ drop (offset + endp s2) ?d0)"
    using mem_write_append [of ?b2 "drop offset ?d0" ?b1] assms len by (simp add: add.commute)
  have w3: "mem_write (?b1 @ ?b2 @ drop (offset + endp s2) ?d0) (offset + endp s2) ?b3
      = Inr (?b1 @ ?b2 @ ?b3)"
    using mem_write_append [of ?b3 "drop (offset + endp s2) ?d0" "?b1 @ ?b2"] assms len by simp
  have "stream_dupcat junk s1 s2 offset
      = Inr \<lparr>getp = 0, endp = ?n, ssize = ?n, data = ?b1 @ ?b2 @ ?b3\<rparr>"
    using assms reads w1 w2 w3
    by (simp add: stream_dupcat_def stream_wf_facts stream_new_def size_arith)
  then show ?thesis
    using assms len by (simp add: stream_wf_def unread_def drop_take)
qed

section \<open>The first-in first-out queue of streams\<close>

text \<open>
  A queue links the streams it holds through their \<open>next\<close> fields, so the model has a store
  \<open>nxt\<close> of all \<open>next\<close> fields (streams are numbered, \<open>None\<close> is \<open>NULL\<close>) beside the queue's
  own head, tail and count.
\<close>

record stream_fifo =
  fcount :: nat
  fhead :: "nat option"
  ftail :: "nat option"

type_synonym next_store = "nat \<Rightarrow> nat option"

definition stream_fifo_new :: stream_fifo where
  "stream_fifo_new = \<lparr>fcount = 0, fhead = None, ftail = None\<rparr>"

definition stream_fifo_push :: "stream_fifo \<Rightarrow> nat \<Rightarrow> next_store \<Rightarrow> stream_fifo \<times> next_store" where
  "stream_fifo_push fifo s nxt =
     (case ftail fifo of
        Some t \<Rightarrow> (fifo\<lparr>ftail := Some s, fcount := szadd (fcount fifo) 1\<rparr>, nxt(t := Some s))
      | None \<Rightarrow> (fifo\<lparr>fhead := Some s, ftail := Some s, fcount := szadd (fcount fifo) 1\<rparr>, nxt))"

definition stream_fifo_pop :: "stream_fifo \<Rightarrow> next_store \<Rightarrow> nat option \<times> stream_fifo" where
  "stream_fifo_pop fifo nxt =
     (case fhead fifo of
        None \<Rightarrow> (None, fifo)
      | Some s \<Rightarrow>
          (Some s, fifo\<lparr>fhead := nxt s,
                        ftail := (if nxt s = None then None else ftail fifo),
                        fcount := szsub (fcount fifo) 1\<rparr>))"

definition stream_fifo_head :: "stream_fifo \<Rightarrow> nat option" where
  "stream_fifo_head fifo = fhead fifo"

text \<open>The streams reached from a pointer along \<open>next\<close>.\<close>

fun chain :: "next_store \<Rightarrow> nat option \<Rightarrow> nat list \<Rightarrow> bool" where
  "chain nxt p [] = (p = None)"
| "chain nxt p (x # xs) = (p = Some x \<and> chain nxt (nxt x) xs)"

definition fifo_rep :: "next_store \<Rightarrow> stream_fifo \<Rightarrow> nat list \<Rightarrow> bool" where
  "fifo_rep nxt fifo xs \<longleftrightarrow>
     chain nxt (fhead fifo) xs \<and> distinct xs \<and> length xs < 2 ^ 64 \<and> fcount fifo = length xs \<and>
     ftail fifo = (if xs = [] then None else Some (last xs))"

lemma chain_upd: "x \<notin> set xs \<Longrightarrow> chain (nxt(x := v)) p xs = chain nxt p xs"
  by (induction xs arbitrary: p) auto

lemma chain_append:
  "xs \<noteq> [] \<Longrightarrow> distinct xs \<Longrightarrow> s \<notin> set xs \<Longrightarrow> nxt s = None \<Longrightarrow> chain nxt p xs \<Longrightarrow>
   chain (nxt(last xs := Some s)) p (xs @ [s])"
proof (induction xs arbitrary: p)
  case Nil
  then show ?case by simp
next
  case (Cons x xs)
  then show ?case by (cases xs) auto
qed

lemma fifo_push_rep:
  assumes "fifo_rep nxt fifo xs" and "s \<notin> set xs" and "nxt s = None" and "Suc (length xs) < 2 ^ 64"
    and "stream_fifo_push fifo s nxt = (fifo', nxt')"
  shows "fifo_rep nxt' fifo' (xs @ [s])"
  using assms chain_append [of xs s nxt "fhead fifo"]
  by (auto simp: fifo_rep_def stream_fifo_push_def size_arith split: option.splits if_splits)

lemma fifo_pop_rep:
  assumes "fifo_rep nxt fifo (x # xs)"
  shows "\<exists>fifo'. stream_fifo_pop fifo nxt = (Some x, fifo') \<and> fifo_rep nxt fifo' xs"
  using assms
  by (cases xs) (auto simp: fifo_rep_def stream_fifo_pop_def size_arith)

text \<open>
  The queue is first in, first out: pushing streams whose \<open>next\<close> field is \<open>NULL\<close> onto a
  queue holding \<open>xs\<close> and popping returns the head of \<open>xs\<close>, or the pushed stream when the
  queue was empty.
\<close>

lemma stream_fifo_order:
  assumes "fifo_rep nxt fifo xs" and "s \<notin> set xs" and "nxt s = None" and "Suc (length xs) < 2 ^ 64"
  shows "\<exists>fifo1 nxt1 fifo2. stream_fifo_push fifo s nxt = (fifo1, nxt1) \<and>
    stream_fifo_pop fifo1 nxt1 = (Some (hd (xs @ [s])), fifo2) \<and> fifo_rep nxt1 fifo2 (tl (xs @ [s]))"
proof -
  obtain fifo1 nxt1 where push: "stream_fifo_push fifo s nxt = (fifo1, nxt1)"
    by (cases "stream_fifo_push fifo s nxt") auto
  from fifo_push_rep [OF assms push] have "fifo_rep nxt1 fifo1 (hd (xs @ [s]) # tl (xs @ [s]))"
    by simp
  from fifo_pop_rep [OF this] push show ?thesis by blast
qed

text \<open>
  \<open>stream_fifo_pop\<close> does not clear the \<open>next\<close> field and \<open>stream_fifo_push\<close> does not
  reset it: a stream popped from a queue of two and pushed onto another, empty queue drags
  the stream still waiting in the first queue along with it.
\<close>

lemma stream_fifo_stale_next:
  assumes rep: "fifo_rep nxt fifo [a, b]"
  shows "\<exists>fifo1 other nxt'. stream_fifo_pop fifo nxt = (Some a, fifo1) \<and>
    stream_fifo_push stream_fifo_new a nxt = (other, nxt') \<and>
    chain nxt' (fhead other) [a, b] \<and> fcount other = 1"
  using rep
  by (auto simp: fifo_rep_def stream_fifo_pop_def stream_fifo_push_def stream_fifo_new_def size_arith)

end
