(* ===== verification/Checksum.thy ===== *)
theory Checksum
  imports Prelude
begin

text \<open>
  lib/checksum.c: the Internet checksum \<open>in_cksum\<close> (OSPF, PIM, IGMP and IRDP headers) and the
  Fletcher checksum \<open>fletcher_checksum\<close> (OSPF and IS-IS link state advertisements).  The
  configuration is that of config.h: a little-endian machine with 64 bit \<open>long\<close> and
  \<open>size_t\<close> and 32 bit \<open>int\<close>.  For both routines the main result is that a message into
  which the computed checksum has been stored verifies.
\<close>

section \<open>The Internet checksum\<close>

text \<open>
  The loop adds the 16 bit words in host (little-endian) order, and a last odd byte as the
  low half of a word.  \<open>sum\<close> is a \<open>long\<close>, far from overflow for any \<open>int\<close> number of bytes.
\<close>

fun in_cksum_loop :: "u8 list \<Rightarrow> nat \<Rightarrow> nat" where
  "in_cksum_loop (a # b # bs) acc = in_cksum_loop bs (acc + (unat a + 256 * unat b))"
| "in_cksum_loop [a] acc = acc + unat a"
| "in_cksum_loop [] acc = acc"

definition in_cksum :: "u8 list \<Rightarrow> u16" where
  "in_cksum bs =
     (let sum0 = in_cksum_loop bs 0;
          sum1 = sum0 div 65536 + sum0 mod 65536;
          sum2 = sum1 + sum1 div 65536
      in NOT (word_of_nat sum2))"

text \<open>The two bytes of a 16 bit value as they are stored in memory.\<close>

definition le16_bytes :: "u16 \<Rightarrow> u8 list" where
  "le16_bytes w = [ucast w, ucast (drop_bit 8 w)]"

subsection \<open>Folding carries is reduction modulo \<open>2 ^ 16 - 1\<close>\<close>

definition fold_carry :: "nat \<Rightarrow> nat" where
  "fold_carry s = (let s1 = s div 65536 + s mod 65536 in (s1 + s1 div 65536) mod 65536)"

lemma fold_carry_props:
  assumes "s < 2 ^ 32"
  shows "fold_carry s < 65536" and "fold_carry s mod 65535 = s mod 65535" and "fold_carry s = 0 \<longleftrightarrow> s = 0"
proof -
  let ?s1 = "s div 65536 + s mod 65536"
  have s1: "?s1 \<le> 131070" using assms by simp
  have eq: "fold_carry s = (if ?s1 < 65536 then ?s1 else ?s1 - 65535)"
  proof (cases "?s1 < 65536")
    case True
    then show ?thesis by (simp add: fold_carry_def Let_def)
  next
    case False
    then have "?s1 div 65536 = 1" using s1 by simp
    then have "fold_carry s = (?s1 + 1) mod 65536" by (simp only: fold_carry_def Let_def)
    also have "\<dots> = ?s1 + 1 - 65536" using False s1 by (subst le_mod_geq) simp_all
    finally show ?thesis using False by simp
  qed
  show "fold_carry s < 65536" by (simp add: fold_carry_def Let_def)
  have "s = ?s1 + 65535 * (s div 65536)" by simp
  then have "s mod 65535 = ?s1 mod 65535" by (metis mod_mult_self2)
  moreover have "fold_carry s mod 65535 = ?s1 mod 65535"
  proof (cases "?s1 < 65536")
    case False
    then have "?s1 = (?s1 - 65535) + 65535" by simp
    then have "?s1 mod 65535 = (?s1 - 65535) mod 65535" by (metis mod_add_self2)
    with False show ?thesis unfolding eq by simp
  qed (simp only: eq if_True)
  ultimately show "fold_carry s mod 65535 = s mod 65535" by simp
  show "fold_carry s = 0 \<longleftrightarrow> s = 0"
    by (auto simp: eq)
qed

lemma unat_NOT16: "unat (NOT (w :: u16)) = 65535 - unat w"
proof -
  have "unat (-1 - w) = unat (-1 :: u16) - unat w" by (rule unat_sub) simp
  moreover have "unat (-1 :: u16) = 65535" by (simp add: unsigned_minus_1_eq_mask mask_eq_exp_minus_1)
  moreover have "NOT w = -1 - w" by (simp add: not_eq_complement)
  ultimately show ?thesis by simp
qed

lemma unat_in_cksum: "unat (in_cksum bs) = 65535 - fold_carry (in_cksum_loop bs 0)"
  unfolding in_cksum_def fold_carry_def Let_def unat_NOT16
  by (simp only: unat_of_nat) simp

lemma in_cksum_loop_acc: "in_cksum_loop bs acc = acc + in_cksum_loop bs 0"
proof (induction bs arbitrary: acc rule: induct_list012)
  case (3 a b bs)
  let ?k = "unat a + 256 * unat b"
  have "in_cksum_loop bs (acc + ?k) = acc + ?k + in_cksum_loop bs 0"
    and "in_cksum_loop bs (0 + ?k) = 0 + ?k + in_cksum_loop bs 0"
    by (rule "3.IH"(1))+
  then show ?case by simp
qed simp_all

lemma in_cksum_loop_append:
  "even (length xs) \<Longrightarrow> in_cksum_loop (xs @ ys) 0 = in_cksum_loop xs 0 + in_cksum_loop ys 0"
proof (induction xs rule: induct_list012)
  case (3 a b xs)
  let ?k = "unat a + 256 * unat b"
  have "in_cksum_loop (xs @ ys) ?k = ?k + in_cksum_loop (xs @ ys) 0"
    and "in_cksum_loop xs ?k = ?k + in_cksum_loop xs 0" by (rule in_cksum_loop_acc)+
  with 3 show ?case by simp
qed simp_all

lemma in_cksum_loop_bound: "in_cksum_loop bs 0 \<le> 65535 * ((length bs + 1) div 2)"
proof (induction bs rule: induct_list012)
  case (2 a)
  have "unat a < 256" using unsigned_less [of a] by simp
  then show ?case by simp
next
  case (3 a b bs)
  have "unat a < 256" "unat b < 256" using unsigned_less [of a] unsigned_less [of b] by simp_all
  moreover have "in_cksum_loop bs (unat a + 256 * unat b)
      = unat a + 256 * unat b + in_cksum_loop bs 0" by (rule in_cksum_loop_acc)
  ultimately show ?case using "3.IH"(1) by simp
qed simp

lemma in_cksum_loop_le16: "in_cksum_loop (le16_bytes w) 0 = unat w"
proof -
  have "unat (ucast w :: u8) = unat w mod 256"
    and "unat (ucast (drop_bit 8 w) :: u8) = unat w div 256"
    using unsigned_less [of w, where ?'a = nat]
    by (simp_all only: unsigned_ucast_eq unsigned_drop_bit_eq take_bit_eq_mod drop_bit_eq_div) (simp_all add: unat_div)
  then show ?thesis by (simp add: le16_bytes_def)
qed

text \<open>
  C28: the Internet checksum verifies.  Storing the value \<open>in_cksum\<close> returns at any aligned
  position that held zero makes the checksum of the whole message zero, for messages up to
  128 kilobytes (beyond that the \<open>long\<close> accumulator would need a third fold).
\<close>

theorem in_cksum_verifies:
  assumes "even (length xs)" and "length xs + length ys \<le> 131070"
  shows "in_cksum (xs @ le16_bytes (in_cksum (xs @ [0, 0] @ ys)) @ ys) = 0"
proof -
  let ?c = "in_cksum (xs @ [0, 0] @ ys)" and ?s = "in_cksum_loop (xs @ [0, 0] @ ys) 0"
  have s: "?s = in_cksum_loop xs 0 + in_cksum_loop ys 0"
    using in_cksum_loop_append [OF assms(1), of "[0, 0] @ ys"] by simp
  have "in_cksum_loop (le16_bytes ?c @ ys) 0 = unat ?c + in_cksum_loop ys 0"
    using in_cksum_loop_append [of "le16_bytes ?c" ys] in_cksum_loop_le16 [of ?c]
    by (simp add: le16_bytes_def)
  then have s': "in_cksum_loop (xs @ le16_bytes ?c @ ys) 0 = ?s + unat ?c"
    using in_cksum_loop_append [OF assms(1), of "le16_bytes ?c @ ys"] s by simp
  have bound: "?s + unat ?c < 2 ^ 32"
    using in_cksum_loop_bound [of "xs @ le16_bytes ?c @ ys"] assms(2) s'
    by (simp add: le16_bytes_def)
  let ?r = "fold_carry ?s"
  have c: "unat ?c = 65535 - ?r" and r: "?r \<le> 65535" "?r mod 65535 = ?s mod 65535"
    using unat_in_cksum fold_carry_props [of ?s] bound by simp_all
  have "(?s + unat ?c) mod 65535 = (?s mod 65535 + (65535 - ?r)) mod 65535"
    unfolding c by (simp add: mod_add_left_eq)
  also have "\<dots> = (?r mod 65535 + (65535 - ?r)) mod 65535" using r by simp
  also have "\<dots> = (?r + (65535 - ?r)) mod 65535" by (simp add: mod_add_left_eq)
  finally have "(?s + unat ?c) mod 65535 = 0" using r by simp
  moreover have "?s + unat ?c \<noteq> 0"
    using c r fold_carry_props(3) [of ?s] bound by auto
  ultimately have "fold_carry (?s + unat ?c) mod 65535 = 0" "fold_carry (?s + unat ?c) \<noteq> 0"
    "fold_carry (?s + unat ?c) < 65536"
    using fold_carry_props [OF bound] by auto
  then have "fold_carry (?s + unat ?c) = 65535" by (auto simp: mod_eq_0_iff_dvd dvd_def)
  then have "unat (in_cksum (xs @ le16_bytes ?c @ ys)) = 0"
    unfolding unat_in_cksum s' by simp
  then show ?thesis by (simp only: unat_eq_zero)
qed

theorem in_cksum_verifies_witness:
  "in_cksum ([0x45, 0x00] @ le16_bytes (in_cksum ([0x45, 0x00] @ [0, 0] @ [0xFF, 0xFE, 0x07])) @ [0xFF, 0xFE, 0x07]) = 0"
  by (rule in_cksum_verifies) simp_all

section \<open>The Fletcher checksum\<close>

definition MODX :: nat where
  "MODX = 4102"

definition FLETCHER_CHECKSUM_VALIDATE :: u16 where
  "FLETCHER_CHECKSUM_VALIDATE = 0xFFFF"

text \<open>The inner loop: \<open>c0\<close> and \<open>c1\<close> are of type \<open>int\<close>, so both additions can overflow.\<close>

fun fletcher_inner :: "u8 list \<Rightarrow> int \<Rightarrow> int \<Rightarrow> (int \<times> int) res" where
  "fletcher_inner [] c0 c1 = Inr (c0, c1)"
| "fletcher_inner (b # bs) c0 c1 =
     bindR (int_add c0 (uint b)) (\<lambda>c0'.
     bindR (int_add c1 c0') (\<lambda>c1'. fletcher_inner bs c0' c1'))"

text \<open>The outer loop, over chunks of at most \<open>modx\<close> bytes with a reduction after each.\<close>

function fletcher_outer :: "nat \<Rightarrow> u8 list \<Rightarrow> int \<Rightarrow> int \<Rightarrow> (int \<times> int) res" where
  "fletcher_outer modx bs c0 c1 =
     (if bs = [] \<or> modx = 0 then Inr (c0, c1)
      else bindR (fletcher_inner (take modx bs) c0 c1) (\<lambda>(c0', c1').
           fletcher_outer modx (drop modx bs) (c_rem c0' 255) (c_rem c1' 255)))"
  by pat_completeness auto
termination
  by (relation "measure (\<lambda>(m, bs, _). length bs)") auto

declare fletcher_outer.simps [simp del]

definition htons :: "u16 \<Rightarrow> u16" where
  "htons w = be16 (ucast w) (ucast (drop_bit 8 w))"

text \<open>
  \<open>fletcher_checksum buf offset\<close> for a buffer of \<open>len = length buf\<close> bytes returns the buffer
  and the checksum.  \<open>x\<close> is computed in \<open>size_t\<close> and then cast to \<open>int\<close>.
\<close>

definition fletcher_x :: "nat \<Rightarrow> u16 \<Rightarrow> int \<Rightarrow> int \<Rightarrow> int" where
  "fletcher_x len offset c0 c1 =
     (let w = (word_of_nat len - ucast offset - 1) * word_of_int c0 - word_of_int c1 :: u64;
          x = c_rem (sint (ucast w :: 32 word)) 255
      in if x \<le> 0 then x + 255 else x)"

definition fletcher_y :: "int \<Rightarrow> int \<Rightarrow> int" where
  "fletcher_y c0 x = (let y = 510 - c0 - x in if y > 255 then y - 255 else y)"

definition fletcher_checksum :: "u8 list \<Rightarrow> u16 \<Rightarrow> (u8 list \<times> u16) res" where
  "fletcher_checksum buf offset =
     (let len = length buf in
      if offset \<noteq> FLETCHER_CHECKSUM_VALIDATE \<and> \<not> unat offset < szsub len 1 then Inl Assert_failed
      else
        bindR (if offset \<noteq> FLETCHER_CHECKSUM_VALIDATE then mem_write buf (unat offset) [0, 0] else Inr buf)
          (\<lambda>buf'.
        bindR (fletcher_outer MODX buf' 0 0) (\<lambda>(c0, c1).
          let x = fletcher_x len offset c0 c1;
              y = fletcher_y c0 x
          in if offset = FLETCHER_CHECKSUM_VALIDATE
             then Inr (buf', word_of_int (c1 * 256 + c0))
             else bindR (mem_set buf' (unat offset) (word_of_int x)) (\<lambda>buf1.
                  bindR (mem_set buf1 (unat offset + 1) (word_of_int y)) (\<lambda>buf2.
                    Inr (buf2, htons (be16 (word_of_int x) (word_of_int y))))))))"

subsection \<open>What the loops compute\<close>

text \<open>The plain sum of the bytes and the sum weighted by the distance from the end.\<close>

fun byte_sum :: "u8 list \<Rightarrow> int" where
  "byte_sum [] = 0"
| "byte_sum (b # bs) = uint b + byte_sum bs"

fun weighted_sum :: "u8 list \<Rightarrow> int" where
  "weighted_sum [] = 0"
| "weighted_sum (b # bs) = (int (length bs) + 1) * uint b + weighted_sum bs"

lemma byte_sum_nonneg [simp]: "0 \<le> byte_sum bs"
  by (induction bs) auto

lemma weighted_sum_nonneg [simp]: "0 \<le> weighted_sum bs"
  by (induction bs) auto

lemma uint_u8_le: "uint (b :: u8) \<le> 255"
  using unsigned_less [of b, where ?'a = int] by simp

lemma byte_sum_le: "byte_sum bs \<le> 255 * int (length bs)"
proof (induction bs)
  case (Cons b bs)
  then show ?case using uint_u8_le [of b] by simp
qed simp

lemma weighted_sum_le: "2 * weighted_sum bs \<le> 255 * (int (length bs) * (int (length bs) + 1))"
proof (induction bs)
  case (Cons b bs)
  have "(int (length bs) + 1) * uint b \<le> (int (length bs) + 1) * 255"
    by (rule mult_left_mono [OF uint_u8_le]) simp
  with Cons show ?case by (simp add: algebra_simps)
qed simp

lemma byte_sum_append [simp]: "byte_sum (xs @ ys) = byte_sum xs + byte_sum ys"
  by (induction xs) auto

lemma weighted_sum_append [simp]:
  "weighted_sum (xs @ ys) = weighted_sum xs + int (length ys) * byte_sum xs + weighted_sum ys"
  by (induction xs) (auto simp: algebra_simps)

lemma fletcher_inner_sums:
  assumes "0 \<le> c0" "0 \<le> c1" "c0 + byte_sum bs \<le> INT_MAX"
    and "c1 + int (length bs) * c0 + weighted_sum bs \<le> INT_MAX"
  shows "fletcher_inner bs c0 c1 = Inr (c0 + byte_sum bs, c1 + int (length bs) * c0 + weighted_sum bs)"
  using assms
proof (induction bs arbitrary: c0 c1)
  case (Cons b bs)
  let ?c0 = "c0 + uint b" and ?c1 = "c1 + (c0 + uint b)"
  have nonneg: "0 \<le> ?c0" "0 \<le> ?c1" "0 \<le> int (length bs) * ?c0" using Cons.prems by simp_all
  have sums: "?c0 + byte_sum bs = c0 + byte_sum (b # bs)"
    "?c1 + int (length bs) * ?c0 + weighted_sum bs
      = c1 + int (length (b # bs)) * c0 + weighted_sum (b # bs)"
    by (simp_all add: algebra_simps)
  have "?c0 \<le> INT_MAX" "?c1 \<le> INT_MAX"
    using Cons.prems nonneg sums byte_sum_nonneg [of bs] weighted_sum_nonneg [of bs] by linarith+
  then have "fletcher_inner (b # bs) c0 c1 = fletcher_inner bs ?c0 ?c1"
    using nonneg by (simp add: int_add_def INT_MAX_def)
  also have "\<dots> = Inr (?c0 + byte_sum bs, ?c1 + int (length bs) * ?c0 + weighted_sum bs)"
    by (rule Cons.IH) (use Cons.prems nonneg sums in simp_all)
  finally show ?case by (simp only: sums)
qed simp

text \<open>A chunk of \<open>MODX\<close> bytes fits, whatever the bytes are.\<close>

lemma fletcher_inner_chunk:
  assumes "0 \<le> c0" "c0 \<le> 254" "0 \<le> c1" "c1 \<le> 254" "length bs \<le> MODX"
  shows "fletcher_inner bs c0 c1 = Inr (c0 + byte_sum bs, c1 + int (length bs) * c0 + weighted_sum bs)"
proof (rule fletcher_inner_sums)
  have len: "int (length bs) \<le> 4102" using assms(5) by (simp add: MODX_def)
  show "c0 + byte_sum bs \<le> INT_MAX"
    using byte_sum_le [of bs] len assms by (simp add: INT_MAX_def)
  have "int (length bs) * c0 \<le> 4102 * 254" using len assms by (intro mult_mono) simp_all
  moreover have "int (length bs) * (int (length bs) + 1) \<le> 4102 * 4103"
    using len by (intro mult_mono) simp_all
  ultimately show "c1 + int (length bs) * c0 + weighted_sum bs \<le> INT_MAX"
    using weighted_sum_le [of bs] assms by (simp add: INT_MAX_def)
qed (use assms in simp_all)

lemma c_rem_nonneg: "0 \<le> a \<Longrightarrow> 0 < b \<Longrightarrow> c_rem a b = a mod b"
  by (cases "a = 0") (auto simp: c_rem_def)

lemma fletcher_outer_sums:
  assumes "0 \<le> c0" "c0 \<le> 254" "0 \<le> c1" "c1 \<le> 254"
  shows "fletcher_outer MODX bs c0 c1 =
    Inr ((c0 + byte_sum bs) mod 255, (c1 + int (length bs) * c0 + weighted_sum bs) mod 255)"
  using assms
proof (induction "length bs" arbitrary: bs c0 c1 rule: less_induct)
  case less
  show ?case
  proof (cases "bs = []")
    case True
    then show ?thesis using less.prems by (simp add: fletcher_outer.simps)
  next
    case False
    let ?t = "take MODX bs" and ?d = "drop MODX bs"
    let ?c0 = "c0 + byte_sum ?t" and ?c1 = "c1 + int (length ?t) * c0 + weighted_sum ?t"
    have pos: "0 \<le> ?c0" "0 \<le> ?c1" using less.prems by simp_all
    have "fletcher_outer MODX bs c0 c1 = fletcher_outer MODX ?d (?c0 mod 255) (?c1 mod 255)"
      using False pos fletcher_inner_chunk [of c0 c1 ?t] less.prems
      by (subst fletcher_outer.simps) (simp add: c_rem_nonneg MODX_def)
    also have "\<dots> = Inr ((?c0 mod 255 + byte_sum ?d) mod 255,
        (?c1 mod 255 + int (length ?d) * (?c0 mod 255) + weighted_sum ?d) mod 255)"
      by (rule less.hyps) (use False in \<open>simp_all add: MODX_def\<close>)
    also have "(?c0 mod 255 + byte_sum ?d) mod 255 = (c0 + byte_sum bs) mod 255"
    proof -
      have "?c0 + byte_sum ?d = c0 + byte_sum (?t @ ?d)" by (simp only: byte_sum_append)
      then show ?thesis by (simp only: mod_add_left_eq append_take_drop_id)
    qed
    also have "(?c1 mod 255 + int (length ?d) * (?c0 mod 255) + weighted_sum ?d) mod 255
        = (?c1 + int (length ?d) * ?c0 + weighted_sum ?d) mod 255"
      by (intro mod_add_cong mod_mult_cong) simp_all
    also have "?c1 + int (length ?d) * ?c0 + weighted_sum ?d
        = c1 + int (length ?t + length ?d) * c0 + weighted_sum (?t @ ?d)"
      by (simp only: weighted_sum_append of_nat_add) (simp add: algebra_simps)
    also have "length ?t + length ?d = length bs" by simp
    finally show ?thesis by simp
  qed
qed

lemma fletcher_outer_total:
  "fletcher_outer MODX bs 0 0 = Inr (byte_sum bs mod 255, weighted_sum bs mod 255)"
  using fletcher_outer_sums [of 0 0 bs] by simp

subsection \<open>The two check bytes\<close>

lemma fletcher_x_exact:
  assumes "unat offset + 1 \<le> len" "len \<le> 2 ^ 23" "0 \<le> c0" "c0 \<le> 254" "0 \<le> c1" "c1 \<le> 254"
  defines "e \<equiv> (int len - int (unat offset) - 1) * c0 - c1"
  shows "fletcher_x len offset c0 c1 mod 255 = e mod 255"
    and "1 \<le> fletcher_x len offset c0 c1" and "fletcher_x len offset c0 c1 \<le> 255"
proof -
  let ?w = "(word_of_nat len - ucast offset - 1) * word_of_int c0 - word_of_int c1 :: u64"
  have "(ucast offset :: u64) = word_of_int (int (unat offset))"
    by simp
  then have "?w = word_of_int e" by (simp add: e_def)
  then have "(ucast ?w :: 32 word) = word_of_int e"
    by (simp only:) (rule bit_word_eqI, simp add: bit_simps)
  moreover have "- (2 ^ 31) \<le> e" "e < 2 ^ 31"
  proof -
    define d where "d = int len - int (unat offset) - 1"
    define k where "k = unat offset"
    have "0 \<le> d" "d \<le> 2 ^ 23" using assms(1,2) unfolding d_def k_def [symmetric] by simp_all
    then have "0 \<le> d * c0" "d * c0 \<le> 2 ^ 23 * 254"
      using assms(3,4) by (simp, intro mult_mono, simp_all)
    then show "- (2 ^ 31) \<le> e" "e < 2 ^ 31"
      using assms(5,6) unfolding e_def d_def [symmetric] by simp_all
  qed
  ultimately have "sint (ucast ?w :: 32 word) = e"
    by (simp add: signed_of_int signed_take_bit_int_eq_self)
  then have x: "fletcher_x len offset c0 c1 = (let x = c_rem e 255 in if x \<le> 0 then x + 255 else x)"
    by (simp add: fletcher_x_def Let_def)
  show "fletcher_x len offset c0 c1 mod 255 = e mod 255"
    using c_rem_mod [of 255 e] by (simp add: x Let_def)
  show "1 \<le> fletcher_x len offset c0 c1" "fletcher_x len offset c0 c1 \<le> 255"
    using c_rem_bounds [of 255 e] by (simp_all add: x Let_def)
qed

lemma fletcher_y_props:
  assumes "0 \<le> c0" "c0 \<le> 254" "1 \<le> x" "x \<le> 255"
  shows "1 \<le> fletcher_y c0 x" "fletcher_y c0 x \<le> 255" "(c0 + x + fletcher_y c0 x) mod 255 = 0"
  using assms by (auto simp: fletcher_y_def Let_def)

lemma htons_bytes: "le16_bytes (htons (be16 a b)) = [a, b]"
proof -
  have "(ucast (be16 a b) :: u8) = b" "(ucast (drop_bit 8 (be16 a b)) :: u8) = a"
    by (rule bit_word_eqI; auto simp: be16_def bit_simps dest: bit_imp_le_length)+
  then have "htons (be16 a b) = be16 b a" by (simp only: htons_def)
  moreover have "(ucast (be16 b a) :: u8) = a" "(ucast (drop_bit 8 (be16 b a)) :: u8) = b"
    by (rule bit_word_eqI; auto simp: be16_def bit_simps dest: bit_imp_le_length)+
  ultimately show ?thesis by (simp add: le16_bytes_def)
qed

text \<open>
  What storing two bytes at \<open>xs\<close>-length does to the sums, for a buffer
  \<open>xs @ [0, 0] @ ys\<close>.
\<close>

lemma fletcher_balanced:
  assumes len: "length xs + 2 + length ys = len" and x: "uint a = x" and y: "uint b = y"
    and c0: "c0 = byte_sum (xs @ [0, 0] @ ys) mod 255"
    and c1: "c1 = weighted_sum (xs @ [0, 0] @ ys) mod 255"
    and xm: "x mod 255 = ((int len - int (length xs) - 1) * c0 - c1) mod 255"
    and ym: "(c0 + x + y) mod 255 = 0"
  shows "byte_sum (xs @ [a, b] @ ys) mod 255 = 0" "weighted_sum (xs @ [a, b] @ ys) mod 255 = 0"
proof -
  define S where "S = byte_sum (xs @ [0, 0] @ ys)"
  define W where "W = weighted_sum (xs @ [0, 0] @ ys)"
  define n where "n = int (length ys) + 1"
  have S: "byte_sum (xs @ [a, b] @ ys) = S + x + y"
    by (simp add: S_def x y)
  have W: "weighted_sum (xs @ [a, b] @ ys) = W + x + n * (x + y)"
    by (simp add: W_def n_def x y algebra_simps)
  have Sm: "S mod 255 = c0" and Wm: "W mod 255 = c1" by (simp_all add: c0 c1 S_def W_def)
  have zero: "(S + x + y) mod 255 = 0"
    using ym mod_add_left_eq [of S 255 "x + y"] by (simp add: Sm add.assoc)
  then show "byte_sum (xs @ [a, b] @ ys) mod 255 = 0" by (simp only: S)
  have n: "int len - int (length xs) - 1 = n" using len by (simp add: n_def)
  have "(n * c0 - c1) mod 255 = (n * S - W) mod 255"
    by (intro mod_diff_cong mod_mult_cong) (simp_all flip: Sm Wm)
  then have "(W + x) mod 255 = (n * S) mod 255"
    using mod_add_cong [of x 255 "n * S - W" W W] xm unfolding n by (simp add: add.commute)
  then have "(W + x + n * (x + y)) mod 255 = (n * S + n * (x + y)) mod 255"
    by (rule mod_add_cong) simp
  also have "n * S + n * (x + y) = n * (S + x + y)" by (simp add: algebra_simps)
  also have "\<dots> mod 255 = 0" using zero by (metis mod_mult_right_eq mult_zero_right mod_0)
  finally show "weighted_sum (xs @ [a, b] @ ys) mod 255 = 0" by (simp only: W)
qed


lemma fletcher_checksum_store:
  assumes buf: "length xs + 2 + length ys = len" and len: "len \<le> 2 ^ 23"
    and off: "unat offset = length xs" "offset \<noteq> FLETCHER_CHECKSUM_VALIDATE"
  obtains a b where "fletcher_checksum (xs @ [u, v] @ ys) offset
        = Inr (xs @ [a, b] @ ys, htons (be16 a b))"
    and "byte_sum (xs @ [a, b] @ ys) mod 255 = 0" "weighted_sum (xs @ [a, b] @ ys) mod 255 = 0"
proof -
  let ?z = "xs @ [0, 0] @ ys"
  define c0 where "c0 = byte_sum ?z mod 255"
  define c1 where "c1 = weighted_sum ?z mod 255"
  have c: "0 \<le> c0" "c0 \<le> 254" "0 \<le> c1" "c1 \<le> 254" by (simp_all add: c0_def c1_def)
  define x where "x = fletcher_x len offset c0 c1"
  define y where "y = fletcher_y c0 x"
  have "unat offset + 1 \<le> len" using buf off by simp
  note x = fletcher_x_exact [OF this len c, folded x_def, unfolded off(1)]
  note y = fletcher_y_props [OF c(1,2) x(2,3), folded y_def]
  have u: "uint (word_of_int x :: u8) = x" "uint (word_of_int y :: u8) = y"
    using x y by (simp_all add: unsigned_of_int take_bit_int_eq_self)
  have assert: "length xs < szsub len 1"
    using buf len by (subst size_arith) auto
  have "fletcher_checksum (xs @ [u, v] @ ys) offset
      = Inr (xs @ [word_of_int x, word_of_int y] @ ys, htons (be16 (word_of_int x) (word_of_int y)))"
  proof -
    have "fletcher_outer MODX ?z 0 0 = Inr (c0, c1)"
      using fletcher_outer_total [of ?z] by (simp add: c0_def c1_def)
    moreover have "length (xs @ [u, v] @ ys) = len" using buf by simp
    ultimately show ?thesis using assert off
      by (simp add: fletcher_checksum_def Let_def mem_simps list_update_append nth_append
          flip: x_def y_def)
  qed
  then show thesis
    using fletcher_balanced [OF buf u c0_def c1_def x(1) y(3)] by (rule that)
qed

lemma fletcher_validate:
  "fletcher_checksum buf FLETCHER_CHECKSUM_VALIDATE =
     Inr (buf, word_of_int (weighted_sum buf mod 255 * 256 + byte_sum buf mod 255))"
  by (simp add: fletcher_checksum_def Let_def fletcher_outer_total)

text \<open>
  C27: the Fletcher checksum verifies.  For a buffer of up to \<open>2 ^ 23\<close> bytes and any offset
  with room for the two check bytes, \<open>fletcher_checksum\<close> does not overflow an \<open>int\<close>, changes
  only the two bytes at the offset, returns the 16 bit value that lies there in memory, and
  validating the resulting buffer returns 0.
\<close>

theorem fletcher_checksum_verifies:
  assumes "unat offset + 2 \<le> length buf" "length buf \<le> 2 ^ 23"
    and "offset \<noteq> FLETCHER_CHECKSUM_VALIDATE"
  shows "\<exists>buf' sum. fletcher_checksum buf offset = Inr (buf', sum) \<and>
      buf' = take (unat offset) buf @ le16_bytes sum @ drop (unat offset + 2) buf \<and>
      fletcher_checksum buf' FLETCHER_CHECKSUM_VALIDATE = Inr (buf', 0)"
proof -
  define xs where "xs = take (unat offset) buf"
  define ys where "ys = drop (unat offset + 2) buf"
  have "buf = xs @ [buf ! unat offset, buf ! Suc (unat offset)] @ ys"
    using assms(1) id_take_nth_drop [of "unat offset" buf]
      Cons_nth_drop_Suc [of "Suc (unat offset)" buf] by (simp add: xs_def ys_def)
  then obtain u v where buf: "buf = xs @ [u, v] @ ys" by blast
  have len: "unat offset = length xs" "length xs + 2 + length ys = length buf"
    using assms(1) by (simp_all add: xs_def ys_def)
  obtain a b where r: "fletcher_checksum buf offset = Inr (xs @ [a, b] @ ys, htons (be16 a b))"
    and z: "byte_sum (xs @ [a, b] @ ys) mod 255 = 0" "weighted_sum (xs @ [a, b] @ ys) mod 255 = 0"
    using fletcher_checksum_store [OF len(2) assms(2) len(1) assms(3), of u v] buf by auto
  have "fletcher_checksum (xs @ [a, b] @ ys) FLETCHER_CHECKSUM_VALIDATE = Inr (xs @ [a, b] @ ys, 0)"
    unfolding fletcher_validate z by simp
  with r show ?thesis
    by (intro exI [of _ "xs @ [a, b] @ ys"] exI) (auto simp: htons_bytes xs_def ys_def)
qed

theorem fletcher_checksum_verifies_witness:
  "\<exists>buf' sum. fletcher_checksum [1, 2, 0xFF, 0xFF, 9] 2 = Inr (buf', sum) \<and>
      buf' = take 2 [1, 2, 0xFF, 0xFF, 9] @ le16_bytes sum @ drop 4 [1, 2, 0xFF, 0xFF, 9] \<and>
      fletcher_checksum buf' FLETCHER_CHECKSUM_VALIDATE = Inr (buf', 0)"
  using fletcher_checksum_verifies [of 2 "[1, 2, 0xFF, 0xFF, 9]"]
  by (simp add: FLETCHER_CHECKSUM_VALIDATE_def)

text \<open>Past the bound, the partial sums leave the range of \<open>int\<close>.\<close>

lemma fletcher_inner_result:
  assumes "fletcher_inner bs c0 c1 = Inr r" "0 \<le> c0" "0 \<le> c1"
  shows "r = (c0 + byte_sum bs, c1 + int (length bs) * c0 + weighted_sum bs)
    \<and> (bs \<noteq> [] \<longrightarrow> snd r \<le> INT_MAX)"
  using assms
proof (induction bs arbitrary: c0 c1)
  case (Cons b bs)
  then have "fletcher_inner bs (c0 + uint b) (c1 + (c0 + uint b)) = Inr r"
    and "c1 + (c0 + uint b) \<le> INT_MAX"
    by (auto simp: int_add_def bindR_eq_Inr split: if_splits)
  with Cons.IH [OF this(1)] Cons.prems show ?case
    by (cases bs) (auto simp: algebra_simps)
qed simp

lemma byte_sum_replicate: "byte_sum (replicate n b) = int n * uint b"
  by (induction n) (auto simp: algebra_simps)

lemma weighted_sum_replicate: "2 * weighted_sum (replicate n b) = int n * (int n + 1) * uint b"
  by (induction n) (auto simp: algebra_simps)

text \<open>
  the comment beside \<open>MODX\<close> ("5802 should be fine") is wrong for the type \<open>int\<close> of the
  sums: with chunks of 5802 bytes a buffer of 5802 bytes 255 overflows, while with the value
  4102 of the code no buffer does.
\<close>

lemma fletcher_modx_bound:
  "fletcher_outer 5802 (replicate 5802 255) 0 0 = Inl Int_overflow \<and>
   (\<forall>bs. \<exists>c0 c1. fletcher_outer MODX bs 0 0 = Inr (c0, c1))"
proof -
  have err: "fletcher_inner bs c0 c1 = Inl e \<Longrightarrow> e = Int_overflow" for bs c0 c1 e
    by (induction bs arbitrary: c0 c1) (auto simp: int_add_def bindR_eq_Inl split: if_splits)
  have "2 * weighted_sum (replicate 5802 255) = 5802 * 5803 * 255"
    using weighted_sum_replicate [of 5802 255] by simp
  then have "\<nexists>r. fletcher_inner (replicate 5802 255) 0 0 = Inr r"
    by (auto dest!: fletcher_inner_result simp: INT_MAX_def)
  then have "fletcher_inner (replicate 5802 255) 0 0 = Inl Int_overflow"
    using err [of "replicate 5802 255" 0 0] by (cases "fletcher_inner (replicate 5802 255) 0 0") auto
  then have "fletcher_outer 5802 (replicate 5802 255) 0 0 = Inl Int_overflow"
    by (subst fletcher_outer.simps) simp
  then show ?thesis using fletcher_outer_total by auto
qed

end
