(* ===== verification/Contracts.thy ===== *)
theory Contracts
  imports Prelude
begin

text \<open>
  Contracts that several components implement.  \<open>map_ops\<close> is the contract of a keyed store
  (vectors, hash tables, route tables): after an insertion the key is found with its new
  value, after a removal it is not found, and no other key is affected.  Client lemmas about
  whole sequences of operations are proved once, inside the locale.
\<close>

datatype ('k, 'v) map_op = Put 'k 'v | Del 'k

fun run_map_ops :: "('k \<Rightarrow> 'v \<Rightarrow> 's \<Rightarrow> 's res) \<Rightarrow> ('k \<Rightarrow> 's \<Rightarrow> 's res) \<Rightarrow> ('k, 'v) map_op list \<Rightarrow> 's \<Rightarrow> 's res" where
  "run_map_ops put del [] s = Inr s"
| "run_map_ops put del (Put k v # ops) s = bindR (put k v s) (run_map_ops put del ops)"
| "run_map_ops put del (Del k # ops) s = bindR (del k s) (run_map_ops put del ops)"

fun map_spec :: "('k, 'v) map_op list \<Rightarrow> ('k \<Rightarrow> 'v option) \<Rightarrow> ('k \<Rightarrow> 'v option)" where
  "map_spec [] m = m"
| "map_spec (Put k v # ops) m = map_spec ops (m(k := Some v))"
| "map_spec (Del k # ops) m = map_spec ops (m(k := None))"

fun op_key :: "('k, 'v) map_op \<Rightarrow> 'k" where
  "op_key (Put k v) = k"
| "op_key (Del k) = k"

locale map_ops =
  fixes ok :: "'s \<Rightarrow> bool"
    and key_ok :: "'k \<Rightarrow> bool"
    and lookup :: "'s \<Rightarrow> 'k \<Rightarrow> 'v option"
    and put :: "'k \<Rightarrow> 'v \<Rightarrow> 's \<Rightarrow> 's res"
    and del :: "'k \<Rightarrow> 's \<Rightarrow> 's res"
  assumes put_law: "ok s \<Longrightarrow> key_ok k \<Longrightarrow>
      \<exists>s'. put k v s = Inr s' \<and> ok s' \<and> lookup s' = (lookup s)(k := Some v)"
    and del_law: "ok s \<Longrightarrow> key_ok k \<Longrightarrow>
      \<exists>s'. del k s = Inr s' \<and> ok s' \<and> lookup s' = (lookup s)(k := None)"
begin

lemma run_refines:
  "ok s \<Longrightarrow> \<forall>x\<in>set ops. key_ok (op_key x) \<Longrightarrow>
   \<exists>s'. run_map_ops put del ops s = Inr s' \<and> ok s' \<and> lookup s' = map_spec ops (lookup s)"
proof (induction ops arbitrary: s)
  case (Cons x ops)
  show ?case
  proof (cases x)
    case (Put k v)
    then obtain s1 where "put k v s = Inr s1" "ok s1" "lookup s1 = (lookup s)(k := Some v)"
      using put_law [of s k v] Cons.prems by auto
    with Put Cons.IH [of s1] Cons.prems show ?thesis by (simp del: fun_upd_apply)
  next
    case (Del k)
    then obtain s1 where "del k s = Inr s1" "ok s1" "lookup s1 = (lookup s)(k := None)"
      using del_law [of s k] Cons.prems by auto
    with Del Cons.IH [of s1] Cons.prems show ?thesis by (simp del: fun_upd_apply)
  qed
qed simp

text \<open>Putting a key that was not there and deleting it again leaves every lookup as it was.\<close>

lemma put_del_lookup:
  assumes "ok s" "key_ok k" "lookup s k = None"
  shows "\<exists>s1 s2. put k v s = Inr s1 \<and> del k s1 = Inr s2 \<and> ok s2 \<and> lookup s2 = lookup s"
  using run_refines [of s "[Put k v, Del k]"] assms by (auto simp: bindR_eq_Inr fun_upd_idem)

end

section \<open>Comparison functions\<close>

text \<open>
  The contract of the comparison callbacks of priority queues and sorted lists: on the
  elements that satisfy \<open>elem_ok\<close> the result is a total preorder with antisymmetric sign.
\<close>

locale comparator =
  fixes cmp :: "'a \<Rightarrow> 'a \<Rightarrow> int" and elem_ok :: "'a \<Rightarrow> bool"
  assumes cmp_sign: "elem_ok x \<Longrightarrow> elem_ok y \<Longrightarrow> cmp x y < 0 \<longleftrightarrow> cmp y x > 0"
    and cmp_trans: "elem_ok x \<Longrightarrow> elem_ok y \<Longrightarrow> elem_ok z \<Longrightarrow> cmp x y \<le> 0 \<Longrightarrow> cmp y z \<le> 0 \<Longrightarrow> cmp x z \<le> 0"
begin

lemma not_less_le: "elem_ok x \<Longrightarrow> elem_ok y \<Longrightarrow> \<not> cmp x y < 0 \<Longrightarrow> cmp y x \<le> 0"
  using cmp_sign [of x y] by linarith

lemma gt_le: "elem_ok x \<Longrightarrow> elem_ok y \<Longrightarrow> cmp x y > 0 \<Longrightarrow> cmp y x \<le> 0"
  using cmp_sign [of y x] by linarith

text \<open>Inserting before the first larger element keeps a list sorted.\<close>

lemma sorted_insert_before:
  assumes s: "sorted_wrt (\<lambda>x y. cmp x y \<le> 0) (xs @ ys)" and ok: "\<forall>x\<in>set (xs @ ys). elem_ok x" "elem_ok v"
    and xs: "\<forall>x\<in>set xs. \<not> cmp v x < 0" and ys: "ys \<noteq> [] \<Longrightarrow> cmp v (hd ys) < 0"
  shows "sorted_wrt (\<lambda>x y. cmp x y \<le> 0) (xs @ v # ys)"
proof -
  have "cmp x v \<le> 0" if "x \<in> set xs" for x using not_less_le [of v x] xs ok that by auto
  moreover have "cmp v y \<le> 0" if "y \<in> set ys" for y
  proof (cases ys)
    case (Cons a zs)
    then have "cmp v a \<le> 0" using ys by simp
    moreover have "cmp a y \<le> 0" if "y \<in> set zs" using s Cons that by (auto simp: sorted_wrt_append)
    ultimately show ?thesis using cmp_trans [of v a y] ok Cons that by auto
  qed (use that in simp)
  ultimately show ?thesis using s by (auto simp: sorted_wrt_append)
qed

end

section \<open>Sequences\<close>

text \<open>
  The contract of a list under appending and removing: \<open>rep\<close> relates the state to the
  sequence it stands for.
\<close>

datatype 'v seq_op = Append 'v | Remove 'v

fun run_seq_ops :: "('v \<Rightarrow> 's \<Rightarrow> 's res option) \<Rightarrow> ('v \<Rightarrow> 's \<Rightarrow> 's res option) \<Rightarrow> 'v seq_op list \<Rightarrow> 's \<Rightarrow> 's res option" where
  "run_seq_ops add del [] s = Some (Inr s)"
| "run_seq_ops add del (Append v # ops) s =
     (case add v s of None \<Rightarrow> None | Some (Inl e) \<Rightarrow> Some (Inl e) | Some (Inr s') \<Rightarrow> run_seq_ops add del ops s')"
| "run_seq_ops add del (Remove v # ops) s =
     (case del v s of None \<Rightarrow> None | Some (Inl e) \<Rightarrow> Some (Inl e) | Some (Inr s') \<Rightarrow> run_seq_ops add del ops s')"

fun seq_spec :: "'v seq_op list \<Rightarrow> 'v list \<Rightarrow> 'v list" where
  "seq_spec [] ds = ds"
| "seq_spec (Append v # ops) ds = seq_spec ops (ds @ [v])"
| "seq_spec (Remove v # ops) ds = seq_spec ops (remove1 v ds)"

fun seq_ok :: "('v list \<Rightarrow> 'v \<Rightarrow> bool) \<Rightarrow> ('v list \<Rightarrow> 'v \<Rightarrow> bool) \<Rightarrow> 'v seq_op list \<Rightarrow> 'v list \<Rightarrow> bool" where
  "seq_ok can_add can_del [] ds \<longleftrightarrow> True"
| "seq_ok can_add can_del (Append v # ops) ds \<longleftrightarrow> can_add ds v \<and> seq_ok can_add can_del ops (ds @ [v])"
| "seq_ok can_add can_del (Remove v # ops) ds \<longleftrightarrow> can_del ds v \<and> seq_ok can_add can_del ops (remove1 v ds)"

locale seq_ops =
  fixes rep :: "'s \<Rightarrow> 'v list \<Rightarrow> bool"
    and can_add :: "'v list \<Rightarrow> 'v \<Rightarrow> bool" and can_del :: "'v list \<Rightarrow> 'v \<Rightarrow> bool"
    and add :: "'v \<Rightarrow> 's \<Rightarrow> 's res option" and del :: "'v \<Rightarrow> 's \<Rightarrow> 's res option"
  assumes add_law: "rep s ds \<Longrightarrow> can_add ds v \<Longrightarrow> \<exists>s'. add v s = Some (Inr s') \<and> rep s' (ds @ [v])"
    and remove_law: "rep s ds \<Longrightarrow> can_del ds v \<Longrightarrow> \<exists>s'. del v s = Some (Inr s') \<and> rep s' (remove1 v ds)"
begin

lemma seq_refines:
  "rep s ds \<Longrightarrow> seq_ok can_add can_del ops ds \<Longrightarrow>
   \<exists>s'. run_seq_ops add del ops s = Some (Inr s') \<and> rep s' (seq_spec ops ds)"
proof (induction ops arbitrary: s ds)
  case (Cons x ops)
  then show ?case using add_law [of s ds] remove_law [of s ds] by (cases x) fastforce+
qed simp

end

end
