(* ===== verification/Vec.thy ===== *)
theory Vec
  imports Contracts
begin

text \<open>
  lib/vector.c: growable arrays of pointers, used for the command tree, the interface and
  area tables and the VTY.  A slot is \<open>None\<close> for a null pointer.  \<open>active\<close> and \<open>alloced\<close>
  are \<open>unsigned int\<close>.
\<close>

section \<open>The operations\<close>

record 'a vector =
  active :: nat
  alloced :: nat
  index :: "'a option list"

definition vector_init :: "nat \<Rightarrow> 'a vector" where
  "vector_init n =
     (let size' = (if n = 0 then 1 else n)
      in \<lparr>active = 0, alloced = size', index = replicate size' None\<rparr>)"

text \<open>\<open>size\<close> is an \<open>unsigned int\<close>: eight times the number of slots is cut to 32 bits.\<close>

definition vector_copy :: "'a vector \<Rightarrow> 'a vector res" where
  "vector_copy v =
     (let size = umul 32 8 (alloced v) in
      bindR (mem_read (index v) 0 (size div 8)) (\<lambda>slots.
        Inr \<lparr>active = active v, alloced = alloced v, index = slots\<rparr>))"

text \<open>
  Doubling: \<open>alloced * 2\<close> is computed in \<open>unsigned int\<close>.  When it is zero, \<open>realloc\<close> frees
  the array and returns a null pointer, on which lib/memory.c aborts; when it wraps to
  something smaller, the \<open>memset\<close> of the second half is outside the new array.
\<close>

function vector_ensure :: "'a vector \<Rightarrow> nat \<Rightarrow> 'a vector res" where
  "vector_ensure v num =
     (if alloced v > num then Inr v
      else let n = umul 32 (alloced v) 2 in
        if n = 0 then Inl Alloc_failed
        else if n < alloced v + alloced v then Inl Mem_fault
        else let v' = v\<lparr>index := take (alloced v) (index v) @ replicate (alloced v) None, alloced := n\<rparr>
             in if n \<le> num then vector_ensure v' num else Inr v')"
  by pat_completeness auto
termination
proof (relation "measure (\<lambda>(v, num). Suc num - alloced v)", goal_cases)
  case (2 v num n v')
  then show ?case by (cases "alloced v = 0") (auto simp: umul_def Let_def)
qed simp

declare vector_ensure.simps [simp del]

fun empty_slot_loop :: "'a option list \<Rightarrow> nat \<Rightarrow> nat \<Rightarrow> nat res" where
  "empty_slot_loop slots i 0 = Inr i"
| "empty_slot_loop slots i (Suc n) =
     bindR (mem_get slots i) (\<lambda>p. if p = None then Inr i else empty_slot_loop slots (i + 1) n)"

definition vector_empty_slot :: "'a vector \<Rightarrow> nat res" where
  "vector_empty_slot v = (if active v = 0 then Inr 0 else empty_slot_loop (index v) 0 (active v))"

definition vector_set_index :: "'a vector \<Rightarrow> nat \<Rightarrow> 'a option \<Rightarrow> ('a vector \<times> nat) res" where
  "vector_set_index v i val =
     bindR (vector_ensure v i) (\<lambda>v1.
     bindR (mem_set (index v1) i val) (\<lambda>slots.
     let v2 = v1\<lparr>index := slots\<rparr>;
         v3 = (if active v2 \<le> i then v2\<lparr>active := uadd 32 i 1\<rparr> else v2)
     in Inr (v3, i)))"

definition vector_set :: "'a vector \<Rightarrow> 'a option \<Rightarrow> ('a vector \<times> nat) res" where
  "vector_set v val =
     bindR (vector_empty_slot v) (\<lambda>i.
     bindR (vector_ensure v i) (\<lambda>v1.
     bindR (mem_set (index v1) i val) (\<lambda>slots.
     let v2 = v1\<lparr>index := slots\<rparr>;
         v3 = (if active v2 \<le> i then v2\<lparr>active := uadd 32 i 1\<rparr> else v2)
     in Inr (v3, i))))"

definition vector_lookup :: "'a vector \<Rightarrow> nat \<Rightarrow> 'a option res" where
  "vector_lookup v i = (if i \<ge> active v then Inr None else mem_get (index v) i)"

definition vector_lookup_ensure :: "'a vector \<Rightarrow> nat \<Rightarrow> ('a vector \<times> 'a option) res" where
  "vector_lookup_ensure v i =
     bindR (vector_ensure v i) (\<lambda>v1. bindR (mem_get (index v1) i) (\<lambda>p. Inr (v1, p)))"

text \<open>
  The loop \<open>while (i && v->index[--i] == NULL && v->active--)\<close>: the post-decrement of
  \<open>active\<close> happens also when the old value is zero.
\<close>

fun unset_loop :: "'a option list \<Rightarrow> nat \<Rightarrow> nat \<Rightarrow> nat res" where
  "unset_loop slots 0 act = Inr act"
| "unset_loop slots (Suc i) act =
     bindR (mem_get slots i) (\<lambda>p.
       if p = None then
         if act = 0 then Inr (usub 32 act 1) else unset_loop slots i (usub 32 act 1)
       else Inr act)"

definition vector_unset :: "'a vector \<Rightarrow> nat \<Rightarrow> 'a vector res" where
  "vector_unset v i =
     (if i \<ge> alloced v then Inr v
      else bindR (mem_set (index v) i None) (\<lambda>slots.
        if uadd 32 i 1 = active v
        then bindR (unset_loop slots i (usub 32 (active v) 1)) (\<lambda>act.
               Inr (v\<lparr>index := slots, active := act\<rparr>))
        else Inr (v\<lparr>index := slots\<rparr>)))"

fun count_loop :: "'a option list \<Rightarrow> nat \<Rightarrow> nat \<Rightarrow> nat \<Rightarrow> nat res" where
  "count_loop slots i 0 count = Inr count"
| "count_loop slots i (Suc n) count =
     bindR (mem_get slots i) (\<lambda>p.
       count_loop slots (i + 1) n (if p \<noteq> None then uadd 32 count 1 else count))"

definition vector_count :: "'a vector \<Rightarrow> nat res" where
  "vector_count v = count_loop (index v) 0 (active v) 0"

section \<open>Well-formed vectors\<close>

text \<open>
  The array has \<open>alloced\<close> slots, at least one, and every slot from \<open>active\<close> on is null.
\<close>

definition vector_wf :: "'a vector \<Rightarrow> bool" where
  "vector_wf v \<longleftrightarrow>
     length (index v) = alloced v \<and> 0 < alloced v \<and> alloced v < 2 ^ 32 \<and> active v \<le> alloced v \<and>
     (\<forall>i < alloced v. active v \<le> i \<longrightarrow> index v ! i = None)"

definition slot_of :: "'a vector \<Rightarrow> nat \<Rightarrow> 'a option" where
  "slot_of v i = (if i < active v then index v ! i else None)"

lemma slot_of_index: "vector_wf v \<Longrightarrow> i < alloced v \<Longrightarrow> slot_of v i = index v ! i"
  by (auto simp: vector_wf_def slot_of_def)

lemma slot_of_out: "vector_wf v \<Longrightarrow> alloced v \<le> i \<Longrightarrow> slot_of v i = None"
  by (auto simp: vector_wf_def slot_of_def)

lemma vector_init_wf: "n < 2 ^ 32 \<Longrightarrow> vector_wf (vector_init n)"
  by (auto simp: vector_wf_def vector_init_def Let_def)

lemma slot_of_init [simp]: "slot_of (vector_init n) = Map.empty"
  by (rule ext) (simp add: slot_of_def vector_init_def Let_def)

lemma vector_lookup_slot: "vector_wf v \<Longrightarrow> vector_lookup v i = Inr (slot_of v i)"
  by (auto simp: vector_lookup_def slot_of_def vector_wf_def mem_get_def)

text \<open>Growing keeps the slots and reaches the wanted index, for indices below \<open>2 ^ 31\<close>.\<close>

lemma vector_ensure_ok:
  assumes "vector_wf v" "num < 2 ^ 31"
  shows "\<exists>v'. vector_ensure v num = Inr v' \<and> vector_wf v' \<and> num < alloced v' \<and>
     active v' = active v \<and> slot_of v' = slot_of v"
  using assms
proof (induction v num rule: vector_ensure.induct)
  case (1 v num)
  show ?case
  proof (cases "alloced v > num")
    case True
    then show ?thesis using "1.prems" by (subst vector_ensure.simps) simp
  next
    case False
    let ?v = "v\<lparr>index := take (alloced v) (index v) @ replicate (alloced v) None, alloced := 2 * alloced v\<rparr>"
    have n: "umul 32 (alloced v) 2 = 2 * alloced v" "0 < alloced v"
      using False "1.prems" by (simp_all add: umul_def vector_wf_def)
    have wf: "vector_wf ?v"
      using False "1.prems" by (auto simp: vector_wf_def nth_append)
    have same: "active ?v = active v" "slot_of ?v = slot_of v"
      using "1.prems" by (auto simp: vector_wf_def slot_of_def fun_eq_iff nth_append)
    have step: "vector_ensure v num = (if 2 * alloced v \<le> num then vector_ensure ?v num else Inr ?v)"
      using False n by (subst vector_ensure.simps) (simp add: Let_def)
    show ?thesis
    proof (cases "2 * alloced v \<le> num")
      case True
      have "\<exists>v'. vector_ensure ?v num = Inr v' \<and> vector_wf v' \<and> num < alloced v' \<and>
          active v' = active ?v \<and> slot_of v' = slot_of ?v"
        by (rule "1.IH" [OF _ refl]) (use False n True wf "1.prems" in \<open>simp_all add: mult.commute\<close>)
      with step True same show ?thesis by simp
    next
      case False
      with step wf same show ?thesis by simp
    qed
  qed
qed

section \<open>Vectors as finite maps from slots to pointers\<close>

lemma vector_set_index_ok:
  assumes wf: "vector_wf v" and i: "i < 2 ^ 31"
  shows "\<exists>v'. vector_set_index v i val = Inr (v', i) \<and> vector_wf v' \<and>
     active v' = max (active v) (i + 1) \<and> slot_of v' = (slot_of v)(i := val)"
proof -
  obtain v1 where v1: "vector_ensure v i = Inr v1" "vector_wf v1" "i < alloced v1"
    "active v1 = active v" "slot_of v1 = slot_of v"
    using vector_ensure_ok [OF assms] by blast
  let ?v2 = "v1\<lparr>index := (index v1)[i := val]\<rparr>"
  let ?v3 = "if active ?v2 \<le> i then ?v2\<lparr>active := i + 1\<rparr> else ?v2"
  have "vector_set_index v i val = Inr (?v3, i)"
    using v1 i by (simp add: vector_set_index_def mem_simps vector_wf_def size_arith Let_def)
  moreover have "vector_wf ?v3"
    using v1 by (auto simp: vector_wf_def nth_list_update)
  moreover have "slot_of ?v3 j = ((slot_of v1)(i := val)) j" for j
    using v1(2,3) by (auto simp: slot_of_def vector_wf_def)
  ultimately show ?thesis using v1(4,5) by (intro exI [of _ ?v3]) (auto simp: fun_eq_iff)
qed

lemma unset_loop_ok:
  assumes "i \<le> length slots" "i < 2 ^ 32"
  shows "\<exists>act \<le> i. unset_loop slots i i = Inr act \<and> (\<forall>j. act \<le> j \<and> j < i \<longrightarrow> slots ! j = None) \<and>
     (act = 0 \<or> slots ! (act - 1) \<noteq> None)"
  using assms
proof (induction i)
  case (Suc i)
  show ?case
  proof (cases "slots ! i")
    case None
    obtain act where "act \<le> i" "unset_loop slots i i = Inr act"
      "\<forall>j. act \<le> j \<and> j < i \<longrightarrow> slots ! j = None" "act = 0 \<or> slots ! (act - 1) \<noteq> None"
      using Suc by auto
    with None Suc.prems show ?thesis
      by (intro exI [of _ act]) (auto simp: mem_simps size_arith less_Suc_eq)
  next
    case (Some p)
    with Suc.prems show ?thesis by (intro exI [of _ "Suc i"]) (auto simp: mem_simps)
  qed
qed simp

text \<open>
  Unsetting a slot never writes outside the array, empties that slot only, and, when it was
  the last active one, moves \<open>active\<close> to just behind the last occupied slot.
\<close>

lemma vector_unset_ok:
  assumes wf: "vector_wf v"
  shows "\<exists>v'. vector_unset v i = Inr v' \<and> vector_wf v' \<and> alloced v' = alloced v \<and>
     slot_of v' = (slot_of v)(i := None) \<and>
     (active v = i + 1 \<longrightarrow> active v' = 0 \<or> slot_of v' (active v' - 1) \<noteq> None)"
proof (cases "i < alloced v")
  case False
  then have "slot_of v i = None" "active v \<noteq> i + 1"
    using wf by (auto simp: slot_of_out vector_wf_def)
  with False wf show ?thesis by (auto simp: vector_unset_def fun_upd_idem)
next
  case True
  let ?slots = "(index v)[i := None]"
  have plus: "uadd 32 i 1 = i + 1"
    using True wf by (intro uadd_eq) (auto simp: vector_wf_def)
  show ?thesis
  proof (cases "active v = i + 1")
    case last: True
    then have i: "i + 1 < 2 ^ 32" using True wf by (auto simp: vector_wf_def)
    obtain act where act: "act \<le> i" "unset_loop ?slots i i = Inr act"
      "\<forall>j. act \<le> j \<and> j < i \<longrightarrow> ?slots ! j = None" "act = 0 \<or> ?slots ! (act - 1) \<noteq> None"
      using unset_loop_ok [of i ?slots] True i wf by (auto simp: vector_wf_def)
    let ?v = "v\<lparr>index := ?slots, active := act\<rparr>"
    have "vector_unset v i = Inr ?v"
      using True wf last i act(2) by (simp add: vector_unset_def mem_simps vector_wf_def size_arith)
    moreover have at: "?slots ! j = None" if "act \<le> j" "j < alloced v" for j
    proof (cases "j < i")
      case True
      then show ?thesis using act(3) that by blast
    next
      case False
      then show ?thesis using that last wf by (cases "j = i") (auto simp: vector_wf_def)
    qed
    then have "vector_wf ?v" using wf act(1) True by (auto simp: vector_wf_def)
    moreover have "slot_of ?v j = ((slot_of v)(i := None)) j" for j
    proof (cases "j < act \<or> active v \<le> j")
      case True
      then show ?thesis using act(1) last by (auto simp: slot_of_def)
    next
      case False
      then have "?slots ! j = None" using at [of j] wf by (auto simp: vector_wf_def)
      with False show ?thesis by (cases "j = i") (auto simp: slot_of_def)
    qed
    then have "slot_of ?v = (slot_of v)(i := None)" by blast
    moreover have "act = 0 \<or> slot_of ?v (act - 1) \<noteq> None"
      using act(4) by (auto simp: slot_of_def)
    ultimately show ?thesis by auto
  next
    case notlast: False
    let ?v = "v\<lparr>index := ?slots\<rparr>"
    have "vector_unset v i = Inr ?v"
      using True wf notlast plus by (simp add: vector_unset_def mem_simps vector_wf_def)
    moreover have "vector_wf ?v" using wf True by (auto simp: vector_wf_def nth_list_update)
    moreover have "slot_of ?v = (slot_of v)(i := None)"
      using True wf by (auto simp: slot_of_def fun_eq_iff vector_wf_def nth_list_update)
    ultimately show ?thesis using notlast by auto
  qed
qed

definition vector_put :: "nat \<Rightarrow> 'a \<Rightarrow> 'a vector \<Rightarrow> 'a vector res" where
  "vector_put i p v = bindR (vector_set_index v i (Some p)) (\<lambda>(v', _). Inr v')"

interpretation vec_map: map_ops vector_wf "\<lambda>i. i < 2 ^ 31" slot_of vector_put "\<lambda>i v. vector_unset v i"
proof (unfold_locales, goal_cases)
  case (1 v i p)
  then show ?case using vector_set_index_ok [of v i "Some p"] by (auto simp: vector_put_def)
next
  case (2 v i)
  then show ?case using vector_unset_ok [of v i] by blast
qed

text \<open>
  C10: vectors implement maps.  Starting from \<open>vector_init\<close>, any sequence of
  \<open>vector_set_index\<close> and \<open>vector_unset\<close> on indices below \<open>2 ^ 31\<close> succeeds, and
  \<open>vector_lookup\<close> then answers for every index as the finite map does.
\<close>

theorem vector_refines_map:
  assumes "n < 2 ^ 32" "\<forall>x\<in>set ops. op_key x < 2 ^ 31"
  shows "\<exists>v. run_map_ops vector_put (\<lambda>i v. vector_unset v i) ops (vector_init n) = Inr v \<and>
     (\<forall>i. vector_lookup v i = Inr (map_spec ops Map.empty i))"
  using vec_map.run_refines [OF vector_init_wf [OF assms(1)], of ops] assms(2)
  by (auto simp: vector_lookup_slot)

theorem vector_refines_map_witness:
  "\<exists>v. run_map_ops vector_put (\<lambda>i v. vector_unset v i)
       [Put 5 CHR ''a'', Put 0 CHR ''b'', Del 5] (vector_init 2) = Inr v \<and>
     (\<forall>i. vector_lookup v i = Inr (map_spec [Put 5 CHR ''a'', Put 0 CHR ''b'', Del 5] Map.empty i))"
  by (rule vector_refines_map) simp_all

lemma empty_slot_loop_ok:
  assumes "i + n \<le> length slots"
  shows "\<exists>k. empty_slot_loop slots i n = Inr k \<and> i \<le> k \<and> k \<le> i + n \<and>
     (\<forall>j. i \<le> j \<and> j < k \<longrightarrow> slots ! j \<noteq> None) \<and> (k < i + n \<longrightarrow> slots ! k = None)"
  using assms
proof (induction slots i n rule: empty_slot_loop.induct)
  case (2 slots i n)
  show ?case
  proof (cases "slots ! i")
    case None
    then show ?thesis using "2.prems" by (intro exI [of _ i]) (auto simp: mem_simps)
  next
    case (Some p)
    then obtain k where "empty_slot_loop slots (i + 1) n = Inr k" "i + 1 \<le> k" "k \<le> i + 1 + n"
      "\<forall>j. i + 1 \<le> j \<and> j < k \<longrightarrow> slots ! j \<noteq> None" "k < i + 1 + n \<longrightarrow> slots ! k = None"
      using "2.IH" [of "Some p"] "2.prems" by auto
    moreover from this(4) Some have "\<forall>j. i \<le> j \<and> j < k \<longrightarrow> slots ! j \<noteq> None"
      by (metis Suc_eq_plus1 Suc_leI le_neq_implies_less option.distinct(1))
    ultimately show ?thesis using Some "2.prems" by (intro exI [of _ k]) (auto simp: mem_simps)
  qed
qed auto

text \<open>
  \<open>vector_set\<close> stores into the smallest empty slot: the slot it returns was empty, all
  smaller ones were occupied, and afterwards exactly that slot has changed.
\<close>

lemma vector_set_smallest:
  assumes wf: "vector_wf v" and "active v < 2 ^ 31"
  shows "\<exists>v' i. vector_set v val = Inr (v', i) \<and> vector_wf v' \<and> slot_of v i = None \<and>
     (\<forall>j < i. slot_of v j \<noteq> None) \<and> slot_of v' = (slot_of v)(i := val)"
proof -
  obtain i where i: "vector_empty_slot v = Inr i" "i \<le> active v" "slot_of v i = None"
    "\<forall>j < i. slot_of v j \<noteq> None"
  proof -
    obtain k where k: "empty_slot_loop (index v) 0 (active v) = Inr k" "k \<le> active v"
      "\<forall>j<k. index v ! j \<noteq> None" "k < active v \<longrightarrow> index v ! k = None"
      using empty_slot_loop_ok [of 0 "active v" "index v"] wf by (auto simp: vector_wf_def)
    have "vector_empty_slot v = Inr k" using k(1,2) by (auto simp: vector_empty_slot_def)
    then show thesis by (rule that) (use k in \<open>auto simp: slot_of_def\<close>)
  qed
  then have "i < 2 ^ 31" using assms(2) by simp
  from vector_set_index_ok [OF wf this, of val] obtain v' where
    "vector_set_index v i val = Inr (v', i)" "vector_wf v'" "slot_of v' = (slot_of v)(i := val)"
    by blast
  moreover from this(1) i(1) have "vector_set v val = Inr (v', i)"
    by (simp add: vector_set_def vector_set_index_def)
  ultimately show ?thesis using i by blast
qed

lemma count_loop_ok:
  assumes "i + n \<le> length slots" "c + n < 2 ^ 32"
  shows "count_loop slots i n c = Inr (c + card {j. i \<le> j \<and> j < i + n \<and> slots ! j \<noteq> None})"
  using assms
proof (induction slots i n c rule: count_loop.induct)
  case (2 slots i n c)
  let ?c = "if slots ! i \<noteq> None then c + 1 else c"
  let ?A = "{j. i + 1 \<le> j \<and> j < i + 1 + n \<and> slots ! j \<noteq> None}"
  have "{j. i \<le> j \<and> j < i + Suc n \<and> slots ! j \<noteq> None} = (if slots ! i \<noteq> None then insert i ?A else ?A)"
    by (auto simp: Suc_le_eq le_less)
  moreover have "finite ?A" by simp
  moreover have "count_loop slots i (Suc n) c = count_loop slots (i + 1) n ?c"
    using "2.prems" by (simp add: mem_simps size_arith)
  moreover have "count_loop slots (i + 1) n ?c = Inr (?c + card ?A)"
    using "2.IH" [of "slots ! i"] "2.prems" by (cases "slots ! i") (simp_all add: size_arith)
  ultimately show ?case by auto
qed simp

text \<open>\<open>vector_count\<close> is the number of occupied slots.\<close>

lemma vector_count_dom: "vector_wf v \<Longrightarrow> vector_count v = Inr (card (dom (slot_of v)))"
proof -
  assume wf: "vector_wf v"
  have "dom (slot_of v) = {j. j < active v \<and> index v ! j \<noteq> None}"
    by (auto simp: slot_of_def split: if_splits)
  with wf show ?thesis
    using count_loop_ok [of 0 "active v" "index v" 0] by (auto simp: vector_count_def vector_wf_def)
qed

text \<open>Below \<open>2 ^ 29\<close> slots a copy is exact.\<close>

lemma vector_copy_exact: "vector_wf v \<Longrightarrow> alloced v < 2 ^ 29 \<Longrightarrow> vector_copy v = Inr v"
  by (cases v) (auto simp: vector_copy_def vector_wf_def umul_def mem_simps Let_def)

text \<open>
  \<open>vector_copy\<close> computes the size of the array in an \<open>unsigned int\<close>.  It is exact below
  \<open>2 ^ 29\<close> slots; from \<open>2 ^ 29\<close> slots on the copy claims more slots than it has, and for
  exactly \<open>2 ^ 29\<close> the first access to the copy is outside its array.
\<close>

lemma vector_copy_size:
  assumes "vector_wf v"
  shows "if alloced v < 2 ^ 29 then vector_copy v = Inr v
     else \<exists>v'. vector_copy v = Inr v' \<and> length (index v') < alloced v' \<and>
       (alloced v = 2 ^ 29 \<longrightarrow> vector_lookup_ensure v' 0 = Inl Mem_fault)"
proof (cases "alloced v < 2 ^ 29")
  case True
  then show ?thesis using vector_copy_exact [OF assms] by simp
next
  case False
  let ?k = "umul 32 8 (alloced v) div 8"
  let ?v = "\<lparr>active = active v, alloced = alloced v, index = take ?k (index v)\<rparr>"
  have k: "?k < alloced v" "alloced v = 2 ^ 29 \<Longrightarrow> ?k = 0"
    using False by (auto simp: umul_def)
  then have "vector_copy v = Inr ?v"
    using assms by (simp add: vector_copy_def mem_simps vector_wf_def Let_def)
  moreover have "length (index ?v) < alloced ?v" using k assms by (simp add: vector_wf_def)
  moreover have "alloced v = 2 ^ 29 \<longrightarrow> vector_lookup_ensure ?v 0 = Inl Mem_fault"
    using k(2) by (simp add: vector_lookup_ensure_def vector_ensure.simps mem_get_def)
  ultimately show ?thesis using False by auto
qed

end
