(* ===== verification/Pqueue.thy ===== *)
theory Pqueue
  imports Contracts "HOL-Library.Multiset"
begin

text \<open>
  lib/pqueue.c: binary heaps in an array, the timer queues of the thread scheduler and the
  candidate list of the shortest path computations.  The comparison \<open>cmp\<close> and the callback
  \<open>update\<close> (told the new position of every node that moves) are function pointers of the
  queue; here they are arguments of the operations, and \<open>update\<close> transforms a state of its
  own.  The loops move nodes through a hole; they are related to a reference version that
  swaps, on which the heap property is proved.
\<close>

section \<open>The operations\<close>

record 'a pqueue =
  array :: "'a list"
  array_size :: nat
  pq_size :: nat

type_synonym 'a cmp = "'a \<Rightarrow> 'a \<Rightarrow> int"
type_synonym ('a, 's) upd = "'a \<Rightarrow> nat \<Rightarrow> 's \<Rightarrow> 's"

definition PARENT_OF :: "nat \<Rightarrow> nat" where "PARENT_OF x = (x - 1) div 2"
definition LEFT_OF :: "nat \<Rightarrow> nat" where "LEFT_OF x = 2 * x + 1"
definition RIGHT_OF :: "nat \<Rightarrow> nat" where "RIGHT_OF x = 2 * x + 2"
definition HAVE_CHILD :: "nat \<Rightarrow> nat \<Rightarrow> bool" where "HAVE_CHILD x n \<longleftrightarrow> x < n div 2"

definition PQUEUE_INIT_ARRAYSIZE :: nat where "PQUEUE_INIT_ARRAYSIZE = 32"

function trickle_up_loop ::
  "'a cmp \<Rightarrow> ('a, 's) upd \<Rightarrow> 'a \<Rightarrow> nat \<Rightarrow> 'a list \<Rightarrow> 's \<Rightarrow> ('a list \<times> 's) res" where
  "trickle_up_loop cmp upd tmp i a s =
     (if i = 0 then bindR (mem_set a i tmp) (\<lambda>a'. Inr (a', upd tmp i s))
      else bindR (mem_get a (PARENT_OF i)) (\<lambda>p.
        if cmp tmp p < 0
        then bindR (mem_set a i p) (\<lambda>a'. trickle_up_loop cmp upd tmp (PARENT_OF i) a' (upd p i s))
        else bindR (mem_set a i tmp) (\<lambda>a'. Inr (a', upd tmp i s))))"
  by pat_completeness auto
termination
  by (relation "measure (\<lambda>(_, _, _, i, _). i)") (auto simp: PARENT_OF_def)

definition trickle_up ::
  "'a cmp \<Rightarrow> ('a, 's) upd \<Rightarrow> nat \<Rightarrow> 'a pqueue \<Rightarrow> 's \<Rightarrow> ('a pqueue \<times> 's) res" where
  "trickle_up cmp upd i q s =
     bindR (mem_get (array q) i) (\<lambda>tmp.
     bindR (trickle_up_loop cmp upd tmp i (array q) s) (\<lambda>(a, s'). Inr (q\<lparr>array := a\<rparr>, s')))"

definition which_child :: "'a cmp \<Rightarrow> 'a list \<Rightarrow> nat \<Rightarrow> nat \<Rightarrow> nat res" where
  "which_child cmp a n i =
     (if RIGHT_OF i < n
      then bindR (mem_get a (LEFT_OF i)) (\<lambda>l.
           bindR (mem_get a (RIGHT_OF i)) (\<lambda>r.
             Inr (if cmp l r > 0 then RIGHT_OF i else LEFT_OF i)))
      else Inr (LEFT_OF i))"

lemma which_child_cases: "which_child cmp a n i = Inr w \<Longrightarrow> w = LEFT_OF i \<or> w = RIGHT_OF i \<and> RIGHT_OF i < n"
  by (auto simp: which_child_def bindR_eq_Inr split: if_splits)

function trickle_down_loop ::
  "'a cmp \<Rightarrow> ('a, 's) upd \<Rightarrow> 'a \<Rightarrow> nat \<Rightarrow> nat \<Rightarrow> 'a list \<Rightarrow> 's \<Rightarrow> ('a list \<times> 's) res" where
  "trickle_down_loop cmp upd tmp n i a s =
     (if \<not> HAVE_CHILD i n then bindR (mem_set a i tmp) (\<lambda>a'. Inr (a', upd tmp i s))
      else case which_child cmp a n i of Inl e \<Rightarrow> Inl e
      | Inr w \<Rightarrow> bindR (mem_get a w) (\<lambda>c.
          if cmp c tmp > 0 then bindR (mem_set a i tmp) (\<lambda>a'. Inr (a', upd tmp i s))
          else bindR (mem_set a i c) (\<lambda>a'. trickle_down_loop cmp upd tmp n w a' (upd c i s))))"
  by pat_completeness auto
termination
  by (relation "measure (\<lambda>(_, _, _, n, i, _). n - i)")
    (auto simp: HAVE_CHILD_def LEFT_OF_def RIGHT_OF_def dest!: which_child_cases)

declare trickle_up_loop.simps [simp del] trickle_down_loop.simps [simp del]

definition trickle_down ::
  "'a cmp \<Rightarrow> ('a, 's) upd \<Rightarrow> nat \<Rightarrow> 'a pqueue \<Rightarrow> 's \<Rightarrow> ('a pqueue \<times> 's) res" where
  "trickle_down cmp upd i q s =
     bindR (mem_get (array q) i) (\<lambda>tmp.
     bindR (trickle_down_loop cmp upd tmp (pq_size q) i (array q) s) (\<lambda>(a, s'). Inr (q\<lparr>array := a\<rparr>, s')))"

text \<open>\<open>null\<close> is the null pointer, with which the array is filled.\<close>

definition pqueue_create :: "'a \<Rightarrow> 'a pqueue" where
  "pqueue_create null =
     \<lparr>array = replicate PQUEUE_INIT_ARRAYSIZE null, array_size = PQUEUE_INIT_ARRAYSIZE, pq_size = 0\<rparr>"

text \<open>\<open>array_size\<close> is an \<open>int\<close>; doubling it past \<open>INT_MAX\<close> is undefined.\<close>

definition pqueue_expand :: "'a \<Rightarrow> 'a pqueue \<Rightarrow> 'a pqueue res" where
  "pqueue_expand null q =
     bindR (mem_read (array q) 0 (array_size q)) (\<lambda>old.
     if int (array_size q) * 2 > INT_MAX then Inl Int_overflow
     else Inr (q\<lparr>array := old @ replicate (array_size q) null, array_size := array_size q * 2\<rparr>))"

definition pqueue_enqueue ::
  "'a \<Rightarrow> 'a cmp \<Rightarrow> ('a, 's) upd \<Rightarrow> 'a \<Rightarrow> 'a pqueue \<Rightarrow> 's \<Rightarrow> ('a pqueue \<times> 's) res" where
  "pqueue_enqueue null cmp upd data q s =
     bindR (if pq_size q + 2 \<ge> array_size q then pqueue_expand null q else Inr q) (\<lambda>q1.
     bindR (mem_set (array q1) (pq_size q1) data) (\<lambda>a.
     bindR (trickle_up cmp upd (pq_size q1) (q1\<lparr>array := a\<rparr>) (upd data (pq_size q1) s)) (\<lambda>(q2, s2).
       Inr (q2\<lparr>pq_size := pq_size q2 + 1\<rparr>, s2))))"

text \<open>On an empty queue \<open>--queue->size\<close> is \<open>-1\<close> and the access \<open>array[-1]\<close> is outside the array.\<close>

definition pqueue_dequeue ::
  "'a cmp \<Rightarrow> ('a, 's) upd \<Rightarrow> 'a pqueue \<Rightarrow> 's \<Rightarrow> ('a \<times> 'a pqueue \<times> 's) res" where
  "pqueue_dequeue cmp upd q s =
     bindR (mem_get (array q) 0) (\<lambda>data.
     if pq_size q = 0 then Inl Mem_fault
     else bindR (mem_get (array q) (pq_size q - 1)) (\<lambda>last.
          bindR (mem_set (array q) 0 last) (\<lambda>a.
          bindR (trickle_down cmp upd 0 (q\<lparr>array := a, pq_size := pq_size q - 1\<rparr>) s) (\<lambda>(q', s').
            Inr (data, q', s')))))"

definition pqueue_remove_at ::
  "'a cmp \<Rightarrow> ('a, 's) upd \<Rightarrow> nat \<Rightarrow> 'a pqueue \<Rightarrow> 's \<Rightarrow> ('a pqueue \<times> 's) res" where
  "pqueue_remove_at cmp upd i q s =
     (if pq_size q = 0 then Inl Mem_fault
      else bindR (mem_get (array q) (pq_size q - 1)) (\<lambda>last.
        bindR (mem_set (array q) i last) (\<lambda>a.
        let q1 = q\<lparr>array := a, pq_size := pq_size q - 1\<rparr> in
        if i = 0 then trickle_down cmp upd i q1 s
        else bindR (mem_get a (PARENT_OF i)) (\<lambda>p.
          if cmp last p < 0 then trickle_up cmp upd i q1 s else trickle_down cmp upd i q1 s))))"

section \<open>The reference version: swapping\<close>

definition swp :: "'a list \<Rightarrow> nat \<Rightarrow> nat \<Rightarrow> 'a list" where
  "swp a i j = a[i := a ! j, j := a ! i]"

function swim :: "'a cmp \<Rightarrow> nat \<Rightarrow> 'a list \<Rightarrow> 'a list" where
  "swim cmp i a =
     (if 0 < i \<and> cmp (a ! i) (a ! PARENT_OF i) < 0 then swim cmp (PARENT_OF i) (swp a i (PARENT_OF i))
      else a)"
  by pat_completeness auto
termination
  by (relation "measure (\<lambda>(_, i, _). i)") (auto simp: PARENT_OF_def)

definition better_child :: "'a cmp \<Rightarrow> 'a list \<Rightarrow> nat \<Rightarrow> nat \<Rightarrow> nat" where
  "better_child cmp a n i =
     (if RIGHT_OF i < n \<and> cmp (a ! LEFT_OF i) (a ! RIGHT_OF i) > 0 then RIGHT_OF i else LEFT_OF i)"

function sink :: "'a cmp \<Rightarrow> nat \<Rightarrow> nat \<Rightarrow> 'a list \<Rightarrow> 'a list" where
  "sink cmp n i a =
     (if HAVE_CHILD i n \<and> \<not> cmp (a ! better_child cmp a n i) (a ! i) > 0
      then sink cmp n (better_child cmp a n i) (swp a i (better_child cmp a n i)) else a)"
  by pat_completeness auto
termination
  by (relation "measure (\<lambda>(_, n, i, _). n - i)")
    (auto simp: HAVE_CHILD_def LEFT_OF_def RIGHT_OF_def better_child_def)

declare swim.simps [simp del] sink.simps [simp del]

lemma parent_lt: "0 < i \<Longrightarrow> PARENT_OF i < i"
  by (auto simp: PARENT_OF_def)

lemma child_bounds:
  assumes "HAVE_CHILD i n"
  shows "LEFT_OF i < n" "better_child cmp a n i < n" "i < better_child cmp a n i" "i < n"
  using assms by (auto simp: HAVE_CHILD_def LEFT_OF_def RIGHT_OF_def better_child_def)

lemma length_swp [simp]: "length (swp a i j) = length a"
  by (simp add: swp_def)

lemma swp_nth: "i < length a \<Longrightarrow> j < length a \<Longrightarrow>
  swp a i j ! k = (if k = j then a ! i else if k = i then a ! j else a ! k)"
  by (auto simp: swp_def nth_list_update)

text \<open>One round of the loops, seen on the array with the hole filled, is a swap.\<close>

lemma swp_hole: "i < length a \<Longrightarrow> j < length a \<Longrightarrow> i \<noteq> j \<Longrightarrow>
  swp (a[i := x]) i j = a[i := a ! j, j := x]"
  by (simp add: swp_def)

lemma trickle_up_loop_swim:
  "i < length a \<Longrightarrow> \<exists>s'. trickle_up_loop cmp upd tmp i a s = Inr (swim cmp i (a[i := tmp]), s')"
proof (induction i arbitrary: a s rule: less_induct)
  case (less i)
  let ?p = "PARENT_OF i"
  show ?case
  proof (cases "0 < i \<and> cmp tmp (a ! ?p) < 0")
    case True
    then have p: "?p < i" "?p < length a" using less.prems parent_lt [of i] by auto
    then obtain s' where "trickle_up_loop cmp upd tmp ?p (a[i := a ! ?p]) (upd (a ! ?p) i s)
        = Inr (swim cmp ?p (a[i := a ! ?p, ?p := tmp]), s')"
      using less.IH [of ?p "a[i := a ! ?p]"] by auto
    with True p less.prems show ?thesis
      by (subst trickle_up_loop.simps, subst swim.simps) (auto simp: mem_simps swp_hole)
  next
    case False
    then show ?thesis using less.prems
      by (subst trickle_up_loop.simps, subst swim.simps)
        (use parent_lt [of i] in \<open>auto simp: mem_simps\<close>)
  qed
qed

lemma which_child_better:
  "HAVE_CHILD i n \<Longrightarrow> n \<le> length a \<Longrightarrow> which_child cmp a n i = Inr (better_child cmp a n i)"
  by (auto simp: which_child_def better_child_def mem_simps HAVE_CHILD_def LEFT_OF_def RIGHT_OF_def)

lemma better_child_hole: "better_child cmp (a[i := x]) n i = better_child cmp a n i"
  by (simp add: better_child_def LEFT_OF_def RIGHT_OF_def)

lemma trickle_down_loop_sink:
  "i < length a \<Longrightarrow> n \<le> length a \<Longrightarrow>
   \<exists>s'. trickle_down_loop cmp upd tmp n i a s = Inr (sink cmp n i (a[i := tmp]), s')"
proof (induction "n - i" arbitrary: i a s rule: less_induct)
  case less
  let ?w = "better_child cmp a n i"
  show ?case
  proof (cases "HAVE_CHILD i n \<and> \<not> cmp (a ! ?w) tmp > 0")
    case True
    then have w: "?w < n" "i < ?w" using child_bounds [of i n] by auto
    then have "n - ?w < n - i" by linarith
    with w obtain s' where "trickle_down_loop cmp upd tmp n ?w (a[i := a ! ?w]) (upd (a ! ?w) i s)
        = Inr (sink cmp n ?w (a[i := a ! ?w, ?w := tmp]), s')"
      using less.hyps [of ?w "a[i := a ! ?w]" "upd (a ! ?w) i s"] less.prems by auto
    with True w less.prems show ?thesis
      by (subst trickle_down_loop.simps, subst sink.simps)
        (auto simp: mem_simps swp_hole which_child_better better_child_hole)
  next
    case False
    then show ?thesis using less.prems child_bounds(2,3) [of i n cmp a] child_bounds(4) [of i n]
      by (subst trickle_down_loop.simps, subst sink.simps)
        (auto simp: mem_simps which_child_better better_child_hole)
  qed
qed

lemma length_swim [simp]: "length (swim cmp i a) = length a"
  by (induction cmp i a rule: swim.induct) (subst swim.simps, simp)

lemma length_sink [simp]: "length (sink cmp n i a) = length a"
  by (induction cmp n i a rule: sink.induct) (subst sink.simps, simp)

lemma take_swp: "i < n \<Longrightarrow> j < n \<Longrightarrow> take n (swp a i j) = swp (take n a) i j"
  by (simp add: swp_def take_update_swap)

lemma mset_swp: "i < length a \<Longrightarrow> j < length a \<Longrightarrow> mset (swp a i j) = mset a"
  unfolding swp_def by (rule mset_swap)

lemma mset_swim: "i < n \<Longrightarrow> n \<le> length a \<Longrightarrow> mset (take n (swim cmp i a)) = mset (take n a)"
proof (induction cmp i a rule: swim.induct)
  case (1 cmp i a)
  then show ?case
    using parent_lt [of i] by (subst swim.simps) (auto simp: take_swp mset_swp)
qed

lemma mset_sink: "i < n \<Longrightarrow> n \<le> length a \<Longrightarrow> mset (take n (sink cmp n i a)) = mset (take n a)"
proof (induction cmp n i a rule: sink.induct)
  case (1 cmp n i a)
  then show ?case
    using child_bounds(2,3) [of i n cmp a] child_bounds(4) [of i n] by (subst sink.simps) (auto simp: take_swp mset_swp)
qed

text \<open>Positions outside the heap are not touched.\<close>

lemma drop_swim: "i < n \<Longrightarrow> drop n (swim cmp i a) = drop n a"
proof (induction cmp i a rule: swim.induct)
  case (1 cmp i a)
  then show ?case using parent_lt [of i] by (subst swim.simps) (auto simp: swp_def drop_update_cancel)
qed

text \<open>What the callback preserves, the operations preserve.\<close>

lemma trickle_up_loop_keeps:
  assumes keep: "\<And>x i s. P s \<Longrightarrow> P (upd x i s)"
  shows "trickle_up_loop cmp upd tmp i a s = Inr (a', s') \<Longrightarrow> P s \<Longrightarrow> P s'"
proof (induction i arbitrary: a s rule: less_induct)
  case (less i)
  from less.prems(1) show ?case
    using less.IH [of "PARENT_OF i"] less.prems(2) keep parent_lt [of i]
    by (subst (asm) trickle_up_loop.simps) (auto simp: bindR_eq_Inr split: if_splits)
qed

lemma trickle_down_loop_keeps:
  assumes keep: "\<And>x i s. P s \<Longrightarrow> P (upd x i s)"
  shows "trickle_down_loop cmp upd tmp n i a s = Inr (a', s') \<Longrightarrow> P s \<Longrightarrow> P s'"
proof (induction "n - i" arbitrary: i a s rule: less_induct)
  case less
  have lt: "n - w < n - i" if "HAVE_CHILD i n" "which_child cmp a n i = Inr w" for w
    using which_child_cases [OF that(2)] that(1) by (auto simp: HAVE_CHILD_def LEFT_OF_def RIGHT_OF_def)
  show ?case
  proof (cases "HAVE_CHILD i n")
    case True
    then obtain w where w: "which_child cmp a n i = Inr w"
      using less.prems(1) by (subst (asm) trickle_down_loop.simps) (auto split: sum.splits)
    show ?thesis
      using less.prems less.hyps [OF lt [OF True w]] True w keep
      by (subst (asm) (1) trickle_down_loop.simps) (auto simp: bindR_eq_Inr split: if_splits)
  next
    case False
    then show ?thesis using less.prems keep
      by (subst (asm) trickle_down_loop.simps) (auto simp: bindR_eq_Inr)
  qed
qed

lemma pqueue_ops_keep:
  assumes keep: "\<And>x i s. P s \<Longrightarrow> P (upd x i s)" and P: "P s"
  shows "pqueue_enqueue null cmp upd x q s = Inr (q', s') \<Longrightarrow> P s'"
    and "pqueue_remove_at cmp upd i q s = Inr (q', s') \<Longrightarrow> P s'"
    and "pqueue_dequeue cmp upd q s = Inr (y, q', s') \<Longrightarrow> P s'"
proof -
  have up: "P s2" if "trickle_up cmp upd j p s1 = Inr (p', s2)" "P s1" for j p s1 p' s2
    using that by (auto simp: trickle_up_def bindR_eq_Inr
        dest: trickle_up_loop_keeps [where P = P, OF keep, rotated])
  have down: "P s2" if "trickle_down cmp upd j p s1 = Inr (p', s2)" "P s1" for j p s1 p' s2
    using that by (auto simp: trickle_down_def bindR_eq_Inr
        dest: trickle_down_loop_keeps [where P = P, OF keep, rotated])
  show "pqueue_enqueue null cmp upd x q s = Inr (q', s') \<Longrightarrow> P s'"
    using P keep by (auto simp: pqueue_enqueue_def bindR_eq_Inr dest: up split: if_splits)
  show "pqueue_remove_at cmp upd i q s = Inr (q', s') \<Longrightarrow> P s'"
    using P by (auto simp: pqueue_remove_at_def bindR_eq_Inr Let_def dest: up down split: if_splits)
  show "pqueue_dequeue cmp upd q s = Inr (y, q', s') \<Longrightarrow> P s'"
    using P by (auto simp: pqueue_dequeue_def bindR_eq_Inr dest: down split: if_splits)
qed

section \<open>The heap property\<close>

text \<open>The queue needs a comparison that satisfies the contract \<open>comparator\<close>.\<close>

locale pqueue_order = comparator cmp elem_ok for cmp :: "'a cmp" and elem_ok :: "'a \<Rightarrow> bool"
begin

abbreviation le :: "'a \<Rightarrow> 'a \<Rightarrow> bool" where "le x y \<equiv> cmp x y \<le> 0"

definition elems_ok :: "'a list \<Rightarrow> nat \<Rightarrow> bool" where
  "elems_ok a n \<longleftrightarrow> (\<forall>j < n. elem_ok (a ! j))"

definition heap :: "'a list \<Rightarrow> nat \<Rightarrow> bool" where
  "heap a n \<longleftrightarrow> (\<forall>j. 0 < j \<and> j < n \<longrightarrow> le (a ! PARENT_OF j) (a ! j))"

text \<open>A heap except that the node at \<open>i\<close> may be smaller than its parent, or larger than its children.\<close>

definition heap_up :: "'a list \<Rightarrow> nat \<Rightarrow> nat \<Rightarrow> bool" where
  "heap_up a n i \<longleftrightarrow> (\<forall>j. 0 < j \<and> j < n \<and> j \<noteq> i \<longrightarrow> le (a ! PARENT_OF j) (a ! j)) \<and>
     (\<forall>j. 0 < j \<and> j < n \<and> PARENT_OF j = i \<and> 0 < i \<longrightarrow> le (a ! PARENT_OF i) (a ! j))"

definition heap_down :: "'a list \<Rightarrow> nat \<Rightarrow> nat \<Rightarrow> bool" where
  "heap_down a n i \<longleftrightarrow> (\<forall>j. 0 < j \<and> j < n \<and> PARENT_OF j \<noteq> i \<longrightarrow> le (a ! PARENT_OF j) (a ! j)) \<and>
     (\<forall>j. 0 < j \<and> j < n \<and> PARENT_OF j = i \<and> 0 < i \<longrightarrow> le (a ! PARENT_OF i) (a ! j))"

lemma elems_ok_swp: "elems_ok a n \<Longrightarrow> n \<le> length a \<Longrightarrow> i < n \<Longrightarrow> j < n \<Longrightarrow> elems_ok (swp a i j) n"
  by (auto simp: elems_ok_def swp_nth)

lemma heap_up_step:
  assumes a: "heap_up a n i" "elems_ok a n" and i: "0 < i" "i < n" "n \<le> length a"
    and lt: "cmp (a ! i) (a ! PARENT_OF i) < 0"
  shows "heap_up (swp a i (PARENT_OF i)) n (PARENT_OF i)"
proof -
  let ?p = "PARENT_OF i" and ?b = "swp a i (PARENT_OF i)"
  have p: "?p < i" "?p < n" using parent_lt [OF i(1)] i(2) by simp_all
  have nth: "?b ! k = (if k = ?p then a ! i else if k = i then a ! ?p else a ! k)" for k
    using swp_nth [of i a ?p k] p i by simp
  have ok: "elem_ok (a ! k)" if "k < n" for k using a(2) that by (simp add: elems_ok_def)
  have par: "PARENT_OF j < n" if "0 < j" "j < n" for j using parent_lt [OF that(1)] that(2) by simp
  have heap: "le (a ! PARENT_OF j) (a ! j)" if "0 < j" "j < n" "j \<noteq> i" for j
    using a(1) that by (auto simp: heap_up_def)
  have grand: "le (a ! ?p) (a ! j)" if "0 < j" "j < n" "PARENT_OF j = i" for j
    using a(1) that i(1) by (auto simp: heap_up_def)
  have sib: "le (a ! i) (a ! j)" if "0 < j" "j < n" "j \<noteq> i" "PARENT_OF j = ?p" for j
    using cmp_trans [OF ok ok ok, of i ?p j] heap [OF that(1-3)] that lt p i by simp
  have "le (?b ! PARENT_OF j) (?b ! j)" if j: "0 < j" "j < n" "j \<noteq> ?p" for j
  proof (cases "j = i")
    case True
    then show ?thesis using lt p by (simp add: nth)
  next
    case False
    then show ?thesis using j heap [of j] grand [of j] sib [of j] by (auto simp: nth)
  qed
  moreover have "le (?b ! PARENT_OF ?p) (?b ! j)" if j: "0 < j" "j < n" "PARENT_OF j = ?p" "0 < ?p" for j
  proof -
    have pp: "PARENT_OF ?p < ?p" using parent_lt [OF j(4)] .
    have up: "le (a ! PARENT_OF ?p) (a ! ?p)" using heap [of ?p] j(4) p by simp
    show ?thesis
    proof (cases "j = i")
      case True
      then show ?thesis using up pp p by (simp add: nth)
    next
      case False
      have "le (a ! PARENT_OF ?p) (a ! j)"
        using cmp_trans [OF ok ok ok, of "PARENT_OF ?p" ?p j] up heap [OF j(1,2) False] j pp p by simp
      then show ?thesis using False j pp p parent_lt [OF j(1)] by (auto simp: nth)
    qed
  qed
  ultimately show ?thesis by (auto simp: heap_up_def)
qed

lemma heap_up_done:
  "heap_up a n i \<Longrightarrow> elems_ok a n \<Longrightarrow> i < n \<Longrightarrow> i = 0 \<or> \<not> cmp (a ! i) (a ! PARENT_OF i) < 0 \<Longrightarrow> heap a n"
  using not_less_le [of "a ! i" "a ! PARENT_OF i"] parent_lt [of i]
  by (fastforce simp: heap_def heap_up_def elems_ok_def)

lemma swim_heap:
  "heap_up a n i \<Longrightarrow> elems_ok a n \<Longrightarrow> i < n \<Longrightarrow> n \<le> length a \<Longrightarrow> heap (swim cmp i a) n"
proof (induction i arbitrary: a rule: less_induct)
  case (less i)
  show ?case
  proof (cases "0 < i \<and> cmp (a ! i) (a ! PARENT_OF i) < 0")
    case True
    then have p: "PARENT_OF i < i" "PARENT_OF i < n" using parent_lt [of i] less.prems by auto
    have "heap (swim cmp (PARENT_OF i) (swp a i (PARENT_OF i))) n"
      by (rule less.IH) (use p True less.prems heap_up_step elems_ok_swp in auto)
    with True show ?thesis by (subst swim.simps) simp
  next
    case False
    then show ?thesis using heap_up_done [OF less.prems(1-3)] by (subst swim.simps) auto
  qed
qed

lemma child_cases:
  assumes "0 < j" "PARENT_OF j = i"
  shows "j = LEFT_OF i \<or> j = RIGHT_OF i"
  using assms by (auto simp: PARENT_OF_def LEFT_OF_def RIGHT_OF_def)

lemma parent_better: "PARENT_OF (better_child cmp a n i) = i"
  by (simp add: better_child_def PARENT_OF_def LEFT_OF_def RIGHT_OF_def)

lemma better_child_le:
  assumes "HAVE_CHILD i n" "elems_ok a n" "0 < j" "j < n" "PARENT_OF j = i"
  shows "le (a ! better_child cmp a n i) (a ! j)"
proof -
  have ok: "elem_ok (a ! k)" if "k < n" for k using assms(2) that by (simp add: elems_ok_def)
  have l: "LEFT_OF i < n" by (rule child_bounds(1) [OF assms(1)])
  have refl: "le (a ! k) (a ! k)" if "k < n" for k
    using not_less_le [OF ok ok, OF that that] cmp_sign [OF ok ok, OF that that] by linarith
  consider "j = LEFT_OF i" | "j = RIGHT_OF i" using child_cases assms by blast
  then show ?thesis
  proof cases
    case 1
    then show ?thesis using refl [OF l] gt_le [OF ok ok, OF l] l by (auto simp: better_child_def)
  next
    case 2
    then show ?thesis using refl [OF assms(4)] l assms(4) by (auto simp: better_child_def)
  qed
qed

lemma heap_down_step:
  assumes a: "heap_down a n i" "elems_ok a n" and i: "n \<le> length a" "HAVE_CHILD i n"
    and ngt: "\<not> cmp (a ! better_child cmp a n i) (a ! i) > 0"
  shows "heap_down (swp a i (better_child cmp a n i)) n (better_child cmp a n i)"
proof -
  let ?w = "better_child cmp a n i"
  let ?b = "swp a i ?w"
  have w: "i < ?w" "?w < n" "PARENT_OF ?w = i" using child_bounds [OF i(2)] parent_better by simp_all
  have nth: "?b ! k = (if k = ?w then a ! i else if k = i then a ! ?w else a ! k)" for k
    using swp_nth [of i a ?w k] w i by simp
  have heap: "le (a ! PARENT_OF j) (a ! j)" if "0 < j" "j < n" "PARENT_OF j \<noteq> i" for j
    using a(1) that by (auto simp: heap_down_def)
  have grand: "le (a ! PARENT_OF i) (a ! j)" if "0 < j" "j < n" "PARENT_OF j = i" "0 < i" for j
    using a(1) that by (auto simp: heap_down_def)
  have sib: "le (a ! ?w) (a ! j)" if "0 < j" "j < n" "PARENT_OF j = i" for j
    using better_child_le [OF i(2) a(2)] that by blast
  have "le (?b ! PARENT_OF j) (?b ! j)" if j: "0 < j" "j < n" "PARENT_OF j \<noteq> ?w" for j
  proof (cases "j = i")
    case True
    then have "PARENT_OF i < i" using parent_lt j(1) by simp
    then show ?thesis using True grand [of ?w] w j by (simp add: nth)
  next
    case False
    then show ?thesis using j heap [of j] sib [of j] ngt w by (auto simp: nth)
  qed
  moreover have "le (?b ! PARENT_OF ?w) (?b ! j)" if j: "0 < j" "j < n" "PARENT_OF j = ?w" for j
  proof -
    have "?w < j" using parent_lt [OF j(1)] j(3) by simp
    then show ?thesis using heap [of j] j w by (simp add: nth)
  qed
  ultimately show ?thesis by (auto simp: heap_down_def)
qed

lemma heap_down_done:
  assumes "heap_down a n i" "elems_ok a n" "i < n"
    and "HAVE_CHILD i n \<Longrightarrow> cmp (a ! better_child cmp a n i) (a ! i) > 0"
  shows "heap a n"
proof -
  have ok: "elem_ok (a ! k)" if "k < n" for k using assms(2) that by (simp add: elems_ok_def)
  have "le (a ! PARENT_OF j) (a ! j)" if j: "0 < j" "j < n" for j
  proof (cases "PARENT_OF j = i")
    case True
    then have c: "HAVE_CHILD i n"
      using j by (auto simp: HAVE_CHILD_def PARENT_OF_def)
    have "le (a ! i) (a ! better_child cmp a n i)"
      using gt_le [OF ok ok assms(4) [OF c]] child_bounds [OF c] assms(3) by blast
    then show ?thesis
      using cmp_trans [OF ok ok ok, of i "better_child cmp a n i" j] better_child_le [OF c assms(2) j True]
        child_bounds(2) [OF c, of cmp a] assms(3) j(2) True by simp
  next
    case False
    then show ?thesis using assms(1) j by (auto simp: heap_down_def)
  qed
  then show ?thesis by (simp add: heap_def)
qed

lemma sink_heap:
  "heap_down a n i \<Longrightarrow> elems_ok a n \<Longrightarrow> i < n \<Longrightarrow> n \<le> length a \<Longrightarrow> heap (sink cmp n i a) n"
proof (induction "n - i" arbitrary: a i rule: less_induct)
  case less
  let ?w = "better_child cmp a n i"
  show ?case
  proof (cases "HAVE_CHILD i n \<and> \<not> cmp (a ! ?w) (a ! i) > 0")
    case True
    then have w: "i < ?w" "?w < n" using child_bounds(2,3) by blast+
    have "heap (sink cmp n ?w (swp a i ?w)) n"
    proof (rule less.hyps)
      show "n - ?w < n - i" using w by linarith
      show "heap_down (swp a i ?w) n ?w" using heap_down_step True less.prems by blast
      show "elems_ok (swp a i ?w) n" using elems_ok_swp less.prems w by simp
    qed (use w less.prems in simp_all)
    with True show ?thesis by (subst sink.simps) simp
  next
    case False
    then show ?thesis using heap_down_done [OF less.prems(1-3)] by (subst sink.simps) auto
  qed
qed

text \<open>The first node of a heap is a least one.\<close>

lemma heap_root_le:
  assumes "heap a n" "elems_ok a n" "j < n"
  shows "le (a ! 0) (a ! j)"
  using assms(3)
proof (induction j rule: less_induct)
  case (less j)
  have ok: "elem_ok (a ! k)" if "k < n" for k using assms(2) that by (simp add: elems_ok_def)
  show ?case
  proof (cases "j = 0")
    case True
    then show ?thesis using cmp_sign [OF ok ok, of j j] less.prems by force
  next
    case False
    then have p: "PARENT_OF j < j" using parent_lt by simp
    have "le (a ! 0) (a ! PARENT_OF j)" "le (a ! PARENT_OF j) (a ! j)"
      using less.IH [OF p] assms(1) p less.prems False by (auto simp: heap_def)
    then show ?thesis
      using cmp_trans [OF ok ok ok, of 0 "PARENT_OF j" j] p less.prems by simp
  qed
qed

section \<open>The operations on queues\<close>

definition pq_inv :: "'a pqueue \<Rightarrow> bool" where
  "pq_inv q \<longleftrightarrow> length (array q) = array_size q \<and> 0 < array_size q \<and> pq_size q < array_size q \<and>
     elems_ok (array q) (pq_size q) \<and> heap (array q) (pq_size q)"

lemma elems_ok_mset:
  "n \<le> length a \<Longrightarrow> n \<le> length b \<Longrightarrow> mset (take n a) = mset (take n b) \<Longrightarrow> elems_ok a n \<longleftrightarrow> elems_ok b n"
proof -
  assume len: "n \<le> length a" "n \<le> length b" and "mset (take n a) = mset (take n b)"
  then have "set (take n a) = set (take n b)" by (metis set_mset_mset)
  moreover have "elems_ok c n \<longleftrightarrow> (\<forall>x\<in>set (take n c). elem_ok x)" if "n \<le> length c" for c
    using that by (simp add: elems_ok_def all_set_conv_all_nth)
  ultimately show ?thesis using len by simp
qed

end

definition pq_mset :: "'a pqueue \<Rightarrow> 'a multiset" where
  "pq_mset q = mset (take (pq_size q) (array q))"

lemma mset_take_remove:
  assumes "i < n" "n \<le> length a"
  shows "mset (take (n - 1) (a[i := a ! (n - 1)])) = mset (take n a) - {#a ! i#}"
proof -
  obtain m where n: "n = Suc m" using assms(1) by (cases n) auto
  have "take n a = take m a @ [a ! m]" using assms n by (simp add: take_Suc_conv_app_nth)
  then have t: "mset (take n a) = add_mset (a ! m) (mset (take m a))" by simp
  show ?thesis
  proof (cases "i = m")
    case True
    then show ?thesis using t n by simp
  next
    case False
    then have "i < length (take m a)" using assms n by simp
    then have "mset ((take m a)[i := a ! m]) = add_mset (a ! m) (mset (take m a) - {#take m a ! i#})"
      by (rule mset_update)
    moreover have "a ! i \<in># mset (take m a)"
      using False assms n by (auto simp: in_set_conv_nth intro!: exI [of _ i])
    ultimately show ?thesis
      using False assms n t by (simp add: take_update_swap)
  qed
qed

context pqueue_order
begin

lemma trickle_up_ok:
  assumes "i < n" "n \<le> length (array q)" "heap_up (array q) n i" "elems_ok (array q) n"
  shows "\<exists>b s'. trickle_up cmp upd i q s = Inr (q\<lparr>array := b\<rparr>, s') \<and>
     length b = length (array q) \<and> heap b n \<and> elems_ok b n \<and>
     mset (take n b) = mset (take n (array q))"
proof -
  let ?a = "swim cmp i (array q)"
  obtain s' where "trickle_up_loop cmp upd (array q ! i) i (array q) s = Inr (?a, s')"
    using trickle_up_loop_swim [of i "array q" cmp upd "array q ! i" s] assms by auto
  then have "trickle_up cmp upd i q s = Inr (q\<lparr>array := ?a\<rparr>, s')"
    using assms by (simp add: trickle_up_def mem_simps)
  moreover have "mset (take n ?a) = mset (take n (array q))" using mset_swim assms by blast
  ultimately show ?thesis
    using swim_heap [of "array q" n i] elems_ok_mset [of n ?a "array q"] assms by auto
qed

lemma trickle_down_ok:
  assumes "i < pq_size q" "pq_size q \<le> length (array q)" "heap_down (array q) (pq_size q) i"
    "elems_ok (array q) (pq_size q)"
  shows "\<exists>b s'. trickle_down cmp upd i q s = Inr (q\<lparr>array := b\<rparr>, s') \<and>
     length b = length (array q) \<and> heap b (pq_size q) \<and> elems_ok b (pq_size q) \<and>
     mset (take (pq_size q) b) = mset (take (pq_size q) (array q))"
proof -
  let ?n = "pq_size q" let ?a = "sink cmp ?n i (array q)"
  obtain s' where "trickle_down_loop cmp upd (array q ! i) ?n i (array q) s = Inr (?a, s')"
    using trickle_down_loop_sink [of i "array q" ?n cmp upd "array q ! i" s] assms by auto
  then have "trickle_down cmp upd i q s = Inr (q\<lparr>array := ?a\<rparr>, s')"
    using assms by (simp add: trickle_down_def mem_simps)
  moreover have "mset (take ?n ?a) = mset (take ?n (array q))" using mset_sink assms by blast
  ultimately show ?thesis
    using sink_heap [of "array q" ?n i] elems_ok_mset [of ?n ?a "array q"] assms by auto
qed

text \<open>Trickling down at the first position behind the heap only rewrites that slot.\<close>

lemma trickle_down_outside:
  assumes "pq_size q \<le> i" "i < length (array q)"
  shows "trickle_down cmp upd i q s = Inr (q, upd (array q ! i) i s)"
proof -
  have "\<not> HAVE_CHILD i (pq_size q)" using assms by (simp add: HAVE_CHILD_def)
  with assms show ?thesis
    by (simp add: trickle_down_def mem_simps) (subst trickle_down_loop.simps, simp add: mem_simps)
qed

lemma pqueue_create_ok: "pq_inv (pqueue_create null)" "pq_mset (pqueue_create null) = {#}"
  by (simp_all add: pq_inv_def pq_mset_def pqueue_create_def PQUEUE_INIT_ARRAYSIZE_def elems_ok_def heap_def)

lemma heap_cong:
  assumes "\<And>j. j < n \<Longrightarrow> a ! j = b ! j"
  shows "heap a n \<longleftrightarrow> heap b n"
proof -
  have "a ! PARENT_OF j = b ! PARENT_OF j" if "0 < j" "j < n" for j
    using assms [of "PARENT_OF j"] parent_lt [OF that(1)] that(2) by simp
  then show ?thesis using assms by (auto simp: heap_def)
qed

lemma heap_snoc:
  assumes "heap a n" "n < length a"
  shows "heap_up (a[n := x]) (Suc n) n"
proof -
  have "PARENT_OF j < n" if "0 < j" "j \<le> n" for j using parent_lt [OF that(1)] that(2) by simp
  moreover have "PARENT_OF j \<noteq> n" if "0 < j" "j < Suc n" for j using parent_lt [OF that(1)] that(2) by simp
  ultimately show ?thesis using assms by (auto simp: heap_def heap_up_def nth_list_update less_Suc_eq)
qed

lemma pqueue_enqueue_ok:
  assumes q: "pq_inv q" and x: "elem_ok x" and room: "array_size q < 2 ^ 30"
  shows "\<exists>q' s'. pqueue_enqueue null cmp upd x q s = Inr (q', s') \<and> pq_inv q' \<and>
     pq_size q' = pq_size q + 1 \<and> pq_mset q' = add_mset x (pq_mset q)"
proof -
  let ?n = "pq_size q"
  obtain q1 where q1: "(if ?n + 2 \<ge> array_size q then pqueue_expand null q else Inr q) = Inr q1"
    "length (array q1) = array_size q1" "?n + 1 < array_size q1" "pq_size q1 = ?n"
    "take ?n (array q1) = take ?n (array q)"
  proof (cases "?n + 2 \<ge> array_size q")
    case True
    then have "pqueue_expand null q
        = Inr (q\<lparr>array := array q @ replicate (array_size q) null, array_size := array_size q * 2\<rparr>)"
      using q room by (simp add: pqueue_expand_def pq_inv_def mem_simps INT_MAX_def)
    with True q show ?thesis
      by (intro that [of "q\<lparr>array := array q @ replicate (array_size q) null, array_size := array_size q * 2\<rparr>"])
        (auto simp: pq_inv_def)
  next
    case False
    with q show ?thesis by (intro that [of q]) (auto simp: pq_inv_def)
  qed
  have nth: "array q1 ! j = array q ! j" if "j < ?n" for j
    using q1(5) that by (metis nth_take)
  let ?a = "(array q1)[?n := x]" let ?q2 = "q1\<lparr>array := ?a\<rparr>"
  have "heap (array q1) ?n" "elems_ok (array q1) ?n"
    using q nth heap_cong [of ?n "array q1" "array q"] by (auto simp: pq_inv_def elems_ok_def)
  then have "heap_up ?a (Suc ?n) ?n" "elems_ok ?a (Suc ?n)"
    using heap_snoc [of "array q1" ?n x] q1 x by (auto simp: elems_ok_def nth_list_update less_Suc_eq)
  then obtain b s3 where b: "trickle_up cmp upd ?n ?q2 (upd x ?n s) = Inr (?q2\<lparr>array := b\<rparr>, s3)"
    "length b = length ?a" "heap b (Suc ?n)" "elems_ok b (Suc ?n)" "mset (take (Suc ?n) b) = mset (take (Suc ?n) ?a)"
    using trickle_up_ok [of ?n "Suc ?n" ?q2 upd "upd x ?n s"] q1 by auto
  let ?q = "q1\<lparr>array := b, pq_size := ?n + 1\<rparr>"
  have "pqueue_enqueue null cmp upd x q s = Inr (?q, s3)"
    unfolding pqueue_enqueue_def q1(1) using q1 b(1) by (simp add: mem_simps)
  moreover have "pq_inv ?q" using b q1 by (simp add: pq_inv_def)
  moreover have "pq_mset ?q = add_mset x (pq_mset q)"
    using b(5) q1 by (simp add: pq_mset_def take_Suc_conv_app_nth)
  ultimately show ?thesis by auto
qed

lemma heap_hole:
  assumes "heap a n" "n \<le> length a" "i < n - 1"
  shows "\<And>j. 0 < j \<Longrightarrow> j < n - 1 \<Longrightarrow> j \<noteq> i \<Longrightarrow> PARENT_OF j \<noteq> i \<Longrightarrow>
      le (a[i := x] ! PARENT_OF j) (a[i := x] ! j)"
    and "\<And>j. 0 < j \<Longrightarrow> j < n - 1 \<Longrightarrow> PARENT_OF j = i \<Longrightarrow> 0 < i \<Longrightarrow> elems_ok a n \<Longrightarrow>
      le (a[i := x] ! PARENT_OF i) (a[i := x] ! j)"
proof -
  fix j assume j: "0 < j" "j < n - 1"
  show "le (a[i := x] ! PARENT_OF j) (a[i := x] ! j)" if "j \<noteq> i" "PARENT_OF j \<noteq> i"
    using assms that j by (simp add: heap_def)
  assume c: "PARENT_OF j = i" "0 < i" and ok: "elems_ok a n"
  then have lt: "i < j" "PARENT_OF i < i" using parent_lt [of j] parent_lt [of i] j by auto
  have "le (a ! PARENT_OF i) (a ! i)" "le (a ! i) (a ! j)"
    using assms j c by (auto simp: heap_def)
  then have "le (a ! PARENT_OF i) (a ! j)"
    using cmp_trans [of "a ! PARENT_OF i" "a ! i" "a ! j"] ok lt j by (simp add: elems_ok_def)
  then show "le (a[i := x] ! PARENT_OF i) (a[i := x] ! j)" using lt by simp
qed

lemma elems_ok_hole:
  assumes "elems_ok a n" "i < n" "n \<le> length a"
  shows "elems_ok (a[i := a ! (n - 1)]) (n - 1)"
  unfolding elems_ok_def
proof (intro allI impI)
  fix j assume "j < n - 1"
  then show "elem_ok (a[i := a ! (n - 1)] ! j)"
    using assms by (cases "j = i") (simp_all add: elems_ok_def)
qed

text \<open>Removing the last node: nothing moves.\<close>

lemma pqueue_remove_last:
  assumes q: "pq_inv q" and n: "0 < pq_size q"
  defines "i \<equiv> pq_size q - 1"
  shows "pqueue_remove_at cmp upd i q s = Inr (q\<lparr>pq_size := i\<rparr>, upd (array q ! i) i s)"
proof -
  have i: "i < pq_size q" "i < length (array q)" using q n by (auto simp: i_def pq_inv_def)
  have "\<not> cmp (array q ! i) (array q ! PARENT_OF i) < 0" if "0 < i"
  proof -
    have "le (array q ! PARENT_OF i) (array q ! i)" using q that i by (simp add: pq_inv_def heap_def)
    moreover have "elem_ok (array q ! i)" "elem_ok (array q ! PARENT_OF i)"
      using q i parent_lt [OF that] by (auto simp: pq_inv_def elems_ok_def)
    ultimately show ?thesis using cmp_sign [of "array q ! i" "array q ! PARENT_OF i"] by simp
  qed
  then have "pqueue_remove_at cmp upd i q s = trickle_down cmp upd i (q\<lparr>pq_size := i\<rparr>) s"
    using i n parent_lt [of i]
    by (auto simp: pqueue_remove_at_def mem_simps Let_def i_def [symmetric] simp flip: One_nat_def)
  also have "\<dots> = Inr (q\<lparr>pq_size := i\<rparr>, upd (array q ! i) i s)"
    using trickle_down_outside [of "q\<lparr>pq_size := i\<rparr>" i upd s] i by simp
  finally show ?thesis .
qed

lemma pqueue_remove_at_ok:
  assumes q: "pq_inv q" and i: "i < pq_size q"
  shows "\<exists>q' s'. pqueue_remove_at cmp upd i q s = Inr (q', s') \<and> pq_inv q' \<and>
     pq_mset q' = pq_mset q - {#array q ! i#}"
proof -
  let ?n = "pq_size q" let ?l = "array q ! (?n - 1)" let ?a = "(array q)[i := ?l]"
  let ?q1 = "q\<lparr>array := ?a, pq_size := ?n - 1\<rparr>" and ?p = "PARENT_OF i"
  have len: "?n < length (array q)" "array_size q = length (array q)" "?n - 1 \<le> length (array q)"
    using q by (auto simp: pq_inv_def)
  have ok: "elems_ok (array q) ?n" "heap (array q) ?n" using q by (simp_all add: pq_inv_def)
  have elem: "elem_ok (array q ! k)" if "k < ?n" for k using ok(1) that by (simp add: elems_ok_def)
  have rem: "mset (take (?n - 1) ?a) = pq_mset q - {#array q ! i#}"
    using mset_take_remove [of i ?n "array q"] i len by (simp add: pq_mset_def)
  have p: "?p < i" if "0 < i" using parent_lt [OF that] .
  have eq: "pqueue_remove_at cmp upd i q s =
      (if 0 < i \<and> cmp ?l (array q ! ?p) < 0 then trickle_up cmp upd i ?q1 s else trickle_down cmp upd i ?q1 s)"
    using i len p by (auto simp: pqueue_remove_at_def mem_simps Let_def less_imp_diff_less)
  have fin: ?thesis if "pqueue_remove_at cmp upd i q s = Inr (?q1\<lparr>array := b\<rparr>, s')"
      "length b = length ?a" "heap b (?n - 1)" "elems_ok b (?n - 1)"
      "mset (take (?n - 1) b) = mset (take (?n - 1) ?a)" for b s'
  proof -
    have "pq_inv (?q1\<lparr>array := b\<rparr>)" using that q by (auto simp: pq_inv_def)
    moreover have "pq_mset (?q1\<lparr>array := b\<rparr>) = pq_mset q - {#array q ! i#}"
      using rem that(5) by (simp add: pq_mset_def)
    ultimately show ?thesis using that(1) by blast
  qed
  have ok1: "elems_ok ?a (?n - 1)" using elems_ok_hole [OF ok(1) i] len by simp
  show ?thesis
  proof (cases "i = ?n - 1")
    case True
    have "pqueue_remove_at cmp upd i q s = Inr (?q1\<lparr>array := ?a\<rparr>, upd (array q ! i) i s)"
      using pqueue_remove_last [OF q, of upd s] True i by simp
    then show ?thesis
    proof (rule fin)
      show "heap ?a (?n - 1)"
        using ok(2) heap_cong [of "?n - 1" ?a "array q"] True by (auto simp: heap_def)
    qed (use ok1 in simp_all)
  next
    case False
    then have i1: "i < ?n - 1" using i by simp
    note hole = heap_hole [OF ok(2) less_imp_le [OF len(1)] i1, of _ ?l]
    have lch: "le ?l (array q ! j)" if "cmp ?l (array q ! ?p) < 0" "0 < i" "0 < j" "j < ?n - 1" "PARENT_OF j = i" for j
      using hole(2) [of j] that cmp_trans [OF elem elem elem, of "?n - 1" ?p j] p ok(1) i
        parent_lt [OF that(3)] by simp
    show ?thesis
    proof (cases "0 < i \<and> cmp ?l (array q ! ?p) < 0")
      case True
      have "le (?a ! PARENT_OF j) (?a ! j)" if "0 < j" "j < ?n - 1" "j \<noteq> i" for j
        using hole(1) [OF that] lch [of j] that True i len by (cases "PARENT_OF j = i") simp_all
      moreover have "le (?a ! ?p) (?a ! j)" if "0 < j" "j < ?n - 1" "PARENT_OF j = i" for j
        using hole(2) [OF that] True ok(1) by simp
      ultimately have "heap_up ?a (?n - 1) i" by (simp add: heap_up_def)
      then obtain b s' where b: "trickle_up cmp upd i ?q1 s = Inr (?q1\<lparr>array := b\<rparr>, s')"
        "length b = length ?a" "heap b (?n - 1)" "elems_ok b (?n - 1)"
        "mset (take (?n - 1) b) = mset (take (?n - 1) ?a)"
        using trickle_up_ok [of i "?n - 1" ?q1 upd s] ok1 len i1 by auto
      from eq True b(1) have "pqueue_remove_at cmp upd i q s = Inr (?q1\<lparr>array := b\<rparr>, s')" by simp
      then show ?thesis by (rule fin) (fact b)+
    next
      case no: False
      have "le (array q ! ?p) ?l" if "0 < i"
        using no that not_less_le [OF elem elem, of "?n - 1" ?p] p i by simp
      then have "le (?a ! PARENT_OF j) (?a ! j)" if "0 < j" "j < ?n - 1" "PARENT_OF j \<noteq> i" for j
        using hole(1) [OF that(1,2) _ that(3)] that i len p by (cases "j = i") simp_all
      moreover have "le (?a ! ?p) (?a ! j)" if "0 < j" "j < ?n - 1" "PARENT_OF j = i" "0 < i" for j
        using hole(2) [OF that] ok(1) by simp
      ultimately have "heap_down ?a (?n - 1) i" by (simp add: heap_down_def)
      then obtain b s' where b: "trickle_down cmp upd i ?q1 s = Inr (?q1\<lparr>array := b\<rparr>, s')"
        "length b = length ?a" "heap b (?n - 1)" "elems_ok b (?n - 1)"
        "mset (take (?n - 1) b) = mset (take (?n - 1) ?a)"
        using trickle_down_ok [of i ?q1 upd s] ok1 len i1 by auto
      from eq no b(1) have "pqueue_remove_at cmp upd i q s = Inr (?q1\<lparr>array := b\<rparr>, s')" by auto
      then show ?thesis by (rule fin) (fact b)+
    qed
  qed
qed

text \<open>Taking the first node is removing at position 0.\<close>

lemma pqueue_dequeue_remove:
  assumes "pq_inv q" "0 < pq_size q"
  shows "pqueue_dequeue cmp upd q s =
     bindR (pqueue_remove_at cmp upd 0 q s) (\<lambda>(q', s'). Inr (array q ! 0, q', s'))"
proof -
  have "array q \<noteq> []" "pq_size q - 1 < length (array q)" using assms by (auto simp: pq_inv_def)
  then show ?thesis
    using assms(2) by (simp add: pqueue_dequeue_def pqueue_remove_at_def mem_simps Let_def)
qed

lemma pq_root_least:
  assumes "pq_inv q" "0 < pq_size q"
  shows "array q ! 0 \<in># pq_mset q" "\<forall>y \<in># pq_mset q. le (array q ! 0) y"
proof -
  show "array q ! 0 \<in># pq_mset q"
    using assms by (auto simp: pq_inv_def pq_mset_def in_set_conv_nth intro!: exI [of _ 0])
  show "\<forall>y \<in># pq_mset q. le (array q ! 0) y"
    using assms heap_root_le [of "array q" "pq_size q"]
    by (auto simp: pq_inv_def pq_mset_def in_set_conv_nth)
qed

lemma pqueue_dequeue_ok:
  assumes q: "pq_inv q" and n: "0 < pq_size q"
  shows "\<exists>x q' s'. pqueue_dequeue cmp upd q s = Inr (x, q', s') \<and> pq_inv q' \<and>
     x \<in># pq_mset q \<and> pq_mset q' = pq_mset q - {#x#} \<and> (\<forall>y \<in># pq_mset q. le x y)"
  using pqueue_remove_at_ok [OF q n, where upd = upd and s = s] pq_root_least [OF q n]
  by (auto simp: pqueue_dequeue_remove [OF q n])

end

section \<open>The position callback\<close>

text \<open>
  When \<open>update\<close> records in each node the position it is told, every node of the queue knows
  its position after every operation: this is what removal from the middle relies on.
\<close>

locale pqueue_pos = pqueue_order cmp elem_ok
  for cmp :: "'a cmp" and elem_ok :: "'a \<Rightarrow> bool" +
  fixes upd :: "('a, 's) upd" and pos :: "'s \<Rightarrow> 'a \<Rightarrow> int"
  assumes pos_upd: "pos (upd x i s) = (pos s)(x := int i)"
begin

definition tracked :: "'a list \<Rightarrow> nat \<Rightarrow> 's \<Rightarrow> bool" where
  "tracked a n s \<longleftrightarrow> (\<forall>j < n. pos s (a ! j) = int j)"

definition tracked_except :: "'a list \<Rightarrow> nat \<Rightarrow> nat \<Rightarrow> 's \<Rightarrow> bool" where
  "tracked_except a n i s \<longleftrightarrow> (\<forall>j < n. j \<noteq> i \<longrightarrow> pos s (a ! j) = int j)"

lemma nth_in_take: "j < n \<Longrightarrow> n \<le> length a \<Longrightarrow> a ! j \<in> set (take n a)"
  by (auto simp: in_set_conv_nth)

lemma set_take_swp: "i < n \<Longrightarrow> j < n \<Longrightarrow> n \<le> length a \<Longrightarrow> set (take n (swp a i j)) = set (take n a)"
  by (metis length_take min.absorb2 mset_swp set_mset_mset take_swp)

lemma distinct_swp: "i < length a \<Longrightarrow> j < length a \<Longrightarrow> distinct (swp a i j) \<longleftrightarrow> distinct a"
  unfolding swp_def by (rule distinct_swap)

lemma tracked_fill:
  assumes "tracked_except a n i s" "distinct (take n a)" "i < n" "n \<le> length a"
  shows "tracked a n (upd (a ! i) i s)"
proof -
  have "a ! k \<noteq> a ! i" if "k < n" "k \<noteq> i" for k
    using nth_eq_iff_index_eq [OF assms(2), of k i] that assms by simp
  then show ?thesis using assms by (auto simp: tracked_def tracked_except_def pos_upd)
qed

text \<open>Moving a node into the hole moves the hole.\<close>

lemma tracked_move:
  assumes t: "tracked_except a n i s" and d: "distinct (take n a)" and ij: "i < n" "j < n" "i \<noteq> j" "n \<le> length a"
  shows "tracked_except (swp a i j) n j (upd (a ! j) i s)"
proof -
  have "a ! k \<noteq> a ! j" if "k < n" "k \<noteq> j" for k
    using nth_eq_iff_index_eq [OF d, of k j] that ij by simp
  then show ?thesis using t ij by (auto simp: tracked_except_def pos_upd swp_nth)
qed

lemma trickle_up_loop_tracks:
  "i < n \<Longrightarrow> n \<le> length a \<Longrightarrow> distinct (take n (a[i := tmp])) \<Longrightarrow> tracked_except (a[i := tmp]) n i s \<Longrightarrow>
   \<exists>s'. trickle_up_loop cmp upd tmp i a s = Inr (swim cmp i (a[i := tmp]), s') \<and>
     tracked (swim cmp i (a[i := tmp])) n s' \<and>
     (\<forall>x. x \<notin> set (take n (a[i := tmp])) \<longrightarrow> pos s' x = pos s x)"
proof (induction i arbitrary: a s rule: less_induct)
  case (less i)
  let ?p = "PARENT_OF i" and ?v = "a[i := tmp]"
  show ?case
  proof (cases "0 < i \<and> cmp tmp (a ! ?p) < 0")
    case True
    then have p: "?p < i" "?p < n" "?p < length a" "i < length a" using less.prems parent_lt [of i] by auto
    have sw: "a[i := a ! ?p, ?p := tmp] = swp ?v i ?p" using swp_hole [of i a ?p tmp] p by simp
    have d: "distinct (take n (swp ?v i ?p))"
      using less.prems p by (simp add: take_swp distinct_swp)
    have "tracked_except (swp ?v i ?p) n ?p (upd (a ! ?p) i s)"
      using tracked_move [OF less.prems(4,3), of ?p] less.prems p by simp
    then obtain s' where s': "trickle_up_loop cmp upd tmp ?p (a[i := a ! ?p]) (upd (a ! ?p) i s)
        = Inr (swim cmp ?p (swp ?v i ?p), s')" "tracked (swim cmp ?p (swp ?v i ?p)) n s'"
        "\<forall>x. x \<notin> set (take n (swp ?v i ?p)) \<longrightarrow> pos s' x = pos (upd (a ! ?p) i s) x"
      using less.IH [of ?p "a[i := a ! ?p]" "upd (a ! ?p) i s"] p less.prems d by (auto simp: sw)
    have set: "set (take n (swp ?v i ?p)) = set (take n ?v)"
      using p less.prems by (intro set_take_swp) simp_all
    have "a ! ?p \<in> set (take n ?v)" using nth_in_take [of ?p n ?v] p less.prems by simp
    then have "\<forall>x. x \<notin> set (take n ?v) \<longrightarrow> pos s' x = pos s x" using s'(3) set by (auto simp: pos_upd)
    moreover have "swim cmp i ?v = swim cmp ?p (swp ?v i ?p)" using True p by (subst swim.simps) simp
    moreover have "trickle_up_loop cmp upd tmp i a s = Inr (swim cmp ?p (swp ?v i ?p), s')"
      using True p s'(1) by (subst trickle_up_loop.simps) (simp add: mem_simps)
    ultimately show ?thesis using s'(2) by simp
  next
    case False
    moreover have "i < length a" using less.prems by simp
    ultimately have "trickle_up_loop cmp upd tmp i a s = Inr (?v, upd tmp i s)"
      using parent_lt [of i] by (subst trickle_up_loop.simps) (auto simp: mem_simps)
    moreover have "swim cmp i ?v = ?v"
      using False less.prems parent_lt [of i] by (subst swim.simps) auto
    moreover have "tmp \<in> set (take n ?v)" using nth_in_take [of i n ?v] less.prems by simp
    ultimately show ?thesis
      using tracked_fill [OF less.prems(4,3,1)] less.prems by (auto simp: pos_upd)
  qed
qed

lemma trickle_down_loop_tracks:
  "i < n \<Longrightarrow> n \<le> length a \<Longrightarrow> distinct (take n (a[i := tmp])) \<Longrightarrow> tracked_except (a[i := tmp]) n i s \<Longrightarrow>
   \<exists>s'. trickle_down_loop cmp upd tmp n i a s = Inr (sink cmp n i (a[i := tmp]), s') \<and>
     tracked (sink cmp n i (a[i := tmp])) n s' \<and>
     (\<forall>x. x \<notin> set (take n (a[i := tmp])) \<longrightarrow> pos s' x = pos s x)"
proof (induction "n - i" arbitrary: i a s rule: less_induct)
  case less
  let ?w = "better_child cmp a n i" and ?v = "a[i := tmp]"
  show ?case
  proof (cases "HAVE_CHILD i n \<and> \<not> cmp (a ! ?w) tmp > 0")
    case True
    then have w: "?w < n" "i < ?w" using child_bounds [of i n] by auto
    then have lt: "n - ?w < n - i" and len: "?w < length a" "i < length a" using less.prems by auto
    have sw: "a[i := a ! ?w, ?w := tmp] = swp ?v i ?w" using swp_hole [of i a ?w tmp] w len by simp
    have d: "distinct (take n (swp ?v i ?w))"
      using less.prems w by (simp add: take_swp distinct_swp)
    have "tracked_except (swp ?v i ?w) n ?w (upd (a ! ?w) i s)"
      using tracked_move [OF less.prems(4,3), of ?w] less.prems w by simp
    then obtain s' where s': "trickle_down_loop cmp upd tmp n ?w (a[i := a ! ?w]) (upd (a ! ?w) i s)
        = Inr (sink cmp n ?w (swp ?v i ?w), s')" "tracked (sink cmp n ?w (swp ?v i ?w)) n s'"
        "\<forall>x. x \<notin> set (take n (swp ?v i ?w)) \<longrightarrow> pos s' x = pos (upd (a ! ?w) i s) x"
      using less.hyps [OF lt, of "a[i := a ! ?w]" "upd (a ! ?w) i s"] w less.prems d by (auto simp: sw)
    have set: "set (take n (swp ?v i ?w)) = set (take n ?v)"
      using w less.prems by (intro set_take_swp) simp_all
    have "a ! ?w \<in> set (take n ?v)" using nth_in_take [of ?w n ?v] w less.prems by simp
    then have "\<forall>x. x \<notin> set (take n ?v) \<longrightarrow> pos s' x = pos s x" using s'(3) set by (auto simp: pos_upd)
    moreover have "sink cmp n i ?v = sink cmp n ?w (swp ?v i ?w)"
      using True w len by (subst sink.simps) (simp add: better_child_hole)
    moreover have "trickle_down_loop cmp upd tmp n i a s = Inr (sink cmp n ?w (swp ?v i ?w), s')"
      using True w len less.prems s'(1)
      by (subst trickle_down_loop.simps) (simp add: mem_simps which_child_better)
    ultimately show ?thesis using s'(2) by simp
  next
    case False
    then have "trickle_down_loop cmp upd tmp n i a s = Inr (?v, upd tmp i s)"
      using less.prems child_bounds(2,3) [of i n cmp a]
      by (subst trickle_down_loop.simps) (auto simp: mem_simps which_child_better)
    moreover have "sink cmp n i ?v = ?v"
      using False less.prems child_bounds(2,3) [of i n cmp a]
      by (subst sink.simps) (auto simp: better_child_hole)
    moreover have "tmp \<in> set (take n ?v)" using nth_in_take [of i n ?v] less.prems by simp
    ultimately show ?thesis
      using tracked_fill [OF less.prems(4,3,1)] less.prems by (auto simp: pos_upd)
  qed
qed

definition pq_tracked :: "'a pqueue \<Rightarrow> 's \<Rightarrow> bool" where
  "pq_tracked q s \<longleftrightarrow> distinct (take (pq_size q) (array q)) \<and> tracked (array q) (pq_size q) s"

lemma pqueue_create_tracked: "pq_tracked (pqueue_create null) s"
  by (simp add: pq_tracked_def tracked_def pqueue_create_def)

lemma pqueue_enqueue_tracked:
  assumes q: "pq_inv q" "pq_tracked q s" and x: "elem_ok x" "x \<notin># pq_mset q" and room: "array_size q < 2 ^ 30"
  shows "\<exists>q' s'. pqueue_enqueue null cmp upd x q s = Inr (q', s') \<and> pq_inv q' \<and> pq_tracked q' s' \<and>
     pq_mset q' = add_mset x (pq_mset q) \<and> (\<forall>y. y \<notin># pq_mset q' \<longrightarrow> pos s' y = pos s y)"
proof -
  let ?n = "pq_size q"
  obtain q' s' where enq: "pqueue_enqueue null cmp upd x q s = Inr (q', s')" "pq_inv q'"
    "pq_size q' = ?n + 1" "pq_mset q' = add_mset x (pq_mset q)"
    using pqueue_enqueue_ok [OF q(1) x(1) room, where null = null and upd = upd and s = s] by blast
  obtain q1 where q1: "(if array_size q \<le> ?n + 2 then pqueue_expand null q else Inr q) = Inr q1"
    using enq(1) by (auto simp: pqueue_enqueue_def bindR_eq_Inr split: if_splits)
  then have q1': "pq_size q1 = ?n" "?n < length (array q1)" "take ?n (array q1) = take ?n (array q)"
    using q(1) by (auto simp: pq_inv_def pqueue_expand_def bindR_eq_Inr mem_read_def split: if_splits)
  let ?a = "(array q1)[?n := x]"
  have take: "take (Suc ?n) ?a = take ?n (array q) @ [x]"
    using q1' by (simp add: take_Suc_conv_app_nth)
  have d: "distinct (take (Suc ?n) ?a)"
    using q(2) x(2) unfolding take by (simp add: pq_tracked_def pq_mset_def)
  have "?a ! j = array q ! j" if "j < ?n" for j using take that q1' by (metis append_take_drop_id length_take less_SucI min.absorb2 nth_append nth_take less_or_eq_imp_le)
  moreover have "array q ! j \<noteq> x" if "j < ?n" for j
    using x(2) nth_in_take [OF that, of "array q"] q(1) by (auto simp: pq_mset_def pq_inv_def)
  ultimately have t: "tracked_except ?a (Suc ?n) ?n (upd x ?n s)"
    using q(2) by (auto simp: tracked_except_def pq_tracked_def tracked_def pos_upd less_Suc_eq)
  obtain s3 where s3: "trickle_up_loop cmp upd x ?n ?a (upd x ?n s) = Inr (swim cmp ?n ?a, s3)"
    "tracked (swim cmp ?n ?a) (Suc ?n) s3"
    "\<forall>y. y \<notin> set (take (Suc ?n) ?a) \<longrightarrow> pos s3 y = pos (upd x ?n s) y"
    using trickle_up_loop_tracks [of ?n "Suc ?n" ?a x "upd x ?n s"] d t q1' by auto
  have "pqueue_enqueue null cmp upd x q s = Inr (q1\<lparr>array := swim cmp ?n ?a, pq_size := ?n + 1\<rparr>, s3)"
    unfolding pqueue_enqueue_def q1 using q1' s3(1) by (simp add: mem_simps trickle_up_def)
  with enq(1) have q': "q' = q1\<lparr>array := swim cmp ?n ?a, pq_size := ?n + 1\<rparr>" "s' = s3" by simp_all
  have m: "mset (take (Suc ?n) (swim cmp ?n ?a)) = mset (take (Suc ?n) ?a)"
    using mset_swim [of ?n "Suc ?n" ?a cmp] q1' by simp
  then have "distinct (take (Suc ?n) (swim cmp ?n ?a))" using d by (metis mset_eq_imp_distinct_iff)
  then have "pq_tracked q' s'" using q' s3(2) by (simp add: pq_tracked_def)
  moreover have "\<forall>y. y \<notin># pq_mset q' \<longrightarrow> pos s' y = pos s y"
    using s3(3) q' m enq(4) take by (auto simp: pos_upd pq_mset_def)
  ultimately show ?thesis using enq by blast
qed

lemma tracked_hole:
  assumes "distinct (take n a)" "tracked a n s" "i < n" "n \<le> length a"
  shows "distinct (take (n - 1) (a[i := a ! (n - 1)]))"
    and "tracked_except (a[i := a ! (n - 1)]) (n - 1) i s"
proof -
  obtain m where n: "n = Suc m" using assms(3) by (cases n) auto
  then have "distinct (take m a)" "a ! m \<notin> set (take m a)"
    using assms(1,4) by (simp_all add: take_Suc_conv_app_nth)
  then show "distinct (take (n - 1) (a[i := a ! (n - 1)]))"
    unfolding n by (auto simp: take_update_swap intro!: distinct_list_update)
  show "tracked_except (a[i := a ! (n - 1)]) (n - 1) i s"
    using assms(2) by (auto simp: tracked_def tracked_except_def)
qed

lemma pqueue_remove_at_tracked:
  assumes q: "pq_inv q" "pq_tracked q s" and i: "i < pq_size q"
  shows "\<exists>q' s'. pqueue_remove_at cmp upd i q s = Inr (q', s') \<and> pq_inv q' \<and> pq_tracked q' s' \<and>
     pq_mset q' = pq_mset q - {#array q ! i#} \<and> (\<forall>y. y \<notin># pq_mset q \<longrightarrow> pos s' y = pos s y)"
proof -
  let ?n = "pq_size q" let ?a = "(array q)[i := array q ! (?n - 1)]"
  let ?q1 = "q\<lparr>array := ?a, pq_size := ?n - 1\<rparr>"
  have len: "?n < length (array q)" "i < length (array q)" "?n - 1 < length (array q)"
    using q(1) i by (auto simp: pq_inv_def)
  have t: "distinct (take ?n (array q))" "tracked (array q) ?n s" using q(2) by (auto simp: pq_tracked_def)
  note hole = tracked_hole [OF t i less_imp_le [OF len(1)]]
  obtain q' s' where r: "pqueue_remove_at cmp upd i q s = Inr (q', s')" "pq_inv q'"
    "pq_mset q' = pq_mset q - {#array q ! i#}"
    using pqueue_remove_at_ok [OF q(1) i, where upd = upd and s = s] by blast
  have sub: "set (take (?n - 1) ?a) \<subseteq> set_mset (pq_mset q)"
    using mset_take_remove [OF i less_imp_le [OF len(1)]] in_diffD
    by (metis pq_mset_def set_mset_mset subsetI)
  have "trickle_up cmp upd i ?q1 s = Inr (q', s') \<or> trickle_down cmp upd i ?q1 s = Inr (q', s')"
    using r(1) len i parent_lt [of i]
    by (auto simp: pqueue_remove_at_def mem_simps bindR_eq_Inr Let_def mem_get_eq_Inr split: if_splits)
  moreover have ?thesis if up: "trickle_up cmp upd i ?q1 s = Inr (q', s')" and lt: "i < ?n - 1"
  proof -
    obtain s3 where s3: "trickle_up_loop cmp upd (?a ! i) i ?a s = Inr (swim cmp i ?a, s3)"
      "tracked (swim cmp i ?a) (?n - 1) s3" "\<forall>x. x \<notin> set (take (?n - 1) ?a) \<longrightarrow> pos s3 x = pos s x"
      using trickle_up_loop_tracks [of i "?n - 1" ?a "?a ! i" s] hole lt len by auto
    with up have q': "q' = ?q1\<lparr>array := swim cmp i ?a\<rparr>" "s' = s3"
      using len by (auto simp: trickle_up_def mem_simps)
    have "distinct (take (?n - 1) (swim cmp i ?a))"
      using mset_swim [of i "?n - 1" ?a cmp] hole(1) lt len by (metis length_list_update less_imp_le mset_eq_imp_distinct_iff)
    then show ?thesis using r q' s3 sub by (auto simp: pq_tracked_def)
  qed
  moreover have ?thesis if down: "trickle_down cmp upd i ?q1 s = Inr (q', s')" and lt: "i < ?n - 1"
  proof -
    obtain s3 where s3: "trickle_down_loop cmp upd (?a ! i) (?n - 1) i ?a s = Inr (sink cmp (?n - 1) i ?a, s3)"
      "tracked (sink cmp (?n - 1) i ?a) (?n - 1) s3" "\<forall>x. x \<notin> set (take (?n - 1) ?a) \<longrightarrow> pos s3 x = pos s x"
      using trickle_down_loop_tracks [of i "?n - 1" ?a "?a ! i" s] hole lt len by auto
    with down have q': "q' = ?q1\<lparr>array := sink cmp (?n - 1) i ?a\<rparr>" "s' = s3"
      using len by (auto simp: trickle_down_def mem_simps)
    have "distinct (take (?n - 1) (sink cmp (?n - 1) i ?a))"
      using mset_sink [of i "?n - 1" ?a cmp] hole(1) lt len by (metis length_list_update less_imp_le mset_eq_imp_distinct_iff)
    then show ?thesis using r q' s3 sub by (auto simp: pq_tracked_def)
  qed
  moreover have ?thesis if last: "i = ?n - 1"
  proof -
    have rm: "q' = q\<lparr>pq_size := ?n - 1\<rparr>" "s' = upd (array q ! i) i s"
      using pqueue_remove_last [OF q(1), of upd s] r(1) i last by simp_all
    have ne: "array q ! j \<noteq> array q ! i" if "j < ?n - 1" for j
      using nth_eq_iff_index_eq [OF t(1), of j i] that i last len by simp
    have "tracked (array q) (?n - 1) s'" using t(2) ne rm(2) by (auto simp: tracked_def pos_upd)
    moreover have "distinct (take (?n - 1) (array q))"
      using t(1) by (metis distinct_take min.absorb1 diff_le_self take_take)
    ultimately have "pq_tracked q' s'" by (simp add: rm pq_tracked_def)
    moreover have "array q ! i \<in># pq_mset q"
      using nth_in_take [OF i, of "array q"] len by (simp add: pq_mset_def)
    ultimately show ?thesis using r rm(2) by (auto simp: pos_upd)
  qed
  ultimately show ?thesis using i by (cases "i = ?n - 1") auto
qed

lemma pqueue_dequeue_tracked:
  assumes q: "pq_inv q" "pq_tracked q s" and n: "0 < pq_size q"
  shows "\<exists>q' s'. pqueue_dequeue cmp upd q s = Inr (array q ! 0, q', s') \<and> pq_inv q' \<and> pq_tracked q' s' \<and>
     pq_mset q' = pq_mset q - {#array q ! 0#} \<and> (\<forall>y. y \<notin># pq_mset q \<longrightarrow> pos s' y = pos s y)"
  using pqueue_remove_at_tracked [OF q n] by (auto simp: pqueue_dequeue_remove [OF q(1) n])

end

text \<open>
  C29: trickling through a hole is equivalent to swapping.  For every comparison and callback,
  the loop of \<open>trickle_up\<close> leaves the array that repeated swapping with the parent leaves,
  and the loop of \<open>trickle_down\<close> the array of repeated swapping with the better child; both
  stay inside the array and permute its nodes.
\<close>

theorem trickle_loops_swap:
  assumes "i < n" "n \<le> length a"
  shows "\<exists>s1 s2. trickle_up_loop cmp upd (a ! i) i a s = Inr (swim cmp i a, s1) \<and>
     trickle_down_loop cmp upd (a ! i) n i a s = Inr (sink cmp n i a, s2) \<and>
     mset (take n (swim cmp i a)) = mset (take n a) \<and> mset (take n (sink cmp n i a)) = mset (take n a)"
proof -
  have "i < length a" using assms by simp
  then show ?thesis
    using trickle_up_loop_swim [of i a cmp upd "a ! i" s] trickle_down_loop_sink [of i a n cmp upd "a ! i" s]
      mset_swim [of i n a cmp] mset_sink [of i n a cmp] assms by simp
qed

theorem trickle_loops_swap_witness:
  "\<exists>s1 s2. trickle_up_loop (\<lambda>x y. x - y) (\<lambda>_ _ s. s) ([3, 5, 1 :: int] ! 2) 2 [3, 5, 1] () = Inr (swim (\<lambda>x y. x - y) 2 [3, 5, 1], s1) \<and>
     trickle_down_loop (\<lambda>x y. x - y) (\<lambda>_ _ s. s) ([3, 5, 1 :: int] ! 2) 3 2 [3, 5, 1] () = Inr (sink (\<lambda>x y. x - y) 3 2 [3, 5, 1], s2)"
  using trickle_loops_swap [of 2 3 "[3, 5, 1 :: int]" "\<lambda>x y. x - y" "\<lambda>_ _ s. s" "()"] by simp

end
