(* ===== verification/Dll.thy ===== *)
theory Dll
  imports Prelude
begin

text \<open>
  Doubly linked lists, independent of the record that holds the links: \<open>nxt\<close> and \<open>prv\<close>
  give the two links of a node.  The lists of lib/linklist.c and the thread lists of
  lib/thread.c are both instances.  A list is described by the sequence of its nodes;
  inserting a node between two parts and unlinking a node are proved correct once.
\<close>

section \<open>Segments\<close>

fun first :: "'p list \<Rightarrow> 'p option \<Rightarrow> 'p option" where
  "first [] q = q"
| "first (x # xs) q = Some x"

fun final :: "'p option \<Rightarrow> 'p list \<Rightarrow> 'p option" where
  "final p [] = p"
| "final p (x # xs) = final (Some x) xs"

fun dseg :: "('p \<Rightarrow> 'p option) \<Rightarrow> ('p \<Rightarrow> 'p option) \<Rightarrow> 'p option \<Rightarrow> 'p list \<Rightarrow> 'p option \<Rightarrow> bool" where
  "dseg nxt prv p [] q \<longleftrightarrow> True"
| "dseg nxt prv p (x # xs) q \<longleftrightarrow> prv x = p \<and> nxt x = first xs q \<and> dseg nxt prv (Some x) xs q"

definition dlist :: "('p \<Rightarrow> 'p option) \<Rightarrow> ('p \<Rightarrow> 'p option) \<Rightarrow> 'p option \<Rightarrow> 'p option \<Rightarrow> 'p list \<Rightarrow> bool" where
  "dlist nxt prv h t xs \<longleftrightarrow>
     dseg nxt prv None xs None \<and> distinct xs \<and> h = first xs None \<and> t = final None xs"

lemma first_append [simp]: "first (xs @ ys) q = first xs (first ys q)"
  by (cases xs) auto

lemma final_append [simp]: "final p (xs @ ys) = final (final p xs) ys"
  by (induction xs arbitrary: p) auto

lemma final_eq_last: "xs \<noteq> [] \<Longrightarrow> final p xs = Some (last xs)"
  by (induction xs arbitrary: p) auto

lemma first_eq_hd: "xs \<noteq> [] \<Longrightarrow> first xs q = Some (hd xs)"
  by (cases xs) auto

lemma first_None_iff [simp]: "first xs None = None \<longleftrightarrow> xs = []"
  by (cases xs) auto

lemma final_None_iff [simp]: "final None xs = None \<longleftrightarrow> xs = []"
  by (cases xs) (auto simp: final_eq_last [of "_ # _", simplified])

lemma dseg_append [simp]:
  "dseg nxt prv p (xs @ ys) q \<longleftrightarrow> dseg nxt prv p xs (first ys q) \<and> dseg nxt prv (final p xs) ys q"
  by (induction xs arbitrary: p) auto

lemma dseg_cong:
  "(\<And>x. x \<in> set xs \<Longrightarrow> nxt x = nxt' x \<and> prv x = prv' x) \<Longrightarrow>
   dseg nxt prv p xs q \<longleftrightarrow> dseg nxt' prv' p xs q"
  by (induction xs arbitrary: p) auto

lemma dseg_upd_nxt [simp]: "x \<notin> set xs \<Longrightarrow> dseg (nxt(x := y)) prv p xs q \<longleftrightarrow> dseg nxt prv p xs q"
  by (rule dseg_cong) auto

lemma dseg_upd_prv [simp]: "x \<notin> set xs \<Longrightarrow> dseg nxt (prv(x := y)) p xs q \<longleftrightarrow> dseg nxt prv p xs q"
  by (rule dseg_cong) auto

text \<open>Relinking the end or the beginning of a segment.\<close>

lemma dseg_relink_last:
  assumes "dseg nxt prv p xs q" "distinct xs"
  shows "dseg (case final None xs of None \<Rightarrow> nxt | Some l \<Rightarrow> nxt(l := q')) prv p xs q'"
proof (cases xs rule: rev_cases)
  case (snoc ys y)
  with assms show ?thesis by simp
qed simp

lemma dseg_relink_first:
  assumes "dseg nxt prv p xs q" "distinct xs"
  shows "dseg nxt (case first xs None of None \<Rightarrow> prv | Some f \<Rightarrow> prv(f := p')) p' xs q"
  using assms by (cases xs) auto

section \<open>Linking and unlinking\<close>

definition set_nxt :: "'p option \<Rightarrow> 'p option \<Rightarrow> ('p \<Rightarrow> 'p option) \<Rightarrow> 'p \<Rightarrow> 'p option" where
  "set_nxt p q nxt = (case p of None \<Rightarrow> nxt | Some l \<Rightarrow> nxt(l := q))"

definition set_head :: "'p option \<Rightarrow> 'p option \<Rightarrow> 'p option \<Rightarrow> 'p option" where
  "set_head p q h = (case p of None \<Rightarrow> q | Some l \<Rightarrow> h)"

lemma final_not_in: "set xs \<inter> set ys = {} \<Longrightarrow> final None xs = Some l \<Longrightarrow> l \<notin> set ys"
  using last_in_set [of xs] by (cases "xs = []") (auto simp: final_eq_last)

lemma first_not_in: "set xs \<inter> set ys = {} \<Longrightarrow> first ys None = Some f \<Longrightarrow> f \<notin> set xs"
  by (cases ys) auto

text \<open>A node \<open>z\<close> is linked in between the parts \<open>xs\<close> and \<open>ys\<close>.\<close>

lemma dlist_insert:
  assumes "dlist nxt prv h t (xs @ ys)" "z \<notin> set (xs @ ys)"
  shows "dlist (set_nxt (final None xs) (Some z) (nxt(z := first ys None)))
     (set_nxt (first ys None) (Some z) (prv(z := final None xs)))
     (set_head (final None xs) (Some z) h) (set_head (first ys None) (Some z) t) (xs @ z # ys)"
proof -
  let ?n = "set_nxt (final None xs) (Some z) (nxt(z := first ys None))"
  let ?p = "set_nxt (first ys None) (Some z) (prv(z := final None xs))"
  have d: "dseg nxt prv None xs (first ys None)" "dseg nxt prv (final None xs) ys None"
    "distinct xs" "distinct ys" "set xs \<inter> set ys = {}" "z \<notin> set xs" "z \<notin> set ys"
    using assms by (auto simp: dlist_def)
  have "dseg ?n prv None xs (Some z)"
    using dseg_relink_last [of "nxt(z := first ys None)" prv None xs] d by (simp add: set_nxt_def)
  moreover have "?p x = prv x" if "x \<in> set xs" for x
    using first_not_in [OF d(5)] that d(6) by (auto simp: set_nxt_def split: option.split)
  ultimately have xs: "dseg ?n ?p None xs (Some z)"
    using dseg_cong [of xs ?n ?n ?p prv] by simp
  have "dseg nxt ?p (Some z) ys None"
    using dseg_relink_first [of nxt "prv(z := final None xs)" "final None xs" ys] d by (simp add: set_nxt_def)
  moreover have "?n x = nxt x" if "x \<in> set ys" for x
    using final_not_in [OF d(5)] that d(7) by (auto simp: set_nxt_def split: option.split)
  ultimately have ys: "dseg ?n ?p (Some z) ys None"
    using dseg_cong [of ys ?n nxt ?p ?p] by simp
  have "?n z = first ys None" "?p z = final None xs"
    using d(6,7) by (cases "xs = []"; cases ys; force simp: set_nxt_def final_eq_last)+
  with xs ys d assms show ?thesis
    by (cases "xs = []"; cases ys) (auto simp: dlist_def set_head_def final_eq_last first_eq_hd)
qed

text \<open>A node \<open>z\<close> is unlinked.\<close>

lemma dlist_delete:
  assumes "dlist nxt prv h t (xs @ z # ys)"
  shows "dlist (set_nxt (prv z) (nxt z) nxt) (set_nxt (nxt z) (prv z) prv)
     (set_head (prv z) (nxt z) h) (set_head (nxt z) (prv z) t) (xs @ ys)"
    and "prv z = final None xs" "nxt z = first ys None"
proof -
  let ?n = "set_nxt (final None xs) (first ys None) nxt"
  let ?p = "set_nxt (first ys None) (final None xs) prv"
  have d: "dseg nxt prv None xs (Some z)" "dseg nxt prv (Some z) ys None"
    "distinct xs" "distinct ys" "set xs \<inter> set ys = {}"
    using assms by (auto simp: dlist_def)
  show z: "prv z = final None xs" "nxt z = first ys None" using assms by (simp_all add: dlist_def)
  have "dseg ?n prv None xs (first ys None)"
    using dseg_relink_last [OF d(1,3)] by (simp add: set_nxt_def)
  moreover have "?p x = prv x" if "x \<in> set xs" for x
    using first_not_in [OF d(5)] that by (auto simp: set_nxt_def split: option.split)
  ultimately have xs: "dseg ?n ?p None xs (first ys None)"
    using dseg_cong [of xs ?n ?n ?p prv] by simp
  have "dseg nxt ?p (final None xs) ys None"
    using dseg_relink_first [OF d(2,4)] by (simp add: set_nxt_def)
  moreover have "?n x = nxt x" if "x \<in> set ys" for x
    using final_not_in [OF d(5)] that by (auto simp: set_nxt_def split: option.split)
  ultimately have ys: "dseg ?n ?p (final None xs) ys None"
    using dseg_cong [of ys ?n nxt ?p ?p] by simp
  show "dlist (set_nxt (prv z) (nxt z) nxt) (set_nxt (nxt z) (prv z) prv)
     (set_head (prv z) (nxt z) h) (set_head (nxt z) (prv z) t) (xs @ ys)"
    unfolding z using xs ys assms
    by (cases "xs = []"; cases ys) (auto simp: dlist_def set_head_def final_eq_last first_eq_hd)
qed

text \<open>Lists that share no node do not disturb each other.\<close>

lemma dlist_cong:
  "(\<And>x. x \<in> set xs \<Longrightarrow> nxt x = nxt' x \<and> prv x = prv' x) \<Longrightarrow> dlist nxt prv h t xs \<longleftrightarrow> dlist nxt' prv' h t xs"
  by (auto simp: dlist_def dseg_cong [of xs nxt nxt' prv prv'])

lemma dlist_upd [simp]:
  "x \<notin> set xs \<Longrightarrow> dlist (nxt(x := a)) (prv(x := b)) h t xs \<longleftrightarrow> dlist nxt prv h t xs"
  by (rule dlist_cong) auto

lemma dlist_empty [simp]: "dlist nxt prv h t [] \<longleftrightarrow> h = None \<and> t = None"
  by (auto simp: dlist_def)

lemma dlist_head: "dlist nxt prv h t xs \<Longrightarrow> h = first xs None"
  by (simp add: dlist_def)

lemma dlist_tail: "dlist nxt prv h t xs \<Longrightarrow> t = final None xs"
  by (simp add: dlist_def)

lemma dlist_distinct: "dlist nxt prv h t xs \<Longrightarrow> distinct xs"
  by (simp add: dlist_def)

lemma dlist_nxt: "dlist nxt prv h t (xs @ z # ys) \<Longrightarrow> nxt z = first ys None"
  by (simp add: dlist_def)

lemma dlist_prv: "dlist nxt prv h t (xs @ z # ys) \<Longrightarrow> prv z = final None xs"
  by (simp add: dlist_def)

end
