(* ===== verification/Linklist.thy ===== *)
theory Linklist
  imports Dll Contracts
begin

text \<open>
  lib/linklist.c: the doubly linked lists used all over the daemons.  The heap of nodes has
  one map per field of \<open>struct listnode\<close>; a null or released pointer faults when it is
  followed.  Loops along the \<open>next\<close> pointers may run forever on a damaged list, so they are
  partial functions whose value \<open>None\<close> means that the loop does not end.
\<close>

section \<open>Nodes\<close>

type_synonym ptr = "nat option"

record 'a lheap =
  nx :: "nat \<Rightarrow> ptr"
  pv :: "nat \<Rightarrow> ptr"
  dat :: "nat \<Rightarrow> 'a option"
  live :: "nat \<Rightarrow> bool"
  brk :: nat

record list_hdr =
  head :: ptr
  tail :: ptr
  count :: nat

definition deref :: "'a lheap \<Rightarrow> ptr \<Rightarrow> nat res" where
  "deref h p = (case p of None \<Rightarrow> Inl Mem_fault | Some a \<Rightarrow> if live h a then Inr a else Inl Mem_fault)"

definition put_next :: "ptr \<Rightarrow> ptr \<Rightarrow> 'a lheap \<Rightarrow> 'a lheap res" where
  "put_next p v h = bindR (deref h p) (\<lambda>a. Inr (h\<lparr>nx := (nx h)(a := v)\<rparr>))"

definition put_prev :: "ptr \<Rightarrow> ptr \<Rightarrow> 'a lheap \<Rightarrow> 'a lheap res" where
  "put_prev p v h = bindR (deref h p) (\<lambda>a. Inr (h\<lparr>pv := (pv h)(a := v)\<rparr>))"

definition put_data :: "ptr \<Rightarrow> 'a option \<Rightarrow> 'a lheap \<Rightarrow> 'a lheap res" where
  "put_data p v h = bindR (deref h p) (\<lambda>a. Inr (h\<lparr>dat := (dat h)(a := v)\<rparr>))"

definition get_next :: "ptr \<Rightarrow> 'a lheap \<Rightarrow> ptr res" where
  "get_next p h = bindR (deref h p) (\<lambda>a. Inr (nx h a))"

definition get_prev :: "ptr \<Rightarrow> 'a lheap \<Rightarrow> ptr res" where
  "get_prev p h = bindR (deref h p) (\<lambda>a. Inr (pv h a))"

definition list_new :: list_hdr where
  "list_new = \<lparr>head = None, tail = None, count = 0\<rparr>"

definition listnode_new :: "'a lheap \<Rightarrow> ptr \<times> 'a lheap" where
  "listnode_new h =
     (Some (brk h), h\<lparr>nx := (nx h)(brk h := None), pv := (pv h)(brk h := None),
        dat := (dat h)(brk h := None), live := (live h)(brk h := True), brk := brk h + 1\<rparr>)"

definition listnode_free :: "ptr \<Rightarrow> 'a lheap \<Rightarrow> 'a lheap res" where
  "listnode_free p h = bindR (deref h p) (\<lambda>a. Inr (h\<lparr>live := (live h)(a := False)\<rparr>))"

section \<open>The operations\<close>

definition inc_count :: "list_hdr \<Rightarrow> list_hdr" where
  "inc_count l = l\<lparr>count := uadd 32 (count l) 1\<rparr>"

definition dec_count :: "list_hdr \<Rightarrow> list_hdr" where
  "dec_count l = l\<lparr>count := usub 32 (count l) 1\<rparr>"

definition listnode_add :: "list_hdr \<Rightarrow> 'a option \<Rightarrow> 'a lheap \<Rightarrow> (list_hdr \<times> 'a lheap) res" where
  "listnode_add l val h =
     (if val = None then Inl Assert_failed
      else let (node, h0) = listnode_new h in
        bindR (put_prev node (tail l) h0) (\<lambda>h1.
        bindR (put_data node val h1) (\<lambda>h2.
        bindR (if head l = None then Inr (l\<lparr>head := node\<rparr>, h2)
               else bindR (put_next (tail l) node h2) (\<lambda>h3. Inr (l, h3))) (\<lambda>(l1, h3).
          Inr (inc_count (l1\<lparr>tail := node\<rparr>), h3)))))"

text \<open>The search along the list for the first node whose data satisfies a test.\<close>

partial_function (option) find_node :: "('a option \<Rightarrow> bool) \<Rightarrow> 'a lheap \<Rightarrow> ptr \<Rightarrow> ptr res option" where
  "find_node P h p =
     (case p of None \<Rightarrow> Some (Inr None)
      | Some a \<Rightarrow> if \<not> live h a then Some (Inl Mem_fault)
          else if P (dat h a) then Some (Inr (Some a)) else find_node P h (nx h a))"

text \<open>Linking \<open>new\<close> in before \<open>n\<close>, as in the loop of \<open>listnode_add_sort\<close>.\<close>

definition link_before :: "list_hdr \<Rightarrow> ptr \<Rightarrow> ptr \<Rightarrow> 'a lheap \<Rightarrow> (list_hdr \<times> 'a lheap) res" where
  "link_before l new n h =
     bindR (put_next new n h) (\<lambda>h1.
     bindR (get_prev n h1) (\<lambda>np.
     bindR (put_prev new np h1) (\<lambda>h2.
     bindR (if np \<noteq> None then bindR (put_next np new h2) (\<lambda>h3. Inr (l, h3))
            else Inr (l\<lparr>head := new\<rparr>, h2)) (\<lambda>(l1, h3).
     bindR (put_prev n new h3) (\<lambda>h4. Inr (inc_count l1, h4))))))"

definition link_last :: "list_hdr \<Rightarrow> ptr \<Rightarrow> 'a lheap \<Rightarrow> (list_hdr \<times> 'a lheap) res" where
  "link_last l new h =
     bindR (put_prev new (tail l) h) (\<lambda>h1.
     bindR (if tail l \<noteq> None then bindR (put_next (tail l) new h1) (\<lambda>h2. Inr (l, h2))
            else Inr (l\<lparr>head := new\<rparr>, h1)) (\<lambda>(l1, h2).
       Inr (inc_count (l1\<lparr>tail := new\<rparr>), h2)))"

definition listnode_add_sort ::
  "('a option \<Rightarrow> 'a option \<Rightarrow> int) option \<Rightarrow> list_hdr \<Rightarrow> 'a option \<Rightarrow> 'a lheap \<Rightarrow>
   (list_hdr \<times> 'a lheap) res option" where
  "listnode_add_sort cmp l val h =
     (if val = None then Some (Inl Assert_failed)
      else let (new, h0) = listnode_new h in
        case put_data new val h0 of Inl e \<Rightarrow> Some (Inl e)
        | Inr h1 \<Rightarrow>
          (case cmp of None \<Rightarrow> Some (link_last l new h1)
           | Some c \<Rightarrow>
             (case find_node (\<lambda>d. c val d < 0) h1 (head l) of None \<Rightarrow> None
              | Some (Inl e) \<Rightarrow> Some (Inl e)
              | Some (Inr None) \<Rightarrow> Some (link_last l new h1)
              | Some (Inr (Some n)) \<Rightarrow> Some (link_before l new (Some n) h1))))"

definition listnode_add_after :: "list_hdr \<Rightarrow> ptr \<Rightarrow> 'a option \<Rightarrow> 'a lheap \<Rightarrow> (list_hdr \<times> 'a lheap) res" where
  "listnode_add_after l pp val h =
     (if val = None then Inl Assert_failed
      else let (nn, h0) = listnode_new h in
        bindR (put_data nn val h0) (\<lambda>h1.
        bindR (if pp = None
          then bindR (if head l \<noteq> None then bindR (put_prev (head l) nn h1) (\<lambda>h2. Inr (l, h2))
                      else Inr (l\<lparr>tail := nn\<rparr>, h1)) (\<lambda>(l1, h2).
               bindR (put_next nn (head l1) h2) (\<lambda>h3.
               bindR (put_prev nn pp h3) (\<lambda>h4. Inr (l1\<lparr>head := nn\<rparr>, h4))))
          else bindR (get_next pp h1) (\<lambda>pn.
               bindR (if pn \<noteq> None then bindR (put_prev pn nn h1) (\<lambda>h2. Inr (l, h2))
                      else Inr (l\<lparr>tail := nn\<rparr>, h1)) (\<lambda>(l1, h2).
               bindR (get_next pp h2) (\<lambda>pn2.
               bindR (put_next nn pn2 h2) (\<lambda>h3.
               bindR (put_prev nn pp h3) (\<lambda>h4.
               bindR (put_next pp nn h4) (\<lambda>h5. Inr (l1, h5))))))))
        (\<lambda>(l2, h6). Inr (inc_count l2, h6))))"

definition listnode_add_before ::
  "list_hdr \<Rightarrow> ptr \<Rightarrow> 'a option \<Rightarrow> 'a lheap \<Rightarrow> (ptr \<times> list_hdr \<times> 'a lheap) res" where
  "listnode_add_before l pp val h =
     (if val = None then Inl Assert_failed
      else let (nn, h0) = listnode_new h in
        bindR (put_data nn val h0) (\<lambda>h1.
        bindR (if pp = None
          then bindR (if tail l \<noteq> None then bindR (put_next (tail l) nn h1) (\<lambda>h2. Inr (l, h2))
                      else Inr (l\<lparr>head := nn\<rparr>, h1)) (\<lambda>(l1, h2).
               bindR (put_prev nn (tail l1) h2) (\<lambda>h3.
               bindR (put_next nn pp h3) (\<lambda>h4. Inr (l1\<lparr>tail := nn\<rparr>, h4))))
          else bindR (get_prev pp h1) (\<lambda>q.
               bindR (if q \<noteq> None then bindR (put_next q nn h1) (\<lambda>h2. Inr (l, h2))
                      else Inr (l\<lparr>head := nn\<rparr>, h1)) (\<lambda>(l1, h2).
               bindR (get_prev pp h2) (\<lambda>q2.
               bindR (put_prev nn q2 h2) (\<lambda>h3.
               bindR (put_next nn pp h3) (\<lambda>h4.
               bindR (put_prev pp nn h4) (\<lambda>h5. Inr (l1, h5))))))))
        (\<lambda>(l2, h6). Inr (nn, inc_count l2, h6))))"

definition LISTNODE_ATTACH :: "list_hdr \<Rightarrow> ptr \<Rightarrow> 'a lheap \<Rightarrow> (list_hdr \<times> 'a lheap) res" where
  "LISTNODE_ATTACH l n h =
     bindR (put_prev n (tail l) h) (\<lambda>h1.
     bindR (put_next n None h1) (\<lambda>h2.
     bindR (if head l = None then Inr (l\<lparr>head := n\<rparr>, h2)
            else bindR (put_next (tail l) n h2) (\<lambda>h3. Inr (l, h3))) (\<lambda>(l1, h3).
       Inr (inc_count (l1\<lparr>tail := n\<rparr>), h3))))"

definition LISTNODE_DETACH :: "list_hdr \<Rightarrow> ptr \<Rightarrow> 'a lheap \<Rightarrow> (list_hdr \<times> 'a lheap) res" where
  "LISTNODE_DETACH l n h =
     bindR (get_prev n h) (\<lambda>p.
     bindR (get_next n h) (\<lambda>q.
     bindR (if p \<noteq> None then bindR (put_next p q h) (\<lambda>h1. Inr (l, h1))
            else Inr (l\<lparr>head := q\<rparr>, h)) (\<lambda>(l1, h1).
     bindR (get_next n h1) (\<lambda>q1.
     bindR (get_prev n h1) (\<lambda>p1.
     bindR (if q1 \<noteq> None then bindR (put_prev q1 p1 h1) (\<lambda>h2. Inr (l1, h2))
            else Inr (l1\<lparr>tail := p1\<rparr>, h1)) (\<lambda>(l2, h2).
       Inr (dec_count l2, h2)))))))"

definition listnode_move_to_tail :: "list_hdr \<Rightarrow> ptr \<Rightarrow> 'a lheap \<Rightarrow> (list_hdr \<times> 'a lheap) res" where
  "listnode_move_to_tail l n h = bindR (LISTNODE_DETACH l n h) (\<lambda>(l1, h1). LISTNODE_ATTACH l1 n h1)"

definition list_delete_node :: "list_hdr \<Rightarrow> ptr \<Rightarrow> 'a lheap \<Rightarrow> (list_hdr \<times> 'a lheap) res" where
  "list_delete_node l n h =
     bindR (get_prev n h) (\<lambda>p.
     bindR (get_next n h) (\<lambda>q.
     bindR (if p \<noteq> None then bindR (put_next p q h) (\<lambda>h1. Inr (l, h1))
            else Inr (l\<lparr>head := q\<rparr>, h)) (\<lambda>(l1, h1).
     bindR (get_next n h1) (\<lambda>q1.
     bindR (get_prev n h1) (\<lambda>p1.
     bindR (if q1 \<noteq> None then bindR (put_prev q1 p1 h1) (\<lambda>h2. Inr (l1, h2))
            else Inr (l1\<lparr>tail := p1\<rparr>, h1)) (\<lambda>(l2, h2).
     bindR (listnode_free n h2) (\<lambda>h3. Inr (dec_count l2, h3))))))))"

text \<open>\<open>listnode_delete\<close>: the body of its loop is that of \<open>list_delete_node\<close>.\<close>

definition listnode_delete :: "list_hdr \<Rightarrow> 'a option \<Rightarrow> 'a lheap \<Rightarrow> (list_hdr \<times> 'a lheap) res option" where
  "listnode_delete l val h =
     (case find_node (\<lambda>d. d = val) h (head l) of None \<Rightarrow> None
      | Some (Inl e) \<Rightarrow> Some (Inl e)
      | Some (Inr None) \<Rightarrow> Some (Inr (l, h))
      | Some (Inr (Some n)) \<Rightarrow> Some (list_delete_node l (Some n) h))"

definition listnode_head :: "list_hdr \<Rightarrow> 'a lheap \<Rightarrow> 'a option res" where
  "listnode_head l h = (if head l \<noteq> None then bindR (deref h (head l)) (\<lambda>a. Inr (dat h a)) else Inr None)"

text \<open>\<open>listgetdata\<close> asserts that the data is not null.\<close>

partial_function (option) lookup_loop :: "'a option \<Rightarrow> 'a lheap \<Rightarrow> ptr \<Rightarrow> ptr res option" where
  "lookup_loop d h p =
     (case p of None \<Rightarrow> Some (Inr None)
      | Some a \<Rightarrow> if \<not> live h a then Some (Inl Mem_fault)
          else if dat h a = None then Some (Inl Assert_failed)
          else if d = dat h a then Some (Inr (Some a)) else lookup_loop d h (nx h a))"

definition listnode_lookup :: "list_hdr \<Rightarrow> 'a option \<Rightarrow> 'a lheap \<Rightarrow> ptr res option" where
  "listnode_lookup l d h = lookup_loop d h (head l)"

text \<open>Deleting all nodes; the data handed to the \<open>del\<close> callback is collected in order.\<close>

partial_function (option) delete_all_loop :: "'a lheap \<Rightarrow> ptr \<Rightarrow> 'a option list \<Rightarrow> ('a lheap \<times> 'a option list) res option" where
  "delete_all_loop h p deleted =
     (case p of None \<Rightarrow> Some (Inr (h, rev deleted))
      | Some a \<Rightarrow> if \<not> live h a then Some (Inl Mem_fault)
          else delete_all_loop (h\<lparr>live := (live h)(a := False)\<rparr>) (nx h a) (dat h a # deleted))"

definition list_delete_all_node :: "list_hdr \<Rightarrow> 'a lheap \<Rightarrow> (list_hdr \<times> 'a lheap \<times> 'a option list) res option" where
  "list_delete_all_node l h =
     (case delete_all_loop h (head l) [] of None \<Rightarrow> None
      | Some r \<Rightarrow> Some (bindR r (\<lambda>(h', deleted).
          Inr (l\<lparr>head := None, tail := None, count := 0\<rparr>, h', deleted))))"

definition list_add_node_prev :: "list_hdr \<Rightarrow> ptr \<Rightarrow> 'a option \<Rightarrow> 'a lheap \<Rightarrow> (list_hdr \<times> 'a lheap) res" where
  "list_add_node_prev l current val h =
     (if val = None then Inl Assert_failed
      else let (node, h0) = listnode_new h in
        bindR (put_next node current h0) (\<lambda>h1.
        bindR (put_data node val h1) (\<lambda>h2.
        bindR (get_prev current h2) (\<lambda>p.
        bindR (if p = None then Inr (l\<lparr>head := node\<rparr>, h2)
               else bindR (put_next p node h2) (\<lambda>h3. Inr (l, h3))) (\<lambda>(l1, h3).
        bindR (get_prev current h3) (\<lambda>p1.
        bindR (put_prev node p1 h3) (\<lambda>h4.
        bindR (put_prev current node h4) (\<lambda>h5. Inr (inc_count l1, h5)))))))))"

definition list_add_node_next :: "list_hdr \<Rightarrow> ptr \<Rightarrow> 'a option \<Rightarrow> 'a lheap \<Rightarrow> (list_hdr \<times> 'a lheap) res" where
  "list_add_node_next l current val h =
     (if val = None then Inl Assert_failed
      else let (node, h0) = listnode_new h in
        bindR (put_prev node current h0) (\<lambda>h1.
        bindR (put_data node val h1) (\<lambda>h2.
        bindR (get_next current h2) (\<lambda>q.
        bindR (if q = None then Inr (l\<lparr>tail := node\<rparr>, h2)
               else bindR (put_prev q node h2) (\<lambda>h3. Inr (l, h3))) (\<lambda>(l1, h3).
        bindR (get_next current h3) (\<lambda>q1.
        bindR (put_next node q1 h3) (\<lambda>h4.
        bindR (put_next current node h4) (\<lambda>h5. Inr (inc_count l1, h5)))))))))"

text \<open>The \<open>next\<close> pointer of the source list is read after the node has been added.\<close>

partial_function (option) add_list_loop :: "list_hdr \<Rightarrow> ptr \<Rightarrow> 'a lheap \<Rightarrow> (list_hdr \<times> 'a lheap) res option" where
  "add_list_loop l n h =
     (case n of None \<Rightarrow> Some (Inr (l, h))
      | Some a \<Rightarrow> if \<not> live h a then Some (Inl Mem_fault)
          else (case listnode_add l (dat h a) h of Inl e \<Rightarrow> Some (Inl e)
                | Inr (l', h') \<Rightarrow> add_list_loop l' (nx h' a) h'))"

definition list_add_list :: "list_hdr \<Rightarrow> list_hdr \<Rightarrow> 'a lheap \<Rightarrow> (list_hdr \<times> 'a lheap) res option" where
  "list_add_list l m h = add_list_loop l (head m) h"

section \<open>Well-formed lists\<close>

definition lwf :: "list_hdr \<Rightarrow> 'a lheap \<Rightarrow> nat list \<Rightarrow> bool" where
  "lwf l h xs \<longleftrightarrow> dlist (nx h) (pv h) (head l) (tail l) xs \<and> (\<forall>x\<in>set xs. live h x) \<and>
     (\<forall>a. live h a \<longrightarrow> a < brk h) \<and> count l = length xs \<and> length xs < 2 ^ 32"

definition list_data :: "'a lheap \<Rightarrow> nat list \<Rightarrow> 'a option list" where
  "list_data h xs = map (dat h) xs"

lemma deref_live [simp]: "live h a \<Longrightarrow> deref h (Some a) = Inr a"
  by (simp add: deref_def)

lemmas node_defs = put_next_def put_prev_def put_data_def get_next_def get_prev_def listnode_new_def

lemma lwf_bounds:
  assumes "lwf l h (xs @ ys)"
  shows "live h x \<Longrightarrow> x \<noteq> brk h"
    and "x \<in> set (xs @ ys) \<Longrightarrow> live h x \<and> x \<noteq> brk h"
    and "final None xs = Some y \<Longrightarrow> live h y \<and> y \<noteq> brk h \<and> y \<notin> set ys"
    and "first ys None = Some y \<Longrightarrow> live h y \<and> y \<noteq> brk h \<and> y \<notin> set xs"
proof -
  have fresh: "live h x \<Longrightarrow> x \<noteq> brk h" for x using assms by (auto simp: lwf_def)
  then show "live h x \<Longrightarrow> x \<noteq> brk h" .
  have mem: "live h x \<and> x \<noteq> brk h" if "x \<in> set (xs @ ys)" for x
    using assms fresh that by (auto simp: lwf_def)
  then show "x \<in> set (xs @ ys) \<Longrightarrow> live h x \<and> x \<noteq> brk h" .
  have d: "distinct (xs @ ys)" using assms by (simp add: lwf_def dlist_def)
  show "live h y \<and> y \<noteq> brk h \<and> y \<notin> set ys" if "final None xs = Some y"
    using mem [of y] d that last_in_set [of xs] by (cases "xs = []") (auto simp: final_eq_last)
  show "live h y \<and> y \<noteq> brk h \<and> y \<notin> set xs" if "first ys None = Some y"
    using mem [of y] d that by (cases ys) auto
qed

text \<open>What every insertion leaves: a fresh node between \<open>xs\<close> and \<open>ys\<close>.\<close>

definition ins_hdr :: "nat list \<Rightarrow> nat list \<Rightarrow> nat \<Rightarrow> list_hdr \<Rightarrow> list_hdr" where
  "ins_hdr xs ys z l =
     \<lparr>head = set_head (final None xs) (Some z) (head l), tail = set_head (first ys None) (Some z) (tail l),
      count = uadd 32 (count l) 1\<rparr>"

definition ins_heap :: "nat list \<Rightarrow> nat list \<Rightarrow> 'a option \<Rightarrow> 'a lheap \<Rightarrow> 'a lheap" where
  "ins_heap xs ys v h =
     \<lparr>nx = set_nxt (final None xs) (Some (brk h)) ((nx h)(brk h := first ys None)),
      pv = set_nxt (first ys None) (Some (brk h)) ((pv h)(brk h := final None xs)),
      dat = (dat h)(brk h := v), live = (live h)(brk h := True), brk = brk h + 1\<rparr>"

lemma ins_wf:
  assumes "lwf l h (xs @ ys)" "length (xs @ ys) + 1 < 2 ^ 32"
  shows "lwf (ins_hdr xs ys (brk h) l) (ins_heap xs ys v h) (xs @ brk h # ys)"
    and "list_data (ins_heap xs ys v h) (xs @ brk h # ys) = list_data h xs @ v # list_data h ys"
proof -
  have fresh: "brk h \<notin> set (xs @ ys)" using lwf_bounds(2) [OF assms(1)] by blast
  have "dlist (nx h) (pv h) (head l) (tail l) (xs @ ys)" using assms(1) by (simp add: lwf_def)
  note d = dlist_insert [OF this fresh]
  show "lwf (ins_hdr xs ys (brk h) l) (ins_heap xs ys v h) (xs @ brk h # ys)"
    using d assms by (auto simp: lwf_def ins_hdr_def ins_heap_def size_arith less_SucI)
  show "list_data (ins_heap xs ys v h) (xs @ brk h # ys) = list_data h xs @ v # list_data h ys"
    using fresh by (auto simp: list_data_def ins_heap_def)
qed

lemma listnode_add_ins:
  assumes "lwf l h xs"
  shows "listnode_add l (Some v) h = Inr (ins_hdr xs [] (brk h) l, ins_heap xs [] (Some v) h)"
proof -
  have t: "tail l = final None xs" "head l = first xs None" using assms by (auto simp: lwf_def dlist_def)
  show ?thesis
  proof (cases "xs = []")
    case True
    then show ?thesis using t
      by (simp add: listnode_add_def node_defs deref_def ins_hdr_def ins_heap_def inc_count_def
          set_head_def set_nxt_def)
  next
    case False
    have "live h (last xs)" "last xs \<noteq> brk h" using lwf_bounds(2) [of l h xs "[]"] assms False by auto
    then show ?thesis using t False
      by (simp add: listnode_add_def node_defs deref_def ins_hdr_def ins_heap_def inc_count_def
          set_head_def set_nxt_def final_eq_last first_eq_hd fun_upd_twist)
  qed
qed

text \<open>
  The other insertions, for the parts \<open>xs\<close> before and \<open>ys\<close> behind the new node.  The proofs
  are by evaluation, distinguishing whether the neighbours exist.
\<close>

lemma link_before_ins:
  assumes "lwf l h (xs @ n # ys)"
  shows "bindR (put_data (Some (brk h)) v (snd (listnode_new h))) (\<lambda>h1. link_before l (Some (brk h)) (Some n) h1)
     = Inr (ins_hdr xs (n # ys) (brk h) l, ins_heap xs (n # ys) v h)"
proof -
  have n: "live h n" "n \<noteq> brk h" using lwf_bounds(2) [OF assms, of n] by auto
  have p: "pv h n = final None xs" using assms by (auto simp: lwf_def dest: dlist_prv)
  show ?thesis
  proof (cases "final None xs")
    case None
    then show ?thesis using n p
      by (simp add: link_before_def node_defs deref_def ins_hdr_def ins_heap_def inc_count_def
          set_head_def set_nxt_def fun_upd_twist)
  next
    case (Some y)
    then have "live h y" "y \<noteq> brk h" "y \<noteq> n" using lwf_bounds(3) [OF assms] by auto
    then show ?thesis using n p Some
      by (simp add: link_before_def node_defs deref_def ins_hdr_def ins_heap_def inc_count_def
          set_head_def set_nxt_def fun_upd_twist)
  qed
qed

lemma link_last_ins:
  assumes "lwf l h xs"
  shows "bindR (put_data (Some (brk h)) v (snd (listnode_new h))) (\<lambda>h1. link_last l (Some (brk h)) h1)
     = Inr (ins_hdr xs [] (brk h) l, ins_heap xs [] v h)"
proof -
  have t: "tail l = final None xs" using assms by (auto simp: lwf_def dlist_def)
  show ?thesis
  proof (cases "final None xs")
    case None
    then show ?thesis using t
      by (simp add: link_last_def node_defs deref_def ins_hdr_def ins_heap_def inc_count_def
          set_head_def set_nxt_def)
  next
    case (Some y)
    then have "live h y" "y \<noteq> brk h" using lwf_bounds(3) [of l h xs "[]"] assms by auto
    then show ?thesis using t Some
      by (simp add: link_last_def node_defs deref_def ins_hdr_def ins_heap_def inc_count_def
          set_head_def set_nxt_def fun_upd_twist)
  qed
qed

lemma listnode_add_after_ins:
  assumes "lwf l h (xs @ ys)"
  shows "listnode_add_after l (final None xs) (Some v) h = Inr (ins_hdr xs ys (brk h) l, ins_heap xs ys (Some v) h)"
proof -
  have ends: "head l = first (xs @ ys) None" "tail l = final None (xs @ ys)"
    using assms by (auto simp: lwf_def dlist_def)
  have ys: "live h y" "y \<noteq> brk h" if "first ys None = Some y" for y using lwf_bounds(4) [OF assms that] by auto
  show ?thesis
  proof (cases "final None xs")
    case None
    then show ?thesis using ends ys
      by (cases "first ys None") (auto simp: listnode_add_after_def node_defs deref_def ins_hdr_def
          ins_heap_def inc_count_def set_head_def set_nxt_def fun_upd_twist Let_def)
  next
    case (Some x)
    then have x: "live h x" "x \<noteq> brk h" using lwf_bounds(3) [OF assms] by auto
    from Some have "xs = butlast xs @ [x]" by (cases xs rule: rev_cases) auto
    then have "nx h x = first ys None" using assms dlist_nxt [of "nx h" "pv h" "head l" "tail l" "butlast xs" x ys]
      by (simp add: lwf_def) (metis append.assoc append_Cons append_Nil)
    then show ?thesis using Some x ends ys
      by (cases "first ys None") (auto simp: listnode_add_after_def node_defs deref_def ins_hdr_def
          ins_heap_def inc_count_def set_head_def set_nxt_def fun_upd_twist)
  qed
qed

lemma listnode_add_before_ins:
  assumes "lwf l h (xs @ ys)"
  shows "listnode_add_before l (first ys None) (Some v) h =
     Inr (Some (brk h), ins_hdr xs ys (brk h) l, ins_heap xs ys (Some v) h)"
proof -
  have ends: "head l = first (xs @ ys) None" "tail l = final None (xs @ ys)"
    using assms by (auto simp: lwf_def dlist_def)
  have xs: "live h x" "x \<noteq> brk h" if "final None xs = Some x" for x using lwf_bounds(3) [OF assms that] by auto
  show ?thesis
  proof (cases ys)
    case Nil
    then show ?thesis using ends xs
      by (cases "final None xs") (auto simp: listnode_add_before_def node_defs deref_def ins_hdr_def
          ins_heap_def inc_count_def set_head_def set_nxt_def fun_upd_twist Let_def)
  next
    case (Cons y zs)
    then have y: "live h y" "y \<noteq> brk h" using lwf_bounds(4) [OF assms] by auto
    have "pv h y = final None xs" using assms Cons by (auto simp: lwf_def dest: dlist_prv)
    then show ?thesis using Cons y ends xs
      by (cases "final None xs") (auto simp: listnode_add_before_def node_defs deref_def ins_hdr_def
          ins_heap_def inc_count_def set_head_def set_nxt_def fun_upd_twist)
  qed
qed

lemma list_add_node_prev_ins:
  assumes "lwf l h (xs @ n # ys)"
  shows "list_add_node_prev l (Some n) (Some v) h = Inr (ins_hdr xs (n # ys) (brk h) l, ins_heap xs (n # ys) (Some v) h)"
proof -
  have n: "live h n" "n \<noteq> brk h" using lwf_bounds(2) [OF assms, of n] by auto
  have p: "pv h n = final None xs" using assms by (auto simp: lwf_def dest: dlist_prv)
  have xs: "live h x" "x \<noteq> brk h" if "final None xs = Some x" for x using lwf_bounds(3) [OF assms that] by auto
  show ?thesis using n p xs
    by (cases "final None xs") (auto simp: list_add_node_prev_def node_defs deref_def ins_hdr_def
        ins_heap_def inc_count_def set_head_def set_nxt_def fun_upd_twist)
qed

lemma list_add_node_next_ins:
  assumes "lwf l h (xs @ n # ys)"
  shows "list_add_node_next l (Some n) (Some v) h =
     Inr (ins_hdr (xs @ [n]) ys (brk h) l, ins_heap (xs @ [n]) ys (Some v) h)"
proof -
  have n: "live h n" "n \<noteq> brk h" using lwf_bounds(2) [OF assms, of n] by auto
  have p: "nx h n = first ys None" using assms by (auto simp: lwf_def dest: dlist_nxt)
  have ys: "live h y" "y \<noteq> brk h" "y \<noteq> n" if "first ys None = Some y" for y
    using lwf_bounds(4) [of l h "xs @ [n]" ys y] assms that by auto
  show ?thesis using n p ys
    by (cases "first ys None") (auto simp: list_add_node_next_def node_defs deref_def ins_hdr_def
        ins_heap_def inc_count_def set_head_def set_nxt_def fun_upd_twist)
qed

section \<open>Deleting\<close>

lemma list_delete_node_ok:
  assumes wf: "lwf l h (xs @ z # ys)"
  shows "\<exists>l' h'. list_delete_node l (Some z) h = Inr (l', h') \<and> lwf l' h' (xs @ ys) \<and>
     dat h' = dat h \<and> live h' = (live h)(z := False)"
proof -
  have d: "dlist (nx h) (pv h) (head l) (tail l) (xs @ z # ys)" using wf by (simp add: lwf_def)
  note del = dlist_delete [OF d]
  have z: "live h z" "z \<notin> set xs" "z \<notin> set ys" using wf by (auto simp: lwf_def dlist_def)
  have nb: "live h y" "y \<noteq> z" if "pv h z = Some y \<or> nx h z = Some y" for y
    using that del(2,3) lwf_bounds(3,4) [of l h xs "z # ys"] lwf_bounds(4) [of l h "xs @ [z]" ys] wf by auto
  have cnt: "usub 32 (count l) 1 = length (xs @ ys)" using wf by (simp add: lwf_def size_arith)
  let ?l = "\<lparr>head = set_head (pv h z) (nx h z) (head l), tail = set_head (nx h z) (pv h z) (tail l),
      count = length (xs @ ys)\<rparr>"
  let ?h = "h\<lparr>nx := set_nxt (pv h z) (nx h z) (nx h), pv := set_nxt (nx h z) (pv h z) (pv h),
      live := (live h)(z := False)\<rparr>"
  have "list_delete_node l (Some z) h = Inr (?l, ?h)"
    using z nb cnt
    by (cases "pv h z"; cases "nx h z")
      (auto simp: list_delete_node_def node_defs listnode_free_def dec_count_def set_head_def set_nxt_def)
  moreover have "lwf ?l ?h (xs @ ys)" using del(1) wf z by (auto simp: lwf_def)
  ultimately show ?thesis by auto
qed

lemma detach_attach_ok:
  assumes wf: "lwf l h (xs @ z # ys)"
  shows "\<exists>l' h'. listnode_move_to_tail l (Some z) h = Inr (l', h') \<and> lwf l' h' (xs @ ys @ [z]) \<and>
     dat h' = dat h \<and> live h' = live h"
proof -
  have d: "dlist (nx h) (pv h) (head l) (tail l) (xs @ z # ys)" using wf by (simp add: lwf_def)
  note del = dlist_delete [OF d]
  have z: "live h z" "z \<notin> set xs" "z \<notin> set ys" using wf by (auto simp: lwf_def dlist_def)
  have nb: "live h y" "y \<noteq> z" if "pv h z = Some y \<or> nx h z = Some y" for y
    using that del(2,3) lwf_bounds(3,4) [of l h xs "z # ys"] lwf_bounds(4) [of l h "xs @ [z]" ys] wf by auto
  have cnt: "usub 32 (count l) 1 = length (xs @ ys)" "uadd 32 (length (xs @ ys)) 1 = length (xs @ z # ys)"
    using wf by (simp_all add: lwf_def size_arith)
  let ?l = "\<lparr>head = set_head (pv h z) (nx h z) (head l), tail = set_head (nx h z) (pv h z) (tail l),
      count = length (xs @ ys)\<rparr>"
  let ?h = "h\<lparr>nx := set_nxt (pv h z) (nx h z) (nx h), pv := set_nxt (nx h z) (pv h z) (pv h)\<rparr>"
  have det: "LISTNODE_DETACH l (Some z) h = Inr (?l, ?h)"
    using z nb cnt
    by (cases "pv h z"; cases "nx h z")
      (auto simp: LISTNODE_DETACH_def node_defs dec_count_def set_head_def set_nxt_def)
  have dl: "dlist (nx ?h) (pv ?h) (head ?l) (tail ?l) (xs @ ys)" using del(1) by simp
  then have ends: "head ?l = first (xs @ ys) None" "tail ?l = final None (xs @ ys)" by (auto simp: dlist_def)
  note ins = dlist_insert [of _ _ _ _ "xs @ ys" "[]" z, simplified append_Nil2, OF dl]
  let ?l2 = "\<lparr>head = set_head (final None (xs @ ys)) (Some z) (head ?l), tail = Some z, count = length (xs @ z # ys)\<rparr>"
  let ?h2 = "?h\<lparr>nx := set_nxt (final None (xs @ ys)) (Some z) ((nx ?h)(z := None)),
      pv := (pv ?h)(z := final None (xs @ ys))\<rparr>"
  have att: "LISTNODE_ATTACH ?l (Some z) ?h = Inr (?l2, ?h2)"
  proof (cases "xs @ ys = []")
    case True
    then show ?thesis using ends cnt z
      by (simp add: LISTNODE_ATTACH_def node_defs inc_count_def set_head_def set_nxt_def)
  next
    case False
    then have "last (xs @ ys) \<in> set (xs @ ys)" by (rule last_in_set)
    then have "live h (last (xs @ ys))" "last (xs @ ys) \<noteq> z" using wf z by (auto simp: lwf_def)
    then show ?thesis using ends cnt z False
      by (simp add: LISTNODE_ATTACH_def node_defs inc_count_def set_head_def set_nxt_def final_eq_last
          first_eq_hd del: append_is_Nil_conv first_append final_append)
  qed
  have "lwf ?l2 ?h2 (xs @ ys @ [z])"
    using ins z wf by (auto simp: lwf_def set_nxt_def set_head_def)
  with det att show ?thesis by (auto simp: listnode_move_to_tail_def)
qed

section \<open>Searching\<close>

lemma find_node_seg:
  assumes "dseg (nx h) (pv h) p ys None" "\<forall>x\<in>set ys. live h x"
  shows "find_node P h (first ys None) = Some (Inr (List.find (\<lambda>x. P (dat h x)) ys))"
  using assms
proof (induction ys arbitrary: p)
  case (Cons y ys)
  then show ?case by (subst find_node.simps) auto
qed (simp add: find_node.simps)

lemma find_node_list:
  "lwf l h xs \<Longrightarrow> find_node P h (head l) = Some (Inr (List.find (\<lambda>x. P (dat h x)) xs))"
  using find_node_seg [of h None xs P] by (auto simp: lwf_def dlist_def)

lemma lookup_loop_find:
  assumes "\<forall>x\<in>set ys. dat h x \<noteq> None" "dseg (nx h) (pv h) p ys None" "\<forall>x\<in>set ys. live h x"
  shows "lookup_loop d h (first ys None) = Some (Inr (List.find (\<lambda>x. d = dat h x) ys))"
  using assms
proof (induction ys arbitrary: p)
  case (Cons y ys)
  then show ?case by (subst lookup_loop.simps) auto
qed (simp add: lookup_loop.simps)

text \<open>The list at \<open>l\<close> stands for the sequence \<open>ds\<close> of its data.\<close>

definition lrep :: "list_hdr \<times> 'a lheap \<Rightarrow> 'a list \<Rightarrow> bool" where
  "lrep s ds \<longleftrightarrow> (\<exists>xs. lwf (fst s) (snd s) xs \<and> list_data (snd s) xs = map Some ds)"

lemma list_data_append [simp]: "list_data h (xs @ ys) = list_data h xs @ list_data h ys"
  by (simp add: list_data_def)

lemma list_data_Nil [simp]: "list_data h [] = []"
  by (simp add: list_data_def)

lemma list_data_Cons [simp]: "list_data h (x # xs) = dat h x # list_data h xs"
  by (simp add: list_data_def)

lemma list_data_mem:
  assumes "map Some ds = list_data h xs" "d \<in> set ds"
  shows "\<exists>x\<in>set xs. dat h x = Some d"
proof -
  have "Some d \<in> set (map Some ds)" using assms(2) by simp
  then show ?thesis unfolding assms(1) list_data_def by auto
qed

lemma lrep_length: "lrep s ds \<Longrightarrow> length ds < 2 ^ 32 \<and> count (fst s) = length ds"
  by (auto simp: lrep_def lwf_def list_data_def) (metis length_map)+

lemma listnode_add_rep:
  assumes "lrep (l, h) ds" "length ds + 1 < 2 ^ 32"
  shows "\<exists>s'. listnode_add l (Some v) h = Inr s' \<and> lrep s' (ds @ [v])"
proof -
  obtain xs where xs: "lwf l h xs" "list_data h xs = map Some ds" using assms(1) by (auto simp: lrep_def)
  have "length xs = length ds" using xs(2) by (metis length_map list_data_def)
  then have "lwf (ins_hdr xs [] (brk h) l) (ins_heap xs [] (Some v) h) (xs @ [brk h])"
    "list_data (ins_heap xs [] (Some v) h) (xs @ [brk h]) = map Some (ds @ [v])"
    using ins_wf [of l h xs "[]" "Some v"] xs assms(2) by simp_all
  then show ?thesis using listnode_add_ins [OF xs(1)] by (auto simp: lrep_def)
qed

lemma find_split:
  "List.find P xs = Some x \<longleftrightarrow> (\<exists>ys zs. xs = ys @ x # zs \<and> P x \<and> (\<forall>y\<in>set ys. \<not> P y))"
proof (induction xs)
  case (Cons a xs)
  show ?case
  proof (cases "P a")
    case True
    then show ?thesis by (auto simp: Cons_eq_append_conv)
  next
    case False
    then show ?thesis using Cons by (auto simp: Cons_eq_append_conv) (metis append_Cons set_ConsD)
  qed
qed simp

lemma listnode_delete_rep:
  assumes "lrep (l, h) ds"
  shows "\<exists>s'. listnode_delete l (Some v) h = Some (Inr s') \<and> lrep s' (remove1 v ds)"
proof -
  obtain xs where xs: "lwf l h xs" "list_data h xs = map Some ds" using assms(1) by (auto simp: lrep_def)
  show ?thesis
  proof (cases "List.find (\<lambda>x. dat h x = Some v) xs")
    case None
    then have "Some v \<notin> set (list_data h xs)" by (auto simp: find_None_iff list_data_def)
    then have "v \<notin> set ds" using xs(2) by auto
    with None assms show ?thesis
      by (simp add: listnode_delete_def find_node_list [OF xs(1)] remove1_idem)
  next
    case (Some z)
    then obtain ys zs where sp: "xs = ys @ z # zs" "dat h z = Some v" "\<forall>y\<in>set ys. dat h y \<noteq> Some v"
      by (auto simp: find_split)
    obtain l' h' where del: "list_delete_node l (Some z) h = Inr (l', h')" "lwf l' h' (ys @ zs)" "dat h' = dat h"
      using list_delete_node_ok [of l h ys z zs] xs(1) sp(1) by blast
    have "map Some ds = list_data h ys @ Some v # list_data h zs" using xs(2) sp by simp
    then obtain d1 d2 where ds: "ds = d1 @ v # d2" "map Some d1 = list_data h ys" "map Some d2 = list_data h zs"
      by (auto simp: map_eq_append_conv map_eq_Cons_conv)
    have "v \<notin> set d1"
    proof
      assume "v \<in> set d1"
      then show False using list_data_mem [OF ds(2)] sp(3) by blast
    qed
    then have "remove1 v ds = d1 @ d2" using ds(1) by (simp add: remove1_append)
    moreover have "list_data h' (ys @ zs) = map Some (d1 @ d2)"
      using ds del(3) by (simp add: list_data_def)
    ultimately show ?thesis
      using del Some by (auto simp: listnode_delete_def find_node_list [OF xs(1)] lrep_def)
  qed
qed

interpretation linklist: seq_ops lrep "\<lambda>ds _. length ds + 1 < 2 ^ 32" "\<lambda>_ _. True"
  "\<lambda>v (l, h). Some (listnode_add l (Some v) h)" "\<lambda>v (l, h). listnode_delete l (Some v) h"
proof (unfold_locales, goal_cases)
  case (1 s ds v)
  then show ?case using listnode_add_rep [of "fst s" "snd s" ds v] by (cases s) auto
next
  case (2 s ds v)
  then show ?case using listnode_delete_rep [of "fst s" "snd s" ds v] by (cases s) auto
qed

text \<open>Sorted insertion goes before the first element that compares greater.\<close>

lemma listnode_add_sort_rep:
  assumes rep: "lrep (l, h) ds" and len: "length ds + 1 < 2 ^ 32"
  shows "\<exists>s' d1 d2. listnode_add_sort (Some c) l (Some v) h = Some (Inr s') \<and> ds = d1 @ d2 \<and>
     lrep s' (d1 @ v # d2) \<and> (\<forall>x\<in>set d1. \<not> c (Some v) (Some x) < 0) \<and>
     (d2 \<noteq> [] \<longrightarrow> c (Some v) (Some (hd d2)) < 0)"
proof -
  obtain xs where xs: "lwf l h xs" "list_data h xs = map Some ds" using rep by (auto simp: lrep_def)
  have len: "length xs + 1 < 2 ^ 32" using xs(2) len by (metis length_map list_data_def)
  obtain h1 where h1: "put_data (Some (brk h)) (Some v) (snd (listnode_new h)) = Inr h1"
    by (simp add: node_defs deref_def)
  have fresh: "brk h \<notin> set xs" using lwf_bounds(2) [of l h xs "[]"] xs(1) by auto
  have same: "nx h1 x = nx h x" "pv h1 x = pv h x" "dat h1 x = dat h x" "live h1 x = live h x" if "x \<in> set xs" for x
    using h1 that fresh by (auto simp: node_defs deref_def split: if_splits)
  let ?P = "\<lambda>d. c (Some v) d < 0"
  have "dseg (nx h1) (pv h1) None xs None"
    using xs(1) same dseg_cong [of xs "nx h1" "nx h" "pv h1" "pv h"] by (auto simp: lwf_def dlist_def)
  then have "find_node ?P h1 (first xs None) = Some (Inr (List.find (\<lambda>x. ?P (dat h1 x)) xs))"
    using find_node_seg [of h1 None xs ?P] same xs(1) by (auto simp: lwf_def)
  moreover have "List.find (\<lambda>x. ?P (dat h1 x)) xs = List.find (\<lambda>x. ?P (dat h x)) xs"
    using same by (intro find_cong) auto
  moreover have "head l = first xs None" using xs(1) by (simp add: lwf_def dlist_def)
  ultimately have find: "find_node ?P h1 (head l) = Some (Inr (List.find (\<lambda>x. ?P (dat h x)) xs))" by simp
  have new: "listnode_new h = (Some (brk h), snd (listnode_new h))" by (simp add: listnode_new_def)
  have sort: "listnode_add_sort (Some c) l (Some v) h =
      (case List.find (\<lambda>x. ?P (dat h x)) xs of None \<Rightarrow> Some (link_last l (Some (brk h)) h1)
       | Some n \<Rightarrow> Some (link_before l (Some (brk h)) (Some n) h1))"
    unfolding listnode_add_sort_def by (subst new) (simp add: h1 find split: option.split)
  show ?thesis
  proof (cases "List.find (\<lambda>x. ?P (dat h x)) xs")
    case None
    then have "\<forall>d\<in>set ds. \<not> ?P (Some d)"
      using list_data_mem [OF xs(2) [symmetric]] by (fastforce simp: find_None_iff)
    moreover have "listnode_add_sort (Some c) l (Some v) h
        = Some (Inr (ins_hdr xs [] (brk h) l, ins_heap xs [] (Some v) h))"
      using sort None link_last_ins [OF xs(1), of "Some v"] h1 by simp
    moreover have "lrep (ins_hdr xs [] (brk h) l, ins_heap xs [] (Some v) h) (ds @ [v])"
      using ins_wf [of l h xs "[]" "Some v"] xs len by (auto simp: lrep_def)
    ultimately show ?thesis by (intro exI [of _ "ds"] exI [of _ "[]"] exI conjI) simp_all
  next
    case (Some n)
    then obtain ys zs where sp: "xs = ys @ n # zs" "?P (dat h n)" "\<forall>y\<in>set ys. \<not> ?P (dat h y)"
      by (auto simp: find_split)
    have "map Some ds = list_data h ys @ list_data h (n # zs)" using xs(2) sp(1) by simp
    then obtain d1 d2 where ds: "ds = d1 @ d2" "map Some d1 = list_data h ys" "map Some d2 = list_data h (n # zs)"
      by (metis map_eq_append_conv)
    have "listnode_add_sort (Some c) l (Some v) h
        = Some (Inr (ins_hdr ys (n # zs) (brk h) l, ins_heap ys (n # zs) (Some v) h))"
      using sort Some link_before_ins [of l h ys n zs "Some v"] h1 xs(1) sp(1) by simp
    moreover have "lrep (ins_hdr ys (n # zs) (brk h) l, ins_heap ys (n # zs) (Some v) h) (d1 @ v # d2)"
      using ins_wf [of l h ys "n # zs" "Some v"] xs sp(1) len ds by (auto simp: lrep_def simp del: list_data_append list_data_Cons)
    moreover have "\<forall>d\<in>set d1. \<not> ?P (Some d)"
      using list_data_mem [OF ds(2)] sp(3) by fastforce
    moreover have "d2 \<noteq> []" "?P (Some (hd d2))" using ds(3) sp(2) by (cases d2; simp)+
    ultimately show ?thesis using ds(1) by blast
  qed
qed

definition empty_heap :: "'a lheap" where
  "empty_heap = \<lparr>nx = \<lambda>_. None, pv = \<lambda>_. None, dat = \<lambda>_. None, live = \<lambda>_. False, brk = 0\<rparr>"

lemma list_new_rep: "lrep (list_new, empty_heap) []"
  by (auto simp: lrep_def lwf_def list_new_def empty_heap_def)

lemma listnode_head_rep: "lrep (l, h) ds \<Longrightarrow> listnode_head l h = Inr (first ds None)"
proof -
  assume "lrep (l, h) ds"
  then obtain xs where xs: "lwf l h xs" "list_data h xs = map Some ds" by (auto simp: lrep_def)
  then have hd: "head l = first xs None" by (simp add: lwf_def dlist_def)
  show ?thesis
  proof (cases xs)
    case Nil
    then show ?thesis using xs(2) hd by (simp add: listnode_head_def)
  next
    case (Cons x ys)
    then have "live h x" using xs(1) by (simp add: lwf_def)
    then show ?thesis using xs(2) hd Cons by (cases ds) (auto simp: listnode_head_def)
  qed
qed

text \<open>
  C9: linked lists implement sequences.  From \<open>list_new\<close>, every sequence of
  \<open>listnode_add\<close> and \<open>listnode_delete\<close> (of non-null data, fewer than \<open>2 ^ 32\<close> elements) ends
  without touching a released or null node, in a list whose count, first element and
  contents are those of the sequence with the elements appended and first occurrences removed.
\<close>

theorem linklist_refines_sequence:
  assumes "seq_ok (\<lambda>ds _. length ds + 1 < 2 ^ 32) (\<lambda>_ _. True) ops []"
  shows "\<exists>l h. run_seq_ops (\<lambda>v (l, h). Some (listnode_add l (Some v) h)) (\<lambda>v (l, h). listnode_delete l (Some v) h)
       ops (list_new, empty_heap) = Some (Inr (l, h)) \<and> lrep (l, h) (seq_spec ops []) \<and>
     count l = length (seq_spec ops []) \<and> listnode_head l h = Inr (first (seq_spec ops []) None)"
proof -
  obtain s where s: "run_seq_ops (\<lambda>v (l, h). Some (listnode_add l (Some v) h)) (\<lambda>v (l, h). listnode_delete l (Some v) h)
       ops (list_new, empty_heap) = Some (Inr s)" "lrep s (seq_spec ops [])"
    using linklist.seq_refines [OF list_new_rep assms] by blast
  then show ?thesis
    using lrep_length [OF s(2)] listnode_head_rep [of "fst s" "snd s"] by (cases s) auto
qed

theorem linklist_refines_sequence_witness:
  "\<exists>l h. run_seq_ops (\<lambda>v (l, h). Some (listnode_add l (Some v) h)) (\<lambda>v (l, h). listnode_delete l (Some v) h)
       [Append CHR ''a'', Append CHR ''b'', Remove CHR ''a''] (list_new, empty_heap) = Some (Inr (l, h)) \<and>
     count l = 1 \<and> listnode_head l h = Inr (Some CHR ''b'')"
  using linklist_refines_sequence [of "[Append CHR ''a'', Append CHR ''b'', Remove CHR ''a'']"]
  by simp blast

text \<open>
  Insertion at a position.  In a list whose nodes are \<open>xs @ ys\<close>, adding after the last
  node of \<open>xs\<close> and adding before the first node of \<open>ys\<close> (a null pointer standing for an end
  of the list) both put the new data between the two parts, and both links of every
  neighbour agree with the new order.
\<close>

lemma listnode_add_between:
  assumes "lwf l h (xs @ ys)" "length (xs @ ys) + 1 < 2 ^ 32"
  shows "\<exists>l' h'. listnode_add_after l (final None xs) (Some v) h = Inr (l', h') \<and>
     listnode_add_before l (first ys None) (Some v) h = Inr (Some (brk h), l', h') \<and>
     lwf l' h' (xs @ brk h # ys) \<and> list_data h' (xs @ brk h # ys) = list_data h xs @ Some v # list_data h ys"
  using ins_wf [OF assms, of "Some v"] listnode_add_after_ins [OF assms(1)] listnode_add_before_ins [OF assms(1)]
  by blast

section \<open>Releasing and copying lists\<close>

lemma delete_all_seg:
  assumes "dseg (nx h) (pv h) p ys None" "\<forall>x\<in>set ys. live h x" "distinct ys"
  shows "delete_all_loop h (first ys None) acc =
     Some (Inr (h\<lparr>live := \<lambda>a. live h a \<and> a \<notin> set ys\<rparr>, rev acc @ list_data h ys))"
  using assms
proof (induction ys arbitrary: p h acc)
  case (Cons y ys)
  let ?h = "h\<lparr>live := (live h)(y := False)\<rparr>"
  have "delete_all_loop h (first (y # ys) None) acc = delete_all_loop ?h (first ys None) (dat h y # acc)"
    using Cons.prems by (subst delete_all_loop.simps) simp
  also have "\<dots> = Some (Inr (?h\<lparr>live := \<lambda>a. live ?h a \<and> a \<notin> set ys\<rparr>, rev (dat h y # acc) @ list_data ?h ys))"
    by (rule Cons.IH) (use Cons.prems in auto)
  also have "list_data ?h ys = list_data h ys" by (simp add: list_data_def)
  also have "?h\<lparr>live := \<lambda>a. live ?h a \<and> a \<notin> set ys\<rparr> = h\<lparr>live := \<lambda>a. live h a \<and> a \<notin> set (y # ys)\<rparr>"
    by (auto simp: fun_eq_iff intro!: lheap.equality)
  finally show ?case by simp
qed (simp add: delete_all_loop.simps)

text \<open>
  \<open>list_delete_all_node\<close> ends, hands every element to the \<open>del\<close> callback exactly once
  and in order, releases exactly the nodes of the list and leaves it empty.
\<close>

lemma list_delete_all_node_frees:
  assumes "lwf l h xs"
  shows "\<exists>l' h'. list_delete_all_node l h = Some (Inr (l', h', list_data h xs)) \<and> lwf l' h' [] \<and>
     (\<forall>a. live h' a \<longleftrightarrow> live h a \<and> a \<notin> set xs)"
proof -
  have "delete_all_loop h (head l) [] = Some (Inr (h\<lparr>live := \<lambda>a. live h a \<and> a \<notin> set xs\<rparr>, list_data h xs))"
    using delete_all_seg [of h None xs "[]"] assms by (simp add: lwf_def dlist_def)
  then show ?thesis
    using assms by (auto simp: list_delete_all_node_def lwf_def)
qed

lemma ins_heap_frame:
  assumes "lwf l h xs" "y \<notin> set xs" "y \<noteq> brk h"
  shows "nx (ins_heap xs [] v h) y = nx h y" "pv (ins_heap xs [] v h) y = pv h y"
    "dat (ins_heap xs [] v h) y = dat h y" "live (ins_heap xs [] v h) y = live h y"
  using assms final_not_in [of xs "[y]"]
  by (auto simp: ins_heap_def set_nxt_def split: option.split)

lemma add_list_loop_copies:
  assumes "lwf l h xs" "dseg (nx h) (pv h) p ys None" "\<forall>y\<in>set ys. live h y" "set xs \<inter> set ys = {}"
    and "list_data h ys = map Some ds" "length xs + length ys < 2 ^ 32"
  shows "\<exists>l' h' zs. add_list_loop l (first ys None) h = Some (Inr (l', h')) \<and> lwf l' h' (xs @ zs) \<and>
     list_data h' (xs @ zs) = list_data h xs @ map Some ds \<and>
     (\<forall>x. x \<notin> set xs \<and> live h x \<longrightarrow> nx h' x = nx h x \<and> pv h' x = pv h x \<and> dat h' x = dat h x \<and> live h' x)"
  using assms
proof (induction ys arbitrary: l h xs p ds)
  case Nil
  then show ?case by (intro exI [of _ l] exI [of _ h] exI [of _ "[]"]) (simp add: add_list_loop.simps)
next
  case (Cons y ys)
  then obtain d ds' where ds: "ds = d # ds'" "dat h y = Some d" "list_data h ys = map Some ds'"
    by (cases ds) auto
  let ?l = "ins_hdr xs [] (brk h) l" and ?h = "ins_heap xs [] (Some d) h" and ?xs = "xs @ [brk h]"
  have fresh: "brk h \<notin> set (y # ys)" using Cons.prems(1,3) by (auto simp: lwf_def)
  have frame: "nx ?h x = nx h x" "pv ?h x = pv h x" "dat ?h x = dat h x" "live ?h x = live h x"
    if "x \<in> set (y # ys)" for x
    using ins_heap_frame [OF Cons.prems(1), of x "Some d"] that Cons.prems(4) fresh by auto
  have wf: "lwf ?l ?h ?xs" "list_data ?h ?xs = list_data h xs @ [Some d]"
    using ins_wf [of l h xs "[]" "Some d"] Cons.prems(1,6) by simp_all
  have seg: "dseg (nx ?h) (pv ?h) (Some y) ys None"
    using Cons.prems(2) frame dseg_cong [of ys "nx ?h" "nx h" "pv ?h" "pv h" "Some y" None] by simp
  have data: "list_data ?h ys = map Some ds'" using ds(3) frame by (simp add: list_data_def cong: map_cong)
  obtain l' h' zs where r: "add_list_loop ?l (first ys None) ?h = Some (Inr (l', h'))" "lwf l' h' (?xs @ zs)"
    "list_data h' (?xs @ zs) = list_data ?h ?xs @ map Some ds'"
    "\<forall>x. x \<notin> set ?xs \<and> live ?h x \<longrightarrow> nx h' x = nx ?h x \<and> pv h' x = pv ?h x \<and> dat h' x = dat ?h x \<and> live h' x"
    using Cons.IH [OF wf(1) seg _ _ data] Cons.prems fresh frame by auto
  have "add_list_loop l (first (y # ys) None) h = add_list_loop ?l (nx ?h y) ?h"
    using listnode_add_ins [OF Cons.prems(1)] ds Cons.prems(3) by (subst add_list_loop.simps) simp
  also have "nx ?h y = first ys None" using frame(1) [of y] Cons.prems(2) by simp
  finally have loop: "add_list_loop l (first (y # ys) None) h = Some (Inr (l', h'))" using r(1) by simp
  have keep: "nx h' x = nx h x \<and> pv h' x = pv h x \<and> dat h' x = dat h x \<and> live h' x"
    if "x \<notin> set xs" "live h x" for x
  proof -
    have "x \<noteq> brk h" using that(2) Cons.prems(1) by (auto simp: lwf_def)
    then show ?thesis using ins_heap_frame [OF Cons.prems(1) that(1), of "Some d"] r(4) that by auto
  qed
  from loop keep r(2,3) wf(2) ds show ?case
    by (intro exI [of _ l'] exI [of _ h'] exI [of _ "brk h # zs"]) simp
qed

text \<open>
  \<open>list_add_list\<close> copies.  For two lists that share no node, it ends, the first list then
  holds its own data followed by that of the second, and the second list is unchanged.
\<close>

lemma list_add_list_copies:
  assumes "lwf l h xs" "lwf m h ys" "set xs \<inter> set ys = {}"
    and "list_data h ys = map Some ds" "length xs + length ys < 2 ^ 32"
  shows "\<exists>l' h' zs. list_add_list l m h = Some (Inr (l', h')) \<and> lwf l' h' (xs @ zs) \<and>
     list_data h' (xs @ zs) = list_data h xs @ map Some ds \<and>
     lwf m h' ys \<and> list_data h' ys = map Some ds"
proof -
  have m: "dseg (nx h) (pv h) None ys None" "\<forall>y\<in>set ys. live h y" "head m = first ys None"
    using assms(2) by (auto simp: lwf_def dlist_def)
  obtain l' h' zs where r: "add_list_loop l (first ys None) h = Some (Inr (l', h'))" "lwf l' h' (xs @ zs)"
    "list_data h' (xs @ zs) = list_data h xs @ map Some ds"
    "\<forall>x. x \<notin> set xs \<and> live h x \<longrightarrow> nx h' x = nx h x \<and> pv h' x = pv h x \<and> dat h' x = dat h x \<and> live h' x"
    using add_list_loop_copies [OF assms(1) m(1,2) assms(3,4,5)] by blast
  have same: "nx h' y = nx h y" "pv h' y = pv h y" "dat h' y = dat h y" "live h' y" if "y \<in> set ys" for y
    using r(4) m(2) assms(3) that by auto
  have "dlist (nx h') (pv h') (head m) (tail m) ys"
    using assms(2) same dlist_cong [of ys "nx h'" "nx h" "pv h'" "pv h"] by (simp add: lwf_def)
  then have "lwf m h' ys" using assms(2) r(2) same by (auto simp: lwf_def)
  moreover have "list_data h' ys = map Some ds" using assms(4) same by (simp add: list_data_def cong: map_cong)
  ultimately show ?thesis using r(1-3) m(3) by (auto simp: list_add_list_def)
qed

end
