(* ===== verification/Keychain.thy ===== *)
theory Keychain
  imports Linklist
begin

text \<open>
  lib/keychain.c: the keys of a key chain, a list sorted by key number.  Keys live in a store
  of their own and the list holds pointers to them; \<open>now\<close> is the value of \<open>time (NULL)\<close>.
\<close>

section \<open>Keys\<close>

record key_range =
  kr_start :: int
  kr_end :: int

record key =
  kindex :: u32
  kstring :: "string option"
  send :: key_range
  accept :: key_range

record keychain =
  keys :: "nat \<Rightarrow> key"
  kbrk :: nat
  klist :: list_hdr
  kheap :: "nat lheap"

definition key_cmp_func :: "key \<Rightarrow> key \<Rightarrow> int" where
  "key_cmp_func k1 k2 = (if kindex k1 > kindex k2 then 1 else if kindex k1 < kindex k2 then -1 else 0)"

text \<open>The comparison callback of the list, on pointers to keys.\<close>

definition key_ptr_cmp :: "(nat \<Rightarrow> key) \<Rightarrow> nat option \<Rightarrow> nat option \<Rightarrow> int" where
  "key_ptr_cmp ks p q = (case (p, q) of (Some a, Some b) \<Rightarrow> key_cmp_func (ks a) (ks b) | _ \<Rightarrow> 0)"

text \<open>
  The loop \<open>ALL_LIST_ELEMENTS_RO\<close> with a body that returns the first key passing a test; the
  test itself may fault.
\<close>

partial_function (option) key_loop :: "(nat \<Rightarrow> bool res) \<Rightarrow> nat lheap \<Rightarrow> ptr \<Rightarrow> nat option res option" where
  "key_loop T h p =
     (case p of None \<Rightarrow> Some (Inr None)
      | Some a \<Rightarrow> if \<not> live h a then Some (Inl Mem_fault)
          else (case dat h a of None \<Rightarrow> Some (Inl Assert_failed)
                | Some k \<Rightarrow> (case T k of Inl e \<Rightarrow> Some (Inl e)
                    | Inr found \<Rightarrow> if found then Some (Inr (Some k)) else key_loop T h (nx h a))))"

definition key_lookup :: "keychain \<Rightarrow> u32 \<Rightarrow> nat option res option" where
  "key_lookup kc i = key_loop (\<lambda>k. Inr (kindex (keys kc k) = i)) (kheap kc) (head (klist kc))"

definition in_range :: "key_range \<Rightarrow> int \<Rightarrow> bool" where
  "in_range r now \<longleftrightarrow> kr_start r = 0 \<or> (kr_start r \<le> now \<and> (kr_end r \<ge> now \<or> kr_end r = -1))"

definition key_lookup_for_accept :: "int \<Rightarrow> keychain \<Rightarrow> u32 \<Rightarrow> nat option res option" where
  "key_lookup_for_accept now kc i =
     key_loop (\<lambda>k. Inr (kindex (keys kc k) \<ge> i \<and> in_range (accept (keys kc k)) now)) (kheap kc) (head (klist kc))"

text \<open>\<open>strncmp\<close> reads the string of the key; a key configured without one has a null pointer.\<close>

definition strncmp16 :: "string option \<Rightarrow> string \<Rightarrow> bool res" where
  "strncmp16 s t = (case s of None \<Rightarrow> Inl Mem_fault | Some u \<Rightarrow> Inr (take 16 u = take 16 t))"

definition key_match_for_accept :: "int \<Rightarrow> keychain \<Rightarrow> string \<Rightarrow> nat option res option" where
  "key_match_for_accept now kc auth_str =
     key_loop (\<lambda>k. if in_range (accept (keys kc k)) now then strncmp16 (kstring (keys kc k)) auth_str else Inr False)
       (kheap kc) (head (klist kc))"

definition key_lookup_for_send :: "int \<Rightarrow> keychain \<Rightarrow> nat option res option" where
  "key_lookup_for_send now kc = key_loop (\<lambda>k. Inr (in_range (send (keys kc k)) now)) (kheap kc) (head (klist kc))"

text \<open>A new key is zeroed memory: no string, and both lifetimes with start 0 (always valid).\<close>

definition key_new :: "keychain \<Rightarrow> nat \<times> keychain" where
  "key_new kc =
     (kbrk kc, kc\<lparr>keys := (keys kc)(kbrk kc :=
        \<lparr>kindex = 0, kstring = None, send = \<lparr>kr_start = 0, kr_end = 0\<rparr>, accept = \<lparr>kr_start = 0, kr_end = 0\<rparr>\<rparr>),
      kbrk := kbrk kc + 1\<rparr>)"

definition key_get :: "keychain \<Rightarrow> u32 \<Rightarrow> (nat \<times> keychain) res option" where
  "key_get kc i =
     (case key_lookup kc i of None \<Rightarrow> None
      | Some (Inl e) \<Rightarrow> Some (Inl e)
      | Some (Inr (Some k)) \<Rightarrow> Some (Inr (k, kc))
      | Some (Inr None) \<Rightarrow>
          let (k, kc1) = key_new kc;
              kc2 = kc1\<lparr>keys := (keys kc1)(k := (keys kc1 k)\<lparr>kindex := i\<rparr>)\<rparr>
          in (case listnode_add_sort (Some (key_ptr_cmp (keys kc2))) (klist kc2) (Some k) (kheap kc2) of
                None \<Rightarrow> None
              | Some (Inl e) \<Rightarrow> Some (Inl e)
              | Some (Inr (l, h)) \<Rightarrow> Some (Inr (k, kc2\<lparr>klist := l, kheap := h\<rparr>))))"

definition key_delete :: "keychain \<Rightarrow> nat \<Rightarrow> keychain res option" where
  "key_delete kc k =
     (case listnode_delete (klist kc) (Some k) (kheap kc) of None \<Rightarrow> None
      | Some (Inl e) \<Rightarrow> Some (Inl e)
      | Some (Inr (l, h)) \<Rightarrow> Some (Inr (kc\<lparr>klist := l, kheap := h\<rparr>)))"

section \<open>The chain is sorted by key number\<close>

interpretation key_order: comparator "\<lambda>a b. key_cmp_func (ks a) (ks b)" "\<lambda>_. True" for ks :: "nat \<Rightarrow> key"
  by unfold_locales (auto simp: key_cmp_func_def split: if_splits)

definition kwf :: "keychain \<Rightarrow> nat list \<Rightarrow> bool" where
  "kwf kc ps \<longleftrightarrow> lrep (klist kc, kheap kc) ps \<and> (\<forall>p\<in>set ps. p < kbrk kc) \<and>
     sorted_wrt (\<lambda>p q. kindex (keys kc p) < kindex (keys kc q)) ps"

lemma key_loop_seg:
  assumes "dseg (nx h) (pv h) p ys None" "\<forall>x\<in>set ys. live h x" "list_data h ys = map Some ps"
    and "\<forall>k\<in>set ps. T k = Inr (Q k)"
  shows "key_loop T h (first ys None) = Some (Inr (List.find Q ps))"
  using assms
proof (induction ys arbitrary: p ps)
  case (Cons y ys)
  then show ?case by (cases ps) (auto simp: key_loop.simps [of T h "Some y"])
qed (simp add: key_loop.simps)

lemma key_loop_chain:
  assumes "kwf kc ps" "\<forall>k\<in>set ps. T k = Inr (Q k)"
  shows "key_loop T (kheap kc) (head (klist kc)) = Some (Inr (List.find Q ps))"
proof -
  obtain xs where xs: "lwf (klist kc) (kheap kc) xs" "list_data (kheap kc) xs = map Some ps"
    using assms(1) by (auto simp: kwf_def lrep_def)
  then show ?thesis using key_loop_seg [of "kheap kc" None xs ps T Q] assms(2) by (auto simp: lwf_def dlist_def)
qed

lemma kwf_unique: "kwf kc ps \<Longrightarrow> p \<in> set ps \<Longrightarrow> q \<in> set ps \<Longrightarrow> kindex (keys kc p) = kindex (keys kc q) \<Longrightarrow> p = q"
  by (auto simp: kwf_def sorted_wrt_iff_nth_less in_set_conv_nth) (metis nat_neq_iff less_irrefl)

lemma key_get_ok:
  assumes wf: "kwf kc ps" and len: "length ps + 1 < 2 ^ 32"
  shows "\<exists>k kc' ps'. key_get kc i = Some (Inr (k, kc')) \<and> kwf kc' ps' \<and> k \<in> set ps' \<and>
     kindex (keys kc' k) = i \<and> set ps' = insert k (set ps) \<and> (\<forall>p\<in>set ps. keys kc' p = keys kc p) \<and>
     (k \<notin> set ps \<longrightarrow> kstring (keys kc' k) = None \<and> kr_start (accept (keys kc' k)) = 0)"
proof -
  have look: "key_lookup kc i = Some (Inr (List.find (\<lambda>k. kindex (keys kc k) = i) ps))"
    unfolding key_lookup_def by (rule key_loop_chain [OF wf]) simp
  show ?thesis
  proof (cases "List.find (\<lambda>k. kindex (keys kc k) = i) ps")
    case (Some k)
    then have "k \<in> set ps" "kindex (keys kc k) = i" by (auto simp: find_split)
    with Some wf look show ?thesis by (auto simp: key_get_def insert_absorb)
  next
    case None
    let ?k = "kbrk kc"
    let ?key = "\<lparr>kindex = i, kstring = None, send = \<lparr>kr_start = 0, kr_end = 0\<rparr>, accept = \<lparr>kr_start = 0, kr_end = 0\<rparr>\<rparr>"
    let ?ks = "(keys kc)(?k := ?key)"
    have rep: "lrep (klist kc, kheap kc) ps" and fresh: "\<forall>p\<in>set ps. p < ?k" using wf by (auto simp: kwf_def)
    have same: "?ks p = keys kc p" if "p \<in> set ps" for p using fresh that by auto
    have new: "kindex (keys kc p) \<noteq> i" if "p \<in> set ps" for p using None that by (auto simp: find_None_iff)
    obtain l h d1 d2 where r: "listnode_add_sort (Some (key_ptr_cmp ?ks)) (klist kc) (Some ?k) (kheap kc) = Some (Inr (l, h))"
      "ps = d1 @ d2" "lrep (l, h) (d1 @ ?k # d2)" "\<forall>x\<in>set d1. \<not> key_ptr_cmp ?ks (Some ?k) (Some x) < 0"
      "d2 \<noteq> [] \<longrightarrow> key_ptr_cmp ?ks (Some ?k) (Some (hd d2)) < 0"
      using listnode_add_sort_rep [OF rep len, of "key_ptr_cmp ?ks" ?k] by auto
    have lt: "sorted_wrt (\<lambda>p q. kindex (?ks p) < kindex (?ks q)) (d1 @ d2)"
    proof (rule sorted_wrt_mono_rel [rotated])
      show "sorted_wrt (\<lambda>p q. kindex (keys kc p) < kindex (keys kc q)) (d1 @ d2)"
        using wf r(2) by (simp add: kwf_def)
    qed (use same r(2) in simp)
    then have "sorted_wrt (\<lambda>p q. key_cmp_func (?ks p) (?ks q) \<le> 0) (d1 @ d2)"
      by (rule sorted_wrt_mono_rel [rotated]) (auto simp: key_cmp_func_def)
    then have le: "sorted_wrt (\<lambda>p q. key_cmp_func (?ks p) (?ks q) \<le> 0) (d1 @ ?k # d2)"
      using key_order.sorted_insert_before [of ?ks d1 d2 ?k] r(4,5) by (auto simp: key_ptr_cmp_def)
    have ne: "kindex (?ks p) \<noteq> i" if "p \<in> set (d1 @ d2)" for p using same new that r(2) by auto
    have lt1: "kindex (?ks p) < i" if "p \<in> set d1" for p
      using le ne [of p] that by (auto simp: sorted_wrt_append key_cmp_func_def split: if_splits)
    have lt2: "i < kindex (?ks p)" if "p \<in> set d2" for p
      using le ne [of p] that by (auto simp: sorted_wrt_append key_cmp_func_def split: if_splits)
    have s: "sorted_wrt (\<lambda>p q. kindex (?ks p) < kindex (?ks q)) (d1 @ ?k # d2)"
      using lt lt1 lt2 by (auto simp: sorted_wrt_append)
    let ?kc = "kc\<lparr>keys := ?ks, kbrk := ?k + 1, klist := l, kheap := h\<rparr>"
    have "key_get kc i = Some (Inr (?k, ?kc))"
      using look None r(1) by (simp add: key_get_def key_new_def)
    moreover have "kwf ?kc (d1 @ ?k # d2)" using s r(2,3) fresh by (auto simp: kwf_def less_SucI)
    ultimately show ?thesis using r(2) same by (intro exI [of _ ?k] exI [of _ ?kc] exI [of _ "d1 @ ?k # d2"]) simp
  qed
qed

text \<open>
  C37: the key numbers of a chain stay strictly sorted.  \<open>key_get\<close> returns the key with the
  given number: the existing one, without changing anything, or a new one put at its place,
  and the numbers of the chain are then the old ones and the given one.
\<close>

theorem key_get_sorted:
  assumes "kwf kc ps" "length ps + 1 < 2 ^ 32"
  shows "\<exists>k kc' ps'. key_get kc i = Some (Inr (k, kc')) \<and> kwf kc' ps' \<and> k \<in> set ps' \<and>
     kindex (keys kc' k) = i \<and> set ps' = insert k (set ps) \<and> (\<forall>p\<in>set ps. keys kc' p = keys kc p)"
  using key_get_ok [OF assms] by blast

definition no_range :: key_range where
  "no_range = \<lparr>kr_start = 0, kr_end = 0\<rparr>"

definition empty_chain :: keychain where
  "empty_chain = \<lparr>keys = \<lambda>_. \<lparr>kindex = 0, kstring = None, send = no_range, accept = no_range\<rparr>, kbrk = 0,
     klist = list_new, kheap = empty_heap\<rparr>"

lemma empty_chain_wf: "kwf empty_chain []"
  by (simp add: kwf_def empty_chain_def list_new_rep)

theorem key_get_sorted_witness:
  "\<exists>k kc' ps'. key_get empty_chain 7 = Some (Inr (k, kc')) \<and> kwf kc' ps' \<and> k \<in> set ps' \<and> kindex (keys kc' k) = 7"
  using key_get_sorted [OF empty_chain_wf, of 7] by auto

text \<open>Deleting a key keeps the chain sorted.\<close>

lemma key_delete_sorted:
  assumes "kwf kc ps"
  shows "\<exists>kc'. key_delete kc k = Some (Inr kc') \<and> kwf kc' (remove1 k ps) \<and> keys kc' = keys kc"
proof -
  obtain s' where "listnode_delete (klist kc) (Some k) (kheap kc) = Some (Inr s')" "lrep s' (remove1 k ps)"
    using listnode_delete_rep [of "klist kc" "kheap kc" ps k] assms by (auto simp: kwf_def)
  moreover have "sorted_wrt (\<lambda>p q. kindex (keys kc p) < kindex (keys kc q)) (remove1 k ps)"
    if "sorted_wrt (\<lambda>p q. kindex (keys kc p) < kindex (keys kc q)) ps" for ps
    using that set_remove1_subset [of k] by (induction ps) auto
  ultimately show ?thesis
    using assms by (cases s') (auto simp: key_delete_def kwf_def dest: set_remove1_subset [THEN subsetD])
qed

text \<open>
  the key used for sending is the one with the smallest number whose lifetime covers the
  present time, and there is one whenever some key qualifies.
\<close>

theorem key_lookup_for_send_lowest:
  assumes wf: "kwf kc ps"
  shows "\<exists>r. key_lookup_for_send now kc = Some (Inr r) \<and>
     (r = None \<longleftrightarrow> (\<forall>p\<in>set ps. \<not> in_range (send (keys kc p)) now)) \<and>
     (\<forall>k. r = Some k \<longrightarrow> k \<in> set ps \<and> in_range (send (keys kc k)) now \<and>
        (\<forall>p\<in>set ps. in_range (send (keys kc p)) now \<longrightarrow> kindex (keys kc k) \<le> kindex (keys kc p)))"
proof -
  let ?Q = "\<lambda>k. in_range (send (keys kc k)) now"
  have "key_lookup_for_send now kc = Some (Inr (List.find ?Q ps))"
    unfolding key_lookup_for_send_def by (rule key_loop_chain [OF wf]) simp
  moreover have "\<forall>k. List.find ?Q ps = Some k \<longrightarrow> k \<in> set ps \<and> ?Q k \<and>
      (\<forall>p\<in>set ps. ?Q p \<longrightarrow> kindex (keys kc k) \<le> kindex (keys kc p))"
    using wf by (fastforce simp: find_split kwf_def sorted_wrt_append)
  ultimately show ?thesis by (auto simp: find_None_iff)
qed

text \<open>A chain with key 3, valid from 10 to 20, and key 8, valid from 15 to 30.\<close>

definition two_keys :: keychain where
  "two_keys = \<lparr>keys = (\<lambda>p. if p = 0
       then \<lparr>kindex = 3, kstring = None, send = \<lparr>kr_start = 10, kr_end = 20\<rparr>, accept = no_range\<rparr>
       else \<lparr>kindex = 8, kstring = None, send = \<lparr>kr_start = 15, kr_end = 30\<rparr>, accept = no_range\<rparr>),
     kbrk = 2, klist = \<lparr>head = Some 0, tail = Some 1, count = 2\<rparr>,
     kheap = \<lparr>nx = [0 \<mapsto> 1], pv = [1 \<mapsto> 0], dat = [0 \<mapsto> 0, 1 \<mapsto> 1], live = \<lambda>a. a < 2, brk = 2\<rparr>\<rparr>"

lemma two_keys_wf: "kwf two_keys [0, 1]"
  by (auto simp: kwf_def two_keys_def lrep_def lwf_def dlist_def list_data_def intro!: exI [of _ "[0, 1]"])

theorem key_lookup_for_send_lowest_witness:
  "key_lookup_for_send 17 two_keys = Some (Inr (Some 0)) \<and> key_lookup_for_send 25 two_keys = Some (Inr (Some 1)) \<and>
   key_lookup_for_send 31 two_keys = Some (Inr None)"
  using key_lookup_for_send_lowest [OF two_keys_wf, of 17] key_lookup_for_send_lowest [OF two_keys_wf, of 25]
    key_lookup_for_send_lowest [OF two_keys_wf, of 31]
  by (auto simp: two_keys_def in_range_def split: if_splits)

text \<open>
  A key that was created and not yet given a key-string is accepted at any time (its
  lifetime starts at 0), and comparing a received password with the chain then follows the
  null pointer.
\<close>

lemma key_match_null_string:
  assumes "kwf kc []"
  shows "\<exists>k kc'. key_get kc i = Some (Inr (k, kc')) \<and> key_match_for_accept now kc' auth = Some (Inl Mem_fault)"
proof -
  obtain k kc' ps where r: "key_get kc i = Some (Inr (k, kc'))" "kwf kc' ps" "set ps = {k}"
    "kstring (keys kc' k) = None" "kr_start (accept (keys kc' k)) = 0"
    using key_get_ok [OF assms, of i] by auto
  then obtain ps' where ps: "ps = k # ps'" by (cases ps) auto
  obtain xs where xs: "lwf (klist kc') (kheap kc') xs" "list_data (kheap kc') xs = map Some ps"
    using r(2) by (auto simp: kwf_def lrep_def)
  then obtain x xs' where "xs = x # xs'" "dat (kheap kc') x = Some k" using ps by (cases xs) auto
  then have "head (klist kc') = Some x" "live (kheap kc') x" "dat (kheap kc') x = Some k"
    using xs(1) by (auto simp: lwf_def dlist_def)
  then have "key_match_for_accept now kc' auth = Some (Inl Mem_fault)"
    using r(4,5) by (simp add: key_match_for_accept_def key_loop.simps in_range_def strncmp16_def)
  with r(1) show ?thesis by blast
qed

end
