(* ===== verification/Scheduler.thy ===== *)
theory Scheduler
  imports Pqueue Dll
begin

text \<open>
  lib/thread.c: the cooperative scheduler every daemon runs in.  Threads wait for input, for
  output, for a timer or in the list of events; \<open>thread_fetch\<close> moves those that may run to
  the list \<open>ready\<close> and returns its first.  The threads themselves live in a store indexed by
  their addresses (0 is the null pointer of the timer queues); a released thread goes to the
  list \<open>unuse\<close> and is recycled.  The clock \<open>relative_time\<close> is an argument.
\<close>

section \<open>Times\<close>

record timeval =
  tv_sec :: int
  tv_usec :: int

definition TIMER_SECOND_MICRO :: int where "TIMER_SECOND_MICRO = 1000000"

text \<open>A difference of two \<open>long\<close> values, at 64 bits.\<close>

definition long_wrap :: "int \<Rightarrow> int" where
  "long_wrap a = (a + 2 ^ 63) mod 2 ^ 64 - 2 ^ 63"

function adjust_down :: "timeval \<Rightarrow> timeval" where
  "adjust_down a =
     (if tv_usec a \<ge> TIMER_SECOND_MICRO
      then adjust_down (a\<lparr>tv_usec := tv_usec a - TIMER_SECOND_MICRO, tv_sec := tv_sec a + 1\<rparr>) else a)"
  by pat_completeness auto
termination
  by (relation "measure (\<lambda>a. nat (tv_usec a))") (auto simp: TIMER_SECOND_MICRO_def)

function adjust_up :: "timeval \<Rightarrow> timeval" where
  "adjust_up a =
     (if tv_usec a < 0
      then adjust_up (a\<lparr>tv_usec := tv_usec a + TIMER_SECOND_MICRO, tv_sec := tv_sec a - 1\<rparr>) else a)"
  by pat_completeness auto
termination
  by (relation "measure (\<lambda>a. nat (- tv_usec a))") (auto simp: TIMER_SECOND_MICRO_def)

declare adjust_down.simps [simp del] adjust_up.simps [simp del]

definition timeval_adjust :: "timeval \<Rightarrow> timeval" where
  "timeval_adjust a =
     (let b = adjust_up (adjust_down a) in if tv_sec b < 0 then \<lparr>tv_sec = 0, tv_usec = 0\<rparr> else b)"

definition timeval_subtract :: "timeval \<Rightarrow> timeval \<Rightarrow> timeval" where
  "timeval_subtract a b = timeval_adjust \<lparr>tv_sec = tv_sec a - tv_sec b, tv_usec = tv_usec a - tv_usec b\<rparr>"

definition timeval_cmp :: "timeval \<Rightarrow> timeval \<Rightarrow> int" where
  "timeval_cmp a b =
     (if tv_sec a = tv_sec b then long_wrap (tv_usec a - tv_usec b) else long_wrap (tv_sec a - tv_sec b))"

definition timeval_elapsed :: "timeval \<Rightarrow> timeval \<Rightarrow> int" where
  "timeval_elapsed a b =
     ((tv_sec a - tv_sec b) * TIMER_SECOND_MICRO + (tv_usec a - tv_usec b)) mod 2 ^ 64"

section \<open>Threads and lists of threads\<close>

datatype thread_type =
  THREAD_READ | THREAD_WRITE | THREAD_TIMER | THREAD_EVENT | THREAD_READY | THREAD_BACKGROUND |
  THREAD_UNUSED | THREAD_EXECUTE

text \<open>The union \<open>u\<close>; a descriptor is a non-negative \<open>int\<close>.\<close>

datatype thread_u = Val int | Fd nat | Sands timeval

fun sands :: "thread_u \<Rightarrow> timeval" where
  "sands (Sands t) = t"
| "sands _ = \<lparr>tv_sec = 0, tv_usec = 0\<rparr>"

fun fd_of :: "thread_u \<Rightarrow> nat" where
  "fd_of (Fd n) = n"
| "fd_of _ = 0"

record thread =
  type :: thread_type
  add_type :: thread_type
  tnext :: "nat option"
  tprev :: "nat option"
  func :: nat
  arg :: nat
  u :: thread_u
  tindex :: int

record thread_list =
  thead :: "nat option"
  ttail :: "nat option"
  tcount :: int

type_synonym store = "nat \<Rightarrow> thread"

text \<open>\<open>count\<close> is an \<open>int\<close>, kept at 32 bits.\<close>

definition thread_list_add :: "thread_list \<Rightarrow> nat \<Rightarrow> store \<Rightarrow> thread_list \<times> store" where
  "thread_list_add list t s =
     (let s1 = s(t := (s t)\<lparr>tnext := None, tprev := ttail list\<rparr>)
      in case ttail list of
           Some l \<Rightarrow> (list\<lparr>ttail := Some t, tcount := int_wrap (tcount list + 1)\<rparr>, s1(l := (s1 l)\<lparr>tnext := Some t\<rparr>))
         | None \<Rightarrow> (list\<lparr>thead := Some t, ttail := Some t, tcount := int_wrap (tcount list + 1)\<rparr>, s1))"

definition thread_list_delete :: "thread_list \<Rightarrow> nat \<Rightarrow> store \<Rightarrow> thread_list \<times> store" where
  "thread_list_delete list t s =
     (let (l1, s1) = (case tnext (s t) of
            Some n \<Rightarrow> (list, s(n := (s n)\<lparr>tprev := tprev (s t)\<rparr>))
          | None \<Rightarrow> (list\<lparr>ttail := tprev (s t)\<rparr>, s));
          (l2, s2) = (case tprev (s1 t) of
            Some p \<Rightarrow> (l1, s1(p := (s1 p)\<lparr>tnext := tnext (s1 t)\<rparr>))
          | None \<Rightarrow> (l1\<lparr>thead := tnext (s1 t)\<rparr>, s1));
          s3 = s2(t := (s2 t)\<lparr>tnext := None, tprev := None\<rparr>)
      in (l2\<lparr>tcount := int_wrap (tcount l2 - 1)\<rparr>, s3))"

definition thread_empty :: "thread_list \<Rightarrow> bool" where
  "thread_empty list \<longleftrightarrow> thead list = None"

definition thread_trim_head :: "thread_list \<Rightarrow> store \<Rightarrow> nat option \<times> thread_list \<times> store" where
  "thread_trim_head list s =
     (case thead list of None \<Rightarrow> (None, list, s)
      | Some t \<Rightarrow> let (l, s') = thread_list_delete list t s in (Some t, l, s'))"

section \<open>The master\<close>

text \<open>
  A descriptor set is the \<open>fd_set\<close> of select(2), which has room for \<open>FD_SETSIZE\<close> descriptors.
  \<open>FD_ISSET\<close>, \<open>FD_SET\<close> and \<open>FD_CLR\<close> do not check the descriptor: beyond the size they access
  memory outside the set.
\<close>

definition FD_SETSIZE :: nat where
  "FD_SETSIZE = 1024"

type_synonym fd_set = "nat \<Rightarrow> bool"

definition FD_ISSET :: "nat \<Rightarrow> fd_set \<Rightarrow> bool res" where
  "FD_ISSET fd fds = (if fd < FD_SETSIZE then Inr (fds fd) else Inl Mem_fault)"

definition FD_SET :: "nat \<Rightarrow> fd_set \<Rightarrow> fd_set res" where
  "FD_SET fd fds = (if fd < FD_SETSIZE then Inr (fds(fd := True)) else Inl Mem_fault)"

definition FD_CLR :: "nat \<Rightarrow> fd_set \<Rightarrow> fd_set res" where
  "FD_CLR fd fds = (if fd < FD_SETSIZE then Inr (fds(fd := False)) else Inl Mem_fault)"

lemmas fd_set_defs = FD_ISSET_def FD_SET_def FD_CLR_def

record thread_master =
  m_read :: "nat option list"
  m_write :: "nat option list"
  timer :: "nat pqueue"
  event :: thread_list
  ready :: thread_list
  unuse :: thread_list
  background :: "nat pqueue"
  fd_limit :: nat
  readfd :: fd_set
  writefd :: fd_set
  alloc :: nat
  threads :: store
  tbrk :: nat

definition thread_timer_cmp :: "store \<Rightarrow> nat \<Rightarrow> nat \<Rightarrow> int" where
  "thread_timer_cmp s a b =
     (let c = timeval_cmp (sands (u (s a))) (sands (u (s b))) in if c < 0 then -1 else if c > 0 then 1 else 0)"

definition thread_timer_update :: "nat \<Rightarrow> nat \<Rightarrow> store \<Rightarrow> store" where
  "thread_timer_update t i s = s(t := (s t)\<lparr>tindex := int i\<rparr>)"

definition empty_list :: thread_list where
  "empty_list = \<lparr>thead = None, ttail = None, tcount = 0\<rparr>"

text \<open>\<open>thread_master_create\<close>, with the limit \<open>rlim_cur\<close> of open files, which fits into an \<open>int\<close>.\<close>

definition thread_master_create :: "nat \<Rightarrow> store \<Rightarrow> thread_master" where
  "thread_master_create limit s =
     \<lparr>m_read = replicate limit None, m_write = replicate limit None, timer = pqueue_create 0,
      event = empty_list, ready = empty_list, unuse = empty_list, background = pqueue_create 0,
      fd_limit = limit, readfd = \<lambda>_. False, writefd = \<lambda>_. False, alloc = 0, threads = s, tbrk = 1\<rparr>"

definition thread_add_unuse :: "thread_master \<Rightarrow> nat \<Rightarrow> thread_master res" where
  "thread_add_unuse m t =
     (let s1 = (threads m)(t := (threads m t)\<lparr>type := THREAD_UNUSED\<rparr>) in
      if tnext (s1 t) \<noteq> None \<or> tprev (s1 t) \<noteq> None then Inl Assert_failed
      else let (l, s2) = thread_list_add (unuse m) t s1 in Inr (m\<lparr>unuse := l, threads := s2\<rparr>))"

text \<open>A new thread is zeroed memory at a fresh address.\<close>

definition blank_thread :: thread where
  "blank_thread = \<lparr>type = THREAD_READ, add_type = THREAD_READ, tnext = None, tprev = None, func = 0, arg = 0,
     u = Val 0, tindex = 0\<rparr>"

definition thread_get :: "thread_master \<Rightarrow> thread_type \<Rightarrow> nat \<Rightarrow> nat \<Rightarrow> nat \<times> thread_master" where
  "thread_get m ty f a =
     (let (r, l, s) = thread_trim_head (unuse m) (threads m);
          (t, m1) = (case r of Some t \<Rightarrow> (t, m\<lparr>unuse := l, threads := s\<rparr>)
                     | None \<Rightarrow> (tbrk m, m\<lparr>threads := (threads m)(tbrk m := blank_thread), tbrk := tbrk m + 1,
                                           alloc := uadd 64 (alloc m) 1\<rparr>))
      in (t, m1\<lparr>threads := (threads m1)(t := (threads m1 t)\<lparr>type := ty, add_type := ty, func := f, arg := a,
                tindex := -1\<rparr>)\<rparr>))"

definition set_u :: "nat \<Rightarrow> thread_u \<Rightarrow> thread_master \<Rightarrow> thread_master" where
  "set_u t v m = m\<lparr>threads := (threads m)(t := (threads m t)\<lparr>u := v\<rparr>)\<rparr>"

section \<open>Adding threads\<close>

definition fdset_of :: "thread_type \<Rightarrow> thread_master \<Rightarrow> fd_set" where
  "fdset_of dir m = (if dir = THREAD_READ then readfd m else writefd m)"

definition set_fdset :: "thread_type \<Rightarrow> fd_set \<Rightarrow> thread_master \<Rightarrow> thread_master" where
  "set_fdset dir fds m = (if dir = THREAD_READ then m\<lparr>readfd := fds\<rparr> else m\<lparr>writefd := fds\<rparr>)"

definition array_of :: "thread_type \<Rightarrow> thread_master \<Rightarrow> nat option list" where
  "array_of dir m = (if dir = THREAD_READ then m_read m else m_write m)"

definition set_array :: "thread_type \<Rightarrow> nat option list \<Rightarrow> thread_master \<Rightarrow> thread_master" where
  "set_array dir arr m = (if dir = THREAD_READ then m\<lparr>m_read := arr\<rparr> else m\<lparr>m_write := arr\<rparr>)"

text \<open>\<open>thread_add_fd\<close> and \<open>thread_delete_fd\<close>: the array is indexed by the descriptor.\<close>

definition thread_add_fd :: "thread_type \<Rightarrow> nat \<Rightarrow> thread_master \<Rightarrow> thread_master res" where
  "thread_add_fd dir t m =
     bindR (mem_set (array_of dir m) (fd_of (u (threads m t))) (Some t)) (\<lambda>arr. Inr (set_array dir arr m))"

definition thread_delete_fd :: "thread_type \<Rightarrow> nat \<Rightarrow> thread_master \<Rightarrow> thread_master res" where
  "thread_delete_fd dir t m =
     bindR (mem_set (array_of dir m) (fd_of (u (threads m t))) None) (\<lambda>arr. Inr (set_array dir arr m))"

definition thread_add_read_write ::
  "thread_type \<Rightarrow> thread_master \<Rightarrow> nat \<Rightarrow> nat \<Rightarrow> nat \<Rightarrow> (nat option \<times> thread_master) res" where
  "thread_add_read_write dir m f a fd =
     bindR (FD_ISSET fd (fdset_of dir m)) (\<lambda>already.
       if already then Inr (None, m)
       else bindR (FD_SET fd (fdset_of dir m)) (\<lambda>fds.
         let m1 = set_fdset dir fds m;
             (t, m2) = thread_get m1 dir f a;
             m3 = set_u t (Fd fd) m2
         in bindR (thread_add_fd dir t m3) (\<lambda>m4. Inr (Some t, m4))))"

definition thread_add_read :: "thread_master \<Rightarrow> nat \<Rightarrow> nat \<Rightarrow> nat \<Rightarrow> (nat option \<times> thread_master) res" where
  "thread_add_read m f a fd = thread_add_read_write THREAD_READ m f a fd"

definition thread_add_write :: "thread_master \<Rightarrow> nat \<Rightarrow> nat \<Rightarrow> nat \<Rightarrow> (nat option \<times> thread_master) res" where
  "thread_add_write m f a fd = thread_add_read_write THREAD_WRITE m f a fd"

definition queue_of :: "thread_type \<Rightarrow> thread_master \<Rightarrow> nat pqueue" where
  "queue_of ty m = (if ty = THREAD_TIMER then timer m else background m)"

definition set_queue :: "thread_type \<Rightarrow> nat pqueue \<Rightarrow> thread_master \<Rightarrow> thread_master" where
  "set_queue ty q m = (if ty = THREAD_TIMER then m\<lparr>timer := q\<rparr> else m\<lparr>background := q\<rparr>)"

definition thread_add_timer_timeval ::
  "timeval \<Rightarrow> thread_master \<Rightarrow> nat \<Rightarrow> thread_type \<Rightarrow> nat \<Rightarrow> timeval \<Rightarrow> (nat \<times> thread_master) res" where
  "thread_add_timer_timeval now m f ty a rel =
     (if ty \<noteq> THREAD_TIMER \<and> ty \<noteq> THREAD_BACKGROUND then Inl Assert_failed
      else let (t, m1) = thread_get m ty f a;
               alarm = \<lparr>tv_sec = tv_sec now + tv_sec rel, tv_usec = tv_usec now + tv_usec rel\<rparr>;
               m2 = set_u t (Sands (timeval_adjust alarm)) m1
           in bindR (pqueue_enqueue 0 (thread_timer_cmp (threads m2)) thread_timer_update t (queue_of ty m2) (threads m2))
                (\<lambda>(q, s). Inr (t, (set_queue ty q m2)\<lparr>threads := s\<rparr>)))"

definition thread_add_timer :: "timeval \<Rightarrow> thread_master \<Rightarrow> nat \<Rightarrow> nat \<Rightarrow> int \<Rightarrow> (nat \<times> thread_master) res" where
  "thread_add_timer now m f a secs = thread_add_timer_timeval now m f THREAD_TIMER a \<lparr>tv_sec = secs, tv_usec = 0\<rparr>"

definition c_quot :: "int \<Rightarrow> int \<Rightarrow> int" where
  "c_quot a b = sgn a * sgn b * (\<bar>a\<bar> div \<bar>b\<bar>)"

definition thread_add_timer_msec :: "timeval \<Rightarrow> thread_master \<Rightarrow> nat \<Rightarrow> nat \<Rightarrow> int \<Rightarrow> (nat \<times> thread_master) res" where
  "thread_add_timer_msec now m f a ms =
     thread_add_timer_timeval now m f THREAD_TIMER a \<lparr>tv_sec = c_quot ms 1000, tv_usec = 1000 * c_rem ms 1000\<rparr>"

definition thread_add_timer_tv :: "timeval \<Rightarrow> thread_master \<Rightarrow> nat \<Rightarrow> nat \<Rightarrow> timeval \<Rightarrow> (nat \<times> thread_master) res" where
  "thread_add_timer_tv now m f a tv = thread_add_timer_timeval now m f THREAD_TIMER a tv"

definition thread_add_background :: "timeval \<Rightarrow> thread_master \<Rightarrow> nat \<Rightarrow> nat \<Rightarrow> int \<Rightarrow> (nat \<times> thread_master) res" where
  "thread_add_background now m f a delay =
     thread_add_timer_timeval now m f THREAD_BACKGROUND a
       (if delay \<noteq> 0 then \<lparr>tv_sec = c_quot delay 1000, tv_usec = 1000 * c_rem delay 1000\<rparr>
        else \<lparr>tv_sec = 0, tv_usec = 0\<rparr>)"

definition thread_add_event :: "thread_master \<Rightarrow> nat \<Rightarrow> nat \<Rightarrow> int \<Rightarrow> nat \<times> thread_master" where
  "thread_add_event m f a val =
     (let (t, m1) = thread_get m THREAD_EVENT f a;
          m2 = set_u t (Val val) m1;
          (l, s) = thread_list_add (event m2) t (threads m2)
      in (t, m2\<lparr>event := l, threads := s\<rparr>))"

section \<open>Cancelling threads\<close>

definition fd_clear_read_write :: "thread_type \<Rightarrow> nat \<Rightarrow> thread_master \<Rightarrow> (bool \<times> thread_master) res" where
  "fd_clear_read_write dir fd m =
     bindR (FD_ISSET fd (fdset_of dir m)) (\<lambda>b.
       if \<not> b then Inr (False, m)
       else bindR (FD_CLR fd (fdset_of dir m)) (\<lambda>fds. Inr (True, set_fdset dir fds m)))"

definition thread_cancel :: "thread_master \<Rightarrow> nat \<Rightarrow> thread_master res" where
  "thread_cancel m t =
     (let th = threads m t; ty = type th in
      if ty = THREAD_READ \<or> ty = THREAD_WRITE then
        bindR (fd_clear_read_write ty (fd_of (u th)) m) (\<lambda>(cleared, m1).
          if \<not> cleared then Inl Assert_failed
          else bindR (thread_delete_fd ty t m1) (\<lambda>m2. thread_add_unuse m2 t))
      else if ty = THREAD_TIMER \<or> ty = THREAD_BACKGROUND then
        if tindex th < 0 then Inl Assert_failed
        else bindR (mem_get (array (queue_of ty m)) (nat (tindex th))) (\<lambda>x.
          if x \<noteq> t then Inl Assert_failed
          else bindR (pqueue_remove_at (thread_timer_cmp (threads m)) thread_timer_update (nat (tindex th))
                        (queue_of ty m) (threads m)) (\<lambda>(q, s).
               thread_add_unuse ((set_queue ty q m)\<lparr>threads := s\<rparr>) t))
      else if ty = THREAD_EVENT then
        let (l, s) = thread_list_delete (event m) t (threads m)
        in thread_add_unuse (m\<lparr>event := l, threads := s\<rparr>) t
      else if ty = THREAD_READY then
        let (l, s) = thread_list_delete (ready m) t (threads m)
        in thread_add_unuse (m\<lparr>ready := l, threads := s\<rparr>) t
      else Inr m)"

text \<open>One of the two loops of \<open>thread_cancel_event\<close>, over the event list or the ready list.\<close>

definition list_of :: "thread_type \<Rightarrow> thread_master \<Rightarrow> thread_list" where
  "list_of ty m = (if ty = THREAD_EVENT then event m else ready m)"

definition set_list :: "thread_type \<Rightarrow> thread_list \<Rightarrow> thread_master \<Rightarrow> thread_master" where
  "set_list ty l m = (if ty = THREAD_EVENT then m\<lparr>event := l\<rparr> else m\<lparr>ready := l\<rparr>)"

partial_function (option) cancel_event_loop ::
  "thread_type \<Rightarrow> nat \<Rightarrow> nat option \<Rightarrow> thread_master \<Rightarrow> nat \<Rightarrow> (nat \<times> thread_master) res option" where
  "cancel_event_loop ty a p m ret =
     (case p of None \<Rightarrow> Some (Inr (ret, m))
      | Some t \<Rightarrow>
          let next = tnext (threads m t) in
          if arg (threads m t) = a then
            let (l, s) = thread_list_delete (list_of ty m) t (threads m) in
            (case thread_add_unuse ((set_list ty l m)\<lparr>threads := s\<rparr>) t of
               Inl e \<Rightarrow> Some (Inl e)
             | Inr m1 \<Rightarrow> cancel_event_loop ty a next m1 (uadd 32 ret 1))
          else cancel_event_loop ty a next m ret)"

definition thread_cancel_event :: "thread_master \<Rightarrow> nat \<Rightarrow> (nat \<times> thread_master) res option" where
  "thread_cancel_event m a =
     (case cancel_event_loop THREAD_EVENT a (thead (event m)) m 0 of
        None \<Rightarrow> None
      | Some (Inl e) \<Rightarrow> Some (Inl e)
      | Some (Inr (ret, m1)) \<Rightarrow> cancel_event_loop THREAD_READY a (thead (ready m1)) m1 ret)"

section \<open>Making threads ready\<close>

definition thread_timer_wait :: "timeval \<Rightarrow> thread_master \<Rightarrow> nat pqueue \<Rightarrow> timeval option res" where
  "thread_timer_wait now m q =
     (if pq_size q \<noteq> 0 then bindR (mem_get (array q) 0) (\<lambda>t. Inr (Some (timeval_subtract (sands (u (threads m t))) now)))
      else Inr None)"

definition make_ready :: "thread_master \<Rightarrow> nat \<Rightarrow> thread_master" where
  "make_ready m t =
     (let (l, s) = thread_list_add (ready m) t (threads m)
      in m\<lparr>ready := l, threads := s(t := (s t)\<lparr>type := THREAD_READY\<rparr>)\<rparr>)"

definition thread_process_fds_helper ::
  "thread_master \<Rightarrow> nat option \<Rightarrow> fd_set \<Rightarrow> (nat \<times> thread_master) res" where
  "thread_process_fds_helper m p fdset =
     (case p of None \<Rightarrow> Inr (0, m)
      | Some t \<Rightarrow>
          let dir = (if type (threads m t) = THREAD_READ then THREAD_READ else THREAD_WRITE);
              fd = fd_of (u (threads m t))
          in bindR (FD_ISSET fd fdset) (\<lambda>b.
               if b
               then bindR (fd_clear_read_write dir fd m) (\<lambda>(_, m1).
                      bindR (thread_delete_fd dir t m1) (\<lambda>m2. Inr (1, make_ready m2 t)))
               else Inr (0, m)))"

function process_fds_loop ::
  "thread_master \<Rightarrow> fd_set \<Rightarrow> fd_set \<Rightarrow> nat \<Rightarrow> nat \<Rightarrow> nat \<Rightarrow> nat \<Rightarrow> (nat \<times> thread_master) res" where
  "process_fds_loop m rset wset num limit i rdy =
     (if i < limit \<and> rdy < num
      then bindR (mem_get (m_read m) i) (\<lambda>p.
           bindR (thread_process_fds_helper m p rset) (\<lambda>(r1, m1).
           bindR (mem_get (m_write m1) i) (\<lambda>q.
           bindR (thread_process_fds_helper m1 q wset) (\<lambda>(r2, m2).
             process_fds_loop m2 rset wset num limit (i + 1) (rdy + r1 + r2)))))
      else Inr (rdy, m))"
  by pat_completeness auto
termination
  by (relation "measure (\<lambda>(_, _, _, _, limit, i, _). limit - i)") auto

declare process_fds_loop.simps [simp del]

definition thread_process_fds ::
  "thread_master \<Rightarrow> fd_set \<Rightarrow> fd_set \<Rightarrow> nat \<Rightarrow> (int \<times> thread_master) res" where
  "thread_process_fds m rset wset num =
     bindR (process_fds_loop m rset wset num (fd_limit m) 0 0) (\<lambda>(rdy, m'). Inr (int num - int rdy, m'))"

partial_function (option) thread_timer_process ::
  "thread_type \<Rightarrow> timeval \<Rightarrow> thread_master \<Rightarrow> nat \<Rightarrow> (nat \<times> thread_master) res option" where
  "thread_timer_process ty now m rdy =
     (if pq_size (queue_of ty m) = 0 then Some (Inr (rdy, m))
      else case mem_get (array (queue_of ty m)) 0 of Inl e \<Rightarrow> Some (Inl e)
      | Inr t \<Rightarrow>
          if timeval_cmp now (sands (u (threads m t))) < 0 then Some (Inr (rdy, m))
          else (case pqueue_dequeue (thread_timer_cmp (threads m)) thread_timer_update (queue_of ty m) (threads m) of
                  Inl e \<Rightarrow> Some (Inl e)
                | Inr (_, q, s) \<Rightarrow>
                    let m1 = (set_queue ty q m)\<lparr>threads := s(t := (s t)\<lparr>type := THREAD_READY\<rparr>)\<rparr>;
                        (l, s') = thread_list_add (ready m1) t (threads m1)
                    in thread_timer_process ty now (m1\<lparr>ready := l, threads := s'\<rparr>) (uadd 32 rdy 1)))"

text \<open>\<open>thread_process\<close> is only called for the event list.\<close>

partial_function (option) thread_process_loop :: "nat option \<Rightarrow> thread_master \<Rightarrow> nat \<Rightarrow> (nat \<times> thread_master) option" where
  "thread_process_loop p m rdy =
     (case p of None \<Rightarrow> Some (rdy, m)
      | Some t \<Rightarrow>
          let next = tnext (threads m t);
              (l, s) = thread_list_delete (event m) t (threads m);
              s1 = s(t := (s t)\<lparr>type := THREAD_READY\<rparr>);
              (rl, s2) = thread_list_add (ready m) t s1
          in thread_process_loop next (m\<lparr>event := l, ready := rl, threads := s2\<rparr>) (uadd 32 rdy 1))"

definition thread_process :: "thread_master \<Rightarrow> (nat \<times> thread_master) option" where
  "thread_process m = thread_process_loop (thead (event m)) m 0"

section \<open>The main loop\<close>

text \<open>
  What the environment does in one round of \<open>thread_fetch\<close>: the signal handlers run by
  \<open>quagga_sigevent_process\<close>, the clock before and after \<open>select\<close>, the outcome of
  \<open>select\<close> for the timeout it is given, and what \<open>select\<close> leaves in the timeout structure.
\<close>

datatype select_result = Sel_eintr | Sel_error | Sel nat fd_set fd_set

record fetch_env =
  signals :: "thread_master \<Rightarrow> thread_master"
  time1 :: timeval
  time2 :: timeval
  sel :: "timeval option \<Rightarrow> select_result"
  left :: "timeval \<Rightarrow> timeval"

text \<open>
  The timeout for \<open>select\<close>.  \<open>tw\<close> is the variable \<open>timer_wait\<close>, declared outside the loop:
  it is only computed when no thread is ready.
\<close>

definition select_timeout :: "timeval \<Rightarrow> thread_master \<Rightarrow> timeval option \<Rightarrow> timeval option res" where
  "select_timeout now m tw =
     (if tcount (ready m) = 0
      then bindR (thread_timer_wait now m (timer m)) (\<lambda>w.
           bindR (thread_timer_wait now m (background m)) (\<lambda>wb.
             Inr (case wb of None \<Rightarrow> w
                  | Some b \<Rightarrow> (case w of None \<Rightarrow> wb | Some x \<Rightarrow> if timeval_cmp x b > 0 then wb else w))))
      else Inr tw)"

datatype fetch_result = Fetched nat | Select_failed | Retry "timeval option"

text \<open>One round; the trace records the timeout of the \<open>select\<close> call and the length of the ready list.\<close>

definition fetch_round ::
  "fetch_env \<Rightarrow> thread_master \<Rightarrow> timeval option \<Rightarrow>
   (fetch_result \<times> thread_master \<times> (timeval option \<times> int) list) res option" where
  "fetch_round e m0 tw =
     (let m = signals e m0; (r, l, s) = thread_trim_head (ready m) (threads m) in
      case r of Some t \<Rightarrow> Some (Inr (Fetched t, m\<lparr>ready := l, threads := s\<rparr>, []))
      | None \<Rightarrow>
        (case thread_process m of None \<Rightarrow> None
         | Some (_, m1) \<Rightarrow>
           (case select_timeout (time1 e) m1 tw of Inl er \<Rightarrow> Some (Inl er)
            | Inr tw1 \<Rightarrow>
              let tr = [(tw1, tcount (ready m1))] in
              (case sel e tw1 of
                 Sel_eintr \<Rightarrow> Some (Inr (Retry (map_option (left e) tw1), m1, tr))
               | Sel_error \<Rightarrow> Some (Inr (Select_failed, m1, tr))
               | Sel num rset wset \<Rightarrow>
                 (case thread_timer_process THREAD_TIMER (time2 e) m1 0 of None \<Rightarrow> None
                  | Some (Inl er) \<Rightarrow> Some (Inl er)
                  | Some (Inr (_, m2)) \<Rightarrow>
                    (case (if num > 0 then bindR (thread_process_fds m2 rset wset num) (\<lambda>(_, m'). Inr m') else Inr m2) of
                       Inl er \<Rightarrow> Some (Inl er)
                     | Inr m3 \<Rightarrow>
                       (case thread_timer_process THREAD_BACKGROUND (time2 e) m3 0 of None \<Rightarrow> None
                        | Some (Inl er) \<Rightarrow> Some (Inl er)
                        | Some (Inr (_, m4)) \<Rightarrow>
                          let (r4, l4, s4) = thread_trim_head (ready m4) (threads m4) in
                          (case r4 of Some t \<Rightarrow> Some (Inr (Fetched t, m4\<lparr>ready := l4, threads := s4\<rparr>, tr))
                           | None \<Rightarrow> Some (Inr (Retry (map_option (left e) tw1), m4, tr))))))))))"

text \<open>
  The loop, for as many rounds as the environment describes; \<open>Retry\<close> at the end means that it
  has not returned yet.  Initially \<open>timer_wait\<close> points to a zero time.
\<close>

fun fetch_loop ::
  "fetch_env list \<Rightarrow> thread_master \<Rightarrow> timeval option \<Rightarrow>
   (fetch_result \<times> thread_master \<times> (timeval option \<times> int) list) res option" where
  "fetch_loop [] m tw = Some (Inr (Retry tw, m, []))"
| "fetch_loop (e # es) m tw =
     (case fetch_round e m tw of
        Some (Inr (Retry tw1, m1, tr)) \<Rightarrow>
          (case fetch_loop es m1 tw1 of Some (Inr (r, m2, tr2)) \<Rightarrow> Some (Inr (r, m2, tr @ tr2)) | x \<Rightarrow> x)
      | x \<Rightarrow> x)"

definition thread_fetch ::
  "fetch_env list \<Rightarrow> thread_master \<Rightarrow> (fetch_result \<times> thread_master \<times> (timeval option \<times> int) list) res option" where
  "thread_fetch es m = fetch_loop es m (Some \<lparr>tv_sec = 0, tv_usec = 0\<rparr>)"

section \<open>Times are normalised\<close>

definition usecs :: "timeval \<Rightarrow> int" where
  "usecs a = tv_sec a * TIMER_SECOND_MICRO + tv_usec a"

lemma adjust_down_props: "usecs (adjust_down a) = usecs a \<and> tv_usec (adjust_down a) < TIMER_SECOND_MICRO"
proof (induction a rule: adjust_down.induct)
  case (1 a)
  then show ?case by (subst (1 2) adjust_down.simps) (auto simp: usecs_def TIMER_SECOND_MICRO_def)
qed

lemma adjust_up_props:
  "tv_usec a < TIMER_SECOND_MICRO \<Longrightarrow>
   usecs (adjust_up a) = usecs a \<and> 0 \<le> tv_usec (adjust_up a) \<and> tv_usec (adjust_up a) < TIMER_SECOND_MICRO"
proof (induction a rule: adjust_up.induct)
  case (1 a)
  then show ?case by (subst (1 2 3) adjust_up.simps) (auto simp: usecs_def TIMER_SECOND_MICRO_def)
qed

text \<open>The adjusted time is normalised and keeps the number of microseconds; a negative one becomes 0.\<close>

lemma timeval_adjust_normal:
  "0 \<le> tv_usec (timeval_adjust a) \<and> tv_usec (timeval_adjust a) < TIMER_SECOND_MICRO \<and>
   0 \<le> tv_sec (timeval_adjust a) \<and> usecs (timeval_adjust a) = max 0 (usecs a)"
proof -
  let ?b = "adjust_up (adjust_down a)"
  have b: "usecs ?b = usecs a" "0 \<le> tv_usec ?b" "tv_usec ?b < 1000000"
    using adjust_up_props [of "adjust_down a"] adjust_down_props [of a] by (auto simp: TIMER_SECOND_MICRO_def)
  show ?thesis
  proof (cases "tv_sec ?b < 0")
    case True
    then have "usecs a < 0" using b by (simp add: usecs_def TIMER_SECOND_MICRO_def)
    with True show ?thesis by (simp add: timeval_adjust_def Let_def usecs_def TIMER_SECOND_MICRO_def)
  next
    case False
    then have "0 \<le> usecs a" using b by (simp add: usecs_def TIMER_SECOND_MICRO_def)
    with False b show ?thesis by (simp add: timeval_adjust_def Let_def TIMER_SECOND_MICRO_def)
  qed
qed

section \<open>Lists of threads\<close>

definition tl_rep :: "thread_list \<Rightarrow> store \<Rightarrow> nat list \<Rightarrow> bool" where
  "tl_rep l s xs \<longleftrightarrow>
     dlist (\<lambda>t. tnext (s t)) (\<lambda>t. tprev (s t)) (thead l) (ttail l) xs \<and> tcount l = int_wrap (int (length xs))"

text \<open>All fields but the links.\<close>

definition core :: "thread \<Rightarrow> thread" where
  "core t = t\<lparr>tnext := None, tprev := None\<rparr>"

lemma core_fields:
  assumes "core a = core b"
  shows "type a = type b" "add_type a = add_type b" "func a = func b" "arg a = arg b" "u a = u b" "tindex a = tindex b"
  using assms by (cases a, cases b, auto simp: core_def)+

lemma core_links: "core a = core b \<Longrightarrow> tnext a = tnext b \<Longrightarrow> tprev a = tprev b \<Longrightarrow> a = b"
  by (cases a, cases b) (simp add: core_def)

lemma thread_list_add_rep:
  assumes "tl_rep l s xs" "t \<notin> set xs"
  shows "\<exists>l' s'. thread_list_add l t s = (l', s') \<and> tl_rep l' s' (xs @ [t]) \<and>
     (\<forall>x. core (s' x) = core (s x)) \<and> (\<forall>x. x \<notin> set (t # xs) \<longrightarrow> s' x = s x)"
proof -
  have tail: "ttail l = final None xs" "tcount l = int_wrap (int (length xs))" using assms(1) by (auto simp: tl_rep_def dlist_def)
  have d: "dlist (\<lambda>t. tnext (s t)) (\<lambda>t. tprev (s t)) (thead l) (ttail l) (xs @ [])"
    using assms(1) by (simp add: tl_rep_def)
  note ins = dlist_insert [OF d, of t]
  show ?thesis
  proof (cases "xs = []")
    case True
    then show ?thesis using tail by (auto simp: thread_list_add_def tl_rep_def dlist_def core_def)
  next
    case False
    let ?z = "last xs"
    have z: "?z \<in> set xs" "?z \<noteq> t" using False assms(2) last_in_set [of xs] by auto
    let ?s1 = "s(t := (s t)\<lparr>tnext := None, tprev := Some ?z\<rparr>)"
    let ?s = "?s1(?z := (?s1 ?z)\<lparr>tnext := Some t\<rparr>)"
    have eq: "thread_list_add l t s = (l\<lparr>ttail := Some t, tcount := int_wrap (tcount l + 1)\<rparr>, ?s)"
      using tail False by (simp add: thread_list_add_def final_eq_last Let_def)
    have "(\<lambda>x. tnext (?s x)) = set_nxt (final None xs) (Some t) ((\<lambda>t. tnext (s t))(t := None))"
      "(\<lambda>x. tprev (?s x)) = (\<lambda>t. tprev (s t))(t := final None xs)"
      using False z by (auto simp: set_nxt_def final_eq_last)
    then have "tl_rep (l\<lparr>ttail := Some t, tcount := int_wrap (tcount l + 1)\<rparr>) ?s (xs @ [t])"
      using ins assms(2) False tail by (simp add: tl_rep_def set_nxt_def set_head_def final_eq_last add.commute)
    moreover have "core (?s x) = core (s x)" for x by (simp add: core_def)
    ultimately show ?thesis using eq z by auto
  qed
qed

lemma thread_list_delete_rep:
  assumes "tl_rep l s (xs @ t # ys)"
  shows "\<exists>l' s'. thread_list_delete l t s = (l', s') \<and> tl_rep l' s' (xs @ ys) \<and>
     tnext (s' t) = None \<and> tprev (s' t) = None \<and> (\<forall>x. core (s' x) = core (s x)) \<and>
     (\<forall>x. x \<notin> set (xs @ t # ys) \<longrightarrow> s' x = s x)"
proof -
  have d: "dlist (\<lambda>t. tnext (s t)) (\<lambda>t. tprev (s t)) (thead l) (ttail l) (xs @ t # ys)"
    using assms by (simp add: tl_rep_def)
  note del = dlist_delete [OF d]
  have t: "t \<notin> set xs" "t \<notin> set ys" using dlist_distinct [OF d] by auto
  have nb: "x \<in> set (xs @ ys)" "x \<noteq> t" if "tprev (s t) = Some x \<or> tnext (s t) = Some x" for x
    using that del(2,3) t last_in_set [of xs]
    by (cases "xs = []"; cases ys; auto simp: final_eq_last)+
  obtain l' s' where r: "thread_list_delete l t s = (l', s')" by fastforce
  have l': "l' = \<lparr>thead = set_head (tprev (s t)) (tnext (s t)) (thead l),
      ttail = set_head (tnext (s t)) (tprev (s t)) (ttail l), tcount = int_wrap (tcount l - 1)\<rparr>"
    using r nb by (auto simp: thread_list_delete_def set_head_def Let_def split: option.splits)
  have nx: "(\<lambda>x. tnext (s' x)) = (set_nxt (tprev (s t)) (tnext (s t)) (\<lambda>t. tnext (s t)))(t := None)"
    using r nb by (fastforce simp: thread_list_delete_def set_nxt_def Let_def split: option.splits)
  have pv: "(\<lambda>x. tprev (s' x)) = (set_nxt (tnext (s t)) (tprev (s t)) (\<lambda>t. tprev (s t)))(t := None)"
    using r nb by (fastforce simp: thread_list_delete_def set_nxt_def Let_def split: option.splits)
  have "tl_rep l' s' (xs @ ys)"
    using del(1) assms t unfolding tl_rep_def nx pv l'
    by simp
  moreover have "tnext (s' t) = None" "tprev (s' t) = None" using nx pv by (metis fun_upd_same)+
  moreover have core: "core (s' x) = core (s x)" for x
    using r by (auto simp: thread_list_delete_def core_def Let_def split: option.splits)
  moreover have "s' x = s x" if "x \<notin> set (xs @ t # ys)" for x
  proof (rule core_links [OF core])
    show "tnext (s' x) = tnext (s x)" "tprev (s' x) = tprev (s x)"
      using fun_cong [OF nx, of x] fun_cong [OF pv, of x] nb [of x] that
      by (auto simp: set_nxt_def split: option.splits if_splits)
  qed
  ultimately show ?thesis using r by blast
qed

section \<open>The timer queues\<close>

text \<open>Times for which the comparison does not overflow; \<open>timeval_adjust\<close> yields such times.\<close>

definition sane_time :: "timeval \<Rightarrow> bool" where
  "sane_time a \<longleftrightarrow> 0 \<le> tv_sec a \<and> tv_sec a < 2 ^ 62 \<and> 0 \<le> tv_usec a \<and> tv_usec a < TIMER_SECOND_MICRO"

definition timer_ok :: "store \<Rightarrow> nat \<Rightarrow> bool" where
  "timer_ok s t \<longleftrightarrow> sane_time (sands (u (s t)))"

lemma long_wrap_small: "- (2 ^ 63) \<le> a \<Longrightarrow> a < 2 ^ 63 \<Longrightarrow> long_wrap a = a"
  by (simp add: long_wrap_def)

lemma timeval_cmp_usecs:
  assumes "sane_time a" "sane_time b"
  shows "timeval_cmp a b < 0 \<longleftrightarrow> usecs a < usecs b" "timeval_cmp a b > 0 \<longleftrightarrow> usecs a > usecs b"
proof -
  have "timeval_cmp a b = (if tv_sec a = tv_sec b then tv_usec a - tv_usec b else tv_sec a - tv_sec b)"
    using assms by (auto simp: timeval_cmp_def sane_time_def TIMER_SECOND_MICRO_def intro!: long_wrap_small)
  then show "timeval_cmp a b < 0 \<longleftrightarrow> usecs a < usecs b" "timeval_cmp a b > 0 \<longleftrightarrow> usecs a > usecs b"
    using assms by (auto simp: sane_time_def usecs_def TIMER_SECOND_MICRO_def)
qed

definition expiry :: "store \<Rightarrow> nat \<Rightarrow> int" where
  "expiry s t = usecs (sands (u (s t)))"

lemma thread_timer_cmp_expiry:
  assumes "timer_ok s a" "timer_ok s b"
  shows "thread_timer_cmp s a b < 0 \<longleftrightarrow> expiry s a < expiry s b"
    "thread_timer_cmp s a b > 0 \<longleftrightarrow> expiry s a > expiry s b"
    "thread_timer_cmp s a b \<le> 0 \<longleftrightarrow> expiry s a \<le> expiry s b"
  using assms timeval_cmp_usecs [of "sands (u (s a))" "sands (u (s b))"]
  by (auto simp: thread_timer_cmp_def timer_ok_def expiry_def Let_def)

interpretation timers: pqueue_pos "thread_timer_cmp s" "timer_ok s" thread_timer_update "\<lambda>st t. tindex (st t)"
  for s :: store
  by unfold_locales (auto simp: thread_timer_cmp_expiry thread_timer_update_def)

text \<open>Two stores that agree on the times of the threads agree on the queues.\<close>

lemma pq_inv_cong:
  assumes "\<And>t. t \<in># pq_mset q \<Longrightarrow> u (s t) = u (s' t)" "pq_size q \<le> length (array q)"
  shows "timers.pq_inv s q \<longleftrightarrow> timers.pq_inv s' q"
proof -
  have eq: "u (s (array q ! j)) = u (s' (array q ! j))" if "j < pq_size q" for j
    using assms(1) [of "array q ! j"] timers.nth_in_take [OF that assms(2)] by (simp add: pq_mset_def)
  have "timers.elems_ok s (array q) (pq_size q) \<longleftrightarrow> timers.elems_ok s' (array q) (pq_size q)"
    using eq by (auto simp: timers.elems_ok_def timer_ok_def)
  moreover have "timers.heap s (array q) (pq_size q) \<longleftrightarrow> timers.heap s' (array q) (pq_size q)"
  proof -
    have "thread_timer_cmp s (array q ! PARENT_OF j) (array q ! j)
        = thread_timer_cmp s' (array q ! PARENT_OF j) (array q ! j)" if "0 < j" "j < pq_size q" for j
      using eq [of j] eq [of "PARENT_OF j"] parent_lt [OF that(1)] that by (simp add: thread_timer_cmp_def)
    then show ?thesis by (auto simp: timers.heap_def)
  qed
  ultimately show ?thesis by (simp add: timers.pq_inv_def)
qed

text \<open>All fields but the position in the queue.\<close>

definition no_index :: "thread \<Rightarrow> thread" where
  "no_index t = t\<lparr>tindex := 0\<rparr>"

lemma no_index_fields:
  assumes "no_index a = no_index b"
  shows "type a = type b" "tnext a = tnext b" "tprev a = tprev b" "arg a = arg b" "u a = u b"
    "tindex a = tindex b \<Longrightarrow> a = b" "func a = func b"
  using assms by (cases a, cases b, auto simp: no_index_def)+

lemma pqueue_ops_index:
  shows "pqueue_enqueue null cmp thread_timer_update x q s = Inr (q', s') \<Longrightarrow> no_index (s' t) = no_index (s t)"
    and "pqueue_remove_at cmp thread_timer_update i q s = Inr (q', s') \<Longrightarrow> no_index (s' t) = no_index (s t)"
    and "pqueue_dequeue cmp thread_timer_update q s = Inr (y, q', s') \<Longrightarrow> no_index (s' t) = no_index (s t)"
  by (rule pqueue_ops_keep [where P = "\<lambda>st. no_index (st t) = no_index (s t)" and upd = thread_timer_update and s = s];
      auto simp: thread_timer_update_def no_index_def)+

lemma queue_of_set [simp]: "queue_of ty (set_queue ty q m) = q"
  by (simp add: queue_of_def set_queue_def)

lemma set_queue_fields [simp]:
  "threads (set_queue ty q m) = threads m" "ready (set_queue ty q m) = ready m"
  "event (set_queue ty q m) = event m" "unuse (set_queue ty q m) = unuse m"
  "queue_of ty (m\<lparr>threads := s\<rparr>) = queue_of ty m" "queue_of ty (m\<lparr>ready := l\<rparr>) = queue_of ty m"
  by (simp_all add: set_queue_def queue_of_def)

lemma tracked_cong:
  assumes "\<And>t. t \<in># pq_mset q \<Longrightarrow> tindex (s t) = tindex (s' t)" "pq_size q \<le> length (array q)"
  shows "timers.pq_tracked q s \<longleftrightarrow> timers.pq_tracked q s'"
proof -
  have "tindex (s (array q ! j)) = tindex (s' (array q ! j))" if "j < pq_size q" for j
    using assms(1) [of "array q ! j"] timers.nth_in_take [OF that assms(2)] by (simp add: pq_mset_def)
  then show ?thesis by (auto simp: timers.pq_tracked_def timers.tracked_def)
qed

lemma pq_inv_size: "timers.pq_inv s q \<Longrightarrow> pq_size q \<le> length (array q) \<and> array q \<noteq> []"
  by (auto simp: timers.pq_inv_def)

lemma tl_rep_cong:
  assumes "\<And>t. t \<in> set xs \<Longrightarrow> tnext (s t) = tnext (s' t) \<and> tprev (s t) = tprev (s' t)"
  shows "tl_rep l s xs \<longleftrightarrow> tl_rep l s' xs"
  using dlist_cong [of xs "\<lambda>t. tnext (s t)" "\<lambda>t. tnext (s' t)" "\<lambda>t. tprev (s t)" "\<lambda>t. tprev (s' t)"] assms
  by (simp add: tl_rep_def)

lemma count_distinct_pq: "timers.pq_tracked q s \<Longrightarrow> count (pq_mset q) t \<le> 1"
  by (simp add: timers.pq_tracked_def pq_mset_def distinct_count_atmost_1)

text \<open>One timer is taken from its queue and put on the ready list.\<close>

lemma timer_step:
  assumes q: "timers.pq_inv (threads m) q" "timers.pq_tracked q (threads m)" "0 < pq_size q"
    and rs: "tl_rep (ready m) (threads m) rs" "set rs \<inter> set_mset (pq_mset q) = {}"
  obtains q' s1 l s2 where
    "pqueue_dequeue (thread_timer_cmp (threads m)) thread_timer_update q (threads m) = Inr (array q ! 0, q', s1)"
    "thread_list_add (ready m) (array q ! 0) (s1(array q ! 0 := (s1 (array q ! 0))\<lparr>type := THREAD_READY\<rparr>)) = (l, s2)"
    "timers.pq_inv s2 q'" "timers.pq_tracked q' s2" "pq_mset q' = pq_mset q - {#array q ! 0#}"
    "tl_rep l s2 (rs @ [array q ! 0])" "\<forall>t. u (s2 t) = u (threads m t)"
    "\<forall>t. type (s2 t) = (if t = array q ! 0 then THREAD_READY else type (threads m t))"
proof -
  let ?s = "threads m" and ?t = "array q ! 0"
  obtain q' s1 where deq: "pqueue_dequeue (thread_timer_cmp ?s) thread_timer_update q ?s = Inr (?t, q', s1)"
    "timers.pq_inv ?s q'" "timers.pq_tracked q' s1" "pq_mset q' = pq_mset q - {#?t#}"
    using timers.pqueue_dequeue_tracked [OF q] by blast
  have idx: "no_index (s1 t) = no_index (?s t)" for t by (rule pqueue_ops_index(3) [OF deq(1)])
  note f = no_index_fields [OF idx]
  let ?s1 = "s1(?t := (s1 ?t)\<lparr>type := THREAD_READY\<rparr>)"
  have t: "?t \<in># pq_mset q" using timers.pq_root_least(1) [OF q(1,3)] .
  have "tl_rep (ready m) ?s1 rs" using rs(1) f by (subst tl_rep_cong [of rs _ ?s]) auto
  moreover have "?t \<notin> set rs" using t rs(2) by auto
  ultimately obtain l s2 where add: "thread_list_add (ready m) ?t ?s1 = (l, s2)" "tl_rep l s2 (rs @ [?t])"
    "\<forall>x. core (s2 x) = core (?s1 x)"
    using thread_list_add_rep by blast
  have g: "type (s2 x) = type (?s1 x)" "u (s2 x) = u (?s1 x)" "tindex (s2 x) = tindex (?s1 x)" for x
    using core_fields [of "s2 x" "?s1 x"] add(3) by auto
  have sz: "pq_size q' \<le> length (array q')" using pq_inv_size [OF deq(2)] by simp
  have "timers.pq_inv s2 q'"
    using deq(2) f g by (subst pq_inv_cong [OF _ sz, of _ ?s]) auto
  moreover have "timers.pq_tracked q' s2"
    using deq(3) g by (subst tracked_cong [OF _ sz, of _ s1]) auto
  moreover have "\<forall>x. u (s2 x) = u (?s x)" using f g by auto
  moreover have "\<forall>x. type (s2 x) = (if x = ?t then THREAD_READY else type (?s x))" using f g by auto
  ultimately show thesis using that deq(1,4) add by blast
qed

lemma timer_process_ok:
  assumes "timers.pq_inv (threads m) (queue_of ty m)" "timers.pq_tracked (queue_of ty m) (threads m)"
    and "tl_rep (ready m) (threads m) rs" "set rs \<inter> set_mset (pq_mset (queue_of ty m)) = {}"
    and "sane_time now" "rdy + pq_size (queue_of ty m) < 2 ^ 32"
  shows "\<exists>ts m'. thread_timer_process ty now m rdy = Some (Inr (rdy + length ts, m')) \<and>
     tl_rep (ready m') (threads m') (rs @ ts) \<and> sorted (map (expiry (threads m)) ts) \<and>
     mset ts = filter_mset (\<lambda>t. expiry (threads m) t \<le> usecs now) (pq_mset (queue_of ty m)) \<and>
     pq_mset (queue_of ty m') = filter_mset (\<lambda>t. \<not> expiry (threads m) t \<le> usecs now) (pq_mset (queue_of ty m)) \<and>
     timers.pq_inv (threads m') (queue_of ty m') \<and> timers.pq_tracked (queue_of ty m') (threads m') \<and>
     (\<forall>t. u (threads m' t) = u (threads m t)) \<and>
     (\<forall>t. type (threads m' t) = (if t \<in> set ts then THREAD_READY else type (threads m t)))"
  using assms
proof (induction "pq_size (queue_of ty m)" arbitrary: m rs rdy)
  case 0
  then show ?case
    by (intro exI [of _ "[]"] exI [of _ m])
      (simp add: thread_timer_process.simps pq_mset_def)
next
  case (Suc n)
  let ?q = "queue_of ty m" and ?s = "threads m"
  let ?t = "array ?q ! 0"
  have n: "0 < pq_size ?q" using Suc.hyps(2) by simp
  note root = timers.pq_root_least [OF Suc.prems(1) n]
  have ok: "timer_ok ?s t" if "t \<in># pq_mset ?q" for t
    using that Suc.prems(1) by (auto simp: timers.pq_inv_def timers.elems_ok_def pq_mset_def in_set_conv_nth)
  have cmp: "timeval_cmp now (sands (u (?s ?t))) < 0 \<longleftrightarrow> usecs now < expiry ?s ?t"
    using timeval_cmp_usecs(1) [OF Suc.prems(5), of "sands (u (?s ?t))"] ok [OF root(1)]
    by (simp add: timer_ok_def expiry_def)
  have least: "expiry ?s ?t \<le> expiry ?s t" if "t \<in># pq_mset ?q" for t
    using root(2) that thread_timer_cmp_expiry(3) ok [OF root(1)] ok [OF that] by blast
  have first: "mem_get (array ?q) 0 = Inr ?t" using pq_inv_size [OF Suc.prems(1)] by (simp add: mem_simps)
  show ?case
  proof (cases "usecs now < expiry ?s ?t")
    case True
    then have "\<not> expiry ?s t \<le> usecs now" if "t \<in># pq_mset ?q" for t using least [OF that] by simp
    then have "filter_mset (\<lambda>t. expiry ?s t \<le> usecs now) (pq_mset ?q) = {#}"
      "filter_mset (\<lambda>t. \<not> expiry ?s t \<le> usecs now) (pq_mset ?q) = pq_mset ?q"
      by (simp_all cong: filter_mset_cong)
    with True n first cmp Suc.prems show ?thesis
      by (intro exI [of _ "[]"] exI [of _ m]) (simp add: thread_timer_process.simps)
  next
    case False
    obtain q' s1 l s2 where st:
      "pqueue_dequeue (thread_timer_cmp ?s) thread_timer_update ?q ?s = Inr (?t, q', s1)"
      "thread_list_add (ready m) ?t (s1(?t := (s1 ?t)\<lparr>type := THREAD_READY\<rparr>)) = (l, s2)"
      "timers.pq_inv s2 q'" "timers.pq_tracked q' s2" "pq_mset q' = pq_mset ?q - {#?t#}"
      "tl_rep l s2 (rs @ [?t])" "\<forall>t. u (s2 t) = u (?s t)"
      "\<forall>t. type (s2 t) = (if t = ?t then THREAD_READY else type (?s t))"
      using timer_step [OF Suc.prems(1,2) n Suc.prems(3,4)] by blast
    let ?m = "(set_queue ty q' m)\<lparr>ready := l, threads := s2\<rparr>"
    have step: "thread_timer_process ty now m rdy = thread_timer_process ty now ?m (rdy + 1)"
      using n first cmp False st(1,2) Suc.prems(6)
      by (subst thread_timer_process.simps) (simp add: Let_def size_arith)
    have size: "pq_size q' = n"
    proof -
      have "size (pq_mset ?q) = Suc n" "size (pq_mset q') = pq_size q'"
        using pq_inv_size [OF Suc.prems(1)] pq_inv_size [OF st(3)] Suc.hyps(2) by (simp_all add: pq_mset_def)
      then show ?thesis using st(5) root(1) by (simp add: size_Diff_singleton)
    qed
    have "?t \<notin># pq_mset q'"
      using count_distinct_pq [OF Suc.prems(2), of ?t] root(1) st(5) by (simp add: in_diff_count not_in_iff)
    then have disj: "set (rs @ [?t]) \<inter> set_mset (pq_mset q') = {}"
      using Suc.prems(4) st(5) by (auto dest: in_diffD)
    have q: "queue_of ty ?m = q'" by (simp add: queue_of_def set_queue_def)
    have ex: "expiry s2 = expiry ?s" using st(7) by (auto simp: expiry_def)
    obtain ts m' where r: "thread_timer_process ty now ?m (rdy + 1) = Some (Inr (rdy + 1 + length ts, m'))"
      "tl_rep (ready m') (threads m') ((rs @ [?t]) @ ts)" "sorted (map (expiry ?s) ts)"
      "mset ts = filter_mset (\<lambda>t. expiry ?s t \<le> usecs now) (pq_mset q')"
      "pq_mset (queue_of ty m') = filter_mset (\<lambda>t. \<not> expiry ?s t \<le> usecs now) (pq_mset q')"
      "timers.pq_inv (threads m') (queue_of ty m')" "timers.pq_tracked (queue_of ty m') (threads m')"
      "\<forall>t. u (threads m' t) = u (s2 t)" "\<forall>t. type (threads m' t) = (if t \<in> set ts then THREAD_READY else type (s2 t))"
      using Suc.hyps(1) [of ?m "rs @ [?t]" "rdy + 1"] st(3,4,6) disj size Suc.prems(5,6) Suc.hyps(2)
      by (auto simp: q ex)
    have pq: "pq_mset ?q = add_mset ?t (pq_mset q')" using st(5) root(1) by simp
    have "\<forall>x\<in>set ts. expiry ?s ?t \<le> expiry ?s x"
    proof
      fix x assume "x \<in> set ts"
      then have "x \<in># pq_mset q'" using r(4) by (metis filter_mset_eq_conv mset_subset_eqD multiset_filter_subset set_mset_mset)
      then show "expiry ?s ?t \<le> expiry ?s x" using least pq by simp
    qed
    then have "sorted (map (expiry ?s) (?t # ts))" using r(3) by simp
    moreover have "mset (?t # ts) = filter_mset (\<lambda>t. expiry ?s t \<le> usecs now) (pq_mset ?q)"
      "pq_mset (queue_of ty m') = filter_mset (\<lambda>t. \<not> expiry ?s t \<le> usecs now) (pq_mset ?q)"
      using r(4,5) False pq by simp_all
    ultimately show ?thesis
      using step r(1,2,6-9) st(7,8) by (intro exI [of _ "?t # ts"] exI [of _ m']) simp
  qed
qed

end
