(* ===== verification/Scheduler_Inv.thy ===== *)
theory Scheduler_Inv
  imports Scheduler
begin

text \<open>
  The invariant of the scheduler of lib/thread.c.  Every thread that was ever allocated is in
  exactly the structure its type names (descriptor array, timer queue, list), or is in
  flight: taken out to be set up, moved or run.  The operations are composed of steps that
  check a thread out of its structure and check it in elsewhere.
\<close>

section \<open>The invariant\<close>

definition tlist :: "thread_type \<Rightarrow> thread_master \<Rightarrow> thread_list" where
  "tlist ty m = (if ty = THREAD_EVENT then event m else if ty = THREAD_READY then ready m else unuse m)"

definition set_tlist :: "thread_type \<Rightarrow> thread_list \<Rightarrow> thread_master \<Rightarrow> thread_master" where
  "set_tlist ty l m =
     (if ty = THREAD_EVENT then m\<lparr>event := l\<rparr> else if ty = THREAD_READY then m\<lparr>ready := l\<rparr> else m\<lparr>unuse := l\<rparr>)"

definition list_types :: "thread_type set" where
  "list_types = {THREAD_EVENT, THREAD_READY, THREAD_UNUSED}"

definition queue_types :: "thread_type set" where
  "queue_types = {THREAD_TIMER, THREAD_BACKGROUND}"

definition fd_types :: "thread_type set" where
  "fd_types = {THREAD_READ, THREAD_WRITE}"

lemmas type_sets = list_types_def queue_types_def fd_types_def

definition allocated :: "thread_master \<Rightarrow> nat set" where
  "allocated m = {t. 0 < t \<and> t < tbrk m}"

definition located :: "thread_master \<Rightarrow> (thread_type \<Rightarrow> nat list) \<Rightarrow> thread_type \<Rightarrow> nat set" where
  "located m ls ty =
     (if ty \<in> list_types then set (ls ty)
      else if ty \<in> queue_types then set_mset (pq_mset (queue_of ty m))
      else if ty \<in> fd_types then {t. Some t \<in> set (array_of ty m)} else {})"

definition fds_ok :: "thread_type \<Rightarrow> thread_master \<Rightarrow> bool" where
  "fds_ok dir m \<longleftrightarrow> length (array_of dir m) = fd_limit m \<and>
     (\<forall>fd. fdset_of dir m fd \<longleftrightarrow> fd < fd_limit m \<and> array_of dir m ! fd \<noteq> None) \<and>
     (\<forall>fd. fdset_of dir m fd \<longrightarrow> fd < FD_SETSIZE) \<and>
     (\<forall>fd < fd_limit m. \<forall>t. array_of dir m ! fd = Some t \<longrightarrow> u (threads m t) = Fd fd)"

text \<open>What each accessor does not depend on.\<close>

lemma master_frames [simp]:
  "tlist ty (m\<lparr>threads := s\<rparr>) = tlist ty m" "array_of ty (m\<lparr>threads := s\<rparr>) = array_of ty m"
  "fdset_of ty (m\<lparr>threads := s\<rparr>) = fdset_of ty m" "allocated (m\<lparr>threads := s\<rparr>) = allocated m"
  "queue_of ty (set_tlist ty' l m) = queue_of ty m" "array_of ty (set_tlist ty' l m) = array_of ty m"
  "fdset_of ty (set_tlist ty' l m) = fdset_of ty m" "allocated (set_tlist ty' l m) = allocated m"
  "threads (set_tlist ty' l m) = threads m" "fd_limit (set_tlist ty' l m) = fd_limit m"
  "alloc (set_tlist ty' l m) = alloc m" "tbrk (set_tlist ty' l m) = tbrk m"
  "tlist ty (set_queue ty' q m) = tlist ty m" "array_of ty (set_queue ty' q m) = array_of ty m"
  "fdset_of ty (set_queue ty' q m) = fdset_of ty m" "allocated (set_queue ty' q m) = allocated m"
  "fd_limit (set_queue ty' q m) = fd_limit m" "alloc (set_queue ty' q m) = alloc m" "tbrk (set_queue ty' q m) = tbrk m"
  "tlist ty (set_array ty' a m) = tlist ty m" "queue_of ty (set_array ty' a m) = queue_of ty m"
  "fdset_of ty (set_array ty' a m) = fdset_of ty m" "allocated (set_array ty' a m) = allocated m"
  "threads (set_array ty' a m) = threads m" "fd_limit (set_array ty' a m) = fd_limit m"
  "alloc (set_array ty' a m) = alloc m" "tbrk (set_array ty' a m) = tbrk m"
  "tlist ty (set_fdset ty' fds m) = tlist ty m" "queue_of ty (set_fdset ty' fds m) = queue_of ty m"
  "array_of ty (set_fdset ty' fds m) = array_of ty m" "allocated (set_fdset ty' fds m) = allocated m"
  "threads (set_fdset ty' fds m) = threads m" "fd_limit (set_fdset ty' fds m) = fd_limit m"
  "alloc (set_fdset ty' fds m) = alloc m" "tbrk (set_fdset ty' fds m) = tbrk m"
  by (auto simp: tlist_def set_tlist_def queue_of_def set_queue_def array_of_def set_array_def
      fdset_of_def set_fdset_def allocated_def)

definition queue_ok :: "thread_type \<Rightarrow> thread_master \<Rightarrow> bool" where
  "queue_ok ty m \<longleftrightarrow> timers.pq_inv (threads m) (queue_of ty m) \<and> timers.pq_tracked (queue_of ty m) (threads m)"

definition sched_inv :: "thread_master \<Rightarrow> (thread_type \<Rightarrow> nat list) \<Rightarrow> nat set \<Rightarrow> bool" where
  "sched_inv m ls R \<longleftrightarrow>
     (\<forall>ty\<in>list_types. tl_rep (tlist ty m) (threads m) (ls ty)) \<and>
     (\<forall>ty\<in>queue_types. queue_ok ty m) \<and> (\<forall>ty\<in>fd_types. fds_ok ty m) \<and>
     (\<forall>ty. located m ls ty = {t \<in> allocated m - R. type (threads m t) = ty}) \<and>
     (\<forall>t \<in> allocated m. (\<forall>ty\<in>list_types. t \<notin> set (ls ty)) \<longrightarrow>
        tnext (threads m t) = None \<and> tprev (threads m t) = None) \<and>
     R \<subseteq> allocated m \<and> 0 < tbrk m \<and> alloc m = (tbrk m - 1) mod 2 ^ 64"

lemma sched_invD:
  assumes "sched_inv m ls R"
  shows "ty \<in> list_types \<Longrightarrow> tl_rep (tlist ty m) (threads m) (ls ty)"
    and "ty \<in> queue_types \<Longrightarrow> queue_ok ty m"
    and "ty \<in> fd_types \<Longrightarrow> fds_ok ty m"
    and "located m ls ty = {t \<in> allocated m - R. type (threads m t) = ty}"
    and "t \<in> allocated m \<Longrightarrow> (\<And>ty. ty \<in> list_types \<Longrightarrow> t \<notin> set (ls ty)) \<Longrightarrow>
      tnext (threads m t) = None \<and> tprev (threads m t) = None"
    and "R \<subseteq> allocated m" "0 < tbrk m" "alloc m = (tbrk m - 1) mod 2 ^ 64"
  using assms by (auto simp: sched_inv_def)

lemma sched_invI:
  assumes "\<And>ty. ty \<in> list_types \<Longrightarrow> tl_rep (tlist ty m) (threads m) (ls ty)"
    and "\<And>ty. ty \<in> queue_types \<Longrightarrow> queue_ok ty m"
    and "\<And>ty. ty \<in> fd_types \<Longrightarrow> fds_ok ty m"
    and "\<And>ty. located m ls ty = {t \<in> allocated m - R. type (threads m t) = ty}"
    and "\<And>t. t \<in> allocated m \<Longrightarrow> (\<And>ty. ty \<in> list_types \<Longrightarrow> t \<notin> set (ls ty)) \<Longrightarrow>
      tnext (threads m t) = None \<and> tprev (threads m t) = None"
    and "R \<subseteq> allocated m" "0 < tbrk m" "alloc m = (tbrk m - 1) mod 2 ^ 64"
  shows "sched_inv m ls R"
  using assms by (simp add: sched_inv_def)

text \<open>A thread in flight is in no structure.\<close>

lemma in_flight:
  assumes "sched_inv m ls R" "t \<in> R"
  shows "t \<in> allocated m" "t \<notin> located m ls ty" "tnext (threads m t) = None" "tprev (threads m t) = None"
proof -
  show t: "t \<in> allocated m" using sched_invD(6) [OF assms(1)] assms(2) by auto
  show loc: "t \<notin> located m ls ty" for ty using sched_invD(4) [OF assms(1)] assms(2) by auto
  have "t \<notin> set (ls ty)" if "ty \<in> list_types" for ty using loc [of ty] that by (simp add: located_def)
  then show "tnext (threads m t) = None" "tprev (threads m t) = None" using sched_invD(5) [OF assms(1) t] by auto
qed

lemma queue_ok_cong:
  assumes "\<And>t. t \<in># pq_mset (queue_of ty m) \<Longrightarrow> u (s t) = u (threads m t) \<and> tindex (s t) = tindex (threads m t)"
  shows "queue_ok ty (m\<lparr>threads := s\<rparr>) \<longleftrightarrow> queue_ok ty m"
proof (cases "pq_size (queue_of ty m) \<le> length (array (queue_of ty m))")
  case True
  then show ?thesis
    using pq_inv_cong [OF _ True, of s "threads m"] tracked_cong [OF _ True, of s "threads m"] assms
    by (simp add: queue_ok_def)
next
  case False
  then show ?thesis using pq_inv_size by (auto simp: queue_ok_def)
qed

text \<open>Only threads in flight have changed.\<close>

lemma sched_inv_store:
  assumes inv: "sched_inv m ls R" and same: "\<And>t. t \<in> allocated m - R \<Longrightarrow> s t = threads m t"
    and links: "\<And>t. t \<in> R \<Longrightarrow> tnext (s t) = None \<and> tprev (s t) = None"
  shows "sched_inv (m\<lparr>threads := s\<rparr>) ls R"
proof (rule sched_invI)
  have loc: "s t = threads m t" if "t \<in> located m ls ty" for t ty
    using sched_invD(4) [OF inv, of ty] that same by auto
  fix ty
  show "tl_rep (tlist ty (m\<lparr>threads := s\<rparr>)) (threads (m\<lparr>threads := s\<rparr>)) (ls ty)" if "ty \<in> list_types"
    using sched_invD(1) [OF inv that] loc [of _ ty] that tl_rep_cong [of "ls ty" s "threads m" "tlist ty m"]
    by (simp add: located_def)
  show "queue_ok ty (m\<lparr>threads := s\<rparr>)" if "ty \<in> queue_types"
    using sched_invD(2) [OF inv that] loc [of _ ty] that queue_ok_cong [of ty m s]
    by (auto simp: located_def type_sets)
  show "fds_ok ty (m\<lparr>threads := s\<rparr>)" if fd: "ty \<in> fd_types"
  proof -
    have "u (s t) = u (threads m t)" if "fd < fd_limit m" "array_of ty m ! fd = Some t" for fd t
    proof -
      have "Some t \<in> set (array_of ty m)"
        using sched_invD(3) [OF inv fd] that by (auto simp: fds_ok_def in_set_conv_nth)
      then show ?thesis using loc [of t ty] fd by (auto simp: located_def type_sets)
    qed
    then show ?thesis using sched_invD(3) [OF inv fd]
      by (auto simp: fds_ok_def)
  qed
  show "located (m\<lparr>threads := s\<rparr>) ls ty
      = {t \<in> allocated (m\<lparr>threads := s\<rparr>) - R. type (threads (m\<lparr>threads := s\<rparr>) t) = ty}"
  proof -
    have "located (m\<lparr>threads := s\<rparr>) ls ty = located m ls ty" by (simp add: located_def)
    also have "\<dots> = {t \<in> allocated m - R. type (s t) = ty}"
      using same by (subst sched_invD(4) [OF inv]) auto
    finally show ?thesis by simp
  qed
next
  fix t assume t: "t \<in> allocated (m\<lparr>threads := s\<rparr>)" "\<And>ty. ty \<in> list_types \<Longrightarrow> t \<notin> set (ls ty)"
  then have "tnext (threads m t) = None \<and> tprev (threads m t) = None"
    using sched_invD(5) [OF inv, of t] by (simp add: allocated_def)
  then show "tnext (threads (m\<lparr>threads := s\<rparr>) t) = None \<and> tprev (threads (m\<lparr>threads := s\<rparr>) t) = None"
    using same [of t] links [of t] t(1) by (cases "t \<in> R") (auto simp: allocated_def)
qed (use sched_invD(6-8) [OF inv] in \<open>auto simp: allocated_def\<close>)

section \<open>Checking threads in and out\<close>

lemma tlist_set:
  assumes "ty \<in> list_types" "ty' \<in> list_types"
  shows "tlist ty (set_tlist ty' l m) = (if ty = ty' then l else tlist ty m)"
  using assms by (auto simp: tlist_def set_tlist_def list_types_def)

lemma queue_of_set_queue:
  assumes "ty \<in> queue_types" "ty' \<in> queue_types"
  shows "queue_of ty (set_queue ty' q m) = (if ty = ty' then q else queue_of ty m)"
  using assms by (auto simp: queue_of_def set_queue_def queue_types_def)

lemma array_of_set_array:
  assumes "ty \<in> fd_types" "ty' \<in> fd_types"
  shows "array_of ty (set_array ty' a m) = (if ty = ty' then a else array_of ty m)"
  using assms by (auto simp: array_of_def set_array_def fd_types_def)

lemma fdset_of_set_fdset:
  assumes "ty \<in> fd_types" "ty' \<in> fd_types"
  shows "fdset_of ty (set_fdset ty' fds m) = (if ty = ty' then fds else fdset_of ty m)"
  using assms by (auto simp: fdset_of_def set_fdset_def fd_types_def)

lemma types_disjoint:
  "ty \<in> queue_types \<Longrightarrow> ty \<notin> list_types" "ty \<in> fd_types \<Longrightarrow> ty \<notin> list_types"
  "ty \<in> fd_types \<Longrightarrow> ty \<notin> queue_types" "ty \<in> queue_types \<Longrightarrow> ty \<notin> fd_types"
  by (auto simp: type_sets)

text \<open>
  Both directions for lists.  The store after the list operation differs from the one before
  in the links of the members of that list only.
\<close>

lemma sched_inv_list:
  assumes inv: "sched_inv m ls R" and ty: "ty \<in> list_types"
    and rep: "tl_rep l s xs" and core: "\<And>x. core (s x) = core (threads m x)"
    and frame: "\<And>x. x \<notin> set (ls ty) \<Longrightarrow> x \<notin> set xs \<Longrightarrow> s x = threads m x"
    and out: "\<And>x. x \<in> set (ls ty) \<Longrightarrow> x \<notin> set xs \<Longrightarrow> tnext (s x) = None \<and> tprev (s x) = None"
    and move: "set xs \<union> R' = set (ls ty) \<union> R" "set xs \<inter> R' = {}"
    and type: "\<And>x. x \<in> set xs \<Longrightarrow> type (threads m x) = ty"
  shows "sched_inv ((set_tlist ty l m)\<lparr>threads := s\<rparr>) (ls(ty := xs)) R'"
proof (rule sched_invI)
  let ?m = "(set_tlist ty l m)\<lparr>threads := s\<rparr>"
  note f = core_fields [OF core]
  have loc: "located m ls ty = set (ls ty)" using ty by (simp add: located_def)
  have other: "located m ls ty' \<inter> (set (ls ty) \<union> R) = {}" if "ty' \<noteq> ty" for ty'
    using sched_invD(4) [OF inv] that loc by auto
  fix ty'
  show "tl_rep (tlist ty' ?m) (threads ?m) ((ls(ty := xs)) ty')" if "ty' \<in> list_types"
  proof (cases "ty' = ty")
    case True
    then show ?thesis using rep tlist_set [OF ty ty] by simp
  next
    case False
    then have "s x = threads m x" if "x \<in> set (ls ty')" for x
      using frame other [OF False] move(1) that \<open>ty' \<in> list_types\<close> by (auto simp: located_def)
    then show ?thesis
      using False sched_invD(1) [OF inv that] tlist_set [OF that ty] tl_rep_cong [of "ls ty'" s "threads m"] by auto
  qed
  show "queue_ok ty' ?m" if "ty' \<in> queue_types"
  proof -
    have "queue_ok ty' (set_tlist ty l m)" using sched_invD(2) [OF inv that] by (simp add: queue_ok_def)
    then show ?thesis using f by (subst queue_ok_cong) auto
  qed
  show "fds_ok ty' ?m" if "ty' \<in> fd_types"
    using sched_invD(3) [OF inv that] f by (auto simp: fds_ok_def)
  show "located ?m (ls(ty := xs)) ty' = {t \<in> allocated ?m - R'. type (threads ?m t) = ty'}"
  proof (cases "ty' = ty")
    case True
    have "t \<in> set xs \<longleftrightarrow> t \<in> allocated m - R' \<and> type (threads m t) = ty" for t
    proof
      assume t: "t \<in> set xs"
      then have "t \<in> set (ls ty) \<union> R" using move(1) by auto
      then have "t \<in> allocated m" using sched_invD(4,6) [OF inv] loc by auto
      then show "t \<in> allocated m - R' \<and> type (threads m t) = ty" using t move(2) type by auto
    next
      assume t: "t \<in> allocated m - R' \<and> type (threads m t) = ty"
      then have "t \<in> set (ls ty) \<union> R" using sched_invD(4) [OF inv, of ty] loc by auto
      then show "t \<in> set xs" using t move(1) by auto
    qed
    then show ?thesis using True ty f by (auto simp: located_def)
  next
    case False
    have "located ?m (ls(ty := xs)) ty' = located m ls ty'" using False by (simp add: located_def)
    moreover have "t \<in> R' \<longleftrightarrow> t \<in> R" if "t \<in> allocated m" "type (threads m t) = ty'" for t
      using False that move type sched_invD(4) [OF inv, of ty] loc by auto
    ultimately show ?thesis using sched_invD(4) [OF inv, of ty'] f by auto
  qed
next
  fix t assume t: "t \<in> allocated ((set_tlist ty l m)\<lparr>threads := s\<rparr>)"
    "\<And>ty'. ty' \<in> list_types \<Longrightarrow> t \<notin> set ((ls(ty := xs)) ty')"
  show "tnext (threads ((set_tlist ty l m)\<lparr>threads := s\<rparr>) t) = None \<and>
      tprev (threads ((set_tlist ty l m)\<lparr>threads := s\<rparr>) t) = None"
  proof (cases "t \<in> set (ls ty)")
    case True
    then show ?thesis using out t(2) [OF ty] by simp
  next
    case False
    then have "s t = threads m t" using frame t(2) [OF ty] by simp
    moreover have "t \<notin> set (ls ty')" if "ty' \<in> list_types" for ty'
      using t(2) [OF that] False by (cases "ty' = ty") auto
    ultimately show ?thesis using sched_invD(5) [OF inv, of t] t(1) by simp
  qed
next
  have "set (ls ty) \<subseteq> allocated m" using sched_invD(4) [OF inv, of ty] ty by (auto simp: located_def)
  then show "R' \<subseteq> allocated ((set_tlist ty l m)\<lparr>threads := s\<rparr>)" using sched_invD(6) [OF inv] move(1) by auto
qed (use sched_invD(7,8) [OF inv] in simp_all)

lemma checkin_list:
  assumes inv: "sched_inv m ls R" and ty: "ty \<in> list_types" and t: "t \<in> R" "type (threads m t) = ty"
  shows "\<exists>l s. thread_list_add (tlist ty m) t (threads m) = (l, s) \<and>
     sched_inv ((set_tlist ty l m)\<lparr>threads := s\<rparr>) (ls(ty := ls ty @ [t])) (R - {t}) \<and>
     (\<forall>x. core (s x) = core (threads m x))"
proof -
  have nt: "t \<notin> set (ls ty)" using in_flight(2) [OF inv t(1), of ty] ty by (simp add: located_def)
  have loc: "set (ls ty) = {t \<in> allocated m - R. type (threads m t) = ty}"
    using sched_invD(4) [OF inv, of ty] ty by (simp add: located_def)
  obtain l s where add: "thread_list_add (tlist ty m) t (threads m) = (l, s)" "tl_rep l s (ls ty @ [t])"
    "\<forall>x. core (s x) = core (threads m x)" "\<forall>x. x \<notin> set (t # ls ty) \<longrightarrow> s x = threads m x"
    using thread_list_add_rep [OF sched_invD(1) [OF inv ty] nt] by blast
  have "sched_inv ((set_tlist ty l m)\<lparr>threads := s\<rparr>) (ls(ty := ls ty @ [t])) (R - {t})"
    by (rule sched_inv_list [OF inv ty add(2)]) (use add(3,4) t loc in auto)
  with add(1,3) show ?thesis by blast
qed

lemma checkout_list:
  assumes inv: "sched_inv m ls R" and ty: "ty \<in> list_types" and xs: "ls ty = xs @ t # ys"
  shows "\<exists>l s. thread_list_delete (tlist ty m) t (threads m) = (l, s) \<and>
     sched_inv ((set_tlist ty l m)\<lparr>threads := s\<rparr>) (ls(ty := xs @ ys)) (insert t R) \<and>
     (\<forall>x. core (s x) = core (threads m x))"
proof -
  have loc: "set (ls ty) = {t \<in> allocated m - R. type (threads m t) = ty}"
    using sched_invD(4) [OF inv, of ty] ty by (simp add: located_def)
  have rep: "tl_rep (tlist ty m) (threads m) (xs @ t # ys)" using sched_invD(1) [OF inv ty] xs by simp
  have d: "t \<notin> set (xs @ ys)" using rep by (auto simp: tl_rep_def dlist_def)
  obtain l s where del: "thread_list_delete (tlist ty m) t (threads m) = (l, s)" "tl_rep l s (xs @ ys)"
    "tnext (s t) = None" "tprev (s t) = None" "\<forall>x. core (s x) = core (threads m x)"
    "\<forall>x. x \<notin> set (xs @ t # ys) \<longrightarrow> s x = threads m x"
    using thread_list_delete_rep [OF rep] by blast
  have "sched_inv ((set_tlist ty l m)\<lparr>threads := s\<rparr>) (ls(ty := xs @ ys)) (insert t R)"
    by (rule sched_inv_list [OF inv ty del(2)]) (use del d loc in \<open>auto simp: xs\<close>)
  with del(1,5) show ?thesis by blast
qed

text \<open>Both directions for the timer queues; only the stored positions change.\<close>

lemma sched_inv_queue:
  assumes inv: "sched_inv m ls R" and ty: "ty \<in> queue_types"
    and q: "timers.pq_inv (threads m) q" "timers.pq_tracked q s"
    and idx: "\<And>x. no_index (s x) = no_index (threads m x)"
    and frame: "\<And>x. x \<notin># pq_mset (queue_of ty m) \<Longrightarrow> x \<notin> R \<Longrightarrow> s x = threads m x"
    and move: "set_mset (pq_mset q) \<union> R' = set_mset (pq_mset (queue_of ty m)) \<union> R" "set_mset (pq_mset q) \<inter> R' = {}"
    and type: "\<And>x. x \<in># pq_mset q \<Longrightarrow> type (threads m x) = ty"
  shows "sched_inv ((set_queue ty q m)\<lparr>threads := s\<rparr>) ls R'"
proof (rule sched_invI)
  let ?m = "(set_queue ty q m)\<lparr>threads := s\<rparr>" and ?Q = "set_mset (pq_mset (queue_of ty m))"
  note f = no_index_fields [OF idx]
  have loc: "located m ls ty = ?Q" using ty types_disjoint by (auto simp: located_def)
  have other: "located m ls ty' \<inter> (?Q \<union> R) = {}" if "ty' \<noteq> ty" for ty'
    using sched_invD(4) [OF inv] that loc by auto
  fix ty'
  show "tl_rep (tlist ty' ?m) (threads ?m) (ls ty')" if "ty' \<in> list_types"
    using sched_invD(1) [OF inv that] f tl_rep_cong [of "ls ty'" s "threads m"] by simp
  show "queue_ok ty' ?m" if ty': "ty' \<in> queue_types"
  proof (cases "ty' = ty")
    case True
    have "timers.pq_inv s q" using q(1) f pq_inv_size [OF q(1)] by (subst pq_inv_cong [of _ _ "threads m"]) auto
    then show ?thesis using True q(2) by (simp add: queue_ok_def)
  next
    case False
    have "s x = threads m x" if "x \<in># pq_mset (queue_of ty' m)" for x
      using frame other [OF False] that ty' types_disjoint [of ty'] by (auto simp: located_def)
    moreover have "queue_ok ty' (set_queue ty q m)"
      using sched_invD(2) [OF inv ty'] queue_of_set_queue [OF ty' ty] False by (simp add: queue_ok_def)
    ultimately show ?thesis
      using queue_ok_cong [of ty' "set_queue ty q m" s] queue_of_set_queue [OF ty' ty] False by simp
  qed
  show "fds_ok ty' ?m" if "ty' \<in> fd_types"
    using sched_invD(3) [OF inv that] f by (auto simp: fds_ok_def)
  show "located ?m ls ty' = {t \<in> allocated ?m - R'. type (threads ?m t) = ty'}"
  proof (cases "ty' = ty")
    case True
    have "t \<in># pq_mset q \<longleftrightarrow> t \<in> allocated m - R' \<and> type (threads m t) = ty" for t
    proof
      assume t: "t \<in># pq_mset q"
      then have "t \<in> ?Q \<union> R" using move(1) by auto
      then have "t \<in> allocated m" using sched_invD(4,6) [OF inv] loc by auto
      then show "t \<in> allocated m - R' \<and> type (threads m t) = ty" using t move(2) type by auto
    next
      assume t: "t \<in> allocated m - R' \<and> type (threads m t) = ty"
      then have "t \<in> ?Q \<union> R" using sched_invD(4) [OF inv, of ty] loc by auto
      then show "t \<in># pq_mset q" using t move(1) by auto
    qed
    then show ?thesis using True ty types_disjoint(1) [OF ty] f by (auto simp: located_def)
  next
    case False
    have "located ?m ls ty' = located m ls ty'"
      using False queue_of_set_queue [OF _ ty, of ty'] by (simp add: located_def)
    moreover have "t \<in> R' \<longleftrightarrow> t \<in> R" if "t \<in> allocated m" "type (threads m t) = ty'" for t
      using False that move type sched_invD(4) [OF inv, of ty] loc by auto
    ultimately show ?thesis using sched_invD(4) [OF inv, of ty'] f by auto
  qed
next
  fix t assume "t \<in> allocated ((set_queue ty q m)\<lparr>threads := s\<rparr>)" "\<And>ty'. ty' \<in> list_types \<Longrightarrow> t \<notin> set (ls ty')"
  then show "tnext (threads ((set_queue ty q m)\<lparr>threads := s\<rparr>) t) = None \<and>
      tprev (threads ((set_queue ty q m)\<lparr>threads := s\<rparr>) t) = None"
    using sched_invD(5) [OF inv, of t] no_index_fields [OF idx] by simp
next
  have "set_mset (pq_mset (queue_of ty m)) \<subseteq> allocated m"
    using sched_invD(4) [OF inv, of ty] ty types_disjoint(1) [OF ty] by (auto simp: located_def)
  then show "R' \<subseteq> allocated ((set_queue ty q m)\<lparr>threads := s\<rparr>)" using sched_invD(6) [OF inv] move(1) by auto
qed (use sched_invD(7,8) [OF inv] in simp_all)

lemma queue_loc:
  assumes "sched_inv m ls R" "ty \<in> queue_types"
  shows "set_mset (pq_mset (queue_of ty m)) = {t \<in> allocated m - R. type (threads m t) = ty}"
  using sched_invD(4) [OF assms(1), of ty] assms(2) types_disjoint(1) [OF assms(2)] by (simp add: located_def)

lemma checkin_queue:
  assumes inv: "sched_inv m ls R" and ty: "ty \<in> queue_types" and t: "t \<in> R" "type (threads m t) = ty"
    and ok: "timer_ok (threads m) t" and room: "array_size (queue_of ty m) < 2 ^ 30"
  shows "\<exists>q s. pqueue_enqueue 0 (thread_timer_cmp (threads m)) thread_timer_update t (queue_of ty m) (threads m) = Inr (q, s) \<and>
     sched_inv ((set_queue ty q m)\<lparr>threads := s\<rparr>) ls (R - {t}) \<and> (\<forall>x. no_index (s x) = no_index (threads m x))"
proof -
  note loc = queue_loc [OF inv ty]
  have qk: "timers.pq_inv (threads m) (queue_of ty m)" "timers.pq_tracked (queue_of ty m) (threads m)"
    using sched_invD(2) [OF inv ty] by (auto simp: queue_ok_def)
  have nt: "t \<notin># pq_mset (queue_of ty m)" using loc t(1) by auto
  obtain q s where enq: "pqueue_enqueue 0 (thread_timer_cmp (threads m)) thread_timer_update t (queue_of ty m) (threads m) = Inr (q, s)"
    "timers.pq_inv (threads m) q" "timers.pq_tracked q s" "pq_mset q = add_mset t (pq_mset (queue_of ty m))"
    "\<forall>y. y \<notin># pq_mset q \<longrightarrow> tindex (s y) = tindex (threads m y)"
    using timers.pqueue_enqueue_tracked [OF qk ok nt room] by blast
  have idx: "no_index (s x) = no_index (threads m x)" for x by (rule pqueue_ops_index(1) [OF enq(1)])
  have "sched_inv ((set_queue ty q m)\<lparr>threads := s\<rparr>) ls (R - {t})"
  proof (rule sched_inv_queue [OF inv ty enq(2,3) idx])
    fix x assume "x \<notin># pq_mset (queue_of ty m)" "x \<notin> R"
    then have "x \<notin># pq_mset q" using enq(4) t(1) by auto
    then show "s x = threads m x" using enq(5) no_index_fields(6) [OF idx] by blast
  qed (use enq(4) t loc in auto)
  with enq(1) idx show ?thesis by blast
qed

lemma checkout_queue:
  assumes inv: "sched_inv m ls R" and ty: "ty \<in> queue_types" and i: "i < pq_size (queue_of ty m)"
    and t: "t = array (queue_of ty m) ! i"
  shows "\<exists>q s. pqueue_remove_at (thread_timer_cmp (threads m)) thread_timer_update i (queue_of ty m) (threads m) = Inr (q, s) \<and>
     sched_inv ((set_queue ty q m)\<lparr>threads := s\<rparr>) ls (insert t R) \<and> (\<forall>x. no_index (s x) = no_index (threads m x))"
proof -
  note loc = queue_loc [OF inv ty]
  have qk: "timers.pq_inv (threads m) (queue_of ty m)" "timers.pq_tracked (queue_of ty m) (threads m)"
    using sched_invD(2) [OF inv ty] by (auto simp: queue_ok_def)
  have mem: "t \<in># pq_mset (queue_of ty m)"
    using timers.nth_in_take [OF i, of "array (queue_of ty m)"] pq_inv_size [OF qk(1)] by (auto simp: pq_mset_def t)
  obtain q s where rm: "pqueue_remove_at (thread_timer_cmp (threads m)) thread_timer_update i (queue_of ty m) (threads m) = Inr (q, s)"
    "timers.pq_inv (threads m) q" "timers.pq_tracked q s" "pq_mset q = pq_mset (queue_of ty m) - {#t#}"
    "\<forall>y. y \<notin># pq_mset (queue_of ty m) \<longrightarrow> tindex (s y) = tindex (threads m y)"
    using timers.pqueue_remove_at_tracked [OF qk i] t by blast
  have idx: "no_index (s x) = no_index (threads m x)" for x by (rule pqueue_ops_index(2) [OF rm(1)])
  have set: "set_mset (pq_mset q) = set_mset (pq_mset (queue_of ty m)) - {t}"
  proof -
    have "t \<notin># pq_mset q" using count_distinct_pq [OF qk(2), of t] mem rm(4) by (simp add: not_in_iff)
    moreover have "pq_mset (queue_of ty m) = add_mset t (pq_mset q)" using rm(4) mem by simp
    ultimately show ?thesis by auto
  qed
  have "sched_inv ((set_queue ty q m)\<lparr>threads := s\<rparr>) ls (insert t R)"
  proof (rule sched_inv_queue [OF inv ty rm(2,3) idx])
    fix x assume "x \<notin># pq_mset (queue_of ty m)"
    then show "s x = threads m x" using rm(5) no_index_fields(6) [OF idx] by blast
  qed (use set mem loc in auto)
  with rm(1) idx show ?thesis by blast
qed

text \<open>Both directions for the descriptor arrays.\<close>

lemma fd_loc:
  assumes "sched_inv m ls R" "ty \<in> fd_types"
  shows "{t. Some t \<in> set (array_of ty m)} = {t \<in> allocated m - R. type (threads m t) = ty}"
  using sched_invD(4) [OF assms(1), of ty] assms(2) types_disjoint(2,3) [OF assms(2)] by (simp add: located_def)

lemma sched_inv_fd:
  assumes inv: "sched_inv m ls R" and ty: "ty \<in> fd_types"
    and fds: "fds_ok ty (set_array ty a (set_fdset ty F m))"
    and move: "{t. Some t \<in> set a} \<union> R' = {t. Some t \<in> set (array_of ty m)} \<union> R" "{t. Some t \<in> set a} \<inter> R' = {}"
    and type: "\<And>t. Some t \<in> set a \<Longrightarrow> type (threads m t) = ty"
  shows "sched_inv (set_array ty a (set_fdset ty F m)) ls R'"
proof (rule sched_invI)
  let ?m = "set_array ty a (set_fdset ty F m)"
  note loc = fd_loc [OF inv ty]
  fix ty'
  show "tl_rep (tlist ty' ?m) (threads ?m) (ls ty')" if "ty' \<in> list_types"
    using sched_invD(1) [OF inv that] by simp
  show "queue_ok ty' ?m" if "ty' \<in> queue_types"
    using sched_invD(2) [OF inv that] by (simp add: queue_ok_def)
  show "fds_ok ty' ?m" if "ty' \<in> fd_types"
    using sched_invD(3) [OF inv that] fds array_of_set_array [OF that ty] fdset_of_set_fdset [OF that ty]
    by (cases "ty' = ty") (simp_all add: fds_ok_def)
  show "located ?m ls ty' = {t \<in> allocated ?m - R'. type (threads ?m t) = ty'}"
  proof (cases "ty' = ty")
    case True
    have "Some t \<in> set a \<longleftrightarrow> t \<in> allocated m - R' \<and> type (threads m t) = ty" for t
      using move type loc sched_invD(6) [OF inv] by blast
    then show ?thesis
      using True ty types_disjoint(2,3) [OF ty] array_of_set_array [OF ty ty] by (simp add: located_def)
  next
    case False
    have "located ?m ls ty' = located m ls ty'"
      using False array_of_set_array [OF _ ty, of ty'] by (simp add: located_def)
    moreover have "t \<in> R' \<longleftrightarrow> t \<in> R" if "t \<in> allocated m" "type (threads m t) = ty'" for t
      using False that move type loc by blast
    ultimately show ?thesis using sched_invD(4) [OF inv, of ty'] by auto
  qed
next
  show "R' \<subseteq> allocated (set_array ty a (set_fdset ty F m))"
    using sched_invD(6) [OF inv] move(1) fd_loc [OF inv ty] by auto
qed (use sched_invD(5,7,8) [OF inv] in simp_all)

lemma set_update_some:
  "fd < length a \<Longrightarrow> a ! fd = None \<Longrightarrow> {t. Some t \<in> set (a[fd := Some x])} = insert x {t. Some t \<in> set a}"
proof -
  assume fd: "fd < length a" "a ! fd = None"
  let ?S = "set (take fd a) \<union> set (drop (Suc fd) a)"
  have "set a = insert None ?S"
    using arg_cong [OF id_take_nth_drop [OF fd(1)], of set] fd(2) by simp
  moreover have "set (a[fd := Some x]) = insert (Some x) ?S"
    using fd(1) by (simp add: upd_conv_take_nth_drop)
  ultimately show ?thesis by auto
qed

lemma checkin_fd:
  assumes inv: "sched_inv m ls R" and ty: "ty \<in> fd_types" and t: "t \<in> R" "type (threads m t) = ty"
    and fd: "u (threads m t) = Fd fd" "fd < fd_limit m" "fd < FD_SETSIZE" "\<not> fdset_of ty m fd"
  shows "\<exists>m'. thread_add_fd ty t (set_fdset ty ((fdset_of ty m)(fd := True)) m) = Inr m' \<and> sched_inv m' ls (R - {t}) \<and>
     threads m' = threads m"
proof -
  let ?a = "(array_of ty m)[fd := Some t]"
  have ok: "fds_ok ty m" by (rule sched_invD(3) [OF inv ty])
  then have len: "fd < length (array_of ty m)" "array_of ty m ! fd = None" using fd by (auto simp: fds_ok_def)
  have set: "{x. Some x \<in> set ?a} = insert t {x. Some x \<in> set (array_of ty m)}" by (rule set_update_some [OF len])
  have "thread_add_fd ty t (set_fdset ty ((fdset_of ty m)(fd := True)) m) = Inr (set_array ty ?a (set_fdset ty ((fdset_of ty m)(fd := True)) m))"
    using len fd by (simp add: thread_add_fd_def mem_simps)
  moreover have "sched_inv (set_array ty ?a (set_fdset ty ((fdset_of ty m)(fd := True)) m)) ls (R - {t})"
  proof (rule sched_inv_fd [OF inv ty])
    show "fds_ok ty (set_array ty ?a (set_fdset ty ((fdset_of ty m)(fd := True)) m))"
      using ok len fd array_of_set_array [OF ty ty] fdset_of_set_fdset [OF ty ty]
      by (auto simp: fds_ok_def nth_list_update)
  qed (use set t fd_loc [OF inv ty] in auto)
  ultimately show ?thesis by auto
qed

lemma checkout_fd:
  assumes inv: "sched_inv m ls R" and ty: "ty \<in> fd_types" and t: "fd < fd_limit m" "array_of ty m ! fd = Some t"
  shows "\<exists>m'. thread_delete_fd ty t (set_fdset ty ((fdset_of ty m)(fd := False)) m) = Inr m' \<and> sched_inv m' ls (insert t R) \<and>
     threads m' = threads m"
proof -
  let ?a = "(array_of ty m)[fd := None]"
  have ok: "fds_ok ty m" by (rule sched_invD(3) [OF inv ty])
  then have len: "fd < length (array_of ty m)" "u (threads m t) = Fd fd" using t by (auto simp: fds_ok_def)
  have uniq: "fd' = fd" if "fd' < length (array_of ty m)" "array_of ty m ! fd' = Some t" for fd'
    using ok that len(2) by (auto simp: fds_ok_def)
  have set: "{x. Some x \<in> set ?a} = {x. Some x \<in> set (array_of ty m)} - {t}"
  proof -
    have "Some x \<in> set ?a \<longleftrightarrow> Some x \<in> set (array_of ty m) \<and> x \<noteq> t" for x
    proof
      assume "Some x \<in> set ?a"
      then obtain j where j: "j < length ?a" "?a ! j = Some x" by (auto simp: in_set_conv_nth)
      then have "j < length (array_of ty m)" "j \<noteq> fd" "array_of ty m ! j = Some x"
        using len(1) by (cases "j = fd"; simp)+
      then show "Some x \<in> set (array_of ty m) \<and> x \<noteq> t" using uniq by (auto simp: in_set_conv_nth)
    next
      assume x: "Some x \<in> set (array_of ty m) \<and> x \<noteq> t"
      then obtain j where "j < length (array_of ty m)" "array_of ty m ! j = Some x" by (auto simp: in_set_conv_nth)
      moreover from this x t(2) have "j \<noteq> fd" by auto
      ultimately show "Some x \<in> set ?a" by (auto simp: in_set_conv_nth intro!: exI [of _ j])
    qed
    then show ?thesis by auto
  qed
  have mem: "Some t \<in> set (array_of ty m)" using len(1) t(2) by (metis nth_mem)
  have "thread_delete_fd ty t (set_fdset ty ((fdset_of ty m)(fd := False)) m) = Inr (set_array ty ?a (set_fdset ty ((fdset_of ty m)(fd := False)) m))"
    using len by (simp add: thread_delete_fd_def mem_simps)
  moreover have "sched_inv (set_array ty ?a (set_fdset ty ((fdset_of ty m)(fd := False)) m)) ls (insert t R)"
  proof (rule sched_inv_fd [OF inv ty])
    show "fds_ok ty (set_array ty ?a (set_fdset ty ((fdset_of ty m)(fd := False)) m))"
      using ok len array_of_set_array [OF ty ty] fdset_of_set_fdset [OF ty ty]
      by (auto simp: fds_ok_def nth_list_update)
  qed (use set mem fd_loc [OF inv ty] in auto)
  ultimately show ?thesis by auto
qed

section \<open>The operations keep the invariant\<close>

lemma trim_head_unuse:
  assumes inv: "sched_inv m ls R" and ty: "ty \<in> list_types"
  shows "\<exists>r l s. thread_trim_head (tlist ty m) (threads m) = (r, l, s) \<and>
     (case r of None \<Rightarrow> ls ty = [] \<and> l = tlist ty m \<and> s = threads m
      | Some t \<Rightarrow> ls ty = t # tl (ls ty) \<and>
          sched_inv ((set_tlist ty l m)\<lparr>threads := s\<rparr>) (ls(ty := tl (ls ty))) (insert t R) \<and>
          (\<forall>x. core (s x) = core (threads m x)))"
proof (cases "ls ty")
  case Nil
  then show ?thesis using sched_invD(1) [OF inv ty] by (auto simp: tl_rep_def thread_trim_head_def)
next
  case (Cons t xs)
  then have "thead (tlist ty m) = Some t" using sched_invD(1) [OF inv ty] by (auto simp: tl_rep_def dlist_def)
  moreover obtain l s where "thread_list_delete (tlist ty m) t (threads m) = (l, s)"
    "sched_inv ((set_tlist ty l m)\<lparr>threads := s\<rparr>) (ls(ty := [] @ xs)) (insert t R)" "\<forall>x. core (s x) = core (threads m x)"
    using checkout_list [OF inv ty, of "[]" t xs] Cons by auto
  ultimately show ?thesis using Cons by (simp add: thread_trim_head_def)
qed

lemma sched_inv_set_thread:
  assumes "sched_inv m ls R" "t \<in> R" "tnext th = None" "tprev th = None"
  shows "sched_inv (m\<lparr>threads := (threads m)(t := th)\<rparr>) ls R"
  using assms in_flight(3,4) [OF assms(1)] by (intro sched_inv_store) auto

text \<open>A fresh thread is in flight.\<close>

lemma sched_inv_alloc:
  assumes inv: "sched_inv m ls R"
  shows "sched_inv (m\<lparr>threads := (threads m)(tbrk m := blank_thread), tbrk := tbrk m + 1, alloc := uadd 64 (alloc m) 1\<rparr>)
     ls (insert (tbrk m) R)"
proof (rule sched_invI)
  let ?m = "m\<lparr>threads := (threads m)(tbrk m := blank_thread), tbrk := tbrk m + 1, alloc := uadd 64 (alloc m) 1\<rparr>"
  have tb: "0 < tbrk m" using sched_invD(7) [OF inv] by simp
  have all: "allocated ?m = insert (tbrk m) (allocated m)" "tbrk m \<notin> allocated m"
    using tb by (auto simp: allocated_def)
  have acc: "tlist ty ?m = tlist ty m" "queue_of ty ?m = queue_of ty m" "array_of ty ?m = array_of ty m"
    "fdset_of ty ?m = fdset_of ty m" for ty
    by (simp_all add: tlist_def queue_of_def array_of_def fdset_of_def)
  have same: "threads ?m t = threads m t" if "t \<in> located m ls ty" for t ty
    using sched_invD(4) [OF inv, of ty] that all(2) by auto
  fix ty
  show "tl_rep (tlist ty ?m) (threads ?m) (ls ty)" if "ty \<in> list_types"
    using sched_invD(1) [OF inv that] same [of _ ty] that tl_rep_cong [of "ls ty" "threads ?m" "threads m" "tlist ty m"]
    by (simp only: acc located_def if_True)
  show "queue_ok ty ?m" if "ty \<in> queue_types"
  proof -
    have "queue_ok ty ?m \<longleftrightarrow> queue_ok ty (m\<lparr>threads := threads ?m\<rparr>)" by (simp add: queue_ok_def queue_of_def)
    also have "\<dots> \<longleftrightarrow> queue_ok ty m"
      using same [of _ ty] that types_disjoint(1) [OF that] by (intro queue_ok_cong) (simp add: located_def)
    finally show ?thesis using sched_invD(2) [OF inv that] by blast
  qed
  show "fds_ok ty ?m" if fd: "ty \<in> fd_types"
  proof -
    have ok: "fds_ok ty m" using sched_invD(3) [OF inv fd] .
    have "threads ?m t = threads m t" if "fd < fd_limit m" "array_of ty m ! fd = Some t" for fd t
    proof -
      have "Some t \<in> set (array_of ty m)" using ok that by (auto simp: fds_ok_def in_set_conv_nth)
      then show ?thesis using same [of t ty] fd types_disjoint(2,3) [OF fd] by (simp add: located_def)
    qed
    then have "u (threads ?m t) = Fd fd" if "fd < fd_limit m" "array_of ty m ! fd = Some t" for fd t
      using ok that by (simp add: fds_ok_def)
    moreover have "fd_limit ?m = fd_limit m" by simp
    ultimately show ?thesis using ok unfolding fds_ok_def acc by auto
  qed
  show "located ?m ls ty = {t \<in> allocated ?m - insert (tbrk m) R. type (threads ?m t) = ty}"
  proof -
    have "located ?m ls ty = located m ls ty" by (simp only: located_def acc)
    then show ?thesis using sched_invD(4) [OF inv, of ty] all by auto
  qed
next
  fix t assume "t \<in> allocated (m\<lparr>threads := (threads m)(tbrk m := blank_thread), tbrk := tbrk m + 1, alloc := uadd 64 (alloc m) 1\<rparr>)"
    and "\<And>ty. ty \<in> list_types \<Longrightarrow> t \<notin> set (ls ty)"
  then show "tnext (threads (m\<lparr>threads := (threads m)(tbrk m := blank_thread), tbrk := tbrk m + 1, alloc := uadd 64 (alloc m) 1\<rparr>) t) = None \<and>
      tprev (threads (m\<lparr>threads := (threads m)(tbrk m := blank_thread), tbrk := tbrk m + 1, alloc := uadd 64 (alloc m) 1\<rparr>) t) = None"
    using sched_invD(5) [OF inv, of t] by (auto simp: allocated_def blank_thread_def less_Suc_eq)
qed (use sched_invD(6-8) [OF inv] uadd_mod [of 64 "tbrk m - 1"] in \<open>auto simp: allocated_def\<close>)

lemma thread_get_ok:
  assumes inv: "sched_inv m ls R"
  shows "\<exists>t m' us. thread_get m ty f a = (t, m') \<and> sched_inv m' (ls(THREAD_UNUSED := us)) (insert t R) \<and> t \<notin> R \<and>
     type (threads m' t) = ty \<and> arg (threads m' t) = a \<and> func (threads m' t) = f \<and>
     tnext (threads m' t) = None \<and> tprev (threads m' t) = None \<and>
     queue_of THREAD_TIMER m' = queue_of THREAD_TIMER m \<and> queue_of THREAD_BACKGROUND m' = queue_of THREAD_BACKGROUND m \<and>
     m_read m' = m_read m \<and> m_write m' = m_write m \<and> readfd m' = readfd m \<and> writefd m' = writefd m \<and> fd_limit m' = fd_limit m"
proof -
  have un: "THREAD_UNUSED \<in> list_types" "tlist THREAD_UNUSED m = unuse m" by (simp_all add: list_types_def tlist_def)
  let ?upd = "\<lambda>th. th\<lparr>type := ty, add_type := ty, func := f, arg := a, tindex := -1\<rparr>"
  obtain r l s where trim: "thread_trim_head (unuse m) (threads m) = (r, l, s)"
    "case r of None \<Rightarrow> ls THREAD_UNUSED = [] \<and> l = unuse m \<and> s = threads m
      | Some t \<Rightarrow> ls THREAD_UNUSED = t # tl (ls THREAD_UNUSED) \<and>
          sched_inv (m\<lparr>unuse := l, threads := s\<rparr>) (ls(THREAD_UNUSED := tl (ls THREAD_UNUSED))) (insert t R)"
    using trim_head_unuse [OF inv un(1)] by (auto simp: un(2) set_tlist_def split: option.splits)
  show ?thesis
  proof (cases r)
    case None
    let ?m = "m\<lparr>threads := (threads m)(tbrk m := blank_thread), tbrk := tbrk m + 1, alloc := uadd 64 (alloc m) 1\<rparr>"
    let ?m' = "?m\<lparr>threads := (threads ?m)(tbrk m := ?upd (threads ?m (tbrk m)))\<rparr>"
    have "thread_get m ty f a = (tbrk m, ?m')" using trim None by (simp add: thread_get_def)
    moreover have "sched_inv ?m' ls (insert (tbrk m) R)"
      by (rule sched_inv_set_thread [OF sched_inv_alloc [OF inv]]) (simp_all add: blank_thread_def)
    moreover have "tbrk m \<notin> R" using sched_invD(6) [OF inv] by (auto simp: allocated_def)
    ultimately show ?thesis
      by (intro exI [of _ "tbrk m"] exI [of _ ?m'] exI [of _ "ls THREAD_UNUSED"])
        (simp add: blank_thread_def queue_of_def)
  next
    case (Some t)
    let ?m = "m\<lparr>unuse := l, threads := s\<rparr>"
    let ?m' = "?m\<lparr>threads := (threads ?m)(t := ?upd (threads ?m t))\<rparr>"
    have inv1: "sched_inv ?m (ls(THREAD_UNUSED := tl (ls THREAD_UNUSED))) (insert t R)" "t \<in> set (ls THREAD_UNUSED)"
      using trim(2) Some by (auto, metis list.set_intros(1))
    have lk: "tnext (s t) = None" "tprev (s t) = None" using in_flight(3,4) [OF inv1(1), of t] by simp_all
    have "thread_get m ty f a = (t, ?m')" using trim(1) Some by (simp add: thread_get_def)
    moreover have "sched_inv ?m' (ls(THREAD_UNUSED := tl (ls THREAD_UNUSED))) (insert t R)"
      by (rule sched_inv_set_thread [OF inv1(1)]) (simp_all add: lk)
    moreover have "t \<notin> R" using inv1(2) in_flight(2) [OF inv, of t THREAD_UNUSED] by (auto simp: located_def un)
    ultimately show ?thesis
      by (intro exI [of _ t] exI [of _ ?m'] exI [of _ "tl (ls THREAD_UNUSED)"]) (simp add: lk queue_of_def)
  qed
qed

lemma list_accessors:
  "event m = tlist THREAD_EVENT m" "ready m = tlist THREAD_READY m" "unuse m = tlist THREAD_UNUSED m"
  "m\<lparr>event := l\<rparr> = set_tlist THREAD_EVENT l m" "m\<lparr>ready := l\<rparr> = set_tlist THREAD_READY l m"
  "m\<lparr>unuse := l\<rparr> = set_tlist THREAD_UNUSED l m"
  "THREAD_EVENT \<in> list_types" "THREAD_READY \<in> list_types" "THREAD_UNUSED \<in> list_types"
  by (simp_all add: tlist_def set_tlist_def list_types_def)

lemma thread_add_unuse_ok:
  assumes inv: "sched_inv m ls R" and t: "t \<in> R"
  shows "\<exists>m'. thread_add_unuse m t = Inr m' \<and>
     sched_inv m' (ls(THREAD_UNUSED := ls THREAD_UNUSED @ [t])) (R - {t}) \<and>
     (\<forall>x. arg (threads m' x) = arg (threads m x)) \<and> (\<forall>x. x \<noteq> t \<longrightarrow> type (threads m' x) = type (threads m x))"
proof -
  note lk = in_flight(3,4) [OF inv t]
  let ?m = "m\<lparr>threads := (threads m)(t := (threads m t)\<lparr>type := THREAD_UNUSED\<rparr>)\<rparr>"
  have inv1: "sched_inv ?m ls R" by (rule sched_inv_set_thread [OF inv t]) (simp_all add: lk)
  obtain l s where add: "thread_list_add (tlist THREAD_UNUSED ?m) t (threads ?m) = (l, s)"
    "sched_inv ((set_tlist THREAD_UNUSED l ?m)\<lparr>threads := s\<rparr>) (ls(THREAD_UNUSED := ls THREAD_UNUSED @ [t])) (R - {t})"
    "\<forall>x. core (s x) = core (threads ?m x)"
    using checkin_list [OF inv1 list_accessors(9) t] by auto
  have "thread_add_unuse m t = Inr ((set_tlist THREAD_UNUSED l ?m)\<lparr>threads := s\<rparr>)"
    using lk add(1) by (simp add: thread_add_unuse_def tlist_def set_tlist_def Let_def)
  moreover have "arg (s x) = arg (threads m x)" "x \<noteq> t \<Longrightarrow> type (s x) = type (threads m x)" for x
    using core_fields [of "s x" "threads ?m x"] add(3) by auto
  ultimately show ?thesis using add(2) by auto
qed

lemma set_u_ok:
  assumes "sched_inv m ls R" "t \<in> R"
  shows "sched_inv (set_u t v m) ls R"
  using sched_inv_set_thread [OF assms, of "(threads m t)\<lparr>u := v\<rparr>"] in_flight(3,4) [OF assms] by (simp add: set_u_def)

lemma thread_add_event_ok:
  assumes inv: "sched_inv m ls R"
  shows "\<exists>t m' ls'. thread_add_event m f a v = (t, m') \<and> sched_inv m' ls' R \<and>
     ls' THREAD_EVENT = ls THREAD_EVENT @ [t] \<and> ls' THREAD_READY = ls THREAD_READY"
proof -
  obtain t m1 us where g: "thread_get m THREAD_EVENT f a = (t, m1)" "sched_inv m1 (ls(THREAD_UNUSED := us)) (insert t R)"
    "t \<notin> R" "type (threads m1 t) = THREAD_EVENT"
    using thread_get_ok [OF inv] by blast
  let ?m = "set_u t (Val v) m1" and ?ls = "ls(THREAD_UNUSED := us)"
  have inv1: "sched_inv ?m ?ls (insert t R)" "type (threads ?m t) = THREAD_EVENT"
    using set_u_ok [OF g(2)] g(4) by (auto simp: set_u_def)
  obtain l s where add: "thread_list_add (tlist THREAD_EVENT ?m) t (threads ?m) = (l, s)"
    "sched_inv ((set_tlist THREAD_EVENT l ?m)\<lparr>threads := s\<rparr>) (?ls(THREAD_EVENT := ?ls THREAD_EVENT @ [t])) (insert t R - {t})"
    using checkin_list [OF inv1(1) list_accessors(7) _ inv1(2)] by auto
  have "thread_add_event m f a v = (t, (set_tlist THREAD_EVENT l ?m)\<lparr>threads := s\<rparr>)"
    using g(1) add(1) by (simp add: thread_add_event_def tlist_def set_tlist_def Let_def)
  moreover have "insert t R - {t} = R" using g(3) by auto
  ultimately show ?thesis
    using add(2) by (intro exI [of _ t] exI [of _ "(set_tlist THREAD_EVENT l ?m)\<lparr>threads := s\<rparr>"]
        exI [of _ "?ls(THREAD_EVENT := ?ls THREAD_EVENT @ [t])"]) simp
qed

lemma thread_add_timer_ok:
  assumes inv: "sched_inv m ls R" and ty: "ty \<in> queue_types"
    and room: "array_size (queue_of ty m) < 2 ^ 30"
    and time: "tv_sec (timeval_adjust \<lparr>tv_sec = tv_sec now + tv_sec rel, tv_usec = tv_usec now + tv_usec rel\<rparr>) < 2 ^ 62"
  shows "\<exists>t m' us. thread_add_timer_timeval now m f ty a rel = Inr (t, m') \<and>
     sched_inv m' (ls(THREAD_UNUSED := us)) R \<and> t \<in> allocated m' - R \<and> type (threads m' t) = ty \<and>
     arg (threads m' t) = a \<and> func (threads m' t) = f"
proof -
  let ?alarm = "timeval_adjust \<lparr>tv_sec = tv_sec now + tv_sec rel, tv_usec = tv_usec now + tv_usec rel\<rparr>"
  obtain t m1 us where g: "thread_get m ty f a = (t, m1)" "sched_inv m1 (ls(THREAD_UNUSED := us)) (insert t R)"
    "t \<notin> R" "type (threads m1 t) = ty" "arg (threads m1 t) = a \<and> func (threads m1 t) = f"
    "queue_of THREAD_TIMER m1 = queue_of THREAD_TIMER m" "queue_of THREAD_BACKGROUND m1 = queue_of THREAD_BACKGROUND m"
    using thread_get_ok [OF inv] by blast
  let ?m = "set_u t (Sands ?alarm) m1"
  have q: "queue_of ty ?m = queue_of ty m" using g(6,7) ty by (auto simp: queue_types_def set_u_def)
  have inv1: "sched_inv ?m (ls(THREAD_UNUSED := us)) (insert t R)" "type (threads ?m t) = ty"
    using set_u_ok [OF g(2)] g(4) by (auto simp: set_u_def)
  have "sane_time ?alarm" using timeval_adjust_normal [of "\<lparr>tv_sec = tv_sec now + tv_sec rel, tv_usec = tv_usec now + tv_usec rel\<rparr>"] time
    by (simp add: sane_time_def)
  then have ok: "timer_ok (threads ?m) t" by (simp add: timer_ok_def set_u_def)
  obtain q' s where enq: "pqueue_enqueue 0 (thread_timer_cmp (threads ?m)) thread_timer_update t (queue_of ty ?m) (threads ?m) = Inr (q', s)"
    "sched_inv ((set_queue ty q' ?m)\<lparr>threads := s\<rparr>) (ls(THREAD_UNUSED := us)) (insert t R - {t})"
    "\<forall>x. no_index (s x) = no_index (threads ?m x)"
    using checkin_queue [OF inv1(1) ty _ inv1(2) ok] room q by auto
  have R: "insert t R - {t} = R" using g(3) by auto
  have "t \<in> allocated m1" using in_flight(1) [OF g(2)] by simp
  then have "t \<in> allocated ((set_queue ty q' ?m)\<lparr>threads := s\<rparr>) - R" using g(3) by (simp add: set_u_def allocated_def)
  moreover have "type (s t) = ty" "arg (s t) = a" "func (s t) = f"
    using no_index_fields [of "s t" "threads ?m t"] enq(3) g(4,5) by (auto simp: set_u_def)
  moreover have "thread_add_timer_timeval now m f ty a rel = Inr (t, (set_queue ty q' ?m)\<lparr>threads := s\<rparr>)"
    using ty g(1) enq(1) by (auto simp: thread_add_timer_timeval_def queue_types_def Let_def)
  ultimately show ?thesis using enq(2) R by auto
qed

lemma thread_get_fdset:
  "thread_get (set_fdset d F m) ty f a = (fst (thread_get m ty f a), set_fdset d F (snd (thread_get m ty f a)))"
  by (auto simp: thread_get_def set_fdset_def Let_def split: option.splits prod.splits)

lemma thread_add_rw_ok:
  assumes inv: "sched_inv m ls R" and ty: "dir \<in> fd_types" and fd: "fd < fd_limit m" "fd < FD_SETSIZE"
  shows "\<exists>r m' us. thread_add_read_write dir m f a fd = Inr (r, m') \<and> sched_inv m' (ls(THREAD_UNUSED := us)) R \<and>
     (case r of None \<Rightarrow> m' = m \<and> fdset_of dir m fd
      | Some t \<Rightarrow> \<not> fdset_of dir m fd \<and> t \<in> allocated m' - R \<and> type (threads m' t) = dir \<and> u (threads m' t) = Fd fd)"
proof (cases "fdset_of dir m fd")
  case True
  then show ?thesis
    using inv fd by (auto simp: thread_add_read_write_def fd_set_defs intro!: exI [of _ "ls THREAD_UNUSED"])
next
  case False
  obtain t m1 us where g: "thread_get m dir f a = (t, m1)" "sched_inv m1 (ls(THREAD_UNUSED := us)) (insert t R)"
    "t \<notin> R" "type (threads m1 t) = dir" "readfd m1 = readfd m" "writefd m1 = writefd m" "fd_limit m1 = fd_limit m"
    using thread_get_ok [OF inv] by blast
  let ?m = "set_u t (Fd fd) m1" and ?F = "(fdset_of dir m)(fd := True)"
  have inv1: "sched_inv ?m (ls(THREAD_UNUSED := us)) (insert t R)" "type (threads ?m t) = dir"
    using set_u_ok [OF g(2)] g(4) by (auto simp: set_u_def)
  have "fdset_of dir ?m = fdset_of dir m" using g by (simp add: fdset_of_def set_u_def)
  then obtain m' where m': "thread_add_fd dir t (set_fdset dir ?F ?m) = Inr m'"
    "sched_inv m' (ls(THREAD_UNUSED := us)) (insert t R - {t})" "threads m' = threads ?m"
    using checkin_fd [OF inv1(1) ty _ inv1(2), of fd] False fd g(7) by (auto simp: set_u_def)
  have R: "insert t R - {t} = R" using g(3) by auto
  have "set_u t (Fd fd) (set_fdset dir ?F m1) = set_fdset dir ?F ?m"
    by (simp add: set_u_def set_fdset_def)
  then have "thread_add_read_write dir m f a fd = Inr (Some t, m')"
    using False fd g(1) m'(1) by (simp add: thread_add_read_write_def fd_set_defs thread_get_fdset Let_def)
  moreover have "t \<in> allocated m'"
    using in_flight(1) [OF g(2), of t] m'(1) by (auto simp: thread_add_fd_def bindR_eq_Inr set_u_def allocated_def set_array_def set_fdset_def split: if_splits)
  ultimately show ?thesis using m'(2,3) R g(3,4) False by (auto simp: set_u_def)
qed

text \<open>
  A descriptor outside the set, or outside the arrays, makes the call access memory outside
  the object.
\<close>

lemma thread_add_rw_fault:
  assumes inv: "sched_inv m ls R" and ty: "dir \<in> fd_types" and fd: "\<not> (fd < fd_limit m \<and> fd < FD_SETSIZE)"
  shows "thread_add_read_write dir m f a fd = Inl Mem_fault"
proof (cases "fd < FD_SETSIZE")
  case False
  then show ?thesis by (simp add: thread_add_read_write_def FD_ISSET_def)
next
  case True
  then have lim: "fd_limit m \<le> fd" using fd by simp
  have ok: "fds_ok dir m" by (rule sched_invD(3) [OF inv ty])
  then have off: "\<not> fdset_of dir m fd" and len: "length (array_of dir m) = fd_limit m"
    using lim by (auto simp: fds_ok_def)
  obtain t m1 where g: "thread_get m dir f a = (t, m1)" "m_read m1 = m_read m" "m_write m1 = m_write m"
    using thread_get_ok [OF inv, of dir f a] by blast
  let ?m = "set_u t (Fd fd) (set_fdset dir ((fdset_of dir m)(fd := True)) m1)"
  have "array_of dir ?m = array_of dir m" "fd_of (u (threads ?m t)) = fd"
    using g by (simp_all add: array_of_def set_u_def set_fdset_def)
  then have "thread_add_fd dir t ?m = Inl Mem_fault" using len lim by (simp add: thread_add_fd_def mem_set_def)
  then show ?thesis
    using True off g(1) by (simp add: thread_add_read_write_def fd_set_defs thread_get_fdset Let_def)
qed

text \<open>
  Cancelling a pending thread succeeds: none of the assertions of \<open>thread_cancel\<close> and
  \<open>thread_add_unuse\<close> fails, and the thread goes from its structure to the unuse list.
\<close>

lemma cancel_list:
  assumes inv: "sched_inv m ls R" and ty: "ty \<in> list_types" "ty \<noteq> THREAD_UNUSED" and t: "t \<in> set (ls ty)"
  shows "\<exists>l s m'. thread_list_delete (tlist ty m) t (threads m) = (l, s) \<and>
     thread_add_unuse ((set_tlist ty l m)\<lparr>threads := s\<rparr>) t = Inr m' \<and>
     sched_inv m' (ls(ty := remove1 t (ls ty), THREAD_UNUSED := ls THREAD_UNUSED @ [t])) R \<and>
     (\<forall>x. arg (threads m' x) = arg (threads m x))"
proof -
  obtain xs ys where xs: "ls ty = xs @ t # ys" "t \<notin> set xs" using split_list_first [OF t] by blast
  have nR: "t \<notin> R" using in_flight(2) [OF inv, of t ty] t ty by (auto simp: located_def)
  have rem: "remove1 t (ls ty) = xs @ ys" using xs by (simp add: remove1_append)
  obtain l s where del: "thread_list_delete (tlist ty m) t (threads m) = (l, s)"
    "sched_inv ((set_tlist ty l m)\<lparr>threads := s\<rparr>) (ls(ty := xs @ ys)) (insert t R)" "\<forall>x. core (s x) = core (threads m x)"
    using checkout_list [OF inv ty(1) xs(1)] by blast
  obtain m' where m': "thread_add_unuse ((set_tlist ty l m)\<lparr>threads := s\<rparr>) t = Inr m'"
    "sched_inv m' ((ls(ty := xs @ ys))(THREAD_UNUSED := (ls(ty := xs @ ys)) THREAD_UNUSED @ [t])) (insert t R - {t})"
    "\<forall>x. arg (threads m' x) = arg (s x)"
    using thread_add_unuse_ok [OF del(2), of t] by auto
  have "insert t R - {t} = R" using nR by auto
  moreover have "arg (s x) = arg (threads m x)" for x using core_fields(4) [of "s x" "threads m x"] del(3) by blast
  ultimately show ?thesis using del(1) m' ty(2) by (intro exI [of _ l] exI [of _ s] exI [of _ m']) (simp add: rem)
qed

lemma queue_index:
  assumes inv: "sched_inv m ls R" and ty: "ty \<in> queue_types" and t: "t \<in># pq_mset (queue_of ty m)"
  obtains i where "i < pq_size (queue_of ty m)" "array (queue_of ty m) ! i = t" "tindex (threads m t) = int i"
    "i < length (array (queue_of ty m))"
proof -
  have ok: "timers.pq_inv (threads m) (queue_of ty m)" "timers.pq_tracked (queue_of ty m) (threads m)"
    using sched_invD(2) [OF inv ty] by (auto simp: queue_ok_def)
  then obtain i where "i < pq_size (queue_of ty m)" "array (queue_of ty m) ! i = t"
    using t by (auto simp: pq_mset_def in_set_conv_nth)
  then show thesis using that ok pq_inv_size [OF ok(1)] by (auto simp: timers.pq_tracked_def timers.tracked_def)
qed

lemma thread_cancel_ok:
  assumes inv: "sched_inv m ls R" and t: "t \<in> allocated m - R"
  shows "\<exists>m' ls'. thread_cancel m t = Inr m' \<and> sched_inv m' ls' R \<and> t \<in> set (ls' THREAD_UNUSED)"
proof -
  let ?ty = "type (threads m t)"
  have mem: "t \<in> located m ls ?ty" using sched_invD(4) [OF inv, of ?ty] t by auto
  have R: "insert t R - {t} = R" using t by auto
  consider (q) "?ty \<in> queue_types" | (fd) "?ty \<in> fd_types" | (l) "?ty = THREAD_EVENT \<or> ?ty = THREAD_READY"
    | (un) "?ty = THREAD_UNUSED"
    using mem by (auto simp: located_def list_types_def split: if_splits)
  then show ?thesis
  proof cases
    case q
    then have "t \<in># pq_mset (queue_of ?ty m)" using mem types_disjoint(1) [OF q] by (simp add: located_def)
    then obtain i where i: "i < pq_size (queue_of ?ty m)" "array (queue_of ?ty m) ! i = t" "tindex (threads m t) = int i"
      "i < length (array (queue_of ?ty m))"
      using queue_index [OF inv q] by blast
    obtain q' s where rm: "pqueue_remove_at (thread_timer_cmp (threads m)) thread_timer_update i (queue_of ?ty m) (threads m) = Inr (q', s)"
      "sched_inv ((set_queue ?ty q' m)\<lparr>threads := s\<rparr>) ls (insert t R)"
      using checkout_queue [OF inv q i(1) i(2) [symmetric]] by blast
    obtain m' where m': "thread_add_unuse ((set_queue ?ty q' m)\<lparr>threads := s\<rparr>) t = Inr m'"
      "sched_inv m' (ls(THREAD_UNUSED := ls THREAD_UNUSED @ [t])) (insert t R - {t})"
      using thread_add_unuse_ok [OF rm(2), of t] by auto
    have "thread_cancel m t = Inr m'"
      using q i rm(1) m'(1) by (auto simp: thread_cancel_def queue_types_def mem_simps Let_def)
    then show ?thesis using m'(2) R by auto
  next
    case fd
    then have "Some t \<in> set (array_of ?ty m)" using mem types_disjoint(2,3) [OF fd] by (simp add: located_def)
    then obtain n where n: "n < fd_limit m" "array_of ?ty m ! n = Some t" "u (threads m t) = Fd n" "fdset_of ?ty m n" "n < FD_SETSIZE"
      using sched_invD(3) [OF inv fd] by (auto simp: fds_ok_def in_set_conv_nth)
    obtain m1 where m1: "thread_delete_fd ?ty t (set_fdset ?ty ((fdset_of ?ty m)(n := False)) m) = Inr m1" "sched_inv m1 ls (insert t R)"
      using checkout_fd [OF inv fd n(1,2)] by blast
    obtain m' where m': "thread_add_unuse m1 t = Inr m'"
      "sched_inv m' (ls(THREAD_UNUSED := ls THREAD_UNUSED @ [t])) (insert t R - {t})"
      using thread_add_unuse_ok [OF m1(2), of t] by auto
    have "thread_cancel m t = Inr m'"
      using fd n m1(1) m'(1) by (auto simp: thread_cancel_def fd_types_def fd_clear_read_write_def fd_set_defs Let_def)
    then show ?thesis using m'(2) R by auto
  next
    case l
    then have ty: "?ty \<in> list_types" "?ty \<noteq> THREAD_UNUSED" by (auto simp: list_types_def)
    then have "t \<in> set (ls ?ty)" using mem by (simp add: located_def)
    then obtain l' s m' where r: "thread_list_delete (tlist ?ty m) t (threads m) = (l', s)"
      "thread_add_unuse ((set_tlist ?ty l' m)\<lparr>threads := s\<rparr>) t = Inr m'"
      "sched_inv m' (ls(?ty := remove1 t (ls ?ty), THREAD_UNUSED := ls THREAD_UNUSED @ [t])) R"
      using cancel_list [OF inv ty] by blast
    have "thread_cancel m t = Inr m'" using l r(1,2) by (auto simp: thread_cancel_def tlist_def set_tlist_def Let_def)
    then show ?thesis using r(3) by fastforce
  next
    case un
    then have "t \<in> set (ls THREAD_UNUSED)" "thread_cancel m t = Inr m"
      using mem by (simp_all add: located_def list_types_def thread_cancel_def)
    then show ?thesis using inv by blast
  qed
qed

text \<open>\<open>thread_process\<close> moves the events to the ready list in their order.\<close>

lemma thread_process_loop_ok:
  assumes "sched_inv m ls R" "ls THREAD_EVENT = xs" "rdy + length xs < 2 ^ 32"
  shows "\<exists>m'. thread_process_loop (first xs None) m rdy = Some (rdy + length xs, m') \<and>
     sched_inv m' (ls(THREAD_EVENT := [], THREAD_READY := ls THREAD_READY @ xs)) R"
  using assms
proof (induction xs arbitrary: m ls rdy)
  case Nil
  then have "ls(THREAD_EVENT := [], THREAD_READY := ls THREAD_READY @ []) = ls" by (auto simp: fun_eq_iff)
  with Nil show ?case by (intro exI [of _ m]) (simp add: thread_process_loop.simps del: fun_upd_apply)
next
  case (Cons t xs)
  have nxt: "tnext (threads m t) = first xs None"
    using sched_invD(1) [OF Cons.prems(1) list_accessors(7)] Cons.prems(2) by (simp add: tl_rep_def dlist_def)
  obtain l s where del: "thread_list_delete (tlist THREAD_EVENT m) t (threads m) = (l, s)"
    "sched_inv ((set_tlist THREAD_EVENT l m)\<lparr>threads := s\<rparr>) (ls(THREAD_EVENT := [] @ xs)) (insert t R)"
    using checkout_list [OF Cons.prems(1) list_accessors(7), of "[]" t xs] Cons.prems(2) by auto
  let ?m1 = "(set_tlist THREAD_EVENT l m)\<lparr>threads := s\<rparr>" and ?ls1 = "ls(THREAD_EVENT := xs)"
  let ?s1 = "s(t := (s t)\<lparr>type := THREAD_READY\<rparr>)"
  have inv2: "sched_inv (?m1\<lparr>threads := ?s1\<rparr>) ?ls1 (insert t R)"
    using sched_inv_set_thread [of ?m1 ?ls1 "insert t R" t "(s t)\<lparr>type := THREAD_READY\<rparr>"] del(2)
      in_flight(3,4) [OF del(2), of t] by simp
  obtain l2 s2 where add: "thread_list_add (tlist THREAD_READY (?m1\<lparr>threads := ?s1\<rparr>)) t ?s1 = (l2, s2)"
    "sched_inv ((set_tlist THREAD_READY l2 (?m1\<lparr>threads := ?s1\<rparr>))\<lparr>threads := s2\<rparr>)
       (?ls1(THREAD_READY := ?ls1 THREAD_READY @ [t])) (insert t R - {t})"
    using checkin_list [OF inv2 list_accessors(8), of t] by auto
  let ?m2 = "m\<lparr>event := l, ready := l2, threads := s2\<rparr>"
  have m2: "(set_tlist THREAD_READY l2 (?m1\<lparr>threads := ?s1\<rparr>))\<lparr>threads := s2\<rparr> = ?m2" by (simp add: set_tlist_def)
  have "t \<notin> R" using in_flight(2) [OF Cons.prems(1), of t THREAD_EVENT] Cons.prems(2) by (auto simp: located_def list_accessors)
  then have R: "insert t R - {t} = R" by auto
  have step: "thread_process_loop (first (t # xs) None) m rdy = thread_process_loop (first xs None) ?m2 (rdy + 1)"
    using del(1) add(1) nxt Cons.prems(3)
    by (subst thread_process_loop.simps) (simp add: tlist_def set_tlist_def Let_def size_arith)
  have inv3: "sched_inv ?m2 (ls(THREAD_EVENT := xs, THREAD_READY := ls THREAD_READY @ [t])) R"
    using add(2) unfolding m2 R by simp
  let ?ls3 = "ls(THREAD_EVENT := xs, THREAD_READY := ls THREAD_READY @ [t])"
  have "?ls3(THREAD_EVENT := [], THREAD_READY := ?ls3 THREAD_READY @ xs)
      = ls(THREAD_EVENT := [], THREAD_READY := ls THREAD_READY @ t # xs)" by (auto simp: fun_eq_iff)
  moreover obtain m' where "thread_process_loop (first xs None) ?m2 (rdy + 1) = Some (rdy + 1 + length xs, m')"
    "sched_inv m' (?ls3(THREAD_EVENT := [], THREAD_READY := ?ls3 THREAD_READY @ xs)) R"
    using Cons.IH [OF inv3, of "rdy + 1"] Cons.prems(3) by (auto simp del: fun_upd_apply simp: fun_upd_same fun_upd_other)
  ultimately show ?case using step by (simp del: fun_upd_apply)
qed

lemma thread_process_ok:
  assumes "sched_inv m ls R" "length (ls THREAD_EVENT) < 2 ^ 32"
  shows "\<exists>m'. thread_process m = Some (length (ls THREAD_EVENT), m') \<and>
     sched_inv m' (ls(THREAD_EVENT := [], THREAD_READY := ls THREAD_READY @ ls THREAD_EVENT)) R"
proof -
  have "thead (event m) = first (ls THREAD_EVENT) None"
    using sched_invD(1) [OF assms(1) list_accessors(7)] by (simp add: tl_rep_def dlist_def list_accessors)
  then show ?thesis using thread_process_loop_ok [OF assms(1) refl, of 0] assms(2) by (simp add: thread_process_def)
qed

text \<open>Expired timers are checked out of their queue and into the ready list.\<close>

lemma ready_checkin:
  assumes inv: "sched_inv m ls R" and t: "t \<in> R"
  shows "\<exists>l s. thread_list_add (ready m) t ((threads m)(t := (threads m t)\<lparr>type := THREAD_READY\<rparr>)) = (l, s) \<and>
     sched_inv (m\<lparr>ready := l, threads := s\<rparr>) (ls(THREAD_READY := ls THREAD_READY @ [t])) (R - {t}) \<and>
     (\<forall>x. core (s x) = core (((threads m)(t := (threads m t)\<lparr>type := THREAD_READY\<rparr>)) x))"
proof -
  let ?m = "m\<lparr>threads := (threads m)(t := (threads m t)\<lparr>type := THREAD_READY\<rparr>)\<rparr>"
  have "sched_inv ?m ls R" by (rule sched_inv_set_thread [OF inv t]) (simp_all add: in_flight [OF inv t])
  from checkin_list [OF this list_accessors(8) t] show ?thesis by (auto simp: tlist_def set_tlist_def)
qed

lemma timer_process_keeps:
  assumes "sched_inv m ls R" "ty \<in> queue_types" "rdy + pq_size (queue_of ty m) < 2 ^ 32"
  shows "\<exists>n m' rs. thread_timer_process ty now m rdy = Some (Inr (n, m')) \<and>
     sched_inv m' (ls(THREAD_READY := ls THREAD_READY @ rs)) R"
  using assms
proof (induction "pq_size (queue_of ty m)" arbitrary: m ls rdy)
  case 0
  then show ?case by (intro exI [of _ rdy] exI [of _ m] exI [of _ "[]"]) (simp add: thread_timer_process.simps)
next
  case (Suc n)
  let ?q = "queue_of ty m" and ?s = "threads m"
  let ?t = "array ?q ! 0"
  have n: "0 < pq_size ?q" using Suc.hyps(2) by simp
  have qk: "timers.pq_inv ?s ?q" using sched_invD(2) [OF Suc.prems(1,2)] by (simp add: queue_ok_def)
  have first: "mem_get (array ?q) 0 = Inr ?t" using pq_inv_size [OF qk] by (simp add: mem_simps)
  show ?case
  proof (cases "timeval_cmp now (sands (u (?s ?t))) < 0")
    case True
    with n first Suc.prems show ?thesis
      by (intro exI [of _ rdy] exI [of _ m] exI [of _ "[]"]) (simp add: thread_timer_process.simps)
  next
    case False
    obtain q' s1 where rm: "pqueue_remove_at (thread_timer_cmp ?s) thread_timer_update 0 ?q ?s = Inr (q', s1)"
      "sched_inv ((set_queue ty q' m)\<lparr>threads := s1\<rparr>) ls (insert ?t R)"
      using checkout_queue [OF Suc.prems(1,2) n refl] by blast
    then have deq: "pqueue_dequeue (thread_timer_cmp ?s) thread_timer_update ?q ?s = Inr (?t, q', s1)"
      unfolding timers.pqueue_dequeue_remove [OF qk n] by simp
    let ?m1 = "(set_queue ty q' m)\<lparr>threads := s1\<rparr>"
    obtain l s2 where add: "thread_list_add (ready m) ?t (s1(?t := (s1 ?t)\<lparr>type := THREAD_READY\<rparr>)) = (l, s2)"
      "sched_inv (?m1\<lparr>ready := l, threads := s2\<rparr>) (ls(THREAD_READY := ls THREAD_READY @ [?t])) (insert ?t R - {?t})"
      using ready_checkin [OF rm(2), of ?t] by auto
    let ?m2 = "(set_queue ty q' m)\<lparr>ready := l, threads := s2\<rparr>"
    have "?t \<notin> R"
      using queue_loc [OF Suc.prems(1,2)] timers.pq_root_least(1) [OF qk n] by auto
    then have inv2: "sched_inv ?m2 (ls(THREAD_READY := ls THREAD_READY @ [?t])) R" using add(2) by simp
    have size: "pq_size q' = n"
    proof -
      have "pq_mset q' = pq_mset ?q - {#?t#}" "timers.pq_inv ?s q'"
        using timers.pqueue_remove_at_ok [OF qk n, where upd = thread_timer_update and s = ?s] rm(1) by auto
      then have "size (pq_mset q') = size (pq_mset ?q) - 1"
        using timers.pq_root_least(1) [OF qk n] by (simp add: size_Diff_singleton)
      then show ?thesis using pq_inv_size [OF qk] pq_inv_size [OF \<open>timers.pq_inv ?s q'\<close>] Suc.hyps(2)
        by (simp add: pq_mset_def)
    qed
    have q: "queue_of ty ?m2 = q'" by (simp add: queue_of_def set_queue_def)
    have step: "thread_timer_process ty now m rdy = thread_timer_process ty now ?m2 (rdy + 1)"
      using n first False deq add(1) Suc.prems(3) by (subst thread_timer_process.simps) (simp add: Let_def size_arith)
    obtain k m' rs where "thread_timer_process ty now ?m2 (rdy + 1) = Some (Inr (k, m'))"
      "sched_inv m' (ls(THREAD_READY := ls THREAD_READY @ [?t] @ rs)) R"
      using Suc.hyps(1) [OF _ inv2 Suc.prems(2), of "rdy + 1"] size q Suc.prems(3) Suc.hyps(2) by auto
    with step show ?thesis by (metis)
  qed
qed

text \<open>Setting the type and linking the thread in commute.\<close>

lemma ready_commute:
  assumes "thread_list_add lst t (s(t := (s t)\<lparr>type := THREAD_READY\<rparr>)) = (l, s')"
  shows "(case thread_list_add lst t s of (l, s) \<Rightarrow> (l, s(t := (s t)\<lparr>type := THREAD_READY\<rparr>))) = (l, s')"
  using assms unfolding thread_list_add_def Let_def by (cases "ttail lst") (auto intro!: ext)

lemma fds_helper_ok:
  assumes inv: "sched_inv m ls R" and ty: "dir \<in> fd_types" and i: "i < fd_limit m"
  shows "\<exists>n m' rs. thread_process_fds_helper m (array_of dir m ! i) fdset = Inr (n, m') \<and>
     sched_inv m' (ls(THREAD_READY := ls THREAD_READY @ rs)) R \<and> fd_limit m' = fd_limit m"
proof (cases "array_of dir m ! i")
  case None
  then show ?thesis using inv by (auto simp: thread_process_fds_helper_def intro!: exI [of _ "[]"])
next
  case (Some t)
  have ok: "fds_ok dir m" by (rule sched_invD(3) [OF inv ty])
  then have u: "u (threads m t) = Fd i" "fdset_of dir m i" "i < FD_SETSIZE" "Some t \<in> set (array_of dir m)"
    using Some i by (auto simp: fds_ok_def) (metis nth_mem)
  then have t: "type (threads m t) = dir" "t \<notin> R" using fd_loc [OF inv ty] by auto
  have dir: "(if type (threads m t) = THREAD_READ then THREAD_READ else THREAD_WRITE) = dir"
    using t ty by (auto simp: fd_types_def)
  show ?thesis
  proof (cases "fdset i")
    case True
    obtain m1 where m1: "thread_delete_fd dir t (set_fdset dir ((fdset_of dir m)(i := False)) m) = Inr m1" "sched_inv m1 ls (insert t R)"
      "threads m1 = threads m"
      using checkout_fd [OF inv ty i Some] by blast
    have lk: "tnext (threads m1 t) = None" "tprev (threads m1 t) = None" "t \<notin> set (ls THREAD_READY)"
      using in_flight(3,4) [OF m1(2), of t] in_flight(2) [OF m1(2), of t THREAD_READY] by (auto simp: located_def list_accessors)
    obtain l s where add: "thread_list_add (ready m1) t ((threads m1)(t := (threads m1 t)\<lparr>type := THREAD_READY\<rparr>)) = (l, s)"
      "sched_inv (m1\<lparr>ready := l, threads := s\<rparr>) (ls(THREAD_READY := ls THREAD_READY @ [t])) (insert t R - {t})"
      using ready_checkin [OF m1(2), of t] by auto
    have mr: "make_ready m1 t = m1\<lparr>ready := l, threads := s\<rparr>"
      using ready_commute [OF add(1)] by (auto simp: make_ready_def split: prod.splits)
    have lim: "fd_limit m1 = fd_limit m"
      using m1(1) by (auto simp: thread_delete_fd_def bindR_eq_Inr)
    have "thread_process_fds_helper m (array_of dir m ! i) fdset = Inr (1, make_ready m1 t)"
      using Some u True m1(1) dir by (simp add: thread_process_fds_helper_def fd_clear_read_write_def fd_set_defs Let_def)
    moreover have "insert t R - {t} = R" using t(2) by auto
    ultimately show ?thesis using add(2) mr lim by (intro exI [of _ 1] exI [of _ "make_ready m1 t"] exI [of _ "[t]"]) simp
  next
    case False
    then show ?thesis using inv Some u dir
      by (intro exI [of _ 0] exI [of _ m] exI [of _ "[]"]) (simp add: thread_process_fds_helper_def fd_set_defs Let_def)
  qed
qed

lemma fd_accessors:
  "m_read m = array_of THREAD_READ m" "m_write m = array_of THREAD_WRITE m"
  "THREAD_READ \<in> fd_types" "THREAD_WRITE \<in> fd_types"
  by (simp_all add: array_of_def fd_types_def)

lemma process_fds_loop_ok:
  assumes "sched_inv m ls R" "fd_limit m = limit"
  shows "\<exists>n m' rs. process_fds_loop m rset wset num limit i rdy = Inr (n, m') \<and>
     sched_inv m' (ls(THREAD_READY := ls THREAD_READY @ rs)) R"
  using assms
proof (induction "limit - i" arbitrary: m ls i rdy)
  case 0
  then show ?case by (intro exI [of _ rdy] exI [of _ m] exI [of _ "[]"]) (simp add: process_fds_loop.simps)
next
  case (Suc k)
  show ?case
  proof (cases "i < limit \<and> rdy < num")
    case False
    with Suc.prems show ?thesis
      by (intro exI [of _ rdy] exI [of _ m] exI [of _ "[]"]) (subst process_fds_loop.simps, auto)
  next
    case True
    have k: "k = limit - (i + 1)" using Suc.hyps(2) by simp
    have len: "i < length (array_of dir m1)" if "sched_inv m1 ls1 R" "fd_limit m1 = limit" "dir \<in> fd_types" for m1 ls1 dir
      using sched_invD(3) [OF that(1,3)] that(2) True by (simp add: fds_ok_def)
    obtain r1 m1 rs1 where h1: "thread_process_fds_helper m (array_of THREAD_READ m ! i) rset = Inr (r1, m1)"
      "sched_inv m1 (ls(THREAD_READY := ls THREAD_READY @ rs1)) R" "fd_limit m1 = limit"
      using fds_helper_ok [OF Suc.prems(1) fd_accessors(3), of i rset] True Suc.prems(2) by auto
    let ?ls1 = "ls(THREAD_READY := ls THREAD_READY @ rs1)"
    obtain r2 m2 rs2 where h2: "thread_process_fds_helper m1 (array_of THREAD_WRITE m1 ! i) wset = Inr (r2, m2)"
      "sched_inv m2 (?ls1(THREAD_READY := ?ls1 THREAD_READY @ rs2)) R" "fd_limit m2 = limit"
      using fds_helper_ok [OF h1(2) fd_accessors(4), of i wset] True h1(3) by auto
    let ?ls2 = "?ls1(THREAD_READY := ?ls1 THREAD_READY @ rs2)"
    obtain n m3 rs3 where r: "process_fds_loop m2 rset wset num limit (i + 1) (rdy + r1 + r2) = Inr (n, m3)"
      "sched_inv m3 (?ls2(THREAD_READY := ?ls2 THREAD_READY @ rs3)) R"
      using Suc.hyps(1) [OF k h2(2,3), of "rdy + r1 + r2"] by blast
    have "?ls2(THREAD_READY := ?ls2 THREAD_READY @ rs3) = ls(THREAD_READY := ls THREAD_READY @ (rs1 @ rs2 @ rs3))" by simp
    then have "sched_inv m3 (ls(THREAD_READY := ls THREAD_READY @ (rs1 @ rs2 @ rs3))) R" using r(2) by (simp only:)
    moreover have "process_fds_loop m rset wset num limit i rdy = Inr (n, m3)"
      using True h1(1) h2(1) r(1) len [OF Suc.prems fd_accessors(3)] len [OF h1(2,3) fd_accessors(4)]
      by (subst process_fds_loop.simps) (simp add: mem_simps fd_accessors(1,2))
    ultimately show ?thesis by blast
  qed
qed

lemma cancel_event_loop_ok:
  assumes "sched_inv m ls R" "ty \<in> {THREAD_EVENT, THREAD_READY}" "ls ty = ks @ ys" "ret + length ys < 2 ^ 32"
  shows "\<exists>m' us. cancel_event_loop ty a (first ys None) m ret = Some (Inr (ret + length (filter (\<lambda>t. arg (threads m t) = a) ys), m')) \<and>
     sched_inv m' (ls(ty := ks @ filter (\<lambda>t. arg (threads m t) \<noteq> a) ys, THREAD_UNUSED := us)) R \<and>
     (\<forall>x. arg (threads m' x) = arg (threads m x))"
  using assms
proof (induction ys arbitrary: m ls ks ret)
  case Nil
  have "ls(ty := ks @ [], THREAD_UNUSED := ls THREAD_UNUSED) = ls" using Nil.prems(3) by (auto simp: fun_eq_iff)
  with Nil.prems(1) show ?case
    by (intro exI [of _ m] exI [of _ "ls THREAD_UNUSED"]) (simp add: cancel_event_loop.simps del: fun_upd_apply)
next
  case (Cons t ys)
  have ty: "ty \<in> list_types" "ty \<noteq> THREAD_UNUSED" using Cons.prems(2) by (auto simp: list_types_def)
  have lst: "list_of ty m = tlist ty m" "set_list ty l m = set_tlist ty l m" for l
    using Cons.prems(2) by (auto simp: list_of_def tlist_def set_list_def set_tlist_def)
  have rep: "tl_rep (tlist ty m) (threads m) (ks @ t # ys)" using sched_invD(1) [OF Cons.prems(1) ty(1)] Cons.prems(3) by simp
  have nxt: "tnext (threads m t) = first ys None" and nt: "t \<notin> set ks"
    using rep by (auto simp: tl_rep_def dlist_def)
  show ?case
  proof (cases "arg (threads m t) = a")
    case True
    obtain l s m1 where c: "thread_list_delete (tlist ty m) t (threads m) = (l, s)"
      "thread_add_unuse ((set_tlist ty l m)\<lparr>threads := s\<rparr>) t = Inr m1"
      "sched_inv m1 (ls(ty := remove1 t (ls ty), THREAD_UNUSED := ls THREAD_UNUSED @ [t])) R"
      "\<forall>x. arg (threads m1 x) = arg (threads m x)"
      using cancel_list [OF Cons.prems(1) ty, of t] Cons.prems(3) in_set_conv_decomp [of t "ls ty"] by blast
    let ?ls1 = "ls(ty := remove1 t (ls ty), THREAD_UNUSED := ls THREAD_UNUSED @ [t])"
    have rem: "?ls1 ty = ks @ ys" using Cons.prems(3) nt ty(2) by (simp add: remove1_append)
    have step: "cancel_event_loop ty a (first (t # ys) None) m ret = cancel_event_loop ty a (first ys None) m1 (ret + 1)"
      using True c(1,2) nxt Cons.prems(4) by (subst cancel_event_loop.simps) (simp add: lst Let_def size_arith)
    obtain m' us where "cancel_event_loop ty a (first ys None) m1 (ret + 1) = Some (Inr (ret + 1 + length (filter (\<lambda>t. arg (threads m t) = a) ys), m'))"
      "sched_inv m' (?ls1(ty := ks @ filter (\<lambda>t. arg (threads m t) \<noteq> a) ys, THREAD_UNUSED := us)) R"
      "\<forall>x. arg (threads m' x) = arg (threads m x)"
      using Cons.IH [OF c(3) Cons.prems(2) rem, of "ret + 1"] Cons.prems(4) unfolding c(4) [rule_format]
      by (auto simp del: fun_upd_apply)
    moreover have "?ls1(ty := ks @ zs, THREAD_UNUSED := us) = ls(ty := ks @ zs, THREAD_UNUSED := us)" for zs us
      by (auto simp: fun_eq_iff)
    ultimately show ?thesis using step True by (intro exI [of _ m'] exI [of _ us]) (simp del: fun_upd_apply)
  next
    case False
    have step: "cancel_event_loop ty a (first (t # ys) None) m ret = cancel_event_loop ty a (first ys None) m ret"
      using False nxt by (subst cancel_event_loop.simps) (simp add: Let_def)
    have "ls ty = (ks @ [t]) @ ys" using Cons.prems(3) by simp
    from Cons.IH [OF Cons.prems(1,2) this, of ret] Cons.prems(4) step False show ?thesis by auto
  qed
qed

section \<open>Reachable states\<close>

text \<open>
  The states a daemon can reach: every call of the interface in any order, the phases of
  \<open>thread_fetch\<close>, and the execution of a fetched thread, during which the thread is in
  flight.  Only threads that are pending may be cancelled.
\<close>

inductive reach :: "thread_master \<Rightarrow> nat set \<Rightarrow> bool" where
  create: "reach (thread_master_create limit s) {}"
| add_event: "reach m R \<Longrightarrow> thread_add_event m f a v = (t, m') \<Longrightarrow> reach m' R"
| add_timer: "reach m R \<Longrightarrow> ty \<in> queue_types \<Longrightarrow> array_size (queue_of ty m) < 2 ^ 30 \<Longrightarrow>
    tv_sec (timeval_adjust \<lparr>tv_sec = tv_sec now + tv_sec rel, tv_usec = tv_usec now + tv_usec rel\<rparr>) < 2 ^ 62 \<Longrightarrow>
    thread_add_timer_timeval now m f ty a rel = Inr (t, m') \<Longrightarrow> reach m' R"
| add_read_write: "reach m R \<Longrightarrow> dir \<in> fd_types \<Longrightarrow>
    thread_add_read_write dir m f a fd = Inr (r, m') \<Longrightarrow> reach m' R"
| cancel: "reach m R \<Longrightarrow> t \<in> allocated m - R \<Longrightarrow> thread_cancel m t = Inr m' \<Longrightarrow> reach m' R"
| cancel_event: "reach m R \<Longrightarrow> tbrk m < 2 ^ 31 \<Longrightarrow> thread_cancel_event m a = Some (Inr (n, m')) \<Longrightarrow> reach m' R"
| process: "reach m R \<Longrightarrow> tbrk m < 2 ^ 31 \<Longrightarrow> thread_process m = Some (n, m') \<Longrightarrow> reach m' R"
| timers: "reach m R \<Longrightarrow> tbrk m < 2 ^ 31 \<Longrightarrow> ty \<in> queue_types \<Longrightarrow>
    thread_timer_process ty now m 0 = Some (Inr (n, m')) \<Longrightarrow> reach m' R"
| fds: "reach m R \<Longrightarrow> thread_process_fds m rset wset num = Inr (k, m') \<Longrightarrow> reach m' R"
| fetch: "reach m R \<Longrightarrow> thread_trim_head (ready m) (threads m) = (Some t, l, s) \<Longrightarrow>
    reach (m\<lparr>ready := l, threads := s\<rparr>) (insert t R)"
| finish: "reach m R \<Longrightarrow> t \<in> R \<Longrightarrow> thread_add_unuse m t = Inr m' \<Longrightarrow> reach m' (R - {t})"

inductive_cases reachE: "reach m R"

lemma distinct_allocated:
  assumes "distinct xs" "set xs \<subseteq> allocated m" "0 < tbrk m"
  shows "length xs < tbrk m"
proof -
  have "allocated m = {1..<tbrk m}" by (auto simp: allocated_def)
  then have "finite (allocated m)" "card (allocated m) < tbrk m" using assms(3) by simp_all
  then show ?thesis using assms distinct_card [of xs] card_mono [of "allocated m" "set xs"] by simp
qed

lemma sched_sizes:
  assumes inv: "sched_inv m ls R"
  shows "ty \<in> list_types \<Longrightarrow> length (ls ty) < tbrk m"
    and "ty \<in> queue_types \<Longrightarrow> pq_size (queue_of ty m) < tbrk m"
proof -
  have tb: "0 < tbrk m" using sched_invD(7) [OF inv] by simp
  show "length (ls ty) < tbrk m" if ty: "ty \<in> list_types"
  proof (rule distinct_allocated [OF _ _ tb])
    show "distinct (ls ty)" using sched_invD(1) [OF inv ty] by (simp add: tl_rep_def dlist_def)
    show "set (ls ty) \<subseteq> allocated m" using sched_invD(4) [OF inv, of ty] ty by (auto simp: located_def)
  qed
  show "pq_size (queue_of ty m) < tbrk m" if ty: "ty \<in> queue_types"
  proof -
    have ok: "timers.pq_inv (threads m) (queue_of ty m)" "timers.pq_tracked (queue_of ty m) (threads m)"
      using sched_invD(2) [OF inv ty] by (auto simp: queue_ok_def)
    have "length (take (pq_size (queue_of ty m)) (array (queue_of ty m))) < tbrk m"
      using ok(2) queue_loc [OF inv ty] tb by (intro distinct_allocated) (auto simp: timers.pq_tracked_def pq_mset_def)
    then show ?thesis using pq_inv_size [OF ok(1)] by simp
  qed
qed

lemma create_inv: "sched_inv (thread_master_create limit s) (\<lambda>_. []) {}"
proof -
  have "allocated (thread_master_create limit s) = {}" by (auto simp: allocated_def thread_master_create_def)
  then show ?thesis
    using timers.pqueue_create_ok timers.pqueue_create_tracked
    by (intro sched_invI)
      (auto simp: queue_of_def queue_ok_def located_def fds_ok_def array_of_def fdset_of_def tlist_def tl_rep_def
        thread_master_create_def empty_list_def int_wrap_small split: if_splits)
qed

lemma cancel_event_ok:
  assumes inv: "sched_inv m ls R" and small: "tbrk m < 2 ^ 31"
  shows "\<exists>m' us. thread_cancel_event m a =
      Some (Inr (length (filter (\<lambda>t. arg (threads m t) = a) (ls THREAD_EVENT @ ls THREAD_READY)), m')) \<and>
    sched_inv m' (ls(THREAD_EVENT := filter (\<lambda>t. arg (threads m t) \<noteq> a) (ls THREAD_EVENT),
        THREAD_READY := filter (\<lambda>t. arg (threads m t) \<noteq> a) (ls THREAD_READY), THREAD_UNUSED := us)) R"
proof -
  have len: "length (ls THREAD_EVENT) < 2 ^ 31" "length (ls THREAD_READY) < 2 ^ 31"
    using sched_sizes(1) [OF inv] small list_accessors(7,8) by (meson less_trans)+
  have hd: "thead (event m) = first (ls THREAD_EVENT) None"
    using sched_invD(1) [OF inv list_accessors(7)] by (simp add: tl_rep_def dlist_def list_accessors)
  let ?n1 = "length (filter (\<lambda>t. arg (threads m t) = a) (ls THREAD_EVENT))"
  have n1: "?n1 < 2 ^ 31" using len(1) le_less_trans [OF length_filter_le] by blast
  obtain m1 us1 where c1: "cancel_event_loop THREAD_EVENT a (first (ls THREAD_EVENT) None) m 0 = Some (Inr (0 + ?n1, m1))"
    "sched_inv m1 (ls(THREAD_EVENT := [] @ filter (\<lambda>t. arg (threads m t) \<noteq> a) (ls THREAD_EVENT), THREAD_UNUSED := us1)) R"
    "\<forall>x. arg (threads m1 x) = arg (threads m x)"
    using cancel_event_loop_ok [OF inv, of THREAD_EVENT "[]" "ls THREAD_EVENT" 0 a] len(1) by auto
  let ?ls1 = "ls(THREAD_EVENT := [] @ filter (\<lambda>t. arg (threads m t) \<noteq> a) (ls THREAD_EVENT), THREAD_UNUSED := us1)"
  have hd1: "thead (ready m1) = first (ls THREAD_READY) None"
    using sched_invD(1) [OF c1(2) list_accessors(8)] by (simp add: tl_rep_def dlist_def list_accessors)
  obtain m2 us2 where c2: "cancel_event_loop THREAD_READY a (first (ls THREAD_READY) None) m1 ?n1
      = Some (Inr (?n1 + length (filter (\<lambda>t. arg (threads m t) = a) (ls THREAD_READY)), m2))"
    "sched_inv m2 (?ls1(THREAD_READY := [] @ filter (\<lambda>t. arg (threads m t) \<noteq> a) (ls THREAD_READY), THREAD_UNUSED := us2)) R"
    using cancel_event_loop_ok [OF c1(2), of THREAD_READY "[]" "ls THREAD_READY" ?n1 a] len(2) n1 c1(3) by auto
  have "?ls1(THREAD_READY := [] @ zs, THREAD_UNUSED := us2)
      = ls(THREAD_EVENT := filter (\<lambda>t. arg (threads m t) \<noteq> a) (ls THREAD_EVENT), THREAD_READY := zs, THREAD_UNUSED := us2)" for zs
    by (auto simp: fun_eq_iff)
  then show ?thesis
    using c1(1) c2 by (intro exI [of _ m2] exI [of _ us2]) (simp add: thread_cancel_event_def hd hd1 del: fun_upd_apply)
qed

lemma reach_inv: "reach m R \<Longrightarrow> \<exists>ls. sched_inv m ls R"
proof (induction rule: reach.induct)
  case (create limit s)
  then show ?case using create_inv by blast
next
  case (add_event m R f a v t m')
  then show ?case using thread_add_event_ok [of m _ R f a v] by fastforce
next
  case (add_timer m R ty now rel f a t m')
  then show ?case using thread_add_timer_ok [of m _ R ty now rel f a] by fastforce
next
  case (add_read_write m R dir f a fd r m')
  then show ?case using thread_add_rw_ok [of m _ R dir fd f a] thread_add_rw_fault [of m _ R dir fd f a] by fastforce
next
  case (cancel m R t m')
  then show ?case using thread_cancel_ok [of m _ R t] by fastforce
next
  case (cancel_event m R a n m')
  then show ?case using cancel_event_ok [of m _ R a] by fastforce
next
  case (process m R n m')
  then obtain ls where ls: "sched_inv m ls R" by blast
  have "length (ls THREAD_EVENT) < 2 ^ 32" using sched_sizes(1) [OF ls list_accessors(7)] process.hyps(2) by simp
  then show ?case using thread_process_ok [OF ls] process.hyps(3) by auto
next
  case (timers m R ty now n m')
  then obtain ls where ls: "sched_inv m ls R" by blast
  have "0 + pq_size (queue_of ty m) < 2 ^ 32" using sched_sizes(2) [OF ls timers.hyps(3)] timers.hyps(2) by simp
  then show ?case using timer_process_keeps [OF ls timers.hyps(3), of 0 now] timers.hyps(4) by auto
next
  case (fds m R rset wset num k m')
  then show ?case using process_fds_loop_ok [of m _ R "fd_limit m" rset wset num 0 0]
    by (fastforce simp: thread_process_fds_def bindR_eq_Inr)
next
  case (fetch m R t l s)
  then obtain ls where ls: "sched_inv m ls R" by blast
  have "thread_trim_head (tlist THREAD_READY m) (threads m) = (Some t, l, s)" using fetch.hyps(2) by (simp add: tlist_def)
  with trim_head_unuse [OF ls list_accessors(8)]
  have "sched_inv ((set_tlist THREAD_READY l m)\<lparr>threads := s\<rparr>) (ls(THREAD_READY := tl (ls THREAD_READY))) (insert t R)" by auto
  then show ?case by (auto simp: set_tlist_def)
next
  case (finish m R t m')
  then show ?case using thread_add_unuse_ok [of m _ R t] by fastforce
qed

text \<open>
  C4: no thread is lost.  In every reachable state of the scheduler each allocated thread
  that is not in flight is in exactly the structure its type names, the doubly linked lists,
  the timer heaps with their stored positions and the descriptor sets are consistent with it,
  every monitored descriptor is below both \<open>fd_limit\<close> and \<open>FD_SETSIZE\<close>, and \<open>alloc\<close> is the
  number of allocated threads, modulo the width of an \<open>unsigned long\<close>.  The histories consist of
  calls that return.
\<close>

theorem reachable_consistent:
  assumes "reach m R"
  shows "\<exists>ls. (\<forall>ty\<in>list_types. tl_rep (tlist ty m) (threads m) (ls ty)) \<and>
     (\<forall>ty\<in>queue_types. timers.pq_inv (threads m) (queue_of ty m) \<and> timers.pq_tracked (queue_of ty m) (threads m)) \<and>
     (\<forall>dir\<in>fd_types. fds_ok dir m) \<and>
     (\<forall>t \<in> allocated m - R. \<forall>ty. t \<in> located m ls ty \<longleftrightarrow> type (threads m t) = ty) \<and>
     alloc m = card (allocated m) mod 2 ^ 64"
proof -
  obtain ls where ls: "sched_inv m ls R" using reach_inv [OF assms] by blast
  have "allocated m = {1..<tbrk m}" by (auto simp: allocated_def)
  then have "alloc m = card (allocated m) mod 2 ^ 64" using sched_invD(7,8) [OF ls] by simp
  then show ?thesis
    using sched_invD(1-4) [OF ls] by (intro exI [of _ ls]) (auto simp: queue_ok_def)
qed

lemma reach_example:
  assumes "thread_add_event (thread_master_create 8 (\<lambda>_. blank_thread)) 1 5 0 = (t, m)"
  shows "reach m {}"
  using reach.add_event [OF reach.create assms] .

theorem reachable_consistent_witness:
  "\<exists>m ls. reach m {} \<and> (\<forall>t \<in> allocated m - {}. \<forall>ty. t \<in> located m ls ty \<longleftrightarrow> type (threads m t) = ty)"
proof -
  obtain t m where "thread_add_event (thread_master_create 8 (\<lambda>_. blank_thread)) 1 5 0 = (t, m)" by fastforce
  then have r: "reach m {}" by (rule reach_example)
  show ?thesis using reachable_consistent [OF r] r by blast
qed

text \<open>
  C31: cancelling succeeds.  In every reachable state, \<open>thread_cancel\<close> of a thread that is
  not in flight returns: no assertion fails and no access is outside a thread array, a heap
  array or an \<open>fd_set\<close>, whatever structure the thread is in; the state stays reachable and the
  thread is unused.
\<close>

theorem thread_cancel_returns:
  assumes "reach m R" "t \<in> allocated m - R"
  shows "\<exists>m'. thread_cancel m t = Inr m' \<and> reach m' R \<and> type (threads m' t) = THREAD_UNUSED"
proof -
  obtain ls where ls: "sched_inv m ls R" using reach_inv [OF assms(1)] by blast
  obtain m' ls' where r: "thread_cancel m t = Inr m'" "sched_inv m' ls' R" "t \<in> set (ls' THREAD_UNUSED)"
    using thread_cancel_ok [OF ls assms(2)] by blast
  have "type (threads m' t) = THREAD_UNUSED"
    using sched_invD(4) [OF r(2), of THREAD_UNUSED] r(3) by (auto simp: located_def list_accessors)
  then show ?thesis using r(1) reach.cancel [OF assms r(1)] by blast
qed

lemma event_example: "thread_add_event (thread_master_create 8 (\<lambda>_. blank_thread)) 1 5 0 = (1, snd (thread_add_event (thread_master_create 8 (\<lambda>_. blank_thread)) 1 5 0))"
    "1 \<in> allocated (snd (thread_add_event (thread_master_create 8 (\<lambda>_. blank_thread)) 1 5 0)) - {}"
  by (simp_all add: thread_add_event_def thread_get_def thread_trim_head_def thread_master_create_def empty_list_def
      set_u_def thread_list_add_def allocated_def Let_def)

theorem thread_cancel_returns_witness:
  "\<exists>m m'. reach m {} \<and> thread_cancel m 1 = Inr m' \<and> reach m' {} \<and> type (threads m' 1) = THREAD_UNUSED"
  using thread_cancel_returns [OF reach_example [OF event_example(1)] event_example(2)]
    reach_example [OF event_example(1)] by blast

text \<open>
  C40: which descriptors may be monitored.  In every reachable state, \<open>thread_add_read\<close> and
  \<open>thread_add_write\<close> return if and only if the descriptor is below both the limit of open files
  and \<open>FD_SETSIZE\<close>, a thread is refused exactly for a descriptor that is already monitored, and
  otherwise the new thread waits for that descriptor; with any other descriptor the code
  accesses memory outside the \<open>fd_set\<close> or outside the array of threads, since it checks neither
  bound.
\<close>

theorem thread_add_rw_bounds:
  assumes "reach m R" "dir \<in> fd_types"
  shows "if fd < fd_limit m \<and> fd < FD_SETSIZE
     then \<exists>r m'. thread_add_read_write dir m f a fd = Inr (r, m') \<and> reach m' R \<and>
       (case r of None \<Rightarrow> m' = m \<and> fdset_of dir m fd
        | Some t \<Rightarrow> \<not> fdset_of dir m fd \<and> t \<in> allocated m' - R \<and> type (threads m' t) = dir \<and> u (threads m' t) = Fd fd)
     else thread_add_read_write dir m f a fd = Inl Mem_fault"
proof -
  obtain ls where ls: "sched_inv m ls R" using reach_inv [OF assms(1)] by blast
  show ?thesis
  proof (cases "fd < fd_limit m \<and> fd < FD_SETSIZE")
    case True
    then obtain r m' where r: "thread_add_read_write dir m f a fd = Inr (r, m')"
      "case r of None \<Rightarrow> m' = m \<and> fdset_of dir m fd
        | Some t \<Rightarrow> \<not> fdset_of dir m fd \<and> t \<in> allocated m' - R \<and> type (threads m' t) = dir \<and> u (threads m' t) = Fd fd"
      using thread_add_rw_ok [OF ls assms(2)] by blast
    with reach.add_read_write [OF assms r(1)] True show ?thesis by auto
  next
    case False
    then show ?thesis using thread_add_rw_fault [OF ls assms(2) False] by (simp only: if_False)
  qed
qed

theorem thread_add_rw_bounds_witness:
  "(\<exists>r m'. thread_add_read_write THREAD_READ (thread_master_create 4096 (\<lambda>_. blank_thread)) 1 5 7 = Inr (r, m') \<and>
      reach m' {}) \<and>
   thread_add_read_write THREAD_READ (thread_master_create 4096 (\<lambda>_. blank_thread)) 1 5 1024 = Inl Mem_fault"
proof -
  let ?m = "thread_master_create 4096 (\<lambda>_. blank_thread)"
  note b = thread_add_rw_bounds [OF reach.create [of 4096 "\<lambda>_. blank_thread"], of THREAD_READ]
  have "fd_limit ?m = 4096" "THREAD_READ \<in> fd_types" by (simp_all add: thread_master_create_def fd_types_def)
  then show ?thesis using b [of 7 1 5] b [of 1024 1 5] by (auto simp: FD_SETSIZE_def)
qed

text \<open>
  \<open>thread_cancel_event\<close> removes exactly the threads with the given argument from the event
  list and the ready list, whatever their kind, keeps the order of the others, and returns
  their number.
\<close>

theorem thread_cancel_event_exact:
  assumes "reach m R" "tbrk m < 2 ^ 31"
  shows "\<exists>ls m' ls'. sched_inv m ls R \<and> thread_cancel_event m a =
      Some (Inr (length (filter (\<lambda>t. arg (threads m t) = a) (ls THREAD_EVENT @ ls THREAD_READY)), m')) \<and>
    sched_inv m' ls' R \<and>
    ls' THREAD_EVENT = filter (\<lambda>t. arg (threads m t) \<noteq> a) (ls THREAD_EVENT) \<and>
    ls' THREAD_READY = filter (\<lambda>t. arg (threads m t) \<noteq> a) (ls THREAD_READY)"
proof -
  obtain ls where ls: "sched_inv m ls R" using reach_inv [OF assms(1)] by blast
  then show ?thesis using cancel_event_ok [OF ls assms(2), of a] by fastforce
qed

theorem thread_cancel_event_exact_witness:
  "\<exists>ls m' ls'. sched_inv (thread_master_create 8 (\<lambda>_. blank_thread)) ls {} \<and>
     thread_cancel_event (thread_master_create 8 (\<lambda>_. blank_thread)) 5 =
      Some (Inr (length (filter (\<lambda>t. arg (threads (thread_master_create 8 (\<lambda>_. blank_thread)) t) = 5) (ls THREAD_EVENT @ ls THREAD_READY)), m')) \<and>
    sched_inv m' ls' {}"
  using thread_cancel_event_exact [OF reach.create, of 8 "\<lambda>_. blank_thread" 5]
  by (auto simp: thread_master_create_def)

text \<open>
  C30: timers run in the order of their expiry.  In every reachable state,
  \<open>thread_timer_process\<close> ends, appends to the ready list exactly the timers that have expired,
  sorted by expiry, and leaves exactly the others in the queue.
\<close>

theorem thread_timer_process_sorted:
  assumes "reach m R" "tbrk m < 2 ^ 31" "ty \<in> queue_types" "sane_time now"
  shows "\<exists>rs ts m'. tl_rep (ready m) (threads m) rs \<and>
     thread_timer_process ty now m 0 = Some (Inr (length ts, m')) \<and> reach m' R \<and>
     tl_rep (ready m') (threads m') (rs @ ts) \<and> sorted (map (expiry (threads m)) ts) \<and>
     mset ts = filter_mset (\<lambda>t. expiry (threads m) t \<le> usecs now) (pq_mset (queue_of ty m)) \<and>
     pq_mset (queue_of ty m') = filter_mset (\<lambda>t. \<not> expiry (threads m) t \<le> usecs now) (pq_mset (queue_of ty m))"
proof -
  obtain ls where ls: "sched_inv m ls R" using reach_inv [OF assms(1)] by blast
  have q: "timers.pq_inv (threads m) (queue_of ty m)" "timers.pq_tracked (queue_of ty m) (threads m)"
    using sched_invD(2) [OF ls assms(3)] by (auto simp: queue_ok_def)
  have rep: "tl_rep (ready m) (threads m) (ls THREAD_READY)"
    using sched_invD(1) [OF ls list_accessors(8)] by (simp add: list_accessors)
  have "set (ls THREAD_READY) = {t \<in> allocated m - R. type (threads m t) = THREAD_READY}"
    using sched_invD(4) [OF ls, of THREAD_READY] by (simp add: located_def list_accessors)
  then have disj: "set (ls THREAD_READY) \<inter> set_mset (pq_mset (queue_of ty m)) = {}"
    using queue_loc [OF ls assms(3)] assms(3) by (auto simp: queue_types_def)
  have "0 + pq_size (queue_of ty m) < 2 ^ 32" using sched_sizes(2) [OF ls assms(3)] assms(2) by simp
  from timer_process_ok [OF q rep disj assms(4) this] obtain ts m' where
    r: "thread_timer_process ty now m 0 = Some (Inr (0 + length ts, m'))"
    "tl_rep (ready m') (threads m') (ls THREAD_READY @ ts)" "sorted (map (expiry (threads m)) ts)"
    "mset ts = filter_mset (\<lambda>t. expiry (threads m) t \<le> usecs now) (pq_mset (queue_of ty m))"
    "pq_mset (queue_of ty m') = filter_mset (\<lambda>t. \<not> expiry (threads m) t \<le> usecs now) (pq_mset (queue_of ty m))"
    by blast
  moreover from reach.timers [OF assms(1-3) r(1)] have "reach m' R" .
  ultimately show ?thesis using rep by auto
qed

theorem thread_timer_process_sorted_witness:
  "\<exists>m rs (ts :: nat list) m'. reach m {} \<and> tl_rep (ready m) (threads m) rs \<and>
     thread_timer_process THREAD_TIMER \<lparr>tv_sec = 3, tv_usec = 0\<rparr> m 0 = Some (Inr (length ts, m')) \<and> reach m' {}"
proof -
  let ?m = "thread_master_create 8 (\<lambda>_. blank_thread)"
  have "sane_time \<lparr>tv_sec = 3, tv_usec = 0\<rparr>" "THREAD_TIMER \<in> queue_types" "tbrk ?m < 2 ^ 31"
    by (simp_all add: sane_time_def TIMER_SECOND_MICRO_def queue_types_def thread_master_create_def)
  then obtain rs m' and ts :: "nat list" where "tl_rep (ready ?m) (threads ?m) rs"
    "thread_timer_process THREAD_TIMER \<lparr>tv_sec = 3, tv_usec = 0\<rparr> ?m 0 = Some (Inr (length ts, m'))" "reach m' {}"
    using thread_timer_process_sorted [OF reach.create, of 8 "\<lambda>_. blank_thread" THREAD_TIMER "\<lparr>tv_sec = 3, tv_usec = 0\<rparr>"]
    by fast
  then show ?thesis by (intro exI [of _ ?m] exI [of _ rs] exI [of _ ts] exI [of _ m'] conjI reach.create)
qed

section \<open>The timeout of \<open>select\<close>\<close>

text \<open>
  Two rounds of \<open>thread_fetch\<close>: in the first, nothing is pending and \<open>select\<close> is interrupted
  by a signal; the handler, run at the beginning of the second, adds an event.
\<close>

definition quiet_round :: fetch_env where
  "quiet_round = \<lparr>signals = \<lambda>m. m, time1 = \<lparr>tv_sec = 1, tv_usec = 0\<rparr>, time2 = \<lparr>tv_sec = 1, tv_usec = 0\<rparr>,
     sel = \<lambda>_. Sel_eintr, left = \<lambda>t. t\<rparr>"

definition event_round :: fetch_env where
  "event_round = quiet_round\<lparr>signals := \<lambda>m. snd (thread_add_event m 1 5 0)\<rparr>"

lemma quiet_first:
  "fetch_round quiet_round (thread_master_create 8 (\<lambda>_. blank_thread)) tw =
     Some (Inr (Retry None, thread_master_create 8 (\<lambda>_. blank_thread), [(None, 0)]))"
  by (simp add: fetch_round_def quiet_round_def thread_trim_head_def thread_master_create_def empty_list_def
      thread_process_def thread_process_loop.simps select_timeout_def thread_timer_wait_def pqueue_create_def Let_def)

lemma event_second:
  "\<exists>m'. fetch_round event_round (thread_master_create 8 (\<lambda>_. blank_thread)) None =
     Some (Inr (Retry None, m', [(None, 1)]))"
  by (simp add: fetch_round_def quiet_round_def event_round_def thread_trim_head_def thread_master_create_def empty_list_def
      thread_add_event_def thread_get_def set_u_def thread_list_add_def thread_list_delete_def blank_thread_def
      thread_process_def thread_process_loop.simps select_timeout_def int_wrap_small Let_def)

text \<open>
  the timeout handed to \<open>select\<close> can be stale.  \<open>timer_wait\<close> is declared outside the loop of
  \<open>thread_fetch\<close> and recomputed only when no thread is ready; after a round that waited without
  limit and was interrupted, a round in which the signal handler has made a thread ready again
  calls \<open>select\<close> without a timeout: it blocks although a thread could run.
\<close>

theorem thread_fetch_stale_timeout:
  "\<exists>es m r m'. reach m {} \<and> thread_fetch es m = Some (Inr (r, m', [(None, 0), (None, 1)]))"
proof -
  let ?m = "thread_master_create 8 (\<lambda>_. blank_thread)"
  obtain m' where m': "fetch_round event_round ?m None = Some (Inr (Retry None, m', [(None, 1)]))"
    using event_second by blast
  have "thread_fetch [quiet_round, event_round] ?m = Some (Inr (Retry None, m', [(None, 0), (None, 1)]))"
    by (simp add: thread_fetch_def quiet_first m')
  moreover have "reach ?m {}" by (rule reach.create)
  ultimately show ?thesis by blast
qed

end
