(* ===== verification/Prefix.thy ===== *)
theory Prefix
  imports Prelude "HOL-Library.Sublist"
begin

text \<open>
  Address prefixes (lib/prefix.c, lib/prefix.h): an address family, a length in bits and the
  bytes of an address.  The theory models the bit and mask arithmetic of the file, the
  comparisons, and the conversions to and from strings, and relates them to the network a
  prefix stands for: the string of its first \<open>prefixlen\<close> bits (\<open>net\<close>).
\<close>

section \<open>Data\<close>

text \<open>
  \<open>u\<close> holds the bytes of the union: 16 for a \<open>struct prefix\<close> or \<open>struct prefix_ipv6\<close>, 8 (four
  bytes of address and the padding) for a \<open>struct prefix_ipv4\<close> or \<open>struct prefix_eth\<close>.
  A \<open>struct in_addr\<close> is the list of its four bytes in memory (network byte order).
  The numbers of the address families are those of Linux.
\<close>

record prefix =
  family :: u8
  prefixlen :: u8
  u :: "u8 list"

abbreviation plen :: "prefix \<Rightarrow> nat" where
  "plen p \<equiv> unat (prefixlen p)"

definition AF_UNSPEC :: u8 where "AF_UNSPEC = 0"
definition AF_INET :: u8 where "AF_INET = 2"
definition AF_INET6 :: u8 where "AF_INET6 = 10"
definition AF_ETHERNET :: u8 where "AF_ETHERNET = 17"

lemmas families = AF_UNSPEC_def AF_INET_def AF_INET6_def AF_ETHERNET_def

datatype afi = AFI_IP | AFI_IP6 | AFI_ETHER

definition IPV4_MAX_BYTELEN :: nat where "IPV4_MAX_BYTELEN = 4"
definition IPV4_MAX_BITLEN :: nat where "IPV4_MAX_BITLEN = 32"
definition IPV6_MAX_BYTELEN :: nat where "IPV6_MAX_BYTELEN = 16"
definition IPV6_MAX_BITLEN :: nat where "IPV6_MAX_BITLEN = 128"
definition ETHER_ADDR_LEN :: nat where "ETHER_ADDR_LEN = 6"

lemmas addr_lens = IPV4_MAX_BYTELEN_def IPV4_MAX_BITLEN_def IPV6_MAX_BYTELEN_def
  IPV6_MAX_BITLEN_def ETHER_ADDR_LEN_def

definition maskbit :: "u8 list" where
  "maskbit = [0x00, 0x80, 0xc0, 0xe0, 0xf0, 0xf8, 0xfc, 0xfe, 0xff]"

definition maskbytes6 :: "u8 list list" where
  "maskbytes6 =
  [[0x00, 0x00, 0x00, 0x00, 0x00, 0x00, 0x00, 0x00, 0x00, 0x00, 0x00, 0x00, 0x00, 0x00, 0x00, 0x00],
   [0x80, 0x00, 0x00, 0x00, 0x00, 0x00, 0x00, 0x00, 0x00, 0x00, 0x00, 0x00, 0x00, 0x00, 0x00, 0x00],
   [0xC0, 0x00, 0x00, 0x00, 0x00, 0x00, 0x00, 0x00, 0x00, 0x00, 0x00, 0x00, 0x00, 0x00, 0x00, 0x00],
   [0xE0, 0x00, 0x00, 0x00, 0x00, 0x00, 0x00, 0x00, 0x00, 0x00, 0x00, 0x00, 0x00, 0x00, 0x00, 0x00],
   [0xF0, 0x00, 0x00, 0x00, 0x00, 0x00, 0x00, 0x00, 0x00, 0x00, 0x00, 0x00, 0x00, 0x00, 0x00, 0x00],
   [0xF8, 0x00, 0x00, 0x00, 0x00, 0x00, 0x00, 0x00, 0x00, 0x00, 0x00, 0x00, 0x00, 0x00, 0x00, 0x00],
   [0xFC, 0x00, 0x00, 0x00, 0x00, 0x00, 0x00, 0x00, 0x00, 0x00, 0x00, 0x00, 0x00, 0x00, 0x00, 0x00],
   [0xFE, 0x00, 0x00, 0x00, 0x00, 0x00, 0x00, 0x00, 0x00, 0x00, 0x00, 0x00, 0x00, 0x00, 0x00, 0x00],
   [0xFF, 0x00, 0x00, 0x00, 0x00, 0x00, 0x00, 0x00, 0x00, 0x00, 0x00, 0x00, 0x00, 0x00, 0x00, 0x00],
   [0xFF, 0x80, 0x00, 0x00, 0x00, 0x00, 0x00, 0x00, 0x00, 0x00, 0x00, 0x00, 0x00, 0x00, 0x00, 0x00],
   [0xFF, 0xC0, 0x00, 0x00, 0x00, 0x00, 0x00, 0x00, 0x00, 0x00, 0x00, 0x00, 0x00, 0x00, 0x00, 0x00],
   [0xFF, 0xE0, 0x00, 0x00, 0x00, 0x00, 0x00, 0x00, 0x00, 0x00, 0x00, 0x00, 0x00, 0x00, 0x00, 0x00],
   [0xFF, 0xF0, 0x00, 0x00, 0x00, 0x00, 0x00, 0x00, 0x00, 0x00, 0x00, 0x00, 0x00, 0x00, 0x00, 0x00],
   [0xFF, 0xF8, 0x00, 0x00, 0x00, 0x00, 0x00, 0x00, 0x00, 0x00, 0x00, 0x00, 0x00, 0x00, 0x00, 0x00],
   [0xFF, 0xFC, 0x00, 0x00, 0x00, 0x00, 0x00, 0x00, 0x00, 0x00, 0x00, 0x00, 0x00, 0x00, 0x00, 0x00],
   [0xFF, 0xFE, 0x00, 0x00, 0x00, 0x00, 0x00, 0x00, 0x00, 0x00, 0x00, 0x00, 0x00, 0x00, 0x00, 0x00],
   [0xFF, 0xFF, 0x00, 0x00, 0x00, 0x00, 0x00, 0x00, 0x00, 0x00, 0x00, 0x00, 0x00, 0x00, 0x00, 0x00],
   [0xFF, 0xFF, 0x80, 0x00, 0x00, 0x00, 0x00, 0x00, 0x00, 0x00, 0x00, 0x00, 0x00, 0x00, 0x00, 0x00],
   [0xFF, 0xFF, 0xC0, 0x00, 0x00, 0x00, 0x00, 0x00, 0x00, 0x00, 0x00, 0x00, 0x00, 0x00, 0x00, 0x00],
   [0xFF, 0xFF, 0xE0, 0x00, 0x00, 0x00, 0x00, 0x00, 0x00, 0x00, 0x00, 0x00, 0x00, 0x00, 0x00, 0x00],
   [0xFF, 0xFF, 0xF0, 0x00, 0x00, 0x00, 0x00, 0x00, 0x00, 0x00, 0x00, 0x00, 0x00, 0x00, 0x00, 0x00],
   [0xFF, 0xFF, 0xF8, 0x00, 0x00, 0x00, 0x00, 0x00, 0x00, 0x00, 0x00, 0x00, 0x00, 0x00, 0x00, 0x00],
   [0xFF, 0xFF, 0xFC, 0x00, 0x00, 0x00, 0x00, 0x00, 0x00, 0x00, 0x00, 0x00, 0x00, 0x00, 0x00, 0x00],
   [0xFF, 0xFF, 0xFE, 0x00, 0x00, 0x00, 0x00, 0x00, 0x00, 0x00, 0x00, 0x00, 0x00, 0x00, 0x00, 0x00],
   [0xFF, 0xFF, 0xFF, 0x00, 0x00, 0x00, 0x00, 0x00, 0x00, 0x00, 0x00, 0x00, 0x00, 0x00, 0x00, 0x00],
   [0xFF, 0xFF, 0xFF, 0x80, 0x00, 0x00, 0x00, 0x00, 0x00, 0x00, 0x00, 0x00, 0x00, 0x00, 0x00, 0x00],
   [0xFF, 0xFF, 0xFF, 0xC0, 0x00, 0x00, 0x00, 0x00, 0x00, 0x00, 0x00, 0x00, 0x00, 0x00, 0x00, 0x00],
   [0xFF, 0xFF, 0xFF, 0xE0, 0x00, 0x00, 0x00, 0x00, 0x00, 0x00, 0x00, 0x00, 0x00, 0x00, 0x00, 0x00],
   [0xFF, 0xFF, 0xFF, 0xF0, 0x00, 0x00, 0x00, 0x00, 0x00, 0x00, 0x00, 0x00, 0x00, 0x00, 0x00, 0x00],
   [0xFF, 0xFF, 0xFF, 0xF8, 0x00, 0x00, 0x00, 0x00, 0x00, 0x00, 0x00, 0x00, 0x00, 0x00, 0x00, 0x00],
   [0xFF, 0xFF, 0xFF, 0xFC, 0x00, 0x00, 0x00, 0x00, 0x00, 0x00, 0x00, 0x00, 0x00, 0x00, 0x00, 0x00],
   [0xFF, 0xFF, 0xFF, 0xFE, 0x00, 0x00, 0x00, 0x00, 0x00, 0x00, 0x00, 0x00, 0x00, 0x00, 0x00, 0x00],
   [0xFF, 0xFF, 0xFF, 0xFF, 0x00, 0x00, 0x00, 0x00, 0x00, 0x00, 0x00, 0x00, 0x00, 0x00, 0x00, 0x00],
   [0xFF, 0xFF, 0xFF, 0xFF, 0x80, 0x00, 0x00, 0x00, 0x00, 0x00, 0x00, 0x00, 0x00, 0x00, 0x00, 0x00],
   [0xFF, 0xFF, 0xFF, 0xFF, 0xC0, 0x00, 0x00, 0x00, 0x00, 0x00, 0x00, 0x00, 0x00, 0x00, 0x00, 0x00],
   [0xFF, 0xFF, 0xFF, 0xFF, 0xE0, 0x00, 0x00, 0x00, 0x00, 0x00, 0x00, 0x00, 0x00, 0x00, 0x00, 0x00],
   [0xFF, 0xFF, 0xFF, 0xFF, 0xF0, 0x00, 0x00, 0x00, 0x00, 0x00, 0x00, 0x00, 0x00, 0x00, 0x00, 0x00],
   [0xFF, 0xFF, 0xFF, 0xFF, 0xF8, 0x00, 0x00, 0x00, 0x00, 0x00, 0x00, 0x00, 0x00, 0x00, 0x00, 0x00],
   [0xFF, 0xFF, 0xFF, 0xFF, 0xFC, 0x00, 0x00, 0x00, 0x00, 0x00, 0x00, 0x00, 0x00, 0x00, 0x00, 0x00],
   [0xFF, 0xFF, 0xFF, 0xFF, 0xFE, 0x00, 0x00, 0x00, 0x00, 0x00, 0x00, 0x00, 0x00, 0x00, 0x00, 0x00],
   [0xFF, 0xFF, 0xFF, 0xFF, 0xFF, 0x00, 0x00, 0x00, 0x00, 0x00, 0x00, 0x00, 0x00, 0x00, 0x00, 0x00],
   [0xFF, 0xFF, 0xFF, 0xFF, 0xFF, 0x80, 0x00, 0x00, 0x00, 0x00, 0x00, 0x00, 0x00, 0x00, 0x00, 0x00],
   [0xFF, 0xFF, 0xFF, 0xFF, 0xFF, 0xC0, 0x00, 0x00, 0x00, 0x00, 0x00, 0x00, 0x00, 0x00, 0x00, 0x00],
   [0xFF, 0xFF, 0xFF, 0xFF, 0xFF, 0xE0, 0x00, 0x00, 0x00, 0x00, 0x00, 0x00, 0x00, 0x00, 0x00, 0x00],
   [0xFF, 0xFF, 0xFF, 0xFF, 0xFF, 0xF0, 0x00, 0x00, 0x00, 0x00, 0x00, 0x00, 0x00, 0x00, 0x00, 0x00],
   [0xFF, 0xFF, 0xFF, 0xFF, 0xFF, 0xF8, 0x00, 0x00, 0x00, 0x00, 0x00, 0x00, 0x00, 0x00, 0x00, 0x00],
   [0xFF, 0xFF, 0xFF, 0xFF, 0xFF, 0xFC, 0x00, 0x00, 0x00, 0x00, 0x00, 0x00, 0x00, 0x00, 0x00, 0x00],
   [0xFF, 0xFF, 0xFF, 0xFF, 0xFF, 0xFE, 0x00, 0x00, 0x00, 0x00, 0x00, 0x00, 0x00, 0x00, 0x00, 0x00],
   [0xFF, 0xFF, 0xFF, 0xFF, 0xFF, 0xFF, 0x00, 0x00, 0x00, 0x00, 0x00, 0x00, 0x00, 0x00, 0x00, 0x00],
   [0xFF, 0xFF, 0xFF, 0xFF, 0xFF, 0xFF, 0x80, 0x00, 0x00, 0x00, 0x00, 0x00, 0x00, 0x00, 0x00, 0x00],
   [0xFF, 0xFF, 0xFF, 0xFF, 0xFF, 0xFF, 0xC0, 0x00, 0x00, 0x00, 0x00, 0x00, 0x00, 0x00, 0x00, 0x00],
   [0xFF, 0xFF, 0xFF, 0xFF, 0xFF, 0xFF, 0xE0, 0x00, 0x00, 0x00, 0x00, 0x00, 0x00, 0x00, 0x00, 0x00],
   [0xFF, 0xFF, 0xFF, 0xFF, 0xFF, 0xFF, 0xF0, 0x00, 0x00, 0x00, 0x00, 0x00, 0x00, 0x00, 0x00, 0x00],
   [0xFF, 0xFF, 0xFF, 0xFF, 0xFF, 0xFF, 0xF8, 0x00, 0x00, 0x00, 0x00, 0x00, 0x00, 0x00, 0x00, 0x00],
   [0xFF, 0xFF, 0xFF, 0xFF, 0xFF, 0xFF, 0xFC, 0x00, 0x00, 0x00, 0x00, 0x00, 0x00, 0x00, 0x00, 0x00],
   [0xFF, 0xFF, 0xFF, 0xFF, 0xFF, 0xFF, 0xFE, 0x00, 0x00, 0x00, 0x00, 0x00, 0x00, 0x00, 0x00, 0x00],
   [0xFF, 0xFF, 0xFF, 0xFF, 0xFF, 0xFF, 0xFF, 0x00, 0x00, 0x00, 0x00, 0x00, 0x00, 0x00, 0x00, 0x00],
   [0xFF, 0xFF, 0xFF, 0xFF, 0xFF, 0xFF, 0xFF, 0x80, 0x00, 0x00, 0x00, 0x00, 0x00, 0x00, 0x00, 0x00],
   [0xFF, 0xFF, 0xFF, 0xFF, 0xFF, 0xFF, 0xFF, 0xC0, 0x00, 0x00, 0x00, 0x00, 0x00, 0x00, 0x00, 0x00],
   [0xFF, 0xFF, 0xFF, 0xFF, 0xFF, 0xFF, 0xFF, 0xE0, 0x00, 0x00, 0x00, 0x00, 0x00, 0x00, 0x00, 0x00],
   [0xFF, 0xFF, 0xFF, 0xFF, 0xFF, 0xFF, 0xFF, 0xF0, 0x00, 0x00, 0x00, 0x00, 0x00, 0x00, 0x00, 0x00],
   [0xFF, 0xFF, 0xFF, 0xFF, 0xFF, 0xFF, 0xFF, 0xF8, 0x00, 0x00, 0x00, 0x00, 0x00, 0x00, 0x00, 0x00],
   [0xFF, 0xFF, 0xFF, 0xFF, 0xFF, 0xFF, 0xFF, 0xFC, 0x00, 0x00, 0x00, 0x00, 0x00, 0x00, 0x00, 0x00],
   [0xFF, 0xFF, 0xFF, 0xFF, 0xFF, 0xFF, 0xFF, 0xFE, 0x00, 0x00, 0x00, 0x00, 0x00, 0x00, 0x00, 0x00],
   [0xFF, 0xFF, 0xFF, 0xFF, 0xFF, 0xFF, 0xFF, 0xFF, 0x00, 0x00, 0x00, 0x00, 0x00, 0x00, 0x00, 0x00],
   [0xFF, 0xFF, 0xFF, 0xFF, 0xFF, 0xFF, 0xFF, 0xFF, 0x80, 0x00, 0x00, 0x00, 0x00, 0x00, 0x00, 0x00],
   [0xFF, 0xFF, 0xFF, 0xFF, 0xFF, 0xFF, 0xFF, 0xFF, 0xC0, 0x00, 0x00, 0x00, 0x00, 0x00, 0x00, 0x00],
   [0xFF, 0xFF, 0xFF, 0xFF, 0xFF, 0xFF, 0xFF, 0xFF, 0xE0, 0x00, 0x00, 0x00, 0x00, 0x00, 0x00, 0x00],
   [0xFF, 0xFF, 0xFF, 0xFF, 0xFF, 0xFF, 0xFF, 0xFF, 0xF0, 0x00, 0x00, 0x00, 0x00, 0x00, 0x00, 0x00],
   [0xFF, 0xFF, 0xFF, 0xFF, 0xFF, 0xFF, 0xFF, 0xFF, 0xF8, 0x00, 0x00, 0x00, 0x00, 0x00, 0x00, 0x00],
   [0xFF, 0xFF, 0xFF, 0xFF, 0xFF, 0xFF, 0xFF, 0xFF, 0xFC, 0x00, 0x00, 0x00, 0x00, 0x00, 0x00, 0x00],
   [0xFF, 0xFF, 0xFF, 0xFF, 0xFF, 0xFF, 0xFF, 0xFF, 0xFE, 0x00, 0x00, 0x00, 0x00, 0x00, 0x00, 0x00],
   [0xFF, 0xFF, 0xFF, 0xFF, 0xFF, 0xFF, 0xFF, 0xFF, 0xFF, 0x00, 0x00, 0x00, 0x00, 0x00, 0x00, 0x00],
   [0xFF, 0xFF, 0xFF, 0xFF, 0xFF, 0xFF, 0xFF, 0xFF, 0xFF, 0x80, 0x00, 0x00, 0x00, 0x00, 0x00, 0x00],
   [0xFF, 0xFF, 0xFF, 0xFF, 0xFF, 0xFF, 0xFF, 0xFF, 0xFF, 0xC0, 0x00, 0x00, 0x00, 0x00, 0x00, 0x00],
   [0xFF, 0xFF, 0xFF, 0xFF, 0xFF, 0xFF, 0xFF, 0xFF, 0xFF, 0xE0, 0x00, 0x00, 0x00, 0x00, 0x00, 0x00],
   [0xFF, 0xFF, 0xFF, 0xFF, 0xFF, 0xFF, 0xFF, 0xFF, 0xFF, 0xF0, 0x00, 0x00, 0x00, 0x00, 0x00, 0x00],
   [0xFF, 0xFF, 0xFF, 0xFF, 0xFF, 0xFF, 0xFF, 0xFF, 0xFF, 0xF8, 0x00, 0x00, 0x00, 0x00, 0x00, 0x00],
   [0xFF, 0xFF, 0xFF, 0xFF, 0xFF, 0xFF, 0xFF, 0xFF, 0xFF, 0xFC, 0x00, 0x00, 0x00, 0x00, 0x00, 0x00],
   [0xFF, 0xFF, 0xFF, 0xFF, 0xFF, 0xFF, 0xFF, 0xFF, 0xFF, 0xFE, 0x00, 0x00, 0x00, 0x00, 0x00, 0x00],
   [0xFF, 0xFF, 0xFF, 0xFF, 0xFF, 0xFF, 0xFF, 0xFF, 0xFF, 0xFF, 0x00, 0x00, 0x00, 0x00, 0x00, 0x00],
   [0xFF, 0xFF, 0xFF, 0xFF, 0xFF, 0xFF, 0xFF, 0xFF, 0xFF, 0xFF, 0x80, 0x00, 0x00, 0x00, 0x00, 0x00],
   [0xFF, 0xFF, 0xFF, 0xFF, 0xFF, 0xFF, 0xFF, 0xFF, 0xFF, 0xFF, 0xC0, 0x00, 0x00, 0x00, 0x00, 0x00],
   [0xFF, 0xFF, 0xFF, 0xFF, 0xFF, 0xFF, 0xFF, 0xFF, 0xFF, 0xFF, 0xE0, 0x00, 0x00, 0x00, 0x00, 0x00],
   [0xFF, 0xFF, 0xFF, 0xFF, 0xFF, 0xFF, 0xFF, 0xFF, 0xFF, 0xFF, 0xF0, 0x00, 0x00, 0x00, 0x00, 0x00],
   [0xFF, 0xFF, 0xFF, 0xFF, 0xFF, 0xFF, 0xFF, 0xFF, 0xFF, 0xFF, 0xF8, 0x00, 0x00, 0x00, 0x00, 0x00],
   [0xFF, 0xFF, 0xFF, 0xFF, 0xFF, 0xFF, 0xFF, 0xFF, 0xFF, 0xFF, 0xFC, 0x00, 0x00, 0x00, 0x00, 0x00],
   [0xFF, 0xFF, 0xFF, 0xFF, 0xFF, 0xFF, 0xFF, 0xFF, 0xFF, 0xFF, 0xFE, 0x00, 0x00, 0x00, 0x00, 0x00],
   [0xFF, 0xFF, 0xFF, 0xFF, 0xFF, 0xFF, 0xFF, 0xFF, 0xFF, 0xFF, 0xFF, 0x00, 0x00, 0x00, 0x00, 0x00],
   [0xFF, 0xFF, 0xFF, 0xFF, 0xFF, 0xFF, 0xFF, 0xFF, 0xFF, 0xFF, 0xFF, 0x80, 0x00, 0x00, 0x00, 0x00],
   [0xFF, 0xFF, 0xFF, 0xFF, 0xFF, 0xFF, 0xFF, 0xFF, 0xFF, 0xFF, 0xFF, 0xC0, 0x00, 0x00, 0x00, 0x00],
   [0xFF, 0xFF, 0xFF, 0xFF, 0xFF, 0xFF, 0xFF, 0xFF, 0xFF, 0xFF, 0xFF, 0xE0, 0x00, 0x00, 0x00, 0x00],
   [0xFF, 0xFF, 0xFF, 0xFF, 0xFF, 0xFF, 0xFF, 0xFF, 0xFF, 0xFF, 0xFF, 0xF0, 0x00, 0x00, 0x00, 0x00],
   [0xFF, 0xFF, 0xFF, 0xFF, 0xFF, 0xFF, 0xFF, 0xFF, 0xFF, 0xFF, 0xFF, 0xF8, 0x00, 0x00, 0x00, 0x00],
   [0xFF, 0xFF, 0xFF, 0xFF, 0xFF, 0xFF, 0xFF, 0xFF, 0xFF, 0xFF, 0xFF, 0xFC, 0x00, 0x00, 0x00, 0x00],
   [0xFF, 0xFF, 0xFF, 0xFF, 0xFF, 0xFF, 0xFF, 0xFF, 0xFF, 0xFF, 0xFF, 0xFE, 0x00, 0x00, 0x00, 0x00],
   [0xFF, 0xFF, 0xFF, 0xFF, 0xFF, 0xFF, 0xFF, 0xFF, 0xFF, 0xFF, 0xFF, 0xFF, 0x00, 0x00, 0x00, 0x00],
   [0xFF, 0xFF, 0xFF, 0xFF, 0xFF, 0xFF, 0xFF, 0xFF, 0xFF, 0xFF, 0xFF, 0xFF, 0x80, 0x00, 0x00, 0x00],
   [0xFF, 0xFF, 0xFF, 0xFF, 0xFF, 0xFF, 0xFF, 0xFF, 0xFF, 0xFF, 0xFF, 0xFF, 0xC0, 0x00, 0x00, 0x00],
   [0xFF, 0xFF, 0xFF, 0xFF, 0xFF, 0xFF, 0xFF, 0xFF, 0xFF, 0xFF, 0xFF, 0xFF, 0xE0, 0x00, 0x00, 0x00],
   [0xFF, 0xFF, 0xFF, 0xFF, 0xFF, 0xFF, 0xFF, 0xFF, 0xFF, 0xFF, 0xFF, 0xFF, 0xF0, 0x00, 0x00, 0x00],
   [0xFF, 0xFF, 0xFF, 0xFF, 0xFF, 0xFF, 0xFF, 0xFF, 0xFF, 0xFF, 0xFF, 0xFF, 0xF8, 0x00, 0x00, 0x00],
   [0xFF, 0xFF, 0xFF, 0xFF, 0xFF, 0xFF, 0xFF, 0xFF, 0xFF, 0xFF, 0xFF, 0xFF, 0xFC, 0x00, 0x00, 0x00],
   [0xFF, 0xFF, 0xFF, 0xFF, 0xFF, 0xFF, 0xFF, 0xFF, 0xFF, 0xFF, 0xFF, 0xFF, 0xFE, 0x00, 0x00, 0x00],
   [0xFF, 0xFF, 0xFF, 0xFF, 0xFF, 0xFF, 0xFF, 0xFF, 0xFF, 0xFF, 0xFF, 0xFF, 0xFF, 0x00, 0x00, 0x00],
   [0xFF, 0xFF, 0xFF, 0xFF, 0xFF, 0xFF, 0xFF, 0xFF, 0xFF, 0xFF, 0xFF, 0xFF, 0xFF, 0x80, 0x00, 0x00],
   [0xFF, 0xFF, 0xFF, 0xFF, 0xFF, 0xFF, 0xFF, 0xFF, 0xFF, 0xFF, 0xFF, 0xFF, 0xFF, 0xC0, 0x00, 0x00],
   [0xFF, 0xFF, 0xFF, 0xFF, 0xFF, 0xFF, 0xFF, 0xFF, 0xFF, 0xFF, 0xFF, 0xFF, 0xFF, 0xE0, 0x00, 0x00],
   [0xFF, 0xFF, 0xFF, 0xFF, 0xFF, 0xFF, 0xFF, 0xFF, 0xFF, 0xFF, 0xFF, 0xFF, 0xFF, 0xF0, 0x00, 0x00],
   [0xFF, 0xFF, 0xFF, 0xFF, 0xFF, 0xFF, 0xFF, 0xFF, 0xFF, 0xFF, 0xFF, 0xFF, 0xFF, 0xF8, 0x00, 0x00],
   [0xFF, 0xFF, 0xFF, 0xFF, 0xFF, 0xFF, 0xFF, 0xFF, 0xFF, 0xFF, 0xFF, 0xFF, 0xFF, 0xFC, 0x00, 0x00],
   [0xFF, 0xFF, 0xFF, 0xFF, 0xFF, 0xFF, 0xFF, 0xFF, 0xFF, 0xFF, 0xFF, 0xFF, 0xFF, 0xFE, 0x00, 0x00],
   [0xFF, 0xFF, 0xFF, 0xFF, 0xFF, 0xFF, 0xFF, 0xFF, 0xFF, 0xFF, 0xFF, 0xFF, 0xFF, 0xFF, 0x00, 0x00],
   [0xFF, 0xFF, 0xFF, 0xFF, 0xFF, 0xFF, 0xFF, 0xFF, 0xFF, 0xFF, 0xFF, 0xFF, 0xFF, 0xFF, 0x80, 0x00],
   [0xFF, 0xFF, 0xFF, 0xFF, 0xFF, 0xFF, 0xFF, 0xFF, 0xFF, 0xFF, 0xFF, 0xFF, 0xFF, 0xFF, 0xC0, 0x00],
   [0xFF, 0xFF, 0xFF, 0xFF, 0xFF, 0xFF, 0xFF, 0xFF, 0xFF, 0xFF, 0xFF, 0xFF, 0xFF, 0xFF, 0xE0, 0x00],
   [0xFF, 0xFF, 0xFF, 0xFF, 0xFF, 0xFF, 0xFF, 0xFF, 0xFF, 0xFF, 0xFF, 0xFF, 0xFF, 0xFF, 0xF0, 0x00],
   [0xFF, 0xFF, 0xFF, 0xFF, 0xFF, 0xFF, 0xFF, 0xFF, 0xFF, 0xFF, 0xFF, 0xFF, 0xFF, 0xFF, 0xF8, 0x00],
   [0xFF, 0xFF, 0xFF, 0xFF, 0xFF, 0xFF, 0xFF, 0xFF, 0xFF, 0xFF, 0xFF, 0xFF, 0xFF, 0xFF, 0xFC, 0x00],
   [0xFF, 0xFF, 0xFF, 0xFF, 0xFF, 0xFF, 0xFF, 0xFF, 0xFF, 0xFF, 0xFF, 0xFF, 0xFF, 0xFF, 0xFE, 0x00],
   [0xFF, 0xFF, 0xFF, 0xFF, 0xFF, 0xFF, 0xFF, 0xFF, 0xFF, 0xFF, 0xFF, 0xFF, 0xFF, 0xFF, 0xFF, 0x00],
   [0xFF, 0xFF, 0xFF, 0xFF, 0xFF, 0xFF, 0xFF, 0xFF, 0xFF, 0xFF, 0xFF, 0xFF, 0xFF, 0xFF, 0xFF, 0x80],
   [0xFF, 0xFF, 0xFF, 0xFF, 0xFF, 0xFF, 0xFF, 0xFF, 0xFF, 0xFF, 0xFF, 0xFF, 0xFF, 0xFF, 0xFF, 0xC0],
   [0xFF, 0xFF, 0xFF, 0xFF, 0xFF, 0xFF, 0xFF, 0xFF, 0xFF, 0xFF, 0xFF, 0xFF, 0xFF, 0xFF, 0xFF, 0xE0],
   [0xFF, 0xFF, 0xFF, 0xFF, 0xFF, 0xFF, 0xFF, 0xFF, 0xFF, 0xFF, 0xFF, 0xFF, 0xFF, 0xFF, 0xFF, 0xF0],
   [0xFF, 0xFF, 0xFF, 0xFF, 0xFF, 0xFF, 0xFF, 0xFF, 0xFF, 0xFF, 0xFF, 0xFF, 0xFF, 0xFF, 0xFF, 0xF8],
   [0xFF, 0xFF, 0xFF, 0xFF, 0xFF, 0xFF, 0xFF, 0xFF, 0xFF, 0xFF, 0xFF, 0xFF, 0xFF, 0xFF, 0xFF, 0xFC],
   [0xFF, 0xFF, 0xFF, 0xFF, 0xFF, 0xFF, 0xFF, 0xFF, 0xFF, 0xFF, 0xFF, 0xFF, 0xFF, 0xFF, 0xFF, 0xFE],
   [0xFF, 0xFF, 0xFF, 0xFF, 0xFF, 0xFF, 0xFF, 0xFF, 0xFF, 0xFF, 0xFF, 0xFF, 0xFF, 0xFF, 0xFF, 0xFF]]"

section \<open>Bits and families\<close>

definition prefix_bit :: "u8 list \<Rightarrow> u8 \<Rightarrow> nat res" where
  "prefix_bit bs len =
     (let offset = unat len div 8; shift = 7 - unat len mod 8 in
      bindR (mem_get bs offset) (\<lambda>b. Inr (unat (drop_bit shift b AND 1))))"

definition prefix6_bit :: "u8 list \<Rightarrow> u8 \<Rightarrow> nat res" where
  "prefix6_bit addr len = prefix_bit addr len"

definition str2family :: "string \<Rightarrow> u8 option" where
  "str2family s =
     (if s = ''ipv4'' then Some AF_INET
      else if s = ''ipv6'' then Some AF_INET6
      else if s = ''ethernet'' then Some AF_ETHERNET else None)"

definition afi2family :: "afi \<Rightarrow> u8" where
  "afi2family a =
     (if a = AFI_IP then AF_INET else if a = AFI_IP6 then AF_INET6
      else if a = AFI_ETHER then AF_ETHERNET else 0)"

definition family2afi :: "u8 \<Rightarrow> afi option" where
  "family2afi f =
     (if f = AF_INET then Some AFI_IP else if f = AF_INET6 then Some AFI_IP6
      else if f = AF_ETHERNET then Some AFI_ETHER else None)"

fun afi2str :: "afi \<Rightarrow> string" where
  "afi2str AFI_IP = ''IPv4''"
| "afi2str AFI_IP6 = ''IPv6''"
| "afi2str AFI_ETHER = ''ethernet''"

definition safi2str :: "u8 \<Rightarrow> string option" where
  "safi2str s =
     (if s = 1 then Some ''unicast'' else if s = 2 then Some ''multicast''
      else if s = 7 then Some ''encap'' else if s = 4 then Some ''vpn'' else None)"

section \<open>Comparisons\<close>

text \<open>The loop \<open>while (offset--) if (np[offset] != pp[offset]) return 0;\<close>.\<close>

fun same_bytes :: "u8 list \<Rightarrow> u8 list \<Rightarrow> nat \<Rightarrow> bool res" where
  "same_bytes np pp 0 = Inr True"
| "same_bytes np pp (Suc offset) =
     bindR (mem_get np offset) (\<lambda>a. bindR (mem_get pp offset) (\<lambda>b.
       if a \<noteq> b then Inr False else same_bytes np pp offset))"

text \<open>The network parts of two addresses agree on \<open>len\<close> bits: the common part of
  \<open>prefix_match\<close> and \<open>prefix_cmp\<close>.\<close>

definition same_net :: "u8 list \<Rightarrow> u8 list \<Rightarrow> nat \<Rightarrow> bool res" where
  "same_net np pp len =
     (let offset = len div 8; shift = len mod 8 in
      bindR (if shift \<noteq> 0
             then bindR (mem_get np offset) (\<lambda>a. bindR (mem_get pp offset) (\<lambda>b.
                    Inr (maskbit ! shift AND (a XOR b) \<noteq> 0)))
             else Inr False)
        (\<lambda>differ. if differ then Inr False else same_bytes np pp offset))"

definition prefix_match :: "prefix \<Rightarrow> prefix \<Rightarrow> bool res" where
  "prefix_match n p =
     (if plen n > plen p then Inr False else same_net (u n) (u p) (plen n))"

text \<open>\<open>True\<close> stands for the result 0 of \<open>prefix_cmp\<close>: the prefixes are the same.\<close>

definition prefix_cmp :: "prefix \<Rightarrow> prefix \<Rightarrow> bool res" where
  "prefix_cmp p1 p2 =
     (if family p1 \<noteq> family p2 \<or> prefixlen p1 \<noteq> prefixlen p2 then Inr False
      else same_net (u p1) (u p2) (plen p1))"

text \<open>Structure assignment of the first \<open>n\<close> bytes of the union.\<close>

definition copy_bytes :: "nat \<Rightarrow> prefix \<Rightarrow> prefix \<Rightarrow> prefix res" where
  "copy_bytes n dest src =
     bindR (mem_read (u src) 0 n) (\<lambda>bs. bindR (mem_write (u dest) 0 bs) (\<lambda>d.
       Inr (dest\<lparr>u := d\<rparr>)))"

definition prefix_copy :: "prefix \<Rightarrow> prefix \<Rightarrow> prefix res" where
  "prefix_copy dest src =
     (let dest = dest\<lparr>family := family src, prefixlen := prefixlen src\<rparr> in
      if family src = AF_INET then copy_bytes 4 dest src
      else if family src = AF_INET6 then copy_bytes 16 dest src
      else if family src = AF_UNSPEC then copy_bytes 8 dest src
      else if family src = AF_ETHERNET then copy_bytes 6 dest src
      else Inl Assert_failed)"

definition mem_same :: "u8 list \<Rightarrow> u8 list \<Rightarrow> nat \<Rightarrow> bool res" where
  "mem_same a b n = bindR (mem_read a 0 n) (\<lambda>x. bindR (mem_read b 0 n) (\<lambda>y. Inr (x = y)))"

definition prefix_same :: "prefix \<Rightarrow> prefix \<Rightarrow> bool res" where
  "prefix_same p1 p2 =
     (if family p1 = family p2 \<and> prefixlen p1 = prefixlen p2 then
        if family p1 = AF_INET then mem_same (u p1) (u p2) IPV4_MAX_BYTELEN
        else if family p1 = AF_INET6 then mem_same (u p1) (u p2) IPV6_MAX_BYTELEN
        else if family p1 = AF_ETHERNET then mem_same (u p1) (u p2) ETHER_ADDR_LEN
        else Inr False
      else Inr False)"

function first_differing :: "u8 list \<Rightarrow> u8 list \<Rightarrow> nat \<Rightarrow> nat \<Rightarrow> nat res" where
  "first_differing pp1 pp2 len pos =
     (if pos < len then
        bindR (mem_get pp1 pos) (\<lambda>a. bindR (mem_get pp2 pos) (\<lambda>b.
          if a \<noteq> b then Inr pos else first_differing pp1 pp2 len (pos + 1)))
      else Inr pos)"
  by pat_completeness auto
termination by (relation "measure (\<lambda>(pp1, pp2, len, pos). len - pos)") auto

function first_bit :: "u8 \<Rightarrow> nat \<Rightarrow> nat" where
  "first_bit x i =
     (if i < 8 then if x AND push_bit (7 - i) 1 \<noteq> 0 then i else first_bit x (i + 1) else i)"
  by pat_completeness auto
termination by (relation "measure (\<lambda>(x, i). 8 - i)") auto

declare first_differing.simps [simp del] first_bit.simps [simp del]

definition prefix_common_bits :: "prefix \<Rightarrow> prefix \<Rightarrow> int res" where
  "prefix_common_bits p1 p2 =
     (let len = (if family p1 = AF_INET then IPV4_MAX_BYTELEN
                 else if family p1 = AF_INET6 then IPV6_MAX_BYTELEN else 0) in
      if family p1 \<noteq> family p2 \<or> len = 0 then Inr (- 1)
      else bindR (first_differing (u p1) (u p2) len 0) (\<lambda>pos.
        if pos = len then Inr (int pos * 8)
        else bindR (mem_get (u p1) pos) (\<lambda>a. bindR (mem_get (u p2) pos) (\<lambda>b.
          Inr (int pos * 8 + int (first_bit (a XOR b) 0))))))"

definition prefix_family_str :: "prefix \<Rightarrow> string" where
  "prefix_family_str p =
     (if family p = AF_INET then ''inet'' else if family p = AF_INET6 then ''inet6''
      else if family p = AF_ETHERNET then ''ether'' else ''unspec'')"

definition prefix_new :: prefix where
  "prefix_new = \<lparr>family = 0, prefixlen = 0, u = replicate 16 0\<rparr>"

definition prefix_ipv4_new :: prefix where
  "prefix_ipv4_new = prefix_new\<lparr>family := AF_INET\<rparr>"

definition prefix_ipv6_new :: prefix where
  "prefix_ipv6_new = prefix_new\<lparr>family := AF_INET6\<rparr>"

section \<open>Masks\<close>

text \<open>\<open>htonl\<close> stores a word with its most significant byte first, \<open>ntohl\<close> reads it.\<close>

definition htonl :: "u32 \<Rightarrow> u8 list" where
  "htonl w = [ucast (drop_bit 24 w), ucast (drop_bit 16 w), ucast (drop_bit 8 w), ucast w]"

definition ntohl :: "u8 list \<Rightarrow> u32" where
  "ntohl a = be32 (a ! 0) (a ! 1) (a ! 2) (a ! 3)"

definition masklen2ip :: "int \<Rightarrow> u8 list res" where
  "masklen2ip masklen =
     (if 0 \<le> masklen \<and> masklen \<le> int IPV4_MAX_BITLEN
      then Inr (htonl (ucast (push_bit (32 - nat masklen) (0xffffffff :: u64))))
      else Inl Assert_failed)"

text \<open>\<open>__builtin_clz\<close>: the zeroes above the highest set bit, here from bit \<open>i\<close> downwards.\<close>

fun clz_from :: "nat \<Rightarrow> u32 \<Rightarrow> nat" where
  "clz_from 0 w = 0"
| "clz_from (Suc i) w = (if bit w i then 0 else Suc (clz_from i w))"

definition ip_masklen :: "u8 list \<Rightarrow> u8" where
  "ip_masklen netmask =
     (let tmp = NOT (ntohl netmask) in if tmp \<noteq> 0 then of_nat (clz_from 32 tmp) else 32)"

definition apply_mask_ipv4 :: "prefix \<Rightarrow> prefix res" where
  "apply_mask_ipv4 p =
     bindR (masklen2ip (int (plen p))) (\<lambda>mask. bindR (mem_read (u p) 0 4) (\<lambda>a.
       bindR (mem_write (u p) 0 (map2 (AND) a mask)) (\<lambda>d. Inr (p\<lparr>u := d\<rparr>))))"

definition prefix_ipv4_any :: "prefix \<Rightarrow> bool res" where
  "prefix_ipv4_any p =
     bindR (mem_read (u p) 0 4) (\<lambda>a. Inr (a = [0, 0, 0, 0] \<and> prefixlen p = 0))"

text \<open>
  The two loops of \<open>ip6_masklen\<close>: over the bytes that are 0xff (the byte is read before the
  length is tested), and over the bits of the first other byte.
\<close>

partial_function (option) full_bytes :: "u8 list \<Rightarrow> nat \<Rightarrow> nat res option" where
  "full_bytes m len =
     (case mem_get m (len div 8) of
        Inl e \<Rightarrow> Some (Inl e)
      | Inr b \<Rightarrow> if b = 0xff \<and> len < IPV6_MAX_BITLEN then full_bytes m (len + 8)
                else Some (Inr len))"

partial_function (option) shift_out :: "u8 \<Rightarrow> nat \<Rightarrow> nat option" where
  "shift_out val len = (if val \<noteq> 0 then shift_out (push_bit 1 val) (len + 1) else Some len)"

definition ip6_masklen :: "u8 list \<Rightarrow> nat res option" where
  "ip6_masklen m =
     (case full_bytes m 0 of
        None \<Rightarrow> None
      | Some (Inl e) \<Rightarrow> Some (Inl e)
      | Some (Inr len) \<Rightarrow>
          if len < IPV6_MAX_BITLEN then
            case mem_get m (len div 8) of
              Inl e \<Rightarrow> Some (Inl e)
            | Inr val \<Rightarrow> map_option Inr (shift_out val len)
          else Some (Inr len))"

definition masklen2ip6 :: "int \<Rightarrow> u8 list res" where
  "masklen2ip6 masklen =
     (if 0 \<le> masklen \<and> masklen \<le> int IPV6_MAX_BITLEN then mem_get maskbytes6 (nat masklen)
      else Inl Assert_failed)"

text \<open>The final loop stores 0 into the bytes from \<open>index + 1\<close> up to 15.\<close>

definition apply_mask_ipv6 :: "prefix \<Rightarrow> prefix res" where
  "apply_mask_ipv6 p =
     (let index = plen p div 8; offset = plen p mod 8 in
      if index < 16 then
        bindR (mem_get (u p) index) (\<lambda>b.
        bindR (mem_set (u p) index (b AND maskbit ! offset)) (\<lambda>d.
        bindR (mem_write d (index + 1) (replicate (16 - (index + 1)) 0)) (\<lambda>d.
          Inr (p\<lparr>u := d\<rparr>))))
      else Inr p)"

definition apply_mask :: "prefix \<Rightarrow> prefix res" where
  "apply_mask p =
     (if family p = AF_INET then apply_mask_ipv4 p
      else if family p = AF_INET6 then apply_mask_ipv6 p else Inr p)"

definition prefix_blen :: "prefix \<Rightarrow> nat" where
  "prefix_blen p =
     (if family p = AF_INET then IPV4_MAX_BYTELEN
      else if family p = AF_INET6 then IPV6_MAX_BYTELEN
      else if family p = AF_ETHERNET then ETHER_ADDR_LEN else 0)"

text \<open>The address classes of netinet/in.h.\<close>

definition IN_CLASSA :: "u32 \<Rightarrow> bool" where "IN_CLASSA a \<longleftrightarrow> a AND 0x80000000 = 0"
definition IN_CLASSB :: "u32 \<Rightarrow> bool" where "IN_CLASSB a \<longleftrightarrow> a AND 0xc0000000 = 0x80000000"
definition IN_CLASSC :: "u32 \<Rightarrow> bool" where "IN_CLASSC a \<longleftrightarrow> a AND 0xe0000000 = 0xc0000000"

definition apply_classful_mask_ipv4 :: "prefix \<Rightarrow> prefix res" where
  "apply_classful_mask_ipv4 p =
     bindR (mem_read (u p) 0 4) (\<lambda>a. let destination = ntohl a in
       if plen p = IPV4_MAX_BITLEN then Inr p
       else if IN_CLASSC destination then apply_mask_ipv4 (p\<lparr>prefixlen := 24\<rparr>)
       else if IN_CLASSB destination then apply_mask_ipv4 (p\<lparr>prefixlen := 16\<rparr>)
       else apply_mask_ipv4 (p\<lparr>prefixlen := 8\<rparr>))"

definition ipv4_network_addr :: "u8 list \<Rightarrow> int \<Rightarrow> u8 list res" where
  "ipv4_network_addr hostaddr masklen =
     bindR (masklen2ip masklen) (\<lambda>mask. Inr (map2 (AND) hostaddr mask))"

definition ipv4_broadcast_addr :: "u8 list \<Rightarrow> int \<Rightarrow> u8 list res" where
  "ipv4_broadcast_addr hostaddr masklen =
     bindR (masklen2ip masklen) (\<lambda>mask.
       Inr (if masklen \<noteq> int IPV4_MAX_BITLEN - 1
            then map2 (\<lambda>h m. h OR NOT m) hostaddr mask
            else map2 (\<lambda>h m. h XOR NOT m) hostaddr mask))"

section \<open>Strings\<close>

text \<open>
  The parts of the C library the conversions use: character classes, \<open>atoi\<close> (glibc: \<open>strtol\<close>
  cast to \<open>int\<close>; \<open>strtol\<close> saturates), the conversion \<open>%d\<close> for natural numbers, \<open>%02x\<close>
  for bytes, and the input conversion \<open>%2x\<close>.  \<open>inet_aton\<close>, \<open>inet_pton\<close> and \<open>inet_ntop\<close> are
  parameters.
\<close>

definition isdigit :: "char \<Rightarrow> bool" where
  "isdigit c \<longleftrightarrow> 48 \<le> (of_char c :: nat) \<and> (of_char c :: nat) \<le> 57"

definition isspace :: "char \<Rightarrow> bool" where
  "isspace c \<longleftrightarrow> (of_char c :: nat) \<in> {32, 9, 10, 11, 12, 13}"

definition digit_val :: "char \<Rightarrow> nat" where
  "digit_val c = of_char c - 48"

fun strtol_digits :: "nat \<Rightarrow> string \<Rightarrow> nat" where
  "strtol_digits v [] = v"
| "strtol_digits v (c # cs) = (if isdigit c then strtol_digits (10 * v + digit_val c) cs else v)"

definition LONG_MAX :: int where "LONG_MAX = 2 ^ 63 - 1"

definition saturate :: "int \<Rightarrow> int" where
  "saturate v = max (- LONG_MAX - 1) (min LONG_MAX v)"

definition strtol :: "string \<Rightarrow> int" where
  "strtol s =
     (case dropWhile isspace s of
        [] \<Rightarrow> 0
      | c # cs \<Rightarrow>
          if c = CHR ''-'' then saturate (- int (strtol_digits 0 cs))
          else if c = CHR ''+'' then saturate (int (strtol_digits 0 cs))
          else saturate (int (strtol_digits 0 (c # cs))))"

text \<open>\<open>(u_char) atoi (s)\<close>; the cast to \<open>int\<close> before does not change the low byte.\<close>

definition atoi_u8 :: "string \<Rightarrow> u8" where
  "atoi_u8 s = word_of_int (strtol s)"

function decimal :: "nat \<Rightarrow> string" where
  "decimal n = (if n < 10 then [char_of (48 + n)] else decimal (n div 10) @ [char_of (48 + n mod 10)])"
  by pat_completeness auto
termination by (relation "measure id") auto

declare decimal.simps [simp del]

definition ishex :: "char \<Rightarrow> bool" where
  "ishex c \<longleftrightarrow> isdigit c \<or> (of_char c :: nat) \<in> {65..70} \<or> (of_char c :: nat) \<in> {97..102}"

definition hex_val :: "char \<Rightarrow> nat" where
  "hex_val c =
     (if isdigit c then digit_val c
      else if (of_char c :: nat) < 97 then of_char c - 55 else of_char c - 87)"

definition hex_digit :: "nat \<Rightarrow> char" where
  "hex_digit n = char_of (if n < 10 then 48 + n else 87 + n)"

definition hex_byte :: "u8 \<Rightarrow> string" where
  "hex_byte b = [hex_digit (unat b div 16), hex_digit (unat b mod 16)]"

text \<open>
  \<open>%2x\<close> skips white space and takes the longest start, of at most two characters, of
  something \<open>strtoul\<close> accepts: a sign counts, and \<open>0x\<close> alone is a matching failure.
\<close>

definition scan_2x :: "string \<Rightarrow> (u32 \<times> string) option" where
  "scan_2x s =
     (case dropWhile isspace s of
        [] \<Rightarrow> None
      | [c] \<Rightarrow> if ishex c then Some (of_nat (hex_val c), []) else None
      | c # d # r \<Rightarrow>
          if c = CHR ''+'' then if ishex d then Some (of_nat (hex_val d), r) else None
          else if c = CHR ''-'' then if ishex d then Some (- of_nat (hex_val d), r) else None
          else if \<not> ishex c then None
          else if c = CHR ''0'' \<and> (d = CHR ''x'' \<or> d = CHR ''X'') then None
          else if ishex d then Some (of_nat (16 * hex_val c + hex_val d), r)
          else Some (of_nat (hex_val c), d # r))"

text \<open>\<open>n\<close> fields separated by colons.\<close>

fun scan_fields :: "nat \<Rightarrow> string \<Rightarrow> u32 list option" where
  "scan_fields 0 s = Some []"
| "scan_fields (Suc n) s =
     (case scan_2x s of
        None \<Rightarrow> None
      | Some (v, r) \<Rightarrow>
          if n = 0 then Some [v]
          else case r of
                 [] \<Rightarrow> None
               | c # cs \<Rightarrow> if c = CHR '':'' then map_option ((#) v) (scan_fields n cs) else None)"

definition before_slash :: "string \<Rightarrow> string" where
  "before_slash s = takeWhile (\<lambda>c. c \<noteq> CHR ''/'') s"

definition after_slash :: "string \<Rightarrow> string" where
  "after_slash s = tl (dropWhile (\<lambda>c. c \<noteq> CHR ''/'') s)"

text \<open>
  The converters return whether the result is non-zero, and the prefix, which a failing call
  may have changed.  Storing the address is a copy of \<open>n\<close> bytes into the union.
\<close>

definition store_addr :: "u8 list option \<Rightarrow> prefix \<Rightarrow> (bool \<times> prefix) res" where
  "store_addr a p =
     (case a of
        None \<Rightarrow> Inr (False, p)
      | Some bs \<Rightarrow> bindR (mem_write (u p) 0 bs) (\<lambda>d. Inr (True, p\<lparr>u := d\<rparr>)))"

definition str2prefix_ipv4 ::
  "(string \<Rightarrow> u8 list option) \<Rightarrow> string \<Rightarrow> prefix \<Rightarrow> (bool \<times> prefix) res" where
  "str2prefix_ipv4 inet_aton str p =
     (if CHR ''/'' \<notin> set str then
        bindR (store_addr (inet_aton str) p) (\<lambda>(ret, p).
          if \<not> ret then Inr (False, p)
          else Inr (ret, p\<lparr>family := AF_INET, prefixlen := of_nat IPV4_MAX_BITLEN\<rparr>))
      else
        bindR (store_addr (inet_aton (before_slash str)) p) (\<lambda>(ret, p).
          let plen' = atoi_u8 (after_slash str) in
          if unat plen' > IPV4_MAX_BITLEN then Inr (False, p)
          else Inr (ret, p\<lparr>family := AF_INET, prefixlen := plen'\<rparr>)))"

definition str2prefix_ipv6 ::
  "(string \<Rightarrow> u8 list option) \<Rightarrow> string \<Rightarrow> prefix \<Rightarrow> (bool \<times> prefix) res" where
  "str2prefix_ipv6 inet_pton str p =
     (if CHR ''/'' \<notin> set str then
        bindR (store_addr (inet_pton str) p) (\<lambda>(ret, p).
          if \<not> ret then Inr (False, p)
          else Inr (ret, p\<lparr>family := AF_INET6, prefixlen := of_nat IPV6_MAX_BITLEN\<rparr>))
      else
        bindR (store_addr (inet_pton (before_slash str)) p) (\<lambda>(ret, p).
          if \<not> ret then Inr (False, p)
          else let plen' = atoi_u8 (after_slash str) in
          if unat plen' > IPV6_MAX_BITLEN then Inr (False, p)
          else Inr (ret, p\<lparr>family := AF_INET6, prefixlen := plen'\<rparr>)))"

text \<open>\<open>cp\<close> keeps the slash, since \<open>pnt\<close> has been incremented before the copy is made.\<close>

definition str2prefix_eth :: "string \<Rightarrow> prefix \<Rightarrow> (bool \<times> prefix) res" where
  "str2prefix_eth str p =
     (let slash = CHR ''/'' \<in> set str;
          plen' = (if slash then atoi_u8 (after_slash str) else 48) in
      if slash \<and> unat plen' > 48 then Inr (False, p)
      else let str_addr = (if slash then before_slash str @ ''/'' else str) in
      case scan_fields 6 str_addr of
        None \<Rightarrow> Inr (False, p)
      | Some a \<Rightarrow>
          bindR (mem_write (u p) 0 (map ucast a)) (\<lambda>d.
            Inr (True, p\<lparr>u := d, prefixlen := plen', family := AF_ETHERNET\<rparr>)))"

definition str2prefix ::
  "(string \<Rightarrow> u8 list option) \<Rightarrow> (string \<Rightarrow> u8 list option) \<Rightarrow> string \<Rightarrow> prefix \<Rightarrow>
   (bool \<times> prefix) res" where
  "str2prefix inet_aton inet_pton str p =
     bindR (str2prefix_ipv4 inet_aton str p) (\<lambda>(ret, p).
     if ret then Inr (ret, p) else
     bindR (str2prefix_ipv6 inet_pton str p) (\<lambda>(ret, p).
     if ret then Inr (ret, p) else
     bindR (str2prefix_eth str p) (\<lambda>(ret, p).
     if ret then Inr (ret, p) else Inr (False, p))))"

text \<open>
  \<open>prefix2str\<close> gives the string it stores in the buffer of \<open>sz\<close> characters and whether it
  returns that buffer (\<open>False\<close>: it returns a null pointer).  The address is printed by
  \<open>inet_ntop\<close>; \<open>snprintf\<close> truncates.
\<close>

fun eth_octets :: "u8 list \<Rightarrow> string" where
  "eth_octets [] = ''''"
| "eth_octets [b] = hex_byte b"
| "eth_octets (b # bs) = hex_byte b @ '':'' @ eth_octets bs"

definition prefix2str :: "(u8 \<Rightarrow> u8 list \<Rightarrow> string) \<Rightarrow> prefix \<Rightarrow> nat \<Rightarrow> (string \<times> bool) res" where
  "prefix2str inet_ntop p sz =
     (if family p = AF_ETHERNET then
        if sz > 3 * ETHER_ADDR_LEN + 1 + 3 then
          bindR (mem_read (u p) 0 ETHER_ADDR_LEN) (\<lambda>octet.
            Inr (eth_octets octet @ ''/'' @ decimal (plen p), False))
        else Inl Assert_failed
      else Inr (take (sz - 1) (inet_ntop (family p) (u p) @ ''/'' @ decimal (plen p)), True))"

definition all_digit :: "string \<Rightarrow> bool" where
  "all_digit str \<longleftrightarrow> list_all isdigit str"

text \<open>\<open>None\<close> stands for the result 0.\<close>

definition netmask_str2prefix_str ::
  "(string \<Rightarrow> u8 list option) \<Rightarrow> string \<Rightarrow> string option \<Rightarrow> string option" where
  "netmask_str2prefix_str inet_aton net_str mask_str =
     (case inet_aton net_str of
        None \<Rightarrow> None
      | Some network \<Rightarrow>
          (case (case mask_str of
                   Some ms \<Rightarrow>
                     (case inet_aton ms of None \<Rightarrow> None | Some m \<Rightarrow> Some (ip_masklen m))
                 | None \<Rightarrow>
                     let destination = ntohl network in
                     if network = [0, 0, 0, 0] then Some 0
                     else if IN_CLASSC destination then Some 24
                     else if IN_CLASSB destination then Some 16
                     else if IN_CLASSA destination then Some 8
                     else None) of
             None \<Rightarrow> None
           | Some len \<Rightarrow> Some (net_str @ ''/'' @ decimal (unat len))))"

section \<open>The network of a prefix\<close>

text \<open>Bit \<open>i\<close> of an address, counted from the most significant bit of its first byte.\<close>

definition pbit :: "u8 list \<Rightarrow> nat \<Rightarrow> bool" where
  "pbit bs i \<longleftrightarrow> bit (bs ! (i div 8)) (7 - i mod 8)"

definition net :: "prefix \<Rightarrow> bool list" where
  "net p = map (pbit (u p)) [0..<plen p]"

text \<open>The length does not exceed the bytes the object has.\<close>

definition pwf :: "prefix \<Rightarrow> bool" where
  "pwf p \<longleftrightarrow> plen p \<le> 8 * length (u p)"

lemma length_net [simp]: "length (net p) = plen p"
  by (simp add: net_def)

lemma net_nth [simp]: "i < plen p \<Longrightarrow> net p ! i = pbit (u p) i"
  by (simp add: net_def)

lemma net_prefix_iff:
  "prefix (net n) (net p) \<longleftrightarrow> plen n \<le> plen p \<and> (\<forall>i<plen n. pbit (u n) i = pbit (u p) i)"
  by (auto simp: prefix_def net_def list_eq_iff_nth_eq nth_append
      intro!: exI[of _ "map (pbit (u p)) [plen n..<plen p]"])

lemma bit_maskbit: "k \<le> 8 \<Longrightarrow> bit (maskbit ! k) n \<longleftrightarrow> 8 - k \<le> n \<and> n < 8"
proof -
  assume "k \<le> 8"
  then have "k \<in> {0, 1, 2, 3, 4, 5, 6, 7, 8}" by auto
  then have "maskbit ! k = push_bit (8 - k) (mask k)"
    by (auto simp: maskbit_def mask_eq_exp_minus_1)
  then show ?thesis using \<open>k \<le> 8\<close> by (auto simp: bit_simps)
qed

lemma byte_eq_bits: "a = b \<longleftrightarrow> (\<forall>j<8. bit a (7 - j) = bit b (7 - j))" for a b :: u8
proof
  assume *: "\<forall>j<8. bit a (7 - j) = bit b (7 - j)"
  show "a = b"
  proof (rule bit_word_eqI)
    fix n assume "n < LENGTH(8)"
    with *[rule_format, of "7 - n"] show "bit a n = bit b n" by simp
  qed
qed simp

lemma word_zero_bits: "w = 0 \<longleftrightarrow> (\<forall>n. \<not> bit w n)" for w :: "'a::len word"
  by (auto intro: bit_word_eqI)

lemma masked_differ:
  "k \<le> 8 \<Longrightarrow> maskbit ! k AND (a XOR b) = 0 \<longleftrightarrow> (\<forall>j<k. bit a (7 - j) = bit b (7 - j))"
  for a b :: u8
proof -
  assume k: "k \<le> 8"
  have "maskbit ! k AND (a XOR b) = 0 \<longleftrightarrow> (\<forall>n. \<not> bit (maskbit ! k AND (a XOR b)) n)"
    by (rule word_zero_bits)
  also have "\<dots> \<longleftrightarrow> (\<forall>n. 8 - k \<le> n \<and> n < 8 \<longrightarrow> bit a n = bit b n)"
    using k by (auto simp: bit_simps bit_maskbit)
  also have "\<dots> \<longleftrightarrow> (\<forall>j<k. bit a (7 - j) = bit b (7 - j))" (is "?l \<longleftrightarrow> ?r")
  proof
    assume l: ?l
    show ?r
    proof (intro allI impI)
      fix j :: nat assume "j < k"
      then have "8 - k \<le> 7 - j \<and> 7 - j < 8" using k by auto
      with l show "bit a (7 - j) = bit b (7 - j)" by blast
    qed
  next
    assume r: ?r
    show ?l
    proof (intro allI impI)
      fix n :: nat assume n: "8 - k \<le> n \<and> n < 8"
      then have "7 - (7 - n) = n" "7 - n < k" by auto
      with r show "bit a n = bit b n" by metis
    qed
  qed
  finally show ?thesis .
qed

lemma pbit_byte: "j < 8 \<Longrightarrow> pbit bs (8 * i + j) \<longleftrightarrow> bit (bs ! i) (7 - j)"
  by (simp add: pbit_def)

lemma bits_by_byte:
  "j \<le> 8 \<Longrightarrow> (\<forall>k<8 * i + j. P k) \<longleftrightarrow> (\<forall>k<8 * i. P k) \<and> (\<forall>l<j. P (8 * i + l))" for i :: nat
proof -
  have "k < 8 * i + j \<longleftrightarrow> k < 8 * i \<or> (\<exists>l<j. k = 8 * i + l)" for k
    by (auto intro: exI[of _ "k - 8 * i"])
  then show ?thesis by (metis nat_add_left_cancel_less trans_less_add1)
qed

lemma prefix_bit_ok:
  "unat len < 8 * length bs \<Longrightarrow> prefix_bit bs len = Inr (of_bool (pbit bs (unat len)))"
proof -
  assume "unat len < 8 * length bs"
  moreover have "drop_bit s b AND 1 = of_bool (bit b s)" for s and b :: u8
    by (simp add: bit_iff_odd_drop_bit and_one_eq odd_iff_mod_2_eq_one)
  ultimately show ?thesis by (simp add: prefix_bit_def mem_simps pbit_def)
qed

lemma same_bytes_ok:
  "offset \<le> length np \<Longrightarrow> offset \<le> length pp \<Longrightarrow>
   same_bytes np pp offset = Inr (\<forall>i<8 * offset. pbit np i = pbit pp i)"
proof (induction offset)
  case (Suc offset)
  have "np ! offset = pp ! offset \<longleftrightarrow> (\<forall>j<8. pbit np (8 * offset + j) = pbit pp (8 * offset + j))"
    by (auto simp: pbit_byte byte_eq_bits)
  with Suc show ?case
    using bits_by_byte[of 8 offset "\<lambda>i. pbit np i = pbit pp i"] by (auto simp: mem_simps algebra_simps)
qed simp

lemma same_net_ok:
  assumes "len \<le> 8 * length np" "len \<le> 8 * length pp"
  shows "same_net np pp len = Inr (\<forall>i<len. pbit np i = pbit pp i)"
proof -
  let ?o = "len div 8" and ?s = "len mod 8"
  have len: "len = 8 * ?o + ?s" by simp
  have *: "(\<forall>i<len. pbit np i = pbit pp i) \<longleftrightarrow>
      (\<forall>i<8 * ?o. pbit np i = pbit pp i) \<and>
      (\<forall>l<?s. bit (np ! ?o) (7 - l) = bit (pp ! ?o) (7 - l))"
    using bits_by_byte[of ?s ?o "\<lambda>i. pbit np i = pbit pp i"] by (auto simp: pbit_byte)
  have "?o \<le> length np" "?o \<le> length pp" using assms by auto
  moreover have "?o < length np" "?o < length pp" if "?s \<noteq> 0" using that assms len by linarith+
  ultimately show ?thesis unfolding * using masked_differ[of ?s "np ! ?o" "pp ! ?o"]
    by (auto simp: same_net_def Let_def mem_simps same_bytes_ok)
qed

lemma prefix_match_net:
  "pwf n \<Longrightarrow> pwf p \<Longrightarrow> prefix_match n p = Inr (prefix (net n) (net p))"
  by (simp add: prefix_match_def net_prefix_iff pwf_def same_net_ok)

lemma prefix_cmp_net:
  "pwf p1 \<Longrightarrow> pwf p2 \<Longrightarrow> prefix_cmp p1 p2 = Inr (family p1 = family p2 \<and> net p1 = net p2)"
proof -
  have "net p1 = net p2 \<longleftrightarrow> plen p1 = plen p2 \<and> (\<forall>i<plen p1. pbit (u p1) i = pbit (u p2) i)"
    by (auto simp: list_eq_iff_nth_eq)
  moreover assume "pwf p1" "pwf p2"
  ultimately show ?thesis by (auto simp: prefix_cmp_def pwf_def same_net_ok word_unat_eq_iff)
qed

section \<open>Masks and bits\<close>

lemma bytes_eq_bits:
  assumes "length a = length b" "\<forall>i<8 * length a. pbit a i = pbit b i"
  shows "a = b"
proof (rule nth_equalityI)
  fix k assume k: "k < length a"
  have "pbit a (8 * k + j) = pbit b (8 * k + j)" if "j < 8" for j
    using assms(2) k that by auto
  then show "a ! k = b ! k" by (simp add: byte_eq_bits pbit_byte)
qed fact

lemma nat_lt4: "k < 4 \<longleftrightarrow> k = 0 \<or> k = 1 \<or> k = 2 \<or> k = (3 :: nat)"
  by auto

lemma pbit_htonl: "i < 32 \<Longrightarrow> pbit (htonl w) i \<longleftrightarrow> bit w (31 - i)"
proof -
  assume i: "i < 32"
  define q r where "q = i div 8" and "r = i mod 8"
  then have qr: "i = 8 * q + r" "r < 8" by auto
  with i have "q < 4" by simp
  then have "q = 0 \<or> q = 1 \<or> q = 2 \<or> q = 3" unfolding nat_lt4 .
  moreover have "31 - (8 * q + r) = 8 * (3 - q) + (7 - r)" using \<open>q < 4\<close> qr(2) by linarith
  ultimately show ?thesis using qr(2) unfolding qr(1)
    by (auto simp: pbit_def htonl_def bit_simps)
qed

lemma ntohl_htonl [simp]: "ntohl (htonl w) = w"
  by (simp add: ntohl_def htonl_def byte_simps)

lemma length_htonl [simp]: "length (htonl w) = 4"
  by (simp add: htonl_def)

definition netmask32 :: "nat \<Rightarrow> u32" where
  "netmask32 m = ucast (push_bit (32 - m) (0xffffffff :: u64))"

lemma bit_netmask32: "m \<le> 32 \<Longrightarrow> bit (netmask32 m) j \<longleftrightarrow> 32 - m \<le> j \<and> j < 32"
proof -
  have "(0xffffffff :: u64) = mask 32" by (simp add: mask_eq_exp_minus_1)
  then have "bit (netmask32 m) j = bit (ucast (push_bit (32 - m) (mask 32 :: u64)) :: u32) j"
    unfolding netmask32_def by simp
  then show "m \<le> 32 \<Longrightarrow> ?thesis" by (auto simp: bit_simps)
qed

lemma masklen2ip_eq: "m \<le> 32 \<Longrightarrow> masklen2ip (int m) = Inr (htonl (netmask32 m))"
  by (simp add: masklen2ip_def netmask32_def addr_lens)

lemma clz_from_eq:
  "k < n \<Longrightarrow> bit w k \<Longrightarrow> \<forall>j. k < j \<and> j < n \<longrightarrow> \<not> bit w j \<Longrightarrow> clz_from n w = n - 1 - k"
proof (induction n)
  case (Suc n)
  then show ?case by (cases "k = n") auto
qed simp

lemma ip_masklen_netmask32: "m \<le> 32 \<Longrightarrow> ip_masklen (htonl (netmask32 m)) = of_nat m"
proof (cases "m = 32")
  case True
  then have "NOT (netmask32 m) = 0"
    by (intro bit_word_eqI) (simp add: bit_simps bit_netmask32)
  with True show ?thesis by (simp add: ip_masklen_def)
next
  case False
  assume "m \<le> 32"
  with False have m: "m < 32" by simp
  let ?w = "NOT (netmask32 m)"
  have b: "bit ?w j \<longleftrightarrow> j < 32 - m" if "j < 32" for j
    using m that by (auto simp: bit_simps bit_netmask32)
  then have "bit ?w (31 - m)" using m by auto
  moreover from this have "?w \<noteq> 0" by auto
  moreover have "clz_from 32 ?w = 32 - 1 - (31 - m)"
    by (rule clz_from_eq) (use b m in auto)
  ultimately show ?thesis using m by (simp add: ip_masklen_def Let_def)
qed

text \<open>Row \<open>n\<close> of the table \<open>maskbytes6\<close>.\<close>

definition mask6 :: "nat \<Rightarrow> u8 list" where
  "mask6 n = map (\<lambda>j. maskbit ! min 8 (n - 8 * j)) [0..<16]"

lemma maskbytes6_table: "maskbytes6 = map mask6 [0..<129]"
  by code_simp

lemma masklen2ip6_eq: "m \<le> 128 \<Longrightarrow> masklen2ip6 (int m) = Inr (mask6 m)"
  by (simp add: masklen2ip6_def addr_lens maskbytes6_table mem_get_def)

lemma pbit_mask6: "m \<le> 128 \<Longrightarrow> i < 128 \<Longrightarrow> pbit (mask6 m) i \<longleftrightarrow> i < m"
proof -
  assume i: "i < 128"
  define q r where "q = i div 8" and "r = i mod 8"
  then have qr: "i = 8 * q + r" "r < 8" "q < 16" using i by auto
  then have "pbit (mask6 m) i \<longleftrightarrow> bit (maskbit ! min 8 (m - 8 * q)) (7 - r)"
    unfolding qr(1) by (simp add: pbit_byte mask6_def)
  then show ?thesis using qr by (auto simp: bit_maskbit)
qed

lemma mask6_nth: "j < 16 \<Longrightarrow> mask6 m ! j = maskbit ! min 8 (m - 8 * j)"
  by (simp add: mask6_def)

lemma length_mask6 [simp]: "length (mask6 m) = 16"
  by (simp add: mask6_def)

lemma maskbit_full: "k \<le> 8 \<Longrightarrow> maskbit ! k = 0xff \<longleftrightarrow> k = 8"
proof -
  assume "k \<le> 8"
  then have "k \<in> {0, 1, 2, 3, 4, 5, 6, 7, 8}" by auto
  then show ?thesis by (auto simp: maskbit_def)
qed

lemma maskbit_shift: "k < 8 \<Longrightarrow> push_bit 1 (maskbit ! Suc k) = maskbit ! k"
  by (rule bit_word_eqI) (subst bit_push_bit_iff, auto simp: bit_maskbit)

lemma shift_out_maskbit: "k \<le> 8 \<Longrightarrow> shift_out (maskbit ! k) len = Some (len + k)"
proof (induction k arbitrary: len)
  case 0
  then show ?case by (simp add: shift_out.simps maskbit_def)
next
  case (Suc k)
  then have "bit (maskbit ! Suc k) 7" by (simp add: bit_maskbit)
  then have "maskbit ! Suc k \<noteq> 0" by auto
  with Suc show ?case
    using maskbit_shift[of k] by (simp add: shift_out.simps[of "maskbit ! Suc k"])
qed

lemma full_bytes_mask6:
  "m \<le> 128 \<Longrightarrow> i \<le> m div 8 \<Longrightarrow>
   full_bytes (mask6 m) (8 * i) = Some (if m = 128 then Inl Mem_fault else Inr (8 * (m div 8)))"
proof (induction "m div 8 - i" arbitrary: i)
  case 0
  then have i: "i = m div 8" by simp
  show ?case
  proof (cases "m = 128")
    case True
    with i show ?thesis by (simp add: full_bytes.simps[of _ 128] mem_get_def)
  next
    case False
    with 0 have "i < 16" "min 8 (m - 8 * i) < 8" using i by auto
    then have "mask6 m ! i \<noteq> 0xff" by (simp add: mask6_nth maskbit_full del: min_less_iff_disj)
    with False i \<open>i < 16\<close> show ?thesis
      by (simp add: full_bytes.simps[of _ "8 * (m div 8)"] mem_simps)
  qed
next
  case (Suc d)
  then have lt: "i < m div 8" by simp
  then have "i < 16" "8 * i < 128" "min 8 (m - 8 * i) = 8" using Suc.prems by auto
  then have "mask6 m ! i = 0xff" by (simp add: mask6_nth maskbit_full del: min_less_iff_disj)
  with \<open>i < 16\<close> have "full_bytes (mask6 m) (8 * i) = full_bytes (mask6 m) (8 * Suc i)"
    by (simp add: full_bytes.simps[of _ "8 * i"] mem_simps addr_lens add.commute)
  with Suc lt show ?case by (metis Suc_leI diff_Suc_Suc Suc_diff_Suc nat.inject)
qed

lemma ip6_masklen_mask6:
  "m < 128 \<Longrightarrow> ip6_masklen (mask6 m) = Some (Inr m)"
  "ip6_masklen (mask6 128) = Some (Inl Mem_fault)"
proof -
  assume m: "m < 128"
  then have "full_bytes (mask6 m) 0 = Some (Inr (8 * (m div 8)))"
    using full_bytes_mask6[of m 0] by simp
  moreover have "8 * (m div 8) < 128" "m div 8 < 16" "m - 8 * (m div 8) = m mod 8"
    using m by (auto simp: minus_mult_div_eq_mod)
  moreover have "shift_out (maskbit ! (m mod 8)) (8 * (m div 8)) = Some m"
    by (simp add: shift_out_maskbit)
  ultimately show "ip6_masklen (mask6 m) = Some (Inr m)"
    by (simp add: ip6_masklen_def addr_lens mem_simps mask6_nth)
qed (use full_bytes_mask6[of 128 0] in \<open>simp add: ip6_masklen_def\<close>)

lemma pbit_map2_AND:
  "length a = length b \<Longrightarrow> i < 8 * length a \<Longrightarrow> pbit (map2 (AND) a b) i \<longleftrightarrow> pbit a i \<and> pbit b i"
  by (simp add: pbit_def bit_and_iff)

lemma pbit_append:
  "pbit (a @ b) i \<longleftrightarrow> (if i < 8 * length a then pbit a i else pbit b (i - 8 * length a))"
proof (cases "i < 8 * length a")
  case True
  then have "i div 8 < length a" by auto
  with True show ?thesis by (simp add: pbit_def nth_append)
next
  case False
  then obtain k where "i = 8 * length a + k" using le_Suc_ex by (metis not_less)
  then show ?thesis by (simp add: pbit_def nth_append)
qed

lemma div_mod_less:
  fixes n q r :: nat
  assumes "r < 8"
  shows "8 * q + r < n \<longleftrightarrow> q < n div 8 \<or> q = n div 8 \<and> r < n mod 8"
proof -
  have "8 * q + r < 8 * k + s \<longleftrightarrow> q < k \<or> q = k \<and> r < s" if "s < 8" for k s
    using assms that by presburger
  from this[of "n mod 8" "n div 8"] show ?thesis by simp
qed

lemma apply_mask_ipv4_ok:
  assumes "plen p \<le> 32" "4 \<le> length (u p)"
  obtains p' where "apply_mask_ipv4 p = Inr p'" "family p' = family p" "prefixlen p' = prefixlen p"
    "drop 4 (u p') = drop 4 (u p)" "length (u p') = length (u p)"
    "\<forall>i<32. pbit (u p') i \<longleftrightarrow> i < plen p \<and> pbit (u p) i"
proof -
  let ?m = "htonl (netmask32 (plen p))" and ?a = "take 4 (u p)"
  let ?d = "map2 (AND) ?a ?m @ drop 4 (u p)"
  have len: "length ?a = 4" "length (map2 (AND) ?a ?m) = 4" using assms by simp_all
  have "apply_mask_ipv4 p = Inr (p\<lparr>u := ?d\<rparr>)"
    unfolding apply_mask_ipv4_def masklen2ip_eq[OF assms(1)]
    using assms by (simp add: mem_simps min_def)
  moreover have "pbit ?d i \<longleftrightarrow> i < plen p \<and> pbit (u p) i" if i: "i < 32" for i
  proof -
    have "pbit ?d i \<longleftrightarrow> pbit ?a i \<and> pbit ?m i"
      using i len by (simp add: pbit_append pbit_map2_AND)
    moreover have "pbit ?m i \<longleftrightarrow> i < plen p"
      using i assms by (auto simp: pbit_htonl bit_netmask32)
    moreover have "pbit ?a i \<longleftrightarrow> pbit (u p) i" using i by (simp add: pbit_def)
    ultimately show ?thesis by blast
  qed
  ultimately show thesis using len assms by (intro that[of "p\<lparr>u := ?d\<rparr>"]) simp_all
qed

lemma apply_mask_ipv6_ok:
  assumes "plen p \<le> 128" "16 \<le> length (u p)"
  obtains p' where "apply_mask_ipv6 p = Inr p'" "family p' = family p" "prefixlen p' = prefixlen p"
    "drop 16 (u p') = drop 16 (u p)" "length (u p') = length (u p)"
    "\<forall>i<128. pbit (u p') i \<longleftrightarrow> i < plen p \<and> pbit (u p) i"
proof (cases "plen p div 8 < 16")
  case True
  let ?k = "plen p div 8"
  let ?b = "u p ! ?k AND maskbit ! (plen p mod 8)"
  let ?d = "take ?k (u p) @ ?b # replicate (15 - ?k) 0 @ drop 16 (u p)"
  have "apply_mask_ipv6 p = Inr (p\<lparr>u := ?d\<rparr>)"
    using True assms Suc_diff_le[of ?k 15]
    by (simp add: apply_mask_ipv6_def Let_def mem_simps upd_conv_take_nth_drop min_def)
  moreover have "pbit ?d i \<longleftrightarrow> i < plen p \<and> pbit (u p) i" if i: "i < 128" for i
  proof -
    define q r where "q = i div 8" and "r = i mod 8"
    then have qr: "i = 8 * q + r" "r < 8" "q < 16" using i by auto
    note len = div_mod_less[OF qr(2), of q "plen p"]
    have "?d ! q = (if q < ?k then u p ! q else if q = ?k then ?b else 0)"
      using qr(3) True assms(2) by (auto simp: nth_append nth_Cons')
    then have "pbit ?d i \<longleftrightarrow> bit (if q < ?k then u p ! q else if q = ?k then ?b else 0) (7 - r)"
      unfolding qr(1) using qr(2) by (simp add: pbit_byte)
    also have "\<dots> \<longleftrightarrow> 8 * q + r < plen p \<and> bit (u p ! q) (7 - r)"
      unfolding len using qr(2) by (auto simp: bit_simps bit_maskbit)
    finally show ?thesis unfolding qr(1) using qr(2) by (simp add: pbit_byte)
  qed
  ultimately show thesis using True assms Suc_diff_le[of ?k 15]
    by (intro that[of "p\<lparr>u := ?d\<rparr>"]) simp_all
next
  case False
  then show thesis using assms by (intro that[of p]) (auto simp: apply_mask_ipv6_def)
qed

lemma apply_mask_ok:
  assumes "family p = AF_INET \<or> family p = AF_INET6" "plen p \<le> 8 * prefix_blen p"
    "prefix_blen p \<le> length (u p)"
  obtains p' where "apply_mask p = Inr p'" "family p' = family p" "prefixlen p' = prefixlen p"
    "drop (prefix_blen p) (u p') = drop (prefix_blen p) (u p)" "length (u p') = length (u p)"
    "\<forall>i<8 * prefix_blen p. pbit (u p') i \<longleftrightarrow> i < plen p \<and> pbit (u p) i"
proof (cases "family p = AF_INET")
  case True
  then have blen: "prefix_blen p = 4" by (simp add: prefix_blen_def addr_lens)
  show thesis
    by (rule apply_mask_ipv4_ok[of p]) (use True assms blen that in \<open>auto simp: apply_mask_def\<close>)
next
  case False
  with assms(1) have blen: "prefix_blen p = 16" by (auto simp: prefix_blen_def addr_lens)
  show thesis
    by (rule apply_mask_ipv6_ok[of p]) (use False assms blen that in \<open>auto simp: apply_mask_def\<close>)
qed

lemma mem_same_bits:
  assumes "n \<le> length a" "n \<le> length b"
  shows "mem_same a b n = Inr (\<forall>i<8 * n. pbit a i = pbit b i)"
proof -
  have "take n a = take n b \<longleftrightarrow> (\<forall>i<8 * n. pbit a i = pbit b i)"
  proof
    assume "take n a = take n b"
    then have "a ! k = b ! k" if "k < n" for k using that by (metis nth_take)
    then show "\<forall>i<8 * n. pbit a i = pbit b i" by (auto simp: pbit_def)
  next
    assume "\<forall>i<8 * n. pbit a i = pbit b i"
    then have "\<forall>i<8 * n. pbit (take n a) i = pbit (take n b) i" by (auto simp: pbit_def)
    with assms show "take n a = take n b" by (intro bytes_eq_bits) simp_all
  qed
  with assms show ?thesis by (simp add: mem_same_def mem_simps)
qed

lemma prefix_same_bits:
  assumes "family p = AF_INET \<or> family p = AF_INET6" "prefix_blen p \<le> length (u p)"
    "prefix_blen p \<le> length (u q)"
  shows "prefix_same p q = Inr (family p = family q \<and> prefixlen p = prefixlen q \<and>
    (\<forall>i<8 * prefix_blen p. pbit (u p) i = pbit (u q) i))"
  using assms by (auto simp: prefix_same_def prefix_blen_def mem_same_bits families split: if_splits)

section \<open>Properties of the arithmetic\<close>

text \<open>
  C36: \<open>prefix_match\<close> and \<open>prefix_cmp\<close> never read outside the two objects, and decide
  containment and equality of networks: \<open>n\<close> matches \<open>p\<close> exactly when the bits of \<open>n\<close> are an
  initial part of the bits of \<open>p\<close>, and the comparison succeeds exactly when family and bits
  are the same.
\<close>

theorem prefix_match_bits:
  assumes "pwf n" "pwf p"
  shows "prefix_match n p = Inr (prefix (net n) (net p)) \<and>
         prefix_cmp n p = Inr (family n = family p \<and> net n = net p)"
  using assms by (simp add: prefix_match_net prefix_cmp_net)

theorem prefix_match_bits_witness:
  "prefix_match \<lparr>family = 2, prefixlen = 9, u = [10, 128, 0, 0]\<rparr>
     \<lparr>family = 2, prefixlen = 16, u = [10, 200, 0, 0]\<rparr> = Inr True \<and>
   prefix_cmp \<lparr>family = 2, prefixlen = 9, u = [10, 128, 0, 0]\<rparr>
     \<lparr>family = 2, prefixlen = 16, u = [10, 200, 0, 0]\<rparr> = Inr False"
  using prefix_match_bits[of "\<lparr>family = 2, prefixlen = 9, u = [10, 128, 0, 0]\<rparr>"
    "\<lparr>family = 2, prefixlen = 16, u = [10, 200, 0, 0]\<rparr>"]
  by (simp add: pwf_def net_def pbit_def upt_rec)

text \<open>
  masks.  For every length, \<open>masklen2ip\<close> gives the IPv4 netmask with that many leading
  ones, and \<open>ip_masklen\<close> recovers the length; row \<open>m\<close> of the table \<open>maskbytes6\<close> is the IPv6
  netmask of length \<open>m\<close>, and \<open>ip6_masklen\<close> ends and recovers the length if it is below 128.
  For the all-ones mask its loop reads the byte behind the sixteen of the address before it
  tests the length.
\<close>

theorem masklen_roundtrip:
  "(\<forall>m\<le>32. \<exists>msk. masklen2ip (int m) = Inr msk \<and> length msk = 4 \<and>
      (\<forall>i<32. pbit msk i \<longleftrightarrow> i < m) \<and> unat (ip_masklen msk) = m) \<and>
   (\<forall>m\<le>128. \<exists>msk. masklen2ip6 (int m) = Inr msk \<and> length msk = 16 \<and>
      (\<forall>i<128. pbit msk i \<longleftrightarrow> i < m) \<and>
      ip6_masklen msk = Some (if m < 128 then Inr m else Inl Mem_fault))"
proof -
  have "\<exists>msk. masklen2ip (int m) = Inr msk \<and> length msk = 4 \<and>
      (\<forall>i<32. pbit msk i \<longleftrightarrow> i < m) \<and> unat (ip_masklen msk) = m" if "m \<le> 32" for m
  proof (intro exI conjI)
    show "masklen2ip (int m) = Inr (htonl (netmask32 m))" using that by (rule masklen2ip_eq)
    show "\<forall>i<32. pbit (htonl (netmask32 m)) i \<longleftrightarrow> i < m"
      using that by (auto simp: pbit_htonl bit_netmask32)
    show "unat (ip_masklen (htonl (netmask32 m))) = m"
      using that by (simp add: ip_masklen_netmask32 unat_of_nat)
  qed simp
  moreover have "\<exists>msk. masklen2ip6 (int m) = Inr msk \<and> length msk = 16 \<and>
      (\<forall>i<128. pbit msk i \<longleftrightarrow> i < m) \<and>
      ip6_masklen msk = Some (if m < 128 then Inr m else Inl Mem_fault)" if "m \<le> 128" for m
    using that ip6_masklen_mask6 masklen2ip6_eq[of m] pbit_mask6[of m] by (cases "m = 128") auto
  ultimately show ?thesis by blast
qed

theorem masklen_roundtrip_witness:
  "\<exists>msk. masklen2ip6 77 = Inr msk \<and> ip6_masklen msk = Some (Inr 77)"
  using masklen_roundtrip[THEN conjunct2, rule_format, of 77] by auto

text \<open>
  Masking is a normal form for networks.  For IPv4 and IPv6 prefixes, \<open>apply_mask\<close>
  succeeds, keeps the network, clears every host bit and leaves a masked prefix alone; and
  \<open>prefix_cmp\<close> finds two prefixes to be the same network exactly when \<open>prefix_same\<close> finds
  their masked forms identical.
\<close>

theorem apply_mask_canonical:
  assumes "family p = AF_INET \<or> family p = AF_INET6" "family q = family p"
    "plen p \<le> 8 * prefix_blen p" "prefix_blen p \<le> length (u p)"
    "plen q \<le> 8 * prefix_blen q" "prefix_blen q \<le> length (u q)"
  shows "\<exists>p' q'. apply_mask p = Inr p' \<and> apply_mask q = Inr q' \<and>
    family p' = family p \<and> net p' = net p \<and>
    (\<forall>i. plen p \<le> i \<and> i < 8 * prefix_blen p \<longrightarrow> \<not> pbit (u p') i) \<and> apply_mask p' = Inr p' \<and>
    prefix_cmp p q = prefix_same p' q'"
proof -
  let ?n = "prefix_blen p"
  have blen: "prefix_blen q = ?n" using assms(2) by (simp add: prefix_blen_def)
  obtain p' where p': "apply_mask p = Inr p'" "family p' = family p" "prefixlen p' = prefixlen p"
    "drop ?n (u p') = drop ?n (u p)" "length (u p') = length (u p)"
    "\<forall>i<8 * ?n. pbit (u p') i \<longleftrightarrow> i < plen p \<and> pbit (u p) i"
    using apply_mask_ok[of p] assms by metis
  obtain q' where q': "apply_mask q = Inr q'" "family q' = family q" "prefixlen q' = prefixlen q"
    "length (u q') = length (u q)"
    "\<forall>i<8 * ?n. pbit (u q') i \<longleftrightarrow> i < plen q \<and> pbit (u q) i"
    using apply_mask_ok[of q] assms blen by metis
  have blen': "prefix_blen p' = ?n" using p' by (simp add: prefix_blen_def)
  obtain p'' where p'': "apply_mask p' = Inr p''" "family p'' = family p'" "prefixlen p'' = prefixlen p'"
    "drop ?n (u p'') = drop ?n (u p')" "length (u p'') = length (u p')"
    "\<forall>i<8 * ?n. pbit (u p'') i \<longleftrightarrow> i < plen p' \<and> pbit (u p') i"
    using apply_mask_ok[of p'] assms p' blen' by metis
  have "take ?n (u p'') = take ?n (u p')"
  proof -
    have "mem_same (u p'') (u p') ?n = Inr True"
      using p'' p' assms by (subst mem_same_bits) auto
    then show ?thesis using p'' p' assms by (simp add: mem_same_def mem_simps)
  qed
  then have "u p'' = u p'" using p''(4) by (metis append_take_drop_id)
  then have "p'' = p'" using p'' by simp
  moreover have "net p' = net p"
    using p' assms(3) by (intro nth_equalityI) auto
  moreover have "prefix_cmp p q = prefix_same p' q'"
  proof -
    have "prefix_cmp p q = Inr (net p = net q)"
      using assms blen by (subst prefix_cmp_net) (auto simp: pwf_def)
    moreover have "prefix_same p' q' = Inr (prefixlen p = prefixlen q \<and>
        (\<forall>i<8 * ?n. pbit (u p') i = pbit (u q') i))"
      using assms p' q' blen' blen by (subst prefix_same_bits) auto
    moreover have "net p = net q \<longleftrightarrow> prefixlen p = prefixlen q \<and>
        (\<forall>i<8 * ?n. pbit (u p') i = pbit (u q') i)"
    proof -
      have "net p = net q \<longleftrightarrow> plen p = plen q \<and> (\<forall>i<plen p. pbit (u p) i = pbit (u q) i)"
        by (auto simp: list_eq_iff_nth_eq)
      moreover have "(\<forall>i<8 * ?n. pbit (u p') i = pbit (u q') i) \<longleftrightarrow>
          (\<forall>i<plen p. pbit (u p) i = pbit (u q) i)" if "plen p = plen q"
        using p'(6) q'(5) assms(3) that by (metis order_less_le_trans)
      ultimately show ?thesis by (metis word_unat_eq_iff)
    qed
    ultimately show ?thesis by simp
  qed
  ultimately show ?thesis using p' p'' q' by auto
qed

theorem apply_mask_canonical_witness:
  "\<exists>p' q'. apply_mask \<lparr>family = AF_INET, prefixlen = 8, u = [10, 1, 2, 3]\<rparr> = Inr p' \<and>
     apply_mask \<lparr>family = AF_INET, prefixlen = 8, u = [10, 9, 8, 7]\<rparr> = Inr q' \<and>
     prefix_same p' q' = Inr True"
proof -
  let ?p = "\<lparr>family = AF_INET, prefixlen = 8, u = [10, 1, 2, 3]\<rparr>"
  let ?q = "\<lparr>family = AF_INET, prefixlen = 8, u = [10, 9, 8, 7]\<rparr>"
  have "prefix_cmp ?p ?q = Inr True"
    by (simp add: prefix_cmp_def same_net_def mem_get_def)
  then show ?thesis
    using apply_mask_canonical[of ?p ?q] by (auto simp: prefix_blen_def addr_lens)
qed

section \<open>Common bits\<close>

lemma first_differing_ok:
  "len \<le> length a \<Longrightarrow> len \<le> length b \<Longrightarrow> pos \<le> len \<Longrightarrow> take pos a = take pos b \<Longrightarrow>
   \<exists>k. first_differing a b len pos = Inr k \<and> k \<le> len \<and> take k a = take k b \<and>
       (k < len \<longrightarrow> a ! k \<noteq> b ! k)"
proof (induction a b len pos rule: first_differing.induct)
  case (1 a b len pos)
  show ?case
  proof (cases "pos < len \<and> a ! pos = b ! pos")
    case True
    then have "first_differing a b len pos = first_differing a b len (pos + 1)"
      using 1 by (simp add: first_differing.simps[of a b len pos] mem_simps)
    with True 1 show ?thesis by (auto simp: mem_simps take_Suc_conv_app_nth)
  next
    case False
    with 1 show ?thesis by (auto simp: first_differing.simps[of a b len pos] mem_simps)
  qed
qed

lemma first_bit_ok:
  "i \<le> 8 \<Longrightarrow> \<forall>j<i. \<not> bit x (7 - j) \<Longrightarrow>
   first_bit x i \<le> 8 \<and> (\<forall>j<first_bit x i. \<not> bit x (7 - j)) \<and>
   (first_bit x i < 8 \<longrightarrow> bit x (7 - first_bit x i))"
proof (induction x i rule: first_bit.induct)
  case (1 x i)
  have *: "x AND push_bit (7 - i) 1 \<noteq> 0 \<longleftrightarrow> bit x (7 - i)"
    by (auto simp: bit_iff_and_push_bit_not_eq_0)
  show ?case
  proof (cases "i < 8 \<and> \<not> bit x (7 - i)")
    case True
    then have "first_bit x i = first_bit x (i + 1)" using * by (simp add: first_bit.simps[of x i])
    moreover have "\<forall>j<i + 1. \<not> bit x (7 - j)" using True 1 by (auto simp: less_Suc_eq)
    ultimately show ?thesis using True 1 * by simp
  next
    case False
    with 1 * show ?thesis by (auto simp: first_bit.simps[of x i])
  qed
qed

text \<open>
  \<open>prefix_common_bits\<close> of two addresses of the same family is the length of their
  longest common initial bit string, whatever the prefix lengths.
\<close>

lemma prefix_common_bits_longest:
  assumes "family p = AF_INET \<or> family p = AF_INET6" "family q = family p"
    "prefix_blen p \<le> length (u p)" "prefix_blen p \<le> length (u q)"
  shows "\<exists>k\<le>8 * prefix_blen p. prefix_common_bits p q = Inr (int k) \<and>
    (\<forall>i<k. pbit (u p) i = pbit (u q) i) \<and>
    (k < 8 * prefix_blen p \<longrightarrow> pbit (u p) k \<noteq> pbit (u q) k)"
proof -
  let ?n = "prefix_blen p"
  have n: "?n = (if family p = AF_INET then IPV4_MAX_BYTELEN
    else if family p = AF_INET6 then IPV6_MAX_BYTELEN else 0)" "?n \<noteq> 0"
    using assms(1) by (auto simp: prefix_blen_def addr_lens)
  obtain k where k: "first_differing (u p) (u q) ?n 0 = Inr k" "k \<le> ?n"
    "take k (u p) = take k (u q)" "k < ?n \<longrightarrow> u p ! k \<noteq> u q ! k"
    using first_differing_ok[of ?n "u p" "u q" 0] assms by auto
  have same: "\<forall>i<8 * k. pbit (u p) i = pbit (u q) i"
  proof -
    have "u p ! j = u q ! j" if "j < k" for j using k(3) that by (metis nth_take)
    then show ?thesis by (auto simp: pbit_def)
  qed
  show ?thesis
  proof (cases "k = ?n")
    case True
    then have "prefix_common_bits p q = Inr (int (8 * ?n))"
      using k n assms(2) by (simp add: prefix_common_bits_def Let_def)
    with same True show ?thesis by blast
  next
    case False
    with k have lt: "k < ?n" and diff: "u p ! k \<noteq> u q ! k" by auto
    let ?x = "u p ! k XOR u q ! k"
    let ?b = "first_bit ?x 0"
    have b: "?b \<le> 8" "\<forall>j<?b. \<not> bit ?x (7 - j)" "?b < 8 \<longrightarrow> bit ?x (7 - ?b)"
      using first_bit_ok[of 0 ?x] by auto
    have "?b < 8"
    proof (rule ccontr)
      assume "\<not> ?b < 8"
      with b diff show False by (auto simp: byte_eq_bits bit_xor_iff)
    qed
    have "prefix_common_bits p q = Inr (int (8 * k + ?b))"
      using k n assms lt by (auto simp: prefix_common_bits_def Let_def mem_simps)
    moreover have "\<forall>i<8 * k + ?b. pbit (u p) i = pbit (u q) i"
      using bits_by_byte[of ?b k "\<lambda>i. pbit (u p) i = pbit (u q) i"] same b \<open>?b < 8\<close>
      by (auto simp: pbit_byte bit_xor_iff)
    moreover have "pbit (u p) (8 * k + ?b) \<noteq> pbit (u q) (8 * k + ?b)"
      using b(3) \<open>?b < 8\<close> by (simp add: pbit_byte bit_xor_iff)
    moreover have "8 * k + ?b \<le> 8 * ?n" using lt \<open>?b < 8\<close> by linarith
    ultimately show ?thesis by blast
  qed
qed

section \<open>Strings\<close>

lemma isdigit_digit [simp]: "k < 10 \<Longrightarrow> isdigit (char_of (48 + k))" for k :: nat
  by (simp add: isdigit_def)

lemma digit_val_digit [simp]: "k < 10 \<Longrightarrow> digit_val (char_of (48 + k)) = k" for k :: nat
  by (simp add: digit_val_def)

lemma isdigit_plain: "isdigit c \<Longrightarrow> \<not> isspace c \<and> c \<noteq> CHR ''-'' \<and> c \<noteq> CHR ''+'' \<and> c \<noteq> CHR ''/''"
  by (auto simp: isdigit_def isspace_def)

lemma strtol_digits_append:
  "list_all isdigit xs \<Longrightarrow> strtol_digits v (xs @ ys) = strtol_digits (strtol_digits v xs) ys"
  by (induction xs arbitrary: v) auto

lemma decimal_digits [simp]: "list_all isdigit (decimal n)"
proof (induction n rule: decimal.induct)
  case (1 n)
  then show ?case by (auto simp: decimal.simps[of n])
qed

lemma decimal_nonempty [simp]: "decimal n \<noteq> []"
  by (simp add: decimal.simps[of n])

lemma strtol_digits_decimal: "strtol_digits 0 (decimal n) = n"
proof (induction n rule: decimal.induct)
  case (1 n)
  then show ?case by (auto simp: decimal.simps[of n] strtol_digits_append)
qed

lemma strtol_decimal: "n < 2 ^ 63 \<Longrightarrow> strtol (decimal n) = int n"
proof -
  assume n: "n < 2 ^ 63"
  obtain c cs where d: "decimal n = c # cs" by (cases "decimal n") auto
  have "isdigit c" using decimal_digits[of n] d by simp
  then have "strtol (decimal n) = saturate (int (strtol_digits 0 (decimal n)))"
    using isdigit_plain[of c] d by (simp add: strtol_def)
  with n show ?thesis by (simp add: strtol_digits_decimal saturate_def LONG_MAX_def)
qed

lemma atoi_decimal: "n < 2 ^ 63 \<Longrightarrow> atoi_u8 (decimal n) = of_nat n"
  by (simp add: atoi_u8_def strtol_decimal)

lemma split_slash:
  assumes "CHR ''/'' \<notin> set a"
  shows "before_slash (a @ ''/'' @ b) = a" "after_slash (a @ ''/'' @ b) = b"
proof -
  have "\<forall>c\<in>set a. c \<noteq> CHR ''/''" using assms by auto
  then show "before_slash (a @ ''/'' @ b) = a" "after_slash (a @ ''/'' @ b) = b"
    by (simp_all add: before_slash_def after_slash_def takeWhile_append2 dropWhile_append2)
qed

lemma hex_digit_props:
  assumes "n < 16"
  shows "ishex (hex_digit n)" "hex_val (hex_digit n) = n" "\<not> isspace (hex_digit n)"
    "hex_digit n \<notin> {CHR ''+'', CHR ''-'', CHR ''x'', CHR ''X'', CHR ''/''}"
  using assms
  by (auto simp: ishex_def hex_digit_def hex_val_def isdigit_def digit_val_def isspace_def
      of_char_of dest: arg_cong[where f = "of_char :: char \<Rightarrow> nat"])

lemma unat_u8_less [simp]: "unat b < 256" for b :: u8
  by (rule order.strict_trans2[OF unsigned_less]) simp

lemma nibbles: "unat b div 16 < 16" "unat b mod 16 < 16" for b :: u8
  using unat_u8_less[of b] by (auto intro: less_mult_imp_div_less)

lemma scan_hex_byte: "scan_2x (hex_byte b @ r) = Some (ucast b, r)"
proof -
  have "(of_nat (16 * (unat b div 16) + unat b mod 16) :: u32) = ucast b"
    by (simp add: unsigned_ucast_eq[symmetric])
  with hex_digit_props[OF nibbles(1)[of b]] hex_digit_props[OF nibbles(2)[of b]] show ?thesis
    by (simp add: scan_2x_def hex_byte_def)
qed

lemma ucast_ucast_u8 [simp]: "ucast (ucast b :: u32) = b" for b :: u8
  by (rule bit_word_eqI) (auto simp: bit_simps)

lemma scan_octets:
  "bs \<noteq> [] \<Longrightarrow> scan_fields (length bs) (eth_octets bs @ r) = Some (map ucast bs)"
proof (induction bs rule: eth_octets.induct)
  case (3 b c bs)
  then show ?case by (simp add: scan_hex_byte)
qed (simp_all add: scan_hex_byte)

lemma hex_byte_no_slash: "CHR ''/'' \<notin> set (hex_byte b)"
  using hex_digit_props(4)[OF nibbles(1)[of b]] hex_digit_props(4)[OF nibbles(2)[of b]]
  by (auto simp: hex_byte_def)

lemma octets_no_slash: "CHR ''/'' \<notin> set (eth_octets bs)"
  by (induction bs rule: eth_octets.induct) (auto simp: hex_byte_no_slash)

text \<open>
  Printing and parsing Ethernet prefixes are inverse: the string \<open>prefix2str\<close> writes for an
  Ethernet prefix is parsed by \<open>str2prefix_eth\<close> into the same family, length and address.
  (\<open>prefix2str\<close> returns a null pointer in this case, not the buffer.)
\<close>

theorem prefix_eth_roundtrip:
  assumes "family p = AF_ETHERNET" "plen p \<le> 48" "6 \<le> length (u p)" "22 < sz" "6 \<le> length (u q)"
  shows "\<exists>s q'. prefix2str inet_ntop p sz = Inr (s, False) \<and> str2prefix_eth s q = Inr (True, q') \<and>
    family q' = AF_ETHERNET \<and> prefixlen q' = prefixlen p \<and> take 6 (u q') = take 6 (u p)"
proof -
  let ?o = "take 6 (u p)"
  let ?s = "eth_octets ?o @ ''/'' @ decimal (plen p)"
  have len: "length ?o = 6" "?o \<noteq> []" using assms(3) by auto
  have "scan_fields 6 (eth_octets ?o @ ''/'') = Some (map ucast ?o)"
    using scan_octets[OF len(2), of "''/''"] len(1) by simp
  moreover have "map ucast (map ucast ?o :: u32 list) = ?o"
    by (simp add: comp_def)
  moreover have "atoi_u8 (decimal (plen p)) = prefixlen p"
    using assms(2) by (simp add: atoi_decimal)
  moreover have "before_slash ?s = eth_octets ?o" "after_slash ?s = decimal (plen p)"
    using split_slash[OF octets_no_slash] by auto
  ultimately have "str2prefix_eth ?s q =
      Inr (True, q\<lparr>u := ?o @ drop 6 (u q), prefixlen := prefixlen p, family := AF_ETHERNET\<rparr>)"
    using assms len unfolding str2prefix_eth_def Let_def
    by (simp add: mem_write_def)
  moreover have "prefix2str inet_ntop p sz = Inr (?s, False)"
    using assms by (simp add: prefix2str_def addr_lens mem_simps)
  ultimately show ?thesis using len by auto
qed

theorem prefix_eth_roundtrip_witness:
  "\<exists>s q'. prefix2str (\<lambda>f a. '''') \<lparr>family = AF_ETHERNET, prefixlen = 40, u = [1, 2, 3, 4, 5, 171, 0, 0]\<rparr> 51
       = Inr (s, False) \<and> str2prefix_eth s prefix_new = Inr (True, q') \<and>
     prefixlen q' = 40 \<and> take 6 (u q') = [1, 2, 3, 4, 5, 171]"
  using prefix_eth_roundtrip[of "\<lparr>family = AF_ETHERNET, prefixlen = 40, u = [1, 2, 3, 4, 5, 171, 0, 0]\<rparr>"
    51 prefix_new "\<lambda>f a. ''''"]
  by (auto simp: prefix_new_def)

text \<open>
  IPv4 prefixes from strings.  An address text that \<open>inet_aton\<close> accepts, followed by a
  slash and a decimal number \<open>n\<close>, is accepted exactly when \<open>n mod 256\<close> is at most 32, and the
  length is \<open>n mod 256\<close>: lengths up to 32 are read correctly, 33 to 255 are refused, but
  10.0.0.0/264 is read as 10.0.0.0/8.
\<close>

lemma str2prefix_ipv4_length:
  assumes "CHR ''/'' \<notin> set a" "inet_aton a = Some bs" "length bs = 4" "4 \<le> length (u p)"
    "n < 2 ^ 63"
  shows "str2prefix_ipv4 inet_aton (a @ ''/'' @ decimal n) p =
    Inr (if n mod 256 \<le> 32
         then (True, \<lparr>family = AF_INET, prefixlen = of_nat n, u = bs @ drop 4 (u p)\<rparr>)
         else (False, p\<lparr>u := bs @ drop 4 (u p)\<rparr>))"
  using assms by (simp add: str2prefix_ipv4_def split_slash[unfolded append_Cons append_Nil] store_addr_def
      mem_write_def atoi_decimal unat_of_nat addr_lens Let_def)

end
