(* ===== verification/Route_Table.thy ===== *)
theory Route_Table
  imports Prefix Contracts "HOL-Library.Tree"
begin

text \<open>
  Route tables (lib/table.c, lib/table.h): the radix tree of prefixes that every daemon keeps
  its routes in, with the reference counts of its nodes, lookups, longest match, iteration
  and the iterator that can be paused.
\<close>

section \<open>Data\<close>

text \<open>
  A node pointer is an address, or \<open>None\<close> for a null pointer.  The nodes of one table live in
  the map \<open>nodes\<close>; an access to an address that is not in it is a memory fault.  The field
  \<open>table\<close> of a node is left out, since there is one table, and so is the unused \<open>aggregate\<close>.
  Nodes are created by the default delegate (\<open>XCALLOC\<close>) at the address \<open>fresh\<close>.
\<close>

type_synonym ptr = "nat option"

record 'a route_node =
  rn_p :: prefix
  rn_parent :: ptr
  l_left :: ptr
  l_right :: ptr
  lock :: nat
  info :: "'a option"

record 'a route_table =
  rt_top :: ptr
  rt_count :: nat
  nodes :: "nat \<Rightarrow> 'a route_node option"
  fresh :: nat

definition node_at :: "'a route_table \<Rightarrow> nat \<Rightarrow> 'a route_node res" where
  "node_at t i = (case nodes t i of None \<Rightarrow> Inl Mem_fault | Some n \<Rightarrow> Inr n)"

definition set_node :: "nat \<Rightarrow> ('a route_node \<Rightarrow> 'a route_node) \<Rightarrow> 'a route_table \<Rightarrow> 'a route_table res" where
  "set_node i f t = bindR (node_at t i) (\<lambda>n. Inr (t\<lparr>nodes := (nodes t)(i := Some (f n))\<rparr>))"

text \<open>The array \<open>link[2]\<close>.\<close>

definition get_link :: "'a route_node \<Rightarrow> nat \<Rightarrow> ptr" where
  "get_link n b = (if b = 0 then l_left n else l_right n)"

definition set_link_field :: "nat \<Rightarrow> ptr \<Rightarrow> 'a route_node \<Rightarrow> 'a route_node" where
  "set_link_field b q n = (if b = 0 then n\<lparr>l_left := q\<rparr> else n\<lparr>l_right := q\<rparr>)"

section \<open>Operations\<close>

definition route_table_init :: "'a route_table" where
  "route_table_init = \<lparr>rt_top = None, rt_count = 0, nodes = Map.empty, fresh = 0\<rparr>"

definition route_node_create :: "'a route_node" where
  "route_node_create =
     \<lparr>rn_p = prefix_new, rn_parent = None, l_left = None, l_right = None, lock = 0, info = None\<rparr>"

definition route_node_new :: "'a route_table \<Rightarrow> nat \<times> 'a route_table" where
  "route_node_new t =
     (fresh t, t\<lparr>nodes := (nodes t)(fresh t := Some route_node_create), fresh := fresh t + 1\<rparr>)"

definition route_node_set :: "'a route_table \<Rightarrow> prefix \<Rightarrow> (nat \<times> 'a route_table) res" where
  "route_node_set t p =
     (let (i, t) = route_node_new t in
      bindR (node_at t i) (\<lambda>n.
      bindR (prefix_copy (rn_p n) p) (\<lambda>q.
      bindR (set_node i (\<lambda>n. n\<lparr>rn_p := q\<rparr>) t) (\<lambda>t. Inr (i, t)))))"

definition route_node_free :: "nat \<Rightarrow> 'a route_table \<Rightarrow> 'a route_table" where
  "route_node_free i t = t\<lparr>nodes := (nodes t)(i := None)\<rparr>"

text \<open>
  \<open>route_common\<close>: the first loop copies the equal leading bytes, the second counts the equal
  leading bits of the next byte.
\<close>

function common_bytes :: "u8 list \<Rightarrow> u8 list \<Rightarrow> nat \<Rightarrow> u8 list \<Rightarrow> nat \<Rightarrow> (nat \<times> u8 list) res" where
  "common_bytes np pp len newp i =
     (if i < len then
        bindR (mem_get np i) (\<lambda>a. bindR (mem_get pp i) (\<lambda>b.
          if a = b then
            (case mem_set newp i a of
               Inl e \<Rightarrow> Inl e
             | Inr newp' \<Rightarrow> common_bytes np pp len newp' (i + 1))
          else Inr (i, newp)))
      else Inr (i, newp))"
  by pat_completeness auto
termination by (relation "measure (\<lambda>(np, pp, len, newp, i). len - i)") auto

function common_bits :: "u8 \<Rightarrow> nat \<Rightarrow> u8 \<Rightarrow> nat \<Rightarrow> nat" where
  "common_bits diff len msk newlen =
     (if newlen < len \<and> msk AND diff = 0 then common_bits diff len (drop_bit 1 msk) (newlen + 1)
      else newlen)"
  by pat_completeness auto
termination by (relation "measure (\<lambda>(diff, len, msk, newlen). len - newlen)") auto

declare common_bytes.simps [simp del] common_bits.simps [simp del]

definition route_common :: "prefix \<Rightarrow> prefix \<Rightarrow> prefix \<Rightarrow> prefix res" where
  "route_common n p new =
     bindR (common_bytes (u n) (u p) (plen p div 8) (u new) 0) (\<lambda>(i, newp).
       if i * 8 \<noteq> plen p then
         bindR (mem_get (u n) i) (\<lambda>a. bindR (mem_get (u p) i) (\<lambda>b.
           let newlen = common_bits (a XOR b) (plen p) 0x80 (i * 8) in
           bindR (mem_set newp i (a AND maskbit ! (newlen mod 8))) (\<lambda>newp.
             Inr (new\<lparr>prefixlen := of_nat newlen, u := newp\<rparr>))))
       else Inr (new\<lparr>prefixlen := of_nat (i * 8), u := newp\<rparr>))"

definition set_link :: "nat \<Rightarrow> nat \<Rightarrow> 'a route_table \<Rightarrow> 'a route_table res" where
  "set_link node new t =
     bindR (node_at t new) (\<lambda>n. bindR (node_at t node) (\<lambda>m.
     bindR (prefix_bit (u (rn_p n)) (prefixlen (rn_p m))) (\<lambda>b.
     bindR (set_node node (set_link_field b (Some new)) t)
       (set_node new (\<lambda>n. n\<lparr>rn_parent := Some node\<rparr>)))))"

definition route_lock_node :: "nat \<Rightarrow> 'a route_table \<Rightarrow> 'a route_table res" where
  "route_lock_node i t = set_node i (\<lambda>n. n\<lparr>lock := uadd 32 (lock n) 1\<rparr>) t"

text \<open>
  One activation of \<open>route_node_delete\<close>: it gives the parent when the function calls itself
  for it.
\<close>

definition route_node_unlink :: "nat \<Rightarrow> 'a route_table \<Rightarrow> (ptr \<times> 'a route_table) res" where
  "route_node_unlink node t =
     bindR (node_at t node) (\<lambda>n.
     if lock n \<noteq> 0 then Inl Assert_failed
     else if info n \<noteq> None then Inl Assert_failed
     else if l_left n \<noteq> None \<and> l_right n \<noteq> None then Inr (None, t)
     else
       let child = (if l_left n \<noteq> None then l_left n else l_right n); parent = rn_parent n in
       bindR (case child of None \<Rightarrow> Inr t
              | Some c \<Rightarrow> set_node c (\<lambda>m. m\<lparr>rn_parent := parent\<rparr>) t) (\<lambda>t.
       bindR (case parent of
                Some q \<Rightarrow>
                  set_node q (\<lambda>m. if l_left m = Some node then m\<lparr>l_left := child\<rparr>
                                  else m\<lparr>l_right := child\<rparr>) t
              | None \<Rightarrow> Inr (t\<lparr>rt_top := child\<rparr>)) (\<lambda>t.
       let t = route_node_free node (t\<lparr>rt_count := usub 64 (rt_count t) 1\<rparr>) in
       case parent of
         None \<Rightarrow> Inr (None, t)
       | Some q \<Rightarrow> bindR (node_at t q) (\<lambda>m. Inr (if lock m = 0 then parent else None, t)))))"

partial_function (option) route_node_delete :: "nat \<Rightarrow> 'a route_table \<Rightarrow> 'a route_table res option" where
  "route_node_delete node t =
     (case route_node_unlink node t of
        Inl e \<Rightarrow> Some (Inl e)
      | Inr (r, t') \<Rightarrow> (case r of None \<Rightarrow> Some (Inr t') | Some q \<Rightarrow> route_node_delete q t'))"

definition route_unlock_node :: "nat \<Rightarrow> 'a route_table \<Rightarrow> 'a route_table res option" where
  "route_unlock_node i t =
     (case node_at t i of
        Inl e \<Rightarrow> Some (Inl e)
      | Inr n \<Rightarrow>
          if lock n > 0 then
            let t = t\<lparr>nodes := (nodes t)(i := Some (n\<lparr>lock := lock n - 1\<rparr>))\<rparr> in
            if lock n - 1 = 0 then route_node_delete i t else Some (Inr t)
          else Some (Inl Assert_failed))"

text \<open>
  The condition of the loops that walk down the tree: the node to continue with, or \<open>None\<close>
  when the loop ends.
\<close>

definition walk_cond :: "prefix \<Rightarrow> 'a route_table \<Rightarrow> ptr \<Rightarrow> 'a route_node option res" where
  "walk_cond p t node =
     (case node of
        None \<Rightarrow> Inr None
      | Some i \<Rightarrow>
          bindR (node_at t i) (\<lambda>n.
            if plen (rn_p n) \<le> plen p
            then bindR (prefix_match (rn_p n) p) (\<lambda>m. Inr (if m then Some n else None))
            else Inr None))"

definition next_link :: "prefix \<Rightarrow> 'a route_node \<Rightarrow> ptr res" where
  "next_link p n = bindR (prefix_bit (u p) (prefixlen (rn_p n))) (\<lambda>b. Inr (get_link n b))"

partial_function (option) match_loop :: "prefix \<Rightarrow> 'a route_table \<Rightarrow> ptr \<Rightarrow> ptr \<Rightarrow> ptr res option" where
  "match_loop p t node matched =
     (case walk_cond p t node of
        Inl e \<Rightarrow> Some (Inl e)
      | Inr r \<Rightarrow>
         (case r of
            None \<Rightarrow> Some (Inr matched)
          | Some n \<Rightarrow>
              let matched' = (if info n \<noteq> None then node else matched) in
              if prefixlen (rn_p n) = prefixlen p then Some (Inr matched')
              else case next_link p n of
                     Inl e \<Rightarrow> Some (Inl e)
                   | Inr node' \<Rightarrow> match_loop p t node' matched'))"

definition locked :: "ptr \<Rightarrow> 'a route_table \<Rightarrow> (ptr \<times> 'a route_table) res" where
  "locked r t =
     (case r of None \<Rightarrow> Inr (None, t) | Some i \<Rightarrow> bindR (route_lock_node i t) (\<lambda>t. Inr (Some i, t)))"

definition route_node_match :: "'a route_table \<Rightarrow> prefix \<Rightarrow> (ptr \<times> 'a route_table) res option" where
  "route_node_match t p = map_option (\<lambda>m. bindR m (\<lambda>r. locked r t)) (match_loop p t (rt_top t) None)"

text \<open>A \<open>struct prefix_ipv4\<close> on the stack has four bytes of address and four of padding.\<close>

definition route_node_match_ipv4 :: "'a route_table \<Rightarrow> u8 list \<Rightarrow> (ptr \<times> 'a route_table) res option" where
  "route_node_match_ipv4 t addr =
     route_node_match t \<lparr>family = AF_INET, prefixlen = 32, u = addr @ replicate 4 0\<rparr>"

definition route_node_match_ipv6 :: "'a route_table \<Rightarrow> u8 list \<Rightarrow> (ptr \<times> 'a route_table) res option" where
  "route_node_match_ipv6 t addr =
     route_node_match t \<lparr>family = AF_INET6, prefixlen = 128, u = addr\<rparr>"

partial_function (option) node_lookup_loop :: "prefix \<Rightarrow> 'a route_table \<Rightarrow> ptr \<Rightarrow> ptr res option" where
  "node_lookup_loop p t node =
     (case walk_cond p t node of
        Inl e \<Rightarrow> Some (Inl e)
      | Inr r \<Rightarrow>
         (case r of
            None \<Rightarrow> Some (Inr None)
          | Some n \<Rightarrow>
              if prefixlen (rn_p n) = prefixlen p
              then Some (Inr (if info n \<noteq> None then node else None))
              else case next_link p n of
                     Inl e \<Rightarrow> Some (Inl e)
                   | Inr node' \<Rightarrow> node_lookup_loop p t node'))"

definition route_node_lookup :: "'a route_table \<Rightarrow> prefix \<Rightarrow> (ptr \<times> 'a route_table) res option" where
  "route_node_lookup t p = map_option (\<lambda>m. bindR m (\<lambda>r. locked r t)) (node_lookup_loop p t (rt_top t))"

text \<open>
  The loop of \<open>route_node_get\<close> ends with a node of the same length (\<open>Inl\<close>), or with the node
  where it stopped and the last one that matched.
\<close>

partial_function (option) get_loop ::
  "prefix \<Rightarrow> 'a route_table \<Rightarrow> ptr \<Rightarrow> ptr \<Rightarrow> (nat + ptr \<times> ptr) res option" where
  "get_loop p t node match =
     (case walk_cond p t node of
        Inl e \<Rightarrow> Some (Inl e)
      | Inr r \<Rightarrow>
         (case r of
            None \<Rightarrow> Some (Inr (Inr (node, match)))
          | Some n \<Rightarrow>
              if prefixlen (rn_p n) = prefixlen p then Some (Inr (Inl (the node)))
              else case next_link p n of
                     Inl e \<Rightarrow> Some (Inl e)
                   | Inr node' \<Rightarrow> get_loop p t node' node))"

definition attach :: "ptr \<Rightarrow> nat \<Rightarrow> 'a route_table \<Rightarrow> 'a route_table res" where
  "attach match new t =
     (case match of Some m \<Rightarrow> set_link m new t | None \<Rightarrow> Inr (t\<lparr>rt_top := Some new\<rparr>))"

definition count_node :: "'a route_table \<Rightarrow> 'a route_table" where
  "count_node t = t\<lparr>rt_count := uadd 64 (rt_count t) 1\<rparr>"

definition route_node_add ::
  "'a route_table \<Rightarrow> prefix \<Rightarrow> ptr \<Rightarrow> ptr \<Rightarrow> (nat \<times> 'a route_table) res" where
  "route_node_add t p node match =
     (case node of
        None \<Rightarrow>
          bindR (route_node_set t p) (\<lambda>(new, t).
          bindR (attach match new t) (\<lambda>t. Inr (new, t)))
      | Some k \<Rightarrow>
          let (new, t) = route_node_new t in
          bindR (node_at t k) (\<lambda>n. bindR (node_at t new) (\<lambda>m.
          bindR (route_common (rn_p n) p (rn_p m)) (\<lambda>q.
          bindR (set_node new (\<lambda>m. m\<lparr>rn_p := q\<lparr>family := family p\<rparr>\<rparr>) t) (\<lambda>t.
          bindR (set_link new k t) (\<lambda>t.
          bindR (attach match new t) (\<lambda>t.
          if prefixlen q \<noteq> prefixlen p then
            bindR (route_node_set t p) (\<lambda>(new', t).
            bindR (set_link new new' t) (\<lambda>t. Inr (new', count_node t)))
          else Inr (new, t))))))))"

definition route_node_get :: "'a route_table \<Rightarrow> prefix \<Rightarrow> (nat \<times> 'a route_table) res option" where
  "route_node_get t p =
     map_option (\<lambda>m. bindR m (\<lambda>r. case r of
         Inl i \<Rightarrow> bindR (route_lock_node i t) (\<lambda>t. Inr (i, t))
       | Inr (node, match) \<Rightarrow>
           bindR (route_node_add t p node match) (\<lambda>(new, t).
           bindR (route_lock_node new (count_node t)) (\<lambda>t. Inr (new, t)))))
       (get_loop p t (rt_top t) None)"

section \<open>Iteration\<close>

definition route_top :: "'a route_table \<Rightarrow> (ptr \<times> 'a route_table) res" where
  "route_top t = locked (rt_top t) t"

text \<open>
  The loop that looks upwards for the node behind a subtree, as \<open>route_next\<close>,
  \<open>route_next_until\<close> (with a limit) and \<open>route_get_subtree_next\<close> have it.
\<close>

partial_function (option) next_up :: "ptr \<Rightarrow> 'a route_table \<Rightarrow> nat \<Rightarrow> ptr res option" where
  "next_up limit t node =
     (case node_at t node of
        Inl e \<Rightarrow> Some (Inl e)
      | Inr n \<Rightarrow>
         (case rn_parent n of
            None \<Rightarrow> Some (Inr None)
          | Some q \<Rightarrow>
              if limit = Some node then Some (Inr None)
              else case node_at t q of
                Inl e \<Rightarrow> Some (Inl e)
              | Inr m \<Rightarrow>
                  if l_left m = Some node \<and> l_right m \<noteq> None then Some (Inr (l_right m))
                  else next_up limit t q))"

text \<open>The next node is locked before the current one is unlocked.\<close>

definition move_to :: "ptr \<Rightarrow> nat \<Rightarrow> 'a route_table \<Rightarrow> (ptr \<times> 'a route_table) res option" where
  "move_to nxt node t =
     (case locked nxt t of
        Inl e \<Rightarrow> Some (Inl e)
      | Inr (r, t') \<Rightarrow> map_option (\<lambda>m. bindR m (\<lambda>t''. Inr (r, t''))) (route_unlock_node node t'))"

definition route_next_until :: "nat \<Rightarrow> ptr \<Rightarrow> 'a route_table \<Rightarrow> (ptr \<times> 'a route_table) res option" where
  "route_next_until node limit t =
     (case node_at t node of
        Inl e \<Rightarrow> Some (Inl e)
      | Inr n \<Rightarrow>
          if l_left n \<noteq> None then move_to (l_left n) node t
          else if l_right n \<noteq> None then move_to (l_right n) node t
          else case next_up limit t node of
                 None \<Rightarrow> None
               | Some (Inl e) \<Rightarrow> Some (Inl e)
               | Some (Inr nxt) \<Rightarrow> move_to nxt node t)"

definition route_next :: "nat \<Rightarrow> 'a route_table \<Rightarrow> (ptr \<times> 'a route_table) res option" where
  "route_next node t =
     (case node_at t node of
        Inl e \<Rightarrow> Some (Inl e)
      | Inr n \<Rightarrow>
          if l_left n \<noteq> None then move_to (l_left n) node t
          else if l_right n \<noteq> None then move_to (l_right n) node t
          else case next_up None t node of
                 None \<Rightarrow> None
               | Some (Inl e) \<Rightarrow> Some (Inl e)
               | Some (Inr nxt) \<Rightarrow> move_to nxt node t)"

definition route_table_count :: "'a route_table \<Rightarrow> nat" where
  "route_table_count t = rt_count t"

text \<open>
  \<open>common_space\<close> is not initialised in \<open>route_table_prefix_iter_cmp\<close>; only the length that
  \<open>route_common\<close> stores in it is used.
\<close>

definition route_table_prefix_iter_cmp :: "prefix \<Rightarrow> prefix \<Rightarrow> int res" where
  "route_table_prefix_iter_cmp p1 p2 =
     bindR (if plen p1 \<le> plen p2
            then bindR (prefix_match p1 p2) (\<lambda>m.
                   Inr (if m then Some (if prefixlen p1 = prefixlen p2 then 0 else - 1) else None))
            else bindR (prefix_match p2 p1) (\<lambda>m. Inr (if m then Some 1 else None))) (\<lambda>r.
     case r of
       Some c \<Rightarrow> Inr c
     | None \<Rightarrow>
         bindR (route_common p1 p2 prefix_new) (\<lambda>common.
         if \<not> plen common < plen p1 then Inl Assert_failed
         else if \<not> plen common < plen p2 then Inl Assert_failed
         else bindR (prefix_bit (u p1) (prefixlen common)) (\<lambda>b1.
              bindR (prefix_bit (u p2) (prefixlen common)) (\<lambda>b2.
              if b1 \<noteq> 0 then if b2 = 0 then Inr 1 else Inl Assert_failed
              else if b2 \<noteq> 0 then Inr (- 1) else Inl Assert_failed))))"

definition route_get_subtree_next :: "nat \<Rightarrow> 'a route_table \<Rightarrow> ptr res option" where
  "route_get_subtree_next node t = next_up None t node"

text \<open>The dance of the found case: lock the node, move on, and unlock the next one.\<close>

definition next_unlocked :: "nat \<Rightarrow> 'a route_table \<Rightarrow> (ptr \<times> 'a route_table) res option" where
  "next_unlocked node t =
     (case route_lock_node node t of
        Inl e \<Rightarrow> Some (Inl e)
      | Inr t \<Rightarrow>
         (case route_next node t of
            None \<Rightarrow> None
          | Some (Inl e) \<Rightarrow> Some (Inl e)
          | Some (Inr (None, t)) \<Rightarrow> Some (Inr (None, t))
          | Some (Inr (Some k, t)) \<Rightarrow>
              map_option (\<lambda>m. bindR m (\<lambda>t. Inr (Some k, t))) (route_unlock_node k t)))"

definition unchanged :: "'a route_table \<Rightarrow> ptr res option \<Rightarrow> (ptr \<times> 'a route_table) res option" where
  "unchanged t = map_option (\<lambda>m. bindR m (\<lambda>r. Inr (r, t)))"

partial_function (option) get_next_loop ::
  "prefix \<Rightarrow> 'a route_table \<Rightarrow> ptr \<Rightarrow> (ptr \<times> 'a route_table) res option" where
  "get_next_loop p t node =
     (case node of
        None \<Rightarrow> Some (Inr (None, t))
      | Some i \<Rightarrow>
         (case node_at t i of
            Inl e \<Rightarrow> Some (Inl e)
          | Inr n \<Rightarrow>
             (case (if plen (rn_p n) < plen p then prefix_match (rn_p n) p
                    else prefix_match p (rn_p n)) of
                Inl e \<Rightarrow> Some (Inl e)
              | Inr m \<Rightarrow>
                  if m then
                    if prefixlen (rn_p n) = prefixlen p then next_unlocked i t
                    else if plen (rn_p n) > plen p then Some (Inr (node, t))
                    else case next_link p n of
                           Inl e \<Rightarrow> Some (Inl e)
                         | Inr tmp_node \<Rightarrow>
                             if tmp_node \<noteq> None then get_next_loop p t tmp_node
                             else if l_right n \<noteq> None then Some (Inr (l_right n, t))
                             else unchanged t (route_get_subtree_next i t)
                  else case route_table_prefix_iter_cmp (rn_p n) p of
                         Inl e \<Rightarrow> Some (Inl e)
                       | Inr cmp \<Rightarrow>
                           if cmp > 0 then Some (Inr (node, t))
                           else if cmp < 0 then unchanged t (route_get_subtree_next i t)
                           else Some (Inl Assert_failed))))"

definition route_table_get_next_internal ::
  "'a route_table \<Rightarrow> prefix \<Rightarrow> (ptr \<times> 'a route_table) res option" where
  "route_table_get_next_internal t p = get_next_loop p t (rt_top t)"

definition route_table_get_next :: "'a route_table \<Rightarrow> prefix \<Rightarrow> (ptr \<times> 'a route_table) res option" where
  "route_table_get_next t p =
     map_option (\<lambda>m. bindR m (\<lambda>(r, t).
       case r of
         None \<Rightarrow> Inr (None, t)
       | Some i \<Rightarrow>
           bindR (node_at t i) (\<lambda>n. bindR (route_table_prefix_iter_cmp (rn_p n) p) (\<lambda>c.
             if c > 0 then locked (Some i) t else Inl Assert_failed))))
       (route_table_get_next_internal t p)"

datatype iter_state =
  RT_ITER_STATE_INIT | RT_ITER_STATE_ITERATING | RT_ITER_STATE_PAUSED | RT_ITER_STATE_DONE

record route_table_iter =
  iter_st :: iter_state
  current :: ptr
  pause_prefix :: prefix

definition route_table_iter_init :: route_table_iter where
  "route_table_iter_init =
     \<lparr>iter_st = RT_ITER_STATE_INIT, current = None, pause_prefix = prefix_new\<rparr>"

definition route_table_iter_next ::
  "route_table_iter \<Rightarrow> 'a route_table \<Rightarrow> (ptr \<times> route_table_iter \<times> 'a route_table) res option" where
  "route_table_iter_next iter t =
     (let moved = (\<lambda>(node, t). Inr (node,
          iter\<lparr>current := node,
               iter_st := (if node \<noteq> None then RT_ITER_STATE_ITERATING else RT_ITER_STATE_DONE)\<rparr>, t))
      in case iter_st iter of
        RT_ITER_STATE_INIT \<Rightarrow> Some (bindR (route_top t) moved)
      | RT_ITER_STATE_ITERATING \<Rightarrow>
          (case current iter of
             None \<Rightarrow> Some (Inl Mem_fault)
           | Some i \<Rightarrow> map_option (\<lambda>m. bindR m moved) (route_next i t))
      | RT_ITER_STATE_PAUSED \<Rightarrow>
          map_option (\<lambda>m. bindR m moved) (route_table_get_next t (pause_prefix iter))
      | RT_ITER_STATE_DONE \<Rightarrow> Some (Inr (None, iter, t)))"

definition route_table_iter_pause ::
  "route_table_iter \<Rightarrow> 'a route_table \<Rightarrow> (route_table_iter \<times> 'a route_table) res option" where
  "route_table_iter_pause iter t =
     (if iter_st iter = RT_ITER_STATE_ITERATING then
        case current iter of
          None \<Rightarrow> Some (Inl Mem_fault)
        | Some i \<Rightarrow>
            (case bindR (node_at t i) (\<lambda>n. prefix_copy (pause_prefix iter) (rn_p n)) of
               Inl e \<Rightarrow> Some (Inl e)
             | Inr q \<Rightarrow>
                 map_option (\<lambda>m. bindR m (\<lambda>t. Inr (iter\<lparr>pause_prefix := q, current := None,
                     iter_st := RT_ITER_STATE_PAUSED\<rparr>, t)))
                   (route_unlock_node i t))
      else Some (Inr (iter, t)))"

definition route_table_iter_cleanup ::
  "route_table_iter \<Rightarrow> 'a route_table \<Rightarrow> (route_table_iter \<times> 'a route_table) res option" where
  "route_table_iter_cleanup iter t =
     (if iter_st iter = RT_ITER_STATE_ITERATING then
        case current iter of
          None \<Rightarrow> Some (Inl Mem_fault)
        | Some i \<Rightarrow>
            map_option (\<lambda>m. bindR m (\<lambda>t.
                Inr (iter\<lparr>current := None, iter_st := RT_ITER_STATE_DONE\<rparr>, t)))
              (route_unlock_node i t)
      else if current iter \<noteq> None then Some (Inl Assert_failed)
      else Some (Inr (iter\<lparr>iter_st := RT_ITER_STATE_DONE\<rparr>, t)))"

section \<open>Releasing a table\<close>

text \<open>
  The loop of \<open>route_table_free\<close>: down to a leaf, release it, back to its parent, whose link
  is cleared.
\<close>

partial_function (option) free_loop :: "nat \<Rightarrow> 'a route_table \<Rightarrow> 'a route_table res option" where
  "free_loop node t =
     (case node_at t node of
        Inl e \<Rightarrow> Some (Inl e)
      | Inr n \<Rightarrow>
         (case l_left n of
            Some l \<Rightarrow> free_loop l t
          | None \<Rightarrow>
             (case l_right n of
                Some r \<Rightarrow> free_loop r t
              | None \<Rightarrow>
                  let t' = route_node_free node (t\<lparr>rt_count := usub 64 (rt_count t) 1\<rparr>) in
                  (case rn_parent n of
                     None \<Rightarrow> Some (Inr t')
                   | Some q \<Rightarrow>
                      (case set_node q (\<lambda>m. if l_left m = Some node then m\<lparr>l_left := None\<rparr>
                                             else m\<lparr>l_right := None\<rparr>) t' of
                         Inl e \<Rightarrow> Some (Inl e)
                       | Inr t'' \<Rightarrow> free_loop q t'')))))"

definition route_table_free :: "'a route_table \<Rightarrow> 'a route_table res option" where
  "route_table_free t =
     map_option (\<lambda>m. bindR m (\<lambda>t. if rt_count t = 0 then Inr t else Inl Assert_failed))
       (case rt_top t of None \<Rightarrow> Some (Inr t) | Some i \<Rightarrow> free_loop i t)"

definition route_table_finish :: "'a route_table \<Rightarrow> 'a route_table res option" where
  "route_table_finish t = route_table_free t"

end
