(* ===== verification/Route_Tree.thy ===== *)
theory Route_Tree
  imports Route_Table
begin

text \<open>
  The pointer structure of a route table.  The heap represents a binary tree of addresses
  (\<open>wft\<close>) in which the network of every node extends the network of its parent by the bit of
  the link.  Contexts (\<open>step list\<close>) describe a position in such a tree, so that the pointer
  updates of insertion and deletion replace one subtree.  The loops of match and lookup are
  shown to return the node with the longest network that contains the prefix, and the node
  of the prefix.
\<close>

section \<open>Trees of nodes\<close>

text \<open>The prefixes that may be entered: a known family and a length within the address.\<close>

definition copy_len :: "prefix \<Rightarrow> nat" where
  "copy_len p =
     (if family p = AF_INET then 4 else if family p = AF_INET6 then 16
      else if family p = AF_UNSPEC then 8 else 6)"

definition pvalid :: "prefix \<Rightarrow> bool" where
  "pvalid p \<longleftrightarrow> family p \<in> {AF_INET, AF_INET6, AF_UNSPEC, AF_ETHERNET} \<and>
     plen p \<le> 8 * copy_len p \<and> copy_len p \<le> length (u p)"

lemma pvalid_pwf: "pvalid p \<Longrightarrow> pwf p" "pvalid p \<Longrightarrow> plen p \<le> 128"
  by (auto simp: pvalid_def pwf_def copy_len_def split: if_splits)

text \<open>A prefix as the nodes hold it: in 16 bytes.\<close>

definition pgood :: "prefix \<Rightarrow> bool" where
  "pgood p \<longleftrightarrow> length (u p) = 16 \<and> pvalid p"

lemma pgoodD: "pgood p \<Longrightarrow> length (u p) = 16" "pgood p \<Longrightarrow> plen p \<le> 128" "pgood p \<Longrightarrow> pwf p"
  using pvalid_pwf[of p] by (simp_all add: pgood_def)

type_synonym 'a heap = "nat \<Rightarrow> 'a route_node option"

definition key :: "'a heap \<Rightarrow> nat \<Rightarrow> bool list" where
  "key h i = net (rn_p (the (h i)))"

text \<open>
  \<open>wft h par b r t\<close>: the pointer \<open>r\<close> is the root of the tree \<open>t\<close> in the heap \<open>h\<close>, its parent
  is \<open>par\<close>, and all its networks extend the bit string \<open>b\<close>.
\<close>

fun wft :: "'a heap \<Rightarrow> ptr \<Rightarrow> bool list \<Rightarrow> ptr \<Rightarrow> nat tree \<Rightarrow> bool" where
  "wft h par b r Leaf \<longleftrightarrow> r = None"
| "wft h par b r (Node lt i rt) \<longleftrightarrow> r = Some i \<and>
     (case h i of
        None \<Rightarrow> False
      | Some n \<Rightarrow> rn_parent n = par \<and> pgood (rn_p n) \<and> prefix b (net (rn_p n)) \<and>
          wft h (Some i) (net (rn_p n) @ [False]) (l_left n) lt \<and>
          wft h (Some i) (net (rn_p n) @ [True]) (l_right n) rt)"

text \<open>The part of a node that the tree structure depends on.\<close>

definition shape :: "'a route_node \<Rightarrow> 'a route_node" where
  "shape n = n\<lparr>lock := 0, info := None\<rparr>"

lemma shape_eq:
  "shape n = shape m \<longleftrightarrow> rn_p n = rn_p m \<and> rn_parent n = rn_parent m \<and> l_left n = l_left m \<and>
     l_right n = l_right m"
  by (auto simp: shape_def) (metis route_node.select_convs route_node.surjective route_node.update_convs)+

lemma wft_cong:
  "\<forall>j\<in>set_tree t. map_option shape (h' j) = map_option shape (h j) \<Longrightarrow>
   wft h par b r t \<Longrightarrow> wft h' par b r t"
proof (induction t arbitrary: par b r)
  case (Node lt i rt)
  then have "map_option shape (h' i) = map_option shape (h i)" by simp
  with Node show ?case by (auto simp: shape_eq split: option.splits)
qed simp

lemma wft_live: "wft h par b r t \<Longrightarrow> i \<in> set_tree t \<Longrightarrow> \<exists>n. h i = Some n \<and> pgood (rn_p n)"
  by (induction t arbitrary: par b r) (auto split: option.splits)

lemma wft_prefix: "wft h par b r t \<Longrightarrow> i \<in> set_tree t \<Longrightarrow> prefix b (key h i)"
proof (induction t arbitrary: par b r)
  case (Node lt j rt)
  then obtain n where n: "h j = Some n" "prefix b (net (rn_p n))"
    "wft h (Some j) (net (rn_p n) @ [False]) (l_left n) lt"
    "wft h (Some j) (net (rn_p n) @ [True]) (l_right n) rt"
    by (auto split: option.splits)
  have "prefix (net (rn_p n)) (key h i)"
    using Node.IH(1)[OF n(3)] Node.IH(2)[OF n(4)] Node.prems(2) n(1)
    by (auto simp: key_def dest: append_prefixD)
  with n(2) show ?case by (rule prefix_order.trans)
qed simp

lemma wft_root: "wft h par b r t \<Longrightarrow> r = (case t of Leaf \<Rightarrow> None | Node lt i rt \<Rightarrow> Some i)"
  by (cases t) auto

lemma pgood_pwf: "pgood p \<Longrightarrow> pwf p"
  by (rule pgoodD)

lemma prefix_next_bit: "prefix a k \<Longrightarrow> length a < length k \<Longrightarrow> prefix (a @ [k ! length a]) k"
  by (auto simp: prefix_def nth_append neq_Nil_conv)

lemma prefix_bit_clash: "prefix (a @ [x]) k \<Longrightarrow> prefix (a @ [y]) k \<Longrightarrow> x = y"
  by (auto simp: prefix_def)

section \<open>Walking down\<close>

lemma walk_cond_ok:
  assumes "nodes t i = Some n" "pgood (rn_p n)" "pwf p"
  shows "walk_cond p t (Some i) = Inr (if prefix (net (rn_p n)) (net p) then Some n else None)"
  using assms by (auto simp: walk_cond_def node_at_def prefix_match_net pgood_pwf net_prefix_iff)

lemma next_link_ok:
  assumes "pwf p" "plen (rn_p n) < plen p"
  shows "next_link p n = Inr (if net p ! plen (rn_p n) then l_right n else l_left n)"
  using assms by (simp add: next_link_def prefix_bit_ok pwf_def get_link_def)

lemma same_length_net: "prefix (net a) (net b) \<Longrightarrow> prefixlen a = prefixlen b \<longleftrightarrow> net a = net b"
  by (auto simp: prefix_def word_unat_eq_iff simp flip: length_net)

lemma shorter_net: "prefix (net a) (net b) \<Longrightarrow> net a \<noteq> net b \<Longrightarrow> plen a < plen b"
  by (auto simp: prefix_def simp flip: length_net)

text \<open>A node is hit by \<open>k\<close> when it carries information and its network contains \<open>k\<close>.\<close>

definition hit :: "'a heap \<Rightarrow> bool list \<Rightarrow> nat \<Rightarrow> bool" where
  "hit h k i \<longleftrightarrow> (\<exists>n. h i = Some n \<and> info n \<noteq> None \<and> prefix (net (rn_p n)) k)"


lemma walk_node:
  assumes "wft (nodes t) par b r (Node lt i rt)"
  obtains n where "nodes t i = Some n" "r = Some i" "rn_parent n = par" "pgood (rn_p n)"
    "prefix b (net (rn_p n))" "wft (nodes t) (Some i) (net (rn_p n) @ [False]) (l_left n) lt"
    "wft (nodes t) (Some i) (net (rn_p n) @ [True]) (l_right n) rt" "key (nodes t) i = net (rn_p n)"
  using assms by (auto simp: key_def split: option.splits)

lemma prefix_of_side:
  assumes "wft h par (a @ [x]) r t" "prefix (a @ [y]) k" "x \<noteq> y" "j \<in> set_tree t"
  shows "\<not> prefix (key h j) k"
proof
  assume "prefix (key h j) k"
  with wft_prefix[OF assms(1,4)] have "prefix (a @ [x]) k" by (rule prefix_order.trans)
  with assms(2,3) show False by (metis prefix_bit_clash)
qed

lemma longer_below:
  assumes "wft h par (a @ [x]) r t" "j \<in> set_tree t"
  shows "length a < length (key h j)"
  using prefix_length_le[OF wft_prefix[OF assms]] by simp

text \<open>
  \<open>longest h k tr m0 m\<close>: \<open>m\<close> is the node of \<open>tr\<close> with the longest network among those that
  \<open>k\<close> hits, and \<open>m0\<close> if there is none.
\<close>

definition longest :: "'a heap \<Rightarrow> bool list \<Rightarrow> nat set \<Rightarrow> ptr \<Rightarrow> ptr \<Rightarrow> bool" where
  "longest h k S m0 m \<longleftrightarrow>
     (if \<exists>j\<in>S. hit h k j
      then \<exists>j\<in>S. m = Some j \<and> hit h k j \<and> (\<forall>j'\<in>S. hit h k j' \<longrightarrow> length (key h j') \<le> length (key h j))
      else m = m0)"

lemma hit_key: "hit h k j \<Longrightarrow> prefix (key h j) k"
  by (auto simp: hit_def key_def)

lemma longest_step:
  assumes "h i = Some n" "prefix (key h i) k"
    and "\<forall>j\<in>S. hit h k j \<longrightarrow> length (key h i) < length (key h j)"
    and "longest h k S (if info n \<noteq> None then Some i else m0) m" "\<forall>j\<in>T. \<not> hit h k j"
  shows "longest h k (insert i (S \<union> T)) m0 m"
proof -
  have i: "hit h k i \<longleftrightarrow> info n \<noteq> None" using assms(1,2) by (auto simp: hit_def key_def)
  show ?thesis
  proof (cases "\<exists>j\<in>S. hit h k j")
    case True
    then obtain j where j: "j \<in> S" "m = Some j" "hit h k j"
      "\<forall>j'\<in>S. hit h k j' \<longrightarrow> length (key h j') \<le> length (key h j)"
      using assms(4) by (auto simp: longest_def)
    moreover from j assms(3) have "length (key h i) \<le> length (key h j)" by (simp add: less_imp_le)
    ultimately show ?thesis using assms(5) by (auto simp: longest_def intro!: bexI[of _ j])
  next
    case False
    with assms(4) have "m = (if info n \<noteq> None then Some i else m0)" by (auto simp: longest_def)
    with False assms(5) i show ?thesis by (auto simp: longest_def)
  qed
qed

lemma match_loop_ok:
  assumes "wft (nodes t) par b r tr" "pwf p"
  shows "\<exists>m. match_loop p t r m0 = Some (Inr m) \<and> longest (nodes t) (net p) (set_tree tr) m0 m"
  using assms(1)
proof (induction tr arbitrary: par b r m0)
  case Leaf
  then show ?case by (simp add: match_loop.simps[of p t None] walk_cond_def longest_def)
next
  case (Node lt i rt)
  let ?h = "nodes t" and ?k = "net p"
  obtain n where n: "?h i = Some n" "r = Some i" "pgood (rn_p n)"
    "wft ?h (Some i) (net (rn_p n) @ [False]) (l_left n) lt"
    "wft ?h (Some i) (net (rn_p n) @ [True]) (l_right n) rt" "key ?h i = net (rn_p n)"
    using walk_node[OF Node.prems] by metis
  note walk = walk_cond_ok[OF n(1,3) assms(2)]
  let ?m = "if info n \<noteq> None then Some i else m0"
  show ?case
  proof (cases "prefix (net (rn_p n)) ?k")
    case False
    have "\<not> prefix (key ?h j) ?k" if "j \<in> set_tree (Node lt i rt)" for j
    proof
      assume *: "prefix (key ?h j) ?k"
      have "prefix (net (rn_p n)) (key ?h j)"
        using that n wft_prefix[OF n(4)] wft_prefix[OF n(5)] by (auto dest: append_prefixD)
      with * False show False by (metis prefix_order.trans)
    qed
    then have "\<not> hit ?h ?k j" if "j \<in> set_tree (Node lt i rt)" for j using that hit_key by blast
    then show ?thesis
      using False walk n(2) by (simp add: match_loop.simps[of p t "Some i"] longest_def)
  next
    case pre: True
    show ?thesis
    proof (cases "net (rn_p n) = ?k")
      case True
      have "\<not> hit ?h ?k j" if "j \<in> set_tree lt \<union> set_tree rt" for j
        using that longer_below[OF n(4)] longer_below[OF n(5)] True
        by (metis UnE hit_key not_less prefix_length_le)
      then have "longest ?h ?k (insert i ({} \<union> (set_tree lt \<union> set_tree rt))) m0 ?m"
        using pre n by (intro longest_step[of _ i n]) (auto simp: longest_def)
      then show ?thesis using walk pre True same_length_net[OF pre] n(2)
        by (simp add: match_loop.simps[of p t "Some i"] Let_def)
    next
      case False
      have lt: "plen (rn_p n) < plen p" using shorter_net[OF pre False] .
      let ?x = "?k ! plen (rn_p n)"
      have side: "prefix (net (rn_p n) @ [?x]) ?k" using prefix_next_bit[OF pre] lt by simp
      have step: "match_loop p t r m0 = match_loop p t (if ?x then l_right n else l_left n) ?m"
        using walk pre False same_length_net[OF pre] n(2) next_link_ok[OF assms(2) lt]
        by (simp add: match_loop.simps[of p t "Some i"] Let_def)
      show ?thesis
      proof (cases ?x)
        case True
        obtain m where m: "match_loop p t (l_right n) ?m = Some (Inr m)"
          "longest ?h ?k (set_tree rt) ?m m" using Node.IH(2)[OF n(5)] by blast
        have "\<not> hit ?h ?k j" if "j \<in> set_tree lt" for j
          using prefix_of_side[OF n(4) side _ that] True hit_key by blast
        then have "longest ?h ?k (insert i (set_tree rt \<union> set_tree lt)) m0 m"
          using m(2) pre n longer_below[OF n(5)] by (intro longest_step[of _ i n]) auto
        then show ?thesis using m(1) step True by (simp add: Un_commute)
      next
        case False
        obtain m where m: "match_loop p t (l_left n) ?m = Some (Inr m)"
          "longest ?h ?k (set_tree lt) ?m m" using Node.IH(1)[OF n(4)] by blast
        have "\<not> hit ?h ?k j" if "j \<in> set_tree rt" for j
          using prefix_of_side[OF n(5) side _ that] False hit_key by blast
        then have "longest ?h ?k (insert i (set_tree lt \<union> set_tree rt)) m0 m"
          using m(2) pre n longer_below[OF n(4)] by (intro longest_step[of _ i n]) auto
        then show ?thesis using m(1) step False by (simp add: Un_commute)
      qed
    qed
  qed
qed

text \<open>A node is found by \<open>k\<close> when it carries information and its network is \<open>k\<close>.\<close>

definition found :: "'a heap \<Rightarrow> bool list \<Rightarrow> nat \<Rightarrow> bool" where
  "found h k i \<longleftrightarrow> (\<exists>n. h i = Some n \<and> info n \<noteq> None \<and> net (rn_p n) = k)"

lemma found_key: "found h k j \<Longrightarrow> key h j = k"
  by (auto simp: found_def key_def)

lemma lookup_loop_ok:
  assumes "wft (nodes t) par b r tr" "pwf p"
  shows "\<exists>m. node_lookup_loop p t r = Some (Inr m) \<and>
    (\<forall>j. m = Some j \<longleftrightarrow> j \<in> set_tree tr \<and> found (nodes t) (net p) j)"
  using assms(1)
proof (induction tr arbitrary: par b r)
  case Leaf
  then show ?case by (simp add: node_lookup_loop.simps[of p t None] walk_cond_def)
next
  case (Node lt i rt)
  let ?h = "nodes t" and ?k = "net p"
  obtain n where n: "?h i = Some n" "r = Some i" "pgood (rn_p n)"
    "wft ?h (Some i) (net (rn_p n) @ [False]) (l_left n) lt"
    "wft ?h (Some i) (net (rn_p n) @ [True]) (l_right n) rt" "key ?h i = net (rn_p n)"
    using walk_node[OF Node.prems] by metis
  note walk = walk_cond_ok[OF n(1,3) assms(2)]
  show ?case
  proof (cases "prefix (net (rn_p n)) ?k \<and> net (rn_p n) \<noteq> ?k")
    case False
    have "found ?h ?k j \<longleftrightarrow> j = i \<and> net (rn_p n) = ?k \<and> info n \<noteq> None" if "j \<in> set_tree (Node lt i rt)" for j
    proof (cases "j = i")
      case True
      then show ?thesis using n by (auto simp: found_def)
    next
      case jn: False
      then consider "j \<in> set_tree lt" | "j \<in> set_tree rt" using \<open>j \<in> set_tree (Node lt i rt)\<close> by auto
      then obtain x where x: "prefix (net (rn_p n) @ [x]) (key ?h j)"
        using wft_prefix[OF n(4)] wft_prefix[OF n(5)] by cases blast+
      have "key ?h j \<noteq> ?k"
      proof
        assume "key ?h j = ?k"
        with x have "prefix (net (rn_p n)) ?k" "length (net (rn_p n)) < length ?k"
          using prefix_length_le[OF x] by (auto dest: append_prefixD)
        with False show False by auto
      qed
      with jn show ?thesis using found_key by blast
    qed
    then have all: "j \<in> set_tree (Node lt i rt) \<and> found ?h ?k j \<longleftrightarrow>
        j = i \<and> net (rn_p n) = ?k \<and> info n \<noteq> None" for j
      by auto
    let ?m = "if net (rn_p n) = ?k \<and> info n \<noteq> None then Some i else None"
    have "node_lookup_loop p t r = Some (Inr ?m)"
    proof (cases "net (rn_p n) = ?k")
      case True
      then have "prefixlen (rn_p n) = prefixlen p" using same_length_net[of "rn_p n" p] by simp
      with True walk n(2) show ?thesis by (simp add: node_lookup_loop.simps[of p t "Some i"])
    next
      case ne: False
      with False walk n(2) show ?thesis by (simp add: node_lookup_loop.simps[of p t "Some i"])
    qed
    then show ?thesis unfolding all by auto
  next
    case True
    then have pre: "prefix (net (rn_p n)) ?k" and ne: "net (rn_p n) \<noteq> ?k" by auto
    have lt: "plen (rn_p n) < plen p" using shorter_net[OF pre ne] .
    let ?x = "?k ! plen (rn_p n)"
    have side: "prefix (net (rn_p n) @ [?x]) ?k" using prefix_next_bit[OF pre] lt by simp
    have step: "node_lookup_loop p t r = node_lookup_loop p t (if ?x then l_right n else l_left n)"
      using walk pre ne same_length_net[OF pre] n(2) next_link_ok[OF assms(2) lt]
      by (simp add: node_lookup_loop.simps[of p t "Some i"])
    have "\<not> found ?h ?k i" using ne n(6) found_key by metis
    moreover have "\<not> found ?h ?k j" if "j \<in> set_tree (if ?x then lt else rt)" for j
    proof -
      have "\<not> prefix (key ?h j) ?k"
        using prefix_of_side[OF n(4) side, of j] prefix_of_side[OF n(5) side, of j] that
        by (cases ?x) auto
      then show ?thesis using found_key[of ?h ?k j] by auto
    qed
    ultimately have other: "j \<in> set_tree (Node lt i rt) \<and> found ?h ?k j \<longleftrightarrow>
        j \<in> set_tree (if ?x then rt else lt) \<and> found ?h ?k j" for j
      by (cases ?x) auto
    show ?thesis unfolding step other
      using Node.IH(1)[OF n(4)] Node.IH(2)[OF n(5)] by (simp split: if_split)
  qed
qed

section \<open>Positions in a tree\<close>

text \<open>A context: the steps from the root to a position, with what lies beside the path.\<close>

datatype step = GoL nat "nat tree" | GoR "nat tree" nat

fun plug :: "step list \<Rightarrow> nat tree \<Rightarrow> nat tree" where
  "plug [] t = t"
| "plug (GoL i rt # c) t = Node (plug c t) i rt"
| "plug (GoR lt i # c) t = Node lt i (plug c t)"

text \<open>The nodes before and after the hole, in the order of the iteration.\<close>

fun pre :: "step list \<Rightarrow> nat list" where
  "pre [] = []"
| "pre (GoL i rt # c) = i # pre c"
| "pre (GoR lt i # c) = i # preorder lt @ pre c"

fun post :: "step list \<Rightarrow> nat list" where
  "post [] = []"
| "post (GoL i rt # c) = post c @ preorder rt"
| "post (GoR lt i # c) = post c"

fun spine :: "step list \<Rightarrow> nat list" where
  "spine [] = []"
| "spine (GoL i rt # c) = i # spine c"
| "spine (GoR lt i # c) = i # spine c"

lemma plug_append [simp]: "plug (c @ d) t = plug c (plug d t)"
  by (induction c t rule: plug.induct) auto

lemma pre_append [simp]: "pre (c @ d) = pre c @ pre d"
  by (induction c rule: pre.induct) auto

lemma post_append [simp]: "post (c @ d) = post d @ post c"
  by (induction c rule: post.induct) auto

lemma spine_append [simp]: "spine (c @ d) = spine c @ spine d"
  by (induction c rule: spine.induct) auto

lemma preorder_plug: "preorder (plug c t) = pre c @ preorder t @ post c"
  by (induction c t rule: plug.induct) auto

lemma spine_pre: "set (spine c) \<subseteq> set (pre c)"
  by (induction c rule: spine.induct) auto

lemma size_plug: "size (plug c t) + size t' = size (plug c t') + size t"
  by (induction c t rule: plug.induct) auto

text \<open>
  \<open>wfc h par b r c par' b' r'\<close>: the pointer \<open>r\<close> is the root of the context \<open>c\<close>, whose hole is
  the pointer \<open>r'\<close> below the node \<open>par'\<close>, for networks that extend \<open>b'\<close>.
\<close>

fun wfc :: "'a heap \<Rightarrow> ptr \<Rightarrow> bool list \<Rightarrow> ptr \<Rightarrow> step list \<Rightarrow> ptr \<Rightarrow> bool list \<Rightarrow> ptr \<Rightarrow> bool" where
  "wfc h par b r [] par' b' r' \<longleftrightarrow> par' = par \<and> b' = b \<and> r' = r"
| "wfc h par b r (GoL i rt # c) par' b' r' \<longleftrightarrow> r = Some i \<and>
     (case h i of
        None \<Rightarrow> False
      | Some n \<Rightarrow> rn_parent n = par \<and> pgood (rn_p n) \<and> prefix b (net (rn_p n)) \<and>
          wft h (Some i) (net (rn_p n) @ [True]) (l_right n) rt \<and>
          wfc h (Some i) (net (rn_p n) @ [False]) (l_left n) c par' b' r')"
| "wfc h par b r (GoR lt i # c) par' b' r' \<longleftrightarrow> r = Some i \<and>
     (case h i of
        None \<Rightarrow> False
      | Some n \<Rightarrow> rn_parent n = par \<and> pgood (rn_p n) \<and> prefix b (net (rn_p n)) \<and>
          wft h (Some i) (net (rn_p n) @ [False]) (l_left n) lt \<and>
          wfc h (Some i) (net (rn_p n) @ [True]) (l_right n) c par' b' r')"

lemma wft_plug:
  "wft h par b r (plug c t) \<longleftrightarrow> (\<exists>par' b' r'. wfc h par b r c par' b' r' \<and> wft h par' b' r' t)"
  by (induction c t arbitrary: par b r rule: plug.induct) (auto split: option.splits)

lemma wfc_append:
  "wfc h par b r (c @ d) par' b' r' \<longleftrightarrow>
   (\<exists>par1 b1 r1. wfc h par b r c par1 b1 r1 \<and> wfc h par1 b1 r1 d par' b' r')"
  by (induction h par b r c par' b' r' rule: wfc.induct) (auto split: option.splits)

lemma wfc_cong:
  "\<forall>j\<in>set (pre c @ post c). map_option shape (h' j) = map_option shape (h j) \<Longrightarrow>
   wfc h par b r c par' b' r' \<Longrightarrow> wfc h' par b r c par' b' r'"
proof (induction c arbitrary: par b r)
  case (Cons s c)
  have IH: "wfc h par b r c par' b' r' \<Longrightarrow> wfc h' par b r c par' b' r'" for par b r
    using Cons.IH Cons.prems(1) by (cases s) auto
  show ?case
  proof (cases s)
    case (GoL i rt)
    then have "map_option shape (h' i) = map_option shape (h i)"
      "\<And>par b r. wft h par b r rt \<Longrightarrow> wft h' par b r rt"
      using Cons.prems(1) by (auto intro: wft_cong)
    with GoL IH Cons.prems(2) show ?thesis by (auto simp: shape_eq split: option.splits)
  next
    case (GoR lt i)
    then have "map_option shape (h' i) = map_option shape (h i)"
      "\<And>par b r. wft h par b r lt \<Longrightarrow> wft h' par b r lt"
      using Cons.prems(1) by (auto intro: wft_cong)
    with GoR IH Cons.prems(2) show ?thesis by (auto simp: shape_eq split: option.splits)
  qed
qed simp

lemma wfc_prefix: "wfc h par b r c par' b' r' \<Longrightarrow> prefix b b'"
  by (induction h par b r c par' b' r' rule: wfc.induct)
    (auto split: option.splits dest: append_prefixD intro: prefix_order.trans)

text \<open>The hole of a context lies below the last node of its path.\<close>

lemma wfc_snoc:
  "wfc h par b r (c @ [GoL i rt]) par' b' r' \<longleftrightarrow>
     par' = Some i \<and> (\<exists>n parc bc. wfc h par b r c parc bc (Some i) \<and> h i = Some n \<and>
       rn_parent n = parc \<and> pgood (rn_p n) \<and> prefix bc (net (rn_p n)) \<and>
       wft h (Some i) (net (rn_p n) @ [True]) (l_right n) rt \<and>
       b' = net (rn_p n) @ [False] \<and> r' = l_left n)"
  "wfc h par b r (c @ [GoR lt i]) par' b' r' \<longleftrightarrow>
     par' = Some i \<and> (\<exists>n parc bc. wfc h par b r c parc bc (Some i) \<and> h i = Some n \<and>
       rn_parent n = parc \<and> pgood (rn_p n) \<and> prefix bc (net (rn_p n)) \<and>
       wft h (Some i) (net (rn_p n) @ [False]) (l_left n) lt \<and>
       b' = net (rn_p n) @ [True] \<and> r' = l_right n)"
  by (auto simp: wfc_append split: option.splits)

lemma wfc_par: "wfc h None [] r c par' b' r' \<Longrightarrow> par' = (if c = [] then None else Some (last (spine c)))"
  by (cases c rule: rev_cases; cases "last c") (auto simp: wfc_snoc)

section \<open>The common prefix\<close>

lemma common_bytes_ok:
  "len \<le> length np \<Longrightarrow> len \<le> length pp \<Longrightarrow> len \<le> length newp \<Longrightarrow> i \<le> len \<Longrightarrow>
   take i np = take i pp \<Longrightarrow> take i newp = take i np \<Longrightarrow>
   \<exists>k newp'. common_bytes np pp len newp i = Inr (k, newp') \<and> k \<le> len \<and> take k np = take k pp \<and>
     (k < len \<longrightarrow> np ! k \<noteq> pp ! k) \<and> length newp' = length newp \<and> take k newp' = take k np"
proof (induction np pp len newp i rule: common_bytes.induct)
  case (1 np pp len newp i)
  show ?case
  proof (cases "i < len \<and> np ! i = pp ! i")
    case True
    then have "common_bytes np pp len newp i = common_bytes np pp len (newp[i := np ! i]) (i + 1)"
      using "1.prems" by (simp add: common_bytes.simps[of np pp len newp i] mem_simps)
    moreover have "\<exists>k newp'. common_bytes np pp len (newp[i := np ! i]) (i + 1) = Inr (k, newp') \<and>
        k \<le> len \<and> take k np = take k pp \<and> (k < len \<longrightarrow> np ! k \<noteq> pp ! k) \<and>
        length newp' = length (newp[i := np ! i]) \<and> take k newp' = take k np"
      by (rule "1.IH"[of "np ! i" "pp ! i"]) (use True "1.prems" in \<open>auto simp: mem_simps take_Suc_conv_app_nth\<close>)
    ultimately show ?thesis by simp
  next
    case False
    with "1.prems" show ?thesis by (auto simp: common_bytes.simps[of np pp len newp i] mem_simps)
  qed
qed

lemma and_single_bit: "push_bit n 1 AND w = 0 \<longleftrightarrow> \<not> bit w n" for w :: u8
  by (metis and.commute bit_iff_and_push_bit_not_eq_0)

lemma common_bits_ok:
  "newlen = 8 * i + j \<Longrightarrow> j < 8 \<Longrightarrow> msk = push_bit (7 - j) 1 \<Longrightarrow> newlen \<le> len \<Longrightarrow>
   \<forall>l<j. \<not> bit diff (7 - l) \<Longrightarrow> (\<exists>l<8. bit diff (7 - l)) \<or> len < 8 * i + 8 \<Longrightarrow>
   \<exists>l<8. common_bits diff len msk newlen = 8 * i + l \<and> 8 * i + l \<le> len \<and>
     (\<forall>m<l. \<not> bit diff (7 - m)) \<and> (8 * i + l < len \<longrightarrow> bit diff (7 - l))"
proof (induction diff len msk newlen arbitrary: j rule: common_bits.induct)
  case (1 diff len msk newlen)
  have clear: "msk AND diff = 0 \<longleftrightarrow> \<not> bit diff (7 - j)" unfolding "1.prems"(3) by (rule and_single_bit)
  show ?case
  proof (cases "newlen < len \<and> \<not> bit diff (7 - j)")
    case True
    have upto: "\<forall>l<Suc j. \<not> bit diff (7 - l)" using True "1.prems"(5) by (auto simp: less_Suc_eq)
    have j: "Suc j < 8"
    proof (rule ccontr)
      assume "\<not> Suc j < 8"
      with "1.prems"(2) have j: "j = 7" by simp
      with upto have "\<not> (\<exists>l<8. bit diff (7 - l))" by auto
      with "1.prems"(6) have "len < 8 * i + 8" by blast
      with True "1.prems"(1) j show False by simp
    qed
    have "drop_bit 1 msk = push_bit (7 - Suc j) 1"
    proof (rule bit_word_eqI)
      fix n show "bit (drop_bit 1 msk) n = bit (push_bit (7 - Suc j) (1 :: u8)) n"
        unfolding "1.prems"(3) bit_drop_bit_eq comp_def bit_push_bit_iff using j by (auto simp: bit_1_iff)
    qed
    then have "\<exists>l<8. common_bits diff len (drop_bit 1 msk) (newlen + 1) = 8 * i + l \<and> 8 * i + l \<le> len \<and>
        (\<forall>m<l. \<not> bit diff (7 - m)) \<and> (8 * i + l < len \<longrightarrow> bit diff (7 - l))"
      using True clear "1.prems" j upto by (intro "1.IH"[where j = "Suc j"]) auto
    moreover have "common_bits diff len msk newlen = common_bits diff len (drop_bit 1 msk) (newlen + 1)"
      using True clear by (subst common_bits.simps) simp
    ultimately show ?thesis by simp
  next
    case False
    with clear "1.prems" show ?thesis by (subst common_bits.simps) (auto intro!: exI[of _ j])
  qed
qed

lemma unat_of_nat_u8: "m < 256 \<Longrightarrow> unat (of_nat m :: u8) = m"
  by (simp add: unat_of_nat)

lemma net_take: "k \<le> plen p \<Longrightarrow> take k (net p) = map (pbit (u p)) [0..<k]"
  by (simp add: net_def take_map)

lemma route_common_ok:
  assumes n: "pgood n" and p: "pwf p" "plen p \<le> 128" and new: "length (u new) = 16"
    and diff: "\<not> prefix (net n) (net p)"
  obtains q where "route_common n p new = Inr q" "length (u q) = 16" "prefix (net q) (net p)"
    "strict_prefix (net q) (net n)"
    "net q = net p \<or> plen q < plen p \<and> net n ! plen q \<noteq> net p ! plen q"
proof -
  let ?len = "plen p div 8"
  have len: "?len \<le> length (u n)" "?len \<le> length (u p)" "?len \<le> length (u new)"
    using pgoodD[OF n] p new by (auto simp: pwf_def)
  obtain k newp where k: "common_bytes (u n) (u p) ?len (u new) 0 = Inr (k, newp)" "k \<le> ?len"
    "take k (u n) = take k (u p)" "k < ?len \<longrightarrow> u n ! k \<noteq> u p ! k" "length newp = 16"
    "take k newp = take k (u n)"
    using common_bytes_ok[OF len, of 0] new by auto
  have same: "u n ! j = u p ! j" "newp ! j = u n ! j" if "j < k" for j
    using that k(3,6) by (metis nth_take)+
  obtain l q where q: "route_common n p new = Inr q" "plen q = 8 * k + l" "l < 8" "plen q \<le> plen p"
    "length (u q) = 16" "\<forall>i<plen q. pbit (u q) i = pbit (u n) i"
    "\<forall>i<plen q. pbit (u p) i = pbit (u n) i" "plen q < plen p \<longrightarrow> pbit (u p) (plen q) \<noteq> pbit (u n) (plen q)"
  proof (cases "k * 8 = plen p")
    case True
    then have "plen (new\<lparr>prefixlen := of_nat (k * 8), u := newp\<rparr>) = k * 8"
      using p(2) by (simp add: unat_of_nat)
    with True k same show thesis
      by (intro that[of "new\<lparr>prefixlen := of_nat (k * 8), u := newp\<rparr>" 0])
        (auto simp: route_common_def pbit_def)
  next
    case False
    with k(2) have lt: "8 * k < plen p" by simp
    with p pgoodD[OF n] have "k < length (u p)" "k < 16" "k < length (u n)" by (auto simp: pwf_def)
    let ?d = "u n ! k XOR u p ! k"
    let ?r = "common_bits ?d (plen p) 0x80 (k * 8)"
    have "\<exists>l<8. ?r = 8 * k + l \<and> 8 * k + l \<le> plen p \<and> (\<forall>m<l. \<not> bit ?d (7 - m)) \<and>
        (8 * k + l < plen p \<longrightarrow> bit ?d (7 - l))"
    proof (rule common_bits_ok[where j = 0])
      show "(\<exists>l<8. bit ?d (7 - l)) \<or> plen p < 8 * k + 8"
      proof (cases "k < ?len")
        case True
        then have "u n ! k \<noteq> u p ! k" using k(4) by simp
        then show ?thesis by (auto simp: byte_eq_bits bit_xor_iff)
      qed (use k(2) in auto)
    qed (use lt in auto)
    then obtain l where l: "l < 8" "?r = 8 * k + l" "8 * k + l \<le> plen p"
      "\<forall>m<l. \<not> bit ?d (7 - m)" "8 * k + l < plen p \<longrightarrow> bit ?d (7 - l)" by auto
    let ?q = "new\<lparr>prefixlen := of_nat ?r, u := newp[k := u n ! k AND maskbit ! (?r mod 8)]\<rparr>"
    have "plen ?q = ?r" using l(2,3) p(2) unat_of_nat_u8[of ?r] by simp
    with l(2) have "plen ?q = 8 * k + l" by simp
    moreover have "route_common n p new = Inr ?q"
      using False k(1,5) \<open>k < length (u p)\<close> \<open>k < 16\<close> \<open>k < length (u n)\<close>
      by (simp add: route_common_def mem_simps Let_def)
    moreover have "pbit (u ?q) i = pbit (u n) i \<and> pbit (u p) i = pbit (u n) i" if "i < 8 * k + l" for i
    proof (cases "i < 8 * k")
      case True
      then have "i div 8 < k" by auto
      with same show ?thesis by (simp add: pbit_def)
    next
      case False
      then obtain m where m: "i = 8 * k + m" using le_Suc_ex not_less by blast
      with that have "m < l" by simp
      with l m k(5) \<open>k < 16\<close> show ?thesis
        by (auto simp: pbit_byte bit_and_iff bit_maskbit bit_xor_iff)
    qed
    moreover have "pbit (u p) (8 * k + l) \<noteq> pbit (u n) (8 * k + l)" if "8 * k + l < plen p"
      using l that by (auto simp: pbit_byte bit_xor_iff)
    ultimately show thesis using l k(5) by (intro that[of ?q l]) auto
  qed
  have "prefix (net q) (net p)" using q by (simp add: net_prefix_iff)
  moreover have "plen q < plen n"
  proof (rule ccontr)
    assume "\<not> plen q < plen n"
    then have "prefix (net n) (net p)" using q by (auto simp: net_prefix_iff)
    with diff show False ..
  qed
  moreover from this have "strict_prefix (net q) (net n)"
    using q by (auto simp: strict_prefix_def net_prefix_iff dest: arg_cong[of _ _ length])
  moreover have "net q = net p \<or> plen q < plen p \<and> net n ! plen q \<noteq> net p ! plen q"
    using q \<open>plen q < plen n\<close> by (auto simp: list_eq_iff_nth_eq)
  ultimately show thesis using q p by (intro that[of q]) auto
qed

section \<open>Replacing a subtree\<close>

text \<open>The pointer to the hole of a context is a link of the last node of its path.\<close>

definition set_hole :: "step list \<Rightarrow> ptr \<Rightarrow> 'a heap \<Rightarrow> 'a heap" where
  "set_hole c q h =
     (if c = [] then h
      else case last c of
             GoL i rt \<Rightarrow> h(i := map_option (\<lambda>n. n\<lparr>l_left := q\<rparr>) (h i))
           | GoR lt i \<Rightarrow> h(i := map_option (\<lambda>n. n\<lparr>l_right := q\<rparr>) (h i)))"

lemma set_hole_other: "j \<notin> set (spine c) \<Longrightarrow> set_hole c q h j = h j"
  by (cases c rule: rev_cases; cases "last c") (auto simp: set_hole_def)

lemma wfc_replace:
  assumes "wfc h None [] r c par' b' r'" "distinct (pre c @ post c)"
  shows "wfc (set_hole c q h) None [] (if c = [] then q else r) c par' b' q"
proof (cases c rule: rev_cases)
  case Nil
  with assms show ?thesis by (simp add: set_hole_def)
next
  case (snoc d s)
  show ?thesis
  proof (cases s)
    case (GoL i rt)
    let ?h = "set_hole c q h"
    have i: "i \<notin> set (pre d @ post d)" "i \<notin> set_tree rt"
      using assms(2) snoc GoL by auto
    have eq: "?h = h(i := map_option (\<lambda>n. n\<lparr>l_left := q\<rparr>) (h i))"
      using snoc GoL by (simp add: set_hole_def)
    have "wfc h None [] r d parc bc rc \<Longrightarrow> wfc ?h None [] r d parc bc rc" for parc bc rc
      by (rule wfc_cong[rotated]) (use i eq in auto)
    moreover have "wft h par b r rt \<Longrightarrow> wft ?h par b r rt" for par b r
      by (rule wft_cong[rotated]) (use i eq in auto)
    ultimately show ?thesis using assms(1) snoc GoL eq by (auto simp: wfc_snoc) blast
  next
    case (GoR lt i)
    let ?h = "set_hole c q h"
    have i: "i \<notin> set (pre d @ post d)" "i \<notin> set_tree lt"
      using assms(2) snoc GoR by auto
    have eq: "?h = h(i := map_option (\<lambda>n. n\<lparr>l_right := q\<rparr>) (h i))"
      using snoc GoR by (simp add: set_hole_def)
    have "wfc h None [] r d parc bc rc \<Longrightarrow> wfc ?h None [] r d parc bc rc" for parc bc rc
      by (rule wfc_cong[rotated]) (use i eq in auto)
    moreover have "wft h par b r lt \<Longrightarrow> wft ?h par b r lt" for par b r
      by (rule wft_cong[rotated]) (use i eq in auto)
    ultimately show ?thesis using assms(1) snoc GoR eq by (auto simp: wfc_snoc) blast
  qed
qed

text \<open>A heap that agrees with the updated one on the context carries the new tree.\<close>

lemma wft_replace:
  assumes "wfc h None [] r c par' b' r'" "distinct (pre c @ post c)"
    and "\<forall>j\<in>set (pre c @ post c). map_option shape (h' j) = map_option shape (set_hole c q h j)"
    and "wft h' par' b' q tr"
  shows "wft h' None [] (if c = [] then q else r) (plug c tr)"
proof -
  have "wfc h' None [] (if c = [] then q else r) c par' b' q"
    by (rule wfc_cong[OF assms(3) wfc_replace[OF assms(1,2)]])
  with assms(4) show ?thesis unfolding wft_plug by blast
qed

lemma set_link_ok:
  assumes "nodes t new = Some n" "nodes t node = Some m" "node \<noteq> new" "pwf (rn_p n)"
    "plen (rn_p m) < plen (rn_p n)"
  shows "set_link node new t = Inr (t\<lparr>nodes := (nodes t)
    (node := Some (set_link_field (of_bool (net (rn_p n) ! plen (rn_p m))) (Some new) m),
     new := Some (n\<lparr>rn_parent := Some node\<rparr>))\<rparr>)"
  using assms by (simp add: set_link_def node_at_def set_node_def prefix_bit_ok pwf_def)

lemma prefix_snoc_nth: "prefix (a @ [x]) k \<Longrightarrow> length a < length k \<and> k ! length a = x"
  by (auto simp: prefix_def nth_append)

lemma attach_ok:
  assumes "wfc (nodes t) None [] (rt_top t) c par' b' r'" "nodes t i = Some nw"
    "i \<notin> set (pre c @ post c)" "pwf (rn_p nw)" "prefix b' (net (rn_p nw))"
    "c = [] \<longrightarrow> rn_parent nw = None"
  shows "attach par' i t = Inr (t\<lparr>rt_top := (if c = [] then Some i else rt_top t),
    nodes := (set_hole c (Some i) (nodes t))(i := Some (nw\<lparr>rn_parent := par'\<rparr>))\<rparr>)"
proof (cases c rule: rev_cases)
  case Nil
  with assms have "nw\<lparr>rn_parent := par'\<rparr> = nw" "par' = None" by auto
  with Nil assms(2) show ?thesis by (simp add: attach_def set_hole_def fun_upd_idem)
next
  case (snoc d s)
  show ?thesis
  proof (cases s)
    case (GoL j rt)
    with assms snoc obtain m where m: "par' = Some j" "nodes t j = Some m" "b' = net (rn_p m) @ [False]"
      by (auto simp: wfc_snoc)
    with assms(5) have bit: "plen (rn_p m) < plen (rn_p nw)" "\<not> net (rn_p nw) ! plen (rn_p m)"
      using prefix_snoc_nth[of "net (rn_p m)" False "net (rn_p nw)"] by auto
    have "j \<noteq> i" using assms(3) snoc GoL by auto
    with set_link_ok[OF assms(2) m(2) _ assms(4) bit(1)] bit(2) m snoc GoL show ?thesis
      by (simp add: attach_def set_hole_def set_link_field_def)
  next
    case (GoR lt j)
    with assms snoc obtain m where m: "par' = Some j" "nodes t j = Some m" "b' = net (rn_p m) @ [True]"
      by (auto simp: wfc_snoc)
    with assms(5) have bit: "plen (rn_p m) < plen (rn_p nw)" "net (rn_p nw) ! plen (rn_p m)"
      using prefix_snoc_nth[of "net (rn_p m)" True "net (rn_p nw)"] by auto
    have "j \<noteq> i" using assms(3) snoc GoR by auto
    with set_link_ok[OF assms(2) m(2) _ assms(4) bit(1)] bit(2) m snoc GoR show ?thesis
      by (simp add: attach_def set_hole_def set_link_field_def)
  qed
qed

text \<open>A subtree can be hung below another node that its networks extend.\<close>

lemma wft_reparent:
  assumes "wft h par b (Some i) (Node lt i rt)" "h i = Some n" "i \<notin> set_tree lt \<union> set_tree rt"
    "prefix b' (net (rn_p n))"
    "\<forall>j\<in>set_tree lt \<union> set_tree rt. map_option shape (h' j) = map_option shape (h j)"
    "h' i = Some n'" "rn_p n' = rn_p n" "rn_parent n' = par'" "l_left n' = l_left n" "l_right n' = l_right n"
  shows "wft h' par' b' (Some i) (Node lt i rt)"
proof -
  have "wft h p b r lt \<Longrightarrow> wft h' p b r lt" "wft h p b r rt \<Longrightarrow> wft h' p b r rt" for p b r
    using assms(5) by (auto intro: wft_cong)
  with assms show ?thesis by auto
qed

end
