(* ===== verification/Route_Table_Inv.thy ===== *)
theory Route_Table_Inv
  imports Route_Tree
begin

text \<open>
  The invariant \<open>tinv\<close> of route tables: the heap represents a tree, the node counter is right,
  and a node without references is an internal branching point.  Insertion of a leaf or of a
  branching point and the removal of a node are shown to replace one subtree and to keep the
  invariant.
\<close>

section \<open>The invariant\<close>

text \<open>A node without references is an internal branching point without information.\<close>

definition stub_ok :: "'a route_node \<Rightarrow> bool" where
  "stub_ok n \<longleftrightarrow> (lock n = 0 \<longrightarrow> info n = None \<and> l_left n \<noteq> None \<and> l_right n \<noteq> None)"

text \<open>\<open>tinv_but X\<close> exempts the nodes in \<open>X\<close> from that rule.\<close>

definition tinv_but :: "nat set \<Rightarrow> 'a route_table \<Rightarrow> nat tree \<Rightarrow> bool" where
  "tinv_but X t tr \<longleftrightarrow>
     wft (nodes t) None [] (rt_top t) tr \<and> distinct (preorder tr) \<and> dom (nodes t) = set_tree tr \<and>
     rt_count t = size tr mod 2 ^ 64 \<and> (\<forall>i\<in>dom (nodes t). i < fresh t) \<and>
     (\<forall>i n. nodes t i = Some n \<longrightarrow> lock n < 2 ^ 32 \<and> (i \<notin> X \<longrightarrow> stub_ok n))"

abbreviation tinv :: "'a route_table \<Rightarrow> nat tree \<Rightarrow> bool" where
  "tinv \<equiv> tinv_but {}"

definition room :: "'a route_table \<Rightarrow> bool" where
  "room t \<longleftrightarrow> (\<forall>i n. nodes t i = Some n \<longrightarrow> lock n < 2 ^ 32 - 1)"

lemma tinv_init: "tinv route_table_init Leaf"
  by (simp add: tinv_but_def route_table_init_def)

lemma tinv_butD:
  assumes "tinv_but X t tr"
  shows "wft (nodes t) None [] (rt_top t) tr" "distinct (preorder tr)" "dom (nodes t) = set_tree tr"
    "rt_count t = size tr mod 2 ^ 64" "i \<in> dom (nodes t) \<Longrightarrow> i < fresh t"
    "nodes t i = Some n \<Longrightarrow> lock n < 2 ^ 32 \<and> (i \<notin> X \<longrightarrow> stub_ok n)"
  using assms by (auto simp: tinv_but_def)

lemma prefix_copy_ok:
  assumes "pvalid p" "length (u d) = 16"
  obtains q where "prefix_copy d p = Inr q" "pgood q" "net q = net p" "prefixlen q = prefixlen p"
    "family q = family p"
proof -
  let ?n = "copy_len p"
  let ?q = "d\<lparr>family := family p, prefixlen := prefixlen p, u := take ?n (u p) @ drop ?n (u d)\<rparr>"
  have n: "?n \<le> 16" "?n \<le> length (u p)" "plen p \<le> 8 * ?n"
    using assms by (auto simp: pvalid_def copy_len_def)
  then have "copy_bytes ?n (d\<lparr>family := family p, prefixlen := prefixlen p\<rparr>) p = Inr ?q"
    using assms(2) by (simp add: copy_bytes_def mem_simps)
  then have "prefix_copy d p = Inr ?q"
    using assms(1) by (auto simp: prefix_copy_def copy_len_def pvalid_def Let_def)
  moreover have "pbit (take ?n (u p) @ drop ?n (u d)) i = pbit (u p) i" if "i < plen p" for i
  proof -
    have "i div 8 < ?n" using n(3) that by (intro less_mult_imp_div_less) simp
    with n(2) show ?thesis by (simp add: pbit_def nth_append)
  qed
  then have "net ?q = net p" by (simp add: net_def)
  moreover have "pvalid ?q" using n assms by (auto simp: pvalid_def copy_len_def)
  ultimately show thesis using n assms(2) by (intro that[of ?q]) (auto simp: pgood_def)
qed

lemma route_node_set_ok:
  assumes "pvalid p"
  obtains q where "pgood q" "net q = net p" "prefixlen q = prefixlen p"
    "route_node_set t p = Inr (fresh t, t\<lparr>nodes := (nodes t)(fresh t := Some (route_node_create\<lparr>rn_p := q\<rparr>)),
       fresh := fresh t + 1\<rparr>)"
proof -
  obtain q where "prefix_copy prefix_new p = Inr q" "pgood q" "net q = net p" "prefixlen q = prefixlen p"
    using prefix_copy_ok[OF assms, of prefix_new] by (auto simp: prefix_new_def)
  then show thesis
    by (intro that[of q]) (auto simp: route_node_set_def route_node_new_def node_at_def set_node_def
        route_node_create_def)
qed

section \<open>Adding a node\<close>

lemma get_loop_ok:
  assumes "wft (nodes t) par b r tr" "pwf p" "prefix b (net p)"
  shows "\<exists>c s par' b' r'. tr = plug c s \<and> wfc (nodes t) par b r c par' b' r' \<and>
    wft (nodes t) par' b' r' s \<and> prefix b' (net p) \<and>
    get_loop p t r par = Some (Inr
      (case s of Leaf \<Rightarrow> Inr (None, par')
       | Node lt i rt \<Rightarrow> if key (nodes t) i = net p then Inl i else Inr (Some i, par'))) \<and>
    (case s of Leaf \<Rightarrow> True | Node lt i rt \<Rightarrow> \<not> strict_prefix (key (nodes t) i) (net p))"
  using assms(1,3)
proof (induction tr arbitrary: par b r)
  case Leaf
  then show ?case
    by (intro exI[of _ "[]"] exI[of _ Leaf]) (simp add: get_loop.simps[of p t None] walk_cond_def)
next
  case (Node lt i rt)
  let ?h = "nodes t" and ?k = "net p"
  obtain n where n: "?h i = Some n" "r = Some i" "pgood (rn_p n)"
    "wft ?h (Some i) (net (rn_p n) @ [False]) (l_left n) lt"
    "wft ?h (Some i) (net (rn_p n) @ [True]) (l_right n) rt" "key ?h i = net (rn_p n)"
    "rn_parent n = par" "prefix b (net (rn_p n))"
    using walk_node[OF Node.prems(1)] by metis
  note walk = walk_cond_ok[OF n(1,3) assms(2)]
  show ?case
  proof (cases "strict_prefix (net (rn_p n)) ?k")
    case False
    then have "get_loop p t r par = Some (Inr (if net (rn_p n) = ?k then Inl i else Inr (Some i, par)))"
      using walk n(2) same_length_net[of "rn_p n" p]
      by (auto simp: get_loop.simps[of p t "Some i"] strict_prefix_def)
    with False Node.prems n(6) show ?thesis
      by (intro exI[of _ "[]"] exI[of _ "Node lt i rt"]) simp
  next
    case True
    then have pre: "prefix (net (rn_p n)) ?k" and ne: "net (rn_p n) \<noteq> ?k" by auto
    have lt: "plen (rn_p n) < plen p" using shorter_net[OF pre ne] .
    let ?x = "?k ! plen (rn_p n)"
    have side: "prefix (net (rn_p n) @ [?x]) ?k" using prefix_next_bit[OF pre] lt by simp
    have loop: "get_loop p t r par = get_loop p t (if ?x then l_right n else l_left n) (Some i)"
      using walk pre ne same_length_net[OF pre] n(2) next_link_ok[OF assms(2) lt]
      by (simp add: get_loop.simps[of p t "Some i"])
    show ?thesis
    proof (cases ?x)
      case True
      with side have side: "prefix (net (rn_p n) @ [True]) ?k" by simp
      have loop': "get_loop p t r par = get_loop p t (l_right n) (Some i)" using loop True by simp
      have wfc: "wfc ?h par b r (GoR lt i # c) par' b' r' \<longleftrightarrow>
          wfc ?h (Some i) (net (rn_p n) @ [True]) (l_right n) c par' b' r'" for c par' b' r'
        using n by simp
      obtain c s where "rt = plug c s" and cs: "\<exists>par' b' r'.
          wfc ?h (Some i) (net (rn_p n) @ [True]) (l_right n) c par' b' r' \<and> wft ?h par' b' r' s \<and>
          prefix b' ?k \<and> get_loop p t (l_right n) (Some i) = Some (Inr
            (case s of Leaf \<Rightarrow> Inr (None, par')
             | Node lt i rt \<Rightarrow> if key ?h i = ?k then Inl i else Inr (Some i, par'))) \<and>
          (case s of Leaf \<Rightarrow> True | Node lt i rt \<Rightarrow> \<not> strict_prefix (key ?h i) ?k)"
        using Node.IH(2)[OF n(5) side] by blast
      with wfc loop' show ?thesis by (intro exI[of _ "GoR lt i # c"] exI[of _ s]) auto
    next
      case False
      with side have side: "prefix (net (rn_p n) @ [False]) ?k" by simp
      have loop': "get_loop p t r par = get_loop p t (l_left n) (Some i)" using loop False by simp
      have wfc: "wfc ?h par b r (GoL i rt # c) par' b' r' \<longleftrightarrow>
          wfc ?h (Some i) (net (rn_p n) @ [False]) (l_left n) c par' b' r'" for c par' b' r'
        using n by simp
      obtain c s where "lt = plug c s" and cs: "\<exists>par' b' r'.
          wfc ?h (Some i) (net (rn_p n) @ [False]) (l_left n) c par' b' r' \<and> wft ?h par' b' r' s \<and>
          prefix b' ?k \<and> get_loop p t (l_left n) (Some i) = Some (Inr
            (case s of Leaf \<Rightarrow> Inr (None, par')
             | Node lt i rt \<Rightarrow> if key ?h i = ?k then Inl i else Inr (Some i, par'))) \<and>
          (case s of Leaf \<Rightarrow> True | Node lt i rt \<Rightarrow> \<not> strict_prefix (key ?h i) ?k)"
        using Node.IH(1)[OF n(4) side] by blast
      with wfc loop' show ?thesis by (intro exI[of _ "GoL i rt # c"] exI[of _ s]) auto
    qed
  qed
qed

text \<open>What adding nodes does to the nodes that are there.\<close>

definition grows :: "'a route_node \<Rightarrow> 'a route_node \<Rightarrow> bool" where
  "grows n n' \<longleftrightarrow> rn_p n' = rn_p n \<and> info n' = info n \<and> lock n' = lock n \<and>
     (l_left n \<noteq> None \<longrightarrow> l_left n' \<noteq> None) \<and> (l_right n \<noteq> None \<longrightarrow> l_right n' \<noteq> None)"

lemma grows_refl [simp]: "grows n n"
  by (simp add: grows_def)

lemma grows_stub: "grows n n' \<Longrightarrow> stub_ok n \<Longrightarrow> stub_ok n'"
  by (auto simp: grows_def stub_ok_def)

lemma grows_node:
  "grows n n' \<Longrightarrow> lock n < 2 ^ 32 \<and> stub_ok n \<Longrightarrow> lock n' < 2 ^ 32 \<and> (P \<longrightarrow> stub_ok n')"
  by (auto simp: grows_def stub_ok_def)

lemma set_hole_grows: "h j = Some n \<Longrightarrow> \<exists>n'. set_hole c (Some i) h j = Some n' \<and> grows n n'"
  by (cases c rule: rev_cases; cases "last c") (auto simp: set_hole_def grows_def)

lemma dom_set_hole: "dom (set_hole c q h) = dom h"
  by (cases c rule: rev_cases; cases "last c") (auto simp: set_hole_def)

lemma set_hole_cong: "h1 j = h j \<Longrightarrow> set_hole c q h1 j = set_hole c q h j"
  by (cases c rule: rev_cases; cases "last c") (auto simp: set_hole_def)

lemma set_tree_plug: "set_tree (plug c s) = set (pre c @ post c) \<union> set_tree s"
  by (induction c s rule: plug.induct) auto

text \<open>
  The result of adding: \<open>new\<close> is a fresh node for the network \<open>k\<close>, still without a reference,
  and at most one other fresh node has been made.
\<close>

definition added :: "'a route_table \<Rightarrow> bool list \<Rightarrow> nat \<Rightarrow> 'a route_table \<Rightarrow> bool" where
  "added t k new t' \<longleftrightarrow>
     (\<exists>tr'. tinv_but {new} (count_node t') tr') \<and> new \<notin> dom (nodes t) \<and>
     (\<exists>n. nodes t' new = Some n \<and> net (rn_p n) = k) \<and>
     (\<forall>j n. nodes t j = Some n \<longrightarrow> (\<exists>n'. nodes t' j = Some n' \<and> grows n n')) \<and>
     (\<forall>j n. nodes t' j = Some n \<and> j \<notin> dom (nodes t) \<longrightarrow> info n = None \<and> lock n = 0)"

lemma addedI:
  assumes tinv: "tinv t tr" and "wft (nodes t') None [] (rt_top t') tr'" "distinct (preorder tr')"
    "dom (nodes t') = set_tree tr'" "uadd 64 (rt_count t') 1 = size tr' mod 2 ^ 64"
    "\<forall>i\<in>dom (nodes t'). i < fresh t'"
    and new: "new \<notin> dom (nodes t)" "nodes t' new = Some n" "net (rn_p n) = k"
    and old: "\<And>j n. nodes t j = Some n \<Longrightarrow> \<exists>n'. nodes t' j = Some n' \<and> grows n n'"
    and fresh: "\<And>j n. nodes t' j = Some n \<Longrightarrow> j \<notin> dom (nodes t) \<Longrightarrow>
      info n = None \<and> lock n = 0 \<and> (j \<noteq> new \<longrightarrow> stub_ok n)"
  shows "added t k new t'"
proof -
  have "lock n < 2 ^ 32 \<and> (j \<notin> {new} \<longrightarrow> stub_ok n)" if n: "nodes t' j = Some n" for j n
  proof (cases "nodes t j")
    case None
    with fresh[OF n] show ?thesis by (simp add: domIff)
  next
    case (Some n0)
    with old[OF Some] n have "grows n0 n" by auto
    moreover have "lock n0 < 2 ^ 32 \<and> stub_ok n0" using tinv Some by (auto simp: tinv_but_def)
    ultimately show ?thesis by (rule grows_node)
  qed
  with assms(2-6) have "tinv_but {new} (count_node t') tr'"
    unfolding tinv_but_def count_node_def by simp
  with new old fresh show ?thesis unfolding added_def by blast
qed

lemma add_leaf:
  assumes tinv: "tinv t (plug c Leaf)" and wfc: "wfc (nodes t) None [] (rt_top t) c par' b' r'"
    and p: "pvalid p" "prefix b' (net p)"
  obtains new t' where "route_node_add t p None par' = Inr (new, t')" "added t (net p) new t'"
proof -
  let ?h = "nodes t" and ?f = "fresh t"
  have dom: "dom ?h = set (pre c @ post c)" and dist: "distinct (pre c @ post c)"
    and fresh: "\<forall>i\<in>dom ?h. i < ?f" and cnt: "rt_count t = size (plug c Leaf) mod 2 ^ 64"
    using tinv by (auto simp: tinv_but_def set_tree_plug preorder_plug)
  have f: "?f \<notin> set (pre c @ post c)" "?h ?f = None" using fresh dom by (auto simp: domIff)
  obtain q where q: "pgood q" "net q = net p" "route_node_set t p = Inr (?f,
      t\<lparr>nodes := ?h(?f := Some (route_node_create\<lparr>rn_p := q\<rparr>)), fresh := ?f + 1\<rparr>)"
    using route_node_set_ok[OF p(1), of t] by metis
  let ?n = "route_node_create\<lparr>rn_p := q\<rparr>"
  let ?t1 = "t\<lparr>nodes := ?h(?f := Some ?n), fresh := ?f + 1\<rparr>"
  have "wfc (?h(?f := Some ?n)) None [] (rt_top t) c par' b' r'"
    by (rule wfc_cong[OF _ wfc]) (use f in auto)
  then have wfc1: "wfc (nodes ?t1) None [] (rt_top ?t1) c par' b' r'" by simp
  let ?h' = "(set_hole c (Some ?f) (nodes ?t1))(?f := Some (?n\<lparr>rn_parent := par'\<rparr>))"
  let ?t2 = "?t1\<lparr>rt_top := (if c = [] then Some ?f else rt_top t), nodes := ?h'\<rparr>"
  have att: "attach par' ?f ?t1 = Inr ?t2"
    using attach_ok[OF wfc1, of ?f ?n] q p(2) f(1) wfc_par[OF wfc]
    by (simp add: pgood_pwf route_node_create_def)
  let ?tr = "plug c (Node Leaf ?f Leaf)"
  have dom': "dom ?h' = insert ?f (dom ?h)" by (auto simp: dom_set_hole)
  have "added t (net p) ?f ?t2"
  proof (rule addedI[OF tinv, where tr' = ?tr])
    have "wft ?h' None [] (if c = [] then Some ?f else rt_top t) ?tr"
    proof (rule wft_replace[OF _ dist])
      show "wfc (nodes ?t1) None [] (rt_top t) c par' b' r'" using wfc1 by simp
      show "wft ?h' par' b' (Some ?f) (Node Leaf ?f Leaf)"
        using q p(2) by (simp add: route_node_create_def)
    qed (use f in auto)
    then show "wft (nodes ?t2) None [] (rt_top ?t2) ?tr" by simp
    show "distinct (preorder ?tr)" using dist f(1) by (auto simp: preorder_plug)
    have "set_tree ?tr = insert ?f (dom ?h)" using dom by (auto simp: set_tree_plug)
    with dom' show "dom (nodes ?t2) = set_tree ?tr" by simp
    have "uadd 64 (rt_count t) 1 = size ?tr mod 2 ^ 64"
      unfolding cnt uadd_mod using size_plug[of c Leaf "Node Leaf ?f Leaf"] by simp
    then show "uadd 64 (rt_count ?t2) 1 = size ?tr mod 2 ^ 64" by simp
    have "\<forall>i\<in>dom ?h'. i < ?f + 1" unfolding dom' using fresh by (simp add: less_SucI)
    then show "\<forall>i\<in>dom (nodes ?t2). i < fresh ?t2" by simp
    show "nodes ?t2 ?f = Some (?n\<lparr>rn_parent := par'\<rparr>)" by simp
    show "\<exists>n'. nodes ?t2 j = Some n' \<and> grows n n'" if "?h j = Some n" for j n
    proof -
      have "j \<noteq> ?f" using that f(2) by auto
      then show ?thesis using set_hole_grows[of "nodes ?t1" j n c ?f] that by simp
    qed
    show "info n = None \<and> lock n = 0 \<and> (j \<noteq> ?f \<longrightarrow> stub_ok n)"
      if n: "nodes ?t2 j = Some n" "j \<notin> dom ?h" for j n
    proof -
      have "?h' j = Some n" using n(1) by simp
      then have "j \<in> dom ?h'" by blast
      with dom' n(2) have "j = ?f" by blast
      with n show ?thesis by (auto simp: route_node_create_def)
    qed
  qed (use f q(2) in auto)
  moreover have "route_node_add t p None par' = Inr (?f, ?t2)"
    by (simp only: route_node_add_def option.case q(3) bindR_simps prod.case att)
  ultimately show thesis using that by blast
qed

text \<open>The pointer updates that put a new node \<open>f\<close> between a context and the subtree at its hole.\<close>

lemma between_wft:
  assumes wfc: "wfc h None [] r c par' b' (Some k)" and dist: "distinct (pre c @ preorder s @ post c)"
    and s: "s = Node lt k rt" "wft h par' b' (Some k) s" "h k = Some n"
    and f: "f \<notin> set (pre c @ preorder s @ post c)" and q: "pgood q" "prefix b' (net q)"
    and h': "\<forall>j\<in>set (pre c @ post c). map_option shape (h' j) = map_option shape (set_hole c (Some f) h j)"
      "\<forall>j\<in>set_tree lt \<union> set_tree rt. h' j = h j" "h' k = Some (n\<lparr>rn_parent := Some f\<rparr>)"
      "h' f = Some m" "rn_p m = q" "rn_parent m = par'"
    and side: "prefix (net q @ [x]) (net (rn_p n))"
      "if x then l_right m = Some k else l_left m = Some k"
      "wft h' (Some f) (net q @ [\<not> x]) (if x then l_left m else l_right m) ot"
  shows "wft h' None [] (if c = [] then Some f else r) (plug c (if x then Node ot f s else Node s f ot))"
proof -
  have "wft h' (Some f) (net q @ [x]) (Some k) (Node lt k rt)"
    by (rule wft_reparent[where h = h and n = n and par = par' and b = b'
          and n' = "n\<lparr>rn_parent := Some f\<rparr>"]) (use s dist side(1) h'(2,3) in auto)
  then have new: "wft h' par' b' (Some f) (if x then Node ot f s else Node s f ot)"
    using side(2,3) h'(4,5,6) q s(1) by (cases x) auto
  show ?thesis
    by (rule wft_replace[OF wfc _ h'(1) new]) (use dist in auto)
qed

text \<open>The heap after the new node \<open>f\<close> has been put between the hole and the node \<open>k\<close>.\<close>

definition split_at :: "step list \<Rightarrow> nat \<Rightarrow> nat \<Rightarrow> 'a route_node \<Rightarrow> 'a route_node \<Rightarrow> 'a heap \<Rightarrow> 'a heap" where
  "split_at c f k n m h = (set_hole c (Some f) (h(k := Some (n\<lparr>rn_parent := Some f\<rparr>))))(f := Some m)"

lemma split_at_context:
  "j \<in> set (pre c @ post c) \<Longrightarrow> k \<notin> set (pre c @ post c) \<Longrightarrow> j \<noteq> f \<Longrightarrow>
   split_at c f k n m h j = set_hole c (Some f) h j"
  by (cases c rule: rev_cases; cases "last c") (auto simp: split_at_def set_hole_def)

lemma split_at_below:
  assumes "j \<notin> set (pre c @ post c)" "j \<noteq> f"
  shows "split_at c f k n m h j = (h(k := Some (n\<lparr>rn_parent := Some f\<rparr>))) j"
proof -
  have "j \<notin> set (spine c)" using assms(1) spine_pre[of c] by auto
  then show ?thesis using assms(2) by (simp add: split_at_def set_hole_other)
qed

lemma split_at_grows:
  assumes "h j = Some m'" "h k = Some n" "j \<noteq> f" "k \<notin> set (pre c @ post c)"
  shows "\<exists>n'. split_at c f k n m h j = Some n' \<and> grows m' n'"
proof (cases "j \<in> set (pre c @ post c)")
  case True
  then show ?thesis using set_hole_grows[of h j m' c f] split_at_context[of j c k f n m h] assms by simp
next
  case False
  then show ?thesis using assms by (auto simp: split_at_below grows_def)
qed

lemma dom_split_at: "dom (split_at c f k n m h) = insert f (insert k (dom h))"
  by (auto simp: split_at_def dom_set_hole)

text \<open>
  The branching point: the common part of the network of the node and of the new one, which
  lies below the hole and continues with different bits.
\<close>

lemma branch_prefix:
  assumes n: "pgood n" "prefix b' (net n)" and p: "pvalid p" "prefix b' (net p)" and diff: "\<not> prefix (net n) (net p)"
  obtains q0 q where "route_common n p prefix_new = Inr q0" "q = q0\<lparr>family := family p\<rparr>" "pgood q"
    "prefix b' (net q)" "prefix (net q) (net p)" "plen q < plen n" "prefix (net q @ [net n ! plen q]) (net n)"
    "prefixlen q = prefixlen p \<longrightarrow> net q = net p"
    "prefixlen q \<noteq> prefixlen p \<longrightarrow> prefix (net q @ [\<not> net n ! plen q]) (net p)"
proof -
  obtain q0 where q0: "route_common n p prefix_new = Inr q0" "length (u q0) = 16" "prefix (net q0) (net p)"
    "strict_prefix (net q0) (net n)" "net q0 = net p \<or> plen q0 < plen p \<and> net n ! plen q0 \<noteq> net p ! plen q0"
    using route_common_ok[OF n(1) pvalid_pwf[OF p(1)] _ diff, of prefix_new] by (auto simp: prefix_new_def)
  let ?q = "q0\<lparr>family := family p\<rparr>"
  have net: "net ?q = net q0" by (simp add: net_def)
  have len: "plen q0 \<le> plen p" "plen q0 < plen n"
    using prefix_length_le[OF q0(3)] prefix_length_less[OF q0(4)] by simp_all
  have "copy_len ?q = copy_len p" "copy_len p \<le> 16" by (simp_all add: copy_len_def)
  then have good: "pgood ?q" using p(1) len(1) q0(2) by (simp add: pvalid_def pgood_def)
  have next_n: "prefix (net q0 @ [net n ! plen q0]) (net n)"
    using prefix_next_bit[of "net q0" "net n"] q0(4) len(2) by (simp add: strict_prefix_def)
  have next_p: "prefix (net q0 @ [\<not> net n ! plen q0]) (net p)" if "net q0 \<noteq> net p"
  proof -
    from that q0(5) have "plen q0 < plen p" "net p ! plen q0 = (\<not> net n ! plen q0)" by auto
    with prefix_next_bit[OF q0(3)] show ?thesis by simp
  qed
  have "prefix b' (net q0)"
  proof (rule ccontr)
    assume no: "\<not> prefix b' (net q0)"
    then have "net q0 \<noteq> net p" and "strict_prefix (net q0) b'"
      using prefix_same_cases[OF p(2) q0(3)] p(2) by (auto simp: strict_prefix_def)
    then have short: "plen q0 < length b'" using prefix_length_less by fastforce
    then have "net n ! plen q0 = net p ! plen q0"
      using n(2) p(2) by (auto simp: prefix_def nth_append simp del: net_nth)
    with q0(5) \<open>net q0 \<noteq> net p\<close> show False by blast
  qed
  moreover have "prefixlen q0 = prefixlen p \<longleftrightarrow> net q0 = net p" by (rule same_length_net[OF q0(3)])
  ultimately show thesis
    using q0(1,3) good len(2) next_n next_p by (intro that[of q0 ?q]) (simp_all add: net)
qed

text \<open>
  The split keeps the table well formed when the other side \<open>ot\<close> of the branching point is
  empty or a new node, whose memory is \<open>ext\<close>.
\<close>

lemma split_added:
  assumes tinv: "tinv t (plug c s)" and s: "s = Node lt k rt" "nodes t k = Some n"
    and wfc: "wfc (nodes t) None [] (rt_top t) c par' b' (Some k)" and wft: "wft (nodes t) par' b' (Some k) s"
    and f: "f \<notin> dom (nodes t)" and m: "rn_p m = q" "rn_parent m = par'" "info m = None \<and> lock m = 0"
    and q: "pgood q" "prefix b' (net q)" "prefix (net q @ [x]) (net (rn_p n))"
      "if x then l_right m = Some k else l_left m = Some k"
    and ot: "dom ext = set_tree ot" "distinct (preorder ot)" "set_tree ot \<inter> insert f (dom (nodes t)) = {}"
      "wft (nodes t') (Some f) (net q @ [\<not> x]) (if x then l_left m else l_right m) ot"
    and t': "nodes t' = split_at c f k n m (nodes t) ++ ext" "rt_top t' = (if c = [] then Some f else rt_top t)"
      "uadd 64 (rt_count t') 1 = (size (plug c s) + 1 + size ot) mod 2 ^ 64"
      "\<forall>j\<in>insert f (dom ext). j < fresh t'" "fresh t \<le> fresh t'"
    and new: "new \<in> insert f (dom ext)" "nodes t' new = Some nn" "net (rn_p nn) = k'"
    and stub: "f \<noteq> new \<longrightarrow> stub_ok m"
      "\<And>j n. ext j = Some n \<Longrightarrow> info n = None \<and> lock n = 0 \<and> (j \<noteq> new \<longrightarrow> stub_ok n)"
  shows "added t k' new t'"
proof (rule addedI[OF tinv])
  let ?tr = "plug c (if x then Node ot f s else Node s f ot)"
  let ?h' = "split_at c f k n m (nodes t)"
  note inv = tinv_butD[OF tinv]
  have dom: "dom (nodes t) = set (pre c @ preorder s @ post c)" and dist: "distinct (pre c @ preorder s @ post c)"
    using inv(2,3) by (auto simp: set_tree_plug preorder_plug)
  have k: "k \<notin> set (pre c @ post c)" "k \<in> dom (nodes t)" using dist s by auto
  have h': "nodes t' j = ?h' j" if "j \<notin> set_tree ot" for j
    using that ot(1) by (simp add: t'(1) map_add_dom_app_simps(3))
  have old: "j \<noteq> f" "nodes t' j = ?h' j" if "j \<in> dom (nodes t)" for j using that f ot(3) h' by auto
  have ctx: "\<forall>j\<in>set (pre c @ post c). map_option shape (nodes t' j) = map_option shape (set_hole c (Some f) (nodes t) j)"
  proof
    fix j assume j: "j \<in> set (pre c @ post c)"
    with dom have "j \<in> dom (nodes t)" by auto
    with old[of j] split_at_context[OF j k(1), of f n m "nodes t"]
    show "map_option shape (nodes t' j) = map_option shape (set_hole c (Some f) (nodes t) j)" by simp
  qed
  have sub: "nodes t' j = ((nodes t)(k := Some (n\<lparr>rn_parent := Some f\<rparr>))) j" if "j \<in> set_tree s" for j
  proof -
    have "j \<notin> set (pre c @ post c)" "j \<in> dom (nodes t)" using that dist dom by auto
    with old[of j] show ?thesis by (simp add: split_at_below)
  qed
  have node: "nodes t' f = Some m" using h'[of f] ot(3) by (simp add: split_at_def)
  show "wft (nodes t') None [] (rt_top t') ?tr"
    unfolding t'(2)
  proof (rule between_wft[OF wfc dist s(1) wft s(2) _ q(1,2) ctx _ _ node m(1,2) q(3,4) ot(4)])
    show "\<forall>j\<in>set_tree lt \<union> set_tree rt. nodes t' j = nodes t j"
    proof
      fix j assume j: "j \<in> set_tree lt \<union> set_tree rt"
      with dist s(1) have "j \<noteq> k" "j \<in> set_tree s" by auto
      with sub[of j] show "nodes t' j = nodes t j" by simp
    qed
    show "nodes t' k = Some (n\<lparr>rn_parent := Some f\<rparr>)" using sub[of k] s(1) by simp
    show "f \<notin> set (pre c @ preorder s @ post c)" using f dom by simp
  qed
  have apart: "f \<notin> set (pre c @ preorder s @ post c)" "f \<notin> set_tree ot"
    "set (pre c @ preorder s @ post c) \<inter> set_tree ot = {}" using f ot(3) unfolding dom by blast+
  show "distinct (preorder ?tr)" using dist ot(2) apart by (cases x) (auto simp: preorder_plug)
  show dom': "dom (nodes t') = set_tree ?tr"
    using k(2) unfolding t'(1) dom_map_add dom_split_at ot(1) insert_absorb[OF k(2)] dom
    by (cases x) (auto simp: set_tree_plug)
  show "uadd 64 (rt_count t') 1 = size ?tr mod 2 ^ 64"
    unfolding t'(3) using size_plug[of c s "if x then Node ot f s else Node s f ot"] by (cases x) (auto simp: add.commute)
  have domt': "dom (nodes t') = insert f (dom ext) \<union> dom (nodes t)" using k(2) by (auto simp: t'(1) dom_split_at)
  show "\<forall>i\<in>dom (nodes t'). i < fresh t'" unfolding domt' using t'(4,5) inv(5) by (auto intro: less_le_trans)
  show "new \<notin> dom (nodes t)" using new(1) f ot(1,3) by auto
  show "\<exists>n'. nodes t' j = Some n' \<and> grows n0 n'" if j: "nodes t j = Some n0" for j n0
    using split_at_grows[of "nodes t" j n0 k n f c m] j s(2) k(1) old[OF domI[of "nodes t" j n0, OF j]] by simp
  show "info n0 = None \<and> lock n0 = 0 \<and> (j \<noteq> new \<longrightarrow> stub_ok n0)" if n0: "nodes t' j = Some n0" "j \<notin> dom (nodes t)" for j n0
  proof (cases "j = f")
    case True
    with n0 node m(3) stub(1) show ?thesis by auto
  next
    case False
    with n0 domt' have "j \<in> dom ext" by blast
    with n0(1) have "ext j = Some n0" by (auto simp: t'(1))
    then show ?thesis by (rule stub(2))
  qed
qed (use new in auto)

text \<open>The node that \<open>route_node_get\<close> makes for the branching point, and the table with it.\<close>

definition branch_node :: "prefix \<Rightarrow> bool \<Rightarrow> nat \<Rightarrow> ptr \<Rightarrow> 'a route_node" where
  "branch_node q x k par = (set_link_field (of_bool x) (Some k) (route_node_create\<lparr>rn_p := q\<rparr>))\<lparr>rn_parent := par\<rparr>"

definition branched :: "step list \<Rightarrow> nat \<Rightarrow> 'a route_node \<Rightarrow> 'a route_node \<Rightarrow> 'a route_table \<Rightarrow> 'a route_table" where
  "branched c k n m t = t\<lparr>rt_top := (if c = [] then Some (fresh t) else rt_top t),
     nodes := split_at c (fresh t) k n m (nodes t), fresh := fresh t + 1\<rparr>"

lemma branch_node_simps [simp]:
  "rn_p (branch_node q x k par) = q" "rn_parent (branch_node q x k par) = par"
  "info (branch_node q x k par) = None" "lock (branch_node q x k par) = 0"
  "l_left (branch_node q x k par) = (if x then None else Some k)"
  "l_right (branch_node q x k par) = (if x then Some k else None)"
  by (auto simp: branch_node_def set_link_field_def route_node_create_def)

lemma branch_steps:
  fixes t :: "'a route_table"
  assumes wfc: "wfc (nodes t) None [] (rt_top t) c par' b' r'" and k: "nodes t k = Some n" "pwf (rn_p n)" "k \<notin> set (pre c @ post c)"
    and f: "fresh t \<notin> dom (nodes t) \<union> set (pre c @ post c)"
    and q: "route_common (rn_p n) p prefix_new = Inr q0" "q = q0\<lparr>family := family p\<rparr>" "pgood q" "prefix b' (net q)"
      "plen q < plen (rn_p n)" "x = net (rn_p n) ! plen q"
  defines "t2 \<equiv> branched c k n (branch_node q x k par') t"
  shows "route_node_add t p (Some k) par' =
    (if prefixlen q \<noteq> prefixlen p then
       bindR (route_node_set t2 p) (\<lambda>(new', t). bindR (set_link (fresh t2 - 1) new' t) (\<lambda>t. Inr (new', count_node t)))
     else Inr (fresh t, t2))"
proof -
  let ?h = "nodes t" and ?f = "fresh t"
  let ?m0 = "(route_node_create :: 'a route_node)\<lparr>rn_p := q\<rparr>"
  let ?m1 = "set_link_field (of_bool x) (Some k) ?m0"
  let ?h1 = "?h(?f := Some ?m1, k := Some (n\<lparr>rn_parent := Some ?f\<rparr>))"
  have kf: "k \<noteq> ?f" using k(1) f by auto
  have m1: "rn_p ?m1 = q" "rn_parent ?m1 = None" by (simp_all add: set_link_field_def route_node_create_def)
  have set: "set_node ?f (\<lambda>m. m\<lparr>rn_p := q\<rparr>) (t\<lparr>nodes := ?h(?f := Some route_node_create), fresh := ?f + 1\<rparr>) =
      Inr (t\<lparr>nodes := ?h(?f := Some ?m0), fresh := ?f + 1\<rparr>)"
    by (simp add: set_node_def node_at_def)
  have link: "set_link ?f k (t\<lparr>nodes := ?h(?f := Some ?m0), fresh := ?f + 1\<rparr>) = Inr (t\<lparr>nodes := ?h1, fresh := ?f + 1\<rparr>)"
    using set_link_ok[of "t\<lparr>nodes := ?h(?f := Some ?m0), fresh := ?f + 1\<rparr>" k n ?f ?m0] k kf q by simp
  have "wfc ?h1 None [] (rt_top t) c par' b' r'"
    by (rule wfc_cong[OF _ wfc]) (use f k in auto)
  moreover have "(set_hole c (Some ?f) ?h1)(?f := Some (?m1\<lparr>rn_parent := par'\<rparr>)) = nodes t2"
  proof
    fix j show "((set_hole c (Some ?f) ?h1)(?f := Some (?m1\<lparr>rn_parent := par'\<rparr>))) j = nodes t2 j"
      using set_hole_cong[of ?h1 j "?h(k := Some (n\<lparr>rn_parent := Some ?f\<rparr>))"] kf
      by (simp add: t2_def branched_def split_at_def branch_node_def)
  qed
  ultimately have att: "attach par' ?f (t\<lparr>nodes := ?h1, fresh := ?f + 1\<rparr>) = Inr t2"
    using attach_ok[of "t\<lparr>nodes := ?h1, fresh := ?f + 1\<rparr>" c par' b' r' ?f ?m1] f kf m1 q(3,4) pgood_pwf[of q]
    by (simp add: t2_def branched_def)
  show ?thesis
    unfolding route_node_add_def route_node_new_def Let_def
    using k(1) kf q(1,2) set link att
    by (simp add: node_at_def) (simp add: route_node_create_def t2_def branched_def)
qed

lemma add_split:
  assumes tinv: "tinv t (plug c s)" and s: "s = Node lt k rt"
    and wfc: "wfc (nodes t) None [] (rt_top t) c par' b' r'" and wft: "wft (nodes t) par' b' r' s"
    and p: "pvalid p" "prefix b' (net p)" and diff: "\<not> prefix (key (nodes t) k) (net p)"
  obtains new t' where "route_node_add t p (Some k) par' = Inr (new, t')" "added t (net p) new t'"
proof -
  let ?f = "fresh t"
  note inv = tinv_butD[OF tinv]
  obtain n where n: "nodes t k = Some n" "r' = Some k" "pgood (rn_p n)" "prefix b' (net (rn_p n))"
    "key (nodes t) k = net (rn_p n)"
    using walk_node[OF wft[unfolded s]] by metis
  obtain q0 q where q: "route_common (rn_p n) p prefix_new = Inr q0" "q = q0\<lparr>family := family p\<rparr>" "pgood q"
    "prefix b' (net q)" "prefix (net q) (net p)" "plen q < plen (rn_p n)"
    "prefix (net q @ [net (rn_p n) ! plen q]) (net (rn_p n))" "prefixlen q = prefixlen p \<longrightarrow> net q = net p"
    "prefixlen q \<noteq> prefixlen p \<longrightarrow> prefix (net q @ [\<not> net (rn_p n) ! plen q]) (net p)"
    using branch_prefix[OF n(3,4) p] diff n(5) by metis
  define x where "x = net (rn_p n) ! plen q"
  define m where "m = (branch_node q x k par' :: 'a route_node)"
  define t2 where "t2 = branched c k n m t"
  have f: "?f \<notin> dom (nodes t)" "?f + 1 \<notin> dom (nodes t)" using inv(5)[of ?f] inv(5)[of "?f + 1"] by auto
  have k: "k \<notin> set (pre c @ post c)" "?f \<notin> dom (nodes t) \<union> set (pre c @ post c)"
    using inv(2,3) s f(1) by (auto simp: preorder_plug set_tree_plug)
  have start: "route_node_add t p (Some k) par' = (if prefixlen q \<noteq> prefixlen p then
       bindR (route_node_set t2 p) (\<lambda>(new', t). bindR (set_link ?f new' t) (\<lambda>t. Inr (new', count_node t)))
     else Inr (?f, t2))"
    using branch_steps[OF wfc n(1) pgoodD(3)[OF n(3)] k q(1-4,6) x_def]
    by (simp add: t2_def m_def branched_def)
  have count: "uadd 64 (rt_count t) 1 = (size (plug c s) + 1) mod 2 ^ 64" "uadd 64 (uadd 64 (rt_count t) 1) 1 = (size (plug c s) + 2) mod 2 ^ 64"
    unfolding inv(4) uadd_mod by simp_all
  note split = split_added[OF tinv s n(1) wfc[unfolded n(2)] wft[unfolded n(2)] f(1) _ _ _ q(3,4) q(7)[folded x_def]]
  show thesis
  proof (cases "prefixlen q = prefixlen p")
    case True
    have "added t (net p) ?f t2"
      by (rule split[where m = m and ot = Leaf and ext = Map.empty])
        (use True q(8) count in \<open>auto simp: m_def t2_def branched_def split_at_def\<close>)
    then show thesis using that start True by simp
  next
    case False
    obtain qp where qp: "pgood qp" "net qp = net p" "prefixlen qp = prefixlen p"
      "route_node_set t2 p = Inr (fresh t2, t2\<lparr>nodes := (nodes t2)(fresh t2 := Some (route_node_create\<lparr>rn_p := qp\<rparr>)),
         fresh := fresh t2 + 1\<rparr>)"
      using route_node_set_ok[OF p(1), of t2] by metis
    let ?g = "?f + 1"
    let ?gn = "(route_node_create :: 'a route_node)\<lparr>rn_p := qp\<rparr>"
    define m3 where "m3 = set_link_field (of_bool (\<not> x)) (Some ?g) m"
    define t3 where "t3 = t2\<lparr>nodes := split_at c ?f k n m3 (nodes t) ++ [?g \<mapsto> ?gn\<lparr>rn_parent := Some ?f\<rparr>], fresh := ?g + 1\<rparr>"
    have bit: "plen q < plen p" "net p ! plen q = (\<not> x)"
      using False q(9) prefix_snoc_nth[of "net q" "\<not> x" "net p"] by (auto simp: x_def)
    have "set_link ?f ?g (t2\<lparr>nodes := (nodes t2)(?g := Some ?gn), fresh := ?g + 1\<rparr>) = Inr t3"
      using set_link_ok[of "t2\<lparr>nodes := (nodes t2)(?g := Some ?gn), fresh := ?g + 1\<rparr>" ?g ?gn ?f m] qp bit pgood_pwf[OF qp(1)]
      by (simp add: t3_def t2_def m3_def m_def branched_def split_at_def fun_upd_twist)
    then have res: "route_node_add t p (Some k) par' = Inr (?g, count_node t3)"
      using start False qp(4) by (simp add: t2_def branched_def)
    have node: "nodes t3 ?g = Some (?gn\<lparr>rn_parent := Some ?f\<rparr>)" by (simp add: t3_def)
    have m3: "rn_p m3 = q" "rn_parent m3 = par'" "info m3 = None \<and> lock m3 = 0" "stub_ok m3"
      "if x then l_right m3 = Some k else l_left m3 = Some k" "(if x then l_left m3 else l_right m3) = Some ?g"
      by (auto simp: m3_def m_def set_link_field_def stub_ok_def)
    have "added t (net p) ?g (count_node t3)"
    proof (rule split[where m = m3 and ot = "Node Leaf ?g Leaf" and ext = "[?g \<mapsto> ?gn\<lparr>rn_parent := Some ?f\<rparr>]"])
      show "wft (nodes (count_node t3)) (Some ?f) (net q @ [\<not> x]) (if x then l_left m3 else l_right m3) (Node Leaf ?g Leaf)"
        using m3(6) node qp(1,2) q(9) False by (simp add: count_node_def x_def route_node_create_def)
      show "uadd 64 (rt_count (count_node t3)) 1 = (size (plug c s) + 1 + size (Node Leaf ?g Leaf)) mod 2 ^ 64"
        using count(2) by (simp add: count_node_def t3_def t2_def branched_def)
    qed (use m3 f qp(2) node in \<open>auto simp: count_node_def t3_def t2_def branched_def route_node_create_def split: if_splits\<close>)
    with res show thesis by (rule that)
  qed
qed

text \<open>Changing the counter or the information of a node.\<close>

lemma tinv_upd:
  assumes "tinv_but X t tr" "nodes t i = Some n" "shape n' = shape n" "lock n' < 2 ^ 32" "stub_ok n'"
  shows "tinv_but (X - {i}) (t\<lparr>nodes := (nodes t)(i := Some n')\<rparr>) tr"
proof -
  let ?h = "(nodes t)(i := Some n')"
  have "wft ?h None [] (rt_top t) tr"
    by (rule wft_cong[where h = "nodes t"]) (use assms in \<open>auto simp: tinv_but_def\<close>)
  moreover have "dom ?h = dom (nodes t)" using assms(2) by auto
  ultimately show ?thesis using assms unfolding tinv_but_def by auto
qed

lemma lock_node_ok:
  assumes "nodes t i = Some n" "lock n < 2 ^ 32 - 1"
  shows "route_lock_node i t = Inr (t\<lparr>nodes := (nodes t)(i := Some (n\<lparr>lock := lock n + 1\<rparr>))\<rparr>)"
  using assms by (simp add: route_lock_node_def set_node_def node_at_def uadd_def)

lemma tinv_lock:
  assumes "tinv_but X t tr" "nodes t i = Some n" "lock n < 2 ^ 32 - 1"
  shows "tinv_but (X - {i}) (t\<lparr>nodes := (nodes t)(i := Some (n\<lparr>lock := lock n + 1\<rparr>))\<rparr>) tr"
  by (rule tinv_upd[OF assms(1,2)]) (use assms(3) in \<open>auto simp: shape_def stub_ok_def\<close>)

definition same_data :: "'a route_node \<Rightarrow> 'a route_node \<Rightarrow> bool" where
  "same_data n n' \<longleftrightarrow> rn_p n' = rn_p n \<and> info n' = info n \<and> lock n' = lock n"

lemma same_data_refl [simp]: "same_data n n"
  by (simp add: same_data_def)

lemma same_data_trans: "same_data a b \<Longrightarrow> same_data b c \<Longrightarrow> same_data a c"
  by (simp add: same_data_def)

lemma grows_same: "grows n n' \<Longrightarrow> same_data n n'"
  by (simp add: grows_def same_data_def)

text \<open>
  \<open>got t k i t'\<close>: \<open>t'\<close> is \<open>t\<close> with one more reference to the node \<open>i\<close> for the network \<open>k\<close>;
  other fresh nodes carry neither references nor information.
\<close>

definition got :: "'a route_table \<Rightarrow> bool list \<Rightarrow> nat \<Rightarrow> 'a route_table \<Rightarrow> bool" where
  "got t k i t' \<longleftrightarrow>
     (\<exists>n'. nodes t' i = Some n' \<and> net (rn_p n') = k \<and>
        (case nodes t i of
           None \<Rightarrow> lock n' = 1 \<and> info n' = None
         | Some n \<Rightarrow> rn_p n' = rn_p n \<and> lock n' = lock n + 1 \<and> info n' = info n)) \<and>
     (\<forall>j n. nodes t j = Some n \<and> j \<noteq> i \<longrightarrow> (\<exists>n'. nodes t' j = Some n' \<and> same_data n n')) \<and>
     (\<forall>j n'. nodes t' j = Some n' \<and> j \<noteq> i \<and> nodes t j = None \<longrightarrow> info n' = None \<and> lock n' = 0)"

lemma route_node_get_ok:
  assumes tinv: "tinv t tr" and p: "pvalid p" and room: "room t"
  obtains i t' tr' where "route_node_get t p = Some (Inr (i, t'))" "tinv t' tr'" "got t (net p) i t'"
proof -
  have wft: "wft (nodes t) None [] (rt_top t) tr" using tinv by (simp add: tinv_but_def)
  obtain c s par' b' r' where cs: "tr = plug c s" and wfc: "wfc (nodes t) None [] (rt_top t) c par' b' r'"
    and s: "wft (nodes t) par' b' r' s" and b': "prefix b' (net p)"
    and loop: "get_loop p t (rt_top t) None = Some (Inr
      (case s of Leaf \<Rightarrow> Inr (None, par')
       | Node lt i rt \<Rightarrow> if key (nodes t) i = net p then Inl i else Inr (Some i, par')))"
    and stop: "case s of Leaf \<Rightarrow> True | Node lt i rt \<Rightarrow> \<not> strict_prefix (key (nodes t) i) (net p)"
    using get_loop_ok[OF wft pvalid_pwf(1)[OF p]] by auto
  show thesis
  proof (cases "\<exists>lt i rt. s = Node lt i rt \<and> key (nodes t) i = net p")
    case True
    then obtain lt i rt where i: "s = Node lt i rt" "key (nodes t) i = net p" by blast
    with s obtain n where n: "nodes t i = Some n" "net (rn_p n) = net p"
      by (auto simp: key_def split: option.splits)
    with room have lock: "lock n < 2 ^ 32 - 1" by (auto simp: room_def)
    let ?t = "t\<lparr>nodes := (nodes t)(i := Some (n\<lparr>lock := lock n + 1\<rparr>))\<rparr>"
    have "route_node_get t p = Some (Inr (i, ?t))"
      using loop i lock_node_ok[OF n(1) lock] by (simp add: route_node_get_def)
    moreover have "tinv ?t tr" using tinv_lock[OF tinv n(1) lock] by simp
    moreover have "got t (net p) i ?t" using n by (auto simp: got_def same_data_def)
    ultimately show thesis by (rule that)
  next
    case False
    obtain new t1 where add: "route_node_add t p (case s of Leaf \<Rightarrow> None | Node lt i rt \<Rightarrow> Some i) par' = Inr (new, t1)"
      "added t (net p) new t1"
    proof (cases s)
      case Leaf
      with add_leaf[of t c par' b' r' p] tinv cs wfc p b' that show ?thesis by auto
    next
      case (Node lt i rt)
      with False stop have "\<not> prefix (key (nodes t) i) (net p)" by (auto simp: strict_prefix_def)
      with add_split[of t c s lt i rt par' b' r' p] Node tinv cs wfc s p b' that show ?thesis by auto
    qed
    from add(2) obtain tr' n where tr': "tinv_but {new} (count_node t1) tr'" and n: "nodes t1 new = Some n"
      "net (rn_p n) = net p" and new: "new \<notin> dom (nodes t)"
      and old: "\<forall>j n. nodes t j = Some n \<longrightarrow> (\<exists>n'. nodes t1 j = Some n' \<and> grows n n')"
      and fresh: "\<forall>j n. nodes t1 j = Some n \<and> j \<notin> dom (nodes t) \<longrightarrow> info n = None \<and> lock n = 0"
      by (auto simp: added_def)
    from fresh n new have free: "info n = None" "lock n = 0" by auto
    let ?t = "(count_node t1)\<lparr>nodes := (nodes (count_node t1))(new := Some (n\<lparr>lock := lock n + 1\<rparr>))\<rparr>"
    have n1: "nodes (count_node t1) new = Some n" using n by (simp add: count_node_def)
    have "get_loop p t (rt_top t) None =
        Some (Inr (Inr (case s of Leaf \<Rightarrow> None | Node lt i rt \<Rightarrow> Some i, par')))"
      using loop False by (cases s) auto
    then have "route_node_get t p = Some (Inr (new, ?t))"
      using add(1) lock_node_ok[OF n1] free by (simp add: route_node_get_def)
    moreover have "tinv ?t tr'" using tinv_lock[OF tr' n1] free by simp
    moreover have "got t (net p) new ?t"
    proof -
      have "nodes t new = None" using new by blast
      moreover have "\<exists>n'. nodes ?t j = Some n' \<and> same_data m n'" if "nodes t j = Some m" "j \<noteq> new" for j m
        using old that grows_same by (simp add: count_node_def) blast
      moreover have "info n' = None \<and> lock n' = 0" if "nodes ?t j = Some n'" "j \<noteq> new" "nodes t j = None" for j n'
        using fresh that by (auto simp: count_node_def domIff)
      ultimately show ?thesis using n free unfolding got_def by auto
    qed
    ultimately show thesis by (rule that)
  qed
qed

section \<open>Deleting a node\<close>

text \<open>
  \<open>shrunk t t'\<close>: \<open>t'\<close> has some of the nodes of \<open>t\<close>, all those with references among them,
  with their networks, information and counters.
\<close>

definition shrunk :: "'a route_table \<Rightarrow> 'a route_table \<Rightarrow> bool" where
  "shrunk t t' \<longleftrightarrow>
     (\<forall>j n. nodes t j = Some n \<and> lock n > 0 \<longrightarrow> (\<exists>n'. nodes t' j = Some n' \<and> same_data n n')) \<and>
     (\<forall>j n'. nodes t' j = Some n' \<longrightarrow> (\<exists>n. nodes t j = Some n \<and> same_data n n'))"

lemma shrunk_refl [simp]: "shrunk t t"
  by (auto simp: shrunk_def)

lemma shrunk_trans:
  assumes "shrunk t1 t2" "shrunk t2 t3"
  shows "shrunk t1 t3"
proof -
  have "\<exists>n'. nodes t3 j = Some n' \<and> same_data n n'" if n: "nodes t1 j = Some n" "lock n > 0" for j n
  proof -
    obtain n2 where n2: "nodes t2 j = Some n2" "same_data n n2"
      using assms(1) n unfolding shrunk_def by blast
    then have "lock n2 > 0" using n(2) by (simp add: same_data_def)
    with n2(1) assms(2) obtain n3 where "nodes t3 j = Some n3" "same_data n2 n3" unfolding shrunk_def by blast
    with n2(2) same_data_trans show ?thesis by blast
  qed
  moreover have "\<exists>n. nodes t1 j = Some n \<and> same_data n n'" if n': "nodes t3 j = Some n'" for j n'
  proof -
    obtain n2 where n2: "nodes t2 j = Some n2" "same_data n2 n'" using assms(2) n' unfolding shrunk_def by blast
    moreover obtain n where "nodes t1 j = Some n" "same_data n n2"
      using assms(1) n2(1) unfolding shrunk_def by blast
    ultimately show ?thesis using same_data_trans by blast
  qed
  ultimately show ?thesis unfolding shrunk_def by blast
qed

text \<open>The update of the parent's link in \<open>route_node_delete\<close> is that of the hole.\<close>

lemma unlink_parent:
  assumes wfc: "wfc h None [] r c (Some q) b' (Some i)" and dist: "distinct (pre c @ i # post c)"
    and m: "h q = Some m" and hq: "h' q = Some m"
  shows "h'(q := Some (if l_left m = Some i then m\<lparr>l_left := ch\<rparr> else m\<lparr>l_right := ch\<rparr>)) = set_hole c ch h'"
proof (cases c rule: rev_cases)
  case Nil
  with wfc show ?thesis by simp
next
  case (snoc d s)
  show ?thesis
  proof (cases s)
    case (GoL j rt)
    with snoc wfc m show ?thesis using hq by (auto simp: wfc_snoc set_hole_def)
  next
    case (GoR lt j)
    with snoc wfc m have j: "j = q" "wft h (Some q) (net (rn_p m) @ [False]) (l_left m) lt"
      by (auto simp: wfc_snoc)
    have "l_left m \<noteq> Some i"
    proof
      assume "l_left m = Some i"
      then have "i \<in> set_tree lt" using wft_root[OF j(2)] by (auto split: tree.splits)
      with dist snoc GoR show False by auto
    qed
    with snoc GoR hq j show ?thesis by (simp add: set_hole_def)
  qed
qed

lemma set_hole_par:
  "wfc h None [] r c par' b' r' \<Longrightarrow> par' \<noteq> Some j \<Longrightarrow> set_hole c q h2 j = h2 j"
  by (cases c rule: rev_cases; cases "last c") (auto simp: set_hole_def wfc_snoc)

lemma set_hole_data: "h j = Some m \<Longrightarrow> \<exists>m'. set_hole c q h j = Some m' \<and> same_data m m'"
  by (cases c rule: rev_cases; cases "last c") (auto simp: set_hole_def same_data_def)

text \<open>
  The pointer updates of a removal: the remaining child \<open>ch\<close> is hung below the parent of \<open>i\<close>,
  the link of the parent moves to it, and the node is freed.
\<close>

definition root_of :: "nat tree \<Rightarrow> ptr" where
  "root_of tr = (case tr of Leaf \<Rightarrow> None | Node l k r \<Rightarrow> Some k)"

definition lift_child :: "ptr \<Rightarrow> nat tree \<Rightarrow> 'a heap \<Rightarrow> 'a heap" where
  "lift_child par ch h =
     (case ch of Leaf \<Rightarrow> h | Node l k r \<Rightarrow> h(k := map_option (\<lambda>m. m\<lparr>rn_parent := par\<rparr>) (h k)))"

definition bypass :: "step list \<Rightarrow> nat \<Rightarrow> ptr \<Rightarrow> nat tree \<Rightarrow> 'a heap \<Rightarrow> 'a heap" where
  "bypass c i par ch h = (set_hole c (root_of ch) (lift_child par ch h))(i := None)"

lemma root_of_simps [simp]: "root_of Leaf = None" "root_of (Node l k r) = Some k"
  by (simp_all add: root_of_def)

lemma root_of_in: "root_of ch = Some k \<Longrightarrow> k \<in> set_tree ch"
  by (cases ch) auto

lemma lift_child_other: "j \<notin> set_tree ch \<Longrightarrow> lift_child par ch h j = h j"
  by (auto simp: lift_child_def split: tree.splits)

lemma lift_child_grows: "h j = Some m \<Longrightarrow> \<exists>m'. lift_child par ch h j = Some m' \<and> grows m m'"
  by (auto simp: lift_child_def grows_def split: tree.splits)

lemma dom_bypass: "dom (bypass c i par ch h) = dom h - {i}"
  by (auto simp: bypass_def dom_set_hole lift_child_def split: tree.splits)

lemma bypass_data:
  assumes "h j = Some m" "j \<noteq> i"
  shows "\<exists>m'. bypass c i par ch h j = Some m' \<and> same_data m m'"
proof -
  obtain m1 where m1: "lift_child par ch h j = Some m1" "grows m m1" using lift_child_grows[of h j, OF assms(1)] by blast
  with set_hole_data[of "lift_child par ch h" j m1 c "root_of ch"] grows_same[OF m1(2)] same_data_trans
  show ?thesis using assms(2) by (auto simp: bypass_def)
qed

lemma hole_parent:
  assumes "wfc h None [] r c (Some q) b' r'"
  shows "q \<in> set (pre c)"
  using wfc_par[OF assms] spine_pre[of c] by (cases c rule: rev_cases; cases "last c") auto

lemma bypass_child:
  assumes "wfc h None [] r c par b' r'" "distinct (pre c @ i # preorder ch @ post c)" "j \<in> set_tree ch"
  shows "bypass c i par ch h j = lift_child par ch h j"
proof -
  have "par \<noteq> Some j" using hole_parent[of h r c j b' r'] assms by auto
  moreover have "j \<noteq> i" using assms(2,3) by auto
  ultimately show ?thesis using set_hole_par[OF assms(1)] by (simp add: bypass_def)
qed

lemma bypass_wft:
  assumes wfc: "wfc h None [] r c par b' (Some i)" and dist: "distinct (pre c @ i # preorder ch @ post c)"
    and ch: "wft h (Some i) (a @ [x]) (root_of ch) ch" "prefix b' a"
  shows "wft (bypass c i par ch h) None [] (if c = [] then root_of ch else r) (plug c ch)"
proof (rule wft_replace[OF wfc])
  let ?h = "bypass c i par ch h"
  show "\<forall>j\<in>set (pre c @ post c). map_option shape (?h j) = map_option shape (set_hole c (root_of ch) h j)"
  proof
    fix j assume "j \<in> set (pre c @ post c)"
    with dist have "j \<noteq> i" "j \<notin> set_tree ch" by auto
    then show "map_option shape (?h j) = map_option shape (set_hole c (root_of ch) h j)"
      using set_hole_cong[of "lift_child par ch h" j h] by (simp add: bypass_def lift_child_other)
  qed
  show "wft ?h par b' (root_of ch) ch"
  proof (cases ch)
    case (Node l k r)
    with ch(1) obtain m where m: "h k = Some m" "prefix (a @ [x]) (net (rn_p m))" by (auto split: option.splits)
    have b: "prefix b' (net (rn_p m))" using m(2) ch(2) by (meson append_prefixD prefix_order.trans)
    have kd: "k \<notin> set_tree l \<union> set_tree r" using dist Node by auto
    note same = bypass_child[OF wfc dist]
    have sub: "?h j = h j" if "j \<in> set_tree l \<union> set_tree r" for j
      using same[of j] kd that Node by (auto simp: lift_child_def)
    have "wft h (Some i) (a @ [x]) (Some k) (Node l k r)" using ch(1) Node by simp
    then have "wft ?h par b' (Some k) (Node l k r)"
      using m(1) kd b by (rule wft_reparent[where n' = "m\<lparr>rn_parent := par\<rparr>"])
        (use sub same[of k] Node m in \<open>simp_all add: lift_child_def\<close>)
    with Node show ?thesis by simp
  qed simp
qed (use dist in auto)

text \<open>The counters and the information that the invariant speaks of.\<close>

lemma bypass_stubs:
  assumes wfc: "wfc h None [] r c par b' (Some i)" and m': "bypass c i par ch h j = Some m'"
    and old: "\<And>m. h j = Some m \<Longrightarrow> lock m < 2 ^ 32 \<and> (j \<noteq> i \<longrightarrow> stub_ok m)"
  shows "lock m' < 2 ^ 32 \<and> (j \<notin> set_option par \<longrightarrow> stub_ok m')"
proof -
  have "j \<in> dom (bypass c i par ch h)" using m' by blast
  then obtain m where m: "h j = Some m" "j \<noteq> i" unfolding dom_bypass by blast
  show ?thesis
  proof (cases "par = Some j")
    case True
    with bypass_data[of h j m, OF m, of c par ch] m' old[OF m(1)] show ?thesis by (auto simp: same_data_def)
  next
    case False
    with set_hole_par[OF wfc False, of "root_of ch" "lift_child par ch h"] m' m(2) have "lift_child par ch h j = Some m'" by (simp add: bypass_def)
    with lift_child_grows[of h j m, OF m(1), of par ch] have "grows m m'" by auto
    then show ?thesis using old[OF m(1)] m(2) by (intro grows_node) auto
  qed
qed

text \<open>The statements of \<open>route_node_delete\<close> up to the recursive call compute \<open>bypass\<close>.\<close>

lemma lift_child_step:
  assumes "set_tree ch \<subseteq> dom (nodes t)"
  shows "(case root_of ch of None \<Rightarrow> Inr t | Some k \<Rightarrow> set_node k (\<lambda>m. m\<lparr>rn_parent := par\<rparr>) t) =
    Inr (t\<lparr>nodes := lift_child par ch (nodes t)\<rparr>)"
proof (cases ch)
  case (Node l k r)
  with assms obtain m where "nodes t k = Some m" by auto
  with Node show ?thesis by (simp add: lift_child_def set_node_def node_at_def)
qed (simp add: lift_child_def)

lemma relink_step:
  assumes wfc: "wfc (nodes t) None [] (rt_top t) c par b' (Some i)"
    and dist: "distinct (pre c @ i # preorder ch @ post c)"
    and live: "\<And>q. par = Some q \<Longrightarrow> q \<in> dom (nodes t)"
  shows "(case par of
        Some q \<Rightarrow> set_node q (\<lambda>m. if l_left m = Some i then m\<lparr>l_left := root_of ch\<rparr> else m\<lparr>l_right := root_of ch\<rparr>)
          (t\<lparr>nodes := lift_child par ch (nodes t)\<rparr>)
      | None \<Rightarrow> Inr (t\<lparr>nodes := lift_child par ch (nodes t), rt_top := root_of ch\<rparr>)) =
    Inr (t\<lparr>nodes := set_hole c (root_of ch) (lift_child par ch (nodes t)),
      rt_top := (if c = [] then root_of ch else rt_top t)\<rparr>)"
proof (cases par)
  case None
  then have "c = []" using wfc_par[OF wfc] by (auto split: if_splits)
  with None show ?thesis by (simp add: set_hole_def)
next
  case (Some q)
  let ?h1 = "lift_child par ch (nodes t)"
  have "c \<noteq> []" using wfc_par[OF wfc] Some by auto
  have "q \<notin> set_tree ch" using hole_parent[of "nodes t" "rt_top t" c q b'] wfc Some dist by auto
  then obtain m where m: "nodes t q = Some m" "?h1 q = Some m"
    using live[OF Some] lift_child_other[of q ch par "nodes t"] by auto
  have "distinct (pre c @ i # post c)" using dist by auto
  then have "?h1(q := Some (if l_left m = Some i then m\<lparr>l_left := root_of ch\<rparr> else m\<lparr>l_right := root_of ch\<rparr>)) =
      set_hole c (root_of ch) ?h1"
    using unlink_parent[of "nodes t" "rt_top t" c q b' i m ?h1 "root_of ch"] wfc m Some by simp
  with Some \<open>c \<noteq> []\<close> m(2) show ?thesis
    by (simp add: set_node_def node_at_def del: fun_upd_apply)
qed

definition unlinked :: "step list \<Rightarrow> nat \<Rightarrow> ptr \<Rightarrow> nat tree \<Rightarrow> 'a route_table \<Rightarrow> 'a route_table" where
  "unlinked c i par ch t = t\<lparr>rt_top := (if c = [] then root_of ch else rt_top t),
     rt_count := usub 64 (rt_count t) 1, nodes := bypass c i par ch (nodes t)\<rparr>"

lemma unlink_steps:
  assumes wfc: "wfc (nodes t) None [] (rt_top t) c par b' (Some i)"
    and dist: "distinct (pre c @ i # preorder ch @ post c)" and sub: "set (pre c) \<union> set_tree ch \<subseteq> dom (nodes t)"
    and n: "nodes t i = Some n" "lock n = 0" "info n = None" "rn_parent n = par"
    and one: "l_left n = None \<or> l_right n = None" "(if l_left n \<noteq> None then l_left n else l_right n) = root_of ch"
  shows "route_node_unlink i t =
    Inr (case par of None \<Rightarrow> None | Some q \<Rightarrow> if lock (the (nodes t q)) = 0 then Some q else None,
      unlinked c i par ch t)"
proof -
  let ?t' = "unlinked c i par ch t"
  have par: "q \<in> dom (nodes t) \<and> q \<noteq> i" if "par = Some q" for q
    using hole_parent[of "nodes t" "rt_top t" c q b'] wfc dist sub that by auto
  have lock: "\<exists>m. bypass c i par ch (nodes t) q = Some m \<and> lock m = lock (the (nodes t q))" if "par = Some q" for q
    using par[OF that] bypass_data[of "nodes t" q] by (fastforce simp: same_data_def)
  have na: "node_at t i = Inr n" using n(1) by (simp add: node_at_def)
  have both: "(l_left n \<noteq> None \<and> l_right n \<noteq> None) = False" using one(1) by auto
  let ?t2 = "t\<lparr>nodes := set_hole c (root_of ch) (lift_child par ch (nodes t)),
      rt_top := (if c = [] then root_of ch else rt_top t)\<rparr>"
  have free: "route_node_free i (?t2\<lparr>rt_count := usub 64 (rt_count ?t2) 1\<rparr>) = ?t'"
    by (simp add: route_node_free_def unlinked_def bypass_def)
  have "set_tree ch \<subseteq> dom (nodes t)" using sub by simp
  note lift = lift_child_step[OF this]
  note relink = relink_step[OF wfc dist conjunct1[OF par]]
  have "route_node_unlink i t = (case par of None \<Rightarrow> Inr (None, ?t')
      | Some q \<Rightarrow> bindR (node_at ?t' q) (\<lambda>m. Inr (if lock m = 0 then par else None, ?t')))"
    unfolding route_node_unlink_def na bindR_simps Let_def n(2,3,4) both one(2) lift simp_thms if_False
    by (simp only: relink bindR_simps free route_table.update_convs)
  also have "\<dots> = Inr (case par of None \<Rightarrow> None | Some q \<Rightarrow> if lock (the (nodes t q)) = 0 then Some q else None, ?t')"
    using lock by (auto simp: node_at_def unlinked_def split: option.splits)
  finally show ?thesis .
qed

lemma unlinked_shrunk:
  assumes "nodes t i = Some n" "lock n = 0"
  shows "shrunk t (unlinked c i par ch t)"
proof -
  let ?h = "bypass c i par ch (nodes t)"
  have "\<exists>m'. ?h j = Some m' \<and> same_data m m'" if m: "nodes t j = Some m" "lock m > 0" for j m
    by (rule bypass_data[of "nodes t" j m, OF m(1)]) (use m assms in auto)
  moreover have "\<exists>m. nodes t j = Some m \<and> same_data m m'" if m': "?h j = Some m'" for j m'
  proof -
    have "j \<in> dom ?h" using m' by blast
    then obtain m where m: "nodes t j = Some m" "j \<noteq> i" unfolding dom_bypass by blast
    from bypass_data[of "nodes t" j m, OF m, of c par ch] m m' show ?thesis by auto
  qed
  ultimately show ?thesis unfolding shrunk_def unlinked_def by simp
qed

lemma unlinked_tinv:
  assumes tinv: "tinv_but {i} t (plug c (Node lt i rt))" and one: "ch = (if lt = Leaf then rt else lt)" "lt = Leaf \<or> rt = Leaf"
    and wfc: "wfc (nodes t) None [] (rt_top t) c par b' (Some i)"
    and ch: "wft (nodes t) (Some i) (a @ [x]) (root_of ch) ch" "prefix b' a"
  shows "tinv_but (set_option par) (unlinked c i par ch t) (plug c ch)"
proof -
  let ?h = "bypass c i par ch (nodes t)"
  note inv = tinv_butD[OF tinv]
  have pre: "preorder (plug c (Node lt i rt)) = pre c @ i # preorder ch @ post c"
    using one by (auto simp: preorder_plug)
  with inv(2) have dist: "distinct (pre c @ i # preorder ch @ post c)" by simp
  have "dom ?h = set_tree (plug c ch)"
    unfolding dom_bypass inv(3) using dist one by (auto simp: set_tree_plug)
  moreover have "usub 64 (rt_count t) 1 = size (plug c ch) mod 2 ^ 64"
  proof -
    have "size (plug c (Node lt i rt)) = Suc (size (plug c ch))"
      using size_plug[of c "Node lt i rt" ch] one by auto
    then show ?thesis using inv(4) usub_mod[of 64 "size (plug c ch)"] by simp
  qed
  moreover have "distinct (preorder (plug c ch))" using dist by (auto simp: preorder_plug)
  moreover have "lock m < 2 ^ 32 \<and> (j \<notin> set_option par \<longrightarrow> stub_ok m)" if "?h j = Some m" for j m
    by (rule bypass_stubs[OF wfc that]) (use inv(6) in auto)
  moreover have "j < fresh t" if "j \<in> dom ?h" for j using that inv(5) unfolding dom_bypass by blast
  ultimately show ?thesis
    using bypass_wft[OF wfc dist ch] unfolding tinv_but_def unlinked_def by simp
qed

lemma unlink_ok:
  assumes tinv: "tinv_but {i} t (plug c (Node lt i rt))" and n: "nodes t i = Some n" "lock n = 0" "info n = None"
    and one: "lt = Leaf \<or> rt = Leaf"
    and wfc: "wfc (nodes t) None [] (rt_top t) c par' b' (Some i)"
    and wft: "wft (nodes t) par' b' (Some i) (Node lt i rt)"
  obtains t' where "route_node_unlink i t =
      Inr (case par' of None \<Rightarrow> None | Some q \<Rightarrow> if lock (the (nodes t q)) = 0 then Some q else None, t')"
    "tinv_but (set_option par') t' (plug c (if lt = Leaf then rt else lt))" "shrunk t t'"
proof -
  define ch where "ch = (if lt = Leaf then rt else lt)"
  have subs: "wft (nodes t) (Some i) (net (rn_p n) @ [False]) (l_left n) lt"
    "wft (nodes t) (Some i) (net (rn_p n) @ [True]) (l_right n) rt" "rn_parent n = par'" "prefix b' (net (rn_p n))"
    using wft n(1) by auto
  note roots = wft_root[OF subs(1), folded root_of_def] wft_root[OF subs(2), folded root_of_def]
  have cp: "l_left n = None \<or> l_right n = None" "(if l_left n \<noteq> None then l_left n else l_right n) = root_of ch"
    using one roots by (auto simp: ch_def root_of_def split: tree.splits)
  have wch: "wft (nodes t) (Some i) (net (rn_p n) @ [lt = Leaf]) (root_of ch) ch"
    using subs(1,2) roots by (cases "lt = Leaf") (auto simp: ch_def)
  have dist: "distinct (pre c @ i # preorder ch @ post c)" and sub: "set (pre c) \<union> set_tree ch \<subseteq> dom (nodes t)"
    using tinv one by (auto simp: tinv_but_def preorder_plug set_tree_plug ch_def)
  show thesis
  proof (rule that[of "unlinked c i par' ch t"])
    show "tinv_but (set_option par') (unlinked c i par' ch t) (plug c (if lt = Leaf then rt else lt))"
      using unlinked_tinv[OF tinv ch_def one wfc wch subs(4)] by (simp add: ch_def)
  qed (rule unlink_steps[OF wfc dist sub n subs(3) cp], rule unlinked_shrunk[OF n(1,2)])
qed

end
