(* ===== verification/Route_Table_Ops.thy ===== *)
theory Route_Table_Ops
  imports Route_Table_Inv
begin

text \<open>
  Giving back references, lookups and the iteration.  Deleting a node may cascade to its
  ancestors and ends; \<open>route_next\<close> moves to the node that follows in the preorder of the tree,
  which is the order of \<open>route_table_prefix_iter_cmp\<close>; \<open>route_table_get_next\<close> finds the first
  node behind a prefix in that order, whether or not the prefix has a node.
\<close>

section \<open>Giving back a reference\<close>

lemma tinv_drop:
  assumes "tinv_but X t tr" "\<And>q n. q \<in> X \<Longrightarrow> nodes t q = Some n \<Longrightarrow> stub_ok n"
  shows "tinv t tr"
  using assms unfolding tinv_but_def by blast

lemma route_node_delete_ok:
  assumes "tinv_but {i} t (plug c (Node lt i rt))" "nodes t i = Some n" "lock n = 0" "info n = None"
  shows "\<exists>t' tr'. route_node_delete i t = Some (Inr t') \<and> tinv t' tr' \<and> shrunk t t'"
  using assms
proof (induction c arbitrary: t lt i rt n rule: length_induct)
  case (1 c)
  note tinv = "1.prems"(1) and n = "1.prems"(2-4)
  obtain par' b' where wfc: "wfc (nodes t) None [] (rt_top t) c par' b' (Some i)"
    and wft: "wft (nodes t) par' b' (Some i) (Node lt i rt)"
    using tinv_butD(1)[OF tinv] unfolding wft_plug by auto
  have subs: "wft (nodes t) (Some i) (net (rn_p n) @ [False]) (l_left n) lt"
    "wft (nodes t) (Some i) (net (rn_p n) @ [True]) (l_right n) rt"
    using wft n(1) by auto
  show ?case
  proof (cases "lt = Leaf \<or> rt = Leaf")
    case False
    then have both: "l_left n \<noteq> None" "l_right n \<noteq> None"
      using wft_root[OF subs(1)] wft_root[OF subs(2)] by (auto split: tree.splits)
    then have "route_node_unlink i t = Inr (None, t)"
      using n by (simp add: route_node_unlink_def node_at_def)
    then have "route_node_delete i t = Some (Inr t)" by (simp add: route_node_delete.simps[of i t])
    moreover have "tinv t (plug c (Node lt i rt))"
      by (rule tinv_drop[OF tinv]) (use n both in \<open>auto simp: stub_ok_def\<close>)
    ultimately show ?thesis using shrunk_refl by blast
  next
    case True
    let ?ch = "if lt = Leaf then rt else lt"
    obtain t1 where t1: "route_node_unlink i t =
        Inr (case par' of None \<Rightarrow> None | Some q \<Rightarrow> if lock (the (nodes t q)) = 0 then Some q else None, t1)"
      "tinv_but (set_option par') t1 (plug c ?ch)" "shrunk t t1"
      by (rule unlink_ok[OF tinv n True wfc wft])
    show ?thesis
    proof (cases par')
      case None
      then have "route_node_delete i t = Some (Inr t1)"
        using t1(1) by (simp add: route_node_delete.simps[of i t])
      moreover have "tinv t1 (plug c ?ch)" using t1(2) None by simp
      ultimately show ?thesis using t1(3) by blast
    next
      case (Some q)
      then obtain d s where c: "c = d @ [s]" "q = (case s of GoL j x \<Rightarrow> j | GoR x j \<Rightarrow> j)"
        using wfc by (cases c rule: rev_cases; cases "last c") (auto simp: wfc_snoc)
      have "q \<in> set (pre c)" using c by (cases s) auto
      then have "q \<in> set_tree (plug c ?ch)" "q \<noteq> i"
        using tinv_butD(2)[OF tinv] by (auto simp: set_tree_plug preorder_plug)
      then have "q \<in> dom (nodes t1)" using tinv_butD(3)[OF t1(2)] by simp
      then obtain m1 where m1: "nodes t1 q = Some m1" by blast
      then obtain m where m: "nodes t q = Some m" "same_data m m1" using t1(3) unfolding shrunk_def by blast
      show ?thesis
      proof (cases "lock m = 0")
        case True
        then have "stub_ok m" using tinv_butD(6)[OF tinv m(1)] \<open>q \<noteq> i\<close> by simp
        with True m(2) have free: "lock m1 = 0" "info m1 = None" by (auto simp: stub_ok_def same_data_def)
        obtain l' r' where "plug c ?ch = plug d (Node l' q r')"
          using c by (cases s) auto
        with t1(2) Some have "tinv_but {q} t1 (plug d (Node l' q r'))" by simp
        with "1.IH" c m1 free obtain t2 tr2 where
          t2: "route_node_delete q t1 = Some (Inr t2)" "tinv t2 tr2" "shrunk t1 t2"
          by (metis length_append_singleton lessI)
        have "route_node_delete i t = route_node_delete q t1"
          using t1(1) Some m(1) True by (simp add: route_node_delete.simps[of i t])
        with t2 t1(3) shrunk_trans show ?thesis by metis
      next
        case False
        then have "route_node_delete i t = Some (Inr t1)"
          using t1(1) Some m(1) by (simp add: route_node_delete.simps[of i t])
        moreover have "tinv t1 (plug c ?ch)"
          by (rule tinv_drop[OF t1(2)]) (use Some m1 m(2) False in \<open>auto simp: stub_ok_def same_data_def\<close>)
        ultimately show ?thesis using t1(3) by blast
      qed
    qed
  qed
qed

text \<open>Every node of a tree is at some position.\<close>

lemma in_tree_plug: "i \<in> set_tree tr \<Longrightarrow> \<exists>c lt rt. tr = plug c (Node lt i rt)"
proof (induction tr)
  case (Node l j r)
  show ?case
  proof (cases "i = j")
    case True
    then show ?thesis by (intro exI[of _ "[]"]) simp
  next
    case False
    with Node.prems consider "i \<in> set_tree l" | "i \<in> set_tree r" by auto
    then show ?thesis
    proof cases
      case 1
      with Node.IH(1) obtain c lt rt where "l = plug c (Node lt i rt)" by blast
      then show ?thesis by (intro exI[of _ "GoL j r # c"] exI[of _ lt] exI[of _ rt]) simp
    next
      case 2
      with Node.IH(2) obtain c lt rt where "r = plug c (Node lt i rt)" by blast
      then show ?thesis by (intro exI[of _ "GoR l j # c"] exI[of _ lt] exI[of _ rt]) simp
    qed
  qed
qed simp

text \<open>
  \<open>dropped t i t'\<close>: one reference to \<open>i\<close> has been given back; nodes without references may
  have been deleted.
\<close>

definition dropped :: "'a route_table \<Rightarrow> nat \<Rightarrow> 'a route_table \<Rightarrow> bool" where
  "dropped t i t' \<longleftrightarrow>
     (\<exists>n. nodes t i = Some n \<and> shrunk (t\<lparr>nodes := (nodes t)(i := Some (n\<lparr>lock := lock n - 1\<rparr>))\<rparr>) t')"

lemma route_unlock_node_ok:
  assumes tinv: "tinv t tr" and n: "nodes t i = Some n" "lock n > 0" "lock n = 1 \<longrightarrow> info n = None"
  obtains t' tr' where "route_unlock_node i t = Some (Inr t')" "tinv t' tr'" "dropped t i t'"
proof -
  let ?n = "n\<lparr>lock := lock n - 1\<rparr>"
  let ?t = "t\<lparr>nodes := (nodes t)(i := Some ?n)\<rparr>"
  have step: "route_unlock_node i t = (if lock n - 1 = 0 then route_node_delete i ?t else Some (Inr ?t))"
    using n by (simp add: route_unlock_node_def node_at_def Let_def)
  show thesis
  proof (cases "lock n = 1")
    case True
    have wft: "wft ((nodes t)(i := Some ?n)) None [] (rt_top t) tr"
      by (rule wft_cong[OF _ tinv_butD(1)[OF tinv]]) (use n in \<open>auto simp: shape_def\<close>)
    have dom: "dom ((nodes t)(i := Some ?n)) = dom (nodes t)" using n(1) by auto
    have but: "tinv_but {i} ?t tr"
      using tinv wft dom True unfolding tinv_but_def by auto
    obtain c lt rt where "tr = plug c (Node lt i rt)"
      using in_tree_plug[of i tr] tinv_butD(3)[OF tinv] n(1) by blast
    with route_node_delete_ok[of i ?t c lt rt ?n] but True n(3) obtain t' tr' where
      "route_node_delete i ?t = Some (Inr t')" "tinv t' tr'" "shrunk ?t t'" by auto
    with step True n that show thesis by (auto simp: dropped_def)
  next
    case False
    have "tinv_but ({} - {i}) ?t tr"
      by (rule tinv_upd[OF tinv n(1)]) (use False n tinv_butD(6)[OF tinv n(1)] in \<open>auto simp: shape_def stub_ok_def\<close>)
    with step False n that show thesis by (auto simp: dropped_def)
  qed
qed

lemma node_match_ok:
  assumes tinv: "tinv t tr" and p: "pwf p" and room: "room t"
  obtains m t' where "route_node_match t p = Some (Inr (m, t'))" "longest (nodes t) (net p) (dom (nodes t)) None m"
    "case m of None \<Rightarrow> t' = t | Some i \<Rightarrow> \<exists>n. nodes t i = Some n \<and>
       t' = t\<lparr>nodes := (nodes t)(i := Some (n\<lparr>lock := lock n + 1\<rparr>))\<rparr>" "tinv t' tr"
proof -
  obtain m where m: "match_loop p t (rt_top t) None = Some (Inr m)" "longest (nodes t) (net p) (dom (nodes t)) None m"
    using match_loop_ok[OF tinv_butD(1)[OF tinv] p, of None] tinv_butD(3)[OF tinv] by auto
  show thesis
  proof (cases m)
    case None
    with m tinv that show thesis by (auto simp: route_node_match_def locked_def)
  next
    case (Some i)
    with m(2) obtain n where n: "nodes t i = Some n" by (auto simp: longest_def split: if_splits)
    with room have l: "lock n < 2 ^ 32 - 1" by (auto simp: room_def)
    with m Some n lock_node_ok[OF n l] tinv_lock[OF tinv n l] that show thesis
      by (auto simp: route_node_match_def locked_def)
  qed
qed

lemma node_lookup_ok:
  assumes tinv: "tinv t tr" and p: "pwf p" and room: "room t"
  obtains m t' where "route_node_lookup t p = Some (Inr (m, t'))" "\<forall>i. m = Some i \<longleftrightarrow> found (nodes t) (net p) i"
    "case m of None \<Rightarrow> t' = t | Some i \<Rightarrow> \<exists>n. nodes t i = Some n \<and>
       t' = t\<lparr>nodes := (nodes t)(i := Some (n\<lparr>lock := lock n + 1\<rparr>))\<rparr>" "tinv t' tr"
proof -
  obtain m where m: "node_lookup_loop p t (rt_top t) = Some (Inr m)" "\<forall>i. m = Some i \<longleftrightarrow> found (nodes t) (net p) i"
    using lookup_loop_ok[OF tinv_butD(1)[OF tinv] p] tinv_butD(3)[OF tinv]
    by (metis domI found_def)
  show thesis
  proof (cases m)
    case None
    with m tinv that show thesis by (auto simp: route_node_lookup_def locked_def)
  next
    case (Some i)
    with m(2) obtain n where n: "nodes t i = Some n" by (auto simp: found_def)
    with room have l: "lock n < 2 ^ 32 - 1" by (auto simp: room_def)
    with m Some n lock_node_ok[OF n l] tinv_lock[OF tinv n l] that show thesis
      by (auto simp: route_node_lookup_def locked_def)
  qed
qed

section \<open>Iteration\<close>

text \<open>
  The order of the iteration: a network comes before those it contains, and of two networks
  that part at a bit the one with the zero comes first.
\<close>

fun klt :: "bool list \<Rightarrow> bool list \<Rightarrow> bool" where
  "klt a [] = False"
| "klt [] (y # b) = True"
| "klt (x # a) (y # b) = (if x = y then klt a b else \<not> x)"

lemma klt_append [simp]: "klt (c @ a) (c @ b) = klt a b"
  by (induction c) auto

lemma klt_irrefl [simp]: "\<not> klt a a"
  by (induction a) auto

lemma klt_asym: "klt a b \<Longrightarrow> \<not> klt b a"
  by (induction a b rule: klt.induct) (auto split: if_splits)

lemma klt_total: "\<not> klt a b \<Longrightarrow> a \<noteq> b \<Longrightarrow> klt b a"
  by (induction a b rule: klt.induct) (auto simp: neq_Nil_conv split: if_splits)

lemma klt_trans: "klt a b \<Longrightarrow> klt b c \<Longrightarrow> klt a c"
proof (induction a b arbitrary: c rule: klt.induct)
  case (2 y b)
  then show ?case by (cases c) auto
next
  case (3 x a y b)
  then show ?case by (cases c) (auto split: if_splits)
qed simp

lemma klt_strict: "prefix a b \<Longrightarrow> a \<noteq> b \<Longrightarrow> klt a b"
  by (induction a b rule: klt.induct) auto

lemma klt_parted: "prefix (c @ [False]) a \<Longrightarrow> prefix (c @ [True]) b \<Longrightarrow> klt a b"
  by (auto simp: prefix_def)

text \<open>The comparison function decides this order, and none of its assertions fails.\<close>

lemma iter_cmp_ok:
  assumes "pgood a" "pwf b" "plen b \<le> 128"
  shows "route_table_prefix_iter_cmp a b =
    Inr (if net a = net b then 0 else if klt (net a) (net b) then - 1 else 1)"
proof -
  note match = prefix_match_net[OF pgoodD(3)[OF assms(1)] assms(2)]
    prefix_match_net[OF assms(2) pgoodD(3)[OF assms(1)]]
  show ?thesis
  proof (cases "prefix (net a) (net b) \<or> prefix (net b) (net a)")
    case True
    then show ?thesis
    proof (cases "plen a \<le> plen b")
      case le: True
      with True have pre: "prefix (net a) (net b)"
        by (metis length_net prefix_length_le prefix_order.eq_iff le_antisym prefix_length_prefix prefix_order.refl)
      with klt_strict[OF pre] le match same_length_net[OF pre] show ?thesis
        by (simp add: route_table_prefix_iter_cmp_def)
    next
      case False
      with True have pre: "prefix (net b) (net a)" and ne: "net a \<noteq> net b"
        using prefix_length_le[of "net a" "net b"] by auto
      then have "klt (net b) (net a)" using klt_strict by metis
      with klt_asym False pre ne match show ?thesis
        by (auto simp: route_table_prefix_iter_cmp_def)
    qed
  next
    case False
    then have ne: "net a \<noteq> net b" by auto
    obtain q where q: "route_common a b prefix_new = Inr q" "prefix (net q) (net b)"
      "strict_prefix (net q) (net a)"
      "net q = net b \<or> plen q < plen b \<and> net a ! plen q \<noteq> net b ! plen q"
      using route_common_ok[OF assms, of prefix_new] False by (auto simp: prefix_new_def)
    have lt: "plen q < plen a" "plen q < plen b" "net a ! plen q \<noteq> net b ! plen q"
      using q(3,4) False prefix_length_less[OF q(3)] by (auto simp: strict_prefix_def)
    have bits: "prefix_bit (u a) (prefixlen q) = Inr (of_bool (net a ! plen q))"
      "prefix_bit (u b) (prefixlen q) = Inr (of_bool (net b ! plen q))"
      using lt pgoodD(3)[OF assms(1)] assms(2) by (simp_all add: prefix_bit_ok pwf_def)
    have parts: "prefix (net q @ [net a ! plen q]) (net a)" "prefix (net q @ [net b ! plen q]) (net b)"
      using prefix_next_bit[of "net q" "net a"] prefix_next_bit[OF q(2)] q(3) lt by (simp_all add: strict_prefix_def)
    have "klt (net a) (net b) \<longleftrightarrow> net b ! plen q"
      using parts lt(3) klt_parted[of "net q"] klt_asym by (cases "net b ! plen q") metis+
    with False ne match q(1) bits lt show ?thesis
      by (auto simp: route_table_prefix_iter_cmp_def simp del: net_nth)
  qed
qed

text \<open>The preorder of the tree is increasing in this order.\<close>

lemma preorder_sorted:
  "wft h par b r tr \<Longrightarrow> sorted_wrt (\<lambda>i j. klt (key h i) (key h j)) (preorder tr)"
proof (induction tr arbitrary: par b r)
  case (Node lt i rt)
  then obtain n where n: "h i = Some n"
    "wft h (Some i) (net (rn_p n) @ [False]) (l_left n) lt"
    "wft h (Some i) (net (rn_p n) @ [True]) (l_right n) rt" by (auto split: option.splits)
  have i: "key h i = net (rn_p n)" using n(1) by (simp add: key_def)
  note below = wft_prefix[OF n(2)] wft_prefix[OF n(3)]
  have "klt (key h i) (key h j)" if "j \<in> set_tree lt \<union> set_tree rt" for j
    using below[of j] that longer_below[OF n(2), of j] longer_below[OF n(3), of j] unfolding i
    by (intro klt_strict) (auto dest: append_prefixD)
  moreover have "klt (key h j) (key h k)" if "j \<in> set_tree lt" "k \<in> set_tree rt" for j k
    using klt_parted below(1)[OF that(1)] below(2)[OF that(2)] by blast
  ultimately show ?case using Node.IH(1)[OF n(2)] Node.IH(2)[OF n(3)] by (auto simp: sorted_wrt_append)
qed simp

definition first :: "nat list \<Rightarrow> ptr" where
  "first xs = (case xs of [] \<Rightarrow> None | x # _ \<Rightarrow> Some x)"

lemma first_of_append: "first (xs @ ys) = (if xs = [] then first ys else first xs)"
  by (cases xs) (auto simp: first_def)

lemma first_Cons [simp]: "first (x # xs) = Some x" "first [] = None"
  by (simp_all add: first_def)

lemma wft_first: "wft h par b r tr \<Longrightarrow> r = first (preorder tr)"
  by (cases tr) auto

text \<open>Going up from a subtree leads to the first node behind it.\<close>

lemma next_up_ok:
  assumes "wfc (nodes t) None [] r0 c par b (Some i)" "wft (nodes t) par b (Some i) (Node lt i rt)"
    "distinct (preorder (plug c (Node lt i rt)))"
  shows "next_up None t i = Some (Inr (first (post c)))"
  using assms
proof (induction c arbitrary: i par b lt rt rule: rev_induct)
  case Nil
  then show ?case by (auto simp: next_up.simps[of None t i] node_at_def split: option.splits)
next
  case (snoc s c)
  obtain n where n: "nodes t i = Some n" "rn_parent n = par" using snoc.prems(2) by (auto split: option.splits)
  show ?case
  proof (cases s)
    case (GoL q st)
    with snoc.prems(1) obtain m parc bc where m: "par = Some q" "nodes t q = Some m"
      "wfc (nodes t) None [] r0 c parc bc (Some q)" "rn_parent m = parc" "pgood (rn_p m)"
      "prefix bc (net (rn_p m))" "wft (nodes t) (Some q) (net (rn_p m) @ [True]) (l_right m) st"
      "b = net (rn_p m) @ [False]" "l_left m = Some i"
      by (auto simp: wfc_snoc)
    have "wft (nodes t) parc bc (Some q) (Node (Node lt i rt) q st)"
      using m snoc.prems(2) by simp
    moreover have "distinct (preorder (plug c (Node (Node lt i rt) q st)))"
      using snoc.prems(3) GoL by simp
    ultimately have IH: "next_up None t q = Some (Inr (first (post c)))" using snoc.IH m(3) by blast
    show ?thesis
      using n m wft_first[OF m(7)] IH GoL
      by (cases "st = Leaf") (auto simp: next_up.simps[of None t i] node_at_def first_of_append neq_Leaf_iff)
  next
    case (GoR st q)
    with snoc.prems(1) obtain m parc bc where m: "par = Some q" "nodes t q = Some m"
      "wfc (nodes t) None [] r0 c parc bc (Some q)" "rn_parent m = parc" "pgood (rn_p m)"
      "prefix bc (net (rn_p m))" "wft (nodes t) (Some q) (net (rn_p m) @ [False]) (l_left m) st"
      "b = net (rn_p m) @ [True]" "l_right m = Some i"
      by (auto simp: wfc_snoc)
    have "wft (nodes t) parc bc (Some q) (Node st q (Node lt i rt))"
      using m snoc.prems(2) by simp
    moreover have "distinct (preorder (plug c (Node st q (Node lt i rt))))"
      using snoc.prems(3) GoR by simp
    ultimately have IH: "next_up None t q = Some (Inr (first (post c)))" using snoc.IH m(3) by blast
    have "l_left m \<noteq> Some i"
    proof
      assume "l_left m = Some i"
      then have "i \<in> set_tree st" using wft_root[OF m(7)] by (auto split: tree.splits)
      with snoc.prems(3) GoR show False by (auto simp: preorder_plug)
    qed
    with n m IH GoR show ?thesis by (simp add: next_up.simps[of None t i] node_at_def)
  qed
qed

text \<open>The node that follows \<open>i\<close> in a list.\<close>

fun after :: "nat list \<Rightarrow> nat \<Rightarrow> ptr" where
  "after [] i = None"
| "after (x # xs) i = (if x = i then first xs else after xs i)"

lemma after_split: "i \<notin> set xs \<Longrightarrow> after (xs @ i # ys) i = first ys"
  by (induction xs) auto

text \<open>\<open>bump r t\<close>: the table with one more reference to the node \<open>r\<close>, as an iteration holds it.\<close>

definition bump :: "ptr \<Rightarrow> 'a route_table \<Rightarrow> 'a route_table" where
  "bump r t = (case r of None \<Rightarrow> t | Some i \<Rightarrow>
     t\<lparr>nodes := (nodes t)(i := map_option (\<lambda>n. n\<lparr>lock := lock n + 1\<rparr>) (nodes t i))\<rparr>)"

lemma bump_None [simp]: "bump None t = t"
  by (simp add: bump_def)

lemma locked_bump:
  "room t \<Longrightarrow> set_option r \<subseteq> dom (nodes t) \<Longrightarrow> locked r t = Inr (r, bump r t)"
  by (cases r) (auto simp: locked_def bump_def room_def lock_node_ok)

text \<open>
  Giving back a reference to a node that is held otherwise, or that is a branching point,
  deletes nothing.
\<close>

lemma unlock_held:
  assumes "nodes t i = Some (n\<lparr>lock := lock n + 1\<rparr>)" "stub_ok n"
  shows "route_unlock_node i t = Some (Inr (t\<lparr>nodes := (nodes t)(i := Some n)\<rparr>))"
proof -
  let ?t = "t\<lparr>nodes := (nodes t)(i := Some n)\<rparr>"
  have "route_unlock_node i t = (if lock n = 0 then route_node_delete i ?t else Some (Inr ?t))"
    using assms(1) by (simp add: route_unlock_node_def node_at_def Let_def)
  moreover have "route_node_delete i ?t = Some (Inr ?t)" if "lock n = 0"
    using that assms(2)
    by (simp add: route_node_delete.simps[of i] route_node_unlink_def node_at_def stub_ok_def)
  ultimately show ?thesis by simp
qed

lemma unlock_bump:
  assumes "tinv t tr" "nodes t i = Some n"
  shows "route_unlock_node i (bump (Some i) t) = Some (Inr t)"
  using unlock_held[of "bump (Some i) t" i n] tinv_butD(6)[OF assms] assms(2)
  by (simp add: bump_def fun_upd_idem)

lemma move_to_ok:
  assumes "tinv t tr" "room t" "nodes t i = Some n" "r \<noteq> Some i" "set_option r \<subseteq> dom (nodes t)"
  shows "move_to r i (bump (Some i) t) = Some (Inr (r, bump r t))"
proof (cases r)
  case None
  with unlock_bump[OF assms(1,3)] show ?thesis by (simp add: move_to_def locked_def)
next
  case (Some j)
  with assms obtain m where m: "nodes t j = Some m" "lock m < 2 ^ 32 - 1" "j \<noteq> i" by (auto simp: room_def)
  let ?t = "t\<lparr>nodes := (nodes t)(i := Some (n\<lparr>lock := lock n + 1\<rparr>), j := Some (m\<lparr>lock := lock m + 1\<rparr>))\<rparr>"
  have "locked r (bump (Some i) t) = Inr (r, ?t)"
    using Some m assms(3) lock_node_ok[of "bump (Some i) t" j m] by (simp add: locked_def bump_def)
  moreover have "route_unlock_node i ?t = Some (Inr (?t\<lparr>nodes := (nodes ?t)(i := Some n)\<rparr>))"
    using m(3) tinv_butD(6)[OF assms(1,3)] by (intro unlock_held) auto
  moreover have "?t\<lparr>nodes := (nodes ?t)(i := Some n)\<rparr> = bump r t"
    using m Some assms(3) by (auto simp: bump_def fun_eq_iff)
  ultimately show ?thesis by (simp add: move_to_def)
qed


lemma shape_bump: "map_option shape (nodes (bump s t) j) = map_option shape (nodes t j)"
  by (cases s; cases "nodes t j") (auto simp: bump_def shape_def)

lemma wft_bump: "wft (nodes t) par b r tr \<Longrightarrow> wft (nodes (bump s t)) par b r tr"
  by (rule wft_cong) (simp_all add: shape_bump)

lemma wfc_bump: "wfc (nodes t) par b r c par' b' r' \<Longrightarrow> wfc (nodes (bump s t)) par b r c par' b' r'"
  by (rule wfc_cong) (simp_all add: shape_bump)

lemma bump_node: "nodes t i = Some n \<Longrightarrow> nodes (bump (Some i) t) i = Some (n\<lparr>lock := lock n + 1\<rparr>)"
  by (simp add: bump_def)

lemma after_in: "after xs i = Some j \<Longrightarrow> j \<in> set xs"
  by (induction xs) (auto simp: first_def split: if_splits list.splits)

lemma after_neq: "distinct xs \<Longrightarrow> after xs i \<noteq> Some i"
proof (induction xs)
  case (Cons x xs)
  then show ?case by (cases xs) (auto simp: first_def)
qed simp

lemma tinv_bump:
  assumes tinv: "tinv t tr" and room: "room t" and r: "set_option r \<subseteq> dom (nodes t)"
  shows "tinv (bump r t) tr"
proof (cases r)
  case (Some i)
  with r obtain n where n: "nodes t i = Some n" by auto
  with room have "lock n < 2 ^ 32 - 1" by (auto simp: room_def)
  with tinv_lock[OF tinv n] n Some show ?thesis by (simp add: bump_def)
qed (use tinv in simp)

lemma after_dom: "tinv t tr \<Longrightarrow> set_option (after (preorder tr) i) \<subseteq> dom (nodes t)"
  using after_in[of "preorder tr" i] tinv_butD(3)[of "{}" t tr] by auto

text \<open>\<open>route_next\<close> moves to the node that follows in the preorder of the tree.\<close>

lemma route_next_eq:
  assumes tinv: "tinv t tr" and n: "nodes t i = Some n"
  shows "route_next i t = move_to (after (preorder tr) i) i t"
proof -
  note inv = tinv_butD[OF tinv]
  obtain c lt rt where c: "tr = plug c (Node lt i rt)"
    using in_tree_plug[of i tr] n inv(3) by blast
  then obtain par' b' where wfc: "wfc (nodes t) None [] (rt_top t) c par' b' (Some i)"
    and wft: "wft (nodes t) par' b' (Some i) (Node lt i rt)"
    using inv(1) unfolding c wft_plug by auto
  have "i \<notin> set (pre c)" using inv(2) c by (simp add: preorder_plug)
  then have aft: "after (preorder tr) i = first (preorder lt @ preorder rt @ post c)"
    using after_split[of i "pre c"] by (simp add: c preorder_plug)
  have subs: "l_left n = first (preorder lt)" "l_right n = first (preorder rt)"
    using wft n wft_first by auto
  have up: "next_up None t i = Some (Inr (first (post c)))"
    using inv(2) by (intro next_up_ok[OF wfc wft]) (simp add: c)
  show ?thesis
    using n subs up
    by (simp add: route_next_def node_at_def aft first_of_append) (auto simp: first_def split: list.splits)
qed

text \<open>An iteration that holds one reference to its node takes it along.\<close>

lemma route_next_ok:
  assumes tinv: "tinv t tr" and room: "room t" and i: "i \<in> dom (nodes t)"
  shows "route_next i (bump (Some i) t) = Some (Inr (after (preorder tr) i, bump (after (preorder tr) i) t))"
proof -
  obtain n where n: "nodes t i = Some n" using i by blast
  have "tinv (bump (Some i) t) tr" using tinv_bump[OF tinv room, of "Some i"] i by simp
  from route_next_eq[OF this bump_node[OF n]] move_to_ok[OF tinv room n] show ?thesis
    using after_neq[OF tinv_butD(2)[OF tinv]] after_dom[OF tinv] by metis
qed

text \<open>From a node that is held in another way: the node may be deleted.\<close>

definition releasable :: "'a route_node \<Rightarrow> bool" where
  "releasable n \<longleftrightarrow> lock n > 0 \<and> (lock n = 1 \<longrightarrow> info n = None)"

lemma route_next_held:
  assumes tinv: "tinv t tr" and room: "room t" and n: "nodes t i = Some n" "releasable n"
  obtains t' tr' where "route_next i t = Some (Inr (after (preorder tr) i, t'))" "tinv t' tr'"
    "dropped (bump (after (preorder tr) i) t) i t'"
proof -
  let ?r = "after (preorder tr) i"
  have bump: "locked ?r t = Inr (?r, bump ?r t)" "tinv (bump ?r t) tr"
    using locked_bump[OF room after_dom[OF tinv]] tinv_bump[OF tinv room after_dom[OF tinv]] by auto
  have "?r \<noteq> Some i" using after_neq[OF tinv_butD(2)[OF tinv]] .
  then have "nodes (bump ?r t) i = Some n" using n(1) by (simp add: bump_def split: option.splits)
  with route_unlock_node_ok[OF bump(2)] n(2) obtain t' tr' where
    "route_unlock_node i (bump ?r t) = Some (Inr t')" "tinv t' tr'" "dropped (bump ?r t) i t'"
    unfolding releasable_def by metis
  with that route_next_eq[OF tinv n(1)] bump(1) show thesis by (simp add: move_to_def)
qed

lemma next_unlocked_ok:
  assumes tinv: "tinv t tr" and room: "room t" and i: "i \<in> dom (nodes t)"
  shows "next_unlocked i t = Some (Inr (after (preorder tr) i, t))"
proof -
  have lock: "route_lock_node i t = Inr (bump (Some i) t)"
    using locked_bump[OF room, of "Some i"] i by (auto simp: locked_def bindR_eq_Inr)
  show ?thesis
  proof (cases "after (preorder tr) i")
    case None
    with lock route_next_ok[OF assms] show ?thesis by (simp add: next_unlocked_def)
  next
    case (Some k)
    then obtain m where "nodes t k = Some m" using after_in tinv_butD(3)[OF tinv] by fastforce
    with Some lock route_next_ok[OF assms] unlock_bump[OF tinv] show ?thesis
      by (simp add: next_unlocked_def)
  qed
qed

lemma klt_extend: "klt a b \<Longrightarrow> \<not> prefix a b \<Longrightarrow> klt (a @ c) b"
  by (induction a b rule: klt.induct) (auto split: if_splits)

lemma filter_above: "\<forall>j\<in>set xs. P j \<Longrightarrow> filter P xs = xs" "\<forall>j\<in>set xs. \<not> P j \<Longrightarrow> filter P xs = []"
  by simp_all

text \<open>
  Which nodes of a subtree follow the network \<open>k\<close>, by the relation of \<open>k\<close> to the network of
  its root.
\<close>

lemma following_subtree:
  assumes wft: "wft h par b r (Node lt i rt)" and n: "h i = Some n"
  defines "after_k \<equiv> \<lambda>k. filter (\<lambda>j. klt k (key h j))"
  shows "after_k (net (rn_p n)) (preorder (Node lt i rt)) = preorder lt @ preorder rt"
    and "klt (net (rn_p n)) k \<Longrightarrow> \<not> prefix (net (rn_p n)) k \<Longrightarrow> after_k k (preorder (Node lt i rt)) = []"
    and "prefix (net (rn_p n) @ [True]) k \<Longrightarrow> after_k k (preorder (Node lt i rt)) = after_k k (preorder rt)"
    and "prefix (net (rn_p n) @ [False]) k \<Longrightarrow>
      after_k k (preorder (Node lt i rt)) = after_k k (preorder lt) @ preorder rt"
proof -
  let ?a = "net (rn_p n)"
  have subs: "wft h (Some i) (?a @ [False]) (l_left n) lt" "wft h (Some i) (?a @ [True]) (l_right n) rt"
    and i: "key h i = ?a" using wft n by (auto simp: key_def)
  have below: "prefix ?a (key h j) \<and> ?a \<noteq> key h j" if "j \<in> set_tree lt \<union> set_tree rt" for j
    using that wft_prefix[OF subs(1), of j] wft_prefix[OF subs(2), of j] longer_below[OF subs(1), of j]
      longer_below[OF subs(2), of j] by (metis UnE append_prefixD less_irrefl)
  have "klt ?a (key h j)" if "j \<in> set_tree lt \<union> set_tree rt" for j
    using klt_strict below[OF that] by blast
  moreover have "\<not> klt ?a (key h i)" unfolding i using klt_asym by blast
  ultimately show "after_k ?a (preorder (Node lt i rt)) = preorder lt @ preorder rt"
    by (auto simp: after_k_def intro!: filter_above(1))
  have over: "\<not> klt k (key h i)" if "prefix (?a @ [x]) k" for x
  proof -
    have "prefix ?a k" "?a \<noteq> k" using that by (auto dest: append_prefixD)
    then show ?thesis unfolding i using klt_asym klt_strict by blast
  qed
  show "after_k k (preorder (Node lt i rt)) = []" if "klt ?a k" "\<not> prefix ?a k"
  proof -
    have "\<not> klt k (key h j)" if "j \<in> set (preorder (Node lt i rt))" for j
    proof -
      have "prefix ?a (key h j)" using that below i by auto
      with klt_extend[OF \<open>klt ?a k\<close> \<open>\<not> prefix ?a k\<close>] klt_asym show ?thesis by (auto simp: prefix_def)
    qed
    then show ?thesis unfolding after_k_def by (rule filter_above(2)[OF ballI])
  qed
  show "after_k k (preorder (Node lt i rt)) = after_k k (preorder rt)" if side: "prefix (?a @ [True]) k"
  proof -
    have "\<not> klt k (key h j)" if "j \<in> set_tree lt" for j
      using klt_parted[OF wft_prefix[OF subs(1) that] side] klt_asym by blast
    then show ?thesis
      using over[OF side] filter_above(2)[of "preorder lt" "\<lambda>j. klt k (key h j)"] by (simp add: after_k_def)
  qed
  show "after_k k (preorder (Node lt i rt)) = after_k k (preorder lt) @ preorder rt"
    if side: "prefix (?a @ [False]) k"
  proof -
    have "klt k (key h j)" if "j \<in> set_tree rt" for j using klt_parted[OF side wft_prefix[OF subs(2) that]] .
    then show ?thesis
      using over[OF side] filter_above(1)[of "preorder rt" "\<lambda>j. klt k (key h j)"] by (simp add: after_k_def)
  qed
qed

lemma get_next_loop_ok:
  assumes tinv: "tinv t tr" and room: "room t" and p: "pwf p" "plen p \<le> 128"
    and "tr = plug c s" "wfc (nodes t) None [] (rt_top t) c par b r" "wft (nodes t) par b r s" "prefix b (net p)"
    "s \<noteq> Leaf"
  shows "get_next_loop p t r =
    Some (Inr (first ([j \<leftarrow> preorder s. klt (net p) (key (nodes t) j)] @ post c), t))"
  using assms(5-)
proof (induction s arbitrary: c par b r)
  case (Node lt i rt)
  let ?h = "nodes t" and ?k = "net p"
  let ?P = "\<lambda>j. klt ?k (key ?h j)"
  note inv = tinv_butD[OF tinv]
  obtain n where n: "?h i = Some n" "r = Some i" "pgood (rn_p n)"
    "wft ?h (Some i) (net (rn_p n) @ [False]) (l_left n) lt"
    "wft ?h (Some i) (net (rn_p n) @ [True]) (l_right n) rt" "key ?h i = net (rn_p n)"
    "rn_parent n = par" "prefix b (net (rn_p n))"
    using walk_node[OF Node.prems(3)] by metis
  note following = following_subtree[OF Node.prems(3) n(1)]
  have up: "unchanged t (route_get_subtree_next i t) = Some (Inr (first (post c), t))"
    using next_up_ok[of t "rt_top t" c par b i lt rt] Node.prems(1-3) n(2) inv(2)
    by (simp add: unchanged_def route_get_subtree_next_def)
  have links: "l_left n = first (preorder lt)" "l_right n = first (preorder rt)"
    using wft_first[OF n(4)] wft_first[OF n(5)] by auto
  note match = prefix_match_net[OF pgoodD(3)[OF n(3)] p(1)] prefix_match_net[OF p(1) pgoodD(3)[OF n(3)]]
  note start = get_next_loop.simps[of p t "Some i"]
  consider (same) "net (rn_p n) = ?k" | (under) "strict_prefix ?k (net (rn_p n))"
    | (over) "strict_prefix (net (rn_p n)) ?k" | (apart) "\<not> prefix ?k (net (rn_p n))" "\<not> prefix (net (rn_p n)) ?k"
    unfolding strict_prefix_def by metis
  then show ?case
  proof cases
    case same
    have "filter ?P (preorder (Node lt i rt)) = preorder lt @ preorder rt"
      using following(1) unfolding same .
    moreover have "after (preorder tr) i = first (preorder lt @ preorder rt @ post c)"
      using after_split[of i "pre c"] inv(2) Node.prems(1) by (simp add: preorder_plug)
    moreover have "prefixlen (rn_p n) = prefixlen p" using same_length_net[of "rn_p n" p] same by simp
    moreover have "next_unlocked i t = Some (Inr (after (preorder tr) i, t))"
      by (rule next_unlocked_ok[OF tinv room]) (use n(1) in blast)
    ultimately show ?thesis using n(1,2) match same by (simp add: start node_at_def)
  next
    case under
    then have len: "plen p < plen (rn_p n)" using prefix_length_less by fastforce
    have "?P i" using under n(6) by (auto intro: klt_strict simp: strict_prefix_def)
    moreover have "prefixlen (rn_p n) \<noteq> prefixlen p" using len by auto
    ultimately show ?thesis using n(1,2) match under len
      by (simp add: start node_at_def strict_prefix_def)
  next
    case apart
    then have ne: "net (rn_p n) \<noteq> ?k" by auto
    have cmp: "get_next_loop p t r = (if klt (net (rn_p n)) ?k then unchanged t (route_get_subtree_next i t)
        else Some (Inr (Some i, t)))"
      using n(1,2) match apart iter_cmp_ok[OF n(3) p] ne by (simp add: start node_at_def)
    show ?thesis
    proof (cases "klt (net (rn_p n)) ?k")
      case True
      from following(2)[OF True apart(2)] cmp True up show ?thesis by simp
    next
      case False
      with ne klt_total have "?P i" unfolding n(6) by blast
      with cmp False show ?thesis by simp
    qed
  next
    case over
    then have pre: "prefix (net (rn_p n)) ?k" and ne: "net (rn_p n) \<noteq> ?k" by auto
    have lt: "plen (rn_p n) < plen p" using shorter_net[OF pre ne] .
    let ?x = "?k ! plen (rn_p n)"
    have side: "prefix (net (rn_p n) @ [?x]) ?k" using prefix_next_bit[OF pre] lt by simp
    let ?l = "if ?x then l_right n else l_left n"
    have loop: "get_next_loop p t r = (if ?l \<noteq> None then get_next_loop p t ?l
        else if l_right n \<noteq> None then Some (Inr (l_right n, t))
        else Some (Inr (first (post c), t)))"
      using n(1,2) match pre lt next_link_ok[OF p(1) lt] up by (auto simp: start node_at_def)
    show ?thesis
    proof (cases ?x)
      case True
      with side have side: "prefix (net (rn_p n) @ [True]) ?k" by simp
      note flt = following(3)[OF side]
      show ?thesis
      proof (cases "rt = Leaf")
        case False
        have "get_next_loop p t (l_right n) =
            Some (Inr (first (filter ?P (preorder rt) @ post (c @ [GoR lt i])), t))"
          by (rule Node.IH(2)[OF _ _ n(5) side False])
            (use Node.prems(1,2) n in \<open>auto simp: wfc_snoc\<close>)
        moreover have "l_right n \<noteq> None" using links False by (cases rt) auto
        ultimately show ?thesis using loop True flt by simp
      qed (use loop True flt links in simp)
    next
      case False
      with side have side: "prefix (net (rn_p n) @ [False]) ?k" by simp
      note flt = following(4)[OF side]
      show ?thesis
      proof (cases "lt = Leaf")
        case nl: False
        have "get_next_loop p t (l_left n) =
            Some (Inr (first (filter ?P (preorder lt) @ post (c @ [GoL i rt])), t))"
          by (rule Node.IH(1)[OF _ _ n(4) side nl])
            (use Node.prems(1,2) n in \<open>auto simp: wfc_snoc\<close>)
        moreover have "l_left n \<noteq> None" using links nl by (cases lt) auto
        ultimately show ?thesis using loop False flt by simp
      next
        case True
        then show ?thesis using loop False flt links by (cases rt) auto
      qed
    qed
  qed
qed simp

lemma first_in: "first xs = Some x \<Longrightarrow> x \<in> set xs"
  by (cases xs) auto

lemma route_table_get_next_ok:
  assumes tinv: "tinv t tr" and room: "room t" and p: "pwf p" "plen p \<le> 128"
  defines "r \<equiv> first [j \<leftarrow> preorder tr. klt (net p) (key (nodes t) j)]"
  shows "route_table_get_next t p = Some (Inr (r, bump r t))"
proof -
  note inv = tinv_butD[OF tinv]
  have int: "route_table_get_next_internal t p = Some (Inr (r, t))"
  proof (cases tr)
    case Leaf
    with inv(1) show ?thesis by (simp add: r_def route_table_get_next_internal_def get_next_loop.simps)
  next
    case Node
    then show ?thesis
      using get_next_loop_ok[OF tinv room p, of "[]" tr None "[]" "rt_top t"] inv(1)
      by (simp add: r_def route_table_get_next_internal_def)
  qed
  show ?thesis
  proof (cases r)
    case None
    with int show ?thesis by (simp add: route_table_get_next_def)
  next
    case (Some i)
    then have i: "i \<in> set_tree tr" "klt (net p) (key (nodes t) i)" unfolding r_def by (auto dest: first_in)
    then obtain n where n: "nodes t i = Some n" "pgood (rn_p n)" using wft_live[OF inv(1)] by blast
    then have "route_table_prefix_iter_cmp (rn_p n) p = Inr 1"
      using iter_cmp_ok[OF n(2) p] i(2) klt_asym by (auto simp: key_def)
    with int Some n(1) locked_bump[OF room, of r] show ?thesis
      by (auto simp: route_table_get_next_def node_at_def)
  qed
qed

end
