(* ===== verification/Route_Table_Reach.thy ===== *)
theory Route_Table_Reach
  imports Route_Table_Ops
begin

text \<open>
  Iterators, the release of a table, and the properties of the tables that clients can reach.
\<close>

section \<open>Iterators\<close>

text \<open>
  A client that visits the whole table with an iterator and pauses it before the \<open>k\<close>-th step
  whenever \<open>ps k\<close> holds.
\<close>

partial_function (option) visit ::
  "(nat \<Rightarrow> bool) \<Rightarrow> nat \<Rightarrow> route_table_iter \<Rightarrow> 'a route_table \<Rightarrow> nat list \<Rightarrow>
   (nat list \<times> 'a route_table) res option" where
  "visit ps k iter t acc =
     (case (if ps k then route_table_iter_pause iter t else Some (Inr (iter, t))) of
        None \<Rightarrow> None
      | Some m \<Rightarrow>
         (case m of
            Inl e \<Rightarrow> Some (Inl e)
          | Inr it \<Rightarrow>
             (case route_table_iter_next (fst it) (snd it) of
                None \<Rightarrow> None
              | Some m' \<Rightarrow>
                 (case m' of
                    Inl e \<Rightarrow> Some (Inl e)
                  | Inr r \<Rightarrow>
                     (case fst r of
                        None \<Rightarrow> Some (Inr (acc, snd (snd r)))
                      | Some i \<Rightarrow> visit ps (k + 1) (fst (snd r)) (snd (snd r)) (acc @ [i]))))))"

text \<open>Behind a node of a sorted list lie exactly the nodes above it.\<close>

lemma filter_sorted:
  assumes "sorted_wrt (\<lambda>i j. klt (f i) (f j)) (xs @ i # ys)"
  shows "filter (\<lambda>j. klt (f i) (f j)) (xs @ i # ys) = ys"
  using assms klt_asym by (auto simp: sorted_wrt_append intro!: filter_above)

lemma visit_step:
  assumes tinv: "tinv t tr" and room: "room t" and tr: "preorder tr = xs @ i # ys"
    and it: "iter_st iter = RT_ITER_STATE_ITERATING" "current iter = Some i" "length (u (pause_prefix iter)) = 16"
  obtains iter' iter'' where
    "(if b then route_table_iter_pause iter (bump (Some i) t) else Some (Inr (iter, bump (Some i) t))) = Some (Inr iter')"
    "route_table_iter_next (fst iter') (snd iter') = Some (Inr (first ys, iter'', bump (first ys) t))"
    "current iter'' = first ys" "length (u (pause_prefix iter'')) = 16"
    "ys = [] \<or> iter_st iter'' = RT_ITER_STATE_ITERATING"
proof -
  note inv = tinv_butD[OF tinv]
  let ?next = "\<lambda>iter. iter\<lparr>current := first ys,
    iter_st := (if first ys \<noteq> None then RT_ITER_STATE_ITERATING else RT_ITER_STATE_DONE)\<rparr>"
  have "i \<in> set_tree tr" using tr by (metis in_set_conv_decomp set_preorder)
  then obtain n where n: "nodes t i = Some n" "pgood (rn_p n)" "i \<in> dom (nodes t)"
    using wft_live[OF inv(1)] inv(3) by blast
  have aft: "after (preorder tr) i = first ys"
    using inv(2) unfolding tr by (intro after_split) simp
  show thesis
  proof (cases b)
    case False
    have "route_table_iter_next iter (bump (Some i) t) = Some (Inr (first ys, ?next iter, bump (first ys) t))"
      using it route_next_ok[OF tinv room n(3)] aft by (simp add: route_table_iter_next_def Let_def)
    with False it that[of "(iter, bump (Some i) t)" "?next iter"] show thesis by (cases ys) auto
  next
    case True
    obtain q where q: "prefix_copy (pause_prefix iter) (rn_p n) = Inr q" "pgood q" "net q = net (rn_p n)"
      using prefix_copy_ok[OF _ it(3), of "rn_p n"] n(2) by (auto simp: pgood_def)
    let ?it = "iter\<lparr>pause_prefix := q, current := None, iter_st := RT_ITER_STATE_PAUSED\<rparr>"
    have "route_table_iter_pause iter (bump (Some i) t) = Some (Inr (?it, t))"
      using it q(1) n(1) unlock_bump[OF tinv n(1)] by (simp add: route_table_iter_pause_def node_at_def bump_node)
    moreover have "first [j \<leftarrow> preorder tr. klt (net q) (key (nodes t) j)] = first ys"
      using filter_sorted[of "key (nodes t)" xs i ys] preorder_sorted[OF inv(1)] n(1) q(3)
      unfolding tr by (simp add: key_def)
    then have "route_table_iter_next ?it t = Some (Inr (first ys, ?next ?it, bump (first ys) t))"
      using route_table_get_next_ok[OF tinv room pgoodD(3,2)[OF q(2)]]
      by (simp add: route_table_iter_next_def Let_def)
    ultimately show thesis
      using True pgoodD(1)[OF q(2)] that[of "(?it, t)" "?next ?it"] by (cases ys) auto
  qed
qed

lemma visit_rest:
  assumes tinv: "tinv t tr" and room: "room t"
  shows "preorder tr = xs @ i # ys \<Longrightarrow> iter_st iter = RT_ITER_STATE_ITERATING \<Longrightarrow> current iter = Some i \<Longrightarrow>
    length (u (pause_prefix iter)) = 16 \<Longrightarrow>
    visit ps k iter (bump (Some i) t) acc = Some (Inr (acc @ ys, t))"
proof (induction ys arbitrary: xs i iter k acc)
  case Nil
  obtain iter' iter'' where
    "(if ps k then route_table_iter_pause iter (bump (Some i) t) else Some (Inr (iter, bump (Some i) t))) = Some (Inr iter')"
    "route_table_iter_next (fst iter') (snd iter') = Some (Inr (first [], iter'', bump (first []) t))"
    by (rule visit_step[OF assms Nil, of "ps k"])
  then show ?case by (simp add: visit.simps[of ps k iter])
next
  case (Cons j ys)
  obtain iter' iter'' where s:
    "(if ps k then route_table_iter_pause iter (bump (Some i) t) else Some (Inr (iter, bump (Some i) t))) = Some (Inr iter')"
    "route_table_iter_next (fst iter') (snd iter') = Some (Inr (first (j # ys), iter'', bump (first (j # ys)) t))"
    "current iter'' = first (j # ys)" "length (u (pause_prefix iter'')) = 16"
    "j # ys = [] \<or> iter_st iter'' = RT_ITER_STATE_ITERATING"
    by (rule visit_step[OF assms Cons.prems, of "ps k"])
  have "visit ps (k + 1) iter'' (bump (Some j) t) (acc @ [j]) = Some (Inr ((acc @ [j]) @ ys, t))"
    by (rule Cons.IH[of "xs @ [i]"]) (use Cons.prems(1) s(3-5) in simp_all)
  with s(1,2) show ?case by (simp add: visit.simps[of ps k iter])
qed

lemma visit_ok:
  assumes tinv: "tinv t tr" and room: "room t"
  shows "visit ps 0 route_table_iter_init t [] = Some (Inr (preorder tr, t))"
proof -
  let ?i = route_table_iter_init and ?r = "first (preorder tr)"
  note inv = tinv_butD[OF tinv]
  let ?it = "?i\<lparr>current := ?r,
    iter_st := (if ?r \<noteq> None then RT_ITER_STATE_ITERATING else RT_ITER_STATE_DONE)\<rparr>"
  have pause: "(if ps 0 then route_table_iter_pause ?i t else Some (Inr (?i, t))) = Some (Inr (?i, t))"
    by (simp add: route_table_iter_pause_def route_table_iter_init_def)
  have "set_option ?r \<subseteq> dom (nodes t)" using inv(3) by (cases tr) auto
  then have "route_top t = Inr (?r, bump ?r t)"
    using locked_bump[OF room] wft_first[OF inv(1)] by (simp add: route_top_def)
  then have "route_table_iter_next ?i t = Some (Inr (?r, ?it, bump ?r t))"
    by (simp add: route_table_iter_next_def route_table_iter_init_def)
  moreover have "visit ps 1 ?it (bump (Some i) t) [i] = Some (Inr ([i] @ ys, t))"
    if "preorder tr = i # ys" for i ys
    using visit_rest[OF assms, of "[]" i ys ?it ps 1 "[i]"] that
    by (simp add: route_table_iter_init_def prefix_new_def)
  ultimately show ?thesis using pause
    by (cases "preorder tr") (simp_all add: visit.simps[of ps 0 ?i])
qed

section \<open>Releasing a table\<close>

text \<open>The state of \<open>route_table_free\<close> between two nodes: what is left of the tree.\<close>

definition rest :: "ptr \<Rightarrow> 'a route_table \<Rightarrow> nat tree \<Rightarrow> bool" where
  "rest r t tr \<longleftrightarrow> wft (nodes t) None [] r tr \<and> distinct (preorder tr) \<and> dom (nodes t) = set_tree tr \<and>
     rt_count t = size tr mod 2 ^ 64"

lemma wfc_fun:
  "wfc h par b r c par1 b1 r1 \<Longrightarrow> wfc h par b r c par2 b2 r2 \<Longrightarrow> par1 = par2 \<and> b1 = b2 \<and> r1 = r2"
  by (induction h par b r c par1 b1 r1 rule: wfc.induct) (auto split: option.splits)

lemma free_leaf:
  assumes rest: "rest r t (plug c (Node Leaf i Leaf))" and c: "c \<noteq> []"
    and wfc: "wfc (nodes t) None [] r c (Some q) b (Some i)"
  obtains t' where "free_loop i t = free_loop q t'" "rest r t' (plug c Leaf)"
proof -
  let ?h = "nodes t"
  have dist: "distinct (pre c @ i # post c)" and dom: "dom ?h = set (pre c @ i # post c)"
    and cnt: "rt_count t = size (plug c (Node Leaf i Leaf)) mod 2 ^ 64"
    using rest by (auto simp: rest_def preorder_plug set_tree_plug)
  have wft: "wft ?h (Some q) b (Some i) (Node Leaf i Leaf)"
  proof -
    obtain par' b' r' where *: "wfc ?h None [] r c par' b' r'" "wft ?h par' b' r' (Node Leaf i Leaf)"
      using rest unfolding rest_def wft_plug by blast
    from wfc_fun[OF *(1) wfc] * show ?thesis by simp
  qed
  then obtain n where n: "?h i = Some n" "rn_parent n = Some q" "l_left n = None" "l_right n = None"
    by (auto split: option.splits)
  have "q \<in> set (spine c)" using wfc_par[OF wfc] c by (cases c rule: rev_cases; cases "last c") auto
  then have q: "q \<in> set (pre c)" using spine_pre by blast
  then have "q \<in> dom ?h" "q \<noteq> i" using dom dist by auto
  then obtain m where m: "?h q = Some m" "q \<noteq> i" by blast
  let ?h1 = "?h(i := None)"
  let ?h2 = "set_hole c None ?h1"
  define t' where "t' = t\<lparr>rt_count := usub 64 (rt_count t) 1, nodes := ?h2\<rparr>"
  have "?h1(q := Some (if l_left m = Some i then m\<lparr>l_left := None\<rparr> else m\<lparr>l_right := None\<rparr>)) = ?h2"
    by (rule unlink_parent[OF wfc dist m(1)]) (use m in simp)
  then have "free_loop i t = free_loop q t'"
    using n m by (simp add: free_loop.simps[of i t] node_at_def set_node_def route_node_free_def t'_def
        del: fun_upd_apply) (simp add: fun_upd_def)
  moreover have "wft ?h2 None [] r (plug c Leaf)"
  proof -
    have "wft ?h2 None [] (if c = [] then None else r) (plug c Leaf)"
    proof (rule wft_replace[OF wfc])
      show "\<forall>j\<in>set (pre c @ post c). map_option shape (?h2 j) = map_option shape (set_hole c None ?h j)"
        using dist by (auto intro!: arg_cong[where f = "map_option shape"] set_hole_cong)
    qed (use dist in auto)
    with c show ?thesis by simp
  qed
  moreover have "distinct (preorder (plug c Leaf))" "dom ?h2 = set_tree (plug c Leaf)"
    using dist dom by (auto simp: preorder_plug set_tree_plug dom_set_hole)
  moreover have "usub 64 (rt_count t) 1 = size (plug c Leaf) mod 2 ^ 64"
    using size_plug[of c "Node Leaf i Leaf" Leaf] usub_mod[of 64 "size (plug c Leaf)"] by (simp add: cnt)
  ultimately show thesis using that unfolding rest_def t'_def by simp
qed

text \<open>Every subtree is released, and the walk goes on with its parent.\<close>

lemma free_sub:
  assumes "rest r t (plug c (Node lt i rt))"
  shows "if c = [] then \<exists>t'. free_loop i t = Some (Inr t') \<and> nodes t' = Map.empty \<and> rt_count t' = 0
    else \<exists>t'. free_loop i t = free_loop (last (spine c)) t' \<and> rest r t' (plug c Leaf)"
  using assms
proof (induction "Node lt i rt" arbitrary: c lt i rt t)
  case (Node lt i rt)
  have left: "\<exists>t1. free_loop i t = free_loop i t1 \<and> rest r t1 (plug c (Node Leaf i rt))"
  proof (cases lt)
    case Leaf
    with Node.prems show ?thesis by blast
  next
    case lt: (Node l j r')
    obtain par' b' where "wft (nodes t) par' b' (Some i) (Node lt i rt)"
      using Node.prems unfolding rest_def wft_plug by auto
    then obtain n where "nodes t i = Some n" "l_left n = Some j" using lt by (auto split: option.splits)
    then have "free_loop i t = free_loop j t" by (simp add: free_loop.simps[of i t] node_at_def)
    moreover have "\<exists>t'. free_loop j t = free_loop i t' \<and> rest r t' (plug (c @ [GoL i rt]) Leaf)"
      using Node.hyps(1)[OF lt, of t "c @ [GoL i rt]"] Node.prems lt by simp
    ultimately show ?thesis by auto
  qed
  then obtain t1 where t1: "free_loop i t = free_loop i t1" "rest r t1 (plug c (Node Leaf i rt))" by blast
  have right: "\<exists>t2. free_loop i t1 = free_loop i t2 \<and> rest r t2 (plug c (Node Leaf i Leaf))"
  proof (cases rt)
    case Leaf
    with t1(2) show ?thesis by blast
  next
    case rt: (Node l j r')
    obtain par' b' where "wft (nodes t1) par' b' (Some i) (Node Leaf i rt)"
      using t1(2) unfolding rest_def wft_plug by auto
    then obtain n where "nodes t1 i = Some n" "l_left n = None" "l_right n = Some j"
      using rt by (auto split: option.splits)
    then have "free_loop i t1 = free_loop j t1" by (simp add: free_loop.simps[of i t1] node_at_def)
    moreover have "\<exists>t'. free_loop j t1 = free_loop i t' \<and> rest r t' (plug (c @ [GoR Leaf i]) Leaf)"
      using Node.hyps(2)[OF rt, of t1 "c @ [GoR Leaf i]"] t1(2) rt by simp
    ultimately show ?thesis by auto
  qed
  then obtain t2 where t2: "free_loop i t1 = free_loop i t2" "rest r t2 (plug c (Node Leaf i Leaf))" by blast
  obtain par' b' where wfc: "wfc (nodes t2) None [] r c par' b' (Some i)"
    and wft: "wft (nodes t2) par' b' (Some i) (Node Leaf i Leaf)"
    using t2(2) unfolding rest_def wft_plug by auto
  show ?case
  proof (cases "c = []")
    case True
    then obtain n where n: "nodes t2 i = Some n" "rn_parent n = None" "l_left n = None" "l_right n = None"
      using wft wfc by (auto split: option.splits)
    have "rt_count t2 = 1" "dom (nodes t2) = {i}" using t2(2) True by (auto simp: rest_def)
    then have "(nodes t2)(i := None) = Map.empty" by (auto simp: fun_eq_iff dom_def)
    moreover have "usub 64 1 1 = 0" using usub_mod[of 64 0] by simp
    ultimately show ?thesis using True t1(1) t2(1) n \<open>rt_count t2 = 1\<close>
      by (simp add: free_loop.simps[of i t2] node_at_def route_node_free_def)
  next
    case False
    with wfc wfc_par[OF wfc] free_leaf[OF t2(2) False, of "last (spine c)" b'] obtain t' where
      "free_loop i t2 = free_loop (last (spine c)) t'" "rest r t' (plug c Leaf)" by auto
    with False t1(1) t2(1) show ?thesis by auto
  qed
qed

lemma route_table_free_ok:
  assumes "tinv t tr"
  shows "\<exists>t'. route_table_free t = Some (Inr t') \<and> nodes t' = Map.empty \<and> rt_count t' = 0"
proof (cases tr)
  case Leaf
  with tinv_butD[OF assms] show ?thesis by (auto simp: route_table_free_def)
next
  case (Node lt i rt)
  with assms have "rest (Some i) t (plug [] (Node lt i rt))" "rt_top t = Some i"
    using tinv_butD[OF assms] wft_first[OF tinv_butD(1)[OF assms]] by (auto simp: rest_def)
  then obtain t' where "free_loop i t = Some (Inr t')" "nodes t' = Map.empty" "rt_count t' = 0"
    using free_sub[of "Some i" t "[]" lt i rt] by auto
  with \<open>rt_top t = Some i\<close> show ?thesis by (simp add: route_table_free_def)
qed

section \<open>Reachable tables\<close>

text \<open>
  What a client may do with a table: it enters and looks up prefixes, takes and gives back
  references to nodes that it holds, and sets the information of nodes that it holds.  The last
  reference to a node is given back only when the node carries no information, and no counter
  is at its maximum (\<open>room\<close>).
\<close>

definition set_info :: "nat \<Rightarrow> 'a option \<Rightarrow> 'a route_table \<Rightarrow> 'a route_table res" where
  "set_info i x t = set_node i (\<lambda>n. n\<lparr>info := x\<rparr>) t"

inductive rt_step :: "'a route_table \<Rightarrow> 'a route_table \<Rightarrow> bool" where
  step_get: "room t \<Longrightarrow> pvalid p \<Longrightarrow> route_node_get t p = Some (Inr (i, t')) \<Longrightarrow> rt_step t t'"
| step_lookup: "room t \<Longrightarrow> pwf p \<Longrightarrow> route_node_lookup t p = Some (Inr (m, t')) \<Longrightarrow> rt_step t t'"
| step_match: "room t \<Longrightarrow> pwf p \<Longrightarrow> route_node_match t p = Some (Inr (m, t')) \<Longrightarrow> rt_step t t'"
| step_lock: "room t \<Longrightarrow> i \<in> dom (nodes t) \<Longrightarrow> route_lock_node i t = Inr t' \<Longrightarrow> rt_step t t'"
| step_unlock: "nodes t i = Some n \<Longrightarrow> releasable n \<Longrightarrow> route_unlock_node i t = Some (Inr t') \<Longrightarrow> rt_step t t'"
| step_info: "nodes t i = Some n \<Longrightarrow> lock n > 0 \<Longrightarrow> set_info i x t = Inr t' \<Longrightarrow> rt_step t t'"
| step_top: "room t \<Longrightarrow> route_top t = Inr (m, t') \<Longrightarrow> rt_step t t'"
| step_next: "room t \<Longrightarrow> nodes t i = Some n \<Longrightarrow> releasable n \<Longrightarrow> route_next i t = Some (Inr (m, t')) \<Longrightarrow>
    rt_step t t'"
| step_get_next: "room t \<Longrightarrow> pwf p \<Longrightarrow> plen p \<le> 128 \<Longrightarrow> route_table_get_next t p = Some (Inr (m, t')) \<Longrightarrow>
    rt_step t t'"

inductive rt_reach :: "'a route_table \<Rightarrow> bool" where
  reach_init: "rt_reach route_table_init"
| reach_step: "rt_reach t \<Longrightarrow> rt_step t t' \<Longrightarrow> rt_reach t'"

lemma set_info_ok:
  assumes "nodes t i = Some n"
  shows "set_info i x t = Inr (t\<lparr>nodes := (nodes t)(i := Some (n\<lparr>info := x\<rparr>))\<rparr>)"
  using assms by (simp add: set_info_def set_node_def node_at_def)

lemma tinv_info:
  assumes "tinv t tr" "nodes t i = Some n" "lock n > 0"
  shows "tinv (t\<lparr>nodes := (nodes t)(i := Some (n\<lparr>info := x\<rparr>))\<rparr>) tr"
proof -
  have "tinv_but ({} - {i}) (t\<lparr>nodes := (nodes t)(i := Some (n\<lparr>info := x\<rparr>))\<rparr>) tr"
    by (rule tinv_upd[OF assms(1,2)])
      (use assms(3) tinv_butD(6)[OF assms(1,2)] in \<open>auto simp: shape_def stub_ok_def\<close>)
  then show ?thesis by simp
qed

lemma route_top_ok:
  assumes tinv: "tinv t tr" and room: "room t"
  shows "route_top t = Inr (first (preorder tr), bump (first (preorder tr)) t)"
    "tinv (bump (first (preorder tr)) t) tr"
proof -
  have "set_option (first (preorder tr)) \<subseteq> dom (nodes t)" using tinv_butD(3)[OF tinv] by (cases tr) auto
  then show "route_top t = Inr (first (preorder tr), bump (first (preorder tr)) t)"
    "tinv (bump (first (preorder tr)) t) tr"
    using locked_bump[OF room] tinv_bump[OF tinv room] wft_first[OF tinv_butD(1)[OF tinv]]
    by (simp_all add: route_top_def)
qed

lemma get_next_tinv:
  assumes tinv: "tinv t tr" and room: "room t" and p: "pwf p" "plen p \<le> 128"
  obtains r where "route_table_get_next t p = Some (Inr (r, bump r t))" "tinv (bump r t) tr"
proof -
  let ?r = "first [j \<leftarrow> preorder tr. klt (net p) (key (nodes t) j)]"
  have "set_option ?r \<subseteq> dom (nodes t)" using tinv_butD(3)[OF tinv] by (auto dest: first_in)
  with that route_table_get_next_ok[OF assms] tinv_bump[OF tinv room] show thesis by blast
qed

lemma rt_step_tinv: "rt_step t t' \<Longrightarrow> tinv t tr \<Longrightarrow> \<exists>tr'. tinv t' tr'"
proof (induction rule: rt_step.induct)
  case (step_get t p i t')
  from step_get(1,2,4) obtain i' t'' tr' where "route_node_get t p = Some (Inr (i', t''))" "tinv t'' tr'"
    by (metis route_node_get_ok)
  with step_get(3) show ?case by auto
next
  case (step_lookup t p m t')
  from node_lookup_ok[OF step_lookup(4,2,1)] step_lookup(3) show ?case
    by (metis (no_types, lifting) option.inject prod.inject sum.inject(2))
next
  case (step_match t p m t')
  from node_match_ok[OF step_match(4,2,1)] step_match(3) show ?case
    by (metis (no_types, lifting) option.inject prod.inject sum.inject(2))
next
  case (step_lock t i t')
  then have "locked (Some i) t = Inr (Some i, bump (Some i) t)" "tinv (bump (Some i) t) tr"
    using locked_bump[of t "Some i"] tinv_bump[of t tr "Some i"] by auto
  with step_lock(3) show ?case by (auto simp: locked_def)
next
  case (step_unlock t i n t')
  from route_unlock_node_ok[OF step_unlock(4,1)] step_unlock(2,3) show ?case
    unfolding releasable_def by (metis option.inject sum.inject(2))
next
  case (step_info t i n x t')
  with tinv_info[OF step_info(4,1,2)] set_info_ok[OF step_info(1)] show ?case by auto
next
  case (step_top t m t')
  with route_top_ok[OF step_top(3,1)] show ?case by auto
next
  case (step_next t i n m t')
  from route_next_held[OF step_next(5,1,2,3)] step_next(4) show ?case
    by (metis option.inject prod.inject sum.inject(2))
next
  case (step_get_next t p m t')
  from get_next_tinv[OF step_get_next(5,1,2,3)] step_get_next(4) show ?case
    by (metis option.inject prod.inject sum.inject(2))
qed

lemma rt_reach_tinv: "rt_reach t \<Longrightarrow> \<exists>tr. tinv t tr"
  by (induction rule: rt_reach.induct) (use tinv_init rt_step_tinv in blast)+

section \<open>An example table\<close>

text \<open>A table that holds the network 10.0.0.0/8.\<close>

definition ex_prefix :: "u8 \<Rightarrow> u8 \<Rightarrow> u8 \<Rightarrow> prefix" where
  "ex_prefix a b n = \<lparr>family = AF_INET, prefixlen = n, u = [a, b] @ replicate 14 0\<rparr>"

definition ex_table :: "nat \<Rightarrow> nat option \<Rightarrow> nat route_table" where
  "ex_table k x = \<lparr>rt_top = Some 0, rt_count = 1, nodes = [0 \<mapsto>
     \<lparr>rn_p = ex_prefix 10 0 8, rn_parent = None, l_left = None, l_right = None, lock = k, info = x\<rparr>],
     fresh = 1\<rparr>"

lemma ex_get: "route_node_get route_table_init (ex_prefix 10 0 8) = Some (Inr (0, ex_table 1 None))"
  by (simp add: route_node_get_def get_loop.simps walk_cond_def route_table_init_def route_node_add_def
      route_node_set_def route_node_new_def node_at_def set_node_def attach_def count_node_def route_lock_node_def
      prefix_copy_def copy_bytes_def ex_prefix_def prefix_new_def route_node_create_def ex_table_def uadd_def mem_simps
      AF_INET_def flip: replicate_add)

lemma ex_reach: "rt_reach (ex_table 1 (Some 7))"
proof -
  have "rt_reach (ex_table 1 None)"
  proof (rule reach_step[OF reach_init step_get[OF _ _ ex_get]])
    show "room route_table_init" by (simp add: room_def route_table_init_def)
    show "pvalid (ex_prefix 10 0 8)" by (simp add: pvalid_def ex_prefix_def copy_len_def)
  qed
  then show ?thesis
    by (rule reach_step)
      (rule step_info[where i = 0 and x = "Some 7"], auto simp: ex_table_def set_info_def set_node_def node_at_def)
qed

lemma ex_room: "room (ex_table 1 (Some 7))"
  by (simp add: room_def ex_table_def)

section \<open>Properties\<close>

lemma node_position:
  assumes tinv: "tinv t tr" and n: "nodes t i = Some n"
  shows "case rn_parent n of None \<Rightarrow> rt_top t = Some i
    | Some q \<Rightarrow> \<exists>m b. nodes t q = Some m \<and> get_link m (of_bool b) = Some i \<and> prefix (net (rn_p m) @ [b]) (net (rn_p n))"
proof -
  note inv = tinv_butD[OF tinv]
  obtain c lt rt where c: "tr = plug c (Node lt i rt)"
    using in_tree_plug[of i tr] n inv(3) by blast
  then obtain par' b' where wfc: "wfc (nodes t) None [] (rt_top t) c par' b' (Some i)"
    and wft: "wft (nodes t) par' b' (Some i) (Node lt i rt)"
    using inv(1) unfolding c wft_plug by auto
  have par: "rn_parent n = par'" "prefix b' (net (rn_p n))" using wft n by auto
  show ?thesis
  proof (cases c rule: rev_cases)
    case Nil
    with wfc par show ?thesis by simp
  next
    case (snoc d s)
    show ?thesis
    proof (cases s)
      case (GoL q st)
      with snoc wfc par show ?thesis by (auto simp: wfc_snoc get_link_def intro!: exI[of _ False])
    next
      case (GoR st q)
      with snoc wfc par show ?thesis by (auto simp: wfc_snoc get_link_def intro!: exI[of _ True])
    qed
  qed
qed

lemma klt_sorted_distinct: "sorted_wrt (\<lambda>i j. klt (f i) (f j)) xs \<Longrightarrow> distinct (map f xs)"
  by (induction xs) auto

lemma keys_distinct:
  assumes "tinv t tr"
  shows "inj_on (key (nodes t)) (dom (nodes t))"
proof -
  have "distinct (map (key (nodes t)) (preorder tr))"
    by (rule klt_sorted_distinct[OF preorder_sorted[OF tinv_butD(1)[OF assms]]])
  then show ?thesis using tinv_butD(3)[OF assms] by (simp add: distinct_map)
qed

text \<open>
  C3: In every table that clients can reach, the counter is the number of nodes modulo
  \<open>2 ^ 64\<close>, no network has two nodes, every node is the root or hangs on the link of its parent
  that the next bit of its network selects, and a node without references is a branching point
  without information.
\<close>

theorem route_table_invariant:
  assumes "rt_reach t"
  shows "rt_count t = card (dom (nodes t)) mod 2 ^ 64 \<and> inj_on (key (nodes t)) (dom (nodes t)) \<and>
    (\<forall>i n. nodes t i = Some n \<longrightarrow>
      (case rn_parent n of None \<Rightarrow> rt_top t = Some i
       | Some q \<Rightarrow> \<exists>m b. nodes t q = Some m \<and> get_link m (of_bool b) = Some i \<and>
           prefix (net (rn_p m) @ [b]) (net (rn_p n))) \<and>
      (lock n = 0 \<longrightarrow> info n = None \<and> l_left n \<noteq> None \<and> l_right n \<noteq> None))"
proof -
  obtain tr where tr: "tinv t tr" using rt_reach_tinv[OF assms] by blast
  note inv = tinv_butD[OF tr]
  have "card (dom (nodes t)) = size tr"
    using distinct_card[OF inv(2)] inv(3) by simp
  moreover have "lock n = 0 \<longrightarrow> info n = None \<and> l_left n \<noteq> None \<and> l_right n \<noteq> None"
    if "nodes t i = Some n" for i n using inv(6)[OF that] by (auto simp: stub_ok_def)
  ultimately show ?thesis using inv(4) keys_distinct[OF tr] node_position[OF tr] by auto
qed

theorem route_table_invariant_witness: "rt_count (ex_table 1 (Some 7)) = 1"
  using route_table_invariant[OF ex_reach] by (simp add: ex_table_def)

text \<open>
  C2: No client that follows the rules can make the table code fail: in every reachable table
  the operations return (their loops end), no assertion fails and no memory outside the nodes
  is accessed, and the new table is reachable again.
\<close>

theorem route_table_safe:
  assumes "rt_reach t" "room t"
  shows "(pvalid p \<longrightarrow> (\<exists>i t'. route_node_get t p = Some (Inr (i, t')) \<and> rt_reach t')) \<and>
    (pwf p \<longrightarrow> (\<exists>m t'. route_node_lookup t p = Some (Inr (m, t')) \<and> rt_reach t')) \<and>
    (pwf p \<longrightarrow> (\<exists>m t'. route_node_match t p = Some (Inr (m, t')) \<and> rt_reach t')) \<and>
    (pwf p \<and> plen p \<le> 128 \<longrightarrow> (\<exists>m t'. route_table_get_next t p = Some (Inr (m, t')) \<and> rt_reach t')) \<and>
    (\<exists>m t'. route_top t = Inr (m, t') \<and> rt_reach t') \<and>
    (\<forall>i n. nodes t i = Some n \<and> releasable n \<longrightarrow>
       (\<exists>t'. route_unlock_node i t = Some (Inr t') \<and> rt_reach t') \<and>
       (\<exists>m t'. route_next i t = Some (Inr (m, t')) \<and> rt_reach t'))"
proof -
  obtain tr where tr: "tinv t tr" using rt_reach_tinv[OF assms(1)] by blast
  note step = reach_step[OF assms(1)]
  have "\<exists>i t'. route_node_get t p = Some (Inr (i, t')) \<and> rt_reach t'" if "pvalid p"
    using route_node_get_ok[OF tr that assms(2)] step[OF step_get[OF assms(2) that]] by metis
  moreover have "\<exists>m t'. route_node_lookup t p = Some (Inr (m, t')) \<and> rt_reach t'" if "pwf p"
    using node_lookup_ok[OF tr that assms(2)] step[OF step_lookup[OF assms(2) that]] by metis
  moreover have "\<exists>m t'. route_node_match t p = Some (Inr (m, t')) \<and> rt_reach t'" if "pwf p"
    using node_match_ok[OF tr that assms(2)] step[OF step_match[OF assms(2) that]] by metis
  moreover have "\<exists>m t'. route_table_get_next t p = Some (Inr (m, t')) \<and> rt_reach t'"
    if "pwf p" "plen p \<le> 128"
    using get_next_tinv[OF tr assms(2) that] step[OF step_get_next[OF assms(2) that]] by metis
  moreover have "\<exists>m t'. route_top t = Inr (m, t') \<and> rt_reach t'"
    using route_top_ok[OF tr assms(2)] step[OF step_top[OF assms(2)]] by metis
  moreover have "\<exists>t'. route_unlock_node i t = Some (Inr t') \<and> rt_reach t'"
    if "nodes t i = Some n" "releasable n" for i n
    using route_unlock_node_ok[OF tr that(1)] that(2) step[OF step_unlock[OF that]]
    unfolding releasable_def by metis
  moreover have "\<exists>m t'. route_next i t = Some (Inr (m, t')) \<and> rt_reach t'"
    if "nodes t i = Some n" "releasable n" for i n
    using route_next_held[OF tr assms(2) that] step[OF step_next[OF assms(2) that]] by metis
  ultimately show ?thesis by blast
qed

theorem route_table_safe_witness:
  "\<exists>i t'. route_node_get (ex_table 1 (Some 7)) (ex_prefix 10 1 16) = Some (Inr (i, t')) \<and> rt_reach t'"
  using route_table_safe[OF ex_reach ex_room, of "ex_prefix 10 1 16"]
  by (simp add: pvalid_def ex_prefix_def copy_len_def)

text \<open>
  C1: \<open>route_node_match\<close> finds the longest match: the node returned carries information,
  contains the given prefix, and no other such node has a longer prefix; without such a node
  the result is a null pointer.  The node gets one more reference and nothing else changes.
\<close>

theorem route_node_match_longest:
  assumes "rt_reach t" "room t" "pwf p"
  shows "\<exists>m. route_node_match t p = Some (Inr (m, bump m t)) \<and>
    (case m of None \<Rightarrow> \<forall>j. \<not> hit (nodes t) (net p) j
     | Some i \<Rightarrow> hit (nodes t) (net p) i \<and>
         (\<forall>j. hit (nodes t) (net p) j \<and> j \<noteq> i \<longrightarrow> length (key (nodes t) j) < length (key (nodes t) i)))"
proof -
  obtain tr where tr: "tinv t tr" using rt_reach_tinv[OF assms(1)] by blast
  obtain m t' where m: "route_node_match t p = Some (Inr (m, t'))"
    "longest (nodes t) (net p) (dom (nodes t)) None m"
    "case m of None \<Rightarrow> t' = t | Some i \<Rightarrow> \<exists>n. nodes t i = Some n \<and>
       t' = t\<lparr>nodes := (nodes t)(i := Some (n\<lparr>lock := lock n + 1\<rparr>))\<rparr>"
    by (rule node_match_ok[OF tr assms(3,2)])
  have "t' = bump m t" using m(3) by (auto simp: bump_def split: option.splits)
  have dom: "j \<in> dom (nodes t)" if "hit (nodes t) (net p) j" for j using that by (auto simp: hit_def)
  have uniq: "j = i" if "hit (nodes t) (net p) j" "hit (nodes t) (net p) i"
    "length (key (nodes t) j) = length (key (nodes t) i)" for i j
  proof -
    have "key (nodes t) j = key (nodes t) i"
      using hit_key[OF that(1)] hit_key[OF that(2)] that(3) by (auto simp: prefix_def append_eq_append_conv)
    with keys_distinct[OF tr] dom that(1,2) show ?thesis by (auto simp: inj_on_def)
  qed
  have "case m of None \<Rightarrow> \<forall>j. \<not> hit (nodes t) (net p) j
     | Some i \<Rightarrow> hit (nodes t) (net p) i \<and>
         (\<forall>j. hit (nodes t) (net p) j \<and> j \<noteq> i \<longrightarrow> length (key (nodes t) j) < length (key (nodes t) i))"
  proof (cases m)
    case None
    then have "\<not> (\<exists>j\<in>dom (nodes t). hit (nodes t) (net p) j)"
      using m(2) unfolding longest_def by (metis option.distinct(1))
    with dom None show ?thesis by auto
  next
    case (Some i)
    then have i: "hit (nodes t) (net p) i" "\<And>j. hit (nodes t) (net p) j \<Longrightarrow>
        length (key (nodes t) j) \<le> length (key (nodes t) i)"
      using m(2) dom unfolding longest_def by (auto split: if_splits)
    with uniq show ?thesis unfolding Some by (simp add: le_neq_implies_less) (metis le_neq_implies_less)
  qed
  with m(1) \<open>t' = bump m t\<close> show ?thesis by blast
qed

theorem route_node_match_longest_witness:
  "route_node_match (ex_table 1 (Some 7)) (ex_prefix 10 1 32) = Some (Inr (Some 0, ex_table 2 (Some 7)))"
proof -
  let ?t = "ex_table 1 (Some 7)" and ?p = "ex_prefix 10 1 32"
  have "prefix (net (ex_prefix 10 0 8)) (net ?p)" by code_simp
  then have "hit (nodes ?t) (net ?p) j \<longleftrightarrow> j = 0" for j by (auto simp: hit_def ex_table_def)
  moreover have "pwf ?p" by (simp add: pwf_def ex_prefix_def)
  ultimately have "route_node_match ?t ?p = Some (Inr (Some 0, bump (Some 0) ?t))"
    using route_node_match_longest[OF ex_reach ex_room, of ?p] by (auto split: option.splits)
  then show ?thesis by (simp add: bump_def ex_table_def numeral_2_eq_2)
qed

text \<open>
  C32: \<open>route_node_get\<close> returns the node of the prefix with one more reference; when there was
  none it makes one with one reference and no information.  Other nodes keep their prefix,
  information and counter, and other new nodes have neither references nor information.  A
  following \<open>route_node_lookup\<close> finds the node exactly when it carries information.
\<close>

theorem route_node_get_spec:
  assumes "rt_reach t" "room t" "pvalid p"
  shows "\<exists>i t'. route_node_get t p = Some (Inr (i, t')) \<and> got t (net p) i t' \<and>
    (room t' \<longrightarrow> (\<exists>t''. route_node_lookup t' p =
       Some (Inr (if info (the (nodes t' i)) = None then None else Some i, t''))))"
proof -
  obtain tr where tr: "tinv t tr" using rt_reach_tinv[OF assms(1)] by blast
  obtain i t' tr' where t': "route_node_get t p = Some (Inr (i, t'))" "tinv t' tr'" "got t (net p) i t'"
    by (rule route_node_get_ok[OF tr assms(3,2)])
  obtain n where n: "nodes t' i = Some n" "net (rn_p n) = net p" using t'(3) by (auto simp: got_def)
  have "\<exists>t''. route_node_lookup t' p = Some (Inr (if info n = None then None else Some i, t''))" if r: "room t'"
  proof -
    obtain m t'' where m: "route_node_lookup t' p = Some (Inr (m, t''))"
      "\<forall>j. m = Some j \<longleftrightarrow> found (nodes t') (net p) j"
      using node_lookup_ok[OF t'(2) pvalid_pwf(1)[OF assms(3)] r] by metis
    have "found (nodes t') (net p) j \<longleftrightarrow> j = i \<and> info n \<noteq> None" for j
    proof
      assume j: "found (nodes t') (net p) j"
      then have "j \<in> dom (nodes t')" "key (nodes t') j = key (nodes t') i"
        using n found_key[OF j] by (auto simp: found_def key_def)
      with keys_distinct[OF t'(2)] n(1) have "j = i" by (auto dest: inj_onD)
      with j n(1) show "j = i \<and> info n \<noteq> None" by (auto simp: found_def)
    qed (use n in \<open>auto simp: found_def\<close>)
    with m(2) have "m = (if info n = None then None else Some i)" by (cases m) auto
    with m(1) show ?thesis by auto
  qed
  with t' n(1) show ?thesis by auto
qed

theorem route_node_get_spec_witness:
  "\<exists>i t'. route_node_get (ex_table 1 (Some 7)) (ex_prefix 10 0 8) = Some (Inr (i, t')) \<and>
     got (ex_table 1 (Some 7)) (net (ex_prefix 10 0 8)) i t'"
  using route_node_get_spec[OF ex_reach ex_room, of "ex_prefix 10 0 8"]
  by (auto simp: pvalid_def ex_prefix_def copy_len_def)

text \<open>
  C8: An iterator visits every node exactly once, in the order that
  \<open>route_table_prefix_iter_cmp\<close> defines, terminates, and leaves the table as it found it, at
  whatever steps it is paused and resumed.
\<close>

theorem route_table_iteration:
  assumes "rt_reach t" "room t"
  shows "\<exists>xs. visit ps 0 route_table_iter_init t [] = Some (Inr (xs, t)) \<and> distinct xs \<and> set xs = dom (nodes t) \<and>
    sorted_wrt (\<lambda>i j. route_table_prefix_iter_cmp (rn_p (the (nodes t i))) (rn_p (the (nodes t j))) = Inr (- 1)) xs"
proof -
  obtain tr where tr: "tinv t tr" using rt_reach_tinv[OF assms(1)] by blast
  note inv = tinv_butD[OF tr]
  let ?p = "\<lambda>i. rn_p (the (nodes t i))"
  have good: "pgood (?p i)" if "i \<in> set (preorder tr)" for i
    using wft_live[OF inv(1), of i] that by auto
  have "route_table_prefix_iter_cmp (?p i) (?p j) = Inr (- 1)"
    if "i \<in> set (preorder tr)" "j \<in> set (preorder tr)" "klt (key (nodes t) i) (key (nodes t) j)" for i j
    using iter_cmp_ok[OF good[OF that(1)] pgoodD(3,2)[OF good[OF that(2)]]] that(3)
    by (auto simp: key_def)
  then have "sorted_wrt (\<lambda>i j. route_table_prefix_iter_cmp (?p i) (?p j) = Inr (- 1)) (preorder tr)"
    by (rule sorted_wrt_mono_rel[OF _ preorder_sorted[OF inv(1)]])
  with visit_ok[OF tr assms(2)] inv(2,3) show ?thesis by auto
qed

theorem route_table_iteration_witness:
  "visit even 0 route_table_iter_init (ex_table 1 (Some 7)) [] = Some (Inr ([0], ex_table 1 (Some 7)))"
proof -
  have dom: "dom (nodes (ex_table 1 (Some 7))) = {0}" by (simp add: ex_table_def)
  obtain xs where xs: "visit even 0 route_table_iter_init (ex_table 1 (Some 7)) [] =
      Some (Inr (xs, ex_table 1 (Some 7)))" "distinct xs" "set xs = {0}"
    using route_table_iteration[OF ex_reach ex_room, of even] unfolding dom by blast
  from xs(2,3) distinct_card[of xs] have "length xs = 1" by simp
  with xs(3) have "xs = [0]" by (cases xs) auto
  with xs(1) show ?thesis by simp
qed

text \<open>
  C33: \<open>route_table_free\<close> returns for every reachable table, releases every node, never follows
  a link to a node that it has released, and its closing assertion on the counter holds.
\<close>

theorem route_table_free_all:
  assumes "rt_reach t"
  shows "\<exists>t'. route_table_free t = Some (Inr t') \<and> nodes t' = Map.empty \<and> rt_count t' = 0"
  using rt_reach_tinv[OF assms] route_table_free_ok by blast

theorem route_table_free_all_witness:
  "\<exists>t'. route_table_free (ex_table 1 (Some 7)) = Some (Inr t') \<and> nodes t' = Map.empty"
  using route_table_free_all[OF ex_reach] by blast

end
