(* ===== verification/Hash_Table.thy ===== *)
theory Hash_Table
  imports Prelude "HOL-Library.Multiset"
begin

text \<open>
  Hash tables (lib/hash.c, lib/hash.h): chained buckets whose number is a power of two and
  doubles when a chain grows beyond a threshold.  The callbacks \<open>hash_key\<close> and \<open>hash_cmp\<close> are
  fields of the table, as in the source; what they promise is the locale \<open>hash_callbacks\<close>.
\<close>

section \<open>Data\<close>

text \<open>
  The buckets of a chain are linked through \<open>next\<close> and belong to the table alone; a chain is
  the list of its buckets.
\<close>

record 'd hash_backet =
  bkey :: u32
  bdata :: 'd

record 'd hash =
  hindex :: "'d hash_backet list list"
  hsize :: u32
  no_expand :: bool
  hash_key :: "'d \<Rightarrow> u32"
  hash_cmp :: "'d \<Rightarrow> 'd \<Rightarrow> bool"
  hcount :: nat

definition HASH_INITIAL_SIZE :: u32 where "HASH_INITIAL_SIZE = 256"
definition HASH_THRESHOLD :: nat where "HASH_THRESHOLD = 10"

section \<open>Operations\<close>

definition hash_create_size :: "u32 \<Rightarrow> ('d \<Rightarrow> u32) \<Rightarrow> ('d \<Rightarrow> 'd \<Rightarrow> bool) \<Rightarrow> 'd hash res" where
  "hash_create_size sz hk cmp =
     (if sz AND (sz - 1) = 0
      then Inr \<lparr>hindex = replicate (unat sz) [], hsize = sz, no_expand = False, hash_key = hk,
                hash_cmp = cmp, hcount = 0\<rparr>
      else Inl Assert_failed)"

definition hash_create :: "('d \<Rightarrow> u32) \<Rightarrow> ('d \<Rightarrow> 'd \<Rightarrow> bool) \<Rightarrow> 'd hash res" where
  "hash_create hk cmp = hash_create_size HASH_INITIAL_SIZE hk cmp"

definition hash_alloc_intern :: "'d \<Rightarrow> 'd option" where
  "hash_alloc_intern arg = Some arg"

text \<open>The two nested loops that move the buckets to the new index.\<close>

fun move_chain ::
  "u32 \<Rightarrow> 'd hash_backet list \<Rightarrow> 'd hash_backet list list \<Rightarrow> 'd hash_backet list list res" where
  "move_chain new_size [] new_index = Inr new_index"
| "move_chain new_size (hb # hbs) new_index =
     (let h = unat (bkey hb AND (new_size - 1)) in
      bindR (mem_get new_index h) (\<lambda>c.
      bindR (mem_set new_index h (hb # c)) (move_chain new_size hbs)))"

fun move_all ::
  "u32 \<Rightarrow> 'd hash_backet list list \<Rightarrow> nat \<Rightarrow> nat \<Rightarrow> 'd hash_backet list list \<Rightarrow>
   'd hash_backet list list res" where
  "move_all new_size idx i 0 new_index = Inr new_index"
| "move_all new_size idx i (Suc n) new_index =
     bindR (mem_get idx i) (\<lambda>c.
     bindR (move_chain new_size c new_index) (move_all new_size idx (i + 1) n))"

text \<open>The loops that count the buckets in long chains.\<close>

fun count_chain :: "'d hash_backet list \<Rightarrow> nat \<Rightarrow> nat \<times> bool \<Rightarrow> nat \<times> bool" where
  "count_chain [] len (losers, ne) = (losers, ne)"
| "count_chain (hb # hbs) len (losers, ne) =
     (let len = uadd 32 len 1 in
      count_chain hbs len
        (if len > HASH_THRESHOLD div 2 then uadd 32 losers 1 else losers,
         if len \<ge> HASH_THRESHOLD then True else ne))"

fun count_all :: "'d hash_backet list list \<Rightarrow> nat \<Rightarrow> nat \<Rightarrow> nat \<times> bool \<Rightarrow> (nat \<times> bool) res" where
  "count_all idx i 0 s = Inr s"
| "count_all idx i (Suc n) s = bindR (mem_get idx i) (\<lambda>c. count_all idx (i + 1) n (count_chain c 0 s))"

definition hash_expand :: "'d hash \<Rightarrow> 'd hash res" where
  "hash_expand h =
     (let new_size = hsize h * 2 in
      bindR (move_all new_size (hindex h) 0 (unat (hsize h)) (replicate (unat new_size) [])) (\<lambda>new_index.
      let h = h\<lparr>hsize := new_size, hindex := new_index\<rparr> in
      bindR (count_all (hindex h) 0 (unat (hsize h)) (0, no_expand h)) (\<lambda>(losers, ne).
      Inr (h\<lparr>no_expand := (if losers > hcount h div 2 then True else ne)\<rparr>))))"

text \<open>The search in a chain: the bucket found, or the length of the chain.\<close>

fun find_backet :: "'d hash \<Rightarrow> u32 \<Rightarrow> 'd \<Rightarrow> 'd hash_backet list \<Rightarrow> nat \<Rightarrow> 'd hash_backet + nat" where
  "find_backet h k d [] len = Inr len"
| "find_backet h k d (hb # hbs) len =
     (if bkey hb = k \<and> hash_cmp h (bdata hb) d then Inl hb
      else find_backet h k d hbs (uadd 32 len 1))"

definition hash_get :: "'d hash \<Rightarrow> 'd \<Rightarrow> ('d \<Rightarrow> 'd option) option \<Rightarrow> ('d option \<times> 'd hash) res" where
  "hash_get h d alloc_func =
     (let k = hash_key h d; i = unat (k AND (hsize h - 1)) in
      bindR (mem_get (hindex h) i) (\<lambda>c.
      case find_backet h k d c 0 of
        Inl hb \<Rightarrow> Inr (Some (bdata hb), h)
      | Inr len \<Rightarrow>
         (case alloc_func of
            None \<Rightarrow> Inr (None, h)
          | Some alloc \<Rightarrow>
             (case alloc d of
                None \<Rightarrow> Inr (None, h)
              | Some newdata \<Rightarrow>
                  bindR (if len > HASH_THRESHOLD \<and> \<not> no_expand h then hash_expand h else Inr h) (\<lambda>h.
                  let i = unat (k AND (hsize h - 1)) in
                  bindR (mem_get (hindex h) i) (\<lambda>c.
                  bindR (mem_set (hindex h) i (\<lparr>bkey = k, bdata = newdata\<rparr> # c)) (\<lambda>idx.
                  Inr (Some newdata, h\<lparr>hindex := idx, hcount := uadd 64 (hcount h) 1\<rparr>))))))))"

definition hash_lookup :: "'d hash \<Rightarrow> 'd \<Rightarrow> ('d option \<times> 'd hash) res" where
  "hash_lookup h d = hash_get h d None"

text \<open>A character is signed; its conversion extends the sign.  The string ends before a null byte.\<close>

definition string_hash_make :: "u8 list \<Rightarrow> u32" where
  "string_hash_make str = foldl (\<lambda>hash c. (hash * 33) XOR scast c) 0 (takeWhile (\<lambda>c. c \<noteq> 0) str)"

text \<open>The loop of \<open>hash_release\<close>: the chain without the bucket, and the data of the bucket.\<close>

fun release_chain :: "'d hash \<Rightarrow> u32 \<Rightarrow> 'd \<Rightarrow> 'd hash_backet list \<Rightarrow> ('d \<times> 'd hash_backet list) option" where
  "release_chain h k d [] = None"
| "release_chain h k d (hb # hbs) =
     (if bkey hb = k \<and> hash_cmp h (bdata hb) d then Some (bdata hb, hbs)
      else map_option (\<lambda>(r, c). (r, hb # c)) (release_chain h k d hbs))"

definition hash_release :: "'d hash \<Rightarrow> 'd \<Rightarrow> ('d option \<times> 'd hash) res" where
  "hash_release h d =
     (let k = hash_key h d; i = unat (k AND (hsize h - 1)) in
      bindR (mem_get (hindex h) i) (\<lambda>c.
      case release_chain h k d c of
        None \<Rightarrow> Inr (None, h)
      | Some (r, c') \<Rightarrow>
          bindR (mem_set (hindex h) i c') (\<lambda>idx.
          Inr (Some r, h\<lparr>hindex := idx, hcount := usub 64 (hcount h) 1\<rparr>))))"

text \<open>\<open>func\<close> is called for every bucket and changes the state behind \<open>arg\<close>, not the table.\<close>

fun iterate_loop ::
  "('d hash_backet \<Rightarrow> 's \<Rightarrow> 's) \<Rightarrow> 'd hash_backet list list \<Rightarrow> nat \<Rightarrow> nat \<Rightarrow> 's \<Rightarrow> 's res" where
  "iterate_loop func idx i 0 arg = Inr arg"
| "iterate_loop func idx i (Suc n) arg =
     bindR (mem_get idx i) (\<lambda>c. iterate_loop func idx (i + 1) n (fold func c arg))"

definition hash_iterate :: "'d hash \<Rightarrow> ('d hash_backet \<Rightarrow> 's \<Rightarrow> 's) \<Rightarrow> 's \<Rightarrow> 's res" where
  "hash_iterate h func arg = iterate_loop func (hindex h) 0 (unat (hsize h)) arg"

text \<open>\<open>hash_clean\<close> gives the data it hands to \<open>free_func\<close>, in order.\<close>

fun clean_loop :: "nat \<Rightarrow> nat \<Rightarrow> 'd hash \<Rightarrow> 'd list \<Rightarrow> ('d list \<times> 'd hash) res" where
  "clean_loop i 0 h freed = Inr (freed, h)"
| "clean_loop i (Suc n) h freed =
     bindR (mem_get (hindex h) i) (\<lambda>c.
     bindR (mem_set (hindex h) i []) (\<lambda>idx.
     clean_loop (i + 1) n (h\<lparr>hindex := idx, hcount := usub 64 (hcount h) (length c)\<rparr>) (freed @ map bdata c)))"

definition hash_clean :: "'d hash \<Rightarrow> ('d list \<times> 'd hash) res" where
  "hash_clean h = clean_loop 0 (unat (hsize h)) h []"

section \<open>Chains\<close>

text \<open>Every bucket is in the chain that the low bits of its key select.\<close>

definition chains_ok :: "nat \<Rightarrow> 'd hash_backet list list \<Rightarrow> bool" where
  "chains_ok k idx \<longleftrightarrow> length idx = 2 ^ k \<and>
     (\<forall>i<2 ^ k. \<forall>b\<in>set (idx ! i). unat (bkey b) mod 2 ^ k = i)"

lemma masked_key: "unat (w AND (2 ^ k - 1)) = unat w mod 2 ^ k" for w :: u32
proof -
  have "w AND (2 ^ k - 1) = take_bit k w" by (simp add: take_bit_eq_mask mask_eq_exp_minus_1)
  then have "unat (w AND (2 ^ k - 1)) = take_bit k (unat w)" by (simp only: unsigned_take_bit_eq)
  then show ?thesis by (simp add: take_bit_eq_mod)
qed

lemma unat_size: "k \<le> 31 \<Longrightarrow> unat (2 ^ k :: u32) = 2 ^ k"
proof -
  assume "k \<le> 31"
  then have "(2 :: nat) ^ k < 2 ^ 32" by (intro power_strict_increasing) auto
  moreover have "(2 ^ k :: u32) = of_nat (2 ^ k)" by simp
  ultimately show ?thesis by (simp only: unsigned_of_nat take_bit_eq_mod) simp
qed

lemma mset_concat_update:
  assumes "i < length idx"
  shows "mset (concat (idx[i := c])) + mset (idx ! i) = mset (concat idx) + mset c"
proof -
  have "concat idx = concat (take i idx) @ idx ! i @ concat (drop (Suc i) idx)"
    using id_take_nth_drop[OF assms] by (metis concat.simps(2) concat_append)
  moreover have "concat (idx[i := c]) = concat (take i idx) @ c @ concat (drop (Suc i) idx)"
    using assms by (simp add: upd_conv_take_nth_drop)
  ultimately show ?thesis by simp
qed

lemma chains_ok_update:
  assumes "chains_ok k idx" "i < 2 ^ k" "\<forall>b\<in>set c. unat (bkey b) mod 2 ^ k = i"
  shows "chains_ok k (idx[i := c])"
  using assms by (auto simp: chains_ok_def nth_list_update)

lemma filter_mset_all: "\<forall>b\<in>set xs. P b \<Longrightarrow> filter_mset P (mset xs) = mset xs"
  by (induction xs) auto

lemma filter_mset_none: "\<forall>b\<in>set xs. \<not> P b \<Longrightarrow> filter_mset P (mset xs) = {#}"
  by (induction xs) auto

lemma chain_mset:
  assumes "chains_ok k idx" "i < 2 ^ k"
  shows "mset (idx ! i) = filter_mset (\<lambda>b. unat (bkey b) mod 2 ^ k = i) (mset (concat idx))"
proof -
  have i: "i < length idx" using assms by (simp add: chains_ok_def)
  have none: "\<forall>b\<in>set (concat (take i idx) @ concat (drop (Suc i) idx)). unat (bkey b) mod 2 ^ k \<noteq> i"
  proof
    fix b assume "b \<in> set (concat (take i idx) @ concat (drop (Suc i) idx))"
    then obtain c where c: "c \<in> set (take i idx) \<union> set (drop (Suc i) idx)" "b \<in> set c" by auto
    from c(1) obtain j where "j < length idx" "j \<noteq> i" "c = idx ! j"
    proof
      assume "c \<in> set (take i idx)"
      then obtain j where "j < i" "c = idx ! j" using i by (auto simp: in_set_conv_nth)
      with i that[of j] show thesis by simp
    next
      assume "c \<in> set (drop (Suc i) idx)"
      then obtain j where "j < length idx - Suc i" "c = idx ! (Suc i + j)" by (auto simp: in_set_conv_nth)
      with that[of "Suc i + j"] show thesis by simp
    qed
    with c(2) assms(1) show "unat (bkey b) mod 2 ^ k \<noteq> i" by (auto simp: chains_ok_def)
  qed
  have all: "\<forall>b\<in>set (idx ! i). unat (bkey b) mod 2 ^ k = i"
    using assms by (auto simp: chains_ok_def)
  have "concat idx = concat (take i idx) @ idx ! i @ concat (drop (Suc i) idx)"
    using id_take_nth_drop[OF i] by (metis concat.simps(2) concat_append)
  then show ?thesis using none all by (simp add: filter_mset_all filter_mset_none)
qed

lemma move_chain_ok:
  "chains_ok k idx \<Longrightarrow> k \<le> 31 \<Longrightarrow> \<exists>idx'. move_chain (2 ^ k) c idx = Inr idx' \<and> chains_ok k idx' \<and>
     mset (concat idx') = mset c + mset (concat idx)"
proof (induction c arbitrary: idx)
  case (Cons b c)
  let ?i = "unat (bkey b) mod 2 ^ k"
  let ?idx = "idx[?i := b # idx ! ?i]"
  have i: "?i < length idx" using Cons.prems(1) by (simp add: chains_ok_def)
  have ok: "chains_ok k ?idx"
    using Cons.prems(1) by (intro chains_ok_update) (auto simp: chains_ok_def)
  from mset_concat_update[OF i, of "b # idx ! ?i"] have "mset (concat ?idx) = add_mset b (mset (concat idx))"
    by simp
  with Cons.IH[OF ok Cons.prems(2)] i show ?case by (simp add: masked_key mem_simps Let_def)
qed simp

lemma move_all_ok:
  "chains_ok k idx \<Longrightarrow> k \<le> 31 \<Longrightarrow> i + n \<le> length old \<Longrightarrow>
   \<exists>idx'. move_all (2 ^ k) old i n idx = Inr idx' \<and> chains_ok k idx' \<and>
     mset (concat idx') = mset (concat (take n (drop i old))) + mset (concat idx)"
proof (induction n arbitrary: i idx)
  case (Suc n)
  from move_chain_ok[OF Suc.prems(1,2), of "old ! i"] obtain idx1 where
    1: "move_chain (2 ^ k) (old ! i) idx = Inr idx1" "chains_ok k idx1"
    "mset (concat idx1) = mset (old ! i) + mset (concat idx)" by blast
  from Suc.IH[OF 1(2) Suc.prems(2), of "i + 1"] Suc.prems(3) obtain idx2 where
    2: "move_all (2 ^ k) old (i + 1) n idx1 = Inr idx2" "chains_ok k idx2"
    "mset (concat idx2) = mset (concat (take n (drop (i + 1) old))) + mset (concat idx1)" by auto
  have "take (Suc n) (drop i old) = old ! i # take n (drop (i + 1) old)"
    using Suc.prems(3) by (simp add: Cons_nth_drop_Suc[symmetric])
  with 1 2 Suc.prems(3) show ?case by (simp add: mem_simps ac_simps)
qed simp

text \<open>A long chain stops the expansion.\<close>

lemma count_chain_keep: "snd s \<Longrightarrow> snd (count_chain c len s)"
proof (induction c arbitrary: len s)
  case (Cons b c)
  then show ?case by (cases s) (simp add: Let_def)
next
  case Nil
  then show ?case by (cases s) simp
qed

lemma count_chain_long:
  "len \<le> 10 \<Longrightarrow> HASH_THRESHOLD \<le> len + length c \<Longrightarrow> c \<noteq> [] \<Longrightarrow> snd (count_chain c len s)"
proof (induction c len s rule: count_chain.induct)
  case (2 hb hbs len losers ne)
  have len: "uadd 32 len 1 = len + 1" using "2.prems"(1) by (simp add: uadd_def)
  show ?case
  proof (cases "HASH_THRESHOLD \<le> len + 1")
    case True
    then show ?thesis using len by (simp add: Let_def count_chain_keep)
  next
    case False
    then have "hbs \<noteq> []" "len + 1 \<le> 10" using "2.prems" by (auto simp: HASH_THRESHOLD_def)
    with "2.IH"[OF refl] "2.prems" len False show ?thesis by (simp add: Let_def)
  qed
qed simp

lemma count_all_ok: "i + n \<le> length idx \<Longrightarrow> \<exists>s'. count_all idx i n s = Inr s' \<and>
    (snd s \<or> (\<exists>j\<in>{i..<i + n}. HASH_THRESHOLD \<le> length (idx ! j)) \<longrightarrow> snd s')"
proof (induction n arbitrary: i s)
  case (Suc n)
  let ?s = "count_chain (idx ! i) 0 s"
  from Suc.IH[of "i + 1" ?s] Suc.prems obtain s' where s': "count_all idx (i + 1) n ?s = Inr s'"
    "snd ?s \<or> (\<exists>j\<in>{i + 1..<i + 1 + n}. HASH_THRESHOLD \<le> length (idx ! j)) \<longrightarrow> snd s'" by auto
  have "snd ?s" if "snd s \<or> HASH_THRESHOLD \<le> length (idx ! i)"
    using that count_chain_keep[of s] count_chain_long[of 0 "idx ! i" s]
    by (cases "idx ! i") (auto simp: HASH_THRESHOLD_def)
  moreover have "{i..<i + Suc n} = insert i {i + 1..<i + 1 + n}" by auto
  ultimately show ?case using s' Suc.prems by (auto simp: mem_simps)
qed simp

section \<open>What the callbacks promise\<close>

text \<open>
  \<open>hash_cmp\<close> is an equivalence on the data that are used and \<open>hash_key\<close> respects it.  Keys lie
  below \<open>2 ^ 30\<close>: with 32 bit keys chosen at will, the number of buckets can be driven up to
  \<open>2 ^ 31\<close>, where doubling it overflows (see \<open>hash_expand_overflow\<close>).
\<close>

locale hash_callbacks =
  fixes hk :: "'d \<Rightarrow> u32" and cmp :: "'d \<Rightarrow> 'd \<Rightarrow> bool" and data_ok :: "'d \<Rightarrow> bool"
  assumes cmp_refl: "data_ok x \<Longrightarrow> cmp x x"
    and cmp_sym: "data_ok x \<Longrightarrow> data_ok y \<Longrightarrow> cmp x y \<Longrightarrow> cmp y x"
    and cmp_trans: "data_ok x \<Longrightarrow> data_ok y \<Longrightarrow> data_ok z \<Longrightarrow> cmp x y \<Longrightarrow> cmp y z \<Longrightarrow> cmp x z"
    and cmp_key: "data_ok x \<Longrightarrow> data_ok y \<Longrightarrow> cmp x y \<Longrightarrow> hk x = hk y"
    and key_bound: "data_ok x \<Longrightarrow> unat (hk x) < 2 ^ 30"
begin

definition backets_ok :: "'d hash_backet multiset \<Rightarrow> bool" where
  "backets_ok M \<longleftrightarrow>
     (\<forall>b\<in>#M. bkey b = hk (bdata b) \<and> data_ok (bdata b)) \<and>
     (\<forall>b. count M b \<le> 1) \<and> (\<forall>b\<in>#M. \<forall>b'\<in>#M. cmp (bdata b) (bdata b') \<longrightarrow> b = b')"

definition hash_wf :: "nat \<Rightarrow> 'd hash \<Rightarrow> bool" where
  "hash_wf k h \<longleftrightarrow> k \<le> 31 \<and> (k = 31 \<longrightarrow> no_expand h) \<and> hsize h = 2 ^ k \<and> hash_key h = hk \<and> hash_cmp h = cmp \<and>
     chains_ok k (hindex h) \<and> backets_ok (mset (concat (hindex h))) \<and>
     hcount h = length (concat (hindex h)) mod 2 ^ 64"

definition matches :: "'d hash \<Rightarrow> 'd \<Rightarrow> 'd hash_backet \<Rightarrow> bool" where
  "matches h d b \<longleftrightarrow> b \<in> set (concat (hindex h)) \<and> cmp (bdata b) d"

lemma wf_create: "\<exists>h. hash_create hk cmp = Inr h \<and> hash_wf 8 h \<and> concat (hindex h) = []"
proof -
  have "(2 :: u32) ^ 8 = 256" by simp
  then show ?thesis
    by (simp add: hash_create_def hash_create_size_def HASH_INITIAL_SIZE_def hash_wf_def chains_ok_def backets_ok_def
        concat_eq_Nil_conv)
qed

text \<open>The bucket that matches a datum is in the chain that the datum selects, and unique.\<close>

lemma wf_chain:
  assumes "hash_wf k h" "data_ok d"
  shows "mem_get (hindex h) (unat (hk d AND (hsize h - 1))) = Inr (hindex h ! (unat (hk d) mod 2 ^ k))"
    "unat (hk d) mod 2 ^ k < length (hindex h)"
    "b \<in> set (hindex h ! (unat (hk d) mod 2 ^ k)) \<and> bkey b = hk d \<and> cmp (bdata b) d \<longleftrightarrow> matches h d b"
proof -
  let ?i = "unat (hk d) mod 2 ^ k"
  show i: "?i < length (hindex h)" using assms(1) by (simp add: hash_wf_def chains_ok_def)
  with assms(1) show "mem_get (hindex h) (unat (hk d AND (hsize h - 1))) = Inr (hindex h ! ?i)"
    by (simp add: hash_wf_def masked_key mem_simps)
  have ch: "chains_ok k (hindex h)" using assms(1) by (simp add: hash_wf_def)
  have "set_mset (mset (hindex h ! ?i)) =
      set_mset (filter_mset (\<lambda>b. unat (bkey b) mod 2 ^ k = ?i) (mset (concat (hindex h))))"
    by (rule arg_cong[OF chain_mset[OF ch]]) simp
  then have "set (hindex h ! ?i) = {b \<in> set (concat (hindex h)). unat (bkey b) mod 2 ^ k = ?i}"
    by (simp only: set_mset_mset set_mset_filter)
  moreover have "bkey b = hk d" if "matches h d b"
    using that assms cmp_key[of "bdata b" d] by (auto simp: matches_def hash_wf_def backets_ok_def)
  ultimately show "b \<in> set (hindex h ! ?i) \<and> bkey b = hk d \<and> cmp (bdata b) d \<longleftrightarrow> matches h d b"
    by (cases "matches h d b") (auto simp: matches_def simp del: set_concat)
qed

lemma matches_unique:
  assumes "hash_wf k h" "data_ok d" "matches h d b" "matches h d b'"
  shows "b = b'"
proof -
  have "data_ok (bdata b)" "data_ok (bdata b')" using assms by (auto simp: hash_wf_def backets_ok_def matches_def)
  moreover have "cmp (bdata b) d" "cmp (bdata b') d" using assms by (auto simp: matches_def)
  ultimately have "cmp (bdata b) (bdata b')" using cmp_sym cmp_trans assms(2) by blast
  with assms show ?thesis by (auto simp: hash_wf_def backets_ok_def matches_def)
qed

lemma find_backet_ok:
  "hash_cmp h = cmp \<Longrightarrow> case find_backet h q d c len of
     Inl b \<Rightarrow> b \<in> set c \<and> bkey b = q \<and> cmp (bdata b) d
   | Inr l \<Rightarrow> (\<forall>b\<in>set c. \<not> (bkey b = q \<and> cmp (bdata b) d)) \<and> (l > 10 \<longrightarrow> len \<le> 10 \<longrightarrow> len + length c > 10)"
proof (induction c arbitrary: len)
  case (Cons b c)
  show ?case
  proof (cases "bkey b = q \<and> cmp (bdata b) d")
    case True
    with Cons.prems show ?thesis by simp
  next
    case False
    have "10 < Suc (len + length c)" if "10 < l" "len \<le> 10" "find_backet h q d c (uadd 32 len 1) = Inr l" for l
    proof (cases "len = 10")
      case ne: False
      with that have "uadd 32 len 1 = Suc len" "Suc len \<le> 10" by (auto simp: uadd_def)
      with Cons.IH[OF Cons.prems, of "Suc len"] that show ?thesis by simp
    qed simp
    with False Cons.IH[OF Cons.prems, of "uadd 32 len 1"] Cons.prems show ?thesis
      by (auto split: sum.splits)
  qed
qed simp

text \<open>Expanding keeps the buckets; a table of \<open>2 ^ 31\<close> chains is not expanded again.\<close>

lemma hash_expand_ok:
  assumes wf: "hash_wf k h" and ne: "\<not> no_expand h" and long: "i < 2 ^ k" "length (hindex h ! i) > 10"
  shows "\<exists>h'. hash_expand h = Inr h' \<and> hash_wf (k + 1) h' \<and>
    mset (concat (hindex h')) = mset (concat (hindex h))"
proof -
  have k: "k \<le> 30" using wf ne by (auto simp: hash_wf_def le_Suc_eq)
  have ch: "chains_ok k (hindex h)" and sz: "hsize h = 2 ^ k" using wf by (auto simp: hash_wf_def)
  have sz': "hsize h * 2 = 2 ^ (k + 1)" "unat (2 ^ (k + 1) :: u32) = 2 ^ (k + 1)" "unat (hsize h) = 2 ^ k"
    using k sz unat_size[of k] unat_size[of "k + 1"] by auto
  have emp: "chains_ok (k + 1) (replicate (2 ^ (k + 1)) [])" by (simp add: chains_ok_def)
  obtain idx where idx: "move_all (2 ^ (k + 1)) (hindex h) 0 (2 ^ k) (replicate (2 ^ (k + 1)) []) = Inr idx"
    "chains_ok (k + 1) idx" "mset (concat idx) = mset (concat (hindex h))"
    using move_all_ok[OF emp, of 0 "2 ^ k" "hindex h"] k ch by (auto simp: chains_ok_def)
  obtain s where s: "count_all idx 0 (2 ^ (k + 1)) (0, no_expand h) = Inr s"
    "(\<exists>j\<in>{0..<2 ^ (k + 1)}. HASH_THRESHOLD \<le> length (idx ! j)) \<longrightarrow> snd s"
    using count_all_ok[of 0 "2 ^ (k + 1)" idx "(0, no_expand h)"] idx(2) by (auto simp: chains_ok_def)
  have stop: "snd s" if k30: "k = 30"
  proof -
    have same: "unat (bkey b) = i" if "b \<in> set (hindex h ! i)" for b
    proof -
      have "b \<in> set (concat (hindex h))"
        using that long(1) ch by (auto simp: chains_ok_def)
      then have "unat (bkey b) < 2 ^ k" using wf key_bound k30 by (auto simp: hash_wf_def backets_ok_def)
      moreover have "unat (bkey b) mod 2 ^ k = i" using ch long(1) that by (simp add: chains_ok_def)
      ultimately show ?thesis by simp
    qed
    have i: "i < 2 ^ (k + 1)" using long(1) by simp
    have "mset (hindex h ! i) = filter_mset (\<lambda>b. unat (bkey b) mod 2 ^ (k + 1) = i) (mset (hindex h ! i))"
      using same i by (intro filter_mset_all[symmetric]) simp
    also have "\<dots> \<subseteq># filter_mset (\<lambda>b. unat (bkey b) mod 2 ^ (k + 1) = i) (mset (concat (hindex h)))"
      using chain_mset[OF ch long(1)] by (intro multiset_filter_mono) simp
    also have "\<dots> = mset (idx ! i)" using chain_mset[OF idx(2) i] idx(3) by simp
    finally have "length (hindex h ! i) \<le> length (idx ! i)" using size_mset_mono by fastforce
    with long(2) have "HASH_THRESHOLD \<le> length (idx ! i)" by (simp add: HASH_THRESHOLD_def)
    with i s(2) show ?thesis by auto
  qed
  let ?h = "h\<lparr>hsize := 2 ^ (k + 1), hindex := idx, no_expand := (if fst s > hcount h div 2 then True else snd s)\<rparr>"
  have "hash_expand h = Inr ?h"
    using idx(1) s(1) sz' by (cases s) (simp add: hash_expand_def Let_def)
  moreover have "hash_wf (k + 1) ?h"
    using wf k idx(2,3) stop mset_eq_length[OF idx(3)] by (auto simp: hash_wf_def)
  ultimately show ?thesis using idx(3) by auto
qed

text \<open>The data in the table.\<close>

definition datas :: "'d hash \<Rightarrow> 'd set" where
  "datas h = bdata ` set (concat (hindex h))"

lemma datas_ok: "hash_wf k h \<Longrightarrow> e \<in> datas h \<Longrightarrow> data_ok e"
  by (auto simp: hash_wf_def backets_ok_def datas_def)

lemma datas_unique:
  assumes "hash_wf k h" "data_ok d" "e \<in> datas h" "cmp e d" "e' \<in> datas h" "cmp e' d"
  shows "e = e'"
proof -
  obtain b b' where "matches h d b" "matches h d b'" "e = bdata b" "e' = bdata b'"
    using assms(3-6) by (auto simp: datas_def matches_def)
  with matches_unique[OF assms(1,2)] show ?thesis by blast
qed

lemma find_ok:
  assumes "hash_wf k h" "data_ok d"
  obtains (found) b where "find_backet h (hk d) d (hindex h ! (unat (hk d) mod 2 ^ k)) 0 = Inl b"
      "bdata b \<in> datas h" "cmp (bdata b) d"
    | (absent) len where "find_backet h (hk d) d (hindex h ! (unat (hk d) mod 2 ^ k)) 0 = Inr len"
      "\<forall>e\<in>datas h. \<not> cmp e d" "len > 10 \<Longrightarrow> length (hindex h ! (unat (hk d) mod 2 ^ k)) > 10"
proof -
  let ?c = "hindex h ! (unat (hk d) mod 2 ^ k)"
  have c: "hash_cmp h = cmp" using assms(1) by (simp add: hash_wf_def)
  note chain = wf_chain(3)[OF assms]
  show thesis
  proof (cases "find_backet h (hk d) d ?c 0")
    case (Inl b)
    with find_backet_ok[OF c, where q = "hk d" and d = d and c = ?c and len = 0] chain[of b] found show thesis
      by (auto simp: matches_def datas_def simp del: set_concat)
  next
    case (Inr len)
    with find_backet_ok[OF c, where q = "hk d" and d = d and c = ?c and len = 0] have "\<not> matches h d b" for b using chain[of b] by auto
    then have "\<forall>e\<in>datas h. \<not> cmp e d" by (auto simp: matches_def datas_def simp del: set_concat)
    with Inr find_backet_ok[OF c, where q = "hk d" and d = d and c = ?c and len = 0] absent show thesis by auto
  qed
qed

lemma hash_lookup_ok:
  assumes "hash_wf k h" "data_ok d"
  shows "\<exists>r. hash_lookup h d = Inr (r, h) \<and>
    (case r of None \<Rightarrow> \<forall>e\<in>datas h. \<not> cmp e d | Some e \<Rightarrow> e \<in> datas h \<and> cmp e d)"
proof -
  have hk: "hash_key h = hk" using assms(1) by (simp add: hash_wf_def)
  show ?thesis
    by (rule find_ok[OF assms]) (simp_all add: hash_lookup_def hash_get_def Let_def hk wf_chain(1)[OF assms])
qed

lemma backets_insert:
  assumes "backets_ok M" "data_ok d" "\<forall>b\<in>#M. \<not> cmp (bdata b) d"
  shows "backets_ok (add_mset \<lparr>bkey = hk d, bdata = d\<rparr> M)"
proof -
  have "\<not> cmp d (bdata b)" if "b \<in># M" for b
    using assms that cmp_sym[of d "bdata b"] by (auto simp: backets_ok_def)
  moreover have "\<lparr>bkey = hk d, bdata = d\<rparr> \<notin># M" using assms cmp_refl by auto
  ultimately show ?thesis using assms by (auto simp: backets_ok_def not_in_iff)
qed

lemma push_ok:
  assumes wf: "hash_wf k h" and d: "data_ok d" "\<forall>e\<in>datas h. \<not> cmp e d"
  defines "i \<equiv> unat (hk d) mod 2 ^ k"
  defines "h' \<equiv> h\<lparr>hindex := (hindex h)[i := \<lparr>bkey = hk d, bdata = d\<rparr> # hindex h ! i],
    hcount := uadd 64 (hcount h) 1\<rparr>"
  shows "hash_wf k h'" "datas h' = insert d (datas h)"
proof -
  let ?b = "\<lparr>bkey = hk d, bdata = d\<rparr>"
  have i: "i < length (hindex h)" using wf_chain(2)[OF wf d(1)] by (simp add: i_def)
  have M: "mset (concat (hindex h')) = add_mset ?b (mset (concat (hindex h)))"
    using mset_concat_update[OF i, of "?b # hindex h ! i"] by (simp add: h'_def)
  then have "set (concat (hindex h')) = insert ?b (set (concat (hindex h)))"
    by (metis set_mset_add_mset_insert set_mset_mset)
  then show "datas h' = insert d (datas h)" by (simp add: datas_def del: set_concat)
  have "length (concat (hindex h')) = Suc (length (concat (hindex h)))"
    using arg_cong[OF M, of size] by simp
  moreover have "backets_ok (mset (concat (hindex h')))"
    unfolding M using wf d by (intro backets_insert) (auto simp: hash_wf_def datas_def)
  moreover have "chains_ok k (hindex h')"
  proof -
    have ch: "chains_ok k (hindex h)" using wf by (simp add: hash_wf_def)
    then have "chains_ok k ((hindex h)[i := ?b # hindex h ! i])"
      by (intro chains_ok_update) (auto simp: i_def chains_ok_def)
    then show ?thesis by (simp add: h'_def)
  qed
  ultimately show "hash_wf k h'"
    using wf by (simp add: hash_wf_def h'_def uadd_def mod_Suc_eq)
qed

lemma hash_intern_ok:
  assumes wf: "hash_wf k h" and d: "data_ok d"
  shows "\<exists>e k' h'. hash_get h d (Some hash_alloc_intern) = Inr (Some e, h') \<and> hash_wf k' h' \<and>
    (if \<exists>x\<in>datas h. cmp x d then e \<in> datas h \<and> cmp e d \<and> datas h' = datas h
     else e = d \<and> datas h' = insert d (datas h))"
proof -
  have hk: "hash_key h = hk" using wf by (simp add: hash_wf_def)
  let ?i = "\<lambda>k. unat (hk d) mod 2 ^ k"
  show ?thesis
  proof (rule find_ok[OF assms])
    fix b assume "find_backet h (hk d) d (hindex h ! ?i k) 0 = Inl b" "bdata b \<in> datas h" "cmp (bdata b) d"
    then show ?thesis using wf by (auto simp: hash_get_def Let_def hk wf_chain(1)[OF assms])
  next
    fix len assume f: "find_backet h (hk d) d (hindex h ! ?i k) 0 = Inr len" "\<forall>e\<in>datas h. \<not> cmp e d"
      "len > 10 \<Longrightarrow> length (hindex h ! ?i k) > 10"
    let ?m = "if len > HASH_THRESHOLD \<and> \<not> no_expand h then hash_expand h else Inr h"
    obtain k1 h1 where h1: "?m = Inr h1" "hash_wf k1 h1" "mset (concat (hindex h1)) = mset (concat (hindex h))"
    proof (cases "len > HASH_THRESHOLD \<and> \<not> no_expand h")
      case True
      with hash_expand_ok[OF wf, of "?i k"] f(3) that show thesis by (auto simp: HASH_THRESHOLD_def)
    next
      case False
      with wf that show thesis by auto
    qed
    from h1(3) have same: "datas h1 = datas h" unfolding datas_def by (metis set_mset_mset)
    note push = push_ok[OF h1(2) d, unfolded same, OF f(2)]
    have "hash_get h d (Some hash_alloc_intern) = Inr (Some d,
        h1\<lparr>hindex := (hindex h1)[?i k1 := \<lparr>bkey = hk d, bdata = d\<rparr> # hindex h1 ! ?i k1],
           hcount := uadd 64 (hcount h1) 1\<rparr>)"
      using f(1) h1(1) wf_chain(1,2)[OF h1(2) d] h1(2)
      by (simp add: hash_get_def Let_def hk wf_chain(1)[OF assms] hash_alloc_intern_def mem_simps hash_wf_def masked_key
          split del: if_split)
    with push f(2) show ?thesis by auto
  qed
qed

lemma release_chain_ok:
  "hash_cmp h = cmp \<Longrightarrow> case release_chain h q d c of
     None \<Rightarrow> \<forall>b\<in>set c. \<not> (bkey b = q \<and> cmp (bdata b) d)
   | Some (r, c') \<Rightarrow> \<exists>b. b \<in> set c \<and> bkey b = q \<and> cmp (bdata b) d \<and> r = bdata b \<and> mset c = add_mset b (mset c')"
  by (induction c) (auto split: option.splits)

lemma backets_remove: "backets_ok (add_mset b M) \<Longrightarrow> backets_ok M \<and> b \<notin># M"
  by (auto simp: backets_ok_def not_in_iff split: if_splits) (metis Suc_le_lessD Suc_n_not_le_n le_0_eq le_Suc_eq less_Suc0)+

lemma hash_release_ok:
  assumes wf: "hash_wf k h" and d: "data_ok d"
  shows "\<exists>r h'. hash_release h d = Inr (r, h') \<and> hash_wf k h' \<and>
    (case r of None \<Rightarrow> \<forall>e\<in>datas h. \<not> cmp e d | Some e \<Rightarrow> e \<in> datas h \<and> cmp e d) \<and>
    datas h' = {e \<in> datas h. \<not> cmp e d}"
proof -
  let ?i = "unat (hk d) mod 2 ^ k"
  let ?c = "hindex h ! ?i"
  have h: "hash_key h = hk" "hash_cmp h = cmp" "hsize h = 2 ^ k" "chains_ok k (hindex h)"
    using wf by (auto simp: hash_wf_def)
  note chain = wf_chain[OF assms]
  have start: "hash_release h d = (case release_chain h (hk d) d ?c of None \<Rightarrow> Inr (None, h)
      | Some (r, c') \<Rightarrow> Inr (Some r, h\<lparr>hindex := (hindex h)[?i := c'], hcount := usub 64 (hcount h) 1\<rparr>))"
    using chain(2) by (simp add: hash_release_def Let_def h masked_key mem_simps split: option.splits)
  show ?thesis
  proof (cases "release_chain h (hk d) d ?c")
    case None
    have "\<not> matches h d b" for b
      using release_chain_ok[OF h(2), where q = "hk d" and d = d and c = ?c] None chain(3)[of b] by auto
    then have "\<forall>e\<in>datas h. \<not> cmp e d" by (auto simp: matches_def datas_def simp del: set_concat)
    with None start wf show ?thesis by auto
  next
    case (Some p)
    then obtain r c' where p: "p = (r, c')" by (cases p) auto
    from release_chain_ok[OF h(2), where q = "hk d" and d = d and c = ?c] Some p obtain b where
      b: "b \<in> set ?c" "bkey b = hk d" "cmp (bdata b) d" "r = bdata b" "mset ?c = add_mset b (mset c')" by auto
    let ?h = "h\<lparr>hindex := (hindex h)[?i := c'], hcount := usub 64 (hcount h) 1\<rparr>"
    have M: "mset (concat (hindex h)) = add_mset b (mset (concat (hindex ?h)))"
      using mset_concat_update[OF chain(2), of c'] b(5) by simp
    have "backets_ok (add_mset b (mset (concat (hindex ?h))))"
      using wf unfolding M[symmetric] by (simp add: hash_wf_def)
    from backets_remove[OF this] have ok: "backets_ok (mset (concat (hindex ?h)))"
      "b \<notin> set (concat (hindex ?h))" by (simp_all only: set_mset_mset not_False_eq_True)
    have S: "set (concat (hindex h)) = insert b (set (concat (hindex ?h)))"
      using M by (metis set_mset_add_mset_insert set_mset_mset)
    have "chains_ok k (hindex ?h)"
    proof -
      have "set c' \<subseteq> set ?c" using b(5) by (metis set_mset_add_mset_insert set_mset_mset subset_insertI)
      then have "chains_ok k ((hindex h)[?i := c'])"
        using h(4) by (intro chains_ok_update) (auto simp: chains_ok_def)
      then show ?thesis by simp
    qed
    moreover have "usub 64 (hcount h) 1 = length (concat (hindex ?h)) mod 2 ^ 64"
      using wf arg_cong[OF M, of size] usub_mod[of 64 "length (concat (hindex ?h))"] by (simp add: hash_wf_def)
    ultimately have "hash_wf k ?h" using wf ok(1) by (simp add: hash_wf_def)
    moreover have "r \<in> datas h" using b(4) S by (auto simp: datas_def simp del: set_concat)
    moreover have "datas ?h = {e \<in> datas h. \<not> cmp e d}"
    proof -
      have "\<not> cmp (bdata b') d" if "b' \<in> set (concat (hindex ?h))" for b'
      proof
        assume "cmp (bdata b') d"
        then have "matches h d b'" using that S by (simp add: matches_def del: set_concat)
        moreover have "matches h d b" using b(3) S by (simp add: matches_def del: set_concat)
        ultimately show False using matches_unique[OF assms] that ok(2) by blast
      qed
      then show ?thesis using S b(3) by (auto simp: datas_def simp del: set_concat)
    qed
    ultimately show ?thesis using start Some p b(3,4) by auto
  qed
qed

end

section \<open>Refinement\<close>

text \<open>
  What a table promises: it is a collection of data of which no two are equal for \<open>hash_cmp\<close>;
  interning returns the member equal to the argument, or adds the argument.
\<close>

datatype 'd hash_op = Intern 'd | Lookup 'd | Release 'd

primrec op_data :: "'d hash_op \<Rightarrow> 'd" where
  "op_data (Intern d) = d"
| "op_data (Lookup d) = d"
| "op_data (Release d) = d"

fun hash_exec :: "'d hash_op \<Rightarrow> 'd hash \<Rightarrow> ('d option \<times> 'd hash) res" where
  "hash_exec (Intern d) h = hash_get h d (Some hash_alloc_intern)"
| "hash_exec (Lookup d) h = hash_lookup h d"
| "hash_exec (Release d) h = hash_release h d"

fun hash_run :: "'d hash_op list \<Rightarrow> 'd hash \<Rightarrow> 'd option list res" where
  "hash_run [] h = Inr []"
| "hash_run (x # xs) h = bindR (hash_exec x h) (\<lambda>(r, h). bindR (hash_run xs h) (\<lambda>rs. Inr (r # rs)))"

fun pool_exec :: "('d \<Rightarrow> 'd \<Rightarrow> bool) \<Rightarrow> 'd hash_op \<Rightarrow> 'd list \<Rightarrow> 'd option \<times> 'd list" where
  "pool_exec cmp (Intern d) S =
     (case find (\<lambda>e. cmp e d) S of Some e \<Rightarrow> (Some e, S) | None \<Rightarrow> (Some d, d # S))"
| "pool_exec cmp (Lookup d) S = (find (\<lambda>e. cmp e d) S, S)"
| "pool_exec cmp (Release d) S = (find (\<lambda>e. cmp e d) S, filter (\<lambda>e. \<not> cmp e d) S)"

fun pool_run :: "('d \<Rightarrow> 'd \<Rightarrow> bool) \<Rightarrow> 'd hash_op list \<Rightarrow> 'd list \<Rightarrow> 'd option list" where
  "pool_run cmp [] S = []"
| "pool_run cmp (x # xs) S = (let (r, S) = pool_exec cmp x S in r # pool_run cmp xs S)"

context hash_callbacks
begin

lemma find_datas:
  assumes "hash_wf k h" "data_ok d" "set S = datas h"
    and "case r of None \<Rightarrow> \<forall>e\<in>datas h. \<not> cmp e d | Some e \<Rightarrow> e \<in> datas h \<and> cmp e d"
  shows "find (\<lambda>e. cmp e d) S = r"
proof (cases r)
  case None
  with assms(3,4) show ?thesis by (auto simp: find_None_iff)
next
  case (Some e)
  with assms(3,4) obtain e' where e': "find (\<lambda>e. cmp e d) S = Some e'"
    by (cases "find (\<lambda>e. cmp e d) S") (auto simp: find_None_iff)
  then have "e' \<in> datas h" "cmp e' d" using assms(3) by (auto simp: find_Some_iff)
  with datas_unique[OF assms(1,2)] Some assms(4) e' show ?thesis by auto
qed

lemma exec_refines:
  assumes wf: "hash_wf k h" and d: "data_ok (op_data x)" and S: "set S = datas h"
  shows "\<exists>r k' h' S'. hash_exec x h = Inr (r, h') \<and> pool_exec cmp x S = (r, S') \<and> hash_wf k' h' \<and> set S' = datas h'"
proof (cases x)
  case (Intern d)
  with d have d: "data_ok d" by simp
  obtain e k' h' where e: "hash_get h d (Some hash_alloc_intern) = Inr (Some e, h')" "hash_wf k' h'"
    "if \<exists>x\<in>datas h. cmp x d then e \<in> datas h \<and> cmp e d \<and> datas h' = datas h
     else e = d \<and> datas h' = insert d (datas h)"
    using hash_intern_ok[OF wf d] by blast
  show ?thesis
  proof (cases "\<exists>x\<in>datas h. cmp x d")
    case True
    with e find_datas[OF wf d S, of "Some e"] Intern S show ?thesis by auto
  next
    case False
    with e find_datas[OF wf d S, of None] Intern S show ?thesis by auto
  qed
next
  case (Lookup d)
  with d have d: "data_ok d" by simp
  obtain r where "hash_lookup h d = Inr (r, h)"
    "case r of None \<Rightarrow> \<forall>e\<in>datas h. \<not> cmp e d | Some e \<Rightarrow> e \<in> datas h \<and> cmp e d"
    using hash_lookup_ok[OF wf d] by blast
  with find_datas[OF wf d S] wf S Lookup show ?thesis by auto
next
  case (Release d)
  with d have d: "data_ok d" by simp
  obtain r h' where "hash_release h d = Inr (r, h')" "hash_wf k h'" "datas h' = {e \<in> datas h. \<not> cmp e d}"
    "case r of None \<Rightarrow> \<forall>e\<in>datas h. \<not> cmp e d | Some e \<Rightarrow> e \<in> datas h \<and> cmp e d"
    using hash_release_ok[OF wf d] by blast
  with find_datas[OF wf d S] S Release show ?thesis by auto
qed

lemma run_refines:
  "hash_wf k h \<Longrightarrow> \<forall>x\<in>set ops. data_ok (op_data x) \<Longrightarrow> set S = datas h \<Longrightarrow>
   hash_run ops h = Inr (pool_run cmp ops S)"
proof (induction ops arbitrary: k h S)
  case (Cons x ops)
  from exec_refines[OF Cons.prems(1), of x S] Cons.prems(2,3) obtain r k' h' S' where
    "hash_exec x h = Inr (r, h')" "pool_exec cmp x S = (r, S')" "hash_wf k' h'" "set S' = datas h'" by auto
  with Cons.IH[of k' h' S'] Cons.prems(2) show ?case by simp
qed simp

lemma create_refines:
  assumes "\<forall>x\<in>set ops. data_ok (op_data x)"
  shows "bindR (hash_create hk cmp) (hash_run ops) = Inr (pool_run cmp ops [])"
proof -
  obtain h where "hash_create hk cmp = Inr h" "hash_wf 8 h" "concat (hindex h) = []" using wf_create by blast
  with run_refines[of 8 h ops "[]"] assms show ?thesis by (simp add: datas_def del: set_concat)
qed

end

text \<open>Strings under \<open>string_hash_make\<close> and \<open>strcmp\<close>.\<close>

interpretation strings: hash_callbacks string_hash_make "\<lambda>a b. takeWhile (\<lambda>c. c \<noteq> 0) a = takeWhile (\<lambda>c. c \<noteq> 0) b"
  "\<lambda>s. unat (string_hash_make s) < 2 ^ 30"
  by unfold_locales (auto simp: string_hash_make_def)

text \<open>
  C7: Hash tables refine a pool of data: for callbacks that keep their contract, every
  sequence of \<open>hash_get\<close> (with \<open>hash_alloc_intern\<close>), \<open>hash_lookup\<close> and \<open>hash_release\<close> on a
  fresh table succeeds, whatever expansions happen on the way, and answers as the pool does.
\<close>

theorem hash_refines_pool:
  assumes "hash_callbacks hk cmp data_ok" "\<forall>x\<in>set ops. data_ok (op_data x)"
  shows "bindR (hash_create hk cmp) (hash_run ops) = Inr (pool_run cmp ops [])"
  by (rule hash_callbacks.create_refines[OF assms])

theorem hash_refines_pool_witness:
  "bindR (hash_create string_hash_make (\<lambda>a b. takeWhile (\<lambda>c. c \<noteq> 0) a = takeWhile (\<lambda>c. c \<noteq> 0) b))
     (hash_run [Intern [101, 116, 104, 0], Lookup [101, 116, 104, 0, 7], Release [101], Release [101, 116, 104], Lookup [101, 116, 104]])
   = Inr [Some [101, 116, 104, 0], Some [101, 116, 104, 0], None, Some [101, 116, 104, 0], None]"
proof -
  have "\<forall>x\<in>set [Intern [101, 116, 104, 0], Lookup [101, 116, 104, 0, 7], Release [101], Release [101, 116, 104], Lookup [101, 116, 104]].
      unat (string_hash_make (op_data x)) < 2 ^ 30"
    by (simp add: string_hash_make_def)
  from hash_refines_pool[OF strings.hash_callbacks_axioms this] show ?thesis by simp
qed

section \<open>Where the size arithmetic fails\<close>

lemma move_all_no_room:
  "i + n \<le> length old \<Longrightarrow> \<exists>j\<in>{i..<i + n}. old ! j \<noteq> [] \<Longrightarrow> move_all sz old i n [] = Inl Mem_fault"
proof (induction n arbitrary: i)
  case (Suc n)
  show ?case
  proof (cases "old ! i")
    case Nil
    then have "\<exists>j\<in>{i + 1..<i + 1 + n}. old ! j \<noteq> []"
      using Suc.prems(2) by (metis Suc_eq_plus1 add_Suc_right add_Suc_shift atLeastLessThan_iff le_neq_implies_less Suc_leI)
    with Suc.IH[of "i + 1"] Suc.prems(1) Nil show ?thesis by (simp add: mem_simps)
  next
    case (Cons b c)
    then show ?thesis using Suc.prems(1) by (simp add: mem_simps Let_def) (simp add: mem_get_def)
  qed
qed simp

text \<open>
  Doubling \<open>2 ^ 31\<close> chains gives a new index of size zero, and the first bucket that is moved is
  written outside it.
\<close>

lemma hash_expand_overflow:
  assumes "hsize h = 2 ^ 31" "length (hindex h) = 2 ^ 31" "concat (hindex h) \<noteq> []"
  shows "hash_expand h = Inl Mem_fault"
proof -
  obtain j where "j < 2 ^ 31" "hindex h ! j \<noteq> []"
    using assms(2,3) by (metis concat_eq_Nil_conv in_set_conv_nth)
  then have "\<exists>j\<in>{0..<0 + 2 ^ 31}. hindex h ! j \<noteq> []" by (intro bexI[of _ j]) simp_all
  from move_all_no_room[OF _ this] assms(2) have "move_all 0 (hindex h) 0 (2 ^ 31) [] = Inl Mem_fault" by simp
  moreover have "hsize h * 2 = 0" "unat (hsize h) = 2 ^ 31" using assms(1) by simp_all
  ultimately show ?thesis by (simp add: hash_expand_def Let_def)
qed

text \<open>A size of zero passes the assertion of \<open>hash_create_size\<close>; the table cannot be used.\<close>

lemma hash_size_zero:
  "\<exists>h. hash_create_size 0 hk cmp = Inr h \<and> hash_get h d f = Inl Mem_fault"
  by (simp add: hash_create_size_def hash_get_def mem_get_def Let_def)
end
