(* ===== verification/Plist.thy ===== *)
theory Plist
  imports Prefix Linklist
begin

text \<open>
  Prefix lists (lib/plist.c, lib/plist\_int.h): sequences of rules that permit or deny
  prefixes, kept sorted by their sequence numbers.  The links \<open>next\<close> and \<open>prev\<close> of the entries
  are the links of the node heap of lists; the other fields of an entry are its data.  The
  commands are modelled from their arguments to the change of the list that the name in the
  command stands for; the messages to the terminal are left out.
\<close>

section \<open>Data\<close>

datatype prefix_list_type = PREFIX_DENY | PREFIX_PERMIT

record prefix_list_entry =
  seq :: int
  le :: int
  ge :: int
  etype :: prefix_list_type
  any :: bool
  eprefix :: prefix
  refcnt :: nat
  hitcnt :: nat

record prefix_list =
  desc :: "string option"
  pl_count :: int
  pl_head :: ptr
  pl_tail :: ptr

type_synonym pheap = "prefix_list_entry lheap"

definition entry_at :: "'a lheap \<Rightarrow> nat \<Rightarrow> 'a res" where
  "entry_at h a =
     bindR (deref h (Some a)) (\<lambda>a. case dat h a of None \<Rightarrow> Inl Mem_fault | Some e \<Rightarrow> Inr e)"

definition prefix_list_new :: prefix_list where
  "prefix_list_new = \<lparr>desc = None, pl_count = 0, pl_head = None, pl_tail = None\<rparr>"

section \<open>Entries\<close>

definition prefix_list_entry_make ::
  "prefix \<Rightarrow> prefix_list_type \<Rightarrow> int \<Rightarrow> int \<Rightarrow> int \<Rightarrow> bool \<Rightarrow> pheap \<Rightarrow> (ptr \<times> pheap) res" where
  "prefix_list_entry_make p ty s l g an h =
     (let (pentry, h) = listnode_new h in
      bindR (prefix_copy prefix_new p) (\<lambda>q.
      bindR (put_data pentry (Some \<lparr>seq = s, le = l, ge = g, etype = ty, any = an, eprefix = q,
               refcnt = 0, hitcnt = 0\<rparr>) h) (\<lambda>h. Inr (pentry, h))))"

text \<open>The loop along the list that returns the first entry for which a condition holds.\<close>

partial_function (option) scan :: "('a \<Rightarrow> bool res) \<Rightarrow> 'a lheap \<Rightarrow> ptr \<Rightarrow> ptr res option" where
  "scan P h p =
     (case p of
        None \<Rightarrow> Some (Inr None)
      | Some a \<Rightarrow>
         (case bindR (entry_at h a) P of
            Inl e \<Rightarrow> Some (Inl e)
          | Inr b \<Rightarrow> if b then Some (Inr (Some a)) else scan P h (nx h a)))"

partial_function (option) max_loop :: "pheap \<Rightarrow> ptr \<Rightarrow> int \<Rightarrow> int res option" where
  "max_loop h p maxseq =
     (case p of
        None \<Rightarrow> Some (Inr maxseq)
      | Some a \<Rightarrow>
         (case entry_at h a of
            Inl e \<Rightarrow> Some (Inl e)
          | Inr e \<Rightarrow> max_loop h (nx h a) (if maxseq < seq e then seq e else maxseq)))"

definition prefix_new_seq_get :: "prefix_list \<Rightarrow> pheap \<Rightarrow> int res option" where
  "prefix_new_seq_get plist h =
     map_option (\<lambda>m. bindR m (\<lambda>maxseq. int_add (maxseq div 5 * 5) 5)) (max_loop h (pl_head plist) 0)"

definition prefix_seq_check :: "prefix_list \<Rightarrow> int \<Rightarrow> pheap \<Rightarrow> ptr res option" where
  "prefix_seq_check plist s h = scan (\<lambda>e. Inr (seq e = s)) h (pl_head plist)"

definition prefix_list_entry_lookup ::
  "prefix_list \<Rightarrow> prefix \<Rightarrow> prefix_list_type \<Rightarrow> int \<Rightarrow> int \<Rightarrow> int \<Rightarrow> pheap \<Rightarrow> ptr res option" where
  "prefix_list_entry_lookup plist p ty s l g h =
     scan (\<lambda>e. bindR (prefix_same (eprefix e) p) (\<lambda>same.
            Inr (same \<and> etype e = ty \<and> \<not> (s \<ge> 0 \<and> seq e \<noteq> s) \<and> le e = l \<and> ge e = g)))
       h (pl_head plist)"

text \<open>\<open>prefix_list_entry_delete\<close> up to the decrement of the counter.\<close>

definition entry_unlink :: "prefix_list \<Rightarrow> ptr \<Rightarrow> pheap \<Rightarrow> (prefix_list \<times> pheap) res" where
  "entry_unlink plist pentry h =
     bindR (get_prev pentry h) (\<lambda>prv. bindR (get_next pentry h) (\<lambda>nxt.
     bindR (if prv \<noteq> None then bindR (put_next prv nxt h) (\<lambda>h. Inr (plist, h))
            else Inr (plist\<lparr>pl_head := nxt\<rparr>, h)) (\<lambda>(plist, h).
     bindR (get_next pentry h) (\<lambda>nxt. bindR (get_prev pentry h) (\<lambda>prv.
     bindR (if nxt \<noteq> None then bindR (put_prev nxt prv h) (\<lambda>h. Inr (plist, h))
            else Inr (plist\<lparr>pl_tail := prv\<rparr>, h)) (\<lambda>(plist, h).
     bindR (listnode_free pentry h) (\<lambda>h.
     bindR (int_add (pl_count plist) (- 1)) (\<lambda>c. Inr (plist\<lparr>pl_count := c\<rparr>, h)))))))))"

text \<open>
  With \<open>update_list\<close> an empty list without a description is deleted, for which the result is
  \<open>None\<close>; the hooks and the field \<open>recent\<close> of the master are left out.
\<close>

definition prefix_list_entry_delete ::
  "prefix_list \<Rightarrow> ptr \<Rightarrow> bool \<Rightarrow> pheap \<Rightarrow> (prefix_list option \<times> pheap) res" where
  "prefix_list_entry_delete plist pentry update_list h =
     (if pentry = None then Inr (Some plist, h)
      else bindR (entry_unlink plist pentry h) (\<lambda>(plist, h).
        if update_list \<and> pl_head plist = None \<and> pl_tail plist = None \<and> desc plist = None
        then Inr (None, h) else Inr (Some plist, h)))"

text \<open>The part of \<open>prefix_list_entry_add\<close> that links the entry in before \<open>point\<close>.\<close>

definition link_entry :: "prefix_list \<Rightarrow> ptr \<Rightarrow> ptr \<Rightarrow> pheap \<Rightarrow> (prefix_list \<times> pheap) res" where
  "link_entry plist pentry point h =
     bindR (put_next pentry point h) (\<lambda>h.
     bindR (if point \<noteq> None then
              bindR (get_prev point h) (\<lambda>prv.
              bindR (if prv \<noteq> None then bindR (put_next prv pentry h) (\<lambda>h. Inr (plist, h))
                     else Inr (plist\<lparr>pl_head := pentry\<rparr>, h)) (\<lambda>(plist, h).
              bindR (get_prev point h) (\<lambda>prv.
              bindR (put_prev pentry prv h) (\<lambda>h.
              bindR (put_prev point pentry h) (\<lambda>h. Inr (plist, h))))))
            else
              bindR (if pl_tail plist \<noteq> None
                     then bindR (put_next (pl_tail plist) pentry h) (\<lambda>h. Inr (plist, h))
                     else Inr (plist\<lparr>pl_head := pentry\<rparr>, h)) (\<lambda>(plist, h).
              bindR (put_prev pentry (pl_tail plist) h) (\<lambda>h. Inr (plist\<lparr>pl_tail := pentry\<rparr>, h)))) (\<lambda>(plist, h).
     bindR (int_add (pl_count plist) 1) (\<lambda>c. Inr (plist\<lparr>pl_count := c\<rparr>, h))))"

definition assign_seq :: "prefix_list \<Rightarrow> nat \<Rightarrow> pheap \<Rightarrow> pheap res option" where
  "assign_seq plist a h =
     (case entry_at h a of
        Inl e \<Rightarrow> Some (Inl e)
      | Inr e \<Rightarrow>
          if seq e = - 1 then
            map_option (\<lambda>m. bindR m (\<lambda>s. put_data (Some a) (Some (e\<lparr>seq := s\<rparr>)) h)) (prefix_new_seq_get plist h)
          else Some (Inr h))"

definition prefix_list_entry_add :: "prefix_list \<Rightarrow> nat \<Rightarrow> pheap \<Rightarrow> (prefix_list \<times> pheap) res option" where
  "prefix_list_entry_add plist a h =
     (case assign_seq plist a h of
        None \<Rightarrow> None
      | Some (Inl e) \<Rightarrow> Some (Inl e)
      | Some (Inr h) \<Rightarrow>
         (case entry_at h a of
            Inl e \<Rightarrow> Some (Inl e)
          | Inr new \<Rightarrow>
             (case prefix_seq_check plist (seq new) h of
                None \<Rightarrow> None
              | Some (Inl e) \<Rightarrow> Some (Inl e)
              | Some (Inr replace) \<Rightarrow>
                 (case prefix_list_entry_delete plist replace False h of
                    Inl e \<Rightarrow> Some (Inl e)
                  | Inr (None, h) \<Rightarrow> Some (Inl Mem_fault)
                  | Inr (Some plist, h) \<Rightarrow>
                      map_option (\<lambda>m. bindR m (\<lambda>point. link_entry plist (Some a) point h))
                        (scan (\<lambda>e. Inr (seq e \<ge> seq new)) h (pl_head plist))))))"

section \<open>Matching\<close>

definition prefix_list_entry_match :: "prefix_list_entry \<Rightarrow> prefix \<Rightarrow> bool res" where
  "prefix_list_entry_match e p =
     bindR (prefix_match (eprefix e) p) (\<lambda>ret.
     Inr (ret \<and>
          (if le e = 0 \<and> ge e = 0 then prefixlen (eprefix e) = prefixlen p
           else (le e \<noteq> 0 \<longrightarrow> int (plen p) \<le> le e) \<and> (ge e \<noteq> 0 \<longrightarrow> int (plen p) \<ge> ge e))))"

partial_function (option) apply_loop :: "prefix \<Rightarrow> pheap \<Rightarrow> ptr \<Rightarrow> (prefix_list_type \<times> pheap) res option" where
  "apply_loop p h pentry =
     (case pentry of
        None \<Rightarrow> Some (Inr (PREFIX_DENY, h))
      | Some a \<Rightarrow>
         (case entry_at h a of
            Inl e \<Rightarrow> Some (Inl e)
          | Inr e \<Rightarrow>
              let e1 = e\<lparr>refcnt := uadd 64 (refcnt e) 1\<rparr> in
              let h1 = h\<lparr>dat := (dat h)(a := Some e1)\<rparr> in
              (case prefix_list_entry_match e1 p of
                 Inl e \<Rightarrow> Some (Inl e)
               | Inr m \<Rightarrow>
                   if m then Some (Inr (etype e1, h1\<lparr>dat := (dat h1)(a := Some (e1\<lparr>hitcnt := uadd 64 (hitcnt e1) 1\<rparr>))\<rparr>))
                   else apply_loop p h1 (nx h1 a))))"

definition prefix_list_apply ::
  "prefix_list option \<Rightarrow> prefix \<Rightarrow> pheap \<Rightarrow> (prefix_list_type \<times> pheap) res option" where
  "prefix_list_apply plist p h =
     (case plist of
        None \<Rightarrow> Some (Inr (PREFIX_DENY, h))
      | Some l \<Rightarrow> if pl_count l = 0 then Some (Inr (PREFIX_PERMIT, h)) else apply_loop p h (pl_head l))"

section \<open>Commands\<close>

definition prefix_entry_dup_check :: "prefix_list \<Rightarrow> prefix_list_entry \<Rightarrow> pheap \<Rightarrow> ptr res option" where
  "prefix_entry_dup_check plist new h =
     (case (if seq new = - 1 then prefix_new_seq_get plist h else Some (Inr (seq new))) of
        None \<Rightarrow> None
      | Some (Inl e) \<Rightarrow> Some (Inl e)
      | Some (Inr s) \<Rightarrow>
          scan (\<lambda>e. bindR (prefix_same (eprefix e) (eprefix new)) (\<lambda>same.
                 Inr (same \<and> etype e = etype new \<and> le e = le new \<and> ge e = ge new \<and> seq e \<noteq> s)))
            h (pl_head plist))"

datatype cmd_result = CMD_SUCCESS | CMD_WARNING

definition atoi :: "string \<Rightarrow> int" where
  "atoi s = sint (word_of_int (strtol s) :: 32 word)"

definition opt_atoi :: "string option \<Rightarrow> int \<Rightarrow> int" where
  "opt_atoi s d = (case s of None \<Rightarrow> d | Some s \<Rightarrow> atoi s)"

text \<open>\<open>strncmp ("permit", typestr, 1)\<close> looks at one character.\<close>

definition parse_type :: "string \<Rightarrow> prefix_list_type option" where
  "parse_type s =
     (case s of
        [] \<Rightarrow> None
      | c # _ \<Rightarrow> if c = CHR ''p'' then Some PREFIX_PERMIT else if c = CHR ''d'' then Some PREFIX_DENY else None)"

text \<open>\<open>strncmp ("any", prefix, strlen (prefix))\<close> accepts every beginning of the word.\<close>

definition is_any :: "string \<Rightarrow> bool" where
  "is_any s \<longleftrightarrow> take (length s) ''any'' = s"

text \<open>
  The prefix of a rule, with the bounds that \<open>any\<close> stands for: the result of the conversion, the
  prefix, \<open>ge\<close>, \<open>le\<close> and the flag.  \<open>p0\<close> is the uninitialised prefix on the stack.
\<close>

definition rule_prefix ::
  "(string \<Rightarrow> u8 list option) \<Rightarrow> (string \<Rightarrow> u8 list option) \<Rightarrow> afi \<Rightarrow> string \<Rightarrow> int \<Rightarrow> int \<Rightarrow> prefix \<Rightarrow>
   (bool \<times> prefix \<times> int \<times> int \<times> bool) res" where
  "rule_prefix inet_aton inet_pton afi str genum lenum p0 =
     (if afi = AFI_IP then
        if is_any str
        then bindR (str2prefix_ipv4 inet_aton ''0.0.0.0/0'' p0) (\<lambda>(ret, p). Inr (ret, p, 0, int IPV4_MAX_BITLEN, True))
        else bindR (str2prefix_ipv4 inet_aton str p0) (\<lambda>(ret, p). Inr (ret, p, genum, lenum, False))
      else
        if is_any str
        then bindR (str2prefix_ipv6 inet_pton ''::/0'' p0) (\<lambda>(ret, p). Inr (ret, p, 0, int IPV6_MAX_BITLEN, True))
        else bindR (str2prefix_ipv6 inet_pton str p0) (\<lambda>(ret, p). Inr (ret, p, genum, lenum, False)))"

text \<open>The check of the bounds and the value of \<open>lenum\<close> that is stored, or \<open>None\<close> for a bad range.\<close>

definition check_range :: "afi \<Rightarrow> nat \<Rightarrow> int \<Rightarrow> int \<Rightarrow> int option" where
  "check_range afi len genum lenum =
     (if genum \<noteq> 0 \<and> genum \<le> int len then None
      else if lenum \<noteq> 0 \<and> lenum \<le> int len then None
      else if lenum \<noteq> 0 \<and> genum > lenum then None
      else if genum \<noteq> 0 \<and> lenum = (if afi = AFI_IP then 32 else 128) then Some 0
      else Some lenum)"

definition install_entry ::
  "prefix \<Rightarrow> prefix_list_type \<Rightarrow> int \<Rightarrow> int \<Rightarrow> int \<Rightarrow> bool \<Rightarrow> prefix_list \<Rightarrow> pheap \<Rightarrow>
   (cmd_result \<times> prefix_list \<times> pheap) res option" where
  "install_entry p ty seqnum lenum genum an plist h =
     (case prefix_list_entry_make p ty seqnum lenum genum an h of
        Inl e \<Rightarrow> Some (Inl e)
      | Inr (pentry, h) \<Rightarrow>
         (case bindR (deref h pentry) (entry_at h) of
            Inl e \<Rightarrow> Some (Inl e)
          | Inr new \<Rightarrow>
             (case prefix_entry_dup_check plist new h of
                None \<Rightarrow> None
              | Some (Inl e) \<Rightarrow> Some (Inl e)
              | Some (Inr (Some dup)) \<Rightarrow>
                  Some (bindR (listnode_free pentry h) (\<lambda>h. Inr (CMD_WARNING, plist, h)))
              | Some (Inr None) \<Rightarrow>
                  map_option (\<lambda>m. bindR m (\<lambda>(plist, h). Inr (CMD_SUCCESS, plist, h)))
                    (prefix_list_entry_add plist (the pentry) h))))"

definition vty_prefix_list_install ::
  "(string \<Rightarrow> u8 list option) \<Rightarrow> (string \<Rightarrow> u8 list option) \<Rightarrow> prefix \<Rightarrow> afi \<Rightarrow> string option \<Rightarrow> string \<Rightarrow> string \<Rightarrow>
   string option \<Rightarrow> string option \<Rightarrow> prefix_list \<Rightarrow> pheap \<Rightarrow> (cmd_result \<times> prefix_list \<times> pheap) res option" where
  "vty_prefix_list_install inet_aton inet_pton p0 afi sq typestr pstr g l plist h =
     (if \<not> (afi = AFI_IP \<or> afi = AFI_IP6) then Some (Inr (CMD_WARNING, plist, h))
      else case parse_type typestr of
        None \<Rightarrow> Some (Inr (CMD_WARNING, plist, h))
      | Some ty \<Rightarrow>
         (case rule_prefix inet_aton inet_pton afi pstr (opt_atoi g 0) (opt_atoi l 0) p0 of
            Inl e \<Rightarrow> Some (Inl e)
          | Inr (ret, p, genum, lenum, an) \<Rightarrow>
              if \<not> ret then Some (Inr (CMD_WARNING, plist, h))
              else case check_range afi (plen p) genum lenum of
                None \<Rightarrow> Some (Inr (CMD_WARNING, plist, h))
              | Some lenum \<Rightarrow> install_entry p ty (opt_atoi sq (- 1)) lenum genum an plist h))"

text \<open>
  The command that takes a rule away, with type and prefix given, from a list of the family
  \<open>AFI_IP\<close> or \<open>AFI_IP6\<close> (no other family has prefix lists); the result of the list is
  \<open>None\<close> when the list has been deleted.
\<close>

definition vty_prefix_list_uninstall ::
  "(string \<Rightarrow> u8 list option) \<Rightarrow> (string \<Rightarrow> u8 list option) \<Rightarrow> prefix \<Rightarrow> afi \<Rightarrow> string option \<Rightarrow> string \<Rightarrow> string \<Rightarrow>
   string option \<Rightarrow> string option \<Rightarrow> prefix_list \<Rightarrow> pheap \<Rightarrow> (cmd_result \<times> prefix_list option \<times> pheap) res option" where
  "vty_prefix_list_uninstall inet_aton inet_pton p0 afi sq typestr pstr g l plist h =
     (case parse_type typestr of
        None \<Rightarrow> Some (Inr (CMD_WARNING, Some plist, h))
      | Some ty \<Rightarrow>
         (case rule_prefix inet_aton inet_pton afi pstr (opt_atoi g 0) (opt_atoi l 0) p0 of
            Inl e \<Rightarrow> Some (Inl e)
          | Inr (ret, p, genum, lenum, an) \<Rightarrow>
              if \<not> ret then Some (Inr (CMD_WARNING, Some plist, h))
              else case prefix_list_entry_lookup plist p ty (opt_atoi sq (- 1)) lenum genum h of
                None \<Rightarrow> None
              | Some (Inl e) \<Rightarrow> Some (Inl e)
              | Some (Inr None) \<Rightarrow> Some (Inr (CMD_WARNING, Some plist, h))
              | Some (Inr (Some a)) \<Rightarrow>
                  Some (bindR (prefix_list_entry_delete plist (Some a) True h) (\<lambda>(plist, h).
                    Inr (CMD_SUCCESS, plist, h)))))"

section \<open>Lists of entries\<close>

definition hdr :: "prefix_list \<Rightarrow> nat \<Rightarrow> list_hdr" where
  "hdr l n = \<lparr>head = pl_head l, tail = pl_tail l, count = n\<rparr>"

text \<open>The nodes \<open>xs\<close> of the list carry the entries \<open>es\<close>.\<close>

definition plwf :: "prefix_list \<Rightarrow> pheap \<Rightarrow> nat list \<Rightarrow> prefix_list_entry list \<Rightarrow> bool" where
  "plwf l h xs es \<longleftrightarrow> lwf (hdr l (length xs)) h xs \<and> list_data h xs = map Some es \<and>
     pl_count l = int (length xs) \<and> length xs < 2 ^ 31 - 1"

lemma hdr_sel [simp]: "head (hdr l n) = pl_head l" "tail (hdr l n) = pl_tail l" "count (hdr l n) = n"
  by (simp_all add: hdr_def)

lemma plwfD:
  assumes "plwf l h xs es"
  shows "dlist (nx h) (pv h) (pl_head l) (pl_tail l) xs" "\<forall>x\<in>set xs. live h x" "\<And>a. live h a \<Longrightarrow> a < brk h"
    "map (dat h) xs = map Some es" "length xs = length es" "pl_count l = int (length es)"
    "pl_head l = first xs None" "dseg (nx h) (pv h) None xs None"
proof -
  show m: "map (dat h) xs = map Some es" using assms by (simp add: plwf_def list_data_def)
  then show "length xs = length es" by (metis length_map)
  then show "pl_count l = int (length es)" using assms by (simp add: plwf_def)
qed (use assms in \<open>auto simp: plwf_def lwf_def dlist_def\<close>)

lemma entry_at_ok: "live h a \<Longrightarrow> dat h a = Some e \<Longrightarrow> entry_at h a = Inr e"
  by (simp add: entry_at_def deref_def)

lemma scan_seg:
  assumes "dseg (nx h) (pv h) p xs None" "\<forall>x\<in>set xs. live h x" "map (dat h) xs = map Some es"
    "\<forall>e\<in>set es. P e = Inr (Q e)"
  shows "scan P h (first xs None) = Some (Inr (List.find (\<lambda>x. Q (the (dat h x))) xs))"
  using assms
proof (induction xs arbitrary: p es)
  case (Cons x xs)
  then obtain e es' where es: "es = e # es'" by (cases es) auto
  have "scan P h (Some x) = (if Q e then Some (Inr (Some x)) else scan P h (nx h x))"
    using Cons.prems es by (simp add: scan.simps[of P h "Some x"] entry_at_ok)
  moreover have "scan P h (first xs None) = Some (Inr (List.find (\<lambda>x. Q (the (dat h x))) xs))"
    by (rule Cons.IH[of "Some x" es']) (use Cons.prems es in auto)
  ultimately show ?case using Cons.prems es by auto
qed (simp add: scan.simps)

text \<open>Searching by node is searching by entry.\<close>

lemma find_nodes:
  assumes "map (dat h) xs = map Some es"
  shows "List.find (\<lambda>x. Q (the (dat h x))) xs = None \<longleftrightarrow> (\<forall>e\<in>set es. \<not> Q e)"
    "List.find (\<lambda>x. Q (the (dat h x))) xs = Some a \<Longrightarrow>
       \<exists>xs1 xs2 es1 e es2. xs = xs1 @ a # xs2 \<and> es = es1 @ e # es2 \<and> map (dat h) xs1 = map Some es1 \<and>
         map (dat h) xs2 = map Some es2 \<and> dat h a = Some e \<and> Q e \<and> (\<forall>e\<in>set es1. \<not> Q e)"
proof -
  have "es = map (\<lambda>x. the (dat h x)) xs"
    using assms
  proof (induction xs arbitrary: es)
    case (Cons x xs)
    then show ?case by (cases es) auto
  qed simp
  then show "List.find (\<lambda>x. Q (the (dat h x))) xs = None \<longleftrightarrow> (\<forall>e\<in>set es. \<not> Q e)"
    by (auto simp: find_None_iff)
  show "\<exists>xs1 xs2 es1 e es2. xs = xs1 @ a # xs2 \<and> es = es1 @ e # es2 \<and> map (dat h) xs1 = map Some es1 \<and>
         map (dat h) xs2 = map Some es2 \<and> dat h a = Some e \<and> Q e \<and> (\<forall>e\<in>set es1. \<not> Q e)"
    if "List.find (\<lambda>x. Q (the (dat h x))) xs = Some a"
    using that assms
  proof (induction xs arbitrary: es)
    case (Cons x xs)
    then obtain e es' where es: "es = e # es'" "dat h x = Some e" "map (dat h) xs = map Some es'" by (cases es) auto
    show ?case
    proof (cases "Q e")
      case True
      with Cons.prems es show ?thesis
        by (intro exI[of _ "[]"] exI[of _ xs] exI[of _ "[]"] exI[of _ e] exI[of _ es']) auto
    next
      case False
      with Cons.prems(1) es have f: "List.find (\<lambda>x. Q (the (dat h x))) xs = Some a" by simp
      from Cons.IH[OF f es(3)] obtain xs1 xs2 es1 e' es2 where
        "xs = xs1 @ a # xs2" "es' = es1 @ e' # es2" "map (dat h) xs1 = map Some es1"
        "map (dat h) xs2 = map Some es2" "dat h a = Some e'" "Q e'" "\<forall>e\<in>set es1. \<not> Q e" by blast
      with es False show ?thesis
        by (intro exI[of _ "x # xs1"] exI[of _ xs2] exI[of _ "e # es1"] exI[of _ e'] exI[of _ es2]) auto
    qed
  qed simp
qed

lemma max_loop_ok:
  assumes "dseg (nx h) (pv h) p xs None" "\<forall>x\<in>set xs. live h x" "map (dat h) xs = map Some es"
  shows "max_loop h (first xs None) m = Some (Inr (fold max (map seq es) m))"
  using assms
proof (induction xs arbitrary: p es m)
  case (Cons x xs)
  then obtain e es' where es: "es = e # es'" by (cases es) auto
  have "max_loop h (Some x) m = max_loop h (nx h x) (if m < seq e then seq e else m)"
    using Cons.prems es by (simp add: max_loop.simps[of h "Some x"] entry_at_ok)
  moreover have "(if m < seq e then seq e else m) = max (seq e) m" by simp
  moreover have "max_loop h (first xs None) (max (seq e) m) = Some (Inr (fold max (map seq es') (max (seq e) m)))"
    by (rule Cons.IH[of "Some x" es']) (use Cons.prems es in auto)
  ultimately show ?case using Cons.prems(1) es by simp
qed (simp add: max_loop.simps)

definition next_seq :: "prefix_list_entry list \<Rightarrow> int" where
  "next_seq es = fold max (map seq es) 0 div 5 * 5 + 5"

lemma prefix_new_seq_get_ok:
  assumes "plwf l h xs es" "\<forall>e\<in>set es. seq e \<le> INT_MAX - 5"
  shows "prefix_new_seq_get l h = Some (Inr (next_seq es))"
proof -
  have bound: "0 \<le> fold max (map seq es) m \<and> fold max (map seq es) m \<le> INT_MAX - 5"
    if "0 \<le> m" "m \<le> INT_MAX - 5" for m
    using assms(2) that by (induction es arbitrary: m) auto
  have "0 \<le> fold max (map seq es) 0" "fold max (map seq es) 0 \<le> INT_MAX - 5"
    using bound[of 0] by (auto simp: INT_MAX_def)
  then have "int_add (fold max (map seq es) 0 div 5 * 5) 5 = Inr (next_seq es)"
    by (auto simp: int_add_def next_seq_def INT_MAX_def)
  then show ?thesis
    using max_loop_ok[OF plwfD(8,2,4)[OF assms(1)], of 0] plwfD(7)[OF assms(1)] by (simp add: prefix_new_seq_get_def)
qed

section \<open>Unlinking and linking\<close>

lemma entry_unlink_ok:
  assumes wf: "plwf l h (xs @ a # ys) (es1 @ e # es2)" and len: "length xs = length es1"
  obtains l' h' where "entry_unlink l (Some a) h = Inr (l', h')" "plwf l' h' (xs @ ys) (es1 @ es2)"
    "dat h' = dat h" "live h' = (live h)(a := False)" "brk h' = brk h" "desc l' = desc l"
proof -
  note d = plwfD[OF wf]
  note del = dlist_delete[OF d(1)]
  have lwf: "lwf (hdr l (length (xs @ a # ys))) h (xs @ a # ys)" using wf by (simp add: plwf_def)
  then have lwf': "lwf (hdr l (length (xs @ a # ys))) h ((xs @ [a]) @ ys)" by simp
  have a: "live h a" "a \<notin> set xs" "a \<notin> set ys" using d(1,2) by (auto simp: dlist_def)
  have nb: "live h y" "y \<noteq> a" if "pv h a = Some y \<or> nx h a = Some y" for y
    using that del(2,3) lwf_bounds(3)[OF lwf, of y] lwf_bounds(4)[OF lwf', of y] by auto
  have cnt: "int_add (pl_count l) (- 1) = Inr (int (length (xs @ ys)))"
    using wf by (simp add: plwf_def int_add_def INT_MAX_def)
  let ?l = "l\<lparr>pl_head := set_head (pv h a) (nx h a) (pl_head l), pl_tail := set_head (nx h a) (pv h a) (pl_tail l),
      pl_count := int (length (xs @ ys))\<rparr>"
  let ?h = "h\<lparr>nx := set_nxt (pv h a) (nx h a) (nx h), pv := set_nxt (nx h a) (pv h a) (pv h),
      live := (live h)(a := False)\<rparr>"
  have "entry_unlink l (Some a) h = Inr (?l, ?h)"
    using a nb cnt
    by (cases "pv h a"; cases "nx h a")
      (auto simp: entry_unlink_def node_defs listnode_free_def deref_def set_head_def set_nxt_def)
  moreover have "plwf ?l ?h (xs @ ys) (es1 @ es2)"
    using del(1) wf a len by (auto simp: plwf_def lwf_def list_data_def append_eq_append_conv)
  ultimately show thesis using that by simp
qed

text \<open>An entry that is allocated but not linked is put between two parts of the list.\<close>

lemma link_entry_ok:
  assumes wf: "plwf l h (xs @ ys) (es1 @ es2)" and len: "length xs = length es1"
    and a: "live h a" "a \<notin> set (xs @ ys)" "dat h a = Some e" and room: "length (xs @ ys) + 1 < 2 ^ 31 - 1"
  obtains l' h' where "link_entry l (Some a) (first ys None) h = Inr (l', h')"
    "plwf l' h' (xs @ a # ys) (es1 @ e # es2)" "dat h' = dat h" "live h' = live h" "brk h' = brk h"
    "desc l' = desc l"
proof -
  note d = plwfD[OF wf]
  have lwf: "lwf (hdr l (length (xs @ ys))) h (xs @ ys)" using wf by (simp add: plwf_def)
  have ends: "pl_head l = first (xs @ ys) None" "pl_tail l = final None (xs @ ys)"
    using d(1) by (auto simp: dlist_def)
  have cnt: "int_add (pl_count l) 1 = Inr (int (length (xs @ a # ys)))"
    using wf room by (simp add: plwf_def int_add_def INT_MAX_def)
  let ?l = "l\<lparr>pl_head := set_head (final None xs) (Some a) (pl_head l),
      pl_tail := set_head (first ys None) (Some a) (pl_tail l), pl_count := int (length (xs @ a # ys))\<rparr>"
  let ?h = "h\<lparr>nx := set_nxt (final None xs) (Some a) ((nx h)(a := first ys None)),
      pv := set_nxt (first ys None) (Some a) ((pv h)(a := final None xs))\<rparr>"
  have x: "live h x" "x \<noteq> a" if "final None xs = Some x" for x
    using lwf_bounds(3)[OF lwf that] a(2) that last_in_set[of xs] by (cases "xs = []"; auto simp: final_eq_last)+
  have "link_entry l (Some a) (first ys None) h = Inr (?l, ?h)"
  proof (cases ys)
    case Nil
    with ends a x cnt show ?thesis
      by (cases "final None xs")
        (auto simp: link_entry_def node_defs deref_def set_head_def set_nxt_def fun_upd_twist)
  next
    case (Cons y zs)
    then have y: "live h y" "y \<noteq> a" "pv h y = final None xs"
      using lwf_bounds(4)[OF lwf] a(2) dlist_prv[of "nx h" "pv h" _ _ xs y zs] d(1) by auto
    have "x \<noteq> y" if "final None xs = Some x" for x using lwf_bounds(3)[OF lwf that] Cons by auto
    with Cons y ends a x cnt show ?thesis
      by (cases "final None xs")
        (auto simp: link_entry_def node_defs deref_def set_head_def set_nxt_def fun_upd_twist)
  qed
  moreover have "plwf ?l ?h (xs @ a # ys) (es1 @ e # es2)"
    using dlist_insert[OF d(1) a(2)] wf a room len
    by (auto simp: plwf_def lwf_def list_data_def append_eq_append_conv)
  ultimately show thesis using that by simp
qed

section \<open>Adding an entry\<close>

text \<open>The list of entries, sorted by their sequence numbers.\<close>

definition plist_ok :: "prefix_list \<Rightarrow> pheap \<Rightarrow> prefix_list_entry list \<Rightarrow> bool" where
  "plist_ok l h es \<longleftrightarrow> (\<exists>xs. plwf l h xs es) \<and> sorted_wrt (<) (map seq es)"

text \<open>What adding means: entries with smaller numbers, the new one, entries with larger numbers.\<close>

definition insert_entry :: "prefix_list_entry \<Rightarrow> prefix_list_entry list \<Rightarrow> prefix_list_entry list" where
  "insert_entry e es = [x \<leftarrow> es. seq x < seq e] @ e # [x \<leftarrow> es. seq x > seq e]"

lemma sorted_insert_entry:
  "sorted_wrt (<) (map seq es) \<Longrightarrow> sorted_wrt (<) (map seq (insert_entry e es))"
  by (auto simp: insert_entry_def sorted_wrt_append sorted_wrt_map sorted_wrt_filter)

lemma insert_entry_split:
  assumes "sorted_wrt (<) (map seq (es1 @ es2))" "\<forall>x\<in>set es1. \<not> seq e \<le> seq x"
    "case es2 of [] \<Rightarrow> True | x # _ \<Rightarrow> seq e \<le> seq x" "\<forall>x\<in>set (es1 @ es2). seq x \<noteq> seq e"
  shows "es1 @ e # es2 = insert_entry e (es1 @ es2)"
proof -
  have "seq e < seq x" if "x \<in> set es2" for x
    using assms(1,3,4) that by (cases es2) (auto simp: sorted_wrt_append order_less_le)
  moreover have "seq x < seq e" if "x \<in> set es1" for x using assms(2) that by auto
  ultimately have "filter (\<lambda>x. seq x < seq e) es1 = es1" "filter (\<lambda>x. seq x < seq e) es2 = []"
    "filter (\<lambda>x. seq x > seq e) es1 = []" "filter (\<lambda>x. seq x > seq e) es2 = es2"
    by (auto simp: filter_id_conv filter_empty_conv not_less order.strict_implies_order)
  then show ?thesis by (simp add: insert_entry_def)
qed

text \<open>Deleting the entry with the same number first makes no difference.\<close>

lemma insert_entry_delete:
  "seq x = seq e \<Longrightarrow> insert_entry e (es1 @ es2) = insert_entry e (es1 @ x # es2)"
  by (simp add: insert_entry_def)

lemma link_sorted:
  assumes wf: "plwf l h xs es" and sorted: "sorted_wrt (<) (map seq es)" "\<forall>x\<in>set es. seq x \<noteq> seq e"
    and a: "live h a" "a \<notin> set xs" "dat h a = Some e" and room: "length xs + 1 < 2 ^ 31 - 1"
  obtains l' h' xs' where
    "map_option (\<lambda>m. bindR m (\<lambda>point. link_entry l (Some a) point h)) (scan (\<lambda>x. Inr (seq x \<ge> seq e)) h (pl_head l)) =
       Some (Inr (l', h'))"
    "plwf l' h' xs' (insert_entry e es)" "dat h' = dat h" "live h' = live h" "brk h' = brk h" "desc l' = desc l"
proof -
  note d = plwfD[OF wf]
  let ?f = "List.find (\<lambda>x. seq e \<le> seq (the (dat h x))) xs"
  have scan: "scan (\<lambda>x. Inr (seq x \<ge> seq e)) h (pl_head l) = Some (Inr ?f)"
    using scan_seg[OF d(8,2,4), of "\<lambda>x. Inr (seq x \<ge> seq e)" "\<lambda>x. seq x \<ge> seq e"] d(7) by simp
  obtain xs1 xs2 es1 es2 where sp: "xs = xs1 @ xs2" "es = es1 @ es2" "length xs1 = length es1"
    "?f = first xs2 None" "\<forall>x\<in>set es1. \<not> seq e \<le> seq x"
    "case es2 of [] \<Rightarrow> True | x # _ \<Rightarrow> seq e \<le> seq x"
  proof (cases ?f)
    case None
    with find_nodes(1)[OF d(4), of "\<lambda>x. seq e \<le> seq x"] that[of xs "[]" es "[]"] d(5) show thesis by simp
  next
    case (Some b)
    from find_nodes(2)[OF d(4) Some] obtain xs1 xs2 es1 e' es2 where
      "xs = xs1 @ b # xs2" "es = es1 @ e' # es2" "map (dat h) xs1 = map Some es1" "seq e \<le> seq e'"
      "\<forall>x\<in>set es1. \<not> seq e \<le> seq x" by blast
    with that[of xs1 "b # xs2" es1 "e' # es2"] Some map_eq_imp_length_eq[of "dat h" xs1 Some es1] show thesis by simp
  qed
  have "plwf l h (xs1 @ xs2) (es1 @ es2)" "a \<notin> set (xs1 @ xs2)" "length (xs1 @ xs2) + 1 < 2 ^ 31 - 1"
    using wf a(2) room sp(1,2) by simp_all
  then obtain l' h' where "link_entry l (Some a) (first xs2 None) h = Inr (l', h')"
    "plwf l' h' (xs1 @ a # xs2) (es1 @ e # es2)" "dat h' = dat h" "live h' = live h" "brk h' = brk h" "desc l' = desc l"
    using link_entry_ok[of l h xs1 xs2 es1 es2 a e] sp(3) a(1,3) by metis
  moreover have "es1 @ e # es2 = insert_entry e es"
    using insert_entry_split[of es1 es2 e] sorted sp(2,5,6) by simp
  ultimately show thesis using that scan sp(4) by simp
qed

lemma plwf_dat: "a \<notin> set xs \<Longrightarrow> plwf l (h\<lparr>dat := (dat h)(a := v)\<rparr>) xs es \<longleftrightarrow> plwf l h xs es"
  by (simp add: plwf_def lwf_def list_data_def)

definition numbered :: "prefix_list_entry list \<Rightarrow> prefix_list_entry \<Rightarrow> prefix_list_entry" where
  "numbered es e = (if seq e = - 1 then e\<lparr>seq := next_seq es\<rparr> else e)"

lemma assign_seq_ok:
  assumes "plwf l h xs es" "live h a" "dat h a = Some e" "\<forall>e\<in>set es. seq e \<le> INT_MAX - 5"
  shows "assign_seq l a h = Some (Inr (h\<lparr>dat := (dat h)(a := Some (numbered es e))\<rparr>))"
  using assms prefix_new_seq_get_ok[OF assms(1,4)]
  by (simp add: assign_seq_def entry_at_ok numbered_def put_data_def deref_def fun_upd_idem)

lemma prefix_list_entry_add_ok:
  assumes wf: "plwf l h xs es" and sorted: "sorted_wrt (<) (map seq es)" "\<forall>e\<in>set es. seq e \<le> INT_MAX - 5"
    and a: "live h a" "a \<notin> set xs" "dat h a = Some e" and room: "length xs + 1 < 2 ^ 31 - 1"
  obtains l' h' xs' where "prefix_list_entry_add l a h = Some (Inr (l', h'))"
    "plwf l' h' xs' (insert_entry (numbered es e) es)"
proof -
  define e' where "e' = numbered es e"
  define h1 where "h1 = h\<lparr>dat := (dat h)(a := Some e')\<rparr>"
  have asg: "assign_seq l a h = Some (Inr h1)"
    using assign_seq_ok[OF wf a(1,3) sorted(2)] by (simp add: h1_def e'_def)
  have wf1: "plwf l h1 xs es" using wf a(2) by (simp add: h1_def plwf_dat)
  have a1: "live h1 a" "dat h1 a = Some e'" using a by (simp_all add: h1_def)
  note d = plwfD[OF wf1]
  let ?f = "List.find (\<lambda>x. seq (the (dat h1 x)) = seq e') xs"
  have chk: "prefix_seq_check l (seq e') h1 = Some (Inr ?f)"
    using scan_seg[OF d(8,2,4), of "\<lambda>x. Inr (seq x = seq e')" "\<lambda>x. seq x = seq e'"] d(7)
    by (simp add: prefix_seq_check_def)
  obtain l2 h2 xs2 es2 where del: "prefix_list_entry_delete l ?f False h1 = Inr (Some l2, h2)"
    "plwf l2 h2 xs2 es2" "set xs2 \<subseteq> set xs" "length xs2 \<le> length xs" "sorted_wrt (<) (map seq es2)"
    "\<forall>x\<in>set es2. seq x \<noteq> seq e'" "insert_entry e' es2 = insert_entry e' es" "live h2 a" "dat h2 = dat h1"
  proof (cases ?f)
    case None
    then have "\<forall>x\<in>set es. seq x \<noteq> seq e'" using find_nodes(1)[OF d(4), of "\<lambda>x. seq x = seq e'"] by simp
    with None wf1 sorted(1) a1 that[of l h1 xs es] show thesis by (simp add: prefix_list_entry_delete_def)
  next
    case (Some b)
    from find_nodes(2)[OF d(4) Some] obtain xs1 ys es1 x es2 where
      sp: "xs = xs1 @ b # ys" "es = es1 @ x # es2" "map (dat h1) xs1 = map Some es1" "seq x = seq e'" by blast
    have len: "length xs1 = length es1" using sp(3) by (rule map_eq_imp_length_eq)
    obtain l' h' where u: "entry_unlink l (Some b) h1 = Inr (l', h')" "plwf l' h' (xs1 @ ys) (es1 @ es2)"
      "dat h' = dat h1" "live h' = (live h1)(b := False)"
      using entry_unlink_ok[OF _ len, of l h1 b ys x es2] wf1 sp(1,2) by metis
    have "sorted_wrt (<) (map seq (es1 @ es2))" "\<forall>y\<in>set (es1 @ es2). seq y \<noteq> seq e'"
      using sorted(1) sp(2,4) by (auto simp: sorted_wrt_append)
    moreover have "b \<noteq> a" using a(2) sp(1) by auto
    ultimately show thesis
      using that[of l' h' "xs1 @ ys" "es1 @ es2"] u sp Some a1 insert_entry_delete[of x e' es1 es2]
      by (auto simp: prefix_list_entry_delete_def)
  qed
  have a2: "a \<notin> set xs2" "dat h2 a = Some e'" "length xs2 + 1 < 2 ^ 31 - 1" using a(2) del a1 room by auto
  obtain l' h' xs' where lk:
    "map_option (\<lambda>m. bindR m (\<lambda>point. link_entry l2 (Some a) point h2)) (scan (\<lambda>x. Inr (seq x \<ge> seq e')) h2 (pl_head l2)) =
       Some (Inr (l', h'))" "plwf l' h' xs' (insert_entry e' es2)"
    by (rule link_sorted[OF del(2,5,6,8) a2])
  have "prefix_list_entry_add l a h = Some (Inr (l', h'))"
    using lk(1) by (simp add: prefix_list_entry_add_def asg entry_at_ok[OF a1] chk del(1))
  with that lk(2) del(7) show thesis by (simp add: e'_def)
qed

section \<open>Installing a rule\<close>

definition same_prefix :: "prefix \<Rightarrow> prefix \<Rightarrow> bool" where
  "same_prefix a b \<longleftrightarrow> prefix_same a b = Inr True"

lemma prefix_same_16:
  "length (u a) = 16 \<Longrightarrow> length (u b) = 16 \<Longrightarrow> prefix_same a b = Inr (same_prefix a b)"
  by (auto simp: same_prefix_def prefix_same_def mem_same_def mem_simps IPV4_MAX_BYTELEN_def IPV6_MAX_BYTELEN_def
      ETHER_ADDR_LEN_def)

lemma prefix_copy_16:
  assumes "family p \<in> {AF_INET, AF_INET6}" "length (u p) = 16"
  obtains q where "prefix_copy prefix_new p = Inr q" "length (u q) = 16" "family q = family p"
    "prefixlen q = prefixlen p" "plen p \<le> 8 * prefix_blen p \<Longrightarrow> net q = net p"
proof -
  let ?n = "if family p = AF_INET then 4 else 16"
  let ?q = "\<lparr>family = family p, prefixlen = prefixlen p, u = take ?n (u p) @ drop ?n (replicate 16 0)\<rparr>"
  have "prefix_copy prefix_new p = Inr ?q"
    using assms by (auto simp: prefix_copy_def copy_bytes_def prefix_new_def Let_def mem_simps families)
  moreover have "net ?q = net p" if "plen p \<le> 8 * prefix_blen p"
  proof -
    have "pbit (take ?n (u p) @ drop ?n (replicate 16 0)) i = pbit (u p) i" if "i < plen p" for i
    proof -
      have "i div 8 < ?n" using \<open>plen p \<le> 8 * prefix_blen p\<close> that assms
        by (auto simp: prefix_blen_def IPV4_MAX_BYTELEN_def IPV6_MAX_BYTELEN_def families split: if_splits)
      with assms(2) show ?thesis by (auto simp: pbit_def nth_append)
    qed
    then show ?thesis by (simp add: net_def)
  qed
  ultimately show thesis using that[of ?q] assms by auto
qed

lemma alloc_wf:
  assumes "plwf l h xs es"
  shows "plwf l (h\<lparr>nx := (nx h)(brk h := x), pv := (pv h)(brk h := y), dat := (dat h)(brk h := v),
      live := (live h)(brk h := b), brk := brk h + 1\<rparr>) xs es" "brk h \<notin> set xs"
proof -
  show b: "brk h \<notin> set xs" using plwfD(2,3)[OF assms] by blast
  show "plwf l (h\<lparr>nx := (nx h)(brk h := x), pv := (pv h)(brk h := y), dat := (dat h)(brk h := v),
      live := (live h)(brk h := b), brk := brk h + 1\<rparr>) xs es"
    using assms b by (auto simp: plwf_def lwf_def list_data_def less_SucI)
qed

text \<open>A rule duplicates an entry that differs from it at most in its number.\<close>

definition same_policy :: "prefix_list_entry \<Rightarrow> prefix_list_entry \<Rightarrow> bool" where
  "same_policy e new \<longleftrightarrow> same_prefix (eprefix e) (eprefix new) \<and> etype e = etype new \<and> le e = le new \<and>
     ge e = ge new \<and> seq e \<noteq> seq new"

lemma dup_check_ok:
  assumes wf: "plwf l h xs es" and e: "\<forall>e\<in>set es. seq e \<le> INT_MAX - 5 \<and> length (u (eprefix e)) = 16"
    and new: "length (u (eprefix new)) = 16"
  shows "prefix_entry_dup_check l new h =
    Some (Inr (List.find (\<lambda>x. same_policy (the (dat h x)) (numbered es new)) xs))"
proof -
  note d = plwfD[OF wf]
  let ?s = "if seq new = - 1 then next_seq es else seq new"
  have "prefix_new_seq_get l h = Some (Inr (next_seq es))" using prefix_new_seq_get_ok[OF wf] e by auto
  then have s: "(if seq new = - 1 then prefix_new_seq_get l h else Some (Inr (seq new))) = Some (Inr ?s)" by simp
  have "\<forall>e\<in>set es. bindR (prefix_same (eprefix e) (eprefix new)) (\<lambda>same.
      Inr (same \<and> etype e = etype new \<and> le e = le new \<and> ge e = ge new \<and> seq e \<noteq> ?s)) =
      Inr (same_policy e (numbered es new))"
    using e new by (auto simp: prefix_same_16 same_policy_def numbered_def)
  from scan_seg[OF d(8,2,4) this] d(7) s show ?thesis by (simp add: prefix_entry_dup_check_def)
qed

text \<open>The entry that a command makes, before and after it has its number.\<close>

definition rule_entry :: "prefix \<Rightarrow> prefix_list_type \<Rightarrow> int \<Rightarrow> int \<Rightarrow> int \<Rightarrow> bool \<Rightarrow> prefix_list_entry" where
  "rule_entry q ty s l g an =
     \<lparr>seq = s, le = l, ge = g, etype = ty, any = an, eprefix = q, refcnt = 0, hitcnt = 0\<rparr>"

definition entries_ok :: "prefix_list_entry list \<Rightarrow> bool" where
  "entries_ok es \<longleftrightarrow> length es + 1 < 2 ^ 31 - 1 \<and>
     (\<forall>e\<in>set es. seq e \<le> INT_MAX - 5 \<and> length (u (eprefix e)) = 16)"

lemma install_entry_ok:
  assumes ok: "plist_ok l h es" "entries_ok es" and p: "prefix_copy prefix_new p = Inr q" "length (u q) = 16"
    and new_def: "new = numbered es (rule_entry q ty s lnum g an)"
  shows "\<exists>l' h'. install_entry p ty s lnum g an l h =
      Some (Inr (if \<exists>e\<in>set es. same_policy e new then CMD_WARNING else CMD_SUCCESS, l', h')) \<and>
    plist_ok l' h' (if \<exists>e\<in>set es. same_policy e new then es else insert_entry new es)"
proof -
  obtain xs where wf: "plwf l h xs es" and sorted: "sorted_wrt (<) (map seq es)"
    using ok(1) by (auto simp: plist_ok_def)
  have es: "\<forall>e\<in>set es. seq e \<le> INT_MAX - 5 \<and> length (u (eprefix e)) = 16" and len: "length es + 1 < 2 ^ 31 - 1"
    using ok(2) by (auto simp: entries_ok_def)
  let ?e = "rule_entry q ty s lnum g an" and ?a = "brk h"
  let ?h = "\<lambda>b. h\<lparr>nx := (nx h)(?a := None), pv := (pv h)(?a := None), dat := (dat h)(?a := Some ?e),
      live := (live h)(?a := b), brk := ?a + 1\<rparr>"
  have make: "prefix_list_entry_make p ty s lnum g an h = Inr (Some ?a, ?h True)"
    by (simp add: prefix_list_entry_make_def p(1) node_defs deref_def rule_entry_def)
  have ent: "bindR (deref (?h True) (Some ?a)) (entry_at (?h True)) = Inr ?e"
    by (simp add: deref_def entry_at_def)
  have wf1: "plwf l (?h b) xs es" for b by (rule alloc_wf(1)[OF wf])
  have a: "?a \<notin> set xs" by (rule alloc_wf(2)[OF wf])
  let ?f = "List.find (\<lambda>x. same_policy (the (dat (?h True) x)) new) xs"
  have dup: "prefix_entry_dup_check l ?e (?h True) = Some (Inr ?f)"
    unfolding new_def by (rule dup_check_ok[OF wf1 es]) (simp add: p(2) rule_entry_def)
  have found: "?f = None \<longleftrightarrow> \<not> (\<exists>e\<in>set es. same_policy e new)"
    using find_nodes(1)[OF plwfD(4)[OF wf1], of "\<lambda>e. same_policy e new"] by auto
  show ?thesis
  proof (cases ?f)
    case None
    have es': "\<forall>e\<in>set es. seq e \<le> INT_MAX - 5" using es by blast
    have room: "length xs + 1 < 2 ^ 31 - 1" using len plwfD(5)[OF wf] by simp
    obtain l' h' xs' where add: "prefix_list_entry_add l ?a (?h True) = Some (Inr (l', h'))"
      "plwf l' h' xs' (insert_entry (numbered es ?e) es)"
      by (rule prefix_list_entry_add_ok[OF wf1 sorted es', of True ?a ?e]) (use a room in simp_all)
    have "install_entry p ty s lnum g an l h = Some (Inr (CMD_SUCCESS, l', h'))"
      by (simp only: install_entry_def make ent dup None add(1) sum.case prod.case option.case option.sel
          option.map bindR_simps)
    moreover have "plist_ok l' h' (insert_entry new es)"
      using add(2) sorted_insert_entry[OF sorted] by (auto simp: plist_ok_def new_def)
    ultimately show ?thesis using found None by auto
  next
    case (Some b)
    have free: "listnode_free (Some ?a) (?h True) = Inr (?h False)"
      by (simp add: listnode_free_def deref_def)
    have "install_entry p ty s lnum g an l h = Some (Inr (CMD_WARNING, l, ?h False))"
      by (simp only: install_entry_def make ent dup Some free sum.case prod.case option.case bindR_simps)
    moreover have "plist_ok l (?h False) es" using wf1 sorted by (auto simp: plist_ok_def)
    ultimately show ?thesis using found Some by auto
  qed
qed

section \<open>Matching rules\<close>

definition rule_matches :: "prefix_list_entry \<Rightarrow> prefix \<Rightarrow> bool" where
  "rule_matches e p \<longleftrightarrow> prefix (net (eprefix e)) (net p) \<and>
     (if le e = 0 \<and> ge e = 0 then plen (eprefix e) = plen p
      else (le e \<noteq> 0 \<longrightarrow> int (plen p) \<le> le e) \<and> (ge e \<noteq> 0 \<longrightarrow> ge e \<le> int (plen p)))"

lemma entry_match_ok:
  assumes "pwf (eprefix e)" "pwf p"
  shows "prefix_list_entry_match e p = Inr (rule_matches e p)"
  using assms by (simp add: prefix_list_entry_match_def prefix_match_net rule_matches_def word_unat_eq_iff)

text \<open>The counters of the entries that were looked at.\<close>

fun counted :: "prefix \<Rightarrow> prefix_list_entry list \<Rightarrow> prefix_list_entry list" where
  "counted p [] = []"
| "counted p (e # es) =
     (if rule_matches e p then e\<lparr>refcnt := uadd 64 (refcnt e) 1, hitcnt := uadd 64 (hitcnt e) 1\<rparr> # es
      else e\<lparr>refcnt := uadd 64 (refcnt e) 1\<rparr> # counted p es)"

definition verdict :: "prefix_list_entry list \<Rightarrow> prefix \<Rightarrow> prefix_list_type" where
  "verdict es p = (case List.find (\<lambda>e. rule_matches e p) es of None \<Rightarrow> PREFIX_DENY | Some e \<Rightarrow> etype e)"

lemma map_seq_counted [simp]: "map seq (counted p es) = map seq es"
  by (induction es) auto

lemma apply_loop_ok:
  assumes "dseg (nx h) (pv h) q xs None" "\<forall>x\<in>set xs. live h x" "distinct xs" "map (dat h) xs = map Some es"
    "\<forall>e\<in>set es. pwf (eprefix e)" "pwf p"
  shows "\<exists>d. apply_loop p h (first xs None) = Some (Inr (verdict es p, h\<lparr>dat := d\<rparr>)) \<and>
    map d xs = map Some (counted p es) \<and> (\<forall>y. y \<notin> set xs \<longrightarrow> d y = dat h y)"
  using assms(1-5)
proof (induction xs arbitrary: h q es)
  case Nil
  then show ?case by (intro exI[of _ "dat h"]) (auto simp: apply_loop.simps verdict_def)
next
  case (Cons x xs)
  then obtain e es' where es: "es = e # es'" "dat h x = Some e" "map (dat h) xs = map Some es'" by (cases es) auto
  define e1 where "e1 = e\<lparr>refcnt := uadd 64 (refcnt e) 1\<rparr>"
  let ?h1 = "h\<lparr>dat := (dat h)(x := Some e1)\<rparr>"
  have m: "prefix_list_entry_match e1 p = Inr (rule_matches e p)" and e1: "etype e1 = etype e" "hitcnt e1 = hitcnt e"
    using entry_match_ok[of e1 p] Cons.prems(5) assms(6) es(1) by (simp_all add: rule_matches_def e1_def)
  have "apply_loop p h (Some x) = (case prefix_list_entry_match e1 p of Inl e \<Rightarrow> Some (Inl e)
      | Inr m \<Rightarrow> if m then Some (Inr (etype e1, ?h1\<lparr>dat := (dat ?h1)(x := Some (e1\<lparr>hitcnt := uadd 64 (hitcnt e1) 1\<rparr>))\<rparr>))
          else apply_loop p ?h1 (nx ?h1 x))"
    using Cons.prems(2) es(2)
    by (simp add: apply_loop.simps[of p h "Some x"] entry_at_ok Let_def e1_def[symmetric] del: One_nat_def)
  then have step: "apply_loop p h (Some x) = (if rule_matches e p
      then Some (Inr (etype e, ?h1\<lparr>dat := (dat ?h1)(x := Some (e1\<lparr>hitcnt := uadd 64 (hitcnt e) 1\<rparr>))\<rparr>))
      else apply_loop p ?h1 (nx h x))"
    by (simp add: m e1)
  show ?case
  proof (cases "rule_matches e p")
    case True
    have "map ((dat h)(x := y)) xs = map Some es'" for y using Cons.prems(3) es(3) by (simp add: map_fun_upd)
    with True step es show ?thesis by (auto simp: verdict_def e1_def)
  next
    case False
    have seg: "dseg (nx ?h1) (pv ?h1) (Some x) xs None" "\<forall>x\<in>set xs. live ?h1 x" "distinct xs"
      "map (dat ?h1) xs = map Some es'" "\<forall>e\<in>set es'. pwf (eprefix e)"
      using Cons.prems es by (auto simp: map_fun_upd)
    obtain d where d: "apply_loop p ?h1 (first xs None) = Some (Inr (verdict es' p, ?h1\<lparr>dat := d\<rparr>))"
      "map d xs = map Some (counted p es')" "\<forall>y. y \<notin> set xs \<longrightarrow> d y = dat ?h1 y"
      using Cons.IH[OF seg] by blast
    have "d x = Some e1" using d(3) Cons.prems(3) by simp
    with d False step es Cons.prems(1) show ?thesis by (intro exI[of _ d]) (auto simp: verdict_def e1_def)
  qed
qed

section \<open>Properties\<close>

definition no_entries :: pheap where
  "no_entries = \<lparr>nx = \<lambda>_. None, pv = \<lambda>_. None, dat = \<lambda>_. None, live = \<lambda>_. False, brk = 0\<rparr>"

lemma empty_ok: "plist_ok prefix_list_new no_entries []"
  by (auto simp: plist_ok_def plwf_def lwf_def prefix_list_new_def no_entries_def list_data_def intro!: exI[of _ "[]"])

text \<open>
  C34: Installing a rule keeps a prefix list sorted by sequence numbers without repetition.  A
  rule that differs from an entry at most in its number is refused and the list is unchanged;
  otherwise the rule takes the place of the entry with its number, or its place in the order.
  A rule without a number gets the next multiple of five.
\<close>

theorem prefix_list_install_spec:
  assumes "plist_ok l h es" "entries_ok es" "family p \<in> {AF_INET, AF_INET6}" "length (u p) = 16"
    "plen p \<le> 8 * prefix_blen p"
  shows "\<exists>q l' h'. net q = net p \<and> install_entry p ty s lnum g an l h =
      Some (Inr (if \<exists>e\<in>set es. same_policy e (numbered es (rule_entry q ty s lnum g an))
                 then CMD_WARNING else CMD_SUCCESS, l', h')) \<and>
    plist_ok l' h' (if \<exists>e\<in>set es. same_policy e (numbered es (rule_entry q ty s lnum g an)) then es
                    else insert_entry (numbered es (rule_entry q ty s lnum g an)) es)"
proof -
  obtain q where q: "prefix_copy prefix_new p = Inr q" "length (u q) = 16" "net q = net p"
    using prefix_copy_16[OF assms(3,4)] assms(5) by metis
  from install_entry_ok[OF assms(1,2) q(1,2) refl] q(3) show ?thesis by blast
qed

definition ex_rule :: prefix where
  "ex_rule = \<lparr>family = AF_INET, prefixlen = 8, u = 10 # replicate 15 0\<rparr>"

theorem prefix_list_install_spec_witness:
  "\<exists>l' h' e. install_entry ex_rule PREFIX_PERMIT (- 1) 0 24 False prefix_list_new no_entries =
     Some (Inr (CMD_SUCCESS, l', h')) \<and> plist_ok l' h' [e] \<and> seq e = 5"
proof -
  have "plen ex_rule \<le> 8 * prefix_blen ex_rule" by (simp add: ex_rule_def prefix_blen_def IPV4_MAX_BYTELEN_def)
  then obtain q l' h' where "install_entry ex_rule PREFIX_PERMIT (- 1) 0 24 False prefix_list_new no_entries =
      Some (Inr (CMD_SUCCESS, l', h'))"
    "plist_ok l' h' [(rule_entry q PREFIX_PERMIT (- 1) 0 24 False)\<lparr>seq := 5\<rparr>]"
    using prefix_list_install_spec[OF empty_ok, of ex_rule PREFIX_PERMIT "- 1" 0 24 False]
    by (auto simp: entries_ok_def ex_rule_def insert_entry_def numbered_def rule_entry_def next_seq_def)
  then show ?thesis by (intro exI[of _ l'] exI[of _ h']
        exI[of _ "(rule_entry q PREFIX_PERMIT (- 1) 0 24 False)\<lparr>seq := 5\<rparr>"]) simp
qed

text \<open>
  C35: \<open>prefix_list_apply\<close> decides by the first entry, in the order of the sequence numbers, that
  matches: its network contains the prefix and the length of the prefix is within \<open>ge\<close> and
  \<open>le\<close>, or equal when neither is given.  Without such an entry the prefix is denied, an empty
  list permits everything, and only the counters of the entries looked at change.
\<close>

theorem prefix_list_apply_first:
  assumes "plist_ok l h es" "\<forall>e\<in>set es. pwf (eprefix e)" "pwf p"
  shows "\<exists>h'. prefix_list_apply (Some l) p h =
      Some (Inr (if es = [] then PREFIX_PERMIT else verdict es p, h')) \<and> plist_ok l h' (counted p es)"
proof -
  obtain xs where wf: "plwf l h xs es" and sorted: "sorted_wrt (<) (map seq es)"
    using assms(1) by (auto simp: plist_ok_def)
  note d = plwfD[OF wf]
  show ?thesis
  proof (cases "es = []")
    case True
    then show ?thesis using assms(1) d(6) by (auto simp: prefix_list_apply_def)
  next
    case False
    have "distinct xs" using d(1) by (simp add: dlist_def)
    from apply_loop_ok[OF d(8,2) this d(4) assms(2,3)] obtain m where
      m: "apply_loop p h (first xs None) = Some (Inr (verdict es p, h\<lparr>dat := m\<rparr>))"
      "map m xs = map Some (counted p es)" by blast
    have "plwf l (h\<lparr>dat := m\<rparr>) xs (counted p es)"
      using wf m(2) by (simp add: plwf_def lwf_def list_data_def)
    with sorted have "plist_ok l (h\<lparr>dat := m\<rparr>) (counted p es)" by (auto simp: plist_ok_def)
    with m(1) False d(6,7) show ?thesis by (auto simp: prefix_list_apply_def)
  qed
qed

definition ex_network :: prefix where
  "ex_network = \<lparr>family = AF_INET, prefixlen = 24, u = 10 # 1 # 2 # replicate 13 0\<rparr>"

definition ex_plist :: prefix_list where
  "ex_plist = \<lparr>desc = None, pl_count = 1, pl_head = Some 0, pl_tail = Some 0\<rparr>"

definition ex_entries :: pheap where
  "ex_entries = no_entries\<lparr>dat := [0 \<mapsto> rule_entry ex_rule PREFIX_PERMIT 5 0 24 False],
     live := (\<lambda>a. a = 0), brk := 1\<rparr>"

lemma ex_plist_ok: "plist_ok ex_plist ex_entries [rule_entry ex_rule PREFIX_PERMIT 5 0 24 False]"
  by (auto simp: plist_ok_def plwf_def lwf_def dlist_def ex_plist_def ex_entries_def no_entries_def list_data_def
      intro!: exI[of _ "[0]"])

theorem prefix_list_apply_first_witness:
  "\<exists>h'. prefix_list_apply (Some ex_plist) ex_network ex_entries = Some (Inr (PREFIX_PERMIT, h')) \<and>
     plist_ok ex_plist h' [(rule_entry ex_rule PREFIX_PERMIT 5 0 24 False)\<lparr>refcnt := 1, hitcnt := 1\<rparr>]"
proof -
  let ?e = "rule_entry ex_rule PREFIX_PERMIT 5 0 24 False"
  have wf: "pwf ex_network" "pwf (eprefix ?e)" by code_simp+
  have "rule_matches ?e ex_network" by code_simp
  then have "verdict [?e] ex_network = PREFIX_PERMIT" "counted ex_network [?e] = [?e\<lparr>refcnt := 1, hitcnt := 1\<rparr>]"
    by (simp_all add: verdict_def rule_entry_def uadd_def)
  with prefix_list_apply_first[OF ex_plist_ok _ wf(1)] wf(2) show ?thesis by auto
qed

text \<open>The entries that a command with these arguments names.\<close>

definition names_rule :: "prefix \<Rightarrow> prefix_list_type \<Rightarrow> int \<Rightarrow> int \<Rightarrow> int \<Rightarrow> prefix_list_entry \<Rightarrow> bool" where
  "names_rule p ty s lnum g e \<longleftrightarrow> same_prefix (eprefix e) p \<and> etype e = ty \<and> (s \<ge> 0 \<longrightarrow> seq e = s) \<and>
     le e = lnum \<and> ge e = g"

lemma entry_lookup_ok:
  assumes "plwf l h xs es" "\<forall>e\<in>set es. length (u (eprefix e)) = 16" "length (u p) = 16"
  shows "prefix_list_entry_lookup l p ty s lnum g h =
    Some (Inr (List.find (\<lambda>x. names_rule p ty s lnum g (the (dat h x))) xs))"
proof -
  note d = plwfD[OF assms(1)]
  have "\<forall>e\<in>set es. bindR (prefix_same (eprefix e) p) (\<lambda>same. Inr (same \<and> etype e = ty \<and>
      \<not> (s \<ge> 0 \<and> seq e \<noteq> s) \<and> le e = lnum \<and> ge e = g)) = Inr (names_rule p ty s lnum g e)"
    using assms(2,3) by (auto simp: prefix_same_16 names_rule_def)
  from scan_seg[OF d(8,2,4) this] d(7) show ?thesis by (simp add: prefix_list_entry_lookup_def)
qed

text \<open>
  Taking a rule away removes the first entry that has its prefix, type and bounds, and its
  number if one is given; the other entries stay in order.  The list goes away with its last
  entry unless it has a description.  When no entry is named the command fails and nothing
  changes.
\<close>

theorem prefix_list_uninstall_spec:
  assumes "plist_ok l h es" "entries_ok es" "parse_type typestr = Some ty" "length (u p) = 16"
    "rule_prefix inet_aton inet_pton afi pstr (opt_atoi g 0) (opt_atoi m 0) p0 = Inr (True, p, genum, lenum, an)"
  shows "(\<forall>e\<in>set es. \<not> names_rule p ty (opt_atoi sq (- 1)) lenum genum e) \<and>
      vty_prefix_list_uninstall inet_aton inet_pton p0 afi sq typestr pstr g m l h =
        Some (Inr (CMD_WARNING, Some l, h)) \<or>
    (\<exists>es1 e es2 r h'. es = es1 @ e # es2 \<and> names_rule p ty (opt_atoi sq (- 1)) lenum genum e \<and>
      (\<forall>e\<in>set es1. \<not> names_rule p ty (opt_atoi sq (- 1)) lenum genum e) \<and>
      vty_prefix_list_uninstall inet_aton inet_pton p0 afi sq typestr pstr g m l h = Some (Inr (CMD_SUCCESS, r, h')) \<and>
      (case r of None \<Rightarrow> es1 @ es2 = [] \<and> desc l = None
       | Some l' \<Rightarrow> plist_ok l' h' (es1 @ es2) \<and> desc l' = desc l \<and> (es1 @ es2 \<noteq> [] \<or> desc l \<noteq> None)))"
proof -
  obtain xs where wf: "plwf l h xs es" and sorted: "sorted_wrt (<) (map seq es)"
    using assms(1) by (auto simp: plist_ok_def)
  let ?Q = "names_rule p ty (opt_atoi sq (- 1)) lenum genum"
  have es: "\<forall>e\<in>set es. length (u (eprefix e)) = 16" using assms(2) by (auto simp: entries_ok_def)
  note look = entry_lookup_ok[OF wf es assms(4), of ty "opt_atoi sq (- 1)" lenum genum]
  show ?thesis
  proof (cases "List.find (\<lambda>x. ?Q (the (dat h x))) xs")
    case None
    with look assms(3,5) find_nodes(1)[OF plwfD(4)[OF wf], of ?Q] show ?thesis
      by (intro disjI1) (simp add: vty_prefix_list_uninstall_def)
  next
    case (Some a)
    from find_nodes(2)[OF plwfD(4)[OF wf] this] obtain xs1 xs2 es1 e es2 where
      eq: "xs = xs1 @ a # xs2" "es = es1 @ e # es2" "map (dat h) xs1 = map Some es1" and
      q: "?Q e" "\<forall>e\<in>set es1. \<not> ?Q e" by blast
    have len: "length xs1 = length es1" using eq(3) by (metis length_map)
    from wf eq obtain l' h' where unlink: "entry_unlink l (Some a) h = Inr (l', h')"
      "plwf l' h' (xs1 @ xs2) (es1 @ es2)" "desc l' = desc l" using entry_unlink_ok[OF _ len] by metis
    have "pl_head l' = None \<and> pl_tail l' = None \<longleftrightarrow> es1 @ es2 = []"
      using plwfD(1,5)[OF unlink(2)] by (cases "xs1 @ xs2") (auto simp: dlist_def)
    then have del: "prefix_list_entry_delete l (Some a) True h =
        Inr (if es1 @ es2 = [] \<and> desc l = None then None else Some l', h')"
      using unlink(1,3) by (auto simp: prefix_list_entry_delete_def)
    have "plist_ok l' h' (es1 @ es2)"
      using unlink(2) sorted eq(2) by (auto simp: plist_ok_def sorted_wrt_append)
    moreover have "vty_prefix_list_uninstall inet_aton inet_pton p0 afi sq typestr pstr g m l h =
        Some (Inr (CMD_SUCCESS, if es1 @ es2 = [] \<and> desc l = None then None else Some l', h'))"
      using look Some assms(3,5) del by (simp add: vty_prefix_list_uninstall_def)
    ultimately show ?thesis using eq(2) q unlink(3)
      by (intro disjI2 exI[of _ es1] exI[of _ e] exI[of _ es2] exI[of _ h']
          exI[of _ "if es1 @ es2 = [] \<and> desc l = None then None else Some l'"]) auto
  qed
qed

theorem prefix_list_uninstall_spec_witness:
  "\<exists>h'. vty_prefix_list_uninstall (\<lambda>s. Some [10, 0, 0, 0]) (\<lambda>s. None) prefix_new AFI_IP (Some ''5'') ''permit''
     ''10.0.0.0/8'' (Some ''24'') None ex_plist ex_entries = Some (Inr (CMD_SUCCESS, None, h'))"
proof -
  let ?e = "rule_entry ex_rule PREFIX_PERMIT 5 0 24 False"
  have rule: "rule_prefix (\<lambda>s. Some [10, 0, 0, 0]) (\<lambda>s. None) AFI_IP ''10.0.0.0/8'' (opt_atoi (Some ''24'') 0)
      (opt_atoi None 0) prefix_new = Inr (True, ex_rule, 24, 0, False)" by code_simp
  have "parse_type ''permit'' = Some PREFIX_PERMIT" "length (u ex_rule) = 16"
    "names_rule ex_rule PREFIX_PERMIT (opt_atoi (Some ''5'') (- 1)) 0 24 ?e" by code_simp+
  moreover have "entries_ok [?e]" by (simp add: entries_ok_def rule_entry_def ex_rule_def INT_MAX_def)
  ultimately show ?thesis
    using prefix_list_uninstall_spec[OF ex_plist_ok _ _ _ rule, where typestr = "''permit''" and ty = PREFIX_PERMIT
        and sq = "Some ''5''"]
    by (auto simp: Cons_eq_append_conv ex_plist_def split: option.splits)
qed

text \<open>
  A rule with \<open>ge\<close> and with \<open>le 32\<close> cannot be removed by the command that entered it: the
  command stores zero for \<open>le\<close>, and its negation looks for 32.
\<close>

theorem uninstall_le_max:
  assumes "plist_ok l h es" "entries_ok es" "\<forall>e\<in>set es. ge e \<noteq> 0 \<longrightarrow> le e \<noteq> 32"
    and "parse_type typestr = Some ty" "\<not> is_any pstr" "str2prefix_ipv4 inet_aton pstr p0 = Inr (True, p)"
    "length (u p) = 16" "plen p < 32" "atoi g > int (plen p)" "atoi g \<le> 32" "atoi m = 32"
    and "vty_prefix_list_install inet_aton inet_pton p0 AFI_IP sq typestr pstr (Some g) (Some m) l h =
      Some (Inr (CMD_SUCCESS, l', h'))"
  shows "vty_prefix_list_uninstall inet_aton inet_pton p0 AFI_IP sq typestr pstr (Some g) (Some m) l' h' =
      Some (Inr (CMD_WARNING, Some l', h'))"
proof -
  have fam: "family p = AF_INET"
    using assms(6) by (auto simp: str2prefix_ipv4_def bindR_eq_Inr Let_def split: if_splits)
  have rule: "rule_prefix inet_aton inet_pton AFI_IP pstr (opt_atoi (Some g) 0) (opt_atoi (Some m) 0) p0 =
      Inr (True, p, atoi g, 32, False)"
    using assms(5,6,11) by (simp add: rule_prefix_def opt_atoi_def)
  have "check_range AFI_IP (plen p) (atoi g) 32 = Some 0"
    using assms(8,9,10) of_nat_0_le_iff[of "plen p"] by (auto simp: check_range_def)
  with assms(4,12) rule have inst: "install_entry p ty (opt_atoi sq (- 1)) 0 (atoi g) False l h = Some (Inr (CMD_SUCCESS, l', h'))"
    by (simp add: vty_prefix_list_install_def)
  obtain q where q: "prefix_copy prefix_new p = Inr q" "length (u q) = 16"
    using prefix_copy_16[of p] fam assms(7) by auto
  define new where "new = numbered es (rule_entry q ty (opt_atoi sq (- 1)) 0 (atoi g) False)"
  have new: "le new = 0" "length (u (eprefix new)) = 16" using q by (simp_all add: new_def numbered_def rule_entry_def)
  have ok: "plist_ok l' h' (insert_entry new es)"
    using install_entry_ok[OF assms(1,2) q new_def] inst by (auto split: if_splits)
  then obtain xs where wf: "plwf l' h' xs (insert_entry new es)" by (auto simp: plist_ok_def)
  have set: "set (insert_entry new es) \<subseteq> insert new (set es)" by (auto simp: insert_entry_def)
  let ?Q = "names_rule p ty (opt_atoi sq (- 1)) 32 (atoi g)"
  have "\<forall>e\<in>set (insert_entry new es). length (u (eprefix e)) = 16"
    using set new(2) assms(2) by (auto simp: entries_ok_def)
  note look = entry_lookup_ok[OF wf this assms(7)]
  have "\<not> ?Q e" if "e \<in> set (insert_entry new es)" for e
  proof -
    have "e = new \<or> e \<in> set es" using set that by auto
    moreover have "atoi g \<noteq> 0" using assms(9) by auto
    ultimately show ?thesis using new(1) assms(3) by (auto simp: names_rule_def)
  qed
  with find_nodes(1)[OF plwfD(4)[OF wf], of ?Q] look have
    "prefix_list_entry_lookup l' p ty (opt_atoi sq (- 1)) 32 (atoi g) h' = Some (Inr None)" by auto
  with rule assms(4) show ?thesis by (simp add: vty_prefix_list_uninstall_def)
qed

theorem uninstall_le_max_witness:
  "\<exists>l h. vty_prefix_list_install (\<lambda>s. Some [10, 0, 0, 0]) (\<lambda>s. None) prefix_new AFI_IP None ''permit'' ''10.0.0.0/8''
       (Some ''24'') (Some ''32'') prefix_list_new no_entries = Some (Inr (CMD_SUCCESS, l, h)) \<and>
     vty_prefix_list_uninstall (\<lambda>s. Some [10, 0, 0, 0]) (\<lambda>s. None) prefix_new AFI_IP None ''permit'' ''10.0.0.0/8''
       (Some ''24'') (Some ''32'') l h = Some (Inr (CMD_WARNING, Some l, h))"
proof -
  let ?aton = "\<lambda>s :: string. Some [10, 0, 0, 0 :: u8]"
  have conv: "str2prefix_ipv4 ?aton ''10.0.0.0/8'' prefix_new = Inr (True, ex_rule)" by code_simp
  have num: "atoi ''24'' = 24" "atoi ''32'' = 32" "\<not> is_any ''10.0.0.0/8''" "parse_type ''permit'' = Some PREFIX_PERMIT"
    by code_simp+
  obtain l h where inst: "install_entry ex_rule PREFIX_PERMIT (- 1) 0 24 False prefix_list_new no_entries =
      Some (Inr (CMD_SUCCESS, l, h))"
    using install_entry_ok[OF empty_ok _ _ _ refl, of ex_rule] prefix_copy_16[of ex_rule]
    by (auto simp: entries_ok_def ex_rule_def) metis
  have "vty_prefix_list_install ?aton (\<lambda>s. None) prefix_new AFI_IP None ''permit'' ''10.0.0.0/8''
       (Some ''24'') (Some ''32'') prefix_list_new no_entries = Some (Inr (CMD_SUCCESS, l, h))"
    using inst conv num by (simp add: vty_prefix_list_install_def rule_prefix_def opt_atoi_def check_range_def ex_rule_def)
  with uninstall_le_max[OF empty_ok _ _ num(4) num(3) conv, of "''24''" "''32''" "\<lambda>s. None" None l h] num show ?thesis
    by (auto simp: entries_ok_def ex_rule_def)
qed

end
