(* ===== verification/Access_List.thy ===== *)
theory Access_List
  imports Plist
begin

text \<open>
  Access lists (lib/filter.c, lib/filter.h): named lists of filters that permit or deny
  prefixes, kept by two masters, one for IPv4 and one for IPv6, each with a list of the names
  that are numbers and a list of the other names.  Access lists and filters live in two node
  heaps whose links are the fields \<open>next\<close> and \<open>prev\<close> of the structures.  The two static masters
  are named by their address family.  The commands are modelled from their arguments to the
  change of this state; the messages to the terminal are left out, and a call of a hook is
  recorded with the name that is passed.
\<close>

section \<open>Calls that may not return\<close>

definition bindM :: "'a res option \<Rightarrow> ('a \<Rightarrow> 'b res option) \<Rightarrow> 'b res option" where
  "bindM m f = (case m of None \<Rightarrow> None | Some (Inl e) \<Rightarrow> Some (Inl e) | Some (Inr x) \<Rightarrow> f x)"

lemma bindM_simps [simp]:
  "bindM None f = None" "bindM (Some (Inl e)) f = Some (Inl e)" "bindM (Some (Inr x)) f = f x"
  by (simp_all add: bindM_def)

lemma bindM_eq_Inr: "bindM m f = Some (Inr y) \<longleftrightarrow> (\<exists>x. m = Some (Inr x) \<and> f x = Some (Inr y))"
  by (auto simp: bindM_def split: option.splits sum.splits)

section \<open>Data\<close>

datatype filter_type = FILTER_DENY | FILTER_PERMIT | FILTER_DYNAMIC

datatype access_type = ACCESS_TYPE_STRING | ACCESS_TYPE_NUMBER

text \<open>An address or mask is its four bytes in network order.\<close>

record filter_cisco =
  extended :: bool
  c_addr :: "u8 list"
  c_addr_mask :: "u8 list"
  c_mask :: "u8 list"
  c_mask_mask :: "u8 list"

record filter_zebra =
  exact :: bool
  z_prefix :: prefix

text \<open>The union \<open>u\<close> of a filter: the member that has been stored.\<close>

datatype filter_union = Cfilter filter_cisco | Zfilter filter_zebra

record afilter =
  f_type :: filter_type
  cisco :: bool
  f_u :: filter_union

text \<open>
  Reading a member of the union.  Both structures begin with the flag; the filters come zeroed
  from \<open>calloc\<close> and their members are assigned one by one, so that reading the member that has
  not been stored finds zeroes in the padding of the prefix (bytes 4 to 7 and 10 to 15) and
  behind \<open>mask_mask\<close> (bytes 20 to 31).
\<close>

definition cfilter :: "afilter \<Rightarrow> filter_cisco" where
  "cfilter f =
     (case f_u f of
        Cfilter c \<Rightarrow> c
      | Zfilter z \<Rightarrow>
          \<lparr>extended = exact z, c_addr = [0, 0, 0, 0],
           c_addr_mask = [family (z_prefix z), prefixlen (z_prefix z), 0, 0],
           c_mask = [0, 0, 0, 0], c_mask_mask = take 4 (u (z_prefix z))\<rparr>)"

definition zfilter :: "afilter \<Rightarrow> filter_zebra" where
  "zfilter f =
     (case f_u f of
        Zfilter z \<Rightarrow> z
      | Cfilter c \<Rightarrow>
          \<lparr>exact = extended c,
           z_prefix = \<lparr>family = c_addr_mask c ! 0, prefixlen = c_addr_mask c ! 1,
             u = c_mask_mask c @ replicate 12 0\<rparr>\<rparr>)"

text \<open>The two ends of a doubly linked list (\<open>struct access_list_list\<close>, and \<open>head\<close> and \<open>tail\<close> of an access list).\<close>

record ends =
  e_head :: ptr
  e_tail :: ptr

definition no_ends :: ends where
  "no_ends = \<lparr>e_head = None, e_tail = None\<rparr>"

record access_list =
  al_name :: "string option"
  al_remark :: "string option"
  al_master :: afi
  al_type :: access_type
  al_ends :: ends

record access_master =
  num :: ends
  str :: ends
  add_hook :: bool
  delete_hook :: bool

datatype hook_call = Add_hook "string option" | Delete_hook "string option"

record acls =
  access_master :: "afi \<Rightarrow> access_master"
  lists :: "access_list lheap"
  filters :: "afilter lheap"
  called :: "hook_call list"

definition access_master_get :: "afi \<Rightarrow> afi option" where
  "access_master_get afi = (if afi = AFI_IP \<or> afi = AFI_IP6 then Some afi else None)"

definition master_list :: "acls \<Rightarrow> afi \<Rightarrow> access_type \<Rightarrow> ends" where
  "master_list s m ty = (if ty = ACCESS_TYPE_NUMBER then num (access_master s m) else str (access_master s m))"

definition set_master_list :: "afi \<Rightarrow> access_type \<Rightarrow> ends \<Rightarrow> acls \<Rightarrow> acls" where
  "set_master_list m ty l s =
     s\<lparr>access_master := (access_master s)(m := if ty = ACCESS_TYPE_NUMBER
         then (access_master s m)\<lparr>num := l\<rparr> else (access_master s m)\<lparr>str := l\<rparr>)\<rparr>"

section \<open>Matching\<close>

definition and_not :: "u8 list \<Rightarrow> u8 list \<Rightarrow> u8 list" where
  "and_not a m = map2 (\<lambda>x y. x AND NOT y) a m"

definition filter_match_cisco :: "afilter \<Rightarrow> prefix \<Rightarrow> bool res" where
  "filter_match_cisco mfilter p =
     (let filter = cfilter mfilter in
      bindR (mem_read (u p) 0 4) (\<lambda>a.
      let check_addr = and_not a (c_addr_mask filter) in
      if extended filter then
        bindR (masklen2ip (int (plen p))) (\<lambda>mask.
        let check_mask = and_not mask (c_mask_mask filter) in
        Inr (check_addr = c_addr filter \<and> check_mask = c_mask filter))
      else Inr (check_addr = c_addr filter)))"

definition filter_match_zebra :: "afilter \<Rightarrow> prefix \<Rightarrow> bool res" where
  "filter_match_zebra mfilter p =
     (let filter = zfilter mfilter in
      if family (z_prefix filter) = family p then
        if exact filter then
          if prefixlen (z_prefix filter) = prefixlen p then prefix_match (z_prefix filter) p else Inr False
        else prefix_match (z_prefix filter) p
      else Inr False)"

definition access_list_apply :: "ptr \<Rightarrow> prefix \<Rightarrow> acls \<Rightarrow> filter_type res option" where
  "access_list_apply access p s =
     (case access of
        None \<Rightarrow> Some (Inr FILTER_DENY)
      | Some a \<Rightarrow>
          bindM (Some (entry_at (lists s) a)) (\<lambda>al.
          bindM (scan (\<lambda>f. if cisco f then filter_match_cisco f p else filter_match_zebra f p)
                   (filters s) (e_head (al_ends al))) (\<lambda>r.
          case r of
            None \<Rightarrow> Some (Inr FILTER_DENY)
          | Some b \<Rightarrow> bindM (Some (entry_at (filters s) b)) (\<lambda>f. Some (Inr (f_type f))))))"

section \<open>Linking\<close>

text \<open>The unlinking code of \<open>access_list_delete\<close> and of \<open>access_list_filter_delete\<close>.\<close>

definition unlink :: "ends \<Rightarrow> ptr \<Rightarrow> 'a lheap \<Rightarrow> (ends \<times> 'a lheap) res" where
  "unlink l x h =
     bindR (get_next x h) (\<lambda>n. bindR (get_prev x h) (\<lambda>p.
     bindR (if n \<noteq> None then bindR (put_prev n p h) (\<lambda>h. Inr (l, h))
            else Inr (l\<lparr>e_tail := p\<rparr>, h)) (\<lambda>(l, h).
     bindR (get_prev x h) (\<lambda>p. bindR (get_next x h) (\<lambda>n.
     if p \<noteq> None then bindR (put_next p n h) (\<lambda>h. Inr (l, h)) else Inr (l\<lparr>e_head := n\<rparr>, h))))))"

text \<open>The insertion before \<open>point\<close> of \<open>access_list_insert\<close>.\<close>

definition insert_link :: "ends \<Rightarrow> ptr \<Rightarrow> ptr \<Rightarrow> 'a lheap \<Rightarrow> (ends \<times> 'a lheap) res" where
  "insert_link alist access point h =
     (if e_head alist = None then Inr (\<lparr>e_head = access, e_tail = access\<rparr>, h)
      else if point = None then
        bindR (put_prev access (e_tail alist) h) (\<lambda>h.
        bindR (put_next (e_tail alist) access h) (\<lambda>h. Inr (alist\<lparr>e_tail := access\<rparr>, h)))
      else if point = e_head alist then
        bindR (put_next access (e_head alist) h) (\<lambda>h.
        bindR (put_prev (e_head alist) access h) (\<lambda>h. Inr (alist\<lparr>e_head := access\<rparr>, h)))
      else
        bindR (put_next access point h) (\<lambda>h.
        bindR (get_prev point h) (\<lambda>p.
        bindR (put_prev access p h) (\<lambda>h.
        bindR (get_prev point h) (\<lambda>p.
        bindR (if p \<noteq> None then put_next p access h else Inr h) (\<lambda>h.
        bindR (put_prev point access h) (\<lambda>h. Inr (alist, h))))))))"

text \<open>The part of \<open>access_list_filter_add\<close> that links the filter in at the end.\<close>

definition append_link :: "ends \<Rightarrow> ptr \<Rightarrow> 'a lheap \<Rightarrow> (ends \<times> 'a lheap) res" where
  "append_link l x h =
     bindR (put_next x None h) (\<lambda>h.
     bindR (put_prev x (e_tail l) h) (\<lambda>h.
     bindR (if e_tail l \<noteq> None then bindR (put_next (e_tail l) x h) (\<lambda>h. Inr (l, h))
            else Inr (l\<lparr>e_head := x\<rparr>, h)) (\<lambda>(l, h). Inr (l\<lparr>e_tail := x\<rparr>, h))))"

section \<open>Access lists\<close>

definition access_list_delete :: "nat \<Rightarrow> acls \<Rightarrow> acls res option" where
  "access_list_delete access s =
     bindM (Some (entry_at (lists s) access)) (\<lambda>al.
     bindM (delete_all_loop (filters s) (e_head (al_ends al)) []) (\<lambda>(fh, freed).
     Some (
       bindR (unlink (master_list s (al_master al) (al_type al)) (Some access) (lists s)) (\<lambda>(l, h).
       bindR (listnode_free (Some access) h) (\<lambda>h.
       Inr (set_master_list (al_master al) (al_type al) l (s\<lparr>filters := fh, lists := h\<rparr>)))))))"

text \<open>
  The loop over the characters of the name: the number, or \<open>None\<close> when there is another
  character.  The accumulator is a \<open>long\<close>, whose overflow is undefined.
\<close>

fun number_loop :: "int \<Rightarrow> string \<Rightarrow> int option res" where
  "number_loop number [] = Inr (Some number)"
| "number_loop number (c # cs) =
     (if isdigit c then
        if number * 10 + int (digit_val c) \<le> LONG_MAX then number_loop (number * 10 + int (digit_val c)) cs
        else Inl Int_overflow
      else Inr None)"

text \<open>\<open>strcmp\<close> compares the characters as unsigned numbers; only the sign of its result is specified.\<close>

fun strcmp :: "string \<Rightarrow> string \<Rightarrow> int" where
  "strcmp [] [] = 0"
| "strcmp [] (d # ds) = - 1"
| "strcmp (c # cs) [] = 1"
| "strcmp (c # cs) (d # ds) =
     (if c = d then strcmp cs ds else if (of_char c :: nat) < of_char d then - 1 else 1)"

text \<open>\<open>atol\<close> on a null pointer is an access through it; the other loop skips such names.\<close>

definition num_point :: "int \<Rightarrow> access_list \<Rightarrow> bool res" where
  "num_point number al =
     (case al_name al of None \<Rightarrow> Inl Mem_fault | Some nm \<Rightarrow> Inr (strtol nm \<ge> number))"

definition str_point :: "string \<Rightarrow> access_list \<Rightarrow> bool res" where
  "str_point name al = Inr (case al_name al of None \<Rightarrow> False | Some nm \<Rightarrow> strcmp nm name \<ge> 0)"

definition access_list_insert :: "afi \<Rightarrow> string \<Rightarrow> acls \<Rightarrow> (ptr \<times> acls) res option" where
  "access_list_insert afi name s =
     (case access_master_get afi of
        None \<Rightarrow> Some (Inr (None, s))
      | Some m \<Rightarrow>
          let (access, h) = listnode_new (lists s) in
          bindM (Some (number_loop 0 name)) (\<lambda>number.
          let ty = (if number \<noteq> None then ACCESS_TYPE_NUMBER else ACCESS_TYPE_STRING);
              alist = master_list s m ty in
          bindM (Some (put_data access (Some \<lparr>al_name = Some name, al_remark = None, al_master = m,
                         al_type = ty, al_ends = no_ends\<rparr>) h)) (\<lambda>h.
          bindM (scan (case number of Some n \<Rightarrow> num_point n | None \<Rightarrow> str_point name) h (e_head alist)) (\<lambda>point.
          Some (bindR (insert_link alist access point h) (\<lambda>(alist, h).
            Inr (access, set_master_list m ty alist (s\<lparr>lists := h\<rparr>))))))))"

definition access_list_lookup :: "afi \<Rightarrow> string option \<Rightarrow> acls \<Rightarrow> ptr res option" where
  "access_list_lookup afi name s =
     (case name of
        None \<Rightarrow> Some (Inr None)
      | Some nm \<Rightarrow>
         (case access_master_get afi of
            None \<Rightarrow> Some (Inr None)
          | Some m \<Rightarrow>
              bindM (scan (\<lambda>al. Inr (al_name al = Some nm)) (lists s) (e_head (num (access_master s m)))) (\<lambda>r.
              if r \<noteq> None then Some (Inr r)
              else scan (\<lambda>al. Inr (al_name al = Some nm)) (lists s) (e_head (str (access_master s m))))))"

definition access_list_get :: "afi \<Rightarrow> string \<Rightarrow> acls \<Rightarrow> (ptr \<times> acls) res option" where
  "access_list_get afi name s =
     bindM (access_list_lookup afi (Some name) s) (\<lambda>access.
     if access = None then access_list_insert afi name s else Some (Inr (access, s)))"

definition access_list_add_hook :: "acls \<Rightarrow> acls" where
  "access_list_add_hook s = s\<lparr>access_master := \<lambda>m. if m = AFI_IP \<or> m = AFI_IP6
     then (access_master s m)\<lparr>add_hook := True\<rparr> else access_master s m\<rparr>"

definition access_list_delete_hook :: "acls \<Rightarrow> acls" where
  "access_list_delete_hook s = s\<lparr>access_master := \<lambda>m. if m = AFI_IP \<or> m = AFI_IP6
     then (access_master s m)\<lparr>delete_hook := True\<rparr> else access_master s m\<rparr>"

section \<open>Filters\<close>

definition access_list_filter_add :: "nat \<Rightarrow> nat \<Rightarrow> acls \<Rightarrow> acls res" where
  "access_list_filter_add access flt s =
     bindR (entry_at (lists s) access) (\<lambda>al.
     bindR (append_link (al_ends al) (Some flt) (filters s)) (\<lambda>(l, fh).
     bindR (put_data (Some access) (Some (al\<lparr>al_ends := l\<rparr>)) (lists s)) (\<lambda>h.
     Inr (s\<lparr>lists := h, filters := fh,
            called := called s @ (if add_hook (access_master s (al_master al)) then [Add_hook (al_name al)] else [])\<rparr>))))"

definition access_list_empty :: "access_list \<Rightarrow> bool" where
  "access_list_empty al \<longleftrightarrow> e_head (al_ends al) = None \<and> e_tail (al_ends al) = None"

text \<open>The name is moved to a local variable, which is freed at the end.\<close>

definition access_list_filter_delete :: "nat \<Rightarrow> nat \<Rightarrow> acls \<Rightarrow> acls res option" where
  "access_list_filter_delete access flt s =
     bindM (Some (entry_at (lists s) access)) (\<lambda>al.
     let name = al_name al; master = al_master al in
     bindM (Some (unlink (al_ends al) (Some flt) (filters s))) (\<lambda>(l, fh).
     bindM (Some (listnode_free (Some flt) fh)) (\<lambda>fh.
     let al = al\<lparr>al_name := None, al_ends := l\<rparr> in
     bindM (Some (put_data (Some access) (Some al) (lists s))) (\<lambda>h.
     bindM (if access_list_empty al then access_list_delete access (s\<lparr>lists := h, filters := fh\<rparr>)
            else Some (Inr (s\<lparr>lists := h, filters := fh\<rparr>))) (\<lambda>s.
     Some (Inr (s\<lparr>called := called s @
       (if delete_hook (access_master s master) then [Delete_hook name] else [])\<rparr>)))))))"

definition filter_same_cisco :: "afilter \<Rightarrow> afilter \<Rightarrow> bool" where
  "filter_same_cisco mfilter mnew =
     (let filter = cfilter mfilter; new = cfilter mnew in
      if extended filter then
        f_type mfilter = f_type mnew \<and> c_addr filter = c_addr new \<and> c_addr_mask filter = c_addr_mask new \<and>
        c_mask filter = c_mask new \<and> c_mask_mask filter = c_mask_mask new
      else f_type mfilter = f_type mnew \<and> c_addr filter = c_addr new \<and> c_addr_mask filter = c_addr_mask new)"

definition filter_lookup_cisco :: "nat \<Rightarrow> afilter \<Rightarrow> acls \<Rightarrow> ptr res option" where
  "filter_lookup_cisco access mnew s =
     bindM (Some (entry_at (lists s) access)) (\<lambda>al.
     scan (\<lambda>f. Inr (filter_same_cisco f mnew)) (filters s) (e_head (al_ends al)))"

definition filter_lookup_zebra :: "nat \<Rightarrow> afilter \<Rightarrow> acls \<Rightarrow> ptr res option" where
  "filter_lookup_zebra access mnew s =
     bindM (Some (entry_at (lists s) access)) (\<lambda>al.
     scan (\<lambda>f. let filter = zfilter f; new = zfilter mnew in
            if exact filter = exact new \<and> f_type f = f_type mnew then prefix_same (z_prefix filter) (z_prefix new)
            else Inr False) (filters s) (e_head (al_ends al)))"

section \<open>Commands\<close>

text \<open>\<open>strncmp (type_str, "p", 1)\<close> looks at one character.\<close>

definition filter_type_of :: "string \<Rightarrow> filter_type option" where
  "filter_type_of s =
     (case s of
        [] \<Rightarrow> None
      | c # _ \<Rightarrow> if c = CHR ''p'' then Some FILTER_PERMIT else if c = CHR ''d'' then Some FILTER_DENY else None)"

text \<open>
  The end of \<open>filter_set_cisco\<close> and of \<open>filter_set_zebra\<close>, which differ in the search
  (\<open>lookup\<close>): the filter with the contents \<open>new\<close> is allocated as \<open>mfilter\<close>, and added to the
  list or freed.
\<close>

definition filter_set_end ::
  "(nat \<Rightarrow> afilter \<Rightarrow> acls \<Rightarrow> ptr res option) \<Rightarrow> bool \<Rightarrow> afilter \<Rightarrow> nat \<Rightarrow> nat \<Rightarrow> acls \<Rightarrow> (cmd_result \<times> acls) res option" where
  "filter_set_end lookup install new mfilter access s =
     bindM (lookup access new s) (\<lambda>found.
     if install then
       if found \<noteq> None
       then Some (bindR (listnode_free (Some mfilter) (filters s)) (\<lambda>fh. Inr (CMD_SUCCESS, s\<lparr>filters := fh\<rparr>)))
       else Some (bindR (access_list_filter_add access mfilter s) (\<lambda>s. Inr (CMD_SUCCESS, s)))
     else
       bindM (case found of None \<Rightarrow> Some (Inr s) | Some f \<Rightarrow> access_list_filter_delete access f s) (\<lambda>s.
       Some (bindR (listnode_free (Some mfilter) (filters s)) (\<lambda>fh. Inr (CMD_SUCCESS, s\<lparr>filters := fh\<rparr>)))))"

definition filter_install ::
  "(nat \<Rightarrow> afilter \<Rightarrow> acls \<Rightarrow> ptr res option) \<Rightarrow> afi \<Rightarrow> string \<Rightarrow> bool \<Rightarrow> afilter \<Rightarrow> acls \<Rightarrow> (cmd_result \<times> acls) res option" where
  "filter_install lookup afi name install new s =
     (let (mfilter, fh) = listnode_new (filters s) in
      bindM (Some (put_data mfilter (Some new) fh)) (\<lambda>fh.
      bindM (access_list_get afi name (s\<lparr>filters := fh\<rparr>)) (\<lambda>(access, s).
      bindM (Some (deref (lists s) access)) (\<lambda>access.
      filter_set_end lookup install new (the mfilter) access s))))"

definition cisco_filter :: "filter_type \<Rightarrow> bool \<Rightarrow> u8 list \<Rightarrow> u8 list \<Rightarrow> u8 list \<Rightarrow> u8 list \<Rightarrow> afilter" where
  "cisco_filter ty ext addr addr_mask m mm =
     \<lparr>f_type = ty, cisco = True, f_u = Cfilter \<lparr>extended = ext, c_addr = and_not addr addr_mask, c_addr_mask = addr_mask,
        c_mask = (if ext then and_not m mm else [0, 0, 0, 0]),
        c_mask_mask = (if ext then mm else [0, 0, 0, 0])\<rparr>\<rparr>"

text \<open>\<open>inet_aton\<close> is a parameter; \<open>mask_str\<close> and \<open>mask_mask_str\<close> are used by extended lists only.\<close>

definition filter_set_cisco ::
  "(string \<Rightarrow> u8 list option) \<Rightarrow> string \<Rightarrow> string \<Rightarrow> string \<Rightarrow> string \<Rightarrow> string \<Rightarrow> string \<Rightarrow> bool \<Rightarrow> bool \<Rightarrow> acls \<Rightarrow>
   (cmd_result \<times> acls) res option" where
  "filter_set_cisco inet_aton name_str type_str addr_str addr_mask_str mask_str mask_mask_str ext install s =
     (case filter_type_of type_str of
        None \<Rightarrow> Some (Inr (CMD_WARNING, s))
      | Some ty \<Rightarrow>
         (case (inet_aton addr_str, inet_aton addr_mask_str) of
            (Some addr, Some addr_mask) \<Rightarrow>
              if ext then
                (case (inet_aton mask_str, inet_aton mask_mask_str) of
                   (Some m, Some mm) \<Rightarrow>
                     filter_install filter_lookup_cisco AFI_IP name_str install (cisco_filter ty True addr addr_mask m mm) s
                 | _ \<Rightarrow> Some (Inr (CMD_WARNING, s)))
              else filter_install filter_lookup_cisco AFI_IP name_str install (cisco_filter ty False addr addr_mask [] []) s
          | _ \<Rightarrow> Some (Inr (CMD_WARNING, s))))"

text \<open>\<open>p0\<close> is the uninitialised prefix on the stack.\<close>

definition filter_set_zebra ::
  "(string \<Rightarrow> u8 list option) \<Rightarrow> (string \<Rightarrow> u8 list option) \<Rightarrow> prefix \<Rightarrow> string \<Rightarrow> string \<Rightarrow> afi \<Rightarrow> string \<Rightarrow> bool \<Rightarrow> bool \<Rightarrow>
   acls \<Rightarrow> (cmd_result \<times> acls) res option" where
  "filter_set_zebra inet_aton inet_pton p0 name_str type_str afi prefix_str ex install s =
     (case filter_type_of type_str of
        None \<Rightarrow> Some (Inr (CMD_WARNING, s))
      | Some ty \<Rightarrow>
          if afi = AFI_IP \<or> afi = AFI_IP6 then
            bindM (Some (if afi = AFI_IP then str2prefix_ipv4 inet_aton prefix_str p0
                         else str2prefix_ipv6 inet_pton prefix_str p0)) (\<lambda>(ret, p).
            if \<not> ret then Some (Inr (CMD_WARNING, s))
            else bindM (Some (prefix_copy prefix_new p)) (\<lambda>q.
              filter_install filter_lookup_zebra afi name_str install
                \<lparr>f_type = ty, cisco = False, f_u = Zfilter \<lparr>exact = ex, z_prefix = q\<rparr>\<rparr> s))
          else Some (Inr (CMD_WARNING, s)))"

text \<open>
  The commands \<open>access-list\<close> and \<open>no access-list\<close> for numbered lists.  An operand is an address
  with wildcard bits, a host, or \<open>any\<close>; a standard list has one (a lone address stands for a
  host), an extended list has two.
\<close>

datatype operand = Wild string string | Host string | Any

fun addr_of :: "operand \<Rightarrow> string" where
  "addr_of (Wild a m) = a"
| "addr_of (Host a) = a"
| "addr_of Any = ''0.0.0.0''"

fun wild_of :: "operand \<Rightarrow> string" where
  "wild_of (Wild a m) = m"
| "wild_of (Host a) = ''0.0.0.0''"
| "wild_of Any = ''255.255.255.255''"

definition access_list_standard ::
  "(string \<Rightarrow> u8 list option) \<Rightarrow> bool \<Rightarrow> string \<Rightarrow> string \<Rightarrow> operand \<Rightarrow> acls \<Rightarrow> (cmd_result \<times> acls) res option" where
  "access_list_standard inet_aton install name ty a s =
     filter_set_cisco inet_aton name ty (addr_of a) (wild_of a) '''' '''' False install s"

definition access_list_extended ::
  "(string \<Rightarrow> u8 list option) \<Rightarrow> bool \<Rightarrow> string \<Rightarrow> string \<Rightarrow> operand \<Rightarrow> operand \<Rightarrow> acls \<Rightarrow> (cmd_result \<times> acls) res option" where
  "access_list_extended inet_aton install name ty a b s =
     filter_set_cisco inet_aton name ty (addr_of a) (wild_of a) (addr_of b) (wild_of b) True install s"

text \<open>
  The commands for named lists with a prefix: \<open>access-list\<close> and \<open>ipv6 access-list\<close>, and their
  forms with \<open>no\<close>.
\<close>

datatype zebra_operand = Inside string | Exact_match string | Any_prefix

definition access_list_zebra ::
  "(string \<Rightarrow> u8 list option) \<Rightarrow> (string \<Rightarrow> u8 list option) \<Rightarrow> prefix \<Rightarrow> bool \<Rightarrow> string \<Rightarrow> string \<Rightarrow> zebra_operand \<Rightarrow> acls \<Rightarrow>
   (cmd_result \<times> acls) res option" where
  "access_list_zebra inet_aton inet_pton p0 install name ty a s =
     (case a of
        Inside p \<Rightarrow> filter_set_zebra inet_aton inet_pton p0 name ty AFI_IP p False install s
      | Exact_match p \<Rightarrow> filter_set_zebra inet_aton inet_pton p0 name ty AFI_IP p True install s
      | Any_prefix \<Rightarrow> filter_set_zebra inet_aton inet_pton p0 name ty AFI_IP ''0.0.0.0/0'' False install s)"

definition ipv6_access_list ::
  "(string \<Rightarrow> u8 list option) \<Rightarrow> (string \<Rightarrow> u8 list option) \<Rightarrow> prefix \<Rightarrow> bool \<Rightarrow> string \<Rightarrow> string \<Rightarrow> zebra_operand \<Rightarrow> acls \<Rightarrow>
   (cmd_result \<times> acls) res option" where
  "ipv6_access_list inet_aton inet_pton p0 install name ty a s =
     (case a of
        Inside p \<Rightarrow> filter_set_zebra inet_aton inet_pton p0 name ty AFI_IP6 p False install s
      | Exact_match p \<Rightarrow> filter_set_zebra inet_aton inet_pton p0 name ty AFI_IP6 p True install s
      | Any_prefix \<Rightarrow> filter_set_zebra inet_aton inet_pton p0 name ty AFI_IP6 ''::/0'' False install s)"

text \<open>\<open>no access-list NAME\<close> and \<open>no ipv6 access-list NAME\<close>.\<close>

definition no_access_list_all :: "afi \<Rightarrow> string \<Rightarrow> acls \<Rightarrow> (cmd_result \<times> acls) res option" where
  "no_access_list_all afi name s =
     bindM (access_list_lookup afi (Some name) s) (\<lambda>access.
     case access of
       None \<Rightarrow> Some (Inr (CMD_WARNING, s))
     | Some a \<Rightarrow>
         bindM (Some (entry_at (lists s) a)) (\<lambda>al.
         let master = al_master al; nm = al_name al in
         bindM (Some (put_data access (Some (al\<lparr>al_name := None\<rparr>)) (lists s))) (\<lambda>h.
         bindM (access_list_delete a (s\<lparr>lists := h\<rparr>)) (\<lambda>s.
         Some (Inr (CMD_SUCCESS, s\<lparr>called := called s @
           (if delete_hook (access_master s master) then [Delete_hook nm] else [])\<rparr>))))))"

text \<open>The remark has been joined from the words of the line.\<close>

definition access_list_remark :: "afi \<Rightarrow> string \<Rightarrow> string \<Rightarrow> acls \<Rightarrow> (cmd_result \<times> acls) res option" where
  "access_list_remark afi name line s =
     bindM (access_list_get afi name s) (\<lambda>(access, s).
     bindM (Some (deref (lists s) access)) (\<lambda>a.
     bindM (Some (entry_at (lists s) a)) (\<lambda>al.
     bindM (Some (put_data access (Some (al\<lparr>al_remark := Some line\<rparr>)) (lists s))) (\<lambda>h.
     Some (Inr (CMD_SUCCESS, s\<lparr>lists := h\<rparr>))))))"

definition vty_access_list_remark_unset :: "afi \<Rightarrow> string \<Rightarrow> acls \<Rightarrow> (cmd_result \<times> acls) res option" where
  "vty_access_list_remark_unset afi name s =
     bindM (access_list_lookup afi (Some name) s) (\<lambda>access.
     case access of
       None \<Rightarrow> Some (Inr (CMD_WARNING, s))
     | Some a \<Rightarrow>
         bindM (Some (entry_at (lists s) a)) (\<lambda>al.
         let al = al\<lparr>al_remark := None\<rparr> in
         bindM (Some (put_data access (Some al) (lists s))) (\<lambda>h.
         if access_list_empty al
         then bindM (access_list_delete a (s\<lparr>lists := h\<rparr>)) (\<lambda>s. Some (Inr (CMD_SUCCESS, s)))
         else Some (Inr (CMD_SUCCESS, s\<lparr>lists := h\<rparr>)))))"

text \<open>\<open>access_list_reset_ipv4\<close> and \<open>access_list_reset_ipv6\<close>: \<open>next\<close> is read before the list is freed.\<close>

partial_function (option) acl_reset_loop :: "ptr \<Rightarrow> acls \<Rightarrow> acls res option" where
  "acl_reset_loop access s =
     (case access of
        None \<Rightarrow> Some (Inr s)
      | Some a \<Rightarrow>
         (case get_next access (lists s) of
            Inl e \<Rightarrow> Some (Inl e)
          | Inr nxt \<Rightarrow>
             (case access_list_delete a s of
                None \<Rightarrow> None
              | Some (Inl e) \<Rightarrow> Some (Inl e)
              | Some (Inr s') \<Rightarrow> acl_reset_loop nxt s')))"

definition access_list_reset_afi :: "afi \<Rightarrow> acls \<Rightarrow> acls res option" where
  "access_list_reset_afi m s =
     bindM (acl_reset_loop (e_head (num (access_master s m))) s) (\<lambda>s.
     bindM (acl_reset_loop (e_head (str (access_master s m))) s) (\<lambda>s.
     if num (access_master s m) = no_ends \<and> str (access_master s m) = no_ends then Some (Inr s)
     else Some (Inl Assert_failed)))"

definition access_list_reset :: "acls \<Rightarrow> acls res option" where
  "access_list_reset s = bindM (access_list_reset_afi AFI_IP s) (access_list_reset_afi AFI_IP6)"


text \<open>
  The commands that change access lists.  The flag of the first four is false in the forms that
  begin with \<open>no\<close>.
\<close>

datatype acl_cmd =
    Standard bool string string operand
  | Extended bool string string operand operand
  | Zebra_list bool string string zebra_operand
  | Ipv6_list bool string string zebra_operand
  | No_list afi string
  | Remark afi string string
  | No_remark afi string

fun acl_exec ::
  "(string \<Rightarrow> u8 list option) \<Rightarrow> (string \<Rightarrow> u8 list option) \<Rightarrow> prefix \<Rightarrow> acl_cmd \<Rightarrow> acls \<Rightarrow> (cmd_result \<times> acls) res option" where
  "acl_exec inet_aton inet_pton p0 (Standard install name ty a) s = access_list_standard inet_aton install name ty a s"
| "acl_exec inet_aton inet_pton p0 (Extended install name ty a b) s = access_list_extended inet_aton install name ty a b s"
| "acl_exec inet_aton inet_pton p0 (Zebra_list install name ty a) s = access_list_zebra inet_aton inet_pton p0 install name ty a s"
| "acl_exec inet_aton inet_pton p0 (Ipv6_list install name ty a) s = ipv6_access_list inet_aton inet_pton p0 install name ty a s"
| "acl_exec inet_aton inet_pton p0 (No_list afi name) s = no_access_list_all afi name s"
| "acl_exec inet_aton inet_pton p0 (Remark afi name line) s = access_list_remark afi name line s"
| "acl_exec inet_aton inet_pton p0 (No_remark afi name) s = vty_access_list_remark_unset afi name s"

fun cmd_afi :: "acl_cmd \<Rightarrow> afi" where
  "cmd_afi (Standard install name ty a) = AFI_IP"
| "cmd_afi (Extended install name ty a b) = AFI_IP"
| "cmd_afi (Zebra_list install name ty a) = AFI_IP"
| "cmd_afi (Ipv6_list install name ty a) = AFI_IP6"
| "cmd_afi (No_list afi name) = afi"
| "cmd_afi (Remark afi name line) = afi"
| "cmd_afi (No_remark afi name) = afi"

fun cmd_name :: "acl_cmd \<Rightarrow> string" where
  "cmd_name (Standard install name ty a) = name"
| "cmd_name (Extended install name ty a b) = name"
| "cmd_name (Zebra_list install name ty a) = name"
| "cmd_name (Ipv6_list install name ty a) = name"
| "cmd_name (No_list afi name) = name"
| "cmd_name (Remark afi name line) = name"
| "cmd_name (No_remark afi name) = name"

text \<open>The static masters before the first command.\<close>

definition acl_init :: acls where
  "acl_init = \<lparr>access_master = \<lambda>_. \<lparr>num = no_ends, str = no_ends, add_hook = False, delete_hook = False\<rparr>,
     lists = empty_heap, filters = empty_heap, called = []\<rparr>"

text \<open>
  The states of the masters: any commands for the two address families, hooks and resets, in
  any order.  \<open>inet_aton\<close> stores four bytes and \<open>inet_pton\<close> sixteen.
\<close>

definition addr_parsers :: "(string \<Rightarrow> u8 list option) \<Rightarrow> (string \<Rightarrow> u8 list option) \<Rightarrow> bool" where
  "addr_parsers inet_aton inet_pton \<longleftrightarrow>
     (\<forall>s bs. inet_aton s = Some bs \<longrightarrow> length bs = 4) \<and> (\<forall>s bs. inet_pton s = Some bs \<longrightarrow> length bs = 16)"

definition cmd_ok :: "acl_cmd \<Rightarrow> bool" where
  "cmd_ok c \<longleftrightarrow> cmd_afi c = AFI_IP \<or> cmd_afi c = AFI_IP6"

inductive acl_reach :: "(string \<Rightarrow> u8 list option) \<Rightarrow> (string \<Rightarrow> u8 list option) \<Rightarrow> acls \<Rightarrow> bool" for inet_aton inet_pton where
  acl_start: "acl_reach inet_aton inet_pton acl_init"
| acl_command: "acl_reach inet_aton inet_pton s \<Longrightarrow> cmd_ok c \<Longrightarrow> length (u p0) = 16 \<Longrightarrow>
    acl_exec inet_aton inet_pton p0 c s = Some (Inr (r, s')) \<Longrightarrow> acl_reach inet_aton inet_pton s'"
| acl_add_hook: "acl_reach inet_aton inet_pton s \<Longrightarrow> acl_reach inet_aton inet_pton (access_list_add_hook s)"
| acl_delete_hook: "acl_reach inet_aton inet_pton s \<Longrightarrow> acl_reach inet_aton inet_pton (access_list_delete_hook s)"
| acl_reset: "acl_reach inet_aton inet_pton s \<Longrightarrow> access_list_reset s = Some (Inr s') \<Longrightarrow> acl_reach inet_aton inet_pton s'"

section \<open>Linked lists\<close>

definition linked :: "ends \<Rightarrow> 'a lheap \<Rightarrow> nat list \<Rightarrow> bool" where
  "linked l h xs \<longleftrightarrow> dlist (nx h) (pv h) (e_head l) (e_tail l) xs \<and> (\<forall>x\<in>set xs. live h x)"

text \<open>\<open>relinked S h h'\<close>: only links of nodes in \<open>S\<close> have changed.\<close>

definition relinked :: "nat set \<Rightarrow> 'a lheap \<Rightarrow> 'a lheap \<Rightarrow> bool" where
  "relinked S h h' \<longleftrightarrow> dat h' = dat h \<and> live h' = live h \<and> brk h' = brk h \<and>
     (\<forall>j. j \<notin> S \<longrightarrow> nx h' j = nx h j \<and> pv h' j = pv h j)"

lemma linked_head: "linked l h xs \<Longrightarrow> e_head l = first xs None"
  by (simp add: linked_def dlist_def)

lemma linked_seg: "linked l h xs \<Longrightarrow> dseg (nx h) (pv h) None xs None"
  by (simp add: linked_def dlist_def)

lemma linked_distinct: "linked l h xs \<Longrightarrow> distinct xs"
  by (simp add: linked_def dlist_def)

lemma linked_live: "linked l h xs \<Longrightarrow> \<forall>x\<in>set xs. live h x"
  by (simp add: linked_def)

lemma linked_relinked:
  assumes "linked l h xs" "relinked S h h'" "set xs \<inter> S = {}"
  shows "linked l h' xs"
proof -
  have "dlist (nx h) (pv h) (e_head l) (e_tail l) xs \<longleftrightarrow> dlist (nx h') (pv h') (e_head l) (e_tail l) xs"
    by (rule dlist_cong) (use assms(2,3) in \<open>auto simp: relinked_def\<close>)
  with assms show ?thesis by (simp add: linked_def relinked_def)
qed

lemma linked_nil: "linked no_ends h []"
  by (simp add: linked_def no_ends_def)

lemma linked_nil_iff: "linked l h [] \<longleftrightarrow> l = no_ends"
  by (auto simp: linked_def no_ends_def)

lemma scan_linked:
  assumes "linked l h xs" "map (dat h) xs = map Some es" "\<forall>e\<in>set es. P e = Inr (Q e)"
  shows "scan P h (e_head l) = Some (Inr (List.find (\<lambda>x. Q (the (dat h x))) xs))"
  using scan_seg[OF linked_seg[OF assms(1)] linked_live[OF assms(1)] assms(2,3)] linked_head[OF assms(1)] by simp

lemma unlink_linked:
  assumes "linked l h (xs @ a # ys)"
  obtains l' h' where "unlink l (Some a) h = Inr (l', h')" "linked l' h' (xs @ ys)"
    "relinked (set (xs @ ys)) h h'"
proof -
  have d: "dlist (nx h) (pv h) (e_head l) (e_tail l) (xs @ a # ys)" and live: "\<forall>x\<in>set (xs @ a # ys). live h x"
    using assms by (auto simp: linked_def)
  note del = dlist_delete[OF d]
  have nb: "live h y \<and> y \<noteq> a \<and> y \<in> set (xs @ ys)" if "pv h a = Some y \<or> nx h a = Some y" for y
    using that del(2,3) live dlist_distinct[OF d]
    by (cases "xs = []"; cases ys) (auto simp: final_eq_last first_eq_hd)
  let ?l = "\<lparr>e_head = set_head (pv h a) (nx h a) (e_head l), e_tail = set_head (nx h a) (pv h a) (e_tail l)\<rparr>"
  let ?h = "h\<lparr>nx := set_nxt (pv h a) (nx h a) (nx h), pv := set_nxt (nx h a) (pv h a) (pv h)\<rparr>"
  have "unlink l (Some a) h = Inr (?l, ?h)"
    using nb live
    by (cases "pv h a"; cases "nx h a") (auto simp: unlink_def node_defs deref_def set_head_def set_nxt_def)
  moreover have "linked ?l ?h (xs @ ys)" using del(1) live by (simp add: linked_def)
  moreover have "relinked (set (xs @ ys)) h ?h"
    using nb by (cases "pv h a"; cases "nx h a") (auto simp: relinked_def set_nxt_def)
  ultimately show thesis by (rule that)
qed

lemma insert_link_linked:
  assumes "linked l h (xs @ ys)" and a: "live h a" "a \<notin> set (xs @ ys)" "nx h a = None" "pv h a = None"
  obtains l' h' where "insert_link l (Some a) (first ys None) h = Inr (l', h')" "linked l' h' (xs @ a # ys)"
    "relinked (set (xs @ a # ys)) h h'"
proof -
  have d: "dlist (nx h) (pv h) (e_head l) (e_tail l) (xs @ ys)" and live: "\<forall>x\<in>set (xs @ ys). live h x"
    using assms by (auto simp: linked_def)
  have ends: "e_head l = first (xs @ ys) None" "e_tail l = final None (xs @ ys)"
    using d by (auto simp: dlist_def)
  let ?l = "\<lparr>e_head = set_head (final None xs) (Some a) (e_head l), e_tail = set_head (first ys None) (Some a) (e_tail l)\<rparr>"
  let ?h = "h\<lparr>nx := set_nxt (final None xs) (Some a) ((nx h)(a := first ys None)),
      pv := set_nxt (first ys None) (Some a) ((pv h)(a := final None xs))\<rparr>"
  have x: "live h x \<and> x \<noteq> a \<and> x \<in> set xs" if "final None xs = Some x" for x
    using that live a(2) last_in_set[of xs] by (cases "xs = []") (auto simp: final_eq_last)
  have "insert_link l (Some a) (first ys None) h = Inr (?l, ?h)"
  proof (cases ys)
    case Nil
    show ?thesis
    proof (cases "xs = []")
      case True
      with Nil ends a show ?thesis by (simp add: insert_link_def set_head_def set_nxt_def fun_upd_idem)
    next
      case False
      with Nil ends a x[of "last xs"] show ?thesis
        by (simp add: insert_link_def set_head_def set_nxt_def node_defs deref_def final_eq_last first_eq_hd
            fun_upd_idem fun_upd_twist)
    qed
  next
    case (Cons y zs)
    have y: "live h y" "y \<noteq> a" "pv h y = final None xs" using Cons live a(2) dlist_prv[of "nx h" "pv h" _ _ xs y zs] d by auto
    show ?thesis
    proof (cases "xs = []")
      case True
      with Cons ends a y show ?thesis
        by (simp add: insert_link_def set_head_def set_nxt_def node_defs deref_def fun_upd_idem fun_upd_twist)
    next
      case False
      have "hd xs \<noteq> y" "last xs \<noteq> y" using dlist_distinct[OF d] Cons False by (metis hd_in_set last_in_set disjoint_iff distinct_append list.set_intros(1))+
      with Cons ends a y x[of "last xs"] False show ?thesis
        by (simp add: insert_link_def set_head_def set_nxt_def node_defs deref_def final_eq_last first_eq_hd fun_upd_twist)
    qed
  qed
  moreover have "linked ?l ?h (xs @ a # ys)" using dlist_insert[OF d a(2)] live a(1) by (auto simp: linked_def)
  moreover have "relinked (set (xs @ a # ys)) h ?h"
    using x by (cases "final None xs"; cases ys) (auto simp: relinked_def set_nxt_def)
  ultimately show thesis by (rule that)
qed

lemma append_link_linked:
  assumes "linked l h xs" and a: "live h a" "a \<notin> set xs"
  obtains l' h' where "append_link l (Some a) h = Inr (l', h')" "linked l' h' (xs @ [a])"
    "relinked (set (xs @ [a])) h h'"
proof -
  have d: "dlist (nx h) (pv h) (e_head l) (e_tail l) (xs @ [])" and live: "\<forall>x\<in>set xs. live h x"
    using assms by (auto simp: linked_def)
  have tail: "e_tail l = final None xs" using d by (simp add: dlist_def)
  let ?l = "\<lparr>e_head = set_head (final None xs) (Some a) (e_head l), e_tail = Some a\<rparr>"
  let ?h = "h\<lparr>nx := set_nxt (final None xs) (Some a) ((nx h)(a := None)), pv := (pv h)(a := final None xs)\<rparr>"
  have x: "live h x \<and> x \<noteq> a \<and> x \<in> set xs" if "final None xs = Some x" for x
    using that live a(2) last_in_set[of xs] by (cases "xs = []") (auto simp: final_eq_last)
  have "append_link l (Some a) h = Inr (?l, ?h)"
    using tail a x by (cases "final None xs") (auto simp: append_link_def node_defs deref_def set_head_def set_nxt_def)
  moreover have "linked ?l ?h (xs @ [a])"
    using dlist_insert[OF d, of a] live a by (auto simp: linked_def set_head_def set_nxt_def)
  moreover have "relinked (set (xs @ [a])) h ?h"
    using x by (cases "final None xs") (auto simp: relinked_def set_nxt_def)
  ultimately show thesis by (rule that)
qed

section \<open>The filters\<close>

text \<open>A filter as the commands make it.\<close>

definition filter_ok :: "afilter \<Rightarrow> bool" where
  "filter_ok f \<longleftrightarrow>
     (case f_u f of
        Cfilter c \<Rightarrow> cisco f \<and> length (c_addr c) = 4 \<and> length (c_addr_mask c) = 4 \<and> length (c_mask c) = 4 \<and>
          length (c_mask_mask c) = 4 \<and> and_not (c_addr c) (c_addr_mask c) = c_addr c \<and>
          and_not (c_mask c) (c_mask_mask c) = c_mask c
      | Zfilter z \<Rightarrow> \<not> cisco f \<and> length (u (z_prefix z)) = 16 \<and> family (z_prefix z) \<in> {AF_INET, AF_INET6} \<and>
          plen (z_prefix z) \<le> 8 * prefix_blen (z_prefix z))"

text \<open>
  \<open>filters_ok X h E A F\<close>: for every access list \<open>a\<close> in \<open>A\<close>, \<open>E a\<close> are the ends of a list of the
  filters \<open>F a\<close>; these lists share no filter, and the allocated filters are those of the lists
  and the ones in \<open>X\<close>, which are in no list.
\<close>

definition filters_ok :: "nat set \<Rightarrow> afilter lheap \<Rightarrow> (nat \<Rightarrow> ends) \<Rightarrow> nat set \<Rightarrow> (nat \<Rightarrow> nat list) \<Rightarrow> bool" where
  "filters_ok X h E A F \<longleftrightarrow>
     (\<forall>a\<in>A. linked (E a) h (F a) \<and> set (F a) \<inter> X = {}) \<and>
     (\<forall>a\<in>A. \<forall>b\<in>A. a \<noteq> b \<longrightarrow> set (F a) \<inter> set (F b) = {}) \<and>
     (\<forall>f. live h f \<longleftrightarrow> f \<in> X \<or> (\<exists>a\<in>A. f \<in> set (F a))) \<and>
     (\<forall>f. live h f \<longrightarrow> f < brk h \<and> (\<exists>x. dat h f = Some x \<and> filter_ok x))"

lemma filters_okD:
  assumes "filters_ok X h E A F"
  shows "a \<in> A \<Longrightarrow> linked (E a) h (F a)" "a \<in> A \<Longrightarrow> set (F a) \<inter> X = {}"
    "a \<in> A \<Longrightarrow> b \<in> A \<Longrightarrow> a \<noteq> b \<Longrightarrow> set (F a) \<inter> set (F b) = {}"
    "live h f \<longleftrightarrow> f \<in> X \<or> (\<exists>a\<in>A. f \<in> set (F a))" "live h f \<Longrightarrow> f < brk h"
    "live h f \<Longrightarrow> \<exists>x. dat h f = Some x \<and> filter_ok x"
  using assms by (auto simp: filters_ok_def)

lemma filters_ok_cong: "\<forall>a\<in>A. E' a = E a \<and> F' a = F a \<Longrightarrow> filters_ok X h E' A F' \<longleftrightarrow> filters_ok X h E A F"
  by (auto simp: filters_ok_def)

definition alloc :: "'a \<Rightarrow> 'a lheap \<Rightarrow> 'a lheap" where
  "alloc x h = h\<lparr>nx := (nx h)(brk h := None), pv := (pv h)(brk h := None), dat := (dat h)(brk h := Some x),
     live := (live h)(brk h := True), brk := brk h + 1\<rparr>"

lemma alloc_steps:
  "listnode_new h = (Some (brk h), snd (listnode_new h))" "fst (listnode_new h) = Some (brk h)"
  "put_data (Some (brk h)) (Some x) (snd (listnode_new h)) = Inr (alloc x h)"
  by (simp_all add: listnode_new_def put_data_def deref_def alloc_def)

lemma linked_alloc:
  assumes "linked l h xs" "\<forall>x\<in>set xs. x < brk h"
  shows "linked l (alloc v h) xs"
proof -
  have "brk h \<notin> set xs" using assms(2) by auto
  with assms show ?thesis by (auto simp: linked_def alloc_def)
qed

lemma filters_ok_alloc:
  assumes ok: "filters_ok X h E A F" and x: "filter_ok x"
  shows "filters_ok (insert (brk h) X) (alloc x h) E A F"
proof -
  note d = filters_okD[OF ok]
  have new: "\<forall>f\<in>set (F a). f < brk h" if "a \<in> A" for a using d(4,5) that by blast
  have "linked (E a) (alloc x h) (F a) \<and> set (F a) \<inter> insert (brk h) X = {}" if "a \<in> A" for a
    using linked_alloc[OF d(1)[OF that] new[OF that]] d(2)[OF that] new[OF that] by auto
  moreover have "live (alloc x h) f \<longleftrightarrow> f \<in> insert (brk h) X \<or> (\<exists>a\<in>A. f \<in> set (F a))" for f
    using d(4)[of f] by (auto simp: alloc_def)
  moreover have "f < brk (alloc x h) \<and> (\<exists>y. dat (alloc x h) f = Some y \<and> filter_ok y)" if "live (alloc x h) f" for f
    using that d(5,6)[of f] x by (auto simp: alloc_def less_SucI split: if_splits)
  ultimately show ?thesis using d(3) unfolding filters_ok_def by blast
qed

lemma linked_free: "f \<notin> set xs \<Longrightarrow> linked l (h\<lparr>live := (live h)(f := False)\<rparr>) xs \<longleftrightarrow> linked l h xs"
  by (auto simp: linked_def)

lemma filters_ok_free:
  assumes ok: "filters_ok X h E A F" and f: "f \<in> X"
  shows "listnode_free (Some f) h = Inr (h\<lparr>live := (live h)(f := False)\<rparr>)"
    "filters_ok (X - {f}) (h\<lparr>live := (live h)(f := False)\<rparr>) E A F"
proof -
  note d = filters_okD[OF ok]
  show "listnode_free (Some f) h = Inr (h\<lparr>live := (live h)(f := False)\<rparr>)"
    using d(4)[of f] f by (simp add: listnode_free_def deref_def)
  have no: "f \<notin> set (F a)" if "a \<in> A" for a using d(2)[OF that] f by auto
  let ?h = "h\<lparr>live := (live h)(f := False)\<rparr>"
  have "linked (E a) ?h (F a) \<and> set (F a) \<inter> (X - {f}) = {}" if "a \<in> A" for a
    using d(1,2)[OF that] linked_free[OF no[OF that]] by blast
  moreover have "live ?h g \<longleftrightarrow> g \<in> X - {f} \<or> (\<exists>a\<in>A. g \<in> set (F a))" for g using d(4)[of g] no by auto
  moreover have "g < brk ?h \<and> (\<exists>x. dat ?h g = Some x \<and> filter_ok x)" if "live ?h g" for g
    using d(5,6)[of g] that by (auto split: if_splits)
  ultimately show "filters_ok (X - {f}) ?h E A F" using d(3) unfolding filters_ok_def by blast
qed

text \<open>Two lists of the family change no other list.\<close>

lemma filters_ok_relink:
  assumes ok: "filters_ok X h E A F" and a: "a \<in> A" "linked l' h' ys" "relinked (set (F a) \<union> X) h h'"
    and sets: "set ys \<union> X' = set (F a) \<union> X" "set ys \<inter> X' = {}" "X' \<subseteq> X \<union> set (F a)" "set ys \<subseteq> X \<union> set (F a)"
  shows "filters_ok X' h' (E(a := l')) A (F(a := ys))"
proof -
  note d = filters_okD[OF ok]
  have h': "dat h' = dat h" "live h' = live h" "brk h' = brk h" using a(3) by (auto simp: relinked_def)
  have other: "set (F b) \<inter> (set (F a) \<union> X) = {}" if "b \<in> A" "b \<noteq> a" for b
    using d(2)[OF that(1)] d(3)[OF that(1) a(1) that(2)] by auto
  have "linked ((E(a := l')) b) h' ((F(a := ys)) b) \<and> set ((F(a := ys)) b) \<inter> X' = {}" if "b \<in> A" for b
  proof (cases "b = a")
    case False
    with linked_relinked[OF d(1)[OF that] a(3) other[OF that False]] other[OF that False] sets(3) show ?thesis by auto
  qed (use a(2) sets(2) in simp)
  moreover have "set ((F(a := ys)) b) \<inter> set ((F(a := ys)) c) = {}" if "b \<in> A" "c \<in> A" "b \<noteq> c" for b c
    using other[of b] other[of c] d(3)[OF that] that sets(4) by auto
  moreover have "live h' f \<longleftrightarrow> f \<in> X' \<or> (\<exists>b\<in>A. f \<in> set ((F(a := ys)) b))" for f
  proof -
    have "live h' f \<longleftrightarrow> f \<in> set (F a) \<union> X \<or> (\<exists>b\<in>A - {a}. f \<in> set (F b))" using d(4)[of f] a(1) h'(2) by auto
    also have "\<dots> \<longleftrightarrow> f \<in> X' \<or> (\<exists>b\<in>A. f \<in> set ((F(a := ys)) b))" unfolding sets(1)[symmetric] using a(1) by auto
    finally show ?thesis .
  qed
  ultimately show ?thesis using d(5,6) h' unfolding filters_ok_def by simp
qed

lemma filters_ok_append:
  assumes ok: "filters_ok X h E A F" and a: "a \<in> A" "f \<in> X"
  obtains l' h' where "append_link (E a) (Some f) h = Inr (l', h')" "dat h' = dat h" "brk h' = brk h"
    "filters_ok (X - {f}) h' (E(a := l')) A (F(a := F a @ [f]))"
proof -
  note d = filters_okD[OF ok]
  have f: "live h f" "f \<notin> set (F a)" using d(4)[of f] d(2)[OF a(1)] a(2) by auto
  obtain l' h' where l: "append_link (E a) (Some f) h = Inr (l', h')" "linked l' h' (F a @ [f])"
    "relinked (set (F a @ [f])) h h'"
    by (rule append_link_linked[OF d(1)[OF a(1)] f])
  moreover have "relinked (set (F a) \<union> X) h h'" using l(3) a(2) by (auto simp: relinked_def)
  then have "filters_ok (X - {f}) h' (E(a := l')) A (F(a := F a @ [f]))"
    by (rule filters_ok_relink[OF ok a(1) l(2)]) (use a(2) f d(2)[OF a(1)] in auto)
  ultimately show thesis using that by (auto simp: relinked_def)
qed

lemma filters_ok_unlink:
  assumes ok: "filters_ok X h E A F" and a: "a \<in> A" "F a = xs @ f # ys"
  obtains l' h' where "unlink (E a) (Some f) h = Inr (l', h')" "listnode_free (Some f) h' = Inr (h'\<lparr>live := (live h')(f := False)\<rparr>)"
    "dat h' = dat h" "brk h' = brk h" "filters_ok X (h'\<lparr>live := (live h')(f := False)\<rparr>) (E(a := l')) A (F(a := xs @ ys))"
    "linked l' h' (xs @ ys)"
proof -
  note d = filters_okD[OF ok]
  have l: "linked (E a) h (xs @ f # ys)" using d(1)[OF a(1)] a(2) by simp
  obtain l' h' where u: "unlink (E a) (Some f) h = Inr (l', h')" "linked l' h' (xs @ ys)" "relinked (set (xs @ ys)) h h'"
    by (rule unlink_linked[OF l])
  have fX: "f \<notin> X" "f \<notin> set (xs @ ys)" using d(2)[OF a(1)] linked_distinct[OF l] a(2) by auto
  have "relinked (set (F a) \<union> X) h h'" using u(3) a(2) by (auto simp: relinked_def)
  then have "filters_ok (insert f X) h' (E(a := l')) A (F(a := xs @ ys))"
    by (rule filters_ok_relink[OF ok a(1) u(2)]) (use a fX d(2)[OF a(1)] in auto)
  note free = filters_ok_free[OF this insertI1]
  have "insert f X - {f} = X" using fX by auto
  with free u that show thesis by (auto simp: relinked_def)
qed

lemma filters_ok_drop:
  assumes ok: "filters_ok X h E A F" and a: "a \<in> A"
  obtains h' d where "delete_all_loop h (e_head (E a)) [] = Some (Inr (h', d))" "dat h' = dat h" "brk h' = brk h"
    "filters_ok X h' E (A - {a}) F"
proof -
  note d = filters_okD[OF ok]
  note l = d(1)[OF a]
  let ?h = "h\<lparr>live := \<lambda>f. live h f \<and> f \<notin> set (F a)\<rparr>"
  have other: "set (F b) \<inter> set (F a) = {}" if "b \<in> A - {a}" for b using d(3)[of b a] that a by auto
  have "linked (E b) ?h (F b)" if "b \<in> A - {a}" for b
    using d(1)[of b] other[OF that] that by (auto simp: linked_def)
  moreover have "live ?h f \<longleftrightarrow> f \<in> X \<or> (\<exists>b\<in>A - {a}. f \<in> set (F b))" for f
    using d(4)[of f] d(2)[OF a] other by auto
  moreover have "f < brk ?h \<and> (\<exists>x. dat ?h f = Some x \<and> filter_ok x)" if "live ?h f" for f
    using d(5,6)[of f] that by simp
  ultimately have "filters_ok X ?h E (A - {a}) F"
    using d(2,3) unfolding filters_ok_def by blast
  then show thesis
    using that[of ?h] delete_all_seg[OF linked_seg[OF l] linked_live[OF l] linked_distinct[OF l], of "[]"]
    by (simp add: linked_head[OF l])
qed

lemma filters_ok_new:
  assumes "filters_ok X h E A F" "a \<notin> A"
  shows "filters_ok X h (E(a := no_ends)) (insert a A) (F(a := []))"
  using assms unfolding filters_ok_def by (auto simp: linked_nil)

section \<open>The lists of access lists\<close>

type_synonym lkey = "afi \<times> access_type"

definition nodes_of :: "(lkey \<Rightarrow> nat list) \<Rightarrow> nat set" where
  "nodes_of L = (\<Union>k. set (L k))"

text \<open>\<open>L (m, ty)\<close> are the access lists of the type \<open>ty\<close> of the master \<open>m\<close>.\<close>

definition lists_ok :: "acls \<Rightarrow> (lkey \<Rightarrow> nat list) \<Rightarrow> bool" where
  "lists_ok s L \<longleftrightarrow>
     (\<forall>m ty. linked (master_list s m ty) (lists s) (L (m, ty))) \<and>
     (\<forall>k k'. k \<noteq> k' \<longrightarrow> set (L k) \<inter> set (L k') = {}) \<and>
     (\<forall>a. live (lists s) a \<longleftrightarrow> a \<in> nodes_of L) \<and> (\<forall>a\<in>nodes_of L. a < brk (lists s)) \<and>
     (\<forall>m ty. \<forall>a\<in>set (L (m, ty)). \<exists>al. dat (lists s) a = Some al \<and> al_master al = m \<and> al_type al = ty)"

lemma lists_okD:
  assumes "lists_ok s L"
  shows "linked (master_list s m ty) (lists s) (L (m, ty))" "k \<noteq> k' \<Longrightarrow> set (L k) \<inter> set (L k') = {}"
    "live (lists s) a \<longleftrightarrow> a \<in> nodes_of L" "a \<in> nodes_of L \<Longrightarrow> a < brk (lists s)"
    "a \<in> set (L (m, ty)) \<Longrightarrow> \<exists>al. dat (lists s) a = Some al \<and> al_master al = m \<and> al_type al = ty"
  using assms unfolding lists_ok_def by blast+

lemma nodes_of_memI: "a \<in> set (L k) \<Longrightarrow> a \<in> nodes_of L"
  unfolding nodes_of_def by blast

lemma lists_ok_entry:
  assumes "lists_ok s L" "a \<in> nodes_of L"
  obtains m ty al where "a \<in> set (L (m, ty))" "dat (lists s) a = Some al" "al_master al = m" "al_type al = ty"
    "entry_at (lists s) a = Inr al" "live (lists s) a"
proof -
  obtain m ty where k: "a \<in> set (L (m, ty))" using assms(2) by (auto simp: nodes_of_def)
  with lists_okD(5)[OF assms(1) k] lists_okD(3)[OF assms(1), of a] assms(2) that show thesis
    by (auto simp: entry_at_ok)
qed

lemma master_list_set:
  "master_list (set_master_list m ty l s) m' ty' = (if (m', ty') = (m, ty) then l else master_list s m' ty')"
  by (cases ty; cases ty') (auto simp: master_list_def set_master_list_def)

lemma set_master_list_sel [simp]:
  "lists (set_master_list m ty l s) = lists s" "filters (set_master_list m ty l s) = filters s" "called (set_master_list m ty l s) = called s"
  "add_hook (access_master (set_master_list m ty l s) m') = add_hook (access_master s m')"
  "delete_hook (access_master (set_master_list m ty l s) m') = delete_hook (access_master s m')"
  by (auto simp: set_master_list_def)

lemma master_list_upd [simp]:
  "master_list (s\<lparr>lists := h\<rparr>) m ty = master_list s m ty" "master_list (s\<lparr>filters := fh\<rparr>) m ty = master_list s m ty"
  "master_list (s\<lparr>called := c\<rparr>) m ty = master_list s m ty"
  by (auto simp: master_list_def)

lemma lists_ok_filters [simp]: "lists_ok (s\<lparr>filters := fh\<rparr>) L \<longleftrightarrow> lists_ok s L"
  by (simp add: lists_ok_def)

text \<open>One list gets new links; the others keep theirs.\<close>

lemma lists_ok_relink:
  assumes ok: "lists_ok s L" and l: "linked l' h' ys" "relinked S (lists s) h0" "S \<inter> (nodes_of L - set (L (m, ty))) = {}"
    and h': "nx h' = nx h0" "pv h' = pv h0" "\<And>a. live h' a \<longleftrightarrow> a \<in> nodes_of (L((m, ty) := ys))"
      "brk h' \<ge> brk (lists s)" "\<And>a. a \<in> nodes_of L - set (L (m, ty)) \<Longrightarrow> dat h' a = dat (lists s) a"
      "\<And>a. a \<in> set ys \<Longrightarrow> a < brk h' \<and> a \<notin> nodes_of L - set (L (m, ty)) \<and>
         (\<exists>al. dat h' a = Some al \<and> al_master al = m \<and> al_type al = ty)"
  shows "lists_ok (set_master_list m ty l' (s\<lparr>lists := h'\<rparr>)) (L((m, ty) := ys))"
proof -
  note d = lists_okD[OF ok]
  let ?s = "set_master_list m ty l' (s\<lparr>lists := h'\<rparr>)" and ?L = "L((m, ty) := ys)"
  have other: "set (L k) \<subseteq> nodes_of L - set (L (m, ty))" if "k \<noteq> (m, ty)" for k
    using d(2)[OF that] nodes_of_memI[of _ L k] by blast
  have link: "linked (master_list ?s m' ty') (lists ?s) (?L (m', ty'))" for m' ty'
  proof (cases "(m', ty') = (m, ty)")
    case False
    have "linked (master_list s m' ty') h0 (L (m', ty'))"
      by (rule linked_relinked[OF d(1) l(2)]) (use other[OF False] l(3) in blast)
    moreover have "\<forall>x\<in>set (L (m', ty')). live h' x" using h'(3) False nodes_of_memI[of _ ?L "(m', ty')"] by auto
    ultimately show ?thesis using False h'(1,2) by (auto simp: master_list_set linked_def)
  qed (use l(1) in \<open>simp add: master_list_set\<close>)
  have disj: "set (?L k) \<inter> set (?L k') = {}" if "k \<noteq> k'" for k k'
    using that d(2)[OF that] other[of k] other[of k'] h'(6) by (cases "k = (m, ty)"; cases "k' = (m, ty)") auto
  have bound: "a < brk h'" if "a \<in> nodes_of ?L" for a
    using that h'(4,6) d(4) other by (fastforce simp: nodes_of_def split: if_splits)
  have data: "\<exists>al. dat h' a = Some al \<and> al_master al = m' \<and> al_type al = ty'" if "a \<in> set (?L (m', ty'))" for m' ty' a
  proof (cases "(m', ty') = (m, ty)")
    case False
    with that other[OF False] h'(5)[of a] d(5)[of a m' ty'] show ?thesis by auto
  qed (use h'(6)[of a] that in auto)
  show ?thesis unfolding lists_ok_def
  proof (intro conjI allI ballI impI)
    show "linked (master_list ?s m' ty') (lists ?s) (?L (m', ty'))" for m' ty' by (rule link)
    show "set (?L k) \<inter> set (?L k') = {}" if "k \<noteq> k'" for k k' by (rule disj[OF that])
    show "live (lists ?s) a \<longleftrightarrow> a \<in> nodes_of ?L" for a using h'(3) by simp
    show "a < brk (lists ?s)" if "a \<in> nodes_of ?L" for a using bound[OF that] by simp
    show "\<exists>al. dat (lists ?s) a = Some al \<and> al_master al = m' \<and> al_type al = ty'" if "a \<in> set (?L (m', ty'))" for m' ty' a
      using data[OF that] by simp
  qed
qed

lemma lists_ok_unlink:
  assumes ok: "lists_ok s L" and L: "L (m, ty) = xs @ a # ys"
  obtains l' h' where "unlink (master_list s m ty) (Some a) (lists s) = Inr (l', h')"
    "listnode_free (Some a) h' = Inr (h'\<lparr>live := (live h')(a := False)\<rparr>)" "dat h' = dat (lists s)" "brk h' = brk (lists s)"
    "lists_ok (set_master_list m ty l' (s\<lparr>lists := h'\<lparr>live := (live h')(a := False)\<rparr>\<rparr>)) (L((m, ty) := xs @ ys))"
    "nodes_of (L((m, ty) := xs @ ys)) = nodes_of L - {a}"
proof -
  note d = lists_okD[OF ok]
  have l: "linked (master_list s m ty) (lists s) (xs @ a # ys)" using d(1)[of m ty] L by simp
  obtain l' h' where u: "unlink (master_list s m ty) (Some a) (lists s) = Inr (l', h')" "linked l' h' (xs @ ys)"
    "relinked (set (xs @ ys)) (lists s) h'"
    by (rule unlink_linked[OF l])
  let ?h = "h'\<lparr>live := (live h')(a := False)\<rparr>"
  have a: "a \<notin> set (xs @ ys)" using linked_distinct[OF l] by auto
  have h': "dat h' = dat (lists s)" "live h' = live (lists s)" "brk h' = brk (lists s)" using u(3) by (auto simp: relinked_def)
  have nodes: "nodes_of (L((m, ty) := xs @ ys)) = nodes_of L - {a}"
  proof -
    have "a \<notin> set (L k)" if "k \<noteq> (m, ty)" for k using d(2)[OF that] L by auto
    with a L show ?thesis by (auto simp: nodes_of_def split: if_splits) (metis L Un_iff insert_iff list.simps(15) set_append)+
  qed
  have "lists_ok (set_master_list m ty l' (s\<lparr>lists := ?h\<rparr>)) (L((m, ty) := xs @ ys))"
  proof (rule lists_ok_relink[OF ok _ u(3)])
    show "linked l' ?h (xs @ ys)" using u(2) linked_free[OF a] by blast
    show "set (xs @ ys) \<inter> (nodes_of L - set (L (m, ty))) = {}" using L by auto
    show "live ?h b \<longleftrightarrow> b \<in> nodes_of (L((m, ty) := xs @ ys))" for b unfolding nodes using d(3)[of b] h'(2) by simp
    show "b < brk ?h \<and> b \<notin> nodes_of L - set (L (m, ty)) \<and>
        (\<exists>al. dat ?h b = Some al \<and> al_master al = m \<and> al_type al = ty)" if "b \<in> set (xs @ ys)" for b
    proof -
      have b: "b \<in> set (L (m, ty))" using that L by auto
      with d(4)[OF nodes_of_memI[of b L, OF b]] d(5)[OF b] h' show ?thesis by simp
    qed
  qed (use h' in auto)
  moreover have "live h' a" using d(3)[of a] nodes_of_memI[of a L "(m, ty)"] L h'(2) by simp
  ultimately show thesis using that u(1) h' nodes by (simp add: listnode_free_def deref_def)
qed

lemma lists_ok_insert:
  assumes ok: "lists_ok s L" and L: "L (m, ty) = xs @ ys" and al: "al_master al = m" "al_type al = ty"
  obtains l' h' where "insert_link (master_list s m ty) (Some (brk (lists s))) (first ys None) (alloc al (lists s)) = Inr (l', h')"
    "dat h' = (dat (lists s))(brk (lists s) := Some al)"
    "lists_ok (set_master_list m ty l' (s\<lparr>lists := h'\<rparr>)) (L((m, ty) := xs @ brk (lists s) # ys))"
    "nodes_of (L((m, ty) := xs @ brk (lists s) # ys)) = insert (brk (lists s)) (nodes_of L)" "brk (lists s) \<notin> nodes_of L"
proof -
  note d = lists_okD[OF ok]
  let ?a = "brk (lists s)" and ?h = "alloc al (lists s)"
  have new: "?a \<notin> nodes_of L" using d(4) by blast
  have in_L: "b \<in> nodes_of L" if "b \<in> set (xs @ ys)" for b using that L nodes_of_memI[of b L "(m, ty)"] by simp
  have a: "?a \<notin> set (xs @ ys)" using in_L new by blast
  have l: "linked (master_list s m ty) ?h (xs @ ys)"
    using linked_alloc[OF d(1)[of m ty]] L in_L d(4) by simp
  obtain l' h' where i: "insert_link (master_list s m ty) (Some ?a) (first ys None) ?h = Inr (l', h')"
    "linked l' h' (xs @ ?a # ys)" "relinked (set (xs @ ?a # ys)) ?h h'"
    by (rule insert_link_linked[OF l]) (use a in \<open>auto simp: alloc_def\<close>)
  have h': "dat h' = (dat (lists s))(?a := Some al)" "live h' = (live (lists s))(?a := True)" "brk h' = ?a + 1"
    using i(3) by (auto simp: relinked_def alloc_def)
  have nodes: "nodes_of (L((m, ty) := xs @ ?a # ys)) = insert ?a (nodes_of L)"
    using L by (auto simp: nodes_of_def split: if_splits) (metis L Un_iff set_append)+
  let ?h0 = "(lists s)\<lparr>nx := nx h', pv := pv h'\<rparr>"
  have "lists_ok (set_master_list m ty l' (s\<lparr>lists := h'\<rparr>)) (L((m, ty) := xs @ ?a # ys))"
  proof (rule lists_ok_relink[OF ok i(2), of "set (xs @ ?a # ys)" ?h0])
    show "relinked (set (xs @ ?a # ys)) (lists s) ?h0" using i(3) by (auto simp: relinked_def alloc_def)
    show "set (xs @ ?a # ys) \<inter> (nodes_of L - set (L (m, ty))) = {}" using L new by auto
    show "live h' b \<longleftrightarrow> b \<in> nodes_of (L((m, ty) := xs @ ?a # ys))" for b
      unfolding nodes using d(3)[of b] h'(2) by simp
    show "dat h' b = dat (lists s) b" if "b \<in> nodes_of L - set (L (m, ty))" for b using that h'(1) new by auto
    show "b < brk h' \<and> b \<notin> nodes_of L - set (L (m, ty)) \<and>
        (\<exists>al. dat h' b = Some al \<and> al_master al = m \<and> al_type al = ty)" if "b \<in> set (xs @ ?a # ys)" for b
    proof (cases "b = ?a")
      case False
      then have b: "b \<in> set (L (m, ty))" using that L by auto
      with d(4)[OF nodes_of_memI[of b L, OF b]] d(5)[OF b] h' False show ?thesis by simp
    qed (use h' al new in simp)
  qed (use h' in auto)
  with that i(1) h'(1) nodes new show thesis by blast
qed

lemma lists_ok_put:
  assumes ok: "lists_ok s L" and a: "a \<in> nodes_of L" "dat (lists s) a = Some al" "al_master al' = al_master al" "al_type al' = al_type al"
  shows "put_data (Some a) (Some al') (lists s) = Inr ((lists s)\<lparr>dat := (dat (lists s))(a := Some al')\<rparr>)"
    "lists_ok (s\<lparr>lists := (lists s)\<lparr>dat := (dat (lists s))(a := Some al')\<rparr>\<rparr>) L"
proof -
  note d = lists_okD[OF ok]
  show "put_data (Some a) (Some al') (lists s) = Inr ((lists s)\<lparr>dat := (dat (lists s))(a := Some al')\<rparr>)"
    using d(3)[of a] a(1) by (simp add: put_data_def deref_def)
  show "lists_ok (s\<lparr>lists := (lists s)\<lparr>dat := (dat (lists s))(a := Some al')\<rparr>\<rparr>) L"
    using ok a(2-) unfolding lists_ok_def by (fastforce simp: linked_def)
qed

section \<open>Names\<close>

lemma strcmp_zero: "strcmp a b = 0 \<longleftrightarrow> a = b"
  by (induction a b rule: strcmp.induct) auto

lemma strcmp_sym: "strcmp a b > 0 \<longleftrightarrow> strcmp b a < 0"
proof (induction a b rule: strcmp.induct)
  case (4 c cs d ds)
  have "(of_char c :: nat) \<noteq> of_char d" if "c \<noteq> d" using that by simp
  with 4 show ?case by auto
qed auto

lemma strcmp_nil: "\<not> strcmp b [] < 0"
  by (cases b) auto

lemma strcmp_trans: "strcmp a b < 0 \<Longrightarrow> strcmp b c < 0 \<Longrightarrow> strcmp a c < 0"
proof (induction a c arbitrary: b rule: strcmp.induct)
  case (4 x xs y ys)
  then show ?case by (cases b) (auto split: if_splits)
qed (auto simp: strcmp_nil)

lemma number_loop_digits:
  "number_loop n cs = Inr (Some v) \<Longrightarrow> 0 \<le> n \<Longrightarrow> n \<le> LONG_MAX \<Longrightarrow>
   list_all isdigit cs \<and> v = int (strtol_digits (nat n) cs) \<and> v \<le> LONG_MAX"
proof (induction cs arbitrary: n)
  case (Cons c cs)
  then have c: "isdigit c" "n * 10 + int (digit_val c) \<le> LONG_MAX" "number_loop (n * 10 + int (digit_val c)) cs = Inr (Some v)"
    by (auto split: if_splits)
  have "nat (n * 10 + int (digit_val c)) = 10 * nat n + digit_val c" using Cons.prems(2) by simp
  with Cons.IH[OF c(3)] c Cons.prems(2) show ?case by simp
qed simp

lemma digit_plain: "isdigit c \<Longrightarrow> \<not> isspace c \<and> c \<noteq> CHR ''-'' \<and> c \<noteq> CHR ''+''"
  by (auto simp: isdigit_def isspace_def)

text \<open>The number of a name of digits is what \<open>atol\<close> reads in it.\<close>

lemma number_strtol:
  assumes "number_loop 0 nm = Inr (Some n)"
  shows "strtol nm = n"
proof -
  have d: "list_all isdigit nm" "n = int (strtol_digits 0 nm)" "n \<le> LONG_MAX"
    using number_loop_digits[OF assms] by (auto simp: LONG_MAX_def)
  then have sat: "saturate (int (strtol_digits 0 nm)) = n" by (auto simp: saturate_def LONG_MAX_def)
  show ?thesis
  proof (cases nm)
    case Nil
    with d show ?thesis by (simp add: strtol_def)
  next
    case (Cons c cs)
    with d(1) digit_plain[of c] have "dropWhile isspace nm = c # cs" "c \<noteq> CHR ''-''" "c \<noteq> CHR ''+''" by auto
    with sat Cons show ?thesis by (simp add: strtol_def)
  qed
qed

definition nm_of :: "access_list lheap \<Rightarrow> nat \<Rightarrow> string option" where
  "nm_of h a = al_name (the (dat h a))"

definition named :: "access_list lheap \<Rightarrow> nat list \<Rightarrow> string list" where
  "named h xs = map the (filter (\<lambda>n. n \<noteq> None) (map (nm_of h) xs))"

lemma named_simps [simp]:
  "named h [] = []" "named h (xs @ ys) = named h xs @ named h ys"
  "named h (a # xs) = (case nm_of h a of None \<Rightarrow> named h xs | Some n \<Rightarrow> n # named h xs)"
  by (auto simp: named_def split: option.split)

lemma named_iff: "n \<in> set (named h xs) \<longleftrightarrow> (\<exists>a\<in>set xs. nm_of h a = Some n)"
  by (force simp: named_def image_iff)

lemma named_cong: "\<forall>a\<in>set xs. nm_of h' a = nm_of h a \<Longrightarrow> named h' xs = named h xs"
  by (simp add: named_def cong: map_cong)

text \<open>
  The order of the names that are there: numbers by their value, other names by \<open>strcmp\<close>, and
  no name twice.  A list that has lost its name takes no part.
\<close>

definition names_ok :: "access_type \<Rightarrow> string list \<Rightarrow> bool" where
  "names_ok ty ns \<longleftrightarrow> distinct ns \<and>
     (if ty = ACCESS_TYPE_NUMBER
      then sorted (map strtol ns) \<and> (\<forall>n\<in>set ns. \<exists>v. number_loop 0 n = Inr (Some v))
      else sorted_wrt (\<lambda>x y. strcmp x y < 0) ns \<and> (\<forall>n\<in>set ns. number_loop 0 n = Inr None))"

definition ordered :: "access_list lheap \<Rightarrow> (lkey \<Rightarrow> nat list) \<Rightarrow> bool" where
  "ordered h L \<longleftrightarrow> (\<forall>m ty. names_ok ty (named h (L (m, ty))))"

lemma names_ok_delete: "names_ok ty (xs @ n # ys) \<Longrightarrow> names_ok ty (xs @ ys)"
  by (auto simp: names_ok_def sorted_wrt_append sorted_append)

lemma names_ok_insert_number:
  assumes "names_ok ACCESS_TYPE_NUMBER (xs @ ys)" "n \<notin> set (xs @ ys)" "number_loop 0 n = Inr (Some v)"
    "\<forall>x\<in>set xs. \<not> strtol x \<ge> v" "ys \<noteq> [] \<longrightarrow> strtol (hd ys) \<ge> v"
  shows "names_ok ACCESS_TYPE_NUMBER (xs @ n # ys)"
  using assms number_strtol[OF assms(3)]
  by (cases ys) (auto simp: names_ok_def sorted_append)

lemma names_ok_insert_string:
  assumes "names_ok ACCESS_TYPE_STRING (xs @ ys)" "n \<notin> set (xs @ ys)" "number_loop 0 n = Inr None"
    "\<forall>x\<in>set xs. \<not> strcmp x n \<ge> 0" "ys \<noteq> [] \<longrightarrow> strcmp (hd ys) n \<ge> 0"
  shows "names_ok ACCESS_TYPE_STRING (xs @ n # ys)"
proof -
  have "strcmp n y < 0" if y: "y \<in> set ys" for y
  proof -
    obtain z zs where ys: "ys = z # zs" using y by (cases ys) auto
    then have "strcmp z n \<noteq> 0" using assms(2) strcmp_zero by auto
    then have z: "strcmp n z < 0" using assms(5) ys strcmp_sym[of z n] by auto
    show ?thesis
    proof (cases "y = z")
      case False
      then have "strcmp z y < 0" using y ys assms(1) by (auto simp: names_ok_def sorted_wrt_append)
      with z show ?thesis by (rule strcmp_trans)
    qed (use z in simp)
  qed
  with assms show ?thesis by (auto simp: names_ok_def sorted_wrt_append not_le)
qed

section \<open>The state\<close>

definition ends_at :: "acls \<Rightarrow> nat \<Rightarrow> ends" where
  "ends_at s a = al_ends (the (dat (lists s) a))"

definition acl_ok :: "nat set \<Rightarrow> acls \<Rightarrow> (lkey \<Rightarrow> nat list) \<Rightarrow> (nat \<Rightarrow> nat list) \<Rightarrow> bool" where
  "acl_ok X s L F \<longleftrightarrow> lists_ok s L \<and> ordered (lists s) L \<and> filters_ok X (filters s) (ends_at s) (nodes_of L) F"

lemma acl_okD:
  assumes "acl_ok X s L F"
  shows "lists_ok s L" "ordered (lists s) L" "filters_ok X (filters s) (ends_at s) (nodes_of L) F"
  using assms by (auto simp: acl_ok_def)

lemma acl_ok_called [simp]: "acl_ok X (s\<lparr>called := c\<rparr>) L F \<longleftrightarrow> acl_ok X s L F"
  by (simp add: acl_ok_def lists_ok_def ends_at_def[abs_def])

text \<open>A search along a list stops at the first access list that it does not pass.\<close>

lemma scan_cases:
  assumes "dseg (nx h) (pv h) p xs None" "\<forall>x\<in>set xs. live h x \<and> (\<exists>e. dat h x = Some e)"
  shows "(\<exists>xs1 xs2. scan P h (first xs None) = Some (Inr (first xs2 None)) \<and> xs = xs1 @ xs2 \<and>
      (\<forall>x\<in>set xs1. P (the (dat h x)) = Inr False) \<and> (xs2 \<noteq> [] \<longrightarrow> P (the (dat h (hd xs2))) = Inr True)) \<or>
    (\<exists>e xs1 x xs2. scan P h (first xs None) = Some (Inl e) \<and> xs = xs1 @ x # xs2 \<and>
      (\<forall>x\<in>set xs1. P (the (dat h x)) = Inr False) \<and> P (the (dat h x)) = Inl e)"
    (is "?found xs \<or> ?fails xs")
  using assms
proof (induction xs arbitrary: p)
  case Nil
  then show ?case by (simp add: scan.simps)
next
  case (Cons x xs)
  then obtain e where e: "dat h x = Some e" "live h x" by auto
  have step: "scan P h (first (x # xs) None) = (case P e of Inl err \<Rightarrow> Some (Inl err)
      | Inr b \<Rightarrow> if b then Some (Inr (Some x)) else scan P h (first xs None))"
    using Cons.prems e by (simp add: scan.simps[of P h "Some x"] entry_at_ok split: sum.split)
  have IH: "?found xs \<or> ?fails xs" by (rule Cons.IH[of "Some x"]) (use Cons.prems in auto)
  consider err where "P e = Inl err" | "P e = Inr True" | "P e = Inr False"
    by (cases "P e") (blast, metis (full_types))
  then show ?case
  proof cases
    case (1 err)
    have "?fails (x # xs)"
      by (rule exI[of _ err], rule exI[of _ "[]"], rule exI[of _ x], rule exI[of _ xs]) (use 1 step e in simp)
    then show ?thesis ..
  next
    case 2
    have "?found (x # xs)"
      by (rule exI[of _ "[]"], rule exI[of _ "x # xs"]) (use 2 step e in simp)
    then show ?thesis ..
  next
    case 3
    with step have eq: "scan P h (first (x # xs) None) = scan P h (first xs None)" by simp
    from IH show ?thesis
    proof
      assume "?found xs"
      then obtain xs1 xs2 where "scan P h (first xs None) = Some (Inr (first xs2 None))" "xs = xs1 @ xs2"
        "\<forall>x\<in>set xs1. P (the (dat h x)) = Inr False" "xs2 \<noteq> [] \<longrightarrow> P (the (dat h (hd xs2))) = Inr True" by blast
      with 3 eq e have "?found (x # xs)" by (intro exI[of _ "x # xs1"] exI[of _ xs2]) simp
      then show ?thesis ..
    next
      assume "?fails xs"
      then obtain err xs1 y xs2 where "scan P h (first xs None) = Some (Inl err)" "xs = xs1 @ y # xs2"
        "\<forall>x\<in>set xs1. P (the (dat h x)) = Inr False" "P (the (dat h y)) = Inl err" by blast
      with 3 eq e have "?fails (x # xs)"
        by (intro exI[of _ err] exI[of _ "x # xs1"] exI[of _ y] exI[of _ xs2]) simp
      then show ?thesis ..
    qed
  qed
qed

lemma scan_total:
  assumes "linked l h xs" "\<forall>x\<in>set xs. \<exists>e. dat h x = Some e" "\<And>e. P e = Inr (Q e)"
  obtains xs1 xs2 where "scan P h (e_head l) = Some (Inr (first xs2 None))" "xs = xs1 @ xs2"
    "\<forall>x\<in>set xs1. \<not> Q (the (dat h x))" "xs2 \<noteq> [] \<longrightarrow> Q (the (dat h (hd xs2)))"
proof -
  have "\<forall>x\<in>set xs. live h x \<and> (\<exists>e. dat h x = Some e)" using linked_live[OF assms(1)] assms(2) by blast
  from scan_cases[OF linked_seg[OF assms(1)] this, of P] obtain xs1 xs2 where
    "scan P h (first xs None) = Some (Inr (first xs2 None))" "xs = xs1 @ xs2"
    "\<forall>x\<in>set xs1. P (the (dat h x)) = Inr False" "xs2 \<noteq> [] \<longrightarrow> P (the (dat h (hd xs2))) = Inr True"
    unfolding assms(3) by blast
  with that assms(3) linked_head[OF assms(1)] show thesis by simp
qed

lemma lookup_ok:
  assumes ok: "lists_ok s L" and m: "m = AFI_IP \<or> m = AFI_IP6"
  obtains r where "access_list_lookup m (Some nm) s = Some (Inr r)"
    "\<forall>a. r = Some a \<longrightarrow> nm_of (lists s) a = Some nm \<and> (\<exists>ty. a \<in> set (L (m, ty)))"
    "r = None \<longrightarrow> (\<forall>ty. nm \<notin> set (named (lists s) (L (m, ty))))"
proof -
  note d = lists_okD[OF ok]
  have ends: "num (access_master s m) = master_list s m ACCESS_TYPE_NUMBER" "str (access_master s m) = master_list s m ACCESS_TYPE_STRING"
    by (auto simp: master_list_def)
  have data: "\<forall>x\<in>set (L (m, ty)). \<exists>e. dat (lists s) x = Some e" for ty using d(5) by blast
  let ?P = "\<lambda>al. Inr (al_name al = Some nm)"
  obtain xs1 xs2 where n: "scan ?P (lists s) (e_head (master_list s m ACCESS_TYPE_NUMBER)) = Some (Inr (first xs2 None))"
    "L (m, ACCESS_TYPE_NUMBER) = xs1 @ xs2" "\<forall>x\<in>set xs1. nm_of (lists s) x \<noteq> Some nm" "xs2 \<noteq> [] \<longrightarrow> nm_of (lists s) (hd xs2) = Some nm"
    unfolding nm_of_def by (rule scan_total[OF d(1) data, of ?P "\<lambda>al. al_name al = Some nm"]) auto
  obtain ys1 ys2 where t: "scan ?P (lists s) (e_head (master_list s m ACCESS_TYPE_STRING)) = Some (Inr (first ys2 None))"
    "L (m, ACCESS_TYPE_STRING) = ys1 @ ys2" "\<forall>x\<in>set ys1. nm_of (lists s) x \<noteq> Some nm" "ys2 \<noteq> [] \<longrightarrow> nm_of (lists s) (hd ys2) = Some nm"
    unfolding nm_of_def by (rule scan_total[OF d(1) data, of ?P "\<lambda>al. al_name al = Some nm"]) auto
  have run: "access_list_lookup m (Some nm) s = Some (Inr (if xs2 \<noteq> [] then first xs2 None else first ys2 None))"
    using m n(1) t(1) by (cases xs2) (auto simp: access_list_lookup_def access_master_get_def ends)
  show thesis
  proof (rule that[OF run], intro allI impI)
    fix a assume "(if xs2 \<noteq> [] then first xs2 None else first ys2 None) = Some a"
    then consider zs where "xs2 = a # zs" | zs where "ys2 = a # zs" by (cases xs2; cases ys2) auto
    then show "nm_of (lists s) a = Some nm \<and> (\<exists>ty. a \<in> set (L (m, ty)))"
    proof cases
      case 1
      with n show ?thesis by (intro conjI exI[of _ ACCESS_TYPE_NUMBER]) auto
    next
      case 2
      with t show ?thesis by (intro conjI exI[of _ ACCESS_TYPE_STRING]) auto
    qed
  next
    show "(if xs2 \<noteq> [] then first xs2 None else first ys2 None) = None \<longrightarrow> (\<forall>ty. nm \<notin> set (named (lists s) (L (m, ty))))"
    proof (intro impI allI)
      fix ty assume "(if xs2 \<noteq> [] then first xs2 None else first ys2 None) = None"
      then have "xs2 = []" "ys2 = []" by (auto split: if_splits)
      then show "nm \<notin> set (named (lists s) (L (m, ty)))" using n t by (cases ty) (auto simp: named_iff)
    qed
  qed
qed

section \<open>Creating and deleting access lists\<close>

lemma nm_of_upd: "nm_of (h\<lparr>dat := (dat h)(a := Some al)\<rparr>) b = (if b = a then al_name al else nm_of h b)"
  by (simp add: nm_of_def)

text \<open>
  When \<open>access_list_insert\<close> does not return: the digits of the name overflow, or the search for
  the place of a number meets an access list that has lost its name.
\<close>

definition insert_error :: "acls \<Rightarrow> (lkey \<Rightarrow> nat list) \<Rightarrow> afi \<Rightarrow> string \<Rightarrow> c_error \<Rightarrow> bool" where
  "insert_error s L m nm e \<longleftrightarrow>
     number_loop 0 nm = Inl e \<or>
     (\<exists>v xs x ys. number_loop 0 nm = Inr (Some v) \<and> L (m, ACCESS_TYPE_NUMBER) = xs @ x # ys \<and>
        (\<forall>y\<in>set xs. \<exists>n. nm_of (lists s) y = Some n \<and> strtol n < v) \<and> nm_of (lists s) x = None \<and> e = Mem_fault)"

lemma ordered_insert:
  assumes ord: "ordered h L" and L: "L (m, ty) = xs @ ys" and h': "\<forall>b\<in>nodes_of L. nm_of h' b = nm_of h b"
    and a: "nm_of h' a = Some nm" "names_ok ty (named h xs @ nm # named h ys)"
  shows "ordered h' (L((m, ty) := xs @ a # ys))"
proof -
  have same: "named h' zs = named h zs" if "set zs \<subseteq> nodes_of L" for zs
    using h' that by (intro named_cong) blast
  have sub: "set (L k) \<subseteq> nodes_of L" for k using nodes_of_memI by blast
  have "set xs \<subseteq> nodes_of L" "set ys \<subseteq> nodes_of L" using sub[of "(m, ty)"] L by auto
  then have "named h' (xs @ a # ys) = named h xs @ nm # named h ys" using a(1) same by simp
  with a(2) ord same[OF sub] show ?thesis by (simp add: ordered_def)
qed

lemma point_order:
  assumes num: "number_loop 0 nm = Inr number" and ty: "ty = (if number \<noteq> None then ACCESS_TYPE_NUMBER else ACCESS_TYPE_STRING)"
    and P: "P = (case number of Some n \<Rightarrow> num_point n | None \<Rightarrow> str_point nm)"
    and ok: "names_ok ty (named h (xs @ ys))" "nm \<notin> set (named h (xs @ ys))"
    and scan: "\<forall>x\<in>set xs. P (the (dat h x)) = Inr False" "ys \<noteq> [] \<longrightarrow> P (the (dat h (hd ys))) = Inr True"
  shows "names_ok ty (named h xs @ nm # named h ys)"
proof (cases number)
  case None
  have "\<not> strcmp n nm \<ge> 0" if "n \<in> set (named h xs)" for n
    using that scan(1) None by (auto simp: P named_iff nm_of_def str_point_def)
  moreover have "strcmp (hd (named h ys)) nm \<ge> 0" if "named h ys \<noteq> []"
    using that scan(2) None by (cases ys) (auto simp: P nm_of_def str_point_def split: option.splits)
  ultimately show ?thesis
    using names_ok_insert_string[of "named h xs" "named h ys" nm] ok num ty None by simp
next
  case (Some v)
  have "\<not> strtol n \<ge> v" if "n \<in> set (named h xs)" for n
    using that scan(1) Some by (auto simp: P named_iff nm_of_def num_point_def)
  moreover have "strtol (hd (named h ys)) \<ge> v" if "named h ys \<noteq> []"
    using that scan(2) Some by (cases ys) (auto simp: P nm_of_def num_point_def split: option.splits)
  ultimately show ?thesis
    using names_ok_insert_number[of "named h xs" "named h ys" nm v] ok num ty Some by simp
qed

text \<open>What the state after finding or making the access list \<open>a\<close> has of the state before.\<close>

definition got_list :: "acls \<Rightarrow> (lkey \<Rightarrow> nat list) \<Rightarrow> (nat \<Rightarrow> nat list) \<Rightarrow> nat \<Rightarrow> acls \<Rightarrow> (lkey \<Rightarrow> nat list) \<Rightarrow> (nat \<Rightarrow> nat list) \<Rightarrow> bool" where
  "got_list s L F a s' L' F' \<longleftrightarrow> filters s' = filters s \<and> called s' = called s \<and>
     nodes_of L' = insert a (nodes_of L) \<and> (\<forall>b\<in>nodes_of L. dat (lists s') b = dat (lists s) b \<and> F' b = F b) \<and>
     (a \<notin> nodes_of L \<longrightarrow> F' a = [])"

text \<open>When it returns, the search for the place of a number has passed smaller numbers only.\<close>

definition insert_point :: "acls \<Rightarrow> (lkey \<Rightarrow> nat list) \<Rightarrow> afi \<Rightarrow> string \<Rightarrow> bool" where
  "insert_point s L m nm \<longleftrightarrow>
     (\<forall>v. number_loop 0 nm = Inr (Some v) \<longrightarrow> (\<exists>xs ys. L (m, ACCESS_TYPE_NUMBER) = xs @ ys \<and>
        (\<forall>x\<in>set xs. nm_of (lists s) x \<noteq> None) \<and> (ys \<noteq> [] \<longrightarrow> (\<exists>n. nm_of (lists s) (hd ys) = Some n \<and> v \<le> strtol n))))"

text \<open>The search of \<open>access_list_insert\<close> and the access list it makes.\<close>

definition place :: "int option \<Rightarrow> string \<Rightarrow> access_list \<Rightarrow> bool res" where
  "place number nm = (case number of Some n \<Rightarrow> num_point n | None \<Rightarrow> str_point nm)"

definition type_of_number :: "int option \<Rightarrow> access_type" where
  "type_of_number number = (if number \<noteq> None then ACCESS_TYPE_NUMBER else ACCESS_TYPE_STRING)"

definition fresh :: "afi \<Rightarrow> access_type \<Rightarrow> string \<Rightarrow> access_list" where
  "fresh m ty nm = \<lparr>al_name = Some nm, al_remark = None, al_master = m, al_type = ty, al_ends = no_ends\<rparr>"

lemma insert_search:
  assumes ok: "acl_ok X s L F" and m: "m = AFI_IP \<or> m = AFI_IP6" and num: "number_loop 0 nm = Inr number"
  defines "ty \<equiv> type_of_number number" and "a \<equiv> brk (lists s)"
  defines "h \<equiv> alloc (fresh m ty nm) (lists s)"
  obtains (found) xs1 xs2 where "L (m, ty) = xs1 @ xs2" "\<forall>x\<in>set xs1. place number nm (the (dat (lists s) x)) = Inr False"
      "xs2 \<noteq> [] \<longrightarrow> place number nm (the (dat (lists s) (hd xs2))) = Inr True"
      "access_list_insert m nm s = Some (bindR (insert_link (master_list s m ty) (Some a) (first xs2 None) h) (\<lambda>(alist, h).
         Inr (Some a, set_master_list m ty alist (s\<lparr>lists := h\<rparr>))))"
    | (fails) e xs1 x xs2 where "L (m, ty) = xs1 @ x # xs2" "\<forall>x\<in>set xs1. place number nm (the (dat (lists s) x)) = Inr False"
      "place number nm (the (dat (lists s) x)) = Inl e" "access_list_insert m nm s = Some (Inl e)"
proof -
  note d = lists_okD[OF acl_okD(1)[OF ok]]
  let ?P = "place number nm" and ?xs = "L (m, ty)"
  have start: "access_list_insert m nm s = bindM (scan ?P h (e_head (master_list s m ty))) (\<lambda>point.
      Some (bindR (insert_link (master_list s m ty) (Some a) point h) (\<lambda>(alist, h).
        Inr (Some a, set_master_list m ty alist (s\<lparr>lists := h\<rparr>)))))"
    using m num alloc_steps[of "lists s"]
    by (auto simp: access_list_insert_def access_master_get_def Let_def ty_def type_of_number_def fresh_def place_def h_def a_def
        split: prod.splits)
  have below: "x < a" if "x \<in> set ?xs" for x using d(4)[OF nodes_of_memI[of x L, OF that]] by (simp add: a_def)
  have dat: "dat h x = dat (lists s) x" if "x \<in> set ?xs" for x using below[OF that] by (auto simp: alloc_def h_def a_def)
  have lk: "linked (master_list s m ty) h ?xs" unfolding h_def by (rule linked_alloc[OF d(1)]) (use below in \<open>auto simp: a_def\<close>)
  have live: "\<forall>x\<in>set ?xs. live h x \<and> (\<exists>e. dat h x = Some e)" using linked_live[OF lk] dat d(5) by metis
  have same: "the (dat h x) = the (dat (lists s) x)" if "x \<in> set ?xs" for x using dat[OF that] by simp
  from scan_cases[OF linked_seg[OF lk] live, of ?P] show thesis
  proof (elim disjE exE conjE)
    fix xs1 xs2 assume "scan ?P h (first ?xs None) = Some (Inr (first xs2 None))" "?xs = xs1 @ xs2"
      "\<forall>x\<in>set xs1. ?P (the (dat h x)) = Inr False" "xs2 \<noteq> [] \<longrightarrow> ?P (the (dat h (hd xs2))) = Inr True"
    then show thesis using found[of xs1 xs2] same start linked_head[OF lk] by simp
  next
    fix e xs1 x xs2 assume "scan ?P h (first ?xs None) = Some (Inl e)" "?xs = xs1 @ x # xs2"
      "\<forall>x\<in>set xs1. ?P (the (dat h x)) = Inr False" "?P (the (dat h x)) = Inl e"
    then show thesis using fails[of xs1 x xs2 e] same start linked_head[OF lk] by simp
  qed
qed

lemma insert_found:
  assumes ok: "acl_ok X s L F" and new: "\<forall>ty. nm \<notin> set (named (lists s) (L (m, ty)))" and num: "number_loop 0 nm = Inr number"
  defines "ty \<equiv> type_of_number number" and "a \<equiv> brk (lists s)"
  assumes L: "L (m, ty) = xs1 @ xs2"
    and found: "\<forall>x\<in>set xs1. place number nm (the (dat (lists s) x)) = Inr False"
      "xs2 \<noteq> [] \<longrightarrow> place number nm (the (dat (lists s) (hd xs2))) = Inr True"
  obtains l' h' where "insert_link (master_list s m ty) (Some a) (first xs2 None) (alloc (fresh m ty nm) (lists s)) = Inr (l', h')"
    "acl_ok X (set_master_list m ty l' (s\<lparr>lists := h'\<rparr>)) (L((m, ty) := xs1 @ a # xs2)) (F(a := []))" "nm_of h' a = Some nm"
    "got_list s L F a (set_master_list m ty l' (s\<lparr>lists := h'\<rparr>)) (L((m, ty) := xs1 @ a # xs2)) (F(a := []))" "a \<notin> nodes_of L"
proof -
  note okd = acl_okD[OF ok]
  obtain l' h' where i: "insert_link (master_list s m ty) (Some a) (first xs2 None) (alloc (fresh m ty nm) (lists s)) = Inr (l', h')"
    "dat h' = (dat (lists s))(a := Some (fresh m ty nm))"
    "lists_ok (set_master_list m ty l' (s\<lparr>lists := h'\<rparr>)) (L((m, ty) := xs1 @ a # xs2))"
    "nodes_of (L((m, ty) := xs1 @ a # xs2)) = insert a (nodes_of L)" "a \<notin> nodes_of L"
    unfolding a_def by (rule lists_ok_insert[OF okd(1) L, of "fresh m ty nm"]) (auto simp: fresh_def)
  let ?s' = "set_master_list m ty l' (s\<lparr>lists := h'\<rparr>)" and ?L' = "L((m, ty) := xs1 @ a # xs2)"
  have nm: "\<forall>b\<in>nodes_of L. nm_of h' b = nm_of (lists s) b" "nm_of h' a = Some nm"
    using i(2,5) by (auto simp: nm_of_def fresh_def)
  have "names_ok ty (named (lists s) xs1 @ nm # named (lists s) xs2)"
  proof (rule point_order[OF num _ _ _ _ found])
    show "names_ok ty (named (lists s) (xs1 @ xs2))" using okd(2) L by (metis ordered_def)
    show "nm \<notin> set (named (lists s) (xs1 @ xs2))" using new L by metis
  qed (simp_all add: ty_def type_of_number_def place_def)
  then have "ordered h' ?L'" by (rule ordered_insert[OF okd(2) L nm])
  moreover have "filters_ok X (filters s) (ends_at ?s') (insert a (nodes_of L)) (F(a := []))"
    by (rule iffD2[OF filters_ok_cong filters_ok_new[OF okd(3) i(5)]]) (use i(2,5) in \<open>auto simp: ends_at_def fresh_def\<close>)
  ultimately have "acl_ok X ?s' ?L' (F(a := []))" using i(3,4) by (simp add: acl_ok_def)
  moreover have "got_list s L F a ?s' ?L' (F(a := []))" using i(2,4,5) by (auto simp: got_list_def)
  ultimately show thesis using that i(1,5) nm(2) by blast
qed

lemma num_point_eq:
  "num_point v (the (dat h x)) = Inl e \<longleftrightarrow> nm_of h x = None \<and> e = Mem_fault"
  "num_point v (the (dat h x)) = Inr b \<longleftrightarrow> (\<exists>n. nm_of h x = Some n \<and> b = (strtol n \<ge> v))"
  by (auto simp: num_point_def nm_of_def split: option.splits)

lemma insert_ok:
  assumes ok: "acl_ok X s L F" and m: "m = AFI_IP \<or> m = AFI_IP6" and new: "\<forall>ty. nm \<notin> set (named (lists s) (L (m, ty)))"
  shows "(\<exists>e. access_list_insert m nm s = Some (Inl e) \<and> insert_error s L m nm e) \<or>
    (\<exists>a s' L' F' ty. access_list_insert m nm s = Some (Inr (Some a, s')) \<and> acl_ok X s' L' F' \<and> got_list s L F a s' L' F' \<and>
       a \<notin> nodes_of L \<and> nm_of (lists s') a = Some nm \<and> a \<in> set (L' (m, ty)) \<and> insert_point s L m nm)"
proof (cases "number_loop 0 nm")
  case (Inl e)
  with m show ?thesis
    by (auto simp: access_list_insert_def access_master_get_def listnode_new_def insert_error_def)
next
  case num: (Inr number)
  show ?thesis
  proof (rule insert_search[OF ok m num])
    fix e xs1 x xs2
    assume f: "L (m, type_of_number number) = xs1 @ x # xs2" "\<forall>x\<in>set xs1. place number nm (the (dat (lists s) x)) = Inr False"
      "place number nm (the (dat (lists s) x)) = Inl e" "access_list_insert m nm s = Some (Inl e)"
    then obtain v where "number = Some v" by (cases number) (auto simp: place_def str_point_def)
    with f num have "insert_error s L m nm e"
      by (force simp: insert_error_def place_def type_of_number_def num_point_eq)
    with f(4) show ?thesis by blast
  next
    fix xs1 xs2
    assume f: "L (m, type_of_number number) = xs1 @ xs2" "\<forall>x\<in>set xs1. place number nm (the (dat (lists s) x)) = Inr False"
      "xs2 \<noteq> [] \<longrightarrow> place number nm (the (dat (lists s) (hd xs2))) = Inr True"
      "access_list_insert m nm s = Some (bindR (insert_link (master_list s m (type_of_number number)) (Some (brk (lists s)))
         (first xs2 None) (alloc (fresh m (type_of_number number) nm) (lists s))) (\<lambda>(alist, h).
         Inr (Some (brk (lists s)), set_master_list m (type_of_number number) alist (s\<lparr>lists := h\<rparr>))))"
    have "insert_point s L m nm"
      unfolding insert_point_def
    proof (intro allI impI, rule exI[of _ xs1], rule exI[of _ xs2])
      fix v assume "number_loop 0 nm = Inr (Some v)"
      then have "number = Some v" using num by simp
      with f(1-3) show "L (m, ACCESS_TYPE_NUMBER) = xs1 @ xs2 \<and> (\<forall>x\<in>set xs1. nm_of (lists s) x \<noteq> None) \<and>
          (xs2 \<noteq> [] \<longrightarrow> (\<exists>n. nm_of (lists s) (hd xs2) = Some n \<and> v \<le> strtol n))"
        by (auto simp: place_def type_of_number_def num_point_eq)
    qed
    show ?thesis
    proof (rule insert_found[OF ok new num f(1-3)])
      let ?a = "brk (lists s)" and ?ty = "type_of_number number"
      fix l' h'
      let ?s = "set_master_list m ?ty l' (s\<lparr>lists := h'\<rparr>)" and ?L = "L((m, ?ty) := xs1 @ ?a # xs2)"
      assume i: "insert_link (master_list s m ?ty) (Some ?a) (first xs2 None) (alloc (fresh m ?ty nm) (lists s)) = Inr (l', h')"
        "acl_ok X ?s ?L (F(?a := []))" "nm_of h' ?a = Some nm" "got_list s L F ?a ?s ?L (F(?a := []))" "?a \<notin> nodes_of L"
      have "access_list_insert m nm s = Some (Inr (Some ?a, ?s))" using f(4) i(1) by simp
      moreover have "nm_of (lists ?s) ?a = Some nm" "?a \<in> set (?L (m, ?ty))" using i(3) by simp_all
      ultimately show ?thesis using i(2,4,5) \<open>insert_point s L m nm\<close> by blast
    qed
  qed
qed

lemma acl_get_ok:
  assumes ok: "acl_ok X s L F" and m: "m = AFI_IP \<or> m = AFI_IP6"
  shows "(\<exists>e. access_list_get m nm s = Some (Inl e) \<and> insert_error s L m nm e \<and>
       access_list_lookup m (Some nm) s = Some (Inr None)) \<or>
    (\<exists>a s' L' F' ty. access_list_get m nm s = Some (Inr (Some a, s')) \<and> acl_ok X s' L' F' \<and> got_list s L F a s' L' F' \<and>
       nm_of (lists s') a = Some nm \<and> a \<in> set (L' (m, ty)) \<and>
       (a \<notin> nodes_of L \<longrightarrow> access_list_lookup m (Some nm) s = Some (Inr None)))"
proof -
  obtain r where r: "access_list_lookup m (Some nm) s = Some (Inr r)"
    "\<forall>a. r = Some a \<longrightarrow> nm_of (lists s) a = Some nm \<and> (\<exists>ty. a \<in> set (L (m, ty)))"
    "r = None \<longrightarrow> (\<forall>ty. nm \<notin> set (named (lists s) (L (m, ty))))"
    by (rule lookup_ok[where nm = nm, OF acl_okD(1)[OF ok] m])
  show ?thesis
  proof (cases r)
    case None
    with insert_ok[OF ok m mp[OF r(3) None]] r(1) show ?thesis by (simp add: access_list_get_def) blast
  next
    case (Some a)
    then obtain ty where a: "nm_of (lists s) a = Some nm" "a \<in> set (L (m, ty))" using r(2) by blast
    have "insert a (nodes_of L) = nodes_of L" using nodes_of_memI[of a L, OF a(2)] by blast
    then have "got_list s L F a s L F" using nodes_of_memI[of a L, OF a(2)] by (simp add: got_list_def)
    with Some r(1) a ok nodes_of_memI[of a L, OF a(2)] show ?thesis by (auto simp: access_list_get_def)
  qed
qed

lemma acl_delete_ok:
  assumes ok: "acl_ok X s L F" and L: "L (m, ty) = xs @ a # ys"
  obtains s' where "access_list_delete a s = Some (Inr s')" "acl_ok X s' (L((m, ty) := xs @ ys)) F"
    "dat (lists s') = dat (lists s)" "dat (filters s') = dat (filters s)" "called s' = called s"
    "nodes_of (L((m, ty) := xs @ ys)) = nodes_of L - {a}"
proof -
  note okd = acl_okD[OF ok]
  have a: "a \<in> set (L (m, ty))" "a \<in> nodes_of L" using L nodes_of_memI[of a L "(m, ty)"] by auto
  obtain al where al: "dat (lists s) a = Some al" "al_master al = m" "al_type al = ty"
    using lists_okD(5)[OF okd(1) a(1)] by blast
  have at: "entry_at (lists s) a = Inr al" using lists_okD(3)[OF okd(1), of a] a(2) al(1) by (simp add: entry_at_ok)
  obtain fh fd where f: "delete_all_loop (filters s) (e_head (ends_at s a)) [] = Some (Inr (fh, fd))"
    "dat fh = dat (filters s)" "filters_ok X fh (ends_at s) (nodes_of L - {a}) F"
    by (rule filters_ok_drop[OF okd(3) a(2)])
  obtain l' h' where u: "unlink (master_list s m ty) (Some a) (lists s) = Inr (l', h')"
    "listnode_free (Some a) h' = Inr (h'\<lparr>live := (live h')(a := False)\<rparr>)" "dat h' = dat (lists s)"
    "lists_ok (set_master_list m ty l' (s\<lparr>lists := h'\<lparr>live := (live h')(a := False)\<rparr>\<rparr>)) (L((m, ty) := xs @ ys))"
    "nodes_of (L((m, ty) := xs @ ys)) = nodes_of L - {a}"
    using lists_ok_unlink[OF okd(1) L] by metis
  let ?s = "set_master_list m ty l' (s\<lparr>filters := fh, lists := h'\<lparr>live := (live h')(a := False)\<rparr>\<rparr>)"
  have "access_list_delete a s = Some (Inr ?s)"
    using at f(1) u(1,2) al by (simp add: access_list_delete_def ends_at_def)
  moreover have "lists_ok ?s (L((m, ty) := xs @ ys))"
  proof -
    have "?s = (set_master_list m ty l' (s\<lparr>lists := h'\<lparr>live := (live h')(a := False)\<rparr>\<rparr>))\<lparr>filters := fh\<rparr>"
      by (simp add: set_master_list_def)
    then show ?thesis using u(4) by simp
  qed
  moreover have "ordered (lists ?s) (L((m, ty) := xs @ ys))"
  proof -
    have "nm_of (lists ?s) = nm_of (lists s)" using u(3) by (simp add: nm_of_def fun_eq_iff)
    then have "named (lists ?s) = named (lists s)" by (intro ext named_cong) simp
    moreover have "names_ok ty (named (lists s) (xs @ a # ys))" using okd(2) L by (metis ordered_def)
    then have "names_ok ty (named (lists s) (xs @ ys))" using names_ok_delete by (auto split: option.splits)
    ultimately show ?thesis using okd(2) by (simp add: ordered_def)
  qed
  moreover have "ends_at ?s = ends_at s" using u(3) by (simp add: ends_at_def fun_eq_iff)
  ultimately show thesis using that[of ?s] f u(3,5) by (simp add: acl_ok_def)
qed

section \<open>Changing access lists\<close>

lemma names_ok_tail: "names_ok ty (xs @ (case n of None \<Rightarrow> ys | Some n \<Rightarrow> n # ys)) \<Longrightarrow> names_ok ty (xs @ ys)"
  by (cases n) (auto dest: names_ok_delete)

lemma empty_iff: "linked (al_ends al) h xs \<Longrightarrow> access_list_empty al \<longleftrightarrow> xs = []"
  by (auto simp: access_list_empty_def linked_def dlist_def)

text \<open>Storing an access list: its name stays or is taken away.\<close>

lemma acl_ok_put:
  assumes lok: "lists_ok s L" "ordered (lists s) L" and a: "a \<in> nodes_of L" "dat (lists s) a = Some al"
    and al': "al_master al' = al_master al" "al_type al' = al_type al" "al_name al' = al_name al \<or> al_name al' = None"
    and f: "filters_ok X fh ((ends_at s)(a := al_ends al')) (nodes_of L) F"
  defines "h' \<equiv> (lists s)\<lparr>dat := (dat (lists s))(a := Some al')\<rparr>"
  shows "put_data (Some a) (Some al') (lists s) = Inr h'" "acl_ok X (s\<lparr>lists := h', filters := fh\<rparr>) L F"
proof -
  note put = lists_ok_put[OF lok(1) a al'(1,2)]
  show "put_data (Some a) (Some al') (lists s) = Inr h'" using put(1) by (simp add: h'_def)
  have old: "nm_of (lists s) a = al_name al" using a(2) by (simp add: nm_of_def)
  have nm: "nm_of h' b = (if b = a then al_name al' else nm_of (lists s) b)" for b by (simp add: h'_def nm_of_upd)
  have "names_ok ty (named h' (L (m, ty)))" for m ty
  proof (cases "a \<in> set (L (m, ty))")
    case True
    then obtain xs ys where L: "L (m, ty) = xs @ a # ys" "a \<notin> set xs" by (meson split_list_first)
    have "a \<notin> set ys" using linked_distinct[OF lists_okD(1)[OF lok(1), of m ty]] L(1) by simp
    then have same: "named h' xs = named (lists s) xs" "named h' ys = named (lists s) ys"
      using L(2) nm by (auto intro!: named_cong)
    have ok: "names_ok ty (named (lists s) (xs @ a # ys))" using lok(2) L(1) by (metis ordered_def)
    show ?thesis
    proof (cases "al_name al' = None")
      case True
      have "names_ok ty (named (lists s) xs @ named (lists s) ys)"
        using ok unfolding named_simps by (rule names_ok_tail)
      with True same nm[of a] L(1) show ?thesis by simp
    next
      case False
      with al'(3) ok same nm[of a] L(1) old show ?thesis by (cases "al_name al") simp_all
    qed
  next
    case False
    then have "named h' (L (m, ty)) = named (lists s) (L (m, ty))" using nm by (intro named_cong) auto
    then show ?thesis using lok(2) by (simp add: ordered_def)
  qed
  then have "ordered h' L" by (simp add: ordered_def)
  moreover have "ends_at (s\<lparr>lists := h', filters := fh\<rparr>) = (ends_at s)(a := al_ends al')"
    by (simp add: ends_at_def h'_def fun_eq_iff)
  ultimately show "acl_ok X (s\<lparr>lists := h', filters := fh\<rparr>) L F"
    using put(2) f by (simp add: acl_ok_def h'_def)
qed

lemma filter_add_ok:
  assumes ok: "acl_ok X s L F" and a: "a \<in> nodes_of L" "f \<in> X"
  obtains s' where "access_list_filter_add a f s = Inr s'" "acl_ok (X - {f}) s' L (F(a := F a @ [f]))"
    "dat (filters s') = dat (filters s)" "\<forall>b. nm_of (lists s') b = nm_of (lists s) b"
    "\<forall>b. b \<noteq> a \<longrightarrow> dat (lists s') b = dat (lists s) b"
proof -
  note okd = acl_okD[OF ok]
  obtain al where al: "dat (lists s) a = Some al" "entry_at (lists s) a = Inr al"
    using lists_ok_entry[OF okd(1) a(1)] by metis
  obtain l' fh where l: "append_link (ends_at s a) (Some f) (filters s) = Inr (l', fh)" "dat fh = dat (filters s)"
    "filters_ok (X - {f}) fh ((ends_at s)(a := l')) (nodes_of L) (F(a := F a @ [f]))"
    by (rule filters_ok_append[OF okd(3) a]) blast
  have ends: "ends_at s a = al_ends al" using al(1) by (simp add: ends_at_def)
  let ?al = "al\<lparr>al_ends := l'\<rparr>"
  note put = acl_ok_put[OF okd(1,2) a(1) al(1), of ?al "X - {f}" fh "F(a := F a @ [f])"]
  show thesis
  proof (rule that)
    show "access_list_filter_add a f s = Inr (s\<lparr>lists := (lists s)\<lparr>dat := (dat (lists s))(a := Some ?al)\<rparr>, filters := fh,
        called := called s @ (if add_hook (access_master s (al_master al)) then [Add_hook (al_name al)] else [])\<rparr>)"
      using al(2) l(1,3) put(1) ends by (simp add: access_list_filter_add_def)
  qed (use put(2) l al(1) in \<open>auto simp: nm_of_def simp flip: acls.surjective\<close>)
qed

lemma filter_delete_ok:
  assumes ok: "acl_ok X s L F" and a: "a \<in> nodes_of L" "F a = xs @ f # ys" and m: "a \<in> set (L (m, ty))"
  obtains s' L' where "access_list_filter_delete a f s = Some (Inr s')" "acl_ok X s' L' (F(a := xs @ ys))"
    "dat (filters s') = dat (filters s)" "\<forall>b. b \<noteq> a \<longrightarrow> dat (lists s') b = dat (lists s) b"
    "nm_of (lists s') a = None" "if xs @ ys = [] then nodes_of L' = nodes_of L - {a} else L' = L"
    "\<forall>k. set (L' k) \<subseteq> set (L k)"
proof -
  note okd = acl_okD[OF ok]
  obtain al where al: "dat (lists s) a = Some al" "entry_at (lists s) a = Inr al"
    using lists_ok_entry[OF okd(1) a(1)] by metis
  obtain l' fh where u: "unlink (ends_at s a) (Some f) (filters s) = Inr (l', fh)"
    "listnode_free (Some f) fh = Inr (fh\<lparr>live := (live fh)(f := False)\<rparr>)" "dat fh = dat (filters s)"
    "filters_ok X (fh\<lparr>live := (live fh)(f := False)\<rparr>) ((ends_at s)(a := l')) (nodes_of L) (F(a := xs @ ys))"
    "linked l' fh (xs @ ys)"
    using filters_ok_unlink[OF okd(3) a] by metis
  have ends: "ends_at s a = al_ends al" using al(1) by (simp add: ends_at_def)
  let ?al = "al\<lparr>al_name := None, al_ends := l'\<rparr>" and ?fh = "fh\<lparr>live := (live fh)(f := False)\<rparr>"
  define s1 where "s1 = s\<lparr>lists := (lists s)\<lparr>dat := (dat (lists s))(a := Some ?al)\<rparr>, filters := ?fh\<rparr>"
  have put: "put_data (Some a) (Some ?al) (lists s) = Inr (lists s1)" "acl_ok X s1 L (F(a := xs @ ys))"
    using acl_ok_put[OF okd(1,2) a(1) al(1), of ?al X ?fh "F(a := xs @ ys)"] u(4) by (simp_all add: s1_def)
  have empty: "access_list_empty ?al \<longleftrightarrow> xs @ ys = []"
    using empty_iff[of ?al fh "xs @ ys"] u(5) by simp
  have s1: "dat (lists s1) = (dat (lists s))(a := Some ?al)" "dat (filters s1) = dat (filters s)"
    using u(3) by (simp_all add: s1_def)
  define hook :: "acls \<Rightarrow> acls" where "hook = (\<lambda>s. s\<lparr>called := called s @
    (if delete_hook (access_master s (al_master al)) then [Delete_hook (al_name al)] else [])\<rparr>)"
  have hook: "lists (hook t) = lists t" "filters (hook t) = filters t" "acl_ok X (hook t) L' F' \<longleftrightarrow> acl_ok X t L' F'" for t L' F'
    by (simp_all add: hook_def)
  have run: "access_list_filter_delete a f s =
      bindM (if xs @ ys = [] then access_list_delete a s1 else Some (Inr s1)) (\<lambda>s. Some (Inr (hook s)))"
    using al(2) u(1,2) put(1) ends empty
    by (simp add: access_list_filter_delete_def Let_def hook_def) (simp add: s1_def)
  show thesis
  proof (cases "xs @ ys = []")
    case False
    then have "access_list_filter_delete a f s = Some (Inr (hook s1))" unfolding run if_not_P[OF False] by simp
    then show thesis
      using that[of "hook s1" L] put(2) s1 False hook by (auto simp: nm_of_def)
  next
    case True
    obtain zs1 zs2 where L: "L (m, ty) = zs1 @ a # zs2" using m by (meson split_list)
    obtain s2 where s2: "access_list_delete a s1 = Some (Inr s2)" "acl_ok X s2 (L((m, ty) := zs1 @ zs2)) (F(a := xs @ ys))"
      "dat (lists s2) = dat (lists s1)" "dat (filters s2) = dat (filters s1)"
      "nodes_of (L((m, ty) := zs1 @ zs2)) = nodes_of L - {a}"
      using acl_delete_ok[OF put(2) L] by metis
    have "access_list_filter_delete a f s = Some (Inr (hook s2))" using run s2(1) True by simp
    moreover have "\<forall>k. set ((L((m, ty) := zs1 @ zs2)) k) \<subseteq> set (L k)" using L by auto
    ultimately show thesis
      using that[of "hook s2" "L((m, ty) := zs1 @ zs2)"] s1 s2 True hook L by (auto simp: nm_of_def)
  qed
qed

end
