(* ===== verification/Access_List_Ops.thy ===== *)
theory Access_List_Ops
  imports Access_List
begin

text \<open>
  What the names of access lists stand for, what the commands of lib/filter.c do to them, the
  states that the commands can reach, and the decision of \<open>access_list_apply\<close>.
\<close>

section \<open>What a name stands for\<close>

definition consistent :: "acls \<Rightarrow> bool" where
  "consistent s \<longleftrightarrow> (\<exists>L F. acl_ok {} s L F)"

text \<open>The filters of the access list that a name stands for, and a name without an access list.\<close>

definition acl_holds :: "acls \<Rightarrow> afi \<Rightarrow> string \<Rightarrow> afilter list \<Rightarrow> bool" where
  "acl_holds s m nm fs \<longleftrightarrow>
     (\<exists>a xs. access_list_lookup m (Some nm) s = Some (Inr (Some a)) \<and> linked (ends_at s a) (filters s) xs \<and>
        map (dat (filters s)) xs = map Some fs)"

definition acl_unknown :: "acls \<Rightarrow> afi \<Rightarrow> string \<Rightarrow> bool" where
  "acl_unknown s m nm \<longleftrightarrow> access_list_lookup m (Some nm) s = Some (Inr None)"

lemma dseg_unique: "dseg nxt prv p xs None \<Longrightarrow> dseg nxt prv p' ys None \<Longrightarrow> first xs None = first ys None \<Longrightarrow> xs = ys"
proof (induction xs arbitrary: ys p p')
  case Nil
  then show ?case by (cases ys) auto
next
  case (Cons x xs)
  then obtain zs where ys: "ys = x # zs" by (cases ys) auto
  have "xs = zs" by (rule Cons.IH[of "Some x" "Some x"]) (use Cons.prems ys in auto)
  with ys show ?case by simp
qed

lemma linked_unique: "linked l h xs \<Longrightarrow> linked l h ys \<Longrightarrow> xs = ys"
  by (rule dseg_unique[OF linked_seg linked_seg]) (assumption, assumption, metis linked_head)

lemma named_distinct:
  "distinct (named h xs) \<Longrightarrow> a \<in> set xs \<Longrightarrow> b \<in> set xs \<Longrightarrow> nm_of h a = Some n \<Longrightarrow> nm_of h b = Some n \<Longrightarrow> a = b"
  by (induction xs) (auto simp: named_iff split: option.splits)

lemma lookup_named:
  assumes ok: "acl_ok X s L F" and m: "m = AFI_IP \<or> m = AFI_IP6" and a: "a \<in> set (L (m, ty))" "nm_of (lists s) a = Some nm"
  shows "access_list_lookup m (Some nm) s = Some (Inr (Some a))"
proof -
  note okd = acl_okD[OF ok]
  obtain r where r: "access_list_lookup m (Some nm) s = Some (Inr r)"
    "\<forall>a. r = Some a \<longrightarrow> nm_of (lists s) a = Some nm \<and> (\<exists>ty. a \<in> set (L (m, ty)))"
    "r = None \<longrightarrow> (\<forall>ty. nm \<notin> set (named (lists s) (L (m, ty))))"
    by (rule lookup_ok[where nm = nm, OF okd(1) m])
  have "nm \<in> set (named (lists s) (L (m, ty)))" using a by (auto simp: named_iff)
  with r(3) obtain b where b: "r = Some b" by (cases r) auto
  with r(2) obtain ty' where b': "nm_of (lists s) b = Some nm" "b \<in> set (L (m, ty'))" by blast
  have ord: "names_ok t (named (lists s) (L (m, t)))" for t using okd(2) by (simp add: ordered_def)
  have mem: "nm \<in> set (named (lists s) (L (m, ty')))" using b' by (auto simp: named_iff)
  have "ty' = ty"
    using ord[of ty] ord[of ty'] mem \<open>nm \<in> set (named (lists s) (L (m, ty)))\<close>
    by (cases ty; cases ty') (auto simp: names_ok_def)
  then have "b = a" using named_distinct[of "lists s" "L (m, ty)" b a nm] ord[of ty] a b' by (simp add: names_ok_def)
  with r(1) b show ?thesis by simp
qed

lemma acl_holds_iff:
  assumes ok: "acl_ok X s L F" and m: "m = AFI_IP \<or> m = AFI_IP6"
  shows "acl_holds s m nm fs \<longleftrightarrow>
    (\<exists>ty a. a \<in> set (L (m, ty)) \<and> nm_of (lists s) a = Some nm \<and> map (dat (filters s)) (F a) = map Some fs)"
proof
  assume "acl_holds s m nm fs"
  then obtain a xs where a: "access_list_lookup m (Some nm) s = Some (Inr (Some a))" "linked (ends_at s a) (filters s) xs"
    "map (dat (filters s)) xs = map Some fs" by (auto simp: acl_holds_def)
  obtain ty where ty: "nm_of (lists s) a = Some nm" "a \<in> set (L (m, ty))"
    using lookup_ok[where nm = nm, OF acl_okD(1)[OF ok] m] a(1) by auto
  have "xs = F a"
    using linked_unique[OF a(2)] filters_okD(1)[OF acl_okD(3)[OF ok] nodes_of_memI[of a L, OF ty(2)]] by simp
  with a ty show "\<exists>ty a. a \<in> set (L (m, ty)) \<and> nm_of (lists s) a = Some nm \<and> map (dat (filters s)) (F a) = map Some fs"
    by blast
next
  assume "\<exists>ty a. a \<in> set (L (m, ty)) \<and> nm_of (lists s) a = Some nm \<and> map (dat (filters s)) (F a) = map Some fs"
  then obtain ty a where a: "a \<in> set (L (m, ty))" "nm_of (lists s) a = Some nm" "map (dat (filters s)) (F a) = map Some fs"
    by blast
  with lookup_named[OF ok m a(1,2)] filters_okD(1)[OF acl_okD(3)[OF ok] nodes_of_memI[of a L, OF a(1)]]
  show "acl_holds s m nm fs" by (auto simp: acl_holds_def)
qed

lemma acl_unknown_iff:
  assumes ok: "acl_ok X s L F" and m: "m = AFI_IP \<or> m = AFI_IP6"
  shows "acl_unknown s m nm \<longleftrightarrow> (\<forall>ty. \<forall>a\<in>set (L (m, ty)). nm_of (lists s) a \<noteq> Some nm)"
proof -
  obtain r where r: "access_list_lookup m (Some nm) s = Some (Inr r)"
    "\<forall>a. r = Some a \<longrightarrow> nm_of (lists s) a = Some nm \<and> (\<exists>ty. a \<in> set (L (m, ty)))"
    "r = None \<longrightarrow> (\<forall>ty. nm \<notin> set (named (lists s) (L (m, ty))))"
    by (rule lookup_ok[where nm = nm, OF acl_okD(1)[OF ok] m])
  then show ?thesis by (cases r) (auto simp: acl_unknown_def named_iff)
qed

section \<open>Matching\<close>

text \<open>
  What a filter matches.  A filter with wildcard bits compares the other bits of the address
  and, in an extended list, of the netmask, whose bit \<open>i\<close> is set below the length; a filter with
  a prefix matches the prefixes of its family inside it, or with its length only.
\<close>

definition filter_matches :: "afilter \<Rightarrow> prefix \<Rightarrow> bool" where
  "filter_matches f p \<longleftrightarrow>
     (case f_u f of
        Cfilter c \<Rightarrow>
          (\<forall>i<32. \<not> pbit (c_addr_mask c) i \<longrightarrow> pbit (u p) i = pbit (c_addr c) i) \<and>
          (extended c \<longrightarrow> (\<forall>i<32. \<not> pbit (c_mask_mask c) i \<longrightarrow> (i < plen p) = pbit (c_mask c) i))
      | Zfilter z \<Rightarrow>
          family p = family (z_prefix z) \<and> prefix (net (z_prefix z)) (net p) \<and>
          (exact z \<longrightarrow> plen p = plen (z_prefix z)))"

definition acl_verdict :: "afilter list \<Rightarrow> prefix \<Rightarrow> filter_type" where
  "acl_verdict fs p = (case List.find (\<lambda>f. filter_matches f p) fs of None \<Rightarrow> FILTER_DENY | Some f \<Rightarrow> f_type f)"

lemma length_and_not [simp]: "length (and_not a b) = min (length a) (length b)"
  by (simp add: and_not_def)

lemma pbit_and_not: "length a = length b \<Longrightarrow> i < 8 * length a \<Longrightarrow> pbit (and_not a b) i \<longleftrightarrow> pbit a i \<and> \<not> pbit b i"
  by (auto simp: pbit_def and_not_def bit_and_iff bit_not_iff intro: le_less_trans[of _ 7])

lemma bytes_eqI:
  assumes "length a = n" "length b = n" "\<forall>i<8 * n. pbit a i = pbit b i"
  shows "a = b"
proof (rule nth_equalityI)
  fix j assume j: "j < length a"
  show "a ! j = b ! j"
  proof (rule bit_word_eqI)
    fix k :: nat assume "k < LENGTH(8)"
    then have k: "k < 8" by simp
    have "8 * j + (7 - k) < 8 * n" using j k assms(1) by linarith
    with assms(3) have "pbit a (8 * j + (7 - k)) = pbit b (8 * j + (7 - k))" by blast
    moreover have "7 - (7 - k) = k" using k by linarith
    ultimately show "bit (a ! j) k = bit (b ! j) k" using pbit_byte[of "7 - k"] k by simp
  qed
qed (use assms in simp)

lemma and_not_eq_iff:
  assumes "length a = 4" "length m = 4" "length c = 4" "and_not c m = c"
  shows "and_not a m = c \<longleftrightarrow> (\<forall>i<32. \<not> pbit m i \<longrightarrow> pbit a i = pbit c i)"
proof
  assume "and_not a m = c"
  then show "\<forall>i<32. \<not> pbit m i \<longrightarrow> pbit a i = pbit c i" using pbit_and_not[of a m] assms(1,2) by auto
next
  assume eq: "\<forall>i<32. \<not> pbit m i \<longrightarrow> pbit a i = pbit c i"
  have "pbit (and_not a m) i = pbit c i" if "i < 32" for i
  proof -
    have "pbit c i \<longleftrightarrow> pbit c i \<and> \<not> pbit m i" using pbit_and_not[of c m i] assms that by simp
    then show ?thesis using pbit_and_not[of a m i] assms eq that by auto
  qed
  then show "and_not a m = c" by (intro bytes_eqI[of _ 4]) (use assms in auto)
qed

lemma filter_match_ok:
  assumes f: "filter_ok f" and p: "pwf p" "cisco f \<longrightarrow> 4 \<le> length (u p) \<and> plen p \<le> 32"
  shows "(if cisco f then filter_match_cisco f p else filter_match_zebra f p) = Inr (filter_matches f p)"
proof (cases "f_u f")
  case (Cfilter c)
  with f have c: "cisco f" "length (c_addr c) = 4" "length (c_addr_mask c) = 4" "length (c_mask c) = 4" "length (c_mask_mask c) = 4"
    "and_not (c_addr c) (c_addr_mask c) = c_addr c" "and_not (c_mask c) (c_mask_mask c) = c_mask c"
    by (auto simp: filter_ok_def)
  have len: "4 \<le> length (u p)" "plen p \<le> 32" using p(2) c(1) by auto
  have addr: "and_not (take 4 (u p)) (c_addr_mask c) = c_addr c \<longleftrightarrow>
      (\<forall>i<32. \<not> pbit (c_addr_mask c) i \<longrightarrow> pbit (u p) i = pbit (c_addr c) i)"
  proof -
    have "pbit (take 4 (u p)) i = pbit (u p) i" if "i < 32" for i
    proof -
      have "i div 8 < 4" using that by auto
      then show ?thesis by (simp add: pbit_def)
    qed
    then show ?thesis using and_not_eq_iff[of "take 4 (u p)" "c_addr_mask c" "c_addr c"] c len(1) by auto
  qed
  have mask: "and_not (htonl (netmask32 (plen p))) (c_mask_mask c) = c_mask c \<longleftrightarrow>
      (\<forall>i<32. \<not> pbit (c_mask_mask c) i \<longrightarrow> (i < plen p) = pbit (c_mask c) i)"
  proof -
    have "pbit (htonl (netmask32 (plen p))) i \<longleftrightarrow> i < plen p" if "i < 32" for i
      using that len(2) by (auto simp: pbit_htonl bit_netmask32)
    then show ?thesis using and_not_eq_iff[of "htonl (netmask32 (plen p))" "c_mask_mask c" "c_mask c"] c by auto
  qed
  have "filter_match_cisco f p = Inr (filter_matches f p)"
    using Cfilter len addr mask masklen2ip_eq[OF len(2)]
    by (simp add: filter_match_cisco_def cfilter_def filter_matches_def mem_simps Let_def)
  with c(1) show ?thesis by simp
next
  case (Zfilter z)
  with f have z: "\<not> cisco f" "length (u (z_prefix z)) = 16" "plen (z_prefix z) \<le> 8 * prefix_blen (z_prefix z)"
    by (auto simp: filter_ok_def)
  then have "pwf (z_prefix z)" by (auto simp: pwf_def prefix_blen_def IPV4_MAX_BYTELEN_def IPV6_MAX_BYTELEN_def ETHER_ADDR_LEN_def split: if_splits)
  then have "filter_match_zebra f p = Inr (filter_matches f p)"
    using Zfilter p(1) prefix_match_net[of "z_prefix z" p]
    by (auto simp: filter_match_zebra_def zfilter_def filter_matches_def Let_def word_unat_eq_iff)
  with z(1) show ?thesis by simp
qed

section \<open>Installing filters\<close>

text \<open>The master and the type of an access list say in which list it is.\<close>

lemma in_list_iff:
  assumes "lists_ok s L"
  shows "a \<in> set (L (m, ty)) \<longleftrightarrow> a \<in> nodes_of L \<and> (\<exists>al. dat (lists s) a = Some al \<and> al_master al = m \<and> al_type al = ty)"
proof
  assume "a \<in> nodes_of L \<and> (\<exists>al. dat (lists s) a = Some al \<and> al_master al = m \<and> al_type al = ty)"
  then show "a \<in> set (L (m, ty))" using lists_ok_entry[OF assms, of a] by (metis option.inject)
qed (use lists_okD(5)[OF assms] nodes_of_memI[of a L] in blast)

lemma named_node_iff:
  assumes "lists_ok s L"
  shows "(\<exists>ty. a \<in> set (L (m, ty))) \<and> nm_of (lists s) a = Some nm \<longleftrightarrow>
    a \<in> nodes_of L \<and> (\<exists>al. dat (lists s) a = Some al \<and> al_master al = m \<and> al_name al = Some nm)"
  by (auto simp: in_list_iff[OF assms] nm_of_def)

lemma acl_holds_nodes:
  assumes ok: "acl_ok X s L F"
  shows "acl_holds s m nm fs \<longleftrightarrow> (m = AFI_IP \<or> m = AFI_IP6) \<and>
    (\<exists>a\<in>nodes_of L. \<exists>al. dat (lists s) a = Some al \<and> al_master al = m \<and> al_name al = Some nm \<and>
       map (dat (filters s)) (F a) = map Some fs)"
proof (cases "m = AFI_IP \<or> m = AFI_IP6")
  case True
  then show ?thesis
    unfolding acl_holds_iff[OF ok True] using named_node_iff[OF acl_okD(1)[OF ok], of _ m nm] by blast
next
  case False
  then show ?thesis by (auto simp: acl_holds_def access_list_lookup_def access_master_get_def)
qed

lemma acl_holdsI:
  assumes "acl_ok X s L F" "m = AFI_IP \<or> m = AFI_IP6" "a \<in> nodes_of L" "dat (lists s) a = Some al" "al_master al = m"
    "nm_of (lists s) a = Some nm" "map (dat (filters s)) (F a) = map Some fs"
  shows "acl_holds s m nm fs"
proof -
  have "al_name al = Some nm" using assms(4,6) by (simp add: nm_of_def)
  with assms show ?thesis unfolding acl_holds_nodes[OF assms(1)] by blast
qed

lemma acl_unknown_nodes:
  assumes ok: "acl_ok X s L F" and m: "m = AFI_IP \<or> m = AFI_IP6"
  shows "acl_unknown s m nm \<longleftrightarrow>
    (\<forall>a\<in>nodes_of L. \<forall>al. dat (lists s) a = Some al \<longrightarrow> al_master al = m \<longrightarrow> al_name al \<noteq> Some nm)"
  unfolding acl_unknown_iff[OF ok m] using named_node_iff[OF acl_okD(1)[OF ok], of _ m nm] by blast

text \<open>An access list that has lost its name, with its filters.\<close>

definition nameless :: "acls \<Rightarrow> afi \<Rightarrow> access_type \<Rightarrow> afilter list \<Rightarrow> bool" where
  "nameless s m ty fs \<longleftrightarrow>
     (\<exists>a al xs. live (lists s) a \<and> dat (lists s) a = Some al \<and> al_master al = m \<and> al_type al = ty \<and>
        al_name al = None \<and> linked (al_ends al) (filters s) xs \<and> map (dat (filters s)) xs = map Some fs)"

lemma nameless_nodes:
  assumes ok: "acl_ok X s L F" and a: "a \<in> set (L (m, ty))" "nm_of (lists s) a = None" "map (dat (filters s)) (F a) = map Some fs"
  shows "nameless s m ty fs"
proof -
  note okd = acl_okD[OF ok]
  have n: "a \<in> nodes_of L" using nodes_of_memI[of a L, OF a(1)] .
  obtain al where al: "dat (lists s) a = Some al" "al_master al = m" "al_type al = ty" using lists_okD(5)[OF okd(1) a(1)] by blast
  have "linked (al_ends al) (filters s) (F a)" using filters_okD(1)[OF okd(3) n] al(1) by (simp add: ends_at_def)
  with al a lists_okD(3)[OF okd(1), of a] n show ?thesis unfolding nameless_def
    by (intro exI[of _ a] exI[of _ al] exI[of _ "F a"]) (simp add: nm_of_def)
qed

text \<open>Changing one access list leaves the others alone.\<close>

definition apart :: "nat \<Rightarrow> acls \<Rightarrow> (lkey \<Rightarrow> nat list) \<Rightarrow> (nat \<Rightarrow> nat list) \<Rightarrow> acls \<Rightarrow> (lkey \<Rightarrow> nat list) \<Rightarrow> (nat \<Rightarrow> nat list) \<Rightarrow> bool" where
  "apart a s L F s' L' F' \<longleftrightarrow>
     (\<forall>b. b \<noteq> a \<longrightarrow> (b \<in> nodes_of L' \<longleftrightarrow> b \<in> nodes_of L) \<and>
       (b \<in> nodes_of L \<longrightarrow> dat (lists s') b = dat (lists s) b \<and> F' b = F b \<and>
         map (dat (filters s')) (F b) = map (dat (filters s)) (F b)))"

lemma apart_trans: "apart a s L F s1 L1 F1 \<Longrightarrow> apart a s1 L1 F1 s2 L2 F2 \<Longrightarrow> apart a s L F s2 L2 F2"
  unfolding apart_def by metis

lemma acl_holds_apart:
  assumes ok: "acl_ok X s L F" "acl_ok X' s' L' F'" "apart a s L F s' L' F'"
    and a: "\<And>al. a \<in> nodes_of L \<Longrightarrow> dat (lists s) a = Some al \<Longrightarrow> al_master al = m \<and> al_name al = Some nm"
      "\<And>al. a \<in> nodes_of L' \<Longrightarrow> dat (lists s') a = Some al \<Longrightarrow> al_master al = m \<and> (al_name al = Some nm \<or> al_name al = None)"
    and ne: "(m', nm') \<noteq> (m, nm)"
  shows "acl_holds s' m' nm' fs \<longleftrightarrow> acl_holds s m' nm' fs"
proof -
  have "(\<exists>b\<in>nodes_of L'. \<exists>al. dat (lists s') b = Some al \<and> al_master al = m' \<and> al_name al = Some nm' \<and>
        map (dat (filters s')) (F' b) = map Some fs) \<longleftrightarrow>
      (\<exists>b\<in>nodes_of L' - {a}. \<exists>al. dat (lists s') b = Some al \<and> al_master al = m' \<and> al_name al = Some nm' \<and>
        map (dat (filters s')) (F' b) = map Some fs)" using a(2) ne by fastforce
  also have "\<dots> \<longleftrightarrow> (\<exists>b\<in>nodes_of L - {a}. \<exists>al. dat (lists s) b = Some al \<and> al_master al = m' \<and> al_name al = Some nm' \<and>
        map (dat (filters s)) (F b) = map Some fs)"
    using ok(3) unfolding apart_def by (metis Diff_iff insertI1 singletonD)
  also have "\<dots> \<longleftrightarrow> (\<exists>b\<in>nodes_of L. \<exists>al. dat (lists s) b = Some al \<and> al_master al = m' \<and> al_name al = Some nm' \<and>
        map (dat (filters s)) (F b) = map Some fs)" using a(1) ne by fastforce
  finally show ?thesis unfolding acl_holds_nodes[OF ok(1)] acl_holds_nodes[OF ok(2)] by blast
qed

text \<open>The two searches for an equal filter.\<close>

definition filter_same_zebra :: "afilter \<Rightarrow> afilter \<Rightarrow> bool" where
  "filter_same_zebra f new \<longleftrightarrow> exact (zfilter f) = exact (zfilter new) \<and> f_type f = f_type new \<and>
     same_prefix (z_prefix (zfilter f)) (z_prefix (zfilter new))"

definition search_ok :: "(nat \<Rightarrow> afilter \<Rightarrow> acls \<Rightarrow> ptr res option) \<Rightarrow> afilter \<Rightarrow> (afilter \<Rightarrow> afilter \<Rightarrow> bool) \<Rightarrow> bool" where
  "search_ok lookup new same \<longleftrightarrow>
     (\<forall>X s L F a. acl_ok X s L F \<longrightarrow> a \<in> nodes_of L \<longrightarrow>
        lookup a new s = Some (Inr (List.find (\<lambda>f. same (the (dat (filters s) f)) new) (F a))))"

lemma filter_data:
  assumes "filters_ok X h E A F" "a \<in> A"
  shows "map (dat h) (F a) = map Some (map (\<lambda>f. the (dat h f)) (F a))" "\<forall>x\<in>set (map (\<lambda>f. the (dat h f)) (F a)). filter_ok x"
proof -
  have "\<exists>x. dat h f = Some x \<and> filter_ok x" if "f \<in> set (F a)" for f
    using filters_okD(4,6)[OF assms(1), of f] assms(2) that by blast
  then show "map (dat h) (F a) = map Some (map (\<lambda>f. the (dat h f)) (F a))" "\<forall>x\<in>set (map (\<lambda>f. the (dat h f)) (F a)). filter_ok x"
    by (fastforce simp: image_iff)+
qed

lemma search_scan:
  assumes ok: "acl_ok X s L F" and a: "a \<in> nodes_of L" and P: "\<And>f. filter_ok f \<Longrightarrow> P f = Inr (Q f)"
  shows "bindM (Some (entry_at (lists s) a)) (\<lambda>al. scan P (filters s) (e_head (al_ends al))) =
    Some (Inr (List.find (\<lambda>f. Q (the (dat (filters s) f))) (F a)))"
proof -
  note okd = acl_okD[OF ok]
  obtain al where al: "dat (lists s) a = Some al" "entry_at (lists s) a = Inr al"
    using lists_ok_entry[OF okd(1) a] by metis
  have "linked (al_ends al) (filters s) (F a)" using filters_okD(1)[OF okd(3) a] al(1) by (simp add: ends_at_def)
  then show ?thesis
    using scan_linked[OF _ filter_data(1)[OF okd(3) a]] filter_data(2)[OF okd(3) a] P al(2) by (metis bindM_simps(3))
qed

lemma search_cisco: "search_ok filter_lookup_cisco new filter_same_cisco"
  unfolding search_ok_def filter_lookup_cisco_def by (intro allI impI search_scan) auto

lemma zfilter_16: "filter_ok f \<Longrightarrow> length (u (z_prefix (zfilter f))) = 16"
  by (auto simp: filter_ok_def zfilter_def split: filter_union.splits)

lemma search_zebra: "filter_ok new \<Longrightarrow> search_ok filter_lookup_zebra new filter_same_zebra"
  unfolding search_ok_def filter_lookup_zebra_def
  by (intro allI impI search_scan, assumption+)
    (auto simp: Let_def filter_same_zebra_def prefix_same_16 zfilter_16)

lemma find_first_split:
  "List.find P xs = Some x \<Longrightarrow> \<exists>ys zs. xs = ys @ x # zs \<and> P x \<and> (\<forall>y\<in>set ys. \<not> P y)"
proof (induction xs)
  case (Cons y xs)
  show ?case
  proof (cases "P y")
    case True
    with Cons.prems show ?thesis by (intro exI[of _ "[]"] exI[of _ xs]) simp
  next
    case False
    with Cons obtain ys zs where "xs = ys @ x # zs" "P x" "\<forall>y\<in>set ys. \<not> P y" by auto
    with False show ?thesis by (intro exI[of _ "y # ys"] exI[of _ zs]) simp
  qed
qed simp

lemma lookup_filters [simp]: "access_list_lookup m nm (s\<lparr>filters := fh\<rparr>) = access_list_lookup m nm s"
  by (simp add: access_list_lookup_def cong: option.case_cong if_cong)

lemma insert_error_filters [simp]: "insert_error (s\<lparr>filters := fh\<rparr>) L m nm e \<longleftrightarrow> insert_error s L m nm e"
  by (simp add: insert_error_def)

lemma install_get:
  assumes ok: "acl_ok {} s L F" and m: "m = AFI_IP \<or> m = AFI_IP6" and new: "filter_ok new"
  defines "f \<equiv> brk (filters s)" and "s0 \<equiv> s\<lparr>filters := alloc new (filters s)\<rparr>"
  shows "(\<exists>e. access_list_get m nm s0 = Some (Inl e) \<and> insert_error s L m nm e \<and> acl_unknown s m nm) \<or>
    (\<exists>a s1 L1 F1 ty old. access_list_get m nm s0 = Some (Inr (Some a, s1)) \<and> acl_ok {f} s1 L1 F1 \<and>
       apart a s L F s1 L1 F1 \<and> a \<in> set (L1 (m, ty)) \<and> nm_of (lists s1) a = Some nm \<and>
       map (dat (filters s1)) (F1 a) = map Some old \<and> dat (filters s1) f = Some new \<and>
       (if a \<in> nodes_of L then acl_holds s m nm old \<and> dat (lists s1) a = dat (lists s) a else acl_unknown s m nm \<and> old = []))"
proof -
  note okd = acl_okD[OF ok]
  have "ends_at s0 = ends_at s" by (simp add: ends_at_def s0_def fun_eq_iff)
  then have ok0: "acl_ok {f} s0 L F"
    using okd filters_ok_alloc[OF okd(3) new] by (simp add: acl_ok_def s0_def f_def)
  have same: "map (dat (filters s0)) (F b) = map (dat (filters s)) (F b)" if b: "b \<in> nodes_of L" for b
  proof -
    have "x \<noteq> f" if "x \<in> set (F b)" for x
      using filters_okD(4,5)[OF okd(3), of x] b that by (auto simp: f_def)
    then show ?thesis by (simp add: s0_def alloc_def f_def)
  qed
  from acl_get_ok[OF ok0 m, of nm] show ?thesis
  proof (elim disjE exE conjE)
    fix e assume "access_list_get m nm s0 = Some (Inl e)" "insert_error s0 L m nm e" "access_list_lookup m (Some nm) s0 = Some (Inr None)"
    then show ?thesis by (auto simp: s0_def acl_unknown_def)
  next
    fix a s1 L1 F1 ty
    assume g: "access_list_get m nm s0 = Some (Inr (Some a, s1))" "acl_ok {f} s1 L1 F1" "got_list s0 L F a s1 L1 F1"
      "nm_of (lists s1) a = Some nm" "a \<in> set (L1 (m, ty))" "a \<notin> nodes_of L \<longrightarrow> access_list_lookup m (Some nm) s0 = Some (Inr None)"
    have fs: "filters s1 = filters s0" using g(3) by (simp add: got_list_def)
    define old where "old = map (\<lambda>f. the (dat (filters s1) f)) (F1 a)"
    have old: "map (dat (filters s1)) (F1 a) = map Some old"
      using filter_data(1)[OF acl_okD(3)[OF g(2)] nodes_of_memI[of a L1, OF g(5)]] by (simp add: old_def)
    have ap: "apart a s L F s1 L1 F1" using g(3) same fs by (auto simp: apart_def got_list_def s0_def)
    have "if a \<in> nodes_of L then acl_holds s m nm old \<and> dat (lists s1) a = dat (lists s) a else acl_unknown s m nm \<and> old = []"
    proof (cases "a \<in> nodes_of L")
      case True
      with g(3) have "dat (lists s1) a = dat (lists s) a" "F1 a = F a" by (auto simp: got_list_def s0_def)
      moreover obtain al where "dat (lists s1) a = Some al" "al_master al = m" using lists_okD(5)[OF acl_okD(1)[OF g(2)] g(5)] by blast
      ultimately show ?thesis
        using True g(4) old same[OF True] fs acl_holdsI[OF ok m True, of al nm old] by (simp add: nm_of_def)
    next
      case False
      with g(3,6) show ?thesis by (simp add: got_list_def acl_unknown_def s0_def old_def)
    qed
    moreover have "dat (filters s1) f = Some new" using fs by (simp add: s0_def alloc_def f_def)
    ultimately show ?thesis using g(1,2,4,5) ap old by blast
  qed
qed

lemma apart_filters:
  "apart a s L F s' L' F' \<Longrightarrow> dat fh = dat (filters s') \<Longrightarrow> apart a s L F (s'\<lparr>filters := fh\<rparr>) L' F'"
  by (simp add: apart_def)

lemma free_new:
  assumes ok: "acl_ok {f} s L F"
  shows "listnode_free (Some f) (filters s) = Inr ((filters s)\<lparr>live := (live (filters s))(f := False)\<rparr>)"
    "acl_ok {} (s\<lparr>filters := (filters s)\<lparr>live := (live (filters s))(f := False)\<rparr>\<rparr>) L F"
proof -
  note okd = acl_okD[OF ok]
  show "listnode_free (Some f) (filters s) = Inr ((filters s)\<lparr>live := (live (filters s))(f := False)\<rparr>)"
    using filters_ok_free(1)[OF okd(3)] by simp
  have "ends_at (s\<lparr>filters := fh\<rparr>) = ends_at s" for fh by (simp add: ends_at_def fun_eq_iff)
  then show "acl_ok {} (s\<lparr>filters := (filters s)\<lparr>live := (live (filters s))(f := False)\<rparr>\<rparr>) L F"
    using filters_ok_free(2)[OF okd(3), of f] okd by (simp add: acl_ok_def)
qed

text \<open>The list that an access list with the given name is in.\<close>

definition name_type :: "string \<Rightarrow> access_type" where
  "name_type nm = (if number_loop 0 nm = Inr None then ACCESS_TYPE_STRING else ACCESS_TYPE_NUMBER)"

lemma name_type_list:
  assumes "acl_ok X s L F" "a \<in> set (L (m, ty))" "nm_of (lists s) a = Some nm"
  shows "ty = name_type nm"
proof -
  have "names_ok ty (named (lists s) (L (m, ty)))" using acl_okD(2)[OF assms(1)] by (simp add: ordered_def)
  moreover have "nm \<in> set (named (lists s) (L (m, ty)))" using assms(2,3) by (auto simp: named_iff)
  ultimately show ?thesis by (cases ty) (auto simp: names_ok_def name_type_def)
qed

text \<open>
  The result of a command for the name \<open>nm\<close>: the filters \<open>old\<close> that it stood for, and the filters
  \<open>fs\<close> that its access list has now, which is still found when \<open>kept\<close> holds.
\<close>

definition changed :: "acls \<Rightarrow> afi \<Rightarrow> string \<Rightarrow> afilter list \<Rightarrow> acls \<Rightarrow> afilter list \<Rightarrow> bool \<Rightarrow> bool" where
  "changed s m nm old s' fs kept \<longleftrightarrow>
     consistent s' \<and> (acl_holds s m nm old \<or> acl_unknown s m nm \<and> old = []) \<and>
     (if kept then acl_holds s' m nm fs else acl_unknown s' m nm \<and> (fs \<noteq> [] \<longrightarrow> nameless s' m (name_type nm) fs)) \<and>
     (\<forall>m' nm' gs. (m', nm') \<noteq> (m, nm) \<longrightarrow> (acl_holds s' m' nm' gs \<longleftrightarrow> acl_holds s m' nm' gs))"

lemma changedI:
  assumes ok: "acl_ok {} s L F" "acl_ok {} s' L' F'" "apart a s L F s' L' F'" and m: "m = AFI_IP \<or> m = AFI_IP6"
    and old: "if a \<in> nodes_of L then acl_holds s m nm old \<and> (\<exists>al. dat (lists s) a = Some al \<and> al_master al = m \<and> al_name al = Some nm)
        else acl_unknown s m nm \<and> old = []"
    and new: "if kept then a \<in> nodes_of L' \<and> nm_of (lists s') a = Some nm else nm_of (lists s') a = None"
      "ty = name_type nm" "a \<in> nodes_of L' \<Longrightarrow> a \<in> set (L' (m, ty))" "kept \<or> fs \<noteq> [] \<Longrightarrow> a \<in> nodes_of L' \<and> map (dat (filters s')) (F' a) = map Some fs"
  shows "changed s m nm old s' fs kept"
proof -
  note okd = acl_okD[OF ok(2)]
  have al: "\<exists>al. dat (lists s') a = Some al \<and> al_master al = m \<and> al_type al = ty" if "a \<in> nodes_of L'"
    using lists_okD(5)[OF okd(1) new(3)[OF that]] .
  have unknown: "acl_unknown s' m nm" if "\<not> kept"
    unfolding acl_unknown_nodes[OF ok(2) m]
  proof (intro ballI allI impI notI)
    fix b bl assume b: "b \<in> nodes_of L'" "dat (lists s') b = Some bl" "al_master bl = m" "al_name bl = Some nm"
    have "b \<noteq> a" using b(2,4) new(1) that by (auto simp: nm_of_def)
    then have b': "b \<in> nodes_of L" "dat (lists s) b = Some bl" using ok(3) b(1,2) unfolding apart_def by metis+
    show False
    proof (cases "a \<in> nodes_of L")
      case True
      with old obtain al where al: "dat (lists s) a = Some al" "al_master al = m" "al_name al = Some nm" by auto
      then obtain t t' where "a \<in> set (L (m, t))" "b \<in> set (L (m, t'))"
        using b(3) b' True in_list_iff[OF acl_okD(1)[OF ok(1)]] by metis
      then have "Some a = Some b"
        using lookup_named[OF ok(1) m, of a t nm] lookup_named[OF ok(1) m, of b t' nm] al b(4) b'(2)
        by (simp add: nm_of_def)
      with \<open>b \<noteq> a\<close> show False by simp
    next
      case False
      with old b(3,4) b' acl_unknown_nodes[OF ok(1) m] show False by auto
    qed
  qed
  moreover have "acl_holds s' m nm fs" if kept
    using acl_holdsI[OF ok(2) m, of a] new(1,4) al that by auto
  moreover have "nameless s' m (name_type nm) fs" if "\<not> kept" "fs \<noteq> []"
    using nameless_nodes[OF ok(2)] new that by metis
  moreover have "acl_holds s' m' nm' gs \<longleftrightarrow> acl_holds s m' nm' gs" if "(m', nm') \<noteq> (m, nm)" for m' nm' gs
  proof (rule acl_holds_apart[OF ok(1-3) _ _ that])
    show "al_master bl = m \<and> al_name bl = Some nm" if "a \<in> nodes_of L" "dat (lists s) a = Some bl" for bl
      using old that by auto
    show "al_master bl = m \<and> (al_name bl = Some nm \<or> al_name bl = None)" if "a \<in> nodes_of L'" "dat (lists s') a = Some bl" for bl
      using al new(1) that by (auto simp: nm_of_def split: if_splits)
  qed
  moreover have "acl_holds s m nm old \<or> acl_unknown s m nm \<and> old = []" using old by (auto split: if_splits)
  moreover have "consistent s'" using ok(2) by (auto simp: consistent_def)
  ultimately show ?thesis unfolding changed_def by auto
qed

lemma map_Some_the: "map g xs = map Some ys \<Longrightarrow> ys = map (\<lambda>x. the (g x)) xs"
proof (induction xs arbitrary: ys)
  case (Cons x xs)
  then show ?case by (cases ys) auto
qed simp

lemma find_map_the: "List.find P (map g xs) = map_option g (List.find (\<lambda>x. P (g x)) xs)"
  by (induction xs) auto

text \<open>The end of a command for an access list that has been found or made.\<close>

text \<open>
  What a filter command does to the filters of a list: the new one is appended unless an equal
  one is there, or the first equal one is taken out.
\<close>

definition updated :: "bool \<Rightarrow> (afilter \<Rightarrow> afilter \<Rightarrow> bool) \<Rightarrow> afilter \<Rightarrow> afilter list \<Rightarrow> afilter list \<Rightarrow> bool" where
  "updated install same new old fs =
     (if install then fs = (if List.find (\<lambda>x. same x new) old = None then old @ [new] else old)
      else case List.find (\<lambda>x. same x new) old of None \<Rightarrow> fs = old
        | Some g \<Rightarrow> \<exists>xs ys. old = xs @ g # ys \<and> (\<forall>x\<in>set xs. \<not> same x new) \<and> fs = xs @ ys)"

text \<open>Freeing the filter that was allocated for the command.\<close>

definition freed :: "nat \<Rightarrow> acls \<Rightarrow> acls" where
  "freed f s = s\<lparr>filters := (filters s)\<lparr>live := (live (filters s))(f := False)\<rparr>\<rparr>"

lemma freed_sel [simp]: "lists (freed f s) = lists s" "dat (filters (freed f s)) = dat (filters s)"
  by (simp_all add: freed_def)

lemma freed_ok:
  assumes "acl_ok {f} s L F"
  shows "bindR (listnode_free (Some f) (filters s)) (\<lambda>fh. Inr (CMD_SUCCESS, s\<lparr>filters := fh\<rparr>)) = Inr (CMD_SUCCESS, freed f s)"
    "acl_ok {} (freed f s) L F"
  using free_new[OF assms] by (simp_all add: freed_def)

text \<open>
  The state \<open>s1\<close> in which the access list \<open>a\<close> of the name has been found or made; \<open>f\<close> is the new
  filter, and \<open>old\<close> are the filters of the list.
\<close>

definition got_filters ::
  "acls \<Rightarrow> (lkey \<Rightarrow> nat list) \<Rightarrow> (nat \<Rightarrow> nat list) \<Rightarrow> afi \<Rightarrow> string \<Rightarrow> nat \<Rightarrow> access_type \<Rightarrow> nat \<Rightarrow> afilter \<Rightarrow> afilter list \<Rightarrow>
   acls \<Rightarrow> (lkey \<Rightarrow> nat list) \<Rightarrow> (nat \<Rightarrow> nat list) \<Rightarrow> bool" where
  "got_filters s L F m nm f ty a new old s1 L1 F1 \<longleftrightarrow>
     acl_ok {f} s1 L1 F1 \<and> apart a s L F s1 L1 F1 \<and> a \<in> set (L1 (m, ty)) \<and> nm_of (lists s1) a = Some nm \<and>
     map (dat (filters s1)) (F1 a) = map Some old \<and> dat (filters s1) f = Some new \<and>
     (if a \<in> nodes_of L then acl_holds s m nm old \<and> dat (lists s1) a = dat (lists s) a else acl_unknown s m nm \<and> old = [])"

lemma got_filtersD:
  assumes "got_filters s L F m nm f ty a new old s1 L1 F1"
  shows "acl_ok {f} s1 L1 F1" "apart a s L F s1 L1 F1" "a \<in> set (L1 (m, ty))" "nm_of (lists s1) a = Some nm"
    "map (dat (filters s1)) (F1 a) = map Some old" "dat (filters s1) f = Some new" "a \<in> nodes_of L1" "ty = name_type nm"
    "if a \<in> nodes_of L then acl_holds s m nm old \<and> (\<exists>al. dat (lists s) a = Some al \<and> al_master al = m \<and> al_name al = Some nm)
     else acl_unknown s m nm \<and> old = []"
proof -
  note g = assms[unfolded got_filters_def]
  show s1: "acl_ok {f} s1 L1 F1" "apart a s L F s1 L1 F1" "a \<in> set (L1 (m, ty))" "nm_of (lists s1) a = Some nm"
    "map (dat (filters s1)) (F1 a) = map Some old" "dat (filters s1) f = Some new" using g by auto
  show "a \<in> nodes_of L1" using nodes_of_memI[of a L1, OF s1(3)] .
  show "ty = name_type nm" by (rule name_type_list[OF s1(1,3,4)])
  obtain al where "dat (lists s1) a = Some al" "al_master al = m" using lists_okD(5)[OF acl_okD(1)[OF s1(1)] s1(3)] by blast
  with g s1(4) show "if a \<in> nodes_of L then acl_holds s m nm old \<and>
      (\<exists>al. dat (lists s) a = Some al \<and> al_master al = m \<and> al_name al = Some nm) else acl_unknown s m nm \<and> old = []"
    by (auto simp: nm_of_def split: if_splits)
qed

lemma install_none:
  assumes ok: "acl_ok {} s L F" and m: "m = AFI_IP \<or> m = AFI_IP6" and got: "got_filters s L F m nm f ty a new old s1 L1 F1"
  shows "changed s m nm old (freed f s1) old True"
proof -
  note g = got_filtersD[OF got]
  show ?thesis
    by (rule changedI[OF ok freed_ok(2)[OF g(1)] _ m g(9) _ g(8)]) (use g in \<open>auto simp: apart_def\<close>)
qed

lemma install_add:
  assumes ok: "acl_ok {} s L F" and m: "m = AFI_IP \<or> m = AFI_IP6" and got: "got_filters s L F m nm f ty a new old s1 L1 F1"
  shows "\<exists>s2. access_list_filter_add a f s1 = Inr s2 \<and> changed s m nm old s2 (old @ [new]) True"
proof -
  note g = got_filtersD[OF got]
  obtain s2 where s2: "access_list_filter_add a f s1 = Inr s2" "acl_ok ({f} - {f}) s2 L1 (F1(a := F1 a @ [f]))"
    "dat (filters s2) = dat (filters s1)" "\<forall>b. nm_of (lists s2) b = nm_of (lists s1) b"
    "\<forall>b. b \<noteq> a \<longrightarrow> dat (lists s2) b = dat (lists s1) b"
    using filter_add_ok[OF g(1,7), of f] by (metis insertI1)
  have "apart a s1 L1 F1 s2 L1 (F1(a := F1 a @ [f]))" using s2(3,5) by (simp add: apart_def)
  note ap = apart_trans[OF g(2) this]
  have "changed s m nm old s2 (old @ [new]) True"
    by (rule changedI[OF ok _ ap m g(9) _ g(8)]) (use s2 g in auto)
  with s2(1) show ?thesis by blast
qed

lemma install_delete:
  assumes ok: "acl_ok {} s L F" and m: "m = AFI_IP \<or> m = AFI_IP6" and got: "got_filters s L F m nm f ty a new old s1 L1 F1"
    and F1: "F1 a = xs @ x # ys"
  defines "t \<equiv> \<lambda>x. the (dat (filters s1) x)"
  shows "\<exists>s2 L2 F2. access_list_filter_delete a x s1 = Some (Inr s2) \<and> acl_ok {f} s2 L2 F2 \<and>
    changed s m nm old (freed f s2) (map t (xs @ ys)) False"
proof -
  note g = got_filtersD[OF got]
  obtain s2 L2 where s2: "access_list_filter_delete a x s1 = Some (Inr s2)" "acl_ok {f} s2 L2 (F1(a := xs @ ys))"
    "dat (filters s2) = dat (filters s1)" "\<forall>b. b \<noteq> a \<longrightarrow> dat (lists s2) b = dat (lists s1) b"
    "nm_of (lists s2) a = None" "if xs @ ys = [] then nodes_of L2 = nodes_of L1 - {a} else L2 = L1"
    using filter_delete_ok[OF g(1,7) F1 g(3)] by metis
  have nodes: "b \<in> nodes_of L2 \<longleftrightarrow> b \<in> nodes_of L1" if "b \<noteq> a" for b using s2(6) that by (auto split: if_splits)
  have "apart a s1 L1 F1 (freed f s2) L2 (F1(a := xs @ ys))" using s2(3,4) nodes by (simp add: apart_def)
  note ap = apart_trans[OF g(2) this]
  have data: "map (dat (filters s2)) (xs @ ys) = map Some (map t (xs @ ys))"
    using g(5) s2(3) unfolding map_Some_the[OF g(5)] F1 t_def by simp
  have "changed s m nm old (freed f s2) (map t (xs @ ys)) False"
  proof (rule changedI[OF ok freed_ok(2)[OF s2(2)] ap m g(9) _ g(8)])
    show "a \<in> set (L2 (m, ty))" if "a \<in> nodes_of L2" using that s2(6) g(3) by (auto split: if_splits)
    show "a \<in> nodes_of L2 \<and> map (dat (filters (freed f s2))) ((F1(a := xs @ ys)) a) = map Some (map t (xs @ ys))"
      if "False \<or> map t (xs @ ys) \<noteq> []"
      using that s2(6) g(7) data by auto
  qed (use s2(5) in simp)
  with s2(1,2) show ?thesis by blast
qed

lemma install_end:
  assumes ok: "acl_ok {} s L F" and m: "m = AFI_IP \<or> m = AFI_IP6" and search: "search_ok lookup new same"
    and got: "got_filters s L F m nm f ty a new old s1 L1 F1"
  defines "r \<equiv> List.find (\<lambda>x. same x new) old"
  shows "\<exists>s' fs. filter_set_end lookup install new f a s1 = Some (Inr (CMD_SUCCESS, s')) \<and>
    changed s m nm old s' fs (install \<or> r = None) \<and> updated install same new old fs"
proof -
  note g = got_filtersD[OF got]
  let ?t = "\<lambda>x. the (dat (filters s1) x)"
  have es: "old = map ?t (F1 a)" by (rule map_Some_the[OF g(5)])
  define found where "found = List.find (\<lambda>x. same (?t x) new) (F1 a)"
  have look: "lookup a new s1 = Some (Inr found)" using search g(1,7) by (auto simp: search_ok_def found_def)
  have r: "r = map_option ?t found" unfolding r_def es found_def by (simp add: find_map_the)
  note unf = updated_def r_def[symmetric] filter_set_end_def
  consider (keep) "install" "found \<noteq> None" | (add) "install" "found = None" | (none) "\<not> install" "found = None"
    | (del) x where "\<not> install" "found = Some x" by blast
  then show ?thesis
  proof cases
    case keep
    with install_none[OF ok m got] look r freed_ok(1)[OF g(1)] show ?thesis
      unfolding unf by (intro exI[of _ "freed f s1"] exI[of _ old]) auto
  next
    case none
    with install_none[OF ok m got] look r freed_ok(1)[OF g(1)] show ?thesis
      unfolding unf by (intro exI[of _ "freed f s1"] exI[of _ old]) auto
  next
    case add
    with install_add[OF ok m got] look r show ?thesis unfolding unf by auto
  next
    case del
    obtain xs ys where F1: "F1 a = xs @ x # ys" and xs: "\<forall>y\<in>set xs. \<not> same (?t y) new"
      using find_first_split[OF del(2)[unfolded found_def]] by blast
    obtain s2 L2 F2 where s2: "access_list_filter_delete a x s1 = Some (Inr s2)" "acl_ok {f} s2 L2 F2"
      "changed s m nm old (freed f s2) (map ?t (xs @ ys)) False"
      using install_delete[OF ok m got F1] by blast
    have "\<exists>zs ws. old = zs @ ?t x # ws \<and> (\<forall>y\<in>set zs. \<not> same y new) \<and> map ?t (xs @ ys) = zs @ ws"
      by (rule exI[of _ "map ?t xs"], rule exI[of _ "map ?t ys"]) (use xs in \<open>simp add: es F1\<close>)
    with del look r s2(1,3) freed_ok(1)[OF s2(2)] show ?thesis
      unfolding unf by (intro exI[of _ "freed f s2"] exI[of _ "map ?t (xs @ ys)"]) simp
  qed
qed

text \<open>When a command for a name that is not known yet does not return.\<close>

definition name_error :: "acls \<Rightarrow> afi \<Rightarrow> string \<Rightarrow> c_error \<Rightarrow> bool" where
  "name_error s m nm e \<longleftrightarrow> acl_unknown s m nm \<and>
     (number_loop 0 nm = Inl e \<or>
      e = Mem_fault \<and> (\<exists>n. number_loop 0 nm = Inr (Some n)) \<and> (\<exists>fs. nameless s m ACCESS_TYPE_NUMBER fs))"

lemma insert_error_name:
  assumes ok: "acl_ok X s L F" and "insert_error s L m nm e" "acl_unknown s m nm"
  shows "name_error s m nm e"
proof -
  have "\<exists>fs. nameless s m ACCESS_TYPE_NUMBER fs" if "x \<in> set (L (m, ACCESS_TYPE_NUMBER))" "nm_of (lists s) x = None" for x
    using nameless_nodes[OF ok that] filter_data(1)[OF acl_okD(3)[OF ok] nodes_of_memI[of x L, OF that(1)]] by blast
  with assms(2,3) show ?thesis unfolding insert_error_def name_error_def by (metis in_set_conv_decomp)
qed

lemma install_ok:
  assumes con: "consistent s" and m: "m = AFI_IP \<or> m = AFI_IP6" and new: "filter_ok new" and search: "search_ok lookup new same"
  shows "(\<exists>e. filter_install lookup m nm install new s = Some (Inl e) \<and> name_error s m nm e) \<or>
    (\<exists>s' old fs. filter_install lookup m nm install new s = Some (Inr (CMD_SUCCESS, s')) \<and>
       changed s m nm old s' fs (install \<or> List.find (\<lambda>x. same x new) old = None) \<and>
       updated install same new old fs)"
proof -
  obtain L F where ok: "acl_ok {} s L F" using con by (auto simp: consistent_def)
  let ?s0 = "s\<lparr>filters := alloc new (filters s)\<rparr>" and ?f = "brk (filters s)"
  have start: "filter_install lookup m nm install new s = bindM (access_list_get m nm ?s0) (\<lambda>(access, s).
      bindM (Some (deref (lists s) access)) (\<lambda>access. filter_set_end lookup install new ?f access s))"
    unfolding filter_install_def Let_def by (subst alloc_steps(1)) (simp add: alloc_steps(3))
  from install_get[OF ok m new, of nm] show ?thesis
  proof (elim disjE exE conjE)
    fix e assume "access_list_get m nm ?s0 = Some (Inl e)" "insert_error s L m nm e" "acl_unknown s m nm"
    with start insert_error_name[OF ok] show ?thesis by simp
  next
    fix a s1 L1 F1 ty old
    assume g: "access_list_get m nm ?s0 = Some (Inr (Some a, s1))" "acl_ok {?f} s1 L1 F1" "apart a s L F s1 L1 F1"
      "a \<in> set (L1 (m, ty))" "nm_of (lists s1) a = Some nm" "map (dat (filters s1)) (F1 a) = map Some old"
      "dat (filters s1) ?f = Some new"
      "if a \<in> nodes_of L then acl_holds s m nm old \<and> dat (lists s1) a = dat (lists s) a else acl_unknown s m nm \<and> old = []"
    then have got: "got_filters s L F m nm ?f ty a new old s1 L1 F1" by (simp add: got_filters_def)
    have l: "live (lists s1) a" using lists_okD(3)[OF acl_okD(1)[OF g(2)], of a] nodes_of_memI[of a L1, OF g(4)] by simp
    with start g(1) have "filter_install lookup m nm install new s = filter_set_end lookup install new ?f a s1"
      by (simp add: deref_def)
    with install_end[OF ok m search got, of install] show ?thesis by (simp only: ) blast
  qed
qed

section \<open>Commands\<close>

lemma lookup_cases:
  assumes ok: "acl_ok X s L F" and m: "m = AFI_IP \<or> m = AFI_IP6"
  obtains (unknown) "access_list_lookup m (Some nm) s = Some (Inr None)"
    | (known) a ty where "access_list_lookup m (Some nm) s = Some (Inr (Some a))" "a \<in> set (L (m, ty))" "a \<in> nodes_of L"
      "nm_of (lists s) a = Some nm"
proof -
  obtain r where "access_list_lookup m (Some nm) s = Some (Inr r)"
    "\<forall>a. r = Some a \<longrightarrow> nm_of (lists s) a = Some nm \<and> (\<exists>ty. a \<in> set (L (m, ty)))"
    by (rule lookup_ok[where nm = nm, OF acl_okD(1)[OF ok] m]) blast
  with unknown known nodes_of_memI[of _ L] show thesis by (cases r) blast+
qed

lemma acl_ok_put_same:
  assumes ok: "acl_ok X s L F" and a: "a \<in> nodes_of L" "dat (lists s) a = Some al"
    and al': "al_master al' = al_master al" "al_type al' = al_type al" "al_ends al' = al_ends al" "al_name al' = al_name al \<or> al_name al' = None"
  defines "h' \<equiv> (lists s)\<lparr>dat := (dat (lists s))(a := Some al')\<rparr>"
  shows "put_data (Some a) (Some al') (lists s) = Inr h'" "acl_ok X (s\<lparr>lists := h'\<rparr>) L F"
proof -
  note okd = acl_okD[OF ok]
  have "(ends_at s)(a := al_ends al') = ends_at s" using a(2) al'(3) by (auto simp: ends_at_def)
  then have f: "filters_ok X (filters s) ((ends_at s)(a := al_ends al')) (nodes_of L) F" using okd(3) by simp
  note put = acl_ok_put[OF okd(1,2) a al'(1,2,4) f, folded h'_def]
  show "put_data (Some a) (Some al') (lists s) = Inr h'" by (rule put(1))
  have "s\<lparr>lists := h', filters := filters s\<rparr> = s\<lparr>lists := h'\<rparr>" by simp
  with put(2) show "acl_ok X (s\<lparr>lists := h'\<rparr>) L F" by simp
qed

lemma delete_named:
  assumes "acl_ok X s L F" "a \<in> set (L (m, ty))"
  obtains s' L' where "access_list_delete a s = Some (Inr s')" "acl_ok X s' L' F" "dat (lists s') = dat (lists s)"
    "nodes_of L' = nodes_of L - {a}"
proof -
  obtain xs ys where "L (m, ty) = xs @ a # ys" using assms(2) by (meson split_list)
  then show thesis using acl_delete_ok[OF assms(1)] that by metis
qed

lemma no_access_list_all_ok:
  assumes con: "consistent s" and m: "m = AFI_IP \<or> m = AFI_IP6"
  obtains r s' where "no_access_list_all m nm s = Some (Inr (r, s'))" "consistent s'"
    "r = CMD_WARNING \<and> s' = s \<and> acl_unknown s m nm \<or> r = CMD_SUCCESS \<and> acl_unknown s' m nm"
proof -
  obtain L F where ok: "acl_ok {} s L F" using con by (auto simp: consistent_def)
  show thesis
  proof (rule lookup_cases[OF ok m, of nm])
    assume "access_list_lookup m (Some nm) s = Some (Inr None)"
    then show thesis using that con by (simp add: no_access_list_all_def acl_unknown_def)
  next
    fix a ty assume a: "access_list_lookup m (Some nm) s = Some (Inr (Some a))" "a \<in> set (L (m, ty))" "a \<in> nodes_of L"
      "nm_of (lists s) a = Some nm"
    obtain al where al: "dat (lists s) a = Some al" "entry_at (lists s) a = Inr al"
      using lists_ok_entry[OF acl_okD(1)[OF ok] a(3)] by metis
    let ?h = "(lists s)\<lparr>dat := (dat (lists s))(a := Some (al\<lparr>al_name := None\<rparr>))\<rparr>"
    have put: "put_data (Some a) (Some (al\<lparr>al_name := None\<rparr>)) (lists s) = Inr ?h" "acl_ok {} (s\<lparr>lists := ?h\<rparr>) L F"
      using acl_ok_put_same[OF ok a(3) al(1), of "al\<lparr>al_name := None\<rparr>"] by simp_all
    obtain s1 L1 where s1: "access_list_delete a (s\<lparr>lists := ?h\<rparr>) = Some (Inr s1)" "acl_ok {} s1 L1 F"
      "dat (lists s1) = dat ?h" "nodes_of L1 = nodes_of L - {a}"
      by (rule delete_named[OF put(2) a(2)]) simp
    let ?s = "s1\<lparr>called := called s1 @ (if delete_hook (access_master s1 (al_master al)) then [Delete_hook (al_name al)] else [])\<rparr>"
    have run: "no_access_list_all m nm s = Some (Inr (CMD_SUCCESS, ?s))"
      using a(1) al(2) put(1) s1(1) by (simp add: no_access_list_all_def)
    have ok': "acl_ok {} ?s L1 F" using s1(2) by simp
    have "acl_unknown ?s m nm"
      unfolding acl_unknown_nodes[OF ok' m]
    proof (intro ballI allI impI notI)
      fix b bl assume b: "b \<in> nodes_of L1" "dat (lists ?s) b = Some bl" "al_master bl = m" "al_name bl = Some nm"
      then have ba: "b \<noteq> a" "b \<in> nodes_of L" "dat (lists s) b = Some bl" using s1(3,4) by auto
      then obtain t where "b \<in> set (L (m, t))" using in_list_iff[OF acl_okD(1)[OF ok]] b(3) by metis
      then have "access_list_lookup m (Some nm) s = Some (Inr (Some b))"
        by (rule lookup_named[OF ok m]) (use ba b(4) in \<open>simp add: nm_of_def\<close>)
      with a(1) ba(1) show False by simp
    qed
    moreover have "consistent ?s" using ok' unfolding consistent_def by blast
    ultimately show thesis using that[OF run] by simp
  qed
qed

lemma remark_ok:
  assumes con: "consistent s" and m: "m = AFI_IP \<or> m = AFI_IP6"
  shows "(\<exists>e. access_list_remark m nm line s = Some (Inl e) \<and> name_error s m nm e) \<or>
    (\<exists>s'. access_list_remark m nm line s = Some (Inr (CMD_SUCCESS, s')) \<and> consistent s')"
proof -
  obtain L F where ok: "acl_ok {} s L F" using con by (auto simp: consistent_def)
  from acl_get_ok[OF ok m, of nm] show ?thesis
  proof (elim disjE exE conjE)
    fix e assume "access_list_get m nm s = Some (Inl e)" "insert_error s L m nm e" "access_list_lookup m (Some nm) s = Some (Inr None)"
    then show ?thesis using insert_error_name[OF ok] by (simp add: access_list_remark_def acl_unknown_def)
  next
    fix a s1 L1 F1 ty assume g: "access_list_get m nm s = Some (Inr (Some a, s1))" "acl_ok {} s1 L1 F1" "a \<in> set (L1 (m, ty))"
    have n: "a \<in> nodes_of L1" using nodes_of_memI[of a L1, OF g(3)] .
    obtain al where al: "dat (lists s1) a = Some al" "entry_at (lists s1) a = Inr al" "live (lists s1) a"
      using lists_ok_entry[OF acl_okD(1)[OF g(2)] n] by metis
    from acl_ok_put_same[OF g(2) n al(1), of "al\<lparr>al_remark := Some line\<rparr>"] g(1) al show ?thesis
      by (auto simp: access_list_remark_def deref_def consistent_def)
  qed
qed

lemma remark_unset_ok:
  assumes con: "consistent s" and m: "m = AFI_IP \<or> m = AFI_IP6"
  shows "\<exists>r s'. vty_access_list_remark_unset m nm s = Some (Inr (r, s')) \<and> consistent s'"
proof -
  obtain L F where ok: "acl_ok {} s L F" using con by (auto simp: consistent_def)
  show ?thesis
  proof (rule lookup_cases[OF ok m, of nm])
    assume "access_list_lookup m (Some nm) s = Some (Inr None)"
    then show ?thesis using con by (simp add: vty_access_list_remark_unset_def)
  next
    fix a ty assume a: "access_list_lookup m (Some nm) s = Some (Inr (Some a))" "a \<in> set (L (m, ty))" "a \<in> nodes_of L"
    obtain al where al: "dat (lists s) a = Some al" "entry_at (lists s) a = Inr al"
      using lists_ok_entry[OF acl_okD(1)[OF ok] a(3)] by metis
    let ?al = "al\<lparr>al_remark := None\<rparr>"
    let ?s = "s\<lparr>lists := (lists s)\<lparr>dat := (dat (lists s))(a := Some ?al)\<rparr>\<rparr>"
    have put: "put_data (Some a) (Some ?al) (lists s) = Inr (lists ?s)" "acl_ok {} ?s L F"
      using acl_ok_put_same[OF ok a(3) al(1), of ?al] by simp_all
    obtain s1 L1 where "access_list_delete a ?s = Some (Inr s1)" "acl_ok {} s1 L1 F"
      by (rule delete_named[OF put(2) a(2)])
    with a(1) al(2) put show ?thesis
      by (auto simp: vty_access_list_remark_unset_def Let_def consistent_def)
  qed
qed

lemma acl_reset_loop_ok:
  "acl_ok X s L F \<Longrightarrow> L (m, ty) = xs \<Longrightarrow>
   \<exists>s'. acl_reset_loop (first xs None) s = Some (Inr s') \<and> acl_ok X s' (L((m, ty) := [])) F"
proof (induction xs arbitrary: s L)
  case Nil
  then have "L((m, ty) := []) = L" by auto
  with Nil show ?case by (simp add: acl_reset_loop.simps)
next
  case (Cons x xs)
  have l: "linked (master_list s m ty) (lists s) (x # xs)" using lists_okD(1)[OF acl_okD(1)[OF Cons.prems(1)], of m ty] Cons.prems(2) by simp
  then have nxt: "get_next (Some x) (lists s) = Inr (first xs None)"
    by (simp add: get_next_def deref_def linked_def dlist_def)
  obtain s1 where s1: "access_list_delete x s = Some (Inr s1)" "acl_ok X s1 (L((m, ty) := xs)) F"
    using acl_delete_ok[OF Cons.prems(1), of m ty "[]" x xs] Cons.prems(2) by auto
  have "acl_reset_loop (first (x # xs) None) s = acl_reset_loop (first xs None) s1"
    using nxt s1(1) by (simp add: acl_reset_loop.simps[of "Some x"])
  with Cons.IH[OF s1(2)] show ?case by (simp del: fun_upd_apply add: fun_upd_same)
qed

lemma reset_afi_ok:
  assumes ok: "acl_ok X s L F"
  shows "\<exists>s'. access_list_reset_afi m s = Some (Inr s') \<and>
    acl_ok X s' (L((m, ACCESS_TYPE_NUMBER) := [], (m, ACCESS_TYPE_STRING) := [])) F"
proof -
  have ends: "num (access_master t m) = master_list t m ACCESS_TYPE_NUMBER" "str (access_master t m) = master_list t m ACCESS_TYPE_STRING" for t
    by (auto simp: master_list_def)
  have head: "e_head (master_list t m ty) = first (L' (m, ty)) None" if "acl_ok X t L' F" for t L' ty
    using linked_head[OF lists_okD(1)[OF acl_okD(1)[OF that]]] .
  obtain s1 where s1: "acl_reset_loop (e_head (master_list s m ACCESS_TYPE_NUMBER)) s = Some (Inr s1)"
    "acl_ok X s1 (L((m, ACCESS_TYPE_NUMBER) := [])) F"
    using acl_reset_loop_ok[OF ok refl, of m ACCESS_TYPE_NUMBER] head[OF ok] by auto
  obtain s2 where s2: "acl_reset_loop (e_head (master_list s1 m ACCESS_TYPE_STRING)) s1 = Some (Inr s2)"
    "acl_ok X s2 (L((m, ACCESS_TYPE_NUMBER) := [], (m, ACCESS_TYPE_STRING) := [])) F"
    using acl_reset_loop_ok[OF s1(2) refl, of m ACCESS_TYPE_STRING] head[OF s1(2)] by auto
  have "master_list s2 m ty = no_ends" for ty
    using lists_okD(1)[OF acl_okD(1)[OF s2(2)], of m ty] by (cases ty) (auto simp: linked_nil_iff)
  with s1(1) s2 show ?thesis by (auto simp: access_list_reset_afi_def ends)
qed

lemma reset_ok:
  assumes "consistent s"
  shows "\<exists>s'. access_list_reset s = Some (Inr s') \<and> consistent s'"
proof -
  obtain L F where ok: "acl_ok {} s L F" using assms by (auto simp: consistent_def)
  obtain s1 L1 where s1: "access_list_reset_afi AFI_IP s = Some (Inr s1)" "acl_ok {} s1 L1 F" using reset_afi_ok[OF ok] by blast
  with reset_afi_ok[OF s1(2), of AFI_IP6] show ?thesis by (auto simp: access_list_reset_def consistent_def)
qed

section \<open>Reachable states\<close>

lemma and_not_idem: "length a = length m \<Longrightarrow> and_not (and_not a m) m = and_not a m"
  by (induction a m rule: list_induct2) (auto simp: and_not_def and.assoc)

lemma cisco_filter_ok:
  assumes "length addr = 4" "length addr_mask = 4" "ext \<Longrightarrow> length mk = 4 \<and> length mm = 4"
  shows "filter_ok (cisco_filter ty ext addr addr_mask mk mm)"
proof -
  have "and_not [0, 0, 0, 0] [0, 0, 0, 0] = [0, 0, 0, 0]" by (simp add: and_not_def)
  with assms show ?thesis by (simp add: filter_ok_def cisco_filter_def and_not_idem)
qed

lemma zebra_filter_ok:
  assumes "length (u p) = 16" "family p \<in> {AF_INET, AF_INET6}" "plen p \<le> 8 * prefix_blen p" "prefix_copy prefix_new p = Inr q"
  shows "filter_ok \<lparr>f_type = ty, cisco = False, f_u = Zfilter \<lparr>exact = ex, z_prefix = q\<rparr>\<rparr>"
proof -
  obtain q' where "prefix_copy prefix_new p = Inr q'" "length (u q') = 16" "family q' = family p" "prefixlen q' = prefixlen p"
    by (rule prefix_copy_16[OF assms(2,1)])
  with assms have "length (u q) = 16" "family q = family p" "prefixlen q = prefixlen p" by simp_all
  moreover from this have "prefix_blen q = prefix_blen p" by (simp add: prefix_blen_def)
  ultimately show ?thesis using assms(2,3) by (simp add: filter_ok_def)
qed

lemma store_addr_16:
  assumes "\<And>bs. a = Some bs \<Longrightarrow> length bs \<le> 16" "length (u p) = 16"
  shows "\<exists>r q. store_addr a p = Inr (r, q) \<and> length (u q) = 16"
  using assms by (cases a) (auto simp: store_addr_def mem_write_def)

text \<open>A parser of prefixes returns, and what it accepts is a prefix of the family.\<close>

definition parses :: "u8 \<Rightarrow> (bool \<times> prefix) res \<Rightarrow> bool" where
  "parses fam x = (case x of Inl e \<Rightarrow> False | Inr (ret, q) \<Rightarrow>
     ret \<longrightarrow> length (u q) = 16 \<and> family q = fam \<and> plen q \<le> 8 * prefix_blen q)"

lemma str2prefix_16:
  assumes a: "addr_parsers inet_aton inet_pton" and p: "length (u p) = 16"
  shows "parses AF_INET (str2prefix_ipv4 inet_aton w p)" "parses AF_INET6 (str2prefix_ipv6 inet_pton w p)"
proof -
  have store: "\<exists>r q. store_addr (inet_aton t) p = Inr (r, q) \<and> length (u q) = 16"
    "\<exists>r q. store_addr (inet_pton t) p = Inr (r, q) \<and> length (u q) = 16" for t
    using store_addr_16[OF _ p, of "inet_aton t"] store_addr_16[OF _ p, of "inet_pton t"] a by (auto simp: addr_parsers_def)
  show "parses AF_INET (str2prefix_ipv4 inet_aton w p)"
    using store(1)[of w] store(1)[of "before_slash w"]
    by (auto simp: parses_def str2prefix_ipv4_def Let_def addr_lens prefix_blen_def)
  show "parses AF_INET6 (str2prefix_ipv6 inet_pton w p)"
    using store(2)[of w] store(2)[of "before_slash w"]
    by (auto simp: parses_def str2prefix_ipv6_def Let_def addr_lens prefix_blen_def families)
qed

text \<open>How a command ends: it fails because of its name, or leaves a consistent state.\<close>

definition ends_well :: "acls \<Rightarrow> afi \<Rightarrow> string \<Rightarrow> (cmd_result \<times> acls) res option \<Rightarrow> bool" where
  "ends_well s m nm x \<longleftrightarrow>
     (\<exists>e. x = Some (Inl e) \<and> name_error s m nm e) \<or> (\<exists>r s'. x = Some (Inr (r, s')) \<and> consistent s')"

lemma ends_well_same: "consistent s \<Longrightarrow> ends_well s m nm (Some (Inr (r, s)))"
  by (simp add: ends_well_def)

lemma install_ends_well:
  "consistent s \<Longrightarrow> m = AFI_IP \<or> m = AFI_IP6 \<Longrightarrow> filter_ok new \<Longrightarrow> search_ok lookup new same \<Longrightarrow>
   ends_well s m nm (filter_install lookup m nm install new s)"
  using install_ok[of s m new lookup same nm install] by (auto simp: ends_well_def changed_def)

lemma set_cisco_ends_well:
  assumes con: "consistent s" and a: "addr_parsers inet_aton inet_pton"
  shows "ends_well s AFI_IP nm (filter_set_cisco inet_aton nm ty addr_str addr_mask_str mask_str mask_mask_str ext install s)"
proof -
  have len: "length bs = 4" if "inet_aton t = Some bs" for t bs using a that by (simp add: addr_parsers_def)
  have "ends_well s AFI_IP nm (filter_install filter_lookup_cisco AFI_IP nm install (cisco_filter t e addr am mk mm) s)"
    if "length addr = 4" "length am = 4" "e \<Longrightarrow> length mk = 4 \<and> length mm = 4" for t e addr am mk mm
    by (rule install_ends_well[OF con _ cisco_filter_ok[OF that] search_cisco]) simp_all
  with ends_well_same[OF con] len show ?thesis
    by (auto simp: filter_set_cisco_def split: option.split)
qed

lemma set_zebra_ends_well:
  assumes con: "consistent s" and a: "addr_parsers inet_aton inet_pton" and p0: "length (u p0) = 16"
    and m: "afi = AFI_IP \<or> afi = AFI_IP6"
  shows "ends_well s afi nm (filter_set_zebra inet_aton inet_pton p0 nm ty afi pfx ex install s)"
proof (cases "filter_type_of ty")
  case None
  then show ?thesis using ends_well_same[OF con] by (simp add: filter_set_zebra_def)
next
  case (Some t)
  let ?r = "if afi = AFI_IP then str2prefix_ipv4 inet_aton pfx p0 else str2prefix_ipv6 inet_pton pfx p0"
  obtain ret p where p: "?r = Inr (ret, p)"
    "ret \<longrightarrow> length (u p) = 16 \<and> family p \<in> {AF_INET, AF_INET6} \<and> plen p \<le> 8 * prefix_blen p"
    using str2prefix_16[OF a p0, of pfx] by (cases "afi = AFI_IP") (auto simp: parses_def split: sum.splits)
  let ?f = "\<lambda>q. \<lparr>f_type = t, cisco = False, f_u = Zfilter \<lparr>exact = ex, z_prefix = q\<rparr>\<rparr>"
  have run: "filter_set_zebra inet_aton inet_pton p0 nm ty afi pfx ex install s =
      (if \<not> ret then Some (Inr (CMD_WARNING, s)) else bindM (Some (prefix_copy prefix_new p)) (\<lambda>q.
         filter_install filter_lookup_zebra afi nm install (?f q) s))"
    unfolding filter_set_zebra_def using Some m p(1) by simp
  show ?thesis
  proof (cases ret)
    case False
    then show ?thesis using run ends_well_same[OF con] by simp
  next
    case True
    with p(2) have w: "length (u p) = 16" "family p \<in> {AF_INET, AF_INET6}" "plen p \<le> 8 * prefix_blen p" by auto
    obtain q where q: "prefix_copy prefix_new p = Inr q" using prefix_copy_16[OF w(2,1)] by metis
    note ok = zebra_filter_ok[OF w q]
    show ?thesis using install_ends_well[OF con m ok search_zebra[OF ok]] run True q by simp
  qed
qed

lemma exec_ends_well:
  assumes con: "consistent s" and a: "addr_parsers inet_aton inet_pton" and p0: "length (u p0) = 16" and c: "cmd_ok c"
  shows "ends_well s (cmd_afi c) (cmd_name c) (acl_exec inet_aton inet_pton p0 c s)"
proof (cases c)
  case (No_list m nm)
  with no_access_list_all_ok[OF con, of m nm] c show ?thesis by (auto simp: cmd_ok_def ends_well_def)
next
  case (Remark m nm line)
  with remark_ok[OF con, of m nm line] c show ?thesis by (auto simp: cmd_ok_def ends_well_def)
next
  case (No_remark m nm)
  with remark_unset_ok[OF con, of m nm] c show ?thesis by (auto simp: cmd_ok_def ends_well_def)
qed (use set_cisco_ends_well[OF con a] set_zebra_ends_well[OF con a p0] c in
  \<open>auto simp: cmd_ok_def access_list_standard_def access_list_extended_def access_list_zebra_def ipv6_access_list_def
    split: zebra_operand.split\<close>)

lemma init_ok: "acl_ok {} acl_init (\<lambda>_. []) (\<lambda>_. [])"
  by (auto simp: acl_ok_def lists_ok_def ordered_def filters_ok_def acl_init_def empty_heap_def master_list_def linked_nil
      nodes_of_def names_ok_def named_def)

lemma acl_ok_master:
  assumes "acl_ok X s L F" "\<And>m ty. master_list s' m ty = master_list s m ty" "lists s' = lists s" "filters s' = filters s"
  shows "acl_ok X s' L F"
proof -
  have "ends_at s' = ends_at s" using assms(3) by (simp add: ends_at_def fun_eq_iff)
  with assms show ?thesis by (simp add: acl_ok_def lists_ok_def)
qed

lemma hooks_ok:
  assumes "consistent s"
  shows "consistent (access_list_add_hook s)" "consistent (access_list_delete_hook s)"
proof -
  obtain L F where ok: "acl_ok {} s L F" using assms by (auto simp: consistent_def)
  have "acl_ok {} (access_list_add_hook s) L F" "acl_ok {} (access_list_delete_hook s) L F"
    by (rule acl_ok_master[OF ok];
      simp add: access_list_add_hook_def access_list_delete_hook_def master_list_def)+
  then show "consistent (access_list_add_hook s)" "consistent (access_list_delete_hook s)" by (auto simp: consistent_def)
qed

lemma reach_consistent:
  assumes "acl_reach inet_aton inet_pton s" "addr_parsers inet_aton inet_pton"
  shows "consistent s"
  using assms
proof induction
  case acl_start
  show ?case using init_ok by (auto simp: consistent_def)
next
  case (acl_command s c p0 r s')
  with exec_ends_well[of s inet_aton inet_pton p0 c] show ?case by (auto simp: ends_well_def)
next
  case (acl_reset s s')
  with reset_ok[of s] show ?case by auto
qed (use hooks_ok in auto)

section \<open>Applying an access list\<close>

lemma apply_scan:
  assumes ok: "acl_ok {} s L F" and a: "a \<in> nodes_of L" "map (dat (filters s)) (F a) = map Some fs"
    and p: "pwf p" "4 \<le> length (u p)" "\<forall>f\<in>set fs. cisco f \<longrightarrow> plen p \<le> 32"
  shows "access_list_apply (Some a) p s = Some (Inr (acl_verdict fs p))"
proof -
  note okd = acl_okD[OF ok]
  obtain al where al: "dat (lists s) a = Some al" "entry_at (lists s) a = Inr al"
    using lists_ok_entry[OF okd(1) a(1)] by metis
  have lk: "linked (al_ends al) (filters s) (F a)" using filters_okD(1)[OF okd(3) a(1)] al(1) by (simp add: ends_at_def)
  have fs: "fs = map (\<lambda>f. the (dat (filters s) f)) (F a)" by (rule map_Some_the[OF a(2)])
  have "filter_ok f" if "f \<in> set fs" for f using filter_data(2)[OF okd(3) a(1)] that unfolding fs by blast
  then have "\<forall>f\<in>set fs. (if cisco f then filter_match_cisco f p else filter_match_zebra f p) = Inr (filter_matches f p)"
    using filter_match_ok p by blast
  note run = scan_linked[OF lk a(2) this]
  define found where "found = List.find (\<lambda>x. filter_matches (the (dat (filters s) x)) p) (F a)"
  have verdict: "acl_verdict fs p = (case found of None \<Rightarrow> FILTER_DENY | Some x \<Rightarrow> f_type (the (dat (filters s) x)))"
    unfolding acl_verdict_def fs found_def find_map_the by (simp split: option.split)
  show ?thesis
  proof (cases found)
    case None
    then show ?thesis using run al(2) verdict by (simp add: access_list_apply_def found_def)
  next
    case (Some x)
    then have "x \<in> set (F a)" unfolding found_def by (auto simp: find_Some_iff)
    then obtain f where "dat (filters s) x = Some f" "live (filters s) x"
      using a(2) linked_live[OF lk] by (metis (no_types, opaque_lifting) in_set_conv_nth length_map nth_map)
    then show ?thesis using run al(2) verdict Some by (simp add: access_list_apply_def found_def entry_at_ok)
  qed
qed

text \<open>
  The searches do not look at the flag \<open>cisco\<close>.  An access list can have filters of both kinds,
  since a word that is a number is a name too; then a new filter can be taken for an old one of
  the other kind and is dropped, although they match different prefixes.
\<close>

lemma mixed_filters_confused:
  defines "f \<equiv> \<lparr>f_type = FILTER_PERMIT, cisco = False,
      f_u = Zfilter \<lparr>exact = False, z_prefix = \<lparr>family = AF_INET, prefixlen = 8, u = 10 # replicate 15 0\<rparr>\<rparr>\<rparr>"
    and "new \<equiv> cisco_filter FILTER_PERMIT False [0, 0, 0, 0] [2, 8, 0, 0] [] []"
    and "p \<equiv> \<lparr>family = AF_INET, prefixlen = 0, u = replicate 16 0\<rparr>"
  shows "filter_ok f" "filter_ok new" "filter_same_cisco f new" "filter_matches new p" "\<not> filter_matches f p"
proof -
  show "filter_ok f" by (simp add: f_def filter_ok_def prefix_blen_def IPV4_MAX_BYTELEN_def)
  show "filter_ok new" unfolding new_def by (rule cisco_filter_ok) simp_all
  show "filter_same_cisco f new"
    by (simp add: f_def new_def filter_same_cisco_def cfilter_def cisco_filter_def and_not_def AF_INET_def)
  have "pbit (replicate 16 0) i = pbit [0, 0, 0, 0] i" if "i < 32" for i
  proof -
    have "i div 8 < 4" using that by auto
    then have "i div 8 \<in> {0, 1, 2, 3}" by auto
    then have "[0, 0, 0, 0] ! (i div 8) = (0 :: u8)" by auto
    with \<open>i div 8 < 4\<close> show ?thesis by (simp add: pbit_def)
  qed
  then show "filter_matches new p"
    by (simp add: new_def p_def filter_matches_def cisco_filter_def and_not_def)
  show "\<not> filter_matches f p" by (simp add: f_def p_def filter_matches_def net_def)
qed

section \<open>An example\<close>

text \<open>
  Two filters are entered for the number 10, and the second is removed: permit any, and deny the
  host 10.0.0.1.
\<close>

definition dotted :: "string \<Rightarrow> u8 list option" where
  "dotted = map_of [(''0.0.0.0'', [0, 0, 0, 0]), (''255.255.255.255'', [255, 255, 255, 255]), (''10.0.0.1'', [10, 0, 0, 1])]"

definition permit_any :: afilter where
  "permit_any = cisco_filter FILTER_PERMIT False [0, 0, 0, 0] [255, 255, 255, 255] [] []"

definition deny_host :: afilter where
  "deny_host = cisco_filter FILTER_DENY False [10, 0, 0, 1] [0, 0, 0, 0] [] []"

lemma dotted_parsers: "addr_parsers dotted (\<lambda>_. None)"
  by (auto simp: addr_parsers_def dotted_def split: if_splits)

lemma example_filters: "filter_ok permit_any" "filter_ok deny_host"
  by (auto simp: permit_any_def deny_host_def intro!: cisco_filter_ok)

lemma example_exec:
  "acl_exec dotted pton p0 (Standard install nm ''permit'' Any) s = filter_install filter_lookup_cisco AFI_IP nm install permit_any s"
  "acl_exec dotted pton p0 (Standard install nm ''deny'' (Host ''10.0.0.1'')) s =
     filter_install filter_lookup_cisco AFI_IP nm install deny_host s"
  by (simp_all add: access_list_standard_def filter_set_cisco_def filter_type_of_def dotted_def permit_any_def deny_host_def)

lemma example_same: "filter_same_cisco permit_any deny_host = False" "filter_same_cisco deny_host deny_host = True"
  by (simp_all add: permit_any_def deny_host_def filter_same_cisco_def cfilter_def cisco_filter_def)

lemma init_names: "acl_unknown acl_init m nm" "\<not> acl_holds acl_init m nm fs" "\<not> nameless acl_init m ty fs"
proof -
  show "acl_unknown acl_init m nm"
    by (simp add: acl_unknown_def access_list_lookup_def acl_init_def no_ends_def scan.simps split: option.split)
  then show "\<not> acl_holds acl_init m nm fs" by (simp add: acl_unknown_def acl_holds_def)
qed (simp add: nameless_def acl_init_def empty_heap_def)

lemma known_no_error: "acl_holds s m nm fs \<Longrightarrow> \<not> name_error s m nm e"
  by (auto simp: acl_holds_def name_error_def acl_unknown_def)

lemma holds_unique:
  assumes "acl_holds s m nm fs" "acl_holds s m nm gs"
  shows "fs = gs"
proof -
  obtain xs where "map (dat (filters s)) xs = map Some fs" "map (dat (filters s)) xs = map Some gs"
    using assms linked_unique unfolding acl_holds_def by (metis Inr_inject option.inject)
  then show ?thesis by (metis map_Some_the)
qed

lemma changed_old: "changed s m nm old s' fs kept \<Longrightarrow> acl_holds s m nm gs \<Longrightarrow> old = gs"
  using holds_unique by (auto simp: changed_def) (simp add: acl_unknown_def acl_holds_def)

lemma example_step:
  assumes r: "acl_reach dotted (\<lambda>_. None) s" and e: "\<nexists>e. name_error s AFI_IP nm e" and f: "filter_ok f"
    and c: "acl_exec dotted (\<lambda>_. None) prefix_new c s = filter_install filter_lookup_cisco AFI_IP nm install f s" "cmd_ok c"
  obtains s' old fs where "acl_reach dotted (\<lambda>_. None) s'" "updated install filter_same_cisco f old fs"
    "changed s AFI_IP nm old s' fs (install \<or> List.find (\<lambda>x. filter_same_cisco x f) old = None)"
proof -
  from install_ok[OF reach_consistent[OF r dotted_parsers] _ f search_cisco, of AFI_IP nm install] e obtain s' old fs where
    s': "filter_install filter_lookup_cisco AFI_IP nm install f s = Some (Inr (CMD_SUCCESS, s'))"
    "updated install filter_same_cisco f old fs"
    "changed s AFI_IP nm old s' fs (install \<or> List.find (\<lambda>x. filter_same_cisco x f) old = None)" by blast
  have "acl_reach dotted (\<lambda>_. None) s'"
    by (rule acl_command[OF r c(2), of prefix_new CMD_SUCCESS]) (use c(1) s'(1) in \<open>simp_all add: prefix_new_def\<close>)
  with that s'(2,3) show thesis by blast
qed

lemma holds_or_unknown:
  assumes ok: "acl_ok X s L F" and m: "m = AFI_IP \<or> m = AFI_IP6"
  shows "acl_unknown s m nm \<or> (\<exists>fs. acl_holds s m nm fs)"
proof (rule lookup_cases[OF ok m, of nm])
  fix a ty assume "a \<in> set (L (m, ty))" "a \<in> nodes_of L" "nm_of (lists s) a = Some nm"
  then show ?thesis using acl_holds_iff[OF ok m] filter_data(1)[OF acl_okD(3)[OF ok]] by blast
qed (simp add: acl_unknown_def)

lemma example_states:
  obtains s2 s3 where "acl_reach dotted (\<lambda>_. None) s2" "acl_holds s2 AFI_IP ''10'' [permit_any, deny_host]"
    "acl_reach dotted (\<lambda>_. None) s3" "acl_unknown s3 AFI_IP ''10''" "nameless s3 AFI_IP ACCESS_TYPE_NUMBER [permit_any]"
    "\<forall>nm gs. \<not> acl_holds s3 AFI_IP nm gs"
proof -
  have ten: "number_loop 0 ''10'' = Inr (Some 10)" by code_simp
  then have no: "\<nexists>e. name_error acl_init AFI_IP ''10'' e" by (simp add: name_error_def init_names)
  obtain s1 old fs where s1: "acl_reach dotted (\<lambda>_. None) s1" "updated True filter_same_cisco permit_any old fs"
    "changed acl_init AFI_IP ''10'' old s1 fs True"
    by (rule example_step[OF acl_start no example_filters(1) example_exec(1), of True]) (auto simp: cmd_ok_def)
  have h1: "acl_holds s1 AFI_IP ''10'' [permit_any]" "\<forall>nm gs. nm \<noteq> ''10'' \<longrightarrow> \<not> acl_holds s1 AFI_IP nm gs"
    using s1(2,3) by (auto simp: changed_def updated_def init_names)
  obtain s2 old fs where s2: "acl_reach dotted (\<lambda>_. None) s2" "updated True filter_same_cisco deny_host old fs"
    "changed s1 AFI_IP ''10'' old s2 fs True"
    by (rule example_step[OF s1(1) _ example_filters(2) example_exec(2), of "''10''" True]) (use known_no_error[OF h1(1)] in \<open>auto simp: cmd_ok_def\<close>)
  have "old = [permit_any]"
    by (rule changed_old[OF s2(3) h1(1)])
  with s2(2,3) h1(2) have h2: "acl_holds s2 AFI_IP ''10'' [permit_any, deny_host]"
    "\<forall>nm gs. nm \<noteq> ''10'' \<longrightarrow> \<not> acl_holds s2 AFI_IP nm gs"
    by (auto simp: changed_def updated_def example_same)
  obtain s3 old fs where s3: "acl_reach dotted (\<lambda>_. None) s3" "updated False filter_same_cisco deny_host old fs"
    "changed s2 AFI_IP ''10'' old s3 fs (False \<or> List.find (\<lambda>x. filter_same_cisco x deny_host) old = None)"
    by (rule example_step[OF s2(1) _ example_filters(2) example_exec(2), of "''10''" False]) (use known_no_error[OF h2(1)] in \<open>auto simp: cmd_ok_def\<close>)
  have old: "old = [permit_any, deny_host]"
    by (rule changed_old[OF s3(3) h2(1)])
  then have "fs = [permit_any]" using s3(2) example_same by (auto simp: updated_def Cons_eq_append_conv)
  with s3 old h2(2) have "acl_unknown s3 AFI_IP ''10''" "nameless s3 AFI_IP (name_type ''10'') [permit_any]"
    "\<forall>nm gs. nm \<noteq> ''10'' \<longrightarrow> \<not> acl_holds s3 AFI_IP nm gs"
    by (auto simp: changed_def example_same)
  moreover from this(1) have "\<not> acl_holds s3 AFI_IP ''10'' gs" for gs by (simp add: acl_unknown_def acl_holds_def)
  ultimately show thesis using that s2(1) h2(1) s3(1) ten by (metis name_type_def Inr_inject option.distinct(1))
qed

text \<open>
  C12: In every state that the commands, hooks and resets can reach from the two empty masters,
  the access lists are consistent: the four lists of access lists and the filters of each access
  list are doubly linked lists whose nodes are exactly the allocated ones, no node is in two
  lists, an access list is in the list that its master and type name, the numbers are sorted,
  the other names are sorted by \<open>strcmp\<close>, no name occurs twice in a list, and every filter has
  stored the member of the union that its flag names, with the wildcard bits of addresses and
  masks cleared and a length that fits the family.
\<close>

theorem access_lists_consistent:
  assumes "addr_parsers inet_aton inet_pton" "acl_reach inet_aton inet_pton s"
  shows "consistent s"
  using reach_consistent[OF assms(2,1)] .

theorem access_lists_consistent_witness:
  "\<exists>s. acl_reach dotted (\<lambda>_. None) s \<and> acl_holds s AFI_IP ''10'' [permit_any, deny_host] \<and> consistent s"
  using example_states access_lists_consistent[OF dotted_parsers] by metis

text \<open>
  C13: From every reachable state, every command for IPv4 or IPv6 ends.  It fails no assertion and
  accesses nothing that is not allocated, except when the name is not known and either its
  digits overflow a \<open>long\<close>, or it is a number and an access list of a number has lost its name;
  then \<open>atol\<close> is called with a null pointer.
\<close>

theorem access_list_commands_end:
  assumes "addr_parsers inet_aton inet_pton" "acl_reach inet_aton inet_pton s" "length (u p0) = 16" "cmd_ok c"
  shows "(\<exists>r s'. acl_exec inet_aton inet_pton p0 c s = Some (Inr (r, s')) \<and> consistent s') \<or>
    (\<exists>e. acl_exec inet_aton inet_pton p0 c s = Some (Inl e) \<and> name_error s (cmd_afi c) (cmd_name c) e)"
  using exec_ends_well[OF reach_consistent[OF assms(2,1)] assms(1,3,4)] by (auto simp: ends_well_def)

theorem access_list_commands_end_witness:
  "\<exists>s. acl_reach dotted (\<lambda>_. None) s \<and> acl_holds s AFI_IP ''10'' [permit_any, deny_host] \<and>
     (\<exists>r s'. acl_exec dotted (\<lambda>_. None) prefix_new (Remark AFI_IP ''10'' ''x'') s = Some (Inr (r, s')) \<and> consistent s')"
proof -
  obtain s where s: "acl_reach dotted (\<lambda>_. None) s" "acl_holds s AFI_IP ''10'' [permit_any, deny_host]"
    using example_states by metis
  then show ?thesis
    using access_list_commands_end[OF dotted_parsers s(1), of prefix_new "Remark AFI_IP ''10'' ''x''"] known_no_error[OF s(2)]
    by (auto simp: cmd_ok_def prefix_new_def)
qed

text \<open>
  C14: Installing a filter under a name appends it to the filters of that name, unless an equal
  one is there already, and creates the access list when the name is new; removing a filter
  takes the first equal one out of the list.  The filters of all other names of both families
  stay as they are.  When a filter has been removed the name is not known any more, even when
  the access list still has filters.  Removing a filter that is not there creates an empty access
  list for an unknown name.  \<open>changed\<close> states what the names stand for before and after, and \<open>updated\<close>
  how the filters change.
\<close>

theorem filter_install_spec:
  assumes "addr_parsers inet_aton inet_pton" "acl_reach inet_aton inet_pton s" "m = AFI_IP \<or> m = AFI_IP6" "filter_ok new"
    and "(lookup, same) \<in> {(filter_lookup_cisco, filter_same_cisco), (filter_lookup_zebra, filter_same_zebra)}"
    and "\<nexists>e. name_error s m nm e"
  shows "\<exists>s' old fs. filter_install lookup m nm install new s = Some (Inr (CMD_SUCCESS, s')) \<and>
    updated install same new old fs \<and>
    changed s m nm old s' fs (install \<or> List.find (\<lambda>x. same x new) old = None)"
proof -
  have "search_ok lookup new same" using assms(5) search_cisco search_zebra[OF assms(4)] by auto
  from install_ok[OF reach_consistent[OF assms(2,1)] assms(3,4) this, of nm install] assms(6) show ?thesis by blast
qed

theorem filter_install_spec_witness:
  "\<exists>s s' old fs. acl_reach dotted (\<lambda>_. None) s \<and> acl_holds s AFI_IP ''10'' [permit_any, deny_host] \<and>
     filter_install filter_lookup_cisco AFI_IP ''10'' False deny_host s = Some (Inr (CMD_SUCCESS, s')) \<and>
     updated False filter_same_cisco deny_host old fs \<and>
     changed s AFI_IP ''10'' old s' fs (False \<or> List.find (\<lambda>x. filter_same_cisco x deny_host) old = None)"
proof -
  obtain s where s: "acl_reach dotted (\<lambda>_. None) s" "acl_holds s AFI_IP ''10'' [permit_any, deny_host]"
    using example_states by metis
  then show ?thesis
    using filter_install_spec[OF dotted_parsers s(1) _ example_filters(2),
        of AFI_IP filter_lookup_cisco filter_same_cisco "''10''" False] known_no_error[OF s(2)] by blast
qed

text \<open>
  C15: Applying the access list of a name to a prefix gives the type of the first filter that
  matches: one with wildcard bits when the other bits of the address, and of the netmask in an
  extended list, are equal, one with a prefix when the prefix is inside it, or equal with
  \<open>exact-match\<close>.  Without a match, and for a null pointer, the prefix is denied.
\<close>

theorem access_list_apply_first:
  assumes "addr_parsers inet_aton inet_pton" "acl_reach inet_aton inet_pton s"
    and "access_list_lookup m (Some nm) s = Some (Inr access)" "acl_holds s m nm fs"
    and "pwf p" "4 \<le> length (u p)" "\<forall>f\<in>set fs. cisco f \<longrightarrow> plen p \<le> 32"
  shows "access_list_apply access p s = Some (Inr (acl_verdict fs p)) \<and>
    access_list_apply None p s = Some (Inr FILTER_DENY)"
proof -
  obtain L F where ok: "acl_ok {} s L F" using reach_consistent[OF assms(2,1)] by (auto simp: consistent_def)
  have m: "m = AFI_IP \<or> m = AFI_IP6" using assms(4) unfolding acl_holds_nodes[OF ok] by blast
  from assms(4) obtain ty a where a: "a \<in> set (L (m, ty))" "nm_of (lists s) a = Some nm"
    "map (dat (filters s)) (F a) = map Some fs"
    unfolding acl_holds_iff[OF ok m] by blast
  have "access = Some a" using lookup_named[OF ok m a(1,2)] assms(3) by simp
  with apply_scan[OF ok nodes_of_memI[of a L, OF a(1)] a(3) assms(5-7)] show ?thesis by (simp add: access_list_apply_def)
qed

theorem access_list_apply_first_witness:
  "\<exists>s a. acl_reach dotted (\<lambda>_. None) s \<and> access_list_lookup AFI_IP (Some ''10'') s = Some (Inr a) \<and>
     access_list_apply a \<lparr>family = AF_INET, prefixlen = 8, u = 10 # replicate 15 0\<rparr> s = Some (Inr FILTER_PERMIT)"
proof -
  obtain s where s: "acl_reach dotted (\<lambda>_. None) s" "acl_holds s AFI_IP ''10'' [permit_any, deny_host]"
    using example_states by metis
  then obtain a where a: "access_list_lookup AFI_IP (Some ''10'') s = Some (Inr a)" by (auto simp: acl_holds_def)
  let ?p = "\<lparr>family = AF_INET, prefixlen = 8, u = 10 # replicate 15 0\<rparr>"
  have bits: "pbit [255, 255, 255, 255] i" if "i < 32" for i
  proof -
    have "i div 8 < 4" using that by auto
    then have "i div 8 \<in> {0, 1, 2, 3}" by auto
    then have "[255, 255, 255, 255] ! (i div 8) = (255 :: u8)" by auto
    moreover have "(255 :: u8) = - 1" by simp
    then have "bit (255 :: u8) (7 - i mod 8)" by (simp only: bit_minus_1_iff) simp
    ultimately show ?thesis by (simp add: pbit_def)
  qed
  then have "filter_matches permit_any ?p" by (simp add: filter_matches_def permit_any_def cisco_filter_def)
  then have "acl_verdict [permit_any, deny_host] ?p = FILTER_PERMIT"
    by (simp add: acl_verdict_def permit_any_def cisco_filter_def)
  then show ?thesis using access_list_apply_first[OF dotted_parsers s(1) a s(2), of ?p] s(1) a by (auto simp: pwf_def)
qed

text \<open>
  After a filter has been removed from a numbered access list that has others, the access
  list stays in the list without a name.  Every command that then has to create an access list
  with a number greater than the numbers in the list calls \<open>atol\<close> with a null pointer.
\<close>

theorem nameless_access_list_fault:
  assumes "addr_parsers inet_aton inet_pton" "acl_reach inet_aton inet_pton s" "m = AFI_IP \<or> m = AFI_IP6"
    and "nameless s m ACCESS_TYPE_NUMBER fs" "acl_unknown s m nm" "number_loop 0 nm = Inr (Some n)"
    and "\<forall>nm' gs. acl_holds s m nm' gs \<longrightarrow> name_type nm' = ACCESS_TYPE_NUMBER \<longrightarrow> strtol nm' < n"
  shows "access_list_get m nm s = Some (Inl Mem_fault)"
proof -
  obtain L F where ok: "acl_ok {} s L F" using reach_consistent[OF assms(2,1)] by (auto simp: consistent_def)
  note lok = acl_okD(1)[OF ok]
  let ?l = "L (m, ACCESS_TYPE_NUMBER)"
  from assms(4) obtain a where "live (lists s) a" "nm_of (lists s) a = None"
    "\<exists>al. dat (lists s) a = Some al \<and> al_master al = m \<and> al_type al = ACCESS_TYPE_NUMBER"
    by (auto simp: nameless_def nm_of_def)
  then have a: "a \<in> set ?l" "nm_of (lists s) a = None" using in_list_iff[OF lok] lists_okD(3)[OF lok] by auto
  have less: "strtol nm' < n" if "b \<in> set ?l" "nm_of (lists s) b = Some nm'" for b nm'
    using assms(7) acl_holds_iff[OF ok assms(3)] filter_data(1)[OF acl_okD(3)[OF ok] nodes_of_memI[of b L, OF that(1)]]
      name_type_list[OF ok that] that by metis
  have "\<not> insert_point s L m nm"
  proof
    assume "insert_point s L m nm"
    then obtain xs ys where l: "?l = xs @ ys" "\<forall>x\<in>set xs. nm_of (lists s) x \<noteq> None"
      "ys \<noteq> [] \<longrightarrow> (\<exists>k. nm_of (lists s) (hd ys) = Some k \<and> n \<le> strtol k)"
      using assms(6) by (auto simp: insert_point_def)
    with a have "ys \<noteq> []" by auto
    with l less[of "hd ys"] show False by fastforce
  qed
  moreover have "\<forall>ty. nm \<notin> set (named (lists s) (L (m, ty)))"
    using assms(5) acl_unknown_iff[OF ok assms(3)] by (auto simp: named_iff)
  ultimately obtain e where "access_list_insert m nm s = Some (Inl e)" "insert_error s L m nm e"
    using insert_ok[OF ok assms(3), of nm] by blast
  then show ?thesis using assms(5,6) by (auto simp: access_list_get_def acl_unknown_def insert_error_def)
qed

theorem nameless_access_list_fault_witness:
  "\<exists>s. acl_reach dotted (\<lambda>_. None) s \<and> access_list_get AFI_IP ''20'' s = Some (Inl Mem_fault)"
proof -
  obtain s where s: "acl_reach dotted (\<lambda>_. None) s" "nameless s AFI_IP ACCESS_TYPE_NUMBER [permit_any]"
    "\<forall>nm gs. \<not> acl_holds s AFI_IP nm gs"
    using example_states by metis
  obtain L F where ok: "acl_ok {} s L F" using reach_consistent[OF s(1) dotted_parsers] by (auto simp: consistent_def)
  have "acl_unknown s AFI_IP ''20''" using s(3) holds_or_unknown[OF ok, of AFI_IP "''20''"] by blast
  moreover have "number_loop 0 ''20'' = Inr (Some 20)" by code_simp
  ultimately show ?thesis using nameless_access_list_fault[OF dotted_parsers s(1) _ s(2)] s(1,3) by blast
qed

end
