(* ===== verification/Buffer.thy ===== *)
theory Buffer
  imports Prelude
begin

text \<open>
  Write buffers (lib/buffer.c, lib/buffer.h): bytes that wait to be written to a descriptor, in a
  singly linked list of chunks.  The chunks live in a store; a chunk that is not in the store
  has been released.  The operating system is the parameter \<open>os\<close>: what \<open>write\<close> and \<open>writev\<close>
  do with the bytes they are given.  The state \<open>io\<close> holds the state of the operating system, \<open>errno\<close>
  and the bytes that have been accepted for the descriptor.
\<close>

section \<open>Data\<close>

record buffer_data =
  bnext :: "nat option"
  cp :: nat
  sp :: nat
  cbytes :: "u8 list"

record buffer =
  bhead :: "nat option"
  btail :: "nat option"
  bsize :: nat

text \<open>The store of chunks; \<open>junk a\<close> is what an uninitialised chunk at \<open>a\<close> contains.\<close>

record bstore =
  chunks :: "nat \<Rightarrow> buffer_data option"
  cbrk :: nat
  junk :: "nat \<Rightarrow> nat \<Rightarrow> u8"

datatype buffer_status = BUFFER_ERROR | BUFFER_EMPTY | BUFFER_PENDING

datatype errno = EAGAIN | EWOULDBLOCK | EINTR | E_other

record 'k io =
  kern :: 'k
  err :: errno
  sent :: "u8 list"

type_synonym 'k os = "'k \<Rightarrow> u8 list \<Rightarrow> (errno + nat) \<times> 'k"

definition ERRNO_IO_RETRY :: "errno \<Rightarrow> bool" where
  "ERRNO_IO_RETRY e \<longleftrightarrow> e = EAGAIN \<or> e = EWOULDBLOCK \<or> e = EINTR"

definition BUFFER_SIZE_DEFAULT :: nat where "BUFFER_SIZE_DEFAULT = 4096"
definition IOV_MAX :: nat where "IOV_MAX = 1024"
definition MAX_CHUNKS :: nat where "MAX_CHUNKS = (if IOV_MAX \<ge> 16 then 16 else IOV_MAX)"
definition MAX_FLUSH :: nat where "MAX_FLUSH = 131072"

definition get_chunk :: "bstore \<Rightarrow> nat \<Rightarrow> buffer_data res" where
  "get_chunk st a = (case chunks st a of None \<Rightarrow> Inl Mem_fault | Some d \<Rightarrow> Inr d)"

definition put_chunk :: "nat \<Rightarrow> buffer_data \<Rightarrow> bstore \<Rightarrow> bstore" where
  "put_chunk a d st = st\<lparr>chunks := (chunks st)(a := Some d)\<rparr>"

definition free_chunk :: "nat \<Rightarrow> bstore \<Rightarrow> bstore" where
  "free_chunk a st = st\<lparr>chunks := (chunks st)(a := None)\<rparr>"

text \<open>A call of \<open>write\<close> or \<open>writev\<close> with the bytes of its vector.\<close>

definition sys_write :: "'k os \<Rightarrow> u8 list \<Rightarrow> 'k io \<Rightarrow> (errno + nat) \<times> 'k io" where
  "sys_write os bs io =
     (case os (kern io) bs of
        (Inl e, k) \<Rightarrow> (Inl e, io\<lparr>kern := k, err := e\<rparr>)
      | (Inr n, k) \<Rightarrow> (Inr n, io\<lparr>kern := k, sent := sent io @ take n bs\<rparr>))"

section \<open>Filling\<close>

text \<open>\<open>pgsz\<close> is \<open>sysconf (_SC_PAGESIZE)\<close>.\<close>

definition buffer_new :: "nat \<Rightarrow> nat \<Rightarrow> buffer" where
  "buffer_new pgsz sz =
     \<lparr>bhead = None, btail = None,
      bsize = (if sz \<noteq> 0 then sz else ((BUFFER_SIZE_DEFAULT - 1) div pgsz + 1) * pgsz)\<rparr>"

definition buffer_empty :: "buffer \<Rightarrow> bool" where
  "buffer_empty b \<longleftrightarrow> bhead b = None"

definition buffer_add :: "buffer \<Rightarrow> bstore \<Rightarrow> (nat \<times> buffer \<times> bstore) res" where
  "buffer_add b st =
     (let a = cbrk st;
          st = put_chunk a \<lparr>bnext = None, cp = 0, sp = 0, cbytes = map (junk st a) [0..<bsize b]\<rparr> (st\<lparr>cbrk := a + 1\<rparr>) in
      bindR (case btail b of
               Some t \<Rightarrow> bindR (get_chunk st t) (\<lambda>d. Inr (b, put_chunk t (d\<lparr>bnext := Some a\<rparr>) st))
             | None \<Rightarrow> Inr (b\<lparr>bhead := Some a\<rparr>, st)) (\<lambda>(b, st).
      Inr (a, b\<lparr>btail := Some a\<rparr>, st)))"

text \<open>The chunk that the next bytes go to.\<close>

definition put_target :: "buffer \<Rightarrow> nat option \<Rightarrow> bstore \<Rightarrow> (nat \<times> buffer \<times> bstore) res" where
  "put_target b data st =
     (case data of
        None \<Rightarrow> buffer_add b st
      | Some a \<Rightarrow> bindR (get_chunk st a) (\<lambda>d. if cp d = bsize b then buffer_add b st else Inr (a, b, st)))"

text \<open>One round of the loop of \<open>buffer_put\<close>: the chunk written to and the bytes that are left.\<close>

definition put_once ::
  "buffer \<Rightarrow> nat option \<Rightarrow> u8 list \<Rightarrow> bstore \<Rightarrow> (nat \<times> buffer \<times> u8 list \<times> bstore) res" where
  "put_once b data p st =
     bindR (put_target b data st) (\<lambda>(a, b, st).
     bindR (get_chunk st a) (\<lambda>d.
     let room = szsub (bsize b) (cp d);
         chunk = (if length p \<le> room then length p else room) in
     bindR (mem_write (cbytes d) (cp d) (take chunk p)) (\<lambda>bs.
     Inr (a, b, drop chunk p, put_chunk a (d\<lparr>cbytes := bs, cp := szadd (cp d) chunk\<rparr>) st))))"

partial_function (option) put_loop ::
  "buffer \<Rightarrow> nat option \<Rightarrow> u8 list \<Rightarrow> bstore \<Rightarrow> (buffer \<times> bstore) res option" where
  "put_loop b data p st =
     (if p = [] then Some (Inr (b, st))
      else
        (case put_once b data p st of
           Inl e \<Rightarrow> Some (Inl e)
         | Inr (a, b, p, st) \<Rightarrow> put_loop b (Some a) p st))"

definition buffer_put :: "buffer \<Rightarrow> u8 list \<Rightarrow> bstore \<Rightarrow> (buffer \<times> bstore) res option" where
  "buffer_put b p st = put_loop b (btail b) p st"

definition buffer_putc :: "buffer \<Rightarrow> u8 \<Rightarrow> bstore \<Rightarrow> (buffer \<times> bstore) res option" where
  "buffer_putc b c st = buffer_put b [c] st"

definition buffer_putstr :: "buffer \<Rightarrow> u8 list \<Rightarrow> bstore \<Rightarrow> (buffer \<times> bstore) res option" where
  "buffer_putstr b c st = buffer_put b (takeWhile (\<lambda>x. x \<noteq> 0) c) st"

text \<open>The bytes of a chunk that have not been flushed.\<close>

definition unflushed :: "buffer_data \<Rightarrow> u8 list res" where
  "unflushed d = mem_read (cbytes d) (sp d) (szsub (cp d) (sp d))"

partial_function (option) length_loop :: "bstore \<Rightarrow> nat option \<Rightarrow> nat \<Rightarrow> nat res option" where
  "length_loop st data totlen =
     (case data of
        None \<Rightarrow> Some (Inr totlen)
      | Some a \<Rightarrow>
         (case get_chunk st a of
            Inl e \<Rightarrow> Some (Inl e)
          | Inr d \<Rightarrow> length_loop st (bnext d) (szadd totlen (szsub (cp d) (sp d)))))"

partial_function (option) copy_loop :: "bstore \<Rightarrow> nat option \<Rightarrow> u8 list \<Rightarrow> nat \<Rightarrow> (u8 list \<times> nat) res option" where
  "copy_loop st data s p =
     (case data of
        None \<Rightarrow> Some (Inr (s, p))
      | Some a \<Rightarrow>
         (case bindR (get_chunk st a) (\<lambda>d. bindR (unflushed d) (\<lambda>bs. bindR (mem_write s p bs) (\<lambda>s. Inr (bnext d, s, p + length bs)))) of
            Inl e \<Rightarrow> Some (Inl e)
          | Inr (data, s, p) \<Rightarrow> copy_loop st data s p))"

text \<open>\<open>fill\<close> is the content of the fresh string before the bytes are copied.\<close>

definition buffer_getstr :: "(nat \<Rightarrow> u8) \<Rightarrow> buffer \<Rightarrow> bstore \<Rightarrow> u8 list res option" where
  "buffer_getstr fill b st =
     (case length_loop st (bhead b) 0 of
        None \<Rightarrow> None
      | Some (Inl e) \<Rightarrow> Some (Inl e)
      | Some (Inr totlen) \<Rightarrow>
          map_option (\<lambda>m. bindR m (\<lambda>(s, p). mem_set s p 0))
            (copy_loop st (bhead b) (map fill [0..<szadd totlen 1]) 0))"

partial_function (option) reset_loop :: "nat option \<Rightarrow> bstore \<Rightarrow> bstore res option" where
  "reset_loop data st =
     (case data of
        None \<Rightarrow> Some (Inr st)
      | Some a \<Rightarrow>
         (case get_chunk st a of
            Inl e \<Rightarrow> Some (Inl e)
          | Inr d \<Rightarrow> reset_loop (bnext d) (free_chunk a st)))"

definition buffer_reset :: "buffer \<Rightarrow> bstore \<Rightarrow> (buffer \<times> bstore) res option" where
  "buffer_reset b st =
     map_option (\<lambda>m. bindR m (\<lambda>st. Inr (b\<lparr>bhead := None, btail := None\<rparr>, st))) (reset_loop (bhead b) st)"

section \<open>Flushing\<close>

text \<open>The loop that collects the vector of at most \<open>MAX_CHUNKS\<close> chunks; \<open>n\<close> is what is left of them.\<close>

fun gather :: "bstore \<Rightarrow> nat option \<Rightarrow> nat \<Rightarrow> u8 list list \<Rightarrow> nat \<Rightarrow> (u8 list list \<times> nat) res" where
  "gather st d 0 iov nbyte = Inr (iov, nbyte)"
| "gather st d (Suc n) iov nbyte =
     (case d of
        None \<Rightarrow> Inr (iov, nbyte)
      | Some a \<Rightarrow>
          if nbyte < MAX_FLUSH
          then bindR (get_chunk st a) (\<lambda>d. bindR (unflushed d) (\<lambda>bs.
                 gather st (bnext d) n (iov @ [bs]) (szadd nbyte (szsub (cp d) (sp d)))))
          else Inr (iov, nbyte))"

partial_function (option) written_loop ::
  "nat \<Rightarrow> buffer \<Rightarrow> bstore \<Rightarrow> (buffer_status \<times> buffer \<times> bstore) res option" where
  "written_loop written b st =
     (if written > 0 then
        (case bhead b of
           None \<Rightarrow> Some (Inr (BUFFER_EMPTY, b, st))
         | Some a \<Rightarrow>
            (case get_chunk st a of
               Inl e \<Rightarrow> Some (Inl e)
             | Inr d \<Rightarrow>
                 let n = szsub (cp d) (sp d) in
                 if written < n
                 then Some (Inr (BUFFER_PENDING, b, put_chunk a (d\<lparr>sp := szadd (sp d) written\<rparr>) st))
                 else written_loop (szsub written n)
                        (b\<lparr>bhead := bnext d, btail := (if bnext d = None then None else btail b)\<rparr>)
                        (free_chunk a st)))
      else Some (Inr (if bhead b \<noteq> None then BUFFER_PENDING else BUFFER_EMPTY, b, st)))"

definition buffer_flush_available ::
  "'k os \<Rightarrow> buffer \<Rightarrow> bstore \<Rightarrow> 'k io \<Rightarrow> (buffer_status \<times> buffer \<times> bstore \<times> 'k io) res option" where
  "buffer_flush_available os b st io =
     (case gather st (bhead b) MAX_CHUNKS [] 0 of
        Inl e \<Rightarrow> Some (Inl e)
      | Inr (iov, nbyte) \<Rightarrow>
          if nbyte = 0 then Some (Inr (BUFFER_EMPTY, b, st, io))
          else
            (case sys_write os (concat iov) io of
               (Inl e, io) \<Rightarrow> Some (Inr (if ERRNO_IO_RETRY e then BUFFER_PENDING else BUFFER_ERROR, b, st, io))
             | (Inr written, io) \<Rightarrow>
                 map_option (\<lambda>m. bindR m (\<lambda>(s, b, st). Inr (s, b, st, io))) (written_loop written b st)))"

partial_function (option) flush_all_loop ::
  "'k os \<Rightarrow> nat \<Rightarrow> nat \<Rightarrow> buffer \<Rightarrow> bstore \<Rightarrow> 'k io \<Rightarrow> (buffer_status \<times> buffer \<times> bstore \<times> 'k io) res option" where
  "flush_all_loop os head head_sp b st io =
     (case buffer_flush_available os b st io of
        None \<Rightarrow> None
      | Some (Inl e) \<Rightarrow> Some (Inl e)
      | Some (Inr (ret, b, st, io)) \<Rightarrow>
          if ret \<noteq> BUFFER_PENDING then Some (Inr (ret, b, st, io))
          else
            (case bhead b of
               None \<Rightarrow> Some (Inl Mem_fault)
             | Some a \<Rightarrow>
                (case get_chunk st a of
                   Inl e \<Rightarrow> Some (Inl e)
                 | Inr d \<Rightarrow>
                     if a = head \<and> head_sp = sp d \<and> err io \<noteq> EINTR then Some (Inr (ret, b, st, io))
                     else flush_all_loop os a (sp d) b st io)))"

definition buffer_flush_all ::
  "'k os \<Rightarrow> buffer \<Rightarrow> bstore \<Rightarrow> 'k io \<Rightarrow> (buffer_status \<times> buffer \<times> bstore \<times> 'k io) res option" where
  "buffer_flush_all os b st io =
     (case bhead b of
        None \<Rightarrow> Some (Inr (BUFFER_EMPTY, b, st, io))
      | Some a \<Rightarrow>
         (case get_chunk st a of
            Inl e \<Rightarrow> Some (Inl e)
          | Inr d \<Rightarrow> flush_all_loop os a (sp d) b st io))"

definition buffer_write ::
  "'k os \<Rightarrow> buffer \<Rightarrow> u8 list \<Rightarrow> bstore \<Rightarrow> 'k io \<Rightarrow> (buffer_status \<times> buffer \<times> bstore \<times> 'k io) res option" where
  "buffer_write os b p st io =
     (case (if bhead b \<noteq> None then (Inr 0, io) else sys_write os p io) of
        (r, io) \<Rightarrow>
         (case (case r of Inr n \<Rightarrow> Some n | Inl e \<Rightarrow> if ERRNO_IO_RETRY e then Some 0 else None) of
            None \<Rightarrow> Some (Inr (BUFFER_ERROR, b, st, io))
          | Some written \<Rightarrow>
              map_option (\<lambda>m. bindR m (\<lambda>(b, st).
                  Inr (if bhead b \<noteq> None then BUFFER_PENDING else BUFFER_EMPTY, b, st, io)))
                (if written < length p then buffer_put b (drop written p) st else Some (Inr (b, st)))))"

section \<open>Flushing a terminal window\<close>

definition more_str :: "u8 list" where
  "more_str = [32, 45, 45, 77, 111, 114, 101, 45, 45, 32, 0]"

definition erase_str :: "u8 list" where
  "erase_str = replicate 10 8 @ replicate 10 32 @ replicate 10 8"

text \<open>
  The loop along the bytes of a chunk that counts lines and columns: the position behind the last
  byte displayed, the column and the number of lines left.
\<close>

function scan_chunk :: "u8 list \<Rightarrow> nat \<Rightarrow> int \<Rightarrow> nat \<Rightarrow> int \<Rightarrow> int \<Rightarrow> (nat \<times> int \<times> int) res" where
  "scan_chunk d dcp width c column height =
     (if c < dcp \<and> height > 0 then
        bindR (mem_get d c) (\<lambda>x.
          if x = 13 then scan_chunk d dcp width (c + 1) 1 height
          else if x = 10 \<or> column = width then scan_chunk d dcp width (c + 1) 1 (height - 1)
          else scan_chunk d dcp width (c + 1) (column + 1) height)
      else Inr (c, column, height))"
  by pat_completeness auto
termination
  by (relation "measure (\<lambda>(d, dcp, width, c, column, height). dcp - c)") auto

declare scan_chunk.simps [simp del]

text \<open>An entry is stored in the vector, which is doubled when it is full.\<close>

definition iov_push :: "u8 list list \<Rightarrow> int \<Rightarrow> u8 list \<Rightarrow> (u8 list list \<times> int) res" where
  "iov_push iov iov_alloc bs =
     (if int (length iov) < iov_alloc then
        if int (length iov) + 1 = iov_alloc then bindR (int_mul iov_alloc 2) (\<lambda>n. Inr (iov @ [bs], n))
        else Inr (iov @ [bs], iov_alloc)
      else Inl Mem_fault)"

definition iov_last :: "u8 list list \<Rightarrow> int \<Rightarrow> u8 list \<Rightarrow> u8 list list res" where
  "iov_last iov iov_alloc bs =
     (if int (length iov) < iov_alloc then Inr (iov @ [bs]) else Inl Mem_fault)"

partial_function (option) window_loop ::
  "int \<Rightarrow> nat option \<Rightarrow> int \<Rightarrow> int \<Rightarrow> u8 list list \<Rightarrow> int \<Rightarrow> bstore \<Rightarrow> (u8 list list \<times> int \<times> bstore) res option" where
  "window_loop width data column height iov iov_alloc st =
     (case data of
        None \<Rightarrow> Some (Inr (iov, iov_alloc, st))
      | Some a \<Rightarrow>
          if height > 0 then
            (case bindR (get_chunk st a) (\<lambda>d.
                  bindR (scan_chunk (cbytes d) (cp d) width (sp d) column height) (\<lambda>(c, column, height).
                  bindR (mem_read (cbytes d) (sp d) (szsub c (sp d))) (\<lambda>bs.
                  bindR (iov_push iov iov_alloc bs) (\<lambda>(iov, iov_alloc).
                  Inr (bnext d, column, height, iov, iov_alloc, put_chunk a (d\<lparr>sp := c\<rparr>) st))))) of
               Inl e \<Rightarrow> Some (Inl e)
             | Inr (data, column, height, iov, iov_alloc, st) \<Rightarrow> window_loop width data column height iov iov_alloc st)
          else Some (Inr (iov, iov_alloc, st)))"

function writev_loop :: "'k os \<Rightarrow> u8 list list \<Rightarrow> 'k io \<Rightarrow> bool \<times> 'k io" where
  "writev_loop os iov io =
     (if iov = [] then (True, io)
      else case sys_write os (concat (take IOV_MAX iov)) io of
             (Inl e, io) \<Rightarrow> (False, io)
           | (Inr n, io) \<Rightarrow> writev_loop os (drop IOV_MAX iov) io)"
  by pat_completeness auto
termination
  by (relation "measure (\<lambda>(os, iov, io). length iov)") (auto simp: IOV_MAX_def)

declare writev_loop.simps [simp del]

partial_function (option) free_printed :: "buffer \<Rightarrow> bstore \<Rightarrow> (buffer \<times> bstore) res option" where
  "free_printed b st =
     (case bhead b of
        None \<Rightarrow> Some (Inr (b, st))
      | Some a \<Rightarrow>
         (case get_chunk st a of
            Inl e \<Rightarrow> Some (Inl e)
          | Inr d \<Rightarrow>
              if sp d = cp d
              then free_printed (b\<lparr>bhead := bnext d, btail := (if bnext d = None then None else btail b)\<rparr>) (free_chunk a st)
              else Some (Inr (b, st))))"

text \<open>The number of entries the vector is allocated with.\<close>

definition window_alloc :: "buffer \<Rightarrow> buffer_data \<Rightarrow> int \<Rightarrow> int \<Rightarrow> int res" where
  "window_alloc b d width height =
     (if bnext d = None then Inr 3
      else bindR (int_add width 2) (\<lambda>w.
           bindR (int_mul height w) (\<lambda>n.
           Inr (sint (word_of_int (n div int (bsize b) + 10) :: 32 word)))))"

text \<open>The part up to the output: the vector, without and with the word \<open>more\<close>.\<close>

definition window_fill ::
  "buffer \<Rightarrow> bstore \<Rightarrow> int \<Rightarrow> int \<Rightarrow> bool \<Rightarrow> bool \<Rightarrow> (u8 list list \<times> bstore) res option" where
  "window_fill b st width height erase_flag no_more_flag =
     (case bindR (case bhead b of None \<Rightarrow> Inl Mem_fault | Some a \<Rightarrow> get_chunk st a) (\<lambda>d.
           bindR (window_alloc b d width height) (\<lambda>n.
           if erase_flag then bindR (iov_last [] n erase_str) (\<lambda>iov. Inr (iov, n)) else Inr ([], n))) of
        Inl e \<Rightarrow> Some (Inl e)
      | Inr (iov, n) \<Rightarrow>
          map_option (\<lambda>m. bindR m (\<lambda>(iov, n, st).
              bindR (case btail b of
                       None \<Rightarrow> Inr False
                     | Some t \<Rightarrow> bindR (get_chunk st t) (\<lambda>d. Inr (sp d < cp d \<and> \<not> no_more_flag))) (\<lambda>show.
              bindR (if show then iov_last iov n more_str else Inr iov) (\<lambda>iov. Inr (iov, st)))))
            (window_loop width (bhead b) 1 height iov n st))"

definition buffer_flush_window ::
  "'k os \<Rightarrow> buffer \<Rightarrow> int \<Rightarrow> int \<Rightarrow> bool \<Rightarrow> bool \<Rightarrow> bstore \<Rightarrow> 'k io \<Rightarrow>
   (buffer_status \<times> buffer \<times> bstore \<times> 'k io) res option" where
  "buffer_flush_window os b width height erase_flag no_more_flag st io =
     (if bhead b = None then Some (Inr (BUFFER_EMPTY, b, st, io))
      else
        let height = (if height < 1 then 1 else if height \<ge> 2 then height - 1 else height);
            width = (if width < 1 then 1 else width) in
        (case window_fill b st width height erase_flag no_more_flag of
           None \<Rightarrow> None
         | Some (Inl e) \<Rightarrow> Some (Inl e)
         | Some (Inr (iov, st)) \<Rightarrow>
             (case writev_loop os iov io of
                (ok, io) \<Rightarrow>
                  map_option (\<lambda>m. bindR m (\<lambda>(b, st).
                      Inr (if \<not> ok then BUFFER_ERROR else if bhead b \<noteq> None then BUFFER_PENDING else BUFFER_EMPTY,
                           b, st, io))) (free_printed b st))))"

section \<open>The contents of a buffer\<close>

text \<open>The chunks that are linked from a pointer.\<close>

fun bchain :: "(nat \<Rightarrow> buffer_data option) \<Rightarrow> nat option \<Rightarrow> nat list \<Rightarrow> bool" where
  "bchain H p [] \<longleftrightarrow> p = None"
| "bchain H p (x # xs) \<longleftrightarrow> p = Some x \<and> (\<exists>d. H x = Some d \<and> bchain H (bnext d) xs)"

definition content :: "buffer_data \<Rightarrow> u8 list" where
  "content d = take (cp d - sp d) (drop (sp d) (cbytes d))"

definition contents :: "(nat \<Rightarrow> buffer_data option) \<Rightarrow> nat list \<Rightarrow> u8 list" where
  "contents H xs = concat (map (\<lambda>x. content (the (H x))) xs)"

definition chunk_ok :: "nat \<Rightarrow> buffer_data \<Rightarrow> bool" where
  "chunk_ok n d \<longleftrightarrow> sp d < cp d \<and> cp d \<le> n \<and> length (cbytes d) = n"

definition bwf :: "buffer \<Rightarrow> bstore \<Rightarrow> nat list \<Rightarrow> bool" where
  "bwf b st xs \<longleftrightarrow> bchain (chunks st) (bhead b) xs \<and> distinct xs \<and>
     btail b = (if xs = [] then None else Some (last xs)) \<and>
     (\<forall>x\<in>set xs. chunk_ok (bsize b) (the (chunks st x))) \<and> (\<forall>a\<ge>cbrk st. chunks st a = None) \<and>
     0 < bsize b \<and> bsize b < 2 ^ 63"

text \<open>What waits in a buffer.\<close>

definition holds :: "buffer \<Rightarrow> bstore \<Rightarrow> u8 list \<Rightarrow> bool" where
  "holds b st bs \<longleftrightarrow> (\<exists>xs. bwf b st xs \<and> contents (chunks st) xs = bs)"

lemma contents_simps [simp]:
  "contents H [] = []" "contents H (x # xs) = content (the (H x)) @ contents H xs"
  "contents H (xs @ ys) = contents H xs @ contents H ys"
  by (simp_all add: contents_def)

lemma contents_fresh [simp]: "a \<notin> set xs \<Longrightarrow> contents (H(a := v)) xs = contents H xs"
  by (induction xs) auto

lemma bchain_fresh [simp]: "a \<notin> set xs \<Longrightarrow> bchain (H(a := v)) p xs = bchain H p xs"
  by (induction xs arbitrary: p) auto

lemma bchain_same: "H x = Some d \<Longrightarrow> bnext d' = bnext d \<Longrightarrow> bchain (H(x := Some d')) p xs = bchain H p xs"
  by (induction xs arbitrary: p) auto

lemma bchain_live: "bchain H p xs \<Longrightarrow> x \<in> set xs \<Longrightarrow> \<exists>d. H x = Some d"
  by (induction xs arbitrary: p) auto

lemma bchain_snoc:
  assumes "bchain H p (xs @ [t])" "distinct (xs @ [t])" "H t = Some d" "a \<notin> set (xs @ [t])" "bnext e = None"
  shows "bchain (H(t := Some (d\<lparr>bnext := Some a\<rparr>), a := Some e)) p (xs @ [t, a])"
  using assms by (induction xs arbitrary: p) auto

lemma content_ok: "chunk_ok n d \<Longrightarrow> n < 2 ^ 64 \<Longrightarrow> unflushed d = Inr (content d) \<and> length (content d) = cp d - sp d"
  by (auto simp: chunk_ok_def unflushed_def content_def size_arith mem_simps)

lemma bwfD:
  assumes "bwf b st xs" "x \<in> set xs"
  obtains d where "chunks st x = Some d" "get_chunk st x = Inr d" "chunk_ok (bsize b) d" "content d \<noteq> []"
proof -
  obtain d where d: "chunks st x = Some d" using assms bchain_live by (force simp: bwf_def)
  with assms have ok: "chunk_ok (bsize b) d" by (force simp: bwf_def)
  then have "content d \<noteq> []" by (auto simp: chunk_ok_def content_def)
  with d ok that show thesis by (simp add: get_chunk_def)
qed

lemma bwf_fresh: "bwf b st xs \<Longrightarrow> cbrk st \<notin> set xs"
  by (metis bwf_def bchain_live option.distinct(1) order_refl)

lemma holds_new:
  "0 < pgsz \<Longrightarrow> sz < 2 ^ 63 \<Longrightarrow> pgsz < 2 ^ 32 \<Longrightarrow> \<forall>a\<ge>cbrk st. chunks st a = None \<Longrightarrow> holds (buffer_new pgsz sz) st []"
proof -
  assume *: "0 < pgsz" "pgsz < 2 ^ 32" "sz < 2 ^ 63" "\<forall>a\<ge>cbrk st. chunks st a = None"
  define q where "q = 4095 div pgsz * pgsz"
  have "q \<le> 4095" by (simp add: q_def)
  then have "pgsz + 4095 div pgsz * pgsz < 2 ^ 63" using *(2) by (simp flip: q_def)
  with * show "holds (buffer_new pgsz sz) st []"
    by (auto simp: holds_def bwf_def buffer_new_def BUFFER_SIZE_DEFAULT_def intro!: exI[of _ "[]"])
qed

section \<open>Filling a buffer\<close>

definition filled :: "nat \<Rightarrow> u8 list \<Rightarrow> buffer_data \<Rightarrow> buffer_data" where
  "filled k p d = d\<lparr>cbytes := take (cp d) (cbytes d) @ take k p @ drop (cp d + k) (cbytes d), cp := cp d + k\<rparr>"

lemma filled_ok:
  assumes "sp d \<le> cp d" "cp d + k \<le> n" "length (cbytes d) = n" "0 < k" "k \<le> length p"
  shows "content (filled k p d) = content d @ take k p" "chunk_ok n (filled k p d)" "bnext (filled k p d) = bnext d"
  using assms by (auto simp: content_def filled_def drop_take chunk_ok_def)

lemma put_once_ok:
  assumes "put_target b data st = Inr (a, b', st')" "chunks st' a = Some d" "cp d < bsize b'" "bsize b' < 2 ^ 64"
    "length (cbytes d) = bsize b'" "k = min (length p) (bsize b' - cp d)"
  shows "put_once b data p st = Inr (a, b', drop k p, put_chunk a (filled k p d) st')"
proof -
  have "szsub (bsize b') (cp d) = bsize b' - cp d" using assms(3,4) by (simp add: size_arith)
  then have k: "(if length p \<le> szsub (bsize b') (cp d) then length p else szsub (bsize b') (cp d)) = k"
    using assms(6) by auto
  have "szadd (cp d) k = cp d + k" "mem_write (cbytes d) (cp d) (take k p) = Inr (cbytes (filled k p d))"
    using assms(3-6) by (auto simp: size_arith mem_simps filled_def)
  then show ?thesis using assms(1,2) k by (simp add: put_once_def get_chunk_def Let_def filled_def split del: if_split)
qed

text \<open>Bytes go behind the bytes of the last chunk, or into a new chunk behind it.\<close>

lemma put_step:
  assumes wf: "bwf b st xs" and p: "p \<noteq> []"
  obtains a b' k st' xs' where "put_once b (btail b) p st = Inr (a, b', drop k p, st')" "0 < k" "k \<le> length p"
    "bwf b' st' xs'" "btail b' = Some a" "contents (chunks st') xs' = contents (chunks st) xs @ take k p"
proof -
  have n: "0 < bsize b" "bsize b < 2 ^ 64" using wf by (auto simp: bwf_def)
  show ?thesis
  proof (cases "\<exists>ys t d. xs = ys @ [t] \<and> chunks st t = Some d \<and> cp d < bsize b")
    case True
    then obtain ys t d where t: "xs = ys @ [t]" "chunks st t = Some d" "cp d < bsize b" by blast
    from t wf have ok: "chunk_ok (bsize b) d" by (auto simp: bwf_def)
    define k where "k = min (length p) (bsize b - cp d)"
    have tgt: "put_target b (btail b) st = Inr (t, b, st)"
      using wf t by (simp add: put_target_def bwf_def get_chunk_def)
    note once = put_once_ok[OF tgt t(2,3) n(2) _ k_def]
    have k: "0 < k" "k \<le> length p" "cp d + k \<le> bsize b" using p t(3) by (auto simp: k_def)
    note f = filled_ok[of d k "bsize b" p]
    have "bwf b (put_chunk t (filled k p d) st) xs"
      using wf t ok f k by (auto simp: bwf_def put_chunk_def bchain_same chunk_ok_def)
    moreover have "contents (chunks (put_chunk t (filled k p d) st)) xs = contents (chunks st) xs @ take k p"
      using wf t ok f(1) k by (auto simp: bwf_def put_chunk_def chunk_ok_def)
    moreover have "put_once b (btail b) p st = Inr (t, b, drop k p, put_chunk t (filled k p d) st)"
      using once ok by (simp add: chunk_ok_def)
    moreover have "btail b = Some t" using wf t by (simp add: bwf_def)
    ultimately show thesis using that k(1,2) by blast
  next
    case False
    define k where "k = min (length p) (bsize b - 0)"
    let ?a = "cbrk st"
    let ?e = "\<lparr>bnext = None, cp = 0, sp = 0, cbytes = map (junk st (cbrk st)) [0..<bsize b]\<rparr>"
    have k: "0 < k" "k \<le> length p" "k \<le> bsize b" using p n by (auto simp: k_def)
    note f = filled_ok[of ?e k "bsize b" p]
    note fresh = bwf_fresh[OF wf]
    show thesis
    proof (cases xs rule: rev_cases)
      case Nil
      let ?b = "b\<lparr>bhead := Some ?a, btail := Some ?a\<rparr>" and ?st = "put_chunk ?a ?e (st\<lparr>cbrk := ?a + 1\<rparr>)"
      have "put_target b (btail b) st = Inr (?a, ?b, ?st)"
        using Nil wf by (simp add: put_target_def bwf_def buffer_add_def Let_def)
      then have once: "put_once b (btail b) p st = Inr (?a, ?b, drop k p, put_chunk ?a (filled k p ?e) ?st)"
        using n by (intro put_once_ok) (auto simp: put_chunk_def k_def)
      have "bwf ?b (put_chunk ?a (filled k p ?e) ?st) [?a]"
        using wf Nil f k by (auto simp: bwf_def put_chunk_def)
      with once show thesis using that k f(1) Nil by (auto simp: put_chunk_def content_def)
    next
      case (snoc ys t)
      then have "t \<in> set xs" by simp
      with wf obtain dt where dt: "chunks st t = Some dt" "chunk_ok (bsize b) dt" by (rule bwfD)
      then have full: "cp dt = bsize b" using False snoc by (force simp: chunk_ok_def)
      let ?b = "b\<lparr>btail := Some ?a\<rparr>"
      let ?st = "put_chunk t (dt\<lparr>bnext := Some ?a\<rparr>) (put_chunk ?a ?e (st\<lparr>cbrk := ?a + 1\<rparr>))"
      have ta: "t \<noteq> ?a" using fresh snoc by auto
      have "put_target b (btail b) st = Inr (?a, ?b, ?st)"
        using snoc wf dt full ta by (simp add: put_target_def bwf_def buffer_add_def get_chunk_def put_chunk_def Let_def)
      then have once: "put_once b (btail b) p st = Inr (?a, ?b, drop k p, put_chunk ?a (filled k p ?e) ?st)"
        using n ta by (intro put_once_ok) (auto simp: put_chunk_def k_def)
      have "bwf ?b (put_chunk ?a (filled k p ?e) ?st) (xs @ [?a])"
        using wf snoc dt f k fresh bchain_snoc[of "chunks st" "bhead b" ys t dt ?a "filled k p ?e"]
        by (auto simp: bwf_def put_chunk_def chunk_ok_def)
      moreover have "contents (chunks (put_chunk ?a (filled k p ?e) ?st)) (xs @ [?a]) = contents (chunks st) xs @ take k p"
        using fresh snoc dt f(1) k wf by (auto simp: put_chunk_def bwf_def content_def)
      ultimately show thesis using once that k by auto
    qed
  qed
qed

lemma buffer_put_holds:
  assumes "holds b st bs"
  shows "\<exists>b' st'. buffer_put b p st = Some (Inr (b', st')) \<and> holds b' st' (bs @ p)"
proof -
  have "\<exists>b' st' xs'. put_loop b (btail b) p st = Some (Inr (b', st')) \<and> bwf b' st' xs' \<and>
      contents (chunks st') xs' = contents (chunks st) xs @ p" if "bwf b st xs" for b st xs
    using that
  proof (induction p arbitrary: b st xs rule: length_induct)
    case (1 p)
    show ?case
    proof (cases "p = []")
      case True
      with 1 show ?thesis by (auto simp: put_loop.simps)
    next
      case False
      obtain a b1 k st1 xs1 where
        step: "put_once b (btail b) p st = Inr (a, b1, drop k p, st1)" and
        k: "0 < k" "k \<le> length p" "bwf b1 st1 xs1" "btail b1 = Some a"
        "contents (chunks st1) xs1 = contents (chunks st) xs @ take k p" by (rule put_step[OF "1.prems" False])
      have "length (drop k p) < length p" using k False by simp
      from "1.IH"[rule_format, OF this k(3)] k(4,5) step False show ?thesis
        by (subst put_loop.simps) auto
    qed
  qed
  with assms show ?thesis unfolding holds_def buffer_put_def by blast
qed

section \<open>Flushing a buffer\<close>

lemma gather_ok:
  assumes "bchain (chunks st) p xs" "\<forall>x\<in>set xs. chunk_ok N (the (chunks st x))" "N < 2 ^ 63"
    and nbyte: "nbyte < 2 ^ 64"
  shows "\<exists>m\<le>length xs. gather st p n iov nbyte =
      Inr (iov @ map (\<lambda>x. content (the (chunks st x))) (take m xs), nbyte + length (contents (chunks st) (take m xs))) \<and>
    (0 < n \<longrightarrow> xs \<noteq> [] \<longrightarrow> nbyte < MAX_FLUSH \<longrightarrow> 0 < m) \<and>
    nbyte + length (contents (chunks st) (take m xs)) < 2 ^ 64"
  using assms(1,2) nbyte
proof (induction n arbitrary: p xs iov nbyte)
  case (Suc n)
  show ?case
  proof (cases "xs = [] \<or> \<not> nbyte < MAX_FLUSH")
    case True
    then show ?thesis using Suc.prems by (intro exI[of _ 0]) (cases xs; auto)
  next
    case False
    then obtain x ys d where x: "xs = x # ys" "p = Some x" "chunks st x = Some d" "bchain (chunks st) (bnext d) ys"
      using Suc.prems(1) by (cases xs) auto
    with Suc.prems(2) have ok: "chunk_ok N d" by simp
    then have c: "unflushed d = Inr (content d)" "length (content d) = cp d - sp d"
      using content_ok[of N d] assms(3) by auto
    have sub: "szsub (cp d) (sp d) = length (content d)" using ok c(2) assms(3) by (simp add: chunk_ok_def size_arith)
    have "length (content d) \<le> N" using ok c(2) by (auto simp: chunk_ok_def)
    then have lt: "nbyte + length (content d) < 2 ^ 64" using False assms(3) by (simp add: MAX_FLUSH_def)
    then have "szadd nbyte (szsub (cp d) (sp d)) = nbyte + length (content d)" by (simp only: sub uadd_eq)
    moreover obtain m where "m \<le> length ys"
      "gather st (bnext d) n (iov @ [content d]) (nbyte + length (content d)) =
        Inr ((iov @ [content d]) @ map (\<lambda>x. content (the (chunks st x))) (take m ys),
             nbyte + length (content d) + length (contents (chunks st) (take m ys)))"
      "nbyte + length (content d) + length (contents (chunks st) (take m ys)) < 2 ^ 64"
      using Suc.IH[OF x(4) _ lt] Suc.prems(2) x(1) by fastforce
    ultimately show ?thesis using x c(1) False
      by (intro exI[of _ "Suc m"]) (simp add: get_chunk_def)
  qed
next
  case 0
  then show ?case by (intro exI[of _ 0]) simp
qed

lemma bwf_tail:
  assumes "bwf b st (x # xs)" "chunks st x = Some d"
  shows "bwf (b\<lparr>bhead := bnext d, btail := (if bnext d = None then None else btail b)\<rparr>) (free_chunk x st) xs"
    "contents (chunks (free_chunk x st)) xs = contents (chunks st) xs"
  using assms by (cases xs; auto simp: bwf_def free_chunk_def)+

lemma written_loop_ok:
  assumes "bwf b st xs" "k \<le> length (contents (chunks st) xs)" "k < 2 ^ 64"
  shows "\<exists>b' st' xs'. written_loop k b st = Some (Inr
        (if k = length (contents (chunks st) xs) then BUFFER_EMPTY else BUFFER_PENDING, b', st')) \<and>
      bwf b' st' xs' \<and> contents (chunks st') xs' = drop k (contents (chunks st) xs) \<and> set xs' \<subseteq> set xs \<and>
      (\<forall>a. 0 < k \<longrightarrow> bhead b = Some a \<longrightarrow> bhead b' = Some a \<longrightarrow> sp (the (chunks st' a)) \<noteq> sp (the (chunks st a)))"
  using assms
proof (induction xs arbitrary: b st k)
  case Nil
  then show ?case by (intro exI[of _ b] exI[of _ st] exI[of _ "[]"]) (auto simp: written_loop.simps bwf_def)
next
  case (Cons x xs)
  from Cons.prems(1) obtain d where d: "chunks st x = Some d" "get_chunk st x = Inr d" "chunk_ok (bsize b) d" "content d \<noteq> []"
    by (rule bwfD[where x = x]) auto
  have n: "bsize b < 2 ^ 64" using Cons.prems(1) by (simp add: bwf_def)
  have head: "bhead b = Some x" using Cons.prems(1) by (simp add: bwf_def)
  have len: "length (content d) = cp d - sp d" "szsub (cp d) (sp d) = cp d - sp d"
    using content_ok[OF d(3) n] d(3) n by (auto simp: chunk_ok_def size_arith)
  show ?case
  proof (cases "k = 0")
    case True
    then show ?thesis using Cons.prems(1) d(1,4) head
      by (intro exI[of _ b] exI[of _ st] exI[of _ "x # xs"]) (simp add: written_loop.simps)
  next
    case False
    show ?thesis
    proof (cases "k < length (content d)")
      case True
      let ?d = "d\<lparr>sp := sp d + k\<rparr>"
      have "sp d + k < 2 ^ 64" using True len d(3) n by (auto simp: chunk_ok_def)
      then have "szadd (sp d) k = sp d + k" by (simp add: uadd_eq)
      then have "written_loop k b st = Some (Inr (BUFFER_PENDING, b, put_chunk x ?d st))"
        using True False d(2) head len by (subst written_loop.simps) (simp add: Let_def)
      moreover have "bwf b (put_chunk x ?d st) (x # xs)"
        using Cons.prems(1) d(1,3) True len by (auto simp: bwf_def put_chunk_def chunk_ok_def)
      moreover have "content ?d = drop k (content d)" using True len d(3)
        by (simp add: content_def drop_take chunk_ok_def add.commute)
      then have "contents (chunks (put_chunk x ?d st)) (x # xs) = drop k (contents (chunks st) (x # xs))"
        using Cons.prems(1) True d(1) by (simp add: bwf_def put_chunk_def)
      moreover have "sp (the (chunks (put_chunk x ?d st) x)) \<noteq> sp (the (chunks st x))"
        using False d(1) by (simp add: put_chunk_def)
      ultimately show ?thesis using True d(1) head
        by (intro exI[of _ b] exI[of _ "put_chunk x ?d st"] exI[of _ "x # xs"]) simp
    next
      case big: False
      let ?b = "b\<lparr>bhead := bnext d, btail := (if bnext d = None then None else btail b)\<rparr>"
      let ?k = "k - length (content d)"
      note t = bwf_tail[OF Cons.prems(1) d(1)]
      have "?k \<le> length (contents (chunks (free_chunk x st)) xs)" using Cons.prems(2) d(1) t(2) by simp
      from Cons.IH[OF t(1) this] Cons.prems(3) obtain b' st' xs' where
        r: "written_loop ?k ?b (free_chunk x st) = Some (Inr
          (if ?k = length (contents (chunks (free_chunk x st)) xs) then BUFFER_EMPTY else BUFFER_PENDING, b', st'))"
        "bwf b' st' xs'" "contents (chunks st') xs' = drop ?k (contents (chunks (free_chunk x st)) xs)"
        "set xs' \<subseteq> set xs" by (metis less_imp_diff_less)
      have "szsub k (length (content d)) = ?k" using big Cons.prems(3) by (simp add: size_arith)
      then have "written_loop k b st = written_loop ?k ?b (free_chunk x st)"
        using big False d(2) head len by (subst written_loop.simps) (simp add: Let_def)
      moreover have "bhead b' \<noteq> Some x"
        using r(2,4) Cons.prems(1) by (cases xs') (auto simp: bwf_def)
      ultimately show ?thesis using r t(2) big False d(1) head
        by (intro exI[of _ b'] exI[of _ st'] exI[of _ xs']) auto
    qed
  qed
qed

text \<open>
  What the manual pages promise of \<open>write\<close> and \<open>writev\<close>: no more bytes are written than given.
\<close>

definition write_contract :: "'k os \<Rightarrow> bool" where
  "write_contract os \<longleftrightarrow> (\<forall>k bs n k'. os k bs = (Inr n, k') \<longrightarrow> n \<le> length bs)"

text \<open>The bytes that \<open>buffer_flush_available\<close> hands to \<open>writev\<close>.\<close>

definition offer :: "buffer \<Rightarrow> bstore \<Rightarrow> u8 list" where
  "offer b st = (case gather st (bhead b) MAX_CHUNKS [] 0 of Inl e \<Rightarrow> [] | Inr (iov, _) \<Rightarrow> concat iov)"

text \<open>One call of \<open>buffer_flush_available\<close>.\<close>

lemma flush_available_ok:
  fixes os :: "'k os" and io :: "'k io"
  assumes os: "write_contract os" and wf: "bwf b st xs" and xs: "xs \<noteq> []"
  obtains (fail) e k where "offer b st \<noteq> []" "os (kern io) (offer b st) = (Inl e, k)" "buffer_flush_available os b st io =
        Some (Inr (if ERRNO_IO_RETRY e then BUFFER_PENDING else BUFFER_ERROR, b, st, io\<lparr>kern := k, err := e\<rparr>))"
  | (ok) n k b' st' xs' where "offer b st \<noteq> []" "os (kern io) (offer b st) = (Inr n, k)" "buffer_flush_available os b st io =
        Some (Inr (if n = length (contents (chunks st) xs) then BUFFER_EMPTY else BUFFER_PENDING, b', st',
          io\<lparr>kern := k, sent := sent io @ take n (contents (chunks st) xs)\<rparr>))"
      "n \<le> length (contents (chunks st) xs)" "bwf b' st' xs'" "contents (chunks st') xs' = drop n (contents (chunks st) xs)"
      "\<forall>a. 0 < n \<longrightarrow> bhead b = Some a \<longrightarrow> bhead b' = Some a \<longrightarrow> sp (the (chunks st' a)) \<noteq> sp (the (chunks st a))"
      "n = 0 \<longrightarrow> b' = b \<and> st' = st"
proof -
  let ?c = "contents (chunks st)"
  have "bchain (chunks st) (bhead b) xs" "\<forall>x\<in>set xs. chunk_ok (bsize b) (the (chunks st x))" "bsize b < 2 ^ 63"
    using wf by (auto simp: bwf_def)
  from gather_ok[OF this, of 0 MAX_CHUNKS "[]"] xs obtain m where
    m: "0 < m" "m \<le> length xs" "gather st (bhead b) MAX_CHUNKS [] 0 =
      Inr (map (\<lambda>x. content (the (chunks st x))) (take m xs), length (?c (take m xs)))" "length (?c (take m xs)) < 2 ^ 64"
    by (auto simp: MAX_CHUNKS_def IOV_MAX_def MAX_FLUSH_def)
  define j where "j = length (?c (take m xs))"
  have "?c xs = ?c (take m xs) @ ?c (drop m xs)" by (simp flip: contents_simps(3))
  then have off: "concat (map (\<lambda>x. content (the (chunks st x))) (take m xs)) = take j (?c xs)" "j \<le> length (?c xs)"
    by (simp_all add: contents_def j_def)
  obtain x ys where "xs = x # ys" using xs by (cases xs) auto
  moreover from this wf obtain d where "chunks st x = Some d" "content d \<noteq> []" by (elim bwfD[where x = x]) auto
  ultimately have j: "0 < j" using m(1) by (cases m) (auto simp: j_def)
  have offer: "offer b st = take j (?c xs)" using m(3) off(1) by (simp add: offer_def)
  have ne: "offer b st \<noteq> []" using j off(2) offer by auto
  have start: "buffer_flush_available os b st io = (case sys_write os (take j (?c xs)) io of
      (Inl e, io) \<Rightarrow> Some (Inr (if ERRNO_IO_RETRY e then BUFFER_PENDING else BUFFER_ERROR, b, st, io))
    | (Inr written, io) \<Rightarrow> map_option (\<lambda>m. bindR m (\<lambda>(s, b, st). Inr (s, b, st, io))) (written_loop written b st))"
    using j off(1) by (simp add: buffer_flush_available_def m(3) j_def)
  show thesis
  proof (cases "os (kern io) (take j (?c xs))")
    case (Pair r k)
    show thesis
    proof (cases r)
      case (Inl e)
      with Pair start fail[OF ne] show thesis by (simp add: sys_write_def offer)
    next
      case (Inr n)
      with Pair have "n \<le> length (take j (?c xs))" using os unfolding write_contract_def by blast
      then have n: "n \<le> j" "n \<le> length (?c xs)" by auto
      with m(4) have lt: "n < 2 ^ 64" by (simp add: j_def)
      obtain b' st' xs' where w: "written_loop n b st = Some (Inr
          (if n = length (?c xs) then BUFFER_EMPTY else BUFFER_PENDING, b', st'))"
        "bwf b' st' xs'" "contents (chunks st') xs' = drop n (?c xs)"
        "\<forall>a. 0 < n \<longrightarrow> bhead b = Some a \<longrightarrow> bhead b' = Some a \<longrightarrow> sp (the (chunks st' a)) \<noteq> sp (the (chunks st a))"
        using written_loop_ok[OF wf n(2) lt] by blast
      have "buffer_flush_available os b st io = Some (Inr (if n = length (?c xs) then BUFFER_EMPTY else BUFFER_PENDING,
          b', st', io\<lparr>kern := k, sent := sent io @ take n (?c xs)\<rparr>))"
        using Pair Inr start w(1) n(1) by (simp add: sys_write_def min_def)
      moreover have "n = 0 \<longrightarrow> b' = b \<and> st' = st" using w(1) by (auto simp: written_loop.simps)
      ultimately show thesis using ok[OF ne _ _ n(2) w(2-4)] Pair Inr by (simp add: offer)
    qed
  qed
qed

text \<open>
  \<open>buffer_flush_all\<close> tries again after an interruption, and as long as \<open>errno\<close> tells of one.
  \<open>attempt os bs n k\<close> is the state of the system after \<open>n\<close> attempts to write the bytes \<open>bs\<close>,
  \<open>refuses_forever os k bs\<close> that each of these attempts is interrupted or takes no byte.
\<close>

definition refused :: "errno + nat \<Rightarrow> bool" where
  "refused r \<longleftrightarrow> r = Inl EINTR \<or> r = Inr 0"

primrec attempt :: "'k os \<Rightarrow> u8 list \<Rightarrow> nat \<Rightarrow> 'k \<Rightarrow> 'k" where
  "attempt os bs 0 k = k"
| "attempt os bs (Suc n) k = attempt os bs n (snd (os k bs))"

definition refuses_forever :: "'k os \<Rightarrow> 'k \<Rightarrow> u8 list \<Rightarrow> bool" where
  "refuses_forever os k bs \<longleftrightarrow> (\<forall>n. refused (fst (os (attempt os bs n k) bs)))"

text \<open>The attempts before the first one that is not refused.\<close>

definition patience :: "'k os \<Rightarrow> 'k \<Rightarrow> u8 list \<Rightarrow> nat" where
  "patience os k bs = (LEAST n. \<not> refused (fst (os (attempt os bs n k) bs)))"

lemma patience_decreases:
  assumes "\<not> refuses_forever os k bs" "os k bs = (r, k')" "refused r"
  shows "patience os k' bs < patience os k bs"
proof -
  let ?P = "\<lambda>n. \<not> refused (fst (os (attempt os bs n k) bs))"
  have "\<exists>n. ?P n" using assms(1) by (auto simp: refuses_forever_def)
  then have p: "?P (patience os k bs)" unfolding patience_def by (rule LeastI_ex)
  have "\<not> ?P 0" using assms(2,3) by simp
  then obtain m where m: "patience os k bs = Suc m" using p by (cases "patience os k bs") auto
  have "\<not> refused (fst (os (attempt os bs m k') bs))" using p m assms(2) by simp
  then have "patience os k' bs \<le> m" unfolding patience_def by (rule Least_le)
  with m show ?thesis by simp
qed

definition accepting :: "'k os \<Rightarrow> bool" where
  "accepting os \<longleftrightarrow> (\<forall>k bs. bs \<noteq> [] \<longrightarrow> (case fst (os k bs) of Inr n \<Rightarrow> 0 < n | Inl e \<Rightarrow> e = EINTR))"

lemma bwf_head:
  assumes "bwf b st xs" "xs \<noteq> []"
  shows "bhead b = Some (hd xs)" "get_chunk st (hd xs) = Inr (the (chunks st (hd xs)))" "contents (chunks st) xs \<noteq> []"
proof -
  obtain x ys where xs: "xs = x # ys" using assms(2) by (cases xs) auto
  with assms(1) obtain d where "chunks st x = Some d" "get_chunk st x = Inr d" "content d \<noteq> []"
    by (elim bwfD[where x = x]) auto
  with xs assms(1) show "bhead b = Some (hd xs)" "get_chunk st (hd xs) = Inr (the (chunks st (hd xs)))"
    "contents (chunks st) xs \<noteq> []" by (simp_all add: bwf_def)
qed

lemma bwf_empty:
  assumes "bwf b st xs"
  shows "contents (chunks st) xs = [] \<longleftrightarrow> xs = []" "bhead b = None \<longleftrightarrow> xs = []"
proof (atomize (full), cases "xs = []")
  case True
  with assms show "(contents (chunks st) xs = [] \<longleftrightarrow> xs = []) \<and> (bhead b = None \<longleftrightarrow> xs = [])" by (simp add: bwf_def)
next
  case False
  with bwf_head[OF assms] show "(contents (chunks st) xs = [] \<longleftrightarrow> xs = []) \<and> (bhead b = None \<longleftrightarrow> xs = [])" by simp
qed

text \<open>The body of the loop of \<open>buffer_flush_all\<close>, with the next round as a parameter.\<close>

definition flush_round where
  "flush_round F os head head_sp b st io =
     (case buffer_flush_available os b st io of
        None \<Rightarrow> None
      | Some (Inl e) \<Rightarrow> Some (Inl e)
      | Some (Inr (ret, b, st, io)) \<Rightarrow>
          if ret \<noteq> BUFFER_PENDING then Some (Inr (ret, b, st, io))
          else
            (case bhead b of
               None \<Rightarrow> Some (Inl Mem_fault)
             | Some a \<Rightarrow>
                (case get_chunk st a of
                   Inl e \<Rightarrow> Some (Inl e)
                 | Inr d \<Rightarrow>
                     if a = head \<and> head_sp = sp d \<and> err io \<noteq> EINTR then Some (Inr (ret, b, st, io))
                     else F os a (sp d) b st io)))"

lemma flush_all_round: "flush_all_loop os h hs b st io = flush_round flush_all_loop os h hs b st io"
  by (subst flush_all_loop.simps) (simp only: flush_round_def)

text \<open>
  A round ends the loop, or makes progress, or has been refused and leaves the buffer as it was.
\<close>

lemma flush_round_cases:
  fixes os :: "'k os" and io :: "'k io"
  assumes os: "write_contract os" and wf: "bwf b st xs" and xs: "xs \<noteq> []"
  obtains (stop) s b' st' io' xs' where
      "\<And>F. flush_round F os (hd xs) (sp (the (chunks st (hd xs)))) b st io = Some (Inr (s, b', st', io'))"
      "bwf b' st' xs'" "sent io' @ contents (chunks st') xs' = sent io @ contents (chunks st) xs"
      "s = BUFFER_EMPTY \<longleftrightarrow> xs' = []" "accepting os \<longrightarrow> s = BUFFER_EMPTY"
  | (again) b' st' io' xs' where
      "\<And>F. flush_round F os (hd xs) (sp (the (chunks st (hd xs)))) b st io =
        F os (hd xs') (sp (the (chunks st' (hd xs')))) b' st' io'"
      "bwf b' st' xs'" "xs' \<noteq> []" "sent io' @ contents (chunks st') xs' = sent io @ contents (chunks st) xs"
      "length (contents (chunks st') xs') < length (contents (chunks st) xs) \<or>
        b' = b \<and> st' = st \<and> xs' = xs \<and> offer b st \<noteq> [] \<and>
        (\<exists>r. os (kern io) (offer b st) = (r, kern io') \<and> refused r)"
proof -
  let ?c = "contents (chunks st) xs" and ?sp = "\<lambda>a st. sp (the (chunks st a))"
  note h = bwf_head[OF wf xs]
  have acc: "case r of Inr n \<Rightarrow> 0 < n | Inl e \<Rightarrow> e = EINTR"
    if "accepting os" "offer b st \<noteq> []" "os (kern io) (offer b st) = (r, k)" for r k
    using that unfolding accepting_def by (metis fst_conv)
  show thesis
  proof (cases rule: flush_available_ok[OF os wf xs, where io = io, case_names fail ok])
    case (fail e k)
    let ?io = "io\<lparr>kern := k, err := e\<rparr>"
    show thesis
    proof (cases "e = EINTR")
      case True
      have r: "flush_round F os (hd xs) (?sp (hd xs) st) b st io = F os (hd xs) (?sp (hd xs) st) b st ?io" for F
        using fail(3) h True by (simp add: flush_round_def ERRNO_IO_RETRY_def)
      show thesis by (rule again[OF r wf xs]) (use fail(1,2) True in \<open>simp_all add: refused_def\<close>)
    next
      case False
      have r: "flush_round F os (hd xs) (?sp (hd xs) st) b st io =
          Some (Inr (if ERRNO_IO_RETRY e then BUFFER_PENDING else BUFFER_ERROR, b, st, ?io))" for F
        using fail(3) h False by (simp add: flush_round_def)
      show thesis by (rule stop[OF r wf]) (use xs acc[OF _ fail(1,2)] False in auto)
    qed
  next
    case (ok n k b' st' xs')
    let ?io = "io\<lparr>kern := k, sent := sent io @ take n ?c\<rparr>"
    have sent: "sent ?io @ contents (chunks st') xs' = sent io @ ?c" using ok(6) by simp
    show thesis
    proof (cases "n = length ?c")
      case True
      have "xs' = []" using True ok(5,6) bwf_empty(1) by simp
      moreover have r: "flush_round F os (hd xs) (?sp (hd xs) st) b st io = Some (Inr (BUFFER_EMPTY, b', st', ?io))" for F
        using ok(3) True by (simp add: flush_round_def)
      ultimately show thesis by (intro stop[OF r ok(5) sent]) auto
    next
      case False
      then have xs': "xs' \<noteq> []" using ok(4,6) bwf_empty(1)[OF ok(5)] by auto
      note h' = bwf_head[OF ok(5) xs']
      have step: "flush_round F os (hd xs) (?sp (hd xs) st) b st io =
          (if hd xs' = hd xs \<and> ?sp (hd xs) st = ?sp (hd xs') st' \<and> err io \<noteq> EINTR
           then Some (Inr (BUFFER_PENDING, b', st', ?io)) else F os (hd xs') (?sp (hd xs') st') b' st' ?io)" for F
        using ok(3) False h' by (simp add: flush_round_def)
      show thesis
      proof (cases "hd xs' = hd xs \<and> ?sp (hd xs) st = ?sp (hd xs') st' \<and> err io \<noteq> EINTR")
        case True
        then have "n = 0" using ok(7) h(1) h'(1) by auto
        with acc[OF _ ok(1,2)] have "\<not> accepting os" by auto
        have r: "flush_round F os (hd xs) (?sp (hd xs) st) b st io = Some (Inr (BUFFER_PENDING, b', st', ?io))" for F
          by (rule trans[OF step if_P[OF True]])
        show thesis by (rule stop[OF r ok(5) sent]) (use xs' \<open>\<not> accepting os\<close> in auto)
      next
        case continue: False
        show thesis
        proof (cases "n = 0")
          case True
          with ok(8) have same: "b' = b" "st' = st" by auto
          have "hd xs' = hd xs" using h(1) h'(1) same by simp
          then have r: "flush_round F os (hd xs) (?sp (hd xs) st) b st io = F os (hd xs) (?sp (hd xs) st) b st ?io" for F
            using step continue same by simp
          show thesis by (rule again[OF r wf xs]) (use True ok(1,2) in \<open>simp_all add: refused_def\<close>)
        next
          case progress: False
          have r: "flush_round F os (hd xs) (?sp (hd xs) st) b st io = F os (hd xs') (?sp (hd xs') st') b' st' ?io" for F
            using step continue by simp
          show thesis by (rule again[OF r ok(5) xs' sent]) (use progress ok(4,6) h(3) in auto)
        qed
      qed
    qed
  qed
qed

lemma flush_all_loop_ok:
  assumes os: "write_contract os" and "flush_all_loop os (hd xs) (sp (the (chunks st (hd xs)))) b st io = Some r"
    and "bwf b st xs" "xs \<noteq> []"
  shows "\<exists>s b' st' io' xs'. r = Inr (s, b', st', io') \<and> bwf b' st' xs' \<and>
    sent io' @ contents (chunks st') xs' = sent io @ contents (chunks st) xs \<and>
    (s = BUFFER_EMPTY \<longleftrightarrow> xs' = []) \<and> (accepting os \<longrightarrow> s = BUFFER_EMPTY)"
proof -
  let ?Q = "\<lambda>os b st (io :: 'a io) xs r. \<exists>s b' st' io' xs'. r = Inr (s, b', st', io') \<and> bwf b' st' xs' \<and>
    sent io' @ contents (chunks st') xs' = sent io @ contents (chunks st) xs \<and>
    (s = BUFFER_EMPTY \<longleftrightarrow> xs' = []) \<and> (accepting os \<longrightarrow> s = BUFFER_EMPTY)"
  let ?P = "\<lambda>os h hs b st io r. \<forall>xs. write_contract os \<longrightarrow> bwf b st xs \<longrightarrow> xs \<noteq> [] \<longrightarrow> h = hd xs \<longrightarrow>
    hs = sp (the (chunks st (hd xs))) \<longrightarrow> ?Q os b st io xs r"
  have "?P os (hd xs) (sp (the (chunks st (hd xs)))) b st io r"
  proof (rule flush_all_loop.raw_induct[OF _ assms(2)])
    fix F os h hs b st and io :: "'a io" and r
    assume IH: "\<And>os h hs b st io r. F os h hs b st io = Some r \<Longrightarrow> ?P os h hs b st io r"
      and "(case buffer_flush_available os b st io of
        None \<Rightarrow> None
      | Some (Inl e) \<Rightarrow> Some (Inl e)
      | Some (Inr (ret, b, st, io)) \<Rightarrow>
          if ret \<noteq> BUFFER_PENDING then Some (Inr (ret, b, st, io))
          else
            (case bhead b of
               None \<Rightarrow> Some (Inl Mem_fault)
             | Some a \<Rightarrow>
                (case get_chunk st a of
                   Inl e \<Rightarrow> Some (Inl e)
                 | Inr d \<Rightarrow>
                     if a = h \<and> hs = sp d \<and> err io \<noteq> EINTR then Some (Inr (ret, b, st, io))
                     else F os a (sp d) b st io))) = Some r"
    then have body: "flush_round F os h hs b st io = Some r" by (simp only: flush_round_def)
    show "?P os h hs b st io r"
    proof (intro allI impI)
      fix xs assume os: "write_contract os" and xs: "bwf b st xs" "xs \<noteq> []" "h = hd xs" "hs = sp (the (chunks st (hd xs)))"
      show "?Q os b st io xs r"
      proof (cases rule: flush_round_cases[OF os xs(1,2), where io = io, case_names stop again])
        case (stop s b' st' io' xs')
        have "r = Inr (s, b', st', io')" using body stop(1)[of F] unfolding xs(3,4) by simp
        with stop(2-5) show ?thesis by blast
      next
        case (again b' st' io' xs')
        have "F os (hd xs') (sp (the (chunks st' (hd xs')))) b' st' io' = Some r"
          using body again(1)[of F] unfolding xs(3,4) by simp
        from IH[OF this] os again(2,3) have "?Q os b' st' io' xs' r" by blast
        with again(4) show ?thesis by simp
      qed
    qed
  qed
  with assms show ?thesis by blast
qed

lemma flush_all_loop_ends:
  assumes os: "write_contract os" "\<And>k bs. bs \<noteq> [] \<Longrightarrow> \<not> refuses_forever os k bs" and "bwf b st xs" "xs \<noteq> []"
  shows "\<exists>r. flush_all_loop os (hd xs) (sp (the (chunks st (hd xs)))) b st io = Some r"
  using assms(3,4)
proof (induction "(length (contents (chunks st) xs), patience os (kern io) (offer b st))" arbitrary: b st xs io
    rule: wf_induct_rule[OF wf_lex_prod[OF wf_less_than wf_less_than]])
  case (1 b st xs io)
  show ?case
  proof (cases rule: flush_round_cases[OF os(1) "1.prems", where io = io, case_names stop again])
    case (stop s b' st' io' xs')
    then show ?thesis by (subst flush_all_round) blast
  next
    case (again b' st' io' xs')
    have "((length (contents (chunks st') xs'), patience os (kern io') (offer b' st')),
        length (contents (chunks st) xs), patience os (kern io) (offer b st)) \<in> less_than <*lex*> less_than"
      using again(5) patience_decreases[OF os(2)] by auto
    from "1.hyps"[OF this again(2,3)] again(1) show ?thesis by (subst flush_all_round) simp
  qed
qed

lemma flush_all_holds:
  assumes "write_contract os" "holds b st bs"
  shows "case buffer_flush_all os b st io of
      None \<Rightarrow> \<exists>k bs. bs \<noteq> [] \<and> refuses_forever os k bs
    | Some r \<Rightarrow> \<exists>s b' st' io' rest. r = Inr (s, b', st', io') \<and> holds b' st' rest \<and>
        sent io' @ rest = sent io @ bs \<and> (s = BUFFER_EMPTY \<longleftrightarrow> rest = []) \<and> (accepting os \<longrightarrow> s = BUFFER_EMPTY)"
proof -
  obtain xs where wf: "bwf b st xs" "contents (chunks st) xs = bs" using assms(2) by (auto simp: holds_def)
  show ?thesis
  proof (cases "xs = []")
    case True
    then show ?thesis using wf assms(2) by (auto simp: buffer_flush_all_def bwf_def)
  next
    case False
    have eq: "buffer_flush_all os b st io = flush_all_loop os (hd xs) (sp (the (chunks st (hd xs)))) b st io"
      using bwf_head[OF wf(1) False] by (simp add: buffer_flush_all_def)
    show ?thesis
    proof (cases "buffer_flush_all os b st io")
      case None
      then show ?thesis using flush_all_loop_ends[OF assms(1) _ wf(1) False, of io] eq by auto
    next
      case (Some r)
      from flush_all_loop_ok[OF assms(1) _ wf(1) False, of io r] Some eq obtain s b' st' io' xs' where
        "r = Inr (s, b', st', io')" "bwf b' st' xs'" "sent io' @ contents (chunks st') xs' = sent io @ bs"
        "s = BUFFER_EMPTY \<longleftrightarrow> xs' = []" "accepting os \<longrightarrow> s = BUFFER_EMPTY" using wf(2) by auto
      with Some bwf_empty(1) show ?thesis unfolding holds_def by (simp, metis)
    qed
  qed
qed

lemma flush_available_holds:
  assumes "write_contract os" "holds b st bs"
  shows "\<exists>s b' st' io' rest. buffer_flush_available os b st io = Some (Inr (s, b', st', io')) \<and> holds b' st' rest \<and>
    sent io' @ rest = sent io @ bs \<and> (s = BUFFER_EMPTY \<longleftrightarrow> rest = [])"
proof -
  obtain xs where wf: "bwf b st xs" "contents (chunks st) xs = bs" using assms(2) by (auto simp: holds_def)
  show ?thesis
  proof (cases "xs = []")
    case True
    then have "bhead b = None" using wf(1) by (simp add: bwf_def)
    moreover have "gather st None n [] 0 = Inr ([], 0)" for n by (cases n) auto
    ultimately have "gather st (bhead b) MAX_CHUNKS [] 0 = Inr ([], 0)" by simp
    with True wf assms(2) show ?thesis by (auto simp: buffer_flush_available_def)
  next
    case False
    show ?thesis
    proof (cases rule: flush_available_ok[OF assms(1) wf(1) False, where io = io, case_names fail ok])
      case (fail e k)
      with assms(2) wf(2) bwf_head(3)[OF wf(1) False] show ?thesis by (cases "ERRNO_IO_RETRY e") auto
    next
      case (ok n k b' st' xs')
      from ok(5,6) have "holds b' st' (drop n bs)" using wf(2) by (auto simp: holds_def)
      with ok(3,4) wf(2) show ?thesis
        by (intro exI[of _ "if n = length bs then BUFFER_EMPTY else BUFFER_PENDING"]
            exI[of _ b'] exI[of _ st'] exI[of _ "io\<lparr>kern := k, sent := sent io @ take n bs\<rparr>"] exI[of _ "drop n bs"]) auto
    qed
  qed
qed

lemma buffer_write_holds:
  assumes "write_contract os" "holds b st bs"
  shows "\<exists>s b' st' io' rest. buffer_write os b p st io = Some (Inr (s, b', st', io')) \<and> holds b' st' rest \<and>
    sent io' @ rest = sent io @ bs @ (if s = BUFFER_ERROR then [] else p) \<and> (s = BUFFER_EMPTY \<longrightarrow> rest = [])"
proof -
  have put: "\<exists>s b' st' rest. map_option (\<lambda>m. bindR m (\<lambda>(b, st).
        Inr (if bhead b \<noteq> None then BUFFER_PENDING else BUFFER_EMPTY, b, st, io')))
      (if n < length p then buffer_put b (drop n p) st else Some (Inr (b, st))) = Some (Inr (s, b', st', io')) \<and>
      holds b' st' rest \<and> rest = bs @ drop n p \<and> s \<noteq> BUFFER_ERROR \<and> (s = BUFFER_EMPTY \<longrightarrow> rest = [])"
    for n and io' :: "'a io"
  proof -
    have empty: "rest = []" if "holds b' st' rest" "bhead b' = None" for b' st' rest
      using that bwf_empty by (force simp: holds_def)
    show ?thesis
    proof (cases "n < length p")
      case True
      obtain b' st' where "buffer_put b (drop n p) st = Some (Inr (b', st'))" "holds b' st' (bs @ drop n p)"
        using buffer_put_holds[OF assms(2)] by blast
      with True empty[of b' st' "bs @ drop n p"] show ?thesis
        by (intro exI[of _ "if bhead b' \<noteq> None then BUFFER_PENDING else BUFFER_EMPTY"] exI[of _ b'] exI[of _ st']) auto
    next
      case False
      with assms(2) empty[of b st bs] show ?thesis
        by (intro exI[of _ "if bhead b \<noteq> None then BUFFER_PENDING else BUFFER_EMPTY"] exI[of _ b] exI[of _ st]) auto
    qed
  qed
  show ?thesis
  proof (cases "bhead b = None")
    case False
    with put[of io 0] show ?thesis by (auto simp: buffer_write_def)
  next
    case True
    then have bs: "bs = []" using assms(2) bwf_empty by (force simp: holds_def)
    show ?thesis
    proof (cases "os (kern io) p")
      case (Pair r k)
      show ?thesis
      proof (cases r)
        case (Inl e)
        let ?io = "io\<lparr>kern := k, err := e\<rparr>"
        show ?thesis
        proof (cases "ERRNO_IO_RETRY e")
          case retry: True
          with put[of ?io 0] Pair Inl True bs show ?thesis by (auto simp: buffer_write_def sys_write_def)
        next
          case False
          with Pair Inl True assms(2) show ?thesis by (auto simp: buffer_write_def sys_write_def)
        qed
      next
        case (Inr n)
        then have "n \<le> length p" using assms(1) Pair unfolding write_contract_def by blast
        let ?io = "io\<lparr>kern := k, sent := sent io @ take n p\<rparr>"
        from put[of ?io n] obtain s b' st' where "holds b' st' (drop n p)" "s \<noteq> BUFFER_ERROR"
          "s = BUFFER_EMPTY \<longrightarrow> drop n p = []"
          "map_option (\<lambda>m. bindR m (\<lambda>(b, st).
              Inr (if bhead b \<noteq> None then BUFFER_PENDING else BUFFER_EMPTY, b, st, ?io)))
            (if n < length p then buffer_put b (drop n p) st else Some (Inr (b, st))) = Some (Inr (s, b', st', ?io))"
          using bs by auto
        with Pair Inr True bs show ?thesis
          by (intro exI[of _ s] exI[of _ b'] exI[of _ st'] exI[of _ ?io] exI[of _ "drop n p"])
            (simp add: buffer_write_def sys_write_def)
      qed
    qed
  qed
qed

section \<open>Reading and clearing a buffer\<close>

lemma length_loop_ok:
  assumes "bchain (chunks st) p xs" "\<forall>x\<in>set xs. chunk_ok N (the (chunks st x))" "N < 2 ^ 63"
    "t + length (contents (chunks st) xs) < 2 ^ 64"
  shows "length_loop st p t = Some (Inr (t + length (contents (chunks st) xs)))"
  using assms(1,2,4)
proof (induction xs arbitrary: p t)
  case (Cons x xs)
  then obtain d where d: "p = Some x" "chunks st x = Some d" "bchain (chunks st) (bnext d) xs" "chunk_ok N d" by auto
  then have len: "szsub (cp d) (sp d) = length (content d)"
    using content_ok[of N d] assms(3) by (auto simp: chunk_ok_def size_arith)
  have "t + length (content d) < 2 ^ 64" using Cons.prems(3) d(2) by simp
  then have "length_loop st p t = length_loop st (bnext d) (t + length (content d))"
    using d len by (subst length_loop.simps) (simp add: get_chunk_def uadd_eq)
  moreover have "length_loop st (bnext d) (t + length (content d)) =
      Some (Inr (t + length (content d) + length (contents (chunks st) xs)))"
    by (rule Cons.IH[OF d(3)]) (use Cons.prems d(2) in auto)
  ultimately show ?case using d(2) by simp
qed (simp add: length_loop.simps)

lemma copy_loop_ok:
  assumes "bchain (chunks st) p xs" "\<forall>x\<in>set xs. chunk_ok N (the (chunks st x))" "N < 2 ^ 63"
    "length (contents (chunks st) xs) \<le> length s2"
  shows "copy_loop st p (s1 @ s2) (length s1) = Some (Inr
    (s1 @ contents (chunks st) xs @ drop (length (contents (chunks st) xs)) s2, length s1 + length (contents (chunks st) xs)))"
  using assms(1,2,4)
proof (induction xs arbitrary: p s1 s2)
  case (Cons x xs)
  then obtain d where d: "p = Some x" "chunks st x = Some d" "bchain (chunks st) (bnext d) xs" "chunk_ok N d" by auto
  then have c: "unflushed d = Inr (content d)" using content_ok[of N d] assms(3) by auto
  have len: "length (content d) \<le> length s2" using Cons.prems(3) d(2) by simp
  then have "mem_write (s1 @ s2) (length s1) (content d) = Inr ((s1 @ content d) @ drop (length (content d)) s2)"
    by (simp add: mem_simps)
  then have "copy_loop st p (s1 @ s2) (length s1) =
      copy_loop st (bnext d) ((s1 @ content d) @ drop (length (content d)) s2) (length (s1 @ content d))"
    using d c by (subst copy_loop.simps) (simp add: get_chunk_def)
  also have "\<dots> = Some (Inr ((s1 @ content d) @ contents (chunks st) xs @
      drop (length (contents (chunks st) xs)) (drop (length (content d)) s2),
      length (s1 @ content d) + length (contents (chunks st) xs)))"
    by (rule Cons.IH[OF d(3)]) (use Cons.prems d(2) in auto)
  finally show ?case using d(2) by (simp add: add.commute add.left_commute)
qed (simp add: copy_loop.simps)

text \<open>\<open>buffer_getstr\<close> gives the bytes that wait, with a null byte behind them.\<close>

lemma buffer_getstr_holds:
  assumes "holds b st bs" "length bs + 1 < 2 ^ 64"
  shows "buffer_getstr fill b st = Some (Inr (bs @ [0]))"
proof -
  obtain xs where wf: "bwf b st xs" "contents (chunks st) xs = bs" using assms(1) by (auto simp: holds_def)
  then have c: "bchain (chunks st) (bhead b) xs" "\<forall>x\<in>set xs. chunk_ok (bsize b) (the (chunks st x))" "bsize b < 2 ^ 63"
    by (auto simp: bwf_def)
  let ?s = "map fill [0..<length bs + 1]"
  have "length_loop st (bhead b) 0 = Some (Inr (length bs))" using length_loop_ok[OF c, of 0] wf(2) assms(2) by simp
  moreover have "szadd (length bs) 1 = length bs + 1" using assms(2) by (simp add: uadd_eq)
  moreover have "copy_loop st (bhead b) ?s 0 = Some (Inr (bs @ drop (length bs) ?s, length bs))"
    using copy_loop_ok[OF c, of ?s "[]"] wf(2) by simp
  ultimately show ?thesis by (simp add: buffer_getstr_def mem_simps list_update_append)
qed

text \<open>\<open>buffer_reset\<close> releases all chunks.\<close>

lemma reset_loop_ok:
  assumes "bchain (chunks st) p xs" "distinct xs"
  shows "reset_loop p st = Some (Inr (st\<lparr>chunks := \<lambda>a. if a \<in> set xs then None else chunks st a\<rparr>))"
  using assms
proof (induction xs arbitrary: p st)
  case (Cons x xs)
  then obtain d where d: "p = Some x" "chunks st x = Some d" "bchain (chunks st) (bnext d) xs" by auto
  have "reset_loop p st = reset_loop (bnext d) (free_chunk x st)"
    using d by (subst reset_loop.simps) (simp add: get_chunk_def)
  also have "\<dots> = Some (Inr ((free_chunk x st)\<lparr>chunks := \<lambda>a. if a \<in> set xs then None else chunks (free_chunk x st) a\<rparr>))"
  proof (rule Cons.IH)
    show "bchain (chunks (free_chunk x st)) (bnext d) xs" using d(3) Cons.prems(2) by (simp add: free_chunk_def)
  qed (use Cons.prems in simp)
  also have "(free_chunk x st)\<lparr>chunks := \<lambda>a. if a \<in> set xs then None else chunks (free_chunk x st) a\<rparr> =
      st\<lparr>chunks := \<lambda>a. if a \<in> set (x # xs) then None else chunks st a\<rparr>"
    by (auto simp: free_chunk_def fun_eq_iff intro!: bstore.equality)
  finally show ?case .
qed (simp add: reset_loop.simps)

lemma buffer_reset_holds:
  assumes "holds b st bs"
  shows "\<exists>b' st'. buffer_reset b st = Some (Inr (b', st')) \<and> holds b' st' [] \<and> buffer_empty b'"
proof -
  obtain xs where wf: "bwf b st xs" using assms by (auto simp: holds_def)
  let ?st = "st\<lparr>chunks := \<lambda>a. if a \<in> set xs then None else chunks st a\<rparr>" and ?b = "b\<lparr>bhead := None, btail := None\<rparr>"
  have "reset_loop (bhead b) st = Some (Inr ?st)" using wf by (intro reset_loop_ok) (auto simp: bwf_def)
  moreover have "bwf ?b ?st []" using wf by (auto simp: bwf_def)
  ultimately show ?thesis
    by (intro exI[of _ ?b] exI[of _ ?st]) (auto simp: buffer_reset_def holds_def buffer_empty_def intro!: exI[of _ "[]"])
qed

section \<open>Windows\<close>

text \<open>
  The number of bytes that fill the rest of a window, and the column and the lines left behind
  them.  A carriage return goes to the first column, a line feed or a full line to the next line.
\<close>

fun window :: "int \<Rightarrow> int \<Rightarrow> int \<Rightarrow> u8 list \<Rightarrow> nat \<times> int \<times> int" where
  "window w col h [] = (0, col, h)"
| "window w col h (x # xs) =
     (if h > 0 then
        (case (if x = 13 then window w 1 h xs else if x = 10 \<or> col = w then window w 1 (h - 1) xs
               else window w (col + 1) h xs) of (n, r) \<Rightarrow> (Suc n, r))
      else (0, col, h))"

lemma window_le: "fst (window w col h xs) \<le> length xs"
  by (induction w col h xs rule: window.induct) (auto split: prod.splits)

lemma window_append:
  "window w col h (xs @ ys) = (case window w col h xs of (n, c, h') \<Rightarrow>
     if n < length xs then (n, c, h') else (case window w c h' ys of (m, r) \<Rightarrow> (n + m, r)))"
  by (induction w col h xs rule: window.induct) (auto split: prod.splits)

lemma window_stops: "window w col h xs = (n, c, h') \<Longrightarrow> n < length xs \<Longrightarrow> h' \<le> 0"
  by (induction w col h xs arbitrary: n rule: window.induct) (auto split: prod.splits if_splits)

lemma window_none: "h \<le> 0 \<Longrightarrow> window w col h xs = (0, col, h)"
  by (cases xs) auto

lemma scan_chunk_ok:
  "dcp \<le> length d \<Longrightarrow> scan_chunk d dcp w c col h =
     (case window w col h (take (dcp - c) (drop c d)) of (n, r) \<Rightarrow> Inr (c + n, r))"
proof (induction d dcp w c col h rule: scan_chunk.induct)
  case (1 d dcp w c col h)
  show ?case
  proof (cases "c < dcp \<and> h > 0")
    case True
    then have "take (dcp - c) (drop c d) = d ! c # take (dcp - Suc c) (drop (Suc c) d)"
      using 1(4) by (simp add: Cons_nth_drop_Suc[symmetric] take_Cons')
    with True 1 show ?thesis
      by (subst scan_chunk.simps) (auto simp: mem_simps split: prod.splits)
  next
    case False
    then show ?thesis by (subst scan_chunk.simps) (auto simp: window_none)
  qed
qed

lemma window_loop_stop: "h \<le> 0 \<Longrightarrow> window_loop w p col h iov alloc st = Some (Inr (iov, alloc, st))"
  by (subst window_loop.simps) (simp split: option.split)

text \<open>
  The loop of \<open>buffer_flush_window\<close> passes the first \<open>m\<close> chunks completely, and the bytes it puts
  into the vector are those that fill the window.
\<close>

lemma window_loop_ok:
  assumes "bchain (chunks st) p xs" "distinct xs" "\<forall>x\<in>set xs. chunk_ok N (the (chunks st x))" "N < 2 ^ 63"
    "int (length iov) < alloc" "2 * (int (length iov) + int (length xs) + 1) \<le> INT_MAX"
  shows "\<exists>iov' alloc' H' m. window_loop w p col h iov alloc st = Some (Inr (iov', alloc', st\<lparr>chunks := H'\<rparr>)) \<and>
    concat iov' = concat iov @ take (fst (window w col h (contents (chunks st) xs))) (contents (chunks st) xs) \<and>
    int (length iov') < alloc' \<and> m \<le> length xs \<and> bchain H' p xs \<and> (\<forall>x\<in>set (take m xs). sp (the (H' x)) = cp (the (H' x))) \<and>
    (\<forall>x\<in>set (drop m xs). chunk_ok N (the (H' x))) \<and> (\<forall>a. a \<notin> set xs \<longrightarrow> H' a = chunks st a) \<and>
    contents H' (drop m xs) = drop (fst (window w col h (contents (chunks st) xs))) (contents (chunks st) xs)"
  using assms(1,2,3,5,6)
proof (induction xs arbitrary: p col h iov alloc st)
  case Nil
  then show ?case by (intro exI[of _ iov] exI[of _ alloc] exI[of _ "chunks st"]) (simp add: window_loop.simps)
next
  case (Cons x xs)
  then obtain d where d: "p = Some x" "chunks st x = Some d" "bchain (chunks st) (bnext d) xs" "chunk_ok N d" by auto
  let ?c = "contents (chunks st)"
  show ?case
  proof (cases "h > 0")
    case False
    then show ?thesis using Cons.prems d
      by (intro exI[of _ iov] exI[of _ alloc] exI[of _ "chunks st"] exI[of _ 0])
        (simp add: window_loop_stop window_none)
  next
    case True
    obtain n c1 h1 where w1: "window w col h (content d) = (n, c1, h1)" by (cases "window w col h (content d)")
    have n: "n \<le> length (content d)" using window_le[of w col h "content d"] w1 by simp
    have len: "length (content d) = cp d - sp d" using content_ok[OF d(4)] assms(4) by simp
    have scan: "scan_chunk (cbytes d) (cp d) w (sp d) col h = Inr (sp d + n, c1, h1)"
      using scan_chunk_ok[of "cp d" "cbytes d" w "sp d" col h] w1 d(4) by (simp add: chunk_ok_def content_def)
    have bnd: "sp d + n \<le> cp d" "cp d \<le> length (cbytes d)" "sp d + n < 2 ^ 64"
      using n len d(4) assms(4) by (auto simp: chunk_ok_def)
    have rd: "mem_read (cbytes d) (sp d) (szsub (sp d + n) (sp d)) = Inr (take n (content d))"
      using bnd by (simp add: size_arith mem_simps content_def)
    let ?iov = "iov @ [take n (content d)]" and ?d = "d\<lparr>sp := sp d + n\<rparr>"
    let ?a = "if int (length iov) + 1 = alloc then alloc * 2 else alloc"
    have push: "iov_push iov alloc (take n (content d)) = Inr (?iov, ?a)"
      using Cons.prems(4,5) by (auto simp: iov_push_def int_mul_def INT_MAX_def)
    let ?st = "put_chunk x ?d st"
    have step: "window_loop w p col h iov alloc st = window_loop w (bnext d) c1 h1 ?iov ?a ?st"
      using True d scan rd push by (subst window_loop.simps) (simp add: get_chunk_def)
    have x: "x \<notin> set xs" using Cons.prems(2) by simp
    have rest: "bchain (chunks ?st) (bnext d) xs" "distinct xs" "\<forall>y\<in>set xs. chunk_ok N (the (chunks ?st y))"
      "int (length ?iov) < ?a" "2 * (int (length ?iov) + int (length xs) + 1) \<le> INT_MAX" "contents (chunks ?st) xs = ?c xs"
      using Cons.prems d x by (auto simp: put_chunk_def) 
    have cx: "?c (x # xs) = content d @ ?c xs" using d(2) by simp
    have Hx: "bchain (chunks ?st) p (x # xs)" using rest(1) d(1) by (simp add: put_chunk_def)
    show ?thesis
    proof (cases "n < length (content d)")
      case True
      then have h1: "h1 \<le> 0" using window_stops[OF w1] by simp
      then have fit: "fst (window w col h (?c (x # xs))) = n" using w1 True unfolding cx by (simp add: window_append)
      have "content ?d = drop n (content d)" using bnd by (simp add: content_def drop_take add.commute)
      then have "contents (chunks ?st) (x # xs) = drop n (?c (x # xs))"
        using rest(6) True unfolding cx by (simp add: put_chunk_def)
      moreover have "\<forall>y\<in>set (x # xs). chunk_ok N (the (chunks ?st y))"
        using rest(3) d(4) True len by (auto simp: put_chunk_def chunk_ok_def)
      moreover have "concat ?iov = concat iov @ take n (?c (x # xs))" using True unfolding cx by simp
      moreover have "window_loop w p col h iov alloc st = Some (Inr (?iov, ?a, st\<lparr>chunks := chunks ?st\<rparr>))"
        using step window_loop_stop[OF h1] by (simp add: put_chunk_def)
      moreover have "\<forall>a. a \<notin> set (x # xs) \<longrightarrow> chunks ?st a = chunks st a" by (simp add: put_chunk_def)
      ultimately show ?thesis unfolding fit using Hx rest(4)
        by (intro exI[of _ ?iov] exI[of _ ?a] exI[of _ "chunks ?st"] exI[of _ 0]) (simp only: drop_0 take_0 list.set(1) ball_empty simp_thms le0)
    next
      case False
      then have full: "n = length (content d)" using n by simp
      then have fit: "fst (window w col h (?c (x # xs))) = length (content d) + fst (window w c1 h1 (?c xs))"
        using w1 unfolding cx by (simp add: window_append split: prod.splits)
      from Cons.IH[OF rest(1-5), of c1 h1] obtain iov' alloc' H' m where
        ih: "window_loop w (bnext d) c1 h1 ?iov ?a ?st = Some (Inr (iov', alloc', ?st\<lparr>chunks := H'\<rparr>))"
        "concat iov' = concat ?iov @ take (fst (window w c1 h1 (?c xs))) (?c xs)" "int (length iov') < alloc'"
        "m \<le> length xs" "bchain H' (bnext d) xs" "\<forall>x\<in>set (take m xs). sp (the (H' x)) = cp (the (H' x))"
        "\<forall>x\<in>set (drop m xs). chunk_ok N (the (H' x))" "\<forall>a. a \<notin> set xs \<longrightarrow> H' a = chunks ?st a"
        "contents H' (drop m xs) = drop (fst (window w c1 h1 (?c xs))) (?c xs)"
        unfolding rest(6) by blast
      have "H' x = Some ?d" using ih(8) x by (simp add: put_chunk_def)
      moreover have "sp ?d = cp ?d" using full len d(4) by (simp add: chunk_ok_def)
      moreover have "\<forall>a. a \<notin> set (x # xs) \<longrightarrow> H' a = chunks st a" using ih(8) by (simp add: put_chunk_def)
      moreover have "window_loop w p col h iov alloc st = Some (Inr (iov', alloc', st\<lparr>chunks := H'\<rparr>))"
        using step ih(1) by (simp add: put_chunk_def)
      ultimately show ?thesis unfolding fit using ih full d(1) unfolding cx
        by (intro exI[of _ iov'] exI[of _ alloc'] exI[of _ H'] exI[of _ "Suc m"]) simp
    qed
  qed
qed

lemma free_printed_ok:
  assumes "bchain (chunks st) (bhead b) xs" "distinct xs" "btail b = (if xs = [] then None else Some (last xs))"
    "m \<le> length xs" "\<forall>x\<in>set (take m xs). sp (the (chunks st x)) = cp (the (chunks st x))"
    "\<forall>x\<in>set (drop m xs). chunk_ok (bsize b) (the (chunks st x))" "\<forall>a\<ge>cbrk st. chunks st a = None"
    "0 < bsize b" "bsize b < 2 ^ 63"
  shows "\<exists>b' st'. free_printed b st = Some (Inr (b', st')) \<and> bwf b' st' (drop m xs) \<and>
    contents (chunks st') (drop m xs) = contents (chunks st) (drop m xs)"
  using assms
proof (induction xs arbitrary: b st m)
  case Nil
  then show ?case by (auto simp: free_printed.simps bwf_def)
next
  case (Cons x xs)
  then obtain d where d: "bhead b = Some x" "chunks st x = Some d" "bchain (chunks st) (bnext d) xs" by auto
  show ?case
  proof (cases m)
    case 0
    with Cons.prems d have "sp d \<noteq> cp d" "bwf b st (x # xs)" by (auto simp: chunk_ok_def bwf_def)
    with 0 d show ?thesis by (auto simp: free_printed.simps[of b] get_chunk_def)
  next
    case (Suc m')
    let ?b = "b\<lparr>bhead := bnext d, btail := (if bnext d = None then None else btail b)\<rparr>" and ?st = "free_chunk x st"
    have x: "x \<notin> set xs" using Cons.prems(2) by simp
    then have x': "x \<notin> set (drop m' xs)" by (meson in_set_dropD)
    have "bnext d = None \<longleftrightarrow> xs = []" using d(3) by (cases xs) auto
    then have tl: "btail ?b = (if xs = [] then None else Some (last xs))" using Cons.prems(3) by simp
    have other: "chunks ?st y = chunks st y" if "y \<in> set xs" for y using x that by (auto simp: free_chunk_def)
    have "\<exists>b' st'. free_printed ?b ?st = Some (Inr (b', st')) \<and> bwf b' st' (drop m' xs) \<and>
        contents (chunks st') (drop m' xs) = contents (chunks ?st) (drop m' xs)"
    proof (rule Cons.IH)
      show "bchain (chunks ?st) (bhead ?b) xs" using d(3) x by (simp add: free_chunk_def)
      show "btail ?b = (if xs = [] then None else Some (last xs))" by (rule tl)
      show "\<forall>y\<in>set (take m' xs). sp (the (chunks ?st y)) = cp (the (chunks ?st y))"
        using Cons.prems(5) Suc other in_set_takeD[of _ m' xs] by auto
      show "\<forall>y\<in>set (drop m' xs). chunk_ok (bsize ?b) (the (chunks ?st y))"
        using Cons.prems(6) Suc other in_set_dropD[of _ m' xs] by auto
    qed (use Cons.prems Suc in \<open>auto simp: free_chunk_def\<close>)
    moreover have "free_printed b st = free_printed ?b ?st"
      using d Cons.prems(5) Suc by (subst free_printed.simps) (simp add: get_chunk_def)
    moreover have "contents (chunks ?st) (drop m' xs) = contents (chunks st) (drop m' xs)"
      using x' by (simp add: free_chunk_def)
    ultimately show ?thesis using Suc by simp
  qed
qed

text \<open>What a window shows, and what is written for it.\<close>

definition shown :: "int \<Rightarrow> int \<Rightarrow> u8 list \<Rightarrow> nat" where
  "shown width height bs =
     fst (window (if width < 1 then 1 else width) 1 (if height < 1 then 1 else if height \<ge> 2 then height - 1 else height) bs)"

definition window_bytes :: "int \<Rightarrow> int \<Rightarrow> bool \<Rightarrow> bool \<Rightarrow> u8 list \<Rightarrow> u8 list" where
  "window_bytes width height erase_flag no_more_flag bs =
     (if erase_flag then erase_str else []) @ take (shown width height bs) bs @
     (if shown width height bs < length bs \<and> \<not> no_more_flag then more_str else [])"

lemma window_alloc_ok:
  assumes "0 < bsize b" "0 < width" "0 < height" "height * (width + 2) \<le> INT_MAX - 10"
  shows "\<exists>n. window_alloc b d width height = Inr n \<and> 3 \<le> n \<and> n \<le> INT_MAX"
proof (cases "bnext d = None")
  case True
  then show ?thesis by (simp add: window_alloc_def INT_MAX_def)
next
  case False
  let ?p = "height * (width + 2)"
  have p: "0 < ?p" using assms by simp
  have "1 * (width + 2) \<le> ?p" using assms(2,3) by (intro mult_right_mono) auto
  also have "?p \<le> INT_MAX" using assms(4) by simp
  finally have "width + 2 \<le> INT_MAX" by simp
  then have w: "int_add width 2 = Inr (width + 2)" using assms(2) by (simp add: int_add_def INT_MAX_def)
  have m: "int_mul height (width + 2) = Inr ?p" using p assms(4) by (simp add: int_mul_def INT_MAX_def)
  have q: "0 \<le> ?p div int (bsize b)" "?p div int (bsize b) \<le> ?p"
    using p assms(1) zdiv_mono2[of ?p 1 "int (bsize b)"] by (auto simp: pos_imp_zdiv_nonneg_iff)
  have small: "sint (word_of_int x :: 32 word) = x" if "0 \<le> x" "x \<le> INT_MAX" for x
    using that by (simp add: signed_of_int INT_MAX_def signed_take_bit_int_eq_self)
  have "sint (word_of_int (?p div int (bsize b) + 10) :: 32 word) = ?p div int (bsize b) + 10"
    using q assms(4) by (intro small) simp_all
  with w m q assms(4) False show ?thesis by (simp add: window_alloc_def)
qed

lemma window_fill_ok:
  assumes wf: "bwf b st xs" "xs \<noteq> []" and sz: "0 < width" "0 < height" "height * (width + 2) \<le> INT_MAX - 10"
    "length xs < 2 ^ 29"
  defines "n \<equiv> fst (window width 1 height (contents (chunks st) xs))"
  shows "\<exists>iov H' m. window_fill b st width height erase_flag no_more_flag = Some (Inr (iov, st\<lparr>chunks := H'\<rparr>)) \<and>
    concat iov = (if erase_flag then erase_str else []) @ take n (contents (chunks st) xs) @
      (if n < length (contents (chunks st) xs) \<and> \<not> no_more_flag then more_str else []) \<and>
    m \<le> length xs \<and> bchain H' (bhead b) xs \<and> (\<forall>x\<in>set (take m xs). sp (the (H' x)) = cp (the (H' x))) \<and>
    (\<forall>x\<in>set (drop m xs). chunk_ok (bsize b) (the (H' x))) \<and> (\<forall>a. a \<notin> set xs \<longrightarrow> H' a = chunks st a) \<and>
    contents H' (drop m xs) = drop n (contents (chunks st) xs)"
proof -
  have b: "bchain (chunks st) (bhead b) xs" "distinct xs" "\<forall>x\<in>set xs. chunk_ok (bsize b) (the (chunks st x))"
    "bsize b < 2 ^ 63" "0 < bsize b" "btail b = Some (last xs)" using wf by (auto simp: bwf_def)
  note h = bwf_head[OF wf]
  obtain k where k: "window_alloc b (the (chunks st (hd xs))) width height = Inr k" "3 \<le> k"
    using window_alloc_ok[OF b(5) sz(1-3)] by blast
  let ?iov = "if erase_flag then [erase_str] else []"
  have "int (length ?iov) < k" "2 * (int (length ?iov) + int (length xs) + 1) \<le> INT_MAX"
    using k(2) sz(4) by (auto simp: INT_MAX_def)
  from window_loop_ok[OF b(1-4) this, of width 1 height] obtain iov' alloc' H' m where
    l: "window_loop width (bhead b) 1 height ?iov k st = Some (Inr (iov', alloc', st\<lparr>chunks := H'\<rparr>))"
    "concat iov' = concat ?iov @ take n (contents (chunks st) xs)" "int (length iov') < alloc'" "m \<le> length xs"
    "bchain H' (bhead b) xs" "\<forall>x\<in>set (take m xs). sp (the (H' x)) = cp (the (H' x))"
    "\<forall>x\<in>set (drop m xs). chunk_ok (bsize b) (the (H' x))" "\<forall>a. a \<notin> set xs \<longrightarrow> H' a = chunks st a"
    "contents H' (drop m xs) = drop n (contents (chunks st) xs)" unfolding n_def by blast
  obtain dl where dl: "H' (last xs) = Some dl" using bchain_live[OF l(5)] wf(2) by (meson last_in_set)
  have "m < length xs \<longleftrightarrow> sp dl < cp dl"
  proof (cases "m < length xs")
    case True
    then have "last xs \<in> set (drop m xs)" by (metis drop_eq_Nil last_drop last_in_set not_le)
    with l(7) dl True show ?thesis by (force simp: chunk_ok_def)
  next
    case False
    then have "last xs \<in> set (take m xs)" using wf(2) by simp
    with l(6) dl False show ?thesis by force
  qed
  moreover have "m < length xs \<longleftrightarrow> n < length (contents (chunks st) xs)"
  proof -
    have "contents H' (drop m xs) = [] \<longleftrightarrow> drop m xs = []"
    proof (cases "drop m xs")
      case (Cons y ys)
      then have "chunk_ok (bsize b) (the (H' y))" using l(7) by simp
      then show ?thesis using Cons by (auto simp: chunk_ok_def content_def)
    qed simp
    with l(9) show ?thesis by (simp add: not_le[symmetric])
  qed
  ultimately have more: "sp dl < cp dl \<longleftrightarrow> n < length (contents (chunks st) xs)" by simp
  let ?iov' = "if n < length (contents (chunks st) xs) \<and> \<not> no_more_flag then iov' @ [more_str] else iov'"
  have "get_chunk (st\<lparr>chunks := H'\<rparr>) (last xs) = Inr dl" by (simp add: get_chunk_def dl)
  then have "window_fill b st width height erase_flag no_more_flag = Some (Inr (?iov', st\<lparr>chunks := H'\<rparr>))"
    using h(1,2) k l(1,3) b(6) more by (cases erase_flag) (simp_all add: window_fill_def iov_last_def)
  moreover have "concat ?iov' = (if erase_flag then erase_str else []) @ take n (contents (chunks st) xs) @
      (if n < length (contents (chunks st) xs) \<and> \<not> no_more_flag then more_str else [])"
    using l(2) by auto
  ultimately show ?thesis using l(4-9) by blast
qed

lemma writev_loop_all:
  assumes "\<forall>k bs. fst (os k bs) = Inr (length bs)"
  shows "\<exists>k. writev_loop os iov io = (True, io\<lparr>kern := k, sent := sent io @ concat iov\<rparr>)"
proof (induction iov arbitrary: io rule: length_induct)
  case (1 iov)
  show ?case
  proof (cases "iov = []")
    case True
    then show ?thesis by (intro exI[of _ "kern io"]) (simp add: writev_loop.simps)
  next
    case False
    let ?bs = "concat (take IOV_MAX iov)"
    obtain k where "os (kern io) ?bs = (Inr (length ?bs), k)" using assms by (metis prod.collapse)
    then have "writev_loop os iov io = writev_loop os (drop IOV_MAX iov) (io\<lparr>kern := k, sent := sent io @ ?bs\<rparr>)"
      using False by (subst writev_loop.simps) (simp add: sys_write_def)
    moreover have "length (drop IOV_MAX iov) < length iov" using False by (simp add: IOV_MAX_def)
    moreover have "?bs @ concat (drop IOV_MAX iov) = concat iov" by (simp flip: concat_append)
    ultimately show ?thesis
      using "1.IH"[rule_format, of "drop IOV_MAX iov" "io\<lparr>kern := k, sent := sent io @ ?bs\<rparr>"] by (auto simp del: concat_append)
  qed
qed

section \<open>Properties\<close>

text \<open>The calls of a client, and the bytes they bring.\<close>

datatype buffer_op = Put "u8 list" | Write "u8 list" | Flush | Flush_all

primrec op_bytes :: "buffer_op \<Rightarrow> u8 list" where
  "op_bytes (Put p) = p"
| "op_bytes (Write p) = p"
| "op_bytes Flush = []"
| "op_bytes Flush_all = []"

text \<open>A call and whether it was accepted, that is, did not end with \<open>BUFFER_ERROR\<close>.\<close>

fun buffer_exec ::
  "'k os \<Rightarrow> buffer_op \<Rightarrow> buffer \<times> bstore \<times> 'k io \<Rightarrow> (bool \<times> buffer \<times> bstore \<times> 'k io) res option" where
  "buffer_exec os (Put p) (b, st, io) = map_option (\<lambda>m. bindR m (\<lambda>(b, st). Inr (True, b, st, io))) (buffer_put b p st)"
| "buffer_exec os (Write p) (b, st, io) =
     map_option (\<lambda>m. bindR m (\<lambda>(s, r). Inr (s \<noteq> BUFFER_ERROR, r))) (buffer_write os b p st io)"
| "buffer_exec os Flush (b, st, io) =
     map_option (\<lambda>m. bindR m (\<lambda>(s, r). Inr (s \<noteq> BUFFER_ERROR, r))) (buffer_flush_available os b st io)"
| "buffer_exec os Flush_all (b, st, io) =
     map_option (\<lambda>m. bindR m (\<lambda>(s, r). Inr (s \<noteq> BUFFER_ERROR, r))) (buffer_flush_all os b st io)"

fun buffer_run ::
  "'k os \<Rightarrow> buffer_op list \<Rightarrow> buffer \<times> bstore \<times> 'k io \<Rightarrow> (bool list \<times> buffer \<times> bstore \<times> 'k io) res option" where
  "buffer_run os [] s = Some (Inr ([], s))"
| "buffer_run os (x # xs) s =
     (case buffer_exec os x s of
        None \<Rightarrow> None
      | Some (Inl e) \<Rightarrow> Some (Inl e)
      | Some (Inr (ok, s)) \<Rightarrow> map_option (\<lambda>m. bindR m (\<lambda>(oks, s). Inr (ok # oks, s))) (buffer_run os xs s))"

definition accepted :: "buffer_op list \<Rightarrow> bool list \<Rightarrow> u8 list" where
  "accepted ops oks = concat (map2 (\<lambda>x ok. if ok then op_bytes x else []) ops oks)"

lemma buffer_exec_holds:
  assumes "write_contract os" "holds b st bs"
  shows "case buffer_exec os x (b, st, io) of
      None \<Rightarrow> x = Flush_all \<and> (\<exists>k bs. bs \<noteq> [] \<and> refuses_forever os k bs)
    | Some r \<Rightarrow> \<exists>ok b' st' io' rest. r = Inr (ok, b', st', io') \<and> holds b' st' rest \<and>
        sent io' @ rest = sent io @ bs @ (if ok then op_bytes x else [])"
proof (cases x)
  case (Put p)
  with buffer_put_holds[OF assms(2), of p] show ?thesis by auto
next
  case (Write p)
  with buffer_write_holds[OF assms, of p io] show ?thesis by fastforce
next
  case Flush
  with flush_available_holds[OF assms, of io] show ?thesis by fastforce
next
  case Flush_all
  with flush_all_holds[OF assms, of io] show ?thesis by (fastforce split: option.splits)
qed

lemma buffer_run_holds:
  assumes "write_contract os" "holds b st bs"
  shows "case buffer_run os ops (b, st, io) of
      None \<Rightarrow> Flush_all \<in> set ops \<and> (\<exists>k bs. bs \<noteq> [] \<and> refuses_forever os k bs)
    | Some r \<Rightarrow> \<exists>oks b' st' io' rest. r = Inr (oks, b', st', io') \<and> holds b' st' rest \<and>
        length oks = length ops \<and> sent io' @ rest = sent io @ bs @ accepted ops oks"
  using assms(2)
proof (induction ops arbitrary: b st io bs)
  case (Cons x ops)
  note ex = buffer_exec_holds[OF assms(1) Cons.prems, of x io]
  show ?case
  proof (cases "buffer_exec os x (b, st, io)")
    case None
    with ex show ?thesis by auto
  next
    case (Some r1)
    with ex obtain ok b1 st1 io1 bs1 where
      1: "buffer_exec os x (b, st, io) = Some (Inr (ok, b1, st1, io1))" "holds b1 st1 bs1"
      "sent io1 @ bs1 = sent io @ bs @ (if ok then op_bytes x else [])" by auto
    note IH = Cons.IH[OF 1(2), of io1]
    show ?thesis
    proof (cases "buffer_run os ops (b1, st1, io1)")
      case None
      with IH 1(1) show ?thesis by auto
    next
      case (Some r2)
      with IH obtain oks b2 st2 io2 rest where
        2: "buffer_run os ops (b1, st1, io1) = Some (Inr (oks, b2, st2, io2))" "holds b2 st2 rest" "length oks = length ops"
        "sent io2 @ rest = sent io1 @ bs1 @ accepted ops oks" by auto
      have "sent io2 @ rest = sent io @ bs @ accepted (x # ops) (ok # oks)"
        using arg_cong[OF 1(3), of "\<lambda>z. z @ accepted ops oks"] 2(4) by (simp add: accepted_def)
      moreover have "buffer_run os (x # ops) (b, st, io) = Some (Inr (ok # oks, b2, st2, io2))" using 1(1) 2(1) by simp
      ultimately show ?thesis using 2(2,3) by simp blast
    qed
  qed
qed (simp add: accepted_def)

text \<open>
  C24: A write buffer is a queue of bytes.  Whatever sequence of \<open>buffer_put\<close>, \<open>buffer_write\<close>,
  \<open>buffer_flush_available\<close> and \<open>buffer_flush_all\<close> a client calls on a fresh buffer, and however the
  operating system splits, delays or refuses the writes (which take no more than they are given),
  no call fails, and the bytes written to the descriptor followed by the bytes in the buffer are the
  bytes of the accepted calls in their order: nothing is lost, repeated or reordered.  A sequence
  that does not end contains a \<open>buffer_flush_all\<close> and meets a system that, from some moment on,
  interrupts or takes nothing from every attempt to write the same bytes.  The calls that discard
  bytes, \<open>buffer_reset\<close> and \<open>buffer_flush_window\<close>, are not among these.
\<close>

theorem buffer_delivers_in_order:
  assumes "write_contract os" "0 < pgsz" "pgsz < 2 ^ 32" "sz < 2 ^ 63" "\<forall>a\<ge>cbrk st. chunks st a = None"
  shows "case buffer_run os ops (buffer_new pgsz sz, st, io) of
      None \<Rightarrow> Flush_all \<in> set ops \<and> (\<exists>k bs. bs \<noteq> [] \<and> refuses_forever os k bs)
    | Some r \<Rightarrow> \<exists>oks b st' io' rest. r = Inr (oks, b, st', io') \<and> length oks = length ops \<and>
        holds b st' rest \<and> sent io' @ rest = sent io @ accepted ops oks"
  using buffer_run_holds[OF assms(1) holds_new[OF assms(2,4,3,5)], of ops io] by (auto split: option.splits)

text \<open>A descriptor that is interrupted a number of times and then takes at most three bytes at a time.\<close>

definition ex_os :: "nat os" where
  "ex_os k bs = (if k > 0 then (Inl EINTR, k - 1) else (Inr (min 3 (length bs)), 0))"

lemma ex_os_ok: "write_contract ex_os" "accepting ex_os"
  by (auto simp: write_contract_def accepting_def ex_os_def split: if_splits)

lemma ex_os_gives_in:
  assumes "bs \<noteq> []"
  shows "\<not> refuses_forever ex_os k bs"
proof -
  have "attempt ex_os bs k k = 0" by (induction k) (simp_all add: ex_os_def)
  then have "\<not> refused (fst (ex_os (attempt ex_os bs k k) bs))" using assms by (simp add: ex_os_def refused_def)
  then show ?thesis by (auto simp: refuses_forever_def)
qed

definition no_chunks :: bstore where
  "no_chunks = \<lparr>chunks = \<lambda>_. None, cbrk = 0, junk = \<lambda>_ _. 0\<rparr>"

theorem buffer_delivers_in_order_witness:
  "\<exists>oks b st' io' rest. buffer_run ex_os [Write [1, 2, 3, 4, 5], Put [6], Flush, Flush_all]
       (buffer_new 4096 2, no_chunks, \<lparr>kern = 2, err = EAGAIN, sent = []\<rparr>) = Some (Inr (oks, b, st', io')) \<and>
     length oks = length [Write [1, 2, 3, 4, 5], Put [6], Flush, Flush_all] \<and> holds b st' rest \<and> sent io' @ rest = accepted [Write [1, 2, 3, 4, 5], Put [6], Flush, Flush_all] oks"
  using buffer_delivers_in_order[OF ex_os_ok(1), of 4096 2 no_chunks "[Write [1, 2, 3, 4, 5], Put [6], Flush, Flush_all]"
      "\<lparr>kern = 2, err = EAGAIN, sent = []\<rparr>"] ex_os_gives_in
  by (auto simp: no_chunks_def simp del: buffer_run.simps split: option.splits)

text \<open>
  A system that interrupts every write keeps \<open>buffer_flush_all\<close> in its loop.
\<close>

lemma buffer_flush_all_forever:
  fixes os :: "'k os" and io :: "'k io"
  assumes "holds b st bs" "bs \<noteq> []" "\<And>k bs. fst (os k bs) = Inl EINTR"
  shows "buffer_flush_all os b st io = None"
proof -
  obtain xs where wf: "bwf b st xs" "contents (chunks st) xs = bs" using assms(1) by (auto simp: holds_def)
  have xs: "xs \<noteq> []" using wf assms(2) by auto
  have os: "write_contract os" using assms(3) unfolding write_contract_def by (metis fst_conv sum.distinct(1))
  let ?P = "\<lambda>os' h hs b' st' (io :: 'k io) r. os' = os \<longrightarrow> b' = b \<longrightarrow> st' = st \<longrightarrow> h = hd xs \<longrightarrow>
    hs = sp (the (chunks st (hd xs))) \<longrightarrow> False"
  have "?P os (hd xs) (sp (the (chunks st (hd xs)))) b st io r"
    if "flush_all_loop os (hd xs) (sp (the (chunks st (hd xs)))) b st io = Some r" for r
  proof (rule flush_all_loop.raw_induct[where P = ?P, OF _ that])
    fix F os' h hs b' st' and io :: "'k io" and r
    assume IH: "\<And>os h hs b st io r. F os h hs b st io = Some r \<Longrightarrow> ?P os h hs b st io r"
      and body: "(case buffer_flush_available os' b' st' io of
        None \<Rightarrow> None
      | Some (Inl e) \<Rightarrow> Some (Inl e)
      | Some (Inr (ret, b, st, io)) \<Rightarrow>
          if ret \<noteq> BUFFER_PENDING then Some (Inr (ret, b, st, io))
          else
            (case bhead b of
               None \<Rightarrow> Some (Inl Mem_fault)
             | Some a \<Rightarrow>
                (case get_chunk st a of
                   Inl e \<Rightarrow> Some (Inl e)
                 | Inr d \<Rightarrow>
                     if a = h \<and> hs = sp d \<and> err io \<noteq> EINTR then Some (Inr (ret, b, st, io))
                     else F os' a (sp d) b st io))) = Some r"
    show "?P os' h hs b' st' io r"
    proof (intro impI)
      assume eq: "os' = os" "b' = b" "st' = st" "h = hd xs" "hs = sp (the (chunks st (hd xs)))"
      obtain k where "buffer_flush_available os b st io = Some (Inr (BUFFER_PENDING, b, st, io\<lparr>kern := k, err := EINTR\<rparr>))"
      proof (cases rule: flush_available_ok[OF os wf(1) xs, where io = io, case_names fail ok])
        case (fail e k)
        moreover from this assms(3) have "e = EINTR" by (metis fst_conv sum.inject(1))
        ultimately show thesis using that by (simp add: ERRNO_IO_RETRY_def)
      next
        case (ok n k b' st' xs')
        with assms(3) show thesis by (metis fst_conv sum.distinct(1))
      qed
      with body bwf_head[OF wf(1) xs] have "F os (hd xs) (sp (the (chunks st (hd xs)))) b st (io\<lparr>kern := k, err := EINTR\<rparr>) = Some r"
        unfolding eq by simp
      from IH[OF this] show False by simp
    qed
  qed
  then have "flush_all_loop os (hd xs) (sp (the (chunks st (hd xs)))) b st io = None" by (cases "flush_all_loop os (hd xs) (sp (the (chunks st (hd xs)))) b st io") auto
  then show ?thesis using bwf_head[OF wf(1) xs] by (simp add: buffer_flush_all_def)
qed

text \<open>
  \<open>buffer_flush_all\<close> empties the buffer: when no write is interrupted forever and a write
  that is not interrupted takes at least one byte, it ends with \<open>BUFFER_EMPTY\<close>, every byte that
  waited has been written, in order, and all chunks are released.
\<close>

theorem buffer_flush_all_empties:
  assumes "write_contract os" "\<forall>k bs. bs \<noteq> [] \<longrightarrow> \<not> refuses_forever os k bs" "accepting os" "holds b st bs"
  shows "\<exists>b' st' io'. buffer_flush_all os b st io = Some (Inr (BUFFER_EMPTY, b', st', io')) \<and>
    holds b' st' [] \<and> buffer_empty b' \<and> sent io' = sent io @ bs"
proof -
  obtain b' st' io' where r: "buffer_flush_all os b st io = Some (Inr (BUFFER_EMPTY, b', st', io'))" "holds b' st' []"
    "sent io' = sent io @ bs" using flush_all_holds[OF assms(1,4), of io] assms(2,3) by (auto split: option.splits)
  then have "buffer_empty b'" using bwf_empty by (force simp: holds_def buffer_empty_def)
  with r show ?thesis by blast
qed

theorem buffer_flush_all_empties_witness:
  "\<exists>b st b' st' io'. buffer_put (buffer_new 4096 2) [1, 2, 3, 4, 5] no_chunks = Some (Inr (b, st)) \<and>
     buffer_flush_all ex_os b st \<lparr>kern = 3, err = EAGAIN, sent = []\<rparr> = Some (Inr (BUFFER_EMPTY, b', st', io')) \<and>
     sent io' = [1, 2, 3, 4, 5]"
proof -
  have "holds (buffer_new 4096 2) no_chunks []" by (rule holds_new) (simp_all add: no_chunks_def)
  from buffer_put_holds[OF this, of "[1, 2, 3, 4, 5]"] obtain b st where
    b: "buffer_put (buffer_new 4096 2) [1, 2, 3, 4, 5] no_chunks = Some (Inr (b, st))" "holds b st [1, 2, 3, 4, 5]" by auto
  from buffer_flush_all_empties[OF ex_os_ok(1) _ ex_os_ok(2) b(2), of "\<lparr>kern = 3, err = EAGAIN, sent = []\<rparr>"] ex_os_gives_in b(1) show ?thesis by auto
qed

lemma length_contents: "\<forall>x\<in>set xs. chunk_ok N (the (H x)) \<Longrightarrow> length xs \<le> length (contents H xs)"
proof (induction xs)
  case (Cons x xs)
  then have "1 \<le> length (content (the (H x)))" by (auto simp: chunk_ok_def content_def Suc_le_eq)
  moreover have "length xs \<le> length (contents H xs)" using Cons by simp
  ultimately show ?case by simp
qed simp

text \<open>
  \<open>buffer_flush_window\<close> takes from the buffer exactly the bytes that fill the window (one line
  less than its height, when there is more than one), whatever becomes of the write; if the write
  is complete, it wrote the sequence that erases the old prompt when asked to, these bytes, and
  the prompt \<open>--More--\<close> if bytes remain and the prompt is not suppressed.
\<close>

theorem buffer_flush_window_output:
  assumes "holds b st bs" "bs \<noteq> []" "length bs < 2 ^ 29"
    "(if height \<ge> 2 then height - 1 else 1) * ((if width < 1 then 1 else width) + 2) \<le> INT_MAX - 10"
  shows "\<exists>s b' st' io'. buffer_flush_window os b width height erase_flag no_more_flag st io = Some (Inr (s, b', st', io')) \<and>
    holds b' st' (drop (shown width height bs) bs) \<and>
    ((\<forall>k bs. fst (os k bs) = Inr (length bs)) \<longrightarrow>
       sent io' = sent io @ window_bytes width height erase_flag no_more_flag bs \<and>
       s = (if shown width height bs < length bs then BUFFER_PENDING else BUFFER_EMPTY))"
proof -
  let ?h = "if height < 1 then 1 else if height \<ge> 2 then height - 1 else height" and ?w = "if width < 1 then 1 else width"
  let ?n = "shown width height bs"
  obtain xs where wf: "bwf b st xs" "contents (chunks st) xs = bs" using assms(1) by (auto simp: holds_def)
  then have xs: "xs \<noteq> []" using assms(2) by auto
  have b: "distinct xs" "btail b = (if xs = [] then None else Some (last xs))" "\<forall>x\<in>set xs. chunk_ok (bsize b) (the (chunks st x))"
    "\<forall>a\<ge>cbrk st. chunks st a = None" "0 < bsize b" "bsize b < 2 ^ 63" using wf(1) by (auto simp: bwf_def)
  have len: "length xs < 2 ^ 29" using length_contents[OF b(3)] wf(2) assms(3) by simp
  have h: "?h = (if height \<ge> 2 then height - 1 else 1)" by auto
  have dims: "0 < ?w" "0 < ?h" "?h * (?w + 2) \<le> INT_MAX - 10" using assms(4) unfolding h by auto
  from window_fill_ok[OF wf(1) xs dims len, of erase_flag no_more_flag] obtain iov H' m where
    f: "window_fill b st ?w ?h erase_flag no_more_flag = Some (Inr (iov, st\<lparr>chunks := H'\<rparr>))"
    "concat iov = window_bytes width height erase_flag no_more_flag bs"
    "m \<le> length xs" "bchain H' (bhead b) xs" "\<forall>x\<in>set (take m xs). sp (the (H' x)) = cp (the (H' x))"
    "\<forall>x\<in>set (drop m xs). chunk_ok (bsize b) (the (H' x))" "\<forall>a. a \<notin> set xs \<longrightarrow> H' a = chunks st a"
    "contents H' (drop m xs) = drop ?n bs"
    unfolding wf(2) window_bytes_def shown_def by blast
  have fresh: "\<forall>a\<ge>cbrk (st\<lparr>chunks := H'\<rparr>). chunks (st\<lparr>chunks := H'\<rparr>) a = None"
  proof (intro allI impI)
    fix a assume a: "cbrk (st\<lparr>chunks := H'\<rparr>) \<le> a"
    then have "chunks st a = None" using b(4) by simp
    then have "a \<notin> set xs" using wf(1) bchain_live by (force simp: bwf_def)
    with f(7) \<open>chunks st a = None\<close> show "chunks (st\<lparr>chunks := H'\<rparr>) a = None" by simp
  qed
  obtain b' st' where p: "free_printed b (st\<lparr>chunks := H'\<rparr>) = Some (Inr (b', st'))" "bwf b' st' (drop m xs)"
    "contents (chunks st') (drop m xs) = drop ?n bs"
    using free_printed_ok[of "st\<lparr>chunks := H'\<rparr>" b xs m] f(3-6,8) b fresh by auto
  obtain ok io' where w: "writev_loop os iov io = (ok, io')" by (cases "writev_loop os iov io")
  let ?s = "if \<not> ok then BUFFER_ERROR else if bhead b' \<noteq> None then BUFFER_PENDING else BUFFER_EMPTY"
  obtain a where "bhead b = Some a" using bwf_empty(2)[OF wf(1)] xs by auto
  then have run: "buffer_flush_window os b width height erase_flag no_more_flag st io = Some (Inr (?s, b', st', io'))"
    using f(1) w p(1) by (simp add: buffer_flush_window_def Let_def split del: if_split)
  moreover have "holds b' st' (drop ?n bs)" using p(2,3) by (auto simp: holds_def)
  moreover have "sent io' = sent io @ window_bytes width height erase_flag no_more_flag bs \<and>
      ?s = (if ?n < length bs then BUFFER_PENDING else BUFFER_EMPTY)" if "\<forall>k bs. fst (os k bs) = Inr (length bs)"
  proof -
    have "bhead b' = None \<longleftrightarrow> drop ?n bs = []" using bwf_empty[OF p(2)] p(3) by simp
    with writev_loop_all[OF that, of iov io] w f(2) show ?thesis by auto
  qed
  ultimately show ?thesis by blast
qed

theorem buffer_flush_window_output_witness:
  "\<exists>b st b' st' io'. buffer_put (buffer_new 4096 2) [97, 10, 98, 10, 99] no_chunks = Some (Inr (b, st)) \<and>
     buffer_flush_window (\<lambda>k bs. (Inr (length bs), k)) b 80 2 False False st \<lparr>kern = (), err = EAGAIN, sent = []\<rparr> =
       Some (Inr (BUFFER_PENDING, b', st', io')) \<and> sent io' = [97, 10] @ more_str \<and> holds b' st' [98, 10, 99]"
proof -
  have "holds (buffer_new 4096 2) no_chunks []" by (rule holds_new) (simp_all add: no_chunks_def)
  from buffer_put_holds[OF this, of "[97, 10, 98, 10, 99]"] obtain b st where
    b: "buffer_put (buffer_new 4096 2) [97, 10, 98, 10, 99] no_chunks = Some (Inr (b, st))" "holds b st [97, 10, 98, 10, 99]" by auto
  have n: "shown 80 2 [97, 10, 98, 10, 99] = 2" by (simp add: shown_def)
  from buffer_flush_window_output[OF b(2), of 2 80 "\<lambda>k bs. (Inr (length bs), k)" False False "\<lparr>kern = (), err = EAGAIN, sent = []\<rparr>"]
    b(1) show ?thesis by (auto simp: n window_bytes_def INT_MAX_def)
qed

text \<open>
  Width and height come from the terminal, 16 bits each; their product is computed in an \<open>int\<close>.
\<close>

lemma flush_window_overflow:
  assumes "bhead b = Some a" "chunks st a = Some d" "bnext d \<noteq> None" "0 < width" "width < INT_MAX - 2" "2 \<le> height"
    "INT_MAX < (height - 1) * (width + 2)"
  shows "buffer_flush_window os b width height e n st io = Some (Inl Int_overflow)"
  using assms by (auto simp: buffer_flush_window_def window_fill_def window_alloc_def get_chunk_def int_add_def int_mul_def INT_MAX_def)
end
