(* ===== verification/Community.thy ===== *)
theory Community
  imports Hash_Table Prefix
begin

text \<open>
  BGP communities (bgpd/bgp\_community.c, bgpd/bgp\_community.h): lists of 32 bit values that routes
  carry.  The array \<open>val\<close> holds the words as they are in memory, that is, in network byte order;
  words that \<open>XREALLOC\<close> adds are overwritten at once.
\<close>

section \<open>Data\<close>

text \<open>\<open>htonl\<close> and \<open>ntohl\<close> on a little-endian machine: both reverse the bytes.\<close>

definition swap32 :: "u32 \<Rightarrow> u32" where
  "swap32 w = be32 (ucast w) (ucast (drop_bit 8 w)) (ucast (drop_bit 16 w)) (ucast (drop_bit 24 w))"

record community =
  refcnt :: nat
  csize :: int
  val :: "u32 list option"
  str :: "string option"

definition COMMUNITY_INTERNET :: u32 where "COMMUNITY_INTERNET = 0"
definition COMMUNITY_NO_EXPORT :: u32 where "COMMUNITY_NO_EXPORT = 0xFFFFFF01"
definition COMMUNITY_NO_ADVERTISE :: u32 where "COMMUNITY_NO_ADVERTISE = 0xFFFFFF02"
definition COMMUNITY_LOCAL_AS :: u32 where "COMMUNITY_LOCAL_AS = 0xFFFFFF03"

definition community_new :: community where
  "community_new = \<lparr>refcnt = 0, csize = 0, val = None, str = None\<rparr>"

text \<open>The words behind \<open>val\<close>; every access through a null pointer is outside them.\<close>

definition words :: "community \<Rightarrow> u32 list" where
  "words com = (case val com of None \<Rightarrow> [] | Some vs \<Rightarrow> vs)"

definition com_length :: "int \<Rightarrow> int res" where
  "com_length n = int_mul n 4"

definition realloc :: "int \<Rightarrow> u32 list \<Rightarrow> u32 list" where
  "realloc len vs = take (nat len div 4) vs @ replicate (nat len div 4 - length vs) 0"

section \<open>Values\<close>

definition community_add_val :: "community \<Rightarrow> u32 \<Rightarrow> community res" where
  "community_add_val com v =
     bindR (int_add (csize com) 1) (\<lambda>n.
     bindR (com_length n) (\<lambda>len.
     bindR (mem_set (realloc len (words com)) (nat (n - 1)) (swap32 v)) (\<lambda>vs.
     Inr (com\<lparr>csize := n, val := Some vs\<rparr>))))"

text \<open>The loops that search a word: its position.\<close>

fun find_val :: "u32 list \<Rightarrow> u32 \<Rightarrow> nat \<Rightarrow> nat \<Rightarrow> nat option res" where
  "find_val vs v i 0 = Inr None"
| "find_val vs v i (Suc n) = bindR (mem_get vs i) (\<lambda>x. if x = v then Inr (Some i) else find_val vs v (i + 1) n)"

definition community_del_val :: "community \<Rightarrow> u32 \<Rightarrow> community res" where
  "community_del_val com v =
     (case val com of
        None \<Rightarrow> Inr com
      | Some vs \<Rightarrow>
          bindR (find_val vs v 0 (nat (csize com))) (\<lambda>r.
          case r of
            None \<Rightarrow> Inr com
          | Some i \<Rightarrow>
              let c = nat (csize com) - i - 1 in
              bindR (if c > 0 then bindR (mem_read vs (i + 1) c) (\<lambda>rest. mem_write vs i rest) else Inr vs) (\<lambda>vs.
              let n = csize com - 1 in
              if n > 0 then bindR (com_length n) (\<lambda>len. Inr (com\<lparr>csize := n, val := Some (realloc len vs)\<rparr>))
              else Inr (com\<lparr>csize := n, val := None\<rparr>))))"

fun delete_loop :: "community \<Rightarrow> u32 list \<Rightarrow> nat \<Rightarrow> nat \<Rightarrow> community res" where
  "delete_loop com1 vs i 0 = Inr com1"
| "delete_loop com1 vs i (Suc n) =
     bindR (mem_get vs i) (\<lambda>v. bindR (community_del_val com1 v) (\<lambda>com1. delete_loop com1 vs (i + 1) n))"

definition community_delete :: "community \<Rightarrow> community \<Rightarrow> community res" where
  "community_delete com1 com2 = delete_loop com1 (words com2) 0 (nat (csize com2))"

definition community_compare :: "u32 \<Rightarrow> u32 \<Rightarrow> int" where
  "community_compare a1 a2 =
     (let v1 = swap32 a1; v2 = swap32 a2 in if v1 < v2 then - 1 else if v1 > v2 then 1 else 0)"

definition community_include :: "community \<Rightarrow> u32 \<Rightarrow> bool res" where
  "community_include com v =
     bindR (find_val (words com) (swap32 v) 0 (nat (csize com))) (\<lambda>r. Inr (r \<noteq> None))"

definition community_val_get :: "community \<Rightarrow> nat \<Rightarrow> u32 res" where
  "community_val_get com i = bindR (mem_get (words com) i) (\<lambda>v. Inr (swap32 v))"

text \<open>\<open>qsort\<close> of the C library: a sorted permutation.\<close>

fun insert_by :: "('a \<Rightarrow> 'a \<Rightarrow> int) \<Rightarrow> 'a \<Rightarrow> 'a list \<Rightarrow> 'a list" where
  "insert_by cmp x [] = [x]"
| "insert_by cmp x (y # ys) = (if cmp x y \<le> 0 then x # y # ys else y # insert_by cmp x ys)"

definition qsort :: "('a \<Rightarrow> 'a \<Rightarrow> int) \<Rightarrow> 'a list \<Rightarrow> 'a list" where
  "qsort cmp xs = foldr (insert_by cmp) xs []"

fun uniq_loop :: "community \<Rightarrow> nat \<Rightarrow> nat \<Rightarrow> community \<Rightarrow> community res" where
  "uniq_loop com i 0 new = Inr new"
| "uniq_loop com i (Suc n) new =
     bindR (community_val_get com i) (\<lambda>v.
     bindR (community_include new v) (\<lambda>found.
     bindR (if \<not> found then community_add_val new v else Inr new) (uniq_loop com (i + 1) n)))"

definition community_uniq_sort :: "community \<Rightarrow> community res" where
  "community_uniq_sort com =
     bindR (uniq_loop com 0 (nat (csize com)) community_new) (\<lambda>new.
     Inr (new\<lparr>val := map_option (qsort community_compare) (val new)\<rparr>))"

definition community_dup :: "community \<Rightarrow> community res" where
  "community_dup com =
     (if csize com \<noteq> 0
      then bindR (mem_read (words com) 0 (nat (csize com))) (\<lambda>vs.
             Inr (community_new\<lparr>csize := csize com, val := Some vs\<rparr>))
      else Inr (community_new\<lparr>csize := csize com, val := None\<rparr>))"

text \<open>The sum of the bytes.\<close>

definition word_bytes :: "u32 \<Rightarrow> u32" where
  "word_bytes w =
     ucast (ucast w :: u8) + ucast (ucast (drop_bit 8 w) :: u8) + ucast (ucast (drop_bit 16 w) :: u8) +
     ucast (ucast (drop_bit 24 w) :: u8)"

fun hash_loop :: "u32 list \<Rightarrow> nat \<Rightarrow> nat \<Rightarrow> u32 \<Rightarrow> u32 res" where
  "hash_loop vs i 0 key = Inr key"
| "hash_loop vs i (Suc n) key = bindR (mem_get vs i) (\<lambda>w. hash_loop vs (i + 1) n (key + word_bytes w))"

definition community_hash_make :: "community \<Rightarrow> u32 res" where
  "community_hash_make com = hash_loop (words com) 0 (nat (csize com)) 0"

fun match_vals :: "u32 list \<Rightarrow> u32 list \<Rightarrow> nat \<Rightarrow> nat \<Rightarrow> nat \<Rightarrow> nat \<Rightarrow> nat res" where
  "match_vals vs1 vs2 i 0 j n2 = Inr j"
| "match_vals vs1 vs2 i (Suc n) j n2 =
     (if j < n2
      then bindR (mem_get vs1 i) (\<lambda>a. bindR (mem_get vs2 j) (\<lambda>b.
             match_vals vs1 vs2 (i + 1) n (if a = b then j + 1 else j) n2))
      else Inr j)"

definition community_match :: "community option \<Rightarrow> community option \<Rightarrow> bool res" where
  "community_match c1 c2 =
     (case (c1, c2) of
        (None, None) \<Rightarrow> Inr True
      | (Some com1, Some com2) \<Rightarrow>
          if csize com1 < csize com2 then Inr False
          else bindR (match_vals (words com1) (words com2) 0 (nat (csize com1)) 0 (nat (csize com2))) (\<lambda>j.
                 Inr (j = nat (csize com2)))
      | _ \<Rightarrow> Inr False)"

definition community_cmp :: "community option \<Rightarrow> community option \<Rightarrow> bool res" where
  "community_cmp c1 c2 =
     (case (c1, c2) of
        (None, None) \<Rightarrow> Inr True
      | (Some com1, Some com2) \<Rightarrow>
          if csize com1 = csize com2
          then bindR (mem_read (words com1) 0 (nat (csize com1))) (\<lambda>a.
               bindR (mem_read (words com2) 0 (nat (csize com1))) (\<lambda>b. Inr (a = b)))
          else Inr False
      | _ \<Rightarrow> Inr False)"

definition community_merge :: "community \<Rightarrow> community \<Rightarrow> community res" where
  "community_merge com1 com2 =
     bindR (int_add (csize com1) (csize com2)) (\<lambda>n.
     bindR (com_length n) (\<lambda>len.
     bindR (mem_read (words com2) 0 (nat (csize com2))) (\<lambda>vs2.
     bindR (mem_write (realloc len (words com1)) (nat (csize com1)) vs2) (\<lambda>vs.
     Inr (com1\<lparr>csize := n, val := Some vs\<rparr>)))))"

section \<open>Strings\<close>

fun len_loop :: "u32 list \<Rightarrow> nat \<Rightarrow> nat \<Rightarrow> int \<Rightarrow> int res" where
  "len_loop vs i 0 len = Inr len"
| "len_loop vs i (Suc n) len =
     bindR (mem_get vs i) (\<lambda>w.
     let comval = swap32 w in
     bindR (int_add len (int (length
       (if comval = COMMUNITY_INTERNET then '' internet''
        else if comval = COMMUNITY_NO_EXPORT then '' no-export''
        else if comval = COMMUNITY_NO_ADVERTISE then '' no-advertise''
        else if comval = COMMUNITY_LOCAL_AS then '' local-AS''
        else '' 65536:65535'')))) (len_loop vs (i + 1) n))"

text \<open>What is written for a value: the names of the well-known ones, or both halves in decimal.\<close>

definition com_string :: "u32 \<Rightarrow> string" where
  "com_string comval =
     (if comval = COMMUNITY_INTERNET then ''internet''
      else if comval = COMMUNITY_NO_EXPORT then ''no-export''
      else if comval = COMMUNITY_NO_ADVERTISE then ''no-advertise''
      else if comval = COMMUNITY_LOCAL_AS then ''local-AS''
      else let as = ucast (drop_bit 16 comval AND 0xFFFF) :: u16; v = ucast (comval AND 0xFFFF) :: u16
           in decimal (unat as) @ '':'' @ decimal (unat v))"

text \<open>The loop that fills the string \<open>s\<close> at position \<open>pnt\<close>.\<close>

fun fill_loop :: "u32 list \<Rightarrow> nat \<Rightarrow> nat \<Rightarrow> bool \<Rightarrow> string \<Rightarrow> nat \<Rightarrow> (string \<times> nat) res" where
  "fill_loop vs i 0 first s pnt = Inr (s, pnt)"
| "fill_loop vs i (Suc n) first s pnt =
     bindR (mem_get vs i) (\<lambda>w.
     bindR (if first then Inr (s, pnt) else bindR (mem_set s pnt (CHR '' '')) (\<lambda>s. Inr (s, pnt + 1))) (\<lambda>(s, pnt).
     let t = com_string (swap32 w) in
     bindR (mem_write s pnt (t @ [CHR 0x00])) (\<lambda>s.
     fill_loop vs (i + 1) n False s (pnt + length t))))"

definition community_com2str :: "community \<Rightarrow> string res" where
  "community_com2str com =
     (if csize com = 0 then Inr ''''
      else
        bindR (len_loop (words com) 0 (nat (csize com)) 0) (\<lambda>len.
        bindR (fill_loop (words com) 0 (nat (csize com)) True (replicate (nat len) (CHR 0x00)) 0) (\<lambda>(s, pnt).
        bindR (mem_set s pnt (CHR 0x00)) (\<lambda>s. Inr (takeWhile (\<lambda>c. c \<noteq> CHR 0x00) s)))))"

datatype community_token =
  community_token_val | community_token_no_export | community_token_no_advertise | community_token_local_as |
  community_token_unknown

definition isalpha :: "char \<Rightarrow> bool" where
  "isalpha c \<longleftrightarrow> (of_char c :: nat) \<in> {65..90} \<or> (of_char c :: nat) \<in> {97..122}"

text \<open>The loop over digits and colons: \<open>None\<close> for a second colon.\<close>

fun token_loop :: "string \<Rightarrow> bool \<Rightarrow> bool \<Rightarrow> u32 \<Rightarrow> u32 \<Rightarrow> (string \<times> bool \<times> u32 \<times> u32) option" where
  "token_loop [] separator digit low high = Some ([], digit, low, high)"
| "token_loop (c # p) separator digit low high =
     (if c = CHR '':'' then
        if separator then None else token_loop p True False 0 (push_bit 16 low)
      else if isdigit c then token_loop p separator True (low * 10 + of_nat (digit_val c)) high
      else Some (c # p, digit, low, high))"

text \<open>
  The rest of the string, or \<open>None\<close>; \<open>token\<close> and \<open>val\<close> keep their values when they are not
  assigned, as at the end of the line.
\<close>

definition community_gettoken :: "string \<Rightarrow> community_token \<Rightarrow> u32 \<Rightarrow> string option \<times> community_token \<times> u32" where
  "community_gettoken buf token v =
     (case dropWhile isspace buf of
        [] \<Rightarrow> (None, token, v)
      | c # cs \<Rightarrow>
          let p = c # cs in
          if isalpha c then
            if take 8 p = ''internet'' then (Some (drop 8 p), community_token_no_export, COMMUNITY_INTERNET)
            else if take 9 p = ''no-export'' then (Some (drop 9 p), community_token_no_export, COMMUNITY_NO_EXPORT)
            else if take 12 p = ''no-advertise'' then (Some (drop 12 p), community_token_no_advertise, COMMUNITY_NO_ADVERTISE)
            else if take 8 p = ''local-AS'' then (Some (drop 8 p), community_token_local_as, COMMUNITY_LOCAL_AS)
            else (None, community_token_unknown, v)
          else if isdigit c then
            (case token_loop p False False 0 0 of
               None \<Rightarrow> (None, community_token_unknown, v)
             | Some (rest, digit, low, high) \<Rightarrow>
                 if \<not> digit then (None, community_token_unknown, v)
                 else (Some rest, community_token_val, high + low))
          else (None, community_token_unknown, v))"

lemma token_loop_suffix: "token_loop p sep digit low high = Some (rest, r) \<Longrightarrow> length rest \<le> length p"
  by (induction p sep digit low high rule: token_loop.induct) (auto split: if_splits)

lemma gettoken_shorter:
  assumes "community_gettoken buf token v = (Some rest, r)"
  shows "length rest < length buf"
proof -
  have "length (dropWhile isspace buf) \<le> length buf" by (rule length_dropWhile_le)
  with assms show ?thesis
    by (auto simp: community_gettoken_def Let_def split: list.splits if_splits option.splits dest!: token_loop_suffix)
qed

function str2com_loop :: "string \<Rightarrow> community_token \<Rightarrow> u32 \<Rightarrow> community option \<Rightarrow> community option res" where
  "str2com_loop s token v com =
     (case community_gettoken s token v of
        (rest, token, v) \<Rightarrow>
          if token = community_token_unknown then Inr None
          else
            bindR (community_add_val (case com of None \<Rightarrow> community_new | Some c \<Rightarrow> c) v) (\<lambda>com.
            case rest of None \<Rightarrow> Inr (Some com) | Some r \<Rightarrow> str2com_loop r token v (Some com)))"
  by pat_completeness auto
termination
  by (relation "measure (\<lambda>(s, token, v, com). length s)") (auto dest: gettoken_shorter[OF sym])

declare str2com_loop.simps [simp del]

definition community_str2com :: "string \<Rightarrow> community option res" where
  "community_str2com s =
     bindR (str2com_loop s community_token_unknown 0 None) (\<lambda>com.
     case com of None \<Rightarrow> Inr None | Some com \<Rightarrow> bindR (community_uniq_sort com) (\<lambda>c. Inr (Some c)))"

section \<open>Interning\<close>

text \<open>
  All communities in memory, by address, and the table \<open>comhash\<close> of the interned ones.  The
  callbacks of the table read the communities as they are when they are called.
\<close>

record comstate =
  coms :: "nat \<Rightarrow> community option"
  combrk :: nat
  comhash :: "nat hash"

definition coms_at :: "(nat \<Rightarrow> community option) \<Rightarrow> nat \<Rightarrow> community res" where
  "coms_at H a = (case H a of None \<Rightarrow> Inl Mem_fault | Some c \<Rightarrow> Inr c)"

definition com_key :: "(nat \<Rightarrow> community option) \<Rightarrow> nat \<Rightarrow> u32" where
  "com_key H a = (case coms_at H a of Inl _ \<Rightarrow> 0 | Inr c \<Rightarrow> (case community_hash_make c of Inl _ \<Rightarrow> 0 | Inr k \<Rightarrow> k))"

definition com_same :: "(nat \<Rightarrow> community option) \<Rightarrow> nat \<Rightarrow> nat \<Rightarrow> bool" where
  "com_same H a b = (case community_cmp (H a) (H b) of Inl _ \<Rightarrow> False | Inr r \<Rightarrow> r)"

definition bound_hash :: "comstate \<Rightarrow> nat hash" where
  "bound_hash s = (comhash s)\<lparr>hash_key := com_key (coms s), hash_cmp := com_same (coms s)\<rparr>"

definition community_init :: "comstate res" where
  "community_init =
     bindR (hash_create (com_key (\<lambda>_. None)) (com_same (\<lambda>_. None))) (\<lambda>h.
     Inr \<lparr>coms = \<lambda>_. None, combrk = 0, comhash = h\<rparr>)"

definition community_intern :: "nat \<Rightarrow> comstate \<Rightarrow> (nat \<times> comstate) res" where
  "community_intern a s =
     bindR (coms_at (coms s) a) (\<lambda>com.
     if refcnt com \<noteq> 0 then Inl Assert_failed
     else
       bindR (hash_get (bound_hash s) a (Some hash_alloc_intern)) (\<lambda>(r, h).
       case r of
         None \<Rightarrow> Inl Mem_fault
       | Some f \<Rightarrow>
           let H = (if f \<noteq> a then (coms s)(a := None) else coms s) in
           bindR (coms_at H f) (\<lambda>c.
           let c = c\<lparr>refcnt := uadd 64 (refcnt c) 1\<rparr> in
           bindR (if str c = None then bindR (community_com2str c) (\<lambda>t. Inr (c\<lparr>str := Some t\<rparr>)) else Inr c) (\<lambda>c.
           Inr (f, s\<lparr>coms := H(f \<mapsto> c), comhash := h\<rparr>)))))"

text \<open>The result is the pointer after the call: null when the community has been released.\<close>

definition community_unintern :: "nat \<Rightarrow> comstate \<Rightarrow> (nat option \<times> comstate) res" where
  "community_unintern a s =
     bindR (coms_at (coms s) a) (\<lambda>c.
     let c = (if refcnt c \<noteq> 0 then c\<lparr>refcnt := usub 64 (refcnt c) 1\<rparr> else c);
         s = s\<lparr>coms := (coms s)(a \<mapsto> c)\<rparr> in
     if refcnt c = 0 then
       bindR (hash_release (bound_hash s) a) (\<lambda>(ret, h).
       if ret = None then Inl Assert_failed
       else Inr (None, s\<lparr>coms := (coms s)(a := None), comhash := h\<rparr>))
     else Inr (Some a, s))"

definition community_parse :: "u32 list \<Rightarrow> nat \<Rightarrow> comstate \<Rightarrow> (nat option \<times> comstate) res" where
  "community_parse pnt len s =
     (if len mod 4 \<noteq> 0 then Inr (None, s)
      else
        bindR (community_uniq_sort (community_new\<lparr>csize := int (len div 4), val := Some pnt\<rparr>)) (\<lambda>new.
        let a = combrk s in
        bindR (community_intern a (s\<lparr>coms := (coms s)(a \<mapsto> new), combrk := a + 1\<rparr>)) (\<lambda>(f, s). Inr (Some f, s))))"

definition community_str :: "nat option \<Rightarrow> comstate \<Rightarrow> (string option \<times> comstate) res" where
  "community_str p s =
     (case p of
        None \<Rightarrow> Inr (None, s)
      | Some a \<Rightarrow>
          bindR (coms_at (coms s) a) (\<lambda>c.
          case str c of
            Some t \<Rightarrow> Inr (Some t, s)
          | None \<Rightarrow>
              bindR (community_com2str c) (\<lambda>t.
              Inr (Some t, s\<lparr>coms := (coms s)(a \<mapsto> c\<lparr>str := Some t\<rparr>)\<rparr>))))"

definition community_count :: "comstate \<Rightarrow> nat" where
  "community_count s = hcount (comhash s)"

section \<open>Byte order\<close>

lemma swap32_bytes:
  "ucast (swap32 w) = (ucast (drop_bit 24 w) :: u8)" "ucast (drop_bit 8 (swap32 w)) = (ucast (drop_bit 16 w) :: u8)"
  "ucast (drop_bit 16 (swap32 w)) = (ucast (drop_bit 8 w) :: u8)" "ucast (drop_bit 24 (swap32 w)) = (ucast w :: u8)"
  by (rule bit_word_eqI; auto simp: swap32_def be32_def bit_simps)+

lemma swap32_swap32 [simp]: "swap32 (swap32 w) = w"
proof -
  have "swap32 (swap32 w) = be32 (ucast (drop_bit 24 w)) (ucast (drop_bit 16 w)) (ucast (drop_bit 8 w)) (ucast w)"
    unfolding swap32_def[of "swap32 w"] swap32_bytes ..
  then show ?thesis by (simp add: byte_simps)
qed

lemma swap32_inject [simp]: "swap32 v = swap32 w \<longleftrightarrow> v = w"
  by (metis swap32_swap32)

lemma inj_swap32: "inj swap32"
  by (simp add: inj_def)

section \<open>Well-formed communities\<close>

text \<open>The values a community stands for.\<close>

definition vals :: "community \<Rightarrow> u32 list" where
  "vals com = map swap32 (words com)"

definition com_wf :: "community \<Rightarrow> bool" where
  "com_wf com \<longleftrightarrow> csize com = int (length (words com)) \<and> length (words com) < 2 ^ 28"

lemma com_wf_new: "com_wf community_new" "vals community_new = []" "words community_new = []"
  by (simp_all add: com_wf_def community_new_def vals_def words_def)

lemma words_vals: "words com = map swap32 (vals com)"
  by (simp add: vals_def o_def)

lemma com_length_ok: "0 \<le> n \<Longrightarrow> n < 2 ^ 29 \<Longrightarrow> com_length n = Inr (n * 4)"
  by (simp add: com_length_def int_mul_def INT_MAX_def)

lemma add_val_ok:
  assumes "com_wf com"
  shows "\<exists>com'. community_add_val com v = Inr com' \<and> vals com' = vals com @ [v] \<and> csize com' = csize com + 1 \<and>
    words com' = words com @ [swap32 v] \<and> refcnt com' = refcnt com \<and> str com' = str com"
proof -
  let ?n = "length (words com)"
  have n: "csize com = int ?n" "?n < 2 ^ 28" using assms by (auto simp: com_wf_def)
  have "int_add (csize com) 1 = Inr (int ?n + 1)" using n by (simp add: int_add_def INT_MAX_def)
  moreover have "com_length (int ?n + 1) = Inr ((int ?n + 1) * 4)" using n by (intro com_length_ok) auto
  moreover have "realloc ((int ?n + 1) * 4) (words com) = words com @ [0]"
  proof -
    have "nat ((int ?n + 1) * 4) div 4 = ?n + 1" by (simp add: nat_mult_distrib nat_add_distrib)
    then show ?thesis by (simp add: realloc_def)
  qed
  ultimately have "community_add_val com v = Inr (com\<lparr>csize := int ?n + 1, val := Some (words com @ [swap32 v])\<rparr>)"
    by (simp add: community_add_val_def mem_simps)
  then show ?thesis using n by (simp add: vals_def words_def)
qed

lemma find_val_ok:
  "i + n \<le> length vs \<Longrightarrow> \<exists>r. find_val vs v i n = Inr r \<and>
     (case r of None \<Rightarrow> v \<notin> set (take n (drop i vs))
      | Some j \<Rightarrow> i \<le> j \<and> j < i + n \<and> vs ! j = v \<and> v \<notin> set (take (j - i) (drop i vs)))"
proof (induction n arbitrary: i)
  case (Suc n)
  then obtain r where r: "find_val vs v (i + 1) n = Inr r"
    "case r of None \<Rightarrow> v \<notin> set (take n (drop (i + 1) vs))
     | Some j \<Rightarrow> i + 1 \<le> j \<and> j < i + 1 + n \<and> vs ! j = v \<and> v \<notin> set (take (j - (i + 1)) (drop (i + 1) vs))"
    using Suc.IH[of "i + 1"] by auto
  have d: "drop i vs = vs ! i # drop (i + 1) vs" using Suc.prems by (simp add: Cons_nth_drop_Suc)
  show ?case
  proof (cases "vs ! i = v")
    case True
    then show ?thesis using Suc.prems by (auto simp: mem_simps)
  next
    case False
    then show ?thesis using Suc.prems r by (auto simp: mem_simps d take_Cons' split: option.splits)
  qed
qed simp

lemma include_ok:
  assumes "com_wf com"
  shows "community_include com v = Inr (v \<in> set (vals com))"
proof -
  obtain r where "find_val (words com) (swap32 v) 0 (length (words com)) = Inr r"
    "case r of None \<Rightarrow> swap32 v \<notin> set (words com) | Some j \<Rightarrow> j < length (words com) \<and> words com ! j = swap32 v"
    using find_val_ok[of 0 "length (words com)" "words com" "swap32 v"] by (auto split: option.splits)
  moreover have "v \<in> set (vals com) \<longleftrightarrow> swap32 v \<in> set (words com)" by (auto simp: words_vals)
  ultimately show ?thesis using assms by (auto simp: community_include_def com_wf_def split: option.splits dest: nth_mem)
qed

section \<open>Sorting\<close>

lemma mset_qsort [simp]: "mset (qsort cmp xs) = mset xs"
proof -
  have ins: "mset (insert_by cmp x ys) = add_mset x (mset ys)" for x and ys :: "'a list" by (induction ys) auto
  show ?thesis unfolding qsort_def by (induction xs) (auto simp: ins)
qed

lemma set_qsort [simp]: "set (qsort cmp xs) = set xs"
  by (metis mset_qsort set_mset_mset)

lemma qsort_compare: "map swap32 (qsort community_compare ws) = sort (map swap32 ws)"
proof -
  have ins: "map swap32 (insert_by community_compare w ws) = insort (swap32 w) (map swap32 ws)" for w ws
    by (induction ws) (auto simp: community_compare_def Let_def)
  show ?thesis unfolding qsort_def by (induction ws) (auto simp: ins)
qed

lemma uniq_loop_ok:
  assumes "com_wf com" "i + n \<le> length (words com)" "com_wf new" "length (words new) \<le> i" "distinct (vals new)"
  shows "\<exists>new'. uniq_loop com i n new = Inr new' \<and> com_wf new' \<and> distinct (vals new') \<and>
    set (vals new') = set (vals new) \<union> set (take n (drop i (vals com))) \<and> length (words new') \<le> i + n \<and>
    refcnt new' = refcnt new \<and> str new' = str new"
  using assms
proof (induction n arbitrary: i new)
  case (Suc n)
  let ?v = "swap32 (words com ! i)"
  have i: "i < length (words com)" using Suc.prems(2) by simp
  have d: "drop i (vals com) = ?v # drop (i + 1) (vals com)" using i by (simp add: vals_def flip: Cons_nth_drop_Suc drop_map)
  have get: "community_val_get com i = Inr ?v" using i by (simp add: community_val_get_def mem_simps)
  obtain new1 where new1: "(if \<not> ?v \<in> set (vals new) then community_add_val new ?v else Inr new) = Inr new1"
    "com_wf new1" "distinct (vals new1)" "set (vals new1) = insert ?v (set (vals new))" "length (words new1) \<le> i + 1"
    "refcnt new1 = refcnt new" "str new1 = str new"
  proof (cases "?v \<in> set (vals new)")
    case True
    with Suc.prems that[of new] show thesis by (simp add: insert_absorb)
  next
    case False
    obtain c where c: "community_add_val new ?v = Inr c" "vals c = vals new @ [?v]" "csize c = csize new + 1"
      "words c = words new @ [swap32 ?v]" "refcnt c = refcnt new" "str c = str new"
      using add_val_ok[OF Suc.prems(3), of ?v] by blast
    then have "com_wf c" using Suc.prems(1-4) by (auto simp: com_wf_def)
    with c False Suc.prems that[of c] show thesis by simp
  qed
  from Suc.IH[OF assms(1) _ new1(2,5,3)] Suc.prems(2) obtain new2 where
    "uniq_loop com (i + 1) n new1 = Inr new2" "com_wf new2" "distinct (vals new2)"
    "set (vals new2) = set (vals new1) \<union> set (take n (drop (i + 1) (vals com)))" "length (words new2) \<le> i + 1 + n"
    "refcnt new2 = refcnt new1" "str new2 = str new1" by auto
  moreover have "uniq_loop com i (Suc n) new = uniq_loop com (i + 1) n new1"
    using get include_ok[OF Suc.prems(3)] new1(1) by (simp split: if_splits)
  ultimately show ?case using d new1 by auto
qed simp

lemma sort_distinct_set: "distinct xs \<Longrightarrow> sort xs = sorted_list_of_set (set xs)"
  by (simp add: sorted_list_of_set_sort_remdups distinct_remdups_id)

lemma uniq_sort_ok:
  assumes "com_wf com"
  shows "\<exists>new. community_uniq_sort com = Inr new \<and> vals new = sorted_list_of_set (set (vals com)) \<and> com_wf new \<and>
    length (words new) \<le> length (words com) \<and> refcnt new = 0 \<and> str new = None"
proof -
  have "\<exists>new. uniq_loop com 0 (length (words com)) community_new = Inr new \<and> com_wf new \<and> distinct (vals new) \<and>
      set (vals new) = set (vals com) \<and> length (words new) \<le> length (words com) \<and> refcnt new = 0 \<and> str new = None"
    using uniq_loop_ok[OF assms, of 0 "length (words com)" community_new] com_wf_new
    by (auto simp: vals_def community_new_def)
  then obtain new where new: "uniq_loop com 0 (length (words com)) community_new = Inr new" "com_wf new"
    "distinct (vals new)" "set (vals new) = set (vals com)" "length (words new) \<le> length (words com)"
    "refcnt new = 0" "str new = None" by blast
  let ?new = "new\<lparr>val := map_option (qsort community_compare) (val new)\<rparr>"
  have w: "words ?new = qsort community_compare (words new)" by (simp add: words_def qsort_def split: option.split)
  have "length (words ?new) = length (words new)" unfolding w by (metis mset_qsort size_mset)
  moreover have "vals ?new = sorted_list_of_set (set (vals com))"
    using sort_distinct_set[OF new(3)] new(4) by (simp add: vals_def w qsort_compare)
  moreover have "community_uniq_sort com = Inr ?new" using new(1) assms by (simp add: community_uniq_sort_def com_wf_def)
  ultimately show ?thesis using new by (simp add: com_wf_def)
qed

section \<open>Removing, merging and comparing\<close>

lemma del_val_ok:
  assumes "com_wf com"
  shows "\<exists>com'. community_del_val com (swap32 v) = Inr com' \<and> vals com' = remove1 v (vals com) \<and> com_wf com'"
proof (cases "val com")
  case None
  then show ?thesis using assms by (simp add: community_del_val_def vals_def words_def)
next
  case (Some vs)
  then have w: "words com = vs" by (simp add: words_def)
  have n: "nat (csize com) = length vs" "length vs < 2 ^ 28" "csize com = int (length vs)"
    using assms w by (auto simp: com_wf_def)
  obtain r where r: "find_val vs (swap32 v) 0 (length vs) = Inr r"
    "case r of None \<Rightarrow> swap32 v \<notin> set vs
     | Some j \<Rightarrow> j < length vs \<and> vs ! j = swap32 v \<and> swap32 v \<notin> set (take j vs)"
    using find_val_ok[of 0 "length vs" vs "swap32 v"] by (auto split: option.splits)
  show ?thesis
  proof (cases r)
    case None
    then have "v \<notin> set (vals com)" using r(2) w by (auto simp: vals_def)
    with None Some r(1) n(1) assms show ?thesis by (simp add: community_del_val_def remove1_idem)
  next
    case (Some j)
    then have j: "j < length vs" "vs ! j = swap32 v" "swap32 v \<notin> set (take j vs)" using r(2) by auto
    let ?ws = "take j vs @ drop (j + 1) vs"
    have vs: "vs = take j vs @ swap32 v # drop (j + 1) vs" using id_take_nth_drop[OF j(1)] j(2) by simp
    have rem: "remove1 v (map swap32 vs) = map swap32 ?ws"
    proof -
      have "v \<notin> set (map swap32 (take j vs))" using j(3) by auto
      then show ?thesis by (subst vs) (simp add: remove1_append)
    qed
    let ?vs' = "?ws @ drop (length vs - 1) vs"
    have mv: "(if length vs - j - 1 > 0 then bindR (mem_read vs (j + 1) (length vs - j - 1)) (mem_write vs j) else Inr vs) = Inr ?vs'"
    proof (cases "length vs - j - 1 > 0")
      case True
      then show ?thesis using j(1) by (simp add: mem_simps)
    next
      case False
      then have "drop (j + 1) vs = []" "length vs - 1 = j" using j(1) by auto
      with False show ?thesis by simp
    qed
    have len: "length ?ws = length vs - 1" using j(1) by simp
    have "nat (int (length vs - 1) * 4) div 4 = length vs - 1" by (simp add: nat_mult_distrib)
    moreover have "take (length xs) (xs @ ys) = xs" "length xs - length (xs @ ys) = 0" for xs ys :: "u32 list" by simp_all
    note this[of ?ws "drop (length vs - 1) vs", unfolded len]
    ultimately have cut: "realloc (int (length vs - 1) * 4) ?vs' = ?ws"
      by (simp only: realloc_def replicate_0 append_Nil2)
    have sz: "csize com - 1 = int (length vs - 1)" using n(3) j(1) by (simp add: of_nat_diff)
    have "com_length (int (length vs - 1)) = Inr (int (length vs - 1) * 4)" using n(2) by (intro com_length_ok) auto
    moreover have "community_del_val com (swap32 v) = (if 0 < csize com - 1
        then bindR (com_length (csize com - 1)) (\<lambda>len. Inr (com\<lparr>csize := csize com - 1, val := Some (realloc len ?vs')\<rparr>))
        else Inr (com\<lparr>csize := csize com - 1, val := None\<rparr>))"
      by (simp only: community_del_val_def \<open>val com = Some vs\<close> option.case n(1) r(1) Some bindR_simps Let_def mv)
    ultimately have "community_del_val com (swap32 v) = Inr (if 0 < int (length vs - 1)
        then com\<lparr>csize := int (length vs - 1), val := Some ?ws\<rparr> else com\<lparr>csize := int (length vs - 1), val := None\<rparr>)"
      using cut by (simp only: sz bindR_simps if_distrib[of Inr])
    moreover have "?ws = []" if "\<not> 0 < int (length vs - 1)" using len that by (metis length_0_conv of_nat_0_less_iff gr0I)
    ultimately show ?thesis using rem n w len by (auto simp: vals_def words_def com_wf_def split: if_splits)
  qed
qed

lemma delete_loop_ok:
  assumes "com_wf com" "i + n \<le> length ws"
  shows "\<exists>com'. delete_loop com ws i n = Inr com' \<and> com_wf com' \<and>
    vals com' = fold remove1 (map swap32 (take n (drop i ws))) (vals com)"
  using assms
proof (induction n arbitrary: i com)
  case (Suc n)
  obtain c where c: "community_del_val com (ws ! i) = Inr c" "vals c = remove1 (swap32 (ws ! i)) (vals com)" "com_wf c"
    using del_val_ok[OF Suc.prems(1), of "swap32 (ws ! i)"] by auto
  have "drop i ws = ws ! i # drop (i + 1) ws" using Suc.prems(2) by (simp add: Cons_nth_drop_Suc)
  with Suc.IH[OF c(3), of "i + 1"] Suc.prems(2) c(1,2) show ?case by (auto simp: mem_simps)
qed simp

lemma fold_remove1: "distinct xs \<Longrightarrow> fold remove1 ys xs = filter (\<lambda>x. x \<notin> set ys) xs"
proof (induction ys arbitrary: xs)
  case (Cons y ys)
  then have "remove1 y xs = filter (\<lambda>x. x \<noteq> y) xs" by (simp add: distinct_remove1_removeAll removeAll_filter_not_eq eq_commute)
  with Cons show ?case by (simp add: conj_commute)
qed simp

lemma delete_ok:
  assumes "com_wf com1" "com_wf com2" "distinct (vals com1)"
  shows "\<exists>com. community_delete com1 com2 = Inr com \<and> com_wf com \<and> vals com = filter (\<lambda>v. v \<notin> set (vals com2)) (vals com1)"
  using delete_loop_ok[OF assms(1), of 0 "length (words com2)" "words com2"] assms(2) fold_remove1[OF assms(3)]
  by (auto simp: community_delete_def com_wf_def vals_def)

lemma merge_ok:
  assumes "com_wf com1" "com_wf com2" "length (words com1) + length (words com2) < 2 ^ 28"
  shows "\<exists>com. community_merge com1 com2 = Inr com \<and> com_wf com \<and> vals com = vals com1 @ vals com2"
proof -
  let ?n1 = "length (words com1)" and ?n2 = "length (words com2)"
  have n: "csize com1 = int ?n1" "csize com2 = int ?n2" using assms by (auto simp: com_wf_def)
  have add: "int_add (csize com1) (csize com2) = Inr (int (?n1 + ?n2))" using n assms(3) by (simp add: int_add_def INT_MAX_def)
  have len: "com_length (int (?n1 + ?n2)) = Inr (int (?n1 + ?n2) * 4)" using assms(3) by (intro com_length_ok) auto
  have "nat (int (?n1 + ?n2) * 4) div 4 = ?n1 + ?n2" by (simp add: nat_mult_distrib)
  then have re: "realloc (int (?n1 + ?n2) * 4) (words com1) = words com1 @ replicate ?n2 0" by (simp add: realloc_def)
  have rd: "mem_read (words com2) 0 (nat (csize com2)) = Inr (words com2)" using n by (simp add: mem_simps)
  have "mem_write (words com1 @ replicate ?n2 0) (nat (csize com1)) (words com2) = Inr (words com1 @ words com2)"
    using n by (simp add: mem_simps)
  with add len re rd have "community_merge com1 com2 = Inr (com1\<lparr>csize := int (?n1 + ?n2), val := Some (words com1 @ words com2)\<rparr>)"
    by (simp add: community_merge_def)
  with assms(3) show ?thesis by (simp add: com_wf_def vals_def words_def)
qed

lemma dup_ok:
  assumes "com_wf com"
  shows "\<exists>com'. community_dup com = Inr com' \<and> com_wf com' \<and> vals com' = vals com \<and> refcnt com' = 0"
  using assms by (cases "words com = []") (auto simp: community_dup_def community_new_def com_wf_def vals_def words_def mem_simps)

lemma cmp_ok:
  assumes "com_wf com1" "com_wf com2"
  shows "community_cmp (Some com1) (Some com2) = Inr (vals com1 = vals com2)"
proof -
  have "vals com1 = vals com2 \<longleftrightarrow> words com1 = words com2" by (metis words_vals vals_def)
  moreover have "words com1 \<noteq> words com2" if "length (words com1) \<noteq> length (words com2)" using that by auto
  ultimately show ?thesis using assms by (auto simp: community_cmp_def com_wf_def mem_simps)
qed

lemma hash_loop_ok: "i + n \<le> length vs \<Longrightarrow> hash_loop vs i n key = Inr (key + (\<Sum>w\<leftarrow>take n (drop i vs). word_bytes w))"
proof (induction n arbitrary: i key)
  case (Suc n)
  then have "drop i vs = vs ! i # drop (i + 1) vs" by (simp add: Cons_nth_drop_Suc)
  with Suc show ?case by (simp add: mem_simps add.assoc)
qed simp

lemma hash_make_ok: "com_wf com \<Longrightarrow> community_hash_make com = Inr (\<Sum>w\<leftarrow>words com. word_bytes w)"
  using hash_loop_ok[of 0 "length (words com)" "words com" 0] by (simp add: community_hash_make_def com_wf_def)

section \<open>Matching\<close>

fun greedy :: "'a list \<Rightarrow> 'a list \<Rightarrow> nat" where
  "greedy (x # xs) (y # ys) = (if x = y then Suc (greedy xs ys) else greedy xs (y # ys))"
| "greedy _ _ = 0"

lemma greedy_le: "greedy xs ys \<le> length ys"
  by (induction xs ys rule: greedy.induct) auto

lemma match_vals_ok:
  "i + n \<le> length ws1 \<Longrightarrow> j \<le> length ws2 \<Longrightarrow>
   match_vals ws1 ws2 i n j (length ws2) = Inr (j + greedy (take n (drop i ws1)) (drop j ws2))"
proof (induction n arbitrary: i j)
  case (Suc n)
  show ?case
  proof (cases "j < length ws2")
    case True
    have d: "drop i ws1 = ws1 ! i # drop (i + 1) ws1" "drop j ws2 = ws2 ! j # drop (j + 1) ws2"
      using Suc.prems(1) True by (simp_all add: Cons_nth_drop_Suc)
    show ?thesis using Suc.IH[of "i + 1" "j + 1"] Suc.IH[of "i + 1" j] Suc.prems True
      by (simp add: mem_simps d)
  next
    case False
    with Suc.prems show ?thesis by (cases "take (Suc n) (drop i ws1)") simp_all
  qed
qed simp

text \<open>For strictly sorted lists the greedy search finds all of the second list exactly if it is contained in the first.\<close>

lemma greedy_sorted:
  fixes f :: "'a \<Rightarrow> 'b :: linorder"
  shows "sorted_wrt (\<lambda>a b. f a < f b) xs \<Longrightarrow> sorted_wrt (\<lambda>a b. f a < f b) ys \<Longrightarrow>
    greedy xs ys = length ys \<longleftrightarrow> set ys \<subseteq> set xs"
proof (induction xs ys rule: greedy.induct)
  case (1 x xs y ys)
  show ?case
  proof (cases "x = y")
    case True
    then have "x \<notin> set ys" "x \<notin> set xs" using "1.prems" by auto
    with True 1 show ?thesis by auto
  next
    case False
    have "set (y # ys) \<subseteq> set (x # xs) \<longleftrightarrow> set (y # ys) \<subseteq> set xs"
    proof
      assume sub: "set (y # ys) \<subseteq> set (x # xs)"
      then have "f x < f y" using False "1.prems"(1) by auto
      then have "x \<notin> set (y # ys)" using "1.prems"(2) False by auto
      with sub show "set (y # ys) \<subseteq> set xs" by auto
    qed auto
    with False 1 show ?thesis by simp
  qed
qed auto

text \<open>Canonical communities are those that \<open>community_uniq_sort\<close> makes.\<close>

definition canonical :: "community \<Rightarrow> bool" where
  "canonical com \<longleftrightarrow> com_wf com \<and> sorted_wrt (<) (vals com)"

lemma canonicalD: "canonical com \<Longrightarrow> com_wf com" "canonical com \<Longrightarrow> distinct (vals com)"
  by (auto simp: canonical_def strict_sorted_iff)

lemma canonical_sort: "com_wf com \<Longrightarrow> vals com = sorted_list_of_set A \<Longrightarrow> canonical com"
  by (simp add: canonical_def)

lemma canonical_eq: "canonical com \<Longrightarrow> vals com = sorted_list_of_set (set (vals com))"
  by (metis canonical_def sorted_list_of_set.idem_if_sorted_distinct strict_sorted_iff)

lemma match_ok:
  assumes "canonical com1" "canonical com2"
  shows "community_match (Some com1) (Some com2) = Inr (set (vals com2) \<subseteq> set (vals com1))"
proof -
  let ?w1 = "words com1" and ?w2 = "words com2"
  have n: "csize com1 = int (length ?w1)" "csize com2 = int (length ?w2)"
    using assms canonicalD(1) by (auto simp: com_wf_def)
  have s: "sorted_wrt (\<lambda>a b. swap32 a < swap32 b) ?w1" "sorted_wrt (\<lambda>a b. swap32 a < swap32 b) ?w2"
    using assms by (auto simp: canonical_def vals_def sorted_wrt_map)
  have sub: "set ?w2 \<subseteq> set ?w1 \<longleftrightarrow> set (vals com2) \<subseteq> set (vals com1)"
    by (simp add: vals_def inj_image_subset_iff[OF inj_swap32])
  show ?thesis
  proof (cases "length ?w1 < length ?w2")
    case True
    have "\<not> set (vals com2) \<subseteq> set (vals com1)"
    proof
      assume "set (vals com2) \<subseteq> set (vals com1)"
      then have "card (set (vals com2)) \<le> card (set (vals com1))" by (simp add: card_mono)
      then have "length (vals com2) \<le> length (vals com1)"
        by (simp add: distinct_card canonicalD(2)[OF assms(1)] canonicalD(2)[OF assms(2)])
      with True show False by (simp add: vals_def)
    qed
    with True n show ?thesis by (simp add: community_match_def)
  next
    case False
    have "match_vals ?w1 ?w2 0 (length ?w1) 0 (length ?w2) = Inr (greedy ?w1 ?w2)"
      using match_vals_ok[of 0 "length ?w1" ?w1 0 ?w2] by simp
    with False n greedy_sorted[OF s] sub show ?thesis by (simp add: community_match_def)
  qed
qed

text \<open>
  C25: Communities in canonical form behave as sets of values: including a value is membership,
  matching is containment, comparing is equality, deleting is difference, merging followed by
  \<open>community_uniq_sort\<close> is union, and both results are canonical again.
\<close>

theorem community_set_algebra:
  assumes "canonical com1" "canonical com2" "length (words com1) + length (words com2) < 2 ^ 28"
  shows "community_include com1 v = Inr (v \<in> set (vals com1)) \<and>
    community_match (Some com1) (Some com2) = Inr (set (vals com2) \<subseteq> set (vals com1)) \<and>
    community_cmp (Some com1) (Some com2) = Inr (set (vals com1) = set (vals com2)) \<and>
    (\<exists>d. community_delete com1 com2 = Inr d \<and> canonical d \<and> set (vals d) = set (vals com1) - set (vals com2)) \<and>
    (\<exists>m u. community_merge com1 com2 = Inr m \<and> community_uniq_sort m = Inr u \<and> canonical u \<and>
      set (vals u) = set (vals com1) \<union> set (vals com2))"
proof (intro conjI)
  note wf = canonicalD(1)[OF assms(1)] canonicalD(1)[OF assms(2)]
  show "community_include com1 v = Inr (v \<in> set (vals com1))" by (rule include_ok[OF wf(1)])
  show "community_match (Some com1) (Some com2) = Inr (set (vals com2) \<subseteq> set (vals com1))" by (rule match_ok[OF assms(1,2)])
  have "vals com1 = vals com2 \<longleftrightarrow> set (vals com1) = set (vals com2)"
    using canonical_eq[OF assms(1)] canonical_eq[OF assms(2)] by metis
  then show "community_cmp (Some com1) (Some com2) = Inr (set (vals com1) = set (vals com2))" using cmp_ok[OF wf] by simp
  obtain d where d: "community_delete com1 com2 = Inr d" "com_wf d" "vals d = filter (\<lambda>v. v \<notin> set (vals com2)) (vals com1)"
    using delete_ok[OF wf canonicalD(2)[OF assms(1)]] by blast
  then have "canonical d" using assms(1) by (simp add: canonical_def sorted_wrt_filter)
  with d show "\<exists>d. community_delete com1 com2 = Inr d \<and> canonical d \<and> set (vals d) = set (vals com1) - set (vals com2)" by auto
  obtain m where m: "community_merge com1 com2 = Inr m" "com_wf m" "vals m = vals com1 @ vals com2"
    using merge_ok[OF wf assms(3)] by blast
  from uniq_sort_ok[OF m(2)] obtain u where "community_uniq_sort m = Inr u" "vals u = sorted_list_of_set (set (vals m))" "com_wf u"
    by blast
  with m canonical_sort[of u] show "\<exists>m u. community_merge com1 com2 = Inr m \<and> community_uniq_sort m = Inr u \<and> canonical u \<and>
      set (vals u) = set (vals com1) \<union> set (vals com2)" by auto
qed

definition com_of :: "u32 list \<Rightarrow> community" where
  "com_of vs = community_new\<lparr>csize := int (length vs), val := Some (map swap32 vs)\<rparr>"

lemma com_of_simps [simp]: "vals (com_of vs) = vs" "words (com_of vs) = map swap32 vs" "csize (com_of vs) = int (length vs)"
  by (simp_all add: com_of_def vals_def words_def o_def)

theorem community_set_algebra_witness:
  "community_match (Some (com_of [1, 5, 9])) (Some (com_of [1, 9])) = Inr True \<and>
   (\<exists>d. community_delete (com_of [1, 5, 9]) (com_of [1, 9]) = Inr d \<and> set (vals d) = {5})"
proof -
  have c: "canonical (com_of [1, 5, 9])" "canonical (com_of [1, 9])" by (auto simp: canonical_def com_wf_def)
  have "{1, 5, 9} - {1, 9} = {5 :: u32}" by auto
  with community_set_algebra[OF c, of 0] show ?thesis by auto
qed

section \<open>Strings of communities\<close>

lemma decimal_length: "n < 10 ^ k \<Longrightarrow> 0 < k \<Longrightarrow> length (decimal n) \<le> k"
proof (induction n arbitrary: k rule: decimal.induct)
  case (1 n)
  show ?case
  proof (cases "n < 10")
    case True
    with 1(3) show ?thesis by (simp add: decimal.simps[of n])
  next
    case False
    have "k \<noteq> 1" using False 1(2) by auto
    then obtain k' where k: "k = Suc k'" "0 < k'" using 1(3) by (cases k) auto
    then have "length (decimal (n div 10)) \<le> k'" using 1(1)[OF False, of k'] 1(2) by (simp add: less_mult_imp_div_less)
    with False k show ?thesis by (simp add: decimal.simps[of n])
  qed
qed

lemma unat_u16: "unat (x :: u16) < 10 ^ 5"
proof -
  have "unat x < 2 ^ LENGTH(16)" by (rule unsigned_less)
  then show ?thesis by simp
qed

text \<open>The length that is reserved for a value, with the blank in front of it, is enough.\<close>

definition com_room :: "u32 \<Rightarrow> nat" where
  "com_room v = length (if v = COMMUNITY_INTERNET then '' internet'' else if v = COMMUNITY_NO_EXPORT then '' no-export''
     else if v = COMMUNITY_NO_ADVERTISE then '' no-advertise'' else if v = COMMUNITY_LOCAL_AS then '' local-AS''
     else '' 65536:65535'')"

lemma com_string_room: "Suc (length (com_string v)) \<le> com_room v" "com_room v \<le> 13"
proof -
  have "length (decimal (unat a)) \<le> 5" for a :: u16 using decimal_length[OF unat_u16, of a] by simp
  then have "length (decimal (unat a)) + length (decimal (unat b)) \<le> 10" for a b :: u16 by (metis add_mono numeral_Bit0)
  then have "length (decimal (unat a) @ '':'' @ decimal (unat b)) \<le> 11" for a b :: u16 by simp
  then have "length (decimal (unat a) @ '':'' @ decimal (unat b)) < length '' 65536:65535''" for a b :: u16
    by (simp add: less_Suc_eq_le numeral_eq_Suc)
  then show "Suc (length (com_string v)) \<le> com_room v"
    unfolding com_string_def com_room_def Let_def Suc_le_eq by simp
  show "com_room v \<le> 13" by (auto simp: com_room_def)
qed

fun com_join :: "bool \<Rightarrow> u32 list \<Rightarrow> string" where
  "com_join first [] = []"
| "com_join first (v # vs) = (if first then [] else '' '') @ com_string v @ com_join False vs"

lemma com_join_room: "length (com_join first vs) + (if first \<and> vs \<noteq> [] then 1 else 0) \<le> (\<Sum>v\<leftarrow>vs. com_room v)"
proof (induction vs arbitrary: first)
  case (Cons v vs)
  from Cons.IH[of False] com_string_room(1)[of v] show ?case by auto
qed simp

lemma len_loop_ok:
  assumes "i + n \<le> length ws" "len + 13 * int n \<le> INT_MAX" "0 \<le> len"
  shows "len_loop ws i n len = Inr (len + int (\<Sum>w\<leftarrow>take n (drop i ws). com_room (swap32 w)))"
  using assms
proof (induction n arbitrary: i len)
  case (Suc n)
  have d: "drop i ws = ws ! i # drop (i + 1) ws" using Suc.prems(1) by (simp add: Cons_nth_drop_Suc)
  have r: "com_room (swap32 (ws ! i)) \<le> 13" by (rule com_string_room)
  then have "int_add len (int (com_room (swap32 (ws ! i)))) = Inr (len + int (com_room (swap32 (ws ! i))))"
    using Suc.prems by (simp add: int_add_def INT_MAX_def)
  then have "len_loop ws i (Suc n) len = len_loop ws (i + 1) n (len + int (com_room (swap32 (ws ! i))))"
    using Suc.prems(1) by (simp add: mem_simps com_room_def Let_def)
  also have "\<dots> = Inr (len + int (com_room (swap32 (ws ! i))) + int (\<Sum>w\<leftarrow>take n (drop (i + 1) ws). com_room (swap32 w)))"
    by (rule Suc.IH) (use Suc.prems r in auto)
  finally show ?case by (simp add: d)
qed simp

lemma fill_loop_ok:
  assumes "i + n \<le> length ws" "length (com_join first (map swap32 (take n (drop i ws)))) < length post"
  shows "\<exists>post'. fill_loop ws i n first (pre @ post) (length pre) =
      Inr (pre @ com_join first (map swap32 (take n (drop i ws))) @ post',
           length pre + length (com_join first (map swap32 (take n (drop i ws))))) \<and> post' \<noteq> []"
  using assms
proof (induction n arbitrary: i first pre post)
  case (Suc n)
  let ?t = "com_string (swap32 (ws ! i))" and ?sep = "if first then [] else '' ''"
  let ?j = "com_join False (map swap32 (take n (drop (i + 1) ws)))"
  have d: "drop i ws = ws ! i # drop (i + 1) ws" using Suc.prems(1) by (simp add: Cons_nth_drop_Suc)
  have len: "length ?sep + length ?t + length ?j < length post" using Suc.prems(2) by (simp add: d)
  have sep: "(if first then Inr (pre @ post, length pre)
      else bindR (mem_set (pre @ post) (length pre) (CHR '' '')) (\<lambda>s. Inr (s, length pre + 1))) =
      Inr (pre @ ?sep @ drop (length ?sep) post, length (pre @ ?sep))"
    using len by (cases post) (auto simp: mem_simps)
  have wr: "mem_write ((pre @ ?sep) @ drop (length ?sep) post) (length (pre @ ?sep)) (?t @ [CHR 0x00]) =
      Inr ((pre @ ?sep @ ?t) @ CHR 0x00 # drop (length ?sep + length ?t + 1) post)"
    using len by (simp add: mem_simps add.commute)
  have "fill_loop ws i (Suc n) first (pre @ post) (length pre) =
      fill_loop ws (i + 1) n False ((pre @ ?sep @ ?t) @ CHR 0x00 # drop (length ?sep + length ?t + 1) post) (length (pre @ ?sep @ ?t))"
    using Suc.prems(1) sep wr by (simp add: mem_simps Let_def)
  moreover have "length ?j < length (CHR 0x00 # drop (length ?sep + length ?t + 1) post)" using len by simp
  ultimately show ?case
    using Suc.IH[of "i + 1" False "CHR 0x00 # drop (length ?sep + length ?t + 1) post" "pre @ ?sep @ ?t"] Suc.prems(1)
    by (auto simp: d)
qed auto

lemma decimal_no_nul: "c \<in> set (decimal n) \<Longrightarrow> c \<noteq> CHR 0x00"
  using decimal_digits[of n] by (auto simp: list_all_iff isdigit_def)

lemma com_join_no_nul: "c \<in> set (com_join first vs) \<Longrightarrow> c \<noteq> CHR 0x00"
  by (induction vs arbitrary: first) (auto simp: com_string_def Let_def dest: decimal_no_nul split: if_splits)

lemma com2str_ok:
  assumes "com_wf com" "length (words com) < 2 ^ 27"
  shows "community_com2str com = Inr (com_join True (vals com))"
proof (cases "words com = []")
  case True
  then show ?thesis using assms by (simp add: community_com2str_def com_wf_def vals_def)
next
  case False
  let ?ws = "words com" and ?n = "length (words com)"
  let ?len = "\<Sum>w\<leftarrow>?ws. com_room (swap32 w)"
  have n: "nat (csize com) = ?n" "csize com \<noteq> 0" using assms False by (auto simp: com_wf_def)
  have "len_loop ?ws 0 ?n 0 = Inr (int ?len)" using len_loop_ok[of 0 ?n ?ws 0] assms(2) by (simp add: INT_MAX_def)
  moreover have room: "length (com_join True (vals com)) < ?len"
    using com_join_room[of True "vals com"] False by (simp add: vals_def o_def)
  moreover from fill_loop_ok[of 0 ?n ?ws True "replicate ?len (CHR 0x00)" "[]"] room obtain post where
    "fill_loop ?ws 0 ?n True (replicate ?len (CHR 0x00)) 0 = Inr (com_join True (vals com) @ post, length (com_join True (vals com)))"
    "post \<noteq> []" by (auto simp: vals_def)
  moreover have "mem_set (com_join True (vals com) @ post) (length (com_join True (vals com))) (CHR 0x00) =
      Inr (com_join True (vals com) @ CHR 0x00 # tl post)"
    using \<open>post \<noteq> []\<close> by (cases post) (auto simp: mem_simps)
  moreover have "takeWhile (\<lambda>c. c \<noteq> CHR 0x00) (com_join True (vals com) @ CHR 0x00 # tl post) = com_join True (vals com)"
    by (subst takeWhile_append2) (auto dest: com_join_no_nul)
  ultimately show ?thesis using n by (simp add: community_com2str_def)
qed

lemma token_loop_digits:
  assumes "list_all isdigit ds" "ds \<noteq> [] \<or> digit"
  shows "token_loop (ds @ rest) sep digit (of_nat m) high = token_loop rest sep True (of_nat (strtol_digits m ds)) high"
  using assms
proof (induction ds arbitrary: m digit)
  case (Cons c ds)
  have "c \<noteq> CHR '':''" using Cons.prems(1) by (auto simp: isdigit_def)
  moreover have "of_nat m * 10 + of_nat (digit_val c) = (of_nat (10 * m + digit_val c) :: u32)" by simp
  ultimately show ?case using Cons.IH[of True "10 * m + digit_val c"] Cons.prems by (simp del: of_nat_add of_nat_mult)
qed simp

lemma halves: "push_bit 16 (of_nat (unat (ucast (drop_bit 16 v AND 0xFFFF) :: u16))) + of_nat (unat (ucast (v AND 0xFFFF) :: u16)) = v"
  for v :: u32
proof -
  have m: "(0xFFFF :: u32) = mask 16" by (simp add: mask_eq_exp_minus_1)
  have "(of_nat (unat (ucast x :: u16)) :: u32) = x AND mask 16" for x :: u32
    by (rule bit_word_eqI) (auto simp: bit_simps)
  moreover have "push_bit 16 (drop_bit 16 v AND mask 16) OR (v AND mask 16) = v"
    by (rule bit_word_eqI) (auto simp: bit_simps)
  moreover have "push_bit 16 (drop_bit 16 v AND mask 16) + (v AND mask 16) = push_bit 16 (drop_bit 16 v AND mask 16) OR (v AND mask 16)"
    by (rule disjunctive_add) (auto simp: bit_simps)
  ultimately show ?thesis unfolding m by (simp add: and.assoc)
qed

lemma isdigit_not_alpha: "isdigit c \<Longrightarrow> \<not> isalpha c \<and> \<not> isspace c"
  by (auto simp: isdigit_def isalpha_def isspace_def)

text \<open>Where a value ends: at the end of the string or at a blank.\<close>

definition ended :: "string \<Rightarrow> bool" where
  "ended rest \<longleftrightarrow> rest = [] \<or> hd rest = CHR '' ''"

lemma gettoken_blank: "community_gettoken (CHR '' '' # s) token v = community_gettoken s token v"
  by (simp add: community_gettoken_def isspace_def)

lemma gettoken_string:
  assumes "ended rest"
  shows "\<exists>tok. community_gettoken (com_string v @ rest) token v0 = (Some rest, tok, v) \<and> tok \<noteq> community_token_unknown"
proof -
  let ?d1 = "decimal (unat (ucast (drop_bit 16 v AND 0xFFFF) :: u16))" and ?d2 = "decimal (unat (ucast (v AND 0xFFFF) :: u16))"
  show ?thesis
  proof (cases "v \<in> {COMMUNITY_INTERNET, COMMUNITY_NO_EXPORT, COMMUNITY_NO_ADVERTISE, COMMUNITY_LOCAL_AS}")
    case True
    then show ?thesis
      by (auto simp: com_string_def community_gettoken_def isspace_def isalpha_def COMMUNITY_INTERNET_def
          COMMUNITY_NO_EXPORT_def COMMUNITY_NO_ADVERTISE_def COMMUNITY_LOCAL_AS_def)
  next
    case False
    then have num: "com_string v = ?d1 @ '':'' @ ?d2" by (simp add: com_string_def Let_def)
    obtain c cs where c: "?d1 = c # cs" by (cases ?d1) auto
    then have digit: "isdigit c" using decimal_digits[of "unat (ucast (drop_bit 16 v AND 0xFFFF) :: u16)"] by simp
    have stop: "token_loop rest True True low high = Some (rest, True, low, high)" for low high
      using assms by (cases rest) (auto simp: ended_def isdigit_def)
    have "token_loop (?d1 @ '':'' @ ?d2 @ rest) False False 0 0 = Some (rest, True,
        of_nat (unat (ucast (v AND 0xFFFF) :: u16)), push_bit 16 (of_nat (unat (ucast (drop_bit 16 v AND 0xFFFF) :: u16))))"
      using token_loop_digits[of ?d1 False "'':'' @ ?d2 @ rest" False 0 0]
        token_loop_digits[of ?d2 False rest True 0 "push_bit 16 (of_nat (unat (ucast (drop_bit 16 v AND 0xFFFF) :: u16)))"] stop
      by (simp add: strtol_digits_decimal)
    then show ?thesis using isdigit_not_alpha[OF digit] digit c halves[of v] num
      by (simp add: community_gettoken_def)
  qed
qed

lemma str2com_join:
  assumes "vs \<noteq> []" "com_wf (case com of None \<Rightarrow> community_new | Some c \<Rightarrow> c)"
    "length (words (case com of None \<Rightarrow> community_new | Some c \<Rightarrow> c)) + length vs + 1 < 2 ^ 28"
  shows "\<exists>c. str2com_loop (com_join first vs) tok v0 com = Inr (Some c) \<and> com_wf c \<and>
    vals c = vals (case com of None \<Rightarrow> community_new | Some c \<Rightarrow> c) @ vs @ [last vs]"
  using assms
proof (induction vs arbitrary: first tok v0 com)
  case (Cons v vs)
  let ?com = "case com of None \<Rightarrow> community_new | Some c \<Rightarrow> c"
  have add: "\<exists>c. community_add_val c0 w = Inr c \<and> vals c = vals c0 @ [w] \<and> com_wf c \<and> length (words c) = length (words c0) + 1"
    if "com_wf c0" "length (words c0) + 1 < 2 ^ 28" for c0 w
    using add_val_ok[OF that(1), of w] that by (auto simp: com_wf_def)
  have "ended (com_join False vs)" by (cases vs) (auto simp: ended_def)
  from gettoken_string[OF this, of v] obtain t where
    t: "community_gettoken (com_join first (v # vs)) tok v0 = (Some (com_join False vs), t, v)" "t \<noteq> community_token_unknown"
    by (cases first) (auto simp: gettoken_blank)
  obtain c where c: "community_add_val ?com v = Inr c" "vals c = vals ?com @ [v]" "com_wf c" "length (words c) = length (words ?com) + 1"
    using add[OF Cons.prems(2), of v] Cons.prems(3) by auto
  have step: "str2com_loop (com_join first (v # vs)) tok v0 com = str2com_loop (com_join False vs) t v (Some c)"
    using t c(1) by (subst str2com_loop.simps) simp
  show ?case
  proof (cases "vs = []")
    case True
    obtain c' where "community_add_val c v = Inr c'" "vals c' = vals c @ [v]" "com_wf c'"
      using add[OF c(3), of v] c(4) Cons.prems(3) by auto
    moreover have "community_gettoken [] t v = (None, t, v)" by (simp add: community_gettoken_def)
    ultimately have "str2com_loop [] t v (Some c) = Inr (Some c')" using t(2) by (subst str2com_loop.simps) simp
    with step True c \<open>vals c' = vals c @ [v]\<close> \<open>com_wf c'\<close> show ?thesis by simp
  next
    case False
    with Cons.IH[OF False, of "Some c" False t v] c Cons.prems(3) step show ?thesis by auto
  qed
qed simp

text \<open>
  C26: The string of a community in canonical form with at least one value is parsed into the same
  community: the names of the well-known values and the pairs of numbers survive the round trip,
  although the parser stores the last value twice, and the string fits into the memory that was
  computed for it.  The community without values becomes the empty string, which the parser refuses.
\<close>

theorem community_string_roundtrip:
  assumes "canonical com" "length (words com) < 2 ^ 27"
  shows "if vals com = [] then community_com2str com = Inr '''' \<and> community_str2com '''' = Inr None
     else \<exists>s com'. community_com2str com = Inr s \<and> community_str2com s = Inr (Some com') \<and> canonical com' \<and>
       vals com' = vals com"
proof (cases "vals com = []")
  case True
  then have "csize com = 0" using canonicalD(1)[OF assms(1)] by (simp add: com_wf_def vals_def)
  moreover have "community_str2com '''' = Inr None" by code_simp
  ultimately show ?thesis using True by (simp add: community_com2str_def)
next
  case False
  have "com_wf (case None of None \<Rightarrow> community_new | Some c \<Rightarrow> c)"
    "length (words (case None of None \<Rightarrow> community_new | Some c \<Rightarrow> c)) + length (vals com) + 1 < 2 ^ 28"
    using com_wf_new assms(2) by (simp_all add: vals_def)
  from str2com_join[OF False this, of True community_token_unknown 0] obtain c where
    c: "str2com_loop (com_join True (vals com)) community_token_unknown 0 None = Inr (Some c)" "com_wf c"
    "vals c = vals com @ [last (vals com)]" using com_wf_new by auto
  from uniq_sort_ok[OF c(2)] obtain u where
    u: "community_uniq_sort c = Inr u" "vals u = sorted_list_of_set (set (vals c))" "com_wf u" by blast
  have "set (vals c) = set (vals com)" using c(3) False by (auto simp: insert_absorb)
  then have "vals u = vals com" using u(2) canonical_eq[OF assms(1)] by simp
  moreover have "canonical u" by (rule canonical_sort[OF u(3,2)])
  ultimately show ?thesis
    using False com2str_ok[OF canonicalD(1)[OF assms(1)] assms(2)] c(1) u(1) by (auto simp: community_str2com_def)
qed

theorem community_string_roundtrip_witness:
  "(\<exists>com'. community_com2str (com_of [0, 0x10002, 0xFFFFFF01]) = Inr ''internet 1:2 no-export'' \<and>
     community_str2com ''internet 1:2 no-export'' = Inr (Some com') \<and> vals com' = [0, 0x10002, 0xFFFFFF01]) \<and>
   community_com2str (com_of []) = Inr ''''"
proof -
  let ?c = "com_of [0, 0x10002, 0xFFFFFF01]"
  have c: "canonical ?c" "canonical (com_of [])" by (auto simp: canonical_def com_wf_def)
  have "com_join True [0, 0x10002, 0xFFFFFF01] = ''internet 1:2 no-export''" by code_simp
  then have "community_com2str ?c = Inr ''internet 1:2 no-export''" using com2str_ok[OF canonicalD(1)[OF c(1)]] by simp
  moreover have "length (words ?c) < 2 ^ 27" "length (words (com_of [])) < 2 ^ 27" by simp_all
  note community_string_roundtrip[OF c(1) this(1)] community_string_roundtrip[OF c(2) this(2)]
  ultimately show ?thesis by (auto simp only: sum.inject option.inject com_of_simps list.distinct if_True if_False)
qed

text \<open>The parser does not check the range of the halves: the value 1:65536 is stored as 2:0.\<close>

lemma gettoken_carries:
  "community_gettoken ''1:65536'' community_token_unknown 0 = (Some [], community_token_val, 0x20000)"
  by code_simp

section \<open>The interned communities\<close>

lemma unat_add_bound: "unat a \<le> m \<Longrightarrow> unat b \<le> n \<Longrightarrow> unat (a + b) \<le> m + n" for a b :: u32
  by (auto simp: unat_plus_if')

lemma unat_byte: "unat (ucast (x :: u8) :: u32) \<le> 255"
proof -
  have "unat x < 2 ^ LENGTH(8)" by (rule unsigned_less)
  then have "unat x < 256" by simp
  moreover have "unat (ucast x :: u32) \<le> unat x" by (simp add: unsigned_ucast_eq)
  ultimately show ?thesis by linarith
qed

lemma word_bytes_bound: "unat (word_bytes w) \<le> 255 + 255 + 255 + 255"
  unfolding word_bytes_def by (intro unat_add_bound unat_byte)

lemma key_sum_bound: "unat (\<Sum>w\<leftarrow>ws. word_bytes w) \<le> 1020 * length ws"
  by (induction ws) (use unat_add_bound word_bytes_bound in fastforce)+

text \<open>What the callbacks of the table rely on: the community is there, and no longer than an attribute.\<close>

definition com_ok :: "(nat \<Rightarrow> community option) \<Rightarrow> nat \<Rightarrow> bool" where
  "com_ok H a \<longleftrightarrow> (case H a of None \<Rightarrow> False | Some c \<Rightarrow> com_wf c \<and> length (words c) \<le> 16383)"

lemma com_okE:
  assumes "com_ok H a"
  obtains c where "H a = Some c" "com_wf c" "length (words c) \<le> 16383"
  using assms by (auto simp: com_ok_def split: option.splits)

definition vals_at :: "(nat \<Rightarrow> community option) \<Rightarrow> nat \<Rightarrow> u32 list" where
  "vals_at H a = (case H a of None \<Rightarrow> [] | Some c \<Rightarrow> vals c)"

lemma com_key_ok: "com_ok H a \<Longrightarrow> com_key H a = (\<Sum>v\<leftarrow>vals_at H a. word_bytes (swap32 v))"
  by (erule com_okE) (simp add: com_key_def coms_at_def hash_make_ok vals_at_def vals_def o_def)

lemma com_same_ok: "com_ok H a \<Longrightarrow> com_ok H b \<Longrightarrow> com_same H a b \<longleftrightarrow> vals_at H a = vals_at H b"
  by (elim com_okE) (simp add: com_same_def cmp_ok vals_at_def)

lemma com_key_bound: "com_ok H a \<Longrightarrow> unat (com_key H a) < 2 ^ 30"
proof (erule com_okE)
  fix c
  assume c: "H a = Some c" "com_wf c" "length (words c) \<le> 16383"
  then have "com_key H a = (\<Sum>w\<leftarrow>words c. word_bytes w)" by (simp add: com_key_def coms_at_def hash_make_ok)
  with key_sum_bound[of "words c"] c(3) show ?thesis by simp
qed

interpretation comtab: hash_callbacks "com_key H" "com_same H" "com_ok H" for H
  by unfold_locales (use com_key_bound in \<open>auto simp: com_same_ok com_key_ok\<close>)

text \<open>The table reads nothing but the values, so other changes of its communities keep it well formed.\<close>

definition tab_wf :: "nat \<Rightarrow> comstate \<Rightarrow> bool" where
  "tab_wf k s \<longleftrightarrow> comtab.hash_wf (coms s) k (bound_hash s)"

definition tab :: "comstate \<Rightarrow> nat set" where
  "tab s = comtab.datas (bound_hash s)"

lemma bound_hash_simps [simp]:
  "hindex (bound_hash s) = hindex (comhash s)" "hsize (bound_hash s) = hsize (comhash s)"
  "hash_key (bound_hash s) = com_key (coms s)" "hash_cmp (bound_hash s) = com_same (coms s)"
  "no_expand (bound_hash s) = no_expand (comhash s)" "hcount (bound_hash s) = hcount (comhash s)"
  by (simp_all add: bound_hash_def)

lemma tab_transfer:
  assumes "tab_wf k s" "hindex (comhash s') = hindex (comhash s)" "hsize (comhash s') = hsize (comhash s)"
    "no_expand (comhash s') = no_expand (comhash s)" "hcount (comhash s') = hcount (comhash s)"
    "\<forall>a\<in>tab s. com_ok (coms s') a \<and> vals_at (coms s') a = vals_at (coms s) a"
  shows "tab_wf k s' \<and> tab s' = tab s"
proof -
  have ok: "com_ok (coms s) (bdata b)" "com_ok (coms s') (bdata b)" "vals_at (coms s') (bdata b) = vals_at (coms s) (bdata b)"
    if "b \<in> set (concat (hindex (comhash s)))" for b
    using assms(1,6) that by (auto simp: tab_wf_def comtab.hash_wf_def comtab.backets_ok_def tab_def comtab.datas_def)
  have "comtab.backets_ok (coms s') (mset (concat (hindex (comhash s))))"
    using assms(1) ok by (auto simp: tab_wf_def comtab.hash_wf_def comtab.backets_ok_def com_key_ok com_same_ok simp del: set_concat)
  then show ?thesis using assms by (auto simp: tab_wf_def comtab.hash_wf_def tab_def comtab.datas_def)
qed

lemma bound_hash_id: "hash_key h = com_key (coms s) \<Longrightarrow> hash_cmp h = com_same (coms s) \<Longrightarrow> comhash s = h \<Longrightarrow> bound_hash s = h"
  by (cases h) (simp add: bound_hash_def)

text \<open>
  The invariant: \<open>R\<close> holds one element for every reference that has been handed out and not given
  back.
\<close>

definition com_inv :: "comstate \<Rightarrow> nat multiset \<Rightarrow> bool" where
  "com_inv s R \<longleftrightarrow> (\<exists>k. tab_wf k s) \<and> tab s = set_mset R \<and> dom (coms s) = set_mset R \<and> (\<forall>a\<in>#R. a < combrk s) \<and>
     (\<forall>a\<in>#R. \<forall>c. coms s a = Some c \<longrightarrow>
        canonical c \<and> refcnt c = count R a \<and> str c = Some (com_join True (vals c)))"

lemma com_invI:
  assumes "tab_wf k s" "tab s = set_mset R" "dom (coms s) = set_mset R" "\<And>a. a \<in># R \<Longrightarrow> a < combrk s"
    "\<And>a c. a \<in># R \<Longrightarrow> coms s a = Some c \<Longrightarrow> canonical c \<and> refcnt c = count R a \<and> str c = Some (com_join True (vals c))"
  shows "com_inv s R"
  unfolding com_inv_def using assms by blast

lemma com_inv_init: "\<exists>s. community_init = Inr s \<and> com_inv s {#}"
proof -
  from comtab.wf_create[of "\<lambda>_. None"] obtain h where
    h: "hash_create (com_key (\<lambda>_. None)) (com_same (\<lambda>_. None)) = Inr h" "comtab.hash_wf (\<lambda>_. None) 8 h" "concat (hindex h) = []"
    by blast
  let ?s = "\<lparr>coms = \<lambda>_. None, combrk = 0, comhash = h\<rparr>"
  have "bound_hash ?s = h" by (rule bound_hash_id) (use h(2) in \<open>auto simp: comtab.hash_wf_def\<close>)
  then have "com_inv ?s {#}" using h by (auto simp: com_inv_def tab_wf_def tab_def comtab.datas_def simp del: set_concat)
  then show ?thesis using h(1) by (simp add: community_init_def)
qed

text \<open>Communities with equal values are one community.\<close>

lemma com_inv_unique:
  assumes "com_inv s R" "a \<in># R" "b \<in># R" "vals_at (coms s) a = vals_at (coms s) b"
  shows "a = b"
proof -
  obtain k where k: "comtab.hash_wf (coms s) k (bound_hash s)" using assms(1) by (auto simp: com_inv_def tab_wf_def)
  have in_tab: "a \<in> comtab.datas (bound_hash s)" "b \<in> comtab.datas (bound_hash s)"
    using assms(1-3) by (auto simp: com_inv_def tab_def)
  then have "com_ok (coms s) a" "com_ok (coms s) b" using comtab.datas_ok[OF k] by blast+
  with comtab.datas_unique[OF k, of b a b] in_tab assms(4) show ?thesis by (simp add: com_same_ok)
qed

lemma str_same: "str c = Some t \<Longrightarrow> c\<lparr>refcnt := n, str := Some t\<rparr> = c\<lparr>refcnt := n\<rparr>"
  by (cases c) simp

lemma intern_step:
  assumes "coms s a = Some new" "refcnt new = 0" "hash_get (bound_hash s) a (Some hash_alloc_intern) = Inr (Some e, h)"
    "(if e \<noteq> a then (coms s)(a := None) else coms s) e = Some c"
    "community_com2str (c\<lparr>refcnt := szadd (refcnt c) 1\<rparr>) = Inr t" "str c = None \<or> str c = Some t"
  shows "community_intern a s = Inr (e, s\<lparr>comhash := h, coms := (if e \<noteq> a then (coms s)(a := None) else coms s)
    (e \<mapsto> c\<lparr>refcnt := szadd (refcnt c) 1, str := Some t\<rparr>)\<rparr>)"
  using assms by (cases "e = a"; cases "str c") (auto simp: community_intern_def coms_at_def Let_def str_same)

text \<open>
  Interning a new community: either a community with its values is in the table and gets one more
  reference, or the new one becomes a member.
\<close>

lemma intern_ok:
  assumes inv: "com_inv s R" and new: "canonical new" "length (words new) \<le> 16383" "refcnt new = 0" "str new = None"
    and room: "size R + 1 < 2 ^ 64"
  defines "s1 \<equiv> s\<lparr>coms := (coms s)(combrk s \<mapsto> new), combrk := combrk s + 1\<rparr>"
  shows "\<exists>f s'. community_intern (combrk s) s1 = Inr (f, s') \<and> com_inv s' (add_mset f R) \<and> vals_at (coms s') f = vals new \<and>
    (\<forall>a\<in>#R. vals_at (coms s') a = vals_at (coms s) a)"
proof -
  let ?a = "combrk s" and ?H = "coms s1"
  have fresh: "?a \<notin># R" using inv by (auto simp: com_inv_def)
  have Rdom: "\<exists>c. coms s a = Some c \<and> canonical c \<and> refcnt c = count R a \<and> str c = Some (com_join True (vals c))" if "a \<in># R" for a
    using inv that by (fastforce simp: com_inv_def)
  obtain k where k: "tab_wf k s" using inv by (auto simp: com_inv_def)
  have oks: "com_ok (coms s) a" if "a \<in># R" for a
    using comtab.datas_ok k inv that by (auto simp: com_inv_def tab_wf_def tab_def)
  have keep: "com_ok ?H a \<and> vals_at ?H a = vals_at (coms s) a" if "a \<in># R" for a
    using oks[OF that] fresh that by (auto simp: s1_def com_ok_def vals_at_def)
  have tab1: "tab_wf k s1" "tab s1 = set_mset R"
    using tab_transfer[OF k, of s1] keep inv by (auto simp: s1_def com_inv_def)
  have d: "com_ok ?H ?a" "vals_at ?H ?a = vals new" using new by (auto simp: s1_def com_ok_def vals_at_def canonical_def)
  from comtab.hash_intern_ok[of ?H k "bound_hash s1" ?a] tab1 d obtain e k' h' where
    get: "hash_get (bound_hash s1) ?a (Some hash_alloc_intern) = Inr (Some e, h')" "comtab.hash_wf ?H k' h'"
    and cases: "if \<exists>x\<in>tab s1. com_same ?H x ?a then e \<in> tab s1 \<and> com_same ?H e ?a \<and> comtab.datas h' = tab s1
      else e = ?a \<and> comtab.datas h' = insert ?a (tab s1)"
    by (auto simp: tab_wf_def tab_def)
  have e: "e \<in># R \<or> e = ?a" "vals_at ?H e = vals new"
    using cases tab1(2) fresh keep d by (auto simp: com_same_ok split: if_splits)
  define s2 where "s2 = s1\<lparr>comhash := h'\<rparr>"
  have "bound_hash s2 = h'" by (rule bound_hash_id) (use get(2) in \<open>auto simp: comtab.hash_wf_def s2_def\<close>)
  then have tab2: "tab_wf k' s2" "tab s2 = insert e (set_mset R)"
    using get(2) cases tab1(2) by (auto simp: tab_wf_def tab_def s2_def split: if_splits)
  let ?H' = "if e \<noteq> ?a then ?H(?a := None) else ?H"
  obtain c where c: "?H' e = Some c" "canonical c" "refcnt c = count R e" "vals c = vals new" "length (words c) \<le> 16383"
    "str c = None \<or> str c = Some (com_join True (vals c))"
  proof (cases "e = ?a")
    case True
    with new fresh that[of new] show ?thesis by (simp add: s1_def not_in_iff)
  next
    case False
    with e(1) Rdom[of e] oks[of e] e(2) that show ?thesis by (auto simp: s1_def vals_at_def com_ok_def)
  qed
  have "count R e \<le> size R" by (rule count_le_size)
  then have cnt: "uadd 64 (count R e) 1 = count R e + 1" using room by (intro uadd_eq) linarith
  define c' where "c' = c\<lparr>refcnt := count R e + 1, str := Some (com_join True (vals c))\<rparr>"
  define s' where "s' = s2\<lparr>coms := ?H'(e \<mapsto> c')\<rparr>"
  have vals': "vals c' = vals new" "canonical c'" "length (words c') \<le> 16383" "com_wf c'"
    using c by (auto simp: c'_def vals_def words_def canonical_def com_wf_def)
  have "community_com2str (c\<lparr>refcnt := n\<rparr>) = Inr (com_join True (vals c))" for n
    using com2str_ok[of "c\<lparr>refcnt := n\<rparr>"] c(2,5) by (auto simp: vals_def words_def canonical_def com_wf_def)
  then have run: "community_intern ?a s1 = Inr (e, s')"
    using intern_step[of s1 ?a new e h' c] get(1) c(1,3,6) cnt new(3) by (simp add: s1_def s'_def s2_def c'_def)
  have coms': "coms s' = (coms s)(e \<mapsto> c')" using fresh inv by (auto simp: s'_def s1_def com_inv_def fun_eq_iff)
  then have "\<forall>a\<in>tab s2. com_ok (coms s') a \<and> vals_at (coms s') a = vals_at (coms s2) a"
    using tab2(2) keep oks e vals' by (auto simp: com_ok_def vals_at_def s2_def)
  with tab_transfer[OF tab2(1), of s'] have tab': "tab_wf k' s'" "tab s' = set_mset (add_mset e R)"
    using tab2(2) by (auto simp: s'_def)
  have each: "canonical x \<and> refcnt x = count (add_mset e R) a \<and> str x = Some (com_join True (vals x))"
    if "a \<in># add_mset e R" "coms s' a = Some x" for a x
    using that coms' Rdom[of a] vals' c(4) by (auto simp: c'_def vals_def words_def split: if_splits)
  have "dom (coms s') = set_mset (add_mset e R)" using coms' inv by (simp add: com_inv_def)
  moreover have "a < combrk s'" if "a \<in># add_mset e R" for a
    using that inv e(1) by (auto simp: com_inv_def s'_def s2_def s1_def)
  ultimately have "com_inv s' (add_mset e R)" using com_invI[OF tab' _ _ each] by blast
  moreover have "\<forall>a\<in>#R. vals_at (coms s') a = vals_at (coms s) a" "vals_at (coms s') e = vals new"
    using coms' keep e(2) vals'(1) by (auto simp: vals_at_def)
  ultimately show ?thesis using run by blast
qed

lemma parse_ok:
  assumes "com_inv s R" "length pnt \<le> 16383" "size R + 1 < 2 ^ 64"
  shows "\<exists>f s'. community_parse pnt (4 * length pnt) s = Inr (Some f, s') \<and> com_inv s' (add_mset f R) \<and>
    vals_at (coms s') f = sorted_list_of_set (set (map swap32 pnt)) \<and> (\<forall>a\<in>#R. vals_at (coms s') a = vals_at (coms s) a)"
proof -
  let ?t = "community_new\<lparr>csize := int (length pnt), val := Some pnt\<rparr>"
  have "com_wf ?t" "words ?t = pnt" using assms(2) by (auto simp: com_wf_def words_def)
  with uniq_sort_ok[of ?t] obtain new where new: "community_uniq_sort ?t = Inr new"
    "vals new = sorted_list_of_set (set (map swap32 pnt))" "com_wf new" "length (words new) \<le> length pnt" "refcnt new = 0" "str new = None"
    by (auto simp: vals_def)
  from intern_ok[OF assms(1) canonical_sort[OF new(3,2)] _ new(5,6) assms(3)] new assms(2) show ?thesis
    by (auto simp: community_parse_def Let_def)
qed

lemma unintern_step:
  assumes "coms s a = Some c" "refcnt c \<noteq> 0" "c1 = c\<lparr>refcnt := szsub (refcnt c) 1\<rparr>" "s1 = s\<lparr>coms := (coms s)(a \<mapsto> c1)\<rparr>"
  shows "community_unintern a s = (if refcnt c1 = 0 then
    bindR (hash_release (bound_hash s1) a) (\<lambda>(ret, h). if ret = None then Inl Assert_failed
      else Inr (None, s1\<lparr>coms := (coms s1)(a := None), comhash := h\<rparr>)) else Inr (Some a, s1))"
  using assms(1,2) unfolding assms(3,4) by (simp add: community_unintern_def coms_at_def Let_def)

text \<open>Giving back a reference: the last one releases the community.\<close>

lemma unintern_ok:
  assumes inv: "com_inv s R" and a: "a \<in># R" and room: "size R < 2 ^ 64"
  shows "\<exists>s'. community_unintern a s = Inr (if count R a = 1 then None else Some a, s') \<and> com_inv s' (R - {#a#}) \<and>
    (\<forall>b\<in>#R - {#a#}. vals_at (coms s') b = vals_at (coms s) b)"
proof -
  from inv a obtain c where c: "coms s a = Some c" "canonical c" "refcnt c = count R a" "str c = Some (com_join True (vals c))"
    by (fastforce simp: com_inv_def)
  obtain k where k: "tab_wf k s" using inv by (auto simp: com_inv_def)
  have pos: "0 < count R a" using a by simp
  have "count R a \<le> size R" by (rule count_le_size)
  then have cnt: "usub 64 (count R a) 1 = count R a - 1" using room pos by (intro usub_eq) linarith+
  define c1 where "c1 = c\<lparr>refcnt := szsub (refcnt c) 1\<rparr>"
  define s1 where "s1 = s\<lparr>coms := (coms s)(a \<mapsto> c1)\<rparr>"
  have oks: "com_ok (coms s) b" if "b \<in># R" for b
    using comtab.datas_ok k inv that by (auto simp: com_inv_def tab_wf_def tab_def)
  have vals1: "vals c1 = vals c" "canonical c1" "words c1 = words c" "com_wf c1 = com_wf c"
    using c by (auto simp: c1_def vals_def words_def canonical_def com_wf_def)
  have keep: "com_ok (coms s1) b \<and> vals_at (coms s1) b = vals_at (coms s) b" if "b \<in># R" for b
    using oks[OF that] c(1) vals1 by (auto simp: s1_def com_ok_def vals_at_def)
  then have tab1: "tab_wf k s1" "tab s1 = set_mset R"
    using tab_transfer[OF k, of s1] inv by (auto simp: s1_def com_inv_def)
  have start: "community_unintern a s = (if count R a = 1 then
      bindR (hash_release (bound_hash s1) a) (\<lambda>(ret, h). if ret = None then Inl Assert_failed
        else Inr (None, s1\<lparr>coms := (coms s1)(a := None), comhash := h\<rparr>)) else Inr (Some a, s1))"
  proof -
    have "refcnt c1 = count R a - 1" using c(3) cnt by (simp add: c1_def)
    then have "refcnt c1 = 0 \<longleftrightarrow> count R a = 1" using pos by linarith
    then show ?thesis using unintern_step[OF c(1) _ c1_def s1_def] c(3) pos by simp
  qed
  show ?thesis
  proof (cases "count R a = 1")
    case False
    have "1 < count R a" using False pos by linarith
    then have "b \<in># R - {#a#} \<longleftrightarrow> b \<in># R" for b using a by (cases "b = a") (auto simp: in_diff_count)
    then have "set_mset (R - {#a#}) = set_mset R" by blast
    moreover have "canonical x \<and> refcnt x = count (R - {#a#}) b \<and> str x = Some (com_join True (vals x))"
      if "b \<in># R - {#a#}" "coms s1 b = Some x" for b x
    proof (cases "b = a")
      case True
      then have "x = c1" using that(2) by (simp add: s1_def)
      moreover have "refcnt c1 = count R a - 1" "str c1 = str c" using c(3) cnt by (simp_all add: c1_def)
      ultimately show ?thesis using True vals1(1,2) c(4) by simp
    next
      case False
      with that inv show ?thesis by (auto simp: s1_def com_inv_def dest: in_diffD)
    qed
    moreover have "dom (coms s1) = set_mset R" "\<And>b. b \<in># R \<Longrightarrow> b < combrk s1" using inv a by (auto simp: s1_def com_inv_def)
    ultimately have "com_inv s1 (R - {#a#})" using tab1 by (intro com_invI[of k]) simp_all
    then show ?thesis using start False keep by (auto dest: in_diffD)
  next
    case True
    from comtab.hash_release_ok[OF tab1(1)[unfolded tab_wf_def] conjunct1[OF keep[OF a]], folded tab_def] obtain r h' where
      rel: "hash_release (bound_hash s1) a = Inr (r, h')" "comtab.hash_wf (coms s1) k h'"
      and r: "case r of None \<Rightarrow> \<forall>e\<in>tab s1. \<not> com_same (coms s1) e a | Some e \<Rightarrow> e \<in> tab s1 \<and> com_same (coms s1) e a"
      and datas: "comtab.datas h' = {e \<in> tab s1. \<not> com_same (coms s1) e a}"
      by blast
    have same: "com_same (coms s1) e a \<longleftrightarrow> e = a" if "e \<in># R" for e
      using keep[OF that] keep[OF a] com_inv_unique[OF inv that a] by (auto simp: com_same_ok)
    have "r \<noteq> None" using r a tab1(2) same by (auto split: option.splits)
    define s2 where "s2 = s1\<lparr>comhash := h'\<rparr>"
    define s' where "s' = s1\<lparr>coms := (coms s1)(a := None), comhash := h'\<rparr>"
    have rest: "set_mset (R - {#a#}) = set_mset R - {a}" using True by (auto simp: in_diff_count not_in_iff split: if_splits)
    have "bound_hash s2 = h'" by (rule bound_hash_id) (use rel(2) in \<open>auto simp: comtab.hash_wf_def s2_def\<close>)
    then have tab2: "tab_wf k s2" "tab s2 = set_mset R - {a}"
      using rel(2) datas tab1(2) same by (auto simp: tab_wf_def tab_def s2_def)
    have coms': "coms s' = (coms s)(a := None)" by (simp add: s'_def s1_def)
    have kept: "com_ok (coms s') b \<and> vals_at (coms s') b = vals_at (coms s2) b" if "b \<in> set_mset R - {a}" for b
      using oks[of b] keep[of b] that coms' by (auto simp: com_ok_def vals_at_def s2_def)
    with tab_transfer[OF tab2(1), of s'] have tab': "tab_wf k s'" "tab s' = set_mset (R - {#a#})"
      using tab2(2) rest by (auto simp: s'_def s2_def)
    have each: "canonical x \<and> refcnt x = count (R - {#a#}) b \<and> str x = Some (com_join True (vals x))"
      if "b \<in># R - {#a#}" "coms s' b = Some x" for b x
      using that inv rest coms' by (auto simp: com_inv_def)
    have "com_inv s' (R - {#a#})"
      by (rule com_invI[OF tab' _ _ each]) (use inv coms' rest in \<open>auto simp: com_inv_def s'_def s1_def\<close>)
    moreover have "community_unintern a s = Inr (None, s')" using start rel(1) True \<open>r \<noteq> None\<close> by (simp add: s'_def)
    ultimately show ?thesis using True kept keep rest by (auto simp: s2_def)
  qed
qed

section \<open>Sequences of operations\<close>

text \<open>
  A run of the module: attributes that arrive are parsed, references are given back.  The
  references that are held at the end are in \<open>R\<close>; a counter has 64 bits, so there are fewer than
  \<open>2\<^sup>6\<^sup>4\<close> of them.  An attribute has at most 65535 bytes.
\<close>

inductive interned :: "comstate \<Rightarrow> nat multiset \<Rightarrow> bool" where
  init: "community_init = Inr s \<Longrightarrow> interned s {#}"
| parse: "interned s R \<Longrightarrow> size R + 1 < 2 ^ 64 \<Longrightarrow> length pnt \<le> 16383 \<Longrightarrow>
    community_parse pnt (4 * length pnt) s = Inr (Some a, s') \<Longrightarrow> interned s' (add_mset a R)"
| unintern: "interned s R \<Longrightarrow> a \<in># R \<Longrightarrow> community_unintern a s = Inr (r, s') \<Longrightarrow> interned s' (R - {#a#})"

lemma interned_inv: "interned s R \<Longrightarrow> com_inv s R \<and> size R < 2 ^ 64"
proof (induction rule: interned.induct)
  case (init s)
  obtain s0 where "community_init = Inr s0" "com_inv s0 {#}" using com_inv_init by blast
  with init show ?case by (metis empty_neutral(1) sum.inject(2) size_empty zero_less_power zero_less_numeral)
next
  case (parse s R pnt a s')
  with parse_ok[of s R pnt] show ?case by auto
next
  case (unintern s R a r s')
  with unintern_ok[of s R a] size_Diff1_le[of R a] show ?case by auto
qed

text \<open>
  C11: However attributes arrive and are given back, the interned communities are exactly those to
  which references are held: no assertion fails, nothing that is in use is released and nothing
  leaks; a community counts its references, and two references with equal values are the same
  pointer, so that comparing pointers compares communities.
\<close>

theorem interned_communities:
  assumes "interned s R"
  shows "dom (coms s) = set_mset R \<and>
    (\<forall>a\<in>#R. \<exists>c. coms s a = Some c \<and> canonical c \<and> refcnt c = count R a \<and> str c = Some (com_join True (vals c)) \<and>
      (\<exists>r s'. community_unintern a s = Inr (r, s') \<and> (r = None \<longleftrightarrow> count R a = 1)) \<and>
      (\<forall>b\<in>#R. \<forall>d. coms s b = Some d \<and> vals c = vals d \<longrightarrow> a = b))"
proof -
  note inv = interned_inv[OF assms, THEN conjunct1] and room = interned_inv[OF assms, THEN conjunct2]
  have "\<exists>c. coms s a = Some c \<and> canonical c \<and> refcnt c = count R a \<and> str c = Some (com_join True (vals c)) \<and>
      (\<exists>r s'. community_unintern a s = Inr (r, s') \<and> (r = None \<longleftrightarrow> count R a = 1)) \<and>
      (\<forall>b\<in>#R. \<forall>d. coms s b = Some d \<and> vals c = vals d \<longrightarrow> a = b)" if a: "a \<in># R" for a
  proof -
    from inv a obtain c where "coms s a = Some c" "canonical c \<and> refcnt c = count R a \<and> str c = Some (com_join True (vals c))"
      unfolding com_inv_def by blast
    moreover from this have "\<forall>b\<in>#R. \<forall>d. coms s b = Some d \<and> vals c = vals d \<longrightarrow> a = b"
      using com_inv_unique[OF inv a] by (auto simp: vals_at_def)
    moreover from unintern_ok[OF inv a room] have "\<exists>r s'. community_unintern a s = Inr (r, s') \<and> (r = None \<longleftrightarrow> count R a = 1)"
      by (auto split: if_splits)
    ultimately show ?thesis by blast
  qed
  then show ?thesis using inv by (auto simp: com_inv_def)
qed

text \<open>The attribute 1:2 arrives twice.\<close>

lemma interned_twice:
  "\<exists>s f f'. interned s {#f', f#} \<and> vals_at (coms s) f = [0x10002] \<and> vals_at (coms s) f' = [0x10002]"
proof -
  obtain s0 where s0: "interned s0 {#}" using com_inv_init interned.init by blast
  let ?w = "[swap32 0x10002]"
  have p: "\<exists>f s'. interned s' (add_mset f R) \<and> vals_at (coms s') f = [0x10002] \<and> (\<forall>a\<in>#R. vals_at (coms s') a = vals_at (coms s) a)"
    if "interned s R" "size R \<le> 1" for s R
  proof -
    have "size R + 1 < 2 ^ 64" "length ?w \<le> 16383" using that(2) by simp_all
    from parse_ok[OF conjunct1[OF interned_inv[OF that(1)]] this(2,1)] interned.parse[OF that(1) this] show ?thesis
      by fastforce
  qed
  from p[OF s0] obtain f1 s1 where s1: "interned s1 {#f1#}" "vals_at (coms s1) f1 = [0x10002]" by auto
  from p[OF s1(1)] s1(2) show ?thesis by fastforce
qed

theorem interned_communities_witness:
  "\<exists>s f c. interned s {#f, f#} \<and> dom (coms s) = {f} \<and> coms s f = Some c \<and> vals c = [0x10002] \<and> refcnt c = 2"
proof -
  obtain s f f' where s: "interned s {#f', f#}" "vals_at (coms s) f = [0x10002]" "vals_at (coms s) f' = [0x10002]"
    using interned_twice by blast
  note ok = interned_communities[OF s(1)]
  have mem: "f' \<in># {#f', f#}" "f \<in># {#f', f#}" by simp_all
  from bspec[OF conjunct2[OF ok] mem(1)] obtain c' where
    c': "coms s f' = Some c'" "\<forall>b\<in>#{#f', f#}. \<forall>d. coms s b = Some d \<and> vals c' = vals d \<longrightarrow> f' = b" by blast
  from bspec[OF conjunct2[OF ok] mem(2)] obtain c where c: "coms s f = Some c" "refcnt c = count {#f', f#} f" by blast
  have v: "vals c = [0x10002]" "vals c' = vals c" using s(2,3) c(1) c'(1) by (simp_all add: vals_at_def)
  have "f' = f" using c'(2) mem(2) c(1) v(2) by blast
  moreover have "dom (coms s) = {f', f}" using conjunct1[OF ok] by simp
  ultimately show ?thesis using s(1) c v(1) by (intro exI[of _ s] exI[of _ f] exI[of _ c]) simp
qed

text \<open>
  The communities attribute of a received message is always interned: the reference that
  \<open>community_parse\<close> returns has the values of the attribute, sorted and without repetitions, and
  the values of all communities in use stay what they were.
\<close>

lemma community_parse_values:
  assumes "interned s R" "size R + 1 < 2 ^ 64" "length pnt \<le> 16383"
  shows "\<exists>f s'. community_parse pnt (4 * length pnt) s = Inr (Some f, s') \<and> interned s' (add_mset f R) \<and>
    vals_at (coms s') f = sorted_list_of_set (set (map swap32 pnt)) \<and> (\<forall>a\<in>#R. vals_at (coms s') a = vals_at (coms s) a)"
proof -
  from parse_ok[OF conjunct1[OF interned_inv[OF assms(1)]] assms(3,2)] obtain f s' where
    p: "community_parse pnt (4 * length pnt) s = Inr (Some f, s')" "vals_at (coms s') f = sorted_list_of_set (set (map swap32 pnt))"
    "\<forall>a\<in>#R. vals_at (coms s') a = vals_at (coms s) a" by blast
  with interned.parse[OF assms p(1)] show ?thesis by blast
qed

end
