(* ===== verification/Workqueue.thy ===== *)
theory Workqueue
  imports Linklist Scheduler_Inv
begin

text \<open>
  Work queues (lib/workqueue.c, lib/workqueue.h): a queue keeps its items in a linked list
  (Linklist) and has itself called by a background thread of the scheduler (Scheduler) as long as
  items remain.  The state is that of one queue, at the address \<open>self\<close>; other queues share the
  scheduler and the list of all queues.

  The functions of the specification are the client's.  A call of one of them may change the state
  of the client and add data to the queue through \<open>work_queue_add\<close>; the data it adds is part of its
  result.  The clock is a sequence of times; \<open>tick\<close> counts its readings.
\<close>

section \<open>Data\<close>

datatype wq_item_status =
  WQ_SUCCESS | WQ_ERROR | WQ_RETRY_NOW | WQ_RETRY_LATER | WQ_REQUEUE | WQ_QUEUE_BLOCKED

record 'd work_queue_item =
  idata :: "'d option"
  ran :: nat

text \<open>
  What the error handler is given: the data of the item where the item has been tried too often,
  the item itself where the work function reports an error.
\<close>

datatype 'd handed = Item_data 'd | Item_itself nat

record ('d, 'c) wq_spec =
  workfunc :: "'d \<Rightarrow> 'c \<Rightarrow> wq_item_status \<times> 'd list \<times> 'c"
  errorfunc :: "('d handed \<Rightarrow> 'c \<Rightarrow> 'd list \<times> 'c) option"
  del_item_data :: "('d \<Rightarrow> 'c \<Rightarrow> 'd list \<times> 'c) option"
  completion_func :: "('c \<Rightarrow> 'd list \<times> 'c) option"
  max_retries :: nat
  hold :: nat

definition WQ_UNPLUGGED :: u16 where "WQ_UNPLUGGED = 1"
definition WORK_QUEUE_MIN_GRANULARITY :: nat where "WORK_QUEUE_MIN_GRANULARITY = 1"
definition WQ_HYSTERESIS_FACTOR :: nat where "WQ_HYSTERESIS_FACTOR = 4"
definition UINT_MAX :: nat where "UINT_MAX = 2 ^ 32 - 1"
definition THREAD_YIELD_TIME_SLOT :: nat where "THREAD_YIELD_TIME_SLOT = 10 * 1000"

record work_queue =
  wthread :: "nat option"
  items :: list_hdr
  runs :: nat
  worst_usec :: nat
  best :: nat
  worst :: nat
  granularity :: nat
  total :: nat
  flags :: u16

record ('d, 'c) wqstate =
  master :: thread_master
  nodes :: "nat lheap"
  imem :: "nat \<Rightarrow> 'd work_queue_item option"
  ibrk :: nat
  wq :: work_queue
  work_queues :: list_hdr
  qnodes :: "nat lheap"
  client :: 'c
  tick :: nat

type_synonym clock = "nat \<Rightarrow> timeval"

text \<open>The identity of the thread function \<open>work_queue_run\<close>.\<close>

definition run_func :: nat where "run_func = 1"

definition get_item :: "nat \<Rightarrow> ('d, 'c) wqstate \<Rightarrow> 'd work_queue_item res" where
  "get_item a s = (case imem s a of None \<Rightarrow> Inl Mem_fault | Some it \<Rightarrow> Inr it)"

definition put_item :: "nat \<Rightarrow> 'd work_queue_item \<Rightarrow> ('d, 'c) wqstate \<Rightarrow> ('d, 'c) wqstate" where
  "put_item a it s = s\<lparr>imem := (imem s)(a \<mapsto> it)\<rparr>"

definition listgetdata :: "nat option \<Rightarrow> 'a lheap \<Rightarrow> 'a res" where
  "listgetdata p h = bindR (deref h p) (\<lambda>a. case dat h a of None \<Rightarrow> Inl Assert_failed | Some d \<Rightarrow> Inr d)"

section \<open>Items and scheduling\<close>

definition work_queue_item_new :: "('d, 'c) wqstate \<Rightarrow> nat \<times> ('d, 'c) wqstate" where
  "work_queue_item_new s =
     (ibrk s, s\<lparr>imem := (imem s)(ibrk s \<mapsto> \<lparr>idata = None, ran = 0\<rparr>), ibrk := ibrk s + 1\<rparr>)"

definition work_queue_item_free :: "nat \<Rightarrow> ('d, 'c) wqstate \<Rightarrow> ('d, 'c) wqstate res" where
  "work_queue_item_free a s = bindR (get_item a s) (\<lambda>_. Inr (s\<lparr>imem := (imem s)(a := None)\<rparr>))"

definition work_queue_new :: "nat \<Rightarrow> ('d, 'c) wqstate \<Rightarrow> ('d, 'c) wqstate res" where
  "work_queue_new self s =
     bindR (listnode_add (work_queues s) (Some self) (qnodes s)) (\<lambda>(l, h).
     Inr (s\<lparr>wq := \<lparr>wthread = None, items = list_new, runs = 0, worst_usec = 0, best = 0, worst = UINT_MAX,
                granularity = WORK_QUEUE_MIN_GRANULARITY, total = 0, flags = 0 OR WQ_UNPLUGGED\<rparr>,
            work_queues := l, qnodes := h\<rparr>))"

definition work_queue_is_scheduled :: "('d, 'c) wqstate \<Rightarrow> bool" where
  "work_queue_is_scheduled s \<longleftrightarrow> wthread (wq s) \<noteq> None"

definition work_queue_schedule :: "clock \<Rightarrow> nat \<Rightarrow> nat \<Rightarrow> ('d, 'c) wqstate \<Rightarrow> (bool \<times> ('d, 'c) wqstate) res" where
  "work_queue_schedule clk self delay s =
     (if flags (wq s) AND WQ_UNPLUGGED \<noteq> 0 \<and> wthread (wq s) = None \<and> list_hdr.count (items (wq s)) > 0
      then bindR (thread_add_background (clk (tick s)) (master s) run_func self (int delay)) (\<lambda>(t, m).
             Inr (True, s\<lparr>master := m, tick := tick s + 1, wq := (wq s)\<lparr>wthread := Some t\<rparr>\<rparr>))
      else Inr (False, s))"

definition work_queue_add :: "clock \<Rightarrow> nat \<Rightarrow> ('d, 'c) wq_spec \<Rightarrow> 'd option \<Rightarrow> ('d, 'c) wqstate \<Rightarrow> ('d, 'c) wqstate res" where
  "work_queue_add clk self sp data s =
     (let (a, s) = work_queue_item_new s in
      bindR (get_item a s) (\<lambda>it.
      let s = put_item a (it\<lparr>idata := data\<rparr>) s in
      bindR (listnode_add (items (wq s)) (Some a) (nodes s)) (\<lambda>(l, h).
      bindR (work_queue_schedule clk self (hold sp) (s\<lparr>nodes := h, wq := (wq s)\<lparr>items := l\<rparr>\<rparr>)) (\<lambda>(_, s).
      Inr s))))"

text \<open>A call of one of the client's functions.\<close>

fun client_adds :: "clock \<Rightarrow> nat \<Rightarrow> ('d, 'c) wq_spec \<Rightarrow> 'd list \<Rightarrow> ('d, 'c) wqstate \<Rightarrow> ('d, 'c) wqstate res" where
  "client_adds clk self sp [] s = Inr s"
| "client_adds clk self sp (d # ds) s = bindR (work_queue_add clk self sp (Some d) s) (client_adds clk self sp ds)"

definition call_client ::
  "clock \<Rightarrow> nat \<Rightarrow> ('d, 'c) wq_spec \<Rightarrow> ('c \<Rightarrow> 'd list \<times> 'c) option \<Rightarrow> ('d, 'c) wqstate \<Rightarrow> ('d, 'c) wqstate res" where
  "call_client clk self sp f s =
     (case f of None \<Rightarrow> Inr s
      | Some f \<Rightarrow> let (ds, c) = f (client s) in client_adds clk self sp ds (s\<lparr>client := c\<rparr>))"

definition work_queue_item_remove ::
  "clock \<Rightarrow> nat \<Rightarrow> ('d, 'c) wq_spec \<Rightarrow> nat \<Rightarrow> ('d, 'c) wqstate \<Rightarrow> ('d, 'c) wqstate res" where
  "work_queue_item_remove clk self sp ln s =
     bindR (listgetdata (Some ln) (nodes s)) (\<lambda>a.
     bindR (get_item a s) (\<lambda>it.
     case idata it of
       None \<Rightarrow> Inl Assert_failed
     | Some d \<Rightarrow>
         bindR (call_client clk self sp (map_option (\<lambda>f. f d) (del_item_data sp)) s) (\<lambda>s.
         bindR (list_delete_node (items (wq s)) (Some ln) (nodes s)) (\<lambda>(l, h).
         work_queue_item_free a (s\<lparr>nodes := h, wq := (wq s)\<lparr>items := l\<rparr>\<rparr>)))))"

definition work_queue_item_requeue :: "nat \<Rightarrow> ('d, 'c) wqstate \<Rightarrow> ('d, 'c) wqstate res" where
  "work_queue_item_requeue ln s =
     bindR (LISTNODE_DETACH (items (wq s)) (Some ln) (nodes s)) (\<lambda>(l, h).
     bindR (LISTNODE_ATTACH l (Some ln) h) (\<lambda>(l, h).
     Inr (s\<lparr>nodes := h, wq := (wq s)\<lparr>items := l\<rparr>\<rparr>)))"

definition work_queue_plug :: "('d, 'c) wqstate \<Rightarrow> ('d, 'c) wqstate res" where
  "work_queue_plug s =
     bindR (case wthread (wq s) of None \<Rightarrow> Inr (master s) | Some t \<Rightarrow> thread_cancel (master s) t) (\<lambda>m.
     Inr (s\<lparr>master := m, wq := (wq s)\<lparr>wthread := None, flags := flags (wq s) AND NOT WQ_UNPLUGGED\<rparr>\<rparr>))"

definition work_queue_unplug :: "clock \<Rightarrow> nat \<Rightarrow> ('d, 'c) wq_spec \<Rightarrow> ('d, 'c) wqstate \<Rightarrow> ('d, 'c) wqstate res" where
  "work_queue_unplug clk self sp s =
     bindR (work_queue_schedule clk self (hold sp) (s\<lparr>wq := (wq s)\<lparr>flags := flags (wq s) OR WQ_UNPLUGGED\<rparr>\<rparr>)) (\<lambda>(_, s). Inr s)"

fun free_items :: "nat option list \<Rightarrow> ('d, 'c) wqstate \<Rightarrow> ('d, 'c) wqstate res" where
  "free_items [] s = Inr s"
| "free_items (p # ps) s =
     bindR (case p of None \<Rightarrow> Inl Mem_fault | Some a \<Rightarrow> work_queue_item_free a s) (free_items ps)"

text \<open>The queue must not be used afterwards.\<close>

definition work_queue_free :: "nat \<Rightarrow> ('d, 'c) wqstate \<Rightarrow> ('d, 'c) wqstate res option" where
  "work_queue_free self s =
     (case (case wthread (wq s) of None \<Rightarrow> Inr (master s) | Some t \<Rightarrow> thread_cancel (master s) t) of
        Inl e \<Rightarrow> Some (Inl e)
      | Inr m \<Rightarrow>
          (case list_delete_all_node (items (wq s)) (nodes s) of
             None \<Rightarrow> None
           | Some (Inl e) \<Rightarrow> Some (Inl e)
           | Some (Inr (_, h, ds)) \<Rightarrow>
               (case free_items ds (s\<lparr>master := m, nodes := h\<rparr>) of
                  Inl e \<Rightarrow> Some (Inl e)
                | Inr s \<Rightarrow>
                    (case listnode_delete (work_queues s) (Some self) (qnodes s) of
                       None \<Rightarrow> None
                     | Some r \<Rightarrow> Some (bindR r (\<lambda>(l, h). Inr (s\<lparr>work_queues := l, qnodes := h\<rparr>)))))))"

section \<open>A run of the queue\<close>

text \<open>
  The time since the thread was started, at \<open>real\<close>, if it is more than the slot.  The function
  returns an \<open>int\<close>: of the elapsed \<open>unsigned long\<close> only the low 32 bits are kept, as a signed
  number, which the caller converts back to an \<open>unsigned long\<close>.
\<close>

definition thread_should_yield :: "timeval \<Rightarrow> timeval \<Rightarrow> int" where
  "thread_should_yield now real =
     (let t = timeval_elapsed now real in if t > int THREAD_YIELD_TIME_SLOT then int_wrap t else 0)"

definition ulong_of :: "int \<Rightarrow> nat" where
  "ulong_of a = nat (a mod 2 ^ 64)"

text \<open>The inner loop: trying an item until it does not ask to be tried at once, or too often.\<close>

partial_function (option) try_loop ::
  "clock \<Rightarrow> nat \<Rightarrow> ('d, 'c) wq_spec \<Rightarrow> nat \<Rightarrow> 'd \<Rightarrow> ('d, 'c) wqstate \<Rightarrow> (wq_item_status \<times> ('d, 'c) wqstate) res option" where
  "try_loop clk self sp a d s =
     (case workfunc sp d (client s) of
        (ret, ds, c) \<Rightarrow>
          (case bindR (client_adds clk self sp ds (s\<lparr>client := c\<rparr>)) (\<lambda>s.
                bindR (get_item a s) (\<lambda>it.
                let n = uadd 16 (ran it) 1 in Inr (n, put_item a (it\<lparr>ran := n\<rparr>) s))) of
             Inl e \<Rightarrow> Some (Inl e)
           | Inr (n, s) \<Rightarrow>
               if ret = WQ_RETRY_NOW \<and> n < max_retries sp then try_loop clk self sp a d s
               else Some (Inr (ret, s))))"

definition dec_ran :: "nat \<Rightarrow> ('d, 'c) wqstate \<Rightarrow> ('d, 'c) wqstate res" where
  "dec_ran a s = bindR (get_item a s) (\<lambda>it. Inr (put_item a (it\<lparr>ran := usub 16 (ran it) 1\<rparr>) s))"

text \<open>
  The body of the loop over the items: whether the item was past its retries (the loop continues
  without counting a cycle), whether it stops the run, or whether a cycle is complete.
\<close>

datatype progress = Skipped | Stopped | Completed

definition work_switch ::
  "clock \<Rightarrow> nat \<Rightarrow> ('d, 'c) wq_spec \<Rightarrow> nat \<Rightarrow> nat \<Rightarrow> wq_item_status \<Rightarrow> ('d, 'c) wqstate \<Rightarrow> (progress \<times> ('d, 'c) wqstate) res" where
  "work_switch clk self sp node a ret s =
     (case ret of
        WQ_QUEUE_BLOCKED \<Rightarrow> bindR (dec_ran a s) (\<lambda>s. Inr (Stopped, s))
      | WQ_RETRY_LATER \<Rightarrow> Inr (Stopped, s)
      | WQ_REQUEUE \<Rightarrow> bindR (dec_ran a s) (\<lambda>s. bindR (work_queue_item_requeue node s) (\<lambda>s. Inr (Completed, s)))
      | WQ_SUCCESS \<Rightarrow> bindR (work_queue_item_remove clk self sp node s) (\<lambda>s. Inr (Completed, s))
      | _ \<Rightarrow>
          bindR (call_client clk self sp (map_option (\<lambda>f. f (Item_itself a)) (errorfunc sp)) s) (\<lambda>s.
          bindR (work_queue_item_remove clk self sp node s) (\<lambda>s. Inr (Completed, s))))"

definition work_item ::
  "clock \<Rightarrow> nat \<Rightarrow> ('d, 'c) wq_spec \<Rightarrow> nat \<Rightarrow> nat \<Rightarrow> ('d, 'c) wqstate \<Rightarrow> (progress \<times> ('d, 'c) wqstate) res option" where
  "work_item clk self sp node a s =
     (case get_item a s of
        Inl e \<Rightarrow> Some (Inl e)
      | Inr it \<Rightarrow>
          (case idata it of
             None \<Rightarrow> Some (Inl Assert_failed)
           | Some d \<Rightarrow>
               if ran it > max_retries sp then
                 Some (bindR (call_client clk self sp (map_option (\<lambda>f. f (Item_data d)) (errorfunc sp)) s) (\<lambda>s.
                       bindR (work_queue_item_remove clk self sp node s) (\<lambda>s. Inr (Skipped, s))))
               else
                 (case try_loop clk self sp a d s of
                    None \<Rightarrow> None
                  | Some (Inl e) \<Rightarrow> Some (Inl e)
                  | Some (Inr (ret, s)) \<Rightarrow> Some (work_switch clk self sp node a ret s))))"

text \<open>
  The loop over the items, from the node \<open>p\<close>.  \<open>took\<close> is the variable of that name, \<open>None\<close> while it
  has no value; the result also tells whether the run yielded.
\<close>

partial_function (option) run_loop ::
  "clock \<Rightarrow> nat \<Rightarrow> ('d, 'c) wq_spec \<Rightarrow> timeval \<Rightarrow> nat option \<Rightarrow> nat \<Rightarrow> nat option \<Rightarrow> ('d, 'c) wqstate \<Rightarrow>
   (nat \<times> bool \<times> nat option \<times> ('d, 'c) wqstate) res option" where
  "run_loop clk self sp real p cycles took s =
     (case p of
        None \<Rightarrow> Some (Inr (cycles, False, took, s))
      | Some node \<Rightarrow>
          (case bindR (listgetdata p (nodes s)) (\<lambda>a. bindR (get_next p (nodes s)) (\<lambda>nnode. Inr (a, nnode))) of
             Inl e \<Rightarrow> Some (Inl e)
           | Inr (a, nnode) \<Rightarrow>
               (case work_item clk self sp node a s of
                  None \<Rightarrow> None
                | Some (Inl e) \<Rightarrow> Some (Inl e)
                | Some (Inr (pr, s)) \<Rightarrow>
                    if pr = Stopped then Some (Inr (cycles, False, took, s))
                    else if pr = Skipped then run_loop clk self sp real nnode cycles took s
                    else if uadd 32 cycles 1 mod granularity (wq s) = 0 then
                      if thread_should_yield (clk (tick s)) real \<noteq> 0
                      then Some (Inr (uadd 32 cycles 1, True, Some (ulong_of (thread_should_yield (clk (tick s)) real)), s\<lparr>tick := tick s + 1\<rparr>))
                      else run_loop clk self sp real nnode (uadd 32 cycles 1) (Some 0) (s\<lparr>tick := tick s + 1\<rparr>)
                    else run_loop clk self sp real nnode (uadd 32 cycles 1) took s)))"

text \<open>The statistics; \<open>took\<close> is read, with whatever value it has.\<close>

definition run_stats :: "nat \<Rightarrow> bool \<Rightarrow> nat \<Rightarrow> work_queue \<Rightarrow> work_queue" where
  "run_stats cycles yielded took q =
     (let q = (if cycles > best q then q\<lparr>best := cycles\<rparr> else q);
          q = (if took > worst_usec q then q\<lparr>worst_usec := took\<rparr> else q);
          q = (if yielded \<and> cycles < granularity q then
                 let q = q\<lparr>granularity := (if cycles > 0 then cycles else WORK_QUEUE_MIN_GRANULARITY)\<rparr> in
                 if cycles < worst q then q\<lparr>worst := cycles\<rparr> else q
               else if cycles \<ge> granularity q then
                 let q = (if cycles > umul 32 (umul 32 (granularity q) WQ_HYSTERESIS_FACTOR) WQ_HYSTERESIS_FACTOR
                          then q\<lparr>granularity := umul 32 (granularity q) WQ_HYSTERESIS_FACTOR\<rparr>
                          else if cycles > umul 32 (granularity q) WQ_HYSTERESIS_FACTOR
                          then q\<lparr>granularity := uadd 32 (granularity q) WQ_HYSTERESIS_FACTOR\<rparr> else q) in
                 q\<lparr>granularity := min (granularity q) (worst q)\<rparr>
               else q)
      in q\<lparr>runs := uadd 64 (runs q) 1, total := uadd 64 (total q) cycles\<rparr>)"

text \<open>\<open>work_queue_run\<close>; \<open>garbage\<close> is the value of \<open>took\<close> when it has not been assigned.\<close>

definition work_queue_run ::
  "clock \<Rightarrow> nat \<Rightarrow> ('d, 'c) wq_spec \<Rightarrow> timeval \<Rightarrow> nat \<Rightarrow> ('d, 'c) wqstate \<Rightarrow> ('d, 'c) wqstate res option" where
  "work_queue_run clk self sp real garbage s0 =
     (let q = (wq s0)\<lparr>wthread := None\<rparr>;
          s = s0\<lparr>wq := (if granularity q = 0 then q\<lparr>granularity := WORK_QUEUE_MIN_GRANULARITY\<rparr> else q)\<rparr> in
      case run_loop clk self sp real (head (items (wq s))) 0 None s of
        None \<Rightarrow> None
      | Some (Inl e) \<Rightarrow> Some (Inl e)
      | Some (Inr (cycles, yielded, took, s)) \<Rightarrow>
          let s = s\<lparr>wq := run_stats cycles yielded (case took of None \<Rightarrow> garbage | Some t \<Rightarrow> t) (wq s)\<rparr> in
          Some (if list_hdr.count (items (wq s)) > 0
                then bindR (work_queue_schedule clk self 0 s) (\<lambda>(_, s). Inr s)
                else call_client clk self sp (completion_func sp) s))"

section \<open>The scheduler's part\<close>

text \<open>The clock shows times after its start, and not the end of time.\<close>

definition clock_ok :: "clock \<Rightarrow> bool" where
  "clock_ok clk \<longleftrightarrow> (\<forall>i. 0 \<le> tv_sec (clk i) \<and> tv_sec (clk i) < 2 ^ 61 \<and> 0 \<le> tv_usec (clk i) \<and> tv_usec (clk i) < TIMER_SECOND_MICRO)"

definition pending :: "nat \<Rightarrow> thread_master \<Rightarrow> nat set \<Rightarrow> nat \<Rightarrow> bool" where
  "pending self m R t \<longleftrightarrow> t \<in> allocated m - R \<and> type (threads m t) \<in> {THREAD_BACKGROUND, THREAD_READY} \<and>
     arg (threads m t) = self \<and> func (threads m t) = run_func"

lemma add_background_ok:
  assumes "reach m R" "array_size (background m) < 2 ^ 30" "clock_ok clk" "delay < 2 ^ 32"
  shows "\<exists>t m'. thread_add_background (clk i) m run_func self (int delay) = Inr (t, m') \<and> reach m' R \<and> pending self m' R t"
proof -
  let ?rel = "if int delay \<noteq> 0 then \<lparr>tv_sec = c_quot (int delay) 1000, tv_usec = 1000 * c_rem (int delay) 1000\<rparr>
    else \<lparr>tv_sec = 0, tv_usec = 0\<rparr>"
  let ?sum = "\<lparr>tv_sec = tv_sec (clk i) + tv_sec ?rel, tv_usec = tv_usec (clk i) + tv_usec ?rel\<rparr>"
  obtain ls where ls: "sched_inv m ls R" using reach_inv[OF assms(1)] by blast
  have rel: "0 \<le> tv_sec ?rel" "tv_sec ?rel < 2 ^ 32" "0 \<le> tv_usec ?rel" "tv_usec ?rel < 1000000"
    using assms(4) by (auto simp: c_quot_def c_rem_def sgn_if)
  have c: "0 \<le> tv_sec (clk i)" "tv_sec (clk i) < 2 ^ 61" "0 \<le> tv_usec (clk i)" "tv_usec (clk i) < 1000000"
    using assms(3) by (auto simp: clock_ok_def TIMER_SECOND_MICRO_def)
  have "usecs ?sum < 2 ^ 62 * 1000000" using rel c by (simp add: usecs_def TIMER_SECOND_MICRO_def)
  then have time: "tv_sec (timeval_adjust ?sum) < 2 ^ 62"
    using timeval_adjust_normal[of ?sum] by (auto simp: usecs_def TIMER_SECOND_MICRO_def)
  have q: "THREAD_BACKGROUND \<in> queue_types" "array_size (queue_of THREAD_BACKGROUND m) < 2 ^ 30"
    using assms(2) by (simp_all add: queue_types_def queue_of_def)
  from thread_add_timer_ok[OF ls q time] obtain t m' where t:
    "thread_add_timer_timeval (clk i) m run_func THREAD_BACKGROUND self ?rel = Inr (t, m')" "t \<in> allocated m' - R"
    "type (threads m' t) = THREAD_BACKGROUND" "arg (threads m' t) = self" "func (threads m' t) = run_func" by blast
  with reach.add_timer[OF assms(1) q time t(1)] show ?thesis
    by (auto simp: thread_add_background_def pending_def)
qed

section \<open>The invariant\<close>

text \<open>
  The nodes \<open>xs\<close> of the list and the items \<open>as\<close> they carry are exactly the memory in use, and every
  item has data.
\<close>

definition wrep :: "('d, 'c) wqstate \<Rightarrow> nat list \<Rightarrow> nat list \<Rightarrow> bool" where
  "wrep s xs as \<longleftrightarrow> lwf (items (wq s)) (nodes s) xs \<and> list_data (nodes s) xs = map Some as \<and> distinct as \<and>
     dom (imem s) = set as \<and> (\<forall>a\<in>set as. a < ibrk s \<and> (\<exists>it. imem s a = Some it \<and> idata it \<noteq> None)) \<and>
     (\<forall>x. live (nodes s) x \<longleftrightarrow> x \<in> set xs)"

definition unplugged :: "work_queue \<Rightarrow> bool" where
  "unplugged q \<longleftrightarrow> flags q AND WQ_UNPLUGGED \<noteq> 0"

text \<open>
  \<open>budget\<close> bounds the number of items that the client's functions will still add on their own: the
  counter of a list has 32 bits.
\<close>

definition adds_within :: "('c \<Rightarrow> nat) \<Rightarrow> ('c \<Rightarrow> 'd list \<times> 'c) \<Rightarrow> bool" where
  "adds_within budget f \<longleftrightarrow> (\<forall>c. length (fst (f c)) + budget (snd (f c)) \<le> budget c)"

definition spec_ok :: "('d, 'c) wq_spec \<Rightarrow> ('c \<Rightarrow> nat) \<Rightarrow> bool" where
  "spec_ok sp budget \<longleftrightarrow> hold sp < 2 ^ 32 \<and> (\<forall>d. adds_within budget (\<lambda>c. snd (workfunc sp d c))) \<and>
     (\<forall>f h. errorfunc sp = Some f \<longrightarrow> adds_within budget (f h)) \<and>
     (\<forall>f d. del_item_data sp = Some f \<longrightarrow> adds_within budget (f d)) \<and>
     (\<forall>f. completion_func sp = Some f \<longrightarrow> adds_within budget f)"

definition winv :: "('c \<Rightarrow> nat) \<Rightarrow> nat \<Rightarrow> nat set \<Rightarrow> ('d, 'c) wqstate \<Rightarrow> nat list \<Rightarrow> nat list \<Rightarrow> bool" where
  "winv budget self R s xs as \<longleftrightarrow> wrep s xs as \<and> length xs + budget (client s) < 2 ^ 32 \<and> reach (master s) R \<and>
     (case wthread (wq s) of
        None \<Rightarrow> array_size (background (master s)) < 2 ^ 30
      | Some t \<Rightarrow> pending self (master s) R t \<and> unplugged (wq s))"

text \<open>The fields that the operations on items leave alone.\<close>

definition same_q :: "work_queue \<Rightarrow> work_queue \<Rightarrow> bool" where
  "same_q q q' \<longleftrightarrow> flags q' = flags q \<and> granularity q' = granularity q \<and> worst q' = worst q \<and> best q' = best q"

lemma same_q_refl [simp]: "same_q q q"
  by (simp add: same_q_def)

lemma same_q_trans: "same_q q q' \<Longrightarrow> same_q q' q'' \<Longrightarrow> same_q q q''"
  by (simp add: same_q_def)

lemma same_q_upd [simp]: "same_q q (q'\<lparr>items := l\<rparr>) = same_q q q'" "same_q q (q'\<lparr>wthread := t\<rparr>) = same_q q q'"
  by (simp_all add: same_q_def)

lemma wrep_length: "wrep s xs as \<Longrightarrow> length as = length xs \<and> list_hdr.count (items (wq s)) = length xs"
  by (auto simp: wrep_def lwf_def list_data_def dest: arg_cong[where f = length])

lemma wrep_frame:
  "wrep (s\<lparr>master := m, tick := k, wq := (wq s)\<lparr>wthread := p\<rparr>\<rparr>) xs as = wrep s xs as"
  "wrep (s\<lparr>client := c\<rparr>) xs as = wrep s xs as"
  by (simp_all add: wrep_def)

lemma schedule_ok:
  assumes inv: "winv budget self R s xs as" and clk: "clock_ok clk" "delay < 2 ^ 32"
  shows "\<exists>b m k p. work_queue_schedule clk self delay s = Inr (b, s\<lparr>master := m, tick := k, wq := (wq s)\<lparr>wthread := p\<rparr>\<rparr>) \<and>
    winv budget self R (s\<lparr>master := m, tick := k, wq := (wq s)\<lparr>wthread := p\<rparr>\<rparr>) xs as \<and>
    (wthread (wq s) \<noteq> None \<longrightarrow> p = wthread (wq s)) \<and> (unplugged (wq s) \<and> xs \<noteq> [] \<longrightarrow> p \<noteq> None)"
proof (cases "unplugged (wq s) \<and> wthread (wq s) = None \<and> xs \<noteq> []")
  case True
  then have m: "reach (master s) R" "array_size (background (master s)) < 2 ^ 30" using inv by (simp_all add: winv_def)
  from add_background_ok[OF m clk] obtain t m' where
    t: "thread_add_background (clk (tick s)) (master s) run_func self (int delay) = Inr (t, m')" "reach m' R" "pending self m' R t"
    by blast
  have "list_hdr.count (items (wq s)) > 0" using wrep_length[of s xs as] inv True by (simp add: winv_def)
  then have "work_queue_schedule clk self delay s = Inr (True, s\<lparr>master := m', tick := tick s + 1, wq := (wq s)\<lparr>wthread := Some t\<rparr>\<rparr>)"
    using True t(1) by (simp add: work_queue_schedule_def unplugged_def)
  moreover have "winv budget self R (s\<lparr>master := m', tick := tick s + 1, wq := (wq s)\<lparr>wthread := Some t\<rparr>\<rparr>) xs as"
    using inv t(2,3) True by (simp add: winv_def wrep_frame unplugged_def)
  ultimately show ?thesis using True by blast
next
  case False
  then have "work_queue_schedule clk self delay s = Inr (False, s)"
    using wrep_length[of s xs as] inv by (auto simp: work_queue_schedule_def unplugged_def winv_def)
  then show ?thesis using inv False
    by (intro exI[of _ False] exI[of _ "master s"] exI[of _ "tick s"] exI[of _ "wthread (wq s)"]) auto
qed

section \<open>The operations on items\<close>

text \<open>Items that are in the queue are left alone by an addition.\<close>

lemma add_ok:
  assumes inv: "winv budget self R s xs as" and room: "length xs + 1 + budget (client s) < 2 ^ 32"
    and clk: "clock_ok clk" "hold sp < 2 ^ 32"
  shows "\<exists>s' x a. work_queue_add clk self sp (Some d) s = Inr s' \<and> winv budget self R s' (xs @ [x]) (as @ [a]) \<and>
    imem s' = (imem s)(a \<mapsto> \<lparr>idata = Some d, ran = 0\<rparr>) \<and> a \<notin> set as \<and> client s' = client s \<and> same_q (wq s) (wq s') \<and>
    (unplugged (wq s) \<longrightarrow> wthread (wq s') \<noteq> None)"
proof -
  let ?a = "ibrk s" and ?x = "brk (nodes s)" and ?h = "ins_heap xs [] (Some (ibrk s)) (nodes s)"
  let ?l = "ins_hdr xs [] (brk (nodes s)) (items (wq s))"
  have rep: "wrep s xs as" using inv by (simp add: winv_def)
  then have wf: "lwf (items (wq s)) (nodes s) xs" by (simp add: wrep_def)
  define s1 where "s1 = s\<lparr>ibrk := ibrk s + 1, imem := (imem s)(?a \<mapsto> \<lparr>idata = Some d, ran = 0\<rparr>), nodes := ?h,
    wq := (wq s)\<lparr>items := ?l\<rparr>\<rparr>"
  have fresh: "?a \<notin> set as" using rep by (auto simp: wrep_def)
  have l: "lwf ?l ?h (xs @ [?x])" "list_data ?h (xs @ [?x]) = map Some (as @ [?a])"
    using ins_wf[of "items (wq s)" "nodes s" xs "[]" "Some ?a"] wf room rep by (auto simp: wrep_def)
  have lv: "live ?h y \<longleftrightarrow> y \<in> set (xs @ [?x])" for y using rep by (auto simp: ins_heap_def wrep_def)
  have "wrep s1 (xs @ [?x]) (as @ [?a])"
    unfolding wrep_def
  proof (intro conjI)
    show "dom (imem s1) = set (as @ [?a])" using rep by (auto simp: s1_def wrep_def)
    show "\<forall>a\<in>set (as @ [?a]). a < ibrk s1 \<and> (\<exists>it. imem s1 a = Some it \<and> idata it \<noteq> None)"
      using rep fresh by (auto simp: s1_def wrep_def less_SucI)
  qed (use l lv fresh rep in \<open>auto simp: s1_def wrep_def\<close>)
  then have inv1: "winv budget self R s1 (xs @ [?x]) (as @ [?a])"
    using inv room by (auto simp: winv_def s1_def unplugged_def split: option.splits)
  from schedule_ok[OF inv1 clk] obtain b m k p where
    sch: "work_queue_schedule clk self (hold sp) s1 = Inr (b, s1\<lparr>master := m, tick := k, wq := (wq s1)\<lparr>wthread := p\<rparr>\<rparr>)"
    "winv budget self R (s1\<lparr>master := m, tick := k, wq := (wq s1)\<lparr>wthread := p\<rparr>\<rparr>) (xs @ [?x]) (as @ [?a])"
    "unplugged (wq s1) \<longrightarrow> p \<noteq> None" by auto
  have "work_queue_add clk self sp (Some d) s = Inr (s1\<lparr>master := m, tick := k, wq := (wq s1)\<lparr>wthread := p\<rparr>\<rparr>)"
    using listnode_add_ins[OF wf, of ?a] sch(1)
    by (simp add: work_queue_add_def work_queue_item_new_def get_item_def put_item_def s1_def)
  with sch(2,3) fresh show ?thesis
    by (intro exI[of _ "s1\<lparr>master := m, tick := k, wq := (wq s1)\<lparr>wthread := p\<rparr>\<rparr>"] exI[of _ ?x] exI[of _ ?a])
      (simp add: s1_def unplugged_def)
qed

text \<open>What a call of the client leaves: the items it added are behind the others.\<close>

definition extends :: "('c \<Rightarrow> nat) \<Rightarrow> nat \<Rightarrow> nat set \<Rightarrow> ('d, 'c) wqstate \<Rightarrow> nat list \<Rightarrow> nat list \<Rightarrow> nat list \<Rightarrow> nat list \<Rightarrow> ('d, 'c) wqstate \<Rightarrow> bool" where
  "extends budget self R s xs as ys bs s' \<longleftrightarrow> winv budget self R s' (xs @ ys) (as @ bs) \<and>
     (\<forall>a\<in>set as. imem s' a = imem s a) \<and> same_q (wq s) (wq s')"

lemma client_adds_ok:
  assumes "winv budget self R s xs as" "length xs + length ds + budget (client s) < 2 ^ 32" "clock_ok clk" "hold sp < 2 ^ 32"
  shows "\<exists>s' ys bs. client_adds clk self sp ds s = Inr s' \<and> extends budget self R s xs as ys bs s' \<and> length ys = length ds \<and>
    client s' = client s \<and> (unplugged (wq s) \<and> ds \<noteq> [] \<longrightarrow> wthread (wq s') \<noteq> None)"
  using assms
proof (induction ds arbitrary: s xs as)
  case Nil
  then show ?case by (intro exI[of _ s] exI[of _ "[]"]) (simp add: extends_def)
next
  case (Cons d ds)
  have r: "length xs + 1 + budget (client s) < 2 ^ 32" using Cons.prems(2) by simp
  from add_ok[OF Cons.prems(1) r Cons.prems(3,4)] obtain s1 x a where
    s1: "work_queue_add clk self sp (Some d) s = Inr s1" "winv budget self R s1 (xs @ [x]) (as @ [a])"
    "imem s1 = (imem s)(a \<mapsto> \<lparr>idata = Some d, ran = 0\<rparr>)" "a \<notin> set as" "client s1 = client s" "same_q (wq s) (wq s1)"
    "unplugged (wq s) \<longrightarrow> wthread (wq s1) \<noteq> None" by blast
  have "length (xs @ [x]) + length ds + budget (client s1) < 2 ^ 32" using Cons.prems(2) s1(5) by simp
  from Cons.IH[OF s1(2) this Cons.prems(3,4)] obtain s' ys bs where
    s': "client_adds clk self sp ds s1 = Inr s'" "extends budget self R s1 (xs @ [x]) (as @ [a]) ys bs s'" "length ys = length ds"
    "client s' = client s1" "unplugged (wq s1) \<and> ds \<noteq> [] \<longrightarrow> wthread (wq s') \<noteq> None" by blast
  have "unplugged (wq s) \<longrightarrow> wthread (wq s') \<noteq> None"
  proof (cases "ds = []")
    case True
    then show ?thesis using s'(1) s1(7) by simp
  next
    case False
    then show ?thesis using s'(5) s1(6) by (simp add: unplugged_def same_q_def)
  qed
  moreover
  have "extends budget self R s xs as (x # ys) (a # bs) s'"
    using s'(2) s1(3,4,6) same_q_trans[OF s1(6)] unfolding extends_def by auto
  ultimately show ?case using s1(1,5) s'(1,3,4) by (intro exI[of _ s'] exI[of _ "x # ys"] exI[of _ "a # bs"]) simp
qed

lemma call_client_ok:
  assumes "winv budget self R s xs as" "\<And>g. f = Some g \<Longrightarrow> adds_within budget g" "clock_ok clk" "hold sp < 2 ^ 32"
  shows "\<exists>s' ys bs. call_client clk self sp f s = Inr s' \<and> extends budget self R s xs as ys bs s' \<and>
    length ys + budget (client s') \<le> budget (client s) \<and> (unplugged (wq s) \<and> ys \<noteq> [] \<longrightarrow> wthread (wq s') \<noteq> None)"
proof (cases f)
  case None
  then show ?thesis using assms(1) by (intro exI[of _ s] exI[of _ "[]"]) (simp add: call_client_def extends_def)
next
  case (Some g)
  obtain ds c where g: "g (client s) = (ds, c)" by fastforce
  have b: "length ds + budget c \<le> budget (client s)" using assms(2)[OF Some] g by (auto simp: adds_within_def dest: spec[of _ "client s"])
  have inv: "winv budget self R (s\<lparr>client := c\<rparr>) xs as" using assms(1) b by (auto simp: winv_def wrep_frame split: option.splits)
  have "length xs + length ds + budget (client (s\<lparr>client := c\<rparr>)) < 2 ^ 32" using assms(1) b by (simp add: winv_def)
  from client_adds_ok[OF inv this assms(3,4)] obtain s' ys bs where
    "client_adds clk self sp ds (s\<lparr>client := c\<rparr>) = Inr s'" "extends budget self R (s\<lparr>client := c\<rparr>) xs as ys bs s'" "length ys = length ds"
    "client s' = c" "unplugged (wq s) \<and> ds \<noteq> [] \<longrightarrow> wthread (wq s') \<noteq> None" by auto
  with b g Some show ?thesis
    by (intro exI[of _ s']) (rule exI[of _ ys], rule exI[of _ bs], auto simp: call_client_def extends_def)
qed

text \<open>The node at a position and its item.\<close>

lemma wrep_split:
  assumes "wrep s (xs @ x # ys) as"
  obtains as1 a as2 where "as = as1 @ a # as2" "length as1 = length xs" "length as2 = length ys"
    "listgetdata (Some x) (nodes s) = Inr a" "get_next (Some x) (nodes s) = Inr (first ys None)"
proof -
  have len: "length as = length (xs @ x # ys)" using wrep_length[OF assms] by simp
  define as1 where "as1 = take (length xs) as"
  define a where "a = as ! length xs"
  define as2 where "as2 = drop (Suc (length xs)) as"
  have as: "as = as1 @ a # as2" using len by (simp add: as1_def a_def as2_def id_take_nth_drop)
  have lens: "length as1 = length xs" "length as2 = length ys" using len by (simp_all add: as1_def as2_def)
  have "map (dat (nodes s)) (xs @ x # ys) = map Some (as1 @ a # as2)" using assms as by (simp add: wrep_def list_data_def)
  then have "map (dat (nodes s)) xs @ dat (nodes s) x # map (dat (nodes s)) ys = map Some as1 @ Some a # map Some as2" by simp
  then have d: "dat (nodes s) x = Some a" using lens by (auto simp: append_eq_append_conv)
  have lv: "live (nodes s) x" using assms by (auto simp: wrep_def)
  have "nx (nodes s) x = first ys None" using assms by (auto simp: wrep_def lwf_def dlist_def)
  then show ?thesis using that[OF as lens] d lv by (simp add: listgetdata_def get_next_def)
qed

lemma get_item_in: "wrep s xs as \<Longrightarrow> a \<in> set as \<Longrightarrow> \<exists>it d. get_item a s = Inr it \<and> imem s a = Some it \<and> idata it = Some d"
  by (fastforce simp: wrep_def get_item_def)

lemma list_data_part:
  assumes "list_data h (xs @ x # ys) = map Some (as1 @ a # as2)" "length as1 = length xs"
  shows "list_data h (xs @ ys) = map Some (as1 @ as2) \<and> list_data h (xs @ ys @ [x]) = map Some (as1 @ as2 @ [a])"
proof -
  have "map (dat h) xs @ dat h x # map (dat h) ys = map Some as1 @ Some a # map Some as2" using assms(1) by (simp add: list_data_def)
  then show ?thesis using assms(2) by (auto simp: list_data_def append_eq_append_conv)
qed

text \<open>Taking a node with its item out of the list.\<close>

lemma unlink_item_ok:
  assumes inv: "winv budget self R s (xs @ x # ys) (as1 @ a # as2)" and len: "length as1 = length xs"
  shows "\<exists>l h s'. list_delete_node (items (wq s)) (Some x) (nodes s) = Inr (l, h) \<and>
    work_queue_item_free a (s\<lparr>nodes := h, wq := (wq s)\<lparr>items := l\<rparr>\<rparr>) = Inr s' \<and>
    winv budget self R s' (xs @ ys) (as1 @ as2) \<and> client s' = client s \<and> (\<forall>b. b \<noteq> a \<longrightarrow> imem s' b = imem s b) \<and> same_q (wq s) (wq s')"
proof -
  have rep: "wrep s (xs @ x # ys) (as1 @ a # as2)" using inv by (simp add: winv_def)
  then have wf: "lwf (items (wq s)) (nodes s) (xs @ x # ys)" by (simp add: wrep_def)
  from list_delete_node_ok[OF wf] obtain l h where
    del: "list_delete_node (items (wq s)) (Some x) (nodes s) = Inr (l, h)" "lwf l h (xs @ ys)" "dat h = dat (nodes s)"
    "live h = (live (nodes s))(x := False)" by blast
  define s' where "s' = s\<lparr>nodes := h, wq := (wq s)\<lparr>items := l\<rparr>, imem := (imem s)(a := None)\<rparr>"
  have it: "\<exists>it. imem s a = Some it" using rep by (auto simp: wrep_def)
  have dist: "a \<notin> set (as1 @ as2)" "x \<notin> set (xs @ ys)" using rep wf by (auto simp: wrep_def lwf_def dlist_def)
  have "wrep s' (xs @ ys) (as1 @ as2)"
    unfolding wrep_def
  proof (intro conjI)
    show "list_data (nodes s') (xs @ ys) = map Some (as1 @ as2)"
      using list_data_part[of "nodes s" xs x ys as1 a as2] rep len del(3) by (simp add: wrep_def s'_def list_data_def)
    show "dom (imem s') = set (as1 @ as2)" using rep dist by (auto simp: wrep_def s'_def)
    show "\<forall>b\<in>set (as1 @ as2). b < ibrk s' \<and> (\<exists>it. imem s' b = Some it \<and> idata it \<noteq> None)"
      using rep dist by (auto simp: wrep_def s'_def)
    show "\<forall>y. live (nodes s') y \<longleftrightarrow> y \<in> set (xs @ ys)" using rep dist del(4) by (auto simp: wrep_def s'_def)
  qed (use rep del in \<open>auto simp: wrep_def s'_def\<close>)
  then have "winv budget self R s' (xs @ ys) (as1 @ as2)"
    using inv by (auto simp: winv_def s'_def unplugged_def split: option.splits)
  moreover have "work_queue_item_free a (s\<lparr>nodes := h, wq := (wq s)\<lparr>items := l\<rparr>\<rparr>) = Inr s'"
    using it by (auto simp: work_queue_item_free_def get_item_def s'_def)
  ultimately show ?thesis using del(1) by (intro exI[of _ l] exI[of _ h] exI[of _ s']) (simp add: s'_def)
qed

lemma remove_ok:
  assumes inv: "winv budget self R s (xs @ x # ys) as" and ok: "spec_ok sp budget" "clock_ok clk"
  shows "\<exists>s' zs as'. work_queue_item_remove clk self sp x s = Inr s' \<and> winv budget self R s' (xs @ ys @ zs) as' \<and>
    length zs + budget (client s') \<le> budget (client s) \<and> same_q (wq s) (wq s')"
proof -
  have rep: "wrep s (xs @ x # ys) as" using inv by (simp add: winv_def)
  from wrep_split[OF rep] obtain as1 a as2 where as: "as = as1 @ a # as2" "length as1 = length xs"
    "listgetdata (Some x) (nodes s) = Inr a" by blast
  from get_item_in[OF rep, of a] obtain it d where it: "get_item a s = Inr it" "idata it = Some d" using as(1) by auto
  have del: "adds_within budget g" if "map_option (\<lambda>f. f d) (del_item_data sp) = Some g" for g
    using ok(1) that by (auto simp: spec_ok_def)
  have hold: "hold sp < 2 ^ 32" using ok(1) by (simp add: spec_ok_def)
  from call_client_ok[OF inv del ok(2) hold] obtain s1 zs bs where
    c: "call_client clk self sp (map_option (\<lambda>f. f d) (del_item_data sp)) s = Inr s1"
    "winv budget self R s1 ((xs @ x # ys) @ zs) (as @ bs)" "length zs + budget (client s1) \<le> budget (client s)" "same_q (wq s) (wq s1)"
    unfolding extends_def by blast
  then have inv1: "winv budget self R s1 (xs @ x # (ys @ zs)) (as1 @ a # (as2 @ bs))" using as(1) by simp
  from unlink_item_ok[OF inv1 as(2)] obtain l h s' where
    u: "list_delete_node (items (wq s1)) (Some x) (nodes s1) = Inr (l, h)"
    "work_queue_item_free a (s1\<lparr>nodes := h, wq := (wq s1)\<lparr>items := l\<rparr>\<rparr>) = Inr s'"
    "winv budget self R s' (xs @ ys @ zs) (as1 @ as2 @ bs)" "client s' = client s1" "same_q (wq s1) (wq s')" by auto
  have "work_queue_item_remove clk self sp x s = Inr s'"
    using as(3) it c(1) u(1,2) by (simp add: work_queue_item_remove_def)
  then show ?thesis using u(3,4) c(3) same_q_trans[OF c(4) u(5)] by auto
qed

lemma requeue_ok:
  assumes inv: "winv budget self R s (xs @ x # ys) as"
  shows "\<exists>s' as'. work_queue_item_requeue x s = Inr s' \<and> winv budget self R s' (xs @ ys @ [x]) as' \<and> client s' = client s \<and>
    same_q (wq s) (wq s')"
proof -
  have rep: "wrep s (xs @ x # ys) as" using inv by (simp add: winv_def)
  from wrep_split[OF rep] obtain as1 a as2 where as: "as = as1 @ a # as2" "length as1 = length xs" by blast
  have wf: "lwf (items (wq s)) (nodes s) (xs @ x # ys)" using rep by (simp add: wrep_def)
  from detach_attach_ok[OF wf] obtain l h where
    mv: "listnode_move_to_tail (items (wq s)) (Some x) (nodes s) = Inr (l, h)" "lwf l h (xs @ ys @ [x])" "dat h = dat (nodes s)"
    "live h = live (nodes s)" by blast
  define s' where "s' = s\<lparr>nodes := h, wq := (wq s)\<lparr>items := l\<rparr>\<rparr>"
  have "list_data h (xs @ ys @ [x]) = map Some (as1 @ as2 @ [a])"
    using list_data_part[of "nodes s" xs x ys as1 a as2] rep as mv(3) by (simp add: wrep_def list_data_def)
  then have "wrep s' (xs @ ys @ [x]) (as1 @ as2 @ [a])" using rep as(1) mv by (auto simp: wrep_def s'_def)
  then have "winv budget self R s' (xs @ ys @ [x]) (as1 @ as2 @ [a])"
    using inv by (auto simp: winv_def s'_def unplugged_def split: option.splits)
  moreover have "work_queue_item_requeue x s = Inr s'"
    using mv(1) by (auto simp: work_queue_item_requeue_def listnode_move_to_tail_def s'_def bindR_eq_Inr)
  ultimately show ?thesis by (intro exI[of _ s'] exI[of _ "as1 @ as2 @ [a]"]) (simp add: s'_def)
qed

section \<open>The loops\<close>

lemma put_ran_ok:
  assumes inv: "winv budget self R s xs as" and a: "a \<in> set as" "get_item a s = Inr it"
  shows "winv budget self R (put_item a (it\<lparr>ran := n\<rparr>) s) xs as"
proof -
  have "imem s a = Some it" using a(2) by (auto simp: get_item_def split: option.splits)
  then have "wrep (put_item a (it\<lparr>ran := n\<rparr>) s) xs as"
    using inv a(1) by (auto simp: winv_def wrep_def put_item_def)
  then show ?thesis using inv by (auto simp: winv_def put_item_def split: option.splits)
qed

lemma dec_ran_ok:
  assumes "winv budget self R s xs as" "a \<in> set as"
  shows "\<exists>s'. dec_ran a s = Inr s' \<and> winv budget self R s' xs as \<and> client s' = client s \<and> same_q (wq s) (wq s')"
proof -
  from get_item_in[of s xs as a] assms obtain it where "get_item a s = Inr it" by (auto simp: winv_def)
  with put_ran_ok[OF assms this, of "usub 16 (ran it) 1"] show ?thesis by (simp add: dec_ran_def put_item_def)
qed

text \<open>One attempt: the work function is called and the attempt is counted.\<close>

lemma attempt_ok:
  assumes inv: "winv budget self R s xs as" and a: "a \<in> set as" and ok: "spec_ok sp budget" "clock_ok clk"
    and w: "workfunc sp d (client s) = (ret, ds, c)"
  shows "\<exists>n s' ys bs. bindR (client_adds clk self sp ds (s\<lparr>client := c\<rparr>)) (\<lambda>s. bindR (get_item a s) (\<lambda>it.
      let n = uadd 16 (ran it) 1 in Inr (n, put_item a (it\<lparr>ran := n\<rparr>) s))) = Inr (n, s') \<and>
    winv budget self R s' (xs @ ys) (as @ bs) \<and> length ys + budget (client s') \<le> budget (client s) \<and> same_q (wq s) (wq s') \<and>
    n < 2 ^ 16 \<and> (\<forall>it. imem s a = Some it \<longrightarrow> n = uadd 16 (ran it) 1) \<and> (\<exists>it. imem s' a = Some it \<and> ran it = n)"
proof -
  have "adds_within budget (\<lambda>c. snd (workfunc sp d c))" using ok(1) by (simp add: spec_ok_def)
  then have b: "length ds + budget c \<le> budget (client s)" using w by (auto simp: adds_within_def dest: spec[of _ "client s"])
  have inv0: "winv budget self R (s\<lparr>client := c\<rparr>) xs as" using inv b by (auto simp: winv_def wrep_frame split: option.splits)
  have "length xs + length ds + budget (client (s\<lparr>client := c\<rparr>)) < 2 ^ 32" "hold sp < 2 ^ 32"
    using inv b ok(1) by (simp_all add: winv_def spec_ok_def)
  from client_adds_ok[OF inv0 this(1) ok(2) this(2)] obtain s1 ys bs where
    s1: "client_adds clk self sp ds (s\<lparr>client := c\<rparr>) = Inr s1" "winv budget self R s1 (xs @ ys) (as @ bs)"
    "\<forall>a\<in>set as. imem s1 a = imem s a" "same_q (wq s) (wq s1)" "length ys = length ds" "client s1 = c"
    by (auto simp: extends_def)
  from get_item_in[of s1 "xs @ ys" "as @ bs" a] s1(2) a obtain it where it: "get_item a s1 = Inr it" "imem s1 a = Some it"
    by (auto simp: winv_def)
  let ?n = "uadd 16 (ran it) 1" and ?s = "put_item a (it\<lparr>ran := uadd 16 (ran it) 1\<rparr>) s1"
  have "winv budget self R ?s (xs @ ys) (as @ bs)" using put_ran_ok[OF s1(2) _ it(1)] a by simp
  moreover have "imem s a = Some it" using s1(3) a it(2) by auto
  moreover have "bindR (client_adds clk self sp ds (s\<lparr>client := c\<rparr>)) (\<lambda>s. bindR (get_item a s) (\<lambda>it.
      let n = uadd 16 (ran it) 1 in Inr (n, put_item a (it\<lparr>ran := n\<rparr>) s))) = Inr (?n, ?s)"
    using s1(1) it(1) by (simp add: Let_def)
  moreover have "length ys + budget (client ?s) \<le> budget (client s)" "same_q (wq s) (wq ?s)" "?n < 2 ^ 16"
    using s1(4,5,6) b by (simp_all add: put_item_def del: numeral_power_eq_of_nat_cancel_iff) (rule uadd_less[of 16, simplified])
  moreover have "\<exists>it. imem ?s a = Some it \<and> ran it = ?n" by (simp add: put_item_def)
  moreover have "\<forall>it'. imem s a = Some it' \<longrightarrow> ?n = uadd 16 (ran it') 1" using \<open>imem s a = Some it\<close> by simp
  ultimately show ?thesis by blast
qed

lemma try_loop_ok:
  assumes "try_loop clk self sp a d s = Some r" "winv budget self R s xs as" "a \<in> set as" "spec_ok sp budget" "clock_ok clk"
  shows "\<exists>ret s' ys bs. r = Inr (ret, s') \<and> winv budget self R s' (xs @ ys) (as @ bs) \<and>
    length ys + budget (client s') \<le> budget (client s) \<and> same_q (wq s) (wq s') \<and> (\<exists>c. fst (workfunc sp d c) = ret)"
proof -
  let ?P = "\<lambda>clk self sp a d s r. \<forall>xs as. winv budget self R s xs as \<longrightarrow> a \<in> set as \<longrightarrow> spec_ok sp budget \<longrightarrow> clock_ok clk \<longrightarrow>
    (\<exists>ret s' ys bs. r = Inr (ret, s') \<and> winv budget self R s' (xs @ ys) (as @ bs) \<and>
      length ys + budget (client s') \<le> budget (client s) \<and> same_q (wq s) (wq s') \<and> (\<exists>c. fst (workfunc sp d c) = ret))"
  have "?P clk self sp a d s r"
  proof (rule try_loop.raw_induct[where P = ?P, OF _ assms(1)], intro allI impI)
    fix f clk self and sp :: "('a, 'b) wq_spec" and a d s r xs as
    assume IH: "\<And>clk self sp a d s r. f clk self sp a d s = Some r \<Longrightarrow> ?P clk self sp a d s r"
      and body: "(case workfunc sp d (client s) of (ret, ds, c) \<Rightarrow>
          (case bindR (client_adds clk self sp ds (s\<lparr>client := c\<rparr>)) (\<lambda>s. bindR (get_item a s) (\<lambda>it.
                let n = uadd 16 (ran it) 1 in Inr (n, put_item a (it\<lparr>ran := n\<rparr>) s))) of
             Inl e \<Rightarrow> Some (Inl e)
           | Inr (n, s) \<Rightarrow> if ret = WQ_RETRY_NOW \<and> n < max_retries sp then f clk self sp a d s else Some (Inr (ret, s)))) = Some r"
      and inv: "winv budget self R s xs as" "a \<in> set as" "spec_ok sp budget" "clock_ok clk"
    obtain ret ds c where w: "workfunc sp d (client s) = (ret, ds, c)" using prod_cases3 by blast
    from attempt_ok[OF inv w] obtain n s' ys bs where
      at: "bindR (client_adds clk self sp ds (s\<lparr>client := c\<rparr>)) (\<lambda>s. bindR (get_item a s) (\<lambda>it.
          let n = uadd 16 (ran it) 1 in Inr (n, put_item a (it\<lparr>ran := n\<rparr>) s))) = Inr (n, s')"
      "winv budget self R s' (xs @ ys) (as @ bs)" "length ys + budget (client s') \<le> budget (client s)" "same_q (wq s) (wq s')"
      by blast
    show "\<exists>ret s' ys bs. r = Inr (ret, s') \<and> winv budget self R s' (xs @ ys) (as @ bs) \<and>
      length ys + budget (client s') \<le> budget (client s) \<and> same_q (wq s) (wq s') \<and> (\<exists>c. fst (workfunc sp d c) = ret)"
    proof (cases "ret = WQ_RETRY_NOW \<and> n < max_retries sp")
      case True
      then have "f clk self sp a d s' = Some r" using body by (simp only: w at(1) prod.case sum.case if_True simp_thms)
      moreover have "a \<in> set (as @ bs)" using inv(2) by simp
      ultimately obtain ret2 s2 ys2 bs2 where
        "r = Inr (ret2, s2)" "winv budget self R s2 ((xs @ ys) @ ys2) ((as @ bs) @ bs2)"
        "length ys2 + budget (client s2) \<le> budget (client s')" "same_q (wq s') (wq s2)"
        "\<exists>c. fst (workfunc sp d c) = ret2" using IH at(2) inv(3,4) by blast
      then show ?thesis using at(3) same_q_trans[OF at(4)]
        by (intro exI[of _ ret2] exI[of _ s2]) (rule exI[of _ "ys @ ys2"], rule exI[of _ "bs @ bs2"], auto)
    next
      case False
      then have "r = Inr (ret, s')" using body by (simp only: w at(1) prod.case sum.case if_False option.inject)
      moreover have "\<exists>c. fst (workfunc sp d c) = ret" using w by (intro exI[of _ "client s"]) simp
      ultimately show ?thesis using at by blast
    qed
  qed
  with assms show ?thesis by blast
qed

text \<open>The attempts end, because the number of retries fits into the counter of an item.\<close>

lemma try_loop_ends:
  assumes "winv budget self R s xs as" "a \<in> set as" "spec_ok sp budget" "clock_ok clk" "max_retries sp < 2 ^ 16"
  shows "\<exists>r. try_loop clk self sp a d s = Some r"
proof -
  have step: "\<exists>ret n s' ys bs it'. try_loop clk self sp a d s =
      (if ret = WQ_RETRY_NOW \<and> n < max_retries sp then try_loop clk self sp a d s' else Some (Inr (ret, s'))) \<and>
      winv budget self R s' (xs @ ys) (as @ bs) \<and> imem s' a = Some it' \<and> ran it' = n \<and> n = uadd 16 (ran it) 1"
    if h: "winv budget self R s xs as" "a \<in> set as" "imem s a = Some it" for s xs as it
  proof -
    obtain ret ds c where w: "workfunc sp d (client s) = (ret, ds, c)" using prod_cases3 by blast
    from attempt_ok[OF h(1,2) assms(3,4) w] obtain n s' ys bs it' where
      at: "bindR (client_adds clk self sp ds (s\<lparr>client := c\<rparr>)) (\<lambda>s. bindR (get_item a s) (\<lambda>it.
          let n = uadd 16 (ran it) 1 in Inr (n, put_item a (it\<lparr>ran := n\<rparr>) s))) = Inr (n, s')"
      "winv budget self R s' (xs @ ys) (as @ bs)" "n = uadd 16 (ran it) 1" "imem s' a = Some it'" "ran it' = n"
      using h(3) by blast
    have "try_loop clk self sp a d s =
        (if ret = WQ_RETRY_NOW \<and> n < max_retries sp then try_loop clk self sp a d s' else Some (Inr (ret, s')))"
      by (subst try_loop.simps) (simp only: w at(1) prod.case sum.case)
    with at(2-5) show ?thesis by blast
  qed
  have more: "\<exists>r. try_loop clk self sp a d s = Some r"
    if "winv budget self R s xs as" "a \<in> set as" "imem s a = Some it" "ran it < max_retries sp" "max_retries sp - ran it = k" for k it s xs as
    using that
  proof (induction k arbitrary: it s xs as rule: less_induct)
    case (less k)
    from step[OF less.prems(1-3)] obtain ret s' ys bs it' where
      st: "try_loop clk self sp a d s = (if ret = WQ_RETRY_NOW \<and> ran it' < max_retries sp then try_loop clk self sp a d s' else Some (Inr (ret, s')))"
      "winv budget self R s' (xs @ ys) (as @ bs)" "imem s' a = Some it'" "ran it' = uadd 16 (ran it) 1" by blast
    have "ran it' = ran it + 1" using st(4) less.prems(4) assms(5) by (simp add: uadd_def)
    then have "ran it' < max_retries sp \<Longrightarrow> max_retries sp - ran it' < k" using less.prems(5) by linarith
    from less.IH[OF this st(2) _ st(3)] less.prems(2) st(1) show ?case
      by (cases "ret = WQ_RETRY_NOW \<and> ran it' < max_retries sp") (simp_all only: if_True if_False, auto)
  qed
  obtain it where "imem s a = Some it" using assms(1,2) by (auto simp: winv_def wrep_def)
  from step[OF assms(1,2) this] obtain ret s' ys bs it' where
    st: "try_loop clk self sp a d s = (if ret = WQ_RETRY_NOW \<and> ran it' < max_retries sp then try_loop clk self sp a d s' else Some (Inr (ret, s')))"
    "winv budget self R s' (xs @ ys) (as @ bs)" "imem s' a = Some it'" by blast
  from more[OF st(2) _ st(3)] assms(2) st(1) show ?thesis
    by (cases "ret = WQ_RETRY_NOW \<and> ran it' < max_retries sp") (simp_all only: if_True if_False, auto)
qed

text \<open>
  The body of the loop over the items: the item is removed, moved to the end, or stays and stops
  the run; what the client added is behind the rest.
\<close>

lemma work_switch_ok:
  assumes inv: "winv budget self R s (xs @ x # ys) as" and a: "a \<in> set as" and ok: "spec_ok sp budget" "clock_ok clk"
  shows "\<exists>pr s' zs as'. work_switch clk self sp x a ret s = Inr (pr, s') \<and> length zs + budget (client s') \<le> budget (client s) \<and>
    same_q (wq s) (wq s') \<and> pr \<noteq> Skipped \<and>
    (if pr = Stopped then winv budget self R s' (xs @ x # ys @ zs) as'
     else winv budget self R s' (xs @ ys @ zs) as' \<or> ret = WQ_REQUEUE \<and> winv budget self R s' (xs @ ys @ zs @ [x]) as')"
proof -
  have err: "adds_within budget g" if "map_option (\<lambda>f. f (Item_itself a)) (errorfunc sp) = Some g" for g
    using ok(1) that by (auto simp: spec_ok_def)
  have hold: "hold sp < 2 ^ 32" using ok(1) by (simp add: spec_ok_def)
  have stop: ?thesis if "work_switch clk self sp x a ret s = Inr (Stopped, s')" "winv budget self R s' (xs @ x # ys) as"
    "client s' = client s" "same_q (wq s) (wq s')" for s'
    using that by (intro exI[of _ Stopped] exI[of _ s'] exI[of _ "[]"] exI[of _ as]) simp
  have remove: ?thesis if "work_switch clk self sp x a ret s = bindR (work_queue_item_remove clk self sp x s1) (\<lambda>s. Inr (Completed, s))"
    "winv budget self R s1 (xs @ x # ys @ zs) as1" "length zs + budget (client s1) \<le> budget (client s)" "same_q (wq s) (wq s1)" for s1 zs as1
  proof -
    from remove_ok[OF that(2) ok] obtain s2 zs2 as2 where "work_queue_item_remove clk self sp x s1 = Inr s2"
      "winv budget self R s2 (xs @ (ys @ zs) @ zs2) as2" "length zs2 + budget (client s2) \<le> budget (client s1)" "same_q (wq s1) (wq s2)"
      by blast
    then show ?thesis using that(1,3) same_q_trans[OF that(4)]
      by (intro exI[of _ Completed] exI[of _ s2]) (rule exI[of _ "zs @ zs2"], rule exI[of _ as2], auto)
  qed
  show ?thesis
  proof (cases ret)
    case WQ_SUCCESS
    then show ?thesis using remove[of s "[]" as] inv by (simp add: work_switch_def)
  next
    case WQ_RETRY_LATER
    then show ?thesis using stop[of s] inv by (simp add: work_switch_def)
  next
    case WQ_QUEUE_BLOCKED
    from dec_ran_ok[OF inv a] obtain s1 where "dec_ran a s = Inr s1" "winv budget self R s1 (xs @ x # ys) as" "client s1 = client s"
      "same_q (wq s) (wq s1)" by blast
    then show ?thesis using stop[of s1] WQ_QUEUE_BLOCKED by (simp add: work_switch_def)
  next
    case WQ_REQUEUE
    from dec_ran_ok[OF inv a] obtain s1 where s1: "dec_ran a s = Inr s1" "winv budget self R s1 (xs @ x # ys) as" "client s1 = client s"
      "same_q (wq s) (wq s1)" by blast
    from requeue_ok[OF s1(2)] obtain s2 as' where "work_queue_item_requeue x s1 = Inr s2" "winv budget self R s2 (xs @ ys @ [x]) as'"
      "client s2 = client s1" "same_q (wq s1) (wq s2)" by blast
    then show ?thesis using s1 WQ_REQUEUE same_q_trans[OF s1(4)]
      by (intro exI[of _ Completed] exI[of _ s2] exI[of _ "[]"] exI[of _ as']) (simp add: work_switch_def)
  next
    case WQ_ERROR
    from call_client_ok[OF inv err ok(2) hold] obtain s1 zs bs where
      "call_client clk self sp (map_option (\<lambda>f. f (Item_itself a)) (errorfunc sp)) s = Inr s1"
      "winv budget self R s1 ((xs @ x # ys) @ zs) (as @ bs)" "length zs + budget (client s1) \<le> budget (client s)" "same_q (wq s) (wq s1)"
      unfolding extends_def by blast
    then show ?thesis using remove[of s1 zs "as @ bs"] WQ_ERROR by (simp add: work_switch_def)
  next
    case WQ_RETRY_NOW
    from call_client_ok[OF inv err ok(2) hold] obtain s1 zs bs where
      "call_client clk self sp (map_option (\<lambda>f. f (Item_itself a)) (errorfunc sp)) s = Inr s1"
      "winv budget self R s1 ((xs @ x # ys) @ zs) (as @ bs)" "length zs + budget (client s1) \<le> budget (client s)" "same_q (wq s) (wq s1)"
      unfolding extends_def by blast
    then show ?thesis using remove[of s1 zs "as @ bs"] WQ_RETRY_NOW by (simp add: work_switch_def)
  qed
qed

lemma work_item_ok:
  assumes "work_item clk self sp x a s = Some r" and inv: "winv budget self R s (xs @ x # ys) as" and a: "a \<in> set as"
    and ok: "spec_ok sp budget" "clock_ok clk"
  shows "\<exists>pr s' zs as'. r = Inr (pr, s') \<and> length zs + budget (client s') \<le> budget (client s) \<and> same_q (wq s) (wq s') \<and>
    (if pr = Stopped then winv budget self R s' (xs @ x # ys @ zs) as'
     else winv budget self R s' (xs @ ys @ zs) as' \<or>
       (\<exists>d c. fst (workfunc sp d c) = WQ_REQUEUE) \<and> winv budget self R s' (xs @ ys @ zs @ [x]) as')"
proof -
  have "wrep s (xs @ x # ys) as" using inv by (simp add: winv_def)
  from get_item_in[OF this a] obtain it d where it: "get_item a s = Inr it" "idata it = Some d" by blast
  show ?thesis
  proof (cases "ran it > max_retries sp")
    case True
    have err: "adds_within budget g" if "map_option (\<lambda>f. f (Item_data d)) (errorfunc sp) = Some g" for g
      using ok(1) that by (auto simp: spec_ok_def)
    have hold: "hold sp < 2 ^ 32" using ok(1) by (simp add: spec_ok_def)
    from call_client_ok[OF inv err ok(2) hold] obtain s1 zs bs where
      s1: "call_client clk self sp (map_option (\<lambda>f. f (Item_data d)) (errorfunc sp)) s = Inr s1"
      "winv budget self R s1 ((xs @ x # ys) @ zs) (as @ bs)" "length zs + budget (client s1) \<le> budget (client s)" "same_q (wq s) (wq s1)"
      unfolding extends_def by blast
    from s1(2) have "winv budget self R s1 (xs @ x # (ys @ zs)) (as @ bs)" by simp
    from remove_ok[OF this ok] obtain s2 zs2 as2 where
      s2: "work_queue_item_remove clk self sp x s1 = Inr s2" "winv budget self R s2 (xs @ (ys @ zs) @ zs2) as2"
      "length zs2 + budget (client s2) \<le> budget (client s1)" "same_q (wq s1) (wq s2)" by blast
    have "r = Inr (Skipped, s2)" using assms(1) it True s1(1) s2(1) by (simp add: work_item_def)
    moreover have "winv budget self R s2 (xs @ ys @ (zs @ zs2)) as2" "length (zs @ zs2) + budget (client s2) \<le> budget (client s)"
      using s2(2,3) s1(3) by simp_all
    ultimately show ?thesis using same_q_trans[OF s1(4) s2(4)] by (metis progress.distinct(1))
  next
    case False
    obtain tr where tr: "try_loop clk self sp a d s = Some tr" using assms(1) it False by (auto simp: work_item_def split: option.splits)
    from try_loop_ok[OF tr inv a ok] obtain ret s1 zs bs where
      s1: "tr = Inr (ret, s1)" "winv budget self R s1 ((xs @ x # ys) @ zs) (as @ bs)" "length zs + budget (client s1) \<le> budget (client s)"
      "same_q (wq s) (wq s1)" "\<exists>c. fst (workfunc sp d c) = ret" by blast
    from s1(2) have inv1: "winv budget self R s1 (xs @ x # (ys @ zs)) (as @ bs)" by simp
    have a1: "a \<in> set (as @ bs)" using a by simp
    from work_switch_ok[OF inv1 a1 ok, of ret] obtain pr s2 zs2 as2 where
      s2: "work_switch clk self sp x a ret s1 = Inr (pr, s2)" "length zs2 + budget (client s2) \<le> budget (client s1)"
      "same_q (wq s1) (wq s2)"
      "if pr = Stopped then winv budget self R s2 (xs @ x # (ys @ zs) @ zs2) as2
       else winv budget self R s2 (xs @ (ys @ zs) @ zs2) as2 \<or> ret = WQ_REQUEUE \<and> winv budget self R s2 (xs @ (ys @ zs) @ zs2 @ [x]) as2"
      by blast
    have "r = Inr (pr, s2)" using assms(1) it False tr s1(1) s2(1) by (simp add: work_item_def)
    moreover have "length (zs @ zs2) + budget (client s2) \<le> budget (client s)" using s1(3) s2(2) by simp
    moreover have "if pr = Stopped then winv budget self R s2 (xs @ x # ys @ (zs @ zs2)) as2
       else winv budget self R s2 (xs @ ys @ (zs @ zs2)) as2 \<or>
         (\<exists>d c. fst (workfunc sp d c) = WQ_REQUEUE) \<and> winv budget self R s2 (xs @ ys @ (zs @ zs2) @ [x]) as2"
      using s2(4) s1(5) by (auto split: if_splits)
    ultimately show ?thesis using same_q_trans[OF s1(4) s2(3)] by blast
  qed
qed

lemma work_item_ends:
  assumes "winv budget self R s xs as" "a \<in> set as" "spec_ok sp budget" "clock_ok clk" "max_retries sp < 2 ^ 16"
  shows "\<exists>r. work_item clk self sp x a s = Some r"
proof -
  from get_item_in[of s xs as a] assms(1,2) obtain it d where "get_item a s = Inr it" "idata it = Some d" by (auto simp: winv_def)
  moreover obtain tr where "try_loop clk self sp a d s = Some tr" using try_loop_ends[OF assms] by blast
  ultimately show ?thesis by (auto simp: work_item_def split: sum.splits)
qed

lemma winv_tick [simp]: "winv budget self R (s\<lparr>tick := k\<rparr>) xs as = winv budget self R s xs as"
  by (simp add: winv_def wrep_def split: option.splits)

text \<open>What the loop does with the first of the remaining nodes.\<close>

definition after_item ::
  "clock \<Rightarrow> timeval \<Rightarrow> (nat option \<Rightarrow> nat \<Rightarrow> nat option \<Rightarrow> ('d, 'c) wqstate \<Rightarrow> (nat \<times> bool \<times> nat option \<times> ('d, 'c) wqstate) res option) \<Rightarrow>
   nat option \<Rightarrow> nat \<Rightarrow> nat option \<Rightarrow> progress \<Rightarrow> ('d, 'c) wqstate \<Rightarrow> (nat \<times> bool \<times> nat option \<times> ('d, 'c) wqstate) res option" where
  "after_item clk real loop nnode cycles took pr s =
     (if pr = Stopped then Some (Inr (cycles, False, took, s))
      else if pr = Skipped then loop nnode cycles took s
      else if uadd 32 cycles 1 mod granularity (wq s) = 0 then
        if thread_should_yield (clk (tick s)) real \<noteq> 0
        then Some (Inr (uadd 32 cycles 1, True, Some (ulong_of (thread_should_yield (clk (tick s)) real)), s\<lparr>tick := tick s + 1\<rparr>))
        else loop nnode (uadd 32 cycles 1) (Some 0) (s\<lparr>tick := tick s + 1\<rparr>)
      else loop nnode (uadd 32 cycles 1) took s)"

lemma run_loop_step:
  assumes "wrep s (xs @ x # ys) as"
  obtains a where "a \<in> set as" "listgetdata (Some x) (nodes s) = Inr a"
    "run_loop clk self sp real (Some x) cycles took s =
      (case work_item clk self sp x a s of None \<Rightarrow> None | Some (Inl e) \<Rightarrow> Some (Inl e)
       | Some (Inr (pr, s)) \<Rightarrow> after_item clk real (run_loop clk self sp real) (first ys None) cycles took pr s)"
proof -
  from wrep_split[OF assms] obtain as1 a as2 where a: "as = as1 @ a # as2" "listgetdata (Some x) (nodes s) = Inr a"
    "get_next (Some x) (nodes s) = Inr (first ys None)" by blast
  have "run_loop clk self sp real (Some x) cycles took s =
      (case work_item clk self sp x a s of None \<Rightarrow> None | Some (Inl e) \<Rightarrow> Some (Inl e)
       | Some (Inr (pr, s)) \<Rightarrow> after_item clk real (run_loop clk self sp real) (first ys None) cycles took pr s)"
    unfolding after_item_def by (subst run_loop.simps) (simp only: option.case a(2,3) bindR_simps sum.case prod.case)
  then show ?thesis using that a(1,2) by simp
qed

lemma after_item_cases:
  obtains (stop) "pr = Stopped" "after_item clk real loop nnode cycles took pr s = Some (Inr (cycles, False, took, s))"
  | (yields) t k where "pr = Completed" "uadd 32 cycles 1 mod granularity (wq s) = 0"
    "after_item clk real loop nnode cycles took pr s = Some (Inr (uadd 32 cycles 1, True, t, s\<lparr>tick := k\<rparr>))"
  | (go) c2 t2 k where "pr \<noteq> Stopped" "c2 = cycles \<or> c2 = uadd 32 cycles 1"
    "after_item clk real loop nnode cycles took pr s = loop nnode c2 t2 (s\<lparr>tick := k\<rparr>)"
proof (cases pr)
  case Stopped
  then show ?thesis using stop by (simp add: after_item_def)
next
  case Skipped
  then show ?thesis using go[of cycles took "tick s"] by (simp add: after_item_def)
next
  case Completed
  consider "uadd 32 cycles 1 mod granularity (wq s) \<noteq> 0"
    | "uadd 32 cycles 1 mod granularity (wq s) = 0" "thread_should_yield (clk (tick s)) real = 0"
    | "uadd 32 cycles 1 mod granularity (wq s) = 0" "thread_should_yield (clk (tick s)) real \<noteq> 0" by blast
  then show ?thesis
    using yields[OF Completed, of "Some (ulong_of (thread_should_yield (clk (tick s)) real))" "tick s + 1"]
      go[of "uadd 32 cycles 1" "Some 0" "tick s + 1"] go[of "uadd 32 cycles 1" took "tick s"] Completed
    by cases (simp_all add: after_item_def)
qed

text \<open>However the client's functions behave: a run that returns has kept the invariant.\<close>

lemma run_loop_ok:
  assumes "run_loop clk self sp real p cycles took s = Some r" "winv budget self R s xs as" "\<And>x. p = Some x \<Longrightarrow> x \<in> set xs"
    "spec_ok sp budget" "clock_ok clk"
  shows "\<exists>c y t s' xs' as'. r = Inr (c, y, t, s') \<and> winv budget self R s' xs' as' \<and> same_q (wq s) (wq s')"
proof -
  let ?Q = "\<lambda>self s r. \<exists>c y t s' xs' as'. r = Inr (c, y, t, s') \<and> winv budget self R s' xs' as' \<and> same_q (wq s) (wq s')"
  let ?P = "\<lambda>clk self sp real p cycles took s r. \<forall>xs as. winv budget self R s xs as \<longrightarrow> (\<forall>x. p = Some x \<longrightarrow> x \<in> set xs) \<longrightarrow>
    spec_ok sp budget \<longrightarrow> clock_ok clk \<longrightarrow> ?Q self s r"
  have "?P clk self sp real p cycles took s r"
  proof (rule run_loop.raw_induct[where P = ?P, OF _ assms(1)], intro allI impI)
    fix f clk self and sp :: "('a, 'b) wq_spec" and real p cycles took s r xs as
    assume IH: "\<And>clk self sp real p cycles took s r. f clk self sp real p cycles took s = Some r \<Longrightarrow> ?P clk self sp real p cycles took s r"
      and body: "(case p of None \<Rightarrow> Some (Inr (cycles, False, took, s))
      | Some node \<Rightarrow>
          (case bindR (listgetdata p (nodes s)) (\<lambda>a. bindR (get_next p (nodes s)) (\<lambda>nnode. Inr (a, nnode))) of
             Inl e \<Rightarrow> Some (Inl e)
           | Inr (a, nnode) \<Rightarrow>
               (case work_item clk self sp node a s of
                  None \<Rightarrow> None
                | Some (Inl e) \<Rightarrow> Some (Inl e)
                | Some (Inr (pr, s)) \<Rightarrow>
                    if pr = Stopped then Some (Inr (cycles, False, took, s))
                    else if pr = Skipped then f clk self sp real nnode cycles took s
                    else if uadd 32 cycles 1 mod granularity (wq s) = 0 then
                      if thread_should_yield (clk (tick s)) real \<noteq> 0
                      then Some (Inr (uadd 32 cycles 1, True, Some (ulong_of (thread_should_yield (clk (tick s)) real)), s\<lparr>tick := tick s + 1\<rparr>))
                      else f clk self sp real nnode (uadd 32 cycles 1) (Some 0) (s\<lparr>tick := tick s + 1\<rparr>)
                    else f clk self sp real nnode (uadd 32 cycles 1) took s))) = Some r"
      and inv: "winv budget self R s xs as" and p: "\<forall>x. p = Some x \<longrightarrow> x \<in> set xs" and ok: "spec_ok sp budget" "clock_ok clk"
    show "?Q self s r"
    proof (cases p)
      case None
      with body have "r = Inr (cycles, False, took, s)" by simp
      with inv same_q_refl show ?thesis by blast
    next
      case (Some x)
      with p have "x \<in> set xs" by simp
      from split_list[OF this] obtain xs1 xs2 where xs: "xs = xs1 @ x # xs2" by blast
      have "wrep s (xs1 @ x # xs2) as" using inv xs by (simp add: winv_def)
      from wrep_split[OF this] obtain as1 a as2 where a: "as = as1 @ a # as2" "listgetdata (Some x) (nodes s) = Inr a"
        "get_next (Some x) (nodes s) = Inr (first xs2 None)" by blast
      obtain wr where wr: "work_item clk self sp x a s = Some wr"
        using body unfolding Some
        by (cases "work_item clk self sp x a s") (simp_all only: option.case a(2,3) bindR_simps sum.case prod.case option.distinct)
      have "a \<in> set as" using a(1) by simp
      from work_item_ok[OF wr inv[unfolded xs] this ok] obtain pr s1 zs as' where
        s1: "wr = Inr (pr, s1)" "same_q (wq s) (wq s1)"
        "if pr = Stopped then winv budget self R s1 (xs1 @ x # xs2 @ zs) as'
         else winv budget self R s1 (xs1 @ xs2 @ zs) as' \<or>
           (\<exists>d c. fst (workfunc sp d c) = WQ_REQUEUE) \<and> winv budget self R s1 (xs1 @ xs2 @ zs @ [x]) as'" by blast
      have ai: "after_item clk real (f clk self sp real) (first xs2 None) cycles took pr s1 = Some r"
        using body unfolding Some by (simp only: option.case a(2,3) bindR_simps sum.case prod.case wr s1(1) after_item_def)
      obtain xs' as'' where inv1: "winv budget self R s1 xs' as''" "pr \<noteq> Stopped \<Longrightarrow> set xs2 \<subseteq> set xs'"
        using s1(3) by (cases "pr = Stopped") (auto, (metis set_append Un_upper1 Un_upper2 inf_sup_ord(3) sup.coboundedI1 sup.coboundedI2)+)
      have next_in: "x \<in> set xs'" if "pr \<noteq> Stopped" "first xs2 None = Some x" for x
        using inv1(2)[OF that(1)] that(2) by (cases xs2) auto
      have more: "?Q self s r" if "pr \<noteq> Stopped" "f clk self sp real (first xs2 None) c2 t2 (s1\<lparr>tick := k\<rparr>) = Some r" for c2 t2 k
      proof -
        have "winv budget self R (s1\<lparr>tick := k\<rparr>) xs' as''" using inv1(1) by simp
        with IH[OF that(2)] next_in[OF that(1)] ok have "?Q self (s1\<lparr>tick := k\<rparr>) r" by blast
        then obtain c y t s' xs3 as3 where r: "r = Inr (c, y, t, s')" "winv budget self R s' xs3 as3" "same_q (wq (s1\<lparr>tick := k\<rparr>)) (wq s')"
          by blast
        have "same_q (wq s) (wq s')" using same_q_trans[OF s1(2)] r(3) by simp
        with r(1,2) show ?thesis by blast
      qed
      show ?thesis
      proof (cases rule: after_item_cases[of pr clk real "f clk self sp real" "first xs2 None" cycles took s1, case_names stop yields go])
        case stop
        with ai have "r = Inr (cycles, False, took, s1)" by simp
        with inv1(1) s1(2) show ?thesis by blast
      next
        case (yields t k)
        with ai have r: "r = Inr (uadd 32 cycles 1, True, t, s1\<lparr>tick := k\<rparr>)" by simp
        have "winv budget self R (s1\<lparr>tick := k\<rparr>) xs' as''" "same_q (wq s) (wq (s1\<lparr>tick := k\<rparr>))" using inv1(1) s1(2) by simp_all
        with r show ?thesis by blast
      next
        case (go c2 t2 k)
        with ai more[OF go(1), of c2 t2 k] show ?thesis by simp
      qed
    qed
  qed
  with assms show ?thesis by blast
qed

text \<open>
  When no item asks to be queued again and the number of retries fits into an item's counter, the
  loop ends; it yields only after a multiple of \<open>granularity\<close> cycles.
\<close>

definition no_requeue :: "('d, 'c) wq_spec \<Rightarrow> bool" where
  "no_requeue sp \<longleftrightarrow> (\<forall>d c. fst (workfunc sp d c) \<noteq> WQ_REQUEUE) \<and> max_retries sp < 2 ^ 16"

lemma run_loop_ends:
  assumes "winv budget self R s (xs @ ys) as" "cycles + (length ys + budget (client s)) < N" "N \<le> 2 ^ 32"
    and ok: "spec_ok sp budget" "clock_ok clk" "no_requeue sp"
  shows "\<exists>c y t s' xs' as'. run_loop clk self sp real (first ys None) cycles took s = Some (Inr (c, y, t, s')) \<and>
    winv budget self R s' xs' as' \<and> same_q (wq s) (wq s') \<and> c < N \<and> (y \<longrightarrow> 0 < c \<and> c mod granularity (wq s) = 0)"
  using assms(1,2)
proof (induction "length ys + budget (client s)" arbitrary: s xs ys as cycles took rule: less_induct)
  case less
  show ?case
  proof (cases ys)
    case Nil
    have "run_loop clk self sp real (first ys None) cycles took s = Some (Inr (cycles, False, took, s))"
      using Nil by (subst run_loop.simps) simp
    moreover have "cycles < N" using less.prems(2) by simp
    ultimately show ?thesis using less.prems(1) same_q_refl by blast
  next
    case (Cons x ys')
    have inv: "winv budget self R s (xs @ x # ys') as" using less.prems(1) Cons by simp
    then have "wrep s (xs @ x # ys') as" by (simp add: winv_def)
    from run_loop_step[OF this, of clk self sp real cycles took] obtain a where a: "a \<in> set as"
      "run_loop clk self sp real (Some x) cycles took s =
        (case work_item clk self sp x a s of None \<Rightarrow> None | Some (Inl e) \<Rightarrow> Some (Inl e)
         | Some (Inr (pr, s)) \<Rightarrow> after_item clk real (run_loop clk self sp real) (first ys' None) cycles took pr s)" by blast
    have "max_retries sp < 2 ^ 16" using ok(3) by (simp add: no_requeue_def)
    from work_item_ends[OF inv a(1) ok(1,2) this] obtain wr where wr: "work_item clk self sp x a s = Some wr" by blast
    from work_item_ok[OF wr inv a(1) ok(1,2)] obtain pr s1 zs as' where
      s1: "wr = Inr (pr, s1)" "length zs + budget (client s1) \<le> budget (client s)" "same_q (wq s) (wq s1)"
      "if pr = Stopped then winv budget self R s1 (xs @ x # ys' @ zs) as' else winv budget self R s1 (xs @ ys' @ zs) as'"
      using ok(3) unfolding no_requeue_def by (metis (no_types, lifting))
    have g: "granularity (wq s1) = granularity (wq s)" using s1(3) by (simp add: same_q_def)
    have step: "run_loop clk self sp real (first ys None) cycles took s =
        after_item clk real (run_loop clk self sp real) (first ys' None) cycles took pr s1"
      using a(2) wr s1(1) Cons by simp
    have cyc: "uadd 32 cycles 1 = cycles + 1" using less.prems(2) assms(3) Cons by (intro uadd_eq) simp
    show ?thesis
    proof (cases rule: after_item_cases[of pr clk real "run_loop clk self sp real" "first ys' None" cycles took s1, case_names stop yields go])
      case stop
      have "cycles < N" using less.prems(2) by simp
      with stop(2) step s1(3,4) stop(1) show ?thesis by (metis (full_types))
    next
      case (yields t k)
      have "uadd 32 cycles 1 < N" "0 < uadd 32 cycles 1" using cyc less.prems(2) Cons by simp_all
      moreover have "winv budget self R (s1\<lparr>tick := k\<rparr>) (xs @ ys' @ zs) as'" "same_q (wq s) (wq (s1\<lparr>tick := k\<rparr>))"
        using s1(3,4) yields(1) by simp_all
      ultimately show ?thesis using yields(2,3) step g by (metis (no_types, lifting))
    next
      case (go c2 t2 k)
      let ?s = "s1\<lparr>tick := k\<rparr>"
      obtain us vs where uv: "xs @ ys' @ zs = us @ vs" "first vs None = first ys' None" "length vs \<le> length ys' + length zs"
      proof (cases "ys' = []")
        case True
        then show ?thesis using that[of "xs @ zs" "[]"] by simp
      next
        case False
        then show ?thesis using that[of xs "ys' @ zs"] by (cases ys') auto
      qed
      have m: "length vs + budget (client ?s) < length ys + budget (client s)" using uv(3) s1(2) Cons by simp
      have i: "winv budget self R ?s (us @ vs) as'" using s1(4) go(1) uv(1) by simp
      have c: "c2 + (length vs + budget (client ?s)) < N" using m go(2) cyc less.prems(2) by auto
      from less.hyps[OF m i c, of t2] obtain c y t s' xs' as'' where
        "run_loop clk self sp real (first vs None) c2 t2 ?s = Some (Inr (c, y, t, s'))" "winv budget self R s' xs' as''"
        "same_q (wq ?s) (wq s')" "c < N" "y \<longrightarrow> 0 < c \<and> c mod granularity (wq ?s) = 0" by metis
      moreover from this have "same_q (wq s) (wq s')" using same_q_trans[OF s1(3)] by simp
      ultimately show ?thesis using step go(3) uv(2) g by auto
    qed
  qed
qed

section \<open>A run\<close>

text \<open>
  The state in which a run starts: the thread has been taken out of the scheduler and the pointer
  to it is about to be cleared.
\<close>

definition run_start :: "('d, 'c) wqstate \<Rightarrow> ('d, 'c) wqstate" where
  "run_start s0 = (let q = (wq s0)\<lparr>wthread := None\<rparr> in
     s0\<lparr>wq := (if granularity q = 0 then q\<lparr>granularity := WORK_QUEUE_MIN_GRANULARITY\<rparr> else q)\<rparr>)"

lemma run_start_ok:
  assumes "wrep s xs as" "length xs + budget (client s) < 2 ^ 32" "reach (master s) R" "array_size (background (master s)) < 2 ^ 30"
  shows "winv budget self R (run_start s) xs as" "head (items (wq (run_start s))) = first xs None" "client (run_start s) = client s"
    "0 < granularity (wq (run_start s))" "worst (wq (run_start s)) = worst (wq s)" "granularity (wq s) \<le> granularity (wq (run_start s))"
    "unplugged (wq (run_start s)) = unplugged (wq s)" "imem (run_start s) = imem s"
    "wthread (wq (run_start s)) = None"
  using assms by (auto simp: run_start_def winv_def wrep_def lwf_def dlist_def Let_def unplugged_def WORK_QUEUE_MIN_GRANULARITY_def)

lemma work_queue_run_start:
  "work_queue_run clk self sp real garbage s =
     (case run_loop clk self sp real (head (items (wq (run_start s)))) 0 None (run_start s) of
        None \<Rightarrow> None
      | Some (Inl e) \<Rightarrow> Some (Inl e)
      | Some (Inr (cycles, yielded, took, s)) \<Rightarrow>
          let s = s\<lparr>wq := run_stats cycles yielded (case took of None \<Rightarrow> garbage | Some t \<Rightarrow> t) (wq s)\<rparr> in
          Some (if list_hdr.count (items (wq s)) > 0
                then bindR (work_queue_schedule clk self 0 s) (\<lambda>(_, s). Inr s)
                else call_client clk self sp (completion_func sp) s))"
  by (simp add: work_queue_run_def run_start_def Let_def)

lemma run_stats_frame [simp]:
  "items (run_stats c y t q) = items q" "wthread (run_stats c y t q) = wthread q" "flags (run_stats c y t q) = flags q"
  by (simp_all add: run_stats_def Let_def)

lemma winv_stats [simp]: "winv budget self R (s\<lparr>wq := run_stats c y t (wq s)\<rparr>) xs as = winv budget self R s xs as"
  by (simp add: winv_def wrep_def unplugged_def split: option.splits)

text \<open>The end of a run: the queue is scheduled again if items remain.\<close>

definition awake :: "('d, 'c) wqstate \<Rightarrow> bool" where
  "awake s \<longleftrightarrow> (unplugged (wq s) \<and> head (items (wq s)) \<noteq> None \<longrightarrow> wthread (wq s) \<noteq> None)"

lemma wrep_head: "wrep s xs as \<Longrightarrow> head (items (wq s)) = first xs None"
  by (simp add: wrep_def lwf_def dlist_def)

lemma run_end_ok:
  assumes inv: "winv budget self R s xs as" and ok: "spec_ok sp budget" "clock_ok clk"
  shows "\<exists>s' ys bs. (if list_hdr.count (items (wq s)) > 0 then bindR (work_queue_schedule clk self 0 s) (\<lambda>(_, s). Inr s)
      else call_client clk self sp (completion_func sp) s) = Inr s' \<and>
    winv budget self R s' (xs @ ys) (as @ bs) \<and> awake s' \<and> same_q (wq s) (wq s') \<and> (xs \<noteq> [] \<longrightarrow> ys = [] \<and> client s' = client s) \<and>
    (\<forall>a\<in>set as. imem s' a = imem s a)"
proof (cases "xs = []")
  case False
  have rep: "wrep s xs as" using inv by (simp add: winv_def)
  from schedule_ok[OF inv ok(2), of 0] obtain b m k p where
    sch: "work_queue_schedule clk self 0 s = Inr (b, s\<lparr>master := m, tick := k, wq := (wq s)\<lparr>wthread := p\<rparr>\<rparr>)"
    "winv budget self R (s\<lparr>master := m, tick := k, wq := (wq s)\<lparr>wthread := p\<rparr>\<rparr>) xs as"
    "unplugged (wq s) \<and> xs \<noteq> [] \<longrightarrow> p \<noteq> None" by auto
  have "list_hdr.count (items (wq s)) > 0" using wrep_length[OF rep] False by simp
  moreover have "awake (s\<lparr>master := m, tick := k, wq := (wq s)\<lparr>wthread := p\<rparr>\<rparr>)"
    using sch(3) False by (simp add: awake_def unplugged_def)
  ultimately show ?thesis using sch(1,2) False
    by (intro exI[of _ "s\<lparr>master := m, tick := k, wq := (wq s)\<lparr>wthread := p\<rparr>\<rparr>"]) (rule exI[of _ "[]"], rule exI[of _ "[]"], simp)
next
  case True
  have rep: "wrep s xs as" using inv by (simp add: winv_def)
  have comp: "adds_within budget g" if "completion_func sp = Some g" for g using ok(1) that by (simp add: spec_ok_def)
  have hold: "hold sp < 2 ^ 32" using ok(1) by (simp add: spec_ok_def)
  from call_client_ok[OF inv comp ok(2) hold] obtain s' ys bs where
    c: "call_client clk self sp (completion_func sp) s = Inr s'" "winv budget self R s' (xs @ ys) (as @ bs)"
    "\<forall>a\<in>set as. imem s' a = imem s a" "same_q (wq s) (wq s')"
    "unplugged (wq s) \<and> ys \<noteq> [] \<longrightarrow> wthread (wq s') \<noteq> None" unfolding extends_def by blast
  have "head (items (wq s')) = first (xs @ ys) None" using wrep_head[of s' "xs @ ys" "as @ bs"] c(2) by (simp add: winv_def)
  then have "awake s'" using c(4,5) True by (simp add: awake_def unplugged_def same_q_def)
  then show ?thesis using c True wrep_length[OF rep] by (intro exI[of _ s']) (rule exI[of _ ys], rule exI[of _ bs], simp)
qed

lemma work_queue_run_ok:
  assumes "work_queue_run clk self sp real garbage s = Some r" "wrep s xs as" "length xs + budget (client s) < 2 ^ 32"
    "reach (master s) R" "array_size (background (master s)) < 2 ^ 30" and ok: "spec_ok sp budget" "clock_ok clk"
  shows "\<exists>s' xs' as'. r = Inr s' \<and> winv budget self R s' xs' as' \<and> awake s'"
proof -
  note st = run_start_ok[where budget = budget, OF assms(2-5)]
  obtain lr where lr: "run_loop clk self sp real (first xs None) 0 None (run_start s) = Some lr"
    using assms(1) st(2) by (cases "run_loop clk self sp real (first xs None) 0 None (run_start s)") (simp_all add: work_queue_run_start)
  have "first xs None = Some x \<Longrightarrow> x \<in> set xs" for x by (cases xs) auto
  from run_loop_ok[OF lr st(1) this ok] obtain c y t s1 xs1 as1 where
    s1: "lr = Inr (c, y, t, s1)" "winv budget self R s1 xs1 as1" by blast
  let ?s = "s1\<lparr>wq := run_stats c y (case t of None \<Rightarrow> garbage | Some t \<Rightarrow> t) (wq s1)\<rparr>"
  have "winv budget self R ?s xs1 as1" using s1(2) by simp
  from run_end_ok[OF this ok] obtain s' ys bs where
    "(if list_hdr.count (items (wq ?s)) > 0 then bindR (work_queue_schedule clk self 0 ?s) (\<lambda>(_, s). Inr s)
      else call_client clk self sp (completion_func sp) ?s) = Inr s'" "winv budget self R s' (xs1 @ ys) (as1 @ bs)" "awake s'" by blast
  moreover from this have "r = Inr s'" using assms(1) st(2) lr s1(1) by (simp add: work_queue_run_start Let_def)
  ultimately show ?thesis by blast
qed

lemma work_queue_run_ends:
  assumes "wrep s xs as" "length xs + budget (client s) < N" "N \<le> 2 ^ 32" "reach (master s) R" "array_size (background (master s)) < 2 ^ 30"
    and ok: "spec_ok sp budget" "clock_ok clk" "no_requeue sp"
  shows "\<exists>s' xs' as' c y t q. work_queue_run clk self sp real garbage s = Some (Inr s') \<and> winv budget self R s' xs' as' \<and> awake s' \<and>
    same_q (wq (run_start s)) q \<and> same_q (run_stats c y t q) (wq s') \<and> c < N \<and> (y \<longrightarrow> 0 < c \<and> c mod granularity (wq (run_start s)) = 0)"
proof -
  have len: "length xs + budget (client s) < 2 ^ 32" using assms(2,3) by simp
  note st = run_start_ok[where budget = budget, OF assms(1) len assms(4,5)]
  have n: "0 + (length xs + budget (client (run_start s))) < N" using assms(2) st(3) by simp
  have "winv budget self R (run_start s) ([] @ xs) as" using st(1) by simp
  from run_loop_ends[OF this n assms(3) ok, of real None] obtain c y t s1 xs1 as1 where
    s1: "run_loop clk self sp real (first xs None) 0 None (run_start s) = Some (Inr (c, y, t, s1))" "winv budget self R s1 xs1 as1"
    "same_q (wq (run_start s)) (wq s1)" "c < N" "y \<longrightarrow> 0 < c \<and> c mod granularity (wq (run_start s)) = 0" by metis
  let ?t = "case t of None \<Rightarrow> garbage | Some t \<Rightarrow> t"
  let ?s = "s1\<lparr>wq := run_stats c y ?t (wq s1)\<rparr>"
  have "winv budget self R ?s xs1 as1" using s1(2) by simp
  from run_end_ok[OF this ok(1,2)] obtain s' ys bs where
    e: "(if list_hdr.count (items (wq ?s)) > 0 then bindR (work_queue_schedule clk self 0 ?s) (\<lambda>(_, s). Inr s)
      else call_client clk self sp (completion_func sp) ?s) = Inr s'" "winv budget self R s' (xs1 @ ys) (as1 @ bs)" "awake s'"
    "same_q (wq ?s) (wq s')" by blast
  have "work_queue_run clk self sp real garbage s = Some (Inr s')" using st(2) s1(1) e(1) by (simp add: work_queue_run_start Let_def)
  moreover have "same_q (run_stats c y ?t (wq s1)) (wq s')" using e(4) by simp
  ultimately show ?thesis using e(2,3) s1(3-5) by (metis (no_types, lifting))
qed

text \<open>
  The granularity after a run.  A run yields only after a multiple of the granularity, so that
  the branch that is meant to reduce it is never taken.
\<close>

lemma run_stats_granularity:
  assumes "0 < granularity q" "c < 2 ^ 28" "c \<le> worst q" "y \<longrightarrow> 0 < c \<and> c mod granularity q = 0"
  shows "granularity q \<le> granularity (run_stats c y t q) \<or> granularity (run_stats c y t q) = worst q"
    "worst (run_stats c y t q) = worst q"
    "granularity (run_stats c y t q) \<le> max (granularity q) c"
proof -
  have no: "\<not> (y \<and> c < granularity q)" using assms(4) by auto
  have f: "umul 32 (granularity q) WQ_HYSTERESIS_FACTOR = 4 * granularity q"
    "umul 32 (umul 32 (granularity q) WQ_HYSTERESIS_FACTOR) WQ_HYSTERESIS_FACTOR = 16 * granularity q"
    "uadd 32 (granularity q) WQ_HYSTERESIS_FACTOR = granularity q + 4" if "granularity q \<le> c"
    using that assms(2) by (simp_all add: umul_def uadd_def WQ_HYSTERESIS_FACTOR_def)
  show "granularity q \<le> granularity (run_stats c y t q) \<or> granularity (run_stats c y t q) = worst q"
    using no f assms(3) by (auto simp: run_stats_def Let_def)
  show "worst (run_stats c y t q) = worst q" using no by (auto simp: run_stats_def Let_def)
  show "granularity (run_stats c y t q) \<le> max (granularity q) c"
    using no f assms(1) by (auto simp: run_stats_def Let_def)
qed

section \<open>Reachable states\<close>

text \<open>The scheduler has fetched the thread of the queue, which is in flight.\<close>

definition fires :: "('d, 'c) wqstate \<Rightarrow> thread_master \<Rightarrow> nat set \<Rightarrow> bool" where
  "fires s m R \<longleftrightarrow> (\<exists>t. wthread (wq s) = Some t \<and> t \<in> R) \<and> reach m R \<and> array_size (background m) < 2 ^ 30"

text \<open>
  What can happen to a queue after its creation: the calls of the interface, runs, and whatever
  else the program does with its own state and with the scheduler, except that nobody but the
  queue cancels its thread.
\<close>

inductive wq_reach :: "clock \<Rightarrow> nat \<Rightarrow> ('d, 'c) wq_spec \<Rightarrow> ('c \<Rightarrow> nat) \<Rightarrow> ('d, 'c) wqstate \<Rightarrow> nat set \<Rightarrow> bool"
  for clk self sp budget where
  new: "reach (master s) R \<Longrightarrow> nodes s = empty_heap \<Longrightarrow> imem s = Map.empty \<Longrightarrow> budget (client s) < 2 ^ 32 \<Longrightarrow>
    work_queue_new self s = Inr s' \<Longrightarrow> wq_reach clk self sp budget s' R"
| add: "wq_reach clk self sp budget s R \<Longrightarrow> list_hdr.count (items (wq s)) + 1 + budget (client s) < 2 ^ 32 \<Longrightarrow>
    array_size (background (master s)) < 2 ^ 30 \<Longrightarrow> work_queue_add clk self sp (Some d) s = Inr s' \<Longrightarrow>
    wq_reach clk self sp budget s' R"
| plug: "wq_reach clk self sp budget s R \<Longrightarrow> work_queue_plug s = Inr s' \<Longrightarrow> wq_reach clk self sp budget s' R"
| unplug: "wq_reach clk self sp budget s R \<Longrightarrow> array_size (background (master s)) < 2 ^ 30 \<Longrightarrow>
    work_queue_unplug clk self sp s = Inr s' \<Longrightarrow> wq_reach clk self sp budget s' R"
| other: "wq_reach clk self sp budget s R \<Longrightarrow> reach m R' \<Longrightarrow> (\<And>t. wthread (wq s) = Some t \<Longrightarrow> pending self m R' t) \<Longrightarrow>
    list_hdr.count (items (wq s)) + budget c < 2 ^ 32 \<Longrightarrow> wq_reach clk self sp budget (s\<lparr>master := m, client := c, tick := k\<rparr>) R'"
| run: "wq_reach clk self sp budget s R \<Longrightarrow> fires s m R' \<Longrightarrow>
    work_queue_run clk self sp real garbage (s\<lparr>master := m\<rparr>) = Some (Inr s') \<Longrightarrow> wq_reach clk self sp budget s' R'"

text \<open>Between the calls.\<close>

definition idle :: "('c \<Rightarrow> nat) \<Rightarrow> nat \<Rightarrow> nat set \<Rightarrow> ('d, 'c) wqstate \<Rightarrow> nat list \<Rightarrow> nat list \<Rightarrow> bool" where
  "idle budget self R s xs as \<longleftrightarrow> wrep s xs as \<and> length xs + budget (client s) < 2 ^ 32 \<and> reach (master s) R \<and> awake s \<and>
     (\<forall>t. wthread (wq s) = Some t \<longrightarrow> pending self (master s) R t \<and> unplugged (wq s))"

lemma idle_winv: "idle budget self R s xs as \<Longrightarrow> array_size (background (master s)) < 2 ^ 30 \<Longrightarrow> winv budget self R s xs as"
  by (auto simp: idle_def winv_def split: option.splits)

lemma winv_idle: "winv budget self R s xs as \<Longrightarrow> awake s \<Longrightarrow> idle budget self R s xs as"
  by (auto simp: idle_def winv_def)

lemma unplug_bits [simp]: "(x OR WQ_UNPLUGGED) AND WQ_UNPLUGGED \<noteq> 0" "(x AND NOT WQ_UNPLUGGED) AND WQ_UNPLUGGED = 0"
  "WQ_UNPLUGGED \<noteq> 0"
proof -
  have "bit ((x OR WQ_UNPLUGGED) AND WQ_UNPLUGGED) 0" by (simp add: WQ_UNPLUGGED_def bit_simps)
  then show "(x OR WQ_UNPLUGGED) AND WQ_UNPLUGGED \<noteq> 0" by auto
  show "(x AND NOT WQ_UNPLUGGED) AND WQ_UNPLUGGED = 0" by (rule bit_word_eqI) (simp add: bit_simps)
  show "WQ_UNPLUGGED \<noteq> 0" by (simp add: WQ_UNPLUGGED_def)
qed

lemma new_idle:
  assumes "reach (master s) R" "nodes s = empty_heap" "imem s = Map.empty" "budget (client s) < 2 ^ 32" "work_queue_new self s = Inr s'"
  shows "idle budget self R s' [] []"
proof -
  obtain l h where "s' = s\<lparr>wq := \<lparr>wthread = None, items = list_new, runs = 0, worst_usec = 0, best = 0, worst = UINT_MAX,
      granularity = WORK_QUEUE_MIN_GRANULARITY, total = 0, flags = 0 OR WQ_UNPLUGGED\<rparr>, work_queues := l, qnodes := h\<rparr>"
    using assms(5) by (auto simp: work_queue_new_def bindR_eq_Inr)
  then show ?thesis using assms(1-4)
    by (auto simp: idle_def wrep_def awake_def lwf_def list_new_def empty_heap_def list_data_def)
qed

lemma add_idle:
  assumes "idle budget self R s xs as" "array_size (background (master s)) < 2 ^ 30" "length xs + 1 + budget (client s) < 2 ^ 32"
    "clock_ok clk" "hold sp < 2 ^ 32"
  shows "\<exists>s' xs' as'. work_queue_add clk self sp (Some d) s = Inr s' \<and> idle budget self R s' xs' as'"
proof -
  from add_ok[OF idle_winv[OF assms(1,2)] assms(3-5), of d] obtain s' x a where
    s': "work_queue_add clk self sp (Some d) s = Inr s'" "winv budget self R s' (xs @ [x]) (as @ [a])" "same_q (wq s) (wq s')"
    "unplugged (wq s) \<longrightarrow> wthread (wq s') \<noteq> None" by blast
  have "awake s'" using s'(3,4) by (simp add: awake_def unplugged_def same_q_def)
  with s'(1) winv_idle[OF s'(2)] show ?thesis by blast
qed

lemma plug_idle:
  assumes "idle budget self R s xs as"
  shows "\<exists>s'. work_queue_plug s = Inr s' \<and> idle budget self R s' xs as \<and> \<not> unplugged (wq s') \<and> wthread (wq s') = None"
proof -
  have "\<exists>m. (case wthread (wq s) of None \<Rightarrow> Inr (master s) | Some t \<Rightarrow> thread_cancel (master s) t) = Inr m \<and> reach m R"
  proof (cases "wthread (wq s)")
    case None
    then show ?thesis using assms by (simp add: idle_def)
  next
    case (Some t)
    then have t: "t \<in> allocated (master s) - R" "reach (master s) R" using assms by (auto simp: idle_def pending_def)
    obtain ls where "sched_inv (master s) ls R" using reach_inv[OF t(2)] by blast
    from thread_cancel_ok[OF this t(1)] obtain m where m: "thread_cancel (master s) t = Inr m" by blast
    with reach.cancel[OF t(2,1) m] Some show ?thesis by simp
  qed
  then obtain m where m: "(case wthread (wq s) of None \<Rightarrow> Inr (master s) | Some t \<Rightarrow> thread_cancel (master s) t) = Inr m" "reach m R"
    by blast
  let ?s = "s\<lparr>master := m, wq := (wq s)\<lparr>wthread := None, flags := flags (wq s) AND NOT WQ_UNPLUGGED\<rparr>\<rparr>"
  have "idle budget self R ?s xs as" using assms m(2) by (simp add: idle_def wrep_def awake_def unplugged_def)
  then show ?thesis using m(1) by (intro exI[of _ ?s]) (simp add: work_queue_plug_def unplugged_def)
qed

lemma unplug_idle:
  assumes "idle budget self R s xs as" "array_size (background (master s)) < 2 ^ 30" "clock_ok clk" "hold sp < 2 ^ 32"
  shows "\<exists>s'. work_queue_unplug clk self sp s = Inr s' \<and> idle budget self R s' xs as"
proof -
  let ?s = "s\<lparr>wq := (wq s)\<lparr>flags := flags (wq s) OR WQ_UNPLUGGED\<rparr>\<rparr>"
  have "winv budget self R ?s xs as"
    using idle_winv[OF assms(1,2)] by (simp add: winv_def wrep_def unplugged_def split: option.splits)
  from schedule_ok[OF this assms(3,4)] obtain b m k p where
    sch: "work_queue_schedule clk self (hold sp) ?s = Inr (b, ?s\<lparr>master := m, tick := k, wq := (wq ?s)\<lparr>wthread := p\<rparr>\<rparr>)"
    "winv budget self R (?s\<lparr>master := m, tick := k, wq := (wq ?s)\<lparr>wthread := p\<rparr>\<rparr>) xs as" "unplugged (wq ?s) \<and> xs \<noteq> [] \<longrightarrow> p \<noteq> None"
    by blast
  have "awake (?s\<lparr>master := m, tick := k, wq := (wq ?s)\<lparr>wthread := p\<rparr>\<rparr>)"
    using sch(3) wrep_head[of s xs as] assms(1) by (auto simp: awake_def unplugged_def idle_def)
  with sch(1) winv_idle[OF sch(2)] show ?thesis by (simp add: work_queue_unplug_def)
qed

lemma reach_idle:
  assumes "wq_reach clk self sp budget s R" and ok: "spec_ok sp budget" "clock_ok clk"
  shows "\<exists>xs as. idle budget self R s xs as"
  using assms(1)
proof (induction rule: wq_reach.induct)
  case (new s R s')
  then show ?case using new_idle by blast
next
  case (add s R d s')
  then obtain xs as where i: "idle budget self R s xs as" by blast
  then have "length xs + 1 + budget (client s) < 2 ^ 32" using add.hyps(2) wrep_length[of s xs as] by (simp add: idle_def)
  from add_idle[OF i add.hyps(3) this ok(2), of sp d] add.hyps(4) ok(1) show ?case by (auto simp: spec_ok_def)
next
  case (plug s R s')
  then show ?case using plug_idle by fastforce
next
  case (unplug s R s')
  then obtain xs as where "idle budget self R s xs as" by blast
  from unplug_idle[OF this unplug.hyps(2) ok(2), of sp] unplug.hyps(3) ok(1) show ?case by (auto simp: spec_ok_def)
next
  case (other s R m R' c k)
  then obtain xs as where i: "idle budget self R s xs as" by blast
  then have "idle budget self R' (s\<lparr>master := m, client := c, tick := k\<rparr>) xs as"
    using other.hyps(2-4) wrep_length[of s xs as] by (auto simp: idle_def wrep_def awake_def)
  then show ?case by blast
next
  case (run s R m R' real garbage s')
  then obtain xs as where i: "idle budget self R s xs as" by blast
  then have "wrep (s\<lparr>master := m\<rparr>) xs as" "length xs + budget (client (s\<lparr>master := m\<rparr>)) < 2 ^ 32" "reach (master (s\<lparr>master := m\<rparr>)) R'"
    "array_size (background (master (s\<lparr>master := m\<rparr>))) < 2 ^ 30"
    using run.hyps(2) by (auto simp: idle_def wrep_def fires_def)
  from work_queue_run_ok[OF run.hyps(3) this ok] winv_idle show ?case by blast
qed

text \<open>
  C22: No wake-up is lost.  In every state that a queue can reach, its nodes and items are exactly
  those of the list; as long as it holds items and is not plugged, its thread is pending in the
  scheduler and will call \<open>work_queue_run\<close> with the queue; plugging and unplugging succeed, and a
  run, whenever the thread fires, fails no assertion and touches no released memory, whatever the
  client's functions return and add.
\<close>

theorem work_queue_no_lost_wakeup:
  assumes "wq_reach clk self sp budget s R" "spec_ok sp budget" "clock_ok clk"
  shows "\<exists>xs as. wrep s xs as \<and>
    (\<forall>t. wthread (wq s) = Some t \<longrightarrow> pending self (master s) R t \<and> unplugged (wq s)) \<and>
    (as \<noteq> [] \<and> unplugged (wq s) \<longrightarrow> work_queue_is_scheduled s) \<and>
    (\<exists>s'. work_queue_plug s = Inr s' \<and> \<not> work_queue_is_scheduled s') \<and>
    (array_size (background (master s)) < 2 ^ 30 \<longrightarrow> (\<exists>s'. work_queue_unplug clk self sp s = Inr s')) \<and>
    (\<forall>m R' real garbage r. fires s m R' \<and> work_queue_run clk self sp real garbage (s\<lparr>master := m\<rparr>) = Some r \<longrightarrow> (\<exists>s'. r = Inr s'))"
proof -
  obtain xs as where i: "idle budget self R s xs as" using reach_idle[OF assms] by blast
  then have rep: "wrep s xs as" by (simp add: idle_def)
  have hold: "hold sp < 2 ^ 32" using assms(2) by (simp add: spec_ok_def)
  have run: "\<exists>s'. r = Inr s'" if "fires s m R'" "work_queue_run clk self sp real garbage (s\<lparr>master := m\<rparr>) = Some r" for m R' real garbage r
  proof -
    have "wrep (s\<lparr>master := m\<rparr>) xs as" "length xs + budget (client (s\<lparr>master := m\<rparr>)) < 2 ^ 32" "reach (master (s\<lparr>master := m\<rparr>)) R'"
      "array_size (background (master (s\<lparr>master := m\<rparr>))) < 2 ^ 30"
      using i that(1) by (auto simp: idle_def wrep_def fires_def)
    from work_queue_run_ok[OF that(2) this assms(2,3)] show ?thesis by blast
  qed
  have "as \<noteq> [] \<and> unplugged (wq s) \<longrightarrow> work_queue_is_scheduled s"
    using i wrep_head[OF rep] wrep_length[OF rep] by (auto simp: idle_def awake_def work_queue_is_scheduled_def)
  moreover have "\<exists>s'. work_queue_plug s = Inr s' \<and> \<not> work_queue_is_scheduled s'"
    using plug_idle[OF i] by (auto simp: work_queue_is_scheduled_def)
  moreover have "array_size (background (master s)) < 2 ^ 30 \<longrightarrow> (\<exists>s'. work_queue_unplug clk self sp s = Inr s')"
    using unplug_idle[OF i _ assms(3) hold] by blast
  moreover have "\<forall>t. wthread (wq s) = Some t \<longrightarrow> pending self (master s) R t \<and> unplugged (wq s)" using i by (simp add: idle_def)
  ultimately show ?thesis using rep run by blast
qed

text \<open>
  A run returns: when no item asks to be queued again and the number of retries fits into the
  16 bit counter of an item, \<open>work_queue_run\<close> ends, for every behaviour of the clock, and leaves
  a state in which the queue is scheduled if it has items left and is not plugged.
\<close>

theorem work_queue_run_returns:
  assumes "wq_reach clk self sp budget s R" "spec_ok sp budget" "clock_ok clk" "no_requeue sp" "fires s m R'"
  shows "\<exists>s'. work_queue_run clk self sp real garbage (s\<lparr>master := m\<rparr>) = Some (Inr s') \<and> wq_reach clk self sp budget s' R' \<and>
    (list_hdr.count (items (wq s')) > 0 \<and> unplugged (wq s') \<longrightarrow> work_queue_is_scheduled s')"
proof -
  obtain xs as where i: "idle budget self R s xs as" using reach_idle[OF assms(1-3)] by blast
  have h: "wrep (s\<lparr>master := m\<rparr>) xs as" "length xs + budget (client (s\<lparr>master := m\<rparr>)) < 2 ^ 32" "reach (master (s\<lparr>master := m\<rparr>)) R'"
    "array_size (background (master (s\<lparr>master := m\<rparr>))) < 2 ^ 30"
    using i assms(5) by (auto simp: idle_def wrep_def fires_def)
  from work_queue_run_ends[OF h(1,2) order_refl h(3,4) assms(2-4), of self real garbage] obtain s' xs' as' where
    s': "work_queue_run clk self sp real garbage (s\<lparr>master := m\<rparr>) = Some (Inr s')" "winv budget self R' s' xs' as'" "awake s'" by metis
  have "wrep s' xs' as'" using s'(2) by (simp add: winv_def)
  then have "list_hdr.count (items (wq s')) > 0 \<and> unplugged (wq s') \<longrightarrow> work_queue_is_scheduled s'"
    using s'(3) wrep_head[of s' xs' as'] wrep_length[of s' xs' as'] by (auto simp: awake_def work_queue_is_scheduled_def)
  with s'(1) wq_reach.run[OF assms(1,5) s'(1)] show ?thesis by blast
qed

text \<open>
  The granularity of the yield checks is never reduced: a run of fewer than \<open>2\<^sup>2\<^sup>8\<close> cycles leaves
  \<open>worst\<close> at \<open>UINT_MAX\<close>, where it was at the creation, and the granularity where it was or larger,
  however long the items take, although the comment in the code says that it decreases when a run
  uses up its time slot.
\<close>

theorem granularity_never_reduced:
  assumes "wq_reach clk self sp budget s R" "spec_ok sp budget" "clock_ok clk" "no_requeue sp" "fires s m R'"
    "list_hdr.count (items (wq s)) + budget (client s) < 2 ^ 28" "worst (wq s) = UINT_MAX" "granularity (wq s) \<le> UINT_MAX"
  shows "\<exists>s'. work_queue_run clk self sp real garbage (s\<lparr>master := m\<rparr>) = Some (Inr s') \<and> worst (wq s') = UINT_MAX \<and>
    granularity (wq s) \<le> granularity (wq s') \<and> 0 < granularity (wq s') \<and> granularity (wq s') \<le> UINT_MAX"
proof -
  obtain xs as where i: "idle budget self R s xs as" using reach_idle[OF assms(1-3)] by blast
  let ?s = "s\<lparr>master := m\<rparr>"
  have h: "wrep ?s xs as" "length xs + budget (client ?s) < 2 ^ 28" "reach (master ?s) R'" "array_size (background (master ?s)) < 2 ^ 30"
    using i assms(5,6) wrep_length[of s xs as] by (auto simp: idle_def wrep_def fires_def)
  from work_queue_run_ends[OF h(1,2) _ h(3,4) assms(2-4), of self real garbage] obtain s' c y t q where
    s': "work_queue_run clk self sp real garbage ?s = Some (Inr s')" "same_q (wq (run_start ?s)) q" "same_q (run_stats c y t q) (wq s')"
    "c < 2 ^ 28" "y \<longrightarrow> 0 < c \<and> c mod granularity (wq (run_start ?s)) = 0" by auto
  have g: "0 < granularity q" "granularity (wq s) \<le> granularity q" "worst q = UINT_MAX" "granularity q \<le> UINT_MAX"
    using s'(2) assms(7,8) by (auto simp: same_q_def run_start_def Let_def WORK_QUEUE_MIN_GRANULARITY_def UINT_MAX_def)
  have c: "c \<le> worst q" "y \<longrightarrow> 0 < c \<and> c mod granularity q = 0" using s'(2,4,5) g(3) by (auto simp: same_q_def UINT_MAX_def)
  note r = run_stats_granularity[OF g(1) s'(4) c, of t]
  have "granularity (wq s') = granularity (run_stats c y t q)" "worst (wq s') = worst q" using s'(3) r(2) by (auto simp: same_q_def)
  then show ?thesis using s'(1) r g c(1) by (intro exI[of _ s']) auto
qed

section \<open>Draining the queue\<close>

text \<open>
  Items that succeed: the work function does \<open>f\<close> to the client's state, the deletion of an item's
  data has no other effect, and completion adds nothing.
\<close>

definition all_succeed :: "('d, 'c) wq_spec \<Rightarrow> ('d \<Rightarrow> 'c \<Rightarrow> 'c) \<Rightarrow> bool" where
  "all_succeed sp f \<longleftrightarrow> (\<forall>d c. workfunc sp d c = (WQ_SUCCESS, [], f d c)) \<and>
     (\<forall>g d c. del_item_data sp = Some g \<longrightarrow> g d c = ([], c)) \<and> (\<forall>g c. completion_func sp = Some g \<longrightarrow> fst (g c) = [])"

definition completed :: "('d, 'c) wq_spec \<Rightarrow> 'c \<Rightarrow> 'c" where
  "completed sp c = (case completion_func sp of None \<Rightarrow> c | Some g \<Rightarrow> snd (g c))"

text \<open>The data in the queue, of items that have not been tried yet.\<close>

definition untried :: "('d, 'c) wqstate \<Rightarrow> nat list \<Rightarrow> 'd list \<Rightarrow> bool" where
  "untried s as ds \<longleftrightarrow> map (imem s) as = map (\<lambda>d. Some \<lparr>idata = Some d, ran = 0\<rparr>) ds"

definition queued :: "('d, 'c) wqstate \<Rightarrow> 'd list \<Rightarrow> bool" where
  "queued s ds \<longleftrightarrow> (\<exists>xs as. wrep s xs as \<and> untried s as ds)"

lemma work_item_success:
  assumes inv: "winv budget self R s (x # ys) (a # as)" and it: "imem s a = Some \<lparr>idata = Some d, ran = 0\<rparr>"
    and ok: "spec_ok sp budget" "all_succeed sp f"
  shows "\<exists>s'. work_item clk self sp x a s = Some (Inr (Completed, s')) \<and> winv budget self R s' ys as \<and> client s' = f d (client s) \<and>
    (\<forall>b. b \<noteq> a \<longrightarrow> imem s' b = imem s b) \<and> same_q (wq s) (wq s') \<and> wthread (wq s') = wthread (wq s)"
proof -
  let ?n = "uadd 16 0 1"
  define s1 where "s1 = put_item a \<lparr>idata = Some d, ran = ?n\<rparr> (s\<lparr>client := f d (client s)\<rparr>)"
  have w: "workfunc sp d (client s) = (WQ_SUCCESS, [], f d (client s))" using ok(2) by (simp add: all_succeed_def)
  have "try_loop clk self sp a d s = Some (Inr (WQ_SUCCESS, s1))"
    using it by (subst try_loop.simps) (simp add: w get_item_def put_item_def s1_def Let_def)
  then have item: "work_item clk self sp x a s = Some (work_switch clk self sp x a WQ_SUCCESS s1)"
    using it by (simp add: work_item_def get_item_def)
  have "budget (f d (client s)) \<le> budget (client s)"
    using ok(1) w by (auto simp: spec_ok_def adds_within_def dest!: spec[of _ d] spec[of _ "client s"])
  then have "winv budget self R (s\<lparr>client := f d (client s)\<rparr>) (x # ys) (a # as)"
    using inv by (auto simp: winv_def wrep_frame split: option.splits)
  from put_ran_ok[OF this, of a "\<lparr>idata = Some d, ran = 0\<rparr>" ?n] it
  have inv1: "winv budget self R s1 ([] @ x # ys) ([] @ a # as)" by (simp add: s1_def get_item_def)
  have "wrep s1 ([] @ x # ys) (a # as)" using inv1 by (simp add: winv_def)
  from wrep_split[OF this] have get: "listgetdata (Some x) (nodes s1) = Inr a" by (metis append_Nil length_0_conv list.inject list.size(3))
  from unlink_item_ok[OF inv1] obtain l h s' where
    u: "list_delete_node (items (wq s1)) (Some x) (nodes s1) = Inr (l, h)" "work_queue_item_free a (s1\<lparr>nodes := h, wq := (wq s1)\<lparr>items := l\<rparr>\<rparr>) = Inr s'"
    "winv budget self R s' ys as" "client s' = client s1" "\<forall>b. b \<noteq> a \<longrightarrow> imem s' b = imem s1 b" "same_q (wq s1) (wq s')" by auto
  have del: "call_client clk self sp (map_option (\<lambda>g. g d) (del_item_data sp)) s1 = Inr s1"
    using ok(2) by (cases "del_item_data sp") (simp_all add: call_client_def all_succeed_def)
  have "get_item a s1 = Inr \<lparr>idata = Some d, ran = ?n\<rparr>" by (simp add: s1_def put_item_def get_item_def)
  then have "work_queue_item_remove clk self sp x s1 = Inr s'" using get del u(1,2) by (simp add: work_queue_item_remove_def)
  then have "work_item clk self sp x a s = Some (Inr (Completed, s'))" using item by (simp add: work_switch_def)
  moreover have "wthread (wq s') = wthread (wq s)"
    using u(2) by (auto simp: work_queue_item_free_def bindR_eq_Inr s1_def put_item_def)
  ultimately show ?thesis using u(3-6) by (intro exI[of _ s']) (simp add: s1_def put_item_def)
qed

lemma run_loop_success:
  assumes "winv budget self R s ys as" "untried s as ds" and ok: "spec_ok sp budget" "all_succeed sp f"
  shows "\<exists>k c y t s'. run_loop clk self sp real (first ys None) cycles took s = Some (Inr (c, y, t, s')) \<and> k \<le> length ds \<and>
    winv budget self R s' (drop k ys) (drop k as) \<and> untried s' (drop k as) (drop k ds) \<and> client s' = fold f (take k ds) (client s) \<and>
    (ds \<noteq> [] \<longrightarrow> 0 < k) \<and> same_q (wq s) (wq s') \<and> wthread (wq s') = wthread (wq s)"
  using assms(1,2)
proof (induction ys arbitrary: s as ds cycles took)
  case Nil
  then have "as = []" using wrep_length[of s "[]" as] by (simp add: winv_def)
  then have "ds = []" using Nil.prems(2) by (simp add: untried_def)
  have "run_loop clk self sp real (first [] None) cycles took s = Some (Inr (cycles, False, took, s))" by (subst run_loop.simps) simp
  then show ?case using Nil.prems \<open>ds = []\<close> \<open>as = []\<close>
    by (intro exI[of _ 0] exI[of _ cycles] exI[of _ False] exI[of _ took] exI[of _ s]) simp
next
  case (Cons x ys)
  have rep: "wrep s ([] @ x # ys) as" using Cons.prems(1) by (simp add: winv_def)
  obtain a as2 where as: "as = a # as2" using wrep_length[OF rep] by (cases as) auto
  then obtain d ds2 where ds: "ds = d # ds2" using Cons.prems(2) by (cases ds) (simp_all add: untried_def)
  from wrep_split[OF rep] have a: "listgetdata (Some x) (nodes s) = Inr a" using as by (metis append_Nil length_0_conv list.inject list.size(3))
  from run_loop_step[OF rep, of clk self sp real cycles took] a have step: "run_loop clk self sp real (Some x) cycles took s =
      (case work_item clk self sp x a s of None \<Rightarrow> None | Some (Inl e) \<Rightarrow> Some (Inl e)
       | Some (Inr (pr, s)) \<Rightarrow> after_item clk real (run_loop clk self sp real) (first ys None) cycles took pr s)" by auto
  have it: "imem s a = Some \<lparr>idata = Some d, ran = 0\<rparr>" using Cons.prems(2) as ds by (simp add: untried_def)
  from work_item_success[OF Cons.prems(1)[unfolded as] it ok, of clk] obtain s1 where
    s1: "work_item clk self sp x a s = Some (Inr (Completed, s1))" "winv budget self R s1 ys as2" "client s1 = f d (client s)"
    "\<forall>b. b \<noteq> a \<longrightarrow> imem s1 b = imem s b" "same_q (wq s) (wq s1)" "wthread (wq s1) = wthread (wq s)" by blast
  have "a \<notin> set as2" using rep as by (simp add: wrep_def)
  then have "map (imem s1) as2 = map (imem s) as2" using s1(4) by auto
  moreover have "map (imem s) as2 = map (\<lambda>d. Some \<lparr>idata = Some d, ran = 0\<rparr>) ds2" using Cons.prems(2) as ds by (simp add: untried_def)
  ultimately have u1: "untried s1 as2 ds2" by (simp only: untried_def)
  show ?case
  proof (cases rule: after_item_cases[of Completed clk real "run_loop clk self sp real" "first ys None" cycles took s1, case_names stop yields go])
    case (yields t k)
    have "winv budget self R (s1\<lparr>tick := k\<rparr>) (drop 1 (x # ys)) (drop 1 as)" "untried (s1\<lparr>tick := k\<rparr>) (drop 1 as) (drop 1 ds)"
      "client (s1\<lparr>tick := k\<rparr>) = fold f (take 1 ds) (client s)" "same_q (wq s) (wq (s1\<lparr>tick := k\<rparr>))"
      "wthread (wq (s1\<lparr>tick := k\<rparr>)) = wthread (wq s)" "1 \<le> length ds"
      using s1 u1 as ds by (simp_all add: untried_def)
    with step s1(1) yields(3) show ?thesis
      by (intro exI[of _ 1] exI[of _ "uadd 32 cycles 1"] exI[of _ True] exI[of _ t] exI[of _ "s1\<lparr>tick := k\<rparr>"]) simp
  next
    case (go c2 t2 k)
    have "winv budget self R (s1\<lparr>tick := k\<rparr>) ys as2" "untried (s1\<lparr>tick := k\<rparr>) as2 ds2" using s1(2) u1 by (simp_all add: untried_def)
    from Cons.IH[OF this, of c2 t2] obtain j c y t s' where
      IH: "run_loop clk self sp real (first ys None) c2 t2 (s1\<lparr>tick := k\<rparr>) = Some (Inr (c, y, t, s'))" "j \<le> length ds2"
      "winv budget self R s' (drop j ys) (drop j as2)" "untried s' (drop j as2) (drop j ds2)"
      "client s' = fold f (take j ds2) (client (s1\<lparr>tick := k\<rparr>))" "same_q (wq (s1\<lparr>tick := k\<rparr>)) (wq s')"
      "wthread (wq s') = wthread (wq (s1\<lparr>tick := k\<rparr>))" by metis
    have "same_q (wq s) (wq s')" using same_q_trans[OF s1(5)] IH(6) by simp
    with step s1 go(3) IH as ds show ?thesis by (intro exI[of _ "Suc j"] exI[of _ c] exI[of _ y] exI[of _ t] exI[of _ s']) simp
  qed simp
qed

text \<open>One run takes at least one item; when it takes the last one, completion is signalled and the thread is gone.\<close>

lemma run_success:
  assumes i: "idle budget self R s xs as" and u: "untried s as ds" and ok: "spec_ok sp budget" "clock_ok clk" "all_succeed sp f"
    and fires: "fires s m R'"
  shows "\<exists>k s' xs' as'. work_queue_run clk self sp real garbage (s\<lparr>master := m\<rparr>) = Some (Inr s') \<and> k \<le> length ds \<and>
    idle budget self R' s' xs' as' \<and> untried s' as' (drop k ds) \<and> (ds \<noteq> [] \<longrightarrow> 0 < k) \<and>
    (if k = length ds then client s' = completed sp (fold f ds (client s)) \<and> wthread (wq s') = None
     else client s' = fold f (take k ds) (client s))"
proof -
  let ?s = "s\<lparr>master := m\<rparr>"
  have h: "wrep ?s xs as" "length xs + budget (client ?s) < 2 ^ 32" "reach (master ?s) R'" "array_size (background (master ?s)) < 2 ^ 30"
    using i fires by (auto simp: idle_def wrep_def fires_def)
  note st = run_start_ok[where budget = budget, OF h]
  have "untried (run_start ?s) as ds" using u st(8) by (simp add: untried_def)
  from run_loop_success[OF st(1)[of self] this ok(1,3), where clk = clk and real = real and cycles = 0 and took = None] obtain k c y t s1 where
    s1: "run_loop clk self sp real (first xs None) 0 None (run_start ?s) = Some (Inr (c, y, t, s1))" "k \<le> length ds"
    "winv budget self R' s1 (drop k xs) (drop k as)" "untried s1 (drop k as) (drop k ds)" "client s1 = fold f (take k ds) (client s)"
    "ds \<noteq> [] \<longrightarrow> 0 < k" "wthread (wq s1) = None"
    using st(3,9) by (metis (no_types, lifting) wqstate.select_convs(8) wqstate.surjective wqstate.update_convs(1))
  let ?s1 = "s1\<lparr>wq := run_stats c y (case t of None \<Rightarrow> garbage | Some t \<Rightarrow> t) (wq s1)\<rparr>"
  have inv: "winv budget self R' ?s1 (drop k xs) (drop k as)" using s1(3) by simp
  have len: "length ds = length xs" using u wrep_length[OF h(1)] by (auto simp: untried_def dest: arg_cong[where f = length])
  from run_end_ok[OF inv ok(1,2)] obtain s' ys bs where
    e: "(if list_hdr.count (items (wq ?s1)) > 0 then bindR (work_queue_schedule clk self 0 ?s1) (\<lambda>(_, s). Inr s)
      else call_client clk self sp (completion_func sp) ?s1) = Inr s'" "winv budget self R' s' (drop k xs @ ys) (drop k as @ bs)" "awake s'"
    "drop k xs \<noteq> [] \<longrightarrow> ys = [] \<and> client s' = client ?s1" "\<forall>a\<in>set (drop k as). imem s' a = imem ?s1 a" by blast
  have run: "work_queue_run clk self sp real garbage ?s = Some (Inr s')" using st(2) s1(1) e(1) by (simp add: work_queue_run_start Let_def)
  show ?thesis
  proof (cases "k = length ds")
    case False
    then have ys: "ys = []" "client s' = client s1" using e(4) s1(2) len by auto
    then have "bs = []" using wrep_length[of s' "drop k xs @ ys" "drop k as @ bs"] e(2) wrep_length[OF h(1)] by (simp add: winv_def)
    then have "idle budget self R' s' (drop k xs) (drop k as)" using winv_idle[OF e(2,3)] ys(1) by simp
    moreover have "map (imem s') (drop k as) = map (imem s1) (drop k as)" using e(5) by auto
    then have "untried s' (drop k as) (drop k ds)" using s1(4) by (simp only: untried_def)
    ultimately show ?thesis using run s1(2,5,6) ys(2) False by (intro exI[of _ k] exI[of _ s']) auto
  next
    case True
    then have nil: "drop k xs = []" "drop k as = []" using len wrep_length[OF h(1)] by simp_all
    then have "list_hdr.count (items (wq ?s1)) = 0" using inv wrep_length[of ?s1 "[]" "[]"] by (simp add: winv_def)
    then have call: "call_client clk self sp (completion_func sp) ?s1 = Inr s'" using e(1) by simp
    have "client s' = completed sp (client s1) \<and> wthread (wq s') = wthread (wq s1) \<and> items (wq s') = items (wq s1) \<and> nodes s' = nodes s1"
    proof (cases "completion_func sp")
      case None
      then show ?thesis using call by (auto simp: call_client_def completed_def)
    next
      case (Some g)
      obtain c' where "g (client s1) = ([], c')" using ok(3) Some by (metis all_succeed_def prod.collapse)
      then show ?thesis using call Some by (auto simp: call_client_def completed_def)
    qed
    then have s': "client s' = completed sp (fold f ds (client s))" "wthread (wq s') = None" "items (wq s') = items (wq s1)"
      using s1(5,7) True by simp_all
    have "length (drop k xs @ ys) = 0"
      using wrep_length[of s' "drop k xs @ ys" "drop k as @ bs"] wrep_length[of s1 "drop k xs" "drop k as"] e(2) s1(3) s'(3) nil
      by (simp add: winv_def)
    then have "idle budget self R' s' [] (drop k as @ bs)" using winv_idle[OF e(2,3)] by simp
    moreover from this have "drop k as @ bs = []" using wrep_length[of s' "[]" "drop k as @ bs"] by (simp add: idle_def)
    ultimately have "idle budget self R' s' [] []" by simp
    then show ?thesis using run s1(2,6) s'(1,2) True by (intro exI[of _ k] exI[of _ s']) (auto simp: untried_def)
  qed
qed

text \<open>Runs of the queue one after another, each when the scheduler fires the thread.\<close>

inductive firings :: "clock \<Rightarrow> nat \<Rightarrow> ('d, 'c) wq_spec \<Rightarrow> nat \<Rightarrow> ('d, 'c) wqstate \<Rightarrow> ('d, 'c) wqstate \<Rightarrow> bool" for clk self sp where
  none: "firings clk self sp 0 s s"
| more: "firings clk self sp n s s1 \<Longrightarrow> fires s1 m R \<Longrightarrow>
    work_queue_run clk self sp real garbage (s1\<lparr>master := m\<rparr>) = Some (Inr s2) \<Longrightarrow> firings clk self sp (Suc n) s s2"

text \<open>
  C23: A queue is drained: when items succeed, \<open>n\<close> firings of the thread process at least \<open>n\<close> items, in
  the order in which they were added and each exactly once, however the runs are cut short by the
  clock; as long as items remain, the thread is pending unless the queue is plugged, so that the
  last item is processed after at most as many firings as there are items, and then completion is
  signalled, once.
\<close>

theorem work_queue_drains:
  assumes "wq_reach clk self sp budget s R" "spec_ok sp budget" "clock_ok clk" "all_succeed sp f"
    "queued s ds" "ds \<noteq> []" "firings clk self sp n s s'"
  shows "\<exists>k. n \<le> k \<and> k \<le> length ds \<and> queued s' (drop k ds) \<and>
    (if k = length ds then client s' = completed sp (fold f ds (client s)) \<and> \<not> work_queue_is_scheduled s'
     else client s' = fold f (take k ds) (client s) \<and> (unplugged (wq s') \<longrightarrow> work_queue_is_scheduled s'))"
proof -
  from reach_idle[OF assms(1-3)] obtain xs0 as0 where i0: "idle budget self R s xs0 as0" by blast
  obtain xs1 as1 where "wrep s xs1 as1" "untried s as1 ds" using assms(5) by (auto simp: queued_def)
  then have "idle budget self R s xs1 as1" "untried s as1 ds"
    using i0 wrep_length[of s xs1 as1] wrep_length[of s xs0 as0] by (simp_all add: idle_def)
  with assms(7) have "\<exists>R' xs as k. idle budget self R' s' xs as \<and> untried s' as (drop k ds) \<and> n \<le> k \<and> k \<le> length ds \<and>
      (if k = length ds then client s' = completed sp (fold f ds (client s)) \<and> wthread (wq s') = None
       else client s' = fold f (take k ds) (client s))"
  proof (induction rule: firings.induct)
    case (none s)
    with assms(6) show ?case by (intro exI[of _ R] exI[of _ xs1] exI[of _ as1] exI[of _ 0]) simp
  next
    case (more n s s1 m R2 real garbage s2)
    then obtain R' xs as k where IH: "idle budget self R' s1 xs as" "untried s1 as (drop k ds)" "n \<le> k" "k \<le> length ds"
      "if k = length ds then client s1 = completed sp (fold f ds (client s)) \<and> wthread (wq s1) = None
       else client s1 = fold f (take k ds) (client s)" by blast
    have k: "k < length ds" "client s1 = fold f (take k ds) (client s)"
      using IH(4,5) more.hyps(2) by (cases "k = length ds"; simp add: fires_def)+
    from run_success[OF IH(1,2) assms(2-4) more.hyps(2), of real garbage] obtain j s3 xs3 as3 where
      j: "work_queue_run clk self sp real garbage (s1\<lparr>master := m\<rparr>) = Some (Inr s3)" "j \<le> length (drop k ds)"
      "idle budget self R2 s3 xs3 as3" "untried s3 as3 (drop j (drop k ds))" "0 < j"
      "if j = length (drop k ds) then client s3 = completed sp (fold f (drop k ds) (client s1)) \<and> wthread (wq s3) = None
       else client s3 = fold f (take j (drop k ds)) (client s1)" using k(1) by auto
    have "s3 = s2" using j(1) more.hyps(3) by simp
    have folds: "fold f (drop k ds) (fold f (take k ds) c) = fold f ds c" "fold f (take j (drop k ds)) (fold f (take k ds) c) = fold f (take (k + j) ds) c" for c
      by (metis append_take_drop_id comp_apply fold_append) (metis comp_apply fold_append take_add)
    have "Suc n \<le> k + j" "k + j \<le> length ds" "k + j = length ds \<longleftrightarrow> j = length (drop k ds)" using IH(3) j(2,5) k(1) by auto
    moreover have "untried s2 as3 (drop (k + j) ds)" using j(4) \<open>s3 = s2\<close> by (simp add: add.commute)
    moreover have "if k + j = length ds then client s2 = completed sp (fold f ds (client s)) \<and> wthread (wq s2) = None
       else client s2 = fold f (take (k + j) ds) (client s)"
      using j(6) \<open>s3 = s2\<close> k(2) folds calculation(3) by (auto split: if_splits)
    ultimately show ?case using j(3) \<open>s3 = s2\<close> by (intro exI[of _ R2] exI[of _ xs3] exI[of _ as3] exI[of _ "k + j"]) simp
  qed
  then obtain R' xs as k where i: "idle budget self R' s' xs as" "untried s' as (drop k ds)" "n \<le> k" "k \<le> length ds"
    "if k = length ds then client s' = completed sp (fold f ds (client s)) \<and> wthread (wq s') = None
     else client s' = fold f (take k ds) (client s)" by blast
  have rep: "wrep s' xs as" using i(1) by (simp add: idle_def)
  have "k < length ds \<Longrightarrow> xs \<noteq> []" using i(2) wrep_length[OF rep] by (auto simp: untried_def)
  then have "k < length ds \<and> unplugged (wq s') \<longrightarrow> work_queue_is_scheduled s'"
    using i(1) wrep_head[OF rep] by (auto simp: idle_def awake_def work_queue_is_scheduled_def)
  moreover have "queued s' (drop k ds)" using rep i(2) by (auto simp: queued_def)
  ultimately show ?thesis using i(3-5) by (intro exI[of _ k]) (auto simp: work_queue_is_scheduled_def)
qed

section \<open>An example\<close>

text \<open>A queue that logs its data, at the address 7, with one item.\<close>

definition ex_clock :: clock where
  "ex_clock = (\<lambda>_. \<lparr>tv_sec = 1, tv_usec = 0\<rparr>)"

definition ex_spec :: "(char, char list) wq_spec" where
  "ex_spec = \<lparr>workfunc = \<lambda>d c. (WQ_SUCCESS, [], c @ [d]), errorfunc = None, del_item_data = None, completion_func = None,
     max_retries = 3, hold = 50\<rparr>"

definition ex_master :: thread_master where
  "ex_master = thread_master_create 8 (\<lambda>_. blank_thread)"

definition ex_state :: "(char, char list) wqstate" where
  "ex_state = \<lparr>master = ex_master, nodes = empty_heap, imem = Map.empty, ibrk = 0,
     wq = \<lparr>wthread = None, items = list_new, runs = 0, worst_usec = 0, best = 0, worst = 0, granularity = 0, total = 0, flags = 0\<rparr>,
     work_queues = list_new, qnodes = empty_heap, client = [], tick = 0\<rparr>"

lemma ex_ok: "spec_ok ex_spec (\<lambda>_. 0)" "clock_ok ex_clock" "no_requeue ex_spec" "all_succeed ex_spec (\<lambda>d c. c @ [d])"
  by (simp_all add: spec_ok_def ex_spec_def adds_within_def clock_ok_def ex_clock_def TIMER_SECOND_MICRO_def no_requeue_def all_succeed_def)

lemma ex_wq_room: "reach ex_master {}" "array_size (background ex_master) < 2 ^ 30"
  using reach.create by (auto simp: ex_master_def thread_master_create_def pqueue_create_def PQUEUE_INIT_ARRAYSIZE_def)

lemma ex_background: "\<exists>m. thread_add_background (ex_clock 0) ex_master run_func 7 (int 50) = Inr (1, m)"
proof -
  from add_background_ok[OF ex_wq_room ex_ok(2), of 50 0 7] obtain t m where
    t: "thread_add_background (ex_clock 0) ex_master run_func 7 (int 50) = Inr (t, m)" by auto
  have "fst (thread_get ex_master ty f a) = 1" for ty f a
    by (simp add: ex_master_def thread_get_def thread_trim_head_def thread_master_create_def empty_list_def)
  then have "t = 1" using t
    by (auto simp: thread_add_background_def thread_add_timer_timeval_def Let_def bindR_eq_Inr split: prod.splits if_splits) (metis fst_conv)+
  with t show ?thesis by blast
qed

lemma ex_flight: "\<exists>m. reach m {1} \<and> array_size (background m) < 2 ^ 30"
proof -
  obtain m1 where m1: "thread_add_event ex_master 1 5 0 = (1, m1)" "array_size (background m1) = 32"
    by (auto simp: ex_master_def thread_add_event_def thread_get_def thread_trim_head_def thread_master_create_def empty_list_def
        set_u_def thread_list_add_def Let_def pqueue_create_def PQUEUE_INIT_ARRAYSIZE_def)
  have r1: "reach m1 {}" using reach.add_event[OF ex_wq_room(1) m1(1)] .
  obtain m2 l s where m2: "thread_process m1 = Some (1, m2)" "thread_trim_head (ready m2) (threads m2) = (Some 1, l, s)"
    "array_size (background m2) = 32" "tbrk m1 < 2 ^ 31"
    using m1 by (auto simp: ex_master_def thread_add_event_def thread_get_def thread_trim_head_def thread_master_create_def empty_list_def
        set_u_def thread_list_add_def thread_list_delete_def thread_process_def thread_process_loop.simps blank_thread_def uadd_def Let_def)
  have "reach m2 {}" using reach.process[OF r1 m2(4,1)] .
  from reach.fetch[OF this m2(2)] m2(3) show ?thesis by (intro exI[of _ "m2\<lparr>ready := l, threads := s\<rparr>"]) simp
qed

lemma ex_queue:
  "\<exists>s. wq_reach ex_clock 7 ex_spec (\<lambda>_. 0) s {} \<and> queued s ''a'' \<and> wthread (wq s) = Some 1 \<and> client s = [] \<and>
     list_hdr.count (items (wq s)) = 1 \<and> worst (wq s) = UINT_MAX \<and> granularity (wq s) = 1 \<and> unplugged (wq s)"
proof -
  have lw: "lwf list_new (empty_heap :: nat lheap) []" by (auto simp: lwf_def list_new_def empty_heap_def)
  obtain s1 where s1: "work_queue_new 7 ex_state = Inr s1" "master s1 = ex_master" "client s1 = []" "tick s1 = 0" "nodes s1 = empty_heap"
    "imem s1 = Map.empty" "ibrk s1 = 0" "wq s1 = \<lparr>wthread = None, items = list_new, runs = 0, worst_usec = 0, best = 0, worst = UINT_MAX,
        granularity = 1, total = 0, flags = 0 OR WQ_UNPLUGGED\<rparr>"
    using listnode_add_ins[OF lw, of 7]
    by (simp add: work_queue_new_def ex_state_def WORK_QUEUE_MIN_GRANULARITY_def)
  have r1: "wq_reach ex_clock 7 ex_spec (\<lambda>_. 0) s1 {}"
    by (rule wq_reach.new[OF _ _ _ _ s1(1)]) (use ex_wq_room in \<open>simp_all add: ex_state_def\<close>)
  have i1: "winv (\<lambda>_. 0) 7 {} s1 [] []"
    using idle_winv[OF new_idle[OF _ _ _ _ s1(1)]] ex_wq_room s1(2) by (simp add: ex_state_def)
  have "hold ex_spec < 2 ^ 32" by (simp add: ex_spec_def)
  from add_ok[OF i1 _ ex_ok(2) this, of "CHR ''a''"] obtain s2 x a where
    s2: "work_queue_add ex_clock 7 ex_spec (Some CHR ''a'') s1 = Inr s2" "winv (\<lambda>_. 0) 7 {} s2 [x] [a]"
    "imem s2 = (imem s1)(a \<mapsto> \<lparr>idata = Some CHR ''a'', ran = 0\<rparr>)" "client s2 = client s1" "same_q (wq s1) (wq s2)" by auto
  have rep: "wrep s2 [x] [a]" using s2(2) by (simp add: winv_def)
  have r2: "wq_reach ex_clock 7 ex_spec (\<lambda>_. 0) s2 {}"
    by (rule wq_reach.add[OF r1 _ _ s2(1)]) (use s1 ex_wq_room in \<open>simp_all add: list_new_def\<close>)
  obtain m where m: "thread_add_background (ex_clock 0) ex_master run_func 7 (int 50) = Inr (1, m)" using ex_background by blast
  have "wthread (wq s2) = Some 1"
    using s2(1) listnode_add_ins[OF lw, of 0] m s1
    by (auto simp: work_queue_add_def work_queue_item_new_def get_item_def put_item_def work_queue_schedule_def ex_spec_def
        ins_hdr_def list_new_def uadd_def)
  moreover have "queued s2 ''a''" unfolding queued_def using rep s2(3) by (intro exI[of _ "[x]"] exI[of _ "[a]"]) (simp add: untried_def)
  moreover have "list_hdr.count (items (wq s2)) = 1" using wrep_length[OF rep] by simp
  moreover have "worst (wq s2) = UINT_MAX" "granularity (wq s2) = 1" "unplugged (wq s2)" using s2(5) s1(8) by (simp_all add: same_q_def unplugged_def)
  ultimately show ?thesis using r2 s2(4) s1(3) by (intro exI[of _ s2]) simp
qed

lemma ex_fires:
  obtains s m where "wq_reach ex_clock 7 ex_spec (\<lambda>_. 0) s {}" "queued s ''a''" "wthread (wq s) = Some 1" "client s = []" "fires s m {1}"
    "list_hdr.count (items (wq s)) = 1" "worst (wq s) = UINT_MAX" "granularity (wq s) = 1" "unplugged (wq s)"
  using ex_queue ex_flight by (auto simp: fires_def)

theorem work_queue_no_lost_wakeup_witness:
  "\<exists>s. wq_reach ex_clock 7 ex_spec (\<lambda>_. 0) s {} \<and> queued s ''a'' \<and> work_queue_is_scheduled s \<and> pending 7 (master s) {} 1 \<and>
     (\<exists>s'. work_queue_plug s = Inr s' \<and> \<not> work_queue_is_scheduled s')"
proof -
  from ex_fires obtain s m where s: "wq_reach ex_clock 7 ex_spec (\<lambda>_. 0) s {}" "queued s ''a''" "wthread (wq s) = Some 1" by blast
  from work_queue_no_lost_wakeup[OF s(1) ex_ok(1,2)] s show ?thesis by (auto simp: work_queue_is_scheduled_def)
qed

theorem work_queue_run_returns_witness:
  "\<exists>s m s'. wq_reach ex_clock 7 ex_spec (\<lambda>_. 0) s {} \<and> fires s m {1} \<and>
     work_queue_run ex_clock 7 ex_spec \<lparr>tv_sec = 1, tv_usec = 0\<rparr> 99 (s\<lparr>master := m\<rparr>) = Some (Inr s')"
proof -
  from ex_fires obtain s m where s: "wq_reach ex_clock 7 ex_spec (\<lambda>_. 0) s {}" "fires s m {1}" by blast
  from work_queue_run_returns[OF s(1) ex_ok(1,2,3) s(2)] s show ?thesis by blast
qed

theorem granularity_never_reduced_witness:
  "\<exists>s m s'. wq_reach ex_clock 7 ex_spec (\<lambda>_. 0) s {} \<and> fires s m {1} \<and>
     work_queue_run ex_clock 7 ex_spec \<lparr>tv_sec = 0, tv_usec = 0\<rparr> 0 (s\<lparr>master := m\<rparr>) = Some (Inr s') \<and> worst (wq s') = UINT_MAX \<and>
     1 \<le> granularity (wq s')"
proof -
  from ex_fires obtain s m where s: "wq_reach ex_clock 7 ex_spec (\<lambda>_. 0) s {}" "fires s m {1}" "list_hdr.count (items (wq s)) = 1"
    "worst (wq s) = UINT_MAX" "granularity (wq s) = 1" by blast
  have "list_hdr.count (items (wq s)) + 0 < 2 ^ 28" "granularity (wq s) \<le> UINT_MAX" using s(3,5) by (simp_all add: UINT_MAX_def)
  from granularity_never_reduced[OF s(1) ex_ok(1,2,3) s(2) this(1) s(4) this(2)] s show ?thesis by metis
qed

theorem work_queue_drains_witness:
  "\<exists>s s'. wq_reach ex_clock 7 ex_spec (\<lambda>_. 0) s {} \<and> queued s ''a'' \<and> firings ex_clock 7 ex_spec 1 s s' \<and> queued s' [] \<and> client s' = ''a''"
proof -
  from ex_fires obtain s m where s: "wq_reach ex_clock 7 ex_spec (\<lambda>_. 0) s {}" "queued s ''a''" "fires s m {1}" "client s = []" by blast
  from reach_idle[OF s(1) ex_ok(1,2)] obtain xs as where i: "idle (\<lambda>_. 0) 7 {} s xs as" by blast
  have h: "wrep (s\<lparr>master := m\<rparr>) xs as" "length xs + 0 < 2 ^ 32" "reach (master (s\<lparr>master := m\<rparr>)) {1}"
    "array_size (background (master (s\<lparr>master := m\<rparr>))) < 2 ^ 30"
    using i s(3) by (auto simp: idle_def wrep_def fires_def)
  from work_queue_run_ends[OF h(1,2) order_refl h(3,4) ex_ok(1,2,3), of 7 "\<lparr>tv_sec = 1, tv_usec = 0\<rparr>" 99] obtain s' where
    "work_queue_run ex_clock 7 ex_spec \<lparr>tv_sec = 1, tv_usec = 0\<rparr> 99 (s\<lparr>master := m\<rparr>) = Some (Inr s')" by metis
  with firings.more[OF firings.none s(3)] have f: "firings ex_clock 7 ex_spec 1 s s'" by fastforce
  from work_queue_drains[OF s(1) ex_ok(1,2,4) s(2) _ f] obtain k where
    "1 \<le> k" "k \<le> 1" "queued s' (drop k ''a'')" "k = 1 \<Longrightarrow> client s' = completed ex_spec (fold (\<lambda>d c. c @ [d]) ''a'' (client s))" by auto
  with s f show ?thesis by (intro exI[of _ s] exI[of _ s']) (simp add: completed_def ex_spec_def)
qed

text \<open>
  The variable \<open>took\<close> is read although no check has assigned it: in a run that makes no check, as
  one on an empty queue, whatever is on the stack becomes the worst time.
\<close>

lemma took_unassigned:
  assumes "head (items (wq s)) = None" "list_hdr.count (items (wq s)) = 0" "completion_func sp = None" "worst_usec (wq s) < garbage"
  shows "\<exists>s'. work_queue_run clk self sp real garbage s = Some (Inr s') \<and> worst_usec (wq s') = garbage"
proof -
  have "run_loop clk self sp real None 0 None (run_start s) = Some (Inr (0, False, None, run_start s))" by (subst run_loop.simps) simp
  then show ?thesis using assms
    by (auto simp: work_queue_run_start call_client_def Let_def run_start_def run_stats_def)
qed

end
