(* ===== verification/Ospf_Ism.thy ===== *)
theory Ospf_Ism
  imports Prelude
begin

text \<open>
  The interface state machine of ospfd (ospfd/ospf\_ism.c, ospfd/ospf\_ism.h) with the election of
  the designated router and of its backup, and the neighbor structures it works on
  (ospfd/ospf\_neighbor.h).  One interface is modelled, with its neighbors as a heap of records;
  the neighbor of the interface itself, whose fields \<open>d_router\<close> and \<open>bd_router\<close> are the results of
  the election, is one of them.  The table of neighbors, a route table of host prefixes, is the
  list of its keys and entries in the order in which \<open>route_top\<close> and \<open>route_next\<close> visit them
  (Route\_Table\_Reach).  Calls of other modules of the daemon (multicast membership, origination
  of LSAs, sending of packets, scheduling of events) are recorded in the order they are made.
  A timer is the fact that its thread is set.  A neighbor that has been freed stays in the heap with
  \<open>n_live\<close> false; the functions of the machines that follow a pointer to a neighbor first check, with
  \<open>use_nbr\<close>, that it has not been freed, and fault otherwise.
\<close>

section \<open>States and events\<close>

datatype ism_state = ISM_DependUpon | ISM_Down | ISM_Loopback | ISM_Waiting | ISM_PointToPoint
  | ISM_DROther | ISM_Backup | ISM_DR

datatype ism_event = ISM_NoEvent | ISM_InterfaceUp | ISM_WaitTimer | ISM_BackupSeen | ISM_NeighborChange
  | ISM_LoopInd | ISM_UnloopInd | ISM_InterfaceDown

datatype nsm_state = NSM_DependUpon | NSM_Deleted | NSM_Down | NSM_Attempt | NSM_Init | NSM_TwoWay
  | NSM_ExStart | NSM_Exchange | NSM_Loading | NSM_Full

datatype nsm_event = NSM_NoEvent | NSM_PacketReceived | NSM_Start | NSM_TwoWayReceived | NSM_NegotiationDone
  | NSM_ExchangeDone | NSM_BadLSReq | NSM_LoadingDone | NSM_AdjOK | NSM_SeqNumberMismatch | NSM_OneWayReceived
  | NSM_KillNbr | NSM_InactivityTimer | NSM_LLDown

text \<open>The states are numbers, which the code compares.\<close>

fun ism_num :: "ism_state \<Rightarrow> nat" where
  "ism_num ISM_DependUpon = 0"
| "ism_num ISM_Down = 1"
| "ism_num ISM_Loopback = 2"
| "ism_num ISM_Waiting = 3"
| "ism_num ISM_PointToPoint = 4"
| "ism_num ISM_DROther = 5"
| "ism_num ISM_Backup = 6"
| "ism_num ISM_DR = 7"

fun nsm_num :: "nsm_state \<Rightarrow> nat" where
  "nsm_num NSM_DependUpon = 0"
| "nsm_num NSM_Deleted = 1"
| "nsm_num NSM_Down = 2"
| "nsm_num NSM_Attempt = 3"
| "nsm_num NSM_Init = 4"
| "nsm_num NSM_TwoWay = 5"
| "nsm_num NSM_ExStart = 6"
| "nsm_num NSM_Exchange = 7"
| "nsm_num NSM_Loading = 8"
| "nsm_num NSM_Full = 9"

lemma ism_num_inj: "ism_num a = ism_num b \<Longrightarrow> a = b"
  by (cases a; cases b) simp_all

lemma nsm_num_inj: "nsm_num a = nsm_num b \<Longrightarrow> a = b"
  by (cases a; cases b) simp_all

instantiation ism_state :: linorder
begin

definition less_eq_ism_state :: "ism_state \<Rightarrow> ism_state \<Rightarrow> bool" where
  "a \<le> b \<longleftrightarrow> ism_num a \<le> ism_num b"

definition less_ism_state :: "ism_state \<Rightarrow> ism_state \<Rightarrow> bool" where
  "a < b \<longleftrightarrow> ism_num a < ism_num b"

instance
  by standard (auto simp: less_eq_ism_state_def less_ism_state_def intro: ism_num_inj)

end

instantiation nsm_state :: linorder
begin

definition less_eq_nsm_state :: "nsm_state \<Rightarrow> nsm_state \<Rightarrow> bool" where
  "a \<le> b \<longleftrightarrow> nsm_num a \<le> nsm_num b"

definition less_nsm_state :: "nsm_state \<Rightarrow> nsm_state \<Rightarrow> bool" where
  "a < b \<longleftrightarrow> nsm_num a < nsm_num b"

instance
  by standard (auto simp: less_eq_nsm_state_def less_nsm_state_def intro: nsm_num_inj)

end

lemmas state_order = less_eq_ism_state_def less_ism_state_def less_eq_nsm_state_def less_nsm_state_def

section \<open>Neighbors and interfaces\<close>

text \<open>
  An address is the number its four bytes make in network order, so that \<open>memcmp\<close> on addresses
  is the order of words.
\<close>

type_synonym in_addr = u32

datatype iftype = OSPF_IFTYPE_NONE | OSPF_IFTYPE_POINTOPOINT | OSPF_IFTYPE_BROADCAST | OSPF_IFTYPE_NBMA
  | OSPF_IFTYPE_POINTOMULTIPOINT | OSPF_IFTYPE_VIRTUALLINK | OSPF_IFTYPE_LOOPBACK

text \<open>What the neighbor state machine looks at in an LSA; \<open>l_here\<close>: its interface is the neighbor's.\<close>

record ospf_lsa =
  l_type :: nat
  l_key :: nat
  l_xlt :: bool
  l_maxage :: bool
  l_here :: bool

record ospf_neighbor =
  n_state :: nsm_state
  dd_flags :: u8
  dd_seqnum :: u32
  n_address :: in_addr
  src :: in_addr
  router_id :: in_addr
  options :: u8
  priority :: int
  d_router :: in_addr
  bd_router :: in_addr
  last_send :: bool
  db_sum :: "ospf_lsa list"
  ls_req :: "ospf_lsa list"
  n_crypt_seqnum :: u32
  t_inactivity :: bool
  t_db_desc :: bool
  t_ls_req :: bool
  t_ls_upd :: bool
  t_hello_reply :: bool
  nbr_nbma :: "nat option"
  n_state_change :: u32

datatype call =
    Set_multicast | Check_abr_status | Schedule_abr_task | Router_lsa_update_area | Router_lsa_update_vl_area
  | Network_lsa_update | Flush_network_lsa | Opaque_ism_change ism_state | Opaque_nsm_change nat nsm_state
  | External_lsa_refresh | Ism_schedule ism_event | Nsm_schedule nat nsm_event | Cancel_events nat | Hello_send
  | Nbma_if_update | Nbma_attach nat nat | Nbma_detach nat | Poll_timer_off nat | Poll_timer_on nat | Db_desc_send nat | Db_desc_resend nat | Ls_req_send nat
  | Ls_req_event nat | Retransmit_add nat ospf_lsa | Retransmit_clear nat | Ls_ack_cleanup | Ls_upd_queue_empty

datatype area_type = OSPF_AREA_DEFAULT | OSPF_AREA_STUB | OSPF_AREA_NSSA

text \<open>
  The last group of fields belongs to the area, to the instance and to the area of a virtual
  link, which is \<open>None\<close> when the area is not found.
\<close>

record ospf_interface =
  i_type :: iftype
  i_state :: ism_state
  i_address :: in_addr
  nbrs :: "(in_addr \<times> nat) list"
  nbr :: "nat \<Rightarrow> ospf_neighbor"
  n_live :: "nat \<Rightarrow> bool"
  n_brk :: nat
  nbr_self :: nat
  nbma_list :: "(nat \<times> in_addr) list"
  nbma_change :: "nat \<Rightarrow> u32"
  network_lsa_self :: bool
  i_crypt_seqnum :: u32
  t_hello :: bool
  t_wait :: bool
  t_ls_ack :: bool
  i_state_change :: u32
  full_nbrs :: u32
  hello_in :: u32
  if_priority :: u8
  my_router_id :: in_addr
  external_routing :: area_type
  act_ints :: u32
  area_full_nbrs :: u32
  vl_full_vls :: "u32 option"
  area_lsdb :: "nat \<Rightarrow> ospf_lsa list"
  as_lsdb :: "nat \<Rightarrow> ospf_lsa list"
  clock :: u32
  calls :: "call list"

definition log_call :: "call \<Rightarrow> ospf_interface \<Rightarrow> ospf_interface" where
  "log_call c oi = oi\<lparr>calls := calls oi @ [c]\<rparr>"

definition upd_nbr :: "nat \<Rightarrow> (ospf_neighbor \<Rightarrow> ospf_neighbor) \<Rightarrow> ospf_interface \<Rightarrow> ospf_interface" where
  "upd_nbr n f oi = oi\<lparr>nbr := (nbr oi)(n := f (nbr oi n))\<rparr>"

text \<open>Following a pointer to a neighbor, and visiting the neighbors of the table and \<open>nbr_self\<close>.\<close>

definition use_nbr :: "nat \<Rightarrow> ospf_interface \<Rightarrow> ospf_interface res" where
  "use_nbr n oi = (if n_live oi n then Inr oi else Inl Mem_fault)"

definition use_table :: "ospf_interface \<Rightarrow> ospf_interface res" where
  "use_table oi = (if n_live oi (nbr_self oi) \<and> list_all (n_live oi) (map snd (nbrs oi)) then Inr oi else Inl Mem_fault)"

lemma use_nbr_live [simp]: "n_live oi n \<Longrightarrow> use_nbr n oi = Inr oi"
  by (simp add: use_nbr_def)

lemma use_nbr_eq_Inr [simp]: "use_nbr n oi = Inr oi' \<longleftrightarrow> n_live oi n \<and> oi' = oi"
  by (auto simp: use_nbr_def)

text \<open>
  The designated router and the priority of the router are read from \<open>nbr_self\<close>, on the networks
  that are not point-to-point.
\<close>

definition use_self :: "ospf_interface \<Rightarrow> ospf_interface res" where
  "use_self oi =
     (if i_type oi = OSPF_IFTYPE_POINTOPOINT \<or> i_type oi = OSPF_IFTYPE_POINTOMULTIPOINT \<or> i_type oi = OSPF_IFTYPE_VIRTUALLINK
      then Inr oi else use_nbr (nbr_self oi) oi)"

lemma use_self_live [simp]: "n_live oi (nbr_self oi) \<Longrightarrow> use_self oi = Inr oi"
  by (simp add: use_self_def)

lemma use_self_eq_Inr: "use_self oi = Inr oi' \<Longrightarrow> oi' = oi"
  by (simp add: use_self_def split: if_splits)

definition DR :: "ospf_interface \<Rightarrow> in_addr" where
  "DR oi = d_router (nbr oi (nbr_self oi))"

definition BDR :: "ospf_interface \<Rightarrow> in_addr" where
  "BDR oi = bd_router (nbr oi (nbr_self oi))"

definition PRIORITY :: "ospf_interface \<Rightarrow> int" where
  "PRIORITY oi = priority (nbr oi (nbr_self oi))"

definition NBR_IS_DR :: "ospf_neighbor \<Rightarrow> bool" where
  "NBR_IS_DR n \<longleftrightarrow> n_address n = d_router n"

definition NBR_IS_BDR :: "ospf_neighbor \<Rightarrow> bool" where
  "NBR_IS_BDR n \<longleftrightarrow> n_address n = bd_router n"

section \<open>The election\<close>

definition ospf_dr_election_sub :: "(nat \<Rightarrow> ospf_neighbor) \<Rightarrow> nat list \<Rightarrow> nat option" where
  "ospf_dr_election_sub h routers =
     foldl (\<lambda>mx n.
       case mx of
         None \<Rightarrow> Some n
       | Some m \<Rightarrow>
           if priority (h m) < priority (h n) then Some n
           else if priority (h m) = priority (h n) \<and> router_id (h m) < router_id (h n) then Some n
           else Some m) None routers"

definition ospf_elect_dr :: "nat list \<Rightarrow> ospf_interface \<Rightarrow> ospf_interface" where
  "ospf_elect_dr el_list oi =
     (let h = nbr oi;
          dr_list = filter (\<lambda>n. NBR_IS_DR (h n)) el_list;
          bdr = foldl (\<lambda>b n. if BDR oi = n_address (h n) then Some n else b) None el_list;
          dr = (if dr_list \<noteq> [] then ospf_dr_election_sub h dr_list else bdr)
      in upd_nbr (nbr_self oi) (\<lambda>s. s\<lparr>d_router := (case dr of Some d \<Rightarrow> n_address (h d) | None \<Rightarrow> 0)\<rparr>) oi)"

definition ospf_elect_bdr :: "nat list \<Rightarrow> ospf_interface \<Rightarrow> ospf_interface" where
  "ospf_elect_bdr el_list oi =
     (let h = nbr oi;
          no_dr_list = filter (\<lambda>n. \<not> NBR_IS_DR (h n)) el_list;
          bdr_list = filter (\<lambda>n. NBR_IS_BDR (h n)) no_dr_list;
          bdr = (if bdr_list \<noteq> [] then ospf_dr_election_sub h bdr_list else ospf_dr_election_sub h no_dr_list)
      in upd_nbr (nbr_self oi) (\<lambda>s. s\<lparr>bd_router := (case bdr of Some d \<Rightarrow> n_address (h d) | None \<Rightarrow> 0)\<rparr>) oi)"

definition ospf_ism_state :: "ospf_interface \<Rightarrow> ism_state" where
  "ospf_ism_state oi =
     (if DR oi = i_address oi then ISM_DR
      else if BDR oi = i_address oi then ISM_Backup
      else ISM_DROther)"

definition ospf_dr_eligible_routers :: "ospf_interface \<Rightarrow> nat list" where
  "ospf_dr_eligible_routers oi =
     filter (\<lambda>n. router_id (nbr oi n) \<noteq> 0 \<and> priority (nbr oi n) > 0 \<and> n_state (nbr oi n) \<ge> NSM_TwoWay) (map snd (nbrs oi))"

definition ospf_dr_change :: "ospf_interface \<Rightarrow> ospf_interface" where
  "ospf_dr_change oi =
     fold (\<lambda>n. log_call (Nsm_schedule n NSM_AdjOK))
       (filter (\<lambda>n. router_id (nbr oi n) \<noteq> 0 \<and> n_state (nbr oi n) \<ge> NSM_TwoWay \<and> router_id (nbr oi n) \<noteq> my_router_id oi)
         (map snd (nbrs oi))) oi"

definition ospf_dr_election :: "ospf_interface \<Rightarrow> ism_state \<times> ospf_interface" where
  "ospf_dr_election oi0 =
     (let old_dr = DR oi0; old_bdr = BDR oi0; old_state = i_state oi0;
          el_list = ospf_dr_eligible_routers oi0;
          oi = ospf_elect_dr el_list (ospf_elect_bdr el_list oi0);
          new_state = ospf_ism_state oi;
          again = (new_state \<noteq> old_state \<and> \<not> (new_state = ISM_DROther \<and> old_state < ISM_DROther));
          oi = (if again then ospf_elect_dr el_list (ospf_elect_bdr el_list oi) else oi);
          new_state = (if again then ospf_ism_state oi else new_state);
          oi = (if old_dr \<noteq> DR oi \<or> old_bdr \<noteq> BDR oi then ospf_dr_change oi else oi)
      in (new_state, oi))"

section \<open>Timers\<close>

text \<open>The timers that are set get new threads only when they have none, which leaves them set.\<close>

definition ospf_hello_timer :: "ospf_interface \<Rightarrow> ospf_interface" where
  "ospf_hello_timer oi = (log_call Hello_send (oi\<lparr>t_hello := False\<rparr>))\<lparr>t_hello := True\<rparr>"

definition ospf_wait_timer :: "ospf_interface \<Rightarrow> ospf_interface" where
  "ospf_wait_timer oi = log_call (Ism_schedule ISM_WaitTimer) (oi\<lparr>t_wait := False\<rparr>)"

fun ism_timer_set_at :: "ism_state \<Rightarrow> ospf_interface \<Rightarrow> ospf_interface" where
  "ism_timer_set_at ISM_DependUpon oi = oi"
| "ism_timer_set_at ISM_Down oi = oi\<lparr>t_hello := False, t_wait := False, t_ls_ack := False\<rparr>"
| "ism_timer_set_at ISM_Loopback oi = oi\<lparr>t_hello := False, t_wait := False, t_ls_ack := False\<rparr>"
| "ism_timer_set_at ISM_Waiting oi = oi\<lparr>t_hello := True, t_wait := True, t_ls_ack := False\<rparr>"
| "ism_timer_set_at ISM_PointToPoint oi = oi\<lparr>t_hello := True, t_wait := False, t_ls_ack := True\<rparr>"
| "ism_timer_set_at ISM_DROther oi = oi\<lparr>t_hello := True, t_wait := False, t_ls_ack := True\<rparr>"
| "ism_timer_set_at ISM_Backup oi = oi\<lparr>t_hello := True, t_wait := False, t_ls_ack := True\<rparr>"
| "ism_timer_set_at ISM_DR oi = oi\<lparr>t_hello := True, t_wait := False, t_ls_ack := True\<rparr>"

definition ism_timer_set :: "ospf_interface \<Rightarrow> ospf_interface" where
  "ism_timer_set oi = ism_timer_set_at (i_state oi) oi"

section \<open>The state machine\<close>

text \<open>The static neighbors that an NBMA interface gets when it comes up are steps of their own (\<open>ospf_nbr_nbma_add\<close>).\<close>

definition ism_interface_up :: "ospf_interface \<Rightarrow> ism_state \<times> ospf_interface" where
  "ism_interface_up oi =
     (if i_type oi = OSPF_IFTYPE_POINTOPOINT \<or> i_type oi = OSPF_IFTYPE_POINTOMULTIPOINT \<or> i_type oi = OSPF_IFTYPE_VIRTUALLINK
      then ISM_PointToPoint
      else if PRIORITY oi = 0 then ISM_DROther else ISM_Waiting,
      if i_type oi = OSPF_IFTYPE_NBMA then log_call Nbma_if_update oi else oi)"

text \<open>The functions of the table; \<open>ism_backup_seen\<close>, \<open>ism_wait_timer\<close> and \<open>ism_neighbor_change\<close> run the election.\<close>

datatype ism_func = Ism_ignore | Ism_interface_up | Ism_wait_timer | Ism_backup_seen | Ism_neighbor_change
  | Ism_loop_ind | Ism_interface_down

fun ISM :: "ism_state \<Rightarrow> ism_event \<Rightarrow> ism_func \<times> ism_state" where
  "ISM ISM_DependUpon ev = (Ism_ignore, ISM_DependUpon)"
| "ISM st ISM_NoEvent = (Ism_ignore, ISM_DependUpon)"
| "ISM st ISM_InterfaceDown = (Ism_interface_down, ISM_Down)"
| "ISM ISM_Down ISM_InterfaceUp = (Ism_interface_up, ISM_DependUpon)"
| "ISM ISM_Loopback ISM_LoopInd = (Ism_ignore, ISM_Loopback)"
| "ISM ISM_Loopback ISM_UnloopInd = (Ism_ignore, ISM_Down)"
| "ISM st ISM_LoopInd = (Ism_loop_ind, ISM_Loopback)"
| "ISM ISM_Waiting ISM_WaitTimer = (Ism_wait_timer, ISM_DependUpon)"
| "ISM ISM_Waiting ISM_BackupSeen = (Ism_backup_seen, ISM_DependUpon)"
| "ISM ISM_DROther ISM_NeighborChange = (Ism_neighbor_change, ISM_DependUpon)"
| "ISM ISM_Backup ISM_NeighborChange = (Ism_neighbor_change, ISM_DependUpon)"
| "ISM ISM_DR ISM_NeighborChange = (Ism_neighbor_change, ISM_DependUpon)"
| "ISM st ev = (Ism_ignore, st)"

text \<open>
  The handlers return a state, or \<open>ISM_DependUpon\<close>, which is 0.  \<open>down\<close> is the cleanup of the
  interface that \<open>ism_interface_down\<close> calls.
\<close>

fun ism_call :: "(ospf_interface \<Rightarrow> ospf_interface res) \<Rightarrow> ism_func \<Rightarrow> ospf_interface \<Rightarrow> (ism_state \<times> ospf_interface) res" where
  "ism_call down Ism_ignore oi = Inr (ISM_DependUpon, oi)"
| "ism_call down Ism_loop_ind oi = Inr (ISM_DependUpon, oi)"
| "ism_call down Ism_interface_up oi = bindR (use_self oi) (\<lambda>oi. Inr (ism_interface_up oi))"
| "ism_call down Ism_interface_down oi = bindR (down oi) (\<lambda>oi. Inr (ISM_DependUpon, oi))"
| "ism_call down Ism_wait_timer oi = bindR (use_table oi) (\<lambda>oi. Inr (ospf_dr_election oi))"
| "ism_call down Ism_backup_seen oi = bindR (use_table oi) (\<lambda>oi. Inr (ospf_dr_election oi))"
| "ism_call down Ism_neighbor_change oi = bindR (use_table oi) (\<lambda>oi. Inr (ospf_dr_election oi))"

definition ism_change_state :: "ism_state \<Rightarrow> ospf_interface \<Rightarrow> ospf_interface" where
  "ism_change_state st oi0 =
     (let old_state = i_state oi0;
          oi = oi0\<lparr>i_state := st, i_state_change := i_state_change oi0 + 1\<rparr>;
          oi = log_call Set_multicast oi;
          oi = (if old_state = ISM_Down \<or> st = ISM_Down then log_call Check_abr_status oi else oi);
          oi = (if st = ISM_Down then (if act_ints oi > 0 then oi\<lparr>act_ints := act_ints oi - 1\<rparr> else oi)
                else if old_state = ISM_Down then oi\<lparr>act_ints := act_ints oi + 1\<rparr> else oi);
          oi = log_call Router_lsa_update_area oi;
          oi = (if old_state \<noteq> ISM_DR \<and> st = ISM_DR then log_call Network_lsa_update oi
                else if old_state = ISM_DR \<and> st \<noteq> ISM_DR then
                  (if network_lsa_self oi then log_call Flush_network_lsa oi else oi)\<lparr>network_lsa_self := False\<rparr>
                else oi);
          oi = log_call (Opaque_ism_change old_state) oi
      in log_call Check_abr_status oi)"

text \<open>The state is read again after the call, which may have changed it.\<close>

definition ism_step :: "(ospf_interface \<Rightarrow> ospf_interface res) \<Rightarrow> ism_event \<Rightarrow> ospf_interface \<Rightarrow> ospf_interface res" where
  "ism_step down ev oi =
     bindR (ism_call down (fst (ISM (i_state oi) ev)) oi) (\<lambda>(next_state, oi).
     let next_state = (if next_state = ISM_DependUpon then snd (ISM (i_state oi) ev) else next_state);
         oi = (if next_state \<noteq> i_state oi then ism_change_state next_state oi else oi)
     in Inr (ism_timer_set oi))"

section \<open>The best router\<close>

text \<open>The router with the highest priority, then the highest identifier; the first in the list among equals.\<close>

definition better :: "(nat \<Rightarrow> ospf_neighbor) \<Rightarrow> nat \<Rightarrow> nat \<Rightarrow> bool" where
  "better h m n \<longleftrightarrow> priority (h n) < priority (h m) \<or> priority (h n) = priority (h m) \<and> router_id (h n) < router_id (h m)"

lemma better_trans: "better h a b \<Longrightarrow> better h b c \<Longrightarrow> better h a c"
  by (auto simp: better_def)

lemma better_asym: "better h a b \<Longrightarrow> \<not> better h b a"
  by (auto simp: better_def)

lemma better_not: "\<not> better h b a \<Longrightarrow> better h c a \<Longrightarrow> better h c b"
  by (auto simp: better_def)

lemma election_sub_nil [simp]: "ospf_dr_election_sub h [] = None"
  by (simp add: ospf_dr_election_sub_def)

lemma election_sub_snoc:
  "ospf_dr_election_sub h (xs @ [n]) =
     (case ospf_dr_election_sub h xs of None \<Rightarrow> Some n | Some m \<Rightarrow> if better h n m then Some n else Some m)"
  by (auto simp: ospf_dr_election_sub_def better_def split: option.splits)

lemma election_sub_one [simp]: "ospf_dr_election_sub h [n] = Some n"
  by (simp add: ospf_dr_election_sub_def)

lemma election_sub_None: "ospf_dr_election_sub h xs = None \<longleftrightarrow> xs = []"
  by (cases xs rule: rev_cases) (auto simp: election_sub_snoc split: option.splits)

lemma election_sub_split:
  "ospf_dr_election_sub h xs = Some x \<longleftrightarrow>
     (\<exists>ys zs. xs = ys @ x # zs \<and> (\<forall>y\<in>set ys. better h x y) \<and> (\<forall>z\<in>set zs. \<not> better h z x))"
proof (induction xs arbitrary: x rule: rev_induct)
  case (snoc n xs)
  show ?case (is "?l \<longleftrightarrow> (\<exists>ys zs. ?r ys zs)")
  proof
    assume l: ?l
    show "\<exists>ys zs. ?r ys zs"
    proof (cases "ospf_dr_election_sub h xs")
      case None
      with l show ?thesis by (intro exI[of _ "[]"]) (auto simp: election_sub_None)
    next
      case (Some m)
      then obtain ys zs where m: "xs = ys @ m # zs" "\<forall>y\<in>set ys. better h m y" "\<forall>z\<in>set zs. \<not> better h z m"
        using snoc.IH by blast
      show ?thesis
      proof (cases "better h n m")
        case True
        have "better h n y" if "y \<in> set xs" for y
          using that m True better_trans[of h n m y] better_not[of h y m n] by auto
        with True Some l show ?thesis by (intro exI[of _ xs] exI[of _ "[]"]) (simp add: election_sub_snoc)
      next
        case False
        with Some l have "x = m" by (simp add: election_sub_snoc)
        show ?thesis
          by (rule exI[of _ ys], rule exI[of _ "zs @ [n]"]) (use m False \<open>x = m\<close> in auto)
      qed
    qed
  next
    assume "\<exists>ys zs. ?r ys zs"
    then obtain ys zs where r: "xs @ [n] = ys @ x # zs" "\<forall>y\<in>set ys. better h x y" "\<forall>z\<in>set zs. \<not> better h z x" by blast
    show ?l
    proof (cases zs rule: rev_cases)
      case Nil
      with r have n: "n = x" "xs = ys" by simp_all
      show ?thesis
      proof (cases "ospf_dr_election_sub h xs")
        case None
        with n show ?thesis by (simp add: election_sub_snoc)
      next
        case (Some m)
        then have "m \<in> set xs" using snoc.IH by auto
        with Some n r(2) show ?thesis by (simp add: election_sub_snoc)
      qed
    next
      case (snoc ws w)
      with r have n: "n = w" "xs = ys @ x # ws" by simp_all
      with snoc.IH[of x] r snoc have "ospf_dr_election_sub h xs = Some x" by auto
      moreover have "\<not> better h n x" using n r(3) snoc by simp
      ultimately show ?thesis unfolding election_sub_snoc by simp
    qed
  qed
qed simp

lemma election_sub_mem: "ospf_dr_election_sub h xs = Some x \<Longrightarrow> x \<in> set xs"
  by (auto simp: election_sub_split)

lemma election_sub_filter:
  assumes "ospf_dr_election_sub h xs = Some x" "P x"
  shows "ospf_dr_election_sub h (filter P xs) = Some x"
proof -
  obtain ys zs where "xs = ys @ x # zs" "\<forall>y\<in>set ys. better h x y" "\<forall>z\<in>set zs. \<not> better h z x"
    using assms(1) by (auto simp: election_sub_split)
  with assms(2) show ?thesis unfolding election_sub_split
    by (intro exI[of _ "filter P ys"] exI[of _ "filter P zs"]) auto
qed

lemma election_sub_const: "set xs \<subseteq> {x} \<Longrightarrow> xs \<noteq> [] \<Longrightarrow> ospf_dr_election_sub h xs = Some x"
  using election_sub_None election_sub_mem by (metis not_Some_eq singletonD subsetD)

lemma election_sub_cong:
  "\<forall>n\<in>set xs. priority (h n) = priority (h' n) \<and> router_id (h n) = router_id (h' n) \<Longrightarrow>
   ospf_dr_election_sub h xs = ospf_dr_election_sub h' xs"
proof (induction xs rule: rev_induct)
  case (snoc n xs)
  then show ?case using election_sub_mem[of h' xs]
    by (auto simp: election_sub_snoc better_def split: option.split)
qed simp

section \<open>One round of the election\<close>

text \<open>
  The declarations of the router itself are the only ones that the election changes.  A round
  is stated for the flags \<open>x\<close> (the router declares itself designated router) and \<open>y\<close> (backup)
  of the router \<open>s\<close>.
\<close>

definition is_dr :: "(nat \<Rightarrow> ospf_neighbor) \<Rightarrow> nat \<Rightarrow> bool \<Rightarrow> nat \<Rightarrow> bool" where
  "is_dr h s x n \<longleftrightarrow> (if n = s then x else NBR_IS_DR (h n))"

definition is_bdr :: "(nat \<Rightarrow> ospf_neighbor) \<Rightarrow> nat \<Rightarrow> bool \<Rightarrow> nat \<Rightarrow> bool" where
  "is_bdr h s y n \<longleftrightarrow> (if n = s then y else NBR_IS_BDR (h n))"

definition bdr_of :: "(nat \<Rightarrow> ospf_neighbor) \<Rightarrow> nat \<Rightarrow> nat list \<Rightarrow> bool \<Rightarrow> bool \<Rightarrow> nat option" where
  "bdr_of h s el x y =
     (let no_dr = filter (\<lambda>n. \<not> is_dr h s x n) el; bdr = filter (is_bdr h s y) no_dr
      in ospf_dr_election_sub h (if bdr \<noteq> [] then bdr else no_dr))"

definition dr_of :: "(nat \<Rightarrow> ospf_neighbor) \<Rightarrow> nat \<Rightarrow> nat list \<Rightarrow> bool \<Rightarrow> bool \<Rightarrow> nat option" where
  "dr_of h s el x y =
     (let dr = filter (is_dr h s x) el
      in if dr \<noteq> [] then ospf_dr_election_sub h dr else bdr_of h s el x y)"

lemma bdr_of_mem: "bdr_of h s el x y = Some n \<Longrightarrow> n \<in> set el \<and> \<not> is_dr h s x n"
  by (auto simp: bdr_of_def Let_def dest!: election_sub_mem split: if_splits)

lemma dr_of_mem: "dr_of h s el x y = Some n \<Longrightarrow> n \<in> set el"
  by (auto simp: dr_of_def Let_def dest!: election_sub_mem bdr_of_mem split: if_splits)

lemma bdr_of_flag: "bdr_of h s el True y = bdr_of h s el True y'"
proof -
  have "filter (is_bdr h s y) (filter (\<lambda>n. \<not> is_dr h s True n) el) = filter (is_bdr h s y') (filter (\<lambda>n. \<not> is_dr h s True n) el)"
    by (auto simp: is_bdr_def is_dr_def intro!: filter_cong)
  then show ?thesis by (simp add: bdr_of_def)
qed

lemma dr_of_flag: "dr_of h s el True y = dr_of h s el True y'"
  unfolding dr_of_def Let_def using bdr_of_flag by (metis (mono_tags))

text \<open>Who is elected backup for not being designated router, with the own declaration added or taken back.\<close>

lemma bdr_of_add:
  assumes "bdr_of h s el False y = Some s"
  shows "bdr_of h s el False True = Some s"
proof (cases "y")
  case False
  let ?N = "filter (\<lambda>n. \<not> is_dr h s False n) el"
  have no: "filter (is_bdr h s False) ?N = []"
  proof (rule ccontr)
    assume ne: "filter (is_bdr h s False) ?N \<noteq> []"
    with assms False have "s \<in> set (filter (is_bdr h s False) ?N)" by (auto simp: bdr_of_def Let_def dest: election_sub_mem)
    then show False by (simp add: is_bdr_def)
  qed
  have s: "s \<in> set ?N" using assms by (auto simp: bdr_of_def Let_def dest!: election_sub_mem split: if_splits)
  have "set (filter (is_bdr h s True) ?N) \<subseteq> {s}" using no by (auto simp: is_bdr_def filter_empty_conv split: if_splits)
  moreover have "s \<in> set (filter (is_bdr h s True) ?N)" using s by (simp add: is_bdr_def)
  ultimately have "ospf_dr_election_sub h (filter (is_bdr h s True) ?N) = Some s" "filter (is_bdr h s True) ?N \<noteq> []"
    by (auto intro!: election_sub_const simp del: set_filter)
  then show ?thesis by (simp add: bdr_of_def)
qed (use assms in simp)

lemma bdr_of_drop:
  assumes "bdr_of h s el False y \<noteq> Some s"
  shows "bdr_of h s el False False = bdr_of h s el False y"
proof (cases y)
  case True
  let ?N = "filter (\<lambda>n. \<not> is_dr h s False n) el"
  have sub: "filter (is_bdr h s False) ?N = filter (\<lambda>n. n \<noteq> s) (filter (is_bdr h s True) ?N)"
    by (auto simp: is_bdr_def intro: filter_cong)
  show ?thesis
  proof (cases "filter (is_bdr h s True) ?N = []")
    case False
    then obtain b where b: "ospf_dr_election_sub h (filter (is_bdr h s True) ?N) = Some b"
      using election_sub_None by (metis not_Some_eq)
    with assms True False have "b \<noteq> s" by (auto simp: bdr_of_def)
    with election_sub_filter[OF b, of "\<lambda>n. n \<noteq> s"] have e: "ospf_dr_election_sub h (filter (is_bdr h s False) ?N) = Some b"
      using sub by simp
    moreover from e have "filter (is_bdr h s False) ?N \<noteq> []" by auto
    ultimately show ?thesis using b False True by (simp add: bdr_of_def)
  next
    case none: True
    then have "filter (is_bdr h s False) ?N = []" unfolding sub by simp
    with none True show ?thesis by (simp add: bdr_of_def)
  qed
qed simp

text \<open>The flags of the router after a round, and the result of the election, with its second round.\<close>

definition flags_after :: "(nat \<Rightarrow> ospf_neighbor) \<Rightarrow> nat \<Rightarrow> nat list \<Rightarrow> bool \<times> bool \<Rightarrow> bool \<times> bool" where
  "flags_after h s el f = (dr_of h s el (fst f) (snd f) = Some s, bdr_of h s el (fst f) (snd f) = Some s)"

definition round_of :: "(nat \<Rightarrow> ospf_neighbor) \<Rightarrow> nat \<Rightarrow> nat list \<Rightarrow> bool \<times> bool \<Rightarrow> nat option \<times> nat option" where
  "round_of h s el f = (dr_of h s el (fst f) (snd f), bdr_of h s el (fst f) (snd f))"

text \<open>Flags that give the same state: a router that declares itself designated router is not backup.\<close>

definition same_flags :: "bool \<times> bool \<Rightarrow> bool \<times> bool \<Rightarrow> bool" where
  "same_flags f g \<longleftrightarrow> fst f = fst g \<and> (fst f \<or> snd f = snd g)"

lemma same_flags_round: "same_flags f g \<Longrightarrow> round_of h s el f = round_of h s el g"
  by (cases f; cases g) (auto simp: same_flags_def round_of_def intro: bdr_of_flag dr_of_flag)

lemma flags_round: "flags_after h s el f = (fst (round_of h s el f) = Some s, snd (round_of h s el f) = Some s)"
  by (simp add: flags_after_def round_of_def)

lemma dr_of_stays: "dr_of h s el x y = Some s \<Longrightarrow> dr_of h s el True z = Some s"
proof -
  assume d: "dr_of h s el x y = Some s"
  show ?thesis
  proof (cases "filter (is_dr h s x) el = []")
    case True
    then have "set (filter (is_dr h s True) el) \<subseteq> {s}" by (auto simp: is_dr_def filter_empty_conv split: if_splits)
    moreover have "s \<in> set (filter (is_dr h s True) el)" using dr_of_mem[OF d] by (simp add: is_dr_def)
    ultimately show ?thesis by (auto simp: dr_of_def Let_def intro!: election_sub_const simp del: set_filter split: if_splits)
  next
    case False
    with d have "ospf_dr_election_sub h (filter (is_dr h s x) el) = Some s" by (simp add: dr_of_def Let_def)
    moreover from this have x using election_sub_mem[of h "filter (is_dr h s x) el" s] by (simp add: is_dr_def)
    ultimately show ?thesis using False by (simp add: dr_of_def Let_def)
  qed
qed

lemma dr_of_drop:
  assumes "dr_of h s el x y \<noteq> Some s" "bdr_of h s el x y \<noteq> Some s"
  shows "dr_of h s el False False = dr_of h s el x y"
proof (cases x)
  case False
  then show ?thesis using bdr_of_drop[of h s el y] assms by (simp add: dr_of_def Let_def)
next
  case True
  let ?D = "\<lambda>x. filter (is_dr h s x) el"
  have sub: "?D False = filter (\<lambda>n. n \<noteq> s) (?D True)" by (auto simp: is_dr_def intro: filter_cong)
  show ?thesis
  proof (cases "?D True = []")
    case False
    then obtain d where d: "ospf_dr_election_sub h (?D True) = Some d" using election_sub_None by (metis not_Some_eq)
    with assms True False have "d \<noteq> s" by (auto simp: dr_of_def Let_def)
    with election_sub_filter[OF d, of "\<lambda>n. n \<noteq> s"] have e: "ospf_dr_election_sub h (?D False) = Some d" using sub by simp
    moreover from e have "?D False \<noteq> []" by auto
    ultimately show ?thesis using d False True by (simp add: dr_of_def Let_def)
  next
    case none: True
    then have "s \<notin> set el" by (auto simp: is_dr_def filter_empty_conv)
    then have "is_dr h s False n = is_dr h s True n" if "n \<in> set el" for n using that by (auto simp: is_dr_def)
    then have "?D False = ?D True" "filter (\<lambda>n. \<not> is_dr h s False n) el = filter (\<lambda>n. \<not> is_dr h s True n) el"
      by (auto intro: filter_cong)
    moreover have "filter (is_bdr h s False) (filter (\<lambda>n. \<not> is_dr h s True n) el) =
        filter (is_bdr h s y) (filter (\<lambda>n. \<not> is_dr h s True n) el)"
      using \<open>s \<notin> set el\<close> by (auto simp: is_bdr_def intro!: filter_cong)
    ultimately show ?thesis using True by (simp add: dr_of_def Let_def bdr_of_def)
  qed
qed

text \<open>
  The second round changes the backup at most, and a third round changes nothing: this is the
  reason why the election repeats the round once, and only when the state of the router changes.
\<close>

lemma second_round:
  fixes f :: "bool \<times> bool" and h s el
  defines "g \<equiv> flags_after h s el f"
  shows "round_of h s el (flags_after h s el g) = round_of h s el g" "fst (round_of h s el g) = fst (round_of h s el f)"
proof -
  obtain x y where f: "f = (x, y)" by (cases f)
  let ?d = "dr_of h s el" and ?b = "bdr_of h s el"
  have g: "g = (?d x y = Some s, ?b x y = Some s)" by (simp add: g_def flags_after_def f)
  consider (dr) "?d x y = Some s" | (bdr) "?d x y \<noteq> Some s" "?b x y = Some s" | (other) "?d x y \<noteq> Some s" "?b x y \<noteq> Some s" by blast
  then have "round_of h s el (flags_after h s el g) = round_of h s el g \<and> fst (round_of h s el g) = fst (round_of h s el f)"
  proof cases
    case dr
    have "same_flags (flags_after h s el g) g"
      using dr dr_of_stays[OF dr] by (simp add: g flags_after_def same_flags_def)
    with dr dr_of_stays[OF dr] show ?thesis using same_flags_round by (simp add: g f round_of_def)
  next
    case bdr
    then have x: "\<not> x" using bdr_of_mem[of h s el x y s] by (auto simp: is_dr_def)
    have b: "?b False True = Some s" using bdr_of_add bdr(2) x by simp
    have "?d False True = ?d x y" using x bdr b by (auto simp: dr_of_def Let_def)
    with bdr b have "flags_after h s el g = g" by (simp add: g flags_after_def)
    with \<open>?d False True = ?d x y\<close> bdr show ?thesis by (simp add: g f round_of_def)
  next
    case other
    note d = dr_of_drop[OF other]
    show ?thesis
    proof (cases "?b False False = Some s")
      case True
      then have b: "?b False True = Some s" by (rule bdr_of_add)
      have "?d False True = ?d False False" using b True by (simp add: dr_of_def Let_def)
      with d other True b show ?thesis by (simp add: g f round_of_def flags_after_def)
    next
      case False
      with d other show ?thesis by (simp add: g f round_of_def flags_after_def)
    qed
  qed
  then show "round_of h s el (flags_after h s el g) = round_of h s el g" "fst (round_of h s el g) = fst (round_of h s el f)"
    by simp_all
qed

lemma not_both: "dr_of h s el x y = Some s \<Longrightarrow> x \<Longrightarrow> bdr_of h s el x y \<noteq> Some s"
  using bdr_of_mem[of h s el x y s] by (auto simp: is_dr_def)

section \<open>The election on an interface\<close>

text \<open>
  What the election relies on: the router is a neighbor of itself with the address of the
  interface, and the eligible routers have different addresses, none of which is 0.
\<close>

definition elect_ok :: "ospf_interface \<Rightarrow> bool" where
  "elect_ok oi \<longleftrightarrow>
     i_address oi \<noteq> 0 \<and> n_address (nbr oi (nbr_self oi)) = i_address oi \<and>
     (\<forall>n\<in>set (ospf_dr_eligible_routers oi). n_address (nbr oi n) \<noteq> 0) \<and>
     inj_on (\<lambda>n. n_address (nbr oi n)) (insert (nbr_self oi) (set (ospf_dr_eligible_routers oi)))"

lemma elect_okD:
  assumes "elect_ok oi"
  shows "i_address oi \<noteq> 0" "n_address (nbr oi (nbr_self oi)) = i_address oi"
    "n \<in> set (ospf_dr_eligible_routers oi) \<Longrightarrow> n_address (nbr oi n) \<noteq> 0"
    "n \<in> insert (nbr_self oi) (set (ospf_dr_eligible_routers oi)) \<Longrightarrow> m \<in> insert (nbr_self oi) (set (ospf_dr_eligible_routers oi)) \<Longrightarrow>
     n_address (nbr oi n) = n_address (nbr oi m) \<Longrightarrow> n = m"
proof -
  show "i_address oi \<noteq> 0" "n_address (nbr oi (nbr_self oi)) = i_address oi"
    "n \<in> set (ospf_dr_eligible_routers oi) \<Longrightarrow> n_address (nbr oi n) \<noteq> 0"
    using assms by (simp_all add: elect_ok_def)
  show "n = m" if "n \<in> insert (nbr_self oi) (set (ospf_dr_eligible_routers oi))"
    "m \<in> insert (nbr_self oi) (set (ospf_dr_eligible_routers oi))" "n_address (nbr oi n) = n_address (nbr oi m)"
    using assms that inj_onD[of "\<lambda>n. n_address (nbr oi n)"] unfolding elect_ok_def by blast
qed

text \<open>The declarations of the router agree with its state.\<close>

definition settled :: "ospf_interface \<Rightarrow> bool" where
  "settled oi \<longleftrightarrow> (if i_state oi \<ge> ISM_DROther then ospf_ism_state oi = i_state oi else ospf_ism_state oi = ISM_DROther)"

definition own_flags :: "ospf_interface \<Rightarrow> bool \<times> bool" where
  "own_flags oi = (NBR_IS_DR (nbr oi (nbr_self oi)), NBR_IS_BDR (nbr oi (nbr_self oi)))"

fun state_of :: "bool \<times> bool \<Rightarrow> ism_state" where
  "state_of (x, y) = (if x then ISM_DR else if y then ISM_Backup else ISM_DROther)"

definition addr_opt :: "(nat \<Rightarrow> ospf_neighbor) \<Rightarrow> nat option \<Rightarrow> in_addr" where
  "addr_opt h n = (case n of None \<Rightarrow> 0 | Some m \<Rightarrow> n_address (h m))"

definition set_result :: "in_addr \<Rightarrow> in_addr \<Rightarrow> ospf_interface \<Rightarrow> ospf_interface" where
  "set_result d b oi = upd_nbr (nbr_self oi) (\<lambda>s. s\<lparr>bd_router := b, d_router := d\<rparr>) oi"

lemma set_result_sel [simp]:
  "DR (set_result d b oi) = d" "BDR (set_result d b oi) = b" "nbr_self (set_result d b oi) = nbr_self oi"
  "i_address (set_result d b oi) = i_address oi" "i_state (set_result d b oi) = i_state oi" "nbrs (set_result d b oi) = nbrs oi"
  "n_address (nbr (set_result d b oi) n) = n_address (nbr oi n)" "priority (nbr (set_result d b oi) n) = priority (nbr oi n)"
  "router_id (nbr (set_result d b oi) n) = router_id (nbr oi n)" "n_state (nbr (set_result d b oi) n) = n_state (nbr oi n)"
  "set_result d b (set_result d' b' oi) = set_result d b oi"
  by (simp_all add: set_result_def upd_nbr_def DR_def BDR_def)

lemma eligible_result [simp]: "ospf_dr_eligible_routers (set_result d b oi) = ospf_dr_eligible_routers oi"
  by (simp add: ospf_dr_eligible_routers_def)

lemma elect_ok_result [simp]: "elect_ok (set_result d b oi) \<longleftrightarrow> elect_ok oi"
  by (simp add: elect_ok_def)

lemma addr_opt_result [simp]: "addr_opt (nbr (set_result d b oi)) = addr_opt (nbr oi)"
  by (simp add: addr_opt_def fun_eq_iff split: option.split)

lemma result_other: "n \<noteq> nbr_self oi \<Longrightarrow> nbr (set_result d b oi) n = nbr oi n"
  by (simp add: set_result_def upd_nbr_def)

text \<open>A round does not look at the declarations of the router itself but through the flags.\<close>

lemma round_of_result [simp]: "round_of (nbr (set_result d b oi)) (nbr_self oi) el = round_of (nbr oi) (nbr_self oi) el"
proof
  fix f :: "bool \<times> bool"
  let ?h = "nbr (set_result d b oi)" and ?s = "nbr_self oi"
  have sub: "ospf_dr_election_sub ?h xs = ospf_dr_election_sub (nbr oi) xs" for xs
    by (rule election_sub_cong) simp
  have "is_dr ?h ?s x = is_dr (nbr oi) ?s x" "is_bdr ?h ?s y = is_bdr (nbr oi) ?s y" for x y
    by (auto simp: is_dr_def is_bdr_def result_other fun_eq_iff)
  then show "round_of ?h ?s el f = round_of (nbr oi) ?s el f"
    by (simp add: round_of_def dr_of_def bdr_of_def sub Let_def)
qed

lemma flags_after_result [simp]:
  "flags_after (nbr (set_result d b oi)) (nbr_self oi) el = flags_after (nbr oi) (nbr_self oi) el"
  by (simp add: flags_round fun_eq_iff)

lemma own_flags_decl: "is_dr (nbr oi) (nbr_self oi) (fst (own_flags oi)) = (\<lambda>n. NBR_IS_DR (nbr oi n))"
  "is_bdr (nbr oi) (nbr_self oi) (snd (own_flags oi)) = (\<lambda>n. NBR_IS_BDR (nbr oi n))"
  by (auto simp: is_dr_def is_bdr_def own_flags_def fun_eq_iff)

lemma ism_state_flags:
  assumes "elect_ok oi"
  shows "ospf_ism_state oi = state_of (own_flags oi)"
proof -
  have a: "n_address (nbr oi (nbr_self oi)) = i_address oi" using elect_okD(2)[OF assms] .
  show ?thesis unfolding own_flags_def NBR_IS_DR_def NBR_IS_BDR_def a ospf_ism_state_def DR_def BDR_def by simp
qed

lemma last_match:
  assumes "\<forall>n\<in>set xs. P n \<longrightarrow> n = m"
  shows "foldl (\<lambda>b n. if P n then Some n else b) None xs = (if \<exists>n\<in>set xs. P n then Some m else None)"
  using assms by (induction xs rule: rev_induct) auto

text \<open>One round of the code.\<close>

lemma elect_round:
  assumes ok: "elect_ok oi" and el: "el = ospf_dr_eligible_routers oi"
  defines "r \<equiv> round_of (nbr oi) (nbr_self oi) el (own_flags oi)"
  shows "ospf_elect_dr el (ospf_elect_bdr el oi) = set_result (addr_opt (nbr oi) (fst r)) (addr_opt (nbr oi) (snd r)) oi"
proof -
  let ?h = "nbr oi" and ?s = "nbr_self oi"
  let ?b = "addr_opt ?h (snd r)"
  define o1 where "o1 = ospf_elect_bdr el oi"
  have b: "snd r = ospf_dr_election_sub ?h
      (if filter (\<lambda>n. NBR_IS_BDR (?h n)) (filter (\<lambda>n. \<not> NBR_IS_DR (?h n)) el) \<noteq> []
       then filter (\<lambda>n. NBR_IS_BDR (?h n)) (filter (\<lambda>n. \<not> NBR_IS_DR (?h n)) el) else filter (\<lambda>n. \<not> NBR_IS_DR (?h n)) el)"
    by (simp add: r_def round_of_def bdr_of_def own_flags_decl Let_def)
  have o1: "o1 = upd_nbr ?s (\<lambda>n. n\<lparr>bd_router := ?b\<rparr>) oi"
    unfolding o1_def ospf_elect_bdr_def Let_def addr_opt_def b by (auto simp: if_distrib cong: if_cong)
  have h1: "n_address (nbr o1 n) = n_address (?h n)" "NBR_IS_DR (nbr o1 n) = NBR_IS_DR (?h n)" "BDR o1 = ?b" "nbr_self o1 = ?s" for n
    by (auto simp: o1 upd_nbr_def NBR_IS_DR_def BDR_def)
  have sub: "ospf_dr_election_sub (nbr o1) xs = ospf_dr_election_sub ?h xs" for xs
    by (rule election_sub_cong) (simp add: o1 upd_nbr_def)
  have bdr: "foldl (\<lambda>b n. if ?b = n_address (?h n) then Some n else b) None el = snd r"
  proof (cases "snd r")
    case None
    then have "\<forall>n\<in>set el. ?b \<noteq> n_address (?h n)" using elect_okD(3)[OF ok] el by (simp add: addr_opt_def)
    with None last_match[of el "\<lambda>n. ?b = n_address (?h n)"] show ?thesis by simp
  next
    case (Some m)
    then have m: "m \<in> set el" using bdr_of_mem[of ?h ?s el _ _ m] by (simp add: r_def round_of_def)
    have "\<forall>n\<in>set el. ?b = n_address (?h n) \<longrightarrow> n = m" using Some m elect_okD(4)[OF ok] el by (auto simp: addr_opt_def)
    from last_match[OF this] m Some show ?thesis by (simp add: addr_opt_def) blast
  qed
  have "fst r = (if filter (\<lambda>n. NBR_IS_DR (?h n)) el \<noteq> [] then ospf_dr_election_sub ?h (filter (\<lambda>n. NBR_IS_DR (?h n)) el) else snd r)"
    by (simp add: r_def round_of_def dr_of_def own_flags_decl Let_def)
  then have "ospf_elect_dr el o1 = upd_nbr ?s (\<lambda>n. n\<lparr>d_router := addr_opt ?h (fst r)\<rparr>) o1"
    unfolding ospf_elect_dr_def Let_def h1 sub bdr by (auto simp: addr_opt_def cong: if_cong)
  then show ?thesis unfolding o1_def[symmetric] by (simp add: o1 upd_nbr_def set_result_def)
qed

lemma addr_opt_own:
  assumes ok: "elect_ok oi" and n: "\<And>m. n = Some m \<Longrightarrow> m \<in> set (ospf_dr_eligible_routers oi)"
  shows "addr_opt (nbr oi) n = i_address oi \<longleftrightarrow> n = Some (nbr_self oi)"
  using elect_okD(1,2)[OF ok] elect_okD(4)[OF ok, of _ "nbr_self oi"] n by (auto simp: addr_opt_def split: option.split)

lemma flags_result:
  assumes ok: "elect_ok oi" and el: "el = ospf_dr_eligible_routers oi"
  defines "r f \<equiv> round_of (nbr oi) (nbr_self oi) el f"
  shows "own_flags (set_result (addr_opt (nbr oi) (fst (r f))) (addr_opt (nbr oi) (snd (r f))) oi) =
    flags_after (nbr oi) (nbr_self oi) el f"
proof -
  have "addr_opt (nbr oi) (fst (r f)) = i_address oi \<longleftrightarrow> fst (r f) = Some (nbr_self oi)"
    "addr_opt (nbr oi) (snd (r f)) = i_address oi \<longleftrightarrow> snd (r f) = Some (nbr_self oi)"
    by (rule addr_opt_own[OF ok]; use dr_of_mem bdr_of_mem el in \<open>fastforce simp: r_def round_of_def\<close>)+
  then show ?thesis
    using elect_okD(2)[OF ok]
    by (auto simp: own_flags_def NBR_IS_DR_def NBR_IS_BDR_def flags_round r_def set_result_def upd_nbr_def)
qed

lemma election_result:
  assumes ok: "elect_ok oi" and st: "settled oi"
  defines "el \<equiv> ospf_dr_eligible_routers oi" and "h \<equiv> nbr oi" and "s \<equiv> nbr_self oi"
  defines "g \<equiv> flags_after h s el (own_flags oi)"
  defines "oi' \<equiv> set_result (addr_opt h (fst (round_of h s el g))) (addr_opt h (snd (round_of h s el g))) oi"
  shows "ospf_dr_election oi = (state_of (flags_after h s el g),
    if DR oi \<noteq> DR oi' \<or> BDR oi \<noteq> BDR oi' then ospf_dr_change oi' else oi')"
    "own_flags oi' = flags_after h s el g"
proof -
  show own: "own_flags oi' = flags_after h s el g"
    using flags_result[OF ok, of el g] by (simp add: oi'_def h_def s_def el_def)
  let ?f = "own_flags oi"
  let ?o1 = "set_result (addr_opt h (fst (round_of h s el ?f))) (addr_opt h (snd (round_of h s el ?f))) oi"
  have r1: "ospf_elect_dr el (ospf_elect_bdr el oi) = ?o1"
    using elect_round[OF ok, of el] by (simp add: h_def s_def el_def)
  have f1: "own_flags ?o1 = g" using flags_result[OF ok, of el ?f] by (simp add: g_def h_def s_def el_def)
  have s1: "ospf_ism_state ?o1 = state_of g" using ism_state_flags[of ?o1] ok f1 by simp
  have r2: "ospf_elect_dr el (ospf_elect_bdr el ?o1) = oi'"
    using elect_round[of ?o1 el] ok f1 by (simp add: oi'_def h_def s_def el_def)
  have s2: "ospf_ism_state oi' = state_of (flags_after h s el g)"
    using ism_state_flags[of oi'] ok own by (simp add: oi'_def)
  define again where "again \<longleftrightarrow> state_of g \<noteq> i_state oi \<and> \<not> (state_of g = ISM_DROther \<and> i_state oi < ISM_DROther)"
  have e: "ospf_dr_election oi = (if again then state_of (flags_after h s el g) else state_of g,
      let o2 = (if again then oi' else ?o1) in if DR oi \<noteq> DR o2 \<or> BDR oi \<noteq> BDR o2 then ospf_dr_change o2 else o2)"
    unfolding ospf_dr_election_def Let_def el_def[symmetric] r1 s1 again_def[symmetric] r2 by (cases again) (simp_all add: s2)
  have "?o1 = oi' \<and> flags_after h s el g = g" if "\<not> again"
  proof -
    have "state_of g = state_of ?f"
      using that st ism_state_flags[OF ok] by (cases g) (auto simp: again_def settled_def state_order split: if_splits)
    then have "same_flags ?f g" by (cases ?f; cases g) (auto simp: same_flags_def split: if_splits)
    from same_flags_round[OF this] have "round_of h s el ?f = round_of h s el g" .
    then show ?thesis by (simp add: oi'_def flags_round g_def)
  qed
  then show "ospf_dr_election oi = (state_of (flags_after h s el g),
      if DR oi \<noteq> DR oi' \<or> BDR oi \<noteq> BDR oi' then ospf_dr_change oi' else oi')"
    unfolding e Let_def by (cases again) auto
qed

lemma log_call_sel [simp]:
  "i_state (log_call c oi) = i_state oi" "i_address (log_call c oi) = i_address oi" "nbrs (log_call c oi) = nbrs oi"
  "nbr (log_call c oi) = nbr oi" "nbr_self (log_call c oi) = nbr_self oi" "n_live (log_call c oi) = n_live oi"
  "i_type (log_call c oi) = i_type oi" "full_nbrs (log_call c oi) = full_nbrs oi" "n_brk (log_call c oi) = n_brk oi"
  "my_router_id (log_call c oi) = my_router_id oi" "t_hello (log_call c oi) = t_hello oi" "t_wait (log_call c oi) = t_wait oi"
  "t_ls_ack (log_call c oi) = t_ls_ack oi" "act_ints (log_call c oi) = act_ints oi" "if_priority (log_call c oi) = if_priority oi"
  "external_routing (log_call c oi) = external_routing oi" "nbma_list (log_call c oi) = nbma_list oi"
  by (simp_all add: log_call_def)

text \<open>Scheduling the events of \<open>ospf_dr_change\<close> only adds to the calls.\<close>

lemma dr_change_calls:
  "ospf_dr_change oi = oi\<lparr>calls := calls oi @ map (\<lambda>n. Nsm_schedule n NSM_AdjOK)
     (filter (\<lambda>n. router_id (nbr oi n) \<noteq> 0 \<and> n_state (nbr oi n) \<ge> NSM_TwoWay \<and> router_id (nbr oi n) \<noteq> my_router_id oi)
       (map snd (nbrs oi)))\<rparr>"
proof -
  have "fold (\<lambda>n. log_call (Nsm_schedule n NSM_AdjOK)) xs oi = oi\<lparr>calls := calls oi @ map (\<lambda>n. Nsm_schedule n NSM_AdjOK) xs\<rparr>" for xs
    by (induction xs arbitrary: oi) (simp_all add: log_call_def)
  then show ?thesis by (simp add: ospf_dr_change_def)
qed

lemma calls_sel [simp]:
  "DR (oi\<lparr>calls := c\<rparr>) = DR oi" "BDR (oi\<lparr>calls := c\<rparr>) = BDR oi" "ospf_dr_eligible_routers (oi\<lparr>calls := c\<rparr>) = ospf_dr_eligible_routers oi"
  "elect_ok (oi\<lparr>calls := c\<rparr>) = elect_ok oi" "own_flags (oi\<lparr>calls := c\<rparr>) = own_flags oi"
  "ospf_ism_state (oi\<lparr>calls := c\<rparr>) = ospf_ism_state oi" "set_result d b (oi\<lparr>calls := c\<rparr>) = (set_result d b oi)\<lparr>calls := c\<rparr>"
  by (simp_all add: DR_def BDR_def ospf_dr_eligible_routers_def elect_ok_def own_flags_def ospf_ism_state_def set_result_def upd_nbr_def)

lemma state_sel [simp]:
  "DR (oi\<lparr>i_state := c\<rparr>) = DR oi" "BDR (oi\<lparr>i_state := c\<rparr>) = BDR oi" "ospf_dr_eligible_routers (oi\<lparr>i_state := c\<rparr>) = ospf_dr_eligible_routers oi"
  "elect_ok (oi\<lparr>i_state := c\<rparr>) = elect_ok oi" "own_flags (oi\<lparr>i_state := c\<rparr>) = own_flags oi"
  "ospf_ism_state (oi\<lparr>i_state := c\<rparr>) = ospf_ism_state oi" "set_result d b (oi\<lparr>i_state := c\<rparr>) = (set_result d b oi)\<lparr>i_state := c\<rparr>"
  by (simp_all add: DR_def BDR_def ospf_dr_eligible_routers_def elect_ok_def own_flags_def ospf_ism_state_def set_result_def upd_nbr_def)

lemma set_result_same: "set_result (DR oi) (BDR oi) oi = oi"
  by (simp add: set_result_def upd_nbr_def DR_def BDR_def)

section \<open>The result of the election\<close>

text \<open>The address of the best of the routers, or 0 when there is none.\<close>

definition elected :: "(nat \<Rightarrow> ospf_neighbor) \<Rightarrow> nat list \<Rightarrow> in_addr \<Rightarrow> bool" where
  "elected h xs a \<longleftrightarrow> (if xs = [] then a = 0 else \<exists>m\<in>set xs. a = n_address (h m) \<and> (\<forall>n\<in>set xs. \<not> better h n m))"

lemma elected_sub: "elected h xs (addr_opt h (ospf_dr_election_sub h xs))"
proof (cases "ospf_dr_election_sub h xs")
  case None
  then show ?thesis by (simp add: elected_def addr_opt_def election_sub_None)
next
  case (Some m)
  moreover from this obtain ys zs where "xs = ys @ m # zs" "\<forall>y\<in>set ys. better h m y" "\<forall>z\<in>set zs. \<not> better h z m"
    by (auto simp: election_sub_split)
  moreover from this have "\<not> better h n m" if "n \<in> set xs" for n
    using that better_asym[of h m n] better_asym[of h m m] by auto
  ultimately show ?thesis by (auto simp: elected_def addr_opt_def)
qed

definition dr_routers :: "ospf_interface \<Rightarrow> nat list" where
  "dr_routers oi = filter (\<lambda>n. NBR_IS_DR (nbr oi n)) (ospf_dr_eligible_routers oi)"

definition bdr_routers :: "ospf_interface \<Rightarrow> nat list" where
  "bdr_routers oi =
     (let no_dr = filter (\<lambda>n. \<not> NBR_IS_DR (nbr oi n)) (ospf_dr_eligible_routers oi);
          bdr = filter (\<lambda>n. NBR_IS_BDR (nbr oi n)) no_dr
      in if bdr \<noteq> [] then bdr else no_dr)"

lemma round_own:
  "round_of (nbr oi) (nbr_self oi) (ospf_dr_eligible_routers oi) (own_flags oi) =
     (ospf_dr_election_sub (nbr oi) (if dr_routers oi \<noteq> [] then dr_routers oi else bdr_routers oi),
      ospf_dr_election_sub (nbr oi) (bdr_routers oi))"
  by (simp add: round_of_def dr_of_def bdr_of_def own_flags_decl Let_def dr_routers_def bdr_routers_def)

text \<open>The results and the events of the election.\<close>

lemma election_rounds:
  assumes ok: "elect_ok oi" and st: "settled oi" and e: "ospf_dr_election oi = (st, oi')"
  defines "el \<equiv> ospf_dr_eligible_routers oi" and "h \<equiv> nbr oi" and "s \<equiv> nbr_self oi"
  defines "g \<equiv> flags_after h s el (own_flags oi)"
  shows "DR oi' = addr_opt h (fst (round_of h s el (own_flags oi)))" "BDR oi' = addr_opt h (snd (round_of h s el g))"
    "st = state_of (own_flags oi')" "own_flags oi' = flags_after h s el g" "round_of h s el (own_flags oi') = round_of h s el g"
    "oi' = (set_result (DR oi') (BDR oi') oi)\<lparr>calls := calls oi @ (if DR oi \<noteq> DR oi' \<or> BDR oi \<noteq> BDR oi'
       then map (\<lambda>n. Nsm_schedule n NSM_AdjOK)
         (filter (\<lambda>n. router_id (h n) \<noteq> 0 \<and> n_state (h n) \<ge> NSM_TwoWay \<and> router_id (h n) \<noteq> my_router_id oi) (map snd (nbrs oi)))
       else [])\<rparr>"
proof -
  let ?o = "set_result (addr_opt h (fst (round_of h s el g))) (addr_opt h (snd (round_of h s el g))) oi"
  note r = election_result[OF ok st, folded h_def s_def el_def, folded g_def]
  have o': "oi' = (if DR oi \<noteq> DR ?o \<or> BDR oi \<noteq> BDR ?o then ospf_dr_change ?o else ?o)" using r(1) e by simp
  have "\<exists>c. (if P then ospf_dr_change x else x) = x\<lparr>calls := c\<rparr>" for P x
    by (cases P) (simp_all only: dr_change_calls if_True if_False, blast, rule exI[of _ "calls x"], simp)
  with o' obtain c where c: "oi' = ?o\<lparr>calls := c\<rparr>" by metis
  then show own: "own_flags oi' = flags_after h s el g" using r(2) by simp
  show "st = state_of (own_flags oi')" using own r(1) e by simp
  have "fst (round_of h s el g) = fst (round_of h s el (own_flags oi))"
    unfolding g_def by (rule second_round(2))
  with c show "DR oi' = addr_opt h (fst (round_of h s el (own_flags oi)))" "BDR oi' = addr_opt h (snd (round_of h s el g))"
    by simp_all
  show "round_of h s el (own_flags oi') = round_of h s el g"
    unfolding own g_def by (rule second_round(1))
  have "my_router_id ?o = my_router_id oi" "calls ?o = calls oi" by (simp_all add: set_result_def upd_nbr_def)
  then show "oi' = (set_result (DR oi') (BDR oi') oi)\<lparr>calls := calls oi @ (if DR oi \<noteq> DR oi' \<or> BDR oi \<noteq> BDR oi'
       then map (\<lambda>n. Nsm_schedule n NSM_AdjOK)
         (filter (\<lambda>n. router_id (h n) \<noteq> 0 \<and> n_state (h n) \<ge> NSM_TwoWay \<and> router_id (h n) \<noteq> my_router_id oi) (map snd (nbrs oi)))
       else [])\<rparr>"
    using o' by (auto simp: dr_change_calls h_def)
qed

lemma election_own_round:
  assumes "elect_ok oi" "settled oi" "ospf_dr_election oi = (st, oi')"
  shows "round_of (nbr oi') (nbr_self oi') (ospf_dr_eligible_routers oi') f =
    round_of (nbr oi) (nbr_self oi) (ospf_dr_eligible_routers oi) f"
    "addr_opt (nbr oi') = addr_opt (nbr oi)" "elect_ok oi'" "nbr_self oi' = nbr_self oi" "i_address oi' = i_address oi"
    "ospf_dr_eligible_routers oi' = ospf_dr_eligible_routers oi" "nbrs oi' = nbrs oi"
proof -
  define d b where "d = DR oi'" and "b = BDR oi'"
  obtain c where "oi' = (set_result d b oi)\<lparr>calls := c\<rparr>"
    using election_rounds(6)[OF assms, folded d_def b_def] by blast
  then show "round_of (nbr oi') (nbr_self oi') (ospf_dr_eligible_routers oi') f =
    round_of (nbr oi) (nbr_self oi) (ospf_dr_eligible_routers oi) f"
    "addr_opt (nbr oi') = addr_opt (nbr oi)" "elect_ok oi'" "nbr_self oi' = nbr_self oi" "i_address oi' = i_address oi"
    "ospf_dr_eligible_routers oi' = ospf_dr_eligible_routers oi" "nbrs oi' = nbrs oi"
    using assms(1) by simp_all
qed

text \<open>
  C16: The election follows section 9.4 of RFC 2328.  The designated router is the best, by
  priority and then by identifier, of the eligible routers that declare themselves designated
  router; when there is none, of those that declare themselves backup; when there is none
  either, of all eligible routers.  The backup is, with the declarations the router makes after
  the election, the best of the routers that declare themselves backup and not designated
  router, or of all that do not declare themselves designated router.  The router is never
  designated router and backup at once, and its new state is the one its role has.
\<close>

theorem dr_election_rule:
  assumes "elect_ok oi" "settled oi" "ospf_dr_election oi = (st, oi')"
  shows "elected (nbr oi) (if dr_routers oi \<noteq> [] then dr_routers oi else bdr_routers oi) (DR oi') \<and>
    elected (nbr oi') (bdr_routers oi') (BDR oi') \<and> st = ospf_ism_state oi' \<and> (st = ISM_DR \<longrightarrow> BDR oi' \<noteq> i_address oi')"
proof -
  note e = election_rounds[OF assms] and o = election_own_round[OF assms]
  have b: "BDR oi' = addr_opt (nbr oi') (ospf_dr_election_sub (nbr oi') (bdr_routers oi'))"
    using e(2,5) o(1)[of "own_flags oi'"] o(2) round_own[of oi'] by (metis snd_conv)
  have st: "st = ospf_ism_state oi'" using ism_state_flags[OF o(3)] e(3) by simp
  moreover have "BDR oi' \<noteq> i_address oi'" if "st = ISM_DR"
  proof
    assume own: "BDR oi' = i_address oi'"
    have d: "NBR_IS_DR (nbr oi' (nbr_self oi'))" using that e(3) by (auto simp: own_flags_def split: if_splits)
    obtain m where m: "ospf_dr_election_sub (nbr oi') (bdr_routers oi') = Some m"
      using own b elect_okD(1)[OF o(3)] by (cases "ospf_dr_election_sub (nbr oi') (bdr_routers oi')") (auto simp: addr_opt_def)
    then have "m \<in> set (ospf_dr_eligible_routers oi')" "\<not> NBR_IS_DR (nbr oi' m)"
      using election_sub_mem[OF m] by (auto simp: bdr_routers_def Let_def split: if_splits)
    moreover from this have "m = nbr_self oi'" using addr_opt_own[OF o(3), of "Some m"] own b m by simp
    ultimately show False using d by simp
  qed
  ultimately show ?thesis using elected_sub b e(1) round_own[of oi] by (metis fst_conv)
qed

text \<open>
  C17: The election is settled by its two rounds: running it again, in the state it returned,
  returns the same state, changes nothing and schedules no event.  It changes nothing but the
  two addresses, and schedules \<open>AdjOK?\<close> for exactly the other neighbors in state 2-Way or
  higher when one of the addresses has changed, and for none otherwise.
\<close>

theorem dr_election_stable:
  assumes "elect_ok oi" "settled oi" "ospf_dr_election oi = (st, oi')"
  shows "ospf_dr_election (oi'\<lparr>i_state := st\<rparr>) = (st, oi'\<lparr>i_state := st\<rparr>) \<and>
    oi' = (set_result (DR oi') (BDR oi') oi)\<lparr>calls := calls oi @ (if DR oi \<noteq> DR oi' \<or> BDR oi \<noteq> BDR oi'
       then map (\<lambda>n. Nsm_schedule n NSM_AdjOK)
         (filter (\<lambda>n. router_id (nbr oi n) \<noteq> 0 \<and> n_state (nbr oi n) \<ge> NSM_TwoWay \<and> router_id (nbr oi n) \<noteq> my_router_id oi)
           (map snd (nbrs oi)))
       else [])\<rparr>"
proof -
  note e = election_rounds[OF assms] and o = election_own_round[OF assms]
  let ?o = "oi'\<lparr>i_state := st\<rparr>"
  have "st \<ge> ISM_DROther" using e(3) by (cases "own_flags oi'") (auto simp: state_order)
  then have s: "settled ?o" using ism_state_flags[OF o(3)] e(3) by (simp add: settled_def)
  have ok: "elect_ok ?o" using o(3) by simp
  obtain st2 o2 where e2: "ospf_dr_election ?o = (st2, o2)" by (cases "ospf_dr_election ?o")
  note r = election_rounds[OF ok s e2]
  define g where "g = flags_after (nbr oi) (nbr_self oi) (ospf_dr_eligible_routers oi) (own_flags oi)"
  have k: "own_flags oi' = flags_after (nbr oi) (nbr_self oi) (ospf_dr_eligible_routers oi) g" using e(4) by (simp add: g_def)
  have fix_: "flags_after (nbr oi') (nbr_self oi') (ospf_dr_eligible_routers oi') (own_flags oi') = own_flags oi'"
    unfolding flags_round o(1) k using e(5) k by (simp add: g_def flags_round o(4))
  have same: "round_of (nbr oi') (nbr_self oi') (ospf_dr_eligible_routers oi') (own_flags oi') =
      round_of (nbr oi) (nbr_self oi) (ospf_dr_eligible_routers oi) g"
    using e(5) by (simp add: o(1) g_def)
  have "DR oi' = addr_opt (nbr oi) (fst (round_of (nbr oi) (nbr_self oi) (ospf_dr_eligible_routers oi) g))"
    using e(1) second_round(2)[of "nbr oi" "nbr_self oi" "ospf_dr_eligible_routers oi" "own_flags oi"] by (simp add: g_def)
  then have d: "DR o2 = DR oi'" "BDR o2 = BDR oi'"
    using r(1,2) e(2) same fix_ o(2) by (simp_all add: g_def)
  then have "o2 = ?o" using r(6) set_result_same[of ?o] by simp
  moreover have "st2 = st" using r(3,4) e(3) fix_ by simp
  ultimately show ?thesis using e2 e(6) by simp
qed

section \<open>An example\<close>

text \<open>A router with the identifier 9 on a broadcast network with two neighbors, at the end of its waiting time.\<close>

definition ex_nbr :: "in_addr \<Rightarrow> in_addr \<Rightarrow> ospf_neighbor" where
  "ex_nbr a rid = \<lparr>n_state = NSM_TwoWay, dd_flags = 7, dd_seqnum = 0, n_address = a, src = a, router_id = rid, options = 2,
     priority = 1, d_router = 0, bd_router = 0, last_send = False, db_sum = [], ls_req = [], n_crypt_seqnum = 0,
     t_inactivity = True, t_db_desc = False, t_ls_req = False, t_ls_upd = False, t_hello_reply = False,
     nbr_nbma = None, n_state_change = 0\<rparr>"

definition ex_if :: ospf_interface where
  "ex_if = \<lparr>i_type = OSPF_IFTYPE_BROADCAST, i_state = ISM_Waiting, i_address = 1, nbrs = [(1, 0), (2, 1), (3, 2)],
     nbr = (\<lambda>n. if n = 0 then ex_nbr 1 9 else if n = 1 then ex_nbr 2 4 else ex_nbr 3 5), n_live = (\<lambda>n. n < 3), n_brk = 3, nbr_self = 0,
     nbma_list = [], nbma_change = (\<lambda>_. 0), network_lsa_self = False, i_crypt_seqnum = 0, t_hello = True, t_wait = False, t_ls_ack = False,
     i_state_change = 1, full_nbrs = 0, hello_in = 0, if_priority = 1, my_router_id = 9, external_routing = OSPF_AREA_DEFAULT,
     act_ints = 1, area_full_nbrs = 0, vl_full_vls = None, area_lsdb = (\<lambda>_. []), as_lsdb = (\<lambda>_. []), clock = 0, calls = []\<rparr>"

lemma ex_eligible: "ospf_dr_eligible_routers ex_if = [0, 1, 2]"
  by (simp add: ospf_dr_eligible_routers_def ex_if_def ex_nbr_def)

lemma ex_elect_ok: "elect_ok ex_if" "settled ex_if"
  unfolding elect_ok_def ex_eligible
  by (simp_all add: ex_if_def ex_nbr_def settled_def ospf_ism_state_def DR_def BDR_def state_order)

lemma ex_election:
  obtains oi' where "ospf_dr_election ex_if = (ISM_DR, oi')" "DR oi' = 1" "BDR oi' = 3"
proof -
  have "fst (ospf_dr_election ex_if) = ISM_DR" "DR (snd (ospf_dr_election ex_if)) = 1" "BDR (snd (ospf_dr_election ex_if)) = 3"
    by code_simp+
  then show thesis using that by (metis prod.collapse)
qed

theorem dr_election_rule_witness:
  "\<exists>oi'. ospf_dr_election ex_if = (ISM_DR, oi') \<and> DR oi' = 1 \<and> BDR oi' = 3 \<and>
    elected (nbr ex_if) (bdr_routers ex_if) (DR oi') \<and> elected (nbr oi') (bdr_routers oi') (BDR oi') \<and> BDR oi' \<noteq> i_address oi'"
proof -
  obtain oi' where o: "ospf_dr_election ex_if = (ISM_DR, oi')" "DR oi' = 1" "BDR oi' = 3" by (rule ex_election)
  have "dr_routers ex_if = []" unfolding dr_routers_def ex_eligible by (simp add: ex_if_def ex_nbr_def NBR_IS_DR_def)
  then show ?thesis using dr_election_rule[OF ex_elect_ok o(1)] o by auto
qed

theorem dr_election_stable_witness:
  "\<exists>oi'. ospf_dr_election ex_if = (ISM_DR, oi') \<and> DR oi' = 1 \<and>
    ospf_dr_election (oi'\<lparr>i_state := ISM_DR\<rparr>) = (ISM_DR, oi'\<lparr>i_state := ISM_DR\<rparr>)"
proof -
  obtain oi' where o: "ospf_dr_election ex_if = (ISM_DR, oi')" "DR oi' = 1" "BDR oi' = 3" by (rule ex_election)
  then show ?thesis using dr_election_stable[OF ex_elect_ok o(1)] by auto
qed

end
