(* ===== verification/Ospf_Nsm.thy ===== *)
theory Ospf_Nsm
  imports Ospf_Ism
begin

text \<open>
  The neighbor state machine of ospfd (ospfd/ospf\_nsm.c, ospfd/ospf\_nsm.h), the table of the
  neighbors of an interface (ospfd/ospf\_neighbor.c) and the cleanup of an interface that goes
  down (\<open>ospf_if_cleanup\<close> of ospfd/ospf\_interface.c), on the interface of Ospf\_Ism.  An event of
  one machine can run the other one: a neighbor that becomes or stops being bidirectional runs
  \<open>NeighborChange\<close> of the interface, and an interface that goes down kills its neighbors.
  The lists of LSAs to retransmit belong to the flooding module; clearing one is a recorded
  call, and the tests whether it is empty are left out, as are the time stamps that
  \<open>nsm_notice_state_change\<close> sets.  The functions of the machine and of the table check every
  neighbor whose fields they use with \<open>use_nbr\<close>.
\<close>

section \<open>The table of neighbors\<close>

definition ospf_nbr_key :: "ospf_interface \<Rightarrow> ospf_neighbor \<Rightarrow> in_addr" where
  "ospf_nbr_key oi n =
     (if i_type oi = OSPF_IFTYPE_VIRTUALLINK \<or> i_type oi = OSPF_IFTYPE_POINTOPOINT then router_id n else src n)"

text \<open>The key of the other rule, which \<open>ospf_nbr_delete\<close> tries next.\<close>

definition other_key :: "ospf_interface \<Rightarrow> ospf_neighbor \<Rightarrow> in_addr" where
  "other_key oi n =
     (if i_type oi = OSPF_IFTYPE_VIRTUALLINK \<or> i_type oi = OSPF_IFTYPE_POINTOPOINT then src n else router_id n)"

text \<open>\<open>route_node_get\<close> with a new entry: the table is visited in the order of the keys.\<close>

fun tab_insert :: "in_addr \<Rightarrow> nat \<Rightarrow> (in_addr \<times> nat) list \<Rightarrow> (in_addr \<times> nat) list" where
  "tab_insert k n [] = [(k, n)]"
| "tab_insert k n ((j, m) # t) = (if k < j then (k, n) # (j, m) # t else (j, m) # tab_insert k n t)"

definition tab_delete :: "in_addr \<Rightarrow> (in_addr \<times> nat) list \<Rightarrow> (in_addr \<times> nat) list" where
  "tab_delete k t = filter (\<lambda>e. fst e \<noteq> k) t"

definition new_nbr :: ospf_neighbor where
  "new_nbr = \<lparr>n_state = NSM_Down, dd_flags = 7, dd_seqnum = 0, n_address = 0, src = 0, router_id = 0, options = 0,
     priority = - 1, d_router = 0, bd_router = 0, last_send = False, db_sum = [], ls_req = [], n_crypt_seqnum = 0,
     t_inactivity = False, t_db_desc = False, t_ls_req = False, t_ls_upd = False, t_hello_reply = False,
     nbr_nbma = None, n_state_change = 0\<rparr>"

definition ospf_nbr_new :: "ospf_interface \<Rightarrow> nat \<times> ospf_interface" where
  "ospf_nbr_new oi =
     (n_brk oi, oi\<lparr>nbr := (nbr oi)(n_brk oi := new_nbr), n_live := (n_live oi)(n_brk oi := True), n_brk := n_brk oi + 1\<rparr>)"

definition ospf_nbr_free :: "nat \<Rightarrow> ospf_interface \<Rightarrow> ospf_interface" where
  "ospf_nbr_free n oi =
     (let oi = log_call (Retransmit_clear n) oi;
          oi = (case nbr_nbma (nbr oi n) of Some p \<Rightarrow> log_call (Nbma_detach p) oi | None \<Rightarrow> oi);
          oi = upd_nbr n (\<lambda>x. x\<lparr>db_sum := [], ls_req := [], last_send := False, nbr_nbma := None, t_inactivity := False,
                 t_db_desc := False, t_ls_req := False, t_ls_upd := False\<rparr>) oi;
          oi = log_call (Cancel_events n) oi
      in oi\<lparr>n_live := (n_live oi)(n := False)\<rparr>)"

text \<open>An entry found under the key is removed whatever neighbor it holds; an entry under the other key only if it is this one.\<close>

definition nbr_deleted :: "nat \<Rightarrow> ospf_interface \<Rightarrow> ospf_interface" where
  "nbr_deleted n oi =
     (let k = ospf_nbr_key oi (nbr oi n); j = other_key oi (nbr oi n);
          oi = (if map_of (nbrs oi) k \<noteq> None then oi\<lparr>nbrs := tab_delete k (nbrs oi)\<rparr>
                else if map_of (nbrs oi) j = Some n then oi\<lparr>nbrs := tab_delete j (nbrs oi)\<rparr> else oi)
      in ospf_nbr_free n oi)"

definition ospf_nbr_delete :: "nat \<Rightarrow> ospf_interface \<Rightarrow> ospf_interface res" where
  "ospf_nbr_delete n oi = bindR (use_nbr n oi) (\<lambda>oi. Inr (nbr_deleted n oi))"

definition ospf_nbr_add_self :: "ospf_interface \<Rightarrow> ospf_interface res" where
  "ospf_nbr_add_self oi =
     bindR (use_nbr (nbr_self oi) oi) (\<lambda>oi.
      let s = nbr_self oi;
          oi = upd_nbr s (\<lambda>n. n\<lparr>n_address := i_address oi, priority := uint (if_priority oi), router_id := my_router_id oi,
                 src := i_address oi, n_state := NSM_TwoWay,
                 options := (case external_routing oi of
                     OSPF_AREA_DEFAULT \<Rightarrow> options n OR 0x02
                   | OSPF_AREA_STUB \<Rightarrow> options n AND NOT 0x02
                   | OSPF_AREA_NSSA \<Rightarrow> options n AND NOT 0x02 OR 0x08)\<rparr>) oi;
          k = ospf_nbr_key oi (nbr oi s)
      in case map_of (nbrs oi) k of
           Some n \<Rightarrow> if s = n then Inr oi else Inl Assert_failed
         | None \<Rightarrow> Inr (oi\<lparr>nbrs := tab_insert k s (nbrs oi)\<rparr>))"

definition ospf_nbr_self_reset :: "ospf_interface \<Rightarrow> ospf_interface res" where
  "ospf_nbr_self_reset oi =
     bindR (ospf_nbr_delete (nbr_self oi) oi) (\<lambda>oi.
     let (s, oi) = ospf_nbr_new oi in ospf_nbr_add_self (oi\<lparr>nbr_self := s\<rparr>))"

definition ospf_nbr_count :: "ospf_interface \<Rightarrow> nsm_state \<Rightarrow> nat" where
  "ospf_nbr_count oi st =
     length (filter (\<lambda>n. router_id (nbr oi n) \<noteq> my_router_id oi \<and> (st = NSM_DependUpon \<or> n_state (nbr oi n) = st))
       (map snd (nbrs oi)))"

text \<open>
  The neighbor that sent a packet, with the identifier \<open>rid\<close> of its header, the source address
  \<open>ip_src\<close> and, with cryptographic authentication, the sequence number \<open>seq\<close>; \<open>p\<close> is the address that
  the caller passes.
\<close>

definition ospf_nbr_add :: "u32 option \<Rightarrow> in_addr \<Rightarrow> ospf_interface \<Rightarrow> nat \<times> ospf_interface" where
  "ospf_nbr_add seq p oi =
     (let (n, oi) = ospf_nbr_new oi;
          oi = upd_nbr n (\<lambda>x. x\<lparr>src := p, n_address := p\<rparr>) oi;
          oi = (if i_type oi = OSPF_IFTYPE_NBMA then
                  fold (\<lambda>(b, a) oi. if a = p then
                      log_call (Poll_timer_off b) (log_call (Nbma_attach b n)
                        (upd_nbr n (\<lambda>x. x\<lparr>nbr_nbma := Some b, n_state_change := nbma_change oi b + 1\<rparr>) oi))
                    else oi) (nbma_list oi) oi
                else oi);
          oi = (case seq of Some q \<Rightarrow> upd_nbr n (\<lambda>x. x\<lparr>n_crypt_seqnum := q\<rparr>) oi | None \<Rightarrow> oi)
      in (n, oi))"

definition ospf_nbr_get ::
  "in_addr \<Rightarrow> in_addr \<Rightarrow> u32 option \<Rightarrow> in_addr \<Rightarrow> ospf_interface \<Rightarrow> (nat \<times> ospf_interface) res" where
  "ospf_nbr_get rid ip_src seq p oi =
     (let k = (if i_type oi = OSPF_IFTYPE_VIRTUALLINK \<or> i_type oi = OSPF_IFTYPE_POINTOPOINT then rid else ip_src)
      in bindR (case map_of (nbrs oi) k of
                  Some n \<Rightarrow> bindR (use_nbr n oi) (\<lambda>oi. Inr (n,
                    if i_type oi = OSPF_IFTYPE_NBMA \<and> n_state (nbr oi n) = NSM_Attempt
                    then upd_nbr n (\<lambda>x. x\<lparr>src := ip_src, n_address := p\<rparr>) oi else oi))
                | None \<Rightarrow> let (n, oi) = ospf_nbr_add seq p oi in Inr (n, oi\<lparr>nbrs := tab_insert k n (nbrs oi)\<rparr>)) (\<lambda>(n, oi).
         Inr (n, upd_nbr n (\<lambda>x. x\<lparr>router_id := rid\<rparr>) oi)))"

section \<open>Timers\<close>

definition ospf_inactivity_timer :: "nat \<Rightarrow> ospf_interface \<Rightarrow> ospf_interface res" where
  "ospf_inactivity_timer n oi =
     bindR (use_nbr n oi) (\<lambda>oi.
     Inr (log_call (Nsm_schedule n NSM_InactivityTimer) (upd_nbr n (\<lambda>x. x\<lparr>t_inactivity := False\<rparr>) oi)))"

definition ospf_db_desc_timer :: "nat \<Rightarrow> ospf_interface \<Rightarrow> ospf_interface res" where
  "ospf_db_desc_timer n oi =
     bindR (use_nbr n oi) (\<lambda>oi.
      let oi = upd_nbr n (\<lambda>x. x\<lparr>t_db_desc := False\<rparr>) oi in
      if \<not> last_send (nbr oi n) then Inl Assert_failed
      else Inr (upd_nbr n (\<lambda>x. x\<lparr>t_db_desc := True\<rparr>) (log_call (Db_desc_resend n) oi)))"

definition nsm_timers :: "ospf_neighbor \<Rightarrow> ospf_neighbor" where
  "nsm_timers x =
     (case n_state x of
        NSM_Deleted \<Rightarrow> x\<lparr>t_inactivity := False, t_hello_reply := False, t_db_desc := False, t_ls_upd := False, t_ls_req := False\<rparr>
      | NSM_Down \<Rightarrow> x\<lparr>t_inactivity := False, t_hello_reply := False, t_db_desc := False, t_ls_upd := False, t_ls_req := False\<rparr>
      | NSM_Attempt \<Rightarrow> x\<lparr>t_db_desc := False, t_ls_upd := False, t_ls_req := False\<rparr>
      | NSM_Init \<Rightarrow> x\<lparr>t_db_desc := False, t_ls_upd := False, t_ls_req := False\<rparr>
      | NSM_TwoWay \<Rightarrow> x\<lparr>t_db_desc := False, t_ls_upd := False, t_ls_req := False\<rparr>
      | NSM_ExStart \<Rightarrow> x\<lparr>t_db_desc := True, t_ls_upd := False, t_ls_req := False\<rparr>
      | NSM_Exchange \<Rightarrow> if dd_flags x AND 0x01 = 0 then x\<lparr>t_ls_upd := True, t_db_desc := False\<rparr> else x\<lparr>t_ls_upd := True\<rparr>
      | _ \<Rightarrow> x\<lparr>t_db_desc := False\<rparr>)"

definition nsm_timer_set :: "nat \<Rightarrow> ospf_interface \<Rightarrow> ospf_interface res" where
  "nsm_timer_set n oi = bindR (use_nbr n oi) (\<lambda>oi. Inr (upd_nbr n nsm_timers oi))"

section \<open>The functions of the table\<close>

definition nsm_should_adj :: "nat \<Rightarrow> ospf_interface \<Rightarrow> bool" where
  "nsm_should_adj n oi \<longleftrightarrow>
     i_type oi = OSPF_IFTYPE_POINTOPOINT \<or> i_type oi = OSPF_IFTYPE_POINTOMULTIPOINT \<or> i_type oi = OSPF_IFTYPE_VIRTUALLINK \<or>
     i_address oi = DR oi \<or> i_address oi = BDR oi \<or> n_address (nbr oi n) = DR oi \<or> n_address (nbr oi n) = BDR oi"

definition nsm_packet_received :: "nat \<Rightarrow> ospf_interface \<Rightarrow> ospf_interface" where
  "nsm_packet_received n oi =
     (let oi = upd_nbr n (\<lambda>x. x\<lparr>t_inactivity := True\<rparr>) oi in
      case nbr_nbma (nbr oi n) of
        Some p \<Rightarrow> if i_type oi = OSPF_IFTYPE_NBMA then log_call (Poll_timer_off p) oi else oi
      | None \<Rightarrow> oi)"

definition nsm_start :: "nat \<Rightarrow> ospf_interface \<Rightarrow> ospf_interface" where
  "nsm_start n oi =
     upd_nbr n (\<lambda>x. x\<lparr>t_inactivity := True\<rparr>)
       (case nbr_nbma (nbr oi n) of Some p \<Rightarrow> log_call (Poll_timer_off p) oi | None \<Rightarrow> oi)"

definition nsm_twoway_received :: "nat \<Rightarrow> ospf_interface \<Rightarrow> nsm_state" where
  "nsm_twoway_received n oi = (if nsm_should_adj n oi then NSM_ExStart else NSM_TwoWay)"

text \<open>A database is the list of its LSAs, one for each type and key; its counts and its checksum are left out.\<close>

definition ospf_lsdb_add :: "ospf_lsa \<Rightarrow> ospf_lsa list \<Rightarrow> ospf_lsa list" where
  "ospf_lsdb_add lsa db =
     (if lsa \<in> set db then db else filter (\<lambda>l. (l_type l, l_key l) \<noteq> (l_type lsa, l_key lsa)) db @ [lsa])"

definition ospf_db_summary_add :: "nat \<Rightarrow> ospf_lsa \<Rightarrow> ospf_interface \<Rightarrow> ospf_interface" where
  "ospf_db_summary_add n lsa oi =
     (if l_type lsa = 9 \<and> \<not> l_here lsa then oi
      else if l_xlt lsa then oi
      else if l_maxage lsa then log_call (Retransmit_add n lsa) oi
      else upd_nbr n (\<lambda>x. x\<lparr>db_sum := ospf_lsdb_add lsa (db_sum x)\<rparr>) oi)"

text \<open>The types of the LSAs: 1 to 4 router, network and summary, 5 external, 7 NSSA, 9 to 11 opaque.\<close>

definition nsm_negotiation_done :: "nat \<Rightarrow> ospf_interface \<Rightarrow> ospf_interface" where
  "nsm_negotiation_done n oi0 =
     (let loop = \<lambda>db oi. fold (ospf_db_summary_add n) db oi;
          opaque = (options (nbr oi0 n) AND 0x40 \<noteq> 0);
          normal = (i_type oi0 \<noteq> OSPF_IFTYPE_VIRTUALLINK \<and> external_routing oi0 = OSPF_AREA_DEFAULT);
          oi = loop (area_lsdb oi0 4) (loop (area_lsdb oi0 3) (loop (area_lsdb oi0 2) (loop (area_lsdb oi0 1) oi0)));
          oi = (if opaque then loop (area_lsdb oi0 10) (loop (area_lsdb oi0 9) oi) else oi);
          oi = (if options (nbr oi0 n) AND 0x08 \<noteq> 0 then loop (area_lsdb oi0 7) oi else oi);
          oi = (if normal then loop (as_lsdb oi0 5) oi else oi);
          oi = (if opaque \<and> normal then loop (as_lsdb oi0 11) oi else oi)
      in if \<not> t_ls_req (nbr oi n) then log_call (Ls_req_send n) oi else oi)"

definition nsm_exchange_done :: "nat \<Rightarrow> ospf_interface \<Rightarrow> nsm_state \<times> ospf_interface" where
  "nsm_exchange_done n oi =
     (if ls_req (nbr oi n) = [] then (NSM_Full, oi)
      else (NSM_Loading, if \<not> t_ls_req (nbr oi n) then log_call (Ls_req_send n) oi else oi))"

definition nsm_adj_ok :: "nat \<Rightarrow> ospf_interface \<Rightarrow> nsm_state" where
  "nsm_adj_ok n oi =
     (let st = n_state (nbr oi n); adj = nsm_should_adj n oi in
      if st = NSM_TwoWay \<and> adj then NSM_ExStart
      else if st \<ge> NSM_ExStart \<and> \<not> adj then NSM_TwoWay
      else st)"

definition nsm_clear_adj :: "nat \<Rightarrow> ospf_interface \<Rightarrow> ospf_interface" where
  "nsm_clear_adj n oi =
     upd_nbr n (\<lambda>x. x\<lparr>db_sum := [], ls_req := [], options := options x AND NOT 0x40\<rparr>) (log_call (Retransmit_clear n) oi)"

definition nsm_kill_nbr :: "nat \<Rightarrow> ospf_interface \<Rightarrow> ospf_interface res" where
  "nsm_kill_nbr n oi =
     (if n = nbr_self oi then Inl Assert_failed
      else case nbr_nbma (nbr oi n) of
        Some p \<Rightarrow>
          if i_type oi = OSPF_IFTYPE_NBMA
          then Inr (log_call (Poll_timer_on p) (log_call (Nbma_detach p)
                 (upd_nbr n (\<lambda>x. x\<lparr>nbr_nbma := None\<rparr>) (oi\<lparr>nbma_change := (nbma_change oi)(p := n_state_change (nbr oi n))\<rparr>))))
          else Inr oi
      | None \<Rightarrow> Inr oi)"

datatype nsm_func = Nsm_packet_received | Nsm_start | Nsm_twoway_received | Nsm_negotiation_done | Nsm_exchange_done
  | Nsm_adj_ok | Nsm_kill_nbr

fun NSM :: "nsm_state \<Rightarrow> nsm_event \<Rightarrow> nsm_func option \<times> nsm_state" where
  "NSM NSM_DependUpon ev = (None, NSM_DependUpon)"
| "NSM NSM_Deleted ev = (None, NSM_Deleted)"
| "NSM st NSM_NoEvent = (None, NSM_DependUpon)"
| "NSM st NSM_KillNbr = (Some Nsm_kill_nbr, NSM_Deleted)"
| "NSM st NSM_InactivityTimer = (Some Nsm_kill_nbr, NSM_Deleted)"
| "NSM st NSM_LLDown = (Some Nsm_kill_nbr, NSM_Deleted)"
| "NSM NSM_Down NSM_PacketReceived = (Some Nsm_packet_received, NSM_Init)"
| "NSM NSM_Down NSM_Start = (Some Nsm_start, NSM_Attempt)"
| "NSM NSM_Down ev = (None, NSM_Down)"
| "NSM NSM_Attempt NSM_PacketReceived = (Some Nsm_packet_received, NSM_Init)"
| "NSM NSM_Attempt ev = (None, NSM_Attempt)"
| "NSM NSM_Init NSM_TwoWayReceived = (Some Nsm_twoway_received, NSM_DependUpon)"
| "NSM st NSM_PacketReceived = (Some Nsm_packet_received, st)"
| "NSM NSM_Init ev = (None, NSM_Init)"
| "NSM st NSM_AdjOK = (Some Nsm_adj_ok, NSM_DependUpon)"
| "NSM st NSM_OneWayReceived = (None, NSM_Init)"
| "NSM NSM_TwoWay ev = (None, NSM_TwoWay)"
| "NSM NSM_ExStart NSM_NegotiationDone = (Some Nsm_negotiation_done, NSM_Exchange)"
| "NSM NSM_ExStart ev = (None, NSM_ExStart)"
| "NSM st NSM_BadLSReq = (None, NSM_ExStart)"
| "NSM st NSM_SeqNumberMismatch = (None, NSM_ExStart)"
| "NSM NSM_Exchange NSM_ExchangeDone = (Some Nsm_exchange_done, NSM_DependUpon)"
| "NSM NSM_Loading NSM_LoadingDone = (None, NSM_Full)"
| "NSM st ev = (None, st)"

fun nsm_apply :: "nsm_func \<Rightarrow> nat \<Rightarrow> ospf_interface \<Rightarrow> (nsm_state \<times> ospf_interface) res" where
  "nsm_apply Nsm_packet_received n oi = Inr (NSM_DependUpon, nsm_packet_received n oi)"
| "nsm_apply Nsm_start n oi = Inr (NSM_DependUpon, nsm_start n oi)"
| "nsm_apply Nsm_twoway_received n oi = bindR (use_self oi) (\<lambda>oi. Inr (nsm_twoway_received n oi, oi))"
| "nsm_apply Nsm_negotiation_done n oi = Inr (NSM_DependUpon, nsm_negotiation_done n oi)"
| "nsm_apply Nsm_exchange_done n oi = Inr (nsm_exchange_done n oi)"
| "nsm_apply Nsm_adj_ok n oi = bindR (use_self oi) (\<lambda>oi. Inr (nsm_adj_ok n oi, oi))"
| "nsm_apply Nsm_kill_nbr n oi = bindR (nsm_kill_nbr n oi) (\<lambda>oi. Inr (NSM_DependUpon, oi))"

text \<open>Every function of the table follows the pointer to the neighbor.\<close>

definition nsm_call :: "nsm_func \<Rightarrow> nat \<Rightarrow> ospf_interface \<Rightarrow> (nsm_state \<times> ospf_interface) res" where
  "nsm_call f n oi = bindR (use_nbr n oi) (nsm_apply f n)"

section \<open>Changing the state\<close>

text \<open>The part of \<open>nsm_change_state\<close> for neighbors that become or stop being fully adjacent.\<close>

definition nsm_full_change :: "nsm_state \<Rightarrow> nsm_state \<Rightarrow> ospf_interface \<Rightarrow> ospf_interface" where
  "nsm_full_change old_state st oi0 =
     (if (old_state = NSM_Full) = (st = NSM_Full) then oi0
      else
        let vl = i_type oi0 = OSPF_IFTYPE_VIRTUALLINK;
            oi = (if st = NSM_Full then
                let oi = oi0\<lparr>full_nbrs := full_nbrs oi0 + 1, area_full_nbrs := area_full_nbrs oi0 + 1\<rparr>;
                    oi = log_call Check_abr_status oi;
                    oi = (case vl_full_vls oi of
                            Some v \<Rightarrow> if vl then
                                let oi = oi\<lparr>vl_full_vls := Some (v + 1)\<rparr>
                                in if v + 1 = 1 then log_call Schedule_abr_task oi else oi
                              else oi
                          | None \<Rightarrow> oi)
                in log_call External_lsa_refresh oi
              else
                let oi = oi0\<lparr>full_nbrs := full_nbrs oi0 - 1, area_full_nbrs := area_full_nbrs oi0 - 1\<rparr>;
                    oi = log_call Check_abr_status oi
                in case vl_full_vls oi of
                     Some v \<Rightarrow> if vl \<and> v > 0 then
                         let oi = oi\<lparr>vl_full_vls := Some (v - 1)\<rparr>
                         in if v - 1 = 0 then log_call Schedule_abr_task oi else oi
                       else oi
                   | None \<Rightarrow> oi);
            oi = log_call Router_lsa_update_area oi;
            oi = (if vl \<and> vl_full_vls oi \<noteq> None then log_call Router_lsa_update_vl_area oi else oi)
        in if i_state oi = ISM_DR then
             if network_lsa_self oi \<and> full_nbrs oi = 0
             then (log_call Flush_network_lsa oi)\<lparr>network_lsa_self := False\<rparr>
             else log_call Network_lsa_update oi
           else oi)"

text \<open>Sending the first description packet keeps a copy for retransmission.\<close>

definition nsm_start_exchange :: "nat \<Rightarrow> ospf_interface \<Rightarrow> ospf_interface" where
  "nsm_start_exchange n oi =
     upd_nbr n (\<lambda>x. x\<lparr>last_send := True\<rparr>) (log_call (Db_desc_send n)
       (upd_nbr n (\<lambda>x. x\<lparr>dd_seqnum := if dd_seqnum x = 0 then clock oi else dd_seqnum x + 1, dd_flags := 7\<rparr>) oi))"

definition nsm_change_state :: "nat \<Rightarrow> nsm_state \<Rightarrow> ospf_interface \<Rightarrow> ospf_interface res" where
  "nsm_change_state n st oi =
     bindR (use_nbr n oi) (\<lambda>oi.
      let old_state = n_state (nbr oi n);
          oi = upd_nbr n (\<lambda>x. x\<lparr>n_state := st, n_state_change := n_state_change x + 1\<rparr>) oi
      in bindR (if i_state oi \<in> {ISM_DROther, ISM_Backup, ISM_DR} \<and>
                   (old_state < NSM_TwoWay \<and> st \<ge> NSM_TwoWay \<or> old_state \<ge> NSM_TwoWay \<and> st < NSM_TwoWay)
                then ism_step Inr ISM_NeighborChange oi else Inr oi) (\<lambda>oi.
         bindR (use_nbr n oi) (\<lambda>oi.
         let oi = log_call (Opaque_nsm_change n old_state) (nsm_full_change old_state st oi);
             oi = (if old_state > NSM_ExStart \<and> st \<le> NSM_ExStart then nsm_clear_adj n oi else oi);
             oi = (if st = NSM_ExStart then nsm_start_exchange n oi else oi)
         in Inr (if st = NSM_Down then upd_nbr n (\<lambda>x. x\<lparr>n_crypt_seqnum := 0\<rparr>) oi else oi))))"

definition ospf_nsm_event :: "nat \<Rightarrow> nsm_event \<Rightarrow> ospf_interface \<Rightarrow> ospf_interface res" where
  "ospf_nsm_event n ev oi =
     bindR (use_nbr n oi) (\<lambda>oi.
     let (func, nx) = NSM (n_state (nbr oi n)) ev in
     bindR (case func of
              None \<Rightarrow> Inr (nx, oi)
            | Some f \<Rightarrow> bindR (nsm_call f n oi) (\<lambda>(st, oi). Inr (if nx = NSM_DependUpon then st else nx, oi))) (\<lambda>(nx, oi).
     if nx = NSM_DependUpon then Inl Assert_failed
     else
       bindR (use_nbr n oi) (\<lambda>oi.
       bindR (if nx \<noteq> n_state (nbr oi n) then nsm_change_state n nx oi else Inr oi) (\<lambda>oi.
       bindR (nsm_timer_set n oi) (\<lambda>oi.
       if n_state (nbr oi n) = NSM_Deleted then ospf_nbr_delete n oi else Inr oi)))))"

definition ospf_check_nbr_loading :: "nat \<Rightarrow> bool \<Rightarrow> ospf_interface \<Rightarrow> ospf_interface res" where
  "ospf_check_nbr_loading n ls_req_last oi =
     bindR (use_nbr n oi) (\<lambda>oi. Inr (
       if n_state (nbr oi n) = NSM_Loading then
         if ls_req (nbr oi n) = [] then log_call (Nsm_schedule n NSM_LoadingDone) oi
         else if \<not> ls_req_last then log_call (Ls_req_event n) oi else oi
       else oi))"

section \<open>Interfaces that go down\<close>

text \<open>
  The static neighbors are detached; then the table is visited: killing a neighbor only removes
  entries, so that the keys are those of the table at the start.
\<close>

fun kill_loop :: "in_addr list \<Rightarrow> ospf_interface \<Rightarrow> ospf_interface res" where
  "kill_loop [] oi = Inr oi"
| "kill_loop (k # ks) oi =
     bindR (case map_of (nbrs oi) k of
              Some n \<Rightarrow> if n \<noteq> nbr_self oi then ospf_nsm_event n NSM_KillNbr oi else Inr oi
            | None \<Rightarrow> Inr oi) (kill_loop ks)"

definition detach_nbma :: "ospf_interface \<Rightarrow> ospf_interface" where
  "detach_nbma oi =
     (fold (\<lambda>(p, a). log_call (Poll_timer_off p)) (nbma_list oi) oi)
       \<lparr>nbr := \<lambda>n. if nbr_nbma (nbr oi n) \<in> Some ` fst ` set (nbma_list oi) then (nbr oi n)\<lparr>nbr_nbma := None\<rparr> else nbr oi n,
        nbma_list := []\<rparr>"

definition ospf_if_cleanup :: "ospf_interface \<Rightarrow> ospf_interface res" where
  "ospf_if_cleanup oi =
     bindR (kill_loop (map fst (nbrs oi)) (detach_nbma oi)) (\<lambda>oi.
     ospf_nbr_self_reset (log_call Ls_upd_queue_empty ((log_call Ls_ack_cleanup oi)\<lparr>i_crypt_seqnum := 0\<rparr>)))"

definition ospf_ism_event :: "ism_event \<Rightarrow> ospf_interface \<Rightarrow> ospf_interface res" where
  "ospf_ism_event ev oi = ism_step ospf_if_cleanup ev oi"

section \<open>The table\<close>

lemma tab_insert_set: "set (tab_insert k n t) = insert (k, n) (set t)"
  by (induction k n t rule: tab_insert.induct) auto

lemma tab_insert_keys:
  "sorted_wrt (<) (map fst t) \<Longrightarrow> k \<notin> fst ` set t \<Longrightarrow> sorted_wrt (<) (map fst (tab_insert k n t))"
proof (induction t)
  case (Cons e t)
  obtain j m where e: "e = (j, m)" by (cases e)
  have "k \<noteq> j" using Cons.prems(2) e by auto
  with Cons e show ?case by (auto simp: tab_insert_set)
qed simp

lemma tab_insert_length: "length (filter P (map snd (tab_insert k n t))) = (if P n then 1 else 0) + length (filter P (map snd t))"
  by (induction t) auto

lemma tab_insert_distinct: "distinct (map snd t) \<Longrightarrow> n \<notin> snd ` set t \<Longrightarrow> distinct (map snd (tab_insert k n t))"
  by (induction t) (auto simp: tab_insert_set)

lemma tab_delete_set: "set (tab_delete k t) = {e \<in> set t. fst e \<noteq> k}"
  by (auto simp: tab_delete_def)

lemma tab_delete_keys: "sorted_wrt (<) (map fst t) \<Longrightarrow> sorted_wrt (<) (map fst (tab_delete k t))"
  by (induction t) (auto simp: tab_delete_def)

lemma tab_delete_distinct: "distinct (map snd t) \<Longrightarrow> distinct (map snd (tab_delete k t))"
  by (induction t) (auto simp: tab_delete_def)

lemma tab_keys_distinct: "sorted_wrt (<) (map fst (t :: (in_addr \<times> nat) list)) \<Longrightarrow> distinct (map fst t)"
  by (simp add: strict_sorted_iff)

lemma tab_lookup: "sorted_wrt (<) (map fst t) \<Longrightarrow> map_of t k = Some n \<longleftrightarrow> (k, n) \<in> set (t :: (in_addr \<times> nat) list)"
  using tab_keys_distinct map_of_eq_Some_iff by metis

lemma tab_delete_length:
  assumes "sorted_wrt (<) (map fst t)" "(k, n) \<in> set (t :: (in_addr \<times> nat) list)"
  shows "length (filter P (map snd t)) = (if P n then 1 else 0) + length (filter P (map snd (tab_delete k t)))"
proof -
  obtain xs ys where t: "t = xs @ (k, n) # ys" using assms(2) by (meson split_list)
  have "k \<notin> fst ` set (xs @ ys)" using tab_keys_distinct[OF assms(1)] by (auto simp: t)
  then have "tab_delete k xs = xs" "tab_delete k ys = ys" by (auto simp: tab_delete_def filter_id_conv image_iff)
  then have "tab_delete k t = xs @ ys" by (simp add: t tab_delete_def)
  then show ?thesis by (simp add: t)
qed

section \<open>What the invariants are about\<close>

definition nview :: "ospf_neighbor \<Rightarrow> in_addr \<times> in_addr \<times> in_addr" where
  "nview n = (src n, router_id n, n_address n)"

text \<open>The table with the addresses of the neighbors, and the parts that the election and the states use.\<close>

definition tview :: "ospf_interface \<Rightarrow> _" where
  "tview oi = (i_type oi, i_address oi, nbrs oi, n_live oi, n_brk oi, nbr_self oi, my_router_id oi,
     (\<lambda>n. nview (nbr oi n)), n_state (nbr oi (nbr_self oi)))"

definition sview :: "ospf_interface \<Rightarrow> _" where
  "sview oi = (i_state oi, DR oi, BDR oi, full_nbrs oi, t_hello oi, t_wait oi, t_ls_ack oi, (\<lambda>n. n_state (nbr oi n)))"

lemma tviewD:
  assumes "tview oi' = tview oi"
  shows "i_type oi' = i_type oi" "i_address oi' = i_address oi" "nbrs oi' = nbrs oi" "n_live oi' = n_live oi" "n_brk oi' = n_brk oi"
    "nbr_self oi' = nbr_self oi" "my_router_id oi' = my_router_id oi" "src (nbr oi' n) = src (nbr oi n)"
    "router_id (nbr oi' n) = router_id (nbr oi n)" "n_address (nbr oi' n) = n_address (nbr oi n)"
    "n_state (nbr oi' (nbr_self oi)) = n_state (nbr oi (nbr_self oi))" "ospf_nbr_key oi' (nbr oi' n) = ospf_nbr_key oi (nbr oi n)"
  using assms by (auto simp: tview_def nview_def ospf_nbr_key_def fun_eq_iff)

lemma sviewD:
  assumes "sview oi' = sview oi"
  shows "i_state oi' = i_state oi" "DR oi' = DR oi" "BDR oi' = BDR oi" "full_nbrs oi' = full_nbrs oi" "t_hello oi' = t_hello oi"
    "t_wait oi' = t_wait oi" "t_ls_ack oi' = t_ls_ack oi" "n_state (nbr oi' n) = n_state (nbr oi n)"
  using assms by (auto simp: sview_def fun_eq_iff)

text \<open>
  The table: sorted by its keys, one entry for each allocated neighbor, under the key of the
  neighbor, and the router itself among them.
\<close>

definition table_ok :: "ospf_interface \<Rightarrow> bool" where
  "table_ok oi \<longleftrightarrow>
     sorted_wrt (<) (map fst (nbrs oi)) \<and> distinct (map snd (nbrs oi)) \<and>
     (\<forall>n. n_live oi n \<longleftrightarrow> n \<in> snd ` set (nbrs oi)) \<and> (\<forall>n. n_live oi n \<longrightarrow> n < n_brk oi) \<and>
     (\<forall>(k, n)\<in>set (nbrs oi). k = ospf_nbr_key oi (nbr oi n) \<and> n_address (nbr oi n) = src (nbr oi n) \<and> src (nbr oi n) \<noteq> 0) \<and>
     nbr_self oi \<in> snd ` set (nbrs oi) \<and> n_address (nbr oi (nbr_self oi)) = i_address oi \<and>
     router_id (nbr oi (nbr_self oi)) = my_router_id oi \<and> n_state (nbr oi (nbr_self oi)) = NSM_TwoWay"

lemma table_ok_view: "tview oi' = tview oi \<Longrightarrow> table_ok oi' \<longleftrightarrow> table_ok oi"
  using tviewD[of oi' oi] by (simp add: table_ok_def)

lemma table_okD:
  assumes "table_ok oi"
  shows "sorted_wrt (<) (map fst (nbrs oi))" "distinct (map snd (nbrs oi))" "n_live oi n \<longleftrightarrow> n \<in> snd ` set (nbrs oi)"
    "n_live oi n \<Longrightarrow> n < n_brk oi" "(k, n) \<in> set (nbrs oi) \<Longrightarrow> k = ospf_nbr_key oi (nbr oi n)"
    "(k, n) \<in> set (nbrs oi) \<Longrightarrow> n_address (nbr oi n) = src (nbr oi n)" "(k, n) \<in> set (nbrs oi) \<Longrightarrow> src (nbr oi n) \<noteq> 0"
    "nbr_self oi \<in> snd ` set (nbrs oi)" "n_address (nbr oi (nbr_self oi)) = i_address oi"
    "router_id (nbr oi (nbr_self oi)) = my_router_id oi" "n_state (nbr oi (nbr_self oi)) = NSM_TwoWay"
  using assms unfolding table_ok_def by auto

lemma table_entry:
  assumes "table_ok oi" "n_live oi n"
  shows "(ospf_nbr_key oi (nbr oi n), n) \<in> set (nbrs oi)" "map_of (nbrs oi) (ospf_nbr_key oi (nbr oi n)) = Some n"
proof -
  obtain k where "(k, n) \<in> set (nbrs oi)" using table_okD(3)[OF assms(1), of n] assms(2) by auto
  then show "(ospf_nbr_key oi (nbr oi n), n) \<in> set (nbrs oi)" using table_okD(5)[OF assms(1)] by metis
  then show "map_of (nbrs oi) (ospf_nbr_key oi (nbr oi n)) = Some n" using tab_lookup[OF table_okD(1)[OF assms(1)]] by simp
qed

lemma table_live:
  assumes "table_ok oi"
  shows "n_live oi (nbr_self oi)" "use_table oi = Inr oi"
  using table_okD(3,8)[OF assms] by (auto simp: use_table_def list_all_iff)

text \<open>On the networks that elect a designated router, the neighbors have different addresses.\<close>

definition elects :: "ospf_interface \<Rightarrow> bool" where
  "elects oi \<longleftrightarrow> i_type oi \<notin> {OSPF_IFTYPE_POINTOPOINT, OSPF_IFTYPE_POINTOMULTIPOINT, OSPF_IFTYPE_VIRTUALLINK}"

lemma table_elect_ok:
  assumes t: "table_ok oi" and e: "elects oi"
  shows "elect_ok oi"
proof -
  have key: "ospf_nbr_key oi (nbr oi n) = n_address (nbr oi n)" if "n \<in> snd ` set (nbrs oi)" for n
    using that e table_okD(6)[OF t] by (auto simp: elects_def ospf_nbr_key_def)
  have inj: "n = m" if "n \<in> snd ` set (nbrs oi)" "m \<in> snd ` set (nbrs oi)" "n_address (nbr oi n) = n_address (nbr oi m)" for n m
  proof -
    have "map_of (nbrs oi) (n_address (nbr oi x)) = Some x" if "x \<in> snd ` set (nbrs oi)" for x
      using table_entry(2)[OF t, of x] table_okD(3)[OF t, of x] that key[OF that] by simp
    from this[of n] this[of m] that show ?thesis by (metis option.inject)
  qed
  have el: "set (ospf_dr_eligible_routers oi) \<subseteq> snd ` set (nbrs oi)" by (auto simp: ospf_dr_eligible_routers_def)
  have nz: "n_address (nbr oi n) \<noteq> 0" if n: "n \<in> snd ` set (nbrs oi)" for n
  proof -
    obtain k where "(k, n) \<in> set (nbrs oi)" using n by auto
    with table_okD(6,7)[OF t] show ?thesis by metis
  qed
  moreover have "i_address oi \<noteq> 0" using nz[OF table_okD(8)[OF t]] table_okD(9)[OF t] by simp
  ultimately show ?thesis using el table_okD(8,9)[OF t] unfolding elect_ok_def by (auto intro!: inj_onI inj)
qed

section \<open>Steps that keep the table and the states\<close>

definition quiet :: "ospf_interface \<Rightarrow> ospf_interface \<Rightarrow> bool" where
  "quiet oi oi' \<longleftrightarrow> tview oi' = tview oi \<and> sview oi' = sview oi"

lemma quiet_refl: "quiet oi oi"
  by (simp add: quiet_def)

lemma quiet_trans: "quiet a b \<Longrightarrow> quiet b c \<Longrightarrow> quiet a c"
  by (simp add: quiet_def)

lemma upd_nbr_sel [simp]:
  "i_type (upd_nbr n f oi) = i_type oi" "i_state (upd_nbr n f oi) = i_state oi" "i_address (upd_nbr n f oi) = i_address oi"
  "nbrs (upd_nbr n f oi) = nbrs oi" "n_live (upd_nbr n f oi) = n_live oi" "n_brk (upd_nbr n f oi) = n_brk oi"
  "nbr_self (upd_nbr n f oi) = nbr_self oi" "my_router_id (upd_nbr n f oi) = my_router_id oi" "full_nbrs (upd_nbr n f oi) = full_nbrs oi"
  "nbr (upd_nbr n f oi) = (nbr oi)(n := f (nbr oi n))" "t_hello (upd_nbr n f oi) = t_hello oi" "t_wait (upd_nbr n f oi) = t_wait oi"
  "t_ls_ack (upd_nbr n f oi) = t_ls_ack oi" "if_priority (upd_nbr n f oi) = if_priority oi"
  by (simp_all add: upd_nbr_def)

lemma quiet_log: "quiet oi (log_call c oi)"
  by (simp add: quiet_def tview_def sview_def DR_def BDR_def)

lemma quiet_upd:
  assumes "\<And>x. nview (f x) = nview x" "\<And>x. n_state (f x) = n_state x" "\<And>x. d_router (f x) = d_router x" "\<And>x. bd_router (f x) = bd_router x"
  shows "quiet oi (upd_nbr n f oi)"
  using assms by (auto simp: quiet_def tview_def sview_def DR_def BDR_def fun_eq_iff)

lemma quiet_log_trans: "quiet oi oi' \<Longrightarrow> quiet oi (log_call c oi')"
  by (rule quiet_trans[OF _ quiet_log])

lemma quiet_upd_trans:
  "quiet oi oi' \<Longrightarrow> (\<And>x. nview (f x) = nview x \<and> n_state (f x) = n_state x \<and> d_router (f x) = d_router x \<and> bd_router (f x) = bd_router x) \<Longrightarrow>
   quiet oi (upd_nbr n f oi')"
  by (rule quiet_trans[OF _ quiet_upd]) blast+

lemma quiet_fold: "(\<And>x oi. quiet oi (f x oi)) \<Longrightarrow> quiet oi (fold f xs oi)"
  by (induction xs arbitrary: oi) (auto intro: quiet_refl quiet_trans)

lemmas quiet_intros = quiet_refl quiet_log_trans quiet_upd_trans

lemma quiet_summary: "quiet oi (ospf_db_summary_add n lsa oi)"
  by (auto simp: ospf_db_summary_add_def nview_def intro: quiet_intros)

lemma quiet_negotiation: "quiet oi (nsm_negotiation_done n oi)"
proof -
  have loop: "quiet a b \<Longrightarrow> quiet a (fold (ospf_db_summary_add n) db b)" for a b db
    by (rule quiet_trans[OF _ quiet_fold[OF quiet_summary]])
  show ?thesis unfolding nsm_negotiation_done_def Let_def
    by (auto intro!: quiet_log_trans loop quiet_refl)
qed

lemma nsm_call_eq_Inr: "nsm_call f n oi = Inr r \<longleftrightarrow> n_live oi n \<and> nsm_apply f n oi = Inr r"
  by (auto simp: nsm_call_def bindR_eq_Inr)

lemma quiet_apply:
  assumes "nsm_apply f n oi = Inr (st, oi')"
  shows "quiet oi oi'"
  using assms
proof (cases f)
  case Nsm_kill_nbr
  have nbma: "quiet oi (oi\<lparr>nbma_change := c\<rparr>)" for c by (simp add: quiet_def tview_def sview_def DR_def BDR_def)
  from Nsm_kill_nbr assms show ?thesis
    by (auto simp: nsm_kill_nbr_def nview_def bindR_eq_Inr intro!: quiet_log_trans quiet_upd_trans nbma quiet_refl split: option.splits if_splits)
qed (auto simp: nsm_packet_received_def nsm_start_def nsm_exchange_done_def nview_def Let_def bindR_eq_Inr
    dest!: use_self_eq_Inr intro!: quiet_intros quiet_negotiation split: option.splits if_splits)

lemma quiet_call: "nsm_call f n oi = Inr (st, oi') \<Longrightarrow> quiet oi oi'"
  using quiet_apply by (auto simp: nsm_call_eq_Inr)

lemma call_returns:
  assumes "n_live oi n" "n_live oi (nbr_self oi)" "n \<noteq> nbr_self oi"
  shows "\<exists>st oi'. nsm_call f n oi = Inr (st, oi')"
  using assms by (cases f) (auto simp: nsm_call_def nsm_kill_nbr_def split: option.split)

lemma quiet_clear_adj: "quiet oi (nsm_clear_adj n oi)"
  unfolding nsm_clear_adj_def by (intro quiet_intros) (simp add: nview_def)

lemma quiet_start_exchange: "quiet oi (nsm_start_exchange n oi)"
  unfolding nsm_start_exchange_def by (intro quiet_intros) (simp_all add: nview_def)

lemma quiet_timer: "quiet oi (upd_nbr n nsm_timers oi)"
  by (intro quiet_intros) (auto simp: nview_def nsm_timers_def split: nsm_state.split)

text \<open>Counting fully adjacent neighbors.\<close>

definition full_delta :: "nsm_state \<Rightarrow> nsm_state \<Rightarrow> u32" where
  "full_delta old st = (if st = NSM_Full then 1 else 0) - (if old = NSM_Full then 1 else 0)"

lemma full_change_quiet: "quiet (oi\<lparr>full_nbrs := full_nbrs oi + full_delta old st\<rparr>) (nsm_full_change old st oi)"
proof (cases "(old = NSM_Full) = (st = NSM_Full)")
  case True
  then have "full_delta old st = 0" by (auto simp: full_delta_def)
  with True show ?thesis by (simp add: nsm_full_change_def quiet_refl)
next
  case False
  have views: "tview (nsm_full_change old st oi) = tview oi" "sview (nsm_full_change old st oi) = sview (oi\<lparr>full_nbrs := full_nbrs oi + full_delta old st\<rparr>)"
    using False by (cases "st = NSM_Full"; cases "vl_full_vls oi";
        auto simp: nsm_full_change_def Let_def tview_def sview_def DR_def BDR_def full_delta_def log_call_def)+
  moreover have "tview (oi\<lparr>full_nbrs := c\<rparr>) = tview oi" for c by (simp add: tview_def)
  ultimately show ?thesis by (simp add: quiet_def)
qed

end
