(* ===== verification/Ospf_Inv.thy ===== *)
theory Ospf_Inv
  imports Ospf_Nsm
begin

text \<open>
  The invariant of an interface with its neighbors, and that the events of the two state machines
  (Ospf\_Ism, Ospf\_Nsm) return and keep it: the changes of the state of a neighbor with the
  interface event they run, the deletion of a neighbor, the cleanup of an interface that goes
  down, and the events of the interface.
\<close>

section \<open>The invariant\<close>

definition full_count :: "ospf_interface \<Rightarrow> nat" where
  "full_count oi = length (filter (\<lambda>n. n_state (nbr oi n) = NSM_Full) (map snd (nbrs oi)))"

text \<open>
  The role of the router agrees with the state of its interface, and only networks that elect a
  designated router are in a state with an election.
\<close>

definition roles_ok :: "ospf_interface \<Rightarrow> bool" where
  "roles_ok oi \<longleftrightarrow> settled oi \<and> i_state oi \<noteq> ISM_DependUpon \<and>
     (i_state oi = ISM_Waiting \<or> i_state oi \<ge> ISM_DROther \<longrightarrow> elects oi) \<and>
     (i_type oi = OSPF_IFTYPE_LOOPBACK \<longrightarrow> i_state oi \<le> ISM_Loopback)"

definition itimers_ok :: "ospf_interface \<Rightarrow> bool" where
  "itimers_ok oi \<longleftrightarrow> (t_hello oi \<longleftrightarrow> i_state oi \<ge> ISM_Waiting) \<and> (t_wait oi \<longrightarrow> i_state oi = ISM_Waiting) \<and>
     (t_ls_ack oi \<longrightarrow> i_state oi \<ge> ISM_PointToPoint)"

definition states_ok :: "ospf_interface \<Rightarrow> bool" where
  "states_ok oi \<longleftrightarrow> (\<forall>n. n_live oi n \<longrightarrow> n_state (nbr oi n) \<noteq> NSM_DependUpon \<and> n_state (nbr oi n) \<noteq> NSM_Deleted)"

definition ospf_inv :: "ospf_interface \<Rightarrow> bool" where
  "ospf_inv oi \<longleftrightarrow> table_ok oi \<and> roles_ok oi \<and> itimers_ok oi \<and> states_ok oi \<and> full_nbrs oi = of_nat (full_count oi)"

lemma ospf_invD:
  assumes "ospf_inv oi"
  shows "table_ok oi" "roles_ok oi" "itimers_ok oi" "states_ok oi" "full_nbrs oi = of_nat (full_count oi)"
  using assms by (simp_all add: ospf_inv_def)

lemma roles_ok_view:
  assumes "i_state oi' = i_state oi" "DR oi' = DR oi" "BDR oi' = BDR oi" "i_address oi' = i_address oi" "i_type oi' = i_type oi"
  shows "roles_ok oi' \<longleftrightarrow> roles_ok oi"
  using assms by (simp add: roles_ok_def settled_def ospf_ism_state_def elects_def)

lemma itimers_ok_view: "sview oi' = sview oi \<Longrightarrow> itimers_ok oi' \<longleftrightarrow> itimers_ok oi"
  using sviewD[of oi' oi] by (simp add: itimers_ok_def)

lemma quiet_inv:
  assumes "quiet oi oi'"
  shows "ospf_inv oi' \<longleftrightarrow> ospf_inv oi" "full_count oi' = full_count oi" "roles_ok oi' \<longleftrightarrow> roles_ok oi"
    "itimers_ok oi' \<longleftrightarrow> itimers_ok oi" "table_ok oi' \<longleftrightarrow> table_ok oi"
proof -
  have t: "tview oi' = tview oi" and s: "sview oi' = sview oi" using assms by (auto simp: quiet_def)
  note td = tviewD[OF t] and sd = sviewD[OF s]
  show c: "full_count oi' = full_count oi" by (simp add: full_count_def td sd)
  show r: "roles_ok oi' \<longleftrightarrow> roles_ok oi" by (rule roles_ok_view) (simp_all add: td sd)
  show i: "itimers_ok oi' \<longleftrightarrow> itimers_ok oi" by (rule itimers_ok_view[OF s])
  show b: "table_ok oi' \<longleftrightarrow> table_ok oi" by (rule table_ok_view[OF t])
  show "ospf_inv oi' \<longleftrightarrow> ospf_inv oi" by (simp add: ospf_inv_def b r i c states_ok_def td sd)
qed

section \<open>The interface machine\<close>

lemma change_state_view:
  "tview (ism_change_state st oi) = tview oi" "sview (ism_change_state st oi) = sview (oi\<lparr>i_state := st\<rparr>)"
  by (simp_all add: ism_change_state_def Let_def tview_def sview_def DR_def BDR_def log_call_def)

lemma timer_set_view:
  "tview (ism_timer_set oi) = tview oi" "i_state (ism_timer_set oi) = i_state oi" "DR (ism_timer_set oi) = DR oi"
  "BDR (ism_timer_set oi) = BDR oi" "full_nbrs (ism_timer_set oi) = full_nbrs oi" "nbr (ism_timer_set oi) = nbr oi"
  by (cases "i_state oi"; simp add: ism_timer_set_def tview_def DR_def BDR_def)+

lemma timer_set_ok: "i_state oi \<noteq> ISM_DependUpon \<Longrightarrow> itimers_ok (ism_timer_set oi)"
  by (cases "i_state oi") (simp_all add: ism_timer_set_def itimers_ok_def state_order)

text \<open>The end of an event: the next state is entered and the timers are set.\<close>

definition enter :: "ism_state \<Rightarrow> ospf_interface \<Rightarrow> ospf_interface" where
  "enter st oi = ism_timer_set (if st \<noteq> i_state oi then ism_change_state st oi else oi)"

lemma enter_view:
  "tview (enter st oi) = tview oi" "i_state (enter st oi) = st" "DR (enter st oi) = DR oi" "BDR (enter st oi) = BDR oi"
  "full_nbrs (enter st oi) = full_nbrs oi" "n_state (nbr (enter st oi) n) = n_state (nbr oi n)"
  "st \<noteq> ISM_DependUpon \<Longrightarrow> itimers_ok (enter st oi)"
proof -
  let ?o = "if st \<noteq> i_state oi then ism_change_state st oi else oi"
  have s: "tview ?o = tview oi" "i_state ?o = st" "DR ?o = DR oi" "BDR ?o = BDR oi" "full_nbrs ?o = full_nbrs oi"
    "n_state (nbr ?o n) = n_state (nbr oi n)" for n
    using change_state_view[of st oi] sviewD[OF change_state_view(2)[of st oi]] by auto
  then show "tview (enter st oi) = tview oi" "i_state (enter st oi) = st" "DR (enter st oi) = DR oi" "BDR (enter st oi) = BDR oi"
    "full_nbrs (enter st oi) = full_nbrs oi" "n_state (nbr (enter st oi) n) = n_state (nbr oi n)"
    by (simp_all add: enter_def timer_set_view)
  show "st \<noteq> ISM_DependUpon \<Longrightarrow> itimers_ok (enter st oi)" using s(2) timer_set_ok unfolding enter_def by metis
qed

lemma ism_step_enter:
  "ism_call down (fst (ISM (i_state oi) ev)) oi = Inr (st, oi') \<Longrightarrow>
   ism_step down ev oi = Inr (enter (if st = ISM_DependUpon then snd (ISM (i_state oi') ev) else st) oi')"
  by (simp add: ism_step_def enter_def Let_def)

lemma enter_full_count: "full_count (enter st oi) = full_count oi"
  using tviewD(3)[OF enter_view(1)[of st oi]] by (simp add: full_count_def enter_view)

lemma enter_roles:
  assumes "st \<noteq> ISM_DependUpon" "st \<ge> ISM_DROther \<Longrightarrow> ospf_ism_state oi = st" "st < ISM_DROther \<Longrightarrow> ospf_ism_state oi = ISM_DROther"
    "st = ISM_Waiting \<or> st \<ge> ISM_DROther \<Longrightarrow> elects oi" "i_type oi = OSPF_IFTYPE_LOOPBACK \<Longrightarrow> st \<le> ISM_Loopback"
  shows "roles_ok (enter st oi)"
proof -
  note t = tviewD[OF enter_view(1)[of st oi]]
  have "ospf_ism_state (enter st oi) = ospf_ism_state oi" by (simp add: ospf_ism_state_def enter_view t)
  with assms show ?thesis by (auto simp: roles_ok_def settled_def enter_view elects_def t)
qed

lemma election_view:
  assumes "table_ok oi" "elects oi" "settled oi" "ospf_dr_election oi = (st, oi')"
  shows "tview oi' = tview oi" "i_state oi' = i_state oi" "full_nbrs oi' = full_nbrs oi" "n_state (nbr oi' n) = n_state (nbr oi n)"
    "st = ospf_ism_state oi'" "st \<ge> ISM_DROther"
proof -
  note ok = table_elect_ok[OF assms(1,2)]
  note e = election_rounds[OF ok assms(3,4)]
  define d b where "d = DR oi'" and "b = BDR oi'"
  obtain c where o': "oi' = (set_result d b oi)\<lparr>calls := c\<rparr>" using e(6)[folded d_def b_def] by blast
  then show "tview oi' = tview oi" "i_state oi' = i_state oi" "full_nbrs oi' = full_nbrs oi" "n_state (nbr oi' n) = n_state (nbr oi n)"
    by (auto simp: tview_def nview_def set_result_def fun_eq_iff)
  have "elect_ok oi'" using ok o' by simp
  then show "st = ospf_ism_state oi'" using ism_state_flags e(3) by simp
  show "st \<ge> ISM_DROther" using e(3) by (cases "own_flags oi'") (auto simp: state_order)
qed

text \<open>An event that runs the election.\<close>

lemma election_event:
  assumes t: "table_ok oi" "elects oi" "settled oi" "i_type oi \<noteq> OSPF_IFTYPE_LOOPBACK"
    and call: "ism_call down (fst (ISM (i_state oi) ev)) oi = Inr (ospf_dr_election oi)"
  obtains oi' where "ism_step down ev oi = Inr oi'" "tview oi' = tview oi" "roles_ok oi'" "itimers_ok oi'"
    "full_nbrs oi' = full_nbrs oi" "\<And>n. n_state (nbr oi' n) = n_state (nbr oi n)"
proof -
  obtain st o1 where e: "ospf_dr_election oi = (st, o1)" by (cases "ospf_dr_election oi")
  note v = election_view[OF t(1-3) e] and td = tviewD[OF election_view(1)[OF t(1-3) e]]
  have st: "st \<noteq> ISM_DependUpon" "\<not> st < ISM_DROther" using v(6) by (auto simp: state_order)
  have "elects o1" using t(2) td(1) by (simp add: elects_def)
  then have r: "roles_ok (enter st o1)" using st v(5,6) t(4) td(1) by (intro enter_roles) auto
  show thesis
  proof (rule that[of "enter st o1"])
    show "ism_step down ev oi = Inr (enter st o1)" using ism_step_enter[OF call[unfolded e]] st(1) by simp
  qed (use v enter_view st(1) r in simp_all)
qed

section \<open>A neighbor that changes its state\<close>

definition moved :: "nat \<Rightarrow> nsm_state \<Rightarrow> ospf_interface \<Rightarrow> ospf_interface \<Rightarrow> bool" where
  "moved n st oi oi' \<longleftrightarrow> tview oi' = tview oi \<and> roles_ok oi' \<and> itimers_ok oi' \<and>
     (\<forall>m. n_state (nbr oi' m) = (if m = n then st else n_state (nbr oi m))) \<and>
     full_nbrs oi' = full_nbrs oi + full_delta (n_state (nbr oi n)) st"

lemma moved_quiet: "moved n st oi a \<Longrightarrow> quiet a b \<Longrightarrow> moved n st oi b"
  using quiet_inv[of a b] sviewD[of b a] by (simp add: moved_def quiet_def)

lemma full_delta_same [simp]: "full_delta st st = 0"
  by (simp add: full_delta_def)

lemma enter_state_view:
  fixes st :: nsm_state
  assumes "ospf_inv oi" "n \<noteq> nbr_self oi"
  defines "o1 \<equiv> upd_nbr n (\<lambda>x. x\<lparr>n_state := st, n_state_change := n_state_change x + 1\<rparr>) oi"
  shows "tview o1 = tview oi" "roles_ok o1" "itimers_ok o1" "\<forall>m. n_state (nbr o1 m) = (if m = n then st else n_state (nbr oi m))"
    "full_nbrs o1 = full_nbrs oi"
proof -
  show t: "tview o1 = tview oi" using assms(2) by (auto simp: o1_def tview_def nview_def fun_eq_iff)
  have "DR o1 = DR oi" "BDR o1 = BDR oi" using assms(2) by (simp_all add: o1_def DR_def BDR_def)
  then show "roles_ok o1" using ospf_invD(2)[OF assms(1)] roles_ok_view[of o1 oi] by (simp add: o1_def)
  show "itimers_ok o1" using ospf_invD(3)[OF assms(1)] by (simp add: o1_def itimers_ok_def)
qed (simp_all add: o1_def)

text \<open>The interface event that a change of the state runs.\<close>

lemma neighbor_change_event:
  assumes "table_ok oi" "roles_ok oi" "i_state oi \<in> {ISM_DROther, ISM_Backup, ISM_DR}"
  obtains oi' where "ism_step Inr ISM_NeighborChange oi = Inr oi'" "tview oi' = tview oi" "roles_ok oi'" "itimers_ok oi'"
    "full_nbrs oi' = full_nbrs oi" "\<And>n. n_state (nbr oi' n) = n_state (nbr oi n)"
proof (rule election_event[of oi Inr ISM_NeighborChange])
  show "elects oi" "settled oi" "i_type oi \<noteq> OSPF_IFTYPE_LOOPBACK" using assms(2,3) by (auto simp: roles_ok_def state_order)
  show "ism_call Inr (fst (ISM (i_state oi) ISM_NeighborChange)) oi = Inr (ospf_dr_election oi)"
    using assms(3) table_live(2)[OF assms(1)] by auto
qed (use assms(1) that in blast)+

lemma change_state_ok:
  assumes inv: "ospf_inv oi" and l: "n_live oi n" and n: "n \<noteq> nbr_self oi"
  shows "\<exists>oi'. nsm_change_state n st oi = Inr oi' \<and> moved n st oi oi'"
proof -
  let ?old = "n_state (nbr oi n)"
  define o1 where "o1 = upd_nbr n (\<lambda>x. x\<lparr>n_state := st, n_state_change := n_state_change x + 1\<rparr>) oi"
  define run where "run \<longleftrightarrow> i_state o1 \<in> {ISM_DROther, ISM_Backup, ISM_DR} \<and>
      (?old < NSM_TwoWay \<and> st \<ge> NSM_TwoWay \<or> ?old \<ge> NSM_TwoWay \<and> st < NSM_TwoWay)"
  note v = enter_state_view[OF inv n, of st, folded o1_def]
  have tab: "table_ok o1" using table_ok_view[OF v(1)] ospf_invD(1)[OF inv] by simp
  obtain o2 where o2: "(if run then ism_step Inr ISM_NeighborChange o1 else Inr o1) = Inr o2" "tview o2 = tview oi"
    "roles_ok o2" "itimers_ok o2" "full_nbrs o2 = full_nbrs oi" "\<forall>m. n_state (nbr o2 m) = (if m = n then st else n_state (nbr oi m))"
  proof (cases run)
    case True
    then have "i_state o1 \<in> {ISM_DROther, ISM_Backup, ISM_DR}" by (simp add: run_def)
    from neighbor_change_event[OF tab v(2) this] that v True show thesis by (metis (full_types))
  qed (use that v in auto)
  have l2: "n_live o2 n" using l tviewD(4)[OF o2(2)] by simp
  define o3 where "o3 = nsm_full_change ?old st o2"
  have "moved n st oi (o2\<lparr>full_nbrs := full_nbrs o2 + full_delta ?old st\<rparr>)"
    using o2(2-6) n roles_ok_view[of "o2\<lparr>full_nbrs := full_nbrs o2 + full_delta ?old st\<rparr>" o2]
    by (simp add: moved_def tview_def itimers_ok_def DR_def BDR_def)
  then have m3: "moved n st oi o3" unfolding o3_def by (rule moved_quiet[OF _ full_change_quiet])
  define o4 where "o4 = log_call (Opaque_nsm_change n ?old) o3"
  define o5 where "o5 = (if ?old > NSM_ExStart \<and> st \<le> NSM_ExStart then nsm_clear_adj n o4 else o4)"
  define o6 where "o6 = (if st = NSM_ExStart then nsm_start_exchange n o5 else o5)"
  have "quiet o3 o4" "quiet o4 o5" "quiet o5 o6"
    by (simp_all add: o4_def o5_def o6_def quiet_log quiet_clear_adj quiet_start_exchange quiet_refl)
  moreover have "quiet o6 (if st = NSM_Down then upd_nbr n (\<lambda>x. x\<lparr>n_crypt_seqnum := 0\<rparr>) o6 else o6)"
    by (auto intro: quiet_upd quiet_refl simp: nview_def)
  ultimately have "moved n st oi (if st = NSM_Down then upd_nbr n (\<lambda>x. x\<lparr>n_crypt_seqnum := 0\<rparr>) o6 else o6)"
    using m3 by (blast intro: moved_quiet)
  moreover have "nsm_change_state n st oi = Inr (if st = NSM_Down then upd_nbr n (\<lambda>x. x\<lparr>n_crypt_seqnum := 0\<rparr>) o6 else o6)"
    unfolding nsm_change_state_def use_nbr_live[OF l] use_nbr_live[OF l2] Let_def o1_def[symmetric] run_def[symmetric] o2(1) bindR_simps
      o3_def[symmetric] o4_def[symmetric] o5_def[symmetric] o6_def[symmetric] by simp
  ultimately show ?thesis by blast
qed

lemma full_count_moved:
  assumes "table_ok oi" "n_live oi n" "moved n st oi oi'"
  shows "of_nat (full_count oi') = (of_nat (full_count oi) + full_delta (n_state (nbr oi n)) st :: u32)"
proof -
  let ?f = "\<lambda>m. n_state (nbr oi m)"
  have "n \<in> set (map snd (nbrs oi))" using table_okD(3)[OF assms(1)] assms(2) by simp
  then obtain xs ys where t: "map snd (nbrs oi) = xs @ n # ys" by (meson split_list)
  have n: "n \<notin> set xs" "n \<notin> set ys" using table_okD(2)[OF assms(1)] unfolding t by auto
  have "filter (\<lambda>m. n_state (nbr oi' m) = NSM_Full) zs = filter (\<lambda>m. ?f m = NSM_Full) zs" if "n \<notin> set zs" for zs
    using that assms(3) by (auto simp: moved_def intro!: filter_cong)
  from this[OF n(1)] this[OF n(2)] show ?thesis
    using assms(3) tviewD(3)[of oi' oi] by (auto simp: full_count_def t moved_def full_delta_def)
qed

section \<open>Events of neighbors\<close>

text \<open>What deleting a neighbor leaves.\<close>

lemma nbr_free_sel:
  "i_type (ospf_nbr_free n oi) = i_type oi" "i_state (ospf_nbr_free n oi) = i_state oi" "i_address (ospf_nbr_free n oi) = i_address oi"
  "nbrs (ospf_nbr_free n oi) = nbrs oi" "n_brk (ospf_nbr_free n oi) = n_brk oi" "nbr_self (ospf_nbr_free n oi) = nbr_self oi"
  "my_router_id (ospf_nbr_free n oi) = my_router_id oi" "full_nbrs (ospf_nbr_free n oi) = full_nbrs oi" "t_hello (ospf_nbr_free n oi) = t_hello oi"
  "t_wait (ospf_nbr_free n oi) = t_wait oi" "t_ls_ack (ospf_nbr_free n oi) = t_ls_ack oi" "n_live (ospf_nbr_free n oi) = (n_live oi)(n := False)"
  "nview (nbr (ospf_nbr_free n oi) m) = nview (nbr oi m)" "n_state (nbr (ospf_nbr_free n oi) m) = n_state (nbr oi m)"
  "d_router (nbr (ospf_nbr_free n oi) m) = d_router (nbr oi m)" "bd_router (nbr (ospf_nbr_free n oi) m) = bd_router (nbr oi m)"
  by (simp_all add: ospf_nbr_free_def Let_def nview_def split: option.split)

lemma nbr_delete_entry:
  assumes "table_ok oi" "n_live oi n"
  shows "nbr_deleted n oi = ospf_nbr_free n (oi\<lparr>nbrs := tab_delete (ospf_nbr_key oi (nbr oi n)) (nbrs oi)\<rparr>)"
  using table_entry(2)[OF assms] by (simp add: nbr_deleted_def Let_def)

lemma key_view: "i_type oi' = i_type oi \<Longrightarrow> nview a = nview b \<Longrightarrow> ospf_nbr_key oi' a = ospf_nbr_key oi b"
  by (simp add: ospf_nbr_key_def nview_def)

lemma table_others:
  assumes t: "table_ok oi" "n_live oi n"
  shows "set (tab_delete (ospf_nbr_key oi (nbr oi n)) (nbrs oi)) = {e \<in> set (nbrs oi). snd e \<noteq> n}"
proof -
  have "fst e = ospf_nbr_key oi (nbr oi n) \<longleftrightarrow> snd e = n" if "e \<in> set (nbrs oi)" for e
    using that table_entry[OF t] table_okD(5)[OF t(1), of "fst e" n] tab_lookup[OF table_okD(1)[OF t(1)], of "fst e" "snd e"]
    by (metis option.inject prod.collapse)
  then show ?thesis by (auto simp: tab_delete_set)
qed

lemma delete_table_ok:
  assumes t: "table_ok oi" and l: "n_live oi n" and n: "n \<noteq> nbr_self oi"
  defines "oi' \<equiv> nbr_deleted n oi"
  shows "table_ok oi'"
proof -
  note d = nbr_delete_entry[OF t l]
  let ?d = "oi\<lparr>nbrs := tab_delete (ospf_nbr_key oi (nbr oi n)) (nbrs oi)\<rparr>"
  note sel = nbr_free_sel[of n ?d, folded d, folded oi'_def, simplified]
  have set: "set (nbrs oi') = {e \<in> set (nbrs oi). snd e \<noteq> n}" unfolding sel by (rule table_others[OF t l])
  have nv: "src (nbr oi' m) = src (nbr oi m)" "router_id (nbr oi' m) = router_id (nbr oi m)" "n_address (nbr oi' m) = n_address (nbr oi m)"
    "ospf_nbr_key oi' (nbr oi' m) = ospf_nbr_key oi (nbr oi m)" for m
    using sel(13)[of m] key_view[OF sel(1) sel(13), of m] by (simp_all add: nview_def)
  have "sorted_wrt (<) (map fst (nbrs oi'))" "distinct (map snd (nbrs oi'))"
    unfolding sel by (rule tab_delete_keys[OF table_okD(1)[OF t]], rule tab_delete_distinct[OF table_okD(2)[OF t]])
  moreover have "n_live oi' m \<longleftrightarrow> m \<in> snd ` set (nbrs oi')" for m
    using table_okD(3)[OF t, of m] unfolding set sel(12) by auto
  moreover have "\<forall>m. n_live oi' m \<longrightarrow> m < n_brk oi'" using table_okD(4)[OF t] by (simp add: sel)
  moreover have "\<forall>(k, m)\<in>set (nbrs oi'). k = ospf_nbr_key oi' (nbr oi' m) \<and> n_address (nbr oi' m) = src (nbr oi' m) \<and> src (nbr oi' m) \<noteq> 0"
    using table_okD(5-7)[OF t] unfolding set by (auto simp: nv)
  moreover have "nbr_self oi' \<in> snd ` set (nbrs oi')" using table_okD(8)[OF t] n unfolding set sel(6) by auto
  ultimately show ?thesis using table_okD(9-11)[OF t] unfolding table_ok_def by (simp add: nv sel)
qed

text \<open>A neighbor that has reached the state \<open>Deleted\<close> leaves the table; the rest of the interface is kept.\<close>

lemma delete_nbr_ok:
  assumes t: "table_ok oi" "roles_ok oi" "itimers_ok oi" and l: "n_live oi n" and n: "n \<noteq> nbr_self oi" "n_state (nbr oi n) = NSM_Deleted"
    and c: "full_nbrs oi = of_nat (full_count oi)" and s: "\<And>m. n_live oi m \<Longrightarrow> m \<noteq> n \<Longrightarrow> n_state (nbr oi m) \<noteq> NSM_DependUpon \<and> n_state (nbr oi m) \<noteq> NSM_Deleted"
  shows "ospf_inv (nbr_deleted n oi)"
proof -
  let ?d = "oi\<lparr>nbrs := tab_delete (ospf_nbr_key oi (nbr oi n)) (nbrs oi)\<rparr>" and ?o = "nbr_deleted n oi"
  note sel = nbr_free_sel[of n ?d, folded nbr_delete_entry[OF t(1) l], simplified]
  have "roles_ok ?o" using t(2) roles_ok_view[of ?o oi] sel by (simp add: DR_def BDR_def)
  moreover have "itimers_ok ?o" using t(3) by (simp add: itimers_ok_def sel)
  moreover have "states_ok ?o" using s by (auto simp: states_ok_def sel)
  moreover have "full_count ?o = full_count oi"
    using tab_delete_length[OF table_okD(1)[OF t(1)] table_entry(1)[OF t(1) l], of "\<lambda>m. n_state (nbr oi m) = NSM_Full"] n(2)
    by (simp add: full_count_def sel)
  ultimately show ?thesis using delete_table_ok[OF t(1) l n(1)] c by (simp add: ospf_inv_def sel)
qed

text \<open>The next state of an event is never \<open>DependUpon\<close>: the entries without a state have functions that return one.\<close>

definition nsm_next :: "nat \<Rightarrow> nsm_event \<Rightarrow> ospf_interface \<Rightarrow> (nsm_state \<times> ospf_interface) res" where
  "nsm_next n ev oi =
     (let (func, nx) = NSM (n_state (nbr oi n)) ev in
      case func of None \<Rightarrow> Inr (nx, oi)
      | Some f \<Rightarrow> bindR (nsm_call f n oi) (\<lambda>(st, oi). Inr (if nx = NSM_DependUpon then st else nx, oi)))"

lemma NSM_depends:
  "NSM st ev = (func, NSM_DependUpon) \<Longrightarrow> st \<noteq> NSM_DependUpon \<Longrightarrow> ev \<noteq> NSM_NoEvent \<Longrightarrow>
   func \<in> {Some Nsm_twoway_received, Some Nsm_exchange_done, Some Nsm_adj_ok}"
  by (cases st; cases ev) auto

lemma nsm_next_ok:
  assumes live: "n_live oi n" "n_live oi (nbr_self oi)" and "n \<noteq> nbr_self oi" "n_state (nbr oi n) \<noteq> NSM_DependUpon" "ev \<noteq> NSM_NoEvent"
  shows "\<exists>nx oi'. nsm_next n ev oi = Inr (nx, oi') \<and> nx \<noteq> NSM_DependUpon \<and> quiet oi oi'"
proof -
  obtain func nx where t: "NSM (n_state (nbr oi n)) ev = (func, nx)" by (cases "NSM (n_state (nbr oi n)) ev")
  show ?thesis
  proof (cases func)
    case None
    with NSM_depends t assms(3-5) have "nx \<noteq> NSM_DependUpon" by blast
    with None t show ?thesis by (simp add: nsm_next_def quiet_refl)
  next
    case (Some f)
    obtain st oi' where c: "nsm_call f n oi = Inr (st, oi')" using call_returns[OF live assms(3)] by blast
    have "st \<noteq> NSM_DependUpon" if "nx = NSM_DependUpon"
      using NSM_depends[of "n_state (nbr oi n)" ev func] t that Some assms(4,5) c
      by (auto simp: nsm_call_eq_Inr bindR_eq_Inr nsm_twoway_received_def nsm_exchange_done_def nsm_adj_ok_def Let_def dest!: use_self_eq_Inr split: if_splits)
    with Some t c quiet_call[OF c] show ?thesis by (simp add: nsm_next_def)
  qed
qed

lemma nsm_event_next:
  "n_live oi n \<Longrightarrow> ospf_nsm_event n ev oi =
     bindR (nsm_next n ev oi) (\<lambda>(nx, oi).
       if nx = NSM_DependUpon then Inl Assert_failed
       else bindR (use_nbr n oi) (\<lambda>oi.
         bindR (if nx \<noteq> n_state (nbr oi n) then nsm_change_state n nx oi else Inr oi) (\<lambda>oi.
         bindR (nsm_timer_set n oi) (\<lambda>oi. if n_state (nbr oi n) = NSM_Deleted then ospf_nbr_delete n oi else Inr oi))))"
  by (cases "NSM (n_state (nbr oi n)) ev") (simp add: ospf_nsm_event_def nsm_next_def)

lemma moved_id: "ospf_inv oi \<Longrightarrow> moved n (n_state (nbr oi n)) oi oi"
  by (simp add: moved_def ospf_invD)

lemma moved_quiet_left:
  assumes "quiet a b" "moved n st b c"
  shows "moved n st a c"
proof -
  have "tview b = tview a" "sview b = sview a" using assms(1) by (simp_all add: quiet_def)
  with assms(2) sviewD[of b a] show ?thesis by (simp add: moved_def)
qed

lemma nsm_event_moves:
  assumes inv: "ospf_inv oi" and n: "n_live oi n" "n \<noteq> nbr_self oi" "ev \<noteq> NSM_NoEvent"
  obtains nx o1 o2 where "nsm_next n ev oi = Inr (nx, o1)" "nx \<noteq> NSM_DependUpon" "quiet oi o1" "moved n nx oi o2"
    "ospf_nsm_event n ev oi = Inr (if nx = NSM_Deleted then nbr_deleted n o2 else o2)"
proof -
  have st: "n_state (nbr oi n) \<noteq> NSM_DependUpon" using ospf_invD(4)[OF inv] n(1) by (simp add: states_ok_def)
  obtain nx o1 where nx: "nsm_next n ev oi = Inr (nx, o1)" "nx \<noteq> NSM_DependUpon" and q: "quiet oi o1"
    using nsm_next_ok[OF n(1) table_live(1)[OF ospf_invD(1)[OF inv]] n(2) st n(3)] by blast
  have i1: "ospf_inv o1" using quiet_inv(1)[OF q] inv by simp
  have s1: "n \<noteq> nbr_self o1" and l1: "n_live o1 n" using q n(1,2) tviewD(4,6)[of o1 oi] by (simp_all add: quiet_def)
  obtain o2 where o2: "(if nx \<noteq> n_state (nbr o1 n) then nsm_change_state n nx o1 else Inr o1) = Inr o2" "moved n nx o1 o2"
    using change_state_ok[OF i1 l1 s1, of nx] moved_id[OF i1, of n] by (cases "nx \<noteq> n_state (nbr o1 n)") auto
  let ?o = "upd_nbr n nsm_timers o2"
  have m: "moved n nx oi ?o" by (rule moved_quiet[OF moved_quiet_left[OF q o2(2)] quiet_timer])
  have l2: "n_live o2 n" using o2(2) l1 tviewD(4)[of o2 o1] by (simp add: moved_def)
  have "n_state (nbr ?o n) = nx" using m unfolding moved_def by presburger
  moreover have "n_live ?o n" using l2 by simp
  moreover have "nsm_timer_set n o2 = Inr ?o" using l2 by (simp add: nsm_timer_set_def)
  ultimately have "ospf_nsm_event n ev oi = Inr (if nx = NSM_Deleted then nbr_deleted n ?o else ?o)"
    using nx o2(1) l1 by (simp add: nsm_event_next[OF n(1)] ospf_nbr_delete_def del: bindR_if upd_nbr_sel)
  then show thesis using that nx q m by blast
qed

lemma moved_inv:
  assumes inv: "ospf_inv oi" and n: "n_live oi n" "n \<noteq> nbr_self oi" and m: "moved n st oi oi'" and st: "st \<noteq> NSM_DependUpon"
  shows "ospf_inv (if st = NSM_Deleted then nbr_deleted n oi' else oi')"
proof -
  have t: "tview oi' = tview oi" and s: "\<And>m. n_state (nbr oi' m) = (if m = n then st else n_state (nbr oi m))"
    using m by (simp_all add: moved_def)
  note td = tviewD[OF t]
  have tab: "table_ok oi'" using table_ok_view[OF t] ospf_invD(1)[OF inv] by simp
  have ro: "roles_ok oi'" "itimers_ok oi'" using m by (simp_all add: moved_def)
  have c: "full_nbrs oi' = of_nat (full_count oi')"
    using full_count_moved[OF ospf_invD(1)[OF inv] n(1) m] ospf_invD(5)[OF inv] m by (simp add: moved_def)
  have so: "n_state (nbr oi' x) \<noteq> NSM_DependUpon \<and> n_state (nbr oi' x) \<noteq> NSM_Deleted" if "n_live oi' x" "x \<noteq> n" for x
    using ospf_invD(4)[OF inv] that by (auto simp: states_ok_def s td(4))
  show ?thesis
  proof (cases "st = NSM_Deleted")
    case True
    have "ospf_inv (nbr_deleted n oi')"
      using so s True n td by (intro delete_nbr_ok[OF tab ro _ _ _ c]) simp_all
    with True show ?thesis by simp
  next
    case False
    have "states_ok oi'" using so s False st by (auto simp: states_ok_def)
    with False tab ro c show ?thesis by (simp add: ospf_inv_def)
  qed
qed

lemma moved_frame:
  assumes inv: "ospf_inv oi" and n: "n_live oi n" and m: "moved n st oi oi'"
  defines "o2 \<equiv> (if st = NSM_Deleted then nbr_deleted n oi' else oi')"
  shows "i_type o2 = i_type oi" "i_address o2 = i_address oi" "nbr_self o2 = nbr_self oi" "my_router_id o2 = my_router_id oi"
    "nbrs o2 = (if st = NSM_Deleted then tab_delete (ospf_nbr_key oi (nbr oi n)) (nbrs oi) else nbrs oi)"
proof -
  have t: "tview oi' = tview oi" using m by (simp add: moved_def)
  note td = tviewD[OF t]
  have tab: "table_ok oi'" using table_ok_view[OF t] ospf_invD(1)[OF inv] by simp
  have l: "n_live oi' n" using n td(4) by simp
  have d: "nbr_deleted n oi' = ospf_nbr_free n (oi'\<lparr>nbrs := tab_delete (ospf_nbr_key oi' (nbr oi' n)) (nbrs oi')\<rparr>)"
    by (rule nbr_delete_entry[OF tab l])
  show "i_type o2 = i_type oi" "i_address o2 = i_address oi" "nbr_self o2 = nbr_self oi" "my_router_id o2 = my_router_id oi"
    "nbrs o2 = (if st = NSM_Deleted then tab_delete (ospf_nbr_key oi (nbr oi n)) (nbrs oi) else nbrs oi)"
    by (simp_all add: o2_def d nbr_free_sel td)
qed

section \<open>Interfaces that go down\<close>

lemma kill_next: "\<exists>func. NSM st NSM_KillNbr = (func, NSM_Deleted)" if "st \<noteq> NSM_DependUpon"
  using that by (cases st) auto

lemma kill_event:
  assumes inv: "ospf_inv oi" and n: "n_live oi n" "n \<noteq> nbr_self oi"
  obtains oi' where "ospf_nsm_event n NSM_KillNbr oi = Inr oi'" "ospf_inv oi'" "i_type oi' = i_type oi" "i_address oi' = i_address oi"
    "nbr_self oi' = nbr_self oi" "my_router_id oi' = my_router_id oi" "nbrs oi' = tab_delete (ospf_nbr_key oi (nbr oi n)) (nbrs oi)"
proof -
  have st: "n_state (nbr oi n) \<noteq> NSM_DependUpon" using ospf_invD(4)[OF inv] n(1) by (simp add: states_ok_def)
  obtain nx o1 o2 where e: "nsm_next n NSM_KillNbr oi = Inr (nx, o1)" "nx \<noteq> NSM_DependUpon" "moved n nx oi o2"
    "ospf_nsm_event n NSM_KillNbr oi = Inr (if nx = NSM_Deleted then nbr_deleted n o2 else o2)"
    by (rule nsm_event_moves[OF inv n, of NSM_KillNbr]) simp_all
  have "nx = NSM_Deleted"
    using e(1) kill_next[OF st] by (auto simp: nsm_next_def bindR_eq_Inr split: option.splits)
  with moved_inv[OF inv n e(3,2)] moved_frame[OF inv n(1) e(3)] e(4) that[of "nbr_deleted n o2"] show thesis by simp
qed

text \<open>Killing the neighbors leaves the router itself and the entries whose keys are not visited.\<close>

lemma kill_loop_ok:
  assumes "ospf_inv oi"
  shows "\<exists>oi'. kill_loop ks oi = Inr oi' \<and> ospf_inv oi' \<and> i_type oi' = i_type oi \<and> i_address oi' = i_address oi \<and>
    nbr_self oi' = nbr_self oi \<and> my_router_id oi' = my_router_id oi \<and>
    set (nbrs oi') = {e \<in> set (nbrs oi). snd e = nbr_self oi \<or> fst e \<notin> set ks}"
  using assms
proof (induction ks arbitrary: oi)
  case Nil
  then show ?case by auto
next
  case (Cons k ks)
  note tab = ospf_invD(1)[OF Cons.prems]
  have look: "map_of (nbrs oi) k = Some n \<longleftrightarrow> (k, n) \<in> set (nbrs oi)" for n by (rule tab_lookup[OF table_okD(1)[OF tab]])
  consider (kill) n where "map_of (nbrs oi) k = Some n" "n \<noteq> nbr_self oi"
    | (skip) "map_of (nbrs oi) k = None \<or> map_of (nbrs oi) k = Some (nbr_self oi)"
    by (cases "map_of (nbrs oi) k") auto
  then show ?case
  proof cases
    case kill
    then have l: "n_live oi n" and key: "k = ospf_nbr_key oi (nbr oi n)"
      using look table_okD(3,5)[OF tab] by (force)+
    obtain o1 where o1: "ospf_nsm_event n NSM_KillNbr oi = Inr o1" "ospf_inv o1" "i_type o1 = i_type oi" "i_address o1 = i_address oi"
      "nbr_self o1 = nbr_self oi" "my_router_id o1 = my_router_id oi" "nbrs o1 = tab_delete k (nbrs oi)"
      using kill_event[OF Cons.prems l kill(2)] key by metis
    obtain oi' where oi': "kill_loop ks o1 = Inr oi'" "ospf_inv oi'" "i_type oi' = i_type o1" "i_address oi' = i_address o1"
      "nbr_self oi' = nbr_self o1" "my_router_id oi' = my_router_id o1"
      "set (nbrs oi') = {e \<in> set (nbrs o1). snd e = nbr_self o1 \<or> fst e \<notin> set ks}"
      using Cons.IH[OF o1(2)] by blast
    have "fst e \<noteq> k" if "e \<in> set (nbrs oi)" "snd e = nbr_self oi" for e
      using that kill look by (metis option.inject prod.collapse)
    then have "set (nbrs oi') = {e \<in> set (nbrs oi). snd e = nbr_self oi \<or> fst e \<notin> set (k # ks)}"
      by (auto simp: oi'(7) o1(5,7) tab_delete_set)
    with kill oi' o1 show ?thesis by simp
  next
    case skip
    then have loop: "kill_loop (k # ks) oi = kill_loop ks oi" by auto
    have "snd e = nbr_self oi" if "e \<in> set (nbrs oi)" "fst e = k" for e
      using that skip look[of "snd e"] by (metis option.distinct(1) option.inject prod.collapse)
    then have "{e \<in> set (nbrs oi). snd e = nbr_self oi \<or> fst e \<notin> set (k # ks)} = {e \<in> set (nbrs oi). snd e = nbr_self oi \<or> fst e \<notin> set ks}"
      by auto
    then show ?thesis using Cons.IH[OF Cons.prems] unfolding loop by presburger
  qed
qed

text \<open>The state of an interface after its cleanup, before it enters the state \<open>Down\<close>.\<close>

definition cleaned :: "ospf_interface \<Rightarrow> ospf_interface \<Rightarrow> bool" where
  "cleaned oi oi' \<longleftrightarrow> table_ok oi' \<and> states_ok oi' \<and> full_nbrs oi' = of_nat (full_count oi') \<and>
     nbrs oi' = [(ospf_nbr_key oi' (nbr oi' (nbr_self oi')), nbr_self oi')] \<and> DR oi' = 0 \<and> BDR oi' = 0 \<and>
     i_type oi' = i_type oi \<and> i_address oi' = i_address oi \<and> my_router_id oi' = my_router_id oi \<and> i_state oi' \<noteq> ISM_DependUpon"

lemma table_address: "table_ok oi \<Longrightarrow> i_address oi \<noteq> 0"
  using table_okD(6,7,8,9)[of oi] by (metis imageE prod.collapse)

text \<open>The fields the router gets as a neighbor of itself, and its key.\<close>

definition self_fields :: "ospf_interface \<Rightarrow> ospf_neighbor \<Rightarrow> ospf_neighbor" where
  "self_fields oi n = n\<lparr>n_address := i_address oi, priority := uint (if_priority oi), router_id := my_router_id oi,
     src := i_address oi, n_state := NSM_TwoWay,
     options := (case external_routing oi of
         OSPF_AREA_DEFAULT \<Rightarrow> options n OR 0x02
       | OSPF_AREA_STUB \<Rightarrow> options n AND NOT 0x02
       | OSPF_AREA_NSSA \<Rightarrow> options n AND NOT 0x02 OR 0x08)\<rparr>"

lemma self_fields_sel [simp]:
  "nview (self_fields oi n) = (i_address oi, my_router_id oi, i_address oi)" "n_state (self_fields oi n) = NSM_TwoWay"
  "d_router (self_fields oi n) = d_router n" "bd_router (self_fields oi n) = bd_router n"
  by (simp_all add: self_fields_def nview_def)

definition self_key :: "ospf_interface \<Rightarrow> in_addr" where
  "self_key oi = (if i_type oi = OSPF_IFTYPE_VIRTUALLINK \<or> i_type oi = OSPF_IFTYPE_POINTOPOINT then my_router_id oi else i_address oi)"

lemma self_fields_key [simp]: "i_type oi' = i_type oi \<Longrightarrow> ospf_nbr_key oi' (self_fields oi n) = self_key oi"
  by (simp add: self_fields_def self_key_def ospf_nbr_key_def)

lemma add_self_eq:
  "n_live oi (nbr_self oi) \<Longrightarrow> ospf_nbr_add_self oi =
     (case map_of (nbrs oi) (self_key oi) of
        Some n \<Rightarrow> if nbr_self oi = n then Inr (upd_nbr (nbr_self oi) (self_fields oi) oi) else Inl Assert_failed
      | None \<Rightarrow> Inr ((upd_nbr (nbr_self oi) (self_fields oi) oi)\<lparr>nbrs := tab_insert (self_key oi) (nbr_self oi) (nbrs oi)\<rparr>))"
proof -
  have f: "(\<lambda>n. n\<lparr>n_address := i_address oi, priority := uint (if_priority oi), router_id := my_router_id oi, src := i_address oi,
      n_state := NSM_TwoWay, options := (case external_routing oi of OSPF_AREA_DEFAULT \<Rightarrow> options n OR 0x02
        | OSPF_AREA_STUB \<Rightarrow> options n AND NOT 0x02 | OSPF_AREA_NSSA \<Rightarrow> options n AND NOT 0x02 OR 0x08)\<rparr>) = self_fields oi"
    by (simp add: self_fields_def fun_eq_iff)
  assume "n_live oi (nbr_self oi)"
  then have u: "use_nbr (nbr_self oi) oi = Inr oi" by (rule use_nbr_live)
  show ?thesis unfolding ospf_nbr_add_self_def u bindR_simps Let_def f by (simp split: option.split)
qed

lemma add_self_new:
  assumes "n_live oi (nbr_self oi)" "map_of (nbrs oi) (self_key oi) = None"
  obtains oi' where "ospf_nbr_add_self oi = Inr oi'" "nbr_self oi' = nbr_self oi" "n_brk oi' = n_brk oi" "DR oi' = DR oi" "BDR oi' = BDR oi"
    "i_type oi' = i_type oi" "i_address oi' = i_address oi" "my_router_id oi' = my_router_id oi" "i_state oi' = i_state oi"
    "full_nbrs oi' = full_nbrs oi" "n_live oi' = n_live oi"
    "nview (nbr oi' (nbr_self oi)) = (i_address oi, my_router_id oi, i_address oi)" "n_state (nbr oi' (nbr_self oi)) = NSM_TwoWay"
    "nbrs oi' = tab_insert (ospf_nbr_key oi' (nbr oi' (nbr_self oi))) (nbr_self oi) (nbrs oi)"
    "t_hello oi' = t_hello oi" "t_wait oi' = t_wait oi" "t_ls_ack oi' = t_ls_ack oi"
proof (rule that[of "(upd_nbr (nbr_self oi) (self_fields oi) oi)\<lparr>nbrs := tab_insert (self_key oi) (nbr_self oi) (nbrs oi)\<rparr>"])
qed (simp_all add: assms add_self_eq DR_def BDR_def)

lemma self_reset_sel:
  assumes "table_ok oi" "nbrs oi = [(k, nbr_self oi)]"
  obtains oi' where "ospf_nbr_self_reset oi = Inr oi'" "nbr_self oi' = n_brk oi" "n_brk oi' = n_brk oi + 1" "DR oi' = 0" "BDR oi' = 0"
    "i_type oi' = i_type oi" "i_address oi' = i_address oi" "my_router_id oi' = my_router_id oi" "i_state oi' = i_state oi"
    "full_nbrs oi' = full_nbrs oi" "n_live oi' = (n_live oi)(nbr_self oi := False, n_brk oi := True)"
    "nview (nbr oi' (n_brk oi)) = (i_address oi, my_router_id oi, i_address oi)" "n_state (nbr oi' (n_brk oi)) = NSM_TwoWay"
    "nbrs oi' = [(ospf_nbr_key oi' (nbr oi' (n_brk oi)), n_brk oi)]"
proof -
  have l: "n_live oi (nbr_self oi)" using table_okD(3,8)[OF assms(1)] by simp
  have k: "k = ospf_nbr_key oi (nbr oi (nbr_self oi))" using table_okD(5)[OF assms(1)] assms(2) by simp
  define d where "d = ospf_nbr_free (nbr_self oi) (oi\<lparr>nbrs := []\<rparr>)"
  have d: "ospf_nbr_delete (nbr_self oi) oi = Inr d"
    using nbr_delete_entry[OF assms(1) l] k assms(2) l by (simp add: ospf_nbr_delete_def d_def tab_delete_def)
  note sel = nbr_free_sel[of "nbr_self oi" "oi\<lparr>nbrs := []\<rparr>", folded d_def, simplified]
  define e where "e = d\<lparr>nbr := (nbr d)(n_brk d := new_nbr), n_live := (n_live d)(n_brk d := True), n_brk := n_brk d + 1, nbr_self := n_brk d\<rparr>"
  have r: "ospf_nbr_self_reset oi = ospf_nbr_add_self e"
    by (simp add: ospf_nbr_self_reset_def ospf_nbr_new_def e_def d)
  have e: "nbr_self e = n_brk oi" "n_brk e = n_brk oi + 1" "DR e = 0" "BDR e = 0" "i_type e = i_type oi" "i_address e = i_address oi"
    "my_router_id e = my_router_id oi" "i_state e = i_state oi" "full_nbrs e = full_nbrs oi" "nbrs e = []"
    "n_live e = (n_live oi)(nbr_self oi := False, n_brk oi := True)"
    by (simp_all add: e_def sel DR_def BDR_def new_nbr_def)
  show thesis by (rule add_self_new[of e], simp add: e, simp add: e, rule that) (simp_all only: r e tab_insert.simps)
qed

lemma self_reset_ok:
  assumes "table_ok oi" "nbrs oi = [(k, nbr_self oi)]" "full_nbrs oi = 0" "i_state oi \<noteq> ISM_DependUpon"
  shows "\<exists>oi'. ospf_nbr_self_reset oi = Inr oi' \<and> cleaned oi oi'"
proof -
  from self_reset_sel[OF assms(1,2)] obtain oi' where o: "ospf_nbr_self_reset oi = Inr oi'" and
    s: "nbr_self oi' = n_brk oi" "n_brk oi' = n_brk oi + 1" "DR oi' = 0" "BDR oi' = 0"
    "i_type oi' = i_type oi" "i_address oi' = i_address oi" "my_router_id oi' = my_router_id oi" "i_state oi' = i_state oi"
    "full_nbrs oi' = full_nbrs oi" "n_live oi' = (n_live oi)(nbr_self oi := False, n_brk oi := True)"
    "nview (nbr oi' (n_brk oi)) = (i_address oi, my_router_id oi, i_address oi)" "n_state (nbr oi' (n_brk oi)) = NSM_TwoWay"
    "nbrs oi' = [(ospf_nbr_key oi' (nbr oi' (n_brk oi)), n_brk oi)]" by blast
  have live: "n_live oi' n \<longleftrightarrow> n = n_brk oi" for n
    using table_okD(3)[OF assms(1), of n] assms(2) by (auto simp: s(10))
  then have "table_ok oi'" using s table_address[OF assms(1)] unfolding table_ok_def by (simp add: nview_def)
  moreover have "states_ok oi'" using live s by (simp add: states_ok_def)
  moreover have "full_count oi' = 0" using s by (simp add: full_count_def)
  ultimately show ?thesis using o s assms(3,4) by (simp add: cleaned_def)
qed

lemma quiet_detach: "quiet oi (detach_nbma oi)"
proof -
  have "quiet oi (fold (\<lambda>(p, a). log_call (Poll_timer_off p)) (nbma_list oi) oi)"
    by (rule quiet_fold) (auto intro: quiet_log)
  then show ?thesis unfolding detach_nbma_def by (auto simp: quiet_def tview_def sview_def DR_def BDR_def nview_def fun_eq_iff)
qed

lemma distinct_one: "distinct xs \<Longrightarrow> set xs = {x} \<Longrightarrow> xs = [x]"
  by (cases xs) (auto simp: subset_singleton_iff)

lemma if_cleanup_ok:
  assumes inv: "ospf_inv oi"
  shows "\<exists>oi'. ospf_if_cleanup oi = Inr oi' \<and> cleaned oi oi'"
proof -
  define o1 where "o1 = detach_nbma oi"
  have q: "quiet oi o1" unfolding o1_def by (rule quiet_detach)
  then have i1: "ospf_inv o1" and t1: "tview o1 = tview oi" using quiet_inv(1)[OF q] inv by (simp_all add: quiet_def)
  obtain o2 where o2: "kill_loop (map fst (nbrs oi)) o1 = Inr o2" "ospf_inv o2" "i_type o2 = i_type o1" "i_address o2 = i_address o1"
    "nbr_self o2 = nbr_self o1" "my_router_id o2 = my_router_id o1"
    "set (nbrs o2) = {e \<in> set (nbrs o1). snd e = nbr_self o1 \<or> fst e \<notin> set (map fst (nbrs oi))}"
    using kill_loop_ok[OF i1] by blast
  let ?k = "ospf_nbr_key o2 (nbr o2 (nbr_self o2))"
  have "nbrs o1 = nbrs oi" by (rule tviewD(3)[OF t1])
  then have own: "snd e = nbr_self o2" if "e \<in> set (nbrs o2)" for e using that o2(5,7) by auto
  note tab2 = ospf_invD(1)[OF o2(2)]
  have "set (nbrs o2) = {(?k, nbr_self o2)}"
  proof -
    have "e = (?k, nbr_self o2)" if "e \<in> set (nbrs o2)" for e
      using own[OF that] table_okD(5)[OF tab2, of "fst e" "snd e"] that by (cases e) simp
    with table_okD(8)[OF tab2] show ?thesis by blast
  qed
  then have n2: "nbrs o2 = [(?k, nbr_self o2)]" by (rule distinct_one[rotated]) (use table_okD(2)[OF tab2] in \<open>simp add: distinct_map\<close>)
  define o3 where "o3 = log_call Ls_upd_queue_empty ((log_call Ls_ack_cleanup o2)\<lparr>i_crypt_seqnum := 0\<rparr>)"
  have q3: "quiet o2 o3" by (simp add: o3_def quiet_def tview_def sview_def DR_def BDR_def)
  then have td: "nbrs o3 = nbrs o2" "nbr_self o3 = nbr_self o2" "i_type o3 = i_type o2" "i_address o3 = i_address o2"
    "my_router_id o3 = my_router_id o2" "full_nbrs o3 = full_nbrs o2" "i_state o3 = i_state o2"
    using tviewD[of o3 o2] sviewD[of o3 o2] by (simp_all add: quiet_def)
  have "full_count o2 = 0" using n2 table_okD(11)[OF tab2] by (simp add: full_count_def)
  then have "full_nbrs o3 = 0" using ospf_invD(5)[OF o2(2)] td by simp
  moreover have "table_ok o3" using quiet_inv(5)[OF q3] tab2 by simp
  moreover have "nbrs o3 = [(?k, nbr_self o3)]" using n2 td by simp
  moreover have "i_state o3 \<noteq> ISM_DependUpon" using ospf_invD(2)[OF o2(2)] td by (simp add: roles_ok_def)
  ultimately obtain oi' where "ospf_nbr_self_reset o3 = Inr oi'" "cleaned o3 oi'" using self_reset_ok by blast
  moreover from this have "cleaned oi oi'" using td o2 tviewD[OF t1] by (simp add: cleaned_def)
  ultimately show ?thesis using o2(1) by (simp add: ospf_if_cleanup_def o1_def[symmetric] o3_def[symmetric])
qed

section \<open>Events of interfaces\<close>

lemma enter_inv:
  assumes "table_ok oi" "states_ok oi" "full_nbrs oi = of_nat (full_count oi)" "st \<noteq> ISM_DependUpon"
    "st \<ge> ISM_DROther \<Longrightarrow> ospf_ism_state oi = st" "st < ISM_DROther \<Longrightarrow> ospf_ism_state oi = ISM_DROther"
    "st = ISM_Waiting \<or> st \<ge> ISM_DROther \<Longrightarrow> elects oi" "i_type oi = OSPF_IFTYPE_LOOPBACK \<Longrightarrow> st \<le> ISM_Loopback"
  shows "ospf_inv (enter st oi)"
proof -
  have "states_ok (enter st oi)"
    using assms(2) tviewD(4)[OF enter_view(1)[of st oi]] by (simp add: states_ok_def enter_view)
  then show ?thesis using enter_roles[OF assms(4-8)] assms(1,3,4) table_ok_view[OF enter_view(1)]
    by (simp add: ospf_inv_def enter_view enter_full_count)
qed

lemma settled_low: "settled oi \<Longrightarrow> i_state oi < ISM_DROther \<Longrightarrow> ospf_ism_state oi = ISM_DROther"
  by (simp add: settled_def)

lemma interface_up_state:
  assumes "i_type oi \<noteq> OSPF_IFTYPE_LOOPBACK"
  shows "fst (ism_interface_up oi) \<in> {ISM_PointToPoint, ISM_DROther, ISM_Waiting}"
    "fst (ism_interface_up oi) \<noteq> ISM_PointToPoint \<Longrightarrow> elects oi" "quiet oi (snd (ism_interface_up oi))"
  by (auto simp: ism_interface_up_def elects_def intro: quiet_log quiet_refl)

lemma election_inv:
  assumes inv: "ospf_inv oi" and e: "elects oi" "i_type oi \<noteq> OSPF_IFTYPE_LOOPBACK"
    and call: "ism_call down (fst (ISM (i_state oi) ev)) oi = Inr (ospf_dr_election oi)"
  shows "\<exists>oi'. ism_step down ev oi = Inr oi' \<and> ospf_inv oi'"
proof -
  have s: "settled oi" using ospf_invD(2)[OF inv] by (simp add: roles_ok_def)
  obtain oi' where o: "ism_step down ev oi = Inr oi'" "tview oi' = tview oi" "roles_ok oi'" "itimers_ok oi'"
    "full_nbrs oi' = full_nbrs oi" "\<And>n. n_state (nbr oi' n) = n_state (nbr oi n)"
    by (rule election_event[OF ospf_invD(1)[OF inv] e(1) s e(2) call]) blast
  have "full_count oi' = full_count oi" "states_ok oi'"
    using ospf_invD(4)[OF inv] tviewD(3,4)[OF o(2)] by (simp_all add: full_count_def states_ok_def o(6))
  then have "ospf_inv oi'" using o ospf_invD[OF inv] table_ok_view[OF o(2)] by (simp add: ospf_inv_def)
  with o(1) show ?thesis by blast
qed

text \<open>
  The entries of the table: what is ignored keeps the state, but for the end of a loop; the
  election runs only in the states of the networks that have one.
\<close>

lemma ISM_cases:
  assumes "st \<noteq> ISM_DependUpon" "ev \<noteq> ISM_NoEvent"
  obtains (ignore) st' where "ISM st ev = (Ism_ignore, st')" "st' = st \<or> st = ISM_Loopback \<and> st' = ISM_Down"
  | (loop) "ISM st ev = (Ism_loop_ind, ISM_Loopback)" "ev = ISM_LoopInd"
  | (down) "ev = ISM_InterfaceDown"
  | (up) "ISM st ev = (Ism_interface_up, ISM_DependUpon)" "st = ISM_Down" "ev = ISM_InterfaceUp"
  | (elect) "fst (ISM st ev) \<in> {Ism_wait_timer, Ism_backup_seen, Ism_neighbor_change}" "st = ISM_Waiting \<or> st \<ge> ISM_DROther"
  using assms by (cases st; cases ev) (auto simp: state_order)

text \<open>An interface of type loopback is looped and never brought up; the other types are never looped.\<close>

definition ism_allowed :: "ism_event \<Rightarrow> ospf_interface \<Rightarrow> bool" where
  "ism_allowed ev oi \<longleftrightarrow> ev \<noteq> ISM_NoEvent \<and> (ev = ISM_LoopInd \<longrightarrow> i_type oi = OSPF_IFTYPE_LOOPBACK) \<and>
     (ev = ISM_InterfaceUp \<longrightarrow> i_type oi \<noteq> OSPF_IFTYPE_LOOPBACK)"

text \<open>
  The interface machine relies on the cleanup of an interface that goes down: on a consistent
  interface it returns, and leaves the router alone in the table.
\<close>

locale interface_cleanup =
  fixes down :: "ospf_interface \<Rightarrow> ospf_interface res"
  assumes cleans: "ospf_inv oi \<Longrightarrow> \<exists>oi'. down oi = Inr oi' \<and> cleaned oi oi'"
begin

lemma step_down:
  assumes inv: "ospf_inv oi"
  obtains o1 where "down oi = Inr o1" "cleaned oi o1" "ism_step down ISM_InterfaceDown oi = Inr (enter ISM_Down o1)"
    "ospf_inv (enter ISM_Down o1)"
proof -
  obtain o1 where o1: "down oi = Inr o1" "cleaned oi o1" using cleans[OF inv] by blast
  have st: "i_state oi \<noteq> ISM_DependUpon" using ospf_invD(2)[OF inv] by (simp add: roles_ok_def)
  have to_down: "ISM st ISM_InterfaceDown = (Ism_interface_down, ISM_Down)" if "st \<noteq> ISM_DependUpon" for st
    using that by (cases st) simp_all
  have "ism_step down ISM_InterfaceDown oi = Inr (enter ISM_Down o1)"
    using ism_step_enter[of down oi ISM_InterfaceDown ISM_DependUpon o1] o1 to_down[OF st] to_down[of "i_state o1"]
    by (simp add: cleaned_def)
  moreover have "ospf_ism_state o1 = ISM_DROther"
    using o1(2) table_address[of o1] by (auto simp: cleaned_def ospf_ism_state_def)
  then have "ospf_inv (enter ISM_Down o1)"
    using o1(2) by (intro enter_inv) (auto simp: cleaned_def state_order)
  ultimately show thesis using that o1 by blast
qed

lemma step_ok:
  assumes inv: "ospf_inv oi" and ev: "ism_allowed ev oi"
  shows "\<exists>oi'. ism_step down ev oi = Inr oi' \<and> ospf_inv oi'"
proof -
  note r = ospf_invD(2)[OF inv]
  have st: "i_state oi \<noteq> ISM_DependUpon" "settled oi" and loopback: "i_type oi = OSPF_IFTYPE_LOOPBACK \<Longrightarrow> i_state oi \<le> ISM_Loopback"
    and el: "i_state oi = ISM_Waiting \<or> i_state oi \<ge> ISM_DROther \<Longrightarrow> elects oi"
    using r by (auto simp: roles_ok_def)
  have enter: "ospf_inv (enter st' oi)" if "st' \<noteq> ISM_DependUpon" "st' \<ge> ISM_DROther \<Longrightarrow> ospf_ism_state oi = st'"
    "st' < ISM_DROther \<Longrightarrow> ospf_ism_state oi = ISM_DROther" "st' = ISM_Waiting \<or> st' \<ge> ISM_DROther \<Longrightarrow> elects oi"
    "i_type oi = OSPF_IFTYPE_LOOPBACK \<Longrightarrow> st' \<le> ISM_Loopback" for st'
    by (rule enter_inv[OF ospf_invD(1,4,5)[OF inv] that])
  have "ev \<noteq> ISM_NoEvent" using ev by (simp add: ism_allowed_def)
  with st(1) show ?thesis
  proof (cases rule: ISM_cases[of "i_state oi" ev])
    case (ignore st')
    then have "ism_step down ev oi = Inr (enter st' oi)"
      using ism_step_enter[of down oi ev ISM_DependUpon oi] by simp
    moreover have "ospf_inv (enter st' oi)"
      using ignore(2) st loopback el by (intro enter) (auto simp: settled_def state_order)
    ultimately show ?thesis by blast
  next
    case loop
    then have l: "i_type oi = OSPF_IFTYPE_LOOPBACK" using ev by (simp add: ism_allowed_def)
    have "ism_step down ev oi = Inr (enter ISM_Loopback oi)"
      using loop ism_step_enter[of down oi ev ISM_DependUpon oi] by simp
    moreover have "ospf_inv (enter ISM_Loopback oi)"
      using l loopback settled_low[OF st(2)] by (intro enter) (auto simp: state_order)
    ultimately show ?thesis by blast
  next
    case down
    from step_down[OF inv] down show ?thesis by blast
  next
    case up
    have t: "i_type oi \<noteq> OSPF_IFTYPE_LOOPBACK" using ev up(3) by (simp add: ism_allowed_def)
    obtain st' o1 where o1: "ism_interface_up oi = (st', o1)" by (cases "ism_interface_up oi")
    note u = interface_up_state[OF t, unfolded o1 fst_conv snd_conv]
    have "use_self oi = Inr oi" using table_live(1)[OF ospf_invD(1)[OF inv]] by simp
    then have "ism_step down ev oi = Inr (enter st' o1)"
      using up u(1) o1 ism_step_enter[of down oi ev st' o1] by auto
    moreover have q: "ospf_inv o1" "i_type o1 = i_type oi" "i_state o1 = i_state oi"
      using u(3) quiet_inv(1)[OF u(3)] inv tviewD(1)[of o1 oi] sviewD(1)[of o1 oi] by (simp_all add: quiet_def)
    moreover have "ospf_ism_state o1 = ISM_DROther"
      using ospf_invD(2)[OF q(1)] q(3) up(2) settled_low[of o1] by (simp add: roles_ok_def state_order)
    then have "ospf_inv (enter st' o1)"
      using ospf_invD[OF q(1)] u t q(2) by (intro enter_inv) (auto simp: elects_def state_order)
    ultimately show ?thesis by blast
  next
    case elect
    have e: "elects oi" by (rule el[OF elect(2)])
    have "i_type oi \<noteq> OSPF_IFTYPE_LOOPBACK" using loopback elect(2) by (auto simp: state_order)
    moreover have "ism_call down (fst (ISM (i_state oi) ev)) oi = Inr (ospf_dr_election oi)"
      using elect(1) table_live(2)[OF ospf_invD(1)[OF inv]] by auto
    ultimately show ?thesis by (rule election_inv[OF inv e])
  qed
qed

end

interpretation cleanup: interface_cleanup ospf_if_cleanup
  by unfold_locales (rule if_cleanup_ok)

lemmas down_event = cleanup.step_down[folded ospf_ism_event_def] and ism_event_ok = cleanup.step_ok[folded ospf_ism_event_def]

end
