(* ===== verification/Ospf_Reach.thy ===== *)
theory Ospf_Reach
  imports Ospf_Inv Prefix
begin

text \<open>
  Received Hello packets (\<open>ospf_hello\<close> of ospfd/ospf\_packet.c), static neighbors
  (\<open>ospf_nbr_nbma_add\<close> of ospfd/ospfd.c), lookups in the table of neighbors
  (ospfd/ospf\_neighbor.c), changes of the type of an interface and of the router identifier, and
  the histories of an interface: everything that the two state machines, their timers and
  received Hello packets can make of a new interface.  An event that the code schedules is an
  event that may run at any later time; \<open>ospf_nbr_free\<close> cancels the events of the neighbor it frees,
  so that an event only runs for an allocated neighbor.
\<close>

section \<open>Lookups\<close>

text \<open>A node of the table without an entry does not occur: the list holds the entries.\<close>

definition ospf_nbr_lookup_by_addr :: "in_addr \<Rightarrow> ospf_interface \<Rightarrow> nat option" where
  "ospf_nbr_lookup_by_addr addr oi = map_of (nbrs oi) addr"

definition ospf_nbr_lookup_by_routerid :: "in_addr \<Rightarrow> ospf_interface \<Rightarrow> nat option" where
  "ospf_nbr_lookup_by_routerid rid oi = find (\<lambda>n. router_id (nbr oi n) = rid) (map snd (nbrs oi))"

definition ospf_nbr_lookup :: "in_addr \<Rightarrow> in_addr \<Rightarrow> ospf_interface \<Rightarrow> nat option" where
  "ospf_nbr_lookup ip_src rid oi =
     (if i_type oi = OSPF_IFTYPE_VIRTUALLINK \<or> i_type oi = OSPF_IFTYPE_POINTOPOINT
      then ospf_nbr_lookup_by_routerid rid oi else ospf_nbr_lookup_by_addr ip_src oi)"

definition ospf_nbr_count_opaque_capable :: "ospf_interface \<Rightarrow> nat" where
  "ospf_nbr_count_opaque_capable oi =
     length (filter (\<lambda>n. router_id (nbr oi n) \<noteq> my_router_id oi \<and> n_state (nbr oi n) = NSM_Full \<and> options (nbr oi n) AND 0x40 \<noteq> 0)
       (map snd (nbrs oi)))"

text \<open>The list of neighbors of a Hello packet has \<open>sz\<close> bytes.\<close>

definition ospf_nbr_bidirectional :: "in_addr \<Rightarrow> in_addr list \<Rightarrow> nat \<Rightarrow> bool" where
  "ospf_nbr_bidirectional rid ns sz \<longleftrightarrow> list_ex (\<lambda>a. a = rid) (take (sz div 4) ns)"

section \<open>Static neighbors\<close>

text \<open>The static neighbor \<open>p\<close> with the address \<open>a\<close>; \<open>has_nbr\<close>: it is the one of some neighbor already.\<close>

definition ospf_nbr_nbma_add :: "nat \<Rightarrow> in_addr \<Rightarrow> u8 \<Rightarrow> bool \<Rightarrow> ospf_interface \<Rightarrow> ospf_interface res" where
  "ospf_nbr_nbma_add p a prio has_nbr oi =
     (if i_type oi \<noteq> OSPF_IFTYPE_NBMA then Inr oi
      else if has_nbr then Inr oi
      else
        bindR (use_nbr (nbr_self oi) oi) (\<lambda>oi.
        if n_address (nbr oi (nbr_self oi)) = a then Inr oi
        else
        let oi = oi\<lparr>nbma_list := nbma_list oi @ [(p, a)]\<rparr> in
        case map_of (nbrs oi) a of
          Some n \<Rightarrow> bindR (use_nbr n oi) (\<lambda>oi. Inr (log_call (Nbma_attach p n) (upd_nbr n (\<lambda>x. x\<lparr>nbr_nbma := Some p\<rparr>) oi)))
        | None \<Rightarrow>
            let (n, oi) = ospf_nbr_new oi;
                oi = oi\<lparr>nbrs := tab_insert a n (nbrs oi)\<rparr>;
                oi = upd_nbr n (\<lambda>x. x\<lparr>n_state := NSM_Down, src := a, nbr_nbma := Some p, priority := uint prio, n_address := a\<rparr>) oi
            in ospf_nsm_event n NSM_Start (log_call (Nbma_attach p n) oi)))"

section \<open>Hello packets\<close>

record ospf_hello_packet =
  network_mask :: "u8 list"
  hello_interval :: u16
  h_options :: u8
  h_priority :: u8
  dead_interval :: u32
  h_d_router :: in_addr
  h_bd_router :: in_addr
  neighbors :: "in_addr list"

text \<open>The parameters of the interface that a packet must agree with.\<close>

record if_params =
  if_prefixlen :: u8
  v_wait :: u32
  v_hello :: u32
  fast_hello :: u8
  opaque_capable :: bool

definition OPTIONS :: "ospf_interface \<Rightarrow> u8" where
  "OPTIONS oi = options (nbr oi (nbr_self oi))"

text \<open>The tests before the neighbor is looked up: \<open>None\<close> when the packet is dropped, or its options.\<close>

definition hello_check :: "if_params \<Rightarrow> in_addr \<Rightarrow> ospf_hello_packet \<Rightarrow> ospf_interface \<Rightarrow> u8 option" where
  "hello_check ps rid h oi =
     (if rid = my_router_id oi then None
      else if i_type oi \<noteq> OSPF_IFTYPE_POINTOPOINT \<and> i_type oi \<noteq> OSPF_IFTYPE_VIRTUALLINK \<and> if_prefixlen ps \<noteq> ip_masklen (network_mask h)
      then None
      else if v_wait ps \<noteq> dead_interval h then None
      else if fast_hello ps = 0 \<and> v_hello ps \<noteq> ucast (hello_interval h) then None
      else if h_options h AND 0x01 \<noteq> 0 then None
      else
        let opts = (if opaque_capable ps \<and> h_options h AND 0x40 \<noteq> 0 then h_options h AND NOT 0x40 else h_options h) in
        if external_routing oi = OSPF_AREA_NSSA then
          if OPTIONS oi AND 0x08 \<noteq> 0 \<and> opts AND 0x08 \<noteq> 0 \<and> OPTIONS oi AND 0x02 = 0 \<and> opts AND 0x02 = 0 then Some opts else None
        else if OPTIONS oi AND 0x02 \<noteq> opts AND 0x02 then None
        else Some opts)"

definition hello_info :: "nat \<Rightarrow> ospf_hello_packet \<Rightarrow> ospf_interface \<Rightarrow> ospf_interface" where
  "hello_info n h = upd_nbr n (\<lambda>x. x\<lparr>priority := uint (h_priority h), d_router := h_d_router h, bd_router := h_bd_router h\<rparr>)"

text \<open>A neighbor whose declarations or priority have changed, as the interface machine is told.\<close>

definition hello_changes :: "nat \<Rightarrow> ospf_hello_packet \<Rightarrow> ospf_interface \<Rightarrow> ospf_interface" where
  "hello_changes n h oi =
     (let x = nbr oi n; a = n_address x;
          oi = (if a = h_d_router h \<and> h_bd_router h = 0 \<and> i_state oi = ISM_Waiting then log_call (Ism_schedule ISM_BackupSeen) oi else oi);
          oi = (if i_state oi = ISM_Waiting \<and> a = h_bd_router h then log_call (Ism_schedule ISM_BackupSeen) oi else oi);
          oi = (if a = h_d_router h \<and> a \<noteq> d_router x \<or> a \<noteq> h_d_router h \<and> a = d_router x
                then log_call (Ism_schedule ISM_NeighborChange) oi else oi);
          oi = (if a = h_bd_router h \<and> a \<noteq> bd_router x \<or> a \<noteq> h_bd_router h \<and> a = bd_router x
                then log_call (Ism_schedule ISM_NeighborChange) oi else oi)
      in if priority x \<ge> 0 \<and> priority x \<noteq> uint (h_priority h) then log_call (Ism_schedule ISM_NeighborChange) oi else oi)"

text \<open>
  A Hello of \<open>sz\<close> bytes from the router \<open>rid\<close> with the source address \<open>ip_src\<close> and the sequence
  number \<open>seq\<close> of its cryptographic authentication.  The options, the priority and the roles of the
  router are fields of \<open>nbr_self\<close>.
\<close>

definition ospf_hello ::
  "if_params \<Rightarrow> in_addr \<Rightarrow> in_addr \<Rightarrow> u32 option \<Rightarrow> ospf_hello_packet \<Rightarrow> nat \<Rightarrow> ospf_interface \<Rightarrow> ospf_interface res" where
  "ospf_hello ps rid ip_src seq h sz oi0 =
     bindR (use_nbr (nbr_self oi0) (oi0\<lparr>hello_in := hello_in oi0 + 1\<rparr>)) (\<lambda>oi1.
     case hello_check ps rid h oi1 of
       None \<Rightarrow> Inr oi1
     | Some opts \<Rightarrow>
         bindR (ospf_nbr_get rid ip_src seq ip_src oi1) (\<lambda>(n, oi).
         bindR (use_nbr n oi) (\<lambda>oi.
         let old_state = n_state (nbr oi n);
             oi = log_call (Nsm_schedule n NSM_PacketReceived) oi;
             nbma = (i_type oi = OSPF_IFTYPE_NBMA);
             oi = (if nbma \<and> PRIORITY oi = 0 \<and> h_priority h > 0 \<and> DR oi \<noteq> ip_src \<and> BDR oi \<noteq> ip_src
                   then upd_nbr n (\<lambda>x. x\<lparr>t_hello_reply := True\<rparr>) oi else oi)
         in Inr (if nbma \<and> (old_state = NSM_Down \<or> old_state = NSM_Attempt)
            then hello_info n h (log_call (Nsm_schedule n NSM_OneWayReceived) oi)
            else if ospf_nbr_bidirectional (my_router_id oi) (neighbors h) (sz - 20)
            then hello_info n h (hello_changes n h
                   (upd_nbr n (\<lambda>x. x\<lparr>options := options x OR opts\<rparr>) (log_call (Nsm_schedule n NSM_TwoWayReceived) oi)))
            else hello_info n h (log_call (Nsm_schedule n NSM_OneWayReceived) oi)))))"

section \<open>New interfaces and changes of their parameters\<close>

text \<open>
  A new interface before the router is made a neighbor of itself: zeroed memory with the fields that
  \<open>ospf_if_new\<close> and \<open>add_ospf_interface\<close> set.  The fields of the area and of the instance are
  taken from \<open>env\<close>.
\<close>

definition ospf_if_new :: "iftype \<Rightarrow> in_addr \<Rightarrow> ospf_interface \<Rightarrow> ospf_interface" where
  "ospf_if_new ty a env =
     env\<lparr>i_type := ty, i_state := ISM_Down, i_address := a, nbrs := [], n_live := (\<lambda>_. False), n_brk := 0,
       nbma_list := [], network_lsa_self := False, i_crypt_seqnum := clock env, t_hello := False, t_wait := False,
       t_ls_ack := False, i_state_change := 0, full_nbrs := 0, hello_in := 0, calls := []\<rparr>"

text \<open>\<open>ospf_nbr_self_reset\<close> of an interface without \<open>nbr_self\<close>.\<close>

definition first_self :: "ospf_interface \<Rightarrow> ospf_interface res" where
  "first_self oi = (let (s, oi) = ospf_nbr_new oi in ospf_nbr_add_self (oi\<lparr>nbr_self := s\<rparr>))"

definition add_ospf_interface :: "iftype \<Rightarrow> in_addr \<Rightarrow> ospf_interface \<Rightarrow> ospf_interface res" where
  "add_ospf_interface ty a env = first_self (ospf_if_new ty a env)"

definition ospf_if_reset_type :: "iftype \<Rightarrow> ospf_interface \<Rightarrow> ospf_interface res" where
  "ospf_if_reset_type ty oi =
     (let orig_ism_state = i_state oi in
      bindR (ospf_ism_event ISM_InterfaceDown oi) (\<lambda>oi.
      let oi = oi\<lparr>i_type := ty\<rparr> in
      if orig_ism_state > ISM_Down then ospf_ism_event ISM_InterfaceUp oi else Inr oi))"

text \<open>What a new router identifier makes of an interface.\<close>

definition router_id_reset :: "in_addr \<Rightarrow> ospf_interface \<Rightarrow> ospf_interface res" where
  "router_id_reset rid oi = (if my_router_id oi \<noteq> rid then ospf_nbr_self_reset (oi\<lparr>my_router_id := rid\<rparr>) else Inr oi)"

section \<open>Steps that keep the invariant\<close>

lemma quiet_other:
  assumes "n \<noteq> nbr_self oi" "nview (f (nbr oi n)) = nview (nbr oi n)" "n_state (f (nbr oi n)) = n_state (nbr oi n)"
  shows "quiet oi (upd_nbr n f oi)"
  using assms by (auto simp: quiet_def tview_def sview_def DR_def BDR_def fun_eq_iff)

lemma quiet_self: "quiet oi oi' \<Longrightarrow> nbr_self oi' = nbr_self oi"
  using tviewD(6)[of oi' oi] by (simp add: quiet_def)

text \<open>The identifier of a neighbor may change where it is not the key.\<close>

lemma upd_nbr_inv:
  assumes inv: "ospf_inv oi" and n: "n \<noteq> nbr_self oi" "n_state (f (nbr oi n)) = n_state (nbr oi n)" "src (f (nbr oi n)) = src (nbr oi n)"
    "n_address (f (nbr oi n)) = n_address (nbr oi n)" "ospf_nbr_key oi (f (nbr oi n)) = ospf_nbr_key oi (nbr oi n)"
  shows "ospf_inv (upd_nbr n f oi)"
proof -
  define o1 where "o1 = upd_nbr n f oi"
  have same: "src (nbr o1 m) = src (nbr oi m)" "n_address (nbr o1 m) = n_address (nbr oi m)" "n_state (nbr o1 m) = n_state (nbr oi m)"
    "ospf_nbr_key o1 (nbr o1 m) = ospf_nbr_key oi (nbr oi m)" for m
    using n by (auto simp: o1_def ospf_nbr_key_def)
  have self: "nbr o1 (nbr_self oi) = nbr oi (nbr_self oi)" using n(1) by (simp add: o1_def)
  have sel: "i_type o1 = i_type oi" "i_address o1 = i_address oi" "nbrs o1 = nbrs oi" "n_live o1 = n_live oi" "n_brk o1 = n_brk oi"
    "nbr_self o1 = nbr_self oi" "my_router_id o1 = my_router_id oi" "i_state o1 = i_state oi" "full_nbrs o1 = full_nbrs oi"
    "t_hello o1 = t_hello oi" "t_wait o1 = t_wait oi" "t_ls_ack o1 = t_ls_ack oi"
    by (simp_all add: o1_def)
  have "table_ok o1" using ospf_invD(1)[OF inv] unfolding table_ok_def sel same self .
  moreover have "roles_ok o1" using ospf_invD(2)[OF inv] roles_ok_view[of o1 oi] by (simp add: DR_def BDR_def sel self)
  moreover have "itimers_ok o1" "states_ok o1" "full_count o1 = full_count oi"
    using ospf_invD(3,4)[OF inv] by (simp_all add: itimers_ok_def states_ok_def full_count_def sel same)
  ultimately show ?thesis using ospf_invD(5)[OF inv] by (simp add: ospf_inv_def sel flip: o1_def)
qed

text \<open>A neighbor that enters the table.\<close>

definition inserted :: "in_addr \<Rightarrow> nat \<Rightarrow> ospf_interface \<Rightarrow> ospf_interface \<Rightarrow> bool" where
  "inserted k n oi oi' \<longleftrightarrow> nbrs oi' = tab_insert k n (nbrs oi) \<and> n_live oi' = (n_live oi)(n := True) \<and> n_brk oi' = n_brk oi + 1 \<and>
     i_type oi' = i_type oi \<and> i_address oi' = i_address oi \<and> nbr_self oi' = nbr_self oi \<and> my_router_id oi' = my_router_id oi \<and>
     i_state oi' = i_state oi \<and> DR oi' = DR oi \<and> BDR oi' = BDR oi \<and> full_nbrs oi' = full_nbrs oi \<and>
     t_hello oi' = t_hello oi \<and> t_wait oi' = t_wait oi \<and> t_ls_ack oi' = t_ls_ack oi \<and>
     (\<forall>m. m \<noteq> n \<longrightarrow> nview (nbr oi' m) = nview (nbr oi m) \<and> n_state (nbr oi' m) = n_state (nbr oi m)) \<and>
     k = ospf_nbr_key oi' (nbr oi' n) \<and> n_address (nbr oi' n) = src (nbr oi' n) \<and> src (nbr oi' n) \<noteq> 0 \<and> n_state (nbr oi' n) = NSM_Down"

lemma insertedD:
  assumes "inserted k n oi oi'"
  shows "nbrs oi' = tab_insert k n (nbrs oi)" "n_live oi' = (n_live oi)(n := True)" "n_brk oi' = n_brk oi + 1"
    "i_type oi' = i_type oi" "i_address oi' = i_address oi" "nbr_self oi' = nbr_self oi" "my_router_id oi' = my_router_id oi"
    "i_state oi' = i_state oi" "DR oi' = DR oi" "BDR oi' = BDR oi" "full_nbrs oi' = full_nbrs oi"
    "t_hello oi' = t_hello oi" "t_wait oi' = t_wait oi" "t_ls_ack oi' = t_ls_ack oi"
    "m \<noteq> n \<Longrightarrow> nview (nbr oi' m) = nview (nbr oi m)" "m \<noteq> n \<Longrightarrow> n_state (nbr oi' m) = n_state (nbr oi m)"
    "k = ospf_nbr_key oi' (nbr oi' n)" "n_address (nbr oi' n) = src (nbr oi' n)" "src (nbr oi' n) \<noteq> 0" "n_state (nbr oi' n) = NSM_Down"
  using assms unfolding inserted_def by blast+

lemma fresh_nbr:
  assumes "table_ok oi"
  shows "n_brk oi \<notin> snd ` set (nbrs oi)" "nbr_self oi \<noteq> n_brk oi"
proof -
  show "n_brk oi \<notin> snd ` set (nbrs oi)" using table_okD(3,4)[OF assms, of "n_brk oi"] by blast
  then show "nbr_self oi \<noteq> n_brk oi" using table_okD(8)[OF assms] by metis
qed

lemma inserted_table:
  assumes t: "table_ok oi" and i: "inserted k (n_brk oi) oi oi'" and k: "map_of (nbrs oi) k = None"
  shows "table_ok oi'"
proof -
  note d = insertedD[OF i] and f = fresh_nbr[OF t]
  have k': "k \<notin> fst ` set (nbrs oi)" using k by (simp add: map_of_eq_None_iff)
  have nv: "src (nbr oi' m) = src (nbr oi m)" "n_address (nbr oi' m) = n_address (nbr oi m)" "router_id (nbr oi' m) = router_id (nbr oi m)"
    "ospf_nbr_key oi' (nbr oi' m) = ospf_nbr_key oi (nbr oi m)" if "m \<noteq> n_brk oi" for m
    using d(15)[OF that] key_view[OF d(4) d(15)[OF that]] by (simp_all add: nview_def)
  have self: "nbr_self oi' \<noteq> n_brk oi" using f(2) d(6) by simp
  have "sorted_wrt (<) (map fst (nbrs oi'))" "distinct (map snd (nbrs oi'))"
    unfolding d(1) by (rule tab_insert_keys[OF table_okD(1)[OF t] k'], rule tab_insert_distinct[OF table_okD(2)[OF t] f(1)])
  moreover have "n_live oi' m \<longleftrightarrow> m \<in> snd ` set (nbrs oi')" for m
    using table_okD(3)[OF t, of m] by (auto simp: d(1,2) tab_insert_set)
  moreover have "\<forall>m. n_live oi' m \<longrightarrow> m < n_brk oi'" using table_okD(4)[OF t] by (auto simp: d(2,3) intro: less_SucI)
  moreover have "j = ospf_nbr_key oi' (nbr oi' m) \<and> n_address (nbr oi' m) = src (nbr oi' m) \<and> src (nbr oi' m) \<noteq> 0"
    if e: "(j, m) \<in> set (nbrs oi')" for j m
  proof (cases "(j, m) \<in> set (nbrs oi)")
    case True
    then have "m \<noteq> n_brk oi" using f(1) by force
    with True nv table_okD(5-7)[OF t] show ?thesis by simp
  next
    case False
    then have "j = k" "m = n_brk oi" using e by (auto simp: d(1) tab_insert_set)
    with d(17-19) show ?thesis by simp
  qed
  moreover have "nbr_self oi' \<in> snd ` set (nbrs oi')" using table_okD(8)[OF t] by (simp add: d(1,6) tab_insert_set)
  ultimately show ?thesis using table_okD(9-11)[OF t] nv[OF f(2)] d(16)[OF f(2)] unfolding table_ok_def
    by (auto simp: d(5,6,7))
qed

lemma inserted_inv:
  assumes inv: "ospf_inv oi" and i: "inserted k (n_brk oi) oi oi'" and k: "map_of (nbrs oi) k = None"
  shows "ospf_inv oi'"
proof -
  note d = insertedD[OF i] and t = ospf_invD(1)[OF inv]
  have "roles_ok oi'" using ospf_invD(2)[OF inv] roles_ok_view[OF d(8-10) d(5,4)] by simp
  moreover have "itimers_ok oi'" using ospf_invD(3)[OF inv] by (simp add: itimers_ok_def d)
  moreover have "states_ok oi'" using ospf_invD(4)[OF inv] d(2,16,20) by (auto simp: states_ok_def)
  moreover have "full_count oi' = full_count oi"
  proof -
    have "filter (\<lambda>m. n_state (nbr oi' m) = NSM_Full) (map snd (nbrs oi)) = filter (\<lambda>m. n_state (nbr oi m) = NSM_Full) (map snd (nbrs oi))"
    proof (rule filter_cong[OF refl])
      fix m assume "m \<in> set (map snd (nbrs oi))"
      then have "m \<noteq> n_brk oi" using fresh_nbr(1)[OF t] by (metis set_map)
      from d(16)[OF this] show "(n_state (nbr oi' m) = NSM_Full) = (n_state (nbr oi m) = NSM_Full)" by simp
    qed
    then show ?thesis unfolding full_count_def d(1) tab_insert_length by (simp add: d(20))
  qed
  ultimately show ?thesis using inserted_table[OF t i k] ospf_invD(5)[OF inv] by (simp add: ospf_inv_def d(11))
qed

section \<open>Neighbors that packets come from\<close>

text \<open>A new neighbor, up to the fields that the table and the states do not have.\<close>

lemma nbr_add_quiet:
  "fst (ospf_nbr_add seq p oi) = n_brk oi"
  "quiet (upd_nbr (n_brk oi) (\<lambda>x. x\<lparr>src := p, n_address := p\<rparr>) (snd (ospf_nbr_new oi))) (snd (ospf_nbr_add seq p oi))"
proof -
  define n o0 where "n = n_brk oi" and "o0 = snd (ospf_nbr_new oi)"
  have new: "ospf_nbr_new oi = (n, o0)" by (simp add: n_def o0_def ospf_nbr_new_def)
  define o1 where "o1 = upd_nbr n (\<lambda>x. x\<lparr>src := p, n_address := p\<rparr>) o0"
  define g where "g = (\<lambda>(b, a) oi. if a = p then
      log_call (Poll_timer_off b) (log_call (Nbma_attach b n) (upd_nbr n (\<lambda>x. x\<lparr>nbr_nbma := Some b, n_state_change := nbma_change oi b + 1\<rparr>) oi))
    else oi)"
  have g: "quiet oi (g e oi)" for e oi
    by (cases e) (auto simp: g_def nview_def intro!: quiet_intros)
  define o2 where "o2 = (if i_type o1 = OSPF_IFTYPE_NBMA then fold g (nbma_list o1) o1 else o1)"
  have q: "quiet o1 o2" by (auto simp: o2_def intro: quiet_fold g quiet_refl)
  have e: "ospf_nbr_add seq p oi = (n, case seq of Some q \<Rightarrow> upd_nbr n (\<lambda>x. x\<lparr>n_crypt_seqnum := q\<rparr>) o2 | None \<Rightarrow> o2)"
    unfolding ospf_nbr_add_def new by (simp only: Let_def prod.case o1_def o2_def g_def)
  from e show "fst (ospf_nbr_add seq p oi) = n_brk oi" by (simp add: n_def)
  have "quiet o1 (snd (ospf_nbr_add seq p oi))"
    unfolding e using q by (auto simp: nview_def intro!: quiet_upd_trans split: option.split)
  then show "quiet (upd_nbr (n_brk oi) (\<lambda>x. x\<lparr>src := p, n_address := p\<rparr>) (snd (ospf_nbr_new oi))) (snd (ospf_nbr_add seq p oi))"
    by (simp add: o1_def o0_def n_def)
qed

definition packet_key :: "in_addr \<Rightarrow> in_addr \<Rightarrow> ospf_interface \<Rightarrow> in_addr" where
  "packet_key rid ip_src oi = (if i_type oi = OSPF_IFTYPE_VIRTUALLINK \<or> i_type oi = OSPF_IFTYPE_POINTOPOINT then rid else ip_src)"

lemma nbr_get_new:
  assumes t: "table_ok oi" and k: "map_of (nbrs oi) (packet_key rid p oi) = None" and p: "p \<noteq> 0"
  shows "\<exists>oi'. ospf_nbr_get rid p seq p oi = Inr (n_brk oi, oi') \<and> inserted (packet_key rid p oi) (n_brk oi) oi oi' \<and>
    router_id (nbr oi' (n_brk oi)) = rid"
proof -
  let ?n = "n_brk oi" and ?k = "packet_key rid p oi"
  define o1 where "o1 = upd_nbr ?n (\<lambda>x. x\<lparr>src := p, n_address := p\<rparr>) (snd (ospf_nbr_new oi))"
  define o2 where "o2 = snd (ospf_nbr_add seq p oi)"
  have add: "ospf_nbr_add seq p oi = (?n, o2)" using nbr_add_quiet(1)[of seq p oi] by (simp add: o2_def prod_eq_iff)
  have q: "quiet o1 o2" unfolding o1_def o2_def by (rule nbr_add_quiet(2))
  then have td: "tview o2 = tview o1" and sd: "sview o2 = sview o1" by (simp_all add: quiet_def)
  note t2 = tviewD[OF td] and s2 = sviewD[OF sd]
  have f: "?n \<noteq> nbr_self oi" using fresh_nbr(2)[OF t] by simp
  define o3 where "o3 = upd_nbr ?n (\<lambda>x. x\<lparr>router_id := rid\<rparr>) (o2\<lparr>nbrs := tab_insert ?k ?n (nbrs o2)\<rparr>)"
  have g: "ospf_nbr_get rid p seq p oi = Inr (?n, o3)"
    using k add by (simp add: ospf_nbr_get_def packet_key_def[symmetric] o3_def Let_def)
  have sel1: "i_type o1 = i_type oi" "i_address o1 = i_address oi" "nbr_self o1 = nbr_self oi" "my_router_id o1 = my_router_id oi"
    "i_state o1 = i_state oi" "full_nbrs o1 = full_nbrs oi" "t_hello o1 = t_hello oi" "t_wait o1 = t_wait oi" "t_ls_ack o1 = t_ls_ack oi"
    "nbrs o1 = nbrs oi" "n_live o1 = (n_live oi)(?n := True)" "n_brk o1 = n_brk oi + 1" "DR o1 = DR oi" "BDR o1 = BDR oi"
    "nbr o1 = (nbr oi)(?n := new_nbr\<lparr>src := p, n_address := p\<rparr>)"
    using f by (simp_all add: o1_def ospf_nbr_new_def DR_def BDR_def)
  have d: "DR o3 = DR oi" "BDR o3 = BDR oi" using s2(2,3) sel1(13,14) t2(6) sel1(3) f by (simp_all add: o3_def DR_def BDR_def)
  have n: "src (nbr o3 ?n) = p" "n_address (nbr o3 ?n) = p" "router_id (nbr o3 ?n) = rid" "n_state (nbr o3 ?n) = NSM_Down"
    by (simp_all add: o3_def t2 s2(8) sel1(15) new_nbr_def)
  have o: "nview (nbr o3 m) = nview (nbr oi m) \<and> n_state (nbr o3 m) = n_state (nbr oi m)" if "m \<noteq> ?n" for m
    using that by (simp add: o3_def nview_def t2(8-10) s2(8) sel1(15))
  have "?k = ospf_nbr_key o3 (nbr o3 ?n)" using n by (simp add: ospf_nbr_key_def packet_key_def o3_def t2(1) sel1(1))
  then have "inserted ?k ?n oi o3"
    using d n o p unfolding inserted_def by (simp add: o3_def t2(1-7) s2(1,4-7) sel1(1-12))
  with g n show ?thesis by blast
qed

lemma nbr_get_old:
  assumes inv: "ospf_inv oi" and k: "map_of (nbrs oi) (packet_key rid p oi) = Some n" and p: "rid \<noteq> my_router_id oi" "p \<noteq> i_address oi"
  shows "\<exists>oi'. ospf_nbr_get rid p seq p oi = Inr (n, oi') \<and> ospf_inv oi' \<and> n \<noteq> nbr_self oi' \<and> nbrs oi' = nbrs oi \<and> i_type oi' = i_type oi \<and>
    router_id (nbr oi' n) = rid"
proof -
  note t = ospf_invD(1)[OF inv]
  have e: "(packet_key rid p oi, n) \<in> set (nbrs oi)" using k tab_lookup[OF table_okD(1)[OF t]] by simp
  then have key: "ospf_nbr_key oi (nbr oi n) = packet_key rid p oi" and a: "n_address (nbr oi n) = src (nbr oi n)"
    using table_okD(5,6)[OF t] by auto
  have l: "n_live oi n" using e table_okD(3)[OF t, of n] by force
  have "src (nbr oi (nbr_self oi)) = i_address oi" using table_okD(6,8,9)[OF t] by force
  then have n: "n \<noteq> nbr_self oi" using key p table_okD(10)[OF t] by (auto simp: ospf_nbr_key_def packet_key_def split: if_splits)
  define o1 where "o1 = (if i_type oi = OSPF_IFTYPE_NBMA \<and> n_state (nbr oi n) = NSM_Attempt
      then upd_nbr n (\<lambda>x. x\<lparr>src := p, n_address := p\<rparr>) oi else oi)"
  have "ospf_inv o1 \<and> nbr_self o1 = nbr_self oi \<and> nbrs o1 = nbrs oi \<and> i_type o1 = i_type oi \<and> nview (nbr o1 n) = nview (nbr oi n)"
  proof (cases "i_type oi = OSPF_IFTYPE_NBMA \<and> n_state (nbr oi n) = NSM_Attempt")
    case True
    then have s: "src (nbr oi n) = p" using key by (simp add: ospf_nbr_key_def packet_key_def)
    then have "quiet oi o1" using True n a unfolding o1_def by (auto intro!: quiet_other simp: nview_def)
    then show ?thesis using quiet_inv(1) inv True s a by (simp add: o1_def nview_def)
  qed (use inv in \<open>auto simp: o1_def\<close>)
  moreover from this have "ospf_inv (upd_nbr n (\<lambda>x. x\<lparr>router_id := rid\<rparr>) o1)"
    using n key by (intro upd_nbr_inv) (auto simp: ospf_nbr_key_def packet_key_def nview_def split: if_splits)
  ultimately show ?thesis using k n l
    by (simp add: ospf_nbr_get_def packet_key_def[symmetric] o1_def[symmetric] Let_def)
qed

lemma nbr_get_ok:
  assumes inv: "ospf_inv oi" and p: "rid \<noteq> my_router_id oi" "p \<noteq> i_address oi" "p \<noteq> 0"
  obtains n oi' where "ospf_nbr_get rid p seq p oi = Inr (n, oi')" "ospf_inv oi'" "n \<noteq> nbr_self oi'" "i_type oi' = i_type oi"
    "(packet_key rid p oi, n) \<in> set (nbrs oi')" "router_id (nbr oi' n) = rid"
proof (cases "map_of (nbrs oi) (packet_key rid p oi)")
  case None
  note t = ospf_invD(1)[OF inv]
  obtain oi' where o: "ospf_nbr_get rid p seq p oi = Inr (n_brk oi, oi')" "inserted (packet_key rid p oi) (n_brk oi) oi oi'"
    "router_id (nbr oi' (n_brk oi)) = rid" using nbr_get_new[OF t None p(3)] by blast
  show thesis
  proof (rule that[OF o(1) inserted_inv[OF inv o(2) None] _ _ _ o(3)])
    show "n_brk oi \<noteq> nbr_self oi'" using insertedD(6)[OF o(2)] fresh_nbr(2)[OF t] by simp
  qed (simp_all add: insertedD(1,4)[OF o(2)] tab_insert_set)
next
  case (Some n)
  obtain oi' where o: "ospf_nbr_get rid p seq p oi = Inr (n, oi')" "ospf_inv oi'" "n \<noteq> nbr_self oi'" "nbrs oi' = nbrs oi" "i_type oi' = i_type oi"
    "router_id (nbr oi' n) = rid" using nbr_get_old[OF inv Some p(1,2)] by blast
  then show thesis using that Some map_of_SomeD by metis
qed

section \<open>Hello packets\<close>

lemma quiet_other_trans:
  "quiet oi o1 \<Longrightarrow> n \<noteq> nbr_self oi \<Longrightarrow> (\<And>x. nview (f x) = nview x \<and> n_state (f x) = n_state x) \<Longrightarrow> quiet oi (upd_nbr n f o1)"
  by (rule quiet_trans[OF _ quiet_other]) (auto simp: quiet_self)

lemma hello_info_quiet: "quiet oi o1 \<Longrightarrow> n \<noteq> nbr_self oi \<Longrightarrow> quiet oi (hello_info n h o1)"
  unfolding hello_info_def by (rule quiet_other_trans) (simp_all add: nview_def)

lemma hello_changes_quiet: "quiet oi o1 \<Longrightarrow> quiet oi (hello_changes n h o1)"
  unfolding hello_changes_def Let_def by (auto intro!: quiet_log_trans)

lemma hello_ok:
  assumes inv: "ospf_inv oi" and p: "p \<noteq> i_address oi" "p \<noteq> 0"
  shows "\<exists>oi'. ospf_hello ps rid p seq h sz oi = Inr oi' \<and> ospf_inv oi'"
proof -
  define o1 where "o1 = oi\<lparr>hello_in := hello_in oi + 1\<rparr>"
  have "quiet oi o1" by (simp add: o1_def quiet_def tview_def sview_def DR_def BDR_def)
  then have i1: "ospf_inv o1" using quiet_inv(1) inv by blast
  have u1: "use_nbr (nbr_self oi) o1 = Inr o1" using table_live(1)[OF ospf_invD(1)[OF i1]] by (simp add: o1_def)
  show ?thesis
  proof (cases "hello_check ps rid h o1")
    case None
    with i1 u1 show ?thesis by (simp add: ospf_hello_def o1_def[symmetric])
  next
    case (Some opts)
    then have "rid \<noteq> my_router_id o1" by (auto simp: hello_check_def)
    moreover have "p \<noteq> i_address o1" using p by (simp add: o1_def)
    ultimately obtain n o2 where g: "ospf_nbr_get rid p seq p o1 = Inr (n, o2)" "ospf_inv o2" "n \<noteq> nbr_self o2"
      "(packet_key rid p o1, n) \<in> set (nbrs o2)"
      using nbr_get_ok[OF i1 _ _ p(2)] by blast
    have u2: "use_nbr n o2 = Inr o2" using g(4) table_okD(3)[OF ospf_invD(1)[OF g(2)], of n] by force
    define o3 where "o3 = log_call (Nsm_schedule n NSM_PacketReceived) o2"
    define o4 where "o4 = (if i_type o3 = OSPF_IFTYPE_NBMA \<and> PRIORITY o3 = 0 \<and> h_priority h > 0 \<and> DR o3 \<noteq> p \<and> BDR o3 \<noteq> p
        then upd_nbr n (\<lambda>x. x\<lparr>t_hello_reply := True\<rparr>) o3 else o3)"
    have q: "quiet o2 o4" using g(3) by (auto simp: o4_def o3_def nview_def intro!: quiet_other_trans quiet_log)
    have u: "quiet o2 (upd_nbr n (\<lambda>x. x\<lparr>options := options x OR opts\<rparr>) (log_call c o4))" for c
      by (rule quiet_other_trans[OF quiet_log_trans[OF q] g(3)]) (simp add: nview_def)
    have "\<exists>oi'. ospf_hello ps rid p seq h sz oi = Inr oi' \<and> quiet o2 oi'"
      unfolding ospf_hello_def Let_def o1_def[symmetric] u1 bindR_simps Some option.case g(1) prod.case u2 o3_def[symmetric] o4_def[symmetric]
      by (auto intro!: hello_info_quiet hello_changes_quiet quiet_log_trans q g(3) u)
    then show ?thesis using quiet_inv(1) g(2) by blast
  qed
qed

section \<open>Static neighbors\<close>

lemma nbma_add_ok:
  assumes inv: "ospf_inv oi" and a: "a \<noteq> 0"
  shows "\<exists>oi'. ospf_nbr_nbma_add p a prio b oi = Inr oi' \<and> ospf_inv oi'"
proof (cases "i_type oi \<noteq> OSPF_IFTYPE_NBMA \<or> b \<or> n_address (nbr oi (nbr_self oi)) = a")
  case True
  with inv table_live(1)[OF ospf_invD(1)[OF inv]] show ?thesis by (auto simp: ospf_nbr_nbma_add_def)
next
  case False
  then have add: "i_type oi = OSPF_IFTYPE_NBMA" "\<not> b" "n_address (nbr oi (nbr_self oi)) \<noteq> a" by auto
  have u: "use_nbr (nbr_self oi) oi = Inr oi" using table_live(1)[OF ospf_invD(1)[OF inv]] by simp
  define o1 where "o1 = oi\<lparr>nbma_list := nbma_list oi @ [(p, a)]\<rparr>"
  have q: "quiet oi o1" by (simp add: o1_def quiet_def tview_def sview_def DR_def BDR_def)
  then have i1: "ospf_inv o1" using quiet_inv(1) inv by blast
  show ?thesis
  proof (cases "map_of (nbrs o1) a")
    case (Some n)
    have "quiet o1 (log_call (Nbma_attach p n) (upd_nbr n (\<lambda>x. x\<lparr>nbr_nbma := Some p\<rparr>) o1))"
      by (intro quiet_intros) (simp add: nview_def)
    then have "ospf_inv (log_call (Nbma_attach p n) (upd_nbr n (\<lambda>x. x\<lparr>nbr_nbma := Some p\<rparr>) o1))" using quiet_inv(1) i1 by blast
    moreover have "n_live o1 n" using table_okD(3)[OF ospf_invD(1)[OF i1], of n] map_of_SomeD[OF Some] by force
    ultimately show ?thesis using Some add u by (simp add: ospf_nbr_nbma_add_def o1_def[symmetric])
  next
    case None
    define n where "n = n_brk o1"
    define f where "f = (\<lambda>x. x\<lparr>n_state := NSM_Down, src := a, nbr_nbma := Some p, priority := uint prio, n_address := a\<rparr> :: ospf_neighbor)"
    define o2 where "o2 = log_call (Nbma_attach p n) (upd_nbr n f ((snd (ospf_nbr_new o1))\<lparr>nbrs := tab_insert a n (nbrs o1)\<rparr>))"
    have f: "nbr_self o1 \<noteq> n" using fresh_nbr(2)[OF ospf_invD(1)[OF i1]] by (simp add: n_def)
    have ty: "i_type o1 = OSPF_IFTYPE_NBMA" using add(1) by (simp add: o1_def)
    have "inserted a n o1 o2"
      using f a ty unfolding inserted_def
      by (simp add: o2_def f_def n_def ospf_nbr_new_def DR_def BDR_def ospf_nbr_key_def nview_def)
    then have i2: "ospf_inv o2" and l: "n_live o2 n" "n \<noteq> nbr_self o2"
      using inserted_inv[OF i1 _ None] f insertedD(2,6)[of a n o1 o2] by (auto simp: n_def)
    have "ospf_nbr_nbma_add p a prio b oi = ospf_nsm_event n NSM_Start o2"
      using add None u by (simp add: ospf_nbr_nbma_add_def o1_def[symmetric] ospf_nbr_new_def o2_def f_def n_def)
    moreover obtain nx o3 where "nx \<noteq> NSM_DependUpon" "moved n nx o2 o3"
      "ospf_nsm_event n NSM_Start o2 = Inr (if nx = NSM_Deleted then nbr_deleted n o3 else o3)"
      by (rule nsm_event_moves[OF i2 l, of NSM_Start]) auto
    ultimately show ?thesis using moved_inv[OF i2 l] by auto
  qed
qed

section \<open>Histories of an interface\<close>

lemma add_interface_ok:
  assumes "a \<noteq> 0"
  shows "\<exists>oi. add_ospf_interface ty a env = Inr oi \<and> ospf_inv oi"
proof -
  define e where "e = (snd (ospf_nbr_new (ospf_if_new ty a env)))\<lparr>nbr_self := 0\<rparr>"
  have e: "nbrs e = []" "nbr_self e = 0" "n_brk e = 1" "n_live e = (\<lambda>n. n = 0)" "DR e = 0" "BDR e = 0" "i_address e = a" "i_state e = ISM_Down"
    "full_nbrs e = 0" "\<not> t_hello e" "\<not> t_wait e" "\<not> t_ls_ack e"
    by (auto simp: e_def ospf_if_new_def ospf_nbr_new_def DR_def BDR_def new_nbr_def fun_eq_iff)
  have add: "add_ospf_interface ty a env = ospf_nbr_add_self e"
    by (simp add: add_ospf_interface_def first_self_def ospf_nbr_new_def e_def ospf_if_new_def)
  define oi where "oi = (upd_nbr 0 (self_fields e) e)\<lparr>nbrs := [(self_key e, 0)]\<rparr>"
  have o: "ospf_nbr_add_self e = Inr oi" "nbr_self oi = 0" "n_brk oi = 1" "DR oi = DR e" "BDR oi = BDR e"
    "i_address oi = a" "my_router_id oi = my_router_id e" "i_state oi = ISM_Down" "full_nbrs oi = 0" "n_live oi = (\<lambda>n. n = 0)"
    "nview (nbr oi 0) = (a, my_router_id e, a)" "n_state (nbr oi 0) = NSM_TwoWay" "nbrs oi = [(ospf_nbr_key oi (nbr oi 0), 0)]"
    "\<not> t_hello oi" "\<not> t_wait oi" "\<not> t_ls_ack oi"
    using e by (simp_all add: oi_def add_self_eq DR_def BDR_def)
  have "table_ok oi" using o assms unfolding table_ok_def by (simp add: nview_def)
  moreover have "roles_ok oi" using o e(5,6) assms by (simp add: roles_ok_def settled_def ospf_ism_state_def state_order)
  moreover have "itimers_ok oi" using o by (simp add: itimers_ok_def state_order)
  moreover have "states_ok oi" "full_count oi = 0" using o by (simp_all add: states_ok_def full_count_def)
  ultimately show ?thesis using add o by (simp add: ospf_inv_def)
qed

text \<open>
  Steps: events of the two machines, for the interface and for neighbors in the table, received
  Hello packets that the router did not send itself, static neighbors, timers, and whatever other
  modules do to the fields of neighbors and of the interface that the invariant is not about.
  The type of the interface and the identifier of the router do not change.  The address of a new
  interface is not 0.0.0.0: the interfaces that \<open>ospf_vl_new\<close> makes for virtual links, which have that
  address until \<open>ospf_vl_set_params\<close> gives them another one, are not among these histories.
\<close>

inductive ospf_reach :: "ospf_interface \<Rightarrow> bool" where
  reach_new: "a \<noteq> 0 \<Longrightarrow> add_ospf_interface ty a env = Inr oi \<Longrightarrow> ospf_reach oi"
| reach_ism: "ospf_reach oi \<Longrightarrow> ism_allowed ev oi \<Longrightarrow> ospf_ism_event ev oi = Inr oi' \<Longrightarrow> ospf_reach oi'"
| reach_nsm: "ospf_reach oi \<Longrightarrow> n_live oi n \<Longrightarrow> n \<noteq> nbr_self oi \<Longrightarrow> nev \<noteq> NSM_NoEvent \<Longrightarrow> ospf_nsm_event n nev oi = Inr oi' \<Longrightarrow>
    ospf_reach oi'"
| reach_hello: "ospf_reach oi \<Longrightarrow> p \<noteq> i_address oi \<Longrightarrow> p \<noteq> 0 \<Longrightarrow> ospf_hello ps rid p seq h sz oi = Inr oi' \<Longrightarrow> ospf_reach oi'"
| reach_nbma: "ospf_reach oi \<Longrightarrow> a \<noteq> 0 \<Longrightarrow> ospf_nbr_nbma_add i a prio b oi = Inr oi' \<Longrightarrow> ospf_reach oi'"
| reach_hello_timer: "ospf_reach oi \<Longrightarrow> t_hello oi \<Longrightarrow> ospf_reach (ospf_hello_timer oi)"
| reach_wait_timer: "ospf_reach oi \<Longrightarrow> t_wait oi \<Longrightarrow> ospf_reach (ospf_wait_timer oi)"
| reach_inactivity: "ospf_reach oi \<Longrightarrow> ospf_inactivity_timer n oi = Inr oi' \<Longrightarrow> ospf_reach oi'"
| reach_db_desc: "ospf_reach oi \<Longrightarrow> ospf_db_desc_timer n oi = Inr oi' \<Longrightarrow> ospf_reach oi'"
| reach_other: "ospf_reach oi \<Longrightarrow> quiet oi oi' \<Longrightarrow> ospf_reach oi'"

lemma nsm_event_ok:
  assumes inv: "ospf_inv oi" and n: "n_live oi n" "n \<noteq> nbr_self oi" "ev \<noteq> NSM_NoEvent"
  shows "\<exists>oi'. ospf_nsm_event n ev oi = Inr oi' \<and> ospf_inv oi'"
  using nsm_event_moves[OF inv n] moved_inv[OF inv n(1,2)] by metis

lemma hello_timer_inv:
  assumes "ospf_inv oi" "t_hello oi"
  shows "ospf_inv (ospf_hello_timer oi)"
proof -
  have "quiet oi (ospf_hello_timer oi)"
    using assms(2) by (simp add: quiet_def ospf_hello_timer_def tview_def sview_def DR_def BDR_def)
  then show ?thesis using quiet_inv(1) assms(1) by blast
qed

lemma wait_timer_inv:
  assumes "ospf_inv oi"
  shows "ospf_inv (ospf_wait_timer oi)"
proof -
  let ?o = "ospf_wait_timer oi"
  have t: "tview ?o = tview oi" by (simp add: ospf_wait_timer_def tview_def)
  have "roles_ok ?o" using ospf_invD(2)[OF assms] roles_ok_view[of ?o oi] by (simp add: ospf_wait_timer_def DR_def BDR_def)
  moreover have "itimers_ok ?o" "states_ok ?o" "full_count ?o = full_count oi" "full_nbrs ?o = full_nbrs oi"
    using ospf_invD(3,4)[OF assms] by (simp_all add: ospf_wait_timer_def itimers_ok_def states_ok_def full_count_def)
  ultimately show ?thesis using table_ok_view[OF t] ospf_invD(1,5)[OF assms] by (simp add: ospf_inv_def)
qed

lemma nbr_timers_quiet:
  "ospf_inactivity_timer n oi = Inr oi' \<Longrightarrow> quiet oi oi'" "ospf_db_desc_timer n oi = Inr oi' \<Longrightarrow> quiet oi oi'"
  by (auto simp: ospf_inactivity_timer_def ospf_db_desc_timer_def nview_def Let_def bindR_eq_Inr intro!: quiet_intros split: if_splits)

lemma ospf_reach_inv: "ospf_reach oi \<Longrightarrow> ospf_inv oi"
proof (induction rule: ospf_reach.induct)
  case (reach_new a ty env oi)
  then show ?case using add_interface_ok[of a ty env] by auto
next
  case (reach_ism oi ev oi')
  then show ?case using ism_event_ok[of oi ev] by auto
next
  case (reach_nsm oi n nev oi')
  then show ?case using nsm_event_ok[of oi n nev] by auto
next
  case (reach_nbma oi a i prio b oi')
  then show ?case using nbma_add_ok[of oi a i prio b] by auto
next
  case (reach_other oi oi')
  then show ?case using quiet_inv(1) by blast
next
  case (reach_hello oi p ps rid seq h sz oi')
  then show ?case using hello_ok[of oi p ps rid seq h sz] by auto
next
  case (reach_inactivity oi n oi')
  then show ?case using quiet_inv(1) nbr_timers_quiet(1) by blast
next
  case (reach_db_desc oi n oi')
  then show ?case using quiet_inv(1) nbr_timers_quiet(2) by blast
qed (simp_all add: hello_timer_inv wait_timer_inv)

section \<open>What the neighbor machine does\<close>

lemma next_state:
  assumes inv: "ospf_inv oi" and n: "n_live oi n" "n \<noteq> nbr_self oi" "ev \<noteq> NSM_NoEvent" and e: "ospf_nsm_event n ev oi = Inr oi'"
  obtains nx o1 where "nsm_next n ev oi = Inr (nx, o1)" "n_state (nbr oi' n) = nx" "\<And>m. m \<noteq> n \<Longrightarrow> n_state (nbr oi' m) = n_state (nbr oi m)"
    "n_live oi' n \<longleftrightarrow> nx \<noteq> NSM_Deleted"
proof -
  obtain nx o1 o2 where m: "nsm_next n ev oi = Inr (nx, o1)" "moved n nx oi o2"
    "oi' = (if nx = NSM_Deleted then nbr_deleted n o2 else o2)"
    by (rule nsm_event_moves[OF inv n]) (use e in auto)
  have t: "tview o2 = tview oi" using m(2) by (simp add: moved_def)
  have tab: "table_ok o2" using table_ok_view[OF t] ospf_invD(1)[OF inv] by simp
  have l: "n_live o2 n" using n(1) tviewD(4)[OF t] by simp
  have d: "n_state (nbr oi' m) = n_state (nbr o2 m)" for m
    using m(3) by (simp add: nbr_delete_entry[OF tab l] nbr_free_sel)
  have "n_live oi' n \<longleftrightarrow> nx \<noteq> NSM_Deleted" using m(3) l by (simp add: nbr_delete_entry[OF tab l] nbr_free_sel)
  with that m(1,2) d show thesis by (simp add: moved_def)
qed

lemma next_table:
  assumes "nsm_next n ev oi = Inr (nx, o1)"
  defines "st \<equiv> n_state (nbr oi n)"
  shows "nx = (case snd (NSM st ev) of NSM_DependUpon \<Rightarrow>
      (case fst (NSM st ev) of Some Nsm_twoway_received \<Rightarrow> nsm_twoway_received n oi | Some Nsm_exchange_done \<Rightarrow> fst (nsm_exchange_done n oi)
       | Some Nsm_adj_ok \<Rightarrow> nsm_adj_ok n oi | _ \<Rightarrow> NSM_DependUpon) | s \<Rightarrow> s)"
proof -
  obtain func s where t: "NSM st ev = (func, s)" by (cases "NSM st ev")
  show ?thesis
  proof (cases func)
    case None
    with assms t show ?thesis by (cases s) (simp_all add: nsm_next_def)
  next
    case (Some f)
    with assms t obtain st' oi' where c: "nsm_call f n oi = Inr (st', oi')" "nx = (if s = NSM_DependUpon then st' else s)"
      by (auto simp: nsm_next_def bindR_eq_Inr)
    then have "nsm_apply f n oi = Inr (st', oi')" by (simp add: nsm_call_eq_Inr)
    with Some t c(2) show ?thesis by (cases f; cases s) (auto simp: bindR_eq_Inr dest!: use_self_eq_Inr)
  qed
qed

text \<open>
  C20: The neighbor machine builds an adjacency step by step.  In every reachable interface an
  event of a neighbor other than the router itself leaves the states of all other neighbors as they
  are.  From a state below ExStart the neighbor enters ExStart exactly when an adjacency is wanted
  (\<open>nsm_should_adj\<close>) and it has just become bidirectional or \<open>AdjOK?\<close> comes in state 2-Way; from a state
  above it falls back to ExStart exactly by \<open>SeqNumberMismatch\<close> or \<open>BadLSReq\<close>; it enters Exchange
  exactly by \<open>NegotiationDone\<close> in ExStart; it becomes fully adjacent exactly by \<open>ExchangeDone\<close> with no
  LSA left to request, or by \<open>LoadingDone\<close>; and it leaves the table exactly when it is killed, times
  out or its link goes down.
\<close>

theorem adjacency_steps:
  assumes "ospf_reach oi" "n_live oi n" "n \<noteq> nbr_self oi" "ev \<noteq> NSM_NoEvent" "ospf_nsm_event n ev oi = Inr oi'"
  defines "st \<equiv> n_state (nbr oi n)" and "st' \<equiv> n_state (nbr oi' n)"
  shows "(\<forall>m. m \<noteq> n \<longrightarrow> n_state (nbr oi' m) = n_state (nbr oi m)) \<and>
    (st < NSM_ExStart \<longrightarrow> (st' = NSM_ExStart \<longleftrightarrow>
      nsm_should_adj n oi \<and> (st = NSM_Init \<and> ev = NSM_TwoWayReceived \<or> st = NSM_TwoWay \<and> ev = NSM_AdjOK))) \<and>
    (st > NSM_ExStart \<longrightarrow> (st' = NSM_ExStart \<longleftrightarrow> ev \<in> {NSM_SeqNumberMismatch, NSM_BadLSReq})) \<and>
    (st \<noteq> NSM_Exchange \<longrightarrow> (st' = NSM_Exchange \<longleftrightarrow> st = NSM_ExStart \<and> ev = NSM_NegotiationDone)) \<and>
    (st \<noteq> NSM_Full \<longrightarrow> (st' = NSM_Full \<longleftrightarrow>
      st = NSM_Exchange \<and> ev = NSM_ExchangeDone \<and> ls_req (nbr oi n) = [] \<or> st = NSM_Loading \<and> ev = NSM_LoadingDone)) \<and>
    (n_live oi' n \<longleftrightarrow> ev \<notin> {NSM_KillNbr, NSM_InactivityTimer, NSM_LLDown})"
proof -
  note inv = ospf_reach_inv[OF assms(1)]
  obtain nx o1 where nx: "nsm_next n ev oi = Inr (nx, o1)" "st' = nx" "\<And>m. m \<noteq> n \<Longrightarrow> n_state (nbr oi' m) = n_state (nbr oi m)"
    "n_live oi' n \<longleftrightarrow> nx \<noteq> NSM_Deleted"
    unfolding st'_def by (rule next_state[OF inv assms(2-5)]) blast
  have st: "st \<noteq> NSM_DependUpon" "st \<noteq> NSM_Deleted" using ospf_invD(4)[OF inv] assms(2) by (auto simp: st_def states_ok_def)
  note t = next_table[OF nx(1), folded st_def]
  have adj: "nsm_adj_ok n oi = (if st = NSM_TwoWay \<and> nsm_should_adj n oi then NSM_ExStart
      else if st \<ge> NSM_ExStart \<and> \<not> nsm_should_adj n oi then NSM_TwoWay else st)"
    by (simp add: nsm_adj_ok_def st_def Let_def)
  have "(st < NSM_ExStart \<longrightarrow> (nx = NSM_ExStart \<longleftrightarrow>
      nsm_should_adj n oi \<and> (st = NSM_Init \<and> ev = NSM_TwoWayReceived \<or> st = NSM_TwoWay \<and> ev = NSM_AdjOK))) \<and>
    (st > NSM_ExStart \<longrightarrow> (nx = NSM_ExStart \<longleftrightarrow> ev \<in> {NSM_SeqNumberMismatch, NSM_BadLSReq})) \<and>
    (st \<noteq> NSM_Exchange \<longrightarrow> (nx = NSM_Exchange \<longleftrightarrow> st = NSM_ExStart \<and> ev = NSM_NegotiationDone)) \<and>
    (st \<noteq> NSM_Full \<longrightarrow> (nx = NSM_Full \<longleftrightarrow>
      st = NSM_Exchange \<and> ev = NSM_ExchangeDone \<and> ls_req (nbr oi n) = [] \<or> st = NSM_Loading \<and> ev = NSM_LoadingDone)) \<and>
    (nx \<noteq> NSM_Deleted \<longleftrightarrow> ev \<notin> {NSM_KillNbr, NSM_InactivityTimer, NSM_LLDown})"
    unfolding t using st assms(4)
    by (cases st; cases ev) (simp_all add: adj nsm_twoway_received_def nsm_exchange_done_def state_order)
  then show ?thesis using nx(2-4) by blast
qed

section \<open>Changes of the identifier and of the type\<close>

text \<open>The router enters the table unless another neighbor is there under its key.\<close>

lemma add_self_cases:
  "n_live oi (nbr_self oi) \<Longrightarrow> (\<exists>n. map_of (nbrs oi) (self_key oi) = Some n \<and> n \<noteq> nbr_self oi) \<Longrightarrow> ospf_nbr_add_self oi = Inl Assert_failed"
  "n_live oi (nbr_self oi) \<Longrightarrow> map_of (nbrs oi) (self_key oi) = None \<Longrightarrow>
     \<exists>oi'. ospf_nbr_add_self oi = Inr oi' \<and> DR oi' = DR oi \<and> BDR oi' = BDR oi \<and> i_state oi' = i_state oi"
  by (auto simp: add_self_eq DR_def BDR_def)

lemma reset_base:
  assumes inv: "ospf_inv oi" and r: "rid \<noteq> my_router_id oi"
  obtains e where "router_id_reset rid oi = ospf_nbr_add_self e" "set (nbrs e) = {x \<in> set (nbrs oi). snd x \<noteq> nbr_self oi}"
    "sorted_wrt (<) (map fst (nbrs e))" "nbr_self e = n_brk oi" "DR e = 0" "BDR e = 0" "i_state e = i_state oi"
    "self_key e = packet_key rid (i_address oi) oi" "n_live e (nbr_self e)"
proof -
  note t = ospf_invD(1)[OF inv]
  let ?s = "nbr_self oi" and ?k = "ospf_nbr_key oi (nbr oi (nbr_self oi))"
  have l: "n_live oi ?s" using table_okD(3,8)[OF t] by blast
  define o1 where "o1 = oi\<lparr>my_router_id := rid\<rparr>"
  define d where "d = ospf_nbr_free ?s (o1\<lparr>nbrs := tab_delete ?k (nbrs oi)\<rparr>)"
  have key: "ospf_nbr_key o1 x = ospf_nbr_key oi x" for x by (simp add: ospf_nbr_key_def o1_def)
  have "nbr_deleted ?s o1 = d"
    using table_entry(2)[OF t l] unfolding nbr_deleted_def Let_def key by (simp add: d_def o1_def)
  moreover have "n_live o1 ?s" using l by (simp add: o1_def)
  ultimately have del: "ospf_nbr_delete (nbr_self o1) o1 = Inr d" by (simp add: ospf_nbr_delete_def o1_def)
  note sel = nbr_free_sel[of ?s "o1\<lparr>nbrs := tab_delete ?k (nbrs oi)\<rparr>", folded d_def]
  define e where "e = d\<lparr>nbr := (nbr d)(n_brk d := new_nbr), n_live := (n_live d)(n_brk d := True), n_brk := n_brk d + 1, nbr_self := n_brk d\<rparr>"
  have "router_id_reset rid oi = ospf_nbr_self_reset o1" using r by (simp add: router_id_reset_def o1_def)
  then have "router_id_reset rid oi = ospf_nbr_add_self e"
    unfolding ospf_nbr_self_reset_def del by (simp add: ospf_nbr_new_def e_def)
  moreover have "set (nbrs e) = {x \<in> set (nbrs oi). snd x \<noteq> ?s}" using table_others[OF t l] by (simp add: e_def sel)
  moreover have "sorted_wrt (<) (map fst (nbrs e))" using tab_delete_keys[OF table_okD(1)[OF t]] by (simp add: e_def sel)
  ultimately show thesis using that
    by (simp add: e_def sel DR_def BDR_def new_nbr_def self_key_def packet_key_def o1_def)
qed

text \<open>
  C38: A new router identifier is fatal on the interfaces that index their neighbors by
  identifier when it is the identifier of a neighbor: \<open>ospf_nbr_self_reset\<close> finds the neighbor in the
  place of the router, and its assertion aborts the daemon.  In all other cases the reset
  returns, but it forgets the designated router and the backup while the interface stays in its
  state, so that a designated router is left in state DR with no designated router.
\<close>

theorem router_id_change_fails:
  assumes "ospf_reach oi" "rid \<noteq> my_router_id oi"
  shows "(router_id_reset rid oi = Inl Assert_failed \<longleftrightarrow>
      (i_type oi = OSPF_IFTYPE_VIRTUALLINK \<or> i_type oi = OSPF_IFTYPE_POINTOPOINT) \<and>
      (\<exists>n. n_live oi n \<and> n \<noteq> nbr_self oi \<and> router_id (nbr oi n) = rid)) \<and>
    (router_id_reset rid oi \<noteq> Inl Assert_failed \<longrightarrow>
      (\<exists>oi'. router_id_reset rid oi = Inr oi' \<and> DR oi' = 0 \<and> BDR oi' = 0 \<and> i_state oi' = i_state oi))"
proof -
  note inv = ospf_reach_inv[OF assms(1)]
  note t = ospf_invD(1)[OF inv]
  let ?k = "packet_key rid (i_address oi) oi"
  let ?clash = "(i_type oi = OSPF_IFTYPE_VIRTUALLINK \<or> i_type oi = OSPF_IFTYPE_POINTOPOINT) \<and>
      (\<exists>n. n_live oi n \<and> n \<noteq> nbr_self oi \<and> router_id (nbr oi n) = rid)"
  obtain e where e: "router_id_reset rid oi = ospf_nbr_add_self e" "set (nbrs e) = {x \<in> set (nbrs oi). snd x \<noteq> nbr_self oi}"
    "sorted_wrt (<) (map fst (nbrs e))" "nbr_self e = n_brk oi" "DR e = 0" "BDR e = 0" "i_state e = i_state oi" "self_key e = ?k" "n_live e (nbr_self e)"
    by (rule reset_base[OF inv assms(2)])
  have look: "map_of (nbrs e) ?k = Some n \<longleftrightarrow> n_live oi n \<and> n \<noteq> nbr_self oi \<and> ospf_nbr_key oi (nbr oi n) = ?k" for n
  proof -
    have "map_of (nbrs e) ?k = Some n \<longleftrightarrow> (?k, n) \<in> set (nbrs oi) \<and> n \<noteq> nbr_self oi" using tab_lookup[OF e(3)] e(2) by simp
    then show ?thesis using table_entry(1)[OF t, of n] table_okD(3)[OF t, of n] table_okD(5)[OF t, of ?k n] by force
  qed
  have elsewhere: "ospf_nbr_key oi (nbr oi n) \<noteq> ?k" if "n_live oi n" "n \<noteq> nbr_self oi" "\<not> (i_type oi = OSPF_IFTYPE_VIRTUALLINK \<or> i_type oi = OSPF_IFTYPE_POINTOPOINT)" for n
  proof -
    have l: "n_live oi (nbr_self oi)" using table_okD(3,8)[OF t] by blast
    have "ospf_nbr_key oi (nbr oi (nbr_self oi)) = ?k"
      using table_okD(6)[OF t table_entry(1)[OF t l]] table_okD(9)[OF t] that(3) by (simp add: ospf_nbr_key_def packet_key_def)
    then show ?thesis using table_entry(2)[OF t l] table_entry(2)[OF t that(1)] that(2) by force
  qed
  have clash: "?clash \<longleftrightarrow> (\<exists>n. map_of (nbrs e) ?k = Some n)"
    unfolding look using elsewhere by (auto simp: packet_key_def ospf_nbr_key_def)
  show ?thesis
  proof (cases "map_of (nbrs e) ?k")
    case None
    then obtain oi' where "ospf_nbr_add_self e = Inr oi'" "DR oi' = 0" "BDR oi' = 0" "i_state oi' = i_state oi"
      using add_self_cases(2)[OF e(9)] e by auto
    with None clash e(1) show ?thesis by auto
  next
    case (Some n)
    then have "n \<noteq> nbr_self e" using look[of n] table_okD(4)[OF t, of n] e(4) by auto
    then have "ospf_nbr_add_self e = Inl Assert_failed" using add_self_cases(1)[OF e(9)] Some e(8) by auto
    with Some clash e(1) show ?thesis by auto
  qed
qed

text \<open>
  C39: A change of the type of an interface from one that indexes its neighbors by identifier (point-to-point,
  virtual link) to one that indexes them by address leaves the router in the table under its identifier: the
  interface is taken down, which enters the router anew, before its type changes.  When its identifier is
  not the address of the interface, the router does not find itself by its own address then, so that as designated router it describes the network
  as a stub in its router LSA, and the table is no longer the one of an interface of the new type.
\<close>

theorem type_change_hides_router:
  assumes "ospf_reach oi" "i_type oi = OSPF_IFTYPE_VIRTUALLINK \<or> i_type oi = OSPF_IFTYPE_POINTOPOINT"
    "ty \<noteq> OSPF_IFTYPE_VIRTUALLINK" "ty \<noteq> OSPF_IFTYPE_POINTOPOINT" "my_router_id oi \<noteq> i_address oi"
  shows "\<exists>oi'. ospf_if_reset_type ty oi = Inr oi' \<and> i_type oi' = ty \<and> i_address oi' = i_address oi \<and>
    nbrs oi' = [(my_router_id oi, nbr_self oi')] \<and> ospf_nbr_lookup_by_addr (i_address oi') oi' = None \<and> \<not> table_ok oi'"
proof -
  note inv = ospf_reach_inv[OF assms(1)]
  obtain o1 where o1: "cleaned oi o1" "ospf_ism_event ISM_InterfaceDown oi = Inr (enter ISM_Down o1)" "ospf_inv (enter ISM_Down o1)"
    by (rule down_event[OF inv]) blast
  note td = tviewD[OF enter_view(1)[of ISM_Down o1]]
  define o2 where "o2 = (enter ISM_Down o1)\<lparr>i_type := ty\<rparr>"
  have own: "router_id (nbr o1 (nbr_self o1)) = my_router_id oi"
    using table_okD(10)[of o1] o1(1) by (simp add: cleaned_def)
  have n2: "nbrs o2 = [(my_router_id oi, nbr_self o2)]" "i_address o2 = i_address oi" "i_type o2 = ty" "i_state o2 = ISM_Down"
    using o1(1) assms(2) own by (auto simp: o2_def td enter_view cleaned_def ospf_nbr_key_def)
  have src2: "src (nbr o2 (nbr_self o2)) = i_address oi"
    using table_okD(6,8,9)[OF ospf_invD(1)[OF o1(3)]] n2(1,2) by (auto simp: o2_def)
  have l2: "use_self o2 = Inr o2" using table_live(1)[OF ospf_invD(1)[OF o1(3)]] by (simp add: o2_def)
  define oi' where "oi' = (if i_state oi > ISM_Down then enter (fst (ism_interface_up o2)) (snd (ism_interface_up o2)) else o2)"
  have up: "fst (ism_interface_up o2) \<noteq> ISM_DependUpon" "quiet o2 (snd (ism_interface_up o2))"
    by (auto simp: ism_interface_up_def intro: quiet_log quiet_refl)
  have "ospf_ism_event ISM_InterfaceUp o2 = Inr (enter (fst (ism_interface_up o2)) (snd (ism_interface_up o2)))"
    using ism_step_enter[of ospf_if_cleanup o2 ISM_InterfaceUp "fst (ism_interface_up o2)" "snd (ism_interface_up o2)"] up(1) n2(4)
    by (simp add: ospf_ism_event_def l2)
  then have r: "ospf_if_reset_type ty oi = Inr oi'" using o1(2) by (simp add: ospf_if_reset_type_def Let_def o2_def[symmetric] oi'_def)
  have "tview oi' = tview o2" using up(2) enter_view(1) by (simp add: oi'_def quiet_def)
  note t' = tviewD[OF this]
  have "\<not> table_ok oi'"
    using table_okD(5)[of oi' "my_router_id oi" "nbr_self oi'"] n2 src2 assms(3-5) by (auto simp: t' ospf_nbr_key_def)
  with r show ?thesis using n2 assms(5) by (auto simp: t' ospf_nbr_lookup_by_addr_def)
qed

section \<open>The interface as a whole\<close>

text \<open>
  C18: The state of an interface is consistent after every history of interface events, neighbor
  events, Hello packets, static neighbors and timers.  The table of neighbors is sorted by its keys and has
  exactly one entry for each allocated neighbor, under its key, and one of them is the router
  itself; the roles the router declares are those of the state of the interface, and only networks that
  elect a designated router are in a state with an election; the hello timer runs exactly from state Waiting on,
  the wait timer only in state Waiting and the acknowledgment timer only in the states above; no
  neighbor is left in state Deleted; and \<open>full_nbrs\<close> is the number of fully adjacent neighbors.
\<close>

theorem ospf_interface_invariant:
  assumes "ospf_reach oi"
  shows "sorted_wrt (<) (map fst (nbrs oi)) \<and> distinct (map snd (nbrs oi)) \<and> (\<forall>n. n_live oi n \<longleftrightarrow> n \<in> snd ` set (nbrs oi)) \<and>
    (\<forall>(k, n)\<in>set (nbrs oi). k = ospf_nbr_key oi (nbr oi n)) \<and> nbr_self oi \<in> snd ` set (nbrs oi) \<and>
    (if i_state oi \<ge> ISM_DROther then i_state oi = ospf_ism_state oi else ospf_ism_state oi = ISM_DROther) \<and>
    (i_state oi = ISM_Waiting \<or> i_state oi \<ge> ISM_DROther \<longrightarrow> elects oi) \<and>
    (t_hello oi \<longleftrightarrow> i_state oi \<ge> ISM_Waiting) \<and> (t_wait oi \<longrightarrow> i_state oi = ISM_Waiting) \<and> (t_ls_ack oi \<longrightarrow> i_state oi \<ge> ISM_PointToPoint) \<and>
    (\<forall>n. n_live oi n \<longrightarrow> n_state (nbr oi n) \<noteq> NSM_DependUpon \<and> n_state (nbr oi n) \<noteq> NSM_Deleted) \<and>
    full_nbrs oi = of_nat (length (filter (\<lambda>n. n_state (nbr oi n) = NSM_Full) (map snd (nbrs oi))))"
  using ospf_reach_inv[OF assms] unfolding ospf_inv_def table_ok_def roles_ok_def settled_def itimers_ok_def states_ok_def full_count_def
  by auto


text \<open>
  An interface that goes down forgets its neighbors: after \<open>InterfaceDown\<close> the table holds the
  router alone, as a newly allocated neighbor, no designated router and no backup is known, no
  neighbor counts as fully adjacent, all timers are off and the state is Down.
\<close>

theorem interface_down_clears:
  assumes "ospf_reach oi"
  shows "\<exists>oi'. ospf_ism_event ISM_InterfaceDown oi = Inr oi' \<and> i_state oi' = ISM_Down \<and> map snd (nbrs oi') = [nbr_self oi'] \<and>
    (\<forall>n. n_live oi' n \<longleftrightarrow> n = nbr_self oi') \<and> DR oi' = 0 \<and> BDR oi' = 0 \<and> full_nbrs oi' = 0 \<and>
    \<not> t_hello oi' \<and> \<not> t_wait oi' \<and> \<not> t_ls_ack oi'"
proof -
  note inv = ospf_reach_inv[OF assms]
  obtain o1 where o1: "cleaned oi o1" "ospf_ism_event ISM_InterfaceDown oi = Inr (enter ISM_Down o1)" "ospf_inv (enter ISM_Down o1)"
    by (rule down_event[OF inv]) blast
  let ?o = "enter ISM_Down o1"
  note td = tviewD[OF enter_view(1)[of ISM_Down o1]]
  have n: "nbrs ?o = [(ospf_nbr_key o1 (nbr o1 (nbr_self o1)), nbr_self ?o)]" using o1(1) by (simp add: td cleaned_def)
  then have "n_live ?o m \<longleftrightarrow> m = nbr_self ?o" for m using table_okD(3)[OF ospf_invD(1)[OF o1(3)], of m] by auto
  moreover have "full_nbrs ?o = 0"
    using ospf_invD(5)[OF o1(3)] table_okD(11)[OF ospf_invD(1)[OF o1(3)]] n by (simp add: full_count_def)
  moreover have "\<not> t_hello ?o \<and> \<not> t_wait ?o \<and> \<not> t_ls_ack ?o"
    using ospf_invD(3)[OF o1(3)] by (auto simp: itimers_ok_def enter_view state_order)
  ultimately show ?thesis using o1(1,2) n by (simp add: enter_view cleaned_def)
qed

text \<open>
  C21: The neighbor a packet comes from is found again: for a packet of another router from another
  address, \<open>ospf_nbr_get\<close> returns a neighbor, new or not, and \<open>ospf_nbr_lookup\<close> with the source address and the identifier of the packet returns the
  same neighbor, which has that identifier and is not the router itself.
\<close>

theorem neighbor_found_again:
  assumes "ospf_reach oi" "rid \<noteq> my_router_id oi" "ip_src \<noteq> i_address oi" "ip_src \<noteq> 0"
  shows "\<exists>n oi'. ospf_nbr_get rid ip_src seq ip_src oi = Inr (n, oi') \<and>
    ospf_nbr_lookup ip_src rid oi' = Some n \<and> n_live oi' n \<and> router_id (nbr oi' n) = rid \<and> n \<noteq> nbr_self oi'"
proof -
  obtain n oi' where get: "ospf_nbr_get rid ip_src seq ip_src oi = Inr (n, oi')" and
    g: "ospf_inv oi'" "n \<noteq> nbr_self oi'" "i_type oi' = i_type oi" "(packet_key rid ip_src oi, n) \<in> set (nbrs oi')" "router_id (nbr oi' n) = rid"
    using nbr_get_ok[OF ospf_reach_inv[OF assms(1)] assms(2-4), of seq] by blast
  note t = ospf_invD(1)[OF g(1)]
  have l: "n_live oi' n" using table_okD(3)[OF t, of n] g(4) by force
  have look: "map_of (nbrs oi') (packet_key rid ip_src oi) = Some n" using tab_lookup[OF table_okD(1)[OF t]] g(4) by simp
  have "find (\<lambda>m. router_id (nbr oi' m) = rid) (map snd (nbrs oi')) = Some n"
    if p: "i_type oi = OSPF_IFTYPE_VIRTUALLINK \<or> i_type oi = OSPF_IFTYPE_POINTOPOINT"
  proof -
    have only: "m = n" if "m \<in> set (map snd (nbrs oi'))" "router_id (nbr oi' m) = rid" for m
    proof -
      have "n_live oi' m" using table_okD(3)[OF t, of m] that(1) by simp
      then have "map_of (nbrs oi') (ospf_nbr_key oi' (nbr oi' m)) = Some m" by (rule table_entry(2)[OF t])
      moreover have "ospf_nbr_key oi' (nbr oi' m) = packet_key rid ip_src oi" using p g(3) that(2) by (auto simp: ospf_nbr_key_def packet_key_def)
      ultimately show ?thesis using look by simp
    qed
    obtain m where m: "find (\<lambda>m. router_id (nbr oi' m) = rid) (map snd (nbrs oi')) = Some m"
      using find_None_iff[of "\<lambda>m. router_id (nbr oi' m) = rid" "map snd (nbrs oi')"] g(4,5) by (cases "find (\<lambda>m. router_id (nbr oi' m) = rid) (map snd (nbrs oi'))") force+
    then have "m \<in> set (map snd (nbrs oi'))" "router_id (nbr oi' m) = rid" unfolding find_Some_iff by force+
    with only m show ?thesis by blast
  qed
  then have "ospf_nbr_lookup ip_src rid oi' = Some n"
    using look g(3) by (auto simp: ospf_nbr_lookup_def ospf_nbr_lookup_by_addr_def ospf_nbr_lookup_by_routerid_def packet_key_def)
  with l g get show ?thesis by blast
qed

section \<open>An example\<close>

text \<open>
  A point-to-point interface with the address 1, of the router with the identifier 9, which has received a
  Hello packet from the router with the identifier 7 and the address 2.
\<close>

definition ex_new :: ospf_interface where
  "ex_new = projr (add_ospf_interface OSPF_IFTYPE_POINTOPOINT 1 ex_if)"

definition ex_params :: if_params where
  "ex_params = \<lparr>if_prefixlen = 24, v_wait = 40, v_hello = 10, fast_hello = 0, opaque_capable = True\<rparr>"

definition ex_packet :: ospf_hello_packet where
  "ex_packet = \<lparr>network_mask = [255, 255, 255, 0], hello_interval = 10, h_options = 0x42, h_priority = 1, dead_interval = 40,
     h_d_router = 0, h_bd_router = 0, neighbors = [9]\<rparr>"

definition ex_one :: ospf_interface where
  "ex_one = projr (ospf_hello ex_params 7 2 None ex_packet 24 ex_new)"

lemma ex_new_reach: "ospf_reach ex_new"
proof -
  obtain oi where "add_ospf_interface OSPF_IFTYPE_POINTOPOINT 1 ex_if = Inr oi" using add_interface_ok[of 1] by auto
  then show ?thesis using reach_new[of 1 OSPF_IFTYPE_POINTOPOINT ex_if oi] by (simp add: ex_new_def)
qed

lemma ex_new_address: "i_address ex_new = 1"
  by code_simp

lemma ex_one_reach: "ospf_reach ex_one"
proof -
  obtain oi where "ospf_hello ex_params 7 2 None ex_packet 24 ex_new = Inr oi"
    using hello_ok[OF ospf_reach_inv[OF ex_new_reach], of 2 ex_params 7 None ex_packet 24] by (auto simp: ex_new_address)
  then show ?thesis using reach_hello[OF ex_new_reach, of 2 ex_params 7 None ex_packet 24 oi] by (simp add: ex_one_def ex_new_address)
qed

lemma ex_one_facts:
  "i_type ex_one = OSPF_IFTYPE_POINTOPOINT" "i_address ex_one = 1" "my_router_id ex_one = 9" "nbr_self ex_one = 0" "n_live ex_one 1"
  "router_id (nbr ex_one 1) = 7" "n_state (nbr ex_one 1) = NSM_Down" "map snd (nbrs ex_one) = [1, 0]" "n_state (nbr ex_one 0) = NSM_TwoWay"
  by code_simp+

definition ex_init :: ospf_interface where
  "ex_init = projr (ospf_nsm_event 1 NSM_PacketReceived ex_one)"

lemma ex_init_reach: "ospf_reach ex_init"
proof -
  obtain oi where "ospf_nsm_event 1 NSM_PacketReceived ex_one = Inr oi"
    using nsm_event_ok[OF ospf_reach_inv[OF ex_one_reach], of 1 NSM_PacketReceived] ex_one_facts by auto
  then show ?thesis using reach_nsm[OF ex_one_reach, of 1 NSM_PacketReceived oi] ex_one_facts by (simp add: ex_init_def)
qed

lemma ex_init_facts: "n_live ex_init 1" "nbr_self ex_init = 0" "n_state (nbr ex_init 1) = NSM_Init" "nsm_should_adj 1 ex_init"
  by code_simp+

theorem ospf_interface_invariant_witness: "sorted_wrt (<) (map fst (nbrs ex_one)) \<and> full_nbrs ex_one = 0"
proof -
  have "filter (\<lambda>n. n_state (nbr ex_one n) = NSM_Full) (map snd (nbrs ex_one)) = []" using ex_one_facts by simp
  moreover have "sorted_wrt (<) (map fst (nbrs ex_one)) \<and>
    full_nbrs ex_one = of_nat (length (filter (\<lambda>n. n_state (nbr ex_one n) = NSM_Full) (map snd (nbrs ex_one))))"
    using ospf_interface_invariant[OF ex_one_reach] by (elim conjE) (intro conjI)
  ultimately show ?thesis by simp
qed


theorem adjacency_steps_witness:
  "\<exists>oi'. ospf_nsm_event 1 NSM_TwoWayReceived ex_init = Inr oi' \<and> n_state (nbr oi' 1) = NSM_ExStart \<and> n_live oi' 1"
proof -
  obtain oi' where e: "ospf_nsm_event 1 NSM_TwoWayReceived ex_init = Inr oi'"
    using nsm_event_ok[OF ospf_reach_inv[OF ex_init_reach], of 1 NSM_TwoWayReceived] ex_init_facts by auto
  have "n_state (nbr oi' 1) = NSM_ExStart \<and> n_live oi' 1"
    using adjacency_steps[OF ex_init_reach ex_init_facts(1) _ _ e] ex_init_facts by (simp add: state_order)
  with e show ?thesis by blast
qed

theorem neighbor_found_again_witness:
  "\<exists>n oi'. ospf_nbr_get 7 2 None 2 ex_one = Inr (n, oi') \<and> ospf_nbr_lookup 2 7 oi' = Some n"
  using neighbor_found_again[OF ex_one_reach, of 7 2 None] ex_one_facts by auto

theorem router_id_change_fails_witness: "router_id_reset 7 ex_one = Inl Assert_failed"
proof -
  have "\<exists>n. n_live ex_one n \<and> n \<noteq> nbr_self ex_one \<and> router_id (nbr ex_one n) = 7"
    using ex_one_facts by (intro exI[of _ 1]) simp
  then show ?thesis using router_id_change_fails[OF ex_one_reach, of 7] by (simp add: ex_one_facts(1,3))
qed

theorem type_change_hides_router_witness:
  "\<exists>oi'. ospf_if_reset_type OSPF_IFTYPE_BROADCAST ex_one = Inr oi' \<and> ospf_nbr_lookup_by_addr 1 oi' = None"
  using type_change_hides_router[OF ex_one_reach, of OSPF_IFTYPE_BROADCAST] ex_one_facts by auto

end
