(* ===== verification/Spec2Isabelle.thy ===== *)
theory Spec2Isabelle
  imports Packet_Stream Checksum Vec Pqueue Linklist Keychain Scheduler_Inv Route_Table_Reach Hash_Table Plist
    Access_List_Ops Buffer Community Workqueue Ospf_Reach
begin

text \<open>
  A verification library for the routing suite Quagga 1.2.4 (src/lab3/quagga-1.2.4), the C
  program of the repository.  The daemons of the suite (zebra, bgpd, ospfd, ripd, isisd and
  others) are event-driven programs built on one library, lib/.  The development models the
  core of that library, the parts that every daemon's correctness rests on, and on top of it a
  module of bgpd and the two state machines of ospfd:

  \<^item> the cooperative scheduler (lib/thread.c), which keeps its threads in lists, descriptor
    arrays and the timer heaps of lib/pqueue.c;
  \<^item> the packet buffers (lib/stream.c) and checksums (lib/checksum.c) of the protocols;
  \<^item> the containers: vectors (lib/vector.c), linked lists (lib/linklist.c), hash tables
    (lib/hash.c);
  \<^item> prefixes (lib/prefix.c) and the radix trees of routes (lib/table.c) that the routing
    information bases are made of;
  \<^item> prefix lists (lib/plist.c) and access lists (lib/filter.c), the filters of routes, clients
    of prefixes;
  \<^item> the keys of authentication key chains (lib/keychain.c), a client of the linked lists;
  \<^item> work queues (lib/workqueue.c), a client of the scheduler and the linked lists;
  \<^item> the write buffers of terminals and sockets (lib/buffer.c);
  \<^item> the communities attribute of bgpd (bgpd/bgp\_community.c), a client of the hash tables;
  \<^item> the interfaces and neighbors of ospfd (ospfd/ospf\_ism.c, ospfd/ospf\_nsm.c,
    ospfd/ospf\_neighbor.c), state machines that run each other, fed by received Hello packets.

  \<^bold>\<open>The machine.\<close>  Prelude fixes the integer types (words for \<open>u_char\<close>, \<open>uint16_t\<close>,
  \<open>uint32_t\<close>; \<open>uadd\<close>, \<open>usub\<close>, \<open>umul\<close> for \<open>unsigned int\<close> and \<open>size_t\<close> held as naturals) and the
  outcomes of a C function: a value, or one of the errors of \<open>c_error\<close> (a failed assertion, an
  access outside an object or to a released one, a signed overflow).  The configuration is that
  of config.h: a little-endian machine with 64 bit \<open>long\<close>, \<open>HAVE_IPV6\<close>, assertions enabled.
  \<open>XMALLOC\<close> and its relatives abort when memory runs out, so the model treats memory as
  unlimited.  Pointer structures are heaps: maps from addresses to records, in which following
  a null pointer or a pointer to a released object is an error.  Two heaps are total maps: the
  threads of the scheduler, which are never released while the scheduler runs but recycled
  through its list \<open>unuse\<close>, and the neighbors of an OSPF interface, which carry the set of allocated
  ones (\<open>n_live\<close>): there every handler, timer and change of state checks the neighbors it uses
  (\<open>use_nbr\<close>, \<open>use_table\<close>, \<open>use_self\<close>), while the searches through the table of neighbors read it
  without a check.  Loops whose length depends on
  a pointer structure are partial functions into \<open>option\<close>, with \<open>None\<close> for a loop that does
  not end; all other loops are total functions with a measure.  No fuel is used: theorems about
  such loops state that the value is \<open>Some\<close>.

  \<^bold>\<open>Theories and sources.\<close>
  \<^item> Contracts: the interfaces that components implement, as locales: keyed stores
    (\<open>map_ops\<close>, implemented by the vectors), sequences (\<open>seq_ops\<close>, implemented by the linked
    lists), comparison callbacks (\<open>comparator\<close>, implemented by the timer and key comparisons).
  \<^item> Packet\_Stream (lib/stream.c, lib/stream.h): record \<open>stream\<close>; one definition per
    operation, with the checks of the macros.  A message is read back as it was written; no
    sequence of calls that respects \<open>op_ok\<close> leaves the buffer; the 64 bit wrap-around of
    \<open>stream_getc_from\<close>'s check and the second buffer of \<open>stream_recvmsg\<close>, which \<open>op_ok\<close> excludes; the FIFO as a queue, and the stale \<open>next\<close> pointer of a popped stream.
  \<^item> Checksum (lib/checksum.c): a message into which \<open>in_cksum\<close> or \<open>fletcher_checksum\<close> stored
    its result verifies; the bound on the chunk size of the Fletcher sum.
  \<^item> Vec (lib/vector.c): vectors implement finite maps; slot allocation; the size computation
    of \<open>vector_copy\<close>.
  \<^item> Pqueue (lib/pqueue.c): the hole-moving loops agree with swapping, keep the elements and
    the heap order.
  \<^item> Dll, Linklist (lib/linklist.c): the pointer surgery on doubly linked lists, proved once in
    Dll for any pair of link fields; lists implement sequences.
  \<^item> Keychain (lib/keychain.c): key numbers stay sorted; the key chosen for sending; matching
    against a key without a string.
  \<^item> Scheduler, Scheduler\_Inv (lib/thread.c): records \<open>thread\<close> and \<open>thread_master\<close>; in every
    reachable state each thread is in exactly the structure that its type names; cancelling,
    event cancelling and timer expiry; the descriptors that can be monitored, below both the limit
    of open files and the \<open>FD_SETSIZE\<close> of an \<open>fd_set\<close>; the stale timeout of \<open>thread_fetch\<close>.
  \<^item> Prefix (lib/prefix.c): \<open>net\<close>, the bit string a prefix stands for; matching, masks, common
    bits and string conversions in terms of it.
  \<^item> Route\_Table (lib/table.c, lib/table.h): records \<open>route_node\<close> and \<open>route_table\<close>, every
    operation, the iterator.  Route\_Tree, Route\_Table\_Inv, Route\_Table\_Ops and
    Route\_Table\_Reach hold the theory: the heap represents a binary tree ordered by the bits of
    the networks (\<open>wft\<close>), with contexts for positions in it; insertion and deletion replace one
    subtree; the invariant \<open>tinv\<close> holds in every table that clients can reach (\<open>rt_reach\<close>, an
    inductive relation over the calls of a client that keeps the rules for references).  On
    these tables every call returns without a failed assertion, \<open>route_node_match\<close> finds the
    longest match, an iterator visits every node once in order whether or not it is paused, and
    \<open>route_table_free\<close> releases everything.
  \<^item> Hash\_Table (lib/hash.c): chains, expansion and the stop rule; tables implement a pool of
    data for callbacks that satisfy the locale \<open>hash_callbacks\<close>, interpreted for
    \<open>string_hash_make\<close>.
  \<^item> Plist (lib/plist.c, lib/plist\_int.h): records \<open>prefix_list_entry\<close> and \<open>prefix_list\<close> on the
    node heap of Linklist, whose link fields have the same role; the pointer surgery comes from
    Dll.  Installing a rule keeps the list sorted (\<open>plist_ok\<close>), the first matching rule decides,
    removing a rule removes the first entry it names; a rule with \<open>ge\<close> and \<open>le 32\<close> cannot be
    removed by the command that names it.
  \<^item> Access\_List, Access\_List\_Ops (lib/filter.c, lib/filter.h): records \<open>access_list\<close>, \<open>afilter\<close> and
    \<open>acls\<close>, the state of the two masters with the heaps of access lists and filters; the union of
    a filter is a datatype, and reading the member that was not stored gives the bytes that lie
    there.  One definition per function and per family of commands; the commands are those of
    the datatype \<open>acl_cmd\<close>, and \<open>acl_reach\<close> is the relation of reachable states.  The invariant
    \<open>consistent\<close> holds there, and the commands end but for the two kinds of names in
    \<open>name_error\<close>; \<open>acl_holds\<close> is what a name stands for, \<open>changed\<close> and \<open>updated\<close> what a command does
    to it; the first filter that matches decides.  Removing one filter of several hides the
    rest, and a numbered list without a name makes the next insertion crash.
  \<^item> Buffer (lib/buffer.c, lib/buffer.h): records \<open>buffer\<close> and \<open>buffer_data\<close>, the chain of chunks
    on a heap.  The operating system is a parameter: a function from its state to the result of
    the next write, of which \<open>write_contract\<close> says that it takes no more bytes than it is given.
    A buffer is a queue of bytes (\<open>holds\<close>): whatever the system does with the writes, the bytes
    arrive in order and none is lost; \<open>buffer_flush_all\<close> ends unless the system refuses the same
    bytes forever (\<open>refuses_forever\<close>); what a terminal window shows.
  \<^item> Community (bgpd/bgp\_community.c, bgpd/bgp\_community.h): record \<open>community\<close>, and \<open>comstate\<close> for
    all communities in memory with the table \<open>comhash\<close>.  Communities in canonical form are sets;
    their strings, but the empty one, are parsed back.  The callbacks of the table satisfy \<open>hash_callbacks\<close> of
    Hash\_Table for the communities as they are in memory; by rule induction over the calls of a
    client (\<open>interned\<close>), reference counts are exact and equal values are one pointer.
  \<^item> Workqueue (lib/workqueue.c, lib/workqueue.h): records \<open>work_queue\<close>, \<open>work_queue_item\<close> and
    \<open>wqstate\<close>, the state of a queue with the scheduler and the heap of list nodes it works on.
    The client's functions are parameters (\<open>wq_spec\<close>): they see and change the client's state and
    may add items while the queue runs.  The invariant \<open>winv\<close> rests on that of the scheduler
    (\<open>reach\<close>) and of the lists (\<open>lwf\<close>); \<open>wq_reach\<close> is the relation of reachable states.  No wake-up
    is lost, runs return, a queue is drained in order; runs without requeued items never
    reduce the granularity.
  \<^item> Ospf\_Ism, Ospf\_Nsm, Ospf\_Inv, Ospf\_Reach (ospfd/ospf\_ism.c, ospfd/ospf\_nsm.c,
    ospfd/ospf\_neighbor.c, parts of ospfd/ospf\_interface.c, ospfd/ospf\_packet.c and ospfd/ospfd.c):
    records \<open>ospf_interface\<close> and \<open>ospf_neighbor\<close>, the two transition tables \<open>ISM\<close> and \<open>NSM\<close>, their
    functions and timers, the table of neighbors as the list of its entries in the order of
    the route table, \<open>ospf_hello\<close>.  Calls of other modules are recorded in order.  The election
    follows RFC 2328 and is settled by its two rounds; the invariant \<open>ospf_inv\<close> holds in every interface
    that events, packets and timers can reach (\<open>ospf_reach\<close>), where every event returns; what
    moves an adjacency forward; the neighbor of a packet is found again.  The interface machine
    relies on the cleanup of an interface through the locale \<open>interface_cleanup\<close>, interpreted for
    \<open>ospf_if_cleanup\<close>.  A new router identifier can fail an assertion, and a change of the type of
    an interface misplaces the router in the table unless its identifier is the address of the
    interface; both are outside the reachable histories.  So are virtual links as \<open>ospf_vl_new\<close>
    makes them, with the address 0.0.0.0 that \<open>ospf_vl_set_params\<close> replaces later: a reachable
    interface of any type has been created with a nonzero address.

  \<^bold>\<open>Bounds.\<close>  Reference counters of route nodes are 32 bit and not checked by the code; the
  theorems about calls that take a reference assume that no counter is at its maximum
  (\<open>room\<close>).  Node counters are proved modulo \<open>2 ^ 64\<close>.  Hash keys are assumed below \<open>2 ^ 30\<close>,
  because the doubling of the index overflows at \<open>2 ^ 31\<close> chains.  Vector indices are assumed
  below \<open>2 ^ 31\<close> and lists shorter than \<open>2 ^ 32\<close>.  Prefix lists have fewer than \<open>2 ^ 31 - 1\<close> entries
  and sequence numbers at most \<open>INT_MAX - 5\<close> (\<open>entries_ok\<close>), because the next number is computed
  in an \<open>int\<close>.  An attribute has a 16 bit length, so that an interned community has at most 16383
  values and its hash key, the sum of its bytes, is below \<open>2 ^ 30\<close>; fewer than \<open>2 ^ 64\<close> references
  are held at a time.  A window of a terminal is assumed to have fewer than \<open>INT_MAX\<close> cells, because
  \<open>buffer_flush_window\<close> computes their number in an \<open>int\<close>.  A work queue has fewer than \<open>2 ^ 32\<close>
  items, those included that the client's functions add on their own (\<open>budget\<close>); runs return when
  \<open>max_retries\<close> is below \<open>2 ^ 16\<close>, because the counter of an item has 16 bits.  The array of the
  background timers is assumed to have fewer than \<open>2 ^ 30\<close> places when a thread is added.  The counts of the lists of threads are \<open>int\<close> and wrap around,
  \<open>alloc\<close> is proved modulo \<open>2 ^ 64\<close>; descriptors are not negative and the limit of open files is
  below \<open>2 ^ 31\<close>.  A yield check returns an \<open>int\<close>, into which the elapsed time is truncated.
  Hello packets come from an address that is neither 0 nor the router's own, which the reception
  of packets (\<open>ospf_read\<close>) ensures; loopback interfaces are looped and never brought up, the others
  never looped (\<open>ism_allowed\<close>), as in \<open>ospf_if_up\<close>.

  \<^bold>\<open>Not modelled.\<close>  Release of memory where it has no effect on the rest (\<open>stream_free\<close> and the
  like); the clock and the CPU statistics of the scheduler; the output of the display and
  configuration commands; the masters that hold prefix lists and key chains by name; the parser
  of command lines, terminals, logging; the operating system interfaces, interfaces and the
  client of zebra, which are calls of the system and message plumbing; route maps and
  distribute lists; the daemons but for the communities of bgpd and the interfaces and neighbors of
  ospfd (the link-state database, flooding, the description and request packets and the
  calculation of routes are not modelled), whose protocol engines are an order of magnitude
  larger than the library and rest on it; vendored code (c-ares, regex,
  getopt) and the course exercises beside the suite.
\<close>

end
